(* ===== verification/Miqs_Prelude.thy ===== *)
theory Miqs_Prelude
  imports Main "HOL-Library.Word"
begin

text \<open>
  Shared vocabulary of the development: the machine types of the LP64 little-endian host the
  program is built for, C strings as byte lists without their terminating NUL, the ways a C
  expression can go wrong as the values of an error type, and the generic facts on byte
  encodings, lists and the error monad that the component theories use.

  Allocation is taken to succeed everywhere, as the C code mostly does itself (it rarely checks
  \<^verbatim>\<open>calloc\<close>).
\<close>

section \<open>Machine types and C strings\<close>

type_synonym byte = "8 word"
type_synonym c_int = "32 word"
type_synonym size_t = "64 word"
type_synonym uint64 = "64 word"
type_synonym cstring = "byte list"

text \<open>A C double is carried by its IEEE-754 bit pattern.\<close>

type_synonym c_double = "64 word"

text \<open>Collections used by the component proofs.\<close>

named_theorems enc_simps
named_theorems stream_simps

text \<open>The terminator of a C string is not part of it; a buffer is read up to its first NUL.\<close>

definition no_nul :: "cstring \<Rightarrow> bool" where
  "no_nul s \<longleftrightarrow> 0 \<notin> set s"

definition cstr :: "byte list \<Rightarrow> cstring" where
  "cstr buf = takeWhile (\<lambda>b. b \<noteq> 0) buf"

text \<open>The bytes of an Isabelle string, for readable examples.\<close>

definition str :: "string \<Rightarrow> cstring" where
  "str s = map of_char s"

text \<open>The decimal digits of a number, as \<^verbatim>\<open>printf\<close> writes them for \<^verbatim>\<open>%d\<close>.\<close>

fun dec_nat :: "nat \<Rightarrow> cstring" where
  "dec_nat n = (if n < 10 then [of_nat (48 + n)] else dec_nat (n div 10) @ [of_nat (48 + n mod 10)])"

declare dec_nat.simps [simp del]

definition dec_int :: "int \<Rightarrow> cstring" where
  "dec_int i = (if i < 0 then str ''-'' @ dec_nat (nat (- i)) else dec_nat (nat i))"

text \<open>
  The ways an operation can go wrong. \<open>Bad_Pointer\<close> is the use of a pointer that was never set, or of
  an object through a pointer to another type; \<open>No_Return\<close> stands for a call that does not come back.
  \<open>key_at s i\<close> reads \<^verbatim>\<open>s[i]\<close>: the characters, then the terminator; anything further is outside
  the object.
\<close>

datatype c_error = Null_Deref | Out_Of_Bounds | Div_By_Zero | No_Such_File | Bad_Pointer | No_Return

definition key_at :: "cstring \<Rightarrow> nat \<Rightarrow> c_error + byte" where
  "key_at s i = (if i < length s then Inr (s ! i)
                 else if i = length s then Inr 0 else Inl Out_Of_Bounds)"

section \<open>The error monad\<close>

definition ebind :: "'e + 'a \<Rightarrow> ('a \<Rightarrow> 'e + 'b) \<Rightarrow> 'e + 'b" where
  "ebind m f = (case m of Inl e \<Rightarrow> Inl e | Inr a \<Rightarrow> f a)"

definition deref :: "'a option \<Rightarrow> c_error + 'a" where
  "deref p = (case p of None \<Rightarrow> Inl Null_Deref | Some a \<Rightarrow> Inr a)"

definition nth_chk :: "'a list \<Rightarrow> nat \<Rightarrow> c_error + 'a" where
  "nth_chk xs i = (if i < length xs then Inr (xs ! i) else Inl Out_Of_Bounds)"

section \<open>Little-endian object representation\<close>

fun le_bytes :: "nat \<Rightarrow> nat \<Rightarrow> byte list" where
  "le_bytes 0 x = []"
| "le_bytes (Suc n) x = of_nat (x mod 256) # le_bytes n (x div 256)"

fun le_val :: "byte list \<Rightarrow> nat" where
  "le_val [] = 0"
| "le_val (b # bs) = unat b + 256 * le_val bs"

text \<open>The object representation of an \<^verbatim>\<open>int\<close> and of the eight-byte types.\<close>

definition bytes4 :: "c_int \<Rightarrow> byte list" where
  "bytes4 w = le_bytes 4 (unat w)"

definition bytes8 :: "64 word \<Rightarrow> byte list" where
  "bytes8 w = le_bytes 8 (unat w)"

definition int_of_bytes :: "byte list \<Rightarrow> c_int" where
  "int_of_bytes bs = of_nat (le_val (take 4 bs))"

definition u64_of_bytes :: "byte list \<Rightarrow> 64 word" where
  "u64_of_bytes bs = of_nat (le_val (take 8 bs))"

section \<open>Facts\<close>

lemma ebind_simps [simp]:
  "ebind (Inl e) f = Inl e"
  "ebind (Inr a) f = f a"
  by (simp_all add: ebind_def)

lemma ebind_eq_Inr [simp]:
  "ebind m f = Inr b \<longleftrightarrow> (\<exists>a. m = Inr a \<and> f a = Inr b)"
  by (cases m) (simp_all)

lemma ebind_assoc [simp]:
  "ebind (ebind m f) g = ebind m (\<lambda>x. ebind (f x) g)"
  by (cases m) simp_all

lemma deref_simps [simp]:
  "deref None = Inl Null_Deref"
  "deref (Some a) = Inr a"
  by (simp_all add: deref_def)

lemma deref_eq_Inr [simp]: "deref p = Inr a \<longleftrightarrow> p = Some a"
  by (cases p) simp_all

lemma nth_chk_ok [simp]: "i < length xs \<Longrightarrow> nth_chk xs i = Inr (xs ! i)"
  by (simp add: nth_chk_def)

lemma nth_chk_eq_Inr: "nth_chk xs i = Inr a \<longleftrightarrow> i < length xs \<and> xs ! i = a"
  by (auto simp: nth_chk_def)

lemma unat_byte_bound: "unat (b :: byte) < 256"
  using unsigned_less [of b, where ?'a = nat] by simp

lemma unat_int_bound: "unat (w :: c_int) < 256 ^ 4"
  using unsigned_less [of w, where ?'a = nat] by simp

lemma unat_u64_bound: "unat (w :: 64 word) < 256 ^ 8"
  using unsigned_less [of w, where ?'a = nat] by simp

lemma length_le_bytes [simp]: "length (le_bytes n x) = n"
  by (induction n arbitrary: x) simp_all

lemma unat_of_nat_mod_256 [simp]: "unat (of_nat (x mod 256) :: byte) = x mod 256"
  by (simp add: unat_of_nat)

lemma le_val_le_bytes: "le_val (le_bytes n x) = x mod 256 ^ n"
proof (induction n arbitrary: x)
  case 0
  then show ?case by simp
next
  case (Suc n)
  have "x mod (256 * 256 ^ n) = 256 * (x div 256 mod 256 ^ n) + x mod 256"
    by (rule mod_mult2_eq)
  with Suc show ?case by simp
qed

lemma le_val_bound: "le_val bs < 256 ^ length bs"
proof (induction bs)
  case Nil
  then show ?case by simp
next
  case (Cons b bs)
  have "unat b < 256"
    by (rule unat_byte_bound)
  with Cons show ?case by simp
qed

lemma le_bytes_le_val: "le_bytes (length bs) (le_val bs) = bs"
proof (induction bs)
  case Nil
  then show ?case by simp
next
  case (Cons b bs)
  have "unat b < 256"
    by (rule unat_byte_bound)
  then have "(unat b + 256 * le_val bs) mod 256 = unat b"
    and "(unat b + 256 * le_val bs) div 256 = le_val bs"
    by simp_all
  with Cons show ?case by simp
qed

lemma length_bytes4 [simp]: "length (bytes4 w) = 4"
  by (simp add: bytes4_def)

lemma length_bytes8 [simp]: "length (bytes8 w) = 8"
  by (simp add: bytes8_def)

lemma int_of_bytes4 [simp]: "int_of_bytes (bytes4 w) = w"
  using unat_int_bound [of w] by (simp add: int_of_bytes_def bytes4_def le_val_le_bytes)

lemma u64_of_bytes8 [simp]: "u64_of_bytes (bytes8 w) = w"
  using unat_u64_bound [of w] by (simp add: u64_of_bytes_def bytes8_def le_val_le_bytes)

lemma bytes4_int_of_bytes:
  assumes "length bs = 4"
  shows "bytes4 (int_of_bytes bs) = bs"
proof -
  have "le_val bs < 2 ^ 32"
    using le_val_bound [of bs] assms by simp
  with assms show ?thesis
    using le_bytes_le_val [of bs] by (simp add: bytes4_def int_of_bytes_def unat_of_nat)
qed

lemma bytes8_u64_of_bytes:
  assumes "length bs = 8"
  shows "bytes8 (u64_of_bytes bs) = bs"
proof -
  have "le_val bs < 2 ^ 64"
    using le_val_bound [of bs] assms by simp
  with assms show ?thesis
    using le_bytes_le_val [of bs] by (simp add: bytes8_def u64_of_bytes_def unat_of_nat)
qed

lemma sint_of_nat_small: "int n < 2 ^ 31 \<Longrightarrow> sint (of_nat n :: c_int) = int n"
  by (simp add: signed_of_nat signed_take_bit_int_eq_self)

lemma cstr_no_nul: "no_nul s \<Longrightarrow> cstr (s @ 0 # r) = s"
  unfolding no_nul_def cstr_def by (induction s) auto

lemma cstr_id: "no_nul s \<Longrightarrow> cstr s = s"
  unfolding no_nul_def cstr_def by (induction s) auto

lemma no_nul_cstr [simp]: "no_nul (cstr buf)"
  unfolding no_nul_def cstr_def by (auto dest: set_takeWhileD)

lemma no_nul_simps [simp]:
  "no_nul []"
  "no_nul (b # s) \<longleftrightarrow> b \<noteq> 0 \<and> no_nul s"
  "no_nul (s @ t) \<longleftrightarrow> no_nul s \<and> no_nul t"
  by (auto simp: no_nul_def)

lemma key_at_eq_Inr:
  "key_at s i = Inr b \<longleftrightarrow> i \<le> length s \<and> b = (s @ [0]) ! i"
  by (auto simp: key_at_def nth_append)

end
