(* ===== verification/Linklist.thy ===== *)
theory Linklist
  imports Miqs_Prelude
begin

text \<open>
  The doubly linked list with a cached cursor, src/src/index/libhl/linklist.c: the entry layer
  (\<open>push_entry\<close>, \<open>pick_entry\<close>, ...), the value API and the tagged-value API that holds the path
  tables of the index.

  The chain of entries from \<^verbatim>\<open>head\<close> to \<^verbatim>\<open>tail\<close> is a list; the \<^verbatim>\<open>length\<close> and \<^verbatim>\<open>pos\<close> members are kept as
  fields of their own, as the code updates them by hand. \<open>l_cur\<close> is where in the chain the entry
  that \<^verbatim>\<open>list->cur\<close> points to stands, so it moves when entries before it come or go, whether or
  not the code adjusts \<^verbatim>\<open>list->pos\<close>; that the two agree is the invariant \<open>list_inv\<close>. Lengths and positions
  are natural numbers, for lists of less than \<open>2 ^ 32\<close> entries, the range of the code's unsigned counters. Locking is left out (the list is built
  without \<^verbatim>\<open>THREAD_SAFE\<close>). Sorting is in \<open>Linklist_Sort\<close>.
\<close>

section \<open>State\<close>

record 'a list_entry =
  e_value :: "'a option"
  e_tagged :: bool
  e_list :: bool

record 'a linked_list =
  l_entries :: "'a list_entry list"
  l_cur :: "nat option"
  l_pos :: nat
  l_length :: nat

definition create_entry :: "'a list_entry" where
  "create_entry = \<lparr>e_value = None, e_tagged = False, e_list = False\<rparr>"

definition list_create :: "'a linked_list" where
  "list_create = \<lparr>l_entries = [], l_cur = None, l_pos = 0, l_length = 0\<rparr>"

definition list_count :: "'a linked_list \<Rightarrow> nat" where
  "list_count l = l_length l"

text \<open>Where a pointed-to entry stands after one was put in, or taken out, at \<open>p\<close>.\<close>

definition cur_ins :: "nat \<Rightarrow> nat option \<Rightarrow> nat option" where
  "cur_ins p c = map_option (\<lambda>i. if p \<le> i then Suc i else i) c"

definition cur_del :: "nat \<Rightarrow> nat option \<Rightarrow> nat option" where
  "cur_del p c = map_option (\<lambda>i. if p < i then i - 1 else i) c"

definition remove_nth :: "nat \<Rightarrow> 'a list \<Rightarrow> 'a list" where
  "remove_nth i xs = take i xs @ drop (Suc i) xs"

definition insert_nth :: "nat \<Rightarrow> 'a \<Rightarrow> 'a list \<Rightarrow> 'a list" where
  "insert_nth i x xs = take i xs @ x # drop i xs"

section \<open>Entry layer\<close>

definition pop_entry :: "'a linked_list \<Rightarrow> 'a list_entry option \<times> 'a linked_list" where
  "pop_entry l =
     (case l_entries l of
        [] \<Rightarrow> (None, l)
      | es \<Rightarrow> (Some ((last es)\<lparr>e_list := False\<rparr>),
               l\<lparr>l_entries := butlast es,
                 l_length := l_length l - 1,
                 l_cur := (if l_cur l = Some (length es - 1) then None else l_cur l)\<rparr>))"

definition push_entry :: "'a list_entry option \<Rightarrow> 'a linked_list \<Rightarrow> int \<times> 'a linked_list" where
  "push_entry entry l =
     (case entry of
        None \<Rightarrow> (-1, l)
      | Some e \<Rightarrow>
          (0, l\<lparr>l_entries := (if l_length l = 0 then [e\<lparr>e_list := True\<rparr>]
                             else l_entries l @ [e\<lparr>e_list := True\<rparr>]),
                l_length := l_length l + 1\<rparr>))"

definition shift_entry :: "'a linked_list \<Rightarrow> 'a list_entry option \<times> 'a linked_list" where
  "shift_entry l =
     (case l_entries l of
        [] \<Rightarrow> (None, l)
      | e # es \<Rightarrow>
          (Some (e\<lparr>e_list := False\<rparr>),
           l\<lparr>l_entries := es,
             l_length := l_length l - 1,
             l_cur := (if l_cur l = Some 0 then None else cur_del 0 (l_cur l)),
             l_pos := (if l_cur l = Some 0 then l_pos l else l_pos l - 1)\<rparr>))"

definition unshift_entry :: "'a list_entry option \<Rightarrow> 'a linked_list \<Rightarrow> int \<times> 'a linked_list" where
  "unshift_entry entry l =
     (case entry of
        None \<Rightarrow> (-1, l)
      | Some e \<Rightarrow>
          (0, l\<lparr>l_entries := (if l_length l = 0 then [e\<lparr>e_list := True\<rparr>]
                             else e\<lparr>e_list := True\<rparr> # l_entries l),
                l_length := l_length l + 1,
                l_cur := cur_ins 0 (l_cur l),
                l_pos := (if l_cur l \<noteq> None then l_pos l + 1 else l_pos l)\<rparr>))"

text \<open>
  The pointer walks of \<open>pick_entry\<close>: \<open>k\<close> times \<^verbatim>\<open>entry->next\<close> or \<^verbatim>\<open>entry->prev\<close> in a chain of \<open>n\<close>
  entries. \<open>None\<close> stands for leaving the chain, which only a cursor out of step could do.
\<close>

fun walk_next :: "nat \<Rightarrow> nat \<Rightarrow> nat \<Rightarrow> nat option" where
  "walk_next n i 0 = Some i"
| "walk_next n i (Suc k) = (if Suc i < n then walk_next n (Suc i) k else None)"

fun walk_prev :: "nat \<Rightarrow> nat \<Rightarrow> nat option" where
  "walk_prev i 0 = Some i"
| "walk_prev i (Suc k) = (if 0 < i then walk_prev (i - 1) k else None)"

text \<open>
  \<^verbatim>\<open>(size_t)abs((int)(list->pos - pos)) < half_length\<close>: the difference wraps into an \<^verbatim>\<open>int\<close>, and
  \<^verbatim>\<open>abs(INT_MIN)\<close> stays negative, hence huge as a \<^verbatim>\<open>size_t\<close>.
\<close>

definition near_cursor :: "nat \<Rightarrow> nat \<Rightarrow> nat \<Rightarrow> bool" where
  "near_cursor lpos pos half =
     (let d = sint (of_int (int lpos - int pos) :: c_int)
      in d \<noteq> - (2 ^ 31) \<and> nat \<bar>d\<bar> < half)"

definition pick_entry :: "nat \<Rightarrow> 'a linked_list \<Rightarrow> nat option \<times> 'a linked_list" where
  "pick_entry pos l =
     (if l_length l \<le> pos then (None, l)
      else let half = l_length l div 2;
               n = length (l_entries l);
               from_ends = (if half < pos then walk_prev (n - 1) (l_length l - 1 - pos)
                            else walk_next n 0 pos);
               entry = (case l_cur l of
                          None \<Rightarrow> from_ends
                        | Some c \<Rightarrow>
                            if near_cursor (l_pos l) pos half
                            then if l_pos l < pos then walk_next n c (pos - l_pos l)
                                 else walk_prev c (l_pos l - pos)
                            else from_ends)
           in (entry, if entry \<noteq> None then l\<lparr>l_pos := pos, l_cur := entry\<rparr> else l))"

definition remove_entry :: "nat \<Rightarrow> 'a linked_list \<Rightarrow> 'a list_entry option \<times> 'a linked_list" where
  "remove_entry pos l =
     (case pick_entry pos l of
        (None, l1) \<Rightarrow> (None, l1)
      | (Some i, l1) \<Rightarrow>
          (Some ((l_entries l1 ! i)\<lparr>e_list := False\<rparr>),
           l1\<lparr>l_entries := remove_nth i (l_entries l1),
              l_length := l_length l1 - 1,
              l_cur := (if l_cur l1 = Some i then None else cur_del i (l_cur l1)),
              l_pos := (if l_cur l1 = Some i then 0
                        else if pos < l_pos l1 then l_pos l1 - 1 else l_pos l1)\<rparr>))"

definition fetch_entry :: "nat \<Rightarrow> 'a linked_list \<Rightarrow> 'a list_entry option \<times> 'a linked_list" where
  "fetch_entry pos l =
     (if pos = 0 then shift_entry l
      else if Suc pos = list_count l then pop_entry l
      else remove_entry pos l)"

fun push_empty :: "nat \<Rightarrow> 'a linked_list \<Rightarrow> 'a linked_list" where
  "push_empty 0 l = l"
| "push_empty (Suc k) l = push_empty k (snd (push_entry (Some create_entry) l))"

text \<open>
  \<^verbatim>\<open>pos-1\<close> wraps around at 0 and then picks nothing. A NULL entry survives \<open>push_entry\<close> and
  \<open>unshift_entry\<close> but is dereferenced when it is linked behind \<^verbatim>\<open>prev\<close>. Linking in the middle
  does not set \<^verbatim>\<open>entry->list\<close>.
\<close>

definition insert_entry ::
  "'a list_entry option \<Rightarrow> nat \<Rightarrow> 'a linked_list \<Rightarrow> c_error + (int \<times> 'a linked_list)" where
  "insert_entry entry pos l =
     (let (ret, l1) =
        (if pos = 0 then unshift_entry entry l
         else if pos = l_length l then push_entry entry l
         else if l_length l < pos then push_entry entry (push_empty (pos - l_length l) l)
         else (-1, l))
      in if ret = 0 then Inr (ret, l1)
         else case (if pos = 0 then (None, l1) else pick_entry (pos - 1) l1) of
                (None, l2) \<Rightarrow> Inr (ret, l2)
              | (Some i, l2) \<Rightarrow>
                  (case entry of
                     None \<Rightarrow> Inl Null_Deref
                   | Some e \<Rightarrow>
                       Inr (0, l2\<lparr>l_entries := insert_nth (Suc i) e (l_entries l2),
                                  l_length := l_length l2 + 1,
                                  l_cur := cur_ins (Suc i) (l_cur l2)\<rparr>)))"

definition move_entry :: "nat \<Rightarrow> nat \<Rightarrow> 'a linked_list \<Rightarrow> c_error + (int \<times> 'a linked_list)" where
  "move_entry srcPos dstPos l =
     (case fetch_entry srcPos l of
        (None, l1) \<Rightarrow> Inr (-1, l1)
      | (Some e, l1) \<Rightarrow>
          ebind (insert_entry (Some e) dstPos l1) (\<lambda>(rc, l2).
            if rc = 0 then Inr (0, l2)
            else ebind (insert_entry (Some e) srcPos l2) (\<lambda>(_, l3). Inr (-1, l3))))"

definition swap_entries :: "nat \<Rightarrow> nat \<Rightarrow> 'a linked_list \<Rightarrow> c_error + (int \<times> 'a linked_list)" where
  "swap_entries pos1 pos2 l =
     (if pos1 < pos2 then
        let (e2, l1) = fetch_entry pos2 l
        in ebind (insert_entry e2 pos1 l1) (\<lambda>(_, l2).
             let (e1, l3) = fetch_entry (pos1 + 1) l2
             in ebind (insert_entry e1 pos2 l3) (\<lambda>(_, l4). Inr (0, l4)))
      else if pos2 < pos1 then
        let (e1, l1) = fetch_entry pos1 l
        in ebind (insert_entry e1 pos2 l1) (\<lambda>(_, l2).
             let (e2, l3) = fetch_entry (pos2 + 1) l2
             in ebind (insert_entry e2 pos1 l3) (\<lambda>(_, l4). Inr (0, l4)))
      else Inr (-1, l))"

definition subst_entry ::
  "nat \<Rightarrow> 'a list_entry \<Rightarrow> 'a linked_list \<Rightarrow> c_error + ('a list_entry option \<times> 'a linked_list)" where
  "subst_entry pos entry l =
     (case fetch_entry pos l of
        (None, l1) \<Rightarrow> Inr (None, l1)
      | (Some old, l1) \<Rightarrow> ebind (insert_entry (Some entry) pos l1) (\<lambda>(_, l2). Inr (Some old, l2)))"

section \<open>Value API\<close>

text \<open>An entry taken out of the list has no list any more, so \<^verbatim>\<open>destroy_entry\<close> only frees it.\<close>

definition entry_val :: "'a list_entry option \<Rightarrow> 'a option" where
  "entry_val e = (case e of None \<Rightarrow> None | Some e \<Rightarrow> e_value e)"

definition list_pop_value :: "'a linked_list \<Rightarrow> 'a option \<times> 'a linked_list" where
  "list_pop_value l = (let (e, l') = pop_entry l in (entry_val e, l'))"

definition list_push_value :: "'a option \<Rightarrow> 'a linked_list \<Rightarrow> int \<times> 'a linked_list" where
  "list_push_value val l = push_entry (Some (create_entry\<lparr>e_value := val\<rparr>)) l"

definition list_unshift_value :: "'a option \<Rightarrow> 'a linked_list \<Rightarrow> int \<times> 'a linked_list" where
  "list_unshift_value val l = unshift_entry (Some (create_entry\<lparr>e_value := val\<rparr>)) l"

definition list_shift_value :: "'a linked_list \<Rightarrow> 'a option \<times> 'a linked_list" where
  "list_shift_value l = (let (e, l') = shift_entry l in (entry_val e, l'))"

definition list_insert_value ::
  "'a option \<Rightarrow> nat \<Rightarrow> 'a linked_list \<Rightarrow> c_error + (int \<times> 'a linked_list)" where
  "list_insert_value val pos l = insert_entry (Some (create_entry\<lparr>e_value := val\<rparr>)) pos l"

definition list_pick_value :: "nat \<Rightarrow> 'a linked_list \<Rightarrow> 'a option \<times> 'a linked_list" where
  "list_pick_value pos l =
     (case pick_entry pos l of
        (None, l') \<Rightarrow> (None, l')
      | (Some i, l') \<Rightarrow> (e_value (l_entries l' ! i), l'))"

definition list_fetch_value :: "nat \<Rightarrow> 'a linked_list \<Rightarrow> 'a option \<times> 'a linked_list" where
  "list_fetch_value pos l = (let (e, l') = fetch_entry pos l in (entry_val e, l'))"

definition list_move_value :: "nat \<Rightarrow> nat \<Rightarrow> 'a linked_list \<Rightarrow> c_error + (int \<times> 'a linked_list)" where
  "list_move_value srcPos dstPos l = move_entry srcPos dstPos l"

definition set_entry_value :: "nat \<Rightarrow> 'a option \<Rightarrow> 'a linked_list \<Rightarrow> 'a linked_list" where
  "set_entry_value i val l =
     l\<lparr>l_entries := (l_entries l)[i := (l_entries l ! i)\<lparr>e_value := val\<rparr>]\<rparr>"

definition list_set_value ::
  "nat \<Rightarrow> 'a option \<Rightarrow> 'a linked_list \<Rightarrow> c_error + ('a option \<times> 'a linked_list)" where
  "list_set_value pos newval l =
     (case pick_entry pos l of
        (Some i, l1) \<Rightarrow> Inr (e_value (l_entries l1 ! i), set_entry_value i newval l1)
      | (None, l1) \<Rightarrow> ebind (list_insert_value newval pos l1) (\<lambda>(_, l2). Inr (None, l2)))"

definition list_subst_value :: "nat \<Rightarrow> 'a option \<Rightarrow> 'a linked_list \<Rightarrow> 'a option \<times> 'a linked_list" where
  "list_subst_value pos newval l =
     (case pick_entry pos l of
        (Some i, l1) \<Rightarrow> (e_value (l_entries l1 ! i), set_entry_value i newval l1)
      | (None, l1) \<Rightarrow> (None, l1))"

definition list_swap_values :: "nat \<Rightarrow> nat \<Rightarrow> 'a linked_list \<Rightarrow> c_error + (int \<times> 'a linked_list)" where
  "list_swap_values pos1 pos2 l = swap_entries pos1 pos2 l"

text \<open>\<open>list_clear\<close> shifts entries off until none is left; what it frees is not followed.\<close>

function list_clear :: "'a linked_list \<Rightarrow> 'a linked_list" where
  "list_clear l = (case shift_entry l of (None, l') \<Rightarrow> l' | (Some _, l') \<Rightarrow> list_clear l')"
  by pat_completeness auto
termination
  by (relation "measure (\<lambda>l. length (l_entries l))")
    (auto simp: shift_entry_def split: list.splits)

text \<open>
  Iteration over a slice. The handler gets the value, the index and the user state and returns a
  code: 0 stops, -1 removes the entry and goes on, -2 removes it and stops, anything else goes on.
\<close>

type_synonym ('a, 'u) item_handler = "'a option \<Rightarrow> nat \<Rightarrow> 'u \<Rightarrow> int \<times> 'u"

definition unlink_entry :: "nat \<Rightarrow> 'a linked_list \<Rightarrow> 'a linked_list" where
  "unlink_entry i l =
     l\<lparr>l_entries := remove_nth i (l_entries l),
       l_cur := (if l_cur l = Some i then None else cur_del i (l_cur l)),
       l_length := l_length l - 1\<rparr>"

function slice_loop ::
  "('a, 'u) item_handler \<Rightarrow> nat \<Rightarrow> nat \<Rightarrow> nat \<Rightarrow> 'a linked_list \<Rightarrow> 'u \<Rightarrow> nat \<times> 'a linked_list \<times> 'u"
where
  "slice_loop h i idx slen l u =
     (if i < length (l_entries l) \<and> idx < slen then
        let (rc, u') = h (e_value (l_entries l ! i)) idx u
        in if rc = 0 then (Suc idx, l, u')
           else if rc = -1 then slice_loop h i (Suc idx) (slen - 1) (unlink_entry i l) u'
           else if rc = -2 then (Suc idx, unlink_entry i l, u')
           else slice_loop h (Suc i) (Suc idx) slen l u'
      else (idx, l, u))"
  by pat_completeness auto
termination
  by (relation "measure (\<lambda>(h, i, idx, slen, l, u). length (l_entries l) - i)")
    (auto simp: unlink_entry_def remove_nth_def)

declare slice_loop.simps [simp del]

definition slice_foreach_value ::
  "nat \<Rightarrow> nat \<Rightarrow> ('a, 'u) item_handler \<Rightarrow> 'a linked_list \<Rightarrow> 'u \<Rightarrow> nat \<times> 'a linked_list \<times> 'u" where
  "slice_foreach_value offset slen h l u =
     (case pick_entry offset l of
        (None, l1) \<Rightarrow> (0, l1, u)
      | (Some i, l1) \<Rightarrow> slice_loop h i 0 slen l1 u)"

definition list_foreach_value ::
  "('a, 'u) item_handler \<Rightarrow> 'a linked_list \<Rightarrow> 'u \<Rightarrow> nat \<times> 'a linked_list \<times> 'u" where
  "list_foreach_value h l u = slice_foreach_value 0 (l_length l) h l u"

section \<open>Tagged values\<close>

datatype tv_type = TV_TYPE_STRING | TV_TYPE_BINARY | TV_TYPE_LIST

record tagged_value =
  tv_tag :: "cstring option"
  tv_value :: "byte list option"
  tv_vlen :: nat
  tv_type :: tv_type

text \<open>With a length the bytes are copied and a NUL is put behind them, else the C string is.\<close>

definition list_create_tagged_value :: "cstring option \<Rightarrow> byte list option \<Rightarrow> nat \<Rightarrow> tagged_value" where
  "list_create_tagged_value tag val vlen =
     (case val of
        None \<Rightarrow> \<lparr>tv_tag = tag, tv_value = None, tv_vlen = 0, tv_type = TV_TYPE_STRING\<rparr>
      | Some bs \<Rightarrow>
          if vlen \<noteq> 0
          then \<lparr>tv_tag = tag, tv_value = Some (take vlen bs @ [0]), tv_vlen = vlen,
                tv_type = TV_TYPE_BINARY\<rparr>
          else \<lparr>tv_tag = tag, tv_value = Some (cstr bs @ [0]), tv_vlen = length (cstr bs),
                tv_type = TV_TYPE_STRING\<rparr>)"

definition list_create_tagged_value_nocopy :: "cstring option \<Rightarrow> byte list option \<Rightarrow> tagged_value" where
  "list_create_tagged_value_nocopy tag val =
     \<lparr>tv_tag = tag, tv_value = val, tv_vlen = 0, tv_type = TV_TYPE_STRING\<rparr>"

abbreviation tagged_entry :: "'a \<Rightarrow> 'a list_entry" where
  "tagged_entry tval \<equiv> create_entry\<lparr>e_tagged := True, e_value := Some tval\<rparr>"

definition list_pop_tagged_value :: "'a linked_list \<Rightarrow> 'a option \<times> 'a linked_list" where
  "list_pop_tagged_value l = list_pop_value l"

definition list_push_tagged_value :: "'a option \<Rightarrow> 'a linked_list \<Rightarrow> int \<times> 'a linked_list" where
  "list_push_tagged_value tval l =
     (case tval of None \<Rightarrow> (0, l) | Some t \<Rightarrow> push_entry (Some (tagged_entry t)) l)"

definition list_unshift_tagged_value :: "'a option \<Rightarrow> 'a linked_list \<Rightarrow> int \<times> 'a linked_list" where
  "list_unshift_tagged_value tval l =
     (case tval of None \<Rightarrow> (0, l) | Some t \<Rightarrow> unshift_entry (Some (tagged_entry t)) l)"

definition list_insert_tagged_value ::
  "'a option \<Rightarrow> nat \<Rightarrow> 'a linked_list \<Rightarrow> c_error + (int \<times> 'a linked_list)" where
  "list_insert_tagged_value tval pos l =
     (case tval of None \<Rightarrow> Inr (0, l) | Some t \<Rightarrow> insert_entry (Some (tagged_entry t)) pos l)"

definition list_pick_tagged_value :: "nat \<Rightarrow> 'a linked_list \<Rightarrow> 'a option \<times> 'a linked_list" where
  "list_pick_tagged_value pos l = list_pick_value pos l"

definition list_fetch_tagged_value :: "nat \<Rightarrow> 'a linked_list \<Rightarrow> 'a option \<times> 'a linked_list" where
  "list_fetch_tagged_value pos l = list_fetch_value pos l"

text \<open>The loop bound \<^verbatim>\<open>(int)list_count(list)\<close>: a count of \<open>2 ^ 31\<close> or more turns negative.\<close>

definition int_count :: "'a linked_list \<Rightarrow> int" where
  "int_count l = sint (of_nat (list_count l) :: c_int)"

text \<open>Looking at an entry only moves the cursor.\<close>

lemma pick_value_same:
  assumes "list_pick_value i l = (v, l1)"
  shows "l_entries l1 = l_entries l" and "l_length l1 = l_length l"
  using assms
  by (auto simp: list_pick_value_def pick_entry_def Let_def split: if_splits option.splits prod.splits)

lemma int_count_pick: "list_pick_tagged_value i l = (v, l1) \<Longrightarrow> int_count l1 = int_count l"
  by (simp add: int_count_def list_count_def list_pick_tagged_value_def pick_value_same)

text \<open>\<^verbatim>\<open>strcmp(tval->tag, tag)\<close> dereferences both tags.\<close>

function get_tagged_loop ::
  "nat \<Rightarrow> cstring option \<Rightarrow> tagged_value linked_list \<Rightarrow>
   c_error + (tagged_value option \<times> tagged_value linked_list)"
where
  "get_tagged_loop i tag l =
     (if int i < int_count l then
        (case list_pick_tagged_value i l of
           (None, l1) \<Rightarrow> get_tagged_loop (Suc i) tag l1
         | (Some tval, l1) \<Rightarrow>
             ebind (deref (tv_tag tval)) (\<lambda>t. ebind (deref tag) (\<lambda>g.
               if t = g then Inr (Some tval, l1) else get_tagged_loop (Suc i) tag l1)))
      else Inr (None, l))"
  by pat_completeness auto
termination
  by (relation "measure (\<lambda>(i, tag, l). nat (int_count l) - i)")
    (auto dest!: int_count_pick [OF sym])

declare get_tagged_loop.simps [simp del]

definition list_get_tagged_value ::
  "cstring option \<Rightarrow> tagged_value linked_list \<Rightarrow> c_error + (tagged_value option \<times> tagged_value linked_list)"
where
  "list_get_tagged_value tag l = get_tagged_loop 0 tag l"

text \<open>All values with a tag are pushed on a second list; the count is returned.\<close>

function get_tagged_values_loop ::
  "nat \<Rightarrow> nat \<Rightarrow> cstring option \<Rightarrow> tagged_value linked_list \<Rightarrow> (byte list) linked_list \<Rightarrow>
   c_error + (nat \<times> tagged_value linked_list \<times> (byte list) linked_list)"
where
  "get_tagged_values_loop i ret tag l values =
     (if int i < int_count l then
        (case list_pick_tagged_value i l of
           (None, l1) \<Rightarrow> get_tagged_values_loop (Suc i) ret tag l1 values
         | (Some tval, l1) \<Rightarrow>
             ebind (deref (tv_tag tval)) (\<lambda>t. ebind (deref tag) (\<lambda>g.
               if t = g
               then get_tagged_values_loop (Suc i) (Suc ret) tag l1
                      (snd (list_push_value (tv_value tval) values))
               else get_tagged_values_loop (Suc i) ret tag l1 values)))
      else Inr (ret, l, values))"
  by pat_completeness auto
termination
  by (relation "measure (\<lambda>(i, ret, tag, l, values). nat (int_count l) - i)")
    (auto dest!: int_count_pick [OF sym])

declare get_tagged_values_loop.simps [simp del]

definition list_get_tagged_values ::
  "cstring option \<Rightarrow> tagged_value linked_list \<Rightarrow> (byte list) linked_list \<Rightarrow>
   c_error + (nat \<times> tagged_value linked_list \<times> (byte list) linked_list)"
where
  "list_get_tagged_values tag l values = get_tagged_values_loop 0 0 tag l values"

section \<open>Invariant and abstract view\<close>

definition list_inv :: "'a linked_list \<Rightarrow> bool" where
  "list_inv l \<longleftrightarrow> l_length l = length (l_entries l) \<and>
     (\<forall>c. l_cur l = Some c \<longrightarrow> c < length (l_entries l) \<and> l_pos l = c)"

definition list_values :: "'a linked_list \<Rightarrow> 'a option list" where
  "list_values l = map e_value (l_entries l)"

text \<open>A list seen by two observers as the same: only the cursor may differ.\<close>

definition same_list :: "'a linked_list \<Rightarrow> 'a linked_list \<Rightarrow> bool" where
  "same_list l l' \<longleftrightarrow> l_entries l' = l_entries l \<and> l_length l' = l_length l"

lemma list_invI:
  assumes "l_length l = length (l_entries l)"
    and "\<And>c. l_cur l = Some c \<Longrightarrow> c < length (l_entries l) \<and> l_pos l = c"
  shows "list_inv l"
  using assms by (simp add: list_inv_def)

lemma list_inv_create [simp]: "list_inv list_create"
  by (simp add: list_inv_def list_create_def)

lemma list_values_create [simp]: "list_values list_create = []"
  by (simp add: list_values_def list_create_def)

lemma list_count_values: "list_inv l \<Longrightarrow> list_count l = length (list_values l)"
  by (simp add: list_inv_def list_count_def list_values_def)

lemma same_list_values: "same_list l l' \<Longrightarrow> list_values l' = list_values l"
  by (simp add: same_list_def list_values_def)

lemma same_list_refl [simp]: "same_list l l"
  by (simp add: same_list_def)

lemma same_list_trans: "same_list a b \<Longrightarrow> same_list b c \<Longrightarrow> same_list a c"
  by (simp add: same_list_def)

lemma walk_next_eq: "i + k < n \<Longrightarrow> walk_next n i k = Some (i + k)"
  by (induction k arbitrary: i) simp_all

lemma walk_prev_eq: "k \<le> i \<Longrightarrow> walk_prev i k = Some (i - k)"
  by (induction k arbitrary: i) simp_all

text \<open>Whatever the cursor and the wrap-around in \<open>near_cursor\<close>, the entry at \<open>pos\<close> is found.\<close>

lemma pick_entry_eq:
  assumes "list_inv l"
  shows "pick_entry pos l =
    (if pos < length (l_entries l) then (Some pos, l\<lparr>l_pos := pos, l_cur := Some pos\<rparr>) else (None, l))"
proof (cases "pos < length (l_entries l)")
  case False
  then show ?thesis using assms by (simp add: pick_entry_def list_inv_def)
next
  case True
  let ?n = "length (l_entries l)"
  have len: "l_length l = ?n"
    using assms by (simp add: list_inv_def)
  have "walk_prev (?n - 1) (?n - 1 - pos) = Some pos"
    using True by (subst walk_prev_eq) auto
  moreover have "walk_next ?n 0 pos = Some pos"
    using True by (simp add: walk_next_eq)
  moreover have "(if l_pos l < pos then walk_next ?n c (pos - l_pos l) else walk_prev c (l_pos l - pos))
      = Some pos" if "l_cur l = Some c" for c
    using that assms True by (auto simp: list_inv_def walk_next_eq walk_prev_eq)
  ultimately show ?thesis
    using True len by (simp add: pick_entry_def Let_def split: option.splits)
qed

lemma pick_value_eq:
  assumes "list_inv l" and "list_pick_value pos l = (v, l')"
  shows "v = (if pos < length (list_values l) then list_values l ! pos else None)"
    and "list_inv l'" and "same_list l l'"
  using assms
  by (auto simp: list_pick_value_def pick_entry_eq list_values_def list_inv_def same_list_def
      split: if_splits)

section \<open>Every operation on the abstract list\<close>

lemma push_entry_eq:
  assumes "list_inv l" and "push_entry (Some e) l = (rc, l')"
  shows "rc = 0" and "list_inv l'" and "l_entries l' = l_entries l @ [e\<lparr>e_list := True\<rparr>]"
  using assms by (auto simp: push_entry_def list_inv_def less_SucI)

lemma unshift_entry_eq:
  assumes "list_inv l" and "unshift_entry (Some e) l = (rc, l')"
  shows "rc = 0" and "list_inv l'" and "l_entries l' = e\<lparr>e_list := True\<rparr> # l_entries l"
  using assms by (auto simp: unshift_entry_def list_inv_def cur_ins_def)

lemma pop_entry_eq:
  assumes "list_inv l" and "pop_entry l = (e, l')"
  shows "list_inv l'" and "l_entries l' = butlast (l_entries l)"
    and "entry_val e = (if l_entries l = [] then None else e_value (last (l_entries l)))"
  using assms
  by (auto simp: pop_entry_def list_inv_def entry_val_def split: list.splits if_splits)

lemma shift_entry_eq:
  assumes "list_inv l" and "shift_entry l = (e, l')"
  shows "list_inv l'" and "l_entries l' = tl (l_entries l)"
    and "entry_val e = (if l_entries l = [] then None else e_value (hd (l_entries l)))"
  using assms
  by (auto simp: shift_entry_def list_inv_def entry_val_def cur_del_def split: list.splits if_splits)

lemma remove_entry_eq:
  assumes "list_inv l" and "remove_entry pos l = (e, l')"
  shows "list_inv l'"
    and "l_entries l' = (if pos < length (l_entries l) then remove_nth pos (l_entries l) else l_entries l)"
    and "entry_val e = (if pos < length (l_entries l) then e_value (l_entries l ! pos) else None)"
  using assms
  by (auto simp: remove_entry_def pick_entry_eq list_inv_def entry_val_def remove_nth_def
      split: if_splits)

lemma remove_nth_0 [simp]: "remove_nth 0 xs = tl xs"
  by (simp add: remove_nth_def drop_Suc)

lemma remove_nth_last: "Suc i = length xs \<Longrightarrow> remove_nth i xs = butlast xs"
  by (simp add: remove_nth_def butlast_conv_take) (metis diff_Suc_Suc diff_zero)

lemma fetch_entry_eq:
  assumes inv: "list_inv l" and f: "fetch_entry pos l = (e, l')"
  shows "list_inv l'"
    and "l_entries l' = (if pos < length (l_entries l) then remove_nth pos (l_entries l) else l_entries l)"
    and "entry_val e = (if pos < length (l_entries l) then e_value (l_entries l ! pos) else None)"
proof -
  have len: "list_count l = length (l_entries l)"
    using inv by (simp add: list_count_def list_inv_def)
  consider "pos = 0" | "pos \<noteq> 0" "Suc pos = length (l_entries l)"
    | "pos \<noteq> 0" "Suc pos \<noteq> length (l_entries l)"
    by blast
  note cases = this
  from cases have "list_inv l' \<and>
    l_entries l' = (if pos < length (l_entries l) then remove_nth pos (l_entries l) else l_entries l) \<and>
    entry_val e = (if pos < length (l_entries l) then e_value (l_entries l ! pos) else None)"
  proof cases
    case 1
    with f have "shift_entry l = (e, l')" by (simp add: fetch_entry_def)
    from shift_entry_eq [OF inv this] 1 show ?thesis by (auto simp: hd_conv_nth)
  next
    case 2
    with f len have pop: "pop_entry l = (e, l')" by (simp add: fetch_entry_def)
    have "length (l_entries l) - Suc 0 = pos" and "l_entries l \<noteq> []"
      using 2 by auto
    then have "last (l_entries l) = l_entries l ! pos"
      by (simp add: last_conv_nth)
    with pop_entry_eq [OF inv pop] 2 \<open>l_entries l \<noteq> []\<close> show ?thesis
      by (simp add: remove_nth_last)
  next
    case 3
    with f len have "remove_entry pos l = (e, l')" by (simp add: fetch_entry_def)
    from remove_entry_eq [OF inv this] show ?thesis by auto
  qed
  then show "list_inv l'"
    and "l_entries l' = (if pos < length (l_entries l) then remove_nth pos (l_entries l) else l_entries l)"
    and "entry_val e = (if pos < length (l_entries l) then e_value (l_entries l ! pos) else None)"
    by auto
qed

lemma push_empty_eq:
  assumes "list_inv l"
  shows "list_inv (push_empty k l)"
    and "l_entries (push_empty k l) = l_entries l @ replicate k (create_entry\<lparr>e_list := True\<rparr>)"
  using assms
proof (induction k arbitrary: l)
  case (Suc k)
  {
    case 1
    obtain rc l1 where p: "push_entry (Some create_entry) l = (rc, l1)"
      by (cases "push_entry (Some create_entry) l")
    from push_entry_eq [OF 1 p] Suc.IH(1) [of l1] p show ?case by simp
  next
    case 2
    obtain rc l1 where p: "push_entry (Some create_entry) l = (rc, l1)"
      by (cases "push_entry (Some create_entry) l")
    from push_entry_eq [OF 2 p] Suc.IH(2) [of l1] p show ?case by simp
  }
qed simp_all

text \<open>
  Insertion at any position: in front, in the middle, at the end, or behind the end with empty
  entries filling the gap. It never fails for an entry that exists.
\<close>

definition padded :: "nat \<Rightarrow> 'a option list \<Rightarrow> 'a option list" where
  "padded n xs = xs @ replicate (n - length xs) None"

lemma insert_entry_total:
  assumes inv: "list_inv l"
  shows "\<exists>l'. insert_entry (Some e) pos l = Inr (0, l') \<and> list_inv l' \<and>
    list_values l' = insert_nth pos (e_value e) (padded pos (list_values l))"
proof -
  let ?n = "length (l_entries l)"
  have len: "l_length l = ?n"
    using inv by (simp add: list_inv_def)
  consider "pos = 0" | "pos \<noteq> 0" "pos = ?n" | "?n < pos" | "pos \<noteq> 0" "pos < ?n"
    by linarith
  then show ?thesis
  proof cases
    case 1
    obtain rc l1 where p: "unshift_entry (Some e) l = (rc, l1)"
      by (cases "unshift_entry (Some e) l")
    from unshift_entry_eq [OF inv p] 1 p show ?thesis
      by (auto simp: insert_entry_def list_values_def insert_nth_def padded_def)
  next
    case 2
    obtain rc l1 where p: "push_entry (Some e) l = (rc, l1)"
      by (cases "push_entry (Some e) l")
    from push_entry_eq [OF inv p] 2 p len show ?thesis
      by (auto simp: insert_entry_def list_values_def insert_nth_def padded_def)
  next
    case 3
    let ?l = "push_empty (pos - ?n) l"
    obtain rc l1 where p: "push_entry (Some e) ?l = (rc, l1)"
      by (cases "push_entry (Some e) ?l")
    from push_entry_eq [OF push_empty_eq(1) [OF inv] p] push_empty_eq(2) [OF inv, of "pos - ?n"] 3 p len
    show ?thesis
      by (auto simp: insert_entry_def list_values_def insert_nth_def padded_def create_entry_def)
  next
    case 4
    then show ?thesis
      using inv len
      by (auto simp: insert_entry_def pick_entry_eq list_inv_def list_values_def insert_nth_def
          padded_def cur_ins_def take_map drop_map split: if_splits)
  qed
qed

lemma insert_nth_append: "i = length xs \<Longrightarrow> insert_nth i x (padded i xs) = xs @ [x]"
  by (simp add: insert_nth_def padded_def)

text \<open>
  The contract the index relies on: a growing sequence of values that is appended to, counted
  and read by position.
\<close>

locale value_list =
  fixes inv :: "'l \<Rightarrow> bool"
    and vals :: "'l \<Rightarrow> 'a option list"
    and create :: 'l
    and push :: "'a option \<Rightarrow> 'l \<Rightarrow> int \<times> 'l"
    and pick :: "nat \<Rightarrow> 'l \<Rightarrow> 'a option \<times> 'l"
    and count :: "'l \<Rightarrow> nat"
  assumes inv_create: "inv create" and vals_create: "vals create = []"
    and push_ok: "inv l \<Longrightarrow> push v l = (rc, l') \<Longrightarrow> rc = 0 \<and> inv l' \<and> vals l' = vals l @ [v]"
    and pick_ok: "inv l \<Longrightarrow> pick i l = (v, l') \<Longrightarrow>
      inv l' \<and> vals l' = vals l \<and> v = (if i < length (vals l) then vals l ! i else None)"
    and count_ok: "inv l \<Longrightarrow> count l = length (vals l)"
begin

definition push_all :: "'a option list \<Rightarrow> 'l \<Rightarrow> 'l" where
  "push_all vs l = fold (\<lambda>v l. snd (push v l)) vs l"

lemma push_snd: "inv l \<Longrightarrow> inv (snd (push v l)) \<and> vals (snd (push v l)) = vals l @ [v]"
  using push_ok [of l v] by (cases "push v l") auto

lemma push_fst: "inv l \<Longrightarrow> fst (push v l) = 0"
  using push_ok [of l v] by (cases "push v l") auto

lemma push_all_ok: "inv l \<Longrightarrow> inv (push_all vs l) \<and> vals (push_all vs l) = vals l @ vs"
  by (induction vs arbitrary: l) (auto simp: push_all_def push_snd)

lemma pick_fst: "inv l \<Longrightarrow> fst (pick i l) = (if i < length (vals l) then vals l ! i else None)"
  using pick_ok [of l i "fst (pick i l)" "snd (pick i l)"] by simp

lemma pick_snd: "inv l \<Longrightarrow> inv (snd (pick i l)) \<and> vals (snd (pick i l)) = vals l"
  using pick_ok [of l i "fst (pick i l)" "snd (pick i l)"] by simp

text \<open>What was appended last is found at the old count, and nothing before it changes.\<close>

lemma pick_after_push:
  assumes "inv l"
  shows "fst (pick (count l) (snd (push v l))) = v"
    and "i < count l \<Longrightarrow> fst (pick i (snd (push v l))) = fst (pick i l)"
proof -
  let ?l = "snd (push v l)"
  have p: "inv ?l" "vals ?l = vals l @ [v]" "count l = length (vals l)"
    using assms by (simp_all add: push_snd count_ok)
  show "fst (pick (count l) ?l) = v"
    using p(2,3) pick_fst [OF p(1)] by simp
  assume "i < count l"
  with p(2,3) show "fst (pick i ?l) = fst (pick i l)"
    using pick_fst [OF p(1)] pick_fst [OF assms] by (simp add: nth_append)
qed

end

lemma list_push_value_eq:
  assumes "list_inv l" and "list_push_value v l = (rc, l')"
  shows "rc = 0" and "list_inv l'" and "list_values l' = list_values l @ [v]"
    and "l_entries l' = l_entries l @ [\<lparr>e_value = v, e_tagged = False, e_list = True\<rparr>]"
  using push_entry_eq [OF assms(1) assms(2) [unfolded list_push_value_def]]
  by (simp_all add: list_values_def create_entry_def)

interpretation ll: value_list list_inv list_values list_create list_push_value list_pick_value list_count
proof unfold_locales
  fix l :: "'a linked_list" and v rc l'
  assume "list_inv l" and "list_push_value v l = (rc, l')"
  then show "rc = 0 \<and> list_inv l' \<and> list_values l' = list_values l @ [v]"
    by (simp add: list_push_value_eq)
next
  fix l :: "'a linked_list" and i v l'
  assume "list_inv l" and "list_pick_value i l = (v, l')"
  then show "list_inv l' \<and> list_values l' = list_values l \<and>
      v = (if i < length (list_values l) then list_values l ! i else None)"
    using pick_value_eq [of l i v l'] same_list_values [of l l'] by blast
qed (simp_all add: list_count_values)

section \<open>Iteration\<close>

text \<open>A handler that never asks for removal or a stop sees every value once, in order.\<close>

fun fold_handler :: "('a, 'u) item_handler \<Rightarrow> nat \<Rightarrow> 'a option list \<Rightarrow> 'u \<Rightarrow> 'u" where
  "fold_handler h idx [] u = u"
| "fold_handler h idx (v # vs) u = fold_handler h (Suc idx) vs (snd (h v idx u))"

definition continues :: "('a, 'u) item_handler \<Rightarrow> bool" where
  "continues h \<longleftrightarrow> (\<forall>v idx u. fst (h v idx u) \<notin> {0, -1, -2})"

lemma slice_loop_continues:
  assumes "continues h" and "n = length (l_entries l) - i" and "i \<le> length (l_entries l)"
    and "idx + n \<le> slen"
  shows "slice_loop h i idx slen l u = (idx + n, l, fold_handler h idx (drop i (list_values l)) u)"
  using assms(2-)
proof (induction n arbitrary: i idx u)
  case 0
  then show ?case by (simp add: slice_loop.simps [of h i idx slen l u] list_values_def)
next
  case (Suc n)
  then have i: "i < length (l_entries l)" and "idx < slen" by simp_all
  obtain rc u' where h: "h (e_value (l_entries l ! i)) idx u = (rc, u')"
    by (cases "h (e_value (l_entries l ! i)) idx u")
  with assms(1) have rc: "rc \<notin> {0, -1, -2}"
    unfolding continues_def by (metis fst_conv)
  have "drop i (list_values l) = list_values l ! i # drop (Suc i) (list_values l)"
    using i by (intro Cons_nth_drop_Suc [symmetric]) (simp add: list_values_def)
  then have "drop i (list_values l) = e_value (l_entries l ! i) # drop (Suc i) (list_values l)"
    using i by (simp add: list_values_def)
  with Suc.IH [of "Suc i" "Suc idx" u'] Suc.prems i \<open>idx < slen\<close> h rc show ?case
    by (subst slice_loop.simps) simp
qed

lemma foreach_continues:
  assumes "list_inv l" and "continues h"
  shows "\<exists>l'. list_foreach_value h l u = (length (list_values l), l', fold_handler h 0 (list_values l) u)
    \<and> list_inv l' \<and> same_list l l'"
proof (cases "l_entries l")
  case Nil
  with assms show ?thesis
    by (simp add: list_foreach_value_def slice_foreach_value_def pick_entry_eq list_values_def)
next
  case (Cons e es)
  let ?l = "l\<lparr>l_pos := 0, l_cur := Some 0\<rparr>"
  have len: "l_length l = length (l_entries l)"
    using assms(1) by (simp add: list_inv_def)
  have "slice_loop h 0 0 (l_length l) ?l u =
      (length (l_entries l), ?l, fold_handler h 0 (list_values l) u)"
    using slice_loop_continues [OF assms(2), of "length (l_entries l)" ?l 0 0 "l_length l" u] len
    by (simp add: list_values_def)
  with Cons assms(1) len show ?thesis
    by (auto simp: list_foreach_value_def slice_foreach_value_def pick_entry_eq list_inv_def
        same_list_def list_values_def)
qed

section \<open>Tagged lookup\<close>

text \<open>A list of tagged values with their tags: what the path tables are.\<close>

definition tag_list :: "tagged_value linked_list \<Rightarrow> tagged_value list \<Rightarrow> bool" where
  "tag_list l tvs \<longleftrightarrow> list_inv l \<and> list_values l = map Some tvs \<and>
     (\<forall>tv \<in> set tvs. tv_tag tv \<noteq> None) \<and> length tvs < 2 ^ 31"

lemma tag_list_count: "tag_list l tvs \<Longrightarrow> int_count l = int (length tvs)"
proof -
  assume t: "tag_list l tvs"
  then have "list_count l = length tvs"
    using list_count_values [of l] by (simp add: tag_list_def)
  moreover from t have "int (length tvs) < 2 ^ 31"
    by (simp add: tag_list_def)
  ultimately show ?thesis
    by (simp add: int_count_def sint_of_nat_small)
qed

lemma tag_list_same: "tag_list l tvs \<Longrightarrow> list_inv l' \<Longrightarrow> same_list l l' \<Longrightarrow> tag_list l' tvs"
  by (simp add: tag_list_def same_list_values)

lemma get_tagged_loop_eq:
  assumes "tag_list l tvs" and "n = length tvs - i" and "i \<le> length tvs"
  shows "\<exists>l'. get_tagged_loop i (Some tag) l =
      Inr (List.find (\<lambda>tv. tv_tag tv = Some tag) (drop i tvs), l') \<and> tag_list l' tvs \<and> same_list l l'"
  using assms
proof (induction n arbitrary: i l)
  case 0
  then show ?case
    by (subst get_tagged_loop.simps) (simp add: tag_list_count)
next
  case (Suc n)
  then have i: "i < length tvs" by simp
  obtain v l1 where p: "list_pick_value i l = (v, l1)"
    by (cases "list_pick_value i l")
  have inv: "list_inv l" and vals: "list_values l = map Some tvs"
    using Suc.prems(1) by (simp_all add: tag_list_def)
  from pick_value_eq [OF inv p] i vals have v: "v = Some (tvs ! i)"
    and l1: "tag_list l1 tvs" "same_list l l1"
    using tag_list_same [OF Suc.prems(1)] by simp_all
  obtain t where t: "tv_tag (tvs ! i) = Some t"
    using Suc.prems(1) nth_mem [OF i] by (auto simp: tag_list_def)
  obtain l' where l': "get_tagged_loop (Suc i) (Some tag) l1 =
      Inr (List.find (\<lambda>tv. tv_tag tv = Some tag) (drop (Suc i) tvs), l')"
      "tag_list l' tvs" "same_list l1 l'"
    using Suc.IH [OF l1(1), of "Suc i"] Suc.prems(2) i by (metis Suc_diff_Suc Suc_inject Suc_leI)
  have "drop i tvs = tvs ! i # drop (Suc i) tvs"
    using i by (simp add: Cons_nth_drop_Suc)
  with i v t l1 l' p show ?case
    by (subst get_tagged_loop.simps)
      (auto simp: tag_list_count [OF Suc.prems(1)] list_pick_tagged_value_def
        intro: same_list_trans)
qed

lemma get_tagged_value_eq:
  assumes "tag_list l tvs"
  shows "\<exists>l'. list_get_tagged_value (Some tag) l =
      Inr (List.find (\<lambda>tv. tv_tag tv = Some tag) tvs, l') \<and> tag_list l' tvs \<and> same_list l l'"
  using get_tagged_loop_eq [OF assms refl, of 0] by (simp add: list_get_tagged_value_def)

section \<open>Properties\<close>

text \<open>Picking by position is right whatever the cursor left by earlier picks: the value at the
  position, or nothing past the end; contents and invariant stay.\<close>

theorem pick_value_correct:
  assumes "list_inv l"
  shows "fst (list_pick_value pos l) = (if pos < length (list_values l) then list_values l ! pos else None) \<and>
    list_inv (snd (list_pick_value pos l)) \<and> list_values (snd (list_pick_value pos l)) = list_values l"
  using ll.pick_fst [OF assms, of pos] ll.pick_snd [OF assms, of pos] by simp

theorem pick_value_correct_witness:
  "fst (list_pick_value 1 (snd (list_pick_value 2 (ll.push_all [Some (5::nat), Some 6, Some 7] list_create)))) = Some 6"
  using pick_value_correct [of "snd (list_pick_value 2 (ll.push_all [Some (5::nat), Some 6, Some 7] list_create))" 1]
    ll.push_all_ok [of list_create "[Some (5::nat), Some 6, Some 7]"]
    ll.pick_snd [of "ll.push_all [Some (5::nat), Some 6, Some 7] list_create" 2] by simp

text \<open>Inserting a value succeeds at every position; behind the end the gap is filled with empty
  entries.\<close>

theorem insert_value_total:
  assumes "list_inv l"
  shows "\<exists>l'. list_insert_value v pos l = Inr (0, l') \<and> list_inv l' \<and>
    list_values l' = insert_nth pos v (padded pos (list_values l))"
  using insert_entry_total [OF assms, of "create_entry\<lparr>e_value := v\<rparr>" pos] by (simp add: list_insert_value_def)

theorem insert_value_total_witness:
  "\<exists>l'. list_insert_value (Some (4::nat)) 2 list_create = Inr (0, l') \<and> list_inv l' \<and>
    list_values l' = [None, None, Some 4]"
  using insert_value_total [of list_create "Some (4::nat)" 2]
  by (simp add: insert_nth_def padded_def numeral_2_eq_2)

text \<open>Fetching removes exactly the entry at the position and returns its value; out of range it
  changes nothing. Front, back and middle take different paths in the code.\<close>

theorem fetch_value_removes:
  assumes "list_inv l"
  shows "fst (list_fetch_value pos l) = (if pos < length (list_values l) then list_values l ! pos else None) \<and>
    list_inv (snd (list_fetch_value pos l)) \<and>
    list_values (snd (list_fetch_value pos l)) =
      (if pos < length (list_values l) then remove_nth pos (list_values l) else list_values l)"
proof -
  obtain e l' where f: "fetch_entry pos l = (e, l')" by force
  from fetch_entry_eq [OF assms f] show ?thesis
    by (simp add: list_fetch_value_def f list_values_def remove_nth_def take_map drop_map)
qed

theorem fetch_value_removes_witness:
  "list_values (snd (list_fetch_value 1 (ll.push_all [Some (5::nat), Some 6, Some 7] list_create))) = [Some 5, Some 7]"
  using fetch_value_removes [of "ll.push_all [Some (5::nat), Some 6, Some 7] list_create" 1]
    ll.push_all_ok [of list_create "[Some (5::nat), Some 6, Some 7]"] by (simp add: remove_nth_def)

text \<open>Iterating with a handler that neither stops nor removes visits every value once, in list
  order, and returns the length.\<close>

theorem foreach_visits_all:
  assumes "list_inv l" and "continues h"
  shows "\<exists>l'. list_foreach_value h l u = (length (list_values l), l', fold_handler h 0 (list_values l) u) \<and>
    list_inv l' \<and> list_values l' = list_values l"
  using foreach_continues [OF assms, of u] same_list_values by blast

theorem foreach_visits_all_witness:
  "\<exists>l'. list_foreach_value (\<lambda>v i u. (1, u @ [(i, v)])) (ll.push_all [Some (5::nat), Some 6] list_create) [] =
     (2, l', [(0, Some 5), (1, Some 6)]) \<and> list_inv l' \<and> list_values l' = [Some 5, Some 6]"
  using foreach_visits_all [of "ll.push_all [Some (5::nat), Some 6] list_create" "\<lambda>v i u. (1, u @ [(i, v)])" "[]"]
    ll.push_all_ok [of list_create "[Some (5::nat), Some 6]"] by (simp add: continues_def numeral_2_eq_2)

text \<open>A lookup by tag returns the first value with the tag, or none, and never dereferences NULL
  on a list whose values are all tagged.\<close>

theorem get_tagged_value_first:
  assumes "tag_list l tvs"
  shows "\<exists>l'. list_get_tagged_value (Some tag) l = Inr (List.find (\<lambda>tv. tv_tag tv = Some tag) tvs, l') \<and>
    list_values l' = list_values l"
  using get_tagged_value_eq [OF assms, of tag] same_list_values by blast

theorem get_tagged_value_first_witness:
  "\<exists>l'. list_get_tagged_value (Some [97]) (ll.push_all [Some \<lparr>tv_tag = Some [97], tv_value = Some [1], tv_vlen = 0,
      tv_type = TV_TYPE_STRING\<rparr>] list_create) =
    Inr (Some \<lparr>tv_tag = Some [97], tv_value = Some [1], tv_vlen = 0, tv_type = TV_TYPE_STRING\<rparr>, l')"
proof -
  let ?tv = "\<lparr>tv_tag = Some [97], tv_value = Some [1], tv_vlen = 0, tv_type = TV_TYPE_STRING\<rparr>"
  have "tag_list (ll.push_all [Some ?tv] list_create) [?tv]"
    using ll.push_all_ok [of list_create "[Some ?tv]"] by (simp add: tag_list_def)
  from get_tagged_value_first [OF this, of "[97]"] show ?thesis by auto
qed

text \<open>A handler that asks to remove every entry removes only half of them: the loop counts the
  index up and the slice length down at once.\<close>

theorem foreach_remove_stops_halfway:
  "\<exists>l'. list_foreach_value (\<lambda>v i u. (- 1, u)) (snd (list_push_value (Some 4) (snd (list_push_value (Some 3)
      (snd (list_push_value (Some 2) (snd (list_push_value (Some (1::nat)) list_create)))))))) () = (2, l', ()) \<and>
    list_values l' = [Some 3, Some 4]"
  by (simp add: list_foreach_value_def slice_foreach_value_def slice_loop.simps list_push_value_def push_entry_def
      create_entry_def list_create_def pick_entry_def unlink_entry_def remove_nth_def list_values_def
      cur_del_def near_cursor_def Let_def)

end
