(* ===== verification/Comparators.thy ===== *)
theory Comparators
  imports Miqs_Prelude
begin

unbundle bit_operations_syntax

text \<open>
  The key comparators of src/src/index/libhl/comparators.h that the value trees of the index are
  built with: \<open>libhl_cmp_keys_int\<close> and \<open>libhl_cmp_keys_double\<close>, both an instance of the macro
  \<^verbatim>\<open>LIBHL_CMP_KEYS_TYPE\<close>. A key is its object representation; its size is the length of it.

  The macro returns the difference of the two keys as an \<^verbatim>\<open>int\<close>. For \<^verbatim>\<open>int\<close> keys the subtraction is
  32-bit and wraps (what the usual compilers make of the overflow). For \<^verbatim>\<open>double\<close> keys the rounded
  difference is truncated towards zero, so keys less than one apart can compare equal.

  The locale \<open>key_order\<close> is what a search tree needs of its comparator; it holds for these two
  only on the key sets of the interpretations at the end of the theory.
\<close>

section \<open>Integers\<close>

definition libhl_cmp_keys_int :: "byte list \<Rightarrow> byte list \<Rightarrow> int" where
  "libhl_cmp_keys_int k1 k2 =
     (if length k1 < 4 \<or> length k2 < 4 \<or> length k1 \<noteq> length k2
      then sint (of_int (int (length k1) - int (length k2)) :: c_int)
      else sint (int_of_bytes k1 - int_of_bytes k2))"

section \<open>Doubles\<close>

text \<open>
  A finite double is an integral multiple of the smallest subnormal, \<open>2 ^ -1074\<close>; \<open>Fin k\<close> is
  \<open>k * 2 ^ -1074\<close>.
\<close>

datatype dbl = NaN | Inf bool | Fin int

definition dbl_val :: "c_double \<Rightarrow> dbl" where
  "dbl_val w =
     (let neg = bit w 63;
          e = unat (drop_bit 52 w AND 2047);
          f = uint (w AND 4503599627370495);
          sgnd = (\<lambda>m. if neg then - m else m)
      in if e = 2047 then (if f = 0 then Inf neg else NaN)
         else if e = 0 then Fin (sgnd f)
         else Fin (sgnd ((4503599627370496 + f) * 2 ^ (e - 1))))"

text \<open>Rounding to 53 significant bits, to nearest, ties to even; beyond the range it is infinite.\<close>

function bitlen :: "int \<Rightarrow> nat" where
  "bitlen m = (if m \<le> 0 then 0 else Suc (bitlen (m div 2)))"
  by pat_completeness auto
termination
  by (relation "measure nat") auto

declare bitlen.simps [simp del]

definition round53 :: "int \<Rightarrow> int" where
  "round53 m =
     (let s = bitlen m - 53; u = 2 ^ s; q = m div u; r = m mod u
      in if 2 * r < u \<or> (2 * r = u \<and> even q) then q * u else (q + 1) * u)"

definition dbl_round :: "int \<Rightarrow> dbl" where
  "dbl_round k =
     (let m = round53 \<bar>k\<bar>
      in if 2 ^ 2098 \<le> m then Inf (k < 0) else Fin (sgn k * m))"

definition dbl_sub :: "dbl \<Rightarrow> dbl \<Rightarrow> dbl" where
  "dbl_sub a b =
     (case (a, b) of
        (Fin x, Fin y) \<Rightarrow> dbl_round (x - y)
      | (Inf s, Fin _) \<Rightarrow> Inf s
      | (Fin _, Inf s) \<Rightarrow> Inf (\<not> s)
      | (Inf s, Inf s') \<Rightarrow> if s = s' then NaN else Inf s
      | _ \<Rightarrow> NaN)"

text \<open>Conversion to \<^verbatim>\<open>int\<close>: truncation; outside the range amd64 delivers \<^verbatim>\<open>INT_MIN\<close>.\<close>

definition dbl_to_int :: "dbl \<Rightarrow> int" where
  "dbl_to_int d =
     (case d of
        Fin k \<Rightarrow> let t = sgn k * (\<bar>k\<bar> div 2 ^ 1074)
                 in if - (2 ^ 31) \<le> t \<and> t < 2 ^ 31 then t else - (2 ^ 31)
      | _ \<Rightarrow> - (2 ^ 31))"

definition libhl_cmp_keys_double :: "byte list \<Rightarrow> byte list \<Rightarrow> int" where
  "libhl_cmp_keys_double k1 k2 =
     (if length k1 < 8 \<or> length k2 < 8 \<or> length k1 \<noteq> length k2
      then sint (of_int (int (length k1) - int (length k2)) :: c_int)
      else dbl_to_int (dbl_sub (dbl_val (u64_of_bytes k1)) (dbl_val (u64_of_bytes k2))))"

section \<open>What a tree needs of a comparator\<close>

text \<open>On the keys in \<open>K\<close> the sign of \<open>cmp\<close> is that of a linear order on the values of the keys.\<close>

locale key_order =
  fixes cmp :: "'k \<Rightarrow> 'k \<Rightarrow> int"
    and val :: "'k \<Rightarrow> 'l::linorder"
    and K :: "'k set"
  assumes cmp_less: "x \<in> K \<Longrightarrow> y \<in> K \<Longrightarrow> cmp x y < 0 \<longleftrightarrow> val x < val y"
    and cmp_eq: "x \<in> K \<Longrightarrow> y \<in> K \<Longrightarrow> cmp x y = 0 \<longleftrightarrow> val x = val y"
begin

lemma cmp_greater: "x \<in> K \<Longrightarrow> y \<in> K \<Longrightarrow> 0 < cmp x y \<longleftrightarrow> val y < val x"
  using cmp_less [of x y] cmp_eq [of x y] by force

lemma cmp_antisym: "x \<in> K \<Longrightarrow> y \<in> K \<Longrightarrow> 0 < cmp x y \<longleftrightarrow> cmp y x < 0"
  by (simp add: cmp_greater cmp_less)

lemma cmp_trans:
  "x \<in> K \<Longrightarrow> y \<in> K \<Longrightarrow> z \<in> K \<Longrightarrow> cmp x y < 0 \<Longrightarrow> cmp y z < 0 \<Longrightarrow> cmp x z < 0"
  by (meson cmp_less less_trans)

lemmas cmp_val = cmp_less cmp_eq cmp_greater

end

section \<open>Where the integer comparator is an order\<close>

definition int_key :: "byte list \<Rightarrow> int" where
  "int_key k = sint (int_of_bytes k)"

text \<open>Four-byte keys whose value stays within half of the range: no difference overflows.\<close>

definition int_keys :: "byte list set" where
  "int_keys = {k. length k = 4 \<and> - (2 ^ 30) \<le> int_key k \<and> int_key k < 2 ^ 30}"

lemma sint_diff:
  fixes x y :: c_int
  assumes "- (2 ^ 31) \<le> sint x - sint y" and "sint x - sint y < 2 ^ 31"
  shows "sint (x - y) = sint x - sint y"
proof -
  have "sint (x - y) = signed_take_bit 31 (sint x - sint y)"
    by (simp add: sint_word_ariths)
  also have "\<dots> = sint x - sint y"
    using assms by (simp add: signed_take_bit_int_eq_self)
  finally show ?thesis .
qed

lemma cmp_keys_int_diff:
  assumes "length x = 4" and "length y = 4"
    and "- (2 ^ 31) \<le> int_key x - int_key y" and "int_key x - int_key y < 2 ^ 31"
  shows "libhl_cmp_keys_int x y = int_key x - int_key y"
  using assms by (simp add: libhl_cmp_keys_int_def int_key_def sint_diff)

interpretation int_order: key_order libhl_cmp_keys_int int_key int_keys
  by unfold_locales (auto simp: int_keys_def cmp_keys_int_diff)

lemma int_key_inj: "x \<in> int_keys \<Longrightarrow> y \<in> int_keys \<Longrightarrow> int_key x = int_key y \<longleftrightarrow> x = y"
  by (metis (mono_tags, lifting) bytes4_int_of_bytes int_key_def int_keys_def mem_Collect_eq signed_word_eqI)

lemma int_key_bytes4 [simp]: "int_key (bytes4 w) = sint w"
  by (simp add: int_key_def)

section \<open>What the double comparator does\<close>

lemma bitlen_bounds: "0 < m \<Longrightarrow> m < 2 ^ bitlen m \<and> 2 ^ bitlen m \<le> 2 * m"
proof (induction m rule: bitlen.induct)
  case (1 m)
  show ?case
  proof (cases "m = 1")
    case True
    have "bitlen 0 = 0" and "bitlen 1 = Suc (bitlen 0)"
      by (subst bitlen.simps, simp)+
    then show ?thesis by (simp add: True)
  next
    case False
    with "1" have "m div 2 < 2 ^ bitlen (m div 2)" "2 ^ bitlen (m div 2) \<le> 2 * (m div 2)"
      by auto
    moreover have "bitlen m = Suc (bitlen (m div 2))"
      using "1.prems" by (subst bitlen.simps) simp
    ultimately show ?thesis
      by (simp add: field_simps) linarith
  qed
qed

lemma bitlen_nonpos [simp]: "m \<le> 0 \<Longrightarrow> bitlen m = 0"
  by (subst bitlen.simps) simp

lemma bitlen_le: "m < 2 ^ p \<Longrightarrow> bitlen m \<le> p"
proof (cases "0 < m")
  case True
  assume "m < 2 ^ p"
  with bitlen_bounds [OF True] have "(2 :: int) ^ bitlen m < 2 ^ Suc p"
    by simp
  then show ?thesis
    by (metis less_Suc_eq_le one_less_numeral_iff power_strict_increasing_iff semiring_norm(76))
qed simp

text \<open>Rounding is exact when the low bits it would drop are zero.\<close>

lemma round53_exact: "2 ^ (bitlen m - 53) dvd m \<Longrightarrow> round53 m = m"
  by (simp add: round53_def Let_def)

text \<open>Rounding does not pass a power of two.\<close>

lemma round53_le:
  assumes "0 \<le> m" and "m < 2 ^ p"
  shows "round53 m \<le> 2 ^ p"
proof (cases "bitlen m \<le> 53")
  case True
  then show ?thesis using assms round53_exact [of m] by simp
next
  case False
  define s where "s = bitlen m - 53"
  define u :: int where "u = 2 ^ s"
  have u: "0 < u" by (simp add: u_def)
  have m0: "0 < m" using False by (metis bitlen_nonpos linorder_not_le zero_le)
  have bl: "bitlen m = 53 + s" using False by (simp add: s_def)
  have "m < 2 ^ 53 * u"
    using bitlen_bounds [OF m0] unfolding bl u_def power_add by simp
  moreover have "m div u * u \<le> m"
    using div_mult_mod_eq [of m u] pos_mod_sign [OF u, of m] by linarith
  ultimately have "m div u * u < 2 ^ 53 * u" by linarith
  then have "m div u < 2 ^ 53"
    using u by (simp only: mult_less_cancel_right_pos)
  then have "m div u + 1 \<le> 2 ^ 53" by linarith
  then have q: "(m div u + 1) * u \<le> 2 ^ 53 * u"
    using u mult_right_mono [of "m div u + 1" "2 ^ 53" u] by linarith
  moreover have "m div u * u \<le> (m div u + 1) * u"
    using u by (simp add: distrib_right)
  moreover have "(2 :: int) ^ 53 * u \<le> 2 ^ p"
    using bitlen_le [OF assms(2)] unfolding bl u_def power_add [symmetric]
    by (rule power_increasing) simp
  ultimately show ?thesis
    unfolding round53_def Let_def u_def [symmetric] s_def [symmetric] by auto
qed

lemma round53_nonneg: "0 \<le> m \<Longrightarrow> 0 \<le> round53 m"
  unfolding round53_def Let_def by (auto simp: pos_imp_zdiv_nonneg_iff)

lemma cmp_keys_double_eq:
  assumes "dbl_val a = Fin x" and "dbl_val b = Fin y"
  shows "libhl_cmp_keys_double (bytes8 a) (bytes8 b) = dbl_to_int (dbl_round (x - y))"
  using assms by (simp add: libhl_cmp_keys_double_def dbl_sub_def)

text \<open>Two doubles less than half apart compare equal, whatever they are.\<close>

lemma dbl_to_int_round_small:
  assumes "\<bar>k\<bar> < 2 ^ 1073"
  shows "dbl_to_int (dbl_round k) = 0"
proof -
  let ?m = "round53 \<bar>k\<bar>"
  have le: "?m \<le> 2 ^ 1073" and ge: "0 \<le> ?m"
    using round53_le [OF _ assms] round53_nonneg [of "\<bar>k\<bar>"] by auto
  have lt: "?m < 2 ^ 1074" and small: "\<not> 2 ^ 2098 \<le> ?m"
    using le by (auto intro: le_less_trans less_le_trans)
  have "\<bar>sgn k * ?m\<bar> < 2 ^ 1074"
    using lt ge by (cases k "0 :: int" rule: linorder_cases) (auto simp: abs_mult)
  then have "\<bar>sgn k * ?m\<bar> div 2 ^ 1074 = 0"
    by (intro div_pos_pos_trivial) auto
  with small show ?thesis
    by (simp only: dbl_round_def dbl_to_int_def Let_def if_False dbl.case mult_zero_right) simp
qed

text \<open>Doubles with integral values are compared exactly.\<close>

lemma dbl_to_int_round_integral:
  assumes "\<bar>j\<bar> < 2 ^ 31"
  shows "dbl_to_int (dbl_round (j * 2 ^ 1074)) = j"
proof -
  let ?k = "j * 2 ^ 1074 :: int"
  have k: "\<bar>?k\<bar> = \<bar>j\<bar> * 2 ^ 1074"
    by (simp only: abs_mult) simp
  have lt: "\<bar>?k\<bar> < 2 ^ 1105"
  proof -
    have "\<bar>j\<bar> * 2 ^ 1074 < 2 ^ 31 * (2 ^ 1074 :: int)"
      using assms by (intro mult_strict_right_mono) simp_all
    also have "\<dots> = 2 ^ 1105"
      by (simp only: power_add [symmetric]) simp
    finally show ?thesis by (simp only: k)
  qed
  have "bitlen \<bar>?k\<bar> - 53 \<le> 1074"
    using bitlen_le [OF lt] by simp
  then have "(2 :: int) ^ (bitlen \<bar>?k\<bar> - 53) dvd 2 ^ 1074"
    by (rule le_imp_power_dvd)
  then have exact: "round53 \<bar>?k\<bar> = \<bar>?k\<bar>"
    by (intro round53_exact) (simp only: k dvd_mult)
  have "\<not> 2 ^ 2098 \<le> \<bar>?k\<bar>"
    using lt by (auto intro: less_le_trans)
  moreover have "sgn ?k * \<bar>?k\<bar> = ?k"
    by (rule sgn_mult_abs)
  ultimately have r: "dbl_round ?k = Fin ?k"
    by (simp only: dbl_round_def Let_def exact if_False)
  have "\<bar>?k\<bar> div 2 ^ 1074 = \<bar>j\<bar>"
    by (simp only: k) simp
  moreover have "sgn ?k = sgn j"
    by (simp only: sgn_mult) simp
  moreover have "sgn j * \<bar>j\<bar> = j"
    by (rule sgn_mult_abs)
  ultimately show ?thesis
    using assms by (simp only: r dbl_to_int_def dbl.case Let_def) auto
qed

definition dbl_key :: "byte list \<Rightarrow> int" where
  "dbl_key k = (case dbl_val (u64_of_bytes k) of Fin x \<Rightarrow> x div 2 ^ 1074 | _ \<Rightarrow> 0)"

text \<open>Eight-byte keys with an integral value below \<open>2 ^ 30\<close>.\<close>

definition dbl_keys :: "byte list set" where
  "dbl_keys = {k. length k = 8 \<and>
     (\<exists>j. dbl_val (u64_of_bytes k) = Fin (j * 2 ^ 1074) \<and> \<bar>j\<bar> < 2 ^ 30)}"

lemma cmp_keys_double_diff:
  assumes "x \<in> dbl_keys" and "y \<in> dbl_keys"
  shows "libhl_cmp_keys_double x y = dbl_key x - dbl_key y"
proof -
  from assms obtain i j where x: "dbl_val (u64_of_bytes x) = Fin (i * 2 ^ 1074)"
    and y: "dbl_val (u64_of_bytes y) = Fin (j * 2 ^ 1074)"
    and ij: "\<bar>i\<bar> < 2 ^ 30" "\<bar>j\<bar> < 2 ^ 30" and len: "length x = 8" "length y = 8"
    unfolding dbl_keys_def by blast
  have "\<bar>i - j\<bar> < 2 ^ 31"
    using ij by simp
  from dbl_to_int_round_integral [OF this]
  have "dbl_to_int (dbl_round (i * 2 ^ 1074 - j * 2 ^ 1074)) = i - j"
    by (simp only: left_diff_distrib)
  moreover have "dbl_key x = i" and "dbl_key y = j"
    unfolding dbl_key_def x y by (simp_all only: dbl.case) simp_all
  ultimately show ?thesis
    unfolding libhl_cmp_keys_double_def x y dbl_sub_def
    by (simp only: len prod.case dbl.case) simp
qed

interpretation double_order: key_order libhl_cmp_keys_double dbl_key dbl_keys
  by unfold_locales (auto simp: cmp_keys_double_diff)

section \<open>Properties\<close>

text \<open>On integer keys whose difference fits in an \<^verbatim>\<open>int\<close> the comparator returns their
  difference, so it orders them.\<close>

theorem cmp_keys_int_orders:
  assumes "- (2 ^ 31) \<le> sint x - sint y" and "sint x - sint y < 2 ^ 31"
  shows "libhl_cmp_keys_int (bytes4 x) (bytes4 y) = sint x - sint y"
  using cmp_keys_int_diff [of "bytes4 x" "bytes4 y"] assms by simp

theorem cmp_keys_int_orders_witness: "libhl_cmp_keys_int (bytes4 3) (bytes4 (- 4)) = 7"
  using cmp_keys_int_orders [of 3 "- 4"] by simp

text \<open>The double comparator converts the difference to \<^verbatim>\<open>int\<close>, so any two finite doubles less
  than one half apart compare equal.\<close>

theorem cmp_keys_double_collapses:
  assumes "dbl_val a = Fin x" and "dbl_val b = Fin y" and "\<bar>x - y\<bar> < 2 ^ 1073"
  shows "libhl_cmp_keys_double (bytes8 a) (bytes8 b) = 0"
  using cmp_keys_double_eq [OF assms(1,2)] dbl_to_int_round_small [OF assms(3)] by simp

theorem cmp_keys_double_collapses_witness:
  "libhl_cmp_keys_double (bytes8 4598175219545276416) (bytes8 0) = 0 \<and>
   dbl_val 4598175219545276416 = Fin (2 ^ 1072) \<and> dbl_val 0 = Fin 0"
proof -
  have a: "dbl_val 4598175219545276416 = Fin (2 ^ 1072)"
    by code_simp
  have b: "dbl_val 0 = Fin 0"
    by code_simp
  show ?thesis
    using cmp_keys_double_collapses [OF a b] a b by simp
qed

end
