(* ===== verification/Rbtree.thy ===== *)
theory Rbtree
  imports Comparators
begin

text \<open>
  The red-black tree of src/src/index/libhl/rbtree.c. A node is NULL or a colour, two subtrees, a
  key and a value. The parent pointers the C code climbs along are the path of \<open>frame\<close>s from a
  node to the root: \<open>rbt_add_internal\<close> returns the new node together with that path, so parent,
  grandparent and uncle are read off it. \<open>rbt_add\<close> is a partial function because its recolouring
  step calls \<open>rbt_add\<close> again with the grandparent's own key; that it returns is proved.

  Deletion is in \<open>Rbtree_Remove\<close>; walk callbacks that ask for it are not modelled: no caller in
  the program does. Time and memory counters are left out.
\<close>

section \<open>Trees and paths\<close>

datatype rbt_color = RBTREE_COLOR_RED | RBTREE_COLOR_BLACK

datatype ('k, 'v) rbt_node =
    Null
  | Node rbt_color "('k, 'v) rbt_node" 'k 'v "('k, 'v) rbt_node"

record ('k, 'v) rbt =
  rbt_root :: "('k, 'v) rbt_node"
  rbt_size :: uint64
  cmp_keys_cb :: "'k \<Rightarrow> 'k \<Rightarrow> int"

definition rbt_create :: "('k \<Rightarrow> 'k \<Rightarrow> int) \<Rightarrow> ('k, 'v) rbt" where
  "rbt_create cb = \<lparr>rbt_root = Null, rbt_size = 0, cmp_keys_cb = cb\<rparr>"

text \<open>A parent seen from one of its children: \<open>IsLeft\<close> when the child is its left one.\<close>

datatype ('k, 'v) frame =
    IsLeft rbt_color 'k 'v "('k, 'v) rbt_node"
  | IsRight rbt_color "('k, 'v) rbt_node" 'k 'v

fun plug1 :: "('k, 'v) rbt_node \<Rightarrow> ('k, 'v) frame \<Rightarrow> ('k, 'v) rbt_node" where
  "plug1 n (IsLeft c k v r) = Node c n k v r"
| "plug1 n (IsRight c l k v) = Node c l k v n"

fun plug :: "('k, 'v) rbt_node \<Rightarrow> ('k, 'v) frame list \<Rightarrow> ('k, 'v) rbt_node" where
  "plug n [] = n"
| "plug n (f # p) = plug (plug1 n f) p"

fun is_black :: "('k, 'v) rbt_node \<Rightarrow> bool" where
  "is_black Null = True"
| "is_black (Node c _ _ _ _) = (c = RBTREE_COLOR_BLACK)"

fun is_red :: "('k, 'v) rbt_node \<Rightarrow> bool" where
  "is_red Null = False"
| "is_red (Node c _ _ _ _) = (c = RBTREE_COLOR_RED)"

fun paint :: "rbt_color \<Rightarrow> ('k, 'v) rbt_node \<Rightarrow> ('k, 'v) rbt_node" where
  "paint c Null = Null"
| "paint c (Node _ l k v r) = Node c l k v r"

fun frame_color :: "('k, 'v) frame \<Rightarrow> rbt_color" where
  "frame_color (IsLeft c _ _ _) = c"
| "frame_color (IsRight c _ _ _) = c"

fun paint_frame :: "rbt_color \<Rightarrow> ('k, 'v) frame \<Rightarrow> ('k, 'v) frame" where
  "paint_frame c (IsLeft _ k v r) = IsLeft c k v r"
| "paint_frame c (IsRight _ l k v) = IsRight c l k v"

fun frame_key :: "('k, 'v) frame \<Rightarrow> 'k" where
  "frame_key (IsLeft _ k _ _) = k"
| "frame_key (IsRight _ _ k _) = k"

fun frame_value :: "('k, 'v) frame \<Rightarrow> 'v" where
  "frame_value (IsLeft _ _ v _) = v"
| "frame_value (IsRight _ _ _ v) = v"

text \<open>The other child of the node a frame stands for: the uncle, for the grandparent's frame.\<close>

fun frame_other :: "('k, 'v) frame \<Rightarrow> ('k, 'v) rbt_node" where
  "frame_other (IsLeft _ _ _ r) = r"
| "frame_other (IsRight _ l _ _) = l"

fun paint_other :: "rbt_color \<Rightarrow> ('k, 'v) frame \<Rightarrow> ('k, 'v) frame" where
  "paint_other c (IsLeft fc k v r) = IsLeft fc k v (paint c r)"
| "paint_other c (IsRight fc l k v) = IsRight fc (paint c l) k v"

section \<open>Lookup\<close>

fun rbt_find_internal :: "('k \<Rightarrow> 'k \<Rightarrow> int) \<Rightarrow> ('k, 'v) rbt_node \<Rightarrow> 'k \<Rightarrow> ('k, 'v) rbt_node" where
  "rbt_find_internal cmp Null key = Null"
| "rbt_find_internal cmp (Node c l k v r) key =
     (let rc = cmp k key
      in if rc = 0 then Node c l k v r
         else if rc > 0 then rbt_find_internal cmp l key
         else rbt_find_internal cmp r key)"

text \<open>\<open>rbt_find\<close> returns 0 and the value, or -1 and leaves the value cell alone (\<open>None\<close>).\<close>

definition rbt_find :: "('k, 'v) rbt \<Rightarrow> 'k \<Rightarrow> int \<times> 'v option" where
  "rbt_find t k =
     (case rbt_find_internal (cmp_keys_cb t) (rbt_root t) k of
        Null \<Rightarrow> (-1, None)
      | Node _ _ _ v _ \<Rightarrow> (0, Some v))"

section \<open>Insertion\<close>

text \<open>
  The new node, the path to it and the return code. A match replaces key and value in place and
  keeps colour and children; a new node is red, as it comes zeroed from \<^verbatim>\<open>calloc\<close>.
\<close>

fun rbt_add_internal ::
  "('k \<Rightarrow> 'k \<Rightarrow> int) \<Rightarrow> ('k, 'v) rbt_node \<Rightarrow> ('k, 'v) frame list \<Rightarrow> 'k \<Rightarrow> 'v \<Rightarrow>
   int \<times> ('k, 'v) rbt_node \<times> ('k, 'v) frame list"
where
  "rbt_add_internal cmp Null p k v = (0, Node RBTREE_COLOR_RED Null k v Null, p)"
| "rbt_add_internal cmp (Node c l ck cv r) p k v =
     (let rc = cmp ck k
      in if rc = 0 then (1, Node c l k v r, p)
         else if rc > 0 then rbt_add_internal cmp l (IsLeft c ck cv r # p) k v
         else rbt_add_internal cmp r (IsRight c l ck cv # p) k v)"

fun rbt_rotate_right :: "('k, 'v) rbt_node \<Rightarrow> ('k, 'v) rbt_node" where
  "rbt_rotate_right (Node c (Node pc a pk pv b) k v r) = Node pc a pk pv (Node c b k v r)"
| "rbt_rotate_right n = n"

fun rbt_rotate_left :: "('k, 'v) rbt_node \<Rightarrow> ('k, 'v) rbt_node" where
  "rbt_rotate_left (Node c l k v (Node pc a pk pv b)) = Node pc (Node c l k v a) pk pv b"
| "rbt_rotate_left n = n"

text \<open>
  Cases 4 and 5: an inner grandchild is first rotated to the outside, then the parent's place is
  painted black, the grandparent red and the grandparent rotated. The result takes the
  grandparent's place.
\<close>

fun rbt_add_rotate ::
  "('k, 'v) rbt_node \<Rightarrow> ('k, 'v) frame \<Rightarrow> ('k, 'v) frame \<Rightarrow> ('k, 'v) rbt_node" where
  "rbt_add_rotate node (IsRight pc pl pk pv) (IsLeft gc gk gv u) =
     (let parent = rbt_rotate_left (Node pc pl pk pv node)
      in rbt_rotate_right (Node RBTREE_COLOR_RED (paint RBTREE_COLOR_BLACK parent) gk gv u))"
| "rbt_add_rotate node (IsLeft pc pk pv pr) (IsRight gc u gk gv) =
     (let parent = rbt_rotate_right (Node pc node pk pv pr)
      in rbt_rotate_left (Node RBTREE_COLOR_RED u gk gv (paint RBTREE_COLOR_BLACK parent)))"
| "rbt_add_rotate node (IsLeft pc pk pv pr) (IsLeft gc gk gv u) =
     rbt_rotate_right (Node RBTREE_COLOR_RED (Node RBTREE_COLOR_BLACK node pk pv pr) gk gv u)"
| "rbt_add_rotate node (IsRight pc pl pk pv) (IsRight gc u gk gv) =
     rbt_rotate_left (Node RBTREE_COLOR_RED u gk gv (Node RBTREE_COLOR_BLACK pl pk pv node))"

text \<open>The last lines of \<open>rbt_add\<close>: the size grows when the code was 0.\<close>

definition rbt_count_new :: "int \<Rightarrow> ('k, 'v) rbt \<Rightarrow> int \<times> ('k, 'v) rbt" where
  "rbt_count_new rc t = (rc, if rc = 0 then t\<lparr>rbt_size := rbt_size t + 1\<rparr> else t)"

partial_function (option) rbt_add ::
  "('k, 'v) rbt \<Rightarrow> 'k \<Rightarrow> 'v \<Rightarrow> (int \<times> ('k, 'v) rbt) option"
where
  "rbt_add t k v =
     (if rbt_root t = Null then
        Some (rbt_count_new 0 (t\<lparr>rbt_root := Node RBTREE_COLOR_BLACK Null k v Null\<rparr>))
      else
        (case rbt_add_internal (cmp_keys_cb t) (rbt_root t) [] k v of
          (rc, node, p) \<Rightarrow>
            if is_black node then Some (1, t\<lparr>rbt_root := plug node p\<rparr>)
            else (case p of
              [] \<Rightarrow> Some (rbt_count_new rc (t\<lparr>rbt_root := paint RBTREE_COLOR_BLACK node\<rparr>))
            | parent # p1 \<Rightarrow>
                if frame_color parent = RBTREE_COLOR_BLACK
                then Some (rc, t\<lparr>rbt_root := plug node p\<rparr>)
                else (case p1 of
                  [] \<Rightarrow> Some (rbt_count_new rc (t\<lparr>rbt_root := plug node p\<rparr>))
                | grandparent # p2 \<Rightarrow>
                    if is_red (frame_other grandparent)
                    then Option.bind
                      (rbt_add
                        (t\<lparr>rbt_root :=
                             plug node (paint_frame RBTREE_COLOR_BLACK parent #
                               paint_frame RBTREE_COLOR_RED (paint_other RBTREE_COLOR_BLACK grandparent)
                               # p2)\<rparr>)
                        (frame_key grandparent) (frame_value grandparent))
                      (\<lambda>(_, t'). Some (rbt_count_new rc t'))
                    else Some (rbt_count_new rc
                      (t\<lparr>rbt_root := plug (rbt_add_rotate node parent grandparent) p2\<rparr>))))))"

section \<open>Walks\<close>

text \<open>
  The callback gets the key, the value and the private state. The walk returns 0 only where the
  callback stopped it; the caller one level up turns that into \<^verbatim>\<open>rc + 1\<close>. The flag \<open>srt\<close> is the
  parameter \<^verbatim>\<open>sorted\<close>; -1 stands for the count of a subtree that is not entered at this point.
\<close>

datatype rbt_walk_rc = RBT_WALK_STOP | RBT_WALK_CONTINUE

type_synonym ('k, 'v, 'u) rbt_walk_callback = "'k \<Rightarrow> 'v \<Rightarrow> 'u \<Rightarrow> rbt_walk_rc \<times> 'u"

fun rbt_walk_internal ::
  "bool \<Rightarrow> ('k, 'v, 'u) rbt_walk_callback \<Rightarrow> ('k, 'v) rbt_node \<Rightarrow> 'u \<Rightarrow> int \<times> 'u" where
  "rbt_walk_internal srt cb Null u = (0, u)"
| "rbt_walk_internal srt cb (Node c l k v r) u0 =
     (let (rrc1, u1) = (if srt \<and> l \<noteq> Null then rbt_walk_internal srt cb l u0 else (-1, u0))
      in if rrc1 = 0 then (2, u1)
         else let rc1 = (if srt \<and> l \<noteq> Null then 1 + rrc1 else 1);
                  (cbrc, u2) = cb k v u1
              in case cbrc of
                   RBT_WALK_STOP \<Rightarrow> (0, u2)
                 | RBT_WALK_CONTINUE \<Rightarrow>
                     (let (rrc2, u3) = (if \<not> srt \<and> l \<noteq> Null
                                        then rbt_walk_internal srt cb l u2 else (-1, u2))
                      in if rrc2 = 0 then (rc1 + 1, u3)
                         else let rc2 = (if \<not> srt \<and> l \<noteq> Null then rc1 + rrc2 else rc1);
                                  (rrc3, u4) = (if r \<noteq> Null
                                                then rbt_walk_internal srt cb r u3 else (-1, u3))
                              in if rrc3 = 0 then (rc2 + 1, u4)
                                 else if r \<noteq> Null then (rc2 + rrc3, u4) else (rc2, u4)))"

definition rbt_walk :: "('k, 'v) rbt \<Rightarrow> ('k, 'v, 'u) rbt_walk_callback \<Rightarrow> 'u \<Rightarrow> int \<times> 'u" where
  "rbt_walk t cb u = (if rbt_root t \<noteq> Null then rbt_walk_internal False cb (rbt_root t) u else (0, u))"

definition rbt_walk_sorted :: "('k, 'v) rbt \<Rightarrow> ('k, 'v, 'u) rbt_walk_callback \<Rightarrow> 'u \<Rightarrow> int \<times> 'u" where
  "rbt_walk_sorted t cb u = (if rbt_root t \<noteq> Null then rbt_walk_internal True cb (rbt_root t) u else (0, u))"

text \<open>The range walk: both go-for flags stay set, so every node is visited and tested.\<close>

fun rbt_range_walk_internal ::
  "('k \<Rightarrow> 'k \<Rightarrow> int) \<Rightarrow> 'k \<Rightarrow> 'k \<Rightarrow> bool \<Rightarrow> ('k, 'v, 'u) rbt_walk_callback \<Rightarrow>
   ('k, 'v) rbt_node \<Rightarrow> 'u \<Rightarrow> int \<times> 'u" where
  "rbt_range_walk_internal cmp bk ek srt cb Null u = (0, u)"
| "rbt_range_walk_internal cmp bk ek srt cb (Node c l k v r) u0 =
     (if cmp bk ek \<ge> 0 then (0, u0)
      else
        let (rrc1, u1) = (if srt \<and> l \<noteq> Null
                          then rbt_range_walk_internal cmp bk ek srt cb l u0 else (-1, u0))
        in if rrc1 = 0 then (2, u1)
           else let rc1 = (if srt \<and> l \<noteq> Null then 1 + rrc1 else 1);
                    (cbrc, u2) = (if cmp k bk = 0 then cb k v u1
                                  else if cmp k bk > 0 \<and> cmp k ek < 0 then cb k v u1
                                  else (RBT_WALK_CONTINUE, u1))
                in case cbrc of
                     RBT_WALK_STOP \<Rightarrow> (0, u2)
                   | RBT_WALK_CONTINUE \<Rightarrow>
                       (let (rrc2, u3) = (if \<not> srt \<and> l \<noteq> Null
                                          then rbt_range_walk_internal cmp bk ek srt cb l u2
                                          else (-1, u2))
                        in if rrc2 = 0 then (rc1 + 1, u3)
                           else let rc2 = (if \<not> srt \<and> l \<noteq> Null then rc1 + rrc2 else rc1);
                                    (rrc3, u4) = (if r \<noteq> Null
                                                  then rbt_range_walk_internal cmp bk ek srt cb r u3
                                                  else (-1, u3))
                                in if rrc3 = 0 then (rc2 + 1, u4)
                                   else if r \<noteq> Null then (rc2 + rrc3, u4) else (rc2, u4)))"

definition rbt_range_walk ::
  "('k, 'v) rbt \<Rightarrow> 'k \<Rightarrow> 'k \<Rightarrow> ('k, 'v, 'u) rbt_walk_callback \<Rightarrow> 'u \<Rightarrow> int \<times> 'u" where
  "rbt_range_walk t bk ek cb u =
     (if rbt_root t \<noteq> Null
      then rbt_range_walk_internal (cmp_keys_cb t) bk ek False cb (rbt_root t) u else (0, u))"

definition rbt_range_walk_sorted ::
  "('k, 'v) rbt \<Rightarrow> 'k \<Rightarrow> 'k \<Rightarrow> ('k, 'v, 'u) rbt_walk_callback \<Rightarrow> 'u \<Rightarrow> int \<times> 'u" where
  "rbt_range_walk_sorted t bk ek cb u =
     (if rbt_root t \<noteq> Null
      then rbt_range_walk_internal (cmp_keys_cb t) bk ek True cb (rbt_root t) u else (0, u))"

section \<open>In-order contents\<close>

fun inorder :: "('k, 'v) rbt_node \<Rightarrow> ('k \<times> 'v) list" where
  "inorder Null = []"
| "inorder (Node c l k v r) = inorder l @ (k, v) # inorder r"

fun frame_pre :: "('k, 'v) frame \<Rightarrow> ('k \<times> 'v) list" where
  "frame_pre (IsLeft c k v r) = []"
| "frame_pre (IsRight c l k v) = inorder l @ [(k, v)]"

fun frame_post :: "('k, 'v) frame \<Rightarrow> ('k \<times> 'v) list" where
  "frame_post (IsLeft c k v r) = (k, v) # inorder r"
| "frame_post (IsRight c l k v) = []"

definition path_pre :: "('k, 'v) frame list \<Rightarrow> ('k \<times> 'v) list" where
  "path_pre p = concat (map frame_pre (rev p))"

definition path_post :: "('k, 'v) frame list \<Rightarrow> ('k \<times> 'v) list" where
  "path_post p = concat (map frame_post p)"

lemma path_simps [simp]:
  "path_pre [] = []" "path_post [] = []"
  "path_pre (f # p) = path_pre p @ frame_pre f" "path_post (f # p) = frame_post f @ path_post p"
  by (simp_all add: path_pre_def path_post_def)

lemma inorder_plug1 [simp]: "inorder (plug1 n f) = frame_pre f @ inorder n @ frame_post f"
  by (cases f) simp_all

lemma inorder_plug [simp]: "inorder (plug n p) = path_pre p @ inorder n @ path_post p"
  by (induction p arbitrary: n) simp_all

lemma inorder_paint [simp]: "inorder (paint c n) = inorder n"
  by (cases n) simp_all

lemma inorder_rotate_right [simp]: "inorder (rbt_rotate_right n) = inorder n"
  by (induction n rule: rbt_rotate_right.induct) simp_all

lemma inorder_rotate_left [simp]: "inorder (rbt_rotate_left n) = inorder n"
  by (induction n rule: rbt_rotate_left.induct) simp_all

lemma inorder_add_rotate [simp]:
  "inorder (rbt_add_rotate n f g) = frame_pre g @ frame_pre f @ inorder n @ frame_post f @ frame_post g"
  by (cases "(n, f, g)" rule: rbt_add_rotate.cases) simp_all

lemma plug_not_Null [simp]: "plug n p = Null \<longleftrightarrow> n = Null \<and> p = []"
proof (induction p arbitrary: n)
  case (Cons f p)
  then show ?case by (cases f) simp_all
qed simp

section \<open>Rebalancing as one function\<close>

text \<open>What \<open>rbt_add\<close> makes of a red node at the end of a path, with its recursion resolved.\<close>

definition recolor :: "('k, 'v) rbt_node \<Rightarrow> ('k, 'v) frame \<Rightarrow> ('k, 'v) frame \<Rightarrow> ('k, 'v) rbt_node" where
  "recolor n f g =
     plug1 (plug1 n (paint_frame RBTREE_COLOR_BLACK f))
       (paint_frame RBTREE_COLOR_RED (paint_other RBTREE_COLOR_BLACK g))"

fun rebalance :: "('k, 'v) rbt_node \<Rightarrow> ('k, 'v) frame list \<Rightarrow> ('k, 'v) rbt_node" where
  "rebalance n [] = paint RBTREE_COLOR_BLACK n"
| "rebalance n [f] = plug1 n f"
| "rebalance n (f # g # p) =
     (if frame_color f = RBTREE_COLOR_BLACK then plug n (f # g # p)
      else if is_red (frame_other g) then rebalance (recolor n f g) p
      else plug (rbt_add_rotate n f g) p)"

lemma frame_parts_paint [simp]:
  "frame_pre (paint_frame c f) = frame_pre f" "frame_post (paint_frame c f) = frame_post f"
  "frame_pre (paint_other c f) = frame_pre f" "frame_post (paint_other c f) = frame_post f"
  "frame_key (paint_frame c f) = frame_key f" "frame_key (paint_other c f) = frame_key f"
  "frame_value (paint_frame c f) = frame_value f" "frame_value (paint_other c f) = frame_value f"
  "frame_color (paint_frame c f) = c"
  by (cases f; simp)+

lemma inorder_rebalance [simp]: "inorder (rebalance n p) = inorder (plug n p)"
  by (induction n p rule: rebalance.induct) (simp_all add: recolor_def)

lemma recolor_node:
  obtains l r where "recolor n f g = Node RBTREE_COLOR_RED l (frame_key g) (frame_value g) r"
  by (cases g) (auto simp: recolor_def)

section \<open>Search order\<close>

context key_order
begin

definition ordered :: "('k \<times> 'v) list \<Rightarrow> bool" where
  "ordered xs \<longleftrightarrow> fst ` set xs \<subseteq> K \<and> sorted_wrt (\<lambda>x y. val (fst x) < val (fst y)) xs"

text \<open>The entry with the value of \<open>k\<close>, and the list with that entry set.\<close>

definition lookup :: "('k \<times> 'v) list \<Rightarrow> 'k \<Rightarrow> 'v option" where
  "lookup xs k = map_option snd (List.find (\<lambda>x. val (fst x) = val k) xs)"

definition upd :: "'k \<Rightarrow> 'v \<Rightarrow> ('k \<times> 'v) list \<Rightarrow> ('k \<times> 'v) list" where
  "upd k v xs = filter (\<lambda>x. val (fst x) < val k) xs @ (k, v) # filter (\<lambda>x. val k < val (fst x)) xs"

lemma ordered_append:
  "ordered (xs @ ys) \<longleftrightarrow> ordered xs \<and> ordered ys \<and>
     (\<forall>x \<in> set xs. \<forall>y \<in> set ys. val (fst x) < val (fst y))"
  by (auto simp: ordered_def sorted_wrt_append)

lemma ordered_Cons:
  "ordered (x # xs) \<longleftrightarrow> fst x \<in> K \<and> ordered xs \<and> (\<forall>y \<in> set xs. val (fst x) < val (fst y))"
  by (auto simp: ordered_def)

lemma ordered_Nil [simp]: "ordered []"
  by (simp add: ordered_def)

lemmas ordered_simps = ordered_append ordered_Cons

lemma lookup_Nil [simp]: "lookup [] k = None"
  by (simp add: lookup_def)

lemma lookup_Cons: "lookup (x # xs) k = (if val (fst x) = val k then Some (snd x) else lookup xs k)"
  by (simp add: lookup_def)

lemma lookup_append:
  "lookup (xs @ ys) k = (case lookup xs k of None \<Rightarrow> lookup ys k | Some v \<Rightarrow> Some v)"
  by (induction xs) (simp_all add: lookup_Cons)

lemma lookup_None_iff: "lookup xs k = None \<longleftrightarrow> (\<forall>x \<in> set xs. val (fst x) \<noteq> val k)"
  by (induction xs) (auto simp: lookup_Cons)

lemma lookup_Some_iff:
  assumes "ordered xs"
  shows "lookup xs k = Some v \<longleftrightarrow> (\<exists>k'. (k', v) \<in> set xs \<and> val k' = val k)"
  using assms
proof (induction xs)
  case (Cons x xs)
  then show ?case by (cases x) (force simp: lookup_Cons ordered_simps)
qed simp

lemma ordered_filter: "ordered xs \<Longrightarrow> ordered (filter P xs)"
  by (auto simp: ordered_def sorted_wrt_filter)

lemma ordered_upd: "ordered xs \<Longrightarrow> k \<in> K \<Longrightarrow> ordered (upd k v xs)"
  by (auto simp: upd_def ordered_simps ordered_filter intro: less_trans)

lemma lookup_filter:
  "(val k < val j \<Longrightarrow> lookup (filter (\<lambda>x. val (fst x) < val j) xs) k = lookup xs k)"
  "(val j < val k \<Longrightarrow> lookup (filter (\<lambda>x. val j < val (fst x)) xs) k = lookup xs k)"
  by (induction xs) (auto simp: lookup_Cons)

lemma lookup_filter_None:
  "val j \<le> val k \<Longrightarrow> lookup (filter (\<lambda>x. val (fst x) < val j) xs) k = None"
  "val k \<le> val j \<Longrightarrow> lookup (filter (\<lambda>x. val j < val (fst x)) xs) k = None"
  by (auto simp: lookup_None_iff)

lemma lookup_upd: "lookup (upd k v xs) k' = (if val k' = val k then Some v else lookup xs k')"
proof (cases "val k'" "val k" rule: linorder_cases)
  case less
  then show ?thesis
    by (auto simp: upd_def lookup_append lookup_Cons lookup_filter lookup_filter_None
        split: option.splits)
next
  case equal
  then show ?thesis by (simp add: upd_def lookup_append lookup_Cons lookup_filter_None)
next
  case greater
  then show ?thesis
    by (auto simp: upd_def lookup_append lookup_Cons lookup_filter lookup_filter_None
        split: option.splits)
qed

lemma upd_mid:
  assumes "ordered (xs @ (j, w) # ys)"
  shows "val k < val j \<Longrightarrow> upd k v (xs @ (j, w) # ys) = upd k v xs @ (j, w) # ys"
    and "val k = val j \<Longrightarrow> upd k v (xs @ (j, w) # ys) = xs @ (k, v) # ys"
    and "val j < val k \<Longrightarrow> upd k v (xs @ (j, w) # ys) = xs @ (j, w) # upd k v ys"
proof -
  have lo: "\<forall>x \<in> set xs. val (fst x) < val j" and hi: "\<forall>y \<in> set ys. val j < val (fst y)"
    using assms by (auto simp: ordered_simps)
  have xs: "filter (\<lambda>x. val (fst x) < a) xs = xs" "filter (\<lambda>x. a < val (fst x)) xs = []"
    if "val j \<le> a" for a
    using lo that by (auto simp: filter_id_conv filter_empty_conv)
  have ys: "filter (\<lambda>x. a < val (fst x)) ys = ys" "filter (\<lambda>x. val (fst x) < a) ys = []"
    if "a \<le> val j" for a
    using hi that by (auto simp: filter_id_conv filter_empty_conv)
  show "val k < val j \<Longrightarrow> upd k v (xs @ (j, w) # ys) = upd k v xs @ (j, w) # ys"
    using ys [of "val k"] by (simp add: upd_def)
  show "val k = val j \<Longrightarrow> upd k v (xs @ (j, w) # ys) = xs @ (k, v) # ys"
    using xs [of "val k"] ys [of "val k"] by (simp add: upd_def)
  show "val j < val k \<Longrightarrow> upd k v (xs @ (j, w) # ys) = xs @ (j, w) # upd k v ys"
    using xs [of "val k"] by (simp add: upd_def)
qed

text \<open>The search finds exactly the in-order entry.\<close>

lemma find_internal_lookup:
  assumes "ordered (inorder t)" and "k \<in> K"
  shows "(case rbt_find_internal cmp t k of Null \<Rightarrow> None | Node _ _ _ v _ \<Rightarrow> Some v) = lookup (inorder t) k"
  using assms
proof (induction t)
  case (Node c l j w r)
  then have j: "j \<in> K" and ord: "ordered (inorder l)" "ordered (inorder r)"
    and lo: "\<forall>x \<in> set (inorder l). val (fst x) < val j"
    and hi: "\<forall>x \<in> set (inorder r). val j < val (fst x)"
    by (auto simp: ordered_simps)
  have "lookup (inorder l) k = None" if "val j \<le> val k"
    using lo that by (auto simp: lookup_None_iff)
  moreover have "lookup (inorder r) k = None" if "val k \<le> val j"
    using hi that by (auto simp: lookup_None_iff)
  ultimately show ?case
    using Node.IH(1) [OF ord(1) Node.prems(2)] Node.IH(2) [OF ord(2) Node.prems(2)]
    by (auto simp: Let_def cmp_val [OF j Node.prems(2)] lookup_append lookup_Cons
        not_less_iff_gr_or_eq split: option.splits)
qed simp

lemma add_internal_inorder:
  assumes "ordered (inorder t)" and "k \<in> K" and "rbt_add_internal cmp t p k v = (rc, n, p')"
  shows "inorder (plug n p') = path_pre p @ upd k v (inorder t) @ path_post p"
    and "rc = (if lookup (inorder t) k = None then 0 else 1)"
  using assms
proof (induction t arbitrary: p)
  case Null
  {
    case 1
    then show ?case by (auto simp: upd_def)
  next
    case 2
    then show ?case by auto
  }
next
  case (Node c l j w r)
  have j: "j \<in> K" and ord: "ordered (inorder l)" "ordered (inorder r)"
    if "ordered (inorder (Node c l j w r))"
    using that by (auto simp: ordered_simps)
  {
    case 1
    then show ?case
      using Node.IH(1) [OF ord(1)] Node.IH(3) [OF ord(2)] upd_mid [of "inorder l" j w "inorder r"]
      by (auto simp: Let_def cmp_val [OF j] split: if_splits)
  next
    case 2
    have "lookup (inorder l) k = None" if "val j \<le> val k"
      using 2(1) that by (auto simp: lookup_None_iff ordered_simps)
    moreover have "lookup (inorder r) k = None" if "val k \<le> val j"
      using 2(1) that by (auto simp: lookup_None_iff ordered_simps)
    ultimately show ?case
      using 2 Node.IH(2) [OF ord(1)] Node.IH(4) [OF ord(2)]
      by (auto simp: Let_def cmp_val [OF j] lookup_append lookup_Cons split: if_splits option.splits)
  }
qed

text \<open>Searching from the root for a key that lies between the neighbours of a path ends up there.\<close>

lemma add_internal_path:
  assumes "ordered (path_pre p @ path_post p)" and "k \<in> K"
    and "\<forall>x \<in> set (path_pre p). val (fst x) < val k" and "\<forall>x \<in> set (path_post p). val k < val (fst x)"
  shows "rbt_add_internal cmp (plug n p) q k v = rbt_add_internal cmp n (p @ q) k v"
  using assms
proof (induction p arbitrary: n q)
  case (Cons f p)
  have "rbt_add_internal cmp (plug (plug1 n f) p) q k v = rbt_add_internal cmp (plug1 n f) (p @ q) k v"
    using Cons.prems by (intro Cons.IH) (auto simp: ordered_simps)
  also have "\<dots> = rbt_add_internal cmp n (f # p @ q) k v"
  proof (cases f)
    case (IsLeft c j w r)
    with Cons.prems have "j \<in> K" "val k < val j" by (auto simp: ordered_simps)
    then show ?thesis
      using IsLeft cmp_val [OF _ Cons.prems(2), of j] by (auto simp: Let_def)
  next
    case (IsRight c l j w)
    with Cons.prems have "j \<in> K" "val j < val k" by (auto simp: ordered_simps)
    then show ?thesis
      using IsRight cmp_val [OF _ Cons.prems(2), of j] by (auto simp: Let_def)
  qed
  finally show ?case by simp
qed simp

corollary add_internal_refind:
  assumes "ordered (inorder (plug (Node c l k v r) p))"
  shows "rbt_add_internal cmp (plug (Node c l k v r) p) [] k v = (1, Node c l k v r, p)"
proof -
  have "k \<in> K" using assms by (auto simp: ordered_simps)
  then show ?thesis
    using assms cmp_val(2) [of k k]
    by (subst add_internal_path) (auto simp: ordered_simps Let_def)
qed

text \<open>The size after an insertion: a red parent or none at all is needed for it to be counted.\<close>

definition counted :: "int \<Rightarrow> ('k, 'v) frame list \<Rightarrow> bool" where
  "counted rc p \<longleftrightarrow> rc = 0 \<and> (p = [] \<or> frame_color (hd p) = RBTREE_COLOR_RED)"

lemma rbt_add_rebalance:
  assumes "rbt_root t \<noteq> Null" and "cmp_keys_cb t = cmp"
    and "rbt_add_internal cmp (rbt_root t) [] k v = (rc, n, p)"
    and "is_red n" and "ordered (inorder (plug n p))"
  shows "rbt_add t k v = Some (rc, t\<lparr>rbt_root := rebalance n p,
    rbt_size := (if counted rc p then rbt_size t + 1 else rbt_size t)\<rparr>)"
  using assms
proof (induction n p arbitrary: t k v rc rule: rebalance.induct)
  case (1 n)
  then show ?case
    by (subst rbt_add.simps) (cases n; auto simp: rbt_count_new_def counted_def)
next
  case (2 n f)
  then show ?case
    by (subst rbt_add.simps)
      (cases n; cases "frame_color f"; auto simp: rbt_count_new_def counted_def)
next
  case (3 n f g p)
  have nb: "\<not> is_black n"
    using "3.prems"(4) by (cases n) auto
  consider "frame_color f = RBTREE_COLOR_BLACK"
    | "frame_color f = RBTREE_COLOR_RED" "is_red (frame_other g)"
    | "frame_color f = RBTREE_COLOR_RED" "\<not> is_red (frame_other g)"
    by (cases "frame_color f") auto
  then show ?case
  proof cases
    case 1
    with "3.prems" nb show ?thesis
      by (subst rbt_add.simps) (simp add: counted_def)
  next
    case 2
    obtain l r where rec: "recolor n f g = Node RBTREE_COLOR_RED l (frame_key g) (frame_value g) r"
      by (rule recolor_node)
    let ?t = "t\<lparr>rbt_root := plug (recolor n f g) p\<rparr>"
    have ord: "ordered (inorder (plug (recolor n f g) p))"
      using "3.prems"(5) by (simp add: recolor_def)
    have find: "rbt_add_internal cmp (plug (recolor n f g) p) [] (frame_key g) (frame_value g)
        = (1, recolor n f g, p)"
      using ord unfolding rec by (rule add_internal_refind)
    have "rbt_add ?t (frame_key g) (frame_value g) =
        Some (1, ?t\<lparr>rbt_root := rebalance (recolor n f g) p, rbt_size := rbt_size ?t\<rparr>)"
      using "3.IH" [of ?t "frame_key g" "frame_value g" 1] 2 find ord "3.prems"(2) rec
      by (simp add: counted_def)
    moreover have "rbt_root ?t = plug n (paint_frame RBTREE_COLOR_BLACK f #
        paint_frame RBTREE_COLOR_RED (paint_other RBTREE_COLOR_BLACK g) # p)"
      by (simp add: recolor_def)
    ultimately show ?thesis
      using 2 nb "3.prems"(1,2,3)
      by (subst rbt_add.simps) (simp add: recolor_def rbt_count_new_def counted_def)
  next
    case 3
    with "3.prems" nb show ?thesis
      by (subst rbt_add.simps) (simp add: rbt_count_new_def counted_def)
  qed
qed

end

section \<open>Balance\<close>

fun bheight :: "('k, 'v) rbt_node \<Rightarrow> nat" where
  "bheight Null = 0"
| "bheight (Node c l k v r) = (if c = RBTREE_COLOR_BLACK then Suc (bheight l) else bheight l)"

text \<open>All paths have the same number of black nodes; no red node has a red child.\<close>

fun same_blacks :: "('k, 'v) rbt_node \<Rightarrow> bool" where
  "same_blacks Null = True"
| "same_blacks (Node c l k v r) = (bheight l = bheight r \<and> same_blacks l \<and> same_blacks r)"

fun no_red_red :: "('k, 'v) rbt_node \<Rightarrow> bool" where
  "no_red_red Null = True"
| "no_red_red (Node c l k v r) =
     ((c = RBTREE_COLOR_RED \<longrightarrow> is_black l \<and> is_black r) \<and> no_red_red l \<and> no_red_red r)"

definition balanced :: "('k, 'v) rbt_node \<Rightarrow> bool" where
  "balanced t \<longleftrightarrow> same_blacks t \<and> no_red_red t \<and> is_black t"

lemma color_cases [simp]: "c \<noteq> RBTREE_COLOR_BLACK \<longleftrightarrow> c = RBTREE_COLOR_RED"
  by (cases c) simp_all

lemma is_red_iff: "is_red n \<longleftrightarrow> \<not> is_black n"
  by (cases n) auto

lemma same_blacks_hole: "same_blacks (plug n p) \<Longrightarrow> same_blacks n"
proof (induction p arbitrary: n)
  case (Cons f p)
  then have "same_blacks (plug1 n f)" by simp
  then show ?case by (cases f) auto
qed simp

lemma same_blacks_plug:
  "same_blacks (plug n p) \<Longrightarrow> same_blacks m \<Longrightarrow> bheight m = bheight n \<Longrightarrow>
   same_blacks (plug m p) \<and> bheight (plug m p) = bheight (plug n p)"
proof (induction p arbitrary: m n)
  case (Cons f p)
  have sub: "same_blacks (plug1 n f)"
    using Cons.prems(1) same_blacks_hole by simp
  then show ?case
    using Cons.IH [of "plug1 n f" "plug1 m f"] Cons.prems by (cases f) auto
qed simp

lemma no_red_red_hole: "no_red_red (plug n p) \<Longrightarrow> no_red_red n"
proof (induction p arbitrary: n)
  case (Cons f p)
  then have "no_red_red (plug1 n f)" by simp
  then show ?case by (cases f) auto
qed simp

lemma no_red_red_plug:
  "no_red_red (plug n p) \<Longrightarrow> no_red_red m \<Longrightarrow> (is_red m \<longrightarrow> is_red n) \<Longrightarrow> no_red_red (plug m p)"
proof (induction p arbitrary: m n)
  case (Cons f p)
  then have "no_red_red (plug1 n f)" using no_red_red_hole by (metis plug.simps(2))
  with Cons show ?case
    by (cases f) (auto simp: is_red_iff intro!: Cons.IH [of "plug1 n f" "plug1 m f"])
qed simp

lemma is_black_plug: "p \<noteq> [] \<Longrightarrow> is_black (plug n p) \<longleftrightarrow> frame_color (last p) = RBTREE_COLOR_BLACK"
proof (induction p arbitrary: n)
  case (Cons f p)
  then show ?case by (cases p; cases f) auto
qed simp

text \<open>A red node with black children on a path that is in order but for a red parent.\<close>

definition almost_balanced :: "('k, 'v) rbt_node \<Rightarrow> ('k, 'v) frame list \<Rightarrow> bool" where
  "almost_balanced n p \<longleftrightarrow> is_red n \<and> no_red_red n \<and> same_blacks (plug n p) \<and>
     no_red_red (plug (paint RBTREE_COLOR_BLACK n) p) \<and>
     (p \<noteq> [] \<longrightarrow> frame_color (last p) = RBTREE_COLOR_BLACK)"

lemma almost_balanced_recolor:
  assumes "almost_balanced n (f # g # p)" and "frame_color f = RBTREE_COLOR_RED"
    and "is_red (frame_other g)"
  shows "almost_balanced (recolor n f g) p"
proof -
  let ?old = "plug1 (plug1 n f) g" and ?oldb = "plug1 (plug1 (paint RBTREE_COLOR_BLACK n) f) g"
  have same: "same_blacks (plug ?old p)" and nrr: "no_red_red (plug ?oldb p)" and n: "is_red n" "no_red_red n"
    and lst: "frame_color (last (f # g # p)) = RBTREE_COLOR_BLACK"
    using assms(1) by (auto simp: almost_balanced_def)
  have sub: "same_blacks ?old" "no_red_red ?oldb"
    using same nrr by (auto dest: same_blacks_hole no_red_red_hole)
  obtain c l k v r where nn: "n = Node c l k v r" using n by (cases n) auto
  have loc: "same_blacks (recolor n f g)" "bheight (recolor n f g) = bheight ?old"
    "no_red_red (recolor n f g)" "is_red (recolor n f g)"
    "no_red_red (paint RBTREE_COLOR_BLACK (recolor n f g))"
    using sub n assms(2,3)
    by (cases f; cases g; cases "frame_other g"; force simp: nn recolor_def)+
  have "same_blacks (plug (recolor n f g) p)"
    using same_blacks_plug [OF same loc(1,2)] by simp
  moreover have "no_red_red (plug (paint RBTREE_COLOR_BLACK (recolor n f g)) p)"
    by (rule no_red_red_plug [OF nrr loc(5)]) (cases "recolor n f g"; simp)
  ultimately show ?thesis
    using loc lst by (auto simp: almost_balanced_def)
qed

lemma balanced_rotate:
  assumes "almost_balanced n (f # g # p)" and "frame_color f = RBTREE_COLOR_RED"
    and "\<not> is_red (frame_other g)"
  shows "balanced (plug (rbt_add_rotate n f g) p)"
proof -
  let ?old = "plug1 (plug1 n f) g" and ?oldb = "plug1 (plug1 (paint RBTREE_COLOR_BLACK n) f) g"
  have same: "same_blacks (plug ?old p)" and nrr: "no_red_red (plug ?oldb p)" and n: "is_red n" "no_red_red n"
    and lst: "frame_color (last (f # g # p)) = RBTREE_COLOR_BLACK"
    using assms(1) by (auto simp: almost_balanced_def)
  have sub: "same_blacks ?old" "no_red_red ?oldb"
    using same nrr by (auto dest: same_blacks_hole no_red_red_hole)
  obtain c l k v r where nn: "n = Node c l k v r" using n by (cases n) auto
  have loc: "same_blacks (rbt_add_rotate n f g)" "bheight (rbt_add_rotate n f g) = bheight ?old"
    "no_red_red (rbt_add_rotate n f g)" "is_black (rbt_add_rotate n f g)"
    using sub n assms(2,3)
    by (cases f; cases g; force simp: nn is_red_iff)+
  have "same_blacks (plug (rbt_add_rotate n f g) p)"
    using same_blacks_plug [OF same loc(1,2)] by simp
  moreover have "no_red_red (plug (rbt_add_rotate n f g) p)"
    by (rule no_red_red_plug [OF nrr loc(3)]) (use loc(4) is_red_iff in blast)
  moreover have "is_black (plug (rbt_add_rotate n f g) p)"
    using loc(4) lst by (cases "p = []") (simp_all add: is_black_plug)
  ultimately show ?thesis by (simp add: balanced_def)
qed

lemma rebalance_balanced: "almost_balanced n p \<Longrightarrow> balanced (rebalance n p)"
proof (induction n p rule: rebalance.induct)
  case (1 n)
  then show ?case by (cases n) (auto simp: almost_balanced_def balanced_def)
next
  case (2 n f)
  then show ?case by (cases f) (auto simp: almost_balanced_def balanced_def)
next
  case (3 n f g p)
  show ?case
  proof (cases "frame_color f = RBTREE_COLOR_BLACK")
    case True
    have nrr: "no_red_red (plug (plug1 (paint RBTREE_COLOR_BLACK n) f) (g # p))"
      using "3.prems" by (simp add: almost_balanced_def)
    have "no_red_red (plug1 (paint RBTREE_COLOR_BLACK n) f)"
      using nrr by (rule no_red_red_hole)
    then have "no_red_red (plug1 n f)"
      using "3.prems" True by (cases f) (auto simp: almost_balanced_def)
    then have "no_red_red (plug (plug1 n f) (g # p))"
      by (rule no_red_red_plug [OF nrr]) (use True in \<open>cases f; simp\<close>)
    moreover have "is_black (plug n (f # g # p))"
      using "3.prems" by (subst is_black_plug) (auto simp: almost_balanced_def)
    ultimately show ?thesis
      using True "3.prems" by (auto simp: almost_balanced_def balanced_def)
  next
    case False
    then show ?thesis
      using "3" by (auto simp: almost_balanced_recolor balanced_rotate)
  qed
qed

lemma add_internal_plug:
  assumes "rbt_add_internal cmp t p k v = (rc, n, p')"
  shows "rc = 0 \<Longrightarrow> n = Node RBTREE_COLOR_RED Null k v Null \<and> plug Null p' = plug t p"
    and "rc \<noteq> 0 \<Longrightarrow> \<exists>c l j w r. n = Node c l k v r \<and> rc = 1 \<and> plug (Node c l j w r) p' = plug t p"
  using assms
proof (induction t arbitrary: p)
  case Null
  {
    case 1
    then show ?case by auto
  next
    case 2
    then show ?case by auto
  }
next
  case (Node c l j w r)
  {
    case 1
    then show ?case
      using Node.IH(1) [of "IsLeft c j w r # p"] Node.IH(3) [of "IsRight c l j w # p"]
      by (simp add: Let_def split: if_splits)
  next
    case 2
    show ?case
    proof (cases "cmp j k = 0")
      case True
      with 2 show ?thesis
        by (intro exI [of _ c] exI [of _ l] exI [of _ j] exI [of _ w] exI [of _ r]) simp
    next
      case False
      with 2 Node.IH(2) [of "IsLeft c j w r # p"] Node.IH(4) [of "IsRight c l j w # p"]
      show ?thesis by (simp add: Let_def split: if_splits)
    qed
  }
qed

text \<open>A new red leaf, or a node whose key and value were replaced.\<close>

lemma add_internal_almost:
  assumes "balanced t" and "rbt_add_internal cmp t [] k v = (rc, n, p)" and "is_red n"
  shows "almost_balanced n p"
proof (cases "rc = 0")
  case True
  with add_internal_plug(1) [OF assms(2)] have n: "n = Node RBTREE_COLOR_RED Null k v Null"
    and t: "plug Null p = t" by auto
  have "same_blacks (plug n p)"
    using same_blacks_plug [of Null p n] assms(1) t n by (simp add: balanced_def)
  moreover have "no_red_red (plug (paint RBTREE_COLOR_BLACK n) p)"
    using no_red_red_plug [of Null p "paint RBTREE_COLOR_BLACK n"] assms(1) t n by (simp add: balanced_def)
  moreover have "p \<noteq> [] \<Longrightarrow> frame_color (last p) = RBTREE_COLOR_BLACK"
    using is_black_plug [of p Null] assms(1) t by (simp add: balanced_def)
  ultimately show ?thesis by (simp add: almost_balanced_def n)
next
  case False
  with add_internal_plug(2) [OF assms(2)] obtain c l j w r where n: "n = Node c l k v r"
    and t: "plug (Node c l j w r) p = t" by auto
  have sub: "no_red_red (Node c l j w r)" "same_blacks (Node c l j w r)"
    using assms(1) t no_red_red_hole [of "Node c l j w r" p] same_blacks_hole [of "Node c l j w r" p]
    by (simp_all add: balanced_def)
  have "same_blacks (plug n p)"
    using same_blacks_plug [of "Node c l j w r" p n] assms(1) t n sub by (simp add: balanced_def)
  moreover have "no_red_red (plug (paint RBTREE_COLOR_BLACK n) p)"
    using no_red_red_plug [of "Node c l j w r" p "paint RBTREE_COLOR_BLACK n"] assms(1) t n sub
    by (simp add: balanced_def)
  moreover have "p \<noteq> [] \<Longrightarrow> frame_color (last p) = RBTREE_COLOR_BLACK"
    using is_black_plug [of p "Node c l j w r"] assms(1) t by (simp add: balanced_def)
  ultimately show ?thesis using assms(3) sub n by (auto simp: almost_balanced_def)
qed

lemma add_internal_black:
  assumes "balanced t" and "rbt_add_internal cmp t [] k v = (rc, n, p)" and "is_black n"
  shows "balanced (plug n p)" and "rc = 1"
proof -
  have "rc \<noteq> 0" using add_internal_plug(1) [OF assms(2)] assms(3) by auto
  with add_internal_plug(2) [OF assms(2)] obtain c l j w r where n: "n = Node c l k v r"
    and rc: "rc = 1" and t: "plug (Node c l j w r) p = t" by auto
  have "same_blacks (plug n p) \<and> no_red_red (plug n p)"
    using same_blacks_plug [of "Node c l j w r" p n] no_red_red_plug [of "Node c l j w r" p n]
      assms(1) t n same_blacks_hole [of "Node c l j w r" p] no_red_red_hole [of "Node c l j w r" p]
    by (simp add: balanced_def)
  moreover have "is_black (plug n p)"
    using assms(1,3) t n by (cases "p = []") (auto simp: balanced_def is_black_plug)
  ultimately show "balanced (plug n p)" by (simp add: balanced_def)
  show "rc = 1" by (fact rc)
qed

section \<open>Insertion and lookup on a whole tree\<close>

context key_order
begin

definition rbt_ok :: "('k, 'v) rbt \<Rightarrow> bool" where
  "rbt_ok t \<longleftrightarrow> cmp_keys_cb t = cmp \<and> ordered (inorder (rbt_root t)) \<and> balanced (rbt_root t)"

lemma rbt_ok_create: "rbt_ok (rbt_create cmp)"
  by (simp add: rbt_ok_def rbt_create_def balanced_def)

lemma rbt_find_lookup:
  assumes "rbt_ok t" and "k \<in> K"
  shows "rbt_find t k = (case lookup (inorder (rbt_root t)) k of None \<Rightarrow> (-1, None) | Some v \<Rightarrow> (0, Some v))"
  using find_internal_lookup [of "rbt_root t" k] assms
  by (cases "lookup (inorder (rbt_root t)) k")
    (auto simp: rbt_find_def rbt_ok_def split: rbt_node.splits)

text \<open>
  Insertion always returns, keeps search order and balance, and its result code says whether the
  key was there.
\<close>

lemma rbt_add_total:
  assumes ok: "rbt_ok t" and k: "k \<in> K"
  shows "\<exists>t'. rbt_add t k v = Some (if lookup (inorder (rbt_root t)) k = None then 0 else 1, t') \<and>
    rbt_ok t' \<and> inorder (rbt_root t') = upd k v (inorder (rbt_root t))"
proof (cases "rbt_root t = Null")
  case True
  then show ?thesis
    using ok k by (subst rbt_add.simps)
      (simp add: rbt_count_new_def rbt_ok_def balanced_def upd_def ordered_Cons)
next
  case False
  obtain rc n p where int: "rbt_add_internal cmp (rbt_root t) [] k v = (rc, n, p)"
    by (cases "rbt_add_internal cmp (rbt_root t) [] k v") auto
  have ord: "ordered (inorder (rbt_root t))" and bal: "balanced (rbt_root t)"
    and cb: "cmp_keys_cb t = cmp"
    using ok by (simp_all add: rbt_ok_def)
  note ino = add_internal_inorder [OF ord k int]
  have ord': "ordered (inorder (plug n p))"
    using ordered_upd [OF ord k, of v] ino(1) by simp
  show ?thesis
  proof (cases "is_black n")
    case True
    have "rbt_add t k v = Some (1, t\<lparr>rbt_root := plug n p\<rparr>)"
      using False True int cb by (subst rbt_add.simps) simp
    then show ?thesis
      using add_internal_black [OF bal int True] ino ord' cb
      by (auto simp: rbt_ok_def split: if_splits)
  next
    case red: False
    then have "is_red n" by (simp add: is_red_iff)
    from rbt_add_rebalance [OF False cb int this ord']
      rebalance_balanced [OF add_internal_almost [OF bal int this]] ino ord' cb
    show ?thesis by (auto simp: rbt_ok_def)
  qed
qed

end

section \<open>Walks that are never stopped\<close>

fun preorder :: "('k, 'v) rbt_node \<Rightarrow> ('k \<times> 'v) list" where
  "preorder Null = []"
| "preorder (Node c l k v r) = (k, v) # preorder l @ preorder r"

definition visit_order :: "bool \<Rightarrow> ('k, 'v) rbt_node \<Rightarrow> ('k \<times> 'v) list" where
  "visit_order srt t = (if srt then inorder t else preorder t)"

definition never_stops :: "('k, 'v, 'u) rbt_walk_callback \<Rightarrow> bool" where
  "never_stops cb \<longleftrightarrow> (\<forall>k v u. fst (cb k v u) = RBT_WALK_CONTINUE)"

definition cb_fold :: "('k, 'v, 'u) rbt_walk_callback \<Rightarrow> ('k \<times> 'v) list \<Rightarrow> 'u \<Rightarrow> 'u" where
  "cb_fold cb xs u = fold (\<lambda>(k, v) u. snd (cb k v u)) xs u"

lemma cb_fold_simps [simp]:
  "cb_fold cb [] u = u"
  "cb_fold cb ((k, v) # xs) u = cb_fold cb xs (snd (cb k v u))"
  "cb_fold cb (xs @ ys) u = cb_fold cb ys (cb_fold cb xs u)"
  by (simp_all add: cb_fold_def)

lemma visit_order_simps [simp]:
  "visit_order srt Null = []"
  "visit_order True (Node c l k v r) = visit_order True l @ (k, v) # visit_order True r"
  "visit_order False (Node c l k v r) = (k, v) # visit_order False l @ visit_order False r"
  by (simp_all add: visit_order_def)

lemma visit_order_Nil [simp]: "visit_order srt t = [] \<longleftrightarrow> t = Null"
  by (cases t; cases srt) simp_all

lemma set_preorder: "set (preorder t) = set (inorder t)"
  by (induction t) auto

lemma length_preorder: "length (preorder t) = length (inorder t)"
  by (induction t) auto

lemma length_visit_order: "length (visit_order srt t) = length (inorder t)"
  by (simp add: visit_order_def length_preorder)

lemma set_visit_order: "set (visit_order srt t) = set (inorder t)"
  by (simp add: visit_order_def set_preorder)

lemma never_stops_cb: "never_stops cb \<Longrightarrow> fst (cb k v u) = RBT_WALK_CONTINUE"
  by (simp add: never_stops_def)

lemma walk_internal_all:
  assumes "never_stops cb"
  shows "rbt_walk_internal srt cb t u = (int (length (visit_order srt t)), cb_fold cb (visit_order srt t) u)"
proof (induction t arbitrary: u)
  case (Node c l k v r)
  show ?case
    using Node.IH
    by (cases srt; cases "l = Null"; cases "r = Null")
      (simp_all add: never_stops_cb [OF assms] Let_def case_prod_beta)
qed simp

lemma rbt_walk_all:
  assumes "never_stops cb"
  shows "rbt_walk t cb u = (int (length (inorder (rbt_root t))), cb_fold cb (preorder (rbt_root t)) u)"
    and "rbt_walk_sorted t cb u =
      (int (length (inorder (rbt_root t))), cb_fold cb (inorder (rbt_root t)) u)"
  using walk_internal_all [OF assms, of False] walk_internal_all [OF assms, of True]
  by (auto simp: rbt_walk_def rbt_walk_sorted_def visit_order_def length_preorder)

definition in_range :: "('k \<Rightarrow> 'k \<Rightarrow> int) \<Rightarrow> 'k \<Rightarrow> 'k \<Rightarrow> 'k \<Rightarrow> bool" where
  "in_range cmp bk ek k \<longleftrightarrow> cmp k bk = 0 \<or> (cmp k bk > 0 \<and> cmp k ek < 0)"

lemma range_walk_internal_all:
  assumes "never_stops cb" and "cmp bk ek < 0"
  shows "rbt_range_walk_internal cmp bk ek srt cb t u =
    (int (length (visit_order srt t)),
     cb_fold cb (filter (\<lambda>x. in_range cmp bk ek (fst x)) (visit_order srt t)) u)"
proof (induction t arbitrary: u)
  case (Node c l k v r)
  have test: "(if cmp k bk = 0 then cb k v w else if 0 < cmp k bk \<and> cmp k ek < 0 then cb k v w
      else (RBT_WALK_CONTINUE, w)) = (if in_range cmp bk ek k then cb k v w else (RBT_WALK_CONTINUE, w))"
    for w by (auto simp: in_range_def)
  show ?case
    using assms(2) Node.IH
    by (cases srt; cases "l = Null"; cases "r = Null"; cases "in_range cmp bk ek k")
      (simp_all add: test never_stops_cb [OF assms(1)] Let_def case_prod_beta)
qed simp

section \<open>Height\<close>

fun rbt_height :: "('k, 'v) rbt_node \<Rightarrow> nat" where
  "rbt_height Null = 0"
| "rbt_height (Node c l k v r) = Suc (max (rbt_height l) (rbt_height r))"

lemma bheight_size: "same_blacks t \<Longrightarrow> 2 ^ bheight t \<le> Suc (length (inorder t))"
proof (induction t)
  case (Node c l k v r)
  then show ?case by (cases "c = RBTREE_COLOR_BLACK") auto
qed simp

lemma height_bheight:
  "same_blacks t \<Longrightarrow> no_red_red t \<Longrightarrow> rbt_height t \<le> 2 * bheight t + (if is_black t then 0 else 1)"
proof (induction t)
  case (Node c l k v r)
  then show ?case by (cases c) (auto split: if_splits)
qed simp

lemma height_logarithmic:
  assumes "balanced t"
  shows "2 ^ rbt_height t \<le> (Suc (length (inorder t))) ^ 2"
proof -
  have "rbt_height t \<le> bheight t * 2"
    using height_bheight [of t] assms by (auto simp: balanced_def)
  then have "(2 :: nat) ^ rbt_height t \<le> (2 ^ bheight t) ^ 2"
    by (simp add: power_increasing flip: power_mult)
  also have "\<dots> \<le> (Suc (length (inorder t))) ^ 2"
    using bheight_size [of t] assms by (intro power_mono) (auto simp: balanced_def)
  finally show ?thesis .
qed

lemma bytes4_int_keys [simp]: "bytes4 w \<in> int_keys \<longleftrightarrow> - (2 ^ 30) \<le> sint w \<and> sint w < 2 ^ 30"
  by (simp add: int_keys_def)

section \<open>Properties\<close>

text \<open>C6: on integer keys in range, insertion into a tree in search order returns, keeps order and
  balance, and the tree then maps the key to the value and every other key as before; the code
  tells a new key from a replaced one.\<close>

theorem rbt_add_find_int:
  assumes "int_order.rbt_ok t" and "k \<in> int_keys"
  shows "\<exists>rc t'. rbt_add t k v = Some (rc, t') \<and> int_order.rbt_ok t' \<and>
    rc = (if fst (rbt_find t k) = - 1 then 0 else 1) \<and>
    (\<forall>k' \<in> int_keys. rbt_find t' k' = (if k' = k then (0, Some v) else rbt_find t k'))"
proof -
  let ?xs = "inorder (rbt_root t)"
  obtain t' where t': "rbt_add t k v = Some (if int_order.lookup ?xs k = None then 0 else 1, t')"
    "int_order.rbt_ok t'" "inorder (rbt_root t') = int_order.upd k v ?xs"
    using int_order.rbt_add_total [OF assms] by blast
  have "rbt_find t' k' = (if k' = k then (0, Some v) else rbt_find t k')" if "k' \<in> int_keys" for k'
    using int_order.rbt_find_lookup [OF t'(2) that] int_order.rbt_find_lookup [OF assms(1) that]
      int_key_inj [OF that assms(2)] by (simp add: t'(3) int_order.lookup_upd)
  moreover have "(int_order.lookup ?xs k = None) = (fst (rbt_find t k) = - 1)"
    using int_order.rbt_find_lookup [OF assms] by (simp split: option.splits)
  ultimately show ?thesis using t' by auto
qed

theorem rbt_add_find_int_witness:
  "\<exists>t'. rbt_add (rbt_create libhl_cmp_keys_int) (bytes4 5) True = Some (0, t') \<and> int_order.rbt_ok t' \<and>
    rbt_find t' (bytes4 5) = (0, Some True) \<and> rbt_find t' (bytes4 6) = (- 1, None)"
proof -
  let ?t = "rbt_create libhl_cmp_keys_int :: (byte list, bool) rbt"
  have none: "rbt_find ?t k = (- 1, None)" for k
    by (simp add: rbt_find_def rbt_create_def)
  have "int_key (bytes4 6) \<noteq> int_key (bytes4 5)"
    by simp
  then have ne: "bytes4 6 \<noteq> bytes4 5"
    by metis
  obtain t' where "rbt_add ?t (bytes4 5) True = Some (0, t')" "int_order.rbt_ok t'"
    "\<forall>k' \<in> int_keys. rbt_find t' k' = (if k' = bytes4 5 then (0, Some True) else rbt_find ?t k')"
    using rbt_add_find_int [OF int_order.rbt_ok_create, of "bytes4 5" True] by (auto simp: none)
  then show ?thesis using none ne by (intro exI [of _ t']) simp
qed

text \<open>C36: on a tree in search order and balance with integer keys within half of the range of \<^verbatim>\<open>int\<close>, insertion of such a key keeps order and balance, and the height of the new tree is at
  most twice the binary logarithm of the number of its nodes plus one: two to the height is at most the square of that number.\<close>

theorem rbt_add_height:
  assumes "int_order.rbt_ok t" and "k \<in> int_keys"
  shows "\<exists>rc t'. rbt_add t k v = Some (rc, t') \<and> int_order.rbt_ok t' \<and>
    2 ^ rbt_height (rbt_root t') \<le> (length (inorder (rbt_root t')) + 1) ^ 2"
proof -
  obtain rc t' where t': "rbt_add t k v = Some (rc, t')" "int_order.rbt_ok t'" using int_order.rbt_add_total [OF assms, of v] by blast
  then have "2 ^ rbt_height (rbt_root t') \<le> (Suc (length (inorder (rbt_root t')))) ^ 2" using height_logarithmic by (metis int_order.rbt_ok_def)
  with t' show ?thesis by auto
qed

theorem rbt_add_height_witness:
  "\<exists>rc t'. rbt_add (rbt_create libhl_cmp_keys_int) (bytes4 5) True = Some (rc, t') \<and> int_order.rbt_ok t' \<and>
    2 ^ rbt_height (rbt_root t') \<le> (length (inorder (rbt_root t')) + 1) ^ 2"
  using rbt_add_height [OF int_order.rbt_ok_create, of "bytes4 5" True] by simp

text \<open>A walk whose callback never stops it calls back every entry once, in key order for the
  sorted walk, and returns the number of entries.\<close>

theorem rbt_walk_visits_all:
  assumes "never_stops cb"
  shows "rbt_walk_sorted t cb u = (int (length (inorder (rbt_root t))), cb_fold cb (inorder (rbt_root t)) u) \<and>
    rbt_walk t cb u = (int (length (inorder (rbt_root t))), cb_fold cb (preorder (rbt_root t)) u)"
  using rbt_walk_all [OF assms] by simp

theorem rbt_walk_visits_all_witness:
  "rbt_walk_sorted \<lparr>rbt_root = Node RBTREE_COLOR_BLACK (Node RBTREE_COLOR_RED Null 1 False Null) (2::nat) True Null,
      rbt_size = 2, cmp_keys_cb = (\<lambda>x y. int x - int y)\<rparr> (\<lambda>k v u. (RBT_WALK_CONTINUE, u @ [v])) [] = (2, [False, True])"
  using rbt_walk_visits_all [of "\<lambda>k v u. (RBT_WALK_CONTINUE, u @ [v])"
      "\<lparr>rbt_root = Node RBTREE_COLOR_BLACK (Node RBTREE_COLOR_RED Null 1 False Null) (2::nat) True Null,
      rbt_size = 2, cmp_keys_cb = (\<lambda>x y. int x - int y)\<rparr>" "[]"]
  by (simp add: never_stops_def)

text \<open>A range walk over integer keys calls back exactly the entries from the first bound, itself
  included, to the second, itself excluded; its result counts every node of the tree.\<close>

theorem rbt_range_walk_int:
  assumes "int_order.rbt_ok t" and "never_stops cb"
    and "bk \<in> int_keys" and "ek \<in> int_keys" and "int_key bk < int_key ek"
  shows "rbt_range_walk_sorted t bk ek cb u =
    (int (length (inorder (rbt_root t))),
     cb_fold cb (filter (\<lambda>x. int_key bk \<le> int_key (fst x) \<and> int_key (fst x) < int_key ek) (inorder (rbt_root t))) u)"
proof -
  have cmp: "cmp_keys_cb t = libhl_cmp_keys_int" and keys: "fst ` set (inorder (rbt_root t)) \<subseteq> int_keys"
    using assms(1) by (auto simp: int_order.rbt_ok_def int_order.ordered_def)
  have "libhl_cmp_keys_int bk ek < 0"
    using assms int_order.cmp_less by blast
  note walk = range_walk_internal_all [where cmp = libhl_cmp_keys_int, OF assms(2) this, of True "rbt_root t" u]
  have "in_range libhl_cmp_keys_int bk ek (fst x) \<longleftrightarrow> int_key bk \<le> int_key (fst x) \<and> int_key (fst x) < int_key ek"
    if "x \<in> set (inorder (rbt_root t))" for x
  proof -
    have x: "fst x \<in> int_keys" using keys that by blast
    note cmp = int_order.cmp_eq [OF x assms(3)] int_order.cmp_greater [OF x assms(3)]
      int_order.cmp_less [OF x assms(4)]
    show ?thesis unfolding in_range_def cmp using assms(5) by auto
  qed
  then have "filter (\<lambda>x. in_range libhl_cmp_keys_int bk ek (fst x)) (inorder (rbt_root t)) =
      filter (\<lambda>x. int_key bk \<le> int_key (fst x) \<and> int_key (fst x) < int_key ek) (inorder (rbt_root t))"
    by (intro filter_cong) auto
  with walk show ?thesis
    by (simp add: rbt_range_walk_sorted_def cmp visit_order_def)
qed

theorem rbt_range_walk_int_witness:
  "rbt_range_walk_sorted \<lparr>rbt_root = Node RBTREE_COLOR_BLACK Null (bytes4 2) True Null, rbt_size = 1,
      cmp_keys_cb = libhl_cmp_keys_int\<rparr> (bytes4 1) (bytes4 4) (\<lambda>k v u. (RBT_WALK_CONTINUE, u @ [v])) [] = (1, [True])"
proof -
  let ?t = "\<lparr>rbt_root = Node RBTREE_COLOR_BLACK Null (bytes4 2) True Null, rbt_size = 1,
      cmp_keys_cb = libhl_cmp_keys_int\<rparr>"
  have "int_order.rbt_ok ?t"
    by (simp add: int_order.rbt_ok_def int_order.ordered_def balanced_def)
  from rbt_range_walk_int [OF this, of "\<lambda>k v u. (RBT_WALK_CONTINUE, u @ [v])" "bytes4 1" "bytes4 4" "[]"]
  show ?thesis by (simp add: never_stops_def)
qed

text \<open>The size field misses every key that is added below a black parent: after two insertions
  into an empty tree it is one.\<close>

theorem rbt_size_undercounts:
  "\<exists>t1 t2. rbt_add (rbt_create libhl_cmp_keys_int) (bytes4 1) False = Some (0, t1) \<and>
    rbt_add t1 (bytes4 2) True = Some (0, t2) \<and> length (inorder (rbt_root t2)) = 2 \<and> rbt_size t2 = 1"
proof -
  let ?t1 = "\<lparr>rbt_root = Node RBTREE_COLOR_BLACK Null (bytes4 1) False Null, rbt_size = 1,
      cmp_keys_cb = libhl_cmp_keys_int\<rparr>"
  have cmp: "libhl_cmp_keys_int (bytes4 1) (bytes4 2) = - 1"
    using cmp_keys_int_diff [of "bytes4 1" "bytes4 2"] by simp
  have "rbt_add (rbt_create libhl_cmp_keys_int) (bytes4 1) False = Some (0, ?t1)"
    by (subst rbt_add.simps) (simp add: rbt_create_def rbt_count_new_def)
  moreover have "rbt_add ?t1 (bytes4 2) True = Some (0, ?t1\<lparr>rbt_root :=
      Node RBTREE_COLOR_BLACK Null (bytes4 1) False (Node RBTREE_COLOR_RED Null (bytes4 2) True Null)\<rparr>)"
    by (subst rbt_add.simps) (simp add: cmp)
  ultimately show ?thesis by fastforce
qed

end
