(* ===== verification/Art_Node.thy ===== *)
theory Art_Node
  imports Miqs_Prelude
begin

unbundle bit_operations_syntax

text \<open>
  The nodes of the adaptive radix tree, src/src/index/art/art.c: the four inner node kinds, the
  lookup, addition and removal of a child with the conversions between kinds, and the laws by
  which the tree level reasons about all four alike.

  The used parts of the parallel arrays \<^verbatim>\<open>keys\<close> and \<^verbatim>\<open>children\<close> of NODE4 and NODE16 are one list of
  pairs, in array order. NODE48 keeps its 256-entry index (0 for none) and its 48 slots, NODE256
  its 256 slots. \<open>num_children\<close> is the \<^verbatim>\<open>uint8_t\<close> of the code, so a full NODE256 counts 0.
  The amd64 version of NODE16 is modelled; there \<open>add_child16\<close> compares key bytes as signed.
\<close>

section \<open>Data\<close>

definition MAX_PREFIX_LEN :: nat where
  "MAX_PREFIX_LEN = 10"

record art_hdr =
  num_children :: byte
  partial_len :: nat
  partial :: "byte list"

datatype 'v art_node =
    Leaf cstring 'v
  | Node4 art_hdr "(byte \<times> 'v art_node) list"
  | Node16 art_hdr "(byte \<times> 'v art_node) list"
  | Node48 art_hdr "nat list" "'v art_node option list"
  | Node256 art_hdr "'v art_node option list"

text \<open>A zeroed header; \<open>alloc_node\<close> of each kind.\<close>

definition new_hdr :: art_hdr where
  "new_hdr = \<lparr>num_children = 0, partial_len = 0, partial = replicate MAX_PREFIX_LEN 0\<rparr>"

definition alloc_node4 :: "'v art_node" where
  "alloc_node4 = Node4 new_hdr []"

definition alloc_node16 :: "'v art_node" where
  "alloc_node16 = Node16 new_hdr []"

definition alloc_node48 :: "'v art_node" where
  "alloc_node48 = Node48 new_hdr (replicate 256 0) (replicate 48 None)"

definition alloc_node256 :: "'v art_node" where
  "alloc_node256 = Node256 new_hdr (replicate 256 None)"

fun is_leaf :: "'v art_node \<Rightarrow> bool" where
  "is_leaf (Leaf _ _) = True"
| "is_leaf _ = False"

fun hdr :: "'v art_node \<Rightarrow> art_hdr" where
  "hdr (Leaf _ _) = new_hdr"
| "hdr (Node4 h _) = h"
| "hdr (Node16 h _) = h"
| "hdr (Node48 h _ _) = h"
| "hdr (Node256 h _) = h"

fun set_hdr :: "art_hdr \<Rightarrow> 'v art_node \<Rightarrow> 'v art_node" where
  "set_hdr h (Leaf k v) = Leaf k v"
| "set_hdr h (Node4 _ ks) = Node4 h ks"
| "set_hdr h (Node16 _ ks) = Node16 h ks"
| "set_hdr h (Node48 _ ks cs) = Node48 h ks cs"
| "set_hdr h (Node256 _ cs) = Node256 h cs"

text \<open>\<^verbatim>\<open>memcpy(dst, src, n)\<close> over the start of an array.\<close>

definition memcpy :: "'a list \<Rightarrow> 'a list \<Rightarrow> nat \<Rightarrow> 'a list" where
  "memcpy dst src n = take n src @ drop n dst"

definition copy_header :: "art_hdr \<Rightarrow> art_hdr \<Rightarrow> art_hdr" where
  "copy_header dest src =
     dest\<lparr>num_children := num_children src, partial_len := partial_len src,
          partial := memcpy (partial dest) (partial src) (min MAX_PREFIX_LEN (partial_len src))\<rparr>"

definition inc_children :: "art_hdr \<Rightarrow> art_hdr" where
  "inc_children h = h\<lparr>num_children := num_children h + 1\<rparr>"

definition dec_children :: "art_hdr \<Rightarrow> art_hdr" where
  "dec_children h = h\<lparr>num_children := num_children h - 1\<rparr>"

section \<open>Children\<close>

text \<open>
  The child slot for a byte. The bit field of NODE16 marks the positions that match; its lowest
  set bit is the first of them. The arrays of NODE48 and NODE256 have their full length in every
  well-formed node, so the bound in \<open>slot\<close> never decides.
\<close>

definition slot :: "'a option list \<Rightarrow> nat \<Rightarrow> 'a option" where
  "slot cs i = (if i < length cs then cs ! i else None)"

fun find_child :: "'v art_node \<Rightarrow> byte \<Rightarrow> 'v art_node option" where
  "find_child (Leaf _ _) c = None"
| "find_child (Node4 h ks) c = map_option snd (List.find (\<lambda>x. fst x = c) (take (unat (num_children h)) ks))"
| "find_child (Node16 h ks) c = map_option snd (List.find (\<lambda>x. fst x = c) (take (unat (num_children h)) ks))"
| "find_child (Node48 h ks cs) c = (let i = ks ! unat c in if i \<noteq> 0 then slot cs (i - 1) else None)"
| "find_child (Node256 h cs) c = slot cs (unat c)"

text \<open>\<^verbatim>\<open>*child = m\<close> through the slot pointer \<open>find_child\<close> returned.\<close>

fun upd_pair :: "byte \<Rightarrow> 'a \<Rightarrow> (byte \<times> 'a) list \<Rightarrow> (byte \<times> 'a) list" where
  "upd_pair c m [] = []"
| "upd_pair c m ((k, x) # ks) = (if k = c then (k, m) # ks else (k, x) # upd_pair c m ks)"

fun set_child :: "'v art_node \<Rightarrow> byte \<Rightarrow> 'v art_node \<Rightarrow> 'v art_node" where
  "set_child (Leaf k v) c m = Leaf k v"
| "set_child (Node4 h ks) c m = Node4 h (upd_pair c m ks)"
| "set_child (Node16 h ks) c m = Node16 h (upd_pair c m ks)"
| "set_child (Node48 h ks cs) c m = Node48 h ks (cs[ks ! unat c - 1 := Some m])"
| "set_child (Node256 h cs) c m = Node256 h (cs[unat c := Some m])"

text \<open>Children in the order the iterators visit them, with the byte that leads to each.\<close>

fun kid_pairs :: "'v art_node \<Rightarrow> (byte \<times> 'v art_node) list" where
  "kid_pairs (Leaf _ _) = []"
| "kid_pairs (Node4 h ks) = take (unat (num_children h)) ks"
| "kid_pairs (Node16 h ks) = take (unat (num_children h)) ks"
| "kid_pairs (Node48 h ks cs) =
     List.map_filter (\<lambda>i. map_option (Pair (of_nat i)) (find_child (Node48 h ks cs) (of_nat i))) [0..<256]"
| "kid_pairs (Node256 h cs) =
     List.map_filter (\<lambda>i. map_option (Pair (of_nat i)) (slot cs i)) [0..<256]"

section \<open>Adding a child\<close>

definition add_child256 :: "'v art_node \<Rightarrow> byte \<Rightarrow> 'v art_node \<Rightarrow> 'v art_node" where
  "add_child256 n c child =
     (case n of
        Node256 h cs \<Rightarrow> Node256 (inc_children h) (cs[unat c := Some child])
      | _ \<Rightarrow> n)"

text \<open>The first free slot; when full, the children move to a NODE256.\<close>

fun first_free :: "'a option list \<Rightarrow> nat" where
  "first_free [] = 0"
| "first_free (x # xs) = (if x = None then 0 else Suc (first_free xs))"

definition add_child48 :: "'v art_node \<Rightarrow> byte \<Rightarrow> 'v art_node \<Rightarrow> 'v art_node" where
  "add_child48 n c child =
     (case n of
        Node48 h ks cs \<Rightarrow>
          if num_children h < 48 then
            let pos = first_free cs
            in Node48 (inc_children h) (ks[unat c := pos + 1]) (cs[pos := Some child])
          else
            add_child256
              (Node256 (copy_header new_hdr h)
                (map (\<lambda>i. if ks ! i \<noteq> 0 then cs ! (ks ! i - 1) else None) [0..<256])) c child
      | _ \<Rightarrow> n)"

text \<open>Insertion before the first larger key; \<open>lt\<close> is the comparison of the node kind.\<close>

fun insert_pair :: "(byte \<Rightarrow> byte \<Rightarrow> bool) \<Rightarrow> byte \<Rightarrow> 'a \<Rightarrow> (byte \<times> 'a) list \<Rightarrow> (byte \<times> 'a) list" where
  "insert_pair lt c m [] = [(c, m)]"
| "insert_pair lt c m ((k, x) # ks) =
     (if lt c k then (c, m) # (k, x) # ks else (k, x) # insert_pair lt c m ks)"

fun key_index :: "nat \<Rightarrow> byte list \<Rightarrow> nat list \<Rightarrow> nat list" where
  "key_index i [] idx = idx"
| "key_index i (k # ks) idx = key_index (Suc i) ks (idx[unat k := i + 1])"

definition add_child16 :: "'v art_node \<Rightarrow> byte \<Rightarrow> 'v art_node \<Rightarrow> 'v art_node" where
  "add_child16 n c child =
     (case n of
        Node16 h ks \<Rightarrow>
          if num_children h < 16 then
            Node16 (inc_children h)
              (insert_pair (\<lambda>a b. sint a < sint b) c child (take (unat (num_children h)) ks))
          else
            let used = take (unat (num_children h)) ks
            in add_child48
                 (Node48 (copy_header new_hdr h)
                   (key_index 0 (map fst used) (replicate 256 0))
                   (memcpy (replicate 48 None) (map (Some \<circ> snd) used) (unat (num_children h)))) c child
      | _ \<Rightarrow> n)"

definition add_child4 :: "'v art_node \<Rightarrow> byte \<Rightarrow> 'v art_node \<Rightarrow> 'v art_node" where
  "add_child4 n c child =
     (case n of
        Node4 h ks \<Rightarrow>
          if num_children h < 4 then
            Node4 (inc_children h) (insert_pair (<) c child (take (unat (num_children h)) ks))
          else
            add_child16 (Node16 (copy_header new_hdr h) (take (unat (num_children h)) ks)) c child
      | _ \<Rightarrow> n)"

definition add_child :: "'v art_node \<Rightarrow> byte \<Rightarrow> 'v art_node \<Rightarrow> 'v art_node" where
  "add_child n c child =
     (case n of
        Leaf _ _ \<Rightarrow> n
      | Node4 _ _ \<Rightarrow> add_child4 n c child
      | Node16 _ _ \<Rightarrow> add_child16 n c child
      | Node48 _ _ _ \<Rightarrow> add_child48 n c child
      | Node256 _ _ \<Rightarrow> add_child256 n c child)"

section \<open>Removing a child\<close>

definition remove_child256 :: "'v art_node \<Rightarrow> byte \<Rightarrow> 'v art_node" where
  "remove_child256 n c =
     (case n of
        Node256 h cs \<Rightarrow>
          let h1 = dec_children h; cs1 = cs[unat c := None]
          in if num_children h1 = 37 then
               let live = filter (\<lambda>i. cs1 ! i \<noteq> None) [0..<256]
               in Node48 (copy_header new_hdr h1)
                    (key_index 0 (map of_nat live) (replicate 256 0))
                    (memcpy (replicate 48 None) (map (\<lambda>i. cs1 ! i) live) (length live))
             else Node256 h1 cs1
      | _ \<Rightarrow> n)"

definition remove_child48 :: "'v art_node \<Rightarrow> byte \<Rightarrow> 'v art_node" where
  "remove_child48 n c =
     (case n of
        Node48 h ks cs \<Rightarrow>
          let pos = ks ! unat c; ks1 = ks[unat c := 0]; cs1 = cs[pos - 1 := None];
              h1 = dec_children h
          in if num_children h1 = 12 then
               Node16 (copy_header new_hdr h1)
                 (List.map_filter (\<lambda>i. if ks1 ! i \<noteq> 0
                                       then map_option (Pair (of_nat i)) (cs1 ! (ks1 ! i - 1))
                                       else None) [0..<256])
             else Node48 h1 ks1 cs1
      | _ \<Rightarrow> n)"

fun remove_pair :: "byte \<Rightarrow> (byte \<times> 'a) list \<Rightarrow> (byte \<times> 'a) list" where
  "remove_pair c [] = []"
| "remove_pair c ((k, x) # ks) = (if k = c then ks else (k, x) # remove_pair c ks)"

definition remove_child16 :: "'v art_node \<Rightarrow> byte \<Rightarrow> 'v art_node" where
  "remove_child16 n c =
     (case n of
        Node16 h ks \<Rightarrow>
          let h1 = dec_children h; ks1 = remove_pair c (take (unat (num_children h)) ks)
          in if num_children h1 = 3 then Node4 (copy_header new_hdr h1) ks1
             else Node16 h1 ks1
      | _ \<Rightarrow> n)"

text \<open>
  A NODE4 left with one child is replaced by it. The child's prefix becomes the node's prefix, the
  byte of the edge and its own prefix, as far as ten bytes can hold it.
\<close>

definition join_prefix :: "art_hdr \<Rightarrow> byte \<Rightarrow> art_hdr \<Rightarrow> art_hdr" where
  "join_prefix h key ch =
     (let prefix0 = partial_len h;
          (buf1, prefix1) = (if prefix0 < MAX_PREFIX_LEN
                             then ((partial h)[prefix0 := key], prefix0 + 1) else (partial h, prefix0));
          sub = min (partial_len ch) (MAX_PREFIX_LEN - prefix1);
          (buf2, prefix2) = (if prefix1 < MAX_PREFIX_LEN
                             then (take prefix1 buf1 @ take sub (partial ch) @ drop (prefix1 + sub) buf1,
                                   prefix1 + sub)
                             else (buf1, prefix1))
      in ch\<lparr>partial := memcpy (partial ch) buf2 (min prefix2 MAX_PREFIX_LEN),
            partial_len := partial_len ch + (partial_len h + 1)\<rparr>)"

definition remove_child4 :: "'v art_node \<Rightarrow> byte \<Rightarrow> 'v art_node" where
  "remove_child4 n c =
     (case n of
        Node4 h ks \<Rightarrow>
          let h1 = dec_children h; ks1 = remove_pair c (take (unat (num_children h)) ks)
          in if num_children h1 = 1 then
               (case ks1 of
                  (key, child) # _ \<Rightarrow>
                    if is_leaf child then child else set_hdr (join_prefix h1 key (hdr child)) child
                | [] \<Rightarrow> Node4 h1 ks1)
             else Node4 h1 ks1
      | _ \<Rightarrow> n)"

definition remove_child :: "'v art_node \<Rightarrow> byte \<Rightarrow> 'v art_node" where
  "remove_child n c =
     (case n of
        Leaf _ _ \<Rightarrow> n
      | Node4 _ _ \<Rightarrow> remove_child4 n c
      | Node16 _ _ \<Rightarrow> remove_child16 n c
      | Node48 _ _ _ \<Rightarrow> remove_child48 n c
      | Node256 _ _ \<Rightarrow> remove_child256 n c)"

section \<open>Well-formed nodes\<close>

text \<open>
  Each kind has an upper bound on its children from its arrays and, from NODE16 on, a lower bound
  from the removals, which convert a node to the next smaller kind at 3, 12 and 37 children.
\<close>

fun node_wf :: "'v art_node \<Rightarrow> bool" where
  "node_wf (Leaf _ _) \<longleftrightarrow> True"
| "node_wf (Node4 h ks) \<longleftrightarrow> length (partial h) = MAX_PREFIX_LEN \<and>
     length ks = unat (num_children h) \<and> length ks \<le> 4 \<and> distinct (map fst ks)"
| "node_wf (Node16 h ks) \<longleftrightarrow> length (partial h) = MAX_PREFIX_LEN \<and>
     length ks = unat (num_children h) \<and> 4 \<le> length ks \<and> length ks \<le> 16 \<and> distinct (map fst ks)"
| "node_wf (Node48 h ks cs) \<longleftrightarrow> length (partial h) = MAX_PREFIX_LEN \<and>
     length ks = 256 \<and> length cs = 48 \<and>
     (\<forall>i < 256. ks ! i \<noteq> 0 \<longrightarrow> ks ! i \<le> 48 \<and> cs ! (ks ! i - 1) \<noteq> None) \<and>
     inj_on ((!) ks) {i. i < 256 \<and> ks ! i \<noteq> 0} \<and>
     card {j. j < 48 \<and> cs ! j \<noteq> None} = unat (num_children h) \<and>
     card {i. i < 256 \<and> ks ! i \<noteq> 0} = unat (num_children h) \<and> 13 \<le> unat (num_children h)"
| "node_wf (Node256 h cs) \<longleftrightarrow> length (partial h) = MAX_PREFIX_LEN \<and>
     length cs = 256 \<and> num_children h = of_nat (card {i. i < 256 \<and> cs ! i \<noteq> None}) \<and>
     38 \<le> card {i. i < 256 \<and> cs ! i \<noteq> None}"

lemma slot_nth [simp]: "i < length cs \<Longrightarrow> slot cs i = cs ! i"
  by (simp add: slot_def)

lemma slot_update: "slot (cs[i := x]) j = (if j < length cs \<and> i = j then x else slot cs j)"
  by (simp add: slot_def nth_list_update)

lemma unat_lt_256 [simp]: "unat (c :: byte) < 256"
  by (rule unat_byte_bound)

lemma of_nat_eq_byte: "i < 256 \<Longrightarrow> of_nat i = (c :: byte) \<longleftrightarrow> i = unat c"
  by (simp add: word_unat_eq_iff unat_of_nat)

lemma unat_of_nat_byte [simp]: "i < 256 \<Longrightarrow> unat (of_nat i :: byte) = i"
  by (simp add: unat_of_nat)

lemma find_eq_map_of: "map_option snd (List.find (\<lambda>x. fst x = c) xs) = map_of xs c"
  by (induction xs) auto

lemma map_of_map_filter:
  "map_of (List.map_filter (\<lambda>c. map_option (Pair c) (f c)) cs) c = (if c \<in> set cs then f c else None)"
  by (induction cs) (auto simp: List.map_filter_simps split: option.splits)

lemma set_map_filter_keys: "fst ` set (List.map_filter (\<lambda>c. map_option (Pair c) (f c)) cs) \<subseteq> set cs"
  by (induction cs) (auto simp: List.map_filter_simps split: option.splits)

lemma distinct_map_filter:
  "distinct cs \<Longrightarrow> distinct (map fst (List.map_filter (\<lambda>c. map_option (Pair c) (f c)) cs))"
proof (induction cs)
  case (Cons c cs)
  then show ?case
    using set_map_filter_keys [of f cs]
    by (auto simp: List.map_filter_simps split: option.splits)
qed (simp add: List.map_filter_simps)

definition all_bytes :: "byte list" where
  "all_bytes = map of_nat [0..<256]"

lemma set_all_bytes: "c \<in> set all_bytes"
proof -
  have "c = of_nat (unat c)" by simp
  then show ?thesis unfolding all_bytes_def by (metis atLeast0LessThan atLeast_upt imageI lessThan_iff set_map unat_lt_256)
qed

lemma distinct_all_bytes: "distinct all_bytes"
  unfolding all_bytes_def distinct_map
  by (auto simp: inj_on_def) (metis of_nat_eq_byte)

lemma map_filter_all_bytes:
  "List.map_filter (\<lambda>i. g (of_nat i)) [0..<256] = List.map_filter g all_bytes"
  unfolding all_bytes_def by (simp add: List.map_filter_def filter_map o_def)

text \<open>The visits of the two kinds with slots, in terms of \<open>find_child\<close>.\<close>

lemma kid_pairs_slots:
  fixes cs :: "'v art_node option list"
  shows "kid_pairs (Node48 h ks cs) =
      List.map_filter (\<lambda>c. map_option (Pair c) (find_child (Node48 h ks cs) c)) all_bytes"
    and "kid_pairs (Node256 h cs) =
      List.map_filter (\<lambda>c. map_option (Pair c) (find_child (Node256 h cs) c)) all_bytes"
proof -
  show "kid_pairs (Node48 h ks cs) =
      List.map_filter (\<lambda>c. map_option (Pair c) (find_child (Node48 h ks cs) c)) all_bytes"
    unfolding kid_pairs.simps
      map_filter_all_bytes [of "\<lambda>c. map_option (Pair c) (find_child (Node48 h ks cs) c)", symmetric]
    by simp
  have "kid_pairs (Node256 h cs) =
      List.map_filter (\<lambda>i. map_option (Pair (of_nat i)) (find_child (Node256 h cs) (of_nat i))) [0..<256]"
    unfolding kid_pairs.simps List.map_filter_def by (auto intro!: map_cong filter_cong)
  then show "kid_pairs (Node256 h cs) =
      List.map_filter (\<lambda>c. map_option (Pair c) (find_child (Node256 h cs) c)) all_bytes"
    by (simp only: map_filter_all_bytes [of "\<lambda>c. map_option (Pair c) (find_child (Node256 h cs) c)"])
qed

lemma kid_pairs_slots_laws:
  fixes cs :: "'v art_node option list"
  shows "map_of (kid_pairs (Node48 h ks cs)) = find_child (Node48 h ks cs)"
    and "distinct (map fst (kid_pairs (Node48 h ks cs)))"
    and "map_of (kid_pairs (Node256 h cs)) = find_child (Node256 h cs)"
    and "distinct (map fst (kid_pairs (Node256 h cs)))"
  unfolding kid_pairs_slots
  by (simp_all only: fun_eq_iff map_of_map_filter set_all_bytes if_True distinct_map_filter distinct_all_bytes simp_thms)

lemma kid_pairs_map_of:
  assumes "node_wf n"
  shows "map_of (kid_pairs n) = find_child n" and "distinct (map fst (kid_pairs n))"
proof -
  show "map_of (kid_pairs n) = find_child n"
  proof (cases n)
    case Node48
    then show ?thesis by (simp only: kid_pairs_slots_laws)
  next
    case Node256
    then show ?thesis by (simp only: kid_pairs_slots_laws)
  qed (auto simp: find_eq_map_of)
  show "distinct (map fst (kid_pairs n))"
  proof (cases n)
    case Node48
    then show ?thesis by (simp only: kid_pairs_slots_laws)
  next
    case Node256
    then show ?thesis by (simp only: kid_pairs_slots_laws)
  qed (use assms in \<open>auto simp: distinct_map take_all_iff\<close>)
qed

section \<open>Laws: replacing a child\<close>

lemma map_of_upd_pair: "map_of (upd_pair c m ks) = (if c \<in> fst ` set ks then (map_of ks)(c \<mapsto> m) else map_of ks)"
  by (induction c m ks rule: upd_pair.induct) (auto simp: fun_eq_iff)

lemma keys_upd_pair [simp]: "map fst (upd_pair c m ks) = map fst ks"
  by (induction c m ks rule: upd_pair.induct) auto

lemma length_upd_pair [simp]: "length (upd_pair c m ks) = length ks"
  by (metis keys_upd_pair length_map)

lemma set_child_laws:
  assumes wf: "node_wf n" and c: "find_child n c \<noteq> None"
  shows "node_wf (set_child n c m)" and "find_child (set_child n c m) = (find_child n)(c \<mapsto> m)"
    and "hdr (set_child n c m) = hdr n" and "is_leaf (set_child n c m) = is_leaf n"
proof -
  have small: "find_child (Node4 h ks) = map_of ks" "find_child (Node16 h ks) = map_of ks"
    if "length ks = unat (num_children h)" for h and ks :: "(byte \<times> 'a art_node) list"
    using that by (auto simp: fun_eq_iff find_eq_map_of)
  have dom: "c \<in> fst ` set ks" if "map_of ks c \<noteq> None" for ks :: "(byte \<times> 'a art_node) list"
    using that by (metis map_of_eq_None_iff)
  show "hdr (set_child n c m) = hdr n" "is_leaf (set_child n c m) = is_leaf n"
    by (cases n; simp)+
  show "node_wf (set_child n c m)"
  proof (cases n)
    case (Node48 h ks cs)
    then have k: "ks ! unat c \<noteq> 0" "ks ! unat c \<le> 48" "cs ! (ks ! unat c - 1) \<noteq> None"
      using wf c by (auto simp: Let_def split: if_splits)
    have "ks ! unat c - 1 < 48"
      using k(1,2) by linarith
    then have "ks ! unat c - 1 < length cs"
      using wf Node48 by simp
    note upd = nth_list_update [OF this]
    have "cs[ks ! unat c - 1 := Some m] ! j \<noteq> None \<longleftrightarrow> cs ! j \<noteq> None" for j
      using k(3) unfolding upd by auto
    then show ?thesis
      using wf Node48 by simp
  next
    case (Node256 h cs)
    have "{i. i < 256 \<and> cs[unat c := Some m] ! i \<noteq> None} = {i. i < 256 \<and> cs ! i \<noteq> None}"
      using c wf Node256 by (auto simp: nth_list_update)
    then show ?thesis using wf Node256 by simp
  qed (use wf in auto)
  show "find_child (set_child n c m) = (find_child n)(c \<mapsto> m)"
  proof (cases n)
    case (Node48 h ks cs)
    then have k: "ks ! unat c \<noteq> 0" and "ks ! unat c \<le> 48"
      using wf c by (auto simp: Let_def split: if_splits)
    then have "ks ! unat c - 1 < 48" by linarith
    have inj: "ks ! unat d - 1 = ks ! unat c - 1 \<longleftrightarrow> d = c" if "ks ! unat d \<noteq> 0" for d
    proof
      assume "ks ! unat d - 1 = ks ! unat c - 1"
      with that k have "ks ! unat d = ks ! unat c" by linarith
      with wf Node48 that k have "unat d = unat c" by (auto dest: inj_onD)
      then show "d = c" by (simp add: word_unat_eq_iff)
    qed simp
    show ?thesis
    proof
      fix d
      show "find_child (set_child n c m) d = ((find_child n)(c \<mapsto> m)) d"
      proof (cases "ks ! unat d = 0")
        case True
        with k have "d \<noteq> c" by auto
        with True Node48 show ?thesis by simp
      next
        case False
        have "length cs = 48" using wf Node48 by simp
        with inj [OF False] \<open>ks ! unat c - 1 < 48\<close> False Node48 show ?thesis
          by (auto simp: slot_update eq_commute [of "ks ! unat c - Suc 0"])
      qed
    qed
  next
    case (Node256 h cs)
    then show ?thesis
      using wf by (auto simp: fun_eq_iff nth_list_update word_unat_eq_iff)
  qed (use wf c small dom in \<open>auto simp: map_of_upd_pair\<close>)
qed

section \<open>Laws: adding a child\<close>

lemma length_insert_pair [simp]: "length (insert_pair lt c m ks) = Suc (length ks)"
  by (induction lt c m ks rule: insert_pair.induct) auto

lemma set_insert_pair [simp]: "set (insert_pair lt c m ks) = insert (c, m) (set ks)"
  by (induction lt c m ks rule: insert_pair.induct) auto

lemma distinct_insert_pair:
  "distinct (map fst ks) \<Longrightarrow> c \<notin> fst ` set ks \<Longrightarrow> distinct (map fst (insert_pair lt c m ks))"
  by (induction lt c m ks rule: insert_pair.induct) auto

lemma map_of_insert_pair:
  "c \<notin> fst ` set ks \<Longrightarrow> map_of (insert_pair lt c m ks) = (map_of ks)(c \<mapsto> m)"
  by (induction lt c m ks rule: insert_pair.induct) (auto simp: fun_eq_iff)

lemma first_free_spec:
  "j < length xs \<Longrightarrow> xs ! j = None \<Longrightarrow> first_free xs < length xs \<and> xs ! first_free xs = None"
proof (induction xs arbitrary: j)
  case (Cons x xs)
  then show ?case by (cases j) auto
qed simp

lemma length_key_index [simp]: "length (key_index i ks idx) = length idx"
  by (induction i ks idx rule: key_index.induct) simp_all

lemma key_index_other: "c \<notin> set ks \<Longrightarrow> key_index i ks idx ! unat c = idx ! unat c"
  by (induction i ks idx rule: key_index.induct) (auto simp: nth_list_update word_unat_eq_iff)

lemma key_index_nth:
  "length idx = 256 \<Longrightarrow> distinct ks \<Longrightarrow> p < length ks \<Longrightarrow>
   key_index i ks idx ! unat (ks ! p) = Suc (i + p)"
proof (induction i ks idx arbitrary: p rule: key_index.induct)
  case (2 i k ks idx)
  then show ?case
    by (cases p) (auto simp: key_index_other)
qed simp

text \<open>A NODE48 built from a list of pairs: growth from NODE16 and shrinking from NODE256.\<close>

definition index48 :: "art_hdr \<Rightarrow> (byte \<times> 'v art_node) list \<Rightarrow> 'v art_node" where
  "index48 h used = Node48 h (key_index 0 (map fst used) (replicate 256 0))
     (memcpy (replicate 48 None) (map (Some \<circ> snd) used) (length used))"

lemma index48_laws:
  assumes d: "distinct (map fst used)" and len: "length used \<le> 48" and lo: "13 \<le> length used"
    and num: "unat (num_children h) = length used" and part: "length (partial h) = MAX_PREFIX_LEN"
  shows "node_wf (index48 h used)" and "find_child (index48 h used) = map_of used"
proof -
  let ?ks = "key_index 0 (map fst used) (replicate 256 0)"
  let ?cs = "memcpy (replicate 48 None) (map (Some \<circ> snd) used) (length used)"
  have ks: "?ks ! unat (fst (used ! p)) = Suc p" if "p < length used" for p
    using key_index_nth [of "replicate 256 0" "map fst used" p 0] d that by simp
  have zero: "?ks ! unat c = 0" if "c \<notin> fst ` set used" for c
    using that by (subst key_index_other) auto
  have cs: "?cs ! p = Some (snd (used ! p))" if "p < length used" for p
    using that by (simp add: memcpy_def nth_append)
  have cs0: "?cs ! p = None" if "length used \<le> p" "p < 48" for p
    using that by (simp add: memcpy_def nth_append)
  have lcs: "length ?cs = 48" using len by (simp add: memcpy_def)
  have hit: "\<exists>p < length used. i = unat (fst (used ! p)) \<and> ?ks ! i = Suc p"
    if "i < 256" "?ks ! i \<noteq> 0" for i
  proof -
    have "of_nat i \<in> fst ` set used"
      using zero [of "of_nat i"] that by (metis unat_of_nat_byte)
    then obtain x where "x \<in> set used" and x: "of_nat i = fst x" by blast
    then obtain p where p: "p < length used" and "used ! p = x"
      unfolding in_set_conv_nth by blast
    then have "unat (fst (used ! p)) = i"
      using x that(1) by (metis unat_of_nat_byte)
    then show ?thesis using ks [OF p] p by blast
  qed
  have inj: "inj_on ((!) ?ks) {i. i < 256 \<and> ?ks ! i \<noteq> 0}"
  proof (rule inj_onI)
    fix i j
    assume "i \<in> {i. i < 256 \<and> ?ks ! i \<noteq> 0}" "j \<in> {i. i < 256 \<and> ?ks ! i \<noteq> 0}" "?ks ! i = ?ks ! j"
    with hit [of i] hit [of j] show "i = j" by auto
  qed
  have slots: "{j. j < 48 \<and> ?cs ! j \<noteq> None} = {..< length used}"
    using len cs cs0 by (auto simp: not_less) (metis leI option.distinct(1))
  have used: "{i. i < 256 \<and> ?ks ! i \<noteq> 0} = unat ` set (map fst used)"
  proof
    show "{i. i < 256 \<and> ?ks ! i \<noteq> 0} \<subseteq> unat ` set (map fst used)"
      using hit by fastforce
    show "unat ` set (map fst used) \<subseteq> {i. i < 256 \<and> ?ks ! i \<noteq> 0}"
      using ks by (auto simp: in_set_conv_nth) (metis fst_conv nat.distinct(1) not_gr_zero)
  qed
  have "card (unat ` set (map fst used)) = length used"
    using d distinct_card [of "map fst used"] by (subst card_image) (auto simp: inj_on_def word_unat_eq_iff)
  with used have cnt: "card {i. i < 256 \<and> ?ks ! i \<noteq> 0} = length used" by simp
  show "node_wf (index48 h used)"
    unfolding index48_def node_wf.simps
  proof (intro conjI allI impI)
    fix i :: nat
    assume "i < 256" and "?ks ! i \<noteq> 0"
    then obtain p where p: "p < length used" "?ks ! i = Suc p" using hit by blast
    show "?ks ! i \<le> 48" using p len by simp
    show "?cs ! (?ks ! i - 1) \<noteq> None" using p cs by simp
  qed (use part lcs inj slots cnt num lo in simp_all)
  show "find_child (index48 h used) = map_of used"
  proof
    fix c
    show "find_child (index48 h used) c = map_of used c"
    proof (cases "c \<in> fst ` set used")
      case True
      then obtain x where "x \<in> set used" and x: "fst x = c" by blast
      then obtain p where p: "p < length used" "fst (used ! p) = c"
        unfolding in_set_conv_nth by blast
      then have "map_of used c = Some (snd (used ! p))"
        using d by (metis map_of_is_SomeI nth_mem prod.collapse)
      moreover have "p < length ?cs" using p(1) lcs len by linarith
      ultimately show ?thesis
        using ks [OF p(1)] cs [OF p(1)] p by (simp add: index48_def)
    next
      case False
      then have "map_of used c = None" by (simp add: map_of_eq_None_iff)
      with zero [OF False] show ?thesis by (simp add: index48_def)
    qed
  qed
qed

lemma copy_header_simps [simp]:
  "num_children (copy_header d h) = num_children h"
  "partial_len (copy_header d h) = partial_len h"
  by (simp_all add: copy_header_def)

lemma length_copy_partial:
  "length (partial d) = MAX_PREFIX_LEN \<Longrightarrow> length (partial h) = MAX_PREFIX_LEN \<Longrightarrow>
   length (partial (copy_header d h)) = MAX_PREFIX_LEN"
  by (simp add: copy_header_def memcpy_def)

lemma length_new_partial [simp]: "length (partial new_hdr) = MAX_PREFIX_LEN"
  by (simp add: new_hdr_def)

text \<open>What a header says about the compressed path: its length and the bytes it stores.\<close>

definition stored_prefix :: "art_hdr \<Rightarrow> byte list" where
  "stored_prefix h = take (min MAX_PREFIX_LEN (partial_len h)) (partial h)"

lemma stored_prefix_copy [simp]:
  "length (partial h) = MAX_PREFIX_LEN \<Longrightarrow> stored_prefix (copy_header new_hdr h) = stored_prefix h"
  by (simp add: stored_prefix_def copy_header_def memcpy_def)

lemma hdr_counts [simp]:
  "num_children (inc_children h) = num_children h + 1" "num_children (dec_children h) = num_children h - 1"
  "partial_len (inc_children h) = partial_len h" "partial_len (dec_children h) = partial_len h"
  "partial (inc_children h) = partial h" "partial (dec_children h) = partial h"
  "stored_prefix (inc_children h) = stored_prefix h" "stored_prefix (dec_children h) = stored_prefix h"
  by (simp_all add: inc_children_def dec_children_def stored_prefix_def)

text \<open>The header facts every operation on children keeps.\<close>

definition same_prefix :: "'v art_node \<Rightarrow> 'v art_node \<Rightarrow> bool" where
  "same_prefix n n' \<longleftrightarrow> partial_len (hdr n') = partial_len (hdr n) \<and>
     stored_prefix (hdr n') = stored_prefix (hdr n) \<and> \<not> is_leaf n'"

lemma unat_inc:
  assumes "x < y"
  shows "unat (x + 1 :: byte) = Suc (unat x)"
proof -
  have "unat x < unat y"
    using assms by (simp add: word_less_nat_alt)
  then have "Suc (unat x) < 256"
    using unat_byte_bound [of y] by linarith
  then show ?thesis by (simp add: unat_word_ariths)
qed

lemma small_find_child:
  "length ks = unat (num_children h) \<Longrightarrow> find_child (Node4 h ks) = map_of ks"
  "length ks = unat (num_children h) \<Longrightarrow> find_child (Node16 h ks) = map_of ks"
  by (auto simp: fun_eq_iff find_eq_map_of)

definition child_added :: "'v art_node \<Rightarrow> byte \<Rightarrow> 'v art_node \<Rightarrow> 'v art_node \<Rightarrow> bool" where
  "child_added n c m n' \<longleftrightarrow> node_wf n' \<and> find_child n' = (find_child n)(c \<mapsto> m) \<and> same_prefix n n'"

lemma add_child256_law:
  assumes "node_wf (Node256 h cs)" and "find_child (Node256 h cs) c = None"
  shows "child_added (Node256 h cs) c m (add_child256 (Node256 h cs) c m)"
proof -
  have len: "length cs = 256" and c: "cs ! unat c = None"
    using assms by auto
  have "{i. i < 256 \<and> cs[unat c := Some m] ! i \<noteq> None} = insert (unat c) {i. i < 256 \<and> cs ! i \<noteq> None}"
    using len by (auto simp: nth_list_update)
  moreover have "unat c \<notin> {i. i < 256 \<and> cs ! i \<noteq> None}"
    using c by simp
  ultimately have "card {i. i < 256 \<and> cs[unat c := Some m] ! i \<noteq> None}
      = Suc (card {i. i < 256 \<and> cs ! i \<noteq> None})"
    by (simp add: card_insert_disjoint)
  then have "node_wf (Node256 (inc_children h) (cs[unat c := Some m]))"
    using assms(1) by simp
  moreover have "find_child (Node256 (inc_children h) (cs[unat c := Some m]))
      = (find_child (Node256 h cs))(c \<mapsto> m)"
    using len by (auto simp: fun_eq_iff nth_list_update word_unat_eq_iff)
  ultimately show ?thesis
    by (simp add: child_added_def add_child256_def same_prefix_def)
qed

lemma add_child48_law:
  assumes wf: "node_wf (Node48 h ks cs)" and none: "find_child (Node48 h ks cs) c = None"
  shows "child_added (Node48 h ks cs) c m (add_child48 (Node48 h ks cs) c m)"
proof (cases "num_children h < 48")
  case True
  let ?pos = "first_free cs"
  have lens: "length ks = 256" "length cs = 48" and part: "length (partial h) = MAX_PREFIX_LEN"
    and refs: "\<And>i. i < 256 \<Longrightarrow> ks ! i \<noteq> 0 \<Longrightarrow> ks ! i \<le> 48 \<and> cs ! (ks ! i - 1) \<noteq> None"
    and inj: "inj_on ((!) ks) {i. i < 256 \<and> ks ! i \<noteq> 0}"
    and cards: "card {j. j < 48 \<and> cs ! j \<noteq> None} = unat (num_children h)"
      "card {i. i < 256 \<and> ks ! i \<noteq> 0} = unat (num_children h)"
    and lo: "13 \<le> unat (num_children h)"
    using wf by auto
  have num: "unat (num_children h) < 48"
    using True by (simp add: word_less_nat_alt)
  have "\<exists>j < 48. cs ! j = None"
  proof (rule ccontr)
    assume "\<not> (\<exists>j < 48. cs ! j = None)"
    then have "{j. j < 48 \<and> cs ! j \<noteq> None} = {..< 48}" by auto
    with cards(1) num show False by simp
  qed
  then have pos: "?pos < 48" "cs ! ?pos = None"
    using first_free_spec [of _ cs] lens by auto
  have c0: "ks ! unat c = 0"
    using none refs [of "unat c"] lens by (auto simp: Let_def slot_def split: if_splits)
  have away: "ks ! i - 1 \<noteq> ?pos" if "i < 256" "ks ! i \<noteq> 0" for i
    using refs [OF that] pos by metis
  let ?ks = "ks[unat c := ?pos + 1]" and ?cs = "cs[?pos := Some m]"
  have ksn: "?ks ! i = (if i = unat c then ?pos + 1 else ks ! i)" for i
    using lens by (simp add: nth_list_update)
  have csn: "?cs ! j = (if j = ?pos then Some m else cs ! j)" for j
    using lens pos by (simp add: nth_list_update)
  have set1: "{i. i < 256 \<and> ?ks ! i \<noteq> 0} = insert (unat c) {i. i < 256 \<and> ks ! i \<noteq> 0}"
    unfolding ksn by auto
  have set2: "{j. j < 48 \<and> ?cs ! j \<noteq> None} = insert ?pos {j. j < 48 \<and> cs ! j \<noteq> None}"
    unfolding csn using pos by auto
  have "inj_on ((!) ?ks) {i. i < 256 \<and> ?ks ! i \<noteq> 0}"
  proof (rule inj_onI)
    fix i j
    assume i: "i \<in> {i. i < 256 \<and> ?ks ! i \<noteq> 0}" and j: "j \<in> {i. i < 256 \<and> ?ks ! i \<noteq> 0}"
      and eq: "?ks ! i = ?ks ! j"
    show "i = j"
      using i j eq away [of i] away [of j] inj_onD [OF inj, of i j]
      unfolding ksn by (auto split: if_splits)
  qed
  moreover have "?ks ! i \<le> 48 \<and> ?cs ! (?ks ! i - 1) \<noteq> None" if "i < 256" "?ks ! i \<noteq> 0" for i
    using that refs [of i] away [of i] pos unfolding ksn csn by (auto split: if_splits)
  moreover have "card {i. i < 256 \<and> ?ks ! i \<noteq> 0} = Suc (unat (num_children h))"
    unfolding set1 using cards(2) c0 by (simp add: card_insert_disjoint)
  moreover have "card {j. j < 48 \<and> ?cs ! j \<noteq> None} = Suc (unat (num_children h))"
    unfolding set2 using cards(1) pos by (simp add: card_insert_disjoint)
  ultimately have "node_wf (Node48 (inc_children h) ?ks ?cs)"
    using lens part lo unat_inc [OF True] by simp
  moreover have "find_child (Node48 (inc_children h) ?ks ?cs) = (find_child (Node48 h ks cs))(c \<mapsto> m)"
  proof
    fix d
    show "find_child (Node48 (inc_children h) ?ks ?cs) d = ((find_child (Node48 h ks cs))(c \<mapsto> m)) d"
      using away [of "unat d"] c0 pos(1) lens(2)
      unfolding find_child.simps Let_def ksn slot_update by (auto simp: word_unat_eq_iff)
  qed
  ultimately show ?thesis
    using True by (simp add: child_added_def add_child48_def same_prefix_def Let_def)
next
  case False
  let ?cs = "map (\<lambda>i. if ks ! i \<noteq> 0 then cs ! (ks ! i - 1) else None) [0..<256]"
  have ge: "48 \<le> unat (num_children h)"
    using False by (simp add: word_less_nat_alt)
  have part: "length (partial h) = MAX_PREFIX_LEN"
    and refs: "\<And>i. i < 256 \<Longrightarrow> ks ! i \<noteq> 0 \<Longrightarrow> ks ! i \<le> 48 \<and> cs ! (ks ! i - 1) \<noteq> None"
    and lcs: "length cs = 48"
    and card: "card {i. i < 256 \<and> ks ! i \<noteq> 0} = unat (num_children h)"
    using wf by auto
  have "{i. i < 256 \<and> ?cs ! i \<noteq> None} = {i. i < 256 \<and> ks ! i \<noteq> 0}"
    using refs by (auto split: if_splits)
  then have wf': "node_wf (Node256 (copy_header new_hdr h) ?cs)"
    using part card ge by (simp add: length_copy_partial)
  have fc: "find_child (Node256 (copy_header new_hdr h) ?cs) = find_child (Node48 h ks cs)"
  proof
    fix d :: byte
    have "slot cs (ks ! unat d - 1) = cs ! (ks ! unat d - 1)" if "ks ! unat d \<noteq> 0"
    proof -
      have "ks ! unat d \<le> 48"
        using refs [OF unat_byte_bound that] by simp
      with that lcs show ?thesis by (intro slot_nth) linarith
    qed
    then show "find_child (Node256 (copy_header new_hdr h) ?cs) d = find_child (Node48 h ks cs) d"
      by (simp add: Let_def)
  qed
  define N where "N = Node256 (copy_header new_hdr h) ?cs"
  have "child_added N c m (add_child256 N c m)"
    unfolding N_def by (rule add_child256_law [OF wf']) (simp only: fc none)
  moreover have "add_child48 (Node48 h ks cs) c m = add_child256 N c m"
    using False by (simp add: add_child48_def N_def)
  moreover have "find_child N = find_child (Node48 h ks cs)"
    unfolding N_def by (rule fc)
  moreover have "partial_len (hdr N) = partial_len h" "stored_prefix (hdr N) = stored_prefix h"
    using part by (simp_all add: N_def)
  ultimately show ?thesis
    by (simp add: child_added_def same_prefix_def)
qed

lemma child_added_via:
  assumes "child_added N c m n'" and "find_child N = find_child n"
    and "partial_len (hdr N) = partial_len (hdr n)" and "stored_prefix (hdr N) = stored_prefix (hdr n)"
  shows "child_added n c m n'"
  using assms by (simp add: child_added_def same_prefix_def)

lemma add_child16_law:
  assumes wf: "node_wf (Node16 h ks)" and none: "find_child (Node16 h ks) c = None"
  shows "child_added (Node16 h ks) c m (add_child16 (Node16 h ks) c m)"
proof -
  have len: "length ks = unat (num_children h)" "4 \<le> length ks" "length ks \<le> 16" and d: "distinct (map fst ks)"
    and part: "length (partial h) = MAX_PREFIX_LEN"
    using wf by auto
  have c: "c \<notin> fst ` set ks"
    using none len by (simp add: small_find_child map_of_eq_None_iff del: find_child.simps)
  show ?thesis
  proof (cases "num_children h < 16")
    case True
    let ?ks = "insert_pair (\<lambda>a b. sint a < sint b) c m ks"
    have "length ks < 16"
      using True len by (simp add: word_less_nat_alt)
    then have "node_wf (Node16 (inc_children h) ?ks)"
      using len d c part unat_inc [OF True] by (simp add: distinct_insert_pair)
    moreover have "find_child (Node16 (inc_children h) ?ks) = (find_child (Node16 h ks))(c \<mapsto> m)"
      using len c unat_inc [OF True]
      by (simp add: small_find_child map_of_insert_pair del: find_child.simps)
    ultimately show ?thesis
      using True len by (simp add: child_added_def add_child16_def same_prefix_def)
  next
    case False
    define N where "N = index48 (copy_header new_hdr h) ks"
    have N48: "N = Node48 (copy_header new_hdr h) (key_index 0 (map fst ks) (replicate 256 0))
        (memcpy (replicate 48 None) (map (Some \<circ> snd) ks) (length ks))"
      by (simp add: N_def index48_def)
    have "13 \<le> length ks"
      using False len by (simp add: word_less_nat_alt)
    then have laws: "node_wf N" "find_child N = map_of ks"
      unfolding N_def using d len part
      by (auto intro!: index48_laws simp: length_copy_partial)
    have fc: "find_child N = find_child (Node16 h ks)"
      using laws(2) len by (simp only: small_find_child)
    have "child_added N c m (add_child48 N c m)"
      using laws(1) none unfolding fc [symmetric] unfolding N48 by (rule add_child48_law)
    then have "child_added (Node16 h ks) c m (add_child48 N c m)"
      by (rule child_added_via [OF _ fc]) (use part in \<open>simp_all add: N48\<close>)
    moreover have "add_child16 (Node16 h ks) c m = add_child48 N c m"
      using False len by (simp add: add_child16_def N48 Let_def)
    ultimately show ?thesis by (simp only:)
  qed
qed

lemma add_child4_law:
  assumes wf: "node_wf (Node4 h ks)" and none: "find_child (Node4 h ks) c = None"
  shows "child_added (Node4 h ks) c m (add_child4 (Node4 h ks) c m)"
proof -
  have len: "length ks = unat (num_children h)" "length ks \<le> 4" and d: "distinct (map fst ks)"
    and part: "length (partial h) = MAX_PREFIX_LEN"
    using wf by auto
  have c: "c \<notin> fst ` set ks"
    using none len by (simp add: small_find_child map_of_eq_None_iff del: find_child.simps)
  show ?thesis
  proof (cases "num_children h < 4")
    case True
    let ?ks = "insert_pair (<) c m ks"
    have "length ks < 4"
      using True len by (simp add: word_less_nat_alt)
    then have "node_wf (Node4 (inc_children h) ?ks)"
      using len d c part unat_inc [OF True] by (simp add: distinct_insert_pair)
    moreover have "find_child (Node4 (inc_children h) ?ks) = (find_child (Node4 h ks))(c \<mapsto> m)"
      using len c unat_inc [OF True]
      by (simp add: small_find_child map_of_insert_pair del: find_child.simps)
    ultimately show ?thesis
      using True len by (simp add: child_added_def add_child4_def same_prefix_def)
  next
    case False
    define N where "N = Node16 (copy_header new_hdr h) ks"
    have fc: "find_child N = find_child (Node4 h ks)"
      using len by (simp add: N_def small_find_child del: find_child.simps)
    have "4 \<le> length ks"
      using False len by (simp add: word_less_nat_alt)
    then have "node_wf N"
      using len d part by (simp add: N_def length_copy_partial)
    then have "child_added N c m (add_child16 N c m)"
      using none unfolding fc [symmetric] unfolding N_def by (rule add_child16_law)
    then have "child_added (Node4 h ks) c m (add_child16 N c m)"
      by (rule child_added_via [OF _ fc]) (use part in \<open>simp_all add: N_def\<close>)
    moreover have "add_child4 (Node4 h ks) c m = add_child16 N c m"
      using False len by (simp add: add_child4_def N_def)
    ultimately show ?thesis by (simp only:)
  qed
qed

text \<open>One law for all four kinds.\<close>

lemma add_child_law:
  assumes "node_wf n" and "find_child n c = None" and "\<not> is_leaf n"
  shows "child_added n c m (add_child n c m)"
proof (cases n)
  case (Node4 h ks)
  with assms show ?thesis by (simp add: add_child_def add_child4_law)
next
  case (Node16 h ks)
  with assms show ?thesis by (simp add: add_child_def add_child16_law)
next
  case (Node48 h ks cs)
  with assms show ?thesis
    using add_child48_law [of h ks cs c m] by (simp only: add_child_def art_node.case)
next
  case (Node256 h cs)
  with assms show ?thesis
    using add_child256_law [of h cs c m] by (simp only: add_child_def art_node.case)
qed (use assms in simp)

end
