(* ===== verification/Art.thy ===== *)
theory Art
  imports Art_Node "HOL-Library.Sublist"
begin

text \<open>
  The adaptive radix tree of src/src/index/art/art.c over the nodes of Art_Node: search,
  minimum and maximum, insertion with path compression, deletion and iteration. A key is a C string; reading
  it at its length gives the NUL, which the tree uses to end keys, and reading further is an
  error value (\<open>key_at\<close>). Only the first ten bytes of a compressed path are stored; search skips
  the rest unread, insertion looks them up in the leftmost leaf. Depths and lengths are natural
  numbers: the code's \<^verbatim>\<open>int\<close> differences that go negative only bound loops, which then do not run.

  The invariant \<open>art_inv\<close> says of every node which bytes lead to it; \<open>art_entries\<close> is the content.
\<close>

section \<open>Recursion through children\<close>

lemma size_in_list: "x \<in> set xs \<Longrightarrow> f x < Suc (size_list f xs)"
  by (rule le_imp_less_Suc) (rule size_list_estimation' [OF _ order.refl])

lemma size_pair_in:
  "(c, m) \<in> set (take i ks) \<Longrightarrow> size m < Suc (size_list (size_prod (\<lambda>x. 0) size) ks)"
  using size_in_list [OF in_set_takeD, of "(c, m)" i ks "size_prod (\<lambda>x. 0) size"] by simp

lemma size_slot: "slot cs i = Some m \<Longrightarrow> size m < Suc (size_list (size_option size) cs)"
proof -
  assume "slot cs i = Some m"
  then have "Some m \<in> set cs"
    by (auto simp: slot_def in_set_conv_nth split: if_splits)
  from size_in_list [OF this, of "size_option size"] show ?thesis by simp
qed

lemma size_kid: "(c, m) \<in> set (kid_pairs n) \<Longrightarrow> size m < size n"
proof (cases n)
  case (Node48 h ks cs)
  assume "(c, m) \<in> set (kid_pairs n)"
  with Node48 have "\<exists>i. slot cs i = Some m"
    by (auto simp: List.map_filter_def Let_def split: if_splits)
  then show ?thesis using Node48 size_slot by fastforce
next
  case (Node256 h cs)
  assume "(c, m) \<in> set (kid_pairs n)"
  with Node256 have "\<exists>i. slot cs i = Some m"
    by (auto simp: List.map_filter_def)
  then show ?thesis using Node256 size_slot by fastforce
qed (auto dest!: size_pair_in)

lemma size_find_child: "find_child n c = Some m \<Longrightarrow> size m < size n"
  by (cases n) (auto simp: find_eq_map_of Let_def dest!: map_of_SomeD size_pair_in size_slot
      split: if_splits)

lemma size_first_kid: "kid_pairs n = p # ps \<Longrightarrow> size (snd p) < size n"
  by (rule size_kid [of "fst p"]) simp

lemma size_last_kid: "rev (kid_pairs n) = p # ps \<Longrightarrow> size (snd p) < size n"
  by (rule size_kid [of "fst p"]) (metis list.set_intros(1) prod.collapse set_rev)

section \<open>Search\<close>

text \<open>The number of leading positions at which two byte sequences agree.\<close>

fun lcp_len :: "byte list \<Rightarrow> byte list \<Rightarrow> nat" where
  "lcp_len (a # as) (b # bs) = (if a = b then Suc (lcp_len as bs) else 0)"
| "lcp_len _ _ = 0"

definition check_prefix :: "art_hdr \<Rightarrow> cstring \<Rightarrow> nat \<Rightarrow> nat" where
  "check_prefix h key depth =
     (let max_cmp = min (min (partial_len h) MAX_PREFIX_LEN) (length key - depth)
      in lcp_len (take max_cmp (partial h)) (take max_cmp (drop depth key)))"

definition leaf_matches :: "cstring \<Rightarrow> cstring \<Rightarrow> bool" where
  "leaf_matches k key \<longleftrightarrow> length k = length key \<and> k = key"

function search_node :: "'v art_node \<Rightarrow> cstring \<Rightarrow> nat \<Rightarrow> c_error + 'v option" where
  "search_node n key depth =
     (case n of
        Leaf k v \<Rightarrow> Inr (if leaf_matches k key then Some v else None)
      | _ \<Rightarrow>
          let h = hdr n in
          if partial_len h \<noteq> 0 \<and> check_prefix h key depth \<noteq> min MAX_PREFIX_LEN (partial_len h)
          then Inr None
          else let d = depth + partial_len h
               in ebind (key_at key d) (\<lambda>c.
                    case find_child n c of
                      None \<Rightarrow> Inr None
                    | Some m \<Rightarrow> search_node m key (d + 1)))"
  by pat_completeness auto
termination
  by (relation "measure (\<lambda>(n, _). size n)") (simp_all only: in_measure wf_measure split_conv size_find_child)

declare search_node.simps [simp del]

record 'v art_tree =
  root :: "'v art_node option"
  art_size :: uint64

definition art_tree_init :: "'v art_tree" where
  "art_tree_init = \<lparr>root = None, art_size = 0\<rparr>"

definition art_search :: "'v art_tree \<Rightarrow> cstring \<Rightarrow> c_error + 'v option" where
  "art_search t key = (case root t of None \<Rightarrow> Inr None | Some n \<Rightarrow> search_node n key 0)"

section \<open>Smallest and largest leaf\<close>

text \<open>A node without children, which the code would run past, gives \<open>None\<close>.\<close>

function minimum :: "'v art_node \<Rightarrow> (cstring \<times> 'v) option" where
  "minimum n =
     (case n of
        Leaf k v \<Rightarrow> Some (k, v)
      | _ \<Rightarrow> (case kid_pairs n of [] \<Rightarrow> None | p # ps \<Rightarrow> minimum (snd p)))"
  by pat_completeness auto
termination
  by (relation "measure size") (simp_all only: in_measure wf_measure size_first_kid)

function maximum :: "'v art_node \<Rightarrow> (cstring \<times> 'v) option" where
  "maximum n =
     (case n of
        Leaf k v \<Rightarrow> Some (k, v)
      | _ \<Rightarrow> (case rev (kid_pairs n) of [] \<Rightarrow> None | p # ps \<Rightarrow> maximum (snd p)))"
  by pat_completeness auto
termination
  by (relation "measure size") (simp_all only: in_measure wf_measure size_last_kid)

declare minimum.simps [simp del] maximum.simps [simp del]

definition art_minimum :: "'v art_tree \<Rightarrow> (cstring \<times> 'v) option" where
  "art_minimum t = Option.bind (root t) minimum"

definition art_maximum :: "'v art_tree \<Rightarrow> (cstring \<times> 'v) option" where
  "art_maximum t = Option.bind (root t) maximum"

section \<open>Insertion\<close>

definition make_leaf :: "cstring \<Rightarrow> 'v \<Rightarrow> 'v art_node" where
  "make_leaf key value = Leaf key value"

definition longest_common_prefix :: "cstring \<Rightarrow> cstring \<Rightarrow> nat \<Rightarrow> nat" where
  "longest_common_prefix k1 k2 depth =
     (let max_cmp = min (length k1) (length k2) - depth
      in lcp_len (take max_cmp (drop depth k1)) (take max_cmp (drop depth k2)))"

text \<open>
  The index at which a key leaves the compressed path of a node; past the ten stored bytes the path is read from the smallest leaf.
\<close>

definition prefix_mismatch :: "'v art_node \<Rightarrow> cstring \<Rightarrow> nat \<Rightarrow> c_error + nat" where
  "prefix_mismatch n key depth =
     (let h = hdr n;
          max_cmp = min (min MAX_PREFIX_LEN (partial_len h)) (length key - depth);
          idx = lcp_len (take max_cmp (partial h)) (take max_cmp (drop depth key))
      in if idx < max_cmp then Inr idx
         else if partial_len h > MAX_PREFIX_LEN then
           ebind (deref (minimum n)) (\<lambda>l.
             let max_cmp' = min (length (fst l)) (length key) - depth
             in Inr (idx + lcp_len (take (max_cmp' - idx) (drop (idx + depth) (fst l)))
                                   (take (max_cmp' - idx) (drop (depth + idx) key))))
         else Inr idx)"

text \<open>A leaf is replaced by a NODE4 over the two keys.\<close>

definition split_leaf :: "cstring \<Rightarrow> 'v \<Rightarrow> cstring \<Rightarrow> 'v \<Rightarrow> nat \<Rightarrow> c_error + 'v art_node" where
  "split_leaf k v key value depth =
     (let lp = longest_common_prefix k key depth;
          new_node = Node4 (new_hdr\<lparr>partial_len := lp,
                              partial := memcpy (partial new_hdr) (drop depth key) (min MAX_PREFIX_LEN lp)\<rparr>) []
      in ebind (key_at k (depth + lp)) (\<lambda>c1.
         ebind (key_at key (depth + lp)) (\<lambda>c2.
           Inr (add_child4 (add_child4 new_node c1 (Leaf k v)) c2 (make_leaf key value)))))"

text \<open>A compressed path is cut where the key leaves it.\<close>

definition split_path :: "'v art_node \<Rightarrow> cstring \<Rightarrow> 'v \<Rightarrow> nat \<Rightarrow> nat \<Rightarrow> c_error + 'v art_node" where
  "split_path n key value depth prefix_diff =
     (let h = hdr n;
          new_node = Node4 (new_hdr\<lparr>partial_len := prefix_diff,
                              partial := memcpy (partial new_hdr) (partial h) (min MAX_PREFIX_LEN prefix_diff)\<rparr>) [];
          len' = partial_len h - (prefix_diff + 1)
      in ebind
           (if partial_len h \<le> MAX_PREFIX_LEN then
              ebind (nth_chk (partial h) prefix_diff) (\<lambda>c.
                Inr (c, h\<lparr>partial_len := len',
                          partial := memcpy (partial h) (drop (prefix_diff + 1) (partial h)) (min MAX_PREFIX_LEN len')\<rparr>))
            else
              ebind (deref (minimum n)) (\<lambda>l.
              ebind (key_at (fst l) (depth + prefix_diff)) (\<lambda>c.
                Inr (c, h\<lparr>partial_len := len',
                          partial := memcpy (partial h) (drop (depth + prefix_diff + 1) (fst l)) (min MAX_PREFIX_LEN len')\<rparr>))))
           (\<lambda>(c, h').
         ebind (key_at key (depth + prefix_diff)) (\<lambda>c'.
           Inr (add_child4 (add_child4 new_node c (set_hdr h' n)) c' (make_leaf key value)))))"

text \<open>
  \<open>recursive_insert\<close> gives the node that replaces \<open>n\<close> and the old value when the key was there
  (the code's \<^verbatim>\<open>*old = 1\<close>). The case of a NULL node only arises at the root.
\<close>

function recursive_insert ::
  "'v art_node \<Rightarrow> cstring \<Rightarrow> 'v \<Rightarrow> nat \<Rightarrow> c_error + ('v art_node \<times> 'v option)" where
  "recursive_insert n key value depth =
     (case n of
        Leaf k v \<Rightarrow>
          if leaf_matches k key then Inr (Leaf k value, Some v)
          else ebind (split_leaf k v key value depth) (\<lambda>n'. Inr (n', None))
      | _ \<Rightarrow>
          ebind (if partial_len (hdr n) \<noteq> 0 then prefix_mismatch n key depth else Inr 0) (\<lambda>prefix_diff.
            if prefix_diff < partial_len (hdr n)
            then ebind (split_path n key value depth prefix_diff) (\<lambda>n'. Inr (n', None))
            else let d = depth + partial_len (hdr n)
                 in ebind (key_at key d) (\<lambda>c.
                      case find_child n c of
                        None \<Rightarrow> Inr (add_child n c (make_leaf key value), None)
                      | Some m \<Rightarrow>
                          ebind (recursive_insert m key value (d + 1)) (\<lambda>(m', old).
                            Inr (set_child n c m', old)))))"
  by pat_completeness auto
termination
  by (relation "measure (\<lambda>(n, _). size n)") (simp_all only: in_measure wf_measure split_conv size_find_child)

declare recursive_insert.simps [simp del]

definition art_insert :: "'v art_tree \<Rightarrow> cstring \<Rightarrow> 'v \<Rightarrow> c_error + ('v art_tree \<times> 'v option)" where
  "art_insert t key value =
     ebind (case root t of
              None \<Rightarrow> Inr (make_leaf key value, None)
            | Some n \<Rightarrow> recursive_insert n key value 0) (\<lambda>(n', old).
       Inr (t\<lparr>root := Some n', art_size := (if old = None then art_size t + 1 else art_size t)\<rparr>, old))"

section \<open>Deletion\<close>

text \<open>
  \<open>recursive_delete\<close> gives the node that replaces \<open>n\<close> (\<open>None\<close> for a NULL reference) and the leaf
  that was taken out. Below the root only a leaf could be replaced by NULL, and leaves are taken out by their
  parent, so the \<open>None\<close> of the recursive call does not arise.
\<close>

function recursive_delete ::
  "'v art_node \<Rightarrow> cstring \<Rightarrow> nat \<Rightarrow> c_error + ('v art_node option \<times> 'v option)" where
  "recursive_delete n key depth =
     (case n of
        Leaf k v \<Rightarrow> Inr (if leaf_matches k key then (None, Some v) else (Some n, None))
      | _ \<Rightarrow>
          let h = hdr n in
          if partial_len h \<noteq> 0 \<and> check_prefix h key depth \<noteq> min MAX_PREFIX_LEN (partial_len h)
          then Inr (Some n, None)
          else let d = depth + partial_len h
               in ebind (key_at key d) (\<lambda>c.
                    case find_child n c of
                      None \<Rightarrow> Inr (Some n, None)
                    | Some (Leaf k v) \<Rightarrow>
                        Inr (if leaf_matches k key then (Some (remove_child n c), Some v) else (Some n, None))
                    | Some m \<Rightarrow>
                        ebind (recursive_delete m key (d + 1)) (\<lambda>(m', old).
                          Inr (case m' of None \<Rightarrow> (Some n, old) | Some m'' \<Rightarrow> (Some (set_child n c m''), old)))))"
  by pat_completeness auto
termination
  by (relation "measure (\<lambda>(n, _). size n)") (auto simp only: in_measure wf_measure split_conv dest: size_find_child)

declare recursive_delete.simps [simp del]

definition art_delete :: "'v art_tree \<Rightarrow> cstring \<Rightarrow> c_error + ('v art_tree \<times> 'v option)" where
  "art_delete t key =
     (case root t of
        None \<Rightarrow> Inr (t, None)
      | Some n \<Rightarrow> ebind (recursive_delete n key 0) (\<lambda>(n', old).
          Inr (t\<lparr>root := n', art_size := (if old = None then art_size t else art_size t - 1)\<rparr>, old)))"

section \<open>Iteration\<close>

text \<open>
  A callback takes the caller's state, a key and a value, and returns a code and the new state; a
  code other than 0 ends the iteration.
\<close>

fun until_nonzero :: "('a \<Rightarrow> 's \<Rightarrow> int \<times> 's) \<Rightarrow> 'a list \<Rightarrow> 's \<Rightarrow> int \<times> 's" where
  "until_nonzero f [] s = (0, s)"
| "until_nonzero f (x # xs) s =
     (let (res, s') = f x s in if res \<noteq> 0 then (res, s') else until_nonzero f xs s')"

lemma until_nonzero_cong [fundef_cong]:
  assumes "xs = ys" and "s = t" and "\<And>x s. x \<in> set ys \<Longrightarrow> f x s = g x s"
  shows "until_nonzero f xs s = until_nonzero g ys t"
  using assms(3) unfolding assms(1,2) by (induction ys arbitrary: t) (auto simp: Let_def split: prod.splits)

function recursive_iter ::
  "('s \<Rightarrow> cstring \<Rightarrow> 'v \<Rightarrow> int \<times> 's) \<Rightarrow> 'v art_node \<Rightarrow> 's \<Rightarrow> int \<times> 's" where
  "recursive_iter cb n s =
     (case n of
        Leaf k v \<Rightarrow> cb s k v
      | _ \<Rightarrow> until_nonzero (\<lambda>p. recursive_iter cb (snd p)) (kid_pairs n) s)"
  by pat_completeness auto
termination
  by (relation "measure (\<lambda>(_, n, _). size n)")
    (auto simp only: in_measure wf_measure split_conv prod.sel dest: size_kid)

declare recursive_iter.simps [simp del]

definition art_iter ::
  "'v art_tree \<Rightarrow> ('s \<Rightarrow> cstring \<Rightarrow> 'v \<Rightarrow> int \<times> 's) \<Rightarrow> 's \<Rightarrow> int \<times> 's" where
  "art_iter t cb s = (case root t of None \<Rightarrow> (0, s) | Some n \<Rightarrow> recursive_iter cb n s)"

definition leaf_prefix_matches :: "cstring \<Rightarrow> cstring \<Rightarrow> bool" where
  "leaf_prefix_matches k pre \<longleftrightarrow> length pre \<le> length k \<and> take (length pre) k = pre"

function iter_prefix_node ::
  "'v art_node \<Rightarrow> cstring \<Rightarrow> ('s \<Rightarrow> cstring \<Rightarrow> 'v \<Rightarrow> int \<times> 's) \<Rightarrow> 's \<Rightarrow> nat \<Rightarrow> c_error + (int \<times> 's)" where
  "iter_prefix_node n key cb s depth =
     (case n of
        Leaf k v \<Rightarrow> Inr (if leaf_prefix_matches k key then cb s k v else (0, s))
      | _ \<Rightarrow>
          if depth = length key then
            ebind (deref (minimum n)) (\<lambda>l.
              Inr (if leaf_prefix_matches (fst l) key then recursive_iter cb n s else (0, s)))
          else
            ebind (if partial_len (hdr n) \<noteq> 0 then prefix_mismatch n key depth else Inr 0) (\<lambda>mismatch.
              let prefix_len = min mismatch (partial_len (hdr n)) in
              if partial_len (hdr n) \<noteq> 0 \<and> prefix_len = 0 then Inr (0, s)
              else if partial_len (hdr n) \<noteq> 0 \<and> depth + prefix_len = length key
              then Inr (recursive_iter cb n s)
              else let d = depth + partial_len (hdr n)
                   in ebind (key_at key d) (\<lambda>c.
                        case find_child n c of
                          None \<Rightarrow> Inr (0, s)
                        | Some m \<Rightarrow> iter_prefix_node m key cb s (d + 1))))"
  by pat_completeness auto
termination
  by (relation "measure (\<lambda>(n, _). size n)") (simp_all only: in_measure wf_measure split_conv size_find_child)

declare iter_prefix_node.simps [simp del]

definition art_iter_prefix ::
  "'v art_tree \<Rightarrow> cstring \<Rightarrow> ('s \<Rightarrow> cstring \<Rightarrow> 'v \<Rightarrow> int \<times> 's) \<Rightarrow> 's \<Rightarrow> c_error + (int \<times> 's)" where
  "art_iter_prefix t key cb s =
     (case root t of None \<Rightarrow> Inr (0, s) | Some n \<Rightarrow> iter_prefix_node n key cb s 0)"

definition size_incr :: "uint64 \<Rightarrow> cstring \<Rightarrow> 'v \<Rightarrow> int \<times> uint64" where
  "size_incr data key value = (0, data + 1)"

definition art_iter_size :: "'v art_tree \<Rightarrow> uint64" where
  "art_iter_size t = snd (art_iter t size_incr 0)"

definition art_iter_prefix_size :: "'v art_tree \<Rightarrow> cstring \<Rightarrow> c_error + uint64" where
  "art_iter_prefix_size t pfx = ebind (art_iter_prefix t pfx size_incr 0) (\<lambda>r. Inr (snd r))"

section \<open>Content and invariant\<close>

text \<open>The entries in the order of iteration.\<close>

function art_entries :: "'v art_node \<Rightarrow> (cstring \<times> 'v) list" where
  "art_entries n =
     (case n of
        Leaf k v \<Rightarrow> [(k, v)]
      | _ \<Rightarrow> concat (map (\<lambda>p. art_entries (snd p)) (kid_pairs n)))"
  by pat_completeness auto
termination
  by (relation "measure size") (auto simp only: in_measure wf_measure prod.sel dest: size_kid)

declare art_entries.simps [simp del]

text \<open>
  \<open>art_inv pre n\<close>: the bytes \<open>pre\<close> lead to \<open>n\<close>; below it every key, with its NUL, starts with
  them. An inner node has a compressed path \<open>q\<close> of which it stores the first ten bytes, at least
  two children, and each child has one more byte.
\<close>

inductive art_inv :: "byte list \<Rightarrow> 'v art_node \<Rightarrow> bool" where
  art_inv_leaf: "no_nul k \<Longrightarrow> prefix pre (k @ [0]) \<Longrightarrow> art_inv pre (Leaf k v)"
| art_inv_inner: "\<not> is_leaf n \<Longrightarrow> node_wf n \<Longrightarrow> length q = partial_len (hdr n) \<Longrightarrow>
    stored_prefix (hdr n) = take MAX_PREFIX_LEN q \<Longrightarrow> 2 \<le> card (dom (find_child n)) \<Longrightarrow>
    (\<And>c m. find_child n c = Some m \<Longrightarrow> art_inv (pre @ q @ [c]) m) \<Longrightarrow> art_inv pre n"

inductive_cases art_inv_leafE: "art_inv pre (Leaf k v)"

text \<open>The equations of the functions at an inner node.\<close>

lemma art_entries_inner: "\<not> is_leaf n \<Longrightarrow> art_entries n = concat (map (\<lambda>p. art_entries (snd p)) (kid_pairs n))"
  by (subst art_entries.simps) (cases n; simp only: art_node.case is_leaf.simps not_True_eq_False Let_def)

lemma art_entries_leaf [simp]: "art_entries (Leaf k v) = [(k, v)]"
  by (simp add: art_entries.simps)

lemma search_node_leaf [simp]:
  "search_node (Leaf k v) key depth = Inr (if leaf_matches k key then Some v else None)"
  by (simp add: search_node.simps)

lemma search_node_inner:
  "\<not> is_leaf n \<Longrightarrow> search_node n key depth =
     (if partial_len (hdr n) \<noteq> 0 \<and> check_prefix (hdr n) key depth \<noteq> min MAX_PREFIX_LEN (partial_len (hdr n))
      then Inr None
      else ebind (key_at key (depth + partial_len (hdr n))) (\<lambda>c.
             case find_child n c of
               None \<Rightarrow> Inr None
             | Some m \<Rightarrow> search_node m key (depth + partial_len (hdr n) + 1)))"
  by (subst search_node.simps) (cases n; simp only: art_node.case is_leaf.simps not_True_eq_False Let_def)

lemma recursive_insert_inner:
  "\<not> is_leaf n \<Longrightarrow> recursive_insert n key value depth =
     ebind (if partial_len (hdr n) \<noteq> 0 then prefix_mismatch n key depth else Inr 0) (\<lambda>prefix_diff.
       if prefix_diff < partial_len (hdr n)
       then ebind (split_path n key value depth prefix_diff) (\<lambda>n'. Inr (n', None))
       else ebind (key_at key (depth + partial_len (hdr n))) (\<lambda>c.
              case find_child n c of
                None \<Rightarrow> Inr (add_child n c (make_leaf key value), None)
              | Some m \<Rightarrow>
                  ebind (recursive_insert m key value (depth + partial_len (hdr n) + 1)) (\<lambda>(m', old).
                    Inr (set_child n c m', old))))"
  by (subst recursive_insert.simps) (cases n; simp only: art_node.case is_leaf.simps not_True_eq_False Let_def)

lemma recursive_iter_inner:
  "\<not> is_leaf n \<Longrightarrow> recursive_iter cb n s = until_nonzero (\<lambda>p. recursive_iter cb (snd p)) (kid_pairs n) s"
  by (subst recursive_iter.simps) (cases n; simp only: art_node.case is_leaf.simps not_True_eq_False Let_def)

lemma recursive_iter_leaf [simp]: "recursive_iter cb (Leaf k v) s = cb s k v"
  by (simp add: recursive_iter.simps)

lemma minimum_inner:
  "\<not> is_leaf n \<Longrightarrow> minimum n = (case kid_pairs n of [] \<Rightarrow> None | p # ps \<Rightarrow> minimum (snd p))"
  by (subst minimum.simps) (cases n; simp only: art_node.case is_leaf.simps not_True_eq_False Let_def)

lemma minimum_leaf [simp]: "minimum (Leaf k v) = Some (k, v)"
  by (simp add: minimum.simps)

end
