(* ===== verification/Art_Map.thy ===== *)
theory Art_Map
  imports Art
begin

text \<open>
  The radix tree implements a finite map from C strings: \<open>art_map\<close> abstracts a tree to the map of
  its entries. Search agrees with it wherever it stays inside the key, insertion updates it, keeps
  the invariant and never reads outside a key, iteration visits every entry.
\<close>

section \<open>Common prefixes\<close>

lemma lcp_len_le: "lcp_len xs ys \<le> length xs" "lcp_len xs ys \<le> length ys"
  by (induction xs ys rule: lcp_len.induct) auto

lemma lcp_len_full: "lcp_len xs ys = length xs \<longleftrightarrow> prefix xs ys"
  by (induction xs ys rule: lcp_len.induct) auto

lemma lcp_len_take: "lcp_len (take i xs) ys = min i (lcp_len xs ys)" "lcp_len xs (take i ys) = min i (lcp_len xs ys)"
proof -
  show "lcp_len (take i xs) ys = min i (lcp_len xs ys)"
    by (induction xs ys arbitrary: i rule: lcp_len.induct) (auto simp: take_Cons' min_def)
  show "lcp_len xs (take i ys) = min i (lcp_len xs ys)"
    by (induction xs ys arbitrary: i rule: lcp_len.induct) (auto simp: take_Cons' min_def)
qed

lemma lcp_len_append: "lcp_len q ys = min (length q) (lcp_len (q @ r) ys)"
  using lcp_len_take(1) [of "length q" "q @ r" ys] by simp

lemma lcp_len_common: "lcp_len (a @ xs) (a @ ys) = length a + lcp_len xs ys"
  by (induction a) auto

lemma take_lcp_len: "take (lcp_len xs ys) xs = take (lcp_len xs ys) ys"
  by (induction xs ys rule: lcp_len.induct) auto

lemma no_nul_first: "no_nul xs \<Longrightarrow> xs \<noteq> [] \<Longrightarrow> (xs @ [0]) ! 0 \<noteq> 0"
  by (cases xs) (auto simp: no_nul_def)

text \<open>Two different C strings differ, with their NUL, right after their common prefix.\<close>

lemma lcp_len_differ:
  assumes "no_nul xs" "no_nul ys" "xs \<noteq> ys"
  shows "(xs @ [0]) ! lcp_len xs ys \<noteq> (ys @ [0]) ! lcp_len xs ys"
  using assms
  by (induction xs ys rule: lcp_len.induct) (auto dest: no_nul_first)

lemma key_at_nth: "i \<le> length k \<Longrightarrow> key_at k i = Inr ((k @ [0]) ! i)"
  by (auto simp: key_at_def nth_append)

lemma prefix_nul_cases:
  assumes "prefix pre (k @ [0])" and "length pre \<le> length k"
  shows "\<exists>k1. k = pre @ k1"
  using assms by (auto simp: prefix_def append_eq_append_conv2 Cons_eq_append_conv)

lemma prefix_snoc_nth:
  "prefix (ps @ [c]) xs \<longleftrightarrow> prefix ps xs \<and> length ps < length xs \<and> xs ! length ps = c"
  by (auto simp: prefix_def nth_append neq_Nil_conv)

lemma prefix_below: "prefix (xs @ [c]) (k @ [0]) \<Longrightarrow> length xs \<le> length k"
  by (auto simp: prefix_def dest!: arg_cong [of _ _ length])

section \<open>Entries\<close>

definition art_map :: "'v art_node \<Rightarrow> cstring \<rightharpoonup> 'v" where
  "art_map n = map_of (art_entries n)"

lemma kid_pairs_find_child: "node_wf n \<Longrightarrow> (c, m) \<in> set (kid_pairs n) \<longleftrightarrow> find_child n c = Some m"
  using kid_pairs_map_of [of n] by (metis map_of_SomeD map_of_is_SomeI)

lemma entries_child:
  assumes "\<not> is_leaf n" and "node_wf n"
  shows "e \<in> set (art_entries n) \<longleftrightarrow> (\<exists>c m. find_child n c = Some m \<and> e \<in> set (art_entries m))"
  unfolding art_entries_inner [OF assms(1)]
  using kid_pairs_find_child [OF assms(2)] by (auto, force+)

lemma entries_prefix:
  assumes "art_inv pre n" and "(k, v) \<in> set (art_entries n)"
  shows "no_nul k \<and> prefix pre (k @ [0])"
  using assms
proof (induction pre n)
  case (art_inv_inner n q pre)
  then obtain c m where "find_child n c = Some m" "(k, v) \<in> set (art_entries m)"
    using entries_child by blast
  with art_inv_inner.IH show ?case by (meson append_prefixD)
qed simp

lemma kid_pairs_nonempty: "node_wf n \<Longrightarrow> 2 \<le> card (dom (find_child n)) \<Longrightarrow> kid_pairs n \<noteq> []"
proof
  assume "node_wf n" "2 \<le> card (dom (find_child n))" "kid_pairs n = []"
  then have "find_child n = Map.empty" using kid_pairs_map_of(1) [of n] by simp
  with \<open>2 \<le> card (dom (find_child n))\<close> show False by simp
qed

lemma minimum_entry:
  assumes "art_inv pre n"
  shows "\<exists>l. minimum n = Some l \<and> l \<in> set (art_entries n)"
  using assms
proof (induction pre n)
  case (art_inv_inner n q pre)
  obtain c m ps where kids: "kid_pairs n = (c, m) # ps"
    using kid_pairs_nonempty [OF art_inv_inner.hyps(2,5)] by (metis neq_Nil_conv surj_pair)
  then have "find_child n c = Some m"
    using kid_pairs_find_child [OF art_inv_inner.hyps(2), of c m] by simp
  from art_inv_inner.IH [OF this] show ?case
    unfolding minimum_inner [OF art_inv_inner.hyps(1)] art_entries_inner [OF art_inv_inner.hyps(1)] kids
    by auto
qed simp

lemma map_of_concat_kids:
  assumes "distinct (map fst ps)" and "\<And>d m. (d, m) \<in> set ps \<Longrightarrow> d \<noteq> c \<Longrightarrow> map_of (f m) k = None"
  shows "map_of (concat (map (\<lambda>p. f (snd p)) ps)) k =
    (case map_of ps c of None \<Rightarrow> None | Some m \<Rightarrow> map_of (f m) k)"
  using assms
proof (induction ps)
  case (Cons p ps)
  obtain d m where p: "p = (d, m)" by force
  have IH: "map_of (concat (map (\<lambda>p. f (snd p)) ps)) k =
      (case map_of ps c of None \<Rightarrow> None | Some m \<Rightarrow> map_of (f m) k)"
    using Cons by (metis distinct.simps(2) list.set_intros(2) list.simps(9))
  show ?case
  proof (cases "d = c")
    case True
    then have "map_of ps c = None"
      using Cons.prems(1) by (simp add: p map_of_eq_None_iff)
    with True IH show ?thesis by (auto simp: p map_add_def split: option.splits)
  next
    case False
    with Cons.prems(2) [of d m] IH show ?thesis
      by (auto simp: p map_add_def split: option.splits)
  qed
qed simp

text \<open>The path of an inner node, and the map of a node in terms of those of its children.\<close>

definition path_of :: "byte list \<Rightarrow> 'v art_node \<Rightarrow> byte list \<Rightarrow> bool" where
  "path_of pre n q \<longleftrightarrow> \<not> is_leaf n \<and> node_wf n \<and> length q = partial_len (hdr n) \<and>
     stored_prefix (hdr n) = take MAX_PREFIX_LEN q \<and> 2 \<le> card (dom (find_child n)) \<and>
     (\<forall>c m. find_child n c = Some m \<longrightarrow> art_inv (pre @ q @ [c]) m)"

lemma path_of_inv: "path_of pre n q \<Longrightarrow> art_inv pre n"
  by (auto simp: path_of_def intro: art_inv_inner)

lemma art_inv_path: "art_inv pre n \<Longrightarrow> \<not> is_leaf n \<Longrightarrow> \<exists>q. path_of pre n q"
  by (erule art_inv.cases) (auto simp: path_of_def)

lemma art_map_outside: "art_inv pre n \<Longrightarrow> \<not> prefix pre (k @ [0]) \<Longrightarrow> art_map n k = None"
  unfolding art_map_def using entries_prefix by (fastforce simp: map_of_eq_None_iff)

lemma art_map_step:
  assumes path: "path_of pre n q" and c: "(k @ [0]) ! length (pre @ q) = c"
  shows "art_map n k = (case find_child n c of None \<Rightarrow> None | Some m \<Rightarrow> art_map m k)"
proof -
  have n: "\<not> is_leaf n" "node_wf n"
    and kids: "\<And>d m. find_child n d = Some m \<Longrightarrow> art_inv (pre @ q @ [d]) m"
    using path by (auto simp: path_of_def)
  have "map_of (art_entries m) k = None" if "(d, m) \<in> set (kid_pairs n)" "d \<noteq> c" for d m
  proof -
    have "\<not> prefix ((pre @ q) @ [d]) (k @ [0])"
      using that c by (simp only: prefix_snoc_nth) blast
    then show ?thesis
      using art_map_outside [OF kids, of d m k] that n
      by (simp add: kid_pairs_find_child art_map_def)
  qed
  then have "map_of (concat (map (\<lambda>p. art_entries (snd p)) (kid_pairs n))) k =
      (case map_of (kid_pairs n) c of None \<Rightarrow> None | Some m \<Rightarrow> map_of (art_entries m) k)"
    by (rule map_of_concat_kids [OF kid_pairs_map_of(2) [OF n(2)]])
  then show ?thesis
    by (simp add: art_map_def art_entries_inner [OF n(1)] kid_pairs_map_of(1) [OF n(2)] cong: option.case_cong)
qed

lemma art_map_off_path:
  assumes path: "path_of pre n q" and off: "\<not> (\<exists>c. prefix (pre @ q @ [c]) (k @ [0]))"
  shows "art_map n k = None"
proof -
  have n: "\<not> is_leaf n" "node_wf n"
    and kids: "\<And>d m. find_child n d = Some m \<Longrightarrow> art_inv (pre @ q @ [d]) m"
    using path by (auto simp: path_of_def)
  have "(k, v) \<notin> set (art_entries m)" if "find_child n c = Some m" for c m v
    using entries_prefix [OF kids [OF that], of k v] off by blast
  then have "(k, v) \<notin> set (art_entries n)" for v
    by (simp add: entries_child [OF n])
  then show ?thesis
    unfolding art_map_def by (meson map_of_SomeD not_Some_eq)
qed

text \<open>Every key below an inner node runs through its whole path before it ends.\<close>

lemma path_of_entry:
  assumes "path_of pre n q" and "(k, v) \<in> set (art_entries n)"
  shows "no_nul k \<and> (\<exists>r. k = pre @ q @ r)"
proof -
  obtain c m where "find_child n c = Some m" "(k, v) \<in> set (art_entries m)"
    using assms entries_child [of n "(k, v)"] by (auto simp: path_of_def)
  then have k: "no_nul k" "prefix ((pre @ q) @ [c]) (k @ [0])"
    using assms(1) entries_prefix [of "pre @ q @ [c]" m k v] by (auto simp: path_of_def)
  then obtain r where "k = (pre @ q) @ r"
    using prefix_nul_cases [of "pre @ q" k] prefix_below append_prefixD by blast
  with k show ?thesis by simp
qed

lemma path_of_minimum:
  assumes "path_of pre n q"
  shows "\<exists>r v. minimum n = Some (pre @ q @ r, v) \<and> no_nul (pre @ q @ r)"
  using minimum_entry [OF path_of_inv [OF assms]] path_of_entry [OF assms] by force

lemma nul_child_leaf: "art_inv (ps @ [0]) m \<Longrightarrow> is_leaf m"
  using art_inv_path [of "ps @ [0]" m] path_of_minimum by (fastforce simp: no_nul_def)

section \<open>Search\<close>

lemma lcp_len_window:
  "lcp_len (take (min i (length ys)) xs) (take (min i (length ys)) ys) = lcp_len (take i xs) ys"
  using lcp_len_le(2) [of xs ys] by (simp add: lcp_len_take)

lemma check_prefix_full:
  assumes "length (partial h) = MAX_PREFIX_LEN"
  shows "check_prefix h key depth = min MAX_PREFIX_LEN (partial_len h) \<longleftrightarrow>
    prefix (stored_prefix h) (drop depth key)"
proof -
  have "check_prefix h key depth = lcp_len (stored_prefix h) (drop depth key)"
    using lcp_len_window [of "min (partial_len h) MAX_PREFIX_LEN" "drop depth key" "partial h"]
    by (simp add: check_prefix_def stored_prefix_def Let_def min.commute)
  moreover have "length (stored_prefix h) = min MAX_PREFIX_LEN (partial_len h)"
    using assms by (simp add: stored_prefix_def)
  ultimately show ?thesis by (metis lcp_len_full)
qed

lemma node_wf_partial: "node_wf n \<Longrightarrow> \<not> is_leaf n \<Longrightarrow> length (partial (hdr n)) = MAX_PREFIX_LEN"
  by (cases n) simp_all

lemma prefix_path_drop:
  assumes "prefix (pre @ q @ [c]) (k @ [0])"
  shows "prefix q (drop (length pre) k)"
proof -
  have "length (pre @ q) \<le> length k"
    using prefix_below [of "pre @ q" c k] assms by simp
  moreover have "prefix (pre @ q) (k @ [0])"
    using assms by (metis append_assoc append_prefixD)
  ultimately obtain k1 where "k = (pre @ q) @ k1"
    using prefix_nul_cases by blast
  then show ?thesis by simp
qed

text \<open>
  A search ends with what the tree holds, or it leaves the key; it leaves only keys that are not there.
\<close>

lemma search_node_result:
  assumes "art_inv pre n"
  shows "search_node n k (length pre) = Inr (art_map n k) \<or>
    search_node n k (length pre) = Inl Out_Of_Bounds \<and> art_map n k = None"
  using assms
proof (induction pre n)
  case (art_inv_leaf k' pre v)
  then show ?case by (auto simp: art_map_def leaf_matches_def)
next
  case (art_inv_inner n q pre)
  note n = art_inv_inner.hyps(1,2)
  have path: "path_of pre n q"
    using art_inv_inner by (simp add: path_of_def)
  let ?d = "length pre + partial_len (hdr n)"
  have d: "?d = length (pre @ q)"
    using art_inv_inner.hyps(3) by simp
  have bail: "art_map n k = None"
    if "check_prefix (hdr n) k (length pre) \<noteq> min MAX_PREFIX_LEN (partial_len (hdr n))"
  proof (rule art_map_off_path [OF path], clarify)
    fix c assume "prefix (pre @ q @ [c]) (k @ [0])"
    then have "prefix (take MAX_PREFIX_LEN q) (drop (length pre) k)"
      using prefix_path_drop prefix_order.trans take_is_prefix by blast
    with that show False
      using check_prefix_full [OF node_wf_partial [OF n(2,1)]] art_inv_inner.hyps(4) by simp
  qed
  show ?case
  proof (cases "?d \<le> length k")
    case True
    let ?c = "(k @ [0]) ! ?d"
    have "art_map n k = (case find_child n ?c of None \<Rightarrow> None | Some m \<Rightarrow> art_map m k)"
      by (rule art_map_step [OF path]) (simp only: d)
    moreover have "search_node m k (?d + 1) = Inr (art_map m k) \<or>
        search_node m k (?d + 1) = Inl Out_Of_Bounds \<and> art_map m k = None"
      if "find_child n ?c = Some m" for m
      using art_inv_inner.IH [OF that] d by simp
    ultimately show ?thesis
      unfolding search_node_inner [OF n(1)] key_at_nth [OF True] ebind_simps
      using bail by (auto split: option.splits)
  next
    case False
    then have "\<not> prefix (pre @ q @ [c]) (k @ [0])" for c
      using prefix_below [of "pre @ q" c k] d by auto
    then have "art_map n k = None"
      using art_map_off_path [OF path] by blast
    moreover have "key_at k ?d = Inl Out_Of_Bounds"
      using False by (auto simp: key_at_def)
    ultimately show ?thesis
      unfolding search_node_inner [OF n(1)] by simp
  qed
qed

text \<open>When no compressed path is longer than the ten bytes a node stores, no search leaves its key.\<close>

function short_paths :: "'v art_node \<Rightarrow> bool" where
  "short_paths n \<longleftrightarrow> is_leaf n \<or> partial_len (hdr n) \<le> MAX_PREFIX_LEN \<and>
     (\<forall>p \<in> set (kid_pairs n). short_paths (snd p))"
  by pat_completeness auto
termination
  by (relation "measure size") (auto simp only: in_measure wf_measure prod.sel dest: size_kid)

declare short_paths.simps [simp del]

lemma search_node_short:
  assumes "art_inv pre n" and "short_paths n" and "length pre \<le> length k \<or> is_leaf n" and "no_nul k"
  shows "search_node n k (length pre) \<noteq> Inl Out_Of_Bounds"
  using assms
proof (induction pre n)
  case (art_inv_inner n q pre)
  note n = art_inv_inner.hyps(1,2)
  let ?d = "length pre + partial_len (hdr n)"
  have short: "partial_len (hdr n) \<le> MAX_PREFIX_LEN"
    and kids: "\<And>c m. find_child n c = Some m \<Longrightarrow> short_paths m"
    using art_inv_inner.prems(1) n kid_pairs_find_child [OF n(2)]
    by (auto simp: short_paths.simps [of n]) fastforce
  show ?case
  proof (cases "partial_len (hdr n) \<noteq> 0 \<and>
      check_prefix (hdr n) k (length pre) \<noteq> min MAX_PREFIX_LEN (partial_len (hdr n))")
    case False
    have "length (stored_prefix (hdr n)) = partial_len (hdr n)"
      using short node_wf_partial [OF n(2,1)] by (simp add: stored_prefix_def)
    moreover have "partial_len (hdr n) = 0 \<or> prefix (stored_prefix (hdr n)) (drop (length pre) k)"
      using False check_prefix_full [OF node_wf_partial [OF n(2,1)]] by auto
    ultimately have d: "?d \<le> length k"
      using art_inv_inner.prems(2) n(1) by (auto dest!: prefix_length_le)
    let ?c = "(k @ [0]) ! ?d"
    have "search_node m k (?d + 1) \<noteq> Inl Out_Of_Bounds" if m: "find_child n ?c = Some m" for m
    proof -
      have "is_leaf m" if "?d = length k"
        using nul_child_leaf [of "pre @ q" m] art_inv_inner.hyps(6) [OF m] that
        by (simp add: nth_append)
      with d have "is_leaf m \<or> ?d + 1 \<le> length k" by linarith
      then show ?thesis
        using art_inv_inner.IH [OF m kids [OF m]] art_inv_inner.prems(3) art_inv_inner.hyps(3)
        by (auto simp: add.commute)
    qed
    with False show ?thesis
      unfolding search_node_inner [OF n(1)] key_at_nth [OF d] by (auto split: option.splits)
  qed (simp add: search_node_inner [OF n(1)])
qed simp

section \<open>Insertion\<close>

text \<open>The node the splits build: two children under a path of which \<open>src\<close> holds the bytes.\<close>

definition fork :: "nat \<Rightarrow> byte list \<Rightarrow> byte \<Rightarrow> 'v art_node \<Rightarrow> byte \<Rightarrow> 'v art_node \<Rightarrow> 'v art_node" where
  "fork p src c1 m1 c2 m2 =
     add_child4 (add_child4
       (Node4 (new_hdr\<lparr>partial_len := p, partial := memcpy (partial new_hdr) src (min MAX_PREFIX_LEN p)\<rparr>) [])
       c1 m1) c2 m2"

lemma fork_path:
  assumes "c1 \<noteq> c2" and "length q = p" and "take MAX_PREFIX_LEN q = take (min MAX_PREFIX_LEN p) src"
    and "art_inv (pre @ q @ [c1]) m1" and "art_inv (pre @ q @ [c2]) m2"
  shows "path_of pre (fork p src c1 m1 c2 m2) q"
    and "find_child (fork p src c1 m1 c2 m2) = [c1 \<mapsto> m1, c2 \<mapsto> m2]"
proof -
  define h where "h = new_hdr\<lparr>partial_len := p, partial := memcpy (partial new_hdr) src (min MAX_PREFIX_LEN p)\<rparr>"
  have src: "min MAX_PREFIX_LEN p \<le> length src"
    using assms(2,3) by (metis length_take min.cobounded1 min.commute min_def)
  have h: "length (partial h) = MAX_PREFIX_LEN" "num_children h = 0" "partial_len h = p"
    "stored_prefix h = take (min MAX_PREFIX_LEN p) src"
    using src by (auto simp: h_def memcpy_def stored_prefix_def new_hdr_def)
  have n0: "find_child (Node4 h ([] :: (byte \<times> 'a art_node) list)) = Map.empty"
    by (rule ext) simp
  have step1: "child_added (Node4 h []) c1 m1 (add_child4 (Node4 h []) c1 m1)"
    by (rule add_child4_law) (simp_all add: h)
  obtain h1 ks1 where n1: "add_child4 (Node4 h []) c1 m1 = Node4 h1 ks1"
    by (simp add: add_child4_def h)
  have step2: "child_added (Node4 h1 ks1) c2 m2 (add_child4 (Node4 h1 ks1) c2 m2)"
  proof (rule add_child4_law)
    show "node_wf (Node4 h1 ks1)" "find_child (Node4 h1 ks1) c2 = None"
      using step1 assms(1) unfolding n1 n0 child_added_def by simp_all
  qed
  let ?f = "fork p src c1 m1 c2 m2"
  have f: "?f = add_child4 (Node4 h1 ks1) c2 m2"
    unfolding fork_def n1 [symmetric] h_def ..
  show fc: "find_child ?f = [c1 \<mapsto> m1, c2 \<mapsto> m2]"
    using step1 step2 unfolding f n1 n0 child_added_def by simp
  have "card (dom (find_child ?f)) = 2"
    unfolding fc using assms(1) by simp
  moreover have "node_wf ?f" "\<not> is_leaf ?f" "partial_len (hdr ?f) = p"
    "stored_prefix (hdr ?f) = take (min MAX_PREFIX_LEN p) src"
    using step1 step2 h unfolding f n1 child_added_def same_prefix_def by simp_all
  ultimately show "path_of pre ?f q"
    using assms unfolding path_of_def fc by (auto split: if_splits)
qed

lemma fork_map:
  assumes path: "path_of pre (fork p src c1 m1 c2 m2) q" and ne: "c1 \<noteq> c2"
    and kids: "find_child (fork p src c1 m1 c2 m2) = [c1 \<mapsto> m1, c2 \<mapsto> m2]"
  shows "art_map (fork p src c1 m1 c2 m2) = art_map m1 ++ art_map m2"
proof
  fix k :: cstring
  let ?c = "(k @ [0]) ! length (pre @ q)"
  have inv: "art_inv ((pre @ q) @ [c1]) m1" "art_inv ((pre @ q) @ [c2]) m2"
    using path kids ne by (auto simp: path_of_def)
  have "art_map m1 k = None" if "?c \<noteq> c1"
    using that by (intro art_map_outside [OF inv(1)]) (simp only: prefix_snoc_nth, blast)
  moreover have "art_map m2 k = None" if "?c \<noteq> c2"
    using that by (intro art_map_outside [OF inv(2)]) (simp only: prefix_snoc_nth, blast)
  ultimately show "art_map (fork p src c1 m1 c2 m2) k = (art_map m1 ++ art_map m2) k"
    using art_map_step [OF path, of k ?c] ne unfolding kids
    by (auto simp: map_add_def split: option.splits if_splits)
qed

lemma art_map_leaf [simp]: "art_map (Leaf k v) = [k \<mapsto> v]"
  by (auto simp: art_map_def)

lemma prefix_no_nul: "prefix pre (k @ [0]) \<Longrightarrow> no_nul pre \<Longrightarrow> \<exists>k1. k = pre @ k1"
  by (rule prefix_nul_cases) (auto simp: no_nul_def prefix_def append_eq_append_conv2 Cons_eq_append_conv)

lemma prefix_shared:
  assumes "prefix pre (k @ [0])" "prefix pre (key @ [0])" "no_nul k" "no_nul key" "k \<noteq> key"
  shows "\<exists>k1 k2. k = pre @ k1 \<and> key = pre @ k2"
proof -
  have "no_nul pre"
  proof (rule ccontr)
    assume "\<not> no_nul pre"
    then have "pre = k @ [0]" "pre = key @ [0]"
      using assms by (auto simp: no_nul_def prefix_def append_eq_append_conv2 Cons_eq_append_conv)
    with assms(5) show False by simp
  qed
  with assms show ?thesis using prefix_no_nul by metis
qed

lemma split_leaf_inserts:
  assumes "prefix pre (k @ [0])" "prefix pre (key @ [0])" "no_nul k" "no_nul key" "k \<noteq> key"
  shows "\<exists>n'. split_leaf k v key value (length pre) = Inr n' \<and> art_inv pre n' \<and>
    art_map n' = [k \<mapsto> v, key \<mapsto> value]"
proof -
  obtain k1 k2 where k: "k = pre @ k1" "key = pre @ k2"
    using prefix_shared [OF assms] by blast
  let ?lp = "lcp_len k1 k2"
  let ?c1 = "(k1 @ [0]) ! ?lp" and ?c2 = "(k2 @ [0]) ! ?lp" and ?q = "take ?lp k2"
  let ?n = "fork ?lp k2 ?c1 (Leaf k v) ?c2 (Leaf key value)"
  have le: "?lp \<le> length k1" "?lp \<le> length k2"
    by (rule lcp_len_le)+
  have ne: "?c1 \<noteq> ?c2"
    using assms by (intro lcp_len_differ) (auto simp: k)
  have "longest_common_prefix k key (length pre) = ?lp"
    using le by (simp add: longest_common_prefix_def k Let_def lcp_len_take)
  then have split: "split_leaf k v key value (length pre) = Inr ?n"
    using le by (simp add: split_leaf_def fork_def Let_def key_at_nth k nth_append make_leaf_def)
  have leaves: "art_inv (pre @ ?q @ [?c1]) (Leaf k v)" "art_inv (pre @ ?q @ [?c2]) (Leaf key value)"
  proof -
    have sub: "prefix ?q (k1 @ [0])" "prefix ?q (k2 @ [0])"
      using take_lcp_len [of k1 k2] by (metis prefix_prefix take_is_prefix)+
    have "prefix ((pre @ ?q) @ [?c1]) (k @ [0])"
      unfolding prefix_snoc_nth using le sub by (auto simp: k nth_append)
    with assms(3) show "art_inv (pre @ ?q @ [?c1]) (Leaf k v)" by (simp add: art_inv_leaf)
    have "prefix ((pre @ ?q) @ [?c2]) (key @ [0])"
      unfolding prefix_snoc_nth using le sub by (auto simp: k nth_append)
    with assms(4) show "art_inv (pre @ ?q @ [?c2]) (Leaf key value)" by (simp add: art_inv_leaf)
  qed
  have q: "length ?q = ?lp" "take MAX_PREFIX_LEN ?q = take (min MAX_PREFIX_LEN ?lp) k2"
    using le by (simp_all add: min.commute)
  note fork = fork_path [OF ne q leaves]
  have "art_map ?n = [k \<mapsto> v, key \<mapsto> value]"
    unfolding fork_map [OF fork(1) ne fork(2)] by simp
  with split path_of_inv [OF fork(1)] show ?thesis by blast
qed

text \<open>Shortening the path of a node from the front.\<close>

lemma set_hdr_children:
  assumes "num_children h' = num_children (hdr n)" and "\<not> is_leaf n"
  shows "find_child (set_hdr h' n) = find_child n" and "kid_pairs (set_hdr h' n) = kid_pairs n"
    and "hdr (set_hdr h' n) = h'" and "\<not> is_leaf (set_hdr h' n)"
    and "node_wf n \<Longrightarrow> length (partial h') = MAX_PREFIX_LEN \<Longrightarrow> node_wf (set_hdr h' n)"
  using assms by (cases n; auto simp: fun_eq_iff Let_def List.map_filter_def)+

lemma set_hdr_path:
  assumes path: "path_of pre n q" and q: "pre @ q = pre' @ q'"
    and h: "num_children h' = num_children (hdr n)" "length (partial h') = MAX_PREFIX_LEN"
      "partial_len h' = length q'" "stored_prefix h' = take MAX_PREFIX_LEN q'"
  shows "path_of pre' (set_hdr h' n) q'" and "art_map (set_hdr h' n) = art_map n"
proof -
  have n: "\<not> is_leaf n" "node_wf n"
    and kids: "\<And>d m. find_child n d = Some m \<Longrightarrow> art_inv (pre' @ q' @ [d]) m"
    using path q by (auto simp: path_of_def simp flip: append_assoc)
  note s = set_hdr_children [OF h(1) n(1)]
  show "path_of pre' (set_hdr h' n) q'"
    using path n h kids s unfolding path_of_def by simp
  show "art_map (set_hdr h' n) = art_map n"
    unfolding art_map_def art_entries_inner [OF s(4)] art_entries_inner [OF n(1)] s(2) ..
qed

lemma lcp_len_next: "lcp_len q ys < length q \<Longrightarrow> no_nul q \<Longrightarrow> (ys @ [0]) ! lcp_len q ys \<noteq> q ! lcp_len q ys"
  by (induction q ys rule: lcp_len.induct) (auto simp: no_nul_def neq_Nil_conv)

lemma take_stored:
  assumes "stored_prefix h = take MAX_PREFIX_LEN q" and "length q = partial_len h" and "i \<le> length q"
  shows "take (min MAX_PREFIX_LEN i) (partial h) = take MAX_PREFIX_LEN (take i q)"
proof -
  have "take (min MAX_PREFIX_LEN i) (partial h) = take (min MAX_PREFIX_LEN i) (stored_prefix h)"
    using assms(2,3) by (simp add: stored_prefix_def min_def)
  then show ?thesis using assms by (simp add: min.commute)
qed

text \<open>The edge byte and the shortened header the old node gets when its path is cut at \<open>i\<close>.\<close>

lemma split_path_old:
  assumes path: "path_of pre n q" and i: "i < length q"
  shows "\<exists>h'. split_path n key value (length pre) i =
      ebind (key_at key (length pre + i)) (\<lambda>c'.
        Inr (fork i (partial (hdr n)) (q ! i) (set_hdr h' n) c' (Leaf key value))) \<and>
    num_children h' = num_children (hdr n) \<and> length (partial h') = MAX_PREFIX_LEN \<and>
    partial_len h' = length (drop (i + 1) q) \<and> stored_prefix h' = take MAX_PREFIX_LEN (drop (i + 1) q)"
proof -
  let ?h = "hdr n" and ?len = "length q - (i + 1)"
  have p: "partial_len ?h = length q" and st: "stored_prefix ?h = take MAX_PREFIX_LEN q"
    and part: "length (partial ?h) = MAX_PREFIX_LEN"
    using path by (auto simp: path_of_def node_wf_partial)
  show ?thesis
  proof (cases "length q \<le> MAX_PREFIX_LEN")
    case True
    let ?h' = "?h\<lparr>partial_len := ?len,
        partial := memcpy (partial ?h) (drop (i + 1) (partial ?h)) (min MAX_PREFIX_LEN ?len)\<rparr>"
    have q: "q = take (length q) (partial ?h)"
      using st True p by (simp add: stored_prefix_def)
    have "partial ?h ! i = q ! i"
      using i by (subst q) simp
    then have "split_path n key value (length pre) i =
      ebind (key_at key (length pre + i)) (\<lambda>c'.
        Inr (fork i (partial ?h) (q ! i) (set_hdr ?h' n) c' (Leaf key value)))"
      using True i by (simp add: split_path_def Let_def p part fork_def make_leaf_def)
    moreover have "stored_prefix ?h' = take MAX_PREFIX_LEN (drop (i + 1) q)"
      using True i by (subst (2) q) (simp add: stored_prefix_def memcpy_def part drop_take)
    ultimately show ?thesis
      using True i part by (intro exI [of _ ?h']) (simp add: memcpy_def)
  next
    case False
    obtain r v where min: "minimum n = Some (pre @ q @ r, v)"
      using path_of_minimum [OF path] by blast
    let ?h' = "?h\<lparr>partial_len := ?len,
        partial := memcpy (partial ?h) (drop (i + 1) q @ r) (min MAX_PREFIX_LEN ?len)\<rparr>"
    have "split_path n key value (length pre) i =
      ebind (key_at key (length pre + i)) (\<lambda>c'.
        Inr (fork i (partial ?h) (q ! i) (set_hdr ?h' n) c' (Leaf key value)))"
      using False i by (simp add: split_path_def Let_def p min key_at_nth nth_append fork_def make_leaf_def)
    moreover have "take (min MAX_PREFIX_LEN ?len) (drop (i + 1) q) = take MAX_PREFIX_LEN (drop (i + 1) q)"
      by (simp add: min_def)
    ultimately show ?thesis
      using False i part
      by (intro exI [of _ ?h']) (simp add: memcpy_def stored_prefix_def)
  qed
qed

lemma split_path_inserts:
  assumes path: "path_of pre n q" and key: "no_nul (pre @ k)" and i: "lcp_len q k < length q"
  shows "\<exists>n'. split_path n (pre @ k) value (length pre) (lcp_len q k) = Inr n' \<and> art_inv pre n' \<and>
    art_map n' = (art_map n)(pre @ k \<mapsto> value) \<and> art_map n (pre @ k) = None"
proof -
  let ?i = "lcp_len q k" and ?key = "pre @ k"
  let ?q = "take ?i q" and ?c = "q ! ?i" and ?c' = "(k @ [0]) ! ?i"
  obtain h' where split: "split_path n ?key value (length pre) ?i =
      ebind (key_at ?key (length pre + ?i)) (\<lambda>c'.
        Inr (fork ?i (partial (hdr n)) ?c (set_hdr h' n) c' (Leaf ?key value)))"
    and h': "num_children h' = num_children (hdr n)" "length (partial h') = MAX_PREFIX_LEN"
      "partial_len h' = length (drop (?i + 1) q)" "stored_prefix h' = take MAX_PREFIX_LEN (drop (?i + 1) q)"
    using split_path_old [OF path i] by blast
  have le: "?i \<le> length k" by (rule lcp_len_le)
  have nq: "no_nul q" using path_of_minimum [OF path] by auto
  have ne: "?c \<noteq> ?c'" using lcp_len_next [OF i nq] by simp
  have sq: "q = ?q @ ?c # drop (?i + 1) q"
    using i by (simp add: id_take_nth_drop)
  have "pre @ q = (pre @ ?q @ [?c]) @ drop (?i + 1) q"
    by (subst sq) simp
  note old = set_hdr_path [OF path this h']
  have "prefix ?q (k @ [0])"
    using take_lcp_len [of q k] by (metis prefix_prefix take_is_prefix)
  then have "prefix ((pre @ ?q) @ [?c']) (?key @ [0])"
    unfolding prefix_snoc_nth using le i by (auto simp: nth_append)
  then have new: "art_inv (pre @ ?q @ [?c']) (Leaf ?key value)"
    using key by (simp add: art_inv_leaf)
  have q: "length ?q = ?i" "take MAX_PREFIX_LEN ?q = take (min MAX_PREFIX_LEN ?i) (partial (hdr n))"
    using i path take_stored [of "hdr n" q ?i] by (auto simp: path_of_def)
  note fork = fork_path [OF ne q path_of_inv [OF old(1)] new]
  have "art_map (fork ?i (partial (hdr n)) ?c (set_hdr h' n) ?c' (Leaf ?key value)) = (art_map n)(?key \<mapsto> value)"
    unfolding fork_map [OF fork(1) ne fork(2)] old(2) by simp
  moreover have "art_map n ?key = None"
  proof (rule art_map_off_path [OF path], clarify)
    fix c assume "prefix (pre @ q @ [c]) (?key @ [0])"
    from prefix_path_drop [OF this] have "prefix q k" by simp
    with i show False by (simp flip: lcp_len_full)
  qed
  moreover have "key_at ?key (length pre + ?i) = Inr ?c'"
    using le by (simp add: key_at_nth nth_append)
  ultimately show ?thesis
    using split path_of_inv [OF fork(1)] by simp
qed

lemma lcp_len_shared:
  "take j xs = take j ys \<Longrightarrow> j \<le> length xs \<Longrightarrow> j \<le> length ys \<Longrightarrow> lcp_len xs ys = j + lcp_len (drop j xs) (drop j ys)"
  using lcp_len_common [of "take j xs" "drop j xs" "drop j ys"] by (metis append_take_drop_id length_take min.absorb2)

lemma lcp_len_both:
  "lcp_len (take (min (length xs) (length ys) - i) (drop i xs)) (take (min (length xs) (length ys) - i) (drop i ys)) =
   lcp_len (drop i xs) (drop i ys)"
  using lcp_len_le [of "drop i xs" "drop i ys"] by (simp add: lcp_len_take)

lemma prefix_mismatch_spec:
  assumes path: "path_of pre n q"
  shows "\<exists>i. prefix_mismatch n (pre @ k) (length pre) = Inr i \<and> min i (length q) = lcp_len q k"
proof -
  let ?h = "hdr n"
  have p: "partial_len ?h = length q" and st: "stored_prefix ?h = take MAX_PREFIX_LEN q"
    using path by (auto simp: path_of_def)
  define max_cmp where "max_cmp = min (min MAX_PREFIX_LEN (length q)) (length k)"
  define idx where "idx = lcp_len (take max_cmp (partial ?h)) (take max_cmp k)"
  have "take max_cmp (partial ?h) = take max_cmp (stored_prefix ?h)"
    by (simp add: stored_prefix_def p max_cmp_def min_def)
  then have tk: "take max_cmp (partial ?h) = take max_cmp q"
    by (simp add: st max_cmp_def min_def)
  then have idx: "idx = min max_cmp (lcp_len q k)"
    by (simp add: idx_def lcp_len_take)
  have pm: "prefix_mismatch n (pre @ k) (length pre) =
      (if idx < max_cmp then Inr idx
       else if length q > MAX_PREFIX_LEN then
         ebind (deref (minimum n)) (\<lambda>l.
           let max_cmp' = min (length (fst l)) (length pre + length k) - length pre
           in Inr (idx + lcp_len (take (max_cmp' - idx) (drop (idx + length pre) (fst l)))
                                 (take (max_cmp' - idx) (drop idx k))))
       else Inr idx)"
    by (simp add: prefix_mismatch_def p idx_def max_cmp_def Let_def add.commute)
  have le: "lcp_len q k \<le> length q" "lcp_len q k \<le> length k" by (rule lcp_len_le)+
  consider "idx < max_cmp" | "idx = max_cmp" "length q \<le> MAX_PREFIX_LEN" | "idx = max_cmp" "length q > MAX_PREFIX_LEN"
    using idx by linarith
  then show ?thesis
  proof cases
    case 1
    then show ?thesis using pm idx le by (simp add: min_def max_cmp_def split: if_splits)
  next
    case 2
    then show ?thesis using pm idx le by (simp add: max_cmp_def)
  next
    case 3
    obtain r v where min: "minimum n = Some (pre @ q @ r, v)"
      using path_of_minimum [OF path] by blast
    let ?x = "q @ r"
    have i: "idx \<le> length ?x" "idx \<le> length k" "take idx ?x = take idx k"
    proof -
      show "idx \<le> length ?x" "idx \<le> length k" using 3 by (auto simp: max_cmp_def)
      have "take idx q = take idx k"
        using take_lcp_len [of q k] idx by (metis min.cobounded2 take_take min_absorb1)
      moreover have "idx \<le> length q" using 3 by (auto simp: max_cmp_def)
      ultimately show "take idx ?x = take idx k" by simp
    qed
    have m: "min (length (pre @ ?x)) (length pre + length k) - length pre = min (length ?x) (length k)"
      "drop (idx + length pre) (pre @ ?x) = drop idx ?x"
      by simp_all
    have "prefix_mismatch n (pre @ k) (length pre) = Inr (lcp_len ?x k)"
      using 3 lcp_len_both [of ?x k idx] lcp_len_shared [OF i(3,1,2)]
      unfolding pm min deref_simps ebind_simps Let_def fst_conv m by simp
    then show ?thesis using lcp_len_append [of q k r] by (simp add: min.commute)
  qed
qed

text \<open>Insertion at an inner node: into a child, as a new child, or by a fork above the node.\<close>

lemma card_dom_upd: "finite (dom f) \<Longrightarrow> card (dom f) \<le> card (dom (f(c \<mapsto> m)))"
  by (auto simp: card_insert_if)

lemma path_of_upd:
  assumes path: "path_of pre n q" and n': "node_wf n'" "find_child n' = (find_child n)(c \<mapsto> m)" "same_prefix n n'"
    and m: "art_inv (pre @ q @ [c]) m"
  shows "path_of pre n' q"
  using assms card_dom_upd [of "find_child n" c m] finite_subset [OF subset_UNIV finite, of "dom (find_child n)"]
  unfolding path_of_def same_prefix_def by (auto split: if_splits)

lemma art_map_upd:
  assumes path: "path_of pre n q" and path': "path_of pre n' q"
    and n': "find_child n' = (find_child n)(c \<mapsto> m)"
    and m: "art_map m = (case find_child n c of None \<Rightarrow> Map.empty | Some m0 \<Rightarrow> art_map m0)(key \<mapsto> v)"
    and key: "(key @ [0]) ! length (pre @ q) = c"
  shows "art_map n' = (art_map n)(key \<mapsto> v)" and "art_map n key = Option.bind (find_child n c) (\<lambda>m0. art_map m0 key)"
proof -
  show "art_map n key = Option.bind (find_child n c) (\<lambda>m0. art_map m0 key)"
    unfolding art_map_step [OF path key] by (simp split: option.splits)
  show "art_map n' = (art_map n)(key \<mapsto> v)"
  proof
    fix k
    show "art_map n' k = ((art_map n)(key \<mapsto> v)) k"
      unfolding art_map_step [OF path refl] art_map_step [OF path' refl] fun_upd_apply
      using key m by (auto simp: n' art_map_step [OF path refl] split: option.splits)
  qed
qed

lemma recursive_insert_leaf:
  "recursive_insert (Leaf k v) key value depth =
     (if k = key then Inr (Leaf k value, Some v)
      else ebind (split_leaf k v key value depth) (\<lambda>n'. Inr (n', None)))"
  by (subst recursive_insert.simps) (simp add: leaf_matches_def)

lemma add_leaf_below:
  assumes path: "path_of pre n q" and none: "find_child n c = None"
    and key: "no_nul key" "prefix (pre @ q @ [c]) (key @ [0])"
  shows "art_inv pre (add_child n c (Leaf key v))"
    and "art_map (add_child n c (Leaf key v)) = (art_map n)(key \<mapsto> v)" and "art_map n key = None"
proof -
  let ?n' = "add_child n c (Leaf key v)"
  have n: "\<not> is_leaf n" "node_wf n" using path by (auto simp: path_of_def)
  have add: "child_added n c (Leaf key v) ?n'"
    by (rule add_child_law [OF n(2) none n(1)])
  have c: "(key @ [0]) ! length (pre @ q) = c"
    using key(2) prefix_snoc_nth [of "pre @ q" c "key @ [0]"] by simp
  have path': "path_of pre ?n' q"
    using add path_of_upd [OF path _ _ _ art_inv.art_inv_leaf [OF key]] unfolding child_added_def by blast
  then show "art_inv pre ?n'" by (rule path_of_inv)
  show "art_map ?n' = (art_map n)(key \<mapsto> v)" "art_map n key = None"
    using art_map_upd [OF path path' _ _ c, of "Leaf key v" v] add none
    unfolding child_added_def by auto
qed

lemma set_child_below:
  assumes path: "path_of pre n q" and m: "find_child n c = Some m"
    and key: "prefix (pre @ q @ [c]) (key @ [0])"
    and m': "art_inv (pre @ q @ [c]) m'" "art_map m' = (art_map m)(key \<mapsto> v)"
  shows "art_inv pre (set_child n c m')" and "art_map (set_child n c m') = (art_map n)(key \<mapsto> v)"
    and "art_map n key = art_map m key"
proof -
  let ?n' = "set_child n c m'"
  have n: "\<not> is_leaf n" "node_wf n" and c: "find_child n c \<noteq> None" using path m by (auto simp: path_of_def)
  note set = set_child_laws [OF n(2) c, of m']
  have at: "(key @ [0]) ! length (pre @ q) = c"
    using key prefix_snoc_nth [of "pre @ q" c "key @ [0]"] by simp
  have path': "path_of pre ?n' q"
    using path_of_upd [OF path set(1,2) _ m'(1)] set(3,4) n(1) by (simp add: same_prefix_def)
  then show "art_inv pre ?n'" by (rule path_of_inv)
  show "art_map ?n' = (art_map n)(key \<mapsto> v)" "art_map n key = art_map m key"
    using art_map_upd [OF path path' set(2) _ at, of v] m'(2) m by auto
qed

lemma recursive_insert_spec:
  assumes "art_inv pre n" and "no_nul key" and "prefix pre (key @ [0])"
  shows "\<exists>n'. recursive_insert n key value (length pre) = Inr (n', art_map n key) \<and> art_inv pre n' \<and>
    art_map n' = (art_map n)(key \<mapsto> value)"
  using assms
proof (induction pre n)
  case (art_inv_leaf k pre v)
  show ?case
  proof (cases "k = key")
    case True
    with art_inv_leaf show ?thesis
      by (auto simp: recursive_insert_leaf intro: art_inv.art_inv_leaf)
  next
    case False
    obtain n' where "split_leaf k v key value (length pre) = Inr n'" "art_inv pre n'"
      "art_map n' = [k \<mapsto> v, key \<mapsto> value]"
      using split_leaf_inserts [OF art_inv_leaf(2,4,1,3) False, of v "value"] by blast
    with False show ?thesis by (auto simp: recursive_insert_leaf)
  qed
next
  case (art_inv_inner n q pre)
  note n = art_inv_inner.hyps(1,2)
  have path: "path_of pre n q"
    using art_inv_inner by (simp add: path_of_def)
  have pq: "no_nul (pre @ q)" and plen: "partial_len (hdr n) = length q"
    using path_of_minimum [OF path] art_inv_inner.hyps(3) by auto
  obtain k where key: "key = pre @ k"
    using prefix_no_nul [OF art_inv_inner.prems(2)] pq by auto
  obtain i where i: "(if length q \<noteq> 0 then prefix_mismatch n key (length pre) else Inr 0) = Inr i"
    "min i (length q) = lcp_len q k"
    using prefix_mismatch_spec [OF path, of k] by (cases "length q = 0") (auto simp: key)
  have step: "recursive_insert n key value (length pre) =
      (if i < length q
       then ebind (split_path n key value (length pre) i) (\<lambda>n'. Inr (n', None))
       else ebind (key_at key (length pre + length q)) (\<lambda>c.
              case find_child n c of
                None \<Rightarrow> Inr (add_child n c (make_leaf key value), None)
              | Some m \<Rightarrow>
                  ebind (recursive_insert m key value (length pre + length q + 1)) (\<lambda>(m', old).
                    Inr (set_child n c m', old))))"
    unfolding recursive_insert_inner [OF n(1)] plen i(1) ebind_simps ..
  show ?case
  proof (cases "i < length q")
    case True
    then have "lcp_len q k < length q" "i = lcp_len q k" using i(2) by auto
    then obtain n' where "split_path n key value (length pre) i = Inr n'" "art_inv pre n'"
      "art_map n' = (art_map n)(key \<mapsto> value)" "art_map n key = None"
      using split_path_inserts [OF path, of k "value"] art_inv_inner.prems(1) unfolding key by blast
    with True show ?thesis unfolding step by (simp add: fun_upd_def)
  next
    case False
    then have "prefix q k" using i(2) lcp_len_full [of q k] by simp
    then have le: "length pre + length q \<le> length key"
      by (auto simp: key dest: prefix_length_le)
    let ?c = "(key @ [0]) ! length (pre @ q)"
    have down: "prefix (pre @ q @ [?c]) (key @ [0])"
      using prefix_snoc_nth [of "pre @ q" ?c "key @ [0]"] \<open>prefix q k\<close> le by (auto simp: key prefix_prefix)
    have step': "recursive_insert n key value (length pre) =
        (case find_child n ?c of
           None \<Rightarrow> Inr (add_child n ?c (Leaf key value), None)
         | Some m \<Rightarrow> ebind (recursive_insert m key value (length (pre @ q @ [?c]))) (\<lambda>(m', old).
             Inr (set_child n ?c m', old)))"
      using False le unfolding step by (simp add: key_at_nth make_leaf_def cong: option.case_cong)
    show ?thesis
    proof (cases "find_child n ?c")
      case None
      from add_leaf_below(1,2) [OF path None art_inv_inner.prems(1) down, of "value"]
        add_leaf_below(3) [OF path None art_inv_inner.prems(1) down] step' None
      show ?thesis by (simp add: fun_upd_def)
    next
      case (Some m)
      from art_inv_inner.IH [OF Some art_inv_inner.prems(1) down] obtain m' where
        m': "recursive_insert m key value (length (pre @ q @ [?c])) = Inr (m', art_map m key)"
          "art_inv (pre @ q @ [?c]) m'" "art_map m' = (art_map m)(key \<mapsto> value)" by blast
      from set_child_below [OF path Some down m'(2,3)] step' Some m'(1)
      show ?thesis by (simp add: fun_upd_def)
    qed
  qed
qed

section \<open>Distinct keys, size, iteration\<close>

lemma distinct_entries:
  assumes "art_inv pre n"
  shows "distinct (map fst (art_entries n))"
  using assms
proof (induction pre n)
  case (art_inv_inner n q pre)
  note n = art_inv_inner.hyps(1,2)
  have "distinct (map fst (concat (map (\<lambda>p. art_entries (snd p)) ps)))"
    if "distinct (map fst ps)" "\<And>c m. (c, m) \<in> set ps \<Longrightarrow> find_child n c = Some m" for ps
    using that
  proof (induction ps)
    case (Cons p ps)
    obtain c m where p: "p = (c, m)" by force
    have m: "find_child n c = Some m" using Cons.prems(2) [of c m] by (simp add: p)
    have apart: "k \<notin> fst ` set (art_entries m)"
      if k: "(d, m') \<in> set ps" "k \<in> fst ` set (art_entries m')" for d m' k
    proof
      assume "k \<in> fst ` set (art_entries m)"
      then have "prefix ((pre @ q) @ [c]) (k @ [0])"
        using entries_prefix [OF art_inv_inner.hyps(6) [OF m]] by fastforce
      moreover have "prefix ((pre @ q) @ [d]) (k @ [0])"
        using entries_prefix [OF art_inv_inner.hyps(6) [OF Cons.prems(2)]] k by fastforce
      ultimately have "c = d" by (simp only: prefix_snoc_nth)
      with k(1) Cons.prems(1) show False by (force simp: p)
    qed
    have "fst ` set (art_entries m) \<inter> fst ` set (concat (map (\<lambda>p. art_entries (snd p)) ps)) = {}"
    proof (rule equals0I)
      fix k assume "k \<in> fst ` set (art_entries m) \<inter> fst ` set (concat (map (\<lambda>p. art_entries (snd p)) ps))"
      then obtain p' where "p' \<in> set ps" "k \<in> fst ` set (art_entries (snd p'))" "k \<in> fst ` set (art_entries m)"
        by auto
      then show False using apart [of "fst p'" "snd p'" k] by simp
    qed
    moreover have "distinct (map fst (concat (map (\<lambda>p. art_entries (snd p)) ps)))"
      using Cons.IH Cons.prems by simp
    ultimately show ?case
      using art_inv_inner.IH [OF m] by (simp add: p)
  qed simp
  from this [OF kid_pairs_map_of(2) [OF n(2)]] show ?case
    unfolding art_entries_inner [OF n(1)] using kid_pairs_find_child [OF n(2)] by blast
qed simp

lemma length_entries: "art_inv pre n \<Longrightarrow> length (art_entries n) = card (dom (art_map n))"
  unfolding art_map_def dom_map_of_conv_image_fst
  by (metis distinct_card distinct_entries length_map set_map)

text \<open>A callback that always returns 0 sees the entries one after the other.\<close>

lemma until_nonzero_fold:
  assumes "\<And>x s. x \<in> set xs \<Longrightarrow> f x s = (0, g x s)"
  shows "until_nonzero f xs s = (0, fold g xs s)"
  using assms by (induction xs arbitrary: s) auto

lemma recursive_iter_all:
  assumes "\<And>s k v. fst (cb s k v) = 0"
  shows "recursive_iter cb n s = (0, fold (\<lambda>(k, v) s. snd (cb s k v)) (art_entries n) s)"
proof (induction n arbitrary: s rule: measure_induct_rule [of size])
  case (less n)
  let ?g = "\<lambda>(k, v) s. snd (cb s k v)"
  show ?case
  proof (cases "is_leaf n")
    case True
    then show ?thesis using assms by (cases n) (auto intro: prod_eqI)
  next
    case False
    have "recursive_iter cb (snd p) s = (0, fold ?g (art_entries (snd p)) s)" if "p \<in> set (kid_pairs n)" for p s
      using less.IH [of "snd p"] size_kid [of "fst p" "snd p" n] that by simp
    then have "recursive_iter cb n s = (0, fold (\<lambda>p. fold ?g (art_entries (snd p))) (kid_pairs n) s)"
      unfolding recursive_iter_inner [OF False] by (rule until_nonzero_fold)
    also have "fold (\<lambda>p. fold ?g (art_entries (snd p))) ps = fold ?g (concat (map (\<lambda>p. art_entries (snd p)) ps))" for ps
      by (induction ps) simp_all
    finally show ?thesis unfolding art_entries_inner [OF False] .
  qed
qed

section \<open>Trees\<close>

definition tree_entries :: "'v art_tree \<Rightarrow> (cstring \<times> 'v) list" where
  "tree_entries t = (case root t of None \<Rightarrow> [] | Some n \<Rightarrow> art_entries n)"

definition tree_map :: "'v art_tree \<Rightarrow> cstring \<rightharpoonup> 'v" where
  "tree_map t = map_of (tree_entries t)"

definition tree_inv :: "'v art_tree \<Rightarrow> bool" where
  "tree_inv t \<longleftrightarrow> (case root t of None \<Rightarrow> True | Some n \<Rightarrow> art_inv [] n) \<and>
     art_size t = of_nat (length (tree_entries t))"

lemmas tree_defs = tree_entries_def tree_map_def tree_inv_def

lemma tree_distinct: "tree_inv t \<Longrightarrow> distinct (map fst (tree_entries t))"
  by (auto simp: tree_defs distinct_entries split: option.splits)

lemma tree_entries_key: "tree_inv t \<Longrightarrow> (k, v) \<in> set (tree_entries t) \<Longrightarrow> no_nul k"
  by (auto simp: tree_defs dest: entries_prefix split: option.splits)

lemma length_tree_entries: "tree_inv t \<Longrightarrow> length (tree_entries t) = card (dom (tree_map t))"
  unfolding tree_map_def dom_map_of_conv_image_fst
  by (metis distinct_card tree_distinct length_map set_map)

lemma art_tree_init_laws: "tree_inv art_tree_init" "tree_map art_tree_init = Map.empty"
  by (simp_all add: tree_defs art_tree_init_def)

lemma art_insert_laws:
  assumes inv: "tree_inv t" and k: "no_nul k"
  shows "\<exists>t'. art_insert t k v = Inr (t', tree_map t k) \<and> tree_inv t' \<and> tree_map t' = (tree_map t)(k \<mapsto> v)"
proof -
  have "\<exists>n'. (case root t of None \<Rightarrow> Inr (make_leaf k v, None) | Some n \<Rightarrow> recursive_insert n k v 0) =
      Inr (n', tree_map t k) \<and> art_inv [] n' \<and> art_map n' = (tree_map t)(k \<mapsto> v)"
  proof (cases "root t")
    case None
    then show ?thesis
      using k by (auto simp: tree_defs make_leaf_def intro!: art_inv_leaf)
  next
    case (Some n)
    then have "art_inv [] n" "tree_map t = art_map n"
      using inv by (simp_all add: tree_defs art_map_def)
    with recursive_insert_spec [of "[]" n k v] k Some show ?thesis by simp
  qed
  then obtain n' where n': "(case root t of None \<Rightarrow> Inr (make_leaf k v, None) | Some n \<Rightarrow> recursive_insert n k v 0) =
      Inr (n', tree_map t k)" "art_inv [] n'" "art_map n' = (tree_map t)(k \<mapsto> v)" by blast
  let ?t' = "t\<lparr>root := Some n', art_size := (if tree_map t k = None then art_size t + 1 else art_size t)\<rparr>"
  have map: "tree_map ?t' = (tree_map t)(k \<mapsto> v)"
    using n'(3) by (simp add: tree_defs art_map_def)
  have fin: "finite (dom (tree_map t))"
    by (simp add: tree_map_def finite_dom_map_of)
  have "length (tree_entries ?t') = card (dom ((tree_map t)(k \<mapsto> v)))"
    using length_entries [OF n'(2)] n'(3) by (simp add: tree_entries_def)
  also have "\<dots> = (if tree_map t k = None then 1 else 0) + length (tree_entries t)"
    using fin by (auto simp: length_tree_entries [OF inv] card_insert_if)
  finally have "tree_inv ?t'"
    using inv n'(2) by (simp add: tree_inv_def)
  with map n'(1) show ?thesis by (simp add: art_insert_def)
qed

lemma art_search_laws:
  assumes "tree_inv t"
  shows "art_search t k = Inr (tree_map t k) \<or> art_search t k = Inl Out_Of_Bounds \<and> tree_map t k = None"
proof (cases "root t")
  case None
  then show ?thesis by (simp add: art_search_def tree_defs)
next
  case (Some n)
  with assms have "art_inv [] n" by (simp add: tree_inv_def)
  from search_node_result [OF this, of k] Some show ?thesis
    by (auto simp: art_search_def tree_defs art_map_def)
qed

text \<open>What the callers of the tree rely on: a map from C strings that can be extended and queried.\<close>

locale string_map =
  fixes inv :: "'t \<Rightarrow> bool" and content :: "'t \<Rightarrow> cstring \<rightharpoonup> 'v" and init :: 't
    and add :: "'t \<Rightarrow> cstring \<Rightarrow> 'v \<Rightarrow> c_error + ('t \<times> 'v option)"
    and get :: "'t \<Rightarrow> cstring \<Rightarrow> c_error + 'v option"
  assumes init_inv: "inv init" and init_content: "content init = Map.empty"
    and add_law: "inv t \<Longrightarrow> no_nul k \<Longrightarrow>
      \<exists>t'. add t k v = Inr (t', content t k) \<and> inv t' \<and> content t' = (content t)(k \<mapsto> v)"
    and get_law: "inv t \<Longrightarrow> get t k = Inr (content t k) \<or> get t k = Inl Out_Of_Bounds \<and> content t k = None"
begin

lemma get_stored: "inv t \<Longrightarrow> content t k = Some v \<Longrightarrow> get t k = Inr (Some v)"
  using get_law [of t k] by auto

lemma get_sound: "inv t \<Longrightarrow> get t k = Inr r \<Longrightarrow> r = content t k"
  using get_law [of t k] by auto

lemma add_get: "inv t \<Longrightarrow> no_nul k \<Longrightarrow> add t k v = Inr (t', old) \<Longrightarrow> get t' k = Inr (Some v)"
  using add_law [of t k v] get_stored [of t' k v] by auto

lemma add_other:
  "inv t \<Longrightarrow> no_nul k \<Longrightarrow> add t k v = Inr (t', old) \<Longrightarrow> k' \<noteq> k \<Longrightarrow> content t' k' = content t k'"
  using add_law [of t k v] by auto

end

interpretation art: string_map tree_inv tree_map art_tree_init art_insert art_search
  by unfold_locales (simp_all add: art_tree_init_laws art_insert_laws art_search_laws)

text \<open>Iteration over a tree.\<close>

lemma art_iter_all:
  assumes "\<And>s k v. fst (cb s k v) = 0"
  shows "art_iter t cb s = (0, fold (\<lambda>(k, v) s. snd (cb s k v)) (tree_entries t) s)"
  by (simp add: art_iter_def tree_entries_def recursive_iter_all [OF assms] split: option.splits)

lemma art_iter_size_length: "art_iter_size t = of_nat (length (tree_entries t))"
proof -
  have "snd (art_iter t size_incr s) = s + of_nat (length (tree_entries t))" for s
  proof -
    have "fold (\<lambda>(k, v) s. snd (size_incr s k v)) xs s = s + of_nat (length xs)" for xs :: "(cstring \<times> 'a) list" and s
      by (induction xs arbitrary: s) (auto simp: size_incr_def)
    then show ?thesis using art_iter_all [of size_incr t s] by (simp add: size_incr_def)
  qed
  then show ?thesis by (simp add: art_iter_size_def)
qed

lemma tree_short_total:
  assumes "tree_inv t" and "no_nul k" and "\<And>n. root t = Some n \<Longrightarrow> short_paths n"
  shows "art_search t k = Inr (tree_map t k)"
proof (cases "root t")
  case None
  then show ?thesis by (simp add: art_search_def tree_defs)
next
  case (Some n)
  with assms have "search_node n k 0 \<noteq> Inl Out_Of_Bounds"
    using search_node_short [of "[]" n k] by (simp add: tree_inv_def)
  with art_search_laws [OF assms(1), of k] Some show ?thesis by (auto simp: art_search_def)
qed

section \<open>Properties\<close>

text \<open>C5: insertion into a well-formed tree succeeds for every C string, reads no byte outside a key,
  keeps the invariant (paths, node kinds, child counts, size), returns the old value and updates
  exactly that key.\<close>

theorem art_insert_updates:
  assumes "tree_inv t" and "no_nul k"
  shows "\<exists>t'. art_insert t k v = Inr (t', tree_map t k) \<and> tree_inv t' \<and> tree_map t' = (tree_map t)(k \<mapsto> v)"
  using art.add_law [OF assms] by blast

theorem art_insert_updates_witness:
  "\<exists>t'. art_insert art_tree_init [97, 98] True = Inr (t', None) \<and> tree_inv t' \<and> tree_map t' = [[97, 98] \<mapsto> True]"
  using art_insert_updates [OF art.init_inv, of "[97, 98]" True] by (simp add: no_nul_def art.init_content)

text \<open>A key just inserted is found with its value, and what a search returns for any key is
  what the tree holds.\<close>

theorem art_search_after_insert:
  assumes "tree_inv t" and "no_nul k" and "art_insert t k v = Inr (t', old)"
  shows "art_search t' k = Inr (Some v) \<and> (\<forall>k' r. art_search t' k' = Inr r \<longrightarrow> r = ((tree_map t)(k \<mapsto> v)) k')"
proof -
  have t': "tree_inv t'" "tree_map t' = (tree_map t)(k \<mapsto> v)"
    using art.add_law [OF assms(1,2), of v] assms(3) by auto
  show ?thesis
    using art.add_get [OF assms] art.get_sound [OF t'(1)] t'(2) by metis
qed

theorem art_search_after_insert_witness:
  "\<exists>t' old. art_insert art_tree_init [97] True = Inr (t', old) \<and> art_search t' [97] = Inr (Some True)"
proof -
  have nn: "no_nul [97]" by (simp add: no_nul_def)
  obtain t' old where t': "art_insert art_tree_init [97] True = Inr (t', old)"
    using art.add_law [OF art.init_inv nn, of True] by blast
  from art_search_after_insert [OF art.init_inv nn t'] t' show ?thesis by blast
qed

text \<open>Where no compressed path is longer than the ten bytes a node stores, every search returns,
  with exactly the content of the tree.\<close>

theorem art_search_exact:
  assumes "tree_inv t" and "no_nul k" and "root t = Some n" and "short_paths n"
  shows "art_search t k = Inr (tree_map t k)"
  using tree_short_total [OF assms(1,2)] assms(3,4) by simp

theorem art_search_exact_witness:
  "art_search \<lparr>root = Some (Leaf [97] True), art_size = 1\<rparr> [98] = Inr None"
proof -
  let ?t = "\<lparr>root = Some (Leaf [97] True), art_size = 1\<rparr>"
  have "tree_inv ?t"
    by (auto simp: tree_defs no_nul_def intro!: art_inv_leaf)
  from art_search_exact [OF this, of "[98]"] show ?thesis
    by (simp add: no_nul_def short_paths.simps [of "Leaf [97] True"] tree_defs)
qed

text \<open>The iterator calls back every entry once, keys pairwise different, and the count it gives
  equals the size the tree keeps.\<close>

theorem art_iter_visits_all:
  assumes "tree_inv t"
  shows "art_iter t (\<lambda>s k v. (0, s @ [(k, v)])) [] = (0, tree_entries t) \<and>
    distinct (map fst (tree_entries t)) \<and> (\<forall>k v. (k, v) \<in> set (tree_entries t) \<longleftrightarrow> tree_map t k = Some v) \<and>
    art_iter_size t = art_size t"
proof -
  have "fold (\<lambda>(k, v) s. s @ [(k, v)]) xs ys = ys @ xs" for xs ys :: "(cstring \<times> 'a) list"
    by (induction xs arbitrary: ys) auto
  then have "art_iter t (\<lambda>s k v. (0, s @ [(k, v)])) [] = (0, tree_entries t)"
    using art_iter_all [of "\<lambda>s k v. (0, s @ [(k, v)])" t "[]"] by simp
  moreover have "art_iter_size t = art_size t"
    using assms by (simp add: art_iter_size_length tree_inv_def)
  ultimately show ?thesis
    using tree_distinct [OF assms] by (simp add: tree_map_def)
qed

theorem art_iter_visits_all_witness:
  "art_iter_size \<lparr>root = Some (Leaf [97] True), art_size = 1\<rparr> = 1"
proof -
  have "tree_inv \<lparr>root = Some (Leaf [97] True), art_size = 1\<rparr>"
    by (auto simp: tree_defs no_nul_def intro!: art_inv_leaf)
  from art_iter_visits_all [OF this] show ?thesis by simp
qed

text \<open>With a compressed path of more than ten bytes a search for a shorter key reads past the
  end of the key.\<close>

theorem art_search_reads_past_key:
  "\<exists>t1 t2. art_insert art_tree_init (replicate 12 97 @ [98]) True = Inr (t1, None) \<and>
    art_insert t1 (replicate 12 97 @ [99]) False = Inr (t2, None) \<and>
    art_search t2 (replicate 10 97) = Inl Out_Of_Bounds"
proof -
  define r where "r = ebind (art_insert art_tree_init (replicate 12 97 @ [98]) True) (\<lambda>(t1, o1).
    ebind (art_insert t1 (replicate 12 97 @ [99]) False) (\<lambda>(t2, o2).
      Inr (o1, o2, art_search t2 (replicate 10 97))))"
  have "r = Inr (None, None, Inl Out_Of_Bounds)"
    unfolding r_def by code_simp
  then show ?thesis
    unfolding r_def by (auto simp del: ebind_assoc split: prod.splits) 
qed

text \<open>A prefix iteration can report keys that do not have the prefix: after a partial match of
  a compressed path it goes on below the node, and deeper nodes are not compared with what came before.\<close>

theorem art_iter_prefix_false_positive:
  "\<exists>t1 t2 t3. art_insert art_tree_init (str ''abcdefX'') True = Inr (t1, None) \<and>
    art_insert t1 (str ''abcdefY'') False = Inr (t2, None) \<and>
    art_insert t2 (str ''abcg'') False = Inr (t3, None) \<and>
    art_iter_prefix t3 (str ''axcdef'') (\<lambda>s k v. (0, s @ [k])) [] = Inr (0, [str ''abcdefX'', str ''abcdefY''])"
proof -
  define r where "r = ebind (art_insert art_tree_init (str ''abcdefX'') True) (\<lambda>(t1, o1).
    ebind (art_insert t1 (str ''abcdefY'') False) (\<lambda>(t2, o2).
    ebind (art_insert t2 (str ''abcg'') False) (\<lambda>(t3, o3).
      Inr (o1, o2, o3, art_iter_prefix t3 (str ''axcdef'') (\<lambda>s k v. (0, s @ [k])) []))))"
  have "r = Inr (None, None, None, Inr (0, [str ''abcdefX'', str ''abcdefY'']))"
    unfolding r_def by code_simp
  then show ?thesis
    unfolding r_def by (auto simp del: ebind_assoc split: prod.splits)
qed

end
