(* ===== verification/Hash_Utils.thy ===== *)
theory Hash_Utils
  imports Miqs_Prelude "HOL-Library.Multiset"
begin

unbundle bit_operations_syntax

text \<open>
  The string hashes of src/src/utils/hash_utils.c. \<^verbatim>\<open>unsigned long\<close> has 64 bits, \<^verbatim>\<open>unsigned int\<close> 32;
  both wrap. A hash reads its buffer up to the first NUL. The index uses \<open>djb2_hash\<close> to spread
  attribute names over its trees.
\<close>

section \<open>Definitions\<close>

fun djb2_loop :: "uint64 \<Rightarrow> byte list \<Rightarrow> uint64" where
  "djb2_loop h [] = h"
| "djb2_loop h (c # cs) = (if c \<noteq> 0 then djb2_loop ((push_bit 5 h + h) + ucast c) cs else h)"

definition djb2_hash :: "byte list \<Rightarrow> uint64" where
  "djb2_hash s = djb2_loop 5381 s"

fun sdbm_loop :: "uint64 \<Rightarrow> byte list \<Rightarrow> uint64" where
  "sdbm_loop h [] = h"
| "sdbm_loop h (c # cs) =
     (if c \<noteq> 0 then sdbm_loop (ucast c + push_bit 6 h + push_bit 16 h - h) cs else h)"

definition sdbm_hash :: "byte list \<Rightarrow> uint64" where
  "sdbm_hash s = sdbm_loop 0 s"

fun lose_lose_loop :: "32 word \<Rightarrow> byte list \<Rightarrow> 32 word" where
  "lose_lose_loop h [] = h"
| "lose_lose_loop h (c # cs) = (if c \<noteq> 0 then lose_lose_loop (h + ucast c) cs else h)"

definition lose_lose_hash :: "byte list \<Rightarrow> uint64" where
  "lose_lose_hash s = ucast (lose_lose_loop 0 s)"

section \<open>Closed forms\<close>

lemma djb2_loop_horner:
  "djb2_loop h s = foldl (\<lambda>h c. 33 * h + ucast c) h (cstr s)"
  by (induction h s rule: djb2_loop.induct) (simp_all add: cstr_def push_bit_eq_mult algebra_simps)

lemma sdbm_loop_horner:
  "sdbm_loop h s = foldl (\<lambda>h c. 65599 * h + ucast c) h (cstr s)"
  by (induction h s rule: sdbm_loop.induct) (simp_all add: cstr_def push_bit_eq_mult algebra_simps)

lemma lose_lose_loop_sum: "lose_lose_loop h s = h + sum_list (map ucast (cstr s))"
  by (induction h s rule: lose_lose_loop.induct) (simp_all add: cstr_def algebra_simps)

lemma djb2_hash_cstr: "djb2_hash (cstr s) = djb2_hash s"
  by (simp add: djb2_hash_def djb2_loop_horner cstr_id)

lemma djb2_hash_terminator [simp]: "no_nul s \<Longrightarrow> djb2_hash (s @ 0 # r) = djb2_hash s"
  by (metis cstr_id cstr_no_nul djb2_hash_cstr)

section \<open>Properties\<close>

text \<open>\<open>djb2_hash\<close> is the polynomial with base 33 over the bytes before the first NUL, starting
  from 5381, modulo \<open>2 ^ 64\<close>; \<open>sdbm_hash\<close> the one with base 65599 starting from 0.\<close>

theorem hashes_are_polynomials:
  "unat (djb2_hash s) = foldl (\<lambda>h c. 33 * h + unat c) 5381 (cstr s) mod 2 ^ 64 \<and>
   unat (sdbm_hash s) = foldl (\<lambda>h c. 65599 * h + unat c) 0 (cstr s) mod 2 ^ 64"
proof -
  have horner: "unat (foldl (\<lambda>h c. of_nat b * h + ucast c) h cs :: uint64) =
      foldl (\<lambda>h c. b * h + unat c) (unat h) cs mod 2 ^ 64" for b h and cs :: "byte list"
  proof -
    have "foldl (\<lambda>h c. of_nat b * h + ucast c) (of_nat n) cs =
        (of_nat (foldl (\<lambda>h c. b * h + unat c) n cs) :: uint64)" for n
    proof (induction cs arbitrary: n)
      case (Cons c cs)
      have "of_nat b * of_nat n + ucast c = (of_nat (b * n + unat c) :: uint64)"
        by simp
      then show ?case by (simp only: foldl_Cons Cons.IH)
    qed simp
    from this [of "unat h"] show ?thesis by (simp add: unat_of_nat)
  qed
  from horner [of 33 5381 "cstr s"] horner [of 65599 0 "cstr s"] show ?thesis
    by (simp add: djb2_hash_def djb2_loop_horner sdbm_hash_def sdbm_loop_horner)
qed

text \<open>\<open>lose_lose_hash\<close> sums the bytes, so it does not tell apart strings that are permutations
  of each other.\<close>

theorem lose_lose_permutation:
  assumes "mset (cstr s) = mset (cstr t)"
  shows "lose_lose_hash s = lose_lose_hash t"
proof -
  have "sum_list (map ucast (cstr x)) = (\<Sum>c \<in># mset (cstr x). ucast c :: 32 word)" for x
    by (simp flip: sum_mset_sum_list)
  then show ?thesis by (simp add: lose_lose_hash_def lose_lose_loop_sum assms)
qed

theorem lose_lose_permutation_witness: "lose_lose_hash [97, 98, 0, 5] = lose_lose_hash [98, 97]"
  by (rule lose_lose_permutation) (simp add: cstr_def)

end
