(* ===== verification/Index_Types.thy ===== *)
theory Index_Types
  imports Linklist Rbtree Art_Map Hash_Utils
begin

text \<open>
  The shared data of the index, from src/src/metadata/miqs_metadata.h, src/src/index/on_disk_index.h
  and src/src/index/in_mem_index.h. An attribute leaf and a value leaf are mutated through pointers
  while trees refer to them, so both live in an explicit heap: a tree holds addresses, an address is an
  index into the list of allocated leaves, and \<^verbatim>\<open>calloc\<close> appends. Nothing of the index is ever freed.
  A file/object pair does not change after it was pushed and is kept by value.
\<close>

section \<open>Metadata\<close>

datatype miqs_attr_type = MIQS_AT_UNKNOWN | MIQS_AT_INTEGER | MIQS_AT_FLOAT | MIQS_AT_STRING

definition type_code :: "miqs_attr_type \<Rightarrow> c_int" where
  "type_code t =
     (case t of MIQS_AT_UNKNOWN \<Rightarrow> 0 | MIQS_AT_INTEGER \<Rightarrow> 1 | MIQS_AT_FLOAT \<Rightarrow> 2 | MIQS_AT_STRING \<Rightarrow> 3)"

definition get_miqs_type_from_int :: "c_int \<Rightarrow> miqs_attr_type" where
  "get_miqs_type_from_int number =
     (if number = 1 then MIQS_AT_INTEGER
      else if number = 2 then MIQS_AT_FLOAT
      else if number = 3 then MIQS_AT_STRING
      else MIQS_AT_UNKNOWN)"

lemma get_type_code [simp]: "get_miqs_type_from_int (type_code t) = t"
  by (cases t) (simp_all add: get_miqs_type_from_int_def type_code_def)

text \<open>
  The two path pointers may never have been set, be NULL or point at a string.
  \<^verbatim>\<open>attribute_value\<close> points at an array of numbers, here its bytes, or at an array of C strings.
\<close>

datatype str_ptr = Unset | Null_Str | Str_Ptr cstring

datatype attr_array = Num_Array "byte list" | Str_Array "cstring list"

record miqs_meta_attribute =
  attr_name :: cstring
  attr_type :: miqs_attr_type
  attribute_value :: attr_array
  attribute_value_length :: c_int
  file_path_str :: str_ptr
  obj_path_str :: str_ptr

definition use_ptr :: "str_ptr \<Rightarrow> c_error + cstring option" where
  "use_ptr p = (case p of Unset \<Rightarrow> Inl Bad_Pointer | Null_Str \<Rightarrow> Inr None | Str_Ptr x \<Rightarrow> Inr (Some x))"

text \<open>\<^verbatim>\<open>((T *)attribute_value)[i]\<close> for an element type of \<open>k\<close> bytes, and \<^verbatim>\<open>((char **)attribute_value)[i]\<close>.\<close>

definition num_elem :: "attr_array \<Rightarrow> nat \<Rightarrow> nat \<Rightarrow> c_error + byte list" where
  "num_elem arr k i =
     (case arr of
        Num_Array bs \<Rightarrow> if (i + 1) * k \<le> length bs then Inr (take k (drop (i * k) bs)) else Inl Out_Of_Bounds
      | Str_Array _ \<Rightarrow> Inl Bad_Pointer)"

definition str_elem :: "attr_array \<Rightarrow> nat \<Rightarrow> c_error + cstring" where
  "str_elem arr i =
     (case arr of Str_Array ss \<Rightarrow> nth_chk ss i | Num_Array _ \<Rightarrow> Inl Bad_Pointer)"

section \<open>Leaves and their heap\<close>

record file_obj_pair =
  parallel_index_pos :: size_t
  file_list_pos :: size_t
  obj_list_pos :: size_t

record value_leaf =
  file_obj_pair_list :: "file_obj_pair linked_list option"

record attr_leaf =
  is_numeric :: c_int
  is_float :: c_int
  leaf_rbt :: "(byte list, nat) rbt option"
  leaf_art :: "nat art_tree option"

text \<open>The two counters are the globals of on_disk_index.c.\<close>

record index_heap =
  attr_leaves :: "attr_leaf list"
  value_leaves :: "value_leaf list"
  num_kv_pairs_loaded_mdb :: size_t
  num_attrs_loaded_mdb :: size_t

text \<open>A zeroed leaf.\<close>

definition zero_attr_leaf :: attr_leaf where
  "zero_attr_leaf = \<lparr>is_numeric = 0, is_float = 0, leaf_rbt = None, leaf_art = None\<rparr>"

definition zero_value_leaf :: value_leaf where
  "zero_value_leaf = \<lparr>file_obj_pair_list = None\<rparr>"

definition new_attr_leaf :: "'a index_heap_scheme \<Rightarrow> nat \<times> 'a index_heap_scheme" where
  "new_attr_leaf H = (length (attr_leaves H), H\<lparr>attr_leaves := attr_leaves H @ [zero_attr_leaf]\<rparr>)"

definition new_value_leaf :: "'a index_heap_scheme \<Rightarrow> nat \<times> 'a index_heap_scheme" where
  "new_value_leaf H = (length (value_leaves H), H\<lparr>value_leaves := value_leaves H @ [zero_value_leaf]\<rparr>)"

definition get_attr_leaf :: "nat \<Rightarrow> 'a index_heap_scheme \<Rightarrow> c_error + attr_leaf" where
  "get_attr_leaf a H = nth_chk (attr_leaves H) a"

definition get_value_leaf :: "nat \<Rightarrow> 'a index_heap_scheme \<Rightarrow> c_error + value_leaf" where
  "get_value_leaf a H = nth_chk (value_leaves H) a"

definition set_attr_leaf :: "nat \<Rightarrow> attr_leaf \<Rightarrow> 'a index_heap_scheme \<Rightarrow> 'a index_heap_scheme" where
  "set_attr_leaf a l H = H\<lparr>attr_leaves := (attr_leaves H)[a := l]\<rparr>"

definition set_value_leaf :: "nat \<Rightarrow> value_leaf \<Rightarrow> 'a index_heap_scheme \<Rightarrow> 'a index_heap_scheme" where
  "set_value_leaf a l H = H\<lparr>value_leaves := (value_leaves H)[a := l]\<rparr>"

lemmas heap_defs = new_attr_leaf_def new_value_leaf_def get_attr_leaf_def get_value_leaf_def
  set_attr_leaf_def set_value_leaf_def

section \<open>Choosing a tree\<close>

text \<open>
  \<^verbatim>\<open>djb2_hash(name) % parallelism\<close>: the \<^verbatim>\<open>int\<close> is converted to \<^verbatim>\<open>unsigned long\<close>, and zero divides
  by zero.
\<close>

definition hash_slot :: "cstring \<Rightarrow> c_int \<Rightarrow> c_error + nat" where
  "hash_slot name p =
     (if p = 0 then Inl Div_By_Zero else Inr (unat (djb2_hash name mod (scast p :: uint64))))"

lemma hash_slot_bound:
  assumes "0 < sint p" and "hash_slot name p = Inr i"
  shows "i < nat (sint p)"
proof -
  have p: "unat (scast p :: uint64) = nat (sint p)"
  proof -
    have "uint (scast p :: uint64) = uint (word_of_int (sint p) :: uint64)"
      by simp
    also have "\<dots> = sint p mod 2 ^ 64"
      unfolding uint_word_of_int by simp
    also have "\<dots> = sint p"
      using assms(1) sint_lt [of p] by (intro mod_pos_pos_trivial) auto
    finally show ?thesis by (metis nat_uint_eq)
  qed
  have "i = unat (djb2_hash name) mod nat (sint p)"
    using assms(2) p by (auto simp: hash_slot_def unat_mod split: if_splits)
  then show ?thesis using assms(1) by simp
qed

end
