(* ===== verification/Bin_File_Ops.thy ===== *)
theory Bin_File_Ops
  imports Miqs_Prelude
begin

text \<open>
  The record file layer, src/src/index/storage/bin_file_ops.c. Every field on disk is a type
  tag (\<^verbatim>\<open>int\<close>), an element count (\<^verbatim>\<open>size_t\<close>) and the elements. A \<^verbatim>\<open>FILE*\<close> is the file's bytes
  with a position: \<^verbatim>\<open>fwrite\<close> overwrites or extends at the position, \<^verbatim>\<open>fread\<close> delivers what is left
  (possibly less than asked, keeping the rest of the destination as it was).

  The locale \<open>field_codec\<close> is the contract between this layer and the index files above it: what
  a writer appends, the matching reader returns and \<open>miqs_skip_field\<close> steps over. It is
  interpreted for the five field types.
\<close>

section \<open>Streams\<close>

record stream =
  fcontents :: "byte list"
  foffset :: nat

definition fopen_w :: stream where
  "fopen_w = \<lparr>fcontents = [], foffset = 0\<rparr>"

definition fopen_r :: "byte list \<Rightarrow> stream" where
  "fopen_r bs = \<lparr>fcontents = bs, foffset = 0\<rparr>"

definition rewind :: "stream \<Rightarrow> stream" where
  "rewind s = s\<lparr>foffset := 0\<rparr>"

definition frest :: "stream \<Rightarrow> byte list" where
  "frest s = drop (foffset s) (fcontents s)"

definition sadvance :: "nat \<Rightarrow> stream \<Rightarrow> stream" where
  "sadvance n s = s\<lparr>foffset := foffset s + n\<rparr>"

text \<open>Writing past the end first fills the gap with zeros, as the file system does.\<close>

definition fwrite :: "byte list \<Rightarrow> stream \<Rightarrow> stream" where
  "fwrite bs s =
     (let c = fcontents s; off = foffset s
      in s\<lparr>fcontents := take off (c @ replicate (off - length c) 0) @ bs @ drop (off + length bs) c,
           foffset := off + length bs\<rparr>)"

text \<open>\<open>fread buf n s\<close> reads at most \<open>n\<close> bytes over the start of the destination \<open>buf\<close>.\<close>

definition fread :: "byte list \<Rightarrow> nat \<Rightarrow> stream \<Rightarrow> byte list \<times> stream" where
  "fread buf n s =
     (let bs = take n (frest s)
      in (bs @ drop (length bs) buf, sadvance (length bs) s))"

section \<open>Writers\<close>

definition miqs_append_int :: "c_int \<Rightarrow> stream \<Rightarrow> stream" where
  "miqs_append_int data s =
     fwrite (bytes4 data) (fwrite (bytes8 1) (fwrite (bytes4 1) s))"

definition miqs_append_double :: "c_double \<Rightarrow> stream \<Rightarrow> stream" where
  "miqs_append_double data s =
     fwrite (bytes8 data) (fwrite (bytes8 1) (fwrite (bytes4 2) s))"

text \<open>
  \<open>miqs_append_string_with_len data len s\<close> writes the first \<open>len\<close> bytes at \<open>data\<close>; every caller
  passes at least that many.
\<close>

definition miqs_append_string_with_len :: "byte list \<Rightarrow> size_t \<Rightarrow> stream \<Rightarrow> stream" where
  "miqs_append_string_with_len data len s =
     fwrite (take (unat len) data) (fwrite (bytes8 len) (fwrite (bytes4 3) s))"

definition miqs_append_string :: "cstring \<Rightarrow> stream \<Rightarrow> stream" where
  "miqs_append_string data s =
     (let len = of_nat (length (cstr data)) in miqs_append_string_with_len data len s)"

definition miqs_append_uint64 :: "uint64 \<Rightarrow> stream \<Rightarrow> stream" where
  "miqs_append_uint64 data s =
     fwrite (bytes8 data) (fwrite (bytes8 1) (fwrite (bytes4 4) s))"

definition miqs_append_size_t :: "size_t \<Rightarrow> stream \<Rightarrow> stream" where
  "miqs_append_size_t data s =
     fwrite (bytes8 data) (fwrite (bytes8 1) (fwrite (bytes4 5) s))"

definition miqs_append_type :: "c_int \<Rightarrow> stream \<Rightarrow> stream" where
  "miqs_append_type type s = miqs_append_int type s"

section \<open>Readers\<close>

text \<open>
  The three out-parameters of \<open>miqs_read_general\<close>. The data pointer is unset (\<open>None\<close>) when the
  type tag is none of the five.
\<close>

record field_rec =
  f_type :: c_int
  f_len :: size_t
  f_data :: "byte list option"

definition miqs_read_general :: "stream \<Rightarrow> field_rec \<times> stream" where
  "miqs_read_general s0 =
     (let (tb, s1) = fread (bytes4 (-1)) 4 s0;
          type = int_of_bytes tb;
          (lb, s2) = fread (bytes8 0) 8 s1;
          length = u64_of_bytes lb;
          n = unat length;
          ret = (\<lambda>(d, s). (\<lparr>f_type = type, f_len = length, f_data = Some d\<rparr>, s))
      in if type = 1 then ret (fread (replicate (n * 4) 0) (n * 4) s2)
         else if type = 2 then ret (fread (replicate (n * 8) 0) (n * 8) s2)
         else if type = 3 then ret (fread (replicate (n + 1) 0) n s2)
         else if type = 4 then ret (fread (replicate (n * 8) 0) (n * 8) s2)
         else if type = 5 then ret (fread (replicate (n * 8) 0) (n * 8) s2)
         else (\<lparr>f_type = type, f_len = length, f_data = None\<rparr>, s2))"

text \<open>
  \<open>miqs_skip_field\<close> returns the number of bytes it accounts for, in \<^verbatim>\<open>size_t\<close> arithmetic. (For an
  unknown tag it frees a pointer it never set, which the model does not follow.)
\<close>

definition miqs_skip_field :: "stream \<Rightarrow> size_t \<times> stream" where
  "miqs_skip_field s0 =
     (let (tb, s1) = fread (bytes4 (-1)) 4 s0; type = int_of_bytes tb
      in if type = -1 then (0, s1)
         else let (lb, s2) = fread (bytes8 0) 8 s1;
                  length = u64_of_bytes lb;
                  n = unat length
              in if type = 1 then (12 + 4 * length, snd (fread (replicate (n * 4) 0) (n * 4) s2))
                 else if type = 2 then (12 + 8 * length, snd (fread (replicate (n * 8) 0) (n * 8) s2))
                 else if type = 3 then (12 + length, snd (fread (replicate (n + 1) 0) n s2))
                 else if type = 4 then (12 + 8 * length, snd (fread (replicate (n * 8) 0) (n * 8) s2))
                 else if type = 5 then (12 + 8 * length, snd (fread (replicate (n * 8) 0) (n * 8) s2))
                 else (12, s2))"

text \<open>A numeric value, with the caller's \<open>is_float\<close> cell updated where the code writes it.\<close>

definition miqs_read_index_numeric_value ::
  "c_int \<Rightarrow> stream \<Rightarrow> byte list option \<times> c_int \<times> stream" where
  "miqs_read_index_numeric_value is_float s =
     (let (f, s') = miqs_read_general s;
          is_float' = (if f_len f = 1
                       then if f_type f = 1 then 0 else if f_type f = 2 then 1 else is_float
                       else is_float)
      in (f_data f, is_float', s'))"

definition miqs_read_int :: "stream \<Rightarrow> c_int option \<times> stream" where
  "miqs_read_int s =
     (let (f, s') = miqs_read_general s
      in (if f_type f = 1 \<and> f_len f = 1 then map_option int_of_bytes (f_data f) else None, s'))"

definition miqs_read_double :: "stream \<Rightarrow> c_double option \<times> stream" where
  "miqs_read_double s =
     (let (f, s') = miqs_read_general s
      in (if f_type f = 2 \<and> f_len f = 1 then map_option u64_of_bytes (f_data f) else None, s'))"

text \<open>The returned \<^verbatim>\<open>char*\<close> points at the whole buffer, terminator included.\<close>

definition miqs_read_string :: "stream \<Rightarrow> byte list option \<times> stream" where
  "miqs_read_string s =
     (let (f, s') = miqs_read_general s
      in (if f_type f = 3 then f_data f else None, s'))"

definition miqs_read_uint64 :: "stream \<Rightarrow> uint64 option \<times> stream" where
  "miqs_read_uint64 s =
     (let (f, s') = miqs_read_general s
      in (if f_type f = 4 \<and> f_len f = 1 then map_option u64_of_bytes (f_data f) else None, s'))"

definition miqs_read_size_t :: "stream \<Rightarrow> size_t option \<times> stream" where
  "miqs_read_size_t s =
     (let (f, s') = miqs_read_general s
      in (if f_type f = 5 \<and> f_len f = 1 then map_option u64_of_bytes (f_data f) else None, s'))"

section \<open>Streams: laws\<close>

lemma fwrite_fwrite [stream_simps]: "fwrite b (fwrite a s) = fwrite (a @ b) s"
proof -
  let ?c = "fcontents s" and ?off = "foffset s"
  let ?pad = "take ?off (?c @ replicate (?off - length ?c) 0)"
  have len: "length ?pad = ?off"
    by simp
  have "drop (?off + length a + length b) (?pad @ a @ drop (?off + length a) ?c)
      = drop (length b) (drop (?off + length a) ?c)"
    using len by (simp add: drop_append)
  also have "\<dots> = drop (?off + length (a @ b)) ?c"
    by (simp add: ac_simps)
  finally show ?thesis
    using len unfolding fwrite_def Let_def by (simp add: take_append)
qed

lemma fwrite_Nil [stream_simps]: "foffset s \<le> length (fcontents s) \<Longrightarrow> fwrite [] s = s"
  by (simp add: fwrite_def)

lemma fcontents_fwrite_end:
  "foffset s = length (fcontents s) \<Longrightarrow> fcontents (fwrite bs s) = fcontents s @ bs"
  by (simp add: fwrite_def Let_def)

lemma foffset_fwrite [stream_simps]: "foffset (fwrite bs s) = foffset s + length bs"
  by (simp add: fwrite_def Let_def)

lemma frest_sadvance [stream_simps]: "frest (sadvance n s) = drop n (frest s)"
  by (simp add: frest_def sadvance_def ac_simps)

lemma sadvance_sadvance [stream_simps]: "sadvance n (sadvance m s) = sadvance (m + n) s"
  by (simp add: sadvance_def ac_simps)

lemma fcontents_sadvance [simp]: "fcontents (sadvance n s) = fcontents s"
  by (simp add: sadvance_def)

lemma frest_fopen_r [simp]: "frest (fopen_r bs) = bs"
  by (simp add: frest_def fopen_r_def)

lemma fcontents_fopen_w_write [simp]: "fcontents (fwrite bs fopen_w) = bs"
  by (simp add: fwrite_def fopen_w_def)

text \<open>Enough bytes are there: the destination is overwritten whole.\<close>

lemma fread_full:
  assumes "frest s = bs @ r" and "length bs = n" and "length buf = n"
  shows "fread buf n s = (bs, sadvance n s)"
  using assms by (simp add: fread_def)

lemma fread_prefix:
  assumes "frest s = bs @ r" and "length bs = n"
  shows "fread buf n s = (bs @ drop n buf, sadvance n s)"
  using assms by (simp add: fread_def)

text \<open>At the end of the file nothing is delivered.\<close>

lemma fread_eof: "frest s = [] \<Longrightarrow> fread buf n s = (buf, s)"
  by (simp add: fread_def sadvance_def)

section \<open>The encoding of each field\<close>

definition enc_field :: "c_int \<Rightarrow> size_t \<Rightarrow> byte list \<Rightarrow> byte list" where
  "enc_field type len payload = bytes4 type @ bytes8 len @ payload"

definition enc_int :: "c_int \<Rightarrow> byte list" where
  "enc_int x = enc_field 1 1 (bytes4 x)"

definition enc_double :: "c_double \<Rightarrow> byte list" where
  "enc_double x = enc_field 2 1 (bytes8 x)"

definition enc_string :: "cstring \<Rightarrow> byte list" where
  "enc_string x = enc_field 3 (of_nat (length x)) x"

definition enc_uint64 :: "uint64 \<Rightarrow> byte list" where
  "enc_uint64 x = enc_field 4 1 (bytes8 x)"

definition enc_size_t :: "size_t \<Rightarrow> byte list" where
  "enc_size_t x = enc_field 5 1 (bytes8 x)"

text \<open>A C string that fits in memory: no inner NUL, length below the range of \<^verbatim>\<open>size_t\<close>.\<close>

definition str_ok :: "cstring \<Rightarrow> bool" where
  "str_ok s \<longleftrightarrow> no_nul s \<and> length s < 2 ^ 64"

lemma append_int_enc [enc_simps]: "miqs_append_int x s = fwrite (enc_int x) s"
  by (simp add: miqs_append_int_def enc_int_def enc_field_def stream_simps)

lemma append_type_enc [enc_simps]: "miqs_append_type x s = fwrite (enc_int x) s"
  by (simp add: miqs_append_type_def append_int_enc)

lemma append_double_enc [enc_simps]: "miqs_append_double x s = fwrite (enc_double x) s"
  by (simp add: miqs_append_double_def enc_double_def enc_field_def stream_simps)

lemma append_uint64_enc [enc_simps]: "miqs_append_uint64 x s = fwrite (enc_uint64 x) s"
  by (simp add: miqs_append_uint64_def enc_uint64_def enc_field_def stream_simps)

lemma append_size_t_enc [enc_simps]: "miqs_append_size_t x s = fwrite (enc_size_t x) s"
  by (simp add: miqs_append_size_t_def enc_size_t_def enc_field_def stream_simps)

lemma unat_of_nat_length:
  "length (x :: 'a list) < 2 ^ 64 \<Longrightarrow> unat (of_nat (length x) :: size_t) = length x"
  by (simp add: unat_of_nat)

lemma append_string_with_len_enc:
  assumes "length x < 2 ^ 64"
  shows "miqs_append_string_with_len x (of_nat (length x)) s = fwrite (enc_string x) s"
  using assms unat_of_nat_length [OF assms]
  by (simp add: miqs_append_string_with_len_def enc_string_def enc_field_def stream_simps)

lemma append_string_enc:
  assumes "str_ok x"
  shows "miqs_append_string x s = fwrite (enc_string x) s"
  using assms by (simp add: miqs_append_string_def str_ok_def cstr_id append_string_with_len_enc)

lemma length_enc_field [simp]: "length (enc_field t l p) = 12 + length p"
  by (simp add: enc_field_def)

section \<open>Reading a field back\<close>

text \<open>The element size each tag stands for.\<close>

definition elem_size :: "c_int \<Rightarrow> nat" where
  "elem_size t = (if t = 1 then 4 else if t = 3 then 1 else 8)"

lemma read_header:
  assumes "frest s = enc_field t l p @ r"
  shows "fread (bytes4 (-1)) 4 s = (bytes4 t, sadvance 4 s)"
    and "fread (bytes8 0) 8 (sadvance 4 s) = (bytes8 l, sadvance 12 s)"
    and "frest (sadvance 12 s) = p @ r"
  using assms fread_full [of s "bytes4 t"] fread_full [of "sadvance 4 s" "bytes8 l"]
  by (simp_all add: enc_field_def stream_simps)

lemma read_general_enc:
  assumes rest: "frest s = enc_field t l p @ r"
    and len: "length p = unat l * elem_size t"
    and t: "t \<in> {1, 2, 3, 4, 5}"
  shows "miqs_read_general s =
    (\<lparr>f_type = t, f_len = l, f_data = Some (p @ (if t = 3 then [0] else []))\<rparr>,
     sadvance (12 + length p) s)"
proof -
  note hd = read_header [OF rest]
  have body: "fread buf (length p) (sadvance 12 s)
      = (p @ drop (length p) buf, sadvance (12 + length p) s)" for buf
    using fread_prefix [OF hd(3) refl] by (simp add: stream_simps)
  have nul: "drop n (replicate (n + 1) 0) = [0 :: byte]" for n
    by (induction n) simp_all
  show ?thesis
    using t body len nul
    unfolding miqs_read_general_def hd(1,2) Let_def prod.case int_of_bytes4 u64_of_bytes8
    by (auto simp: elem_size_def simp del: replicate_Suc)
qed

lemma skip_field_enc:
  assumes rest: "frest s = enc_field t l p @ r"
    and len: "length p = unat l * elem_size t"
    and t: "t \<in> {1, 2, 3, 4, 5}"
  shows "miqs_skip_field s = (12 + of_nat (elem_size t) * l, sadvance (12 + length p) s)"
proof -
  note hd = read_header [OF rest]
  have body: "snd (fread buf (length p) (sadvance 12 s)) = sadvance (12 + length p) s" for buf
    using fread_prefix [OF hd(3) refl] by (simp add: stream_simps)
  show ?thesis
    using t body len
    unfolding miqs_skip_field_def hd(1,2) Let_def prod.case int_of_bytes4 u64_of_bytes8
    by (auto simp: elem_size_def)
qed

lemma read_general_eof:
  "frest s = [] \<Longrightarrow> miqs_read_general s = (\<lparr>f_type = -1, f_len = 0, f_data = None\<rparr>, s)"
  by (simp add: miqs_read_general_def fread_eof Let_def)

lemma read_eof:
  assumes "frest s = []"
  shows "miqs_read_int s = (None, s)" and "miqs_read_double s = (None, s)"
    and "miqs_read_string s = (None, s)" and "miqs_read_uint64 s = (None, s)"
    and "miqs_read_size_t s = (None, s)" and "miqs_skip_field s = (0, s)"
  using assms
  by (simp_all add: miqs_read_int_def miqs_read_double_def miqs_read_string_def
      miqs_read_uint64_def miqs_read_size_t_def miqs_skip_field_def read_general_eof fread_eof)

section \<open>The codec contract\<close>

text \<open>
  \<open>wr\<close> appends the encoding of a value; where that encoding is next in the file, \<open>rd\<close> returns
  the value (as \<open>img\<close> sees it) and stops right behind it. A \<open>field_codec\<close> is a codec whose values
  are single fields, so \<open>miqs_skip_field\<close> steps over them.
\<close>

locale codec =
  fixes wr :: "'a \<Rightarrow> stream \<Rightarrow> stream"
    and rd :: "stream \<Rightarrow> 'b option \<times> stream"
    and enc :: "'a \<Rightarrow> byte list"
    and ok :: "'a \<Rightarrow> bool"
    and img :: "'a \<Rightarrow> 'b"
  assumes wr_enc: "ok x \<Longrightarrow> wr x s = fwrite (enc x) s"
    and rd_enc: "ok x \<Longrightarrow> frest s = enc x @ r \<Longrightarrow> rd s = (Some (img x), sadvance (length (enc x)) s)"
begin

text \<open>A reader never consumes bytes of the next field.\<close>

lemma rd_rest:
  assumes "ok x" and "frest s = enc x @ r"
  shows "frest (snd (rd s)) = r" and "fst (rd s) = Some (img x)"
  using assms by (simp_all add: rd_enc stream_simps)

text \<open>Writing values one after the other and reading as many back.\<close>

lemma write_many:
  assumes "\<forall>x \<in> set xs. ok x" and "foffset s \<le> length (fcontents s)"
  shows "fold wr xs s = fwrite (concat (map enc xs)) s"
  using assms(1)
proof (induction xs rule: rev_induct)
  case Nil
  then show ?case using assms(2) by (simp add: stream_simps)
next
  case (snoc x xs)
  then show ?case by (simp add: wr_enc stream_simps)
qed

lemma write_read:
  assumes "ok x" and "foffset s = length (fcontents s)"
  shows "rd (sadvance (length (fcontents s)) (fopen_r (fcontents (wr x s)))) =
    (Some (img x), sadvance (length (fcontents (wr x s))) (fopen_r (fcontents (wr x s))))"
proof -
  let ?s = "sadvance (length (fcontents s)) (fopen_r (fcontents (wr x s)))"
  have c: "fcontents (wr x s) = fcontents s @ enc x"
    using assms by (simp add: wr_enc fcontents_fwrite_end)
  then have "frest ?s = enc x @ []"
    by (simp add: stream_simps)
  from rd_enc [OF assms(1) this] c show ?thesis
    by (simp add: stream_simps)
qed

end

locale field_codec = codec +
  assumes skip_enc: "ok x \<Longrightarrow> frest s = enc x @ r \<Longrightarrow>
      miqs_skip_field s = (of_nat (length (enc x)), sadvance (length (enc x)) s)"
begin

lemma skip_rest:
  assumes "ok x" and "frest s = enc x @ r"
  shows "frest (snd (miqs_skip_field s)) = r" and "snd (miqs_skip_field s) = snd (rd s)"
  using assms by (simp_all add: rd_enc skip_enc stream_simps)

end

interpretation int_codec: field_codec miqs_append_int miqs_read_int enc_int "\<lambda>_. True" "\<lambda>x. x"
proof unfold_locales
  fix x s r
  assume "frest s = enc_int x @ r"
  then have *: "frest s = enc_field 1 1 (bytes4 x) @ r"
    by (simp add: enc_int_def)
  show "miqs_read_int s = (Some x, sadvance (length (enc_int x)) s)"
    using read_general_enc [OF *] by (simp add: miqs_read_int_def elem_size_def enc_int_def)
  show "miqs_skip_field s = (of_nat (length (enc_int x)), sadvance (length (enc_int x)) s)"
    using skip_field_enc [OF *] by (simp add: elem_size_def enc_int_def)
qed (simp add: enc_simps)

interpretation double_codec: field_codec miqs_append_double miqs_read_double enc_double
  "\<lambda>_. True" "\<lambda>x. x"
proof unfold_locales
  fix x s r
  assume "frest s = enc_double x @ r"
  then have *: "frest s = enc_field 2 1 (bytes8 x) @ r"
    by (simp add: enc_double_def)
  show "miqs_read_double s = (Some x, sadvance (length (enc_double x)) s)"
    using read_general_enc [OF *] by (simp add: miqs_read_double_def elem_size_def enc_double_def)
  show "miqs_skip_field s = (of_nat (length (enc_double x)), sadvance (length (enc_double x)) s)"
    using skip_field_enc [OF *] by (simp add: elem_size_def enc_double_def)
qed (simp add: enc_simps)

interpretation string_codec: field_codec miqs_append_string miqs_read_string enc_string
  str_ok "\<lambda>x. x @ [0]"
proof unfold_locales
  fix x s r
  assume ok: "str_ok x" and "frest s = enc_string x @ r"
  then have *: "frest s = enc_field 3 (of_nat (length x)) x @ r"
    by (simp add: enc_string_def)
  have u: "unat (of_nat (length x) :: size_t) = length x"
    using ok by (simp add: str_ok_def unat_of_nat_length)
  show "miqs_read_string s = (Some (x @ [0]), sadvance (length (enc_string x)) s)"
    using read_general_enc [OF *] u by (simp add: miqs_read_string_def elem_size_def enc_string_def)
  show "miqs_skip_field s = (of_nat (length (enc_string x)), sadvance (length (enc_string x)) s)"
    using skip_field_enc [OF *] u by (simp add: elem_size_def enc_string_def)
qed (simp add: append_string_enc)

interpretation uint64_codec: field_codec miqs_append_uint64 miqs_read_uint64 enc_uint64
  "\<lambda>_. True" "\<lambda>x. x"
proof unfold_locales
  fix x s r
  assume "frest s = enc_uint64 x @ r"
  then have *: "frest s = enc_field 4 1 (bytes8 x) @ r"
    by (simp add: enc_uint64_def)
  show "miqs_read_uint64 s = (Some x, sadvance (length (enc_uint64 x)) s)"
    using read_general_enc [OF *] by (simp add: miqs_read_uint64_def elem_size_def enc_uint64_def)
  show "miqs_skip_field s = (of_nat (length (enc_uint64 x)), sadvance (length (enc_uint64 x)) s)"
    using skip_field_enc [OF *] by (simp add: elem_size_def enc_uint64_def)
qed (simp add: enc_simps)

interpretation size_t_codec: field_codec miqs_append_size_t miqs_read_size_t enc_size_t
  "\<lambda>_. True" "\<lambda>x. x"
proof unfold_locales
  fix x s r
  assume "frest s = enc_size_t x @ r"
  then have *: "frest s = enc_field 5 1 (bytes8 x) @ r"
    by (simp add: enc_size_t_def)
  show "miqs_read_size_t s = (Some x, sadvance (length (enc_size_t x)) s)"
    using read_general_enc [OF *] by (simp add: miqs_read_size_t_def elem_size_def enc_size_t_def)
  show "miqs_skip_field s = (of_nat (length (enc_size_t x)), sadvance (length (enc_size_t x)) s)"
    using skip_field_enc [OF *] by (simp add: elem_size_def enc_size_t_def)
qed (simp add: enc_simps)

section \<open>Readers never move back\<close>

lemma fread_rest: "length (frest (snd (fread buf n s))) = length (frest s) - n"
  by (simp add: fread_def Let_def stream_simps)

lemma read_general_progress:
  "length (frest (snd (miqs_read_general s))) \<le> length (frest s) - 4"
proof -
  have "length (frest (snd (fread b3 m (snd (fread b2 8 (snd (fread b1 4 s))))))) \<le> length (frest s) - 4"
    and "length (frest (snd (fread b2 8 (snd (fread b1 4 s))))) \<le> length (frest s) - 4" for b1 b2 b3 m
    by (simp_all add: fread_rest)
  then show ?thesis
    unfolding miqs_read_general_def Let_def by (simp add: case_prod_unfold)
qed

lemma read_progress:
  "length (frest (snd (miqs_read_int s))) \<le> length (frest s) - 4"
  "length (frest (snd (miqs_read_double s))) \<le> length (frest s) - 4"
  "length (frest (snd (miqs_read_string s))) \<le> length (frest s) - 4"
  "length (frest (snd (miqs_read_size_t s))) \<le> length (frest s) - 4"
  "length (frest (snd (miqs_read_uint64 s))) \<le> length (frest s) - 4"
  using read_general_progress [of s]
  by (simp_all add: miqs_read_int_def miqs_read_double_def miqs_read_string_def miqs_read_size_t_def
      miqs_read_uint64_def case_prod_unfold Let_def)

lemma skip_progress: "length (frest (snd (miqs_skip_field s))) \<le> length (frest s)"
proof -
  have "length (frest (snd (fread b3 m (snd (fread b2 8 (snd (fread b1 4 s))))))) \<le> length (frest s)"
    and "length (frest (snd (fread b2 8 (snd (fread b1 4 s))))) \<le> length (frest s)"
    and "length (frest (snd (fread b1 4 s))) \<le> length (frest s)" for b1 b2 b3 m
    by (simp_all add: fread_rest)
  then show ?thesis
    unfolding miqs_skip_field_def Let_def by (simp add: case_prod_unfold)
qed

lemma read_int_some_rest: "fst (miqs_read_int s) = Some i \<Longrightarrow> frest s \<noteq> []"
  using read_eof(1) [of s] by auto

lemma read_int_decreases:
  "miqs_read_int s = (Some i, s') \<Longrightarrow> length (frest s') < length (frest s)"
  using read_progress(1) [of s] read_int_some_rest [of s i] by (cases "frest s") auto

section \<open>Properties\<close>

text \<open>C33: the five kinds of field, appended one after the other to a new file and read back in
  the same order, give the written values (a string with its terminator) and use up the file.\<close>

theorem fields_roundtrip:
  assumes "str_ok x"
  shows "(let f = fcontents (miqs_append_size_t z (miqs_append_uint64 u (miqs_append_double d
                (miqs_append_string x (miqs_append_int i fopen_w)))));
            (i', s1) = miqs_read_int (fopen_r f);
            (x', s2) = miqs_read_string s1;
            (d', s3) = miqs_read_double s2;
            (u', s4) = miqs_read_uint64 s3;
            (z', s5) = miqs_read_size_t s4
        in i' = Some i \<and> x' = Some (x @ [0]) \<and> d' = Some d \<and> u' = Some u \<and> z' = Some z \<and> frest s5 = [])"
proof -
  let ?f = "enc_int i @ enc_string x @ enc_double d @ enc_uint64 u @ enc_size_t z @ []"
  have f: "fcontents (miqs_append_size_t z (miqs_append_uint64 u (miqs_append_double d
      (miqs_append_string x (miqs_append_int i fopen_w))))) = ?f"
    by (simp add: enc_simps append_string_enc [OF assms] stream_simps)
  let ?s0 = "fopen_r ?f"
  let ?s1 = "snd (miqs_read_int ?s0)"
  let ?s2 = "snd (miqs_read_string ?s1)"
  let ?s3 = "snd (miqs_read_double ?s2)"
  let ?s4 = "snd (miqs_read_uint64 ?s3)"
  note r1 = int_codec.rd_rest [OF TrueI frest_fopen_r, of i "enc_string x @ enc_double d @ enc_uint64 u @ enc_size_t z @ []"]
  note r2 = string_codec.rd_rest [OF assms r1(1)]
  note r3 = double_codec.rd_rest [OF TrueI r2(1)]
  note r4 = uint64_codec.rd_rest [OF TrueI r3(1)]
  note r5 = size_t_codec.rd_rest [OF TrueI r4(1)]
  show ?thesis
    unfolding f Let_def using r1 r2 r3 r4 r5 by (simp add: case_prod_unfold)
qed

theorem fields_roundtrip_witness:
  "(let f = fcontents (miqs_append_size_t 7 (miqs_append_uint64 9 (miqs_append_double 0
              (miqs_append_string [109, 106, 100] (miqs_append_int (- 3) fopen_w)))));
        (i', s1) = miqs_read_int (fopen_r f);
        (x', s2) = miqs_read_string s1;
        (d', s3) = miqs_read_double s2;
        (u', s4) = miqs_read_uint64 s3;
        (z', s5) = miqs_read_size_t s4
    in i' = Some (- 3) \<and> x' = Some ([109, 106, 100] @ [0]) \<and> d' = Some 0 \<and> u' = Some 9 \<and> z' = Some 7 \<and> frest s5 = [])"
  by (rule fields_roundtrip) (simp add: str_ok_def no_nul_def)

text \<open>Where an encoded string or number is next in the file, skipping the field leaves the
  stream exactly where reading it would, and reports the number of bytes passed.\<close>

theorem skip_like_read:
  assumes "str_ok x"
  shows "(frest s = enc_string x @ r \<longrightarrow>
      miqs_skip_field s = (of_nat (length (enc_string x)), snd (miqs_read_string s))) \<and>
    (frest s = enc_int i @ r \<longrightarrow>
      miqs_skip_field s = (of_nat (length (enc_int i)), snd (miqs_read_int s))) \<and>
    (frest s = enc_double d @ r \<longrightarrow>
      miqs_skip_field s = (of_nat (length (enc_double d)), snd (miqs_read_double s)))"
  using assms string_codec.skip_enc [of x s r] string_codec.rd_enc [of x s r]
    int_codec.skip_enc [OF TrueI, of s i r] int_codec.rd_enc [OF TrueI, of s i r]
    double_codec.skip_enc [OF TrueI, of s d r] double_codec.rd_enc [OF TrueI, of s d r] by simp

theorem skip_like_read_witness:
  "miqs_skip_field (fopen_r (enc_string [97, 98])) = (14, snd (miqs_read_string (fopen_r (enc_string [97, 98])))) \<and>
   miqs_skip_field (fopen_r (enc_int 5)) = (16, snd (miqs_read_int (fopen_r (enc_int 5))))"
proof -
  have ok: "str_ok [97, 98]" by (simp add: str_ok_def no_nul_def)
  show ?thesis
    using skip_like_read [OF ok, of "fopen_r (enc_string [97, 98])" "[]"]
      skip_like_read [OF ok, of "fopen_r (enc_int 5)" "[]" 5]
    by (simp add: enc_string_def enc_int_def)
qed

text \<open>At the end of a file every typed reader delivers nothing and does not move.\<close>

theorem typed_readers_at_eof:
  assumes "frest s = []"
  shows "miqs_read_int s = (None, s) \<and> miqs_read_double s = (None, s) \<and> miqs_read_string s = (None, s) \<and>
    miqs_read_uint64 s = (None, s) \<and> miqs_read_size_t s = (None, s) \<and> miqs_skip_field s = (0, s)"
  using read_eof [OF assms] by simp

theorem typed_readers_at_eof_witness:
  "miqs_read_string (fopen_r []) = (None, fopen_r []) \<and> miqs_skip_field (fopen_r []) = (0, fopen_r [])"
  using typed_readers_at_eof [of "fopen_r []"] by simp

end
