(* ===== verification/String_Utils.thy ===== *)
theory String_Utils
  imports Miqs_Prelude "HOL-Library.Sublist"
begin

text \<open>
  The string helpers of src/src/utils/string_utils.c that the index and its queries use: affix
  tests, pattern classification and matching, substrings, reversal, concatenation. A \<^verbatim>\<open>char*\<close> parameter is a C
  string; \<open>substring\<close> returns a buffer, which is a C string only when it holds a NUL
  (\<open>read_cstr\<close>). Lengths fit an \<^verbatim>\<open>int\<close>. Printing, formatting and the random generators are not modelled.
\<close>

section \<open>The string library\<close>

text \<open>\<^verbatim>\<open>strstr\<close>: the first position at which the token occurs.\<close>

fun strstr_from :: "nat \<Rightarrow> cstring \<Rightarrow> cstring \<Rightarrow> nat option" where
  "strstr_from i [] tok = (if tok = [] then Some i else None)"
| "strstr_from i (c # s) tok =
     (if take (length tok) (c # s) = tok then Some i else strstr_from (Suc i) s tok)"

definition strstr :: "cstring \<Rightarrow> cstring \<Rightarrow> nat option" where
  "strstr s tok = strstr_from 0 s tok"

fun strchr_from :: "nat \<Rightarrow> cstring \<Rightarrow> byte \<Rightarrow> nat option" where
  "strchr_from i [] c = (if c = 0 then Some i else None)"
| "strchr_from i (b # s) c = (if b = c then Some i else strchr_from (Suc i) s c)"

text \<open>Reading a buffer as a C string runs out of the buffer when it holds no NUL.\<close>

definition read_cstr :: "byte list \<Rightarrow> c_error + cstring" where
  "read_cstr buf = (if 0 \<in> set buf then Inr (cstr buf) else Inl Out_Of_Bounds)"

section \<open>Affixes and patterns\<close>

datatype pattern_type = PATTERN_EXACT | PATTERN_PREFIX | PATTERN_SUFFIX | PATTERN_MIDDLE

record affix =
  body :: cstring
  affix_length :: size_t
  affix_type :: pattern_type

definition create_affix_info :: "cstring \<Rightarrow> size_t \<Rightarrow> pattern_type \<Rightarrow> affix" where
  "create_affix_info b len t = \<lparr>body = b, affix_length = len, affix_type = t\<rparr>"

definition startsWith :: "cstring \<Rightarrow> cstring \<Rightarrow> bool" where
  "startsWith s pre = (strstr s pre = Some 0)"

definition endsWith :: "cstring \<Rightarrow> cstring \<Rightarrow> bool" where
  "endsWith s suf =
     (if length s < length suf then False else take (length suf) (drop (length s - length suf) s) = suf)"

definition contains :: "cstring \<Rightarrow> cstring \<Rightarrow> bool" where
  "contains s tok = (strstr s tok \<noteq> None)"

definition equals :: "cstring \<Rightarrow> cstring \<Rightarrow> bool" where
  "equals s tok = (tok = s)"

definition is_matching_given_affix :: "cstring \<Rightarrow> affix \<Rightarrow> bool" where
  "is_matching_given_affix s info =
     (case affix_type info of
        PATTERN_PREFIX \<Rightarrow> startsWith s (body info)
      | PATTERN_SUFFIX \<Rightarrow> endsWith s (body info)
      | PATTERN_MIDDLE \<Rightarrow> contains s (body info)
      | PATTERN_EXACT \<Rightarrow> False)"

definition determine_pattern_type :: "cstring \<Rightarrow> pattern_type" where
  "determine_pattern_type pattern =
     (if startsWith pattern [42]
      then if endsWith pattern [42] then PATTERN_MIDDLE else PATTERN_SUFFIX
      else if endsWith pattern [42] then PATTERN_PREFIX else PATTERN_EXACT)"

text \<open>
  \<open>substring\<close> gives NULL (\<open>None\<close>), or the buffer of \<open>end - start\<close> bytes that \<^verbatim>\<open>strncpy\<close> filled. A
  negative length makes \<^verbatim>\<open>calloc\<close> fail and the copy write to NULL.
\<close>

definition substring :: "cstring \<Rightarrow> int \<Rightarrow> int \<Rightarrow> c_error + byte list option" where
  "substring s start end0 =
     (let lenstr = int (length s) in
      if lenstr \<le> 0 then Inr None
      else let end1 = (if end0 < 0 then lenstr else end0) in
           if start < 0 \<or> end1 > lenstr + 1 then Inr None
           else let len = end1 - start in
                if len < 0 then Inl Null_Deref
                else let src = take (nat len) (drop (nat start) s)
                     in Inr (Some (src @ replicate (nat len - length src) 0)))"

definition substr :: "cstring \<Rightarrow> int \<Rightarrow> c_error + byte list option" where
  "substr s start = substring s start (- 1)"

definition subrstr :: "cstring \<Rightarrow> int \<Rightarrow> c_error + byte list option" where
  "subrstr s end0 = substring s 0 end0"

definition with_tok :: "c_error + byte list option \<Rightarrow> (cstring \<Rightarrow> bool) \<Rightarrow> c_error + bool" where
  "with_tok r f = ebind r (\<lambda>tok.
     case tok of None \<Rightarrow> Inr False | Some buf \<Rightarrow> ebind (read_cstr buf) (\<lambda>t. Inr (f t)))"

definition simple_matches :: "cstring option \<Rightarrow> cstring option \<Rightarrow> c_error + bool" where
  "simple_matches s pattern =
     (case (s, pattern) of
        (Some subject, Some p) \<Rightarrow>
          (case determine_pattern_type p of
             PATTERN_EXACT \<Rightarrow> Inr (equals subject p)
           | PATTERN_PREFIX \<Rightarrow> with_tok (subrstr p (int (length p) - 1)) (startsWith subject)
           | PATTERN_SUFFIX \<Rightarrow> with_tok (substr p 1) (endsWith subject)
           | PATTERN_MIDDLE \<Rightarrow> with_tok (substring p 1 (int (length p) - 1)) (contains subject))
      | _ \<Rightarrow> Inr False)"

section \<open>Positions, reversal, concatenation\<close>

definition indexOfStr :: "cstring \<Rightarrow> cstring \<Rightarrow> int" where
  "indexOfStr s tok = (case strstr s tok of Some i \<Rightarrow> int i | None \<Rightarrow> - 1)"

definition indexOf :: "cstring \<Rightarrow> byte \<Rightarrow> int" where
  "indexOf s c = (case strchr_from 0 s c of Some i \<Rightarrow> int i | None \<Rightarrow> - 1)"

text \<open>The loop writes \<^verbatim>\<open>rst[len - 1 - i] = str[i]\<close> into a zeroed buffer.\<close>

fun reverse_loop :: "nat \<Rightarrow> nat \<Rightarrow> cstring \<Rightarrow> byte list \<Rightarrow> byte list" where
  "reverse_loop len i [] rst = rst"
| "reverse_loop len i (c # cs) rst = reverse_loop len (Suc i) cs (rst[len - 1 - i := c])"

definition reverse_str :: "cstring \<Rightarrow> byte list" where
  "reverse_str s = reverse_loop (length s) 0 s (replicate (length s + 1) 0)"

text \<open>
  \<open>concat\<close> with its growing buffer: the state is the capacity and the bytes written so far. A copy
  that did not fit would be an error; \<open>concat_fits\<close> below shows there is none.
\<close>

fun concat_loop :: "nat \<Rightarrow> byte list \<Rightarrow> cstring list \<Rightarrow> c_error + (nat \<times> byte list)" where
  "concat_loop allocated written [] = Inr (allocated, written)"
| "concat_loop allocated written (s # ss) =
     (let len = length s;
          allocated' = (if length written + len + 1 > allocated then (allocated + len) * 2 else allocated)
      in if length written + len > allocated' then Inl Out_Of_Bounds
         else concat_loop allocated' (written @ s) ss)"

definition concat_str :: "cstring list \<Rightarrow> c_error + byte list" where
  "concat_str ss = ebind (concat_loop 100 [] ss) (\<lambda>(allocated, written).
     if length written + 1 > allocated then Inl Out_Of_Bounds else Inr (written @ [0]))"

section \<open>Laws\<close>

lemma strstr_from_spec:
  "strstr_from i s tok = (if \<exists>j \<le> length s. prefix tok (drop j s)
     then Some (i + (LEAST j. prefix tok (drop j s))) else None)"
proof (induction s arbitrary: i)
  case Nil
  show ?case by (auto simp: Least_eq_0)
next
  case (Cons c s)
  have here: "take (length tok) (c # s) = tok \<longleftrightarrow> prefix tok (c # s)"
    by (metis append_eq_conv_conj prefix_def)
  show ?case
  proof (cases "prefix tok (c # s)")
    case True
    then have "(LEAST j. prefix tok (drop j (c # s))) = 0"
      by (intro Least_eq_0) simp
    with True show ?thesis by (auto simp: here intro!: exI [of _ 0])
  next
    case False
    have ex: "(\<exists>j \<le> length (c # s). prefix tok (drop j (c # s))) \<longleftrightarrow> (\<exists>j \<le> length s. prefix tok (drop j s))"
      using False by (metis Suc_le_mono drop_0 drop_Suc_Cons length_Cons not0_implies_Suc)
    have "(LEAST j. prefix tok (drop j (c # s))) = Suc (LEAST j. prefix tok (drop j s))"
      if "prefix tok (drop j s)" for j
      using Least_Suc [of "\<lambda>j. prefix tok (drop j (c # s))" "Suc j"] that False by simp
    with False Cons ex show ?thesis by (auto simp: here)
  qed
qed

lemma startsWith_prefix: "startsWith s pre \<longleftrightarrow> prefix pre s"
proof
  assume "startsWith s pre"
  then obtain j where j: "prefix pre (drop j s)" "(LEAST j. prefix pre (drop j s)) = 0"
    by (auto simp: startsWith_def strstr_def strstr_from_spec split: if_splits)
  from LeastI [of "\<lambda>j. prefix pre (drop j s)", OF j(1)] j(2) show "prefix pre s" by simp
next
  assume p: "prefix pre s"
  then have "(LEAST j. prefix pre (drop j s)) = 0" by (intro Least_eq_0) simp
  with p show "startsWith s pre"
    by (auto simp: startsWith_def strstr_def strstr_from_spec intro!: exI [of _ 0])
qed

lemma endsWith_suffix: "endsWith s suf \<longleftrightarrow> suffix suf s"
  by (auto simp: endsWith_def suffix_def) (metis append_take_drop_id)

lemma contains_sublist: "contains s tok \<longleftrightarrow> sublist tok s"
proof -
  have "(\<exists>j \<le> length s. prefix tok (drop j s)) \<longleftrightarrow> sublist tok s"
  proof
    assume "\<exists>j \<le> length s. prefix tok (drop j s)"
    then obtain j r where "drop j s = tok @ r" by (auto simp: prefix_def)
    then have "s = take j s @ tok @ r" by (metis append_take_drop_id)
    then show "sublist tok s" unfolding sublist_def by blast
  next
    assume "sublist tok s"
    then obtain ps r where "s = ps @ tok @ r" unfolding sublist_def by blast
    then show "\<exists>j \<le> length s. prefix tok (drop j s)" by (intro exI [of _ "length ps"]) simp
  qed
  then show ?thesis by (simp add: contains_def strstr_def strstr_from_spec)
qed

lemma reverse_loop_spec:
  "i + length cs = len \<Longrightarrow> length rst = len + 1 \<Longrightarrow>
   reverse_loop len i cs rst = rev cs @ drop (length cs) rst"
proof (induction cs arbitrary: i rst)
  case (Cons c cs)
  have pos: "len - 1 - i = length cs" using Cons.prems by simp
  have "reverse_loop len (Suc i) cs (rst[length cs := c]) = rev cs @ drop (length cs) (rst[length cs := c])"
    using Cons by simp
  also have "drop (length cs) (rst[length cs := c]) = c # drop (Suc (length cs)) rst"
    using Cons.prems by (subst Cons_nth_drop_Suc [symmetric]) auto
  finally show ?case using pos by simp
qed simp

lemma concat_fits:
  "length written + 1 \<le> allocated \<Longrightarrow>
   \<exists>a. concat_loop allocated written ss = Inr (a, written @ concat ss) \<and> length (written @ concat ss) + 1 \<le> a"
proof (induction ss arbitrary: allocated written)
  case (Cons s ss)
  let ?a = "if length written + length s + 1 > allocated then (allocated + length s) * 2 else allocated"
  have "length (written @ s) + 1 \<le> ?a" using Cons.prems by auto
  from Cons.IH [OF this] Cons.prems show ?case by (auto simp: Let_def)
qed simp

section \<open>Properties\<close>

text \<open>The affix test accepts exactly the strings that start with, end with or contain the body,
  as the affix type says.\<close>

theorem affix_match_correct:
  "is_matching_given_affix s (create_affix_info b len t) \<longleftrightarrow>
     (case t of PATTERN_PREFIX \<Rightarrow> prefix b s | PATTERN_SUFFIX \<Rightarrow> suffix b s
      | PATTERN_MIDDLE \<Rightarrow> sublist b s | PATTERN_EXACT \<Rightarrow> False)"
  by (simp add: is_matching_given_affix_def create_affix_info_def startsWith_prefix endsWith_suffix
      contains_sublist split: pattern_type.splits)

text \<open>A pattern with a leading or trailing star is never matched: \<open>substring\<close> leaves no room for
  the terminator, so the token is read past its buffer. Only the exact comparison is defined.\<close>

theorem wildcard_patterns_read_past_token:
  assumes "no_nul p" and "determine_pattern_type p \<noteq> PATTERN_EXACT" and "2 \<le> length p"
  shows "simple_matches (Some s) (Some p) = Inl Out_Of_Bounds"
proof -
  have nul: "0 \<notin> set (take i (drop j p))" for i j
    using assms(1) by (auto simp: no_nul_def dest: in_set_takeD in_set_dropD)
  have "\<exists>buf. substring p 0 (int (length p) - 1) = Inr (Some buf) \<and> 0 \<notin> set buf"
    and "\<exists>buf. substring p 1 (int (length p) - 1) = Inr (Some buf) \<and> 0 \<notin> set buf"
    and "\<exists>buf. substring p 1 (- 1) = Inr (Some buf) \<and> 0 \<notin> set buf"
    using assms(3) nul [of _ 0] nul [of _ 1] nul [of "length p" 1]
    by (auto simp: substring_def Let_def nat_diff_distrib)
  then show ?thesis
    using assms(2)
    by (auto simp: simple_matches_def with_tok_def subrstr_def substr_def read_cstr_def
        split: pattern_type.splits)
qed

theorem wildcard_patterns_read_past_token_witness:
  "simple_matches (Some [97, 98]) (Some [97, 42]) = Inl Out_Of_Bounds"
  by (rule wildcard_patterns_read_past_token)
    (simp_all add: determine_pattern_type_def startsWith_prefix endsWith_suffix suffix_def)

text \<open>The reversed copy of a string is its reverse with a terminator.\<close>

theorem reverse_str_correct: "reverse_str s = rev s @ [0]"
  using reverse_loop_spec [of 0 s "length s" "replicate (length s + 1) 0"]
  by (simp add: reverse_str_def del: replicate_Suc) (simp add: replicate_Suc)

text \<open>Concatenation never writes outside its growing buffer and yields all its arguments, one
  after the other, with a terminator.\<close>

theorem concat_str_correct: "concat_str ss = Inr (concat ss @ [0])"
proof -
  obtain a where "concat_loop 100 [] ss = Inr (a, concat ss)" "length (concat ss) + 1 \<le> a"
    using concat_fits [of "[]" 100 ss] by auto
  then show ?thesis by (simp add: concat_str_def)
qed

end
