(* ===== verification/On_Disk_Index.thy ===== *)
theory On_Disk_Index
  imports Index_Types Bin_File_Ops String_Utils
begin

unbundle bit_operations_syntax

text \<open>
  The file formats of the index, src/src/index/on_disk_index.c: the append-only file of index
  records (AOF) with its reader and its on-disk search, and the writers and readers of the dump
  (MDB): path tables, file/object pair lists, value nodes, attribute nodes. A \<^verbatim>\<open>char*\<close> that was read is
  kept as the C string it points at, NULL as \<open>None\<close>.

  A traversal moves the cursor of the list it walks; the dump does not write that back, since no
  operation of the list depends on where the cursor stands.
\<close>

section \<open>Index records\<close>

datatype record_data = Null_Data | Int_Data c_int | Float_Data c_double | Str_Data cstring

record index_record =
  ir_type :: miqs_attr_type
  ir_name :: "cstring option"
  ir_data :: record_data
  ir_file_path :: "cstring option"
  ir_object_path :: "cstring option"

definition create_index_record ::
  "miqs_attr_type \<Rightarrow> cstring option \<Rightarrow> record_data \<Rightarrow> cstring option \<Rightarrow> cstring option \<Rightarrow> index_record" where
  "create_index_record t name data fp op =
     \<lparr>ir_type = t, ir_name = name, ir_data = data, ir_file_path = fp, ir_object_path = op\<rparr>"

text \<open>\<^verbatim>\<open>miqs_append_string(p, stream)\<close> takes the length of \<open>p\<close>, so NULL is dereferenced.\<close>

definition append_str :: "cstring option \<Rightarrow> stream \<Rightarrow> c_error + stream" where
  "append_str p s = ebind (deref p) (\<lambda>x. Inr (miqs_append_string x s))"

definition append_data :: "miqs_attr_type \<Rightarrow> record_data \<Rightarrow> stream \<Rightarrow> c_error + stream" where
  "append_data t data s =
     (case t of
        MIQS_AT_INTEGER \<Rightarrow>
          (case data of Int_Data i \<Rightarrow> Inr (miqs_append_int i s) | Null_Data \<Rightarrow> Inl Null_Deref | _ \<Rightarrow> Inl Bad_Pointer)
      | MIQS_AT_FLOAT \<Rightarrow>
          (case data of Float_Data d \<Rightarrow> Inr (miqs_append_double d s) | Null_Data \<Rightarrow> Inl Null_Deref | _ \<Rightarrow> Inl Bad_Pointer)
      | MIQS_AT_STRING \<Rightarrow>
          (case data of Str_Data x \<Rightarrow> Inr (miqs_append_string x s) | Null_Data \<Rightarrow> Inl Null_Deref | _ \<Rightarrow> Inl Bad_Pointer)
      | MIQS_AT_UNKNOWN \<Rightarrow> Inr s)"

definition append_index_record :: "index_record option \<Rightarrow> stream \<Rightarrow> c_error + stream" where
  "append_index_record ir s =
     (case ir of
        None \<Rightarrow> Inr s
      | Some r \<Rightarrow>
          ebind (append_str (ir_name r) (miqs_append_type (type_code (ir_type r)) s)) (\<lambda>s1.
          ebind (append_data (ir_type r) (ir_data r) s1) (\<lambda>s2.
          ebind (append_str (ir_file_path r) s2) (\<lambda>s3.
            append_str (ir_object_path r) s3))))"

definition read_str :: "stream \<Rightarrow> cstring option \<times> stream" where
  "read_str s = (let (b, s') = miqs_read_string s in (map_option cstr b, s'))"

definition read_data :: "miqs_attr_type \<Rightarrow> stream \<Rightarrow> record_data \<times> stream" where
  "read_data t s =
     (case t of
        MIQS_AT_INTEGER \<Rightarrow> (let (i, s') = miqs_read_int s in (case i of None \<Rightarrow> Null_Data | Some x \<Rightarrow> Int_Data x, s'))
      | MIQS_AT_FLOAT \<Rightarrow> (let (d, s') = miqs_read_double s in (case d of None \<Rightarrow> Null_Data | Some x \<Rightarrow> Float_Data x, s'))
      | MIQS_AT_STRING \<Rightarrow> (let (x, s') = read_str s in (case x of None \<Rightarrow> Null_Data | Some y \<Rightarrow> Str_Data y, s'))
      | MIQS_AT_UNKNOWN \<Rightarrow> (Null_Data, s))"

definition read_index_record :: "stream \<Rightarrow> index_record option \<times> stream" where
  "read_index_record s =
     (case miqs_read_int s of
        (None, s1) \<Rightarrow> (None, s1)
      | (Some i, s1) \<Rightarrow>
          let t = get_miqs_type_from_int i;
              (name, s2) = read_str s1;
              (data, s3) = read_data t s2;
              (fp, s4) = read_str s3;
              (op, s5) = read_str s4
          in (Some (create_index_record t name data fp op), s5))"

section \<open>Searching the record file\<close>

text \<open>The comparison callbacks, on what \<^verbatim>\<open>data\<close> points at.\<close>

definition int_equals :: "c_int \<Rightarrow> record_data \<Rightarrow> c_error + bool" where
  "int_equals criterion data =
     (case data of Int_Data i \<Rightarrow> Inr (i = criterion) | Null_Data \<Rightarrow> Inl Null_Deref | _ \<Rightarrow> Inl Bad_Pointer)"

definition double_equals :: "c_double \<Rightarrow> record_data \<Rightarrow> c_error + bool" where
  "double_equals criterion data =
     (case data of
        Float_Data d \<Rightarrow>
          Inr (case (dbl_val d, dbl_val criterion) of
                 (NaN, _) \<Rightarrow> False | (_, NaN) \<Rightarrow> False | (x, y) \<Rightarrow> x = y)
      | Null_Data \<Rightarrow> Inl Null_Deref | _ \<Rightarrow> Inl Bad_Pointer)"

definition string_equals :: "cstring \<Rightarrow> record_data \<Rightarrow> c_error + bool" where
  "string_equals criterion data =
     (case data of Str_Data x \<Rightarrow> Inr (x = criterion) | Null_Data \<Rightarrow> Inl Null_Deref | _ \<Rightarrow> Inl Bad_Pointer)"

text \<open>
  For a record of unknown type \<^verbatim>\<open>data\<close> is not set when it is compared. \<open>find_loop\<close> returns the matches, the
  capacity of the result array and whether it was enlarged. The capacity is an
  \<^verbatim>\<open>int\<close> that is doubled when the array is full; here it is a natural number, so the model is of searches with at most \<open>2 ^ 30\<close> matches.
\<close>

definition find_data :: "miqs_attr_type \<Rightarrow> stream \<Rightarrow> c_error + (record_data \<times> stream)" where
  "find_data t s = (if t = MIQS_AT_UNKNOWN then Inl Bad_Pointer else Inr (read_data t s))"

definition skip_fields :: "nat \<Rightarrow> stream \<Rightarrow> stream" where
  "skip_fields n s = ((\<lambda>s. snd (miqs_skip_field s)) ^^ n) s"

lemma read_data_progress: "length (frest (snd (read_data t s))) \<le> length (frest s)"
  using read_progress [of s]
  by (cases t) (auto simp: read_data_def read_str_def case_prod_unfold Let_def)

lemma read_str_progress: "length (frest (snd (read_str s))) \<le> length (frest s)"
  using read_progress(3) [of s] by (auto simp: read_str_def case_prod_unfold Let_def)

lemma skip_fields_progress: "length (frest (skip_fields n s)) \<le> length (frest s)"
proof (induction n arbitrary: s)
  case (Suc n)
  from Suc [of s] skip_progress [of "skip_fields n s"] show ?case by (simp add: skip_fields_def)
qed (simp add: skip_fields_def)

lemma find_step_progress:
  assumes "miqs_read_int s = (Some i, s1)" and "read_str s1 = (nm, s2)"
  shows "length (frest (skip_fields n s2)) < length (frest s)"
    and "find_data t s2 = Inr (d, s3) \<Longrightarrow> length (frest (skip_fields n s3)) < length (frest s)"
    and "find_data t s2 = Inr (d, s3) \<Longrightarrow> read_str s3 = (fp, s4) \<Longrightarrow> read_str s4 = (op, s5) \<Longrightarrow>
      length (frest s5) < length (frest s)"
proof -
  have s2: "length (frest s2) < length (frest s)"
    using read_int_decreases [OF assms(1)] read_str_progress [of s1] assms(2) by simp
  then show "length (frest (skip_fields n s2)) < length (frest s)"
    using skip_fields_progress [of n s2] by simp
  assume d: "find_data t s2 = Inr (d, s3)"
  then have s3: "length (frest s3) < length (frest s)"
    using read_data_progress [of t s2] s2 by (auto simp: find_data_def split: if_splits)
  then show "length (frest (skip_fields n s3)) < length (frest s)"
    using skip_fields_progress [of n s3] by simp
  assume "read_str s3 = (fp, s4)" "read_str s4 = (op, s5)"
  then show "length (frest s5) < length (frest s)"
    using read_str_progress [of s3] read_str_progress [of s4] s3 by simp
qed

function find_loop ::
  "cstring \<Rightarrow> (record_data \<Rightarrow> c_error + bool) \<Rightarrow> stream \<Rightarrow> nat \<Rightarrow> bool \<Rightarrow> index_record list \<Rightarrow>
   c_error + (index_record list \<times> nat \<times> bool \<times> stream)" where
  "find_loop name cmp s capacity grown acc =
     (case miqs_read_int s of
        (None, s1) \<Rightarrow> Inr (acc, capacity, grown, s1)
      | (Some i, s1) \<Rightarrow>
          (case read_str s1 of (nm, s2) \<Rightarrow>
           ebind (deref nm) (\<lambda>name_from_disk.
             if name_from_disk = name then
               (case find_data (get_miqs_type_from_int i) s2 of
                  Inl e \<Rightarrow> Inl e
                | Inr (data, s3) \<Rightarrow>
                    ebind (cmp data) (\<lambda>eq.
                      if eq then
                        (case read_str s3 of (fp, s4) \<Rightarrow>
                         (case read_str s4 of (op, s5) \<Rightarrow>
                           let full = (length acc = capacity);
                               new_record = create_index_record (get_miqs_type_from_int i) (Some name) data fp op
                           in find_loop name cmp s5 (if full then capacity * 2 else capacity) (grown \<or> full)
                                (acc @ [new_record])))
                      else find_loop name cmp (skip_fields 2 s3) capacity grown acc))
             else find_loop name cmp (skip_fields 3 s2) capacity grown acc)))"
  by pat_completeness auto
termination
  by (relation "measure (\<lambda>(name, cmp, s, capacity, grown, acc). length (frest s))")
    (simp_all only: in_measure wf_measure split_conv, (metis find_step_progress)+)

declare find_loop.simps [simp del]

text \<open>
  The unused slots of the result array are passed to \<^verbatim>\<open>free\<close>: zeroed slots of the first allocation
  are harmless, slots added by \<^verbatim>\<open>realloc\<close> were never set.
\<close>

definition find_index_record ::
  "cstring \<Rightarrow> (record_data \<Rightarrow> c_error + bool) \<Rightarrow> stream option \<Rightarrow> int option \<Rightarrow>
   c_error + (index_record list option \<times> int option \<times> stream option)" where
  "find_index_record name cmp stream out_len =
     (case (stream, out_len) of
        (Some s, Some n) \<Rightarrow>
          ebind (find_loop name cmp (rewind s) (if n \<le> 0 then 10 else nat n) False [])
            (\<lambda>(rst, capacity, grown, s').
              if grown \<and> length rst < capacity then Inl Bad_Pointer
              else Inr (Some rst, Some (int (length rst)), Some s'))
      | _ \<Rightarrow> Inr (None, out_len, stream))"

section \<open>Records: laws\<close>

definition data_ok :: "miqs_attr_type \<Rightarrow> record_data \<Rightarrow> bool" where
  "data_ok t d =
     (case (t, d) of
        (MIQS_AT_INTEGER, Int_Data _) \<Rightarrow> True
      | (MIQS_AT_FLOAT, Float_Data _) \<Rightarrow> True
      | (MIQS_AT_STRING, Str_Data x) \<Rightarrow> str_ok x
      | (MIQS_AT_UNKNOWN, Null_Data) \<Rightarrow> True
      | _ \<Rightarrow> False)"

definition ptr_ok :: "cstring option \<Rightarrow> bool" where
  "ptr_ok p = (case p of None \<Rightarrow> False | Some x \<Rightarrow> str_ok x)"

definition record_ok :: "index_record \<Rightarrow> bool" where
  "record_ok r \<longleftrightarrow> ptr_ok (ir_name r) \<and> data_ok (ir_type r) (ir_data r) \<and>
     ptr_ok (ir_file_path r) \<and> ptr_ok (ir_object_path r)"

definition enc_data :: "record_data \<Rightarrow> byte list" where
  "enc_data d =
     (case d of Null_Data \<Rightarrow> [] | Int_Data i \<Rightarrow> enc_int i | Float_Data x \<Rightarrow> enc_double x | Str_Data x \<Rightarrow> enc_string x)"

definition enc_record :: "index_record \<Rightarrow> byte list" where
  "enc_record r = enc_int (type_code (ir_type r)) @ enc_string (the (ir_name r)) @ enc_data (ir_data r) @
     enc_string (the (ir_file_path r)) @ enc_string (the (ir_object_path r))"

lemma append_str_enc: "ptr_ok p \<Longrightarrow> append_str p s = Inr (fwrite (enc_string (the p)) s)"
  by (auto simp: ptr_ok_def append_str_def append_string_enc split: option.splits)

lemma append_data_enc:
  "data_ok t d \<Longrightarrow> foffset s \<le> length (fcontents s) \<Longrightarrow> append_data t d s = Inr (fwrite (enc_data d) s)"
  by (cases t; cases d) (auto simp: data_ok_def append_data_def enc_data_def enc_simps append_string_enc stream_simps)

lemma read_str_enc:
  assumes "ptr_ok p" and "frest s = enc_string (the p) @ r"
  shows "read_str s = (p, sadvance (length (enc_string (the p))) s)"
  using assms string_codec.rd_enc [of "the p" s r]
  by (auto simp: ptr_ok_def read_str_def str_ok_def cstr_no_nul split: option.splits)

lemma read_data_enc:
  assumes "data_ok t d" and "frest s = enc_data d @ r"
  shows "read_data t s = (d, sadvance (length (enc_data d)) s)"
proof (cases d)
  case Null_Data
  with assms show ?thesis
    by (auto simp: data_ok_def read_data_def enc_data_def sadvance_def split: miqs_attr_type.splits)
next
  case (Int_Data i)
  with assms int_codec.rd_enc [OF TrueI, of s i r] show ?thesis
    by (auto simp: data_ok_def read_data_def enc_data_def split: miqs_attr_type.splits)
next
  case (Float_Data x)
  with assms double_codec.rd_enc [OF TrueI, of s x r] show ?thesis
    by (auto simp: data_ok_def read_data_def enc_data_def split: miqs_attr_type.splits)
next
  case (Str_Data x)
  with assms have "ptr_ok (Some x)" "frest s = enc_string (the (Some x)) @ r"
    by (auto simp: data_ok_def enc_data_def ptr_ok_def split: miqs_attr_type.splits)
  from read_str_enc [OF this] Str_Data assms show ?thesis
    by (auto simp: data_ok_def read_data_def enc_data_def split: miqs_attr_type.splits)
qed

lemma append_index_record_enc:
  assumes "record_ok r"
  shows "append_index_record (Some r) s = Inr (fwrite (enc_record r) s)"
proof -
  have off: "foffset (fwrite bs s') \<le> length (fcontents (fwrite bs s'))" for bs s'
    by (auto simp: fwrite_def Let_def)
  show ?thesis
    using assms
    by (simp add: record_ok_def append_index_record_def append_str_enc append_data_enc [OF _ off] enc_simps
        stream_simps enc_record_def)
qed

lemma read_index_record_enc:
  assumes "record_ok r" and "frest s = enc_record r @ rest"
  shows "read_index_record s = (Some r, sadvance (length (enc_record r)) s)"
proof -
  let ?l1 = "length (enc_int (type_code (ir_type r)))" and ?l2 = "length (enc_string (the (ir_name r)))"
    and ?l3 = "length (enc_data (ir_data r))" and ?l4 = "length (enc_string (the (ir_file_path r)))"
  have ok: "ptr_ok (ir_name r)" "data_ok (ir_type r) (ir_data r)" "ptr_ok (ir_file_path r)" "ptr_ok (ir_object_path r)"
    using assms(1) by (auto simp: record_ok_def)
  have r1: "miqs_read_int s = (Some (type_code (ir_type r)), sadvance ?l1 s)"
    using assms(2) int_codec.rd_enc [OF TrueI] by (simp add: enc_record_def)
  have r2: "read_str (sadvance ?l1 s) = (ir_name r, sadvance (?l1 + ?l2) s)"
    using read_str_enc [OF ok(1)] assms(2) by (simp add: enc_record_def stream_simps)
  have r3: "read_data (ir_type r) (sadvance (?l1 + ?l2) s) = (ir_data r, sadvance (?l1 + ?l2 + ?l3) s)"
    using read_data_enc [OF ok(2)] assms(2) by (simp add: enc_record_def stream_simps)
  have r4: "read_str (sadvance (?l1 + ?l2 + ?l3) s) = (ir_file_path r, sadvance (?l1 + ?l2 + ?l3 + ?l4) s)"
    using read_str_enc [OF ok(3)] assms(2) by (simp add: enc_record_def stream_simps)
  have r5: "read_str (sadvance (?l1 + ?l2 + ?l3 + ?l4) s) = (ir_object_path r, sadvance (length (enc_record r)) s)"
    using read_str_enc [OF ok(4)] assms(2) by (simp add: enc_record_def stream_simps add.assoc)
  show ?thesis
    by (simp add: read_index_record_def r1 r2 r3 r4 r5 create_index_record_def)
qed

definition write_record :: "index_record \<Rightarrow> stream \<Rightarrow> stream" where
  "write_record r s = (case append_index_record (Some r) s of Inl _ \<Rightarrow> s | Inr s' \<Rightarrow> s')"

interpretation record_codec: codec write_record read_index_record enc_record record_ok "\<lambda>r. r"
  by unfold_locales (simp_all add: write_record_def append_index_record_enc read_index_record_enc)

text \<open>What the search does with one encoded record.\<close>

lemma skip_string: "ptr_ok p \<Longrightarrow> frest s = enc_string (the p) @ r \<Longrightarrow>
    snd (miqs_skip_field s) = sadvance (length (enc_string (the p))) s"
  using string_codec.skip_enc [of "the p" s r] by (auto simp: ptr_ok_def split: option.splits)

lemma skip_data: "data_ok t d \<Longrightarrow> t \<noteq> MIQS_AT_UNKNOWN \<Longrightarrow> frest s = enc_data d @ r \<Longrightarrow>
    snd (miqs_skip_field s) = sadvance (length (enc_data d)) s"
  using string_codec.skip_enc [of _ s r] int_codec.skip_enc [OF TrueI, of s _ r]
    double_codec.skip_enc [OF TrueI, of s _ r]
  by (cases t; cases d) (auto simp: data_ok_def enc_data_def)

definition rec_matches :: "cstring \<Rightarrow> (record_data \<Rightarrow> c_error + bool) \<Rightarrow> index_record \<Rightarrow> bool" where
  "rec_matches name cmp r \<longleftrightarrow> ir_name r = Some name \<and> cmp (ir_data r) = Inr True"

lemma find_loop_step:
  assumes ok: "record_ok r" and t: "ir_type r \<noteq> MIQS_AT_UNKNOWN"
    and cmp: "ir_name r = Some name \<longrightarrow> (\<exists>b. cmp (ir_data r) = Inr b)"
    and rest: "frest s = enc_record r @ rest" and room: "rec_matches name cmp r \<longrightarrow> length acc < capacity"
  shows "find_loop name cmp s capacity grown acc =
    find_loop name cmp (sadvance (length (enc_record r)) s) capacity grown
      (if rec_matches name cmp r then acc @ [r] else acc)"
proof -
  let ?l1 = "length (enc_int (type_code (ir_type r)))" and ?l2 = "length (enc_string (the (ir_name r)))"
    and ?l3 = "length (enc_data (ir_data r))" and ?l4 = "length (enc_string (the (ir_file_path r)))"
  let ?s2 = "sadvance (?l1 + ?l2) s" and ?s3 = "sadvance (?l1 + ?l2 + ?l3) s"
    and ?s4 = "sadvance (?l1 + ?l2 + ?l3 + ?l4) s" and ?s5 = "sadvance (length (enc_record r)) s"
  have k: "ptr_ok (ir_name r)" "data_ok (ir_type r) (ir_data r)" "ptr_ok (ir_file_path r)" "ptr_ok (ir_object_path r)"
    using ok by (auto simp: record_ok_def)
  note enc = rest [unfolded enc_record_def, simplified]
  have r1: "miqs_read_int s = (Some (type_code (ir_type r)), sadvance ?l1 s)"
    using enc int_codec.rd_enc [OF TrueI] by simp
  have r2: "read_str (sadvance ?l1 s) = (ir_name r, ?s2)"
    using read_str_enc [OF k(1)] enc by (simp add: stream_simps)
  have r3: "find_data (ir_type r) ?s2 = Inr (ir_data r, ?s3)"
    using read_data_enc [OF k(2)] enc t by (simp add: find_data_def stream_simps)
  have r4: "read_str ?s3 = (ir_file_path r, ?s4)"
    using read_str_enc [OF k(3)] enc by (simp add: stream_simps)
  have r5: "read_str ?s4 = (ir_object_path r, ?s5)"
    using read_str_enc [OF k(4)] enc by (simp add: stream_simps enc_record_def add.assoc)
  have k3: "snd (miqs_skip_field ?s2) = ?s3" and k4: "snd (miqs_skip_field ?s3) = ?s4"
    and k5: "snd (miqs_skip_field ?s4) = ?s5"
    using skip_data [OF k(2) t, of ?s2] skip_string [OF k(3), of ?s3] skip_string [OF k(4), of ?s4] enc
    by (simp_all add: stream_simps enc_record_def add.assoc)
  have s2: "skip_fields 2 ?s3 = ?s5" and s3: "skip_fields 3 ?s2 = ?s5"
    using k3 k4 k5 by (simp_all add: skip_fields_def numeral_2_eq_2 numeral_3_eq_3)
  obtain n where n: "ir_name r = Some n" using k(1) by (auto simp: ptr_ok_def split: option.splits)
  have rec: "create_index_record (ir_type r) (ir_name r) (ir_data r) (ir_file_path r) (ir_object_path r) = r"
    by (simp add: create_index_record_def)
  show ?thesis
  proof (cases "n = name")
    case False
    then show ?thesis
      using s3 by (subst find_loop.simps) (simp add: r1 r2 n rec_matches_def)
  next
    case True
    with cmp n obtain b where b: "cmp (ir_data r) = Inr b" by auto
    show ?thesis
      using True n b room rec r3 r4 r5 s2
      by (subst find_loop.simps, cases b) (simp_all add: r1 r2 rec_matches_def Let_def)
  qed
qed

lemma find_loop_records:
  assumes "\<forall>r \<in> set rs. record_ok r \<and> ir_type r \<noteq> MIQS_AT_UNKNOWN \<and>
      (ir_name r = Some name \<longrightarrow> (\<exists>b. cmp (ir_data r) = Inr b))"
    and "frest s = concat (map enc_record rs)" and "length acc + length (filter (rec_matches name cmp) rs) \<le> capacity"
  shows "\<exists>s'. find_loop name cmp s capacity grown acc =
    Inr (acc @ filter (rec_matches name cmp) rs, capacity, grown, s')"
  using assms
proof (induction rs arbitrary: s acc)
  case Nil
  then have "miqs_read_int s = (None, s)" by (simp add: read_eof)
  then show ?case by (subst find_loop.simps) simp
next
  case (Cons r rs)
  let ?acc = "if rec_matches name cmp r then acc @ [r] else acc"
  have "find_loop name cmp s capacity grown acc =
      find_loop name cmp (sadvance (length (enc_record r)) s) capacity grown ?acc"
    using Cons.prems by (intro find_loop_step [where rest = "concat (map enc_record rs)"]) auto
  moreover have "\<exists>s'. find_loop name cmp (sadvance (length (enc_record r)) s) capacity grown ?acc =
      Inr (?acc @ filter (rec_matches name cmp) rs, capacity, grown, s')"
    using Cons.prems by (intro Cons.IH) (auto simp: stream_simps)
  ultimately show ?case by auto
qed

section \<open>Writing the dump\<close>

text \<open>
  The callbacks thread the stream, or the error that ended the writing, as their user state.
\<close>

definition append_file_obj_pair :: "file_obj_pair option \<Rightarrow> nat \<Rightarrow> c_error + stream \<Rightarrow> int \<times> (c_error + stream)" where
  "append_file_obj_pair item idx st =
     (1, ebind st (\<lambda>s. ebind (deref item) (\<lambda>pair.
           Inr (miqs_append_size_t (obj_list_pos pair) (miqs_append_size_t (file_list_pos pair) s)))))"

definition append_file_obj_pair_linked_list :: "file_obj_pair linked_list \<Rightarrow> stream \<Rightarrow> c_error + stream" where
  "append_file_obj_pair_linked_list l s =
     (let list_len = of_nat (list_count l)
      in snd (snd (list_foreach_value append_file_obj_pair l (Inr (miqs_append_size_t list_len s)))))"

definition append_leaf_pairs :: "'a index_heap_scheme \<Rightarrow> nat \<Rightarrow> stream \<Rightarrow> c_error + stream" where
  "append_leaf_pairs H a s =
     ebind (get_value_leaf a H) (\<lambda>leaf_cnt.
     ebind (deref (file_obj_pair_list leaf_cnt)) (\<lambda>l. append_file_obj_pair_linked_list l s))"

definition append_string_value_node ::
  "'a index_heap_scheme \<Rightarrow> c_error + stream \<Rightarrow> cstring \<Rightarrow> nat \<Rightarrow> int \<times> (c_error + stream)" where
  "append_string_value_node H st key value =
     (0, ebind st (\<lambda>s. append_leaf_pairs H value (miqs_append_string_with_len key (of_nat (length key)) s)))"

definition append_int_value_node ::
  "'a index_heap_scheme \<Rightarrow> (byte list, nat, c_error + stream) rbt_walk_callback" where
  "append_int_value_node H key value st =
     (RBT_WALK_CONTINUE, ebind st (\<lambda>s. append_leaf_pairs H value (miqs_append_int (int_of_bytes key) s)))"

definition append_float_value_node ::
  "'a index_heap_scheme \<Rightarrow> (byte list, nat, c_error + stream) rbt_walk_callback" where
  "append_float_value_node H key value st =
     (RBT_WALK_CONTINUE, ebind st (\<lambda>s. append_leaf_pairs H value (miqs_append_double (u64_of_bytes key) s)))"

definition rbt_size_cb :: "(byte list, nat, uint64) rbt_walk_callback" where
  "rbt_size_cb key value n = (RBT_WALK_CONTINUE, n + 1)"

definition append_string_value_tree ::
  "'a index_heap_scheme \<Rightarrow> nat art_tree \<Rightarrow> stream \<Rightarrow> c_error + (uint64 \<times> stream)" where
  "append_string_value_tree H t s =
     (let num_str_value = art_iter_size t;
          s2 = miqs_append_uint64 num_str_value (miqs_append_type 3 s);
          (rst, st) = art_iter t (append_string_value_node H) (Inr s2)
      in ebind st (\<lambda>s3. Inr (if rst = 0 then num_str_value else 0, s3)))"

definition append_numeric_value_tree ::
  "'a index_heap_scheme \<Rightarrow> (byte list, nat) rbt option \<Rightarrow> c_int \<Rightarrow> stream \<Rightarrow> c_error + (int \<times> stream)" where
  "append_numeric_value_tree H rbt_p is_fl s =
     (let type = (if is_fl = 0 then 1 else if is_fl = 1 then 2 else 1);
          s1 = miqs_append_type type s
      in ebind (deref rbt_p) (\<lambda>t.
           let s2 = miqs_append_uint64 (snd (rbt_walk t rbt_size_cb 0)) s1;
               (rst, st) = (if is_fl \<noteq> 0 then rbt_walk t (append_float_value_node H) (Inr s2)
                            else rbt_walk t (append_int_value_node H) (Inr s2))
           in ebind st (\<lambda>s3. Inr (rst, s3))))"

definition append_attr_name_node ::
  "'a index_heap_scheme \<Rightarrow> c_error + stream \<Rightarrow> cstring \<Rightarrow> nat \<Rightarrow> int \<times> (c_error + stream)" where
  "append_attr_name_node H st key value =
     (0, ebind st (\<lambda>s.
           let s1 = miqs_append_string_with_len key (of_nat (length key)) s
           in ebind (get_attr_leaf value H) (\<lambda>attr_val_node.
                if is_numeric attr_val_node \<noteq> 0
                then ebind (append_numeric_value_tree H (leaf_rbt attr_val_node) (is_float attr_val_node) s1)
                       (\<lambda>r. Inr (snd r))
                else ebind (deref (leaf_art attr_val_node)) (\<lambda>t.
                       ebind (append_string_value_tree H t s1) (\<lambda>r. Inr (snd r))))))"

definition append_attr_root_tree ::
  "'a index_heap_scheme \<Rightarrow> nat art_tree \<Rightarrow> stream \<Rightarrow> c_error + (int \<times> stream)" where
  "append_attr_root_tree H t s =
     (let s1 = miqs_append_uint64 (art_iter_size t) s;
          (rst, st) = art_iter t (append_attr_name_node H) (Inr s1)
      in ebind st (\<lambda>s2. Inr (rst, s2)))"

text \<open>A path is a tagged value whose tag is the path and whose value is a \<^verbatim>\<open>size_t\<close>.\<close>

definition append_path :: "tagged_value option \<Rightarrow> nat \<Rightarrow> c_error + stream \<Rightarrow> int \<times> (c_error + stream)" where
  "append_path item idx st =
     (1, ebind st (\<lambda>s.
           ebind (deref item) (\<lambda>tagv.
           ebind (append_str (tv_tag tagv) s) (\<lambda>s1.
           ebind (deref (tv_value tagv)) (\<lambda>v.
             Inr (miqs_append_size_t (u64_of_bytes v) s1))))))"

definition append_path_list :: "tagged_value linked_list \<Rightarrow> stream \<Rightarrow> c_error + (nat \<times> stream)" where
  "append_path_list l s =
     (let (n, l', st) = list_foreach_value append_path l (Inr (miqs_append_size_t (of_nat (list_count l)) s))
      in ebind st (\<lambda>s'. Inr (n, s')))"

section \<open>Reading the dump\<close>

text \<open>The loops run as often as the count read from the file says.\<close>

fun read_path_loop ::
  "nat \<Rightarrow> int \<Rightarrow> tagged_value linked_list \<Rightarrow> stream \<Rightarrow> c_error + (int \<times> tagged_value linked_list \<times> stream)" where
  "read_path_loop 0 rst l s = Inr (rst, l, s)"
| "read_path_loop (Suc n) rst l s =
     (let (tag, s1) = read_str s;
          (pos, s2) = miqs_read_size_t s1;
          tagv = list_create_tagged_value tag (map_option bytes8 pos) 8
      in ebind (deref pos) (\<lambda>p.
         ebind (list_insert_tagged_value (Some tagv) (unat p) l) (\<lambda>(rc, l').
           read_path_loop n (rst OR rc) l' s2)))"

definition read_into_path_list ::
  "tagged_value linked_list \<Rightarrow> stream \<Rightarrow> c_error + (bool \<times> tagged_value linked_list \<times> stream)" where
  "read_into_path_list l s =
     (let (list_len, s1) = miqs_read_size_t s
      in ebind (deref list_len) (\<lambda>n.
         ebind (read_path_loop (unat n) 0 l s1) (\<lambda>(rst, l', s2). Inr (rst = 0, l', s2))))"

text \<open>The pair is zeroed before its two positions are set, so \<open>parallel_index_pos\<close> is 0.\<close>

definition read_into_file_obj_list ::
  "file_obj_pair linked_list option \<Rightarrow> stream \<Rightarrow> c_error + (int \<times> file_obj_pair linked_list option \<times> stream)" where
  "read_into_file_obj_list lp s =
     (let (file_pos, s1) = miqs_read_size_t s;
          (obj_pos, s2) = miqs_read_size_t s1
      in case lp of
           None \<Rightarrow> Inr (0, None, s2)
         | Some l \<Rightarrow>
             ebind (deref file_pos) (\<lambda>fp. ebind (deref obj_pos) (\<lambda>op.
               let (rc, l') = list_push_value
                     (Some \<lparr>parallel_index_pos = 0, file_list_pos = fp, obj_list_pos = op\<rparr>) l
               in Inr (rc, Some l', s2))))"

fun read_pairs_loop ::
  "nat \<Rightarrow> int \<Rightarrow> file_obj_pair linked_list option \<Rightarrow> stream \<Rightarrow>
   c_error + (int \<times> file_obj_pair linked_list option \<times> stream)" where
  "read_pairs_loop 0 rst lp s = Inr (rst, lp, s)"
| "read_pairs_loop (Suc n) rst lp s =
     ebind (read_into_file_obj_list lp s) (\<lambda>(rc, lp', s'). read_pairs_loop n (rst OR rc) lp' s')"

definition read_file_obj_path_pair_list ::
  "nat option \<Rightarrow> 'a index_heap_scheme \<Rightarrow> stream \<Rightarrow> c_error + (int \<times> 'a index_heap_scheme \<times> stream)" where
  "read_file_obj_path_pair_list vtree_leaf H s =
     (let (list_len, s1) = miqs_read_size_t s
      in ebind (deref list_len) (\<lambda>n.
           case vtree_leaf of
             None \<Rightarrow> ebind (read_pairs_loop (unat n) 0 None s1) (\<lambda>(rst, lp, s2). Inr (rst, H, s2))
           | Some a \<Rightarrow>
               ebind (read_pairs_loop (unat n) 0 (Some list_create) s1) (\<lambda>(rst, lp, s2).
                 Inr (rst, set_value_leaf a \<lparr>file_obj_pair_list = lp\<rparr> H, s2))))"

text \<open>\<open>rbt_add\<close> and \<open>art_insert\<close> through the pointer an attribute leaf holds.\<close>

definition leaf_rbt_add ::
  "nat \<Rightarrow> byte list \<Rightarrow> nat \<Rightarrow> 'a index_heap_scheme \<Rightarrow> c_error + (int \<times> 'a index_heap_scheme)" where
  "leaf_rbt_add a key v H =
     ebind (get_attr_leaf a H) (\<lambda>leaf.
     ebind (deref (leaf_rbt leaf)) (\<lambda>t.
       case rbt_add t key v of
         None \<Rightarrow> Inl No_Return
       | Some (rc, t') \<Rightarrow> Inr (rc, set_attr_leaf a (leaf\<lparr>leaf_rbt := Some t'\<rparr>) H)))"

definition leaf_art_insert ::
  "nat \<Rightarrow> cstring \<Rightarrow> nat \<Rightarrow> 'a index_heap_scheme \<Rightarrow> c_error + 'a index_heap_scheme" where
  "leaf_art_insert a key v H =
     ebind (get_attr_leaf a H) (\<lambda>leaf.
     ebind (deref (leaf_art leaf)) (\<lambda>t.
     ebind (art_insert t key v) (\<lambda>(t', _). Inr (set_attr_leaf a (leaf\<lparr>leaf_art := Some t'\<rparr>) H))))"

definition read_attr_value_node ::
  "nat \<Rightarrow> miqs_attr_type \<Rightarrow> 'a index_heap_scheme \<Rightarrow> stream \<Rightarrow> c_error + (int \<times> 'a index_heap_scheme \<times> stream)" where
  "read_attr_value_node attr_val_node t H0 s0 =
     (let (val_leaf, H1) = new_value_leaf H0;
          (data, s1) = read_data t s0
      in ebind (case data of
                  Str_Data x \<Rightarrow> ebind (leaf_art_insert attr_val_node x val_leaf H1) (\<lambda>H2. Inr (0, H2))
                | Float_Data d \<Rightarrow> leaf_rbt_add attr_val_node (bytes8 d) val_leaf H1
                | Int_Data i \<Rightarrow> leaf_rbt_add attr_val_node (bytes4 i) val_leaf H1
                | Null_Data \<Rightarrow> Inr (0, H1)) (\<lambda>(rst, H2).
         let (H3, target) = (if data \<noteq> Null_Data
                             then (H2\<lparr>num_kv_pairs_loaded_mdb := num_kv_pairs_loaded_mdb H2 + 1\<rparr>, Some val_leaf)
                             else (H2, None))
         in ebind (read_file_obj_path_pair_list target H3 s1) (\<lambda>(rc, H4, s2). Inr (rst OR rc, H4, s2))))"

fun read_values_loop ::
  "nat \<Rightarrow> int \<Rightarrow> nat \<Rightarrow> miqs_attr_type \<Rightarrow> 'a index_heap_scheme \<Rightarrow> stream \<Rightarrow>
   c_error + (int \<times> 'a index_heap_scheme \<times> stream)" where
  "read_values_loop 0 rst a t H s = Inr (rst, H, s)"
| "read_values_loop (Suc n) rst a t H s =
     ebind (read_attr_value_node a t H s) (\<lambda>(rc, H', s'). read_values_loop n (rst OR rc) a t H' s')"

definition read_attr_values ::
  "nat \<Rightarrow> 'a index_heap_scheme \<Rightarrow> stream \<Rightarrow> c_error + (int \<times> 'a index_heap_scheme \<times> stream)" where
  "read_attr_values a H s =
     (let (tv, s1) = miqs_read_int s
      in ebind (deref tv) (\<lambda>ti.
         let t = get_miqs_type_from_int ti
         in ebind (get_attr_leaf a H) (\<lambda>leaf.
            let leaf' =
                  (case t of
                     MIQS_AT_STRING \<Rightarrow> leaf\<lparr>is_numeric := 0, is_float := 0, leaf_art := Some art_tree_init\<rparr>
                   | MIQS_AT_INTEGER \<Rightarrow>
                       leaf\<lparr>is_numeric := 1, is_float := 0, leaf_rbt := Some (rbt_create libhl_cmp_keys_int)\<rparr>
                   | MIQS_AT_FLOAT \<Rightarrow>
                       leaf\<lparr>is_numeric := 1, is_float := 1, leaf_rbt := Some (rbt_create libhl_cmp_keys_double)\<rparr>
                   | MIQS_AT_UNKNOWN \<Rightarrow> leaf\<lparr>is_numeric := 1\<rparr>);
                H1 = set_attr_leaf a leaf' H;
                (num_values, s2) = miqs_read_uint64 s1
            in ebind (deref num_values) (\<lambda>n. read_values_loop (unat n) 0 a t H1 s2))))"

definition read_attr_name_node ::
  "nat art_tree list \<Rightarrow> c_int \<Rightarrow> 'a index_heap_scheme \<Rightarrow> stream \<Rightarrow>
   c_error + (int \<times> nat art_tree list \<times> 'a index_heap_scheme \<times> stream)" where
  "read_attr_name_node art_arr p H s =
     (let (name_p, s1) = read_str s
      in ebind (deref name_p) (\<lambda>name.
         ebind (hash_slot name p) (\<lambda>i.
         let (a, H1) = new_attr_leaf H
         in ebind (nth_chk art_arr i) (\<lambda>t.
            ebind (art_insert t name a) (\<lambda>(t', _).
            ebind (read_attr_values a H1 s1) (\<lambda>(rst, H2, s2).
              Inr (rst, art_arr[i := t'], H2, s2)))))))"

fun read_names_loop ::
  "nat \<Rightarrow> int \<Rightarrow> nat art_tree list \<Rightarrow> c_int \<Rightarrow> 'a index_heap_scheme \<Rightarrow> stream \<Rightarrow>
   c_error + (int \<times> nat art_tree list \<times> 'a index_heap_scheme \<times> stream)" where
  "read_names_loop 0 rst arts p H s = Inr (rst, arts, H, s)"
| "read_names_loop (Suc n) rst arts p H s =
     ebind (read_attr_name_node arts p H s) (\<lambda>(rc, arts', H', s'). read_names_loop n (rst OR rc) arts' p H' s')"

text \<open>
  The counter of loaded attributes is set to the pointer \<^verbatim>\<open>num_attrs\<close>, not to the number it points
  at; \<open>ptr\<close> is that address.
\<close>

definition read_into_attr_root_tree ::
  "size_t \<Rightarrow> nat art_tree list \<Rightarrow> c_int \<Rightarrow> 'a index_heap_scheme \<Rightarrow> stream \<Rightarrow>
   c_error + (bool \<times> nat art_tree list \<times> 'a index_heap_scheme \<times> stream)" where
  "read_into_attr_root_tree ptr art_arr p H s =
     (let (num_attrs, s1) = miqs_read_uint64 s;
          H1 = H\<lparr>num_kv_pairs_loaded_mdb := 0, num_attrs_loaded_mdb := ptr\<rparr>
      in ebind (deref num_attrs) (\<lambda>n.
         ebind (read_names_loop (unat n) 0 art_arr p H1 s1) (\<lambda>(rst, arts, H2, s2).
           Inr (rst = 0, arts, H2, s2))))"

section \<open>Directory filters\<close>

record dirent =
  d_name :: cstring
  d_is_dir :: bool

definition is_mdb :: "dirent \<Rightarrow> bool" where
  "is_mdb entry =
     (if d_name entry = str ''.'' \<or> d_name entry = str ''..'' then False
      else if d_is_dir entry then True
      else if endsWith (d_name entry) (str ''.mdb'') then True
      else False)"

definition is_aof :: "dirent \<Rightarrow> bool" where
  "is_aof entry =
     (if d_name entry = str ''.'' \<or> d_name entry = str ''..'' then False
      else if d_is_dir entry then True
      else if endsWith (d_name entry) (str ''.aof'') then True
      else False)"

definition get_num_kv_pairs_loaded_mdb :: "'a index_heap_scheme \<Rightarrow> size_t" where
  "get_num_kv_pairs_loaded_mdb H = num_kv_pairs_loaded_mdb H"

definition get_num_attrs_loaded_mdb :: "'a index_heap_scheme \<Rightarrow> size_t" where
  "get_num_attrs_loaded_mdb H = num_attrs_loaded_mdb H"

section \<open>Pair lists: laws\<close>

definition enc_pair :: "file_obj_pair \<Rightarrow> byte list" where
  "enc_pair p = enc_size_t (file_list_pos p) @ enc_size_t (obj_list_pos p)"

definition enc_pairs :: "file_obj_pair list \<Rightarrow> byte list" where
  "enc_pairs ps = enc_size_t (of_nat (length ps)) @ concat (map enc_pair ps)"

text \<open>The list holds exactly these pairs; there are less than \<open>2 ^ 64\<close>.\<close>

definition pair_list :: "file_obj_pair linked_list \<Rightarrow> file_obj_pair list \<Rightarrow> bool" where
  "pair_list l ps \<longleftrightarrow> list_inv l \<and> list_values l = map Some ps \<and> length ps < 2 ^ 64"

text \<open>What survives the disk: the tree number of a pair is not written.\<close>

definition disk_pair :: "file_obj_pair \<Rightarrow> file_obj_pair" where
  "disk_pair p = p\<lparr>parallel_index_pos := 0\<rparr>"

lemma foffset_le_fwrite [simp]:
  "foffset (fwrite bs s) \<le> length (fcontents (fwrite bs s))"
  "foffset s + length bs \<le> length (fcontents (fwrite bs s))"
  by (auto simp: fwrite_def Let_def)

lemma fold_append_pair:
  "foffset s \<le> length (fcontents s) \<Longrightarrow>
   fold_handler append_file_obj_pair i (map Some ps) (Inr s) = Inr (fwrite (concat (map enc_pair ps)) s)"
proof (induction ps arbitrary: i s)
  case (Cons p ps)
  have "snd (append_file_obj_pair (Some p) i (Inr s)) = Inr (fwrite (enc_pair p) s)"
    by (simp add: append_file_obj_pair_def enc_pair_def enc_simps stream_simps)
  with Cons.IH [of "fwrite (enc_pair p) s" "Suc i"] show ?case
    by (simp add: stream_simps)
qed (simp add: stream_simps)

lemma append_pairs_enc:
  assumes "pair_list l ps"
  shows "append_file_obj_pair_linked_list l s = Inr (fwrite (enc_pairs ps) s)"
proof -
  have l: "list_inv l" "list_values l = map Some ps" using assms by (auto simp: pair_list_def)
  have "continues append_file_obj_pair"
    by (simp add: continues_def append_file_obj_pair_def)
  from foreach_continues [OF l(1) this] obtain l' where
    "list_foreach_value append_file_obj_pair l (Inr (fwrite (enc_size_t (of_nat (length ps))) s)) =
       (length ps, l', fold_handler append_file_obj_pair 0 (map Some ps) (Inr (fwrite (enc_size_t (of_nat (length ps))) s)))"
    using l(2) by (metis length_map)
  then show ?thesis
    using list_count_values [OF l(1)] l(2)
    by (simp add: append_file_obj_pair_linked_list_def enc_simps fold_append_pair stream_simps enc_pairs_def)
qed

lemma read_pairs_loop_enc:
  assumes "list_inv l" and "frest s = concat (map enc_pair ps) @ r"
  shows "\<exists>l'. read_pairs_loop (length ps) 0 (Some l) s =
      Inr (0, Some l', sadvance (length (concat (map enc_pair ps))) s) \<and>
    list_inv l' \<and> list_values l' = list_values l @ map (Some \<circ> disk_pair) ps"
  using assms
proof (induction ps arbitrary: l s)
  case Nil
  then show ?case by (simp add: sadvance_def)
next
  case (Cons p ps)
  let ?q = "\<lparr>parallel_index_pos = 0, file_list_pos = file_list_pos p, obj_list_pos = obj_list_pos p\<rparr>"
  let ?l1 = "snd (list_push_value (Some ?q) l)" and ?s1 = "sadvance (length (enc_pair p)) s"
  have q: "?q = disk_pair p" by (simp add: disk_pair_def)
  have rest: "frest s = enc_size_t (file_list_pos p) @ enc_size_t (obj_list_pos p) @ concat (map enc_pair ps) @ r"
    using Cons.prems(2) by (simp add: enc_pair_def [of p])
  note f = size_t_codec.rd_enc [OF TrueI rest]
  have rest2: "frest (sadvance (length (enc_size_t (file_list_pos p))) s) =
      enc_size_t (obj_list_pos p) @ concat (map enc_pair ps) @ r"
    using rest by (simp add: stream_simps)
  note o = size_t_codec.rd_enc [OF TrueI rest2]
  have one: "read_into_file_obj_list (Some l) s = Inr (0, Some ?l1, ?s1)"
    using ll.push_fst [OF Cons.prems(1), of "Some ?q"]
    by (simp add: read_into_file_obj_list_def f o enc_pair_def case_prod_unfold stream_simps)
  have l1: "list_inv ?l1" "list_values ?l1 = list_values l @ [Some (disk_pair p)]"
    using ll.push_snd [OF Cons.prems(1), of "Some ?q"] by (simp_all add: q)
  have "frest ?s1 = concat (map enc_pair ps) @ r"
    using Cons.prems(2) by (simp add: stream_simps)
  from Cons.IH [OF l1(1) this] one l1(2) show ?case
    by (auto simp: stream_simps)
qed

lemma read_pair_list_enc:
  assumes "length ps < 2 ^ 64" and "frest s = enc_pairs ps @ r"
  shows "\<exists>l. read_file_obj_path_pair_list (Some a) H s =
      Inr (0, set_value_leaf a \<lparr>file_obj_pair_list = Some l\<rparr> H, sadvance (length (enc_pairs ps)) s) \<and>
    pair_list l (map disk_pair ps)"
proof -
  let ?n = "enc_size_t (of_nat (length ps))"
  have rest: "frest s = ?n @ concat (map enc_pair ps) @ r"
    using assms(2) by (simp add: enc_pairs_def)
  note n = size_t_codec.rd_enc [OF TrueI rest]
  have rest2: "frest (sadvance (length ?n) s) = concat (map enc_pair ps) @ r"
    using rest by (simp add: stream_simps)
  have u: "unat (of_nat (length ps) :: size_t) = length ps"
    using assms(1) by (rule unat_of_nat_length)
  from read_pairs_loop_enc [OF list_inv_create rest2] u show ?thesis
    using assms(1)
    by (auto simp: read_file_obj_path_pair_list_def n pair_list_def enc_pairs_def stream_simps)
qed

section \<open>Path tables: laws\<close>

text \<open>Entry \<open>i\<close> of a path table is tagged with the path and holds \<open>i\<close>.\<close>

definition path_entry :: "nat \<Rightarrow> cstring \<Rightarrow> tagged_value" where
  "path_entry i p = list_create_tagged_value (Some p) (Some (bytes8 (of_nat i))) 8"

definition path_entries :: "nat \<Rightarrow> cstring list \<Rightarrow> tagged_value list" where
  "path_entries i ps = map (\<lambda>(i, p). path_entry i p) (enumerate i ps)"

definition path_table :: "tagged_value linked_list \<Rightarrow> cstring list \<Rightarrow> bool" where
  "path_table l ps \<longleftrightarrow> list_inv l \<and> list_values l = map Some (path_entries 0 ps) \<and> length ps < 2 ^ 31 \<and>
     (\<forall>p \<in> set ps. str_ok p)"

definition enc_path :: "nat \<Rightarrow> cstring \<Rightarrow> byte list" where
  "enc_path i p = enc_string p @ enc_size_t (of_nat i)"

definition enc_path_table :: "cstring list \<Rightarrow> byte list" where
  "enc_path_table ps = enc_size_t (of_nat (length ps)) @ concat (map (\<lambda>(i, p). enc_path i p) (enumerate 0 ps))"

lemma u64_of_bytes8_nul [simp]: "u64_of_bytes (bytes8 w @ r) = w"
proof -
  have "u64_of_bytes (bytes8 w @ r) = u64_of_bytes (bytes8 w)"
    unfolding u64_of_bytes_def by simp
  then show ?thesis by simp
qed

lemma path_entry_fields [simp]:
  "tv_tag (path_entry i p) = Some p" "tv_value (path_entry i p) = Some (bytes8 (of_nat i) @ [0])"
  by (simp_all add: path_entry_def list_create_tagged_value_def)

lemma length_path_entries [simp]: "length (path_entries i ps) = length ps"
  by (simp add: path_entries_def)

lemma path_entries_simps [simp]:
  "path_entries i [] = []" "path_entries i (p # ps) = path_entry i p # path_entries (Suc i) ps"
  by (simp_all add: path_entries_def)

lemma path_entries_append: "path_entries i (ps @ qs) = path_entries i ps @ path_entries (i + length ps) qs"
  by (simp add: path_entries_def enumerate_append_eq)

lemma fold_append_path:
  "foffset s \<le> length (fcontents s) \<Longrightarrow> \<forall>p \<in> set ps. str_ok p \<Longrightarrow>
   fold_handler append_path j (map Some (path_entries i ps)) (Inr s) =
     Inr (fwrite (concat (map (\<lambda>(i, p). enc_path i p) (enumerate i ps))) s)"
proof (induction ps arbitrary: i j s)
  case (Cons p ps)
  have "snd (append_path (Some (path_entry i p)) j (Inr s)) = Inr (fwrite (enc_path i p) s)"
    using Cons.prems(2)
    by (simp add: append_path_def append_str_def append_string_enc enc_path_def enc_simps stream_simps)
  with Cons.IH [of "fwrite (enc_path i p) s" "Suc j" "Suc i"] Cons.prems(2) show ?case
    by (simp add: stream_simps)
qed (simp add: stream_simps)

lemma append_path_list_enc:
  assumes "path_table l ps"
  shows "append_path_list l s = Inr (length ps, fwrite (enc_path_table ps) s)"
proof -
  have l: "list_inv l" "list_values l = map Some (path_entries 0 ps)" "\<forall>p \<in> set ps. str_ok p"
    using assms by (auto simp: path_table_def)
  have "continues append_path"
    by (simp add: continues_def append_path_def)
  from foreach_continues [OF l(1) this] obtain l' where
    "list_foreach_value append_path l (Inr (fwrite (enc_size_t (of_nat (length ps))) s)) =
       (length ps, l', fold_handler append_path 0 (map Some (path_entries 0 ps))
          (Inr (fwrite (enc_size_t (of_nat (length ps))) s)))"
    using l(2) by (metis length_map length_path_entries)
  then show ?thesis
    using list_count_values [OF l(1)] l(2,3)
    by (simp add: append_path_list_def enc_simps fold_append_path stream_simps enc_path_table_def)
qed

text \<open>Appending the next path at its own position, as both the loader and the indexer do.\<close>

lemma insert_path_entry:
  assumes "path_table l ps" and "str_ok p" and "Suc (length ps) < 2 ^ 31"
  shows "\<exists>l'. list_insert_tagged_value (Some (path_entry (length ps) p)) (length ps) l = Inr (0, l') \<and>
    path_table l' (ps @ [p])"
proof -
  let ?e = "tagged_entry (path_entry (length ps) p)"
  have l: "list_inv l" "list_values l = map Some (path_entries 0 ps)"
    using assms(1) by (auto simp: path_table_def)
  obtain l' where l': "insert_entry (Some ?e) (length ps) l = Inr (0, l')" "list_inv l'"
    "list_values l' = insert_nth (length ps) (e_value ?e) (padded (length ps) (list_values l))"
    using insert_entry_total [OF l(1)] by blast
  have "list_values l' = list_values l @ [Some (path_entry (length ps) p)]"
    using l'(3) insert_nth_append [of "length ps" "list_values l"] l(2) by simp
  then have "path_table l' (ps @ [p])"
    using assms l l'(2) by (auto simp: path_table_def path_entries_append)
  with l'(1) show ?thesis by (simp add: list_insert_tagged_value_def)
qed

lemma read_path_loop_enc:
  assumes "path_table l ps" and "\<forall>p \<in> set qs. str_ok p" and "length ps + length qs < 2 ^ 31"
    and "frest s = concat (map (\<lambda>(i, p). enc_path i p) (enumerate (length ps) qs)) @ r"
  shows "\<exists>l'. read_path_loop (length qs) 0 l s =
      Inr (0, l', sadvance (length (concat (map (\<lambda>(i, p). enc_path i p) (enumerate (length ps) qs)))) s) \<and>
    path_table l' (ps @ qs)"
  using assms
proof (induction qs arbitrary: l s ps)
  case Nil
  then show ?case by (simp add: sadvance_def)
next
  case (Cons q qs)
  let ?rest = "concat (map (\<lambda>(i, p). enc_path i p) (enumerate (Suc (length ps)) qs)) @ r"
  have q: "ptr_ok (Some q)" "str_ok q" using Cons.prems(2) by (auto simp: ptr_ok_def)
  have rest: "frest s = enc_string (the (Some q)) @ enc_size_t (of_nat (length ps)) @ ?rest"
    using Cons.prems(4) by (simp add: enc_path_def [of "length ps" q])
  note r1 = read_str_enc [OF q(1) rest]
  have rest2: "frest (sadvance (length (enc_string q)) s) = enc_size_t (of_nat (length ps)) @ ?rest"
    using rest by (simp add: stream_simps)
  note r2 = size_t_codec.rd_enc [OF TrueI rest2]
  have u: "unat (of_nat (length ps) :: size_t) = length ps"
    using Cons.prems(3) by (intro unat_of_nat_length) simp
  have room: "Suc (length ps) < 2 ^ 31" using Cons.prems(3) by simp
  obtain l1 where l1: "list_insert_tagged_value (Some (path_entry (length ps) q)) (length ps) l = Inr (0, l1)"
    "path_table l1 (ps @ [q])"
    using insert_path_entry [OF Cons.prems(1) q(2) room] by blast
  let ?s1 = "sadvance (length (enc_path (length ps) q)) s"
  have step: "read_path_loop (length (q # qs)) 0 l s = read_path_loop (length qs) 0 l1 ?s1"
    using r1 r2 u l1(1) by (simp add: path_entry_def stream_simps enc_path_def)
  have "frest ?s1 = ?rest"
    using Cons.prems(4) by (simp add: stream_simps)
  with Cons.IH [OF l1(2), of ?s1] Cons.prems(2,3) step show ?case
    by (auto simp: stream_simps)
qed

lemma read_into_path_list_enc:
  assumes "path_table l []" and "\<forall>p \<in> set qs. str_ok p" and "length qs < 2 ^ 31"
    and "frest s = enc_path_table qs @ r"
  shows "\<exists>l'. read_into_path_list l s = Inr (True, l', sadvance (length (enc_path_table qs)) s) \<and> path_table l' qs"
proof -
  let ?n = "enc_size_t (of_nat (length qs))"
  have rest: "frest s = ?n @ concat (map (\<lambda>(i, p). enc_path i p) (enumerate 0 qs)) @ r"
    using assms(4) by (simp add: enc_path_table_def)
  note n = size_t_codec.rd_enc [OF TrueI rest]
  have rest2: "frest (sadvance (length ?n) s) = concat (map (\<lambda>(i, p). enc_path i p) (enumerate (length []) qs)) @ r"
    using rest by (simp add: stream_simps)
  have u: "unat (of_nat (length qs) :: size_t) = length qs"
    using assms(3) by (intro unat_of_nat_length) simp
  from read_path_loop_enc [OF assms(1,2) _ rest2] assms(3) u show ?thesis
    by (auto simp: read_into_path_list_def n enc_path_table_def stream_simps)
qed

lemma path_table_create: "path_table list_create []"
  by (simp add: path_table_def)

section \<open>Properties\<close>

text \<open>C29: an index record appended to any file is read back exactly as it was from the position it
  was written at, whatever was in the file before and is appended later, and the reader then stands
  right behind it.\<close>

theorem aof_record_roundtrip:
  assumes "record_ok r" and "foffset s = length (fcontents s)"
  shows "\<exists>s'. append_index_record (Some r) s = Inr s' \<and> foffset s' = length (fcontents s') \<and>
    (\<forall>later. read_index_record (sadvance (length (fcontents s)) (fopen_r (fcontents s' @ later))) =
      (Some r, sadvance (length (fcontents s')) (fopen_r (fcontents s' @ later))))"
proof -
  let ?s' = "fwrite (enc_record r) s"
  have c: "fcontents ?s' = fcontents s @ enc_record r"
    using assms(2) by (rule fcontents_fwrite_end)
  have "read_index_record (sadvance (length (fcontents s)) (fopen_r (fcontents ?s' @ later))) =
      (Some r, sadvance (length (fcontents ?s')) (fopen_r (fcontents ?s' @ later)))" for later
    using read_index_record_enc [OF assms(1), of "sadvance (length (fcontents s)) (fopen_r (fcontents ?s' @ later))" later]
    by (simp add: c stream_simps)
  then show ?thesis
    using assms c by (simp add: append_index_record_enc stream_simps)
qed

theorem aof_record_roundtrip_witness:
  "\<exists>s'. append_index_record (Some (create_index_record MIQS_AT_INTEGER (Some [97]) (Int_Data 5) (Some [102]) (Some [111]))) fopen_w = Inr s' \<and>
    fst (read_index_record (fopen_r (fcontents s'))) =
      Some (create_index_record MIQS_AT_INTEGER (Some [97]) (Int_Data 5) (Some [102]) (Some [111]))"
proof -
  let ?r = "create_index_record MIQS_AT_INTEGER (Some [97]) (Int_Data 5) (Some [102]) (Some [111])"
  have "record_ok ?r"
    by (simp add: record_ok_def create_index_record_def ptr_ok_def data_ok_def str_ok_def)
  from aof_record_roundtrip [OF this, of fopen_w] obtain s' where
    s': "append_index_record (Some ?r) fopen_w = Inr s'"
      "\<forall>later. read_index_record (sadvance 0 (fopen_r (fcontents s' @ later))) =
        (Some ?r, sadvance (length (fcontents s')) (fopen_r (fcontents s' @ later)))"
    by (auto simp: fopen_w_def)
  from s'(2) [rule_format, of "[]"] have "fst (read_index_record (fopen_r (fcontents s'))) = Some ?r"
    by (simp add: sadvance_def fopen_r_def)
  with s'(1) show ?thesis by blast
qed

text \<open>C30: the on-disk search over a file of well-formed records returns exactly the records with the
  name whose value the comparison accepts, in file order, and their number, as long as they fit the
  array it starts with.\<close>

theorem find_index_record_exact:
  assumes "\<forall>r \<in> set rs. record_ok r \<and> ir_type r \<noteq> MIQS_AT_UNKNOWN \<and>
      (ir_name r = Some name \<longrightarrow> (\<exists>b. cmp (ir_data r) = Inr b))"
    and "length (filter (rec_matches name cmp) rs) \<le> (if n \<le> 0 then 10 else nat n)"
  shows "\<exists>s'. find_index_record name cmp (Some (fopen_r (concat (map enc_record rs)))) (Some n) =
    Inr (Some (filter (rec_matches name cmp) rs), Some (int (length (filter (rec_matches name cmp) rs))), s')"
proof -
  have "frest (rewind (fopen_r (concat (map enc_record rs)))) = concat (map enc_record rs)"
    by (simp add: rewind_def fopen_r_def frest_def)
  from find_loop_records [OF assms(1) this, of "[]" "if n \<le> 0 then 10 else nat n" False] assms(2)
  obtain s' where "find_loop name cmp (rewind (fopen_r (concat (map enc_record rs)))) (if n \<le> 0 then 10 else nat n) False [] =
      Inr (filter (rec_matches name cmp) rs, if n \<le> 0 then 10 else nat n, False, s')" by auto
  then show ?thesis unfolding find_index_record_def option.case prod.case by simp
qed

theorem find_index_record_exact_witness:
  "\<exists>s'. find_index_record [97] (int_equals 5)
      (Some (fopen_r (concat (map enc_record [create_index_record MIQS_AT_INTEGER (Some [97]) (Int_Data 5) (Some [102]) (Some [111])])))) (Some 0) =
    Inr (Some [create_index_record MIQS_AT_INTEGER (Some [97]) (Int_Data 5) (Some [102]) (Some [111])], Some 1, s')"
proof -
  let ?r = "create_index_record MIQS_AT_INTEGER (Some [97]) (Int_Data 5) (Some [102]) (Some [111])"
  have m: "filter (rec_matches [97] (int_equals 5)) [?r] = [?r]"
    by (simp add: rec_matches_def create_index_record_def int_equals_def)
  have ok: "\<forall>r \<in> set [?r]. record_ok r \<and> ir_type r \<noteq> MIQS_AT_UNKNOWN \<and>
      (ir_name r = Some [97] \<longrightarrow> (\<exists>b. int_equals 5 (ir_data r) = Inr b))"
    by (auto simp: record_ok_def create_index_record_def ptr_ok_def data_ok_def str_ok_def int_equals_def)
  from find_index_record_exact [OF ok, of 0] show ?thesis unfolding m by simp
qed

text \<open>A path table written to disk and read into an empty list gives the same table: every
  path at its own position.\<close>

theorem path_table_roundtrip:
  assumes "path_table l ps"
  shows "\<exists>s l'. append_path_list l fopen_w = Inr (length ps, s) \<and>
    read_into_path_list list_create (fopen_r (fcontents s)) = Inr (True, l', sadvance (length (fcontents s)) (fopen_r (fcontents s))) \<and>
    path_table l' ps \<and> list_values l' = list_values l"
proof -
  let ?s = "fwrite (enc_path_table ps) fopen_w"
  have "frest (fopen_r (fcontents ?s)) = enc_path_table ps @ []" by simp
  from read_into_path_list_enc [OF path_table_create _ _ this] assms
  obtain l' where "read_into_path_list list_create (fopen_r (fcontents ?s)) =
      Inr (True, l', sadvance (length (enc_path_table ps)) (fopen_r (fcontents ?s)))" "path_table l' ps"
    by (auto simp: path_table_def)
  then show ?thesis
    using append_path_list_enc [OF assms, of fopen_w] assms
    by (intro exI [of _ ?s] exI [of _ l']) (simp add: path_table_def)
qed

theorem path_table_roundtrip_witness:
  "\<exists>s l'. append_path_list (list_create :: tagged_value linked_list) fopen_w = Inr (0, s) \<and>
    read_into_path_list list_create (fopen_r (fcontents s)) = Inr (True, l', sadvance (length (fcontents s)) (fopen_r (fcontents s))) \<and>
    path_table l' []"
  using path_table_roundtrip [OF path_table_create] by auto

text \<open>The file/object pairs of a value leaf, written and read back into a leaf, keep their
  positions and their order, but every pair comes back with tree number 0.\<close>

theorem pair_list_roundtrip:
  assumes "pair_list l ps"
  shows "\<exists>s l'. append_file_obj_pair_linked_list l fopen_w = Inr s \<and>
    read_file_obj_path_pair_list (Some a) H (fopen_r (fcontents s)) =
      Inr (0, set_value_leaf a \<lparr>file_obj_pair_list = Some l'\<rparr> H, sadvance (length (fcontents s)) (fopen_r (fcontents s))) \<and>
    pair_list l' (map disk_pair ps)"
proof -
  let ?s = "fwrite (enc_pairs ps) fopen_w"
  have "frest (fopen_r (fcontents ?s)) = enc_pairs ps @ []" by simp
  from read_pair_list_enc [OF _ this, of a H] assms append_pairs_enc [OF assms, of fopen_w] show ?thesis
    by (auto simp: pair_list_def)
qed

theorem pair_list_roundtrip_witness:
  "\<exists>s l'. append_file_obj_pair_linked_list
      (snd (list_push_value (Some \<lparr>parallel_index_pos = 3, file_list_pos = 1, obj_list_pos = 2\<rparr>) list_create)) fopen_w = Inr s \<and>
    read_file_obj_path_pair_list (Some 0) \<lparr>attr_leaves = [], value_leaves = [zero_value_leaf],
        num_kv_pairs_loaded_mdb = 0, num_attrs_loaded_mdb = 0\<rparr> (fopen_r (fcontents s)) =
      Inr (0, \<lparr>attr_leaves = [], value_leaves = [\<lparr>file_obj_pair_list = Some l'\<rparr>],
        num_kv_pairs_loaded_mdb = 0, num_attrs_loaded_mdb = 0\<rparr>, sadvance (length (fcontents s)) (fopen_r (fcontents s))) \<and>
    list_values l' = [Some \<lparr>parallel_index_pos = 0, file_list_pos = 1, obj_list_pos = 2\<rparr>]"
proof -
  let ?p = "\<lparr>parallel_index_pos = 3, file_list_pos = 1, obj_list_pos = 2\<rparr>"
  have "pair_list (snd (list_push_value (Some ?p) list_create)) [?p]"
    using ll.push_snd [OF list_inv_create, of "Some ?p"] by (simp add: pair_list_def)
  from pair_list_roundtrip [OF this, of 0 "\<lparr>attr_leaves = [], value_leaves = [zero_value_leaf],
      num_kv_pairs_loaded_mdb = 0, num_attrs_loaded_mdb = 0\<rparr>"] show ?thesis
    by (auto simp: set_value_leaf_def pair_list_def disk_pair_def)
qed

end
