(* ===== verification/In_Mem_Index.thy ===== *)
theory In_Mem_Index
  imports On_Disk_Index
begin

unbundle bit_operations_syntax

text \<open>
  The in-memory index of src/src/index/in_mem_index.c. The anchor holds, per hash slot, a radix tree
  from attribute names to attribute leaves and two path tables; an attribute leaf holds the tree of
  its values, a value leaf the list of file/object pairs. \<open>root_index_anchor\<close> is the one anchor of the program: every
  caller passes it, so the functions that take an anchor and reach for the root anchor see the
  same object. The read/write locks are not modelled: a handler runs to its end before the next. Timers are left
  out.
\<close>

section \<open>The anchor\<close>

record index_anchor = index_heap +
  file_path :: "cstring option"
  obj_path :: "cstring option"
  parallelism :: c_int
  root_art_array :: "nat art_tree list"
  file_paths_list :: "tagged_value linked_list list"
  object_paths_list :: "tagged_value linked_list list"
  indexed_attr :: "cstring list"
  num_indexed_field :: c_int
  on_disk_file_stream :: "stream option"
  is_readonly_index_file :: c_int
  total_num_files :: size_t
  total_num_objects :: size_t
  total_num_attrs :: size_t
  total_num_indexed_kv_pairs :: size_t
  total_num_kv_pairs :: size_t

text \<open>
  The state of a program that has just created its index. The two counters of the loader are globals of on_disk_index.c, zero when the program starts, which
  \<^verbatim>\<open>init_in_mem_index\<close> does not touch; the loader sets both before it counts, so what they hold until then is never read.
\<close>

definition init_in_mem_index :: "c_int \<Rightarrow> index_anchor" where
  "init_in_mem_index p =
     (let n = nat (sint p) in
      \<lparr>attr_leaves = [], value_leaves = [], num_kv_pairs_loaded_mdb = 0, num_attrs_loaded_mdb = 0,
       file_path = None, obj_path = None, parallelism = p,
       root_art_array = replicate n art_tree_init,
       file_paths_list = replicate n list_create, object_paths_list = replicate n list_create,
       indexed_attr = [], num_indexed_field = 0, on_disk_file_stream = None, is_readonly_index_file = 1,
       total_num_files = 0, total_num_objects = 0, total_num_attrs = 0,
       total_num_indexed_kv_pairs = 0, total_num_kv_pairs = 0\<rparr>)"

text \<open>The array holds at least \<open>num_indexed_field\<close> names.\<close>

definition is_specified_field :: "cstring \<Rightarrow> index_anchor \<Rightarrow> bool" where
  "is_specified_field name A =
     (0 < sint (num_indexed_field A) \<and>
      list_ex (\<lambda>f. name = f) (take (nat (sint (num_indexed_field A))) (indexed_attr A)))"

section \<open>Indexing\<close>

definition insert_tagged_value ::
  "tagged_value linked_list \<Rightarrow> cstring option \<Rightarrow> c_error + (size_t \<times> tagged_value linked_list)" where
  "insert_tagged_value l tag =
     ebind (list_get_tagged_value tag l) (\<lambda>(tgv, l1).
       case tgv of
         Some tv \<Rightarrow> ebind (deref (tv_value tv)) (\<lambda>v. Inr (u64_of_bytes v, l1))
       | None \<Rightarrow>
           let last_pos = of_nat (list_count l1) :: size_t;
               tv = list_create_tagged_value tag (Some (bytes8 last_pos)) 8
           in ebind (list_insert_tagged_value (Some tv) (unat last_pos) l1) (\<lambda>(_, l2). Inr (last_pos, l2)))"

text \<open>The last lines of both indexing loops: look the two paths up, push the pair on the leaf's list.\<close>

definition push_pair :: "nat \<Rightarrow> str_ptr \<Rightarrow> str_ptr \<Rightarrow> nat \<Rightarrow> index_anchor \<Rightarrow> c_error + index_anchor" where
  "push_pair pos fp op v A =
     ebind (use_ptr fp) (\<lambda>fpath.
     ebind (nth_chk (file_paths_list A) pos) (\<lambda>fl.
     ebind (insert_tagged_value fl fpath) (\<lambda>(file_pos, fl').
     let A1 = A\<lparr>file_paths_list := (file_paths_list A)[pos := fl']\<rparr> in
     ebind (use_ptr op) (\<lambda>opath.
     ebind (nth_chk (object_paths_list A1) pos) (\<lambda>ol.
     ebind (insert_tagged_value ol opath) (\<lambda>(obj_pos, ol').
     let A2 = A1\<lparr>object_paths_list := (object_paths_list A1)[pos := ol']\<rparr>;
         pair = \<lparr>parallel_index_pos = of_nat pos, file_list_pos = file_pos, obj_list_pos = obj_pos\<rparr> in
     ebind (get_value_leaf v A2) (\<lambda>leaf.
     ebind (deref (file_obj_pair_list leaf)) (\<lambda>l.
       Inr (set_value_leaf v \<lparr>file_obj_pair_list = Some (snd (list_push_value (Some pair) l))\<rparr> A2)))))))))"

text \<open>
  One round of the numeric loop. The element size comes from the leaf, not from the attribute. The
  value leaf is found in the tree or allocated, given an empty list and added.
\<close>

definition numeric_entry :: "byte list \<Rightarrow> nat \<Rightarrow> index_anchor \<Rightarrow> c_error + (nat \<times> index_anchor)" where
  "numeric_entry key a A =
     ebind (get_attr_leaf a A) (\<lambda>leaf.
     ebind (deref (leaf_rbt leaf)) (\<lambda>t.
       case rbt_find t key of
         (rc, Some entry) \<Rightarrow> Inr (entry, A)
       | (rc, None) \<Rightarrow>
           let (v, A1) = new_value_leaf A;
               A2 = set_value_leaf v \<lparr>file_obj_pair_list = Some list_create\<rparr> A1
           in ebind (leaf_rbt_add a key v A2) (\<lambda>(_, A3). Inr (v, A3))))"

definition numeric_step ::
  "nat \<Rightarrow> attr_array \<Rightarrow> nat \<Rightarrow> str_ptr \<Rightarrow> str_ptr \<Rightarrow> nat \<Rightarrow> index_anchor \<Rightarrow> c_error + index_anchor" where
  "numeric_step pos arr i fp op a A =
     ebind (get_attr_leaf a A) (\<lambda>leaf.
     let k_size = (if is_float leaf = 0 then 4 else 8) in
     ebind (num_elem arr k_size i) (\<lambda>key.
     ebind (numeric_entry key a A) (\<lambda>(v, A1). push_pair pos fp op v A1)))"

fun numeric_loop ::
  "nat \<Rightarrow> nat \<Rightarrow> nat \<Rightarrow> attr_array \<Rightarrow> str_ptr \<Rightarrow> str_ptr \<Rightarrow> nat \<Rightarrow> index_anchor \<Rightarrow> c_error + index_anchor" where
  "numeric_loop 0 i pos arr fp op a A = Inr A"
| "numeric_loop (Suc n) i pos arr fp op a A =
     ebind (numeric_step pos arr i fp op a A) (\<lambda>A'. numeric_loop n (Suc i) pos arr fp op a A')"

definition indexing_numeric ::
  "nat \<Rightarrow> attr_array \<Rightarrow> c_int \<Rightarrow> str_ptr \<Rightarrow> str_ptr \<Rightarrow> nat \<Rightarrow> index_anchor \<Rightarrow> c_error + index_anchor" where
  "indexing_numeric pos attr_val len fp op a A = numeric_loop (nat (sint len)) 0 pos attr_val fp op a A"

definition string_entry :: "cstring \<Rightarrow> nat \<Rightarrow> index_anchor \<Rightarrow> c_error + (nat \<times> index_anchor)" where
  "string_entry key a A =
     ebind (get_attr_leaf a A) (\<lambda>leaf.
     ebind (deref (leaf_art leaf)) (\<lambda>t.
     ebind (art_search t key) (\<lambda>found.
       case found of
         Some entry \<Rightarrow> Inr (entry, A)
       | None \<Rightarrow>
           let (v, A1) = new_value_leaf A;
               A2 = set_value_leaf v \<lparr>file_obj_pair_list = Some list_create\<rparr> A1
           in ebind (leaf_art_insert a key v A2) (\<lambda>A3. Inr (v, A3)))))"

fun string_loop ::
  "nat \<Rightarrow> nat \<Rightarrow> nat \<Rightarrow> attr_array \<Rightarrow> str_ptr \<Rightarrow> str_ptr \<Rightarrow> nat \<Rightarrow> index_anchor \<Rightarrow> c_error + index_anchor" where
  "string_loop 0 i pos arr fp op a A = Inr A"
| "string_loop (Suc n) i pos arr fp op a A =
     ebind (str_elem arr i) (\<lambda>key.
     ebind (string_entry key a A) (\<lambda>(v, A1).
     ebind (push_pair pos fp op v A1) (\<lambda>A2. string_loop n (Suc i) pos arr fp op a A2)))"

definition indexing_string ::
  "nat \<Rightarrow> attr_array \<Rightarrow> c_int \<Rightarrow> str_ptr \<Rightarrow> str_ptr \<Rightarrow> nat \<Rightarrow> index_anchor \<Rightarrow> c_error + index_anchor" where
  "indexing_string pos attr_val len fp op a A =
     ebind (get_attr_leaf a A) (\<lambda>leaf.
     let leaf1 = leaf\<lparr>is_numeric := 0, is_float := 0\<rparr>;
         leaf2 = (if leaf_art leaf1 = None then leaf1\<lparr>leaf_art := Some art_tree_init\<rparr> else leaf1)
     in string_loop (nat (sint len)) 0 pos attr_val fp op a (set_attr_leaf a leaf2 A))"

text \<open>
  The leaf a new attribute gets, and whether it goes into the name tree: the string case has no
  \<^verbatim>\<open>break\<close> and falls into the default case.
\<close>

definition attr_leaf_for :: "miqs_attr_type \<Rightarrow> attr_leaf \<times> bool" where
  "attr_leaf_for t =
     (case t of
        MIQS_AT_INTEGER \<Rightarrow>
          (zero_attr_leaf\<lparr>leaf_rbt := Some (rbt_create libhl_cmp_keys_int), is_float := 0, is_numeric := 1\<rparr>, True)
      | MIQS_AT_FLOAT \<Rightarrow>
          (zero_attr_leaf\<lparr>leaf_rbt := Some (rbt_create libhl_cmp_keys_double), is_float := 1, is_numeric := 1\<rparr>, True)
      | MIQS_AT_STRING \<Rightarrow>
          (zero_attr_leaf\<lparr>leaf_art := Some art_tree_init, is_float := 0, is_numeric := 0\<rparr>, False)
      | MIQS_AT_UNKNOWN \<Rightarrow> (zero_attr_leaf, False))"

definition find_attr_leaf ::
  "nat \<Rightarrow> cstring \<Rightarrow> miqs_attr_type \<Rightarrow> index_anchor \<Rightarrow> c_error + (nat \<times> index_anchor)" where
  "find_attr_leaf i name t A =
     ebind (nth_chk (root_art_array A) i) (\<lambda>global_art.
     ebind (art_search global_art name) (\<lambda>found.
       case found of
         Some a \<Rightarrow> Inr (a, A)
       | None \<Rightarrow>
           let (a, A1) = new_attr_leaf A;
               (leaf, into_art) = attr_leaf_for t;
               A2 = set_attr_leaf a leaf A1
           in if into_art
              then ebind (art_insert global_art name a) (\<lambda>(art', _).
                     Inr (a, A2\<lparr>root_art_array := (root_art_array A2)[i := art']\<rparr>))
              else Inr (a, A2)))"

definition create_in_mem_index_for_attr :: "index_anchor \<Rightarrow> miqs_meta_attribute \<Rightarrow> c_error + index_anchor" where
  "create_in_mem_index_for_attr A attr =
     ebind (hash_slot (attr_name attr) (parallelism A)) (\<lambda>i.
     ebind (find_attr_leaf i (attr_name attr) (attr_type attr) A) (\<lambda>(a, A1).
       case attr_type attr of
         MIQS_AT_INTEGER \<Rightarrow> indexing_numeric i (attribute_value attr) (attribute_value_length attr)
           (file_path_str attr) (obj_path_str attr) a A1
       | MIQS_AT_FLOAT \<Rightarrow> indexing_numeric i (attribute_value attr) (attribute_value_length attr)
           (file_path_str attr) (obj_path_str attr) a A1
       | MIQS_AT_STRING \<Rightarrow> indexing_string i (attribute_value attr) (attribute_value_length attr)
           (file_path_str attr) (obj_path_str attr) a A1
       | MIQS_AT_UNKNOWN \<Rightarrow> Inr A1))"

section \<open>The append-only file\<close>

text \<open>
  The record of one value. For a string the code passes the address of the array slot as if it were
  the string; \<open>slot_bytes i\<close> are the bytes at that address, up to their first NUL.
\<close>

definition aof_data :: "(nat \<Rightarrow> cstring) \<Rightarrow> miqs_attr_type \<Rightarrow> attr_array \<Rightarrow> nat \<Rightarrow> c_error + record_data" where
  "aof_data slot_bytes t arr i =
     (case t of
        MIQS_AT_INTEGER \<Rightarrow> ebind (num_elem arr 4 i) (\<lambda>b. Inr (Int_Data (int_of_bytes b)))
      | MIQS_AT_FLOAT \<Rightarrow> ebind (num_elem arr 8 i) (\<lambda>b. Inr (Float_Data (u64_of_bytes b)))
      | MIQS_AT_STRING \<Rightarrow> Inr (Str_Data (slot_bytes i))
      | MIQS_AT_UNKNOWN \<Rightarrow> Inr Null_Data)"

fun aof_loop ::
  "(nat \<Rightarrow> cstring) \<Rightarrow> nat \<Rightarrow> nat \<Rightarrow> miqs_meta_attribute \<Rightarrow> cstring option \<Rightarrow> cstring option \<Rightarrow> stream \<Rightarrow> c_error + stream" where
  "aof_loop sb 0 i attr fp op s = Inr s"
| "aof_loop sb (Suc n) i attr fp op s =
     ebind (aof_data sb (attr_type attr) (attribute_value attr) i) (\<lambda>data.
     ebind (append_index_record (Some (create_index_record (attr_type attr) (Some (attr_name attr)) data fp op)) s) (\<lambda>s'.
       aof_loop sb n (Suc i) attr fp op s'))"

definition write_aof ::
  "(nat \<Rightarrow> cstring) \<Rightarrow> stream \<Rightarrow> miqs_meta_attribute \<Rightarrow> cstring option \<Rightarrow> cstring option \<Rightarrow> c_error + stream" where
  "write_aof slot_bytes s attr fp op =
     (if attr_type attr = MIQS_AT_UNKNOWN then Inr s
      else aof_loop slot_bytes (nat (sint (attribute_value_length attr))) 0 attr fp op s)"

definition indexing_attr ::
  "(nat \<Rightarrow> cstring) \<Rightarrow> index_anchor \<Rightarrow> miqs_meta_attribute \<Rightarrow> c_error + (int \<times> index_anchor)" where
  "indexing_attr slot_bytes A attr =
     (let A1 = A\<lparr>total_num_attrs := total_num_attrs A + 1\<rparr>;
          build_index = (if 0 < sint (num_indexed_field A1) then is_specified_field (attr_name attr) A1 else True)
      in if build_index then
           let A2 = A1\<lparr>total_num_kv_pairs := total_num_kv_pairs A1 + scast (attribute_value_length attr)\<rparr>
           in ebind (case on_disk_file_stream A2 of
                       Some s \<Rightarrow>
                         if is_readonly_index_file A2 = 0
                         then ebind (write_aof slot_bytes s attr (file_path A2) (obj_path A2)) (\<lambda>s'.
                                Inr (A2\<lparr>on_disk_file_stream := Some s'\<rparr>))
                         else Inr A2
                     | None \<Rightarrow> Inr A2) (\<lambda>A3.
              ebind (create_in_mem_index_for_attr A3 attr) (\<lambda>A4.
                Inr (1, A4\<lparr>total_num_indexed_kv_pairs :=
                          total_num_indexed_kv_pairs A4 + scast (attribute_value_length attr)\<rparr>)))
         else Inr (1, A1))"

text \<open>
  The attribute of a loaded record lives on the stack of \<open>load_aof\<close>: its two path pointers are never set.
  For a string, \<open>attribute_value\<close> is the address of a variable of a function that has returned.
\<close>

definition record_array :: "record_data \<Rightarrow> attr_array" where
  "record_array d =
     (case d of Int_Data i \<Rightarrow> Num_Array (bytes4 i) | Float_Data x \<Rightarrow> Num_Array (bytes8 x)
      | Str_Data x \<Rightarrow> Num_Array [] | Null_Data \<Rightarrow> Num_Array [])"

definition convert_index_record_to_in_mem_parameters ::
  "index_anchor \<Rightarrow> index_record \<Rightarrow> c_error + (index_anchor \<times> miqs_meta_attribute)" where
  "convert_index_record_to_in_mem_parameters A ir =
     ebind (deref (ir_name ir)) (\<lambda>name.
       Inr (A\<lparr>file_path := ir_file_path ir, obj_path := ir_object_path ir\<rparr>,
            \<lparr>attr_name = name, attr_type = ir_type ir, attribute_value = record_array (ir_data ir),
             attribute_value_length = 1, file_path_str = Unset, obj_path_str = Unset\<rparr>))"

lemma read_index_record_decreases:
  "read_index_record s = (Some ir, s') \<Longrightarrow> length (frest s') < length (frest s)"
proof -
  assume r: "read_index_record s = (Some ir, s')"
  then obtain i s1 where i: "miqs_read_int s = (Some i, s1)"
    by (auto simp: read_index_record_def split: prod.splits option.splits)
  obtain nm s2 where s2: "read_str s1 = (nm, s2)" by force
  obtain d s3 where s3: "read_data (get_miqs_type_from_int i) s2 = (d, s3)" by force
  obtain fp s4 where s4: "read_str s3 = (fp, s4)" by force
  have "s' = snd (read_str s4)"
    using r i s2 s3 s4 by (auto simp: read_index_record_def case_prod_unfold Let_def)
  then show ?thesis
    using read_int_decreases [OF i] read_str_progress [of s1] read_data_progress [of "get_miqs_type_from_int i" s2]
      read_str_progress [of s3] read_str_progress [of s4] s2 s3 s4 by simp
qed

function load_loop :: "(nat \<Rightarrow> cstring) \<Rightarrow> nat \<Rightarrow> stream \<Rightarrow> index_anchor \<Rightarrow> c_error + (nat \<times> index_anchor)" where
  "load_loop sb cnt s A =
     (case read_index_record s of
        (None, s') \<Rightarrow> Inr (cnt, A\<lparr>on_disk_file_stream := Some s'\<rparr>)
      | (Some ir, s') \<Rightarrow>
          ebind (convert_index_record_to_in_mem_parameters (A\<lparr>on_disk_file_stream := Some s'\<rparr>) ir) (\<lambda>(A1, attr).
          ebind (indexing_attr sb A1 attr) (\<lambda>(_, A2). load_loop sb (Suc cnt) s' A2)))"
  by pat_completeness auto
termination
  by (relation "measure (\<lambda>(sb, cnt, s, A). length (frest s))")
    (simp_all only: in_measure wf_measure split_conv, metis read_index_record_decreases)

declare load_loop.simps [simp del]

text \<open>The file is its contents, or \<open>None\<close> when it cannot be read.\<close>

definition load_aof :: "(nat \<Rightarrow> cstring) \<Rightarrow> byte list option \<Rightarrow> index_anchor \<Rightarrow> c_error + (c_int \<times> index_anchor)" where
  "load_aof slot_bytes file A =
     (case file of
        None \<Rightarrow> Inr (0, A)
      | Some bs \<Rightarrow>
          if bs = [] then Inr (0, A)
          else ebind (load_loop slot_bytes 0 (fopen_r bs)
                 (A\<lparr>on_disk_file_stream := Some (fopen_r bs), is_readonly_index_file := 1\<rparr>))
               (\<lambda>(n, A'). Inr (of_nat n, A')))"

section \<open>Dump and load\<close>

text \<open>The inner loop variable hides the outer one: every round writes all the name trees.\<close>

fun append_arts :: "index_anchor \<Rightarrow> nat art_tree list \<Rightarrow> stream \<Rightarrow> c_error + stream" where
  "append_arts A [] s = Inr s"
| "append_arts A (t # ts) s = ebind (append_attr_root_tree A t s) (\<lambda>(_, s'). append_arts A ts s')"

fun dump_loop ::
  "index_anchor \<Rightarrow> (tagged_value linked_list \<times> tagged_value linked_list) list \<Rightarrow> stream \<Rightarrow> c_error + stream" where
  "dump_loop A [] s = Inr s"
| "dump_loop A ((fl, ol) # rest) s =
     ebind (append_path_list fl s) (\<lambda>(_, s1).
     ebind (append_path_list ol s1) (\<lambda>(_, s2).
     ebind (append_arts A (root_art_array A) s2) (\<lambda>s3. dump_loop A rest s3)))"

definition dump_mdb_index_to_disk :: "index_anchor \<Rightarrow> c_error + (int \<times> byte list)" where
  "dump_mdb_index_to_disk A =
     ebind (dump_loop A (zip (file_paths_list A) (object_paths_list A))
             (miqs_append_size_t (scast (parallelism A)) fopen_w))
       (\<lambda>s. Inr (1, fcontents s))"

text \<open>
  \<open>ptrs i\<close> is the address of the attribute count read in round \<open>i\<close>. The result code is the outer
  \<^verbatim>\<open>rst\<close>, which stays 0; the flag tells an early return.
\<close>

fun load_rounds ::
  "(nat \<Rightarrow> size_t) \<Rightarrow> nat \<Rightarrow> nat \<Rightarrow> index_anchor \<Rightarrow> stream \<Rightarrow> c_error + (bool \<times> index_anchor)" where
  "load_rounds ptrs 0 i A s = Inr (True, A)"
| "load_rounds ptrs (Suc n) i A s =
     ebind (nth_chk (file_paths_list A) i) (\<lambda>fl.
     ebind (read_into_path_list fl s) (\<lambda>(ok1, fl', s1).
     let A1 = A\<lparr>file_paths_list := (file_paths_list A)[i := fl'],
                total_num_files := total_num_files A + of_nat (list_count fl')\<rparr> in
     if \<not> ok1 then Inr (False, A1)
     else
       ebind (nth_chk (object_paths_list A1) i) (\<lambda>ol.
       ebind (read_into_path_list ol s1) (\<lambda>(ok2, ol', s2).
       let A2 = A1\<lparr>object_paths_list := (object_paths_list A1)[i := ol'],
                   total_num_objects := total_num_objects A1 + of_nat (list_count ol')\<rparr> in
       if \<not> ok2 then Inr (False, A2)
       else
         ebind (read_into_attr_root_tree (ptrs i) (root_art_array A2) (parallelism A2) A2 s2) (\<lambda>(_, arts, A3, s3).
           load_rounds ptrs n (Suc i) (A3\<lparr>root_art_array := arts\<rparr>) s3)))))"

definition load_mdb_file_to_index ::
  "(nat \<Rightarrow> size_t) \<Rightarrow> byte list option \<Rightarrow> index_anchor option \<Rightarrow> c_error + (int \<times> index_anchor option)" where
  "load_mdb_file_to_index ptrs file idx =
     (case file of
        None \<Rightarrow> Inr (0, idx)
      | Some bs \<Rightarrow>
          if bs = [] then Inr (0, idx)
          else
            let (p, s) = miqs_read_size_t (fopen_r bs) in
            ebind (case idx of
                     Some A \<Rightarrow> Inr A
                   | None \<Rightarrow> ebind (deref p) (\<lambda>n. Inr (init_in_mem_index (ucast n)))) (\<lambda>A.
            ebind (load_rounds ptrs (nat (sint (parallelism A))) 0 A s) (\<lambda>(fin, A1).
              Inr (0, Some (if fin
                            then A1\<lparr>total_num_kv_pairs := total_num_kv_pairs A1 + get_num_kv_pairs_loaded_mdb A1,
                                    total_num_attrs := total_num_attrs A1 + get_num_attrs_loaded_mdb A1\<rparr>
                            else A1)))))"

definition load_mdb ::
  "(nat \<Rightarrow> size_t) \<Rightarrow> byte list option \<Rightarrow> index_anchor option \<Rightarrow> c_error + (int \<times> index_anchor option)" where
  "load_mdb ptrs file idx = load_mdb_file_to_index ptrs file idx"

end
