(* ===== verification/Miqs_Querying.thy ===== *)
theory Miqs_Querying
  imports In_Mem_Index
begin

text \<open>
  Queries, src/src/miqs_querying.c: the exact search for an attribute value. The tree of the
  attribute's slot gives the attribute leaf, the leaf's tree the value leaf, whose pairs are turned into
  paths through the path tables. Picking a path moves the cursor of its table, so a query returns a
  changed anchor.
\<close>

datatype miqs_attr_value_type = MIQS_ATV_UNKNOWN | MIQS_ATV_INTEGER | MIQS_ATV_FLOAT | MIQS_ATV_STRING

text \<open>What the value pointer of a query points at: a number, as its bytes, or a C string.\<close>

datatype query_value = Q_Num "byte list" | Q_Str cstring

record search_rst_entry =
  rst_file_path :: "cstring option"
  rst_obj_path :: "cstring option"

definition q_bytes :: "query_value \<Rightarrow> nat \<Rightarrow> c_error + byte list" where
  "q_bytes q n =
     (case q of Q_Num bs \<Rightarrow> if n \<le> length bs then Inr (take n bs) else Inl Out_Of_Bounds | Q_Str _ \<Rightarrow> Inl Bad_Pointer)"

definition attribute_value_search ::
  "index_anchor \<Rightarrow> cstring \<Rightarrow> query_value \<Rightarrow> nat \<Rightarrow> miqs_attr_value_type \<Rightarrow> c_error + nat option" where
  "attribute_value_search A name value_p value_size t =
     ebind (hash_slot name (parallelism A)) (\<lambda>i.
     ebind (nth_chk (root_art_array A) i) (\<lambda>art.
     ebind (art_search art name) (\<lambda>found.
       case found of
         None \<Rightarrow> Inr None
       | Some a \<Rightarrow>
           ebind (get_attr_leaf a A) (\<lambda>leaf_cnt.
             case leaf_rbt leaf_cnt of
               None \<Rightarrow> Inr None
             | Some rbt \<Rightarrow>
                 (case t of
                    MIQS_ATV_STRING \<Rightarrow>
                      ebind (deref (leaf_art leaf_cnt)) (\<lambda>vart.
                        case value_p of Q_Str x \<Rightarrow> art_search vart x | Q_Num _ \<Rightarrow> Inl Bad_Pointer)
                  | MIQS_ATV_UNKNOWN \<Rightarrow> Inr None
                  | _ \<Rightarrow> ebind (q_bytes value_p value_size) (\<lambda>k. Inr (snd (rbt_find rbt k))))))))"

definition collect_result_from_list ::
  "file_obj_pair option \<Rightarrow> nat \<Rightarrow> c_error + (index_anchor \<times> search_rst_entry list) \<Rightarrow>
   int \<times> (c_error + (index_anchor \<times> search_rst_entry list))" where
  "collect_result_from_list item idx st =
     (1, ebind st (\<lambda>(A, arr).
         ebind (deref item) (\<lambda>fo_pair.
         let i = unat (parallel_index_pos fo_pair) in
         ebind (nth_chk (file_paths_list A) i) (\<lambda>fl.
         let (fv, fl') = list_pick_tagged_value (unat (file_list_pos fo_pair)) fl;
             A1 = A\<lparr>file_paths_list := (file_paths_list A)[i := fl']\<rparr> in
         ebind (deref fv) (\<lambda>ftv.
         ebind (nth_chk (object_paths_list A1) i) (\<lambda>ol.
         let (ov, ol') = list_pick_tagged_value (unat (obj_list_pos fo_pair)) ol;
             A2 = A1\<lparr>object_paths_list := (object_paths_list A1)[i := ol']\<rparr> in
         ebind (deref ov) (\<lambda>otv.
         if idx < length arr
         then Inr (A2, arr[idx := \<lparr>rst_file_path = tv_tag ftv, rst_obj_path = tv_tag otv\<rparr>])
         else Inl Out_Of_Bounds)))))))"

definition exact_metadata_search ::
  "index_anchor \<Rightarrow> cstring \<Rightarrow> query_value \<Rightarrow> miqs_attr_value_type \<Rightarrow>
   c_error + (search_rst_entry list \<times> index_anchor)" where
  "exact_metadata_search A name value t =
     (let value_size = (case t of MIQS_ATV_INTEGER \<Rightarrow> 4 | MIQS_ATV_FLOAT \<Rightarrow> 8 | _ \<Rightarrow> 8)
      in ebind (attribute_value_search A name value value_size t) (\<lambda>rst_node.
         ebind (deref rst_node) (\<lambda>v.
         ebind (get_value_leaf v A) (\<lambda>leaf.
         ebind (deref (file_obj_pair_list leaf)) (\<lambda>l.
         let arr = replicate (list_count l) \<lparr>rst_file_path = None, rst_obj_path = None\<rparr>;
             (_, l', st) = list_foreach_value collect_result_from_list l (Inr (A, arr))
         in ebind st (\<lambda>(A', arr').
              Inr (arr', set_value_leaf v \<lparr>file_obj_pair_list = Some l'\<rparr> A')))))))"

end
