(* ===== verification/Index_Correct.thy ===== *)
theory Index_Correct
  imports Miqs_Querying
begin

text \<open>
  What the in-memory index and its queries do, on top of the contracts of the list, the two trees and
  the path tables. The invariant has three parts: the path tables, the value leaves with their pairs, and
  the name trees with the attribute leaves they own. \<open>index_lookup\<close> abstracts an anchor to the
  file/object paths posted under an attribute name and a value; indexing extends it, a query returns it.
\<close>

section \<open>Path tables\<close>

definition tags :: "tagged_value linked_list \<Rightarrow> cstring list" where
  "tags l = map (\<lambda>v. the (tv_tag (the v))) (list_values l)"

lemma tags_path_entries: "map (\<lambda>v. the (tv_tag (the v))) (map Some (path_entries i ps)) = ps"
  by (induction ps arbitrary: i) simp_all

lemma path_table_tags: "path_table l ps \<Longrightarrow> tags l = ps"
  by (simp add: path_table_def tags_def tags_path_entries del: map_map)

lemma path_table_same: "path_table l ps \<Longrightarrow> list_inv l' \<Longrightarrow> same_list l l' \<Longrightarrow> path_table l' ps"
  by (simp add: path_table_def same_list_values)

lemma path_entries_tags: "tv \<in> set (path_entries i ps) \<Longrightarrow> \<exists>p. tv_tag tv = Some p"
  by (induction ps arbitrary: i) auto

lemma path_table_tag_list: "path_table l ps \<Longrightarrow> tag_list l (path_entries 0 ps)"
  using path_entries_tags by (fastforce simp: path_table_def tag_list_def)

lemma find_path_entries:
  "List.find (\<lambda>tv. tv_tag tv = Some tag) (path_entries i ps) =
     (if tag \<in> set ps then Some (path_entry (i + length (takeWhile (\<lambda>p. p \<noteq> tag) ps)) tag) else None)"
  by (induction ps arbitrary: i) auto

lemma nth_takeWhile_neq: "tag \<in> set ps \<Longrightarrow> length (takeWhile (\<lambda>p. p \<noteq> tag) ps) < length ps \<and>
    ps ! length (takeWhile (\<lambda>p. p \<noteq> tag) ps) = tag"
  by (induction ps) auto

text \<open>A path that is in the table is found at its position, another one is added at the end.\<close>

definition room :: "cstring \<Rightarrow> cstring list \<Rightarrow> bool" where
  "room p ps \<longleftrightarrow> str_ok p \<and> (p \<in> set ps \<or> Suc (length ps) < 2 ^ 31)"

definition add_path :: "cstring \<Rightarrow> cstring list \<Rightarrow> cstring list" where
  "add_path p ps = (if p \<in> set ps then ps else ps @ [p])"

lemma insert_tagged_value_spec:
  assumes "path_table l ps" and "room tag ps"
  shows "\<exists>j l'. insert_tagged_value l (Some tag) = Inr (of_nat j, l') \<and> path_table l' (add_path tag ps) \<and>
    j < length (add_path tag ps) \<and> add_path tag ps ! j = tag \<and> j < 2 ^ 31"
proof -
  have len: "length ps < 2 ^ 31" using assms(1) by (simp add: path_table_def)
  obtain l1 where get: "list_get_tagged_value (Some tag) l =
      Inr (List.find (\<lambda>tv. tv_tag tv = Some tag) (path_entries 0 ps), l1)"
    and l1: "list_inv l1" "same_list l l1"
    using get_tagged_value_eq [OF path_table_tag_list [OF assms(1)], of tag] by (auto simp: tag_list_def)
  have t1: "path_table l1 ps" by (rule path_table_same [OF assms(1) l1])
  show ?thesis
  proof (cases "tag \<in> set ps")
    case True
    let ?j = "length (takeWhile (\<lambda>p. p \<noteq> tag) ps)"
    have "insert_tagged_value l (Some tag) = Inr (of_nat ?j, l1)"
      using True by (simp add: insert_tagged_value_def get find_path_entries)
    with t1 True nth_takeWhile_neq [OF True] len show ?thesis
      by (intro exI [of _ ?j] exI [of _ l1]) (simp add: add_path_def)
  next
    case False
    have count: "list_count l1 = length ps"
      using list_count_values [of l1] t1 by (simp add: path_table_def)
    have u: "unat (of_nat (length ps) :: size_t) = length ps"
      using len by (intro unat_of_nat_length) simp
    obtain l2 where "list_insert_tagged_value (Some (path_entry (length ps) tag)) (length ps) l1 = Inr (0, l2)"
      "path_table l2 (ps @ [tag])"
      using insert_path_entry [OF t1, of tag] assms(2) False by (auto simp: room_def)
    then show ?thesis
      using False u len by (intro exI [of _ "length ps"] exI [of _ l2])
        (simp add: insert_tagged_value_def get find_path_entries count path_entry_def add_path_def)
  qed
qed

section \<open>Value leaves\<close>

definition slots :: "index_anchor \<Rightarrow> nat" where
  "slots A = nat (sint (parallelism A))"

definition fpaths :: "index_anchor \<Rightarrow> nat \<Rightarrow> cstring list" where
  "fpaths A i = tags (file_paths_list A ! i)"

definition opaths :: "index_anchor \<Rightarrow> nat \<Rightarrow> cstring list" where
  "opaths A i = tags (object_paths_list A ! i)"

definition paths_inv :: "index_anchor \<Rightarrow> bool" where
  "paths_inv A \<longleftrightarrow> 0 < sint (parallelism A) \<and>
     length (file_paths_list A) = slots A \<and> length (object_paths_list A) = slots A \<and>
     (\<forall>i < slots A. path_table (file_paths_list A ! i) (fpaths A i) \<and> path_table (object_paths_list A ! i) (opaths A i))"

definition valid_pair :: "index_anchor \<Rightarrow> file_obj_pair \<Rightarrow> bool" where
  "valid_pair A p \<longleftrightarrow> (let i = unat (parallel_index_pos p) in
     i < slots A \<and> unat (file_list_pos p) < length (fpaths A i) \<and> unat (obj_list_pos p) < length (opaths A i))"

definition resolve :: "index_anchor \<Rightarrow> file_obj_pair \<Rightarrow> cstring \<times> cstring" where
  "resolve A p = (let i = unat (parallel_index_pos p)
     in (fpaths A i ! unat (file_list_pos p), opaths A i ! unat (obj_list_pos p)))"

definition leaf_pairs :: "index_anchor \<Rightarrow> nat \<Rightarrow> file_obj_pair list" where
  "leaf_pairs A v = map the (list_values (the (file_obj_pair_list (value_leaves A ! v))))"

definition vals_inv :: "index_anchor \<Rightarrow> bool" where
  "vals_inv A \<longleftrightarrow> (\<forall>v < length (value_leaves A).
     \<exists>l. file_obj_pair_list (value_leaves A ! v) = Some l \<and> pair_list l (leaf_pairs A v) \<and>
       (\<forall>p \<in> set (leaf_pairs A v). valid_pair A p))"

definition postings :: "index_anchor \<Rightarrow> nat \<Rightarrow> (cstring \<times> cstring) list" where
  "postings A v = map (resolve A) (leaf_pairs A v)"

text \<open>Path tables only grow at their end, so a pair keeps its meaning.\<close>

definition paths_ext :: "index_anchor \<Rightarrow> index_anchor \<Rightarrow> bool" where
  "paths_ext A A' \<longleftrightarrow> parallelism A' = parallelism A \<and>
     (\<forall>i < slots A. prefix (fpaths A i) (fpaths A' i) \<and> prefix (opaths A i) (opaths A' i))"

lemma prefix_nth: "prefix xs ys \<Longrightarrow> i < length xs \<Longrightarrow> i < length ys \<and> ys ! i = xs ! i"
  by (auto simp: prefix_def nth_append)

lemma paths_ext_pair:
  assumes "paths_ext A A'" and "valid_pair A p"
  shows "valid_pair A' p" and "resolve A' p = resolve A p"
proof -
  let ?i = "unat (parallel_index_pos p)"
  have i: "?i < slots A" "unat (file_list_pos p) < length (fpaths A ?i)" "unat (obj_list_pos p) < length (opaths A ?i)"
    using assms(2) by (simp_all add: valid_pair_def Let_def)
  have ext: "slots A' = slots A" "prefix (fpaths A ?i) (fpaths A' ?i)" "prefix (opaths A ?i) (opaths A' ?i)"
    using assms(1) i(1) by (simp_all add: paths_ext_def slots_def)
  note f = prefix_nth [OF ext(2) i(2)] and o = prefix_nth [OF ext(3) i(3)]
  show "valid_pair A' p" "resolve A' p = resolve A p"
    using f o i(1) ext(1) by (simp_all add: valid_pair_def resolve_def Let_def)
qed

lemma paths_ext_leaf:
  assumes "paths_ext A A'" and "value_leaves A' ! v = value_leaves A ! v" and "\<forall>p \<in> set (leaf_pairs A v). valid_pair A p"
  shows "postings A' v = postings A v" and "\<forall>p \<in> set (leaf_pairs A' v). valid_pair A' p"
  using assms paths_ext_pair [OF assms(1)] by (auto simp: postings_def leaf_pairs_def)

text \<open>Pushing a pair: one more posting for that leaf, nothing else changes.\<close>

definition same_trees :: "index_anchor \<Rightarrow> index_anchor \<Rightarrow> bool" where
  "same_trees A A' \<longleftrightarrow> parallelism A' = parallelism A \<and> root_art_array A' = root_art_array A \<and>
     attr_leaves A' = attr_leaves A \<and> length (value_leaves A') = length (value_leaves A)"

lemma prefix_add_path: "prefix ps (add_path p ps)"
  by (simp add: add_path_def)

lemma in_add_path: "p \<in> set (add_path p ps)"
  by (simp add: add_path_def)

lemma list_update_tables:
  assumes "pos < length ls" and "path_table l' ps'" and "\<forall>i < length ls. path_table (ls ! i) (tags (ls ! i))"
  shows "\<forall>i < length ls. path_table (ls[pos := l'] ! i) (tags (ls[pos := l'] ! i))"
  using assms path_table_tags [OF assms(2)] by (auto simp: nth_list_update)

lemma slots_bound: "slots A \<le> 2 ^ 31"
  using sint_lt [of "parallelism A"] by (simp add: slots_def nat_le_iff)

text \<open>The pair list of a leaf after a push, and what the new pair stands for.\<close>

lemma leaf_pairs_set:
  assumes "v < length (value_leaves A)"
  shows "leaf_pairs (set_value_leaf v \<lparr>file_obj_pair_list = Some l\<rparr> A) w =
    (if w = v then map the (list_values l) else leaf_pairs A w)"
  using assms by (simp add: leaf_pairs_def set_value_leaf_def)

lemma leaf_pairs_paths [simp]:
  "leaf_pairs (A\<lparr>file_paths_list := fl, object_paths_list := ol\<rparr>) w = leaf_pairs A w"
  by (simp add: leaf_pairs_def)

lemma push_pair_list:
  assumes "pair_list l ps" and "Suc (length ps) < 2 ^ 64"
  shows "pair_list (snd (list_push_value (Some p) l)) (ps @ [p])"
  using assms ll.push_snd [of l "Some p"] by (simp add: pair_list_def)

lemma new_pair:
  assumes "pos < slots A" and "fp < length (fpaths A pos)" "op < length (opaths A pos)" "fp < 2 ^ 31" "op < 2 ^ 31"
  shows "valid_pair A \<lparr>parallel_index_pos = of_nat pos, file_list_pos = of_nat fp, obj_list_pos = of_nat op\<rparr>"
    and "resolve A \<lparr>parallel_index_pos = of_nat pos, file_list_pos = of_nat fp, obj_list_pos = of_nat op\<rparr> =
      (fpaths A pos ! fp, opaths A pos ! op)"
proof -
  have u: "unat (of_nat j :: size_t) = j" if "j < 2 ^ 31" for j
    using that by (simp add: unat_of_nat)
  have "pos < 2 ^ 31" using assms(1) slots_bound [of A] by simp
  with assms u show "valid_pair A \<lparr>parallel_index_pos = of_nat pos, file_list_pos = of_nat fp, obj_list_pos = of_nat op\<rparr>"
    and "resolve A \<lparr>parallel_index_pos = of_nat pos, file_list_pos = of_nat fp, obj_list_pos = of_nat op\<rparr> =
      (fpaths A pos ! fp, opaths A pos ! op)"
    by (simp_all add: valid_pair_def resolve_def Let_def)
qed

lemma push_pair_spec:
  assumes inv: "paths_inv A" "vals_inv A" and pos: "pos < slots A"
    and room: "room f (fpaths A pos)" "room ob (opaths A pos)"
    and v: "v < length (value_leaves A)" "Suc (length (leaf_pairs A v)) < 2 ^ 64"
  shows "\<exists>A'. push_pair pos (Str_Ptr f) (Str_Ptr ob) v A = Inr A' \<and> paths_inv A' \<and> vals_inv A' \<and> same_trees A A' \<and>
    postings A' v = postings A v @ [(f, ob)] \<and>
    (\<forall>w < length (value_leaves A). w \<noteq> v \<longrightarrow> postings A' w = postings A w \<and> leaf_pairs A' w = leaf_pairs A w) \<and>
    length (leaf_pairs A' v) = Suc (length (leaf_pairs A v)) \<and>
    f \<in> set (fpaths A' pos) \<and> ob \<in> set (opaths A' pos)"
proof -
  have len: "length (file_paths_list A) = slots A" "length (object_paths_list A) = slots A"
    and tab: "\<forall>i < slots A. path_table (file_paths_list A ! i) (fpaths A i)"
      "\<forall>i < slots A. path_table (object_paths_list A ! i) (opaths A i)"
    using inv(1) by (auto simp: paths_inv_def)
  obtain fp fl' where fl': "insert_tagged_value (file_paths_list A ! pos) (Some f) = Inr (of_nat fp, fl')"
    "path_table fl' (add_path f (fpaths A pos))" "fp < length (add_path f (fpaths A pos))"
    "add_path f (fpaths A pos) ! fp = f" "fp < 2 ^ 31"
    using insert_tagged_value_spec [OF _ room(1)] tab pos by blast
  obtain op ol' where ol': "insert_tagged_value (object_paths_list A ! pos) (Some ob) = Inr (of_nat op, ol')"
    "path_table ol' (add_path ob (opaths A pos))" "op < length (add_path ob (opaths A pos))"
    "add_path ob (opaths A pos) ! op = ob" "op < 2 ^ 31"
    using insert_tagged_value_spec [OF _ room(2)] tab pos by blast
  obtain l where l: "file_obj_pair_list (value_leaves A ! v) = Some l" "pair_list l (leaf_pairs A v)"
    and valid: "\<forall>w < length (value_leaves A). \<forall>p \<in> set (leaf_pairs A w). valid_pair A p"
    using inv(2) v(1) unfolding vals_inv_def by meson
  define pair where "pair = \<lparr>parallel_index_pos = of_nat pos, file_list_pos = of_nat fp, obj_list_pos = of_nat op\<rparr>"
  define l2 where "l2 = snd (list_push_value (Some pair) l)"
  define A2 where "A2 = A\<lparr>file_paths_list := (file_paths_list A)[pos := fl'],
    object_paths_list := (object_paths_list A)[pos := ol']\<rparr>"
  define A' where "A' = set_value_leaf v \<lparr>file_obj_pair_list = Some l2\<rparr> A2"
  have run: "push_pair pos (Str_Ptr f) (Str_Ptr ob) v A = Inr A'"
    using pos len v(1) fl'(1) ol'(1) l(1)
    by (simp add: push_pair_def use_ptr_def Let_def get_value_leaf_def A'_def A2_def l2_def pair_def)
  have fp': "fpaths A' i = (if i = pos then add_path f (fpaths A pos) else fpaths A i)" if "i < slots A" for i
    using that pos len path_table_tags [OF fl'(2)] by (simp add: fpaths_def A'_def A2_def set_value_leaf_def)
  have op': "opaths A' i = (if i = pos then add_path ob (opaths A pos) else opaths A i)" if "i < slots A" for i
    using that pos len path_table_tags [OF ol'(2)] by (simp add: opaths_def A'_def A2_def set_value_leaf_def)
  have ext: "paths_ext A A'"
    using fp' op' prefix_add_path by (simp add: paths_ext_def A'_def A2_def set_value_leaf_def)
  have sl: "slots A' = slots A" by (simp add: slots_def A'_def A2_def set_value_leaf_def)
  have pinv: "paths_inv A'"
    using inv(1) list_update_tables [OF _ fl'(2)] list_update_tables [OF _ ol'(2)] pos tab len
    unfolding paths_inv_def sl
    by (simp add: fpaths_def opaths_def A'_def A2_def set_value_leaf_def)
  have l2: "pair_list l2 (leaf_pairs A v @ [pair])"
    unfolding l2_def by (rule push_pair_list [OF l(2) v(2)])
  have v2: "v < length (value_leaves A2)" using v(1) by (simp add: A2_def)
  have pairs: "leaf_pairs A' w = (if w = v then leaf_pairs A v @ [pair] else leaf_pairs A w)" for w
    using l2 unfolding A'_def leaf_pairs_set [OF v2] by (simp add: A2_def pair_list_def)
  have new: "valid_pair A' pair" "resolve A' pair = (f, ob)"
    using new_pair [of pos A' fp op] fl'(3-5) ol'(3-5) pos sl fp' op' by (simp_all add: pair_def)
  have old: "\<forall>p \<in> set (leaf_pairs A w). valid_pair A' p \<and> resolve A' p = resolve A p"
    if "w < length (value_leaves A)" for w
    using valid that paths_ext_pair [OF ext] by blast
  have leaves: "length (value_leaves A') = length (value_leaves A)"
    "value_leaves A' ! w = (if w = v then \<lparr>file_obj_pair_list = Some l2\<rparr> else value_leaves A ! w)" for w
    using v(1) by (auto simp: A'_def A2_def set_value_leaf_def nth_list_update)
  have vinv: "vals_inv A'"
    unfolding vals_inv_def leaves(1)
  proof (intro allI impI)
    fix w assume w: "w < length (value_leaves A)"
    obtain lw where "file_obj_pair_list (value_leaves A ! w) = Some lw" "pair_list lw (leaf_pairs A w)"
      using inv(2) w unfolding vals_inv_def by meson
    then show "\<exists>l. file_obj_pair_list (value_leaves A' ! w) = Some l \<and> pair_list l (leaf_pairs A' w) \<and>
        (\<forall>p \<in> set (leaf_pairs A' w). valid_pair A' p)"
      using l2 new(1) old [OF w] unfolding leaves(2) pairs by auto
  qed
  have post: "postings A' w = (if w = v then postings A v @ [(f, ob)] else postings A w)"
    if "w < length (value_leaves A)" for w
    using old [OF that] new(2) unfolding postings_def pairs by auto
  have "same_trees A A'"
    using leaves(1) by (simp add: same_trees_def A'_def A2_def set_value_leaf_def)
  with run pinv vinv post pairs v(1) fp' op' pos in_add_path show ?thesis by auto
qed

section \<open>Attribute leaves\<close>

text \<open>The address a leaf's tree holds under a key, with the key order and key size of the leaf.\<close>

definition leaf_get :: "attr_leaf \<Rightarrow> byte list \<Rightarrow> nat option" where
  "leaf_get l k = (case leaf_rbt l of None \<Rightarrow> None | Some t \<Rightarrow> snd (rbt_find t k))"

definition leaf_keys :: "attr_leaf \<Rightarrow> byte list set" where
  "leaf_keys l = (if is_float l = 0 then int_keys else dbl_keys)"

definition leaf_val :: "attr_leaf \<Rightarrow> byte list \<Rightarrow> int" where
  "leaf_val l = (if is_float l = 0 then int_key else dbl_key)"

definition leaf_ok :: "attr_leaf \<Rightarrow> bool" where
  "leaf_ok l \<longleftrightarrow> (\<forall>t. leaf_rbt l = Some t \<longrightarrow>
     (if is_float l = 0 then int_order.rbt_ok t else double_order.rbt_ok t))"

context key_order
begin

lemma find_after_add:
  assumes "rbt_ok t" and "k \<in> K"
  shows "\<exists>rc t'. rbt_add t k v = Some (rc, t') \<and> rbt_ok t' \<and>
    (\<forall>k' \<in> K. snd (rbt_find t' k') = (if val k' = val k then Some v else snd (rbt_find t k')))"
proof -
  obtain rc t' where t': "rbt_add t k v = Some (rc, t')" "rbt_ok t'"
    "inorder (rbt_root t') = upd k v (inorder (rbt_root t))"
    using rbt_add_total [OF assms, of v] by blast
  have "snd (rbt_find t' k') = (if val k' = val k then Some v else snd (rbt_find t k'))" if "k' \<in> K" for k'
    using rbt_find_lookup [OF t'(2) that] rbt_find_lookup [OF assms(1) that]
    by (simp add: t'(3) lookup_upd split: option.splits)
  with t' show ?thesis by blast
qed

lemma find_same_val:
  assumes "rbt_ok t" and "k \<in> K" and "k' \<in> K" and "val k = val k'"
  shows "snd (rbt_find t k) = snd (rbt_find t k')"
  using rbt_find_lookup [OF assms(1,2)] rbt_find_lookup [OF assms(1,3)] assms(4) by (simp add: lookup_def)

end

lemma leaf_get_same_val:
  assumes "leaf_ok l" and "k \<in> leaf_keys l" and "k' \<in> leaf_keys l" and "leaf_val l k = leaf_val l k'"
  shows "leaf_get l k = leaf_get l k'"
  using assms int_order.find_same_val double_order.find_same_val
  by (auto simp: leaf_ok_def leaf_get_def leaf_keys_def leaf_val_def split: option.splits if_splits)

lemma leaf_add:
  assumes "leaf_ok l" and "k \<in> leaf_keys l" and "leaf_rbt l = Some t"
  shows "\<exists>rc t'. rbt_add t k v = Some (rc, t') \<and> leaf_ok (l\<lparr>leaf_rbt := Some t'\<rparr>) \<and>
    (\<forall>k' \<in> leaf_keys l. leaf_get (l\<lparr>leaf_rbt := Some t'\<rparr>) k' =
      (if leaf_val l k' = leaf_val l k then Some v else leaf_get l k'))"
  using assms int_order.find_after_add [of t k v] double_order.find_after_add [of t k v]
  by (cases "is_float l = 0") (simp_all add: leaf_ok_def leaf_get_def leaf_keys_def leaf_val_def cong: if_cong split del: if_split)

text \<open>The paths posted under a key of a leaf.\<close>

definition found :: "index_anchor \<Rightarrow> nat \<Rightarrow> byte list \<Rightarrow> (cstring \<times> cstring) list" where
  "found A a k = (case leaf_get (attr_leaves A ! a) k of None \<Rightarrow> [] | Some v \<Rightarrow> postings A v)"

definition owns :: "index_anchor \<Rightarrow> nat \<Rightarrow> byte list \<Rightarrow> nat \<Rightarrow> bool" where
  "owns A a k v \<longleftrightarrow> a < length (attr_leaves A) \<and> k \<in> leaf_keys (attr_leaves A ! a) \<and>
     leaf_get (attr_leaves A ! a) k = Some v"

text \<open>Every value leaf belongs to one key of one attribute leaf.\<close>

definition leaves_inv :: "index_anchor \<Rightarrow> bool" where
  "leaves_inv A \<longleftrightarrow> (\<forall>a < length (attr_leaves A). leaf_ok (attr_leaves A ! a)) \<and>
     (\<forall>a k v. owns A a k v \<longrightarrow> v < length (value_leaves A)) \<and>
     (\<forall>a b k k' v. owns A a k v \<longrightarrow> owns A b k' v \<longrightarrow>
        a = b \<and> leaf_val (attr_leaves A ! a) k = leaf_val (attr_leaves A ! a) k')"

definition heap_inv :: "index_anchor \<Rightarrow> bool" where
  "heap_inv A \<longleftrightarrow> paths_inv A \<and> vals_inv A \<and> leaves_inv A"

definition kind :: "attr_leaf \<Rightarrow> c_int \<times> c_int \<times> bool" where
  "kind l = (is_numeric l, is_float l, leaf_rbt l = None)"

text \<open>What indexing values leaves alone: the name trees and the kinds of the attribute leaves.\<close>

definition same_shape :: "index_anchor \<Rightarrow> index_anchor \<Rightarrow> bool" where
  "same_shape A A' \<longleftrightarrow> parallelism A' = parallelism A \<and> root_art_array A' = root_art_array A \<and>
     map kind (attr_leaves A') = map kind (attr_leaves A)"

lemma same_shape_refl [simp]: "same_shape A A"
  by (simp add: same_shape_def)

lemma same_shape_trans: "same_shape A B \<Longrightarrow> same_shape B C \<Longrightarrow> same_shape A C"
  by (simp add: same_shape_def)

lemma same_shape_leaf:
  assumes "same_shape A A'"
  shows "length (attr_leaves A') = length (attr_leaves A)" and "slots A' = slots A"
    and "a < length (attr_leaves A) \<Longrightarrow> is_float (attr_leaves A' ! a) = is_float (attr_leaves A ! a) \<and>
      is_numeric (attr_leaves A' ! a) = is_numeric (attr_leaves A ! a) \<and> (leaf_rbt (attr_leaves A' ! a) = None \<longleftrightarrow> leaf_rbt (attr_leaves A ! a) = None)"
proof -
  have k: "map kind (attr_leaves A') = map kind (attr_leaves A)"
    using assms by (simp add: same_shape_def)
  then show len: "length (attr_leaves A') = length (attr_leaves A)" by (rule map_eq_imp_length_eq)
  show "slots A' = slots A" using assms by (simp add: slots_def same_shape_def)
  assume a: "a < length (attr_leaves A)"
  with k len have "kind (attr_leaves A' ! a) = kind (attr_leaves A ! a)" by (metis nth_map)
  then show "is_float (attr_leaves A' ! a) = is_float (attr_leaves A ! a) \<and>
      is_numeric (attr_leaves A' ! a) = is_numeric (attr_leaves A ! a) \<and> (leaf_rbt (attr_leaves A' ! a) = None \<longleftrightarrow> leaf_rbt (attr_leaves A ! a) = None)"
    by (simp add: kind_def)
qed

lemma same_shape_keys:
  assumes "same_shape A A'" and "a < length (attr_leaves A)"
  shows "leaf_keys (attr_leaves A' ! a) = leaf_keys (attr_leaves A ! a)"
    and "leaf_val (attr_leaves A' ! a) = leaf_val (attr_leaves A ! a)"
  using same_shape_leaf(3) [OF assms] by (simp_all add: leaf_keys_def leaf_val_def)

text \<open>Room for more pairs in every list.\<close>

definition spare :: "nat \<Rightarrow> index_anchor \<Rightarrow> bool" where
  "spare n A \<longleftrightarrow> n < 2 ^ 64 \<and> (\<forall>v < length (value_leaves A). length (leaf_pairs A v) + n < 2 ^ 64)"

text \<open>The value leaf of a key: what the tree has, or a new leaf with an empty list.\<close>

lemma leaf_get_upd_leaf [simp]: "leaf_get (l\<lparr>leaf_rbt := Some t\<rparr>) k = snd (rbt_find t k)"
  by (simp add: leaf_get_def)

lemma pair_list_create [simp]: "pair_list list_create []"
  by (simp add: pair_list_def)

definition with_leaf :: "nat \<Rightarrow> attr_leaf \<Rightarrow> index_anchor \<Rightarrow> index_anchor" where
  "with_leaf a l A = A\<lparr>attr_leaves := (attr_leaves A)[a := l],
     value_leaves := value_leaves A @ [\<lparr>file_obj_pair_list = Some list_create\<rparr>]\<rparr>"

lemma with_leaf_paths [simp]:
  "fpaths (with_leaf a l A) = fpaths A" "opaths (with_leaf a l A) = opaths A" "slots (with_leaf a l A) = slots A"
  "file_paths_list (with_leaf a l A) = file_paths_list A" "object_paths_list (with_leaf a l A) = object_paths_list A"
  "parallelism (with_leaf a l A) = parallelism A" "root_art_array (with_leaf a l A) = root_art_array A"
  "attr_leaves (with_leaf a l A) = (attr_leaves A)[a := l]"
  "length (value_leaves (with_leaf a l A)) = Suc (length (value_leaves A))"
  by (simp_all add: with_leaf_def fun_eq_iff fpaths_def opaths_def slots_def)

lemma with_leaf_pairs:
  "leaf_pairs (with_leaf a l A) v =
    (if v < length (value_leaves A) then leaf_pairs A v else if v = length (value_leaves A) then []
     else leaf_pairs (with_leaf a l A) v)"
  using pair_list_create by (simp add: with_leaf_def leaf_pairs_def nth_append pair_list_def)

lemma with_leaf_resolve [simp]:
  "valid_pair (with_leaf a l A) = valid_pair A" "resolve (with_leaf a l A) = resolve A"
  by (simp_all add: fun_eq_iff valid_pair_def resolve_def)

lemma with_leaf_postings:
  "v < length (value_leaves A) \<Longrightarrow> postings (with_leaf a l A) v = postings A v"
  "postings (with_leaf a l A) (length (value_leaves A)) = []"
  by (simp_all add: postings_def with_leaf_pairs)

lemma with_leaf_inv:
  assumes "paths_inv A" and "vals_inv A"
  shows "paths_inv (with_leaf a l A)" and "vals_inv (with_leaf a l A)"
proof -
  show "paths_inv (with_leaf a l A)" using assms(1) by (simp add: paths_inv_def)
  show "vals_inv (with_leaf a l A)"
    unfolding vals_inv_def with_leaf_paths
  proof (intro allI impI)
    fix v assume v: "v < Suc (length (value_leaves A))"
    show "\<exists>la. file_obj_pair_list (value_leaves (with_leaf a l A) ! v) = Some la \<and>
        pair_list la (leaf_pairs (with_leaf a l A) v) \<and>
        (\<forall>p\<in>set (leaf_pairs (with_leaf a l A) v). valid_pair (with_leaf a l A) p)"
    proof (cases "v < length (value_leaves A)")
      case True
      then have "value_leaves (with_leaf a l A) ! v = value_leaves A ! v"
        by (simp add: with_leaf_def nth_append)
      then show ?thesis
        using assms(2) True by (simp add: vals_inv_def with_leaf_pairs)
    next
      case False
      with v have "v = length (value_leaves A)" by simp
      then show ?thesis by (simp add: with_leaf_pairs) (simp add: with_leaf_def nth_append)
    qed
  qed
qed

lemma numeric_entry_new:
  assumes inv: "heap_inv A" and a: "a < length (attr_leaves A)" and t: "leaf_rbt (attr_leaves A ! a) = Some t"
    and k: "k \<in> leaf_keys (attr_leaves A ! a)" and none: "snd (rbt_find t k) = None"
  shows "\<exists>l. numeric_entry k a A = Inr (length (value_leaves A), with_leaf a l A) \<and> leaf_ok l \<and>
    kind l = kind (attr_leaves A ! a) \<and>
    (\<forall>k' \<in> leaf_keys (attr_leaves A ! a). leaf_get l k' =
      (if leaf_val (attr_leaves A ! a) k' = leaf_val (attr_leaves A ! a) k then Some (length (value_leaves A))
       else leaf_get (attr_leaves A ! a) k'))"
proof -
  let ?l = "attr_leaves A ! a" and ?v = "length (value_leaves A)"
  have ok: "leaf_ok ?l" using inv a by (simp add: heap_inv_def leaves_inv_def)
  obtain rc t' where t': "rbt_add t k ?v = Some (rc, t')" "leaf_ok (?l\<lparr>leaf_rbt := Some t'\<rparr>)"
    "\<forall>k' \<in> leaf_keys ?l. leaf_get (?l\<lparr>leaf_rbt := Some t'\<rparr>) k' =
      (if leaf_val ?l k' = leaf_val ?l k then Some ?v else leaf_get ?l k')"
    using leaf_add [OF ok k t] by blast
  have "numeric_entry k a A = Inr (?v, with_leaf a (?l\<lparr>leaf_rbt := Some t'\<rparr>) A)"
    using a t none t'(1)
    by (simp add: numeric_entry_def heap_defs leaf_rbt_add_def with_leaf_def case_prod_unfold list_update_append)
  with t' t show ?thesis by (intro exI [of _ "?l\<lparr>leaf_rbt := Some t'\<rparr>"]) (simp add: kind_def)
qed

lemma kind_keys: "kind l = kind l' \<Longrightarrow> leaf_keys l = leaf_keys l' \<and> leaf_val l = leaf_val l'"
  by (simp add: kind_def leaf_keys_def leaf_val_def)

lemma with_leaf_shape:
  assumes "a < length (attr_leaves A)" and "kind l = kind (attr_leaves A ! a)"
  shows "same_shape A (with_leaf a l A)"
  using assms by (simp add: same_shape_def map_update) (metis list_update_id map_update nth_map length_map)

lemma with_leaf_owns:
  assumes a: "a < length (attr_leaves A)" and l: "kind l = kind (attr_leaves A ! a)"
    and get: "\<forall>k' \<in> leaf_keys (attr_leaves A ! a). leaf_get l k' =
      (if leaf_val (attr_leaves A ! a) k' = leaf_val (attr_leaves A ! a) k then Some (length (value_leaves A))
       else leaf_get (attr_leaves A ! a) k')"
  shows "owns (with_leaf a l A) b k' v \<longleftrightarrow>
    (if b = a \<and> leaf_val (attr_leaves A ! a) k' = leaf_val (attr_leaves A ! a) k
     then k' \<in> leaf_keys (attr_leaves A ! a) \<and> v = length (value_leaves A) else owns A b k' v)"
  using a get kind_keys [OF l] by (auto simp: owns_def nth_list_update)

lemma with_leaf_leaves:
  assumes inv: "leaves_inv A" and a: "a < length (attr_leaves A)"
    and l: "kind l = kind (attr_leaves A ! a)" "leaf_ok l"
    and get: "\<forall>k' \<in> leaf_keys (attr_leaves A ! a). leaf_get l k' =
      (if leaf_val (attr_leaves A ! a) k' = leaf_val (attr_leaves A ! a) k then Some (length (value_leaves A))
       else leaf_get (attr_leaves A ! a) k')"
  shows "leaves_inv (with_leaf a l A)"
proof -
  note own = with_leaf_owns [OF a l(1) get]
  have ok: "\<forall>b < length (attr_leaves A). leaf_ok (attr_leaves A ! b)"
    and bnd: "\<And>b k v. owns A b k v \<Longrightarrow> v < length (value_leaves A)"
    and uniq: "\<And>b c k k' v. owns A b k v \<Longrightarrow> owns A c k' v \<Longrightarrow>
        b = c \<and> leaf_val (attr_leaves A ! b) k = leaf_val (attr_leaves A ! b) k'"
    using inv unfolding leaves_inv_def by blast+
  have val: "leaf_val ((attr_leaves A)[a := l] ! b) = leaf_val (attr_leaves A ! b)" for b
    using kind_keys [OF l(1)] a by (cases "b = a") auto
  have "b = c \<and> leaf_val (attr_leaves A ! b) k1 = leaf_val (attr_leaves A ! b) k2"
    if "owns (with_leaf a l A) b k1 v" and "owns (with_leaf a l A) c k2 v" for b c k1 k2 v
    using that bnd [of b k1 v] bnd [of c k2 v] uniq [of b k1 v c k2] unfolding own by (auto split: if_splits)
  moreover have "v < Suc (length (value_leaves A))" if "owns (with_leaf a l A) b k1 v" for b k1 v
    using that bnd [of b k1 v] unfolding own by (auto split: if_splits)
  moreover have "\<forall>b < length (attr_leaves A). leaf_ok ((attr_leaves A)[a := l] ! b)"
    using ok l(2) a by (simp add: nth_list_update)
  ultimately show ?thesis
    unfolding leaves_inv_def with_leaf_paths val length_list_update by blast
qed

lemma with_leaf_found:
  assumes inv: "leaves_inv A" and a: "a < length (attr_leaves A)" and k: "k \<in> leaf_keys (attr_leaves A ! a)"
    and none: "leaf_get (attr_leaves A ! a) k = None"
    and get: "\<forall>k' \<in> leaf_keys (attr_leaves A ! a). leaf_get l k' =
      (if leaf_val (attr_leaves A ! a) k' = leaf_val (attr_leaves A ! a) k then Some (length (value_leaves A))
       else leaf_get (attr_leaves A ! a) k')"
    and b: "b < length (attr_leaves A)" "k' \<in> leaf_keys (attr_leaves A ! b)"
  shows "found (with_leaf a l A) b k' = found A b k'"
proof (cases "b = a \<and> leaf_val (attr_leaves A ! a) k' = leaf_val (attr_leaves A ! a) k")
  case True
  then have "leaf_get (attr_leaves A ! b) k' = None"
    using leaf_get_same_val [of "attr_leaves A ! a" k' k] inv a b k none by (simp add: leaves_inv_def)
  then show ?thesis using True get a b by (simp add: found_def with_leaf_postings)
next
  case False
  then have "leaf_get ((attr_leaves A)[a := l] ! b) k' = leaf_get (attr_leaves A ! b) k'"
    using get a b by (auto simp: nth_list_update)
  moreover have "v < length (value_leaves A)" if "leaf_get (attr_leaves A ! b) k' = Some v" for v
    using that inv b unfolding leaves_inv_def owns_def by blast
  ultimately show ?thesis by (simp add: found_def with_leaf_postings split: option.splits)
qed

lemma with_leaf_spare: "spare n A \<Longrightarrow> spare n (with_leaf a l A)"
  by (auto simp: spare_def with_leaf_pairs less_Suc_eq)

lemma numeric_entry_spec:
  assumes inv: "heap_inv A" and a: "a < length (attr_leaves A)" "leaf_rbt (attr_leaves A ! a) \<noteq> None"
    and k: "k \<in> leaf_keys (attr_leaves A ! a)"
  shows "\<exists>v A1. numeric_entry k a A = Inr (v, A1) \<and> heap_inv A1 \<and> same_shape A A1 \<and> owns A1 a k v \<and>
    fpaths A1 = fpaths A \<and> opaths A1 = opaths A \<and> (\<forall>n. spare n A \<longrightarrow> spare n A1) \<and>
    (\<forall>b k'. b < length (attr_leaves A) \<longrightarrow> k' \<in> leaf_keys (attr_leaves A ! b) \<longrightarrow> found A1 b k' = found A b k')"
proof -
  obtain t where t: "leaf_rbt (attr_leaves A ! a) = Some t" using a(2) by blast
  have lv: "leaves_inv A" using inv by (simp add: heap_inv_def)
  show ?thesis
  proof (cases "snd (rbt_find t k)")
    case (Some v)
    then have "numeric_entry k a A = Inr (v, A)"
      using a(1) t by (simp add: numeric_entry_def heap_defs case_prod_unfold)
    with Some t a k inv show ?thesis by (intro exI [of _ v] exI [of _ A]) (simp add: owns_def leaf_get_def)
  next
    case None
    obtain l where run: "numeric_entry k a A = Inr (length (value_leaves A), with_leaf a l A)"
      and l: "leaf_ok l" "kind l = kind (attr_leaves A ! a)"
        "\<forall>k' \<in> leaf_keys (attr_leaves A ! a). leaf_get l k' =
          (if leaf_val (attr_leaves A ! a) k' = leaf_val (attr_leaves A ! a) k then Some (length (value_leaves A))
           else leaf_get (attr_leaves A ! a) k')"
      using numeric_entry_new [OF inv a(1) t k None] by blast
    have "heap_inv (with_leaf a l A)"
      using inv with_leaf_inv [of A a l] with_leaf_leaves [OF lv a(1) l(2,1,3)] by (simp add: heap_inv_def)
    moreover have "owns (with_leaf a l A) a k (length (value_leaves A))"
      using k unfolding with_leaf_owns [OF a(1) l(2,3)] by simp
    moreover have "leaf_get (attr_leaves A ! a) k = None" using None t by (simp add: leaf_get_def)
    note with_leaf_found [OF lv a(1) k this l(3)]
    ultimately show ?thesis
      using run with_leaf_shape [OF a(1) l(2)] with_leaf_spare by fastforce
  qed
qed

lemma same_trees_facts:
  assumes "same_trees A A'"
  shows "same_shape A A'" and "owns A' = owns A" and "leaves_inv A \<Longrightarrow> leaves_inv A'"
  using assms by (auto simp: same_trees_def same_shape_def owns_def leaves_inv_def fun_eq_iff)

lemma push_found:
  assumes lv: "leaves_inv A" and tr: "same_trees A A'" and v: "owns A a k v"
    and new: "postings A' v = postings A v @ [x]"
    and old: "\<forall>w < length (value_leaves A). w \<noteq> v \<longrightarrow> postings A' w = postings A w"
    and b: "b < length (attr_leaves A)" "k' \<in> leaf_keys (attr_leaves A ! b)"
  shows "found A' b k' = found A b k' @
    (if b = a \<and> leaf_val (attr_leaves A ! a) k' = leaf_val (attr_leaves A ! a) k then [x] else [])"
proof -
  have leaves: "attr_leaves A' = attr_leaves A" using tr by (simp add: same_trees_def)
  show ?thesis
  proof (cases "b = a \<and> leaf_val (attr_leaves A ! a) k' = leaf_val (attr_leaves A ! a) k")
    case True
    have "leaf_ok (attr_leaves A ! a)" "k \<in> leaf_keys (attr_leaves A ! a)" "leaf_get (attr_leaves A ! a) k = Some v"
      using lv v by (auto simp: leaves_inv_def owns_def)
    then have "leaf_get (attr_leaves A ! b) k' = Some v"
      using leaf_get_same_val [of "attr_leaves A ! a" k' k] True b by simp
    then show ?thesis using True new leaves by (simp add: found_def)
  next
    case False
    have "w < length (value_leaves A) \<and> w \<noteq> v" if w: "leaf_get (attr_leaves A ! b) k' = Some w" for w
    proof -
      have own: "owns A b k' w" using w b by (simp add: owns_def)
      have "w \<noteq> v" if "w = v" using lv own v False that unfolding leaves_inv_def by metis
      then show ?thesis using lv own unfolding leaves_inv_def by blast
    qed
    then show ?thesis using False old leaves by (simp add: found_def split: option.splits)
  qed
qed

definition leaf_size :: "attr_leaf \<Rightarrow> nat" where
  "leaf_size l = (if is_float l = 0 then 4 else 8)"

definition posts :: "attr_leaf \<Rightarrow> byte list \<Rightarrow> byte list list \<Rightarrow> 'x \<Rightarrow> 'x list" where
  "posts l k ks x = replicate (length (filter (\<lambda>k'. leaf_val l k = leaf_val l k') ks)) x"

lemma posts_simps [simp]:
  "posts l k [] x = []" "posts l k (k' # ks) x = (if leaf_val l k = leaf_val l k' then [x] else []) @ posts l k ks x"
  by (simp_all add: posts_def)

text \<open>One round: the pair is posted under the value, nothing is lost and nothing else appears.\<close>

lemma numeric_step_spec:
  assumes inv: "heap_inv A" and pos: "pos < slots A"
    and room: "room f (fpaths A pos)" "room ob (opaths A pos)"
    and a: "a < length (attr_leaves A)" "leaf_rbt (attr_leaves A ! a) \<noteq> None"
    and k: "k \<in> leaf_keys (attr_leaves A ! a)" "num_elem arr (leaf_size (attr_leaves A ! a)) i = Inr k"
    and sp: "spare (Suc n) A"
  shows "\<exists>A'. numeric_step pos arr i (Str_Ptr f) (Str_Ptr ob) a A = Inr A' \<and> heap_inv A' \<and> same_shape A A' \<and> spare n A' \<and>
    f \<in> set (fpaths A' pos) \<and> ob \<in> set (opaths A' pos) \<and>
    (\<forall>b k'. b < length (attr_leaves A) \<longrightarrow> k' \<in> leaf_keys (attr_leaves A ! b) \<longrightarrow>
      found A' b k' = found A b k' @ (if b = a then posts (attr_leaves A ! a) k' [k] (f, ob) else []))"
proof -
  obtain v A1 where e: "numeric_entry k a A = Inr (v, A1)" and A1: "heap_inv A1" "same_shape A A1" "owns A1 a k v"
    "fpaths A1 = fpaths A" "opaths A1 = opaths A" "spare (Suc n) A1"
    and fnd: "\<forall>b k'. b < length (attr_leaves A) \<longrightarrow> k' \<in> leaf_keys (attr_leaves A ! b) \<longrightarrow> found A1 b k' = found A b k'"
    using numeric_entry_spec [OF inv a k(1)] sp by blast
  have A1': "paths_inv A1" "vals_inv A1" "leaves_inv A1" "pos < slots A1"
    using A1(1) pos same_shape_leaf(2) [OF A1(2)] by (simp_all add: heap_inv_def)
  have v: "v < length (value_leaves A1)" using A1'(3) A1(3) unfolding leaves_inv_def by blast
  have full: "Suc (length (leaf_pairs A1 v)) < 2 ^ 64" using A1(6) v by (auto simp: spare_def)
  obtain A' where p: "push_pair pos (Str_Ptr f) (Str_Ptr ob) v A1 = Inr A'" "paths_inv A'" "vals_inv A'" "same_trees A1 A'"
    "postings A' v = postings A1 v @ [(f, ob)]" "length (leaf_pairs A' v) = Suc (length (leaf_pairs A1 v))"
    "f \<in> set (fpaths A' pos)" "ob \<in> set (opaths A' pos)"
    and other: "\<forall>w < length (value_leaves A1). w \<noteq> v \<longrightarrow> postings A' w = postings A1 w \<and> leaf_pairs A' w = leaf_pairs A1 w"
    using push_pair_spec [OF A1'(1,2,4) _ _ v full, of f ob] room A1(4,5) by auto
  note tr = same_trees_facts [OF p(4)]
  have "numeric_step pos arr i (Str_Ptr f) (Str_Ptr ob) a A = Inr A'"
    using a(1) k(2) e p(1) by (simp add: numeric_step_def heap_defs leaf_size_def)
  moreover have "heap_inv A'" using p tr(3) A1'(3) by (simp add: heap_inv_def)
  moreover have "spare n A'"
    unfolding spare_def
  proof (intro conjI allI impI)
    fix w assume "w < length (value_leaves A')"
    then have "w < length (value_leaves A1)" using p(4) by (simp add: same_trees_def)
    then show "length (leaf_pairs A' w) + n < 2 ^ 64"
      using other A1(6) p(6) by (cases "w = v") (auto simp: spare_def)
  qed (use sp in \<open>simp add: spare_def\<close>)
  moreover have "found A' b k' = found A b k' @ (if b = a then posts (attr_leaves A ! a) k' [k] (f, ob) else [])"
    if b: "b < length (attr_leaves A)" "k' \<in> leaf_keys (attr_leaves A ! b)" for b k'
  proof -
    have "b < length (attr_leaves A1)" "k' \<in> leaf_keys (attr_leaves A1 ! b)"
      using b same_shape_leaf(1) [OF A1(2)] same_shape_keys [OF A1(2) b(1)] by auto
    from push_found [OF A1'(3) p(4) A1(3) p(5) _ this] other
    show ?thesis using fnd b same_shape_keys [OF A1(2) a(1)] by simp
  qed
  ultimately show ?thesis
    using p(7,8) same_shape_trans [OF A1(2) tr(1)] by blast
qed

lemma numeric_loop_spec:
  assumes "heap_inv A" and "pos < slots A"
    and "room f (fpaths A pos)" "room ob (opaths A pos)"
    and "a < length (attr_leaves A)" "leaf_rbt (attr_leaves A ! a) \<noteq> None"
    and "set ks \<subseteq> leaf_keys (attr_leaves A ! a)"
    and "\<forall>j < length ks. num_elem arr (leaf_size (attr_leaves A ! a)) (i + j) = Inr (ks ! j)"
    and "spare (length ks) A"
  shows "\<exists>A'. numeric_loop (length ks) i pos arr (Str_Ptr f) (Str_Ptr ob) a A = Inr A' \<and> heap_inv A' \<and> same_shape A A' \<and>
    (\<forall>b k'. b < length (attr_leaves A) \<longrightarrow> k' \<in> leaf_keys (attr_leaves A ! b) \<longrightarrow>
      found A' b k' = found A b k' @ (if b = a then posts (attr_leaves A ! a) k' ks (f, ob) else []))"
  using assms
proof (induction ks arbitrary: i A)
  case (Cons k ks)
  have hd: "num_elem arr (leaf_size (attr_leaves A ! a)) i = Inr k" using Cons.prems(8) by force
  obtain A1 where A1: "numeric_step pos arr i (Str_Ptr f) (Str_Ptr ob) a A = Inr A1" "heap_inv A1" "same_shape A A1"
    "spare (length ks) A1" "f \<in> set (fpaths A1 pos)" "ob \<in> set (opaths A1 pos)"
    and f1: "\<forall>b k'. b < length (attr_leaves A) \<longrightarrow> k' \<in> leaf_keys (attr_leaves A ! b) \<longrightarrow>
      found A1 b k' = found A b k' @ (if b = a then posts (attr_leaves A ! a) k' [k] (f, ob) else [])"
    using numeric_step_spec [OF Cons.prems(1-6) _ hd, of "length ks"] Cons.prems(7,9) by auto
  note sh = same_shape_leaf [OF A1(3)] and ks = same_shape_keys [OF A1(3)]
  have sz: "leaf_size (attr_leaves A1 ! a) = leaf_size (attr_leaves A ! a)"
    using sh(3) [OF Cons.prems(5)] by (simp add: leaf_size_def)
  have rm: "room f (fpaths A1 pos)" "room ob (opaths A1 pos)"
    using A1(5,6) Cons.prems(3,4) by (simp_all add: room_def)
  have tl: "\<forall>j < length ks. num_elem arr (leaf_size (attr_leaves A1 ! a)) (Suc i + j) = Inr (ks ! j)"
    using Cons.prems(8) unfolding sz by fastforce
  obtain A2 where A2: "numeric_loop (length ks) (Suc i) pos arr (Str_Ptr f) (Str_Ptr ob) a A1 = Inr A2" "heap_inv A2" "same_shape A1 A2"
    and f2: "\<forall>b k'. b < length (attr_leaves A1) \<longrightarrow> k' \<in> leaf_keys (attr_leaves A1 ! b) \<longrightarrow>
      found A2 b k' = found A1 b k' @ (if b = a then posts (attr_leaves A1 ! a) k' ks (f, ob) else [])"
    using Cons.IH [OF A1(2) _ rm _ _ _ tl A1(4)] Cons.prems(2,5-7) sh ks(1) [OF Cons.prems(5)] by auto
  have "posts (attr_leaves A1 ! a) = (posts (attr_leaves A ! a) :: _ \<Rightarrow> _ \<Rightarrow> cstring \<times> cstring \<Rightarrow> _)"
    using ks(2) [OF Cons.prems(5)] by (simp add: posts_def fun_eq_iff)
  then have "found A2 b k' = found A b k' @ (if b = a then posts (attr_leaves A ! a) k' (k # ks) (f, ob) else [])"
    if "b < length (attr_leaves A)" "k' \<in> leaf_keys (attr_leaves A ! b)" for b k'
    using that f1 f2 sh(1) ks(1) by simp
  with A1(1) A2 same_shape_trans [OF A1(3) A2(3)] show ?case by simp
qed simp

section \<open>Name trees\<close>

definition slot_of :: "index_anchor \<Rightarrow> cstring \<Rightarrow> nat" where
  "slot_of A name = unat (djb2_hash name mod (scast (parallelism A) :: uint64))"

text \<open>The attribute leaf of a name, as the tree of its slot has it.\<close>

definition attr_of :: "index_anchor \<Rightarrow> cstring \<Rightarrow> nat option" where
  "attr_of A name = tree_map (root_art_array A ! slot_of A name) name"

text \<open>A leaf of the two numeric types, as the indexer sets it up.\<close>

definition num_leaf :: "attr_leaf \<Rightarrow> bool" where
  "num_leaf l \<longleftrightarrow> is_numeric l \<noteq> 0 \<and> is_float l \<in> {0, 1} \<and> leaf_rbt l \<noteq> None"

lemma num_leaf_rbt: "num_leaf l \<Longrightarrow> leaf_rbt l \<noteq> None"
  by (simp add: num_leaf_def)

definition names_inv :: "index_anchor \<Rightarrow> bool" where
  "names_inv A \<longleftrightarrow> length (root_art_array A) = slots A \<and> (\<forall>i < slots A. tree_inv (root_art_array A ! i)) \<and>
     (\<forall>n a. attr_of A n = Some a \<longrightarrow> a < length (attr_leaves A) \<and> num_leaf (attr_leaves A ! a)) \<and>
     (\<forall>n m a. attr_of A n = Some a \<longrightarrow> attr_of A m = Some a \<longrightarrow> n = m)"

definition index_inv :: "index_anchor \<Rightarrow> bool" where
  "index_inv A \<longleftrightarrow> heap_inv A \<and> names_inv A"

text \<open>The abstract index: the paths posted under an attribute name and a value, in order.\<close>

definition index_lookup :: "index_anchor \<Rightarrow> cstring \<Rightarrow> byte list \<Rightarrow> (cstring \<times> cstring) list" where
  "index_lookup A name k = (case attr_of A name of None \<Rightarrow> [] | Some a \<Rightarrow> found A a k)"

text \<open>A value of the type the attribute was first indexed with.\<close>

definition key_of :: "index_anchor \<Rightarrow> cstring \<Rightarrow> byte list \<Rightarrow> bool" where
  "key_of A name k \<longleftrightarrow> (\<forall>a. attr_of A name = Some a \<longrightarrow> k \<in> leaf_keys (attr_leaves A ! a))"

lemma hash_slot_of:
  assumes "heap_inv A"
  shows "hash_slot name (parallelism A) = Inr (slot_of A name)" and "slot_of A name < slots A"
proof -
  have p: "0 < sint (parallelism A)" using assms by (simp add: heap_inv_def paths_inv_def)
  then have "parallelism A \<noteq> 0" by auto
  then show h: "hash_slot name (parallelism A) = Inr (slot_of A name)"
    by (simp add: hash_slot_def slot_of_def)
  show "slot_of A name < slots A" using hash_slot_bound [OF p h] by (simp add: slots_def)
qed

text \<open>A new attribute leaf with an empty value tree, entered under its name.\<close>

definition with_attr :: "attr_leaf \<Rightarrow> nat \<Rightarrow> nat art_tree \<Rightarrow> index_anchor \<Rightarrow> index_anchor" where
  "with_attr l i t A = A\<lparr>attr_leaves := attr_leaves A @ [l], root_art_array := (root_art_array A)[i := t]\<rparr>"

lemma with_attr_simps [simp]:
  "attr_leaves (with_attr l i t A) = attr_leaves A @ [l]" "value_leaves (with_attr l i t A) = value_leaves A"
  "root_art_array (with_attr l i t A) = (root_art_array A)[i := t]" "parallelism (with_attr l i t A) = parallelism A"
  "file_paths_list (with_attr l i t A) = file_paths_list A" "object_paths_list (with_attr l i t A) = object_paths_list A"
  "slots (with_attr l i t A) = slots A" "fpaths (with_attr l i t A) = fpaths A" "opaths (with_attr l i t A) = opaths A"
  "leaf_pairs (with_attr l i t A) = leaf_pairs A" "spare n (with_attr l i t A) = spare n A"
  "slot_of (with_attr l i t A) = slot_of A"
  by (simp_all add: with_attr_def fun_eq_iff fpaths_def opaths_def slots_def leaf_pairs_def spare_def slot_of_def)

lemma with_attr_pairs [simp]:
  "valid_pair (with_attr l i t A) = valid_pair A" "resolve (with_attr l i t A) = resolve A"
  "postings (with_attr l i t A) = postings A"
  by (simp_all add: fun_eq_iff valid_pair_def resolve_def postings_def)

definition empty_leaf :: "attr_leaf \<Rightarrow> bool" where
  "empty_leaf l \<longleftrightarrow> leaf_ok l \<and> num_leaf l \<and> (\<forall>k. leaf_get l k = None)"

lemma with_attr_owns: "empty_leaf l \<Longrightarrow> owns (with_attr l i t A) = owns A"
  by (auto simp: fun_eq_iff owns_def nth_append empty_leaf_def)

lemma with_attr_heap:
  assumes "heap_inv A" and "empty_leaf l"
  shows "heap_inv (with_attr l i t A)"
proof -
  have lv: "leaves_inv A" using assms(1) by (simp add: heap_inv_def)
  have "leaves_inv (with_attr l i t A)"
    unfolding leaves_inv_def with_attr_owns [OF assms(2)]
  proof (intro conjI allI impI)
    fix a b k k' v assume o: "owns A a k v" "owns A b k' v"
    then show "a = b" using lv unfolding leaves_inv_def by blast
    have "a < length (attr_leaves A)" using o(1) by (simp add: owns_def)
    moreover have "leaf_val (attr_leaves A ! a) k = leaf_val (attr_leaves A ! a) k'"
      using lv o unfolding leaves_inv_def by blast
    ultimately show "leaf_val (attr_leaves (with_attr l i t A) ! a) k = leaf_val (attr_leaves (with_attr l i t A) ! a) k'"
      by (simp add: nth_append)
  qed (use lv assms(2) in \<open>auto simp: leaves_inv_def empty_leaf_def nth_append less_Suc_eq\<close>)
  then show ?thesis
    using assms(1) by (simp add: heap_inv_def paths_inv_def vals_inv_def)
qed

lemma with_attr_found:
  "b < length (attr_leaves A) \<Longrightarrow> found (with_attr l i t A) b k = found A b k"
  "empty_leaf l \<Longrightarrow> found (with_attr l i t A) (length (attr_leaves A)) k = []"
  by (simp_all add: found_def nth_append empty_leaf_def split: option.split)

lemma with_attr_of:
  assumes "slot_of A name < length (root_art_array A)"
    and "tree_map t = (tree_map (root_art_array A ! slot_of A name))(name \<mapsto> length (attr_leaves A))"
  shows "attr_of (with_attr l (slot_of A name) t A) n = (if n = name then Some (length (attr_leaves A)) else attr_of A n)"
  using assms by (simp add: attr_of_def nth_list_update)

lemma with_attr_names:
  assumes inv: "heap_inv A" "names_inv A" and t: "tree_inv t"
    "tree_map t = (tree_map (root_art_array A ! slot_of A name))(name \<mapsto> length (attr_leaves A))"
    and l: "num_leaf l"
  shows "names_inv (with_attr l (slot_of A name) t A)"
proof -
  have bnd: "\<And>n a. attr_of A n = Some a \<Longrightarrow> a < length (attr_leaves A) \<and> num_leaf (attr_leaves A ! a)"
    and inj: "\<And>n m a. attr_of A n = Some a \<Longrightarrow> attr_of A m = Some a \<Longrightarrow> n = m"
    using inv(2) unfolding names_inv_def by blast+
  have at: "attr_of (with_attr l (slot_of A name) t A) n = (if n = name then Some (length (attr_leaves A)) else attr_of A n)" for n
    using hash_slot_of(2) [OF inv(1), of name] inv(2) by (intro with_attr_of [OF _ t(2)]) (simp add: names_inv_def)
  have "a < Suc (length (attr_leaves A)) \<and> num_leaf ((attr_leaves A @ [l]) ! a)"
    if "attr_of (with_attr l (slot_of A name) t A) n = Some a" for n a
    using that l bnd [of n a] unfolding at by (auto simp: nth_append split: if_splits)
  moreover have "n = m" if "attr_of (with_attr l (slot_of A name) t A) n = Some a"
    "attr_of (with_attr l (slot_of A name) t A) m = Some a" for n m a
    using that bnd [of n a] bnd [of m a] inj [of n a m] unfolding at by (auto split: if_splits)
  moreover have "\<forall>i < slots A. tree_inv ((root_art_array A)[slot_of A name := t] ! i)"
    using inv(2) t(1) hash_slot_of(2) [OF inv(1), of name] by (auto simp: names_inv_def nth_list_update)
  ultimately show ?thesis
    using inv(2) unfolding names_inv_def by (simp add: nth_append)
qed

text \<open>The leaf of the two numeric types.\<close>

definition numeric_type :: "miqs_attr_type \<Rightarrow> bool" where
  "numeric_type t \<longleftrightarrow> t = MIQS_AT_INTEGER \<or> t = MIQS_AT_FLOAT"

definition fits :: "miqs_attr_type \<Rightarrow> attr_leaf \<Rightarrow> bool" where
  "fits t l \<longleftrightarrow> (is_float l = 0 \<longleftrightarrow> t = MIQS_AT_INTEGER)"

definition type_keys :: "miqs_attr_type \<Rightarrow> byte list set" where
  "type_keys t = (if t = MIQS_AT_INTEGER then int_keys else dbl_keys)"

definition type_val :: "miqs_attr_type \<Rightarrow> byte list \<Rightarrow> int" where
  "type_val t = (if t = MIQS_AT_INTEGER then int_key else dbl_key)"

definition type_size :: "miqs_attr_type \<Rightarrow> nat" where
  "type_size t = (if t = MIQS_AT_INTEGER then 4 else 8)"

lemma fits_simps:
  assumes "fits t l"
  shows "leaf_keys l = type_keys t" and "leaf_val l = type_val t" and "leaf_size l = type_size t"
  using assms by (auto simp: fits_def leaf_keys_def type_keys_def leaf_val_def type_val_def leaf_size_def type_size_def)

lemma attr_leaf_for_numeric:
  assumes "numeric_type t"
  shows "\<exists>l. attr_leaf_for t = (l, True) \<and> empty_leaf l \<and> fits t l"
  using assms int_order.rbt_ok_create double_order.rbt_ok_create
  by (auto simp: numeric_type_def attr_leaf_for_def empty_leaf_def num_leaf_def leaf_ok_def leaf_get_def fits_def
      zero_attr_leaf_def rbt_find_def rbt_create_def)

lemma find_attr_leaf_spec:
  assumes inv: "index_inv A" and t: "numeric_type t" and name: "no_nul name"
    and search: "art_search (root_art_array A ! slot_of A name) name \<noteq> Inl Out_Of_Bounds"
    and ty: "\<forall>a. attr_of A name = Some a \<longrightarrow> fits t (attr_leaves A ! a)"
  shows "\<exists>a A1. find_attr_leaf (slot_of A name) name t A = Inr (a, A1) \<and> index_inv A1 \<and>
    attr_of A1 name = Some a \<and> fits t (attr_leaves A1 ! a) \<and>
    slots A1 = slots A \<and> fpaths A1 = fpaths A \<and> opaths A1 = opaths A \<and> (\<forall>n. spare n A \<longrightarrow> spare n A1) \<and>
    (\<forall>n k. key_of A1 n k \<longrightarrow> key_of A n k) \<and> (\<forall>n k. index_lookup A1 n k = index_lookup A n k)"
proof -
  let ?i = "slot_of A name"
  let ?art = "root_art_array A ! ?i"
  have h: "heap_inv A" "names_inv A" using inv by (simp_all add: index_inv_def)
  have i: "?i < length (root_art_array A)" "?i < slots A"
    using hash_slot_of(2) [OF h(1), of name] h(2) by (simp_all add: names_inv_def)
  have art: "tree_inv ?art" using h(2) i by (simp add: names_inv_def)
  have s: "art_search ?art name = Inr (attr_of A name)"
    using art.get_law [OF art, of name] search by (auto simp: attr_of_def)
  show ?thesis
  proof (cases "attr_of A name")
    case (Some a)
    then have "find_attr_leaf ?i name t A = Inr (a, A)" using i s by (simp add: find_attr_leaf_def)
    with Some inv ty show ?thesis by (intro exI [of _ a] exI [of _ A]) simp
  next
    case None
    let ?a = "length (attr_leaves A)"
    obtain l where l: "attr_leaf_for t = (l, True)" "empty_leaf l" "fits t l"
      using attr_leaf_for_numeric [OF t] by blast
    obtain art' where art': "art_insert ?art name ?a = Inr (art', tree_map ?art name)" "tree_inv art'"
      "tree_map art' = (tree_map ?art)(name \<mapsto> ?a)"
      using art.add_law [OF art name, of ?a] by blast
    let ?A1 = "with_attr l ?i art' A"
    have run: "find_attr_leaf ?i name t A = Inr (?a, ?A1)"
      using i s None l(1) art'(1) by (simp add: find_attr_leaf_def heap_defs with_attr_def list_update_append)
    have at: "attr_of ?A1 n = (if n = name then Some ?a else attr_of A n)" for n
      by (rule with_attr_of [OF i(1) art'(3)])
    have inv1: "index_inv ?A1"
      using with_attr_heap [OF h(1) l(2)] with_attr_names [OF h art'(2,3)] l(2)
      by (simp add: index_inv_def empty_leaf_def)
    have old: "a < ?a" if "attr_of A n = Some a" for n a
      using that h(2) unfolding names_inv_def by blast
    then have "index_lookup ?A1 n k = index_lookup A n k" for n k
      using None l(2) by (auto simp: index_lookup_def at with_attr_found split: option.split)
    moreover have "key_of A n k" if "key_of ?A1 n k" for n k
    proof (cases "n = name")
      case True
      then show ?thesis using None by (simp add: key_of_def)
    next
      case False
      then show ?thesis using that old by (auto simp: key_of_def at nth_append)
    qed
    ultimately show ?thesis using run inv1 at l(3) by (intro exI [of _ ?a] exI [of _ ?A1]) simp
  qed
qed

lemma num_elem_concat:
  assumes "\<forall>k \<in> set ks. length k = sz" and "j < length ks"
  shows "num_elem (Num_Array (concat ks)) sz j = Inr (ks ! j)"
proof -
  have len: "length (concat xs) = length xs * sz" if "\<forall>k \<in> set xs. length k = sz" for xs :: "byte list list"
    using that by (induction xs) auto
  have "concat ks = concat (take j ks) @ ks ! j @ concat (drop (Suc j) ks)"
    by (metis append_take_drop_id assms(2) concat.simps(2) concat_append Cons_nth_drop_Suc)
  moreover have "length (concat (take j ks)) = j * sz"
    using len [of "take j ks"] assms by (auto dest: in_set_takeD)
  moreover have "(j + 1) * sz \<le> length (concat ks)"
    using len [OF assms(1)] assms(2) by (metis Suc_eq_plus1 Suc_leI mult_le_mono1)
  moreover have "length (ks ! j) = sz" using assms by simp
  ultimately show ?thesis by (simp add: num_elem_def)
qed

lemma type_keys_length: "numeric_type t \<Longrightarrow> k \<in> type_keys t \<Longrightarrow> length k = type_size t"
  by (auto simp: type_keys_def type_size_def int_keys_def dbl_keys_def split: if_splits)

lemma same_shape_names:
  assumes "names_inv A" and "same_shape A A'"
  shows "names_inv A'" and "attr_of A' = attr_of A"
proof -
  show at: "attr_of A' = attr_of A"
    using assms(2) by (simp add: fun_eq_iff attr_of_def slot_of_def same_shape_def)
  have art: "root_art_array A' = root_art_array A" using assms(2) by (simp add: same_shape_def)
  have "a < length (attr_leaves A') \<and> num_leaf (attr_leaves A' ! a)" if "attr_of A n = Some a" for n a
  proof -
    have "a < length (attr_leaves A) \<and> num_leaf (attr_leaves A ! a)"
      using that assms(1) unfolding names_inv_def by blast
    with same_shape_leaf [OF assms(2)] show ?thesis by (auto simp: num_leaf_def)
  qed
  then show "names_inv A'"
    using assms(1) unfolding names_inv_def at art same_shape_leaf(2) [OF assms(2)] by blast
qed

text \<open>An attribute with file and object path, and an index that can take it.\<close>

definition can_index :: "index_anchor \<Rightarrow> miqs_meta_attribute \<Rightarrow> byte list list \<Rightarrow> cstring \<Rightarrow> cstring \<Rightarrow> bool" where
  "can_index A attr ks f ob \<longleftrightarrow>
     numeric_type (attr_type attr) \<and> no_nul (attr_name attr) \<and>
     attribute_value attr = Num_Array (concat ks) \<and> sint (attribute_value_length attr) = int (length ks) \<and>
     set ks \<subseteq> type_keys (attr_type attr) \<and> file_path_str attr = Str_Ptr f \<and> obj_path_str attr = Str_Ptr ob \<and>
     art_search (root_art_array A ! slot_of A (attr_name attr)) (attr_name attr) \<noteq> Inl Out_Of_Bounds \<and>
     (\<forall>a. attr_of A (attr_name attr) = Some a \<longrightarrow> fits (attr_type attr) (attr_leaves A ! a)) \<and>
     room f (fpaths A (slot_of A (attr_name attr))) \<and> room ob (opaths A (slot_of A (attr_name attr))) \<and>
     spare (length ks) A"

definition occurrences :: "miqs_attr_type \<Rightarrow> byte list \<Rightarrow> byte list list \<Rightarrow> nat" where
  "occurrences t k ks = length (filter (\<lambda>k'. type_val t k = type_val t k') ks)"

lemma create_in_mem_index_spec:
  assumes inv: "index_inv A" and can: "can_index A attr ks f ob"
  shows "\<exists>A'. create_in_mem_index_for_attr A attr = Inr A' \<and> index_inv A' \<and>
    (\<forall>n k. key_of A' n k \<longrightarrow> key_of A n k) \<and>
    (\<exists>a. attr_of A' (attr_name attr) = Some a \<and> fits (attr_type attr) (attr_leaves A' ! a)) \<and>
    (\<forall>n k. key_of A' n k \<longrightarrow> index_lookup A' n k =
      index_lookup A n k @ (if n = attr_name attr then replicate (occurrences (attr_type attr) k ks) (f, ob) else []))"
proof -
  let ?name = "attr_name attr" and ?t = "attr_type attr"
  have c: "numeric_type ?t" "no_nul ?name" "attribute_value attr = Num_Array (concat ks)"
    "sint (attribute_value_length attr) = int (length ks)" "set ks \<subseteq> type_keys ?t"
    "file_path_str attr = Str_Ptr f" "obj_path_str attr = Str_Ptr ob"
    "art_search (root_art_array A ! slot_of A ?name) ?name \<noteq> Inl Out_Of_Bounds"
    "\<forall>a. attr_of A ?name = Some a \<longrightarrow> fits ?t (attr_leaves A ! a)"
    "room f (fpaths A (slot_of A ?name))" "room ob (opaths A (slot_of A ?name))" "spare (length ks) A"
    using can by (simp_all add: can_index_def)
  have h: "heap_inv A" using inv by (simp add: index_inv_def)
  note slot = hash_slot_of [OF h, of ?name]
  obtain a A1 where e: "find_attr_leaf (slot_of A ?name) ?name ?t A = Inr (a, A1)" and A1: "index_inv A1"
    "attr_of A1 ?name = Some a" "fits ?t (attr_leaves A1 ! a)" "slots A1 = slots A" "fpaths A1 = fpaths A" "opaths A1 = opaths A"
    "spare (length ks) A1" "\<forall>n k. key_of A1 n k \<longrightarrow> key_of A n k" "\<forall>n k. index_lookup A1 n k = index_lookup A n k"
    using find_attr_leaf_spec [OF inv c(1,2,8,9)] c(12) by blast
  have h1: "heap_inv A1" "names_inv A1" using A1(1) by (simp_all add: index_inv_def)
  have a: "a < length (attr_leaves A1)" "leaf_rbt (attr_leaves A1 ! a) \<noteq> None"
    using h1(2) A1(2) num_leaf_rbt unfolding names_inv_def by blast+
  note fit = fits_simps [OF A1(3)]
  have el: "\<forall>j < length ks. num_elem (attribute_value attr) (leaf_size (attr_leaves A1 ! a)) (0 + j) = Inr (ks ! j)"
    unfolding c(3) fit using num_elem_concat [of ks "type_size ?t"] type_keys_length [OF c(1)] c(5) by auto
  obtain A' where A': "numeric_loop (length ks) 0 (slot_of A ?name) (attribute_value attr) (Str_Ptr f) (Str_Ptr ob) a A1 = Inr A'"
    "heap_inv A'" "same_shape A1 A'"
    and fnd: "\<forall>b k. b < length (attr_leaves A1) \<longrightarrow> k \<in> leaf_keys (attr_leaves A1 ! b) \<longrightarrow>
      found A' b k = found A1 b k @ (if b = a then posts (attr_leaves A1 ! a) k ks (f, ob) else [])"
    using numeric_loop_spec [of A1 "slot_of A ?name" f ob a ks, OF h1(1) _ _ _ a _ el A1(7)]
    unfolding A1(4-6) fit(1) using slot(2) c(5,10,11) by blast
  note nm = same_shape_names [OF h1(2) A'(3)]
  have run: "create_in_mem_index_for_attr A attr = Inr A'"
    using slot(1) e A'(1) c(1,4,6,7)
    by (auto simp: create_in_mem_index_for_attr_def indexing_numeric_def numeric_type_def)
  have "index_lookup A' n k = index_lookup A n k @
      (if n = ?name then replicate (occurrences ?t k ks) (f, ob) else [])" if key: "key_of A' n k" for n k
  proof (cases "attr_of A1 n")
    case None
    then have "index_lookup A n k = []" using A1(9) by (metis index_lookup_def option.simps(4))
    then show ?thesis using None A1(2) nm(2) by (auto simp: index_lookup_def)
  next
    case (Some b)
    have b: "b < length (attr_leaves A1)" using h1(2) Some unfolding names_inv_def by blast
    have "k \<in> leaf_keys (attr_leaves A1 ! b)"
      using key Some nm(2) same_shape_keys(1) [OF A'(3) b] by (simp add: key_of_def)
    then have "found A' b k = found A1 b k @ (if b = a then posts (attr_leaves A1 ! a) k ks (f, ob) else [])"
      using fnd b by blast
    moreover have "b = a \<longleftrightarrow> n = ?name"
      using h1(2) Some A1(2) unfolding names_inv_def by (metis option.inject)
    moreover have "index_lookup A n k = found A1 b k" using A1(9) Some by (metis index_lookup_def option.simps(5))
    ultimately show ?thesis
      using Some nm(2) fit(2) by (simp add: index_lookup_def posts_def occurrences_def)
  qed
  moreover have "fits ?t (attr_leaves A' ! a)"
    using A1(3) same_shape_leaf(3) [OF A'(3) a(1)] by (simp add: fits_def)
  moreover have "key_of A n k" if "key_of A' n k" for n k
  proof -
    have "key_of A1 n k"
      using that h1(2) same_shape_keys(1) [OF A'(3)] unfolding key_of_def nm(2) names_inv_def by blast
    with A1(8) show ?thesis by blast
  qed
  ultimately show ?thesis
    using run A'(2) nm A1(2) by (auto simp: index_inv_def)
qed

section \<open>An empty index\<close>

lemma attr_of_init:
  assumes "0 < sint p"
  shows "attr_of (init_in_mem_index p) n = None"
proof -
  have "p \<noteq> 0" using assms by auto
  then have "hash_slot n p = Inr (slot_of (init_in_mem_index p) n)"
    by (simp add: hash_slot_def slot_of_def init_in_mem_index_def Let_def)
  from hash_slot_bound [OF assms this] show ?thesis
    by (simp add: attr_of_def init_in_mem_index_def Let_def art.init_content)
qed

lemma init_inv:
  assumes "0 < sint p"
  shows "index_inv (init_in_mem_index p)"
proof -
  have "heap_inv (init_in_mem_index p)"
    using assms path_table_create path_table_tags [OF path_table_create]
    by (simp add: heap_inv_def paths_inv_def vals_inv_def leaves_inv_def owns_def slots_def fpaths_def opaths_def
        init_in_mem_index_def Let_def)
  moreover have "names_inv (init_in_mem_index p)"
    unfolding names_inv_def attr_of_init [OF assms]
    by (simp add: slots_def init_in_mem_index_def Let_def art.init_inv)
  ultimately show ?thesis by (simp add: index_inv_def)
qed

section \<open>Queries\<close>

text \<open>A query moves list cursors and changes nothing else.\<close>

definition browsed :: "index_anchor \<Rightarrow> index_anchor \<Rightarrow> bool" where
  "browsed A A' \<longleftrightarrow> parallelism A' = parallelism A \<and> root_art_array A' = root_art_array A \<and>
     attr_leaves A' = attr_leaves A \<and> length (value_leaves A') = length (value_leaves A) \<and>
     (\<forall>v < length (value_leaves A). leaf_pairs A' v = leaf_pairs A v) \<and>
     (\<forall>i < slots A. fpaths A' i = fpaths A i \<and> opaths A' i = opaths A i)"

lemma browsed_refl [simp]: "browsed A A"
  by (simp add: browsed_def)

lemma browsed_trans: "browsed A B \<Longrightarrow> browsed B C \<Longrightarrow> browsed A C"
  by (simp add: browsed_def slots_def)

lemma browsed_key_of: "browsed A A' \<Longrightarrow> key_of A' = key_of A"
  by (simp add: fun_eq_iff browsed_def key_of_def attr_of_def slot_of_def)

lemma browsed_pair:
  assumes "browsed A A'" and "valid_pair A p"
  shows "valid_pair A' p" and "resolve A' p = resolve A p"
proof -
  have "paths_ext A A'" using assms(1) by (simp add: browsed_def paths_ext_def)
  from paths_ext_pair [OF this assms(2)] show "valid_pair A' p" "resolve A' p = resolve A p" by simp_all
qed

lemma browsed_index:
  assumes inv: "index_inv A" and br: "browsed A A'" and ok: "paths_inv A'" "vals_inv A'"
  shows "index_inv A'" and "key_of A n k \<Longrightarrow> index_lookup A' n k = index_lookup A n k"
proof -
  have b: "parallelism A' = parallelism A" "root_art_array A' = root_art_array A" "attr_leaves A' = attr_leaves A"
    "length (value_leaves A') = length (value_leaves A)"
    using br by (simp_all add: browsed_def)
  have own: "owns A' = owns A" by (simp add: fun_eq_iff owns_def b)
  have lv: "leaves_inv A" using inv by (simp add: index_inv_def heap_inv_def)
  then have "leaves_inv A'" by (simp add: leaves_inv_def own b)
  moreover have at: "attr_of A' = attr_of A" by (simp add: fun_eq_iff attr_of_def slot_of_def b)
  moreover have "slots A' = slots A" by (simp add: slots_def b)
  ultimately show "index_inv A'"
    using inv ok by (simp add: index_inv_def heap_inv_def names_inv_def b)
  have "postings A' v = postings A v" if "v < length (value_leaves A)" for v
  proof -
    have "\<forall>p \<in> set (leaf_pairs A v). valid_pair A p"
      using inv that unfolding index_inv_def heap_inv_def vals_inv_def by meson
    then show ?thesis
      using br that browsed_pair(2) [OF br] by (simp add: postings_def browsed_def)
  qed
  moreover have "v < length (value_leaves A)"
    if "key_of A n k" "leaf_get (attr_leaves A ! a) k = Some v" "attr_of A n = Some a" for a v
  proof -
    have "a < length (attr_leaves A)" using inv that(3) unfolding index_inv_def names_inv_def by blast
    then have "owns A a k v" using that by (simp add: owns_def key_of_def)
    then show ?thesis using lv unfolding leaves_inv_def by blast
  qed
  ultimately show "key_of A n k \<Longrightarrow> index_lookup A' n k = index_lookup A n k"
    by (simp add: index_lookup_def found_def at b split: option.split)
qed

definition rst_entry :: "cstring \<times> cstring \<Rightarrow> search_rst_entry" where
  "rst_entry x = \<lparr>rst_file_path = Some (fst x), rst_obj_path = Some (snd x)\<rparr>"

lemma path_entries_nth: "j < length ps \<Longrightarrow> tv_tag (path_entries i ps ! j) = Some (ps ! j)"
  by (simp add: path_entries_def nth_enumerate_eq path_entry_def list_create_tagged_value_def)

lemma pick_path:
  assumes "path_table l ps" and "j < length ps"
  shows "\<exists>tv l'. list_pick_tagged_value j l = (Some tv, l') \<and> tv_tag tv = Some (ps ! j) \<and> path_table l' ps"
proof -
  have l: "list_inv l" "list_values l = map Some (path_entries 0 ps)"
    using assms(1) by (simp_all add: path_table_def)
  obtain v l' where p: "list_pick_value j l = (v, l')" by (cases "list_pick_value j l")
  from pick_value_eq [OF l(1) p] have l': "v = Some (path_entries 0 ps ! j)" "list_inv l'" "same_list l l'"
    using assms(2) l(2) by simp_all
  with p path_entries_nth [OF assms(2)] path_table_same [OF assms(1) l'(2,3)] show ?thesis
    by (simp add: list_pick_tagged_value_def)
qed

lemma collect_step:
  assumes inv: "paths_inv A" "vals_inv A" and p: "valid_pair A p" and idx: "idx < length arr"
  shows "\<exists>A'. collect_result_from_list (Some p) idx (Inr (A, arr)) =
      (1, Inr (A', arr[idx := rst_entry (resolve A p)])) \<and> browsed A A' \<and> paths_inv A' \<and> vals_inv A' \<and>
    value_leaves A' = value_leaves A"
proof -
  define i where "i = unat (parallel_index_pos p)"
  have i: "i < slots A" "unat (file_list_pos p) < length (fpaths A i)" "unat (obj_list_pos p) < length (opaths A i)"
    using p by (simp_all add: valid_pair_def Let_def i_def)
  have len: "length (file_paths_list A) = slots A" "length (object_paths_list A) = slots A"
    and tab: "\<forall>i < slots A. path_table (file_paths_list A ! i) (fpaths A i)"
      "\<forall>i < slots A. path_table (object_paths_list A ! i) (opaths A i)"
    using inv(1) by (auto simp: paths_inv_def)
  obtain ftv fl' where f: "list_pick_tagged_value (unat (file_list_pos p)) (file_paths_list A ! i) = (Some ftv, fl')"
    "tv_tag ftv = Some (fpaths A i ! unat (file_list_pos p))" "path_table fl' (fpaths A i)"
    using pick_path [OF _ i(2)] tab i(1) by blast
  obtain otv ol' where o: "list_pick_tagged_value (unat (obj_list_pos p)) (object_paths_list A ! i) = (Some otv, ol')"
    "tv_tag otv = Some (opaths A i ! unat (obj_list_pos p))" "path_table ol' (opaths A i)"
    using pick_path [OF _ i(3)] tab i(1) by blast
  let ?A = "A\<lparr>file_paths_list := (file_paths_list A)[i := fl'], object_paths_list := (object_paths_list A)[i := ol']\<rparr>"
  have run: "collect_result_from_list (Some p) idx (Inr (A, arr)) = (1, Inr (?A, arr[idx := rst_entry (resolve A p)]))"
    using i(1) len f(1,2) o(1,2) idx
    by (simp add: collect_result_from_list_def i_def [symmetric] rst_entry_def resolve_def Let_def)
  have paths: "\<forall>j < slots A. fpaths ?A j = fpaths A j \<and> opaths ?A j = opaths A j"
    using i(1) len path_table_tags [OF f(3)] path_table_tags [OF o(3)]
    by (auto simp: fpaths_def opaths_def nth_list_update)
  then have br: "browsed A ?A" by (simp add: browsed_def)
  have "paths_inv ?A"
    using inv(1) len i(1) list_update_tables [OF _ f(3)] list_update_tables [OF _ o(3)] tab
    unfolding paths_inv_def by (simp add: slots_def fpaths_def opaths_def)
  moreover have "vals_inv ?A"
    using inv(2) browsed_pair(1) [OF br] unfolding vals_inv_def leaf_pairs_paths by (simp, blast)
  ultimately show ?thesis using run br by fastforce
qed

lemma collect_all:
  assumes "paths_inv A" and "vals_inv A" and "\<forall>p \<in> set ps. valid_pair A p" and "idx + length ps = length arr"
  shows "\<exists>A'. fold_handler collect_result_from_list idx (map Some ps) (Inr (A, arr)) =
      Inr (A', take idx arr @ map (rst_entry \<circ> resolve A) ps) \<and> browsed A A' \<and> paths_inv A' \<and> vals_inv A' \<and>
    value_leaves A' = value_leaves A"
  using assms
proof (induction ps arbitrary: idx A arr)
  case (Cons p ps)
  obtain A1 where A1: "collect_result_from_list (Some p) idx (Inr (A, arr)) =
      (1, Inr (A1, arr[idx := rst_entry (resolve A p)]))" "browsed A A1" "paths_inv A1" "vals_inv A1"
      "value_leaves A1 = value_leaves A"
    using collect_step [OF Cons.prems(1,2), of p idx arr] Cons.prems(3,4) by auto
  have res: "\<forall>p \<in> set ps. valid_pair A1 p \<and> resolve A1 p = resolve A p"
    using Cons.prems(3) browsed_pair [OF A1(2)] by simp
  obtain A' where A': "fold_handler collect_result_from_list (Suc idx) (map Some ps)
      (Inr (A1, arr[idx := rst_entry (resolve A p)])) =
      Inr (A', take (Suc idx) (arr[idx := rst_entry (resolve A p)]) @ map (rst_entry \<circ> resolve A1) ps)"
    "browsed A1 A'" "paths_inv A'" "vals_inv A'" "value_leaves A' = value_leaves A1"
    using Cons.IH [of A1 "Suc idx" "arr[idx := rst_entry (resolve A p)]"] A1(3,4) res Cons.prems(4) by auto
  have "take (Suc idx) (arr[idx := x]) = take idx arr @ [x]" for x
    using Cons.prems(4) by (simp add: take_Suc_conv_app_nth)
  then show ?case
    using A1 A' res browsed_trans [OF A1(2) A'(2)] by (intro exI [of _ A']) simp
qed simp

lemma continues_collect: "continues collect_result_from_list"
  by (simp add: continues_def collect_result_from_list_def)

definition query_type :: "miqs_attr_type \<Rightarrow> miqs_attr_value_type" where
  "query_type t = (if t = MIQS_AT_INTEGER then MIQS_ATV_INTEGER else MIQS_ATV_FLOAT)"

lemma set_same_leaf:
  assumes "paths_inv A" "vals_inv A" and v: "v < length (value_leaves A)"
    and l: "file_obj_pair_list (value_leaves A ! v) = Some l" "list_inv l'" "same_list l l'"
  shows "browsed A (set_value_leaf v \<lparr>file_obj_pair_list = Some l'\<rparr> A)"
    and "paths_inv (set_value_leaf v \<lparr>file_obj_pair_list = Some l'\<rparr> A)"
    and "vals_inv (set_value_leaf v \<lparr>file_obj_pair_list = Some l'\<rparr> A)"
proof -
  let ?A = "set_value_leaf v \<lparr>file_obj_pair_list = Some l'\<rparr> A"
  have pairs: "leaf_pairs ?A w = leaf_pairs A w" for w
    unfolding leaf_pairs_set [OF v] using l(1) same_list_values [OF l(3)] by (simp add: leaf_pairs_def)
  have paths: "fpaths ?A = fpaths A" "opaths ?A = opaths A" "slots ?A = slots A"
    by (simp_all add: fun_eq_iff fpaths_def opaths_def slots_def set_value_leaf_def)
  show "browsed A ?A" using pairs paths by (simp add: browsed_def set_value_leaf_def)
  show "paths_inv ?A" using assms(1) paths by (simp add: paths_inv_def set_value_leaf_def)
  have vp: "valid_pair ?A = valid_pair A" by (simp add: fun_eq_iff valid_pair_def paths)
  show "vals_inv ?A"
    unfolding vals_inv_def pairs vp
  proof (intro allI impI)
    fix w assume "w < length (value_leaves ?A)"
    then have w: "w < length (value_leaves A)" by (simp add: set_value_leaf_def)
    obtain lw where lw: "file_obj_pair_list (value_leaves A ! w) = Some lw" "pair_list lw (leaf_pairs A w)"
      "\<forall>p \<in> set (leaf_pairs A w). valid_pair A p"
      using assms(2) w unfolding vals_inv_def by meson
    have "pair_list l' (leaf_pairs A w)" if "w = v"
      using lw l that same_list_values [OF l(3)] by (simp add: pair_list_def)
    with lw v show "\<exists>l. file_obj_pair_list (value_leaves ?A ! w) = Some l \<and> pair_list l (leaf_pairs A w) \<and>
        (\<forall>p \<in> set (leaf_pairs A w). valid_pair A p)"
      by (auto simp: set_value_leaf_def nth_list_update)
  qed
qed

lemma attribute_value_search_spec:
  assumes inv: "index_inv A" and a: "attr_of A name = Some a" "fits t (attr_leaves A ! a)"
    and t: "numeric_type t" and k: "k \<in> type_keys t"
  shows "attribute_value_search A name (Q_Num k) (type_size t) (query_type t) = Inr (leaf_get (attr_leaves A ! a) k)"
proof -
  have h: "heap_inv A" "names_inv A" using inv by (simp_all add: index_inv_def)
  note slot = hash_slot_of [OF h(1), of name]
  have art: "tree_inv (root_art_array A ! slot_of A name)" "slot_of A name < length (root_art_array A)"
    using h(2) slot(2) by (simp_all add: names_inv_def)
  have s: "art_search (root_art_array A ! slot_of A name) name = Inr (Some a)"
    using art.get_stored [OF art(1)] a(1) by (simp add: attr_of_def)
  have leaf: "a < length (attr_leaves A)" "leaf_rbt (attr_leaves A ! a) \<noteq> None"
    using h(2) a(1) num_leaf_rbt unfolding names_inv_def by blast+
  then show ?thesis
    using slot(1) art(2) s type_keys_length [OF t k] t
    by (auto simp: attribute_value_search_def heap_defs leaf_get_def q_bytes_def query_type_def numeric_type_def)
qed

lemma exact_search_spec:
  assumes inv: "index_inv A" and a: "attr_of A name = Some a" "fits t (attr_leaves A ! a)"
    and t: "numeric_type t" and k: "k \<in> type_keys t" and v: "leaf_get (attr_leaves A ! a) k = Some v"
  shows "\<exists>A'. exact_metadata_search A name (Q_Num k) (query_type t) = Inr (map rst_entry (postings A v), A') \<and>
    browsed A A' \<and> index_inv A' \<and> (\<forall>n k. key_of A n k \<longrightarrow> index_lookup A' n k = index_lookup A n k)"
proof -
  have h: "paths_inv A" "vals_inv A" "leaves_inv A" "names_inv A" using inv by (simp_all add: index_inv_def heap_inv_def)
  have "owns A a k v"
    using h(4) a v k fits_simps(1) [OF a(2)] unfolding names_inv_def owns_def by blast
  then have vl: "v < length (value_leaves A)" using h(3) unfolding leaves_inv_def by blast
  obtain l where l: "file_obj_pair_list (value_leaves A ! v) = Some l" "pair_list l (leaf_pairs A v)"
    "\<forall>p \<in> set (leaf_pairs A v). valid_pair A p"
    using h(2) vl unfolding vals_inv_def by meson
  have li: "list_inv l" "list_values l = map Some (leaf_pairs A v)" using l(2) by (simp_all add: pair_list_def)
  let ?arr = "replicate (list_count l) \<lparr>rst_file_path = None, rst_obj_path = None\<rparr>"
  obtain l' where fe: "list_foreach_value collect_result_from_list l (Inr (A, ?arr)) = (length (list_values l), l',
      fold_handler collect_result_from_list 0 (list_values l) (Inr (A, ?arr)))" "list_inv l'" "same_list l l'"
    using foreach_continues [OF li(1) continues_collect] by blast
  have cnt: "list_count l = length (leaf_pairs A v)" using list_count_values [OF li(1)] li(2) by simp
  obtain A1 where A1: "fold_handler collect_result_from_list 0 (map Some (leaf_pairs A v)) (Inr (A, ?arr)) =
      Inr (A1, map (rst_entry \<circ> resolve A) (leaf_pairs A v))" "browsed A A1" "paths_inv A1" "vals_inv A1"
      "value_leaves A1 = value_leaves A"
    using collect_all [OF h(1,2) l(3), of 0 ?arr] cnt by auto
  let ?A = "set_value_leaf v \<lparr>file_obj_pair_list = Some l'\<rparr> A1"
  have sz: "(case query_type t of MIQS_ATV_INTEGER \<Rightarrow> 4 | MIQS_ATV_FLOAT \<Rightarrow> 8 | _ \<Rightarrow> 8) = type_size t"
    using t by (auto simp: query_type_def type_size_def numeric_type_def)
  have "exact_metadata_search A name (Q_Num k) (query_type t) = Inr (map rst_entry (postings A v), ?A)"
    using attribute_value_search_spec [OF inv a t k] v vl l(1) fe(1) A1(1) li(2)
    unfolding exact_metadata_search_def sz by (simp add: heap_defs postings_def)
  moreover note st = set_same_leaf [OF A1(3,4), of v l l'] 
  have "browsed A1 ?A" "paths_inv ?A" "vals_inv ?A" using st A1(5) vl l(1) fe(2,3) by simp_all
  ultimately show ?thesis
    using browsed_index [OF inv browsed_trans [OF A1(2)]] browsed_trans [OF A1(2)] by blast
qed

lemma lookup_nonempty:
  assumes "index_lookup A name k \<noteq> []"
  shows "\<exists>a v. attr_of A name = Some a \<and> leaf_get (attr_leaves A ! a) k = Some v \<and> index_lookup A name k = postings A v"
  using assms by (auto simp: index_lookup_def found_def split: option.splits)

text \<open>The counters, paths and streams of the anchor are not part of the index.\<close>

definition same_index :: "index_anchor \<Rightarrow> index_anchor \<Rightarrow> bool" where
  "same_index A B \<longleftrightarrow> attr_leaves B = attr_leaves A \<and> value_leaves B = value_leaves A \<and>
     parallelism B = parallelism A \<and> root_art_array B = root_art_array A \<and>
     file_paths_list B = file_paths_list A \<and> object_paths_list B = object_paths_list A"

lemma same_index_refl: "same_index A A"
  by (simp add: same_index_def)

lemma same_index_facts:
  assumes "same_index A B"
  shows "index_inv B = index_inv A" and "index_lookup B = index_lookup A" and "can_index B = can_index A"
    and "attr_of B = attr_of A" and "key_of B = key_of A"
proof -
  have f: "fpaths B = fpaths A" "opaths B = opaths A" "slots B = slots A" "leaf_pairs B = leaf_pairs A"
    "slot_of B = slot_of A" "attr_of B = attr_of A" "owns B = owns A"
    using assms by (simp_all add: fun_eq_iff same_index_def fpaths_def opaths_def slots_def leaf_pairs_def slot_of_def
        attr_of_def owns_def)
  then have g: "valid_pair B = valid_pair A" "resolve B = resolve A" "spare n B = spare n A" "postings B = postings A" for n
    using assms by (simp_all add: fun_eq_iff same_index_def valid_pair_def resolve_def spare_def postings_def)
  then have "found B = found A" using assms by (simp add: fun_eq_iff same_index_def found_def split: option.split)
  then show "index_lookup B = index_lookup A" by (simp add: fun_eq_iff index_lookup_def f split: option.split)
  show "index_inv B = index_inv A"
    using assms unfolding index_inv_def heap_inv_def names_inv_def paths_inv_def vals_inv_def leaves_inv_def f g
    by (simp add: same_index_def)
  show "can_index B = can_index A"
    using assms unfolding fun_eq_iff can_index_def f g by (simp add: same_index_def)
  show "attr_of B = attr_of A" "key_of B = key_of A"
    using assms by (simp_all add: fun_eq_iff key_of_def f same_index_def)
qed

text \<open>Attributes the index is asked to hold.\<close>

definition selected :: "cstring \<Rightarrow> index_anchor \<Rightarrow> bool" where
  "selected name A \<longleftrightarrow> sint (num_indexed_field A) \<le> 0 \<or> is_specified_field name A"

lemma indexing_attr_spec:
  assumes inv: "index_inv A" and can: "can_index A attr ks f ob"
    and sel: "selected (attr_name attr) A" and off: "on_disk_file_stream A = None \<or> is_readonly_index_file A \<noteq> 0"
  shows "\<exists>A'. indexing_attr sb A attr = Inr (1, A') \<and> index_inv A' \<and> (\<forall>n k. key_of A' n k \<longrightarrow> key_of A n k) \<and>
    (\<exists>a. attr_of A' (attr_name attr) = Some a \<and> fits (attr_type attr) (attr_leaves A' ! a)) \<and>
    (\<forall>n k. key_of A' n k \<longrightarrow> index_lookup A' n k =
      index_lookup A n k @ (if n = attr_name attr then replicate (occurrences (attr_type attr) k ks) (f, ob) else []))"
proof -
  let ?B = "A\<lparr>total_num_attrs := total_num_attrs A + 1,
    total_num_kv_pairs := total_num_kv_pairs A + scast (attribute_value_length attr)\<rparr>"
  have "same_index A ?B" by (simp add: same_index_def)
  note B = same_index_facts [OF this]
  obtain B' where B': "create_in_mem_index_for_attr ?B attr = Inr B'" "index_inv B'"
    "\<forall>n k. key_of B' n k \<longrightarrow> key_of A n k"
    "\<exists>a. attr_of B' (attr_name attr) = Some a \<and> fits (attr_type attr) (attr_leaves B' ! a)"
    "\<forall>n k. key_of B' n k \<longrightarrow> index_lookup B' n k =
      index_lookup A n k @ (if n = attr_name attr then replicate (occurrences (attr_type attr) k ks) (f, ob) else [])"
    using create_in_mem_index_spec [of ?B attr ks f ob] inv can unfolding B by blast
  let ?C = "B'\<lparr>total_num_indexed_kv_pairs := total_num_indexed_kv_pairs B' + scast (attribute_value_length attr)\<rparr>"
  have "same_index B' ?C" by (simp add: same_index_def)
  note C = same_index_facts [OF this]
  have "is_specified_field (attr_name attr) (A\<lparr>total_num_attrs := total_num_attrs A + 1\<rparr>) =
      is_specified_field (attr_name attr) A"
    by (simp add: is_specified_field_def)
  then have "indexing_attr sb A attr = Inr (1, ?C)"
    using sel off B'(1) by (auto simp: indexing_attr_def Let_def selected_def split: option.split)
  with B' C show ?thesis by (intro exI [of _ ?C]) simp
qed

lemma can_index_init:
  assumes "0 < sint p" and "numeric_type (attr_type attr)" and "no_nul (attr_name attr)"
    and "attribute_value attr = Num_Array (concat ks)" and "sint (attribute_value_length attr) = int (length ks)"
    and "set ks \<subseteq> type_keys (attr_type attr)" and "file_path_str attr = Str_Ptr f" and "obj_path_str attr = Str_Ptr ob"
    and "str_ok f" and "str_ok ob"
  shows "can_index (init_in_mem_index p) attr ks f ob"
proof -
  let ?A = "init_in_mem_index p"
  have "heap_inv ?A" using init_inv [OF assms(1)] by (simp add: index_inv_def)
  note slot = hash_slot_of(2) [OF this, of "attr_name attr"]
  have "root_art_array ?A ! slot_of ?A (attr_name attr) = art_tree_init" "fpaths ?A (slot_of ?A (attr_name attr)) = []"
    "opaths ?A (slot_of ?A (attr_name attr)) = []"
    using slot path_table_tags [OF path_table_create]
    by (simp_all add: init_in_mem_index_def Let_def slots_def fpaths_def opaths_def)
  moreover have "int (length ks) < 2 ^ 31" using sint_lt [of "attribute_value_length attr"] assms(5) by simp
  then have "spare (length ks) ?A" by (simp add: spare_def init_in_mem_index_def Let_def)
  moreover have "art_search art_tree_init (attr_name attr) \<noteq> (Inl Out_Of_Bounds :: c_error + nat option)"
    by (simp add: art_search_def art_tree_init_def)
  ultimately show ?thesis
    using assms attr_of_init [OF assms(1)] by (simp add: can_index_def room_def)
qed

text \<open>A small attribute: \<^verbatim>\<open>x = 5\<close> on object \<^verbatim>\<open>/g\<close> of file \<^verbatim>\<open>a\<close>.\<close>

definition sample_attr :: miqs_meta_attribute where
  "sample_attr = \<lparr>attr_name = [120], attr_type = MIQS_AT_INTEGER, attribute_value = Num_Array (bytes4 5),
     attribute_value_length = 1, file_path_str = Str_Ptr [97], obj_path_str = Str_Ptr [47, 103]\<rparr>"

lemma sample_can_index: "can_index (init_in_mem_index 2) sample_attr [bytes4 5] [97] [47, 103]"
  by (intro can_index_init)
    (simp_all add: sample_attr_def numeric_type_def type_keys_def no_nul_def str_ok_def)

section \<open>Properties\<close>



text \<open>C4: indexing a numeric attribute that can be indexed (\<open>can_index\<close>) in a well-formed index succeeds, keeps the index invariant, and posts its file and
  object path once per occurrence of a value under that name and that value; no posting under a name and a key of its type changes otherwise. An attribute can be
  indexed if it is an integer attribute with values in \<open>- (2 ^ 30) ..< 2 ^ 30\<close> or a double one with integral values of magnitude below \<open>2 ^ 30\<close>, its name holds no NUL byte, is new or was
  first indexed with the same type and its search in the name tree stays inside the name, the path tables of its slot have room for both paths and no list of
  postings is full. Outside of this the code does otherwise: doubles whose difference is below one
  share a posting list (\<open>cmp_keys_double_collapses\<close>), an integer under a name of doubles reads out of bounds (\<open>int_attr_on_float_leaf\<close>) and a new
  string attribute is lost (\<open>string_attr_art\<close>).\<close>

theorem create_index_posts:
  assumes "index_inv A" and "can_index A attr ks f ob"
  shows "\<exists>A'. create_in_mem_index_for_attr A attr = Inr A' \<and> index_inv A' \<and>
    (\<forall>n k. key_of A' n k \<longrightarrow> index_lookup A' n k =
      index_lookup A n k @ (if n = attr_name attr then replicate (occurrences (attr_type attr) k ks) (f, ob) else []))"
  using create_in_mem_index_spec [OF assms] by blast

theorem create_index_posts_witness:
  "\<exists>A'. create_in_mem_index_for_attr (init_in_mem_index 2) sample_attr = Inr A' \<and> index_inv A' \<and>
    (key_of A' [120] (bytes4 5) \<longrightarrow> index_lookup A' [120] (bytes4 5) = [([97], [47, 103])])"
proof -
  obtain A' where A': "create_in_mem_index_for_attr (init_in_mem_index 2) sample_attr = Inr A'" "index_inv A'"
    "\<forall>n k. key_of A' n k \<longrightarrow> index_lookup A' n k = index_lookup (init_in_mem_index 2) n k @
      (if n = attr_name sample_attr then replicate (occurrences (attr_type sample_attr) k [bytes4 5]) ([97], [47, 103]) else [])"
    using create_index_posts [OF init_inv sample_can_index] by auto
  moreover have "index_lookup (init_in_mem_index 2) [120] (bytes4 5) = []"
    using attr_of_init [of 2] by (simp add: index_lookup_def)
  ultimately show ?thesis
    by (intro exI [of _ A']) (simp add: sample_attr_def occurrences_def)
qed

lemma indexed_searchable:
  assumes "index_inv A" and "can_index A attr ks f ob" and "selected (attr_name attr) A"
    and "on_disk_file_stream A = None \<or> is_readonly_index_file A \<noteq> 0" and "k \<in> set ks"
  shows "\<exists>A1. indexing_attr sb A attr = Inr (1, A1) \<and> index_inv A1 \<and> 1 \<le> occurrences (attr_type attr) k ks \<and>
    (\<forall>B. same_index A1 B \<longrightarrow> (\<exists>A2. index_inv A2 \<and>
      exact_metadata_search B (attr_name attr) (Q_Num k) (query_type (attr_type attr)) =
        Inr (map rst_entry (index_lookup A (attr_name attr) k @
               replicate (occurrences (attr_type attr) k ks) (f, ob)), A2)))"
proof -
  have t: "numeric_type (attr_type attr)" "k \<in> type_keys (attr_type attr)"
    using assms(2,5) by (auto simp: can_index_def)
  obtain A1 a where A1: "indexing_attr sb A attr = Inr (1, A1)" "index_inv A1"
    "attr_of A1 (attr_name attr) = Some a" "fits (attr_type attr) (attr_leaves A1 ! a)"
    "\<forall>n k. key_of A1 n k \<longrightarrow> index_lookup A1 n k =
      index_lookup A n k @ (if n = attr_name attr then replicate (occurrences (attr_type attr) k ks) (f, ob) else [])"
    using indexing_attr_spec [OF assms(1-4), of sb] by blast
  have "key_of A1 (attr_name attr) k"
    using A1(3,4) t(2) fits_simps(1) [OF A1(4)] by (simp add: key_of_def)
  with A1(5) have l: "index_lookup A1 (attr_name attr) k =
      index_lookup A (attr_name attr) k @ replicate (occurrences (attr_type attr) k ks) (f, ob)" by simp
  have "k \<in> set (filter (\<lambda>k'. type_val (attr_type attr) k = type_val (attr_type attr) k') ks)"
    using assms(5) by simp
  then have o: "1 \<le> occurrences (attr_type attr) k ks"
    unfolding occurrences_def by (metis One_nat_def Suc_leI length_pos_if_in_set)
  have "\<exists>A2. index_inv A2 \<and> exact_metadata_search B (attr_name attr) (Q_Num k) (query_type (attr_type attr)) =
      Inr (map rst_entry (index_lookup A1 (attr_name attr) k), A2)" if "same_index A1 B" for B
  proof -
    note B = same_index_facts [OF that]
    have "index_lookup B (attr_name attr) k \<noteq> []" using o by (auto simp: l B)
    from lookup_nonempty [OF this] obtain v where v: "leaf_get (attr_leaves B ! a) k = Some v"
      "index_lookup B (attr_name attr) k = postings B v" using A1(3) B by auto
    have "attr_leaves B = attr_leaves A1" using that by (simp add: same_index_def)
    then have "index_inv B" "attr_of B (attr_name attr) = Some a" "fits (attr_type attr) (attr_leaves B ! a)"
      using A1 B by simp_all
    from exact_search_spec [OF this t v(1)] v(2) show ?thesis unfolding B by auto
  qed
  with A1(1,2) o show ?thesis unfolding l by blast
qed

text \<open>C3: end to end, for numeric attributes. After a numeric attribute that can be indexed (\<open>can_index\<close>: integers in \<open>- (2 ^ 30) ..< 2 ^ 30\<close> or integral doubles of magnitude
  below \<open>2 ^ 30\<close>, a name that is new or was first indexed with the same type, room in the tables) was indexed in a well-formed index, the name being selected for
  indexing and no append-only file being written, an exact search for its name and any of its
  values returns what was posted there before followed by this attribute's file and object path, once
  per occurrence of the value. String attributes are not covered: a new one never enters the name trees (\<open>string_attr_art\<close>).\<close>

theorem index_then_search:
  assumes "index_inv A" and "can_index A attr ks f ob" and "selected (attr_name attr) A"
    and "on_disk_file_stream A = None \<or> is_readonly_index_file A \<noteq> 0" and "k \<in> set ks"
  shows "\<exists>A1 A2. indexing_attr sb A attr = Inr (1, A1) \<and> index_inv A1 \<and> index_inv A2 \<and>
    exact_metadata_search A1 (attr_name attr) (Q_Num k) (query_type (attr_type attr)) =
      Inr (map rst_entry (index_lookup A (attr_name attr) k @
             replicate (occurrences (attr_type attr) k ks) (f, ob)), A2) \<and>
    1 \<le> occurrences (attr_type attr) k ks"
  using indexed_searchable [OF assms, of sb] same_index_refl by blast

theorem index_then_search_witness:
  "\<exists>A1 A2. indexing_attr (\<lambda>_. []) (init_in_mem_index 2) sample_attr = Inr (1, A1) \<and>
    exact_metadata_search A1 [120] (Q_Num (bytes4 5)) MIQS_ATV_INTEGER =
      Inr ([\<lparr>rst_file_path = Some [97], rst_obj_path = Some [47, 103]\<rparr>], A2)"
proof -
  have sel: "selected (attr_name sample_attr) (init_in_mem_index 2)"
    "on_disk_file_stream (init_in_mem_index 2) = None \<or> is_readonly_index_file (init_in_mem_index 2) \<noteq> 0"
    by (simp_all add: selected_def init_in_mem_index_def Let_def)
  have l: "index_lookup (init_in_mem_index 2) [120] (bytes4 5) = []"
    using attr_of_init [of 2] by (simp add: index_lookup_def)
  have s: "attr_name sample_attr = [120]" "query_type (attr_type sample_attr) = MIQS_ATV_INTEGER"
    "occurrences (attr_type sample_attr) (bytes4 5) [bytes4 5] = 1"
    by (simp_all add: sample_attr_def query_type_def occurrences_def)
  have "0 < sint (2 :: c_int)" by simp
  from index_then_search [OF init_inv [OF this] sample_can_index sel, of "bytes4 5" "\<lambda>_. []"]
  show ?thesis unfolding s l by (auto simp: rst_entry_def)
qed

text \<open>An exact search for a name or a value that is not in the index dereferences a null pointer.\<close>

theorem exact_search_absent_crashes:
  assumes "index_inv A" and "numeric_type t" and "k \<in> type_keys t"
    and "case attr_of A name of
        None \<Rightarrow> art_search (root_art_array A ! slot_of A name) name \<noteq> Inl Out_Of_Bounds
      | Some a \<Rightarrow> fits t (attr_leaves A ! a) \<and> leaf_get (attr_leaves A ! a) k = None"
  shows "exact_metadata_search A name (Q_Num k) (query_type t) = Inl Null_Deref"
proof -
  have h: "heap_inv A" "names_inv A" using assms(1) by (simp_all add: index_inv_def)
  have sz: "(case query_type t of MIQS_ATV_INTEGER \<Rightarrow> 4 | MIQS_ATV_FLOAT \<Rightarrow> 8 | _ \<Rightarrow> 8) = type_size t"
    using assms(2) by (auto simp: query_type_def type_size_def numeric_type_def)
  have "attribute_value_search A name (Q_Num k) (type_size t) (query_type t) = Inr None"
  proof (cases "attr_of A name")
    case None
    note slot = hash_slot_of [OF h(1), of name]
    have art: "tree_inv (root_art_array A ! slot_of A name)" "slot_of A name < length (root_art_array A)"
      using h(2) slot(2) by (simp_all add: names_inv_def)
    have "art_search (root_art_array A ! slot_of A name) name = Inr None"
      using art.get_law [OF art(1), of name] None assms(4) by (auto simp: attr_of_def)
    then show ?thesis using slot(1) art(2) by (simp add: attribute_value_search_def)
  next
    case (Some a)
    then show ?thesis using attribute_value_search_spec [OF assms(1) Some _ assms(2,3)] assms(4) by simp
  qed
  then show ?thesis by (simp add: exact_metadata_search_def sz deref_def)
qed

theorem exact_search_absent_crashes_witness:
  "exact_metadata_search (init_in_mem_index 2) [120] (Q_Num (bytes4 5)) MIQS_ATV_INTEGER = Inl Null_Deref"
proof -
  let ?A = "init_in_mem_index 2"
  have p: "0 < sint (2 :: c_int)" by simp
  have "art_search (root_art_array ?A ! slot_of ?A [120]) [120] \<noteq> Inl Out_Of_Bounds"
    using sample_can_index by (simp add: can_index_def sample_attr_def)
  with exact_search_absent_crashes [OF init_inv [OF p], of MIQS_AT_INTEGER "bytes4 5" "[120]"] attr_of_init [OF p]
  show ?thesis by (simp add: numeric_type_def type_keys_def query_type_def)
qed

text \<open>String attributes.\<close>

lemma insert_pair_art:
  "push_pair pos fp op v A = Inr A' \<Longrightarrow> root_art_array A' = root_art_array A \<and> parallelism A' = parallelism A"
  by (auto simp: push_pair_def use_ptr_def Let_def set_value_leaf_def split: prod.splits option.splits str_ptr.splits)

lemma string_entry_art:
  "string_entry key a A = Inr (v, A') \<Longrightarrow> root_art_array A' = root_art_array A \<and> parallelism A' = parallelism A"
  by (auto simp: string_entry_def Let_def heap_defs leaf_art_insert_def split: prod.splits option.splits)

lemma string_loop_art:
  "string_loop n i pos arr fp op a A = Inr A' \<Longrightarrow> root_art_array A' = root_art_array A \<and> parallelism A' = parallelism A"
proof (induction n arbitrary: i A)
  case (Suc n)
  then show ?case by (auto dest!: string_entry_art insert_pair_art split: prod.splits)
qed simp

lemma string_attr_art:
  assumes "attr_type attr = MIQS_AT_STRING" and "create_in_mem_index_for_attr A attr = Inr A'"
  shows "root_art_array A' = root_art_array A \<and> parallelism A' = parallelism A"
proof -
  obtain i a A1 where f: "find_attr_leaf i (attr_name attr) MIQS_AT_STRING A = Inr (a, A1)"
    and s: "indexing_string i (attribute_value attr) (attribute_value_length attr) (file_path_str attr) (obj_path_str attr) a A1 = Inr A'"
    using assms by (auto simp: create_in_mem_index_for_attr_def split: prod.splits)
  have "root_art_array A1 = root_art_array A \<and> parallelism A1 = parallelism A"
    using f by (auto simp: find_attr_leaf_def attr_leaf_for_def heap_defs split: option.splits prod.splits)
  moreover have "root_art_array A' = root_art_array A1 \<and> parallelism A' = parallelism A1"
    using s string_loop_art by (fastforce simp: indexing_string_def Let_def set_attr_leaf_def)
  ultimately show ?thesis by simp
qed

text \<open>C40: a string attribute whose name has no leaf yet, in a well-formed index, does not enter the name trees: after it was
  indexed they are as before, the name still has no leaf, and an exact search for the name, for any value of any type,
  finds nothing and dereferences the null pointer it got. (A name that already has a leaf, from a numeric attribute, keeps it,
  and the strings are then stored in that leaf.)\<close>

theorem string_attr_not_entered:
  assumes "index_inv A" and "attr_type attr = MIQS_AT_STRING" and "attr_of A (attr_name attr) = None"
    and "create_in_mem_index_for_attr A attr = Inr A'"
  shows "root_art_array A' = root_art_array A \<and> attr_of A' (attr_name attr) = None \<and>
    (\<forall>v t. exact_metadata_search A' (attr_name attr) v t = Inl Null_Deref)"
proof -
  let ?name = "attr_name attr"
  have h: "heap_inv A" "names_inv A" using assms(1) by (simp_all add: index_inv_def)
  note slot = hash_slot_of [OF h(1), of ?name]
  have art: "tree_inv (root_art_array A ! slot_of A ?name)" "slot_of A ?name < length (root_art_array A)"
    using h(2) slot(2) by (simp_all add: names_inv_def)
  have e: "root_art_array A' = root_art_array A" "parallelism A' = parallelism A"
    using string_attr_art [OF assms(2,4)] by simp_all
  have "art_search (root_art_array A ! slot_of A ?name) ?name \<noteq> Inl Out_Of_Bounds"
    using assms(4) slot(1) art(2) by (auto simp: create_in_mem_index_for_attr_def find_attr_leaf_def)
  then have "art_search (root_art_array A ! slot_of A ?name) ?name = Inr None"
    using art.get_law [OF art(1), of ?name] assms(3) by (auto simp: attr_of_def)
  then have "attribute_value_search A' ?name v sz t = Inr None" for v sz t
    using slot(1) art(2) e by (simp add: attribute_value_search_def)
  then have "exact_metadata_search A' ?name v t = Inl Null_Deref" for v t
    by (simp add: exact_metadata_search_def deref_def)
  then show ?thesis using e assms(3) by (simp add: attr_of_def slot_of_def)
qed

theorem string_attr_not_entered_witness:
  "\<exists>A'. create_in_mem_index_for_attr (init_in_mem_index 1)
      \<lparr>attr_name = [120], attr_type = MIQS_AT_STRING, attribute_value = Str_Array [[98]],
       attribute_value_length = 1, file_path_str = Str_Ptr [97], obj_path_str = Str_Ptr [47]\<rparr> = Inr A' \<and>
    root_art_array A' = [art_tree_init] \<and> exact_metadata_search A' [120] (Q_Str [98]) MIQS_ATV_STRING = Inl Null_Deref"
proof -
  let ?attr = "\<lparr>attr_name = [120], attr_type = MIQS_AT_STRING, attribute_value = Str_Array [[98]],
       attribute_value_length = 1, file_path_str = Str_Ptr [97], obj_path_str = Str_Ptr [47]\<rparr>"
  let ?A = "init_in_mem_index 1"
  have p: "0 < sint (1 :: c_int)" by simp
  obtain j k fl ol where t: "insert_tagged_value list_create (Some [97]) = Inr (of_nat j, fl)"
    "insert_tagged_value list_create (Some [47]) = Inr (of_nat k, ol)"
    using insert_tagged_value_spec [OF path_table_create, of "[97]"] insert_tagged_value_spec [OF path_table_create, of "[47]"]
    by (auto simp: room_def str_ok_def no_nul_def)
  have h: "hash_slot [120] 1 = Inr 0" by (simp add: hash_slot_def)
  obtain A' where "create_in_mem_index_for_attr ?A ?attr = Inr A'"
    using h t by (simp add: create_in_mem_index_for_attr_def init_in_mem_index_def Let_def find_attr_leaf_def
        art_search_def art_tree_init_def heap_defs attr_leaf_for_def indexing_string_def zero_attr_leaf_def str_elem_def
        string_entry_def leaf_art_insert_def art_insert_def push_pair_def use_ptr_def)
  with string_attr_not_entered [OF init_inv [OF p] _ _ this] attr_of_init [OF p] show ?thesis
    by (simp add: init_in_mem_index_def Let_def)
qed

text \<open>The element size comes from the leaf: indexing one integer under a name first seen with
  doubles reads past the end of the value array.\<close>

theorem int_attr_on_float_leaf:
  assumes "index_inv A" and "attr_of A (attr_name attr) = Some a" and "is_float (attr_leaves A ! a) \<noteq> 0"
    and "attr_type attr = MIQS_AT_INTEGER" and "attribute_value attr = Num_Array (bytes4 x)" and "attribute_value_length attr = 1"
  shows "create_in_mem_index_for_attr A attr = Inl Out_Of_Bounds"
proof -
  have h: "heap_inv A" "names_inv A" using assms(1) by (simp_all add: index_inv_def)
  note slot = hash_slot_of [OF h(1), of "attr_name attr"]
  have art: "tree_inv (root_art_array A ! slot_of A (attr_name attr))" "slot_of A (attr_name attr) < length (root_art_array A)"
    using h(2) slot(2) by (simp_all add: names_inv_def)
  have "art_search (root_art_array A ! slot_of A (attr_name attr)) (attr_name attr) = Inr (Some a)"
    using art.get_stored [OF art(1)] assms(2) by (simp add: attr_of_def)
  moreover have "a < length (attr_leaves A)" using h(2) assms(2) unfolding names_inv_def by blast
  ultimately show ?thesis
    using slot(1) art(2) assms(3-6)
    by (simp add: create_in_mem_index_for_attr_def find_attr_leaf_def indexing_numeric_def numeric_step_def
        get_attr_leaf_def num_elem_def)
qed

theorem int_attr_on_float_leaf_witness:
  "\<exists>A. create_in_mem_index_for_attr A sample_attr = Inl Out_Of_Bounds"
proof -
  let ?attr = "sample_attr\<lparr>attr_type := MIQS_AT_FLOAT, attribute_value := Num_Array [], attribute_value_length := 0\<rparr>"
  have p: "0 < sint (2 :: c_int)" by simp
  have "can_index (init_in_mem_index 2) ?attr [] [97] [47, 103]"
    by (intro can_index_init) (simp_all add: sample_attr_def numeric_type_def no_nul_def str_ok_def)
  from create_in_mem_index_spec [OF init_inv [OF p] this]
  obtain A a where A: "index_inv A" "attr_of A (attr_name sample_attr) = Some a" "fits MIQS_AT_FLOAT (attr_leaves A ! a)"
    by auto
  then have "is_float (attr_leaves A ! a) \<noteq> 0" by (simp add: fits_def)
  from int_attr_on_float_leaf [OF A(1,2) this, of 5] show ?thesis by (auto simp: sample_attr_def)
qed

lemma numeric_without_path:
  assumes inv: "index_inv A" and t: "numeric_type (attr_type attr)" and name: "no_nul (attr_name attr)"
    and val: "attribute_value attr = Num_Array k" "attribute_value_length attr = 1" "k \<in> type_keys (attr_type attr)"
    and search: "art_search (root_art_array A ! slot_of A (attr_name attr)) (attr_name attr) \<noteq> Inl Out_Of_Bounds"
    and ty: "\<forall>a. attr_of A (attr_name attr) = Some a \<longrightarrow> fits (attr_type attr) (attr_leaves A ! a)"
    and none: "file_path_str attr = Unset"
  shows "create_in_mem_index_for_attr A attr = Inl Bad_Pointer"
proof -
  have h: "heap_inv A" using inv by (simp add: index_inv_def)
  note slot = hash_slot_of [OF h, of "attr_name attr"]
  obtain a A1 where A1: "find_attr_leaf (slot_of A (attr_name attr)) (attr_name attr) (attr_type attr) A = Inr (a, A1)"
    "index_inv A1" "attr_of A1 (attr_name attr) = Some a" "fits (attr_type attr) (attr_leaves A1 ! a)"
    using find_attr_leaf_spec [OF inv t name search ty] by blast
  note fit = fits_simps [OF A1(4)]
  have a: "a < length (attr_leaves A1)" "leaf_rbt (attr_leaves A1 ! a) \<noteq> None"
    using A1(2,3) num_leaf_rbt unfolding index_inv_def names_inv_def by blast+
  obtain v A2 where e: "numeric_entry k a A1 = Inr (v, A2)"
    using numeric_entry_spec [OF _ a, of k] A1(2) val(3) fit(1) by (auto simp: index_inv_def)
  have "num_elem (attribute_value attr) (if is_float (attr_leaves A1 ! a) = 0 then 4 else 8) 0 = Inr k"
    using num_elem_concat [of "[k]" "type_size (attr_type attr)" 0] type_keys_length [OF t val(3)] fit(3) val(1)
    by (simp add: leaf_size_def)
  then have "numeric_step (slot_of A (attr_name attr)) (attribute_value attr) 0 Unset (obj_path_str attr) a A1 = Inl Bad_Pointer"
    using a(1) e by (simp add: numeric_step_def get_attr_leaf_def push_pair_def use_ptr_def)
  then show ?thesis
    using slot(1) A1(1) t val(2) none
    by (auto simp: create_in_mem_index_for_attr_def indexing_numeric_def numeric_type_def)
qed

text \<open>A log file whose first record is a number cannot be loaded: the attribute built from the
  record has no paths, and indexing it follows an unset pointer.\<close>

theorem load_aof_unset_path:
  assumes "index_inv A" and "record_ok r" and "ir_name r = Some name" and "numeric_type (ir_type r)"
    and "record_array (ir_data r) = Num_Array k" and "k \<in> type_keys (ir_type r)" and "selected name A"
    and "art_search (root_art_array A ! slot_of A name) name \<noteq> Inl Out_Of_Bounds"
    and "\<forall>a. attr_of A name = Some a \<longrightarrow> fits (ir_type r) (attr_leaves A ! a)"
  shows "load_aof sb (Some (enc_record r @ rest)) A = Inl Bad_Pointer"
proof -
  let ?bs = "enc_record r @ rest"
  let ?s' = "sadvance (length (enc_record r)) (fopen_r ?bs)"
  let ?S = "A\<lparr>on_disk_file_stream := Some (fopen_r ?bs), is_readonly_index_file := 1\<rparr>"
  let ?attr = "\<lparr>attr_name = name, attr_type = ir_type r, attribute_value = record_array (ir_data r),
             attribute_value_length = 1, file_path_str = Unset, obj_path_str = Unset\<rparr>"
  have nn: "no_nul name" using assms(2,3) by (simp add: record_ok_def ptr_ok_def str_ok_def)
  have c: "create_in_mem_index_for_attr B ?attr = Inl Bad_Pointer" if same: "same_index A B" for B
  proof (rule numeric_without_path)
    note facts = same_index_facts [OF same]
    show "index_inv B" unfolding facts(1) by (rule assms(1))
    have "slot_of B = slot_of A" using same by (simp add: fun_eq_iff slot_of_def same_index_def)
    then show "art_search (root_art_array B ! slot_of B (attr_name ?attr)) (attr_name ?attr) \<noteq> Inl Out_Of_Bounds"
      using assms(8) same by (simp add: same_index_def)
    show "\<forall>a. attr_of B (attr_name ?attr) = Some a \<longrightarrow> fits (attr_type ?attr) (attr_leaves B ! a)"
      unfolding facts(4) using assms(9) same by (simp add: same_index_def)
  qed (use assms(4-6) nn in simp_all)
  have r: "read_index_record (fopen_r ?bs) = (Some r, ?s')"
    by (rule read_index_record_enc [OF assms(2) frest_fopen_r])
  have i: "indexing_attr sb (?S\<lparr>on_disk_file_stream := Some ?s', file_path := ir_file_path r, obj_path := ir_object_path r\<rparr>) ?attr =
      Inl Bad_Pointer"
    using assms(7) by (auto simp: indexing_attr_def Let_def selected_def is_specified_field_def c same_index_def)
  have "load_loop sb 0 (fopen_r ?bs) ?S = Inl Bad_Pointer"
    using r i assms(3) by (subst load_loop.simps) (simp add: convert_index_record_to_in_mem_parameters_def)
  moreover have "?bs \<noteq> []" using read_index_record_decreases [OF r] by auto
  ultimately show ?thesis by (simp add: load_aof_def)
qed

theorem load_aof_unset_path_witness:
  "load_aof (\<lambda>_. []) (Some (enc_record \<lparr>ir_type = MIQS_AT_INTEGER, ir_name = Some [120], ir_data = Int_Data 5,
     ir_file_path = Some [97], ir_object_path = Some [47]\<rparr>)) (init_in_mem_index 2) = Inl Bad_Pointer"
proof -
  let ?A = "init_in_mem_index 2"
  let ?r = "\<lparr>ir_type = MIQS_AT_INTEGER, ir_name = Some [120], ir_data = Int_Data 5,
     ir_file_path = Some [97], ir_object_path = Some [47]\<rparr>"
  have p: "0 < sint (2 :: c_int)" by simp
  have s: "art_search (root_art_array ?A ! slot_of ?A [120]) [120] \<noteq> Inl Out_Of_Bounds"
    using sample_can_index by (simp add: can_index_def sample_attr_def)
  have "selected [120] ?A" by (simp add: selected_def init_in_mem_index_def Let_def)
  from load_aof_unset_path [OF init_inv [OF p], of ?r "[120]" "bytes4 5" "\<lambda>_. []" "[]"] this s attr_of_init [OF p]
  show ?thesis
    by (simp add: record_ok_def ptr_ok_def data_ok_def str_ok_def no_nul_def numeric_type_def record_array_def type_keys_def)
qed

end
