(* ===== verification/Meta_Extractor.thy ===== *)
theory Meta_Extractor
  imports Index_Correct
begin

text \<open>
  From an HDF5 file to the index: src/src/metadata/miqs_meta_collector.c,
  src/src/metadata/hdf5_meta_extractor.c and src/src/h52index/hdf52index.c.

  The HDF5 library is a parameter: a file is what its iterators visit, the objects in the order of
  \<^verbatim>\<open>H5Ovisit\<close> and of \<^verbatim>\<open>H5Lvisit\<close>, each with the attributes in the order of \<^verbatim>\<open>H5Aiterate\<close>, and an
  attribute is what \<^verbatim>\<open>H5Aread\<close> writes. Both operator functions return 0, so the iterators never stop early.
  Objects and attributes are linked by pointers; each kind lives in a list of allocated nodes, whose positions are
  their addresses. Timers, memory counters and messages are left out.
\<close>

section \<open>HDF5 files\<close>

datatype h5o_type = H5O_TYPE_GROUP | H5O_TYPE_DATASET | H5O_TYPE_NAMED_DATATYPE | H5O_TYPE_OTHER

datatype h5t_class = H5T_INTEGER | H5T_FLOAT | H5T_STRING | H5T_OTHER

text \<open>
  \<open>h5a_data\<close>: the bytes \<^verbatim>\<open>H5Aread\<close> writes in the attribute's own datatype, \<open>h5a_npoints\<close> elements of \<open>h5a_size\<close> bytes;
  for variable-length strings it writes one pointer per element of \<open>h5a_strings\<close>.
\<close>

record h5_attribute =
  h5a_name :: cstring
  h5a_class :: h5t_class
  h5a_npoints :: size_t
  h5a_size :: size_t
  h5a_is_vlen :: bool
  h5a_data :: "byte list"
  h5a_strings :: "cstring list"

record h5_object =
  h5o_name :: cstring
  h5o_type :: h5o_type
  h5o_attrs :: "h5_attribute list"

record h5_file =
  h5_objects :: "h5_object list"
  h5_links :: "h5_object list"

section \<open>Objects, attributes and the collector\<close>

datatype miqs_object_type = MIQS_OT_UNKNOWN | MIQS_OT_GROUP | MIQS_OT_DATASET

record attr_node =
  an_attr :: miqs_meta_attribute
  an_next :: "nat option"
  an_head :: "nat option"
  an_tail :: "nat option"

record miqs_data_object =
  obj_name :: cstring
  obj_type :: miqs_object_type
  num_attrs :: c_int
  attr_nodes :: "attr_node list"
  attr_linked_list :: "nat option"
  do_next :: "nat option"
  do_head :: "nat option"
  do_tail :: "nat option"

type_synonym 'o on_obj_cb = "'o \<Rightarrow> miqs_data_object \<Rightarrow> c_error + (int \<times> 'o)"
type_synonym 'o on_attr_cb = "'o \<Rightarrow> miqs_meta_attribute \<Rightarrow> c_error + (int \<times> 'o \<times> miqs_meta_attribute)"

record 'o miqs_metadata_collector =
  mc_objects :: "miqs_data_object list"
  object_linked_list :: "nat option"
  num_objs :: c_int
  mc_total_num_attrs :: c_int
  opdata :: 'o
  mc_on_obj :: "'o on_obj_cb option"
  mc_on_attr :: "'o on_attr_cb option"

definition init_metadata_collector ::
  "c_int \<Rightarrow> 'o \<Rightarrow> 'o on_obj_cb option \<Rightarrow> 'o on_attr_cb option \<Rightarrow> 'o miqs_metadata_collector" where
  "init_metadata_collector n op on_obj on_attr =
     \<lparr>mc_objects = [], object_linked_list = None, num_objs = n, mc_total_num_attrs = 0, opdata = op,
      mc_on_obj = on_obj, mc_on_attr = on_attr\<rparr>"

definition get_miqs_type_from_h5 :: "h5o_type \<Rightarrow> miqs_object_type" where
  "get_miqs_type_from_h5 t =
     (case t of H5O_TYPE_GROUP \<Rightarrow> MIQS_OT_GROUP | H5O_TYPE_DATASET \<Rightarrow> MIQS_OT_DATASET
      | H5O_TYPE_NAMED_DATATYPE \<Rightarrow> MIQS_OT_UNKNOWN | H5O_TYPE_OTHER \<Rightarrow> MIQS_OT_UNKNOWN)"

section \<open>Reading an attribute\<close>

text \<open>
  The two numeric readers allocate zeroed elements of the C type and let \<^verbatim>\<open>H5Aread\<close> write the attribute's
  own bytes into them. A negative count makes the allocation fail.
\<close>

definition read_numbers :: "nat \<Rightarrow> c_int \<Rightarrow> h5_attribute \<Rightarrow> miqs_meta_attribute \<Rightarrow> c_error + miqs_meta_attribute" where
  "read_numbers esize npoints h attr =
     (let room = nat (sint npoints) * esize in
      if sint npoints < 0 then Inl Null_Deref
      else if room < length (h5a_data h) then Inl Out_Of_Bounds
      else Inr (attr\<lparr>attribute_value := Num_Array (h5a_data h @ replicate (room - length (h5a_data h)) 0),
                     attribute_value_length := npoints\<rparr>))"

definition read_int_attr :: "c_int \<Rightarrow> h5_attribute \<Rightarrow> miqs_meta_attribute \<Rightarrow> c_error + miqs_meta_attribute" where
  "read_int_attr npoints h attr = read_numbers 4 npoints h attr"

definition read_float_attr :: "c_int \<Rightarrow> h5_attribute \<Rightarrow> miqs_meta_attribute \<Rightarrow> c_error + miqs_meta_attribute" where
  "read_float_attr npoints h attr = read_numbers 8 npoints h attr"

text \<open>
  Strings of variable length are read into an array of 100 pointers on the stack; strings of fixed length
  into one buffer, of which the attribute gets the first string only.
\<close>

definition read_string_attr :: "c_int \<Rightarrow> h5_attribute \<Rightarrow> miqs_meta_attribute \<Rightarrow> c_error + miqs_meta_attribute" where
  "read_string_attr npoints h attr =
     (if h5a_is_vlen h then
        if 100 < length (h5a_strings h) then Inl Out_Of_Bounds
        else if length (h5a_strings h) < nat (sint npoints) then Inl Bad_Pointer
        else Inr (attr\<lparr>attribute_value := Str_Array (take (nat (sint npoints)) (h5a_strings h)),
                       attribute_value_length := npoints\<rparr>)
      else
        let totsize = h5a_size h * scast npoints in
        if unat totsize + 1 < length (h5a_data h) then Inl Out_Of_Bounds
        else Inr (attr\<lparr>attribute_value := Str_Array [cstr (h5a_data h @ [0])], attribute_value_length := 1\<rparr>))"

text \<open>A zeroed attribute with its name.\<close>

definition new_attribute :: "cstring \<Rightarrow> miqs_meta_attribute" where
  "new_attribute name =
     \<lparr>attr_name = name, attr_type = MIQS_AT_UNKNOWN, attribute_value = Num_Array [], attribute_value_length = 0,
      file_path_str = Null_Str, obj_path_str = Null_Str\<rparr>"

definition read_attribute :: "h5_attribute \<Rightarrow> c_error + miqs_meta_attribute" where
  "read_attribute h =
     (let npoints = ucast (h5a_npoints h) :: c_int; cattr = new_attribute (h5a_name h) in
      case h5a_class h of
        H5T_INTEGER \<Rightarrow> read_int_attr npoints h (cattr\<lparr>attr_type := MIQS_AT_INTEGER\<rparr>)
      | H5T_FLOAT \<Rightarrow> read_float_attr npoints h (cattr\<lparr>attr_type := MIQS_AT_FLOAT\<rparr>)
      | H5T_STRING \<Rightarrow> read_string_attr npoints h (cattr\<lparr>attr_type := MIQS_AT_STRING\<rparr>)
      | H5T_OTHER \<Rightarrow> Inr cattr)"

text \<open>
  Appending to the object's attribute list: with a tail or without one, the code sets \<^verbatim>\<open>head->next\<close>.
\<close>

definition append_attr :: "miqs_meta_attribute \<Rightarrow> miqs_data_object \<Rightarrow> miqs_data_object" where
  "append_attr cattr mdo =
     (let a = length (attr_nodes mdo);
          node = \<lparr>an_attr = cattr, an_next = None, an_head = None, an_tail = None\<rparr>
      in case attr_linked_list mdo of
           None \<Rightarrow> mdo\<lparr>attr_nodes := attr_nodes mdo @ [node], attr_linked_list := Some a, num_attrs := num_attrs mdo + 1\<rparr>
         | Some h \<Rightarrow>
             let head_node = attr_nodes mdo ! h;
                 linked = (case an_tail head_node of
                     None \<Rightarrow> head_node\<lparr>an_next := Some a, an_tail := Some a\<rparr>
                   | Some _ \<Rightarrow> head_node\<lparr>an_next := Some a, an_tail := Some a\<rparr>)
             in mdo\<lparr>attr_nodes := (attr_nodes mdo)[h := linked] @ [node\<lparr>an_head := Some h\<rparr>],
                    attr_linked_list := Some h, num_attrs := num_attrs mdo + 1\<rparr>)"

definition attr_info ::
  "'o on_attr_cb option \<Rightarrow> h5_attribute \<Rightarrow> miqs_data_object \<times> 'o \<Rightarrow> c_error + (miqs_data_object \<times> 'o)" where
  "attr_info on_attr h st =
     (case st of (mdo, op) \<Rightarrow>
        ebind (read_attribute h) (\<lambda>cattr.
        let a = length (attr_nodes mdo); mdo1 = append_attr cattr mdo in
        case on_attr of
          None \<Rightarrow> Inr (mdo1, op)
        | Some cb \<Rightarrow> ebind (cb op cattr) (\<lambda>(udf_rst, op', cattr').
            Inr (mdo1\<lparr>attr_nodes := (attr_nodes mdo1)[a := (attr_nodes mdo1 ! a)\<lparr>an_attr := cattr'\<rparr>]\<rparr>, op'))))"

text \<open>\<^verbatim>\<open>H5Aiterate\<close> and \<^verbatim>\<open>H5Ovisit\<close>: an operator applied to every element in turn.\<close>

fun h5_iterate :: "('a \<Rightarrow> 's \<Rightarrow> c_error + 's) \<Rightarrow> 'a list \<Rightarrow> 's \<Rightarrow> c_error + 's" where
  "h5_iterate f [] s = Inr s"
| "h5_iterate f (x # xs) s = ebind (f x s) (h5_iterate f xs)"

section \<open>Scanning a file\<close>

definition append_object :: "miqs_data_object \<Rightarrow> 'o miqs_metadata_collector \<Rightarrow> 'o miqs_metadata_collector" where
  "append_object mdo coll =
     (let a = length (mc_objects coll) in
      case object_linked_list coll of
        None \<Rightarrow> coll\<lparr>mc_objects := mc_objects coll @ [mdo], object_linked_list := Some a, num_objs := num_objs coll + 1\<rparr>
      | Some h \<Rightarrow>
          let objs = (case do_tail (mc_objects coll ! h) of
                None \<Rightarrow> (mc_objects coll)[h := (mc_objects coll ! h)\<lparr>do_next := Some a, do_tail := Some a\<rparr>]
              | Some t \<Rightarrow>
                  let objs1 = (mc_objects coll)[t := (mc_objects coll ! t)\<lparr>do_next := Some a\<rparr>]
                  in objs1[h := (objs1 ! h)\<lparr>do_tail := Some a\<rparr>])
          in coll\<lparr>mc_objects := objs @ [mdo\<lparr>do_head := Some h\<rparr>], object_linked_list := Some h, num_objs := num_objs coll + 1\<rparr>)"

definition new_object :: "h5_object \<Rightarrow> miqs_data_object" where
  "new_object h =
     \<lparr>obj_name = h5o_name h, obj_type = get_miqs_type_from_h5 (h5o_type h), num_attrs = of_nat (length (h5o_attrs h)),
      attr_nodes = [], attr_linked_list = None, do_next = None, do_head = None, do_tail = None\<rparr>"

text \<open>
  One object: its attributes are handed to the attribute callback first, then the object is linked and handed
  to the object callback.
\<close>

definition op_func :: "h5_object \<Rightarrow> 'o miqs_metadata_collector \<Rightarrow> c_error + 'o miqs_metadata_collector" where
  "op_func h coll =
     (let mdo = new_object h; n = num_attrs mdo
      in ebind (if 0 < sint n
                then ebind (h5_iterate (attr_info (mc_on_attr coll)) (h5o_attrs h) (mdo, opdata coll)) (\<lambda>(mdo', op).
                  Inr (mdo', coll\<lparr>opdata := op, mc_total_num_attrs := mc_total_num_attrs coll + n\<rparr>))
                else Inr (mdo, coll)) (\<lambda>(mdo1, coll1).
         let coll2 = append_object mdo1 coll1 in
         case mc_on_obj coll2 of
           None \<Rightarrow> Inr coll2
         | Some cb \<Rightarrow> ebind (cb (opdata coll2) (last (mc_objects coll2))) (\<lambda>(udf_rst, op). Inr (coll2\<lparr>opdata := op\<rparr>))))"

text \<open>\<^verbatim>\<open>None\<close> is a file that cannot be opened: the iterators fail, and the result is 1 all the same.\<close>

definition scan_hdf5 ::
  "h5_file option \<Rightarrow> bool \<Rightarrow> 'o miqs_metadata_collector option \<Rightarrow> c_error + (int \<times> 'o miqs_metadata_collector option)" where
  "scan_hdf5 file is_visit_link meta_collector =
     (case meta_collector of
        None \<Rightarrow> Inr (- 1, None)
      | Some coll \<Rightarrow>
          (case file of
             None \<Rightarrow> Inr (1, Some coll)
           | Some hf \<Rightarrow>
               ebind (h5_iterate op_func (h5_objects hf) coll) (\<lambda>coll1.
               ebind (if is_visit_link then h5_iterate op_func (h5_links hf) coll1 else Inr coll1) (\<lambda>coll2.
                 Inr (1, Some coll2)))))"

section \<open>The callbacks of the index\<close>

definition path_ptr :: "cstring option \<Rightarrow> str_ptr" where
  "path_ptr p = (case p of None \<Rightarrow> Null_Str | Some x \<Rightarrow> Str_Ptr x)"

definition on_obj :: "index_anchor on_obj_cb" where
  "on_obj A obj = Inr (1, A\<lparr>obj_path := Some (obj_name obj), total_num_objects := total_num_objects A + 1\<rparr>)"

definition on_attr :: "(nat \<Rightarrow> cstring) \<Rightarrow> index_anchor on_attr_cb" where
  "on_attr slot_bytes A attr =
     (let attr1 = attr\<lparr>file_path_str := path_ptr (file_path A), obj_path_str := path_ptr (obj_path A)\<rparr>
      in ebind (indexing_attr slot_bytes A attr1) (\<lambda>(rc, A'). Inr (rc, A', attr1)))"

definition parse_hdf5_file ::
  "(nat \<Rightarrow> cstring) \<Rightarrow> (cstring \<Rightarrow> h5_file option) \<Rightarrow> cstring \<Rightarrow> index_anchor option \<Rightarrow> c_error + index_anchor option" where
  "parse_hdf5_file slot_bytes h5 filepath anchor =
     (case anchor of
        None \<Rightarrow> Inr None
      | Some A \<Rightarrow>
          let A1 = A\<lparr>file_path := Some filepath, total_num_files := total_num_files A + 1\<rparr> in
          ebind (scan_hdf5 (h5 filepath) False
                  (Some (init_metadata_collector 0 A1 (Some on_obj) (Some (on_attr slot_bytes))))) (\<lambda>(_, coll).
            Inr (map_option opdata coll)))"

section \<open>The linked lists\<close>

fun follow :: "nat \<Rightarrow> (nat \<Rightarrow> nat option) \<Rightarrow> nat option \<Rightarrow> nat list" where
  "follow 0 nx p = []"
| "follow (Suc n) nx None = []"
| "follow (Suc n) nx (Some a) = a # follow n nx (nx a)"

lemma follow_upto:
  assumes "\<And>i. i < m \<Longrightarrow> nx i = (if Suc i < m then Some (Suc i) else None)" and "a \<le> m"
  shows "follow (Suc (m - a)) nx (if a < m then Some a else None) = [a..<m]"
  using assms(2)
proof (induction "m - a" arbitrary: a)
  case (Suc n)
  then have a: "a < m" "n = m - Suc a" "Suc a \<le> m" by simp_all
  then have "Suc (m - a) = Suc (Suc (m - Suc a))" by simp
  with Suc.hyps(1) [OF a(2,3)] assms(1) [OF a(1)] a(1) show ?case by (simp add: upt_conv_Cons)
qed simp

text \<open>The objects of a collector: linked in the order they were allocated.\<close>

definition objects_linked :: "'o miqs_metadata_collector \<Rightarrow> bool" where
  "objects_linked coll \<longleftrightarrow> (let m = length (mc_objects coll) in
     object_linked_list coll = (if m = 0 then None else Some 0) \<and>
     (0 < m \<longrightarrow> do_tail (mc_objects coll ! 0) = (if m = 1 then None else Some (m - 1))) \<and>
     (\<forall>i < m. do_next (mc_objects coll ! i) = (if Suc i < m then Some (Suc i) else None)))"

lemma objects_linked_opdata [simp]: "objects_linked (coll\<lparr>opdata := x\<rparr>) = objects_linked coll"
  by (simp add: objects_linked_def)

lemma append_object_linked:
  assumes "objects_linked coll" and "do_next mdo = None" and "do_tail mdo = None"
  shows "objects_linked (append_object mdo coll)"
proof (cases "mc_objects coll = []")
  case True
  with assms show ?thesis by (simp add: objects_linked_def append_object_def Let_def)
next
  case False
  let ?objs = "mc_objects coll" and ?m = "length (mc_objects coll)"
  have m: "0 < ?m" "object_linked_list coll = Some 0" "do_tail (?objs ! 0) = (if ?m = 1 then None else Some (?m - 1))"
    and nx: "\<forall>i < ?m. do_next (?objs ! i) = (if Suc i < ?m then Some (Suc i) else None)"
    using False assms(1) by (simp_all add: objects_linked_def Let_def)
  show ?thesis
  proof (cases "?m = 1")
    case True
    with m nx assms(2) show ?thesis
      by (auto simp: objects_linked_def append_object_def Let_def nth_append less_Suc_eq)
  next
    case more: False
    then have t: "?m - 1 \<noteq> 0" "?m - 1 < ?m" using m(1) by linarith+
    let ?objs' = "?objs[?m - 1 := (?objs ! (?m - 1))\<lparr>do_next := Some ?m\<rparr>]"
    have app: "mc_objects (append_object mdo coll) = ?objs'[0 := (?objs' ! 0)\<lparr>do_tail := Some ?m\<rparr>] @ [mdo\<lparr>do_head := Some 0\<rparr>]"
      "object_linked_list (append_object mdo coll) = Some 0"
      using m more by (simp_all add: append_object_def Let_def)
    have "do_next (?objs'[0 := (?objs' ! 0)\<lparr>do_tail := Some ?m\<rparr>] ! i) = Some (Suc i)" if "i < ?m" for i
      using that nx t by (cases "i = ?m - 1"; cases "i = 0") (auto simp: nth_list_update)
    then show ?thesis
      using m(1) assms(2) unfolding objects_linked_def app Let_def by (auto simp: nth_append less_Suc_eq)
  qed
qed

lemma nth_update_same: "f x = f (xs ! t) \<Longrightarrow> f (xs[t := x] ! h) = f (xs ! h)"
  by (cases "t < length xs"; cases "h = t") (auto simp: list_update_beyond)

lemma map_update_same: "f x = f (xs ! i) \<Longrightarrow> map f (xs[i := x]) = map f xs"
  by (cases "i < length xs") (auto simp: map_update list_update_same_conv list_update_beyond)

lemma append_object_names:
  "map obj_name (mc_objects (append_object mdo coll)) = map obj_name (mc_objects coll) @ [obj_name mdo]"
  "mc_on_obj (append_object mdo coll) = mc_on_obj coll" "mc_on_attr (append_object mdo coll) = mc_on_attr coll"
  by (simp_all add: append_object_def Let_def map_update_same nth_update_same split: option.split)

text \<open>The attribute list of one object after \<open>m\<close> appends: the first node points at the last one.\<close>

definition attrs_linked :: "miqs_data_object \<Rightarrow> bool" where
  "attrs_linked mdo \<longleftrightarrow> (let m = length (attr_nodes mdo) in
     attr_linked_list mdo = (if m = 0 then None else Some 0) \<and>
     (\<forall>i < m. an_next (attr_nodes mdo ! i) = (if i = 0 \<and> 1 < m then Some (m - 1) else None)))"

lemma append_attr_linked: "attrs_linked mdo \<Longrightarrow> attrs_linked (append_attr c mdo)"
  by (auto simp: attrs_linked_def append_attr_def Let_def nth_append nth_list_update less_Suc_eq split: option.split if_splits)

lemma append_attr_simps:
  "obj_name (append_attr c mdo) = obj_name mdo" "do_next (append_attr c mdo) = do_next mdo"
  "do_tail (append_attr c mdo) = do_tail mdo" "num_attrs (append_attr c mdo) = num_attrs mdo + 1"
  "length (attr_nodes (append_attr c mdo)) = Suc (length (attr_nodes mdo))"
  by (simp_all add: append_attr_def Let_def split: option.split)

definition same_object :: "miqs_data_object \<Rightarrow> miqs_data_object \<Rightarrow> bool" where
  "same_object mdo mdo' \<longleftrightarrow> obj_name mdo' = obj_name mdo \<and> do_next mdo' = do_next mdo \<and> do_tail mdo' = do_tail mdo"

lemma attr_info_object:
  assumes "attr_info cb h (mdo, op) = Inr (mdo', op')" and "attrs_linked mdo"
  shows "attrs_linked mdo' \<and> same_object mdo mdo' \<and> num_attrs mdo' = num_attrs mdo + 1 \<and>
    length (attr_nodes mdo') = Suc (length (attr_nodes mdo))"
proof -
  obtain c where c: "read_attribute h = Inr c" using assms(1) by (auto simp: attr_info_def)
  have upd: "attrs_linked (m\<lparr>attr_nodes := (attr_nodes m)[a := (attr_nodes m ! a)\<lparr>an_attr := x\<rparr>]\<rparr>)"
    if "attrs_linked m" for m a x
    using that by (simp add: attrs_linked_def Let_def nth_update_same)
  show ?thesis
  proof (cases cb)
    case None
    with assms c append_attr_linked [OF assms(2)] show ?thesis
      by (auto simp: attr_info_def same_object_def append_attr_simps Let_def)
  next
    case (Some f)
    then obtain rc x where "mdo' = (append_attr c mdo)\<lparr>attr_nodes := (attr_nodes (append_attr c mdo))
        [length (attr_nodes mdo) := (attr_nodes (append_attr c mdo) ! length (attr_nodes mdo))\<lparr>an_attr := x\<rparr>]\<rparr>"
      using assms(1) c by (auto simp: attr_info_def Let_def)
    with upd [OF append_attr_linked [OF assms(2)]] show ?thesis
      by (simp add: same_object_def append_attr_simps)
  qed
qed

lemma iterate_attrs_object:
  assumes "h5_iterate (attr_info cb) hs (mdo, op) = Inr (mdo', op')" and "attrs_linked mdo"
  shows "attrs_linked mdo' \<and> same_object mdo mdo' \<and> num_attrs mdo' = num_attrs mdo + of_nat (length hs) \<and>
    length (attr_nodes mdo') = length (attr_nodes mdo) + length hs"
  using assms
proof (induction hs arbitrary: mdo op)
  case (Cons h hs)
  then obtain mdo1 op1 where 1: "attr_info cb h (mdo, op) = Inr (mdo1, op1)"
    "h5_iterate (attr_info cb) hs (mdo1, op1) = Inr (mdo', op')" by auto
  from attr_info_object [OF 1(1) Cons.prems(2)] Cons.IH [OF 1(2)] show ?case
    by (auto simp: same_object_def)
qed (simp add: same_object_def)

lemma op_func_objects:
  assumes "op_func h coll = Inr coll'" and "objects_linked coll"
  shows "objects_linked coll' \<and> map obj_name (mc_objects coll') = map obj_name (mc_objects coll) @ [h5o_name h] \<and>
    mc_on_obj coll' = mc_on_obj coll \<and> mc_on_attr coll' = mc_on_attr coll"
proof -
  let ?n = "num_attrs (new_object h)" and ?mdo = "new_object h"
  have empty: "attrs_linked ?mdo" by (simp add: attrs_linked_def new_object_def)
  have fresh: "obj_name ?mdo = h5o_name h" "do_next ?mdo = None" "do_tail ?mdo = None"
    by (simp_all add: new_object_def)
  obtain mdo1 coll1 where s: "same_object ?mdo mdo1" "mc_objects coll1 = mc_objects coll"
    "object_linked_list coll1 = object_linked_list coll" "mc_on_obj coll1 = mc_on_obj coll" "mc_on_attr coll1 = mc_on_attr coll"
    and fin: "\<exists>op. coll' = (append_object mdo1 coll1)\<lparr>opdata := op\<rparr> \<or> coll' = append_object mdo1 coll1"
  proof (cases "0 < sint ?n")
    case True
    then obtain mdo1 op1 where it: "h5_iterate (attr_info (mc_on_attr coll)) (h5o_attrs h) (?mdo, opdata coll) = Inr (mdo1, op1)"
      using assms(1) by (auto simp: op_func_def Let_def)
    show thesis
      using True it assms(1) iterate_attrs_object [OF it empty]
      by (intro that [of mdo1 "coll\<lparr>opdata := op1, mc_total_num_attrs := mc_total_num_attrs coll + ?n\<rparr>"])
        (auto simp: op_func_def Let_def split: option.splits)
  next
    case False
    then show thesis
      using assms(1) by (intro that [of ?mdo coll]) (auto simp: op_func_def Let_def same_object_def split: option.splits)
  qed
  have "objects_linked coll1" using assms(2) s by (simp add: objects_linked_def)
  then have "objects_linked (append_object mdo1 coll1)"
    using s(1) fresh by (intro append_object_linked) (simp_all add: same_object_def)
  then show ?thesis
    using fin s fresh append_object_names [of mdo1 coll1] by (auto simp: same_object_def)
qed

lemma iterate_objects:
  assumes "h5_iterate op_func hs coll = Inr coll'" and "objects_linked coll"
  shows "objects_linked coll' \<and> map obj_name (mc_objects coll') = map obj_name (mc_objects coll) @ map h5o_name hs"
  using assms
proof (induction hs arbitrary: coll)
  case (Cons h hs)
  then obtain coll1 where 1: "op_func h coll = Inr coll1" "h5_iterate op_func hs coll1 = Inr coll'" by auto
  from op_func_objects [OF 1(1) Cons.prems(2)] Cons.IH [OF 1(2)] show ?case by simp
qed simp

section \<open>Feeding the index\<close>

text \<open>Indexing an attribute leaves the current file and object as they are.\<close>

lemma push_pair_paths: "push_pair pos fp op v A = Inr A' \<Longrightarrow> file_path A' = file_path A \<and> obj_path A' = obj_path A"
  by (auto simp: push_pair_def use_ptr_def Let_def set_value_leaf_def split: prod.splits option.splits str_ptr.splits)

lemma numeric_entry_paths:
  assumes "numeric_entry k a A = Inr (v, A')"
  shows "file_path A' = file_path A \<and> obj_path A' = obj_path A"
proof -
  obtain leaf t where l: "get_attr_leaf a A = Inr leaf" "leaf_rbt leaf = Some t"
    using assms by (auto simp: numeric_entry_def)
  obtain rc e where e: "rbt_find t k = (rc, e)" by force
  show ?thesis
    using assms l e by (cases e) (auto simp: numeric_entry_def Let_def heap_defs leaf_rbt_add_def set_attr_leaf_def split: option.splits)
qed

lemma numeric_loop_paths:
  "numeric_loop n i pos arr fp op a A = Inr A' \<Longrightarrow> file_path A' = file_path A \<and> obj_path A' = obj_path A"
proof (induction n arbitrary: i A)
  case (Suc n)
  then obtain k v A1 A2 where "numeric_entry k a A = Inr (v, A1)" "push_pair pos fp op v A1 = Inr A2"
    "numeric_loop n (Suc i) pos arr fp op a A2 = Inr A'"
    by (auto simp: numeric_step_def Let_def)
  then show ?case using Suc.IH [of "Suc i" A2] numeric_entry_paths [of k a A v A1] push_pair_paths [of pos fp op v A1 A2] by simp
qed simp

lemma numeric_attr_paths:
  assumes "numeric_type (attr_type attr)" and "create_in_mem_index_for_attr A attr = Inr A'"
  shows "file_path A' = file_path A \<and> obj_path A' = obj_path A"
proof -
  obtain i a A1 where f: "find_attr_leaf i (attr_name attr) (attr_type attr) A = Inr (a, A1)"
    and n: "indexing_numeric i (attribute_value attr) (attribute_value_length attr) (file_path_str attr) (obj_path_str attr) a A1 = Inr A'"
    using assms by (auto simp: create_in_mem_index_for_attr_def numeric_type_def)
  have "file_path A1 = file_path A \<and> obj_path A1 = obj_path A"
    using f by (auto simp: find_attr_leaf_def heap_defs Let_def split: option.splits prod.splits if_splits)
  with numeric_loop_paths [OF n [unfolded indexing_numeric_def]] show ?thesis by simp
qed

lemma indexing_attr_paths:
  assumes "numeric_type (attr_type attr)" and "on_disk_file_stream A = None \<or> is_readonly_index_file A \<noteq> 0"
    and "indexing_attr sb A attr = Inr (rc, A')"
  shows "file_path A' = file_path A \<and> obj_path A' = obj_path A"
  using assms numeric_attr_paths [OF assms(1)]
  by (fastforce simp: indexing_attr_def Let_def split: if_splits option.splits)

text \<open>
  The attributes of an object, each with the values it holds. \<open>indexable\<close>: every one of them can be indexed under the file \<open>f\<close> and the
  object \<open>ob\<close> when its turn comes. \<open>posts_of\<close>: what they post under a name and a value.
\<close>

abbreviation under :: "cstring \<Rightarrow> cstring \<Rightarrow> miqs_meta_attribute \<Rightarrow> miqs_meta_attribute" where
  "under f ob attr \<equiv> attr\<lparr>file_path_str := Str_Ptr f, obj_path_str := Str_Ptr ob\<rparr>"

fun indexable ::
  "(nat \<Rightarrow> cstring) \<Rightarrow> cstring \<Rightarrow> cstring \<Rightarrow> index_anchor \<Rightarrow> (miqs_meta_attribute \<times> byte list list) list \<Rightarrow> bool" where
  "indexable sb f ob A [] = True"
| "indexable sb f ob A ((attr, ks) # rest) =
     (can_index A (under f ob attr) ks f ob \<and> selected (attr_name attr) A \<and>
      (on_disk_file_stream A = None \<or> is_readonly_index_file A \<noteq> 0) \<and>
      (case indexing_attr sb A (under f ob attr) of Inl e \<Rightarrow> False | Inr (rc, A') \<Rightarrow> indexable sb f ob A' rest))"

definition posts_of ::
  "cstring \<times> cstring \<Rightarrow> (miqs_meta_attribute \<times> byte list list) list \<Rightarrow> cstring \<Rightarrow> byte list \<Rightarrow> (cstring \<times> cstring) list" where
  "posts_of p attrs n k =
     concat (map (\<lambda>(attr, ks). if attr_name attr = n then replicate (occurrences (attr_type attr) k ks) p else []) attrs)"

lemma posts_of_simps [simp]:
  "posts_of p [] n k = []"
  "posts_of p ((attr, ks) # rest) n k =
     (if attr_name attr = n then replicate (occurrences (attr_type attr) k ks) p else []) @ posts_of p rest n k"
  by (simp_all add: posts_of_def)

lemma posts_of_nonempty:
  assumes "(attr, ks) \<in> set attrs" and "k \<in> set ks"
  shows "posts_of p attrs (attr_name attr) k \<noteq> []"
proof -
  have "k \<in> set (filter (\<lambda>k'. type_val (attr_type attr) k = type_val (attr_type attr) k') ks)" using assms(2) by simp
  then have "0 < occurrences (attr_type attr) k ks" unfolding occurrences_def by (rule length_pos_if_in_set)
  with assms(1) show ?thesis by (force simp: posts_of_def)
qed

text \<open>A name keeps its type: the keys of the two types have different lengths.\<close>

lemma fits_kept:
  assumes "\<forall>k. key_of A' n k \<longrightarrow> key_of A n k" and "attr_of A n = Some a" and "fits t (attr_leaves A ! a)"
    and "attr_of A' n = Some a'"
  shows "fits t (attr_leaves A' ! a')"
proof (rule ccontr)
  assume "\<not> fits t (attr_leaves A' ! a')"
  moreover have "dbl_val 0 = Fin (0 * 2 ^ 1074)" by (simp add: dbl_val_def Let_def)
  then have z: "bytes4 0 \<in> int_keys" "bytes8 0 \<in> dbl_keys" "bytes8 0 \<notin> int_keys" "bytes4 0 \<notin> dbl_keys"
    by (auto simp: int_keys_def dbl_keys_def intro!: exI [of _ 0] simp del: mult_zero_left)
  then have "\<exists>k \<in> int_keys. k \<notin> dbl_keys" "\<exists>k \<in> dbl_keys. k \<notin> int_keys" by (blast intro: z)+
  ultimately have "\<exists>k. k \<in> leaf_keys (attr_leaves A' ! a') \<and> k \<notin> leaf_keys (attr_leaves A ! a)"
    using assms(3) by (auto simp: fits_def leaf_keys_def)
  with assms(1,2,4) show False by (auto simp: key_of_def)
qed

definition holds_posts ::
  "cstring \<times> cstring \<Rightarrow> index_anchor \<Rightarrow> (miqs_meta_attribute \<times> byte list list) list \<Rightarrow> index_anchor \<Rightarrow> bool" where
  "holds_posts p A attrs A' \<longleftrightarrow> index_inv A' \<and>
     (\<forall>n k. key_of A' n k \<longrightarrow> key_of A n k \<and> index_lookup A' n k = index_lookup A n k @ posts_of p attrs n k) \<and>
     (\<forall>(attr, ks) \<in> set attrs. numeric_type (attr_type attr) \<and> set ks \<subseteq> type_keys (attr_type attr) \<and>
        (\<forall>a. attr_of A' (attr_name attr) = Some a \<longrightarrow> fits (attr_type attr) (attr_leaves A' ! a)))"

lemma holds_posts_step:
  assumes one: "indexing_attr sb A (under f ob attr) = Inr (rc, A1)" and can: "can_index A (under f ob attr) ks f ob"
    and "index_inv A" and "selected (attr_name attr) A" and "on_disk_file_stream A = None \<or> is_readonly_index_file A \<noteq> 0"
    and rest: "index_inv A1 \<Longrightarrow> holds_posts (f, ob) A1 attrs A'"
  shows "holds_posts (f, ob) A ((attr, ks) # attrs) A'"
proof -
  have sel: "selected (attr_name (under f ob attr)) A" using assms(4) by simp
  obtain a where A1: "index_inv A1" "\<forall>n k. key_of A1 n k \<longrightarrow> key_of A n k"
    "attr_of A1 (attr_name attr) = Some a" "fits (attr_type attr) (attr_leaves A1 ! a)"
    "\<forall>n k. key_of A1 n k \<longrightarrow> index_lookup A1 n k =
      index_lookup A n k @ (if n = attr_name attr then replicate (occurrences (attr_type attr) k ks) (f, ob) else [])"
    using indexing_attr_spec [OF assms(3) can sel assms(5), of sb] one by auto
  note r = rest [OF A1(1), unfolded holds_posts_def]
  have "fits (attr_type attr) (attr_leaves A' ! a')" if "attr_of A' (attr_name attr) = Some a'" for a'
    using fits_kept [OF _ A1(3,4) that] r by blast
  moreover have "numeric_type (attr_type attr)" "set ks \<subseteq> type_keys (attr_type attr)" using can by (simp_all add: can_index_def)
  moreover have "key_of A n k \<and> index_lookup A' n k = index_lookup A n k @ posts_of (f, ob) ((attr, ks) # attrs) n k"
    if "key_of A' n k" for n k
    using r that A1(2,5) by auto
  ultimately show ?thesis using r unfolding holds_posts_def by auto
qed

lemma iterate_attrs_posts:
  assumes "list_all2 (\<lambda>x (attr, ks). read_attribute x = Inr attr) xs attrs" and "index_inv A" and "file_path A = Some f"
    and "obj_path A = Some ob" and "indexable sb f ob A attrs"
  shows "\<exists>mdo' A'. h5_iterate (attr_info (Some (on_attr sb))) xs (mdo, A) = Inr (mdo', A') \<and> holds_posts (f, ob) A attrs A'"
  using assms
proof (induction xs arbitrary: attrs A mdo)
  case Nil
  then show ?case by (simp add: holds_posts_def)
next
  case (Cons x xs)
  then obtain attr ks rest where at: "attrs = (attr, ks) # rest" "read_attribute x = Inr attr"
    "list_all2 (\<lambda>x (attr, ks). read_attribute x = Inr attr) xs rest"
    by (auto simp: list_all2_Cons1)
  then obtain rc A1 where one: "indexing_attr sb A (under f ob attr) = Inr (rc, A1)" "indexable sb f ob A1 rest"
    and can: "can_index A (under f ob attr) ks f ob" "selected (attr_name attr) A"
      "on_disk_file_stream A = None \<or> is_readonly_index_file A \<noteq> 0"
    using Cons.prems(5) by (auto split: sum.splits)
  have "numeric_type (attr_type (under f ob attr))" using can(1) by (simp add: can_index_def)
  from indexing_attr_paths [OF this can(3) one(1)] have p: "file_path A1 = Some f" "obj_path A1 = Some ob"
    using Cons.prems(3,4) by simp_all
  have inv: "index_inv A1"
    using indexing_attr_spec [OF Cons.prems(2) can(1) _ can(3), of sb] can(2) one(1) by auto
  obtain mdo1 where m: "attr_info (Some (on_attr sb)) x (mdo, A) = Inr (mdo1, A1)"
    using at(2) one(1) Cons.prems(3,4) by (simp add: attr_info_def on_attr_def path_ptr_def Let_def)
  obtain mdo' A' where it: "h5_iterate (attr_info (Some (on_attr sb))) xs (mdo1, A1) = Inr (mdo', A')"
    "holds_posts (f, ob) A1 rest A'"
    using Cons.IH [OF at(3) inv p one(2)] by blast
  have "holds_posts (f, ob) A ((attr, ks) # rest) A'"
    using holds_posts_step [OF one(1) can(1) Cons.prems(2) can(2,3)] it(2) by blast
  with m it(1) show ?case unfolding at(1) by auto
qed

lemma op_func_posts:
  assumes "list_all2 (\<lambda>x (attr, ks). read_attribute x = Inr attr) (h5o_attrs h) attrs" and "length (h5o_attrs h) < 2 ^ 31"
    and "mc_on_attr coll = Some (on_attr sb)" and "mc_on_obj coll = Some on_obj" and "index_inv (opdata coll)"
    and "file_path (opdata coll) = Some f" and "obj_path (opdata coll) = Some ob" and "indexable sb f ob (opdata coll) attrs"
  shows "\<exists>coll' A'. op_func h coll = Inr coll' \<and> holds_posts (f, ob) (opdata coll) attrs A' \<and>
    opdata coll' = A'\<lparr>obj_path := Some (h5o_name h), total_num_objects := total_num_objects A' + 1\<rparr>"
proof -
  have op: "opdata (append_object mdo c) = opdata c" "mc_on_obj (append_object mdo c) = mc_on_obj c"
      "obj_name (last (mc_objects (append_object mdo c))) = obj_name mdo"
    for mdo and c :: "index_anchor miqs_metadata_collector"
    by (simp_all add: append_object_def Let_def split: option.split)
  obtain mdo A' where it: "h5_iterate (attr_info (Some (on_attr sb))) (h5o_attrs h) (new_object h, opdata coll) = Inr (mdo, A')"
    and A': "holds_posts (f, ob) (opdata coll) attrs A'"
    using iterate_attrs_posts [OF assms(1,5-8)] by blast
  have nm: "obj_name mdo = h5o_name h" "obj_name (new_object h) = h5o_name h"
    using iterate_attrs_object [OF it] by (simp_all add: attrs_linked_def new_object_def same_object_def)
  have n: "num_attrs (new_object h) = of_nat (length (h5o_attrs h))" by (simp add: new_object_def)
  show ?thesis
  proof (cases "h5o_attrs h = []")
    case True
    then have "A' = opdata coll" using it by simp
    with True n nm A' assms(3,4) show ?thesis by (auto simp: op_func_def Let_def op on_obj_def)
  next
    case False
    have "sint (num_attrs (new_object h)) = int (length (h5o_attrs h))"
      unfolding n using assms(2) by (intro sint_of_nat_small) simp
    with False it nm A' assms(3,4) show ?thesis by (auto simp: op_func_def Let_def op on_obj_def)
  qed
qed

text \<open>A small file: the root group and a dataset \<^verbatim>\<open>g\<close>, each object with attributes \<^verbatim>\<open>x\<close> of one integer.\<close>

definition sample_h5_attr :: "nat \<Rightarrow> h5_attribute" where
  "sample_h5_attr n = \<lparr>h5a_name = [120], h5a_class = H5T_INTEGER, h5a_npoints = 1, h5a_size = 4, h5a_is_vlen = False,
     h5a_data = bytes4 (of_nat n), h5a_strings = []\<rparr>"

definition sample_h5_object :: "cstring \<Rightarrow> nat \<Rightarrow> h5_object" where
  "sample_h5_object name n = \<lparr>h5o_name = name, h5o_type = H5O_TYPE_GROUP, h5o_attrs = map sample_h5_attr [0..<n]\<rparr>"

text \<open>An object with two attributes, \<^verbatim>\<open>x = 0\<close> and \<^verbatim>\<open>y = 1\<close>, visited after the object \<^verbatim>\<open>g\<close> of the file \<^verbatim>\<open>a\<close>.\<close>

definition two_attrs :: h5_object where
  "two_attrs = \<lparr>h5o_name = [104], h5o_type = H5O_TYPE_GROUP, h5o_attrs = [sample_h5_attr 0, (sample_h5_attr 1)\<lparr>h5a_name := [121]\<rparr>]\<rparr>"

abbreviation int_attr :: "cstring \<Rightarrow> c_int \<Rightarrow> miqs_meta_attribute" where
  "int_attr n i \<equiv> (new_attribute n)\<lparr>attr_type := MIQS_AT_INTEGER, attribute_value := Num_Array (bytes4 i), attribute_value_length := 1\<rparr>"

abbreviation visiting :: index_anchor where
  "visiting \<equiv> (init_in_mem_index 1)\<lparr>file_path := Some [97], obj_path := Some [103]\<rparr>"

lemma two_attrs_first:
  "\<exists>A1 p. indexing_attr (\<lambda>_. []) visiting (under [97] [103] (int_attr [120] 0)) = Inr (1, A1) \<and> parallelism A1 = 1 \<and>
   fpaths A1 0 = [[97]] \<and> opaths A1 0 = [[103]] \<and> num_indexed_field A1 = 0 \<and> on_disk_file_stream A1 = None \<and>
   root_art_array A1 = [\<lparr>root = Some (Leaf [120] 0), art_size = 1\<rparr>] \<and>
   value_leaves A1 = [\<lparr>file_obj_pair_list = Some (snd (list_push_value (Some p) list_create))\<rparr>]"
proof -
  obtain fl ol where t: "insert_tagged_value list_create (Some [97]) = Inr (0, fl)" "path_table fl [[97]]"
    "insert_tagged_value list_create (Some [103]) = Inr (0, ol)" "path_table ol [[103]]"
    using insert_tagged_value_spec [OF path_table_create, of "[97]"] insert_tagged_value_spec [OF path_table_create, of "[103]"]
    by (auto simp: room_def str_ok_def no_nul_def add_path_def)
  have tg: "tags fl = [[97]]" "tags ol = [[103]]" using t path_table_tags by auto
  have h: "hash_slot [120] 1 = Inr 0" by (simp add: hash_slot_def)
  have r: "rbt_add \<lparr>rbt_root = Null, rbt_size = 0, cmp_keys_cb = libhl_cmp_keys_int\<rparr> k v =
      Some (0, \<lparr>rbt_root = Node RBTREE_COLOR_BLACK Null k v Null, rbt_size = 1, cmp_keys_cb = libhl_cmp_keys_int\<rparr>)" for k and v :: nat
    by (subst rbt_add.simps) (simp add: rbt_count_new_def rbt_create_def)
  show ?thesis
    using h t r by (auto simp: indexing_attr_def create_in_mem_index_for_attr_def init_in_mem_index_def Let_def find_attr_leaf_def
        art_search_def art_tree_init_def heap_defs attr_leaf_for_def indexing_numeric_def zero_attr_leaf_def numeric_step_def num_elem_def
        numeric_entry_def leaf_rbt_add_def art_insert_def push_pair_def use_ptr_def new_attribute_def rbt_find_def rbt_create_def set_attr_leaf_def make_leaf_def fpaths_def opaths_def tg)
qed

lemma two_attrs_indexable:
  "indexable (\<lambda>_. []) [97] [103] visiting [(int_attr [120] 0, [bytes4 0]), (int_attr [121] 1, [bytes4 1])] \<and> index_inv visiting"
proof -
  have p: "0 < sint (1 :: c_int)" by simp
  have "same_index (init_in_mem_index 1) visiting" by (simp add: same_index_def)
  note A = same_index_facts [OF this]
  have can: "can_index visiting (under [97] [103] (int_attr [120] 0)) [bytes4 0] [97] [103]"
    unfolding A by (intro can_index_init) (simp_all add: new_attribute_def numeric_type_def type_keys_def no_nul_def str_ok_def)
  have sel: "selected n visiting" "on_disk_file_stream visiting = None" for n
    by (simp_all add: selected_def init_in_mem_index_def Let_def)
  have inv: "index_inv visiting" unfolding A by (rule init_inv) simp
  obtain A1 q where A1: "indexing_attr (\<lambda>_. []) visiting (under [97] [103] (int_attr [120] 0)) = Inr (1, A1)" "parallelism A1 = 1"
    "fpaths A1 0 = [[97]]" "opaths A1 0 = [[103]]" "num_indexed_field A1 = 0" "on_disk_file_stream A1 = None"
    "root_art_array A1 = [\<lparr>root = Some (Leaf [120] 0), art_size = 1\<rparr>]"
    "value_leaves A1 = [\<lparr>file_obj_pair_list = Some (snd (list_push_value (Some q) list_create))\<rparr>]"
    using two_attrs_first by blast
  have s: "slot_of A1 [121] = 0" by (simp add: slot_of_def A1(2))
  have "pair_list (snd (list_push_value (Some q) list_create)) ([] @ [q])" by (intro push_pair_list) simp_all
  then have pr: "leaf_pairs A1 0 = [q]" by (simp add: leaf_pairs_def A1(8) pair_list_def)
  have se: "art_search (root_art_array A1 ! 0) [121] = Inr None" by (simp add: A1(7) art_search_def leaf_matches_def)
  have no: "attr_of A1 [121] = None" by (simp add: attr_of_def s A1(7) tree_map_def tree_entries_def)
  have "can_index A1 (under [97] [103] (int_attr [121] 1)) [bytes4 1] [97] [103]"
    by (simp add: can_index_def s se no A1(2-6,8) pr room_def spare_def new_attribute_def numeric_type_def type_keys_def no_nul_def str_ok_def int_keys_def)
  then have c2: "can_index A1 (under [97] [103] (int_attr [121] 1)) [bytes4 1] [97] [103]" .
  have i1: "index_inv A1" using indexing_attr_spec [OF inv can, of "\<lambda>_. []"] sel A1(1) by auto
  have s1: "selected n A1" for n by (simp add: selected_def A1(5))
  obtain A2 where "indexing_attr (\<lambda>_. []) A1 (under [97] [103] (int_attr [121] 1)) = Inr (1, A2)"
    using indexing_attr_spec [OF i1 c2 s1, of "\<lambda>_. []"] A1(6) by auto
  with can sel A1(1,6) c2 s1 inv show ?thesis by simp
qed

section \<open>Properties\<close>

text \<open>C32: a scan links every object the file's iterator visits into the collector's list, once and in
  order, with its name.\<close>

theorem scan_links_all_objects:
  assumes "scan_hdf5 (Some hf) False (Some (init_metadata_collector n op cb1 cb2)) = Inr (rc, Some coll)"
  shows "rc = 1 \<and> map obj_name (mc_objects coll) = map h5o_name (h5_objects hf) \<and>
    follow (Suc (length (h5_objects hf))) (\<lambda>i. do_next (mc_objects coll ! i)) (object_linked_list coll) =
      [0..<length (h5_objects hf)]"
proof -
  let ?c0 = "init_metadata_collector n op cb1 cb2" and ?m = "length (h5_objects hf)"
  have "objects_linked ?c0" "mc_objects ?c0 = []" by (simp_all add: objects_linked_def init_metadata_collector_def)
  moreover have it: "h5_iterate op_func (h5_objects hf) ?c0 = Inr coll" "rc = 1"
    using assms by (auto simp: scan_hdf5_def)
  ultimately have l: "objects_linked coll" "map obj_name (mc_objects coll) = map h5o_name (h5_objects hf)"
    using iterate_objects [OF it(1)] by simp_all
  then have m: "length (mc_objects coll) = ?m" by (metis length_map)
  with l(1) have "object_linked_list coll = (if 0 < ?m then Some 0 else None)"
    "\<And>i. i < ?m \<Longrightarrow> do_next (mc_objects coll ! i) = (if Suc i < ?m then Some (Suc i) else None)"
    by (simp_all add: objects_linked_def Let_def)
  with follow_upto [of ?m "\<lambda>i. do_next (mc_objects coll ! i)" 0] l(2) it(2) show ?thesis by simp
qed

theorem scan_links_all_objects_witness:
  "\<exists>coll :: unit miqs_metadata_collector.
    scan_hdf5 (Some \<lparr>h5_objects = [sample_h5_object [46] 1, sample_h5_object [103] 2], h5_links = []\<rparr>) False
      (Some (init_metadata_collector 0 () None None)) = Inr (1, Some coll) \<and>
    map obj_name (mc_objects coll) = [[46], [103]] \<and>
    follow 3 (\<lambda>i. do_next (mc_objects coll ! i)) (object_linked_list coll) = [0, 1]"
proof -
  let ?hf = "\<lparr>h5_objects = [sample_h5_object [46] 1, sample_h5_object [103] 2], h5_links = []\<rparr>"
  have "\<exists>coll :: unit miqs_metadata_collector.
      scan_hdf5 (Some ?hf) False (Some (init_metadata_collector 0 () None None)) = Inr (1, Some coll)"
    by (simp add: scan_hdf5_def op_func_def Let_def sample_h5_object_def sample_h5_attr_def new_object_def
        init_metadata_collector_def attr_info_def read_attribute_def read_int_attr_def read_numbers_def append_attr_def
        append_object_def upt_conv_Cons split: option.split)
  then obtain coll :: "unit miqs_metadata_collector" where
    c: "scan_hdf5 (Some ?hf) False (Some (init_metadata_collector 0 () None None)) = Inr (1, Some coll)" by blast
  from scan_links_all_objects [OF c] c show ?thesis
    by (intro exI [of _ coll]) (simp add: sample_h5_object_def numeral_3_eq_3)
qed

text \<open>An object with two or more attributes keeps only the first and the last of them in its attribute
  list, and counts each of them twice.\<close>

theorem attr_list_keeps_two:
  assumes "h5_iterate (attr_info cb) (h5o_attrs h) (new_object h, op) = Inr (mdo, op')" and "2 \<le> length (h5o_attrs h)"
  shows "follow (Suc (length (h5o_attrs h))) (\<lambda>i. an_next (attr_nodes mdo ! i)) (attr_linked_list mdo) =
      [0, length (h5o_attrs h) - 1] \<and>
    num_attrs mdo = 2 * of_nat (length (h5o_attrs h))"
proof -
  let ?m = "length (h5o_attrs h)"
  have "attrs_linked (new_object h)" "attr_nodes (new_object h) = []" "num_attrs (new_object h) = of_nat ?m"
    by (simp_all add: attrs_linked_def new_object_def)
  with iterate_attrs_object [OF assms(1)]
  have l: "attrs_linked mdo" "num_attrs mdo = of_nat ?m + of_nat ?m" "length (attr_nodes mdo) = ?m" by simp_all
  obtain k where k: "?m = Suc (Suc k)" using assms(2) by (metis One_nat_def Suc_1 Suc_le_D Suc_le_mono)
  have nx: "attr_linked_list mdo = Some 0" "an_next (attr_nodes mdo ! 0) = Some (Suc k)" "an_next (attr_nodes mdo ! Suc k) = None"
    using l(1,3) k by (simp_all add: attrs_linked_def Let_def)
  have "follow (Suc ?m) (\<lambda>i. an_next (attr_nodes mdo ! i)) (attr_linked_list mdo) = [0, Suc k]"
    unfolding nx(1) k by (simp add: nx(2,3))
  with l(2) k show ?thesis by simp
qed

theorem attr_list_keeps_two_witness:
  "\<exists>mdo. h5_iterate (attr_info None) (h5o_attrs (sample_h5_object [103] 3)) (new_object (sample_h5_object [103] 3), ()) =
      Inr (mdo, ()) \<and>
    follow 4 (\<lambda>i. an_next (attr_nodes mdo ! i)) (attr_linked_list mdo) = [0, 2] \<and> num_attrs mdo = 6"
proof -
  let ?h = "sample_h5_object [103] 3"
  have "\<exists>mdo. h5_iterate (attr_info None) (h5o_attrs ?h) (new_object ?h, ()) = Inr (mdo, ())"
    by (simp add: Let_def sample_h5_object_def sample_h5_attr_def new_object_def attr_info_def read_attribute_def
        read_int_attr_def read_numbers_def append_attr_def upt_conv_Cons split: option.split)
  then obtain mdo where m: "h5_iterate (attr_info None) (h5o_attrs ?h) (new_object ?h, ()) = Inr (mdo, ())" by blast
  from attr_list_keeps_two [OF m] m show ?thesis
    by (intro exI [of _ mdo]) (simp add: sample_h5_object_def eval_nat_numeral)
qed

text \<open>C31: the attributes of an object are indexed before the object becomes the current one, so all of them are posted under the path of
  the object visited before: once the object was visited, it is the current one, but each name and value of the index holds what it
  held before and, for the attributes of this object, the previous object; an exact search for any of their values
  returns these. The index is well-formed with a current file and object, the object has less than \<open>2 ^ 31\<close> attributes, and each of
  them can be indexed when its turn comes: numeric, with values in the range of the comparator, a name that is
  new or was used with the same type, selected, and no append-only file is written.\<close>

theorem attrs_posted_under_previous_object:
  assumes "list_all2 (\<lambda>x (attr, ks). read_attribute x = Inr attr) (h5o_attrs h) attrs" and "length (h5o_attrs h) < 2 ^ 31"
    and "mc_on_attr coll = Some (on_attr sb)" and "mc_on_obj coll = Some on_obj" and "index_inv (opdata coll)"
    and "file_path (opdata coll) = Some f" and "obj_path (opdata coll) = Some previous"
    and "indexable sb f previous (opdata coll) attrs"
  shows "\<exists>coll'. op_func h coll = Inr coll' \<and> index_inv (opdata coll') \<and> obj_path (opdata coll') = Some (h5o_name h) \<and>
    (\<forall>n k. key_of (opdata coll') n k \<longrightarrow>
       index_lookup (opdata coll') n k = index_lookup (opdata coll) n k @ posts_of (f, previous) attrs n k) \<and>
    (\<forall>(attr, ks) \<in> set attrs. \<forall>k \<in> set ks. \<exists>A2.
       exact_metadata_search (opdata coll') (attr_name attr) (Q_Num k) (query_type (attr_type attr)) =
         Inr (map rst_entry (index_lookup (opdata coll) (attr_name attr) k @ posts_of (f, previous) attrs (attr_name attr) k), A2))"
proof -
  obtain coll' A' where c: "op_func h coll = Inr coll'" "holds_posts (f, previous) (opdata coll) attrs A'"
    "opdata coll' = A'\<lparr>obj_path := Some (h5o_name h), total_num_objects := total_num_objects A' + 1\<rparr>"
    using op_func_posts [OF assms] by blast
  have "same_index A' (opdata coll')" by (simp add: c(3) same_index_def)
  note S = same_index_facts [OF this]
  have lv: "attr_leaves (opdata coll') = attr_leaves A'" by (simp add: c(3))
  note H = c(2) [unfolded holds_posts_def]
  have "\<exists>A2. exact_metadata_search (opdata coll') (attr_name attr) (Q_Num k) (query_type (attr_type attr)) =
      Inr (map rst_entry (index_lookup (opdata coll) (attr_name attr) k @ posts_of (f, previous) attrs (attr_name attr) k), A2)"
    if x: "(attr, ks) \<in> set attrs" "k \<in> set ks" for attr ks k
  proof -
    have t: "numeric_type (attr_type attr)" "k \<in> type_keys (attr_type attr)"
      "\<And>a. attr_of A' (attr_name attr) = Some a \<Longrightarrow> fits (attr_type attr) (attr_leaves A' ! a)"
      using H x by auto
    then have "key_of A' (attr_name attr) k" using fits_simps(1) by (auto simp: key_of_def)
    with H have l: "index_lookup A' (attr_name attr) k =
        index_lookup (opdata coll) (attr_name attr) k @ posts_of (f, previous) attrs (attr_name attr) k" by blast
    with posts_of_nonempty [OF x] obtain a v where v: "attr_of (opdata coll') (attr_name attr) = Some a"
      "leaf_get (attr_leaves (opdata coll') ! a) k = Some v"
      "index_lookup (opdata coll') (attr_name attr) k = postings (opdata coll') v"
      using lookup_nonempty [of "opdata coll'" "attr_name attr" k] unfolding S by auto
    have "index_inv (opdata coll')" "fits (attr_type attr) (attr_leaves (opdata coll') ! a)"
      using H v(1) t(3) unfolding S lv by auto
    from exact_search_spec [OF this(1) v(1) this(2) t(1,2) v(2)] v(3) l show ?thesis unfolding S by auto
  qed
  with c(1,3) H show ?thesis unfolding S [symmetric] by (auto simp: S)
qed

theorem attrs_posted_under_previous_object_witness:
  "\<exists>coll' A2 A3. op_func two_attrs (init_metadata_collector 0 visiting (Some on_obj) (Some (on_attr (\<lambda>_. [])))) = Inr coll' \<and>
    exact_metadata_search (opdata coll') [120] (Q_Num (bytes4 0)) MIQS_ATV_INTEGER =
      Inr ([\<lparr>rst_file_path = Some [97], rst_obj_path = Some [103]\<rparr>], A2) \<and>
    exact_metadata_search (opdata coll') [121] (Q_Num (bytes4 1)) MIQS_ATV_INTEGER =
      Inr ([\<lparr>rst_file_path = Some [97], rst_obj_path = Some [103]\<rparr>], A3)"
proof -
  let ?coll = "init_metadata_collector 0 visiting (Some on_obj) (Some (on_attr (\<lambda>_. [])))"
  let ?attrs = "[(int_attr [120] 0, [bytes4 0]), (int_attr [121] 1, [bytes4 1])]"
  have op: "opdata ?coll = visiting" "mc_on_obj ?coll = Some on_obj" "mc_on_attr ?coll = Some (on_attr (\<lambda>_. []))"
    by (simp_all add: init_metadata_collector_def)
  have rd: "list_all2 (\<lambda>x (attr, ks). read_attribute x = Inr attr) (h5o_attrs two_attrs) ?attrs" "length (h5o_attrs two_attrs) < 2 ^ 31"
    by (simp_all add: two_attrs_def read_attribute_def sample_h5_attr_def read_int_attr_def read_numbers_def Let_def)
  have "same_index (init_in_mem_index 1) visiting" by (simp add: same_index_def)
  note A = same_index_facts [OF this]
  have l: "index_lookup visiting n k = []" for n k
    unfolding A using attr_of_init [of 1] by (simp add: index_lookup_def)
  have p: "posts_of ([97], [103]) ?attrs [120] (bytes4 0) = [([97], [103])]" "posts_of ([97], [103]) ?attrs [121] (bytes4 1) = [([97], [103])]"
    by (simp_all add: occurrences_def new_attribute_def)
  have "file_path visiting = Some [97]" "obj_path visiting = Some [103]" by simp_all
  note attrs_posted_under_previous_object [OF rd op(3,2), unfolded op, OF conjunct2 [OF two_attrs_indexable] this conjunct1 [OF two_attrs_indexable]]
  then show ?thesis unfolding l by (auto simp: rst_entry_def query_type_def p [simplified] new_attribute_def occurrences_def)
qed

end
