(* ===== verification/Mdb_Roundtrip.thy ===== *)
theory Mdb_Roundtrip
  imports Index_Correct
begin

text \<open>
  The mdb file: what \<open>dump_mdb_index_to_disk\<close> writes and \<open>load_mdb\<close> makes of it. The file is the
  encoding of an abstract dump (the path tables, and for every attribute name its type, its values and the
  pairs posted under each), and the loader rebuilds an index with the same contents.
\<close>

section \<open>The abstract dump\<close>

type_synonym kv = "byte list \<times> file_obj_pair list"
type_synonym attr_dump = "cstring \<times> c_int \<times> kv list"

definition enc_key :: "c_int \<Rightarrow> byte list \<Rightarrow> byte list" where
  "enc_key fl k = (if fl = 0 then enc_int (int_of_bytes k) else enc_double (u64_of_bytes k))"

definition enc_kv :: "c_int \<Rightarrow> kv \<Rightarrow> byte list" where
  "enc_kv fl x = enc_key fl (fst x) @ enc_pairs (snd x)"

definition enc_values :: "c_int \<Rightarrow> kv list \<Rightarrow> byte list" where
  "enc_values fl kvs = enc_int (if fl = 0 then 1 else 2) @ enc_uint64 (of_nat (length kvs)) @ concat (map (enc_kv fl) kvs)"

definition enc_attr :: "attr_dump \<Rightarrow> byte list" where
  "enc_attr x = (case x of (n, fl, kvs) \<Rightarrow> enc_string n @ enc_values fl kvs)"

definition enc_attrs :: "attr_dump list \<Rightarrow> byte list" where
  "enc_attrs xs = enc_uint64 (of_nat (length xs)) @ concat (map enc_attr xs)"

text \<open>What an index has to dump: the values of a leaf in the order of the tree walk, the names in the order of
  the iteration.\<close>

definition leaf_kvs :: "index_anchor \<Rightarrow> attr_leaf \<Rightarrow> kv list" where
  "leaf_kvs A l = map (\<lambda>(k, v). (k, leaf_pairs A v)) (preorder (rbt_root (the (leaf_rbt l))))"

definition attr_dump_of :: "index_anchor \<Rightarrow> cstring \<times> nat \<Rightarrow> attr_dump" where
  "attr_dump_of A x = (fst x, is_float (attr_leaves A ! snd x), leaf_kvs A (attr_leaves A ! snd x))"

definition tree_dump :: "index_anchor \<Rightarrow> nat art_tree \<Rightarrow> attr_dump list" where
  "tree_dump A t = map (attr_dump_of A) (tree_entries t)"

text \<open>A leaf the writer can handle: numeric, with fewer than \<open>2 ^ 64\<close> values.\<close>

definition plain_leaf :: "index_anchor \<Rightarrow> nat \<Rightarrow> bool" where
  "plain_leaf A a \<longleftrightarrow> a < length (attr_leaves A) \<and> num_leaf (attr_leaves A ! a) \<and>
     length (leaf_kvs A (attr_leaves A ! a)) < 2 ^ 64"

section \<open>Keys of a tree\<close>

lemma mset_preorder: "mset (preorder u) = mset (inorder u)"
  by (induction u) simp_all

context key_order
begin

lemma ordered_entry:
  assumes "rbt_ok t" and "(k, v) \<in> set (inorder (rbt_root t))"
  shows "k \<in> K" and "snd (rbt_find t k) = Some v"
proof -
  have o: "ordered (inorder (rbt_root t))" using assms(1) by (simp add: rbt_ok_def)
  with assms(2) show k: "k \<in> K" by (force simp: ordered_def)
  have "List.find (\<lambda>x. val (fst x) = val k) xs = Some (k, v)"
    if "sorted_wrt (\<lambda>x y. val (fst x) < val (fst y)) xs" "(k, v) \<in> set xs" for xs
    using that by (induction xs) auto
  with o assms(2) have "lookup (inorder (rbt_root t)) k = Some v" by (simp add: ordered_def lookup_def)
  then show "snd (rbt_find t k) = Some v" using rbt_find_lookup [OF assms(1) k] by simp
qed

lemma sorted_distinct: "sorted_wrt (\<lambda>x y. val (fst x) < val (fst y)) xs \<Longrightarrow> distinct (map (val \<circ> fst) xs)"
  by (induction xs) fastforce+

lemma preorder_distinct:
  assumes "rbt_ok t"
  shows "distinct (map (val \<circ> fst) (preorder (rbt_root t)))"
proof -
  have d: "distinct (map (val \<circ> fst) (inorder (rbt_root t)))"
    using assms by (intro sorted_distinct) (simp add: rbt_ok_def ordered_def)
  have "mset (map (val \<circ> fst) (preorder (rbt_root t))) = mset (map (val \<circ> fst) (inorder (rbt_root t)))"
    by (simp add: mset_preorder del: map_map)
  with d show ?thesis by (metis mset_eq_imp_distinct_iff)
qed

end

lemma leaf_entries:
  assumes "leaf_ok l" and "leaf_rbt l = Some t" and "(k, v) \<in> set (preorder (rbt_root t))"
  shows "k \<in> leaf_keys l" and "leaf_get l k = Some v"
  using assms int_order.ordered_entry [of t k v] double_order.ordered_entry [of t k v]
  by (auto simp: leaf_ok_def leaf_keys_def leaf_get_def set_preorder split: if_splits)

lemma leaf_kvs_keys:
  assumes "leaf_ok l" and "leaf_rbt l = Some t"
  shows "distinct (map (leaf_val l \<circ> fst) (leaf_kvs A l))" and "fst ` set (leaf_kvs A l) \<subseteq> leaf_keys l"
proof -
  have "map (leaf_val l \<circ> fst) (leaf_kvs A l) = map (leaf_val l \<circ> fst) (preorder (rbt_root t))"
    using assms(2) by (simp add: leaf_kvs_def case_prod_unfold comp_def)
  then show "distinct (map (leaf_val l \<circ> fst) (leaf_kvs A l))"
    using assms int_order.preorder_distinct [of t] double_order.preorder_distinct [of t]
    by (auto simp: leaf_ok_def leaf_val_def split: if_splits)
  show "fst ` set (leaf_kvs A l) \<subseteq> leaf_keys l"
    using leaf_entries(1) [OF assms] assms(2) by (auto simp: leaf_kvs_def)
qed

section \<open>Writing\<close>

text \<open>A loop of writers that each append an encoding appends the encodings.\<close>

lemma fold_writers:
  assumes "\<And>x s. x \<in> set xs \<Longrightarrow> f x (Inr s) = Inr (fwrite (g x) s)" and "foffset s \<le> length (fcontents s)"
  shows "fold f xs (Inr s :: c_error + stream) = Inr (fwrite (concat (map g xs)) s)"
  using assms
proof (induction xs arbitrary: s)
  case (Cons x xs)
  have "fold f (x # xs) (Inr s) = fold f xs (Inr (fwrite (g x) s))" using Cons.prems(1) by simp
  also have "\<dots> = Inr (fwrite (concat (map g xs)) (fwrite (g x) s))"
    using Cons.prems by (intro Cons.IH) simp_all
  finally show ?case by (simp add: stream_simps)
qed (simp add: stream_simps)

lemma append_leaf_pairs_enc:
  assumes "vals_inv A" and "v < length (value_leaves A)"
  shows "append_leaf_pairs A v s = Inr (fwrite (enc_pairs (leaf_pairs A v)) s)"
proof -
  obtain l where "file_obj_pair_list (value_leaves A ! v) = Some l" "pair_list l (leaf_pairs A v)"
    using assms unfolding vals_inv_def by meson
  with assms(2) append_pairs_enc show ?thesis by (simp add: append_leaf_pairs_def heap_defs)
qed

lemma rbt_count: "snd (rbt_walk t rbt_size_cb 0) = of_nat (length (inorder (rbt_root t)))"
proof -
  have "never_stops rbt_size_cb" by (simp add: never_stops_def rbt_size_cb_def)
  moreover have "cb_fold rbt_size_cb xs n = n + of_nat (length xs)" for xs n
    by (induction xs arbitrary: n) (auto simp: rbt_size_cb_def)
  ultimately show ?thesis by (simp add: rbt_walk_all length_preorder)
qed

lemma append_values_enc:
  assumes inv: "heap_inv A" and a: "plain_leaf A a" and s: "foffset s \<le> length (fcontents s)"
  shows "\<exists>n. append_numeric_value_tree A (leaf_rbt (attr_leaves A ! a)) (is_float (attr_leaves A ! a)) s =
    Inr (n, fwrite (enc_values (is_float (attr_leaves A ! a)) (leaf_kvs A (attr_leaves A ! a))) s)"
proof -
  let ?l = "attr_leaves A ! a" and ?fl = "is_float (attr_leaves A ! a)"
  obtain t where t: "leaf_rbt ?l = Some t" using a by (auto simp: plain_leaf_def num_leaf_def)
  have lt: "a < length (attr_leaves A)" using a by (simp add: plain_leaf_def num_leaf_def)
  have inv': "vals_inv A" "leaves_inv A" using inv by (simp_all add: heap_inv_def)
  have ok: "leaf_ok ?l" using inv'(2) lt by (simp add: leaves_inv_def)
  have v: "v < length (value_leaves A)" if "(k, v) \<in> set (preorder (rbt_root t))" for k v
    using leaf_entries [OF ok t that] lt inv'(2) unfolding leaves_inv_def owns_def by blast
  let ?cb = "if ?fl \<noteq> 0 then append_float_value_node A else append_int_value_node A"
  let ?s2 = "fwrite (enc_int (if ?fl = 0 then 1 else 2) @ enc_uint64 (of_nat (length (leaf_kvs A ?l)))) s"
  have ns: "never_stops ?cb"
    by (simp add: never_stops_def append_float_value_node_def append_int_value_node_def)
  have "cb_fold ?cb (preorder (rbt_root t)) (Inr ?s2) =
      Inr (fwrite (concat (map (\<lambda>(k, v). enc_kv ?fl (k, leaf_pairs A v)) (preorder (rbt_root t)))) ?s2)"
    unfolding cb_fold_def
  proof (rule fold_writers)
    fix x s' assume x: "x \<in> set (preorder (rbt_root t))"
    obtain k v where "x = (k, v)" by fastforce
    with x show "(case x of (k, v) \<Rightarrow> \<lambda>u. snd (?cb k v u)) (Inr s') =
        Inr (fwrite (case x of (k, v) \<Rightarrow> enc_kv ?fl (k, leaf_pairs A v)) s')"
      using append_leaf_pairs_enc [OF inv'(1) v [of k v]]
      by (simp add: append_float_value_node_def append_int_value_node_def enc_simps enc_kv_def enc_key_def
          stream_simps)
  qed simp
  moreover have "concat (map (\<lambda>(k, v). enc_kv ?fl (k, leaf_pairs A v)) (preorder (rbt_root t))) =
      concat (map (enc_kv ?fl) (leaf_kvs A ?l))"
    using t by (simp add: leaf_kvs_def comp_def case_prod_unfold)
  moreover have "?fl = 0 \<or> ?fl = 1" using a by (simp add: plain_leaf_def num_leaf_def)
  moreover have "length (leaf_kvs A ?l) = length (inorder (rbt_root t))"
    using t by (simp add: leaf_kvs_def length_preorder)
  ultimately show ?thesis
    using t rbt_walk_all [OF ns, of t "Inr ?s2"]
    by (auto simp: append_numeric_value_tree_def Let_def enc_simps stream_simps rbt_count enc_values_def)
qed

lemma append_attr_enc:
  assumes "heap_inv A" and "plain_leaf A a" and "length n < 2 ^ 64"
  shows "append_attr_name_node A (Inr s) n a = (0, Inr (fwrite (enc_attr (attr_dump_of A (n, a))) s))"
  using append_values_enc [OF assms(1,2), of "fwrite (enc_string n) s"] assms(2)
  by (auto simp: append_attr_name_node_def append_string_with_len_enc [OF assms(3)] plain_leaf_def num_leaf_def heap_defs
      enc_attr_def attr_dump_of_def stream_simps)

lemma append_tree_enc:
  assumes "heap_inv A" and "\<And>n a. (n, a) \<in> set (tree_entries t) \<Longrightarrow> plain_leaf A a \<and> length n < 2 ^ 64"
  shows "append_attr_root_tree A t s = Inr (0, fwrite (enc_attrs (tree_dump A t)) s)"
proof -
  have "art_iter t (append_attr_name_node A) u = (0, fold (\<lambda>(k, v) u. snd (append_attr_name_node A u k v)) (tree_entries t) u)" for u
    by (rule art_iter_all) (simp add: append_attr_name_node_def)
  moreover have "fold (\<lambda>(k, v) u. snd (append_attr_name_node A u k v)) (tree_entries t)
      (Inr (fwrite (enc_uint64 (of_nat (length (tree_entries t)))) s)) =
      Inr (fwrite (concat (map (\<lambda>x. enc_attr (attr_dump_of A x)) (tree_entries t)))
        (fwrite (enc_uint64 (of_nat (length (tree_entries t)))) s))"
    by (rule fold_writers) (use assms(2) append_attr_enc [OF assms(1)] in auto)
  ultimately show ?thesis
    by (simp add: append_attr_root_tree_def Let_def art_iter_size_length enc_simps enc_attrs_def tree_dump_def
        stream_simps comp_def)
qed

section \<open>Reading the values of an attribute\<close>

text \<open>Anchors that agree on the leaves and the path tables agree on everything the heap means.\<close>

definition same_heap :: "index_anchor \<Rightarrow> index_anchor \<Rightarrow> bool" where
  "same_heap A B \<longleftrightarrow> attr_leaves B = attr_leaves A \<and> value_leaves B = value_leaves A \<and>
     parallelism B = parallelism A \<and> file_paths_list B = file_paths_list A \<and> object_paths_list B = object_paths_list A"

lemma same_heap_facts:
  assumes "same_heap A B"
  shows "heap_inv B = heap_inv A" and "found B = found A" and "fpaths B = fpaths A" and "opaths B = opaths A"
    and "valid_pair B = valid_pair A" and "resolve B = resolve A" and "slot_of B = slot_of A" and "slots B = slots A"
proof -
  show f: "fpaths B = fpaths A" "opaths B = opaths A" "slots B = slots A" "slot_of B = slot_of A"
    using assms by (simp_all add: fun_eq_iff same_heap_def fpaths_def opaths_def slots_def slot_of_def)
  have l: "leaf_pairs B = leaf_pairs A" "owns B = owns A"
    using assms by (simp_all add: fun_eq_iff same_heap_def leaf_pairs_def owns_def)
  show g: "valid_pair B = valid_pair A" "resolve B = resolve A"
    by (simp_all add: fun_eq_iff valid_pair_def resolve_def f)
  then have "postings B = postings A" by (simp add: fun_eq_iff postings_def l)
  then show "found B = found A" using assms by (simp add: fun_eq_iff same_heap_def found_def split: option.split)
  show "heap_inv B = heap_inv A"
    using assms unfolding heap_inv_def paths_inv_def vals_inv_def leaves_inv_def f g l by (simp add: same_heap_def)
qed

text \<open>Giving a value leaf its list of pairs.\<close>

lemma fill_leaf:
  assumes inv: "heap_inv A" and v: "v < length (value_leaves A)" and l: "pair_list l ps" "\<forall>p \<in> set ps. valid_pair A p"
  defines "B \<equiv> set_value_leaf v \<lparr>file_obj_pair_list = Some l\<rparr> A"
  shows "heap_inv B" and "same_trees A B" and "fpaths B = fpaths A" and "opaths B = opaths A"
    and "postings B w = (if w = v then map (resolve A) ps else postings A w)"
proof -
  have h: "paths_inv A" "vals_inv A" "leaves_inv A" using inv by (simp_all add: heap_inv_def)
  show tr: "same_trees A B" by (simp add: same_trees_def B_def set_value_leaf_def)
  show paths: "fpaths B = fpaths A" "opaths B = opaths A"
    by (simp_all add: fun_eq_iff fpaths_def opaths_def B_def set_value_leaf_def)
  have sl: "slots B = slots A" by (simp add: slots_def B_def set_value_leaf_def)
  have pairs: "leaf_pairs B u = (if u = v then ps else leaf_pairs A u)" for u
    using l(1) unfolding B_def leaf_pairs_set [OF v] by (simp add: pair_list_def comp_def)
  have vp: "valid_pair B = valid_pair A" "resolve B = resolve A"
    by (simp_all add: fun_eq_iff valid_pair_def resolve_def paths sl)
  then show "postings B w = (if w = v then map (resolve A) ps else postings A w)"
    by (simp add: postings_def pairs)
  have "paths_inv B" using h(1) paths sl by (simp add: paths_inv_def B_def set_value_leaf_def)
  moreover have "vals_inv B"
    unfolding vals_inv_def vp
  proof (intro allI impI)
    fix u assume "u < length (value_leaves B)"
    then have "u < length (value_leaves A)" by (simp add: B_def set_value_leaf_def)
    with h(2) v l show "\<exists>l. file_obj_pair_list (value_leaves B ! u) = Some l \<and> pair_list l (leaf_pairs B u) \<and>
        (\<forall>p \<in> set (leaf_pairs B u). valid_pair A p)"
      unfolding pairs vals_inv_def by (auto simp: B_def set_value_leaf_def nth_list_update)
  qed
  ultimately show "heap_inv B" using same_trees_facts(3) [OF tr h(3)] by (simp add: heap_inv_def)
qed

definition num_data :: "miqs_attr_type \<Rightarrow> byte list \<Rightarrow> record_data" where
  "num_data t k = (if t = MIQS_AT_INTEGER then Int_Data (int_of_bytes k) else Float_Data (u64_of_bytes k))"

lemma read_key_enc:
  assumes "numeric_type t" and "fits t l" and "frest s = enc_key (is_float l) k @ r"
  shows "read_data t s = (num_data t k, sadvance (length (enc_key (is_float l) k)) s)"
proof -
  have "enc_key (is_float l) k = enc_data (num_data t k)" "data_ok t (num_data t k)"
    using assms(1,2) by (auto simp: enc_key_def enc_data_def num_data_def fits_def data_ok_def numeric_type_def)
  with read_data_enc [of t "num_data t k" s r] assms(3) show ?thesis by simp
qed

text \<open>The index has gained the keys \<open>kvs\<close>, with their pairs, at leaf \<open>a\<close>, and nothing else has changed.\<close>

definition gained :: "index_anchor \<Rightarrow> index_anchor \<Rightarrow> nat \<Rightarrow> kv list \<Rightarrow> bool" where
  "gained A A' a kvs \<longleftrightarrow> heap_inv A' \<and> same_shape A A' \<and> fpaths A' = fpaths A \<and> opaths A' = opaths A \<and>
     (\<forall>k \<in> leaf_keys (attr_leaves A ! a). leaf_get (attr_leaves A' ! a) k = None \<longleftrightarrow>
        leaf_get (attr_leaves A ! a) k = None \<and>
          leaf_val (attr_leaves A ! a) k \<notin> set (map (leaf_val (attr_leaves A ! a) \<circ> fst) kvs)) \<and>
     (\<forall>b k. b < length (attr_leaves A) \<longrightarrow> k \<in> leaf_keys (attr_leaves A ! b) \<longrightarrow> found A' b k =
       (case (if b = a then List.find (\<lambda>x. leaf_val (attr_leaves A ! a) (fst x) = leaf_val (attr_leaves A ! a) k) kvs else None) of
          None \<Rightarrow> found A b k | Some x \<Rightarrow> map (resolve A \<circ> disk_pair) (snd x)))"

lemma read_value_step:
  assumes inv: "heap_inv A" and a: "a < length (attr_leaves A)" "leaf_rbt (attr_leaves A ! a) \<noteq> None"
    and t: "numeric_type t" "fits t (attr_leaves A ! a)"
    and k: "k \<in> leaf_keys (attr_leaves A ! a)" "leaf_get (attr_leaves A ! a) k = None"
    and ps: "length ps < 2 ^ 64" "\<forall>p \<in> set ps. valid_pair A (disk_pair p)"
    and s: "frest s = enc_kv (is_float (attr_leaves A ! a)) (k, ps) @ r"
  shows "\<exists>rc A'. read_attr_value_node a t A s =
      Inr (rc, A', sadvance (length (enc_kv (is_float (attr_leaves A ! a)) (k, ps))) s) \<and> gained A A' a [(k, ps)]"
proof -
  let ?l = "attr_leaves A ! a" and ?v = "length (value_leaves A)"
  have lv: "leaves_inv A" using inv by (simp add: heap_inv_def)
  obtain u where u: "leaf_rbt ?l = Some u" using a(2) by blast
  have "leaf_ok ?l" using lv a(1) by (simp add: leaves_inv_def)
  from leaf_add [OF this k(1) u] obtain rc u' where u': "rbt_add u k ?v = Some (rc, u')" "leaf_ok (?l\<lparr>leaf_rbt := Some u'\<rparr>)"
    "\<forall>k' \<in> leaf_keys ?l. leaf_get (?l\<lparr>leaf_rbt := Some u'\<rparr>) k' = (if leaf_val ?l k' = leaf_val ?l k then Some ?v else leaf_get ?l k')"
    by blast
  let ?l' = "?l\<lparr>leaf_rbt := Some u'\<rparr>"
  let ?C = "with_leaf a ?l' A"
  let ?C' = "?C\<lparr>num_kv_pairs_loaded_mdb := num_kv_pairs_loaded_mdb A + 1\<rparr>"
  have kind: "kind ?l' = kind ?l" using u by (simp add: kind_def)
  have "same_heap ?C ?C'" by (simp add: same_heap_def)
  note C' = same_heap_facts [OF this]
  have C: "heap_inv ?C" using inv with_leaf_inv [of A a ?l'] with_leaf_leaves [OF lv a(1) kind u'(2,3)] by (simp add: heap_inv_def)
  let ?s1 = "sadvance (length (enc_key (is_float ?l) k)) s"
  have rest: "frest s = enc_key (is_float ?l) k @ enc_pairs ps @ r" using s by (simp add: enc_kv_def)
  note rd = read_key_enc [OF t rest]
  have rest2: "frest ?s1 = enc_pairs ps @ r" using rest by (simp add: stream_simps)
  let ?H = "A\<lparr>value_leaves := value_leaves A @ [zero_value_leaf], attr_leaves := (attr_leaves A)[a := ?l'],
      num_kv_pairs_loaded_mdb := num_kv_pairs_loaded_mdb A + 1\<rparr>"
  obtain pl where
    pl: "read_file_obj_path_pair_list (Some ?v) ?H ?s1 = Inr (0, set_value_leaf ?v \<lparr>file_obj_pair_list = Some pl\<rparr> ?H,
        sadvance (length (enc_pairs ps)) ?s1)" "pair_list pl (map disk_pair ps)"
    using read_pair_list_enc [OF ps(1) rest2, of ?v ?H] by blast
  let ?D = "set_value_leaf ?v \<lparr>file_obj_pair_list = Some pl\<rparr> ?C'"
  have key: "(if t = MIQS_AT_INTEGER then bytes4 (int_of_bytes k) else bytes8 (u64_of_bytes k)) = k"
    using k(1) t fits_simps(1) [OF t(2)] bytes4_int_of_bytes [of k] bytes8_u64_of_bytes [of k] type_keys_length [OF t(1), of k]
    by (auto simp: type_size_def)
  have "read_attr_value_node a t A s = Inr (rc OR 0, ?D, sadvance (length (enc_pairs ps)) ?s1)"
    using a(1) u u'(1) rd pl(1) key
    by (auto simp: read_attr_value_node_def num_data_def heap_defs leaf_rbt_add_def with_leaf_def list_update_append
        split: if_splits)
  moreover have "gained A ?D a [(k, ps)]"
  proof -
    have v: "?v < length (value_leaves ?C')" by simp
    have vp: "\<forall>p \<in> set (map disk_pair ps). valid_pair ?C' p" using ps(2) unfolding C' by simp
    have C2: "heap_inv ?C'" using C unfolding C' .
    note D = fill_leaf [OF C2 v pl(2) vp]
    have lvs: "attr_leaves ?D = (attr_leaves A)[a := ?l']" by (simp add: set_value_leaf_def)
    have fnd: "found ?D b k' = (if b = a \<and> leaf_val ?l k' = leaf_val ?l k then map (resolve A \<circ> disk_pair) ps else found A b k')"
      if b: "b < length (attr_leaves A)" "k' \<in> leaf_keys (attr_leaves A ! b)" for b k'
    proof (cases "b = a \<and> leaf_val ?l k' = leaf_val ?l k")
      case True
      then have "leaf_get (attr_leaves ?D ! b) k' = Some ?v" using u'(3) b a(1) by (simp add: lvs)
      with True D(5) [of ?v] show ?thesis by (simp add: found_def C'(6))
    next
      case False
      have "found ?D b k' = found ?C b k'"
      proof -
        have "leaf_get (attr_leaves ?D ! b) k' = leaf_get (attr_leaves ?C ! b) k'" by (simp add: lvs)
        moreover have "w \<noteq> ?v" if w: "leaf_get (attr_leaves ?C ! b) k' = Some w" for w
        proof -
          have "leaf_get (attr_leaves A ! b) k' = Some w"
            using w False u'(3) b a(1) by (auto simp: nth_list_update split: if_splits)
          then have "owns A b k' w" using b by (simp add: owns_def)
          then show ?thesis using lv unfolding leaves_inv_def by blast
        qed
        ultimately show ?thesis using D(5) C'(2) by (auto simp: found_def fun_eq_iff split: option.splits)
      qed
      with False with_leaf_found [OF lv a(1) k u'(3) b] show ?thesis by auto
    qed
    have "same_shape A ?D"
      using same_shape_trans [OF with_leaf_shape [OF a(1) kind]] same_trees_facts(1) [OF D(2)]
      by (simp add: same_shape_def)
    then show ?thesis
      unfolding gained_def using D(1,3,4) C' fnd u'(3) a(1) by (auto simp: lvs)
  qed
  ultimately show ?thesis by (auto simp: enc_kv_def stream_simps)
qed

lemma gained_leaf:
  assumes "gained A A' a kvs" and "b < length (attr_leaves A)"
  shows "leaf_keys (attr_leaves A' ! b) = leaf_keys (attr_leaves A ! b)" "leaf_val (attr_leaves A' ! b) = leaf_val (attr_leaves A ! b)"
    and "is_float (attr_leaves A' ! b) = is_float (attr_leaves A ! b)"
    and "leaf_rbt (attr_leaves A' ! b) = None \<longleftrightarrow> leaf_rbt (attr_leaves A ! b) = None"
    and "length (attr_leaves A') = length (attr_leaves A)" and "valid_pair A' = valid_pair A" and "resolve A' = resolve A"
proof -
  have g: "same_shape A A'" "fpaths A' = fpaths A" "opaths A' = opaths A" using assms(1) by (simp_all add: gained_def)
  show "leaf_keys (attr_leaves A' ! b) = leaf_keys (attr_leaves A ! b)" "leaf_val (attr_leaves A' ! b) = leaf_val (attr_leaves A ! b)"
    using same_shape_keys [OF g(1) assms(2)] by simp_all
  show "is_float (attr_leaves A' ! b) = is_float (attr_leaves A ! b)"
    "leaf_rbt (attr_leaves A' ! b) = None \<longleftrightarrow> leaf_rbt (attr_leaves A ! b) = None"
    "length (attr_leaves A') = length (attr_leaves A)"
    using same_shape_leaf [OF g(1)] assms(2) by simp_all
  show "valid_pair A' = valid_pair A" "resolve A' = resolve A"
    using g same_shape_leaf(2) [OF g(1)] by (simp_all add: fun_eq_iff valid_pair_def resolve_def)
qed

lemma find_absent: "v \<notin> set (map (f \<circ> fst) xs) \<Longrightarrow> List.find (\<lambda>x. f (fst x) = v) xs = None"
  by (induction xs) auto

lemma gained_nil: "heap_inv A \<Longrightarrow> gained A A a []"
  by (simp add: gained_def)

lemma gained_cons:
  assumes 1: "gained A B a [x]" and 2: "gained B C a xs" and a: "a < length (attr_leaves A)"
    and d: "leaf_val (attr_leaves A ! a) (fst x) \<notin> set (map (leaf_val (attr_leaves A ! a) \<circ> fst) xs)"
  shows "gained A C a (x # xs)"
proof -
  note B = gained_leaf [OF 1]
  have shape: "same_shape A C" using 1 2 same_shape_trans by (auto simp: gained_def)
  have "found C b k = (case (if b = a then List.find (\<lambda>x. leaf_val (attr_leaves A ! a) (fst x) = leaf_val (attr_leaves A ! a) k) (x # xs)
      else None) of None \<Rightarrow> found A b k | Some x \<Rightarrow> map (resolve A \<circ> disk_pair) (snd x))"
    if b: "b < length (attr_leaves A)" "k \<in> leaf_keys (attr_leaves A ! b)" for b k
  proof -
    have c: "found C b k = (case (if b = a then List.find (\<lambda>x. leaf_val (attr_leaves A ! a) (fst x) = leaf_val (attr_leaves A ! a) k) xs
        else None) of None \<Rightarrow> found B b k | Some x \<Rightarrow> map (resolve A \<circ> disk_pair) (snd x))"
      using 2 b B(1,5) [OF b(1)] unfolding gained_def B(2) [OF a] B(7) [OF a] by simp
    have f: "found B b k = (if b = a \<and> leaf_val (attr_leaves A ! a) (fst x) = leaf_val (attr_leaves A ! a) k
        then map (resolve A \<circ> disk_pair) (snd x) else found A b k)"
      using 1 b by (auto simp: gained_def)
    have "List.find (\<lambda>x. leaf_val (attr_leaves A ! a) (fst x) = leaf_val (attr_leaves A ! a) k) xs = None"
      if "leaf_val (attr_leaves A ! a) (fst x) = leaf_val (attr_leaves A ! a) k"
      using d unfolding that by (rule find_absent)
    with c f show ?thesis by (auto split: option.split)
  qed
  moreover have "\<forall>k \<in> leaf_keys (attr_leaves A ! a). leaf_get (attr_leaves C ! a) k = None \<longleftrightarrow>
      leaf_get (attr_leaves A ! a) k = None \<and>
        leaf_val (attr_leaves A ! a) k \<notin> set (map (leaf_val (attr_leaves A ! a) \<circ> fst) (x # xs))"
    using 1 2 B(1,2) [OF a] unfolding gained_def by auto
  ultimately show ?thesis using 1 2 shape unfolding gained_def by simp
qed

text \<open>Values and pairs the reader can take into leaf \<open>a\<close>.\<close>

definition kvs_ok :: "index_anchor \<Rightarrow> attr_leaf \<Rightarrow> kv list \<Rightarrow> bool" where
  "kvs_ok A l kvs \<longleftrightarrow> distinct (map (leaf_val l \<circ> fst) kvs) \<and> fst ` set kvs \<subseteq> leaf_keys l \<and>
     (\<forall>x \<in> set kvs. length (snd x) < 2 ^ 64 \<and> (\<forall>p \<in> set (snd x). valid_pair A (disk_pair p)))"

lemma read_values_enc:
  assumes "heap_inv A" and "a < length (attr_leaves A)" "leaf_rbt (attr_leaves A ! a) \<noteq> None"
    and "numeric_type t" "fits t (attr_leaves A ! a)"
    and "kvs_ok A (attr_leaves A ! a) kvs" and "\<forall>x \<in> set kvs. leaf_get (attr_leaves A ! a) (fst x) = None"
    and "frest s = concat (map (enc_kv (is_float (attr_leaves A ! a))) kvs) @ r"
  shows "\<exists>rc A'. read_values_loop (length kvs) rst a t A s =
      Inr (rc, A', sadvance (length (concat (map (enc_kv (is_float (attr_leaves A ! a))) kvs))) s) \<and> gained A A' a kvs"
  using assms
proof (induction kvs arbitrary: A s rst)
  case Nil
  then show ?case using gained_nil by (auto simp: sadvance_def)
next
  case (Cons x kvs)
  let ?l = "attr_leaves A ! a"
  let ?e = "enc_kv (is_float ?l)"
  obtain k ps where x: "x = (k, ps)" by fastforce
  have hd: "k \<in> leaf_keys ?l" "leaf_get ?l k = None" "length ps < 2 ^ 64" "\<forall>p \<in> set ps. valid_pair A (disk_pair p)"
    using Cons.prems(6,7) by (auto simp: kvs_ok_def x)
  have rest: "frest s = ?e (k, ps) @ concat (map ?e kvs) @ r" using Cons.prems(8) by (simp add: x)
  obtain rc B where B: "read_attr_value_node a t A s = Inr (rc, B, sadvance (length (?e (k, ps))) s)" "gained A B a [x]"
    using read_value_step [OF Cons.prems(1-5) hd rest] by (auto simp: x)
  note g = gained_leaf [OF B(2) Cons.prems(2)]
  have "heap_inv B" using B(2) by (simp add: gained_def)
  moreover have "a < length (attr_leaves B)" "leaf_rbt (attr_leaves B ! a) \<noteq> None" using Cons.prems(2,3) g by simp_all
  moreover have "fits t (attr_leaves B ! a)" using Cons.prems(5) g(3) by (simp add: fits_def)
  moreover have "kvs_ok B (attr_leaves B ! a) kvs" using Cons.prems(6) by (simp add: kvs_ok_def g)
  moreover have "\<forall>y \<in> set kvs. leaf_get (attr_leaves B ! a) (fst y) = None"
  proof
    fix y assume y: "y \<in> set kvs"
    have "leaf_val ?l k \<notin> (leaf_val ?l \<circ> fst) ` set kvs" using Cons.prems(6) by (simp add: kvs_ok_def x)
    with y have "leaf_val ?l (fst y) \<noteq> leaf_val ?l k" by (metis comp_apply image_eqI)
    moreover have "leaf_get ?l (fst y) = None" "fst y \<in> leaf_keys ?l" using y Cons.prems(6,7) by (auto simp: kvs_ok_def)
    ultimately show "leaf_get (attr_leaves B ! a) (fst y) = None" using B(2) by (simp add: gained_def x)
  qed
  moreover have "frest (sadvance (length (?e (k, ps))) s) = concat (map (enc_kv (is_float (attr_leaves B ! a))) kvs) @ r"
    using rest by (simp add: stream_simps g)
  ultimately obtain rc' C where C: "read_values_loop (length kvs) (rst OR rc) a t B (sadvance (length (?e (k, ps))) s) =
      Inr (rc', C, sadvance (length (concat (map ?e kvs))) (sadvance (length (?e (k, ps))) s))" "gained B C a kvs"
    using Cons.IH [of B "sadvance (length (?e (k, ps))) s" "rst OR rc"] Cons.prems(4) g(3) by auto
  have "gained A C a (x # kvs)"
    using gained_cons [OF B(2) C(2) Cons.prems(2)] Cons.prems(6) by (simp add: kvs_ok_def x)
  with B(1) C(1) show ?case by (auto simp: x stream_simps)
qed

section \<open>Reading the attributes\<close>

text \<open>The leaf a new attribute starts with.\<close>

definition fresh_leaf :: "c_int \<Rightarrow> attr_leaf" where
  "fresh_leaf fl = zero_attr_leaf\<lparr>is_numeric := 1, is_float := fl,
     leaf_rbt := Some (rbt_create (if fl = 0 then libhl_cmp_keys_int else libhl_cmp_keys_double))\<rparr>"

lemma fresh_leaf_empty:
  "fl \<in> {0, 1} \<Longrightarrow> empty_leaf (fresh_leaf fl)" "is_float (fresh_leaf fl) = fl" "leaf_rbt (fresh_leaf fl) \<noteq> None"
  "fl \<in> {0, 1} \<Longrightarrow> num_leaf (fresh_leaf fl)"
proof -
  assume fl: "fl \<in> {0, 1}"
  have "leaf_ok (fresh_leaf fl)"
    by (simp add: leaf_ok_def fresh_leaf_def int_order.rbt_ok_create double_order.rbt_ok_create)
  then show "empty_leaf (fresh_leaf fl)"
    using fl by (simp add: empty_leaf_def num_leaf_def fresh_leaf_def leaf_get_def rbt_find_def rbt_create_def)
qed (simp_all add: fresh_leaf_def num_leaf_def)

lemma leaf_of_flag: "leaf_keys l = leaf_keys (fresh_leaf (is_float l))" "leaf_val l = leaf_val (fresh_leaf (is_float l))"
  by (simp_all add: leaf_keys_def leaf_val_def fresh_leaf_empty(2))

definition attr_float :: "index_anchor \<Rightarrow> cstring \<Rightarrow> c_int option" where
  "attr_float A n = map_option (\<lambda>a. is_float (attr_leaves A ! a)) (attr_of A n)"

lemma key_of_float: "key_of A n k \<longleftrightarrow> (\<forall>fl. attr_float A n = Some fl \<longrightarrow> k \<in> leaf_keys (fresh_leaf fl))"
  by (auto simp: key_of_def attr_float_def leaf_of_flag(1) [of "attr_leaves A ! _"])

definition kvs_lookup :: "index_anchor \<Rightarrow> c_int \<Rightarrow> kv list \<Rightarrow> byte list \<Rightarrow> (cstring \<times> cstring) list" where
  "kvs_lookup A fl kvs k =
     (case List.find (\<lambda>x. leaf_val (fresh_leaf fl) (fst x) = leaf_val (fresh_leaf fl) k) kvs of
        None \<Rightarrow> [] | Some x \<Rightarrow> map (resolve A \<circ> disk_pair) (snd x))"

text \<open>The name trees travel beside the anchor while the loader runs.\<close>

abbreviation with_arts :: "index_anchor \<Rightarrow> nat art_tree list \<Rightarrow> index_anchor" where
  "with_arts A arts \<equiv> A\<lparr>root_art_array := arts\<rparr>"

lemma read_attr_values_enc:
  assumes inv: "heap_inv (A\<lparr>attr_leaves := attr_leaves A @ [fresh_leaf fl]\<rparr>)" and fl: "fl \<in> {0, 1}"
    and kvs: "kvs_ok A (fresh_leaf fl) kvs" "length kvs < 2 ^ 64" and s: "frest s = enc_values fl kvs @ r"
  shows "\<exists>rc A'. read_attr_values (length (attr_leaves A)) (A\<lparr>attr_leaves := attr_leaves A @ [zero_attr_leaf]\<rparr>) s =
      Inr (rc, A', sadvance (length (enc_values fl kvs)) s) \<and>
    gained (A\<lparr>attr_leaves := attr_leaves A @ [fresh_leaf fl]\<rparr>) A' (length (attr_leaves A)) kvs"
proof -
  let ?a = "length (attr_leaves A)" and ?H = "A\<lparr>attr_leaves := attr_leaves A @ [fresh_leaf fl]\<rparr>"
  let ?ty = "if fl = 0 then 1 else 2 :: c_int" and ?n = "of_nat (length kvs) :: uint64"
  let ?t = "if fl = 0 then MIQS_AT_INTEGER else MIQS_AT_FLOAT"
  have rest: "frest s = enc_int ?ty @ enc_uint64 ?n @ concat (map (enc_kv fl) kvs) @ r"
    using s by (simp add: enc_values_def)
  note r1 = int_codec.rd_enc [OF TrueI rest]
  have rest2: "frest (sadvance (length (enc_int ?ty)) s) = enc_uint64 ?n @ concat (map (enc_kv fl) kvs) @ r"
    using rest by (simp add: stream_simps)
  note r2 = uint64_codec.rd_enc [OF TrueI rest2]
  have u: "unat ?n = length kvs" using kvs(2) by (rule unat_of_nat_length)
  let ?s2 = "sadvance (length (enc_uint64 ?n)) (sadvance (length (enc_int ?ty)) s)"
  have ty: "get_miqs_type_from_int ?ty = ?t" by (simp add: get_miqs_type_from_int_def)
  have run: "read_attr_values ?a (A\<lparr>attr_leaves := attr_leaves A @ [zero_attr_leaf]\<rparr>) s =
      read_values_loop (length kvs) 0 ?a ?t ?H ?s2"
    using r1 r2 fl unfolding read_attr_values_def
    by (auto simp: Let_def heap_defs u ty list_update_append fresh_leaf_def zero_attr_leaf_def)
  have last: "attr_leaves ?H ! ?a = fresh_leaf fl" by simp
  have "valid_pair ?H = valid_pair A" by (simp add: fun_eq_iff valid_pair_def slots_def fpaths_def opaths_def)
  then have ok: "kvs_ok ?H (attr_leaves ?H ! ?a) kvs" using kvs(1) unfolding last by (simp add: kvs_ok_def)
  have none: "\<forall>x \<in> set kvs. leaf_get (attr_leaves ?H ! ?a) (fst x) = None"
    using fresh_leaf_empty(1) [OF fl] unfolding last by (simp add: empty_leaf_def)
  have rest3: "frest ?s2 = concat (map (enc_kv (is_float (attr_leaves ?H ! ?a))) kvs) @ r"
    using rest unfolding last fresh_leaf_empty(2) by (simp add: stream_simps)
  have t: "numeric_type ?t" "fits ?t (attr_leaves ?H ! ?a)"
    unfolding last by (simp_all add: numeric_type_def fits_def fresh_leaf_empty(2))
  have a: "?a < length (attr_leaves ?H)" "leaf_rbt (attr_leaves ?H ! ?a) \<noteq> None"
    using fresh_leaf_empty(3) [of fl] by simp_all
  obtain rc A' where "read_values_loop (length kvs) 0 ?a ?t ?H ?s2 =
      Inr (rc, A', sadvance (length (concat (map (enc_kv fl) kvs))) ?s2)" "gained ?H A' ?a kvs"
    using read_values_enc [OF inv a t ok none rest3, of 0] unfolding last fresh_leaf_empty(2) by blast
  with run show ?thesis by (auto simp: enc_values_def stream_simps ac_simps)
qed

text \<open>One attribute: what the index knows after it.\<close>

definition loaded :: "index_anchor \<Rightarrow> index_anchor \<Rightarrow> attr_dump list \<Rightarrow> bool" where
  "loaded B B' xs \<longleftrightarrow> index_inv B' \<and> parallelism B' = parallelism B \<and> fpaths B' = fpaths B \<and> opaths B' = opaths B \<and>
     (\<forall>n. attr_float B' n = (case map_of xs n of Some (fl, _) \<Rightarrow> Some fl | None \<Rightarrow> attr_float B n)) \<and>
     (\<forall>n k. key_of B' n k \<longrightarrow> index_lookup B' n k =
       (case map_of xs n of Some (fl, kvs) \<Rightarrow> kvs_lookup B fl kvs k | None \<Rightarrow> index_lookup B n k))"

definition attr_ok :: "index_anchor \<Rightarrow> attr_dump \<Rightarrow> bool" where
  "attr_ok A x \<longleftrightarrow> (case x of (n, fl, kvs) \<Rightarrow>
     str_ok n \<and> fl \<in> {0, 1} \<and> length kvs < 2 ^ 64 \<and> kvs_ok A (fresh_leaf fl) kvs)"

lemma gained_loaded:
  assumes flag: "fl \<in> {0, 1}" and B: "names_inv (with_arts A arts)"
    and W: "heap_inv (with_attr (fresh_leaf fl) i t (with_arts A arts))" "names_inv (with_attr (fresh_leaf fl) i t (with_arts A arts))"
    and at: "\<And>m. attr_of (with_attr (fresh_leaf fl) i t (with_arts A arts)) m =
      (if m = n then Some (length (attr_leaves A)) else attr_of (with_arts A arts) m)"
    and g: "gained (A\<lparr>attr_leaves := attr_leaves A @ [fresh_leaf fl]\<rparr>) A' (length (attr_leaves A)) kvs"
  shows "loaded (with_arts A arts) (with_arts A' (arts[i := t])) [(n, fl, kvs)]"
proof -
  let ?B = "with_arts A arts" and ?a = "length (attr_leaves A)" and ?H = "A\<lparr>attr_leaves := attr_leaves A @ [fresh_leaf fl]\<rparr>"
  let ?W = "with_attr (fresh_leaf fl) i t ?B" and ?B' = "with_arts A' (arts[i := t])"
  have "same_heap ?W ?H" "same_heap A' ?B'" by (simp_all add: same_heap_def)
  note H = same_heap_facts [OF this(1)] and B' = same_heap_facts [OF this(2)]
  have shape: "same_shape ?W ?B'" using g by (simp add: gained_def same_shape_def)
  note names = same_shape_names [OF W(2) shape] and leaf = same_shape_leaf(3) [OF shape]
  have paths: "fpaths ?B' = fpaths ?B" "opaths ?B' = opaths ?B"
    using g B' H by (simp_all add: gained_def)
  have par: "parallelism ?B' = parallelism ?B" using g by (simp add: gained_def same_shape_def)
  have inv: "index_inv ?B'" using g names(1) B'(1) by (simp add: gained_def index_inv_def)
  have bnd: "b < ?a" if "attr_of ?B m = Some b" for m b using B that unfolding names_inv_def by auto
  have fl: "attr_float ?B' m = (case map_of [(n, fl, kvs)] m of Some (fl, _) \<Rightarrow> Some fl | None \<Rightarrow> attr_float ?B m)" for m
  proof (cases "m = n")
    case True
    then show ?thesis using leaf [of ?a] by (simp add: attr_float_def names(2) at nth_append fresh_leaf_empty(2))
  next
    case False
    have "is_float (attr_leaves ?B' ! b) = is_float (attr_leaves ?B ! b)" if "attr_of ?B m = Some b" for b
      using leaf [of b] bnd [OF that] by (simp add: nth_append)
    with False show ?thesis by (cases "attr_of ?B m") (simp_all add: attr_float_def names(2) at)
  qed
  have "index_lookup ?B' m k = (case map_of [(n, fl, kvs)] m of Some (fl, kvs) \<Rightarrow> kvs_lookup ?B fl kvs k | None \<Rightarrow> index_lookup ?B m k)"
    if key: "key_of ?B' m k" for m k
  proof (cases "m = n")
    case True
    then have "k \<in> leaf_keys (fresh_leaf fl)" using key fl [of n] by (simp add: key_of_float)
    then have "found A' ?a k = (case List.find (\<lambda>x. leaf_val (fresh_leaf fl) (fst x) = leaf_val (fresh_leaf fl) k) kvs of
        None \<Rightarrow> found ?H ?a k | Some x \<Rightarrow> map (resolve ?H \<circ> disk_pair) (snd x))"
      using g unfolding gained_def by simp
    moreover have "found ?H ?a k = []" using H(2) with_attr_found(2) [OF fresh_leaf_empty(1) [OF flag], where i = i and t = t and A = ?B] by simp
    moreover have "resolve ?H = resolve ?B" using H(6) by simp
    ultimately show ?thesis using True by (simp add: index_lookup_def names(2) at B'(2) kvs_lookup_def split: option.split)
  next
    case False
    have "found ?B' b k = found ?B b k" if b: "attr_of ?B m = Some b" for b
    proof -
      note lt = bnd [OF b]
      have "k \<in> leaf_keys (attr_leaves ?H ! b)"
        using key b False leaf [of b] lt by (simp add: key_of_def names(2) at nth_append leaf_keys_def)
      then have "found A' b k = found ?H b k" using g lt by (auto simp: gained_def)
      also have "\<dots> = found ?B b k" using H(2) with_attr_found(1) [where b = b and A = ?B] lt by simp
      finally show ?thesis by (simp add: B'(2))
    qed
    with False show ?thesis by (simp add: index_lookup_def names(2) at split: option.split)
  qed
  with inv paths par fl show ?thesis by (simp add: loaded_def)
qed

lemma read_name_enc:
  assumes inv: "index_inv (with_arts A arts)" and x: "attr_ok A (n, fl, kvs)" "attr_of (with_arts A arts) n = None"
    and s: "frest s = enc_attr (n, fl, kvs) @ r"
  shows "\<exists>rc arts' A'. read_attr_name_node arts (parallelism A) A s =
      Inr (rc, arts', A', sadvance (length (enc_attr (n, fl, kvs))) s) \<and>
    loaded (with_arts A arts) (with_arts A' arts') [(n, fl, kvs)] \<and> root_art_array A' = root_art_array A"
proof -
  let ?B = "with_arts A arts" and ?a = "length (attr_leaves A)" and ?i = "slot_of (with_arts A arts) n"
  have h: "heap_inv ?B" "names_inv ?B" using inv by (simp_all add: index_inv_def)
  have n: "ptr_ok (Some n)" "no_nul n" using x(1) by (simp_all add: attr_ok_def ptr_ok_def str_ok_def)
  have i: "hash_slot n (parallelism A) = Inr ?i" "?i < length arts"
    using hash_slot_of [OF h(1), of n] h(2) by (simp_all add: names_inv_def)
  have "tree_inv (arts ! ?i)" using h(2) hash_slot_of(2) [OF h(1), of n] by (simp add: names_inv_def)
  from art.add_law [OF this n(2), of ?a] obtain t' where t': "art_insert (arts ! ?i) n ?a = Inr (t', tree_map (arts ! ?i) n)"
    "tree_inv t'" "tree_map t' = (tree_map (root_art_array ?B ! ?i))(n \<mapsto> length (attr_leaves ?B))" by auto
  let ?W = "with_attr (fresh_leaf fl) ?i t' ?B" and ?H = "A\<lparr>attr_leaves := attr_leaves A @ [fresh_leaf fl]\<rparr>"
  have flag: "fl \<in> {0, 1}" using x(1) by (simp add: attr_ok_def)
  have W: "heap_inv ?W" "names_inv ?W"
    using with_attr_heap [OF h(1) fresh_leaf_empty(1) [OF flag]] with_attr_names [OF h t'(2,3) fresh_leaf_empty(4) [OF flag]] by simp_all
  have at: "attr_of ?W m = (if m = n then Some ?a else attr_of ?B m)" for m
    using with_attr_of [of ?B n t' "fresh_leaf fl" m] i(2) t'(3) by simp
  have "same_heap ?W ?H" by (simp add: same_heap_def)
  note H = same_heap_facts [OF this]
  have heapH: "heap_inv ?H" using W(1) H(1) by simp
  have rest: "frest s = enc_string (the (Some n)) @ enc_values fl kvs @ r" using s by (simp add: enc_attr_def)
  note r1 = read_str_enc [OF n(1) rest]
  let ?s1 = "sadvance (length (enc_string n)) s"
  have rest2: "frest ?s1 = enc_values fl kvs @ r" using rest by (simp add: stream_simps)
  have fl: "fl \<in> {0, 1}" "kvs_ok A (fresh_leaf fl) kvs" "length kvs < 2 ^ 64" using x(1) by (simp_all add: attr_ok_def)
  obtain rc A' where A': "read_attr_values ?a (A\<lparr>attr_leaves := attr_leaves A @ [zero_attr_leaf]\<rparr>) ?s1 =
      Inr (rc, A', sadvance (length (enc_values fl kvs)) ?s1)" "gained ?H A' ?a kvs"
    using read_attr_values_enc [OF heapH fl(1-3) rest2] by blast
  let ?arts = "arts[?i := t']"
  have run: "read_attr_name_node arts (parallelism A) A s = Inr (rc, ?arts, A', sadvance (length (enc_attr (n, fl, kvs))) s)"
    using r1 i t'(1) A'(1) by (simp add: read_attr_name_node_def new_attr_leaf_def nth_chk_def enc_attr_def stream_simps)
  have "loaded ?B (with_arts A' ?arts) [(n, fl, kvs)]"
    using gained_loaded [OF flag h(2) W at A'(2)] by simp
  moreover have "root_art_array A' = root_art_array A" using A'(2) by (simp add: gained_def same_shape_def)
  ultimately show ?thesis using run by blast
qed

lemma loaded_resolve:
  assumes "loaded A B xs"
  shows "resolve B = resolve A" and "valid_pair B = valid_pair A" and "kvs_lookup B = kvs_lookup A" and "attr_ok B = attr_ok A"
proof -
  show r: "resolve B = resolve A" "valid_pair B = valid_pair A"
    using assms by (simp_all add: loaded_def fun_eq_iff resolve_def valid_pair_def slots_def)
  show "kvs_lookup B = kvs_lookup A" by (intro ext) (simp only: kvs_lookup_def r)
  show "attr_ok B = attr_ok A" by (simp add: fun_eq_iff attr_ok_def kvs_ok_def r)
qed

lemma loaded_same:
  assumes "loaded B C xs" and "same_index A B"
  shows "loaded A C xs"
proof -
  have "same_heap A B" using assms(2) by (simp add: same_heap_def same_index_def)
  note h = same_heap_facts [OF this] and i = same_index_facts [OF assms(2)]
  have k: "kvs_lookup B = kvs_lookup A" by (intro ext) (simp only: kvs_lookup_def h)
  have f: "attr_float B = attr_float A" using assms(2) by (simp add: fun_eq_iff attr_float_def i same_index_def)
  have "parallelism B = parallelism A" using assms(2) by (simp add: same_index_def)
  with assms(1) show ?thesis unfolding loaded_def i h k f by simp
qed

lemma loaded_nil: "index_inv A \<Longrightarrow> loaded A A []"
  by (simp add: loaded_def)

lemma loaded_cons:
  assumes 1: "loaded A B [(n, fl, kvs)]" and 2: "loaded B C xs" and n: "n \<notin> fst ` set xs"
  shows "loaded A C ((n, fl, kvs) # xs)"
proof -
  have none: "map_of xs n = None" using n by (simp add: map_of_eq_None_iff)
  have float: "attr_float C m = (case map_of xs m of Some (fl, _) \<Rightarrow> Some fl | None \<Rightarrow> attr_float B m)" for m
    using 2 by (simp add: loaded_def)
  have "index_lookup C m k = (case map_of ((n, fl, kvs) # xs) m of Some (fl, kvs) \<Rightarrow> kvs_lookup A fl kvs k | None \<Rightarrow> index_lookup A m k)"
    if key: "key_of C m k" for m k
  proof (cases "map_of xs m")
    case None
    then have "key_of B m k" using key by (simp add: key_of_float float)
    with 1 have "index_lookup B m k = (if m = n then kvs_lookup A fl kvs k else index_lookup A m k)" by (simp add: loaded_def)
    with 2 key None show ?thesis by (simp add: loaded_def)
  next
    case (Some y)
    with none 2 key show ?thesis by (cases y) (auto simp: loaded_def loaded_resolve(3) [OF 1])
  qed
  moreover have "attr_float C m = (case map_of ((n, fl, kvs) # xs) m of Some (fl, _) \<Rightarrow> Some fl | None \<Rightarrow> attr_float A m)" for m
    using 1 none by (auto simp: loaded_def float split: option.split)
  ultimately show ?thesis using 1 2 by (simp add: loaded_def)
qed

lemma read_names_enc:
  assumes "index_inv (with_arts A arts)" and "\<forall>x \<in> set xs. attr_ok A x \<and> attr_of (with_arts A arts) (fst x) = None"
    and "distinct (map fst xs)" and "frest s = concat (map enc_attr xs) @ r" and "p = parallelism A"
  shows "\<exists>rc arts' A'. read_names_loop (length xs) rst arts p A s =
      Inr (rc, arts', A', sadvance (length (concat (map enc_attr xs))) s) \<and>
    loaded (with_arts A arts) (with_arts A' arts') xs"
  using assms
proof (induction xs arbitrary: A arts s rst)
  case Nil
  then show ?case using loaded_nil by (auto simp: sadvance_def)
next
  case (Cons x xs)
  obtain n fl kvs where x: "x = (n, fl, kvs)" by (metis prod_cases3)
  have rest: "frest s = enc_attr (n, fl, kvs) @ concat (map enc_attr xs) @ r" using Cons.prems(4) by (simp add: x)
  have ok: "attr_ok A (n, fl, kvs)" "attr_of (with_arts A arts) n = None" using Cons.prems(2) by (simp_all add: x)
  obtain rc arts1 A1 where 1: "read_attr_name_node arts p A s = Inr (rc, arts1, A1, sadvance (length (enc_attr x)) s)"
    "loaded (with_arts A arts) (with_arts A1 arts1) [(n, fl, kvs)]"
    using read_name_enc [OF Cons.prems(1) ok rest] Cons.prems(5) by (auto simp: x)
  have "same_heap (with_arts A arts) A" "same_heap (with_arts A1 arts1) A1" by (simp_all add: same_heap_def)
  then have vp: "valid_pair A1 = valid_pair A"
    using loaded_resolve(2) [OF 1(2)] same_heap_facts(5) by metis
  have none: "attr_of (with_arts A1 arts1) (fst y) = None" if "y \<in> set xs" for y
  proof -
    have "fst y \<noteq> n" "attr_of (with_arts A arts) (fst y) = None" using that Cons.prems(2,3) by (auto simp: x)
    then have "attr_float (with_arts A1 arts1) (fst y) = None" using 1(2) by (simp add: loaded_def attr_float_def)
    then show ?thesis by (simp add: attr_float_def)
  qed
  have "attr_ok A1 = attr_ok A" by (simp add: fun_eq_iff attr_ok_def kvs_ok_def vp)
  moreover have "index_inv (with_arts A1 arts1)" "p = parallelism A1" using 1(2) Cons.prems(5) by (simp_all add: loaded_def)
  moreover have "frest (sadvance (length (enc_attr x)) s) = concat (map enc_attr xs) @ r"
    using Cons.prems(4) by (simp add: stream_simps)
  ultimately obtain rc' arts' A' where 2: "read_names_loop (length xs) (rst OR rc) arts1 p A1 (sadvance (length (enc_attr x)) s) =
      Inr (rc', arts', A', sadvance (length (concat (map enc_attr xs))) (sadvance (length (enc_attr x)) s))"
    "loaded (with_arts A1 arts1) (with_arts A' arts') xs"
    using Cons.IH [where A = A1 and arts = arts1 and s = "sadvance (length (enc_attr x)) s" and rst = "rst OR rc"] Cons.prems(2,3) none by auto
  have "n \<notin> fst ` set xs" using Cons.prems(3) by (simp add: x)
  with loaded_cons [OF 1(2) 2(2)] 1(1) 2(1) show ?case by (auto simp: x stream_simps)
qed

lemma read_tree_enc:
  assumes inv: "index_inv A" and xs: "\<forall>x \<in> set xs. attr_ok A x \<and> attr_of A (fst x) = None" "distinct (map fst xs)" "length xs < 2 ^ 64"
    and s: "frest s = enc_attrs xs @ r"
  shows "\<exists>ok arts' A'. read_into_attr_root_tree ptr (root_art_array A) (parallelism A) A s =
      Inr (ok, arts', A', sadvance (length (enc_attrs xs)) s) \<and> loaded A (with_arts A' arts') xs"
proof -
  let ?n = "of_nat (length xs) :: uint64" and ?A = "A\<lparr>num_kv_pairs_loaded_mdb := 0, num_attrs_loaded_mdb := ptr\<rparr>"
  let ?B = "with_arts ?A (root_art_array A)"
  have "same_index A ?B" "same_index A ?A" by (simp_all add: same_index_def)
  note B = same_index_facts [OF this(1)] same_index_facts [OF this(2)]
  have same: "same_heap A ?A" "same_heap A ?B" by (simp_all add: same_heap_def)
  note h = same_heap_facts [OF same(1)] same_heap_facts [OF same(2)]
  have rest: "frest s = enc_uint64 ?n @ concat (map enc_attr xs) @ r" using s by (simp add: enc_attrs_def)
  note r1 = uint64_codec.rd_enc [OF TrueI rest]
  have rest2: "frest (sadvance (length (enc_uint64 ?n)) s) = concat (map enc_attr xs) @ r" using rest by (simp add: stream_simps)
  have ok: "attr_ok ?A = attr_ok A" by (simp add: fun_eq_iff attr_ok_def kvs_ok_def h)
  have u: "unat ?n = length xs" using xs(3) by (rule unat_of_nat_length)
  obtain rc arts' A' where run: "read_names_loop (length xs) 0 (root_art_array A) (parallelism A) ?A (sadvance (length (enc_uint64 ?n)) s) =
      Inr (rc, arts', A', sadvance (length (concat (map enc_attr xs))) (sadvance (length (enc_uint64 ?n)) s))"
    "loaded ?B (with_arts A' arts') xs"
    using read_names_enc [where A = ?A and arts = "root_art_array A" and p = "parallelism A" and rst = 0, OF _ _ xs(2) rest2] inv xs(1) B ok by auto
  have "loaded A (with_arts A' arts') xs" using run(2) by (rule loaded_same) (simp add: same_index_def)
  with run(1) show ?thesis
    by (auto simp: read_into_attr_root_tree_def r1 u enc_attrs_def stream_simps)
qed

section \<open>The whole file\<close>

text \<open>What a key of a leaf has posted, read off the dump.\<close>

lemma find_distinct:
  assumes "distinct (map f xs)" and "distinct (map f ys)" and "set xs = set ys"
  shows "List.find (\<lambda>x. f x = v) xs = List.find (\<lambda>x. f x = v) ys"
proof -
  have "List.find (\<lambda>x. f x = v) zs = Some z \<longleftrightarrow> z \<in> set zs \<and> f z = v" if "distinct (map f zs)" for zs z
    using that by (induction zs) auto
  with assms have "List.find (\<lambda>x. f x = v) xs = Some z \<longleftrightarrow> List.find (\<lambda>x. f x = v) ys = Some z" for z by simp
  then show ?thesis by (metis not_None_eq)
qed

lemma find_map_snd: "map_option snd (List.find (\<lambda>x. f (fst x) = c) (map (\<lambda>(k, v). (k, g v)) xs)) =
    map_option g (map_option snd (List.find (\<lambda>x. f (fst x) = c) xs))"
  by (induction xs) auto

context key_order
begin

lemma find_preorder:
  assumes "rbt_ok t" and "k \<in> K"
  shows "map_option snd (List.find (\<lambda>x. val (fst x) = val k) (preorder (rbt_root t))) = snd (rbt_find t k)"
proof -
  have "sorted_wrt (\<lambda>x y. val (fst x) < val (fst y)) (inorder (rbt_root t))"
    using assms(1) by (simp add: rbt_ok_def ordered_def)
  then have "List.find (\<lambda>x. (val \<circ> fst) x = val k) (preorder (rbt_root t)) = List.find (\<lambda>x. (val \<circ> fst) x = val k) (inorder (rbt_root t))"
    by (intro find_distinct preorder_distinct [OF assms(1)] sorted_distinct set_preorder)
  then show ?thesis using rbt_find_lookup [OF assms] by (simp add: lookup_def split: option.splits)
qed

end

lemma leaf_kvs_find:
  assumes "leaf_ok l" and "leaf_rbt l \<noteq> None" and "k \<in> leaf_keys l"
  shows "map_option snd (List.find (\<lambda>x. leaf_val l (fst x) = leaf_val l k) (leaf_kvs A l)) = map_option (leaf_pairs A) (leaf_get l k)"
proof -
  obtain t where t: "leaf_rbt l = Some t" using assms(2) by blast
  have "map_option snd (List.find (\<lambda>x. leaf_val l (fst x) = leaf_val l k) (preorder (rbt_root t))) = leaf_get l k"
    using assms int_order.find_preorder [of t k] double_order.find_preorder [of t k]
    by (auto simp: t leaf_ok_def leaf_val_def leaf_keys_def leaf_get_def split: if_splits)
  then show ?thesis by (simp add: leaf_kvs_def t find_map_snd)
qed

lemma kvs_lookup_found:
  assumes inv: "heap_inv A" and a: "a < length (attr_leaves A)" "leaf_rbt (attr_leaves A ! a) \<noteq> None"
    and k: "k \<in> leaf_keys (attr_leaves A ! a)"
    and res: "\<And>p. valid_pair A p \<Longrightarrow> resolve B (disk_pair p) = resolve A p"
  shows "kvs_lookup B (is_float (attr_leaves A ! a)) (leaf_kvs A (attr_leaves A ! a)) k = found A a k"
proof -
  let ?l = "attr_leaves A ! a"
  let ?f = "List.find (\<lambda>x. leaf_val ?l (fst x) = leaf_val ?l k) (leaf_kvs A ?l)"
  have ok: "leaf_ok ?l" using inv a(1) by (simp add: heap_inv_def leaves_inv_def)
  have l: "kvs_lookup B (is_float ?l) (leaf_kvs A ?l) k =
      (case map_option snd ?f of None \<Rightarrow> [] | Some ps \<Rightarrow> map (resolve B \<circ> disk_pair) ps)"
    unfolding kvs_lookup_def leaf_of_flag(2) [of ?l, symmetric] by (simp split: option.split)
  have "map (resolve B \<circ> disk_pair) (leaf_pairs A v) = postings A v" if "leaf_get ?l k = Some v" for v
  proof -
    have "owns A a k v" using that a k by (simp add: owns_def)
    then have "v < length (value_leaves A)" using inv unfolding heap_inv_def leaves_inv_def by blast
    then have "\<forall>p \<in> set (leaf_pairs A v). valid_pair A p" using inv unfolding heap_inv_def vals_inv_def by meson
    with res show ?thesis by (simp add: postings_def)
  qed
  then show ?thesis unfolding l leaf_kvs_find [OF ok a(2) k] by (simp add: found_def split: option.split)
qed

text \<open>An index whose trees the writer can handle.\<close>

definition dumpable :: "index_anchor \<Rightarrow> bool" where
  "dumpable A \<longleftrightarrow> index_inv A \<and> (\<forall>t \<in> set (root_art_array A). length (tree_entries t) < 2 ^ 64 \<and>
     (\<forall>x \<in> set (tree_entries t). plain_leaf A (snd x) \<and> str_ok (fst x)))"

definition enc_slot :: "index_anchor \<Rightarrow> nat \<Rightarrow> byte list" where
  "enc_slot A i = enc_path_table (fpaths A i) @ enc_path_table (opaths A i) @
     concat (map (\<lambda>t. enc_attrs (tree_dump A t)) (root_art_array A))"

lemma append_arts_enc:
  assumes "heap_inv A" and "\<forall>t \<in> set ts. \<forall>x \<in> set (tree_entries t). plain_leaf A (snd x) \<and> str_ok (fst x)"
    and "foffset s \<le> length (fcontents s)"
  shows "append_arts A ts s = Inr (fwrite (concat (map (\<lambda>t. enc_attrs (tree_dump A t)) ts)) s)"
  using assms(2,3)
proof (induction ts arbitrary: s)
  case (Cons t ts)
  have "append_attr_root_tree A t s = Inr (0, fwrite (enc_attrs (tree_dump A t)) s)"
    using Cons.prems(1) by (intro append_tree_enc [OF assms(1)]) (fastforce simp: str_ok_def)
  with Cons show ?case by (simp add: stream_simps)
qed (simp add: stream_simps)

lemma dump_loop_enc:
  assumes "dumpable A" and "i + length ls = slots A" and "ls = drop i (zip (file_paths_list A) (object_paths_list A))"
    and "foffset s \<le> length (fcontents s)"
  shows "dump_loop A ls s = Inr (fwrite (concat (map (enc_slot A) [i..<slots A])) s)"
  using assms(2-)
proof (induction ls arbitrary: i s)
  case Nil
  then show ?case by (simp add: stream_simps)
next
  case (Cons x ls)
  have h: "heap_inv A" "paths_inv A" using assms(1) by (simp_all add: dumpable_def index_inv_def heap_inv_def)
  have i: "i < slots A" using Cons.prems(1) by simp
  have len: "i < length (zip (file_paths_list A) (object_paths_list A))" using h(2) i by (simp add: paths_inv_def)
  have x: "x = (file_paths_list A ! i, object_paths_list A ! i)" "ls = drop (Suc i) (zip (file_paths_list A) (object_paths_list A))"
    using Cons.prems(2) unfolding Cons_nth_drop_Suc [OF len, symmetric] list.inject using len by (auto simp: nth_zip)
  have pt: "path_table (file_paths_list A ! i) (fpaths A i)" "path_table (object_paths_list A ! i) (opaths A i)"
    using h(2) i by (simp_all add: paths_inv_def)
  have arts: "append_arts A (root_art_array A) s' = Inr (fwrite (concat (map (\<lambda>t. enc_attrs (tree_dump A t)) (root_art_array A))) s')"
    if "foffset s' \<le> length (fcontents s')" for s'
    using append_arts_enc [OF h(1) _ that] assms(1) by (auto simp: dumpable_def)
  have "dump_loop A (x # ls) s = dump_loop A ls (fwrite (enc_slot A i) s)"
    using append_path_list_enc [OF pt(1)] append_path_list_enc [OF pt(2)] arts by (simp add: x(1) enc_slot_def stream_simps)
  also have "\<dots> = Inr (fwrite (concat (map (enc_slot A) [Suc i..<slots A])) (fwrite (enc_slot A i) s))"
    using Cons.prems x(2) by (intro Cons.IH) simp_all
  finally show ?case using i by (simp add: stream_simps upt_conv_Cons)
qed

lemma dump_enc:
  assumes "dumpable A"
  shows "dump_mdb_index_to_disk A = Inr (1, enc_size_t (scast (parallelism A)) @ concat (map (enc_slot A) [0..<slots A]))"
proof -
  have "paths_inv A" using assms by (simp add: dumpable_def index_inv_def heap_inv_def)
  then have "dump_loop A (zip (file_paths_list A) (object_paths_list A)) (fwrite (enc_size_t (scast (parallelism A))) fopen_w) =
      Inr (fwrite (concat (map (enc_slot A) [0..<slots A])) (fwrite (enc_size_t (scast (parallelism A))) fopen_w))"
    by (intro dump_loop_enc [OF assms] foffset_le_fwrite) (simp_all add: paths_inv_def)
  then show ?thesis unfolding fwrite_fwrite by (simp add: dump_mdb_index_to_disk_def enc_simps)
qed

text \<open>The first round of the loader, into an empty index.\<close>

lemma with_tables:
  fixes nf no :: size_t
  assumes inv: "index_inv A" and v: "value_leaves A = []" and i: "i < slots A"
    and pt: "path_table fl fs" "path_table ol os"
  defines "B \<equiv> A\<lparr>file_paths_list := (file_paths_list A)[i := fl], total_num_files := nf,
    object_paths_list := (object_paths_list A)[i := ol], total_num_objects := no\<rparr>"
  shows "index_inv B" and "fpaths B i = fs" and "opaths B i = os" and "attr_of B = attr_of A"
proof -
  have len: "length (file_paths_list A) = slots A" "length (object_paths_list A) = slots A"
    using inv by (simp_all add: index_inv_def heap_inv_def paths_inv_def)
  have sl: "slots B = slots A" by (simp add: B_def slots_def)
  show "fpaths B i = fs" "opaths B i = os"
    using i len path_table_tags [OF pt(1)] path_table_tags [OF pt(2)] by (simp_all add: B_def fpaths_def opaths_def)
  have paths: "fpaths B j = (if j = i then fs else fpaths A j)" "opaths B j = (if j = i then os else opaths A j)" for j
    using i len path_table_tags [OF pt(1)] path_table_tags [OF pt(2)]
    by (simp_all add: B_def fpaths_def opaths_def nth_list_update)
  have "paths_inv B"
    unfolding paths_inv_def sl paths using inv pt i len
    by (auto simp: B_def index_inv_def heap_inv_def paths_inv_def nth_list_update)
  moreover have "vals_inv B" by (simp add: vals_inv_def B_def v)
  moreover have "leaves_inv B"
  proof -
    have "attr_leaves B = attr_leaves A" "value_leaves B = value_leaves A" by (simp_all add: B_def)
    moreover have "owns B = owns A" by (simp add: fun_eq_iff owns_def B_def)
    ultimately show ?thesis using inv by (simp add: index_inv_def heap_inv_def leaves_inv_def)
  qed
  moreover show at: "attr_of B = attr_of A" by (simp add: fun_eq_iff attr_of_def slot_of_def B_def)
  moreover have "names_inv B" using inv unfolding index_inv_def names_inv_def at sl by (simp add: B_def)
  ultimately show "index_inv B" by (simp add: index_inv_def heap_inv_def)
qed

lemma first_round:
  assumes p: "0 < sint p" and fs: "\<forall>x \<in> set fs. str_ok x" "length fs < 2 ^ 31" and os: "\<forall>x \<in> set os. str_ok x" "length os < 2 ^ 31"
    and xs: "\<And>B. slots B = nat (sint p) \<Longrightarrow> fpaths B 0 = fs \<Longrightarrow> opaths B 0 = os \<Longrightarrow> \<forall>x \<in> set xs. attr_ok B x"
      "distinct (map fst xs)" "length xs < 2 ^ 64"
    and s: "frest s = enc_path_table fs @ enc_path_table os @ enc_attrs xs @ r"
  shows "\<exists>B C s'. load_rounds ptrs (Suc n) 0 (init_in_mem_index p) s = load_rounds ptrs n 1 C s' \<and> frest s' = r \<and>
    loaded B C xs \<and> parallelism B = p \<and> fpaths B 0 = fs \<and> opaths B 0 = os \<and> attr_of B = Map.empty"
proof -
  let ?A = "init_in_mem_index p"
  have inv: "index_inv ?A" using init_inv [OF p] .
  have A: "value_leaves ?A = []" "parallelism ?A = p" "slots ?A = nat (sint p)"
    "file_paths_list ?A = replicate (nat (sint p)) list_create" "object_paths_list ?A = replicate (nat (sint p)) list_create"
    by (simp_all add: init_in_mem_index_def Let_def slots_def)
  have p0: "0 < nat (sint p)" using p by simp
  obtain fl where fl: "read_into_path_list list_create s = Inr (True, fl, sadvance (length (enc_path_table fs)) s)" "path_table fl fs"
    using read_into_path_list_enc [OF path_table_create fs s] by blast
  let ?s1 = "sadvance (length (enc_path_table fs)) s"
  have s1: "frest ?s1 = enc_path_table os @ enc_attrs xs @ r" using s by (simp add: stream_simps)
  obtain ol where ol: "read_into_path_list list_create ?s1 = Inr (True, ol, sadvance (length (enc_path_table os)) ?s1)" "path_table ol os"
    using read_into_path_list_enc [OF path_table_create os s1] by blast
  let ?s2 = "sadvance (length (enc_path_table os)) ?s1"
  have s2: "frest ?s2 = enc_attrs xs @ r" unfolding frest_sadvance [of _ ?s1] s1 by simp
  let ?B = "?A\<lparr>file_paths_list := (file_paths_list ?A)[0 := fl], total_num_files := total_num_files ?A + of_nat (list_count fl),
    object_paths_list := (object_paths_list ?A)[0 := ol], total_num_objects := total_num_objects ?A + of_nat (list_count ol)\<rparr>"
  have i: "0 < slots ?A" using p0 A(3) by simp
  note B = with_tables [OF inv A(1) i fl(2) ol(2), where nf = "total_num_files ?A + of_nat (list_count fl)" and no = "total_num_objects ?A + of_nat (list_count ol)"]
  have at: "attr_of ?B = Map.empty" using B(4) attr_of_init [OF p] by (simp add: fun_eq_iff)
  have slB: "slots ?B = nat (sint p)" by (simp add: slots_def A(2))
  have ok: "\<forall>x \<in> set xs. attr_ok ?B x \<and> attr_of ?B (fst x) = None" using xs(1) [OF slB B(2,3)] at by simp
  obtain okf arts C where C: "read_into_attr_root_tree (ptrs 0) (root_art_array ?B) (parallelism ?B) ?B ?s2 =
      Inr (okf, arts, C, sadvance (length (enc_attrs xs)) ?s2)" "loaded ?B (with_arts C arts) xs"
    using read_tree_enc [OF B(1) ok xs(2,3) s2, of "ptrs 0"] by blast
  let ?s3 = "sadvance (length (enc_attrs xs)) ?s2"
  have "load_rounds ptrs (Suc n) 0 ?A s = load_rounds ptrs n 1 (with_arts C arts) ?s3"
    using p0 fl(1) ol(1) C(1) by (simp add: A Let_def)
  moreover have "frest ?s3 = r" unfolding frest_sadvance [of _ ?s2] s2 by simp
  ultimately show ?thesis using C(2) B(2,3) at A(2) by (intro exI [of _ ?B] exI [of _ "with_arts C arts"] exI [of _ ?s3]) simp
qed

text \<open>The dump of the first tree can be read back.\<close>

lemma tree_dump_ok:
  assumes d: "dumpable A" and t: "t \<in> set (root_art_array A)" and B: "slots B = slots A" "fpaths B 0 = fpaths A i" "opaths B 0 = opaths A i"
    and home: "\<forall>x \<in> set (tree_entries t). \<forall>k v p. owns A (snd x) k v \<longrightarrow> p \<in> set (leaf_pairs A v) \<longrightarrow> unat (parallel_index_pos p) = i"
  shows "\<forall>x \<in> set (tree_dump A t). attr_ok B x"
proof
  fix x assume "x \<in> set (tree_dump A t)"
  then obtain n a where x: "x = attr_dump_of A (n, a)" "(n, a) \<in> set (tree_entries t)" by (auto simp: tree_dump_def)
  have h: "heap_inv A" "vals_inv A" "leaves_inv A" "paths_inv A" using d by (simp_all add: dumpable_def index_inv_def heap_inv_def)
  have pl: "plain_leaf A a" "str_ok n" using d t x(2) unfolding dumpable_def by fastforce+
  then obtain u where u: "leaf_rbt (attr_leaves A ! a) = Some u" "a < length (attr_leaves A)" by (auto simp: plain_leaf_def num_leaf_def)
  have ok: "leaf_ok (attr_leaves A ! a)" using h(3) u(2) by (simp add: leaves_inv_def)
  have "length ps < 2 ^ 64 \<and> (\<forall>p \<in> set ps. valid_pair B (disk_pair p))" if kps: "(k, ps) \<in> set (leaf_kvs A (attr_leaves A ! a))" for k ps
  proof -
    obtain v where v: "(k, v) \<in> set (preorder (rbt_root u))" "ps = leaf_pairs A v" using kps u(1) by (auto simp: leaf_kvs_def)
    have own: "owns A a k v" using leaf_entries [OF ok u(1) v(1)] u(2) by (simp add: owns_def)
    then have "v < length (value_leaves A)" using h(3) unfolding leaves_inv_def by blast
    then obtain l where l: "pair_list l ps" "\<forall>p \<in> set ps. valid_pair A p" using h(2) v(2) unfolding vals_inv_def by meson
    have "valid_pair B (disk_pair p)" if "p \<in> set ps" for p
      using that l(2) home x(2) own v(2) B h(4) by (fastforce simp: valid_pair_def disk_pair_def Let_def slots_def paths_inv_def)
    with l(1) show ?thesis by (simp add: pair_list_def)
  qed
  then have "kvs_ok B (attr_leaves A ! a) (leaf_kvs A (attr_leaves A ! a))"
    using leaf_kvs_keys [OF ok u(1), of A] by (auto simp: kvs_ok_def)
  then have "kvs_ok B (fresh_leaf (is_float (attr_leaves A ! a))) (leaf_kvs A (attr_leaves A ! a))"
    unfolding kvs_ok_def leaf_of_flag [of "attr_leaves A ! a"] .
  then show "attr_ok B x" using pl by (simp add: x attr_ok_def attr_dump_of_def plain_leaf_def num_leaf_def)
qed

lemma map_of_tree_dump:
  "map_of (tree_dump A t) n = map_option (\<lambda>a. (is_float (attr_leaves A ! a), leaf_kvs A (attr_leaves A ! a))) (tree_map t n)"
proof -
  have "map_of (map (attr_dump_of A) xs) n =
      map_option (\<lambda>a. (is_float (attr_leaves A ! a), leaf_kvs A (attr_leaves A ! a))) (map_of xs n)" for xs
    by (induction xs) (auto simp: attr_dump_of_def)
  then show ?thesis by (simp add: tree_dump_def tree_map_def)
qed

lemma map_fst_tree_dump: "map fst (tree_dump A t) = map fst (tree_entries t)"
  by (simp add: tree_dump_def attr_dump_of_def comp_def)

text \<open>Every pair of the first tree lies in the first path tables.\<close>

definition first_tree_home :: "index_anchor \<Rightarrow> bool" where
  "first_tree_home A \<longleftrightarrow> (\<forall>x \<in> set (tree_entries (root_art_array A ! 0)). \<forall>k v p. owns A (snd x) k v \<longrightarrow>
     p \<in> set (leaf_pairs A v) \<longrightarrow> parallel_index_pos p = 0)"

lemma dump_first_round:
  assumes d: "dumpable A" and home: "first_tree_home A" and s: "frest s = enc_slot A 0 @ r"
  shows "\<exists>B C s'. load_rounds ptrs (slots A) 0 (init_in_mem_index (parallelism A)) s = load_rounds ptrs (slots A - 1) 1 C s' \<and>
    frest s' = concat (map (\<lambda>t. enc_attrs (tree_dump A t)) (tl (root_art_array A))) @ r \<and>
    loaded B C (tree_dump A (root_art_array A ! 0)) \<and> parallelism B = parallelism A \<and> fpaths B 0 = fpaths A 0 \<and>
    opaths B 0 = opaths A 0 \<and> attr_of B = Map.empty"
proof -
  let ?t = "root_art_array A ! 0"
  have h: "paths_inv A" "names_inv A" using d by (simp_all add: dumpable_def index_inv_def heap_inv_def)
  then have sl: "0 < slots A" "length (root_art_array A) = slots A" by (simp_all add: paths_inv_def names_inv_def slots_def)
  then have arts: "root_art_array A = ?t # tl (root_art_array A)" by (cases "root_art_array A") auto
  then have t: "?t \<in> set (root_art_array A)" by (metis list.set_intros(1))
  have pt: "path_table (file_paths_list A ! 0) (fpaths A 0)" "path_table (object_paths_list A ! 0) (opaths A 0)"
    using h(1) sl(1) by (simp_all add: paths_inv_def)
  have "\<forall>x \<in> set (tree_dump A ?t). attr_ok B x"
    if "slots B = nat (sint (parallelism A))" "fpaths B 0 = fpaths A 0" "opaths B 0 = opaths A 0" for B
    using home that by (intro tree_dump_ok [OF d t]) (auto simp: slots_def first_tree_home_def)
  moreover have "distinct (map fst (tree_dump A ?t))"
    unfolding map_fst_tree_dump using h(2) sl(1) by (intro tree_distinct) (simp add: names_inv_def)
  moreover have "length (tree_dump A ?t) < 2 ^ 64" using d t by (simp add: dumpable_def tree_dump_def)
  moreover have "frest s = enc_path_table (fpaths A 0) @ enc_path_table (opaths A 0) @ enc_attrs (tree_dump A ?t) @
      concat (map (\<lambda>t. enc_attrs (tree_dump A t)) (tl (root_art_array A))) @ r"
    using s arts unfolding enc_slot_def by (metis append.assoc concat.simps(2) list.simps(9))
  moreover have "0 < sint (parallelism A)" using h(1) by (simp add: paths_inv_def)
  moreover have "Suc (slots A - 1) = slots A" using sl(1) by simp
  ultimately show ?thesis
    using first_round [of "parallelism A" "fpaths A 0" "opaths A 0" "tree_dump A ?t" s _ ptrs "slots A - 1"] pt
    by (simp add: path_table_def)
qed

lemma load_dump:
  assumes "dumpable A"
  shows "load_mdb ptrs (Some (enc_size_t (scast (parallelism A)) @ concat (map (enc_slot A) [0..<slots A]))) None =
    ebind (load_rounds ptrs (slots A) 0 (init_in_mem_index (parallelism A))
        (sadvance (length (enc_size_t (scast (parallelism A))))
          (fopen_r (enc_size_t (scast (parallelism A)) @ concat (map (enc_slot A) [0..<slots A]))))) (\<lambda>(fin, A1).
      Inr (0, Some (if fin then A1\<lparr>total_num_kv_pairs := total_num_kv_pairs A1 + get_num_kv_pairs_loaded_mdb A1,
                                    total_num_attrs := total_num_attrs A1 + get_num_attrs_loaded_mdb A1\<rparr> else A1)))"
proof -
  let ?e = "enc_size_t (scast (parallelism A))" and ?r = "concat (map (enc_slot A) [0..<slots A])"
  have "ucast (scast (parallelism A) :: size_t) = parallelism A" 
  proof (rule bit_word_eqI)
    fix n assume "n < LENGTH(32)"
    then have "n < 31 \<or> n = 31" by auto
    then show "bit (ucast (scast (parallelism A) :: size_t) :: c_int) n = bit (parallelism A) n" by (auto simp: bit_simps)
  qed
  moreover have "0 < length ?e" by (simp add: enc_size_t_def enc_field_def)
  then have "?e \<noteq> []" by blast
  moreover have "parallelism (init_in_mem_index (parallelism A)) = parallelism A" by (simp add: init_in_mem_index_def Let_def)
  ultimately show ?thesis
    using size_t_codec.rd_enc [OF TrueI, of "fopen_r (?e @ ?r)" "scast (parallelism A)" ?r]
    by (simp add: load_mdb_def load_mdb_file_to_index_def slots_def)
qed

text \<open>Names, values and counts the length fields can hold.\<close>

definition sizes_ok :: "index_anchor \<Rightarrow> bool" where
  "sizes_ok A \<longleftrightarrow> (\<forall>t \<in> set (root_art_array A). length (tree_entries t) < 2 ^ 64) \<and>
     (\<forall>n a. attr_of A n = Some a \<longrightarrow> length n < 2 ^ 64 \<and> length (leaf_kvs A (attr_leaves A ! a)) < 2 ^ 64)"

text \<open>With one slot every name is in its tree and every pair in its tables.\<close>

lemma one_slot:
  assumes inv: "index_inv A" and p: "parallelism A = 1"
  shows "root_art_array A = [root_art_array A ! 0]" and "attr_of A n = tree_map (root_art_array A ! 0) n"
    and "valid_pair A q \<Longrightarrow> parallel_index_pos q = 0" and "first_tree_home A" and "sizes_ok A \<Longrightarrow> dumpable A"
proof -
  let ?t = "root_art_array A ! 0"
  have h: "heap_inv A" "names_inv A" using inv by (simp_all add: index_inv_def)
  have sl: "slots A = 1" using p by (simp add: slots_def)
  show arts: "root_art_array A = [?t]" using h(2) sl by (cases "root_art_array A") (simp_all add: names_inv_def)
  have slot: "slot_of A m = 0" for m using hash_slot_of(2) [OF h(1), of m] sl by simp
  then show at: "attr_of A n = tree_map ?t n" for n by (simp add: attr_of_def)
  show pos: "parallel_index_pos q = 0" if "valid_pair A q" for q
    using that sl by (simp add: valid_pair_def Let_def unat_eq_0)
  have "parallel_index_pos q = 0" if "owns A a k v" "q \<in> set (leaf_pairs A v)" for a k v q
  proof -
    have "v < length (value_leaves A)" using h(1) that(1) unfolding heap_inv_def leaves_inv_def by blast
    then have "valid_pair A q" using h(1) that(2) unfolding heap_inv_def vals_inv_def by meson
    then show ?thesis by (rule pos)
  qed
  then show "first_tree_home A" by (auto simp: first_tree_home_def)
  assume small: "sizes_ok A"
  have ti: "tree_inv ?t" using h(2) sl by (simp add: names_inv_def)
  have "plain_leaf A (snd x) \<and> str_ok (fst x)" if x: "x \<in> set (tree_entries ?t)" for x
  proof -
    have "attr_of A (fst x) = Some (snd x)" using x tree_distinct [OF ti] by (simp add: at tree_map_def)
    moreover from this have "snd x < length (attr_leaves A) \<and> num_leaf (attr_leaves A ! snd x)"
      using h(2) unfolding names_inv_def by blast
    moreover have "no_nul (fst x)" using tree_entries_key [OF ti] x by (metis prod.collapse)
    ultimately show ?thesis using small unfolding sizes_ok_def plain_leaf_def str_ok_def by blast
  qed
  moreover have "length (tree_entries ?t) < 2 ^ 64" using small unfolding sizes_ok_def by (metis arts list.set_intros(1))
  ultimately have "\<forall>t \<in> set [?t]. length (tree_entries t) < 2 ^ 64 \<and> (\<forall>x \<in> set (tree_entries t). plain_leaf A (snd x) \<and> str_ok (fst x))"
    by simp
  then show "dumpable A" using inv arts unfolding dumpable_def by metis
qed

lemma loaded_same_index:
  assumes inv: "index_inv A" and p: "parallelism A = 1" and C: "loaded B C (tree_dump A (root_art_array A ! 0))"
    "fpaths B 0 = fpaths A 0" "opaths B 0 = opaths A 0" "attr_of B = Map.empty"
  shows "attr_float C n = attr_float A n" and "key_of A n k \<Longrightarrow> index_lookup C n k = index_lookup A n k"
proof -
  let ?t = "root_art_array A ! 0"
  have h: "heap_inv A" "names_inv A" using inv by (simp_all add: index_inv_def)
  note one = one_slot [OF inv p]
  have none: "attr_float B n = None" "index_lookup B n k = []" for n k using C(4) by (simp_all add: attr_float_def index_lookup_def)
  show fl: "attr_float C n = attr_float A n" for n
    using C(1) none by (cases "tree_map ?t n") (auto simp: loaded_def map_of_tree_dump attr_float_def one(2))
  have res: "resolve B (disk_pair q) = resolve A q" if "valid_pair A q" for q
    using one(3) [OF that] C(2,3) by (simp add: resolve_def disk_pair_def)
  assume key: "key_of A n k"
  then have "key_of C n k" by (simp add: key_of_float fl)
  with C(1) have l: "index_lookup C n k = (case map_of (tree_dump A ?t) n of Some (fl, kvs) \<Rightarrow> kvs_lookup B fl kvs k | None \<Rightarrow> [])"
    unfolding loaded_def none(2) by blast
  show "index_lookup C n k = index_lookup A n k"
  proof (cases "attr_of A n")
    case None
    then show ?thesis using l by (simp add: map_of_tree_dump one(2) index_lookup_def)
  next
    case (Some a)
    then have a: "a < length (attr_leaves A)" "leaf_rbt (attr_leaves A ! a) \<noteq> None" "k \<in> leaf_keys (attr_leaves A ! a)"
      using h(2) key num_leaf_rbt unfolding names_inv_def key_of_def by blast+
    from kvs_lookup_found [OF h(1) a res] l Some show ?thesis by (simp add: map_of_tree_dump one(2) index_lookup_def)
  qed
qed

lemma mdb_reload:
  assumes "index_inv A" and "parallelism A = 1" and "sizes_ok A"
  shows "\<exists>bs A'. dump_mdb_index_to_disk A = Inr (1, bs) \<and> load_mdb ptrs (Some bs) None = Inr (0, Some A') \<and>
    index_inv A' \<and> (\<forall>n. attr_float A' n = attr_float A n) \<and>
    (\<forall>n k. key_of A n k \<longrightarrow> index_lookup A' n k = index_lookup A n k)"
proof -
  note one = one_slot [OF assms(1,2)]
  note d = one(5) [OF assms(3)]
  have sl: "slots A = 1" using assms(2) by (simp add: slots_def)
  let ?e = "enc_size_t (scast (parallelism A))" and ?bs = "enc_size_t (scast (parallelism A)) @ concat (map (enc_slot A) [0..<slots A])"
  have "frest (sadvance (length ?e) (fopen_r ?bs)) = enc_slot A 0 @ []" by (simp add: stream_simps sl)
  from dump_first_round [OF d one(4) this, of ptrs] obtain B C s' where
    first: "load_rounds ptrs (slots A) 0 (init_in_mem_index (parallelism A)) (sadvance (length ?e) (fopen_r ?bs)) =
      load_rounds ptrs (slots A - 1) 1 C s'"
    and C: "loaded B C (tree_dump A (root_art_array A ! 0))" "fpaths B 0 = fpaths A 0" "opaths B 0 = opaths A 0" "attr_of B = Map.empty"
    by blast
  have run: "load_rounds ptrs (slots A) 0 (init_in_mem_index (parallelism A)) (sadvance (length ?e) (fopen_r ?bs)) = Inr (True, C)"
    unfolding first by (simp add: sl)
  let ?A = "C\<lparr>total_num_kv_pairs := total_num_kv_pairs C + get_num_kv_pairs_loaded_mdb C,
    total_num_attrs := total_num_attrs C + get_num_attrs_loaded_mdb C\<rparr>"
  have "same_index C ?A" by (simp add: same_index_def)
  note A' = same_index_facts [OF this]
  have "attr_float ?A = attr_float C" by (simp add: fun_eq_iff attr_float_def A')
  then show ?thesis
    using dump_enc [OF d] load_dump [OF d, of ptrs] run C(1) loaded_same_index [OF assms(1,2) C] A'
    by (intro exI [of _ ?bs] exI [of _ ?A]) (simp add: loaded_def)
qed

text \<open>A small index with one slot: \<^verbatim>\<open>x = 5\<close> on object \<^verbatim>\<open>/g\<close> of file \<^verbatim>\<open>a\<close>.\<close>

definition sample_tree :: "(byte list, nat) rbt" where
  "sample_tree = \<lparr>rbt_root = Node RBTREE_COLOR_BLACK Null (bytes4 5) 0 Null, rbt_size = 1, cmp_keys_cb = libhl_cmp_keys_int\<rparr>"

definition sample_leaf :: attr_leaf where
  "sample_leaf = \<lparr>is_numeric = 1, is_float = 0, leaf_rbt = Some sample_tree, leaf_art = None\<rparr>"

lemma sample_leaf_get:
  "leaf_ok sample_leaf" "k \<in> int_keys \<Longrightarrow> leaf_get sample_leaf k = (if int_key k = 5 then Some 0 else None)"
  "bytes4 5 \<in> int_keys"
proof -
  show five: "bytes4 5 \<in> int_keys" by (simp add: int_keys_def)
  have ok: "int_order.rbt_ok sample_tree"
    using five by (simp add: sample_tree_def int_order.rbt_ok_def int_order.ordered_def balanced_def)
  then show "leaf_ok sample_leaf" by (simp add: leaf_ok_def sample_leaf_def)
  assume "k \<in> int_keys"
  from int_order.rbt_find_lookup [OF ok this] show "leaf_get sample_leaf k = (if int_key k = 5 then Some 0 else None)"
    by (auto simp: leaf_get_def sample_leaf_def sample_tree_def int_order.lookup_def)
qed

lemma sample_index:
  "\<exists>A a. index_inv A \<and> parallelism A = 1 \<and> sizes_ok A \<and> key_of A [120] (bytes4 5) \<and>
    attr_of A [120] = Some a \<and> is_float (attr_leaves A ! a) = 0 \<and> index_lookup A [120] (bytes4 5) = [([97], [47, 103])]"
proof -
  let ?q = "\<lparr>parallel_index_pos = 0, file_list_pos = 0, obj_list_pos = 0\<rparr>"
  obtain fl where fl: "path_table fl [[97]]"
    using insert_path_entry [OF path_table_create, of "[97]"] by (auto simp: str_ok_def no_nul_def)
  obtain ol where ol: "path_table ol [[47, 103]]"
    using insert_path_entry [OF path_table_create, of "[47, 103]"] by (auto simp: str_ok_def no_nul_def)
  obtain pl where pl: "pair_list pl [?q]"
    using ll.push_snd [OF list_inv_create, of "Some ?q"] by (auto simp: pair_list_def)
  define A where "A = (init_in_mem_index 1)\<lparr>attr_leaves := [sample_leaf], value_leaves := [\<lparr>file_obj_pair_list = Some pl\<rparr>],
    root_art_array := [\<lparr>root = Some (Leaf [120] 0), art_size = 1\<rparr>], file_paths_list := [fl], object_paths_list := [ol]\<rparr>"
  have A: "attr_leaves A = [sample_leaf]" "value_leaves A = [\<lparr>file_obj_pair_list = Some pl\<rparr>]" "parallelism A = 1" "slots A = 1"
    "root_art_array A = [\<lparr>root = Some (Leaf [120] 0), art_size = 1\<rparr>]" "fpaths A 0 = [[97]]" "opaths A 0 = [[47, 103]]"
    "leaf_pairs A 0 = [?q]" "file_paths_list A = [fl]" "object_paths_list A = [ol]"
    using path_table_tags [OF fl] path_table_tags [OF ol] pl
    by (simp_all add: A_def init_in_mem_index_def Let_def slots_def fpaths_def opaths_def leaf_pairs_def pair_list_def)
  have keys: "leaf_keys sample_leaf = int_keys" "num_leaf sample_leaf" "leaf_val sample_leaf = int_key"
    by (simp_all add: leaf_keys_def num_leaf_def leaf_val_def sample_leaf_def)
  have own: "owns A a k v \<longleftrightarrow> a = 0 \<and> k \<in> int_keys \<and> int_key k = 5 \<and> v = 0" for a k v
    using sample_leaf_get(2) [of k] by (auto simp: owns_def A keys split: if_splits)
  have heap: "heap_inv A"
    using fl ol pl sample_leaf_get(1)
    by (simp add: heap_inv_def paths_inv_def vals_inv_def leaves_inv_def own A keys valid_pair_def)
  have slot: "slot_of A n = 0" for n using hash_slot_of(2) [OF heap, of n] A(4) by simp
  have at: "attr_of A n = (if n = [120] then Some 0 else None)" for n
    by (simp add: attr_of_def slot A tree_defs)
  have "tree_inv \<lparr>root = Some (Leaf [120] (0 :: nat)), art_size = 1\<rparr>"
    by (auto simp: tree_defs no_nul_def intro!: art_inv_leaf)
  then have "names_inv A" unfolding names_inv_def at by (simp add: A keys)
  with heap have inv: "index_inv A" by (simp add: index_inv_def)
  moreover have "sizes_ok A"
    unfolding sizes_ok_def at by (simp add: A tree_defs leaf_kvs_def sample_leaf_def sample_tree_def)
  moreover have "key_of A [120] (bytes4 5)" using sample_leaf_get(3) by (simp add: key_of_def at A keys)
  moreover have "index_lookup A [120] (bytes4 5) = [([97], [47, 103])]"
    using sample_leaf_get(2,3) by (simp add: index_lookup_def at found_def A postings_def resolve_def)
  moreover have "attr_of A [120] = Some 0" "is_float (attr_leaves A ! 0) = 0" by (simp_all add: at A sample_leaf_def)
  ultimately show ?thesis using A(3) by blast
qed

section \<open>Properties\<close>



text \<open>C37: an index with two slots or more writes every name tree in every round, and the loader, which expects the
  path table of the next slot after the first tree, dereferences a null pointer.\<close>

theorem mdb_parallel_load_crashes:
  assumes "dumpable A" and "first_tree_home A" and "2 \<le> sint (parallelism A)"
  shows "\<exists>bs. dump_mdb_index_to_disk A = Inr (1, bs) \<and> load_mdb ptrs (Some bs) None = Inl Null_Deref"
proof -
  have h: "names_inv A" using assms(1) by (simp add: dumpable_def index_inv_def)
  have sl: "2 \<le> slots A" using assms(3) by (simp add: slots_def)
  let ?e = "enc_size_t (scast (parallelism A))" and ?bs = "enc_size_t (scast (parallelism A)) @ concat (map (enc_slot A) [0..<slots A])"
  have "[0..<slots A] = 0 # [1..<slots A]" using sl by (simp add: upt_conv_Cons)
  then have "frest (sadvance (length ?e) (fopen_r ?bs)) = enc_slot A 0 @ concat (map (enc_slot A) [1..<slots A])"
    by (simp add: stream_simps)
  from dump_first_round [OF assms(1,2) this, of ptrs] obtain B C s' r where
    run: "load_rounds ptrs (slots A) 0 (init_in_mem_index (parallelism A)) (sadvance (length ?e) (fopen_r ?bs)) =
      load_rounds ptrs (slots A - 1) 1 C s'"
    and C: "frest s' = concat (map (\<lambda>t. enc_attrs (tree_dump A t)) (tl (root_art_array A))) @ r" "index_inv C" "parallelism C = parallelism A"
    by (auto simp: loaded_def)
  have "length (tl (root_art_array A)) = slots A - 1" using h by (simp add: names_inv_def)
  then obtain t ts where "tl (root_art_array A) = t # ts" using sl by (cases "tl (root_art_array A)") auto
  then obtain n q where "frest s' = enc_field 4 1 (bytes8 n) @ q"
    using C(1) by (simp add: enc_attrs_def enc_uint64_def)
  from read_general_enc [OF this] have none: "fst (miqs_read_size_t s') = None"
    by (simp add: miqs_read_size_t_def elem_size_def)
  have "1 < length (file_paths_list C)" using C(2,3) sl by (simp add: index_inv_def heap_inv_def paths_inv_def slots_def)
  moreover obtain m where "slots A - 1 = Suc m" using sl by (metis Suc_1 Suc_diff_Suc Suc_le_lessD)
  ultimately have "load_rounds ptrs (slots A - 1) 1 C s' = Inl Null_Deref"
    using none by (simp add: read_into_path_list_def case_prod_unfold deref_def)
  with dump_enc [OF assms(1)] load_dump [OF assms(1), of ptrs] run show ?thesis by simp
qed

theorem mdb_parallel_load_crashes_witness:
  "\<exists>bs. dump_mdb_index_to_disk (init_in_mem_index 2) = Inr (1, bs) \<and> load_mdb (\<lambda>_. 0) (Some bs) None = Inl Null_Deref"
proof -
  have "index_inv (init_in_mem_index 2)" by (rule init_inv) simp
  then have "dumpable (init_in_mem_index 2)"
    by (simp add: dumpable_def init_in_mem_index_def Let_def art_tree_init_def tree_entries_def)
  moreover have "first_tree_home (init_in_mem_index 2)"
    by (simp add: first_tree_home_def init_in_mem_index_def Let_def owns_def)
  ultimately show ?thesis
    using mdb_parallel_load_crashes [of "init_in_mem_index 2" "\<lambda>_. 0"] by (simp add: init_in_mem_index_def Let_def)
qed

end
