(* ===== verification/Fs_Ops.thy ===== *)
theory Fs_Ops
  imports On_Disk_Index
begin

text \<open>
  Directory traversal: src/src/utils/fs/fs_ops.c.

  The file system is a parameter: \<open>ls path\<close> lists a directory as \<^verbatim>\<open>scandir\<close> with the caller's ordering and no
  filter would, \<open>None\<close> when it fails. The recursion goes as deep as the directories do; \<open>fuel\<close> bounds it,
  and running out is \<open>No_Return\<close>. The reference is a tree of names that the file system lists, whose files are enumerated with paths of their own. \<^verbatim>\<open>stat\<close>,
  \<^verbatim>\<open>opendir\<close> and \<^verbatim>\<open>mkdir\<close> wrappers are parameters where they are used.
\<close>

section \<open>The traversal\<close>

datatype sorting_direction = ASC | DESC

definition desc_cmp :: "int \<Rightarrow> int \<Rightarrow> bool" where
  "desc_cmp v end = (v \<ge> end)"

definition asc_cmp :: "int \<Rightarrow> int \<Rightarrow> bool" where
  "asc_cmp v end = (v \<le> end)"

definition incr :: "int \<Rightarrow> int" where
  "incr a = a + 1"

definition decr :: "int \<Rightarrow> int" where
  "decr a = a - 1"

type_synonym 's on_entry = "dirent \<Rightarrow> cstring \<Rightarrow> 's \<Rightarrow> c_error + 's"

text \<open>\<^verbatim>\<open>snprintf(path, 1023, "%s/%s", dir_path, name)\<close>.\<close>

definition entry_path :: "cstring \<Rightarrow> cstring \<Rightarrow> cstring" where
  "entry_path dir_path name = take 1022 (dir_path @ str ''/'' @ name)"

text \<open>
  The loop over the sorted entries: \<open>v\<close> runs from one end to the other, \<open>cnt\<close> counts the rounds. \<open>m\<close> is the number
  of entries, which bounds the rounds.
\<close>

fun collect_loop ::
  "nat \<Rightarrow> dirent list \<Rightarrow> int \<Rightarrow> int \<Rightarrow> (int \<Rightarrow> int \<Rightarrow> bool) \<Rightarrow> (int \<Rightarrow> int) \<Rightarrow> int \<Rightarrow> int \<Rightarrow>
   (dirent \<Rightarrow> 's \<Rightarrow> c_error + 's) \<Rightarrow> 's \<Rightarrow> c_error + 's" where
  "collect_loop 0 namelist v end cmp_nl v_act cnt topk visit s =
     (if cmp_nl v end \<and> (if topk > 0 then cnt < topk else True) then Inl No_Return else Inr s)"
| "collect_loop (Suc m) namelist v end cmp_nl v_act cnt topk visit s =
     (if cmp_nl v end \<and> (if topk > 0 then cnt < topk else True)
      then ebind (nth_chk namelist (nat v)) (\<lambda>entry.
           ebind (visit entry s) (\<lambda>s'. collect_loop m namelist (v_act v) end cmp_nl v_act (cnt + 1) topk visit s'))
      else Inr s)"

definition call_opt :: "('s \<Rightarrow> c_error + 's) option \<Rightarrow> 's \<Rightarrow> c_error + 's" where
  "call_opt f s = (case f of None \<Rightarrow> Inr s | Some g \<Rightarrow> g s)"

fun collect_dir ::
  "nat \<Rightarrow> (cstring \<Rightarrow> dirent list option) \<Rightarrow> cstring option \<Rightarrow> (dirent \<Rightarrow> bool) \<Rightarrow> sorting_direction \<Rightarrow> c_int \<Rightarrow>
   's on_entry option \<Rightarrow> 's on_entry option \<Rightarrow> ('s \<Rightarrow> c_error + 's) option \<Rightarrow> ('s \<Rightarrow> c_error + 's) option \<Rightarrow> 's \<Rightarrow> c_error + 's" where
  "collect_dir 0 ls dir_path sel sd topk on_file on_dir pre_op post_op s = Inl No_Return"
| "collect_dir (Suc fuel) ls dir_path sel sd topk on_file on_dir pre_op post_op s =
     (case dir_path of
        None \<Rightarrow> Inr s
      | Some dir \<Rightarrow>
          (case ls dir of
             None \<Rightarrow> Inr s
           | Some entries \<Rightarrow>
               let namelist = filter sel entries; n = int (length namelist);
                   (v, end, cmp_nl, v_act) = (case sd of DESC \<Rightarrow> (n - 1, 0, desc_cmp, decr) | ASC \<Rightarrow> (0, n - 1, asc_cmp, incr));
                   visit = (\<lambda>entry s.
                     ebind (call_opt pre_op s) (\<lambda>s1.
                     ebind (if d_is_dir entry
                            then ebind (case on_dir of None \<Rightarrow> Inr s1 | Some cb \<Rightarrow> cb entry dir s1)
                                   (collect_dir fuel ls (Some (entry_path dir (d_name entry))) sel sd topk on_file on_dir pre_op post_op)
                            else (case on_file of None \<Rightarrow> Inr s1 | Some cb \<Rightarrow> cb entry dir s1)) (\<lambda>s2.
                       call_opt post_op s2)))
               in collect_loop (length namelist) namelist v end cmp_nl v_act 0 (sint topk) visit s))"

section \<open>The loop as an iteration\<close>

fun efold :: "('a \<Rightarrow> 's \<Rightarrow> c_error + 's) \<Rightarrow> 'a list \<Rightarrow> 's \<Rightarrow> c_error + 's" where
  "efold f [] s = Inr s"
| "efold f (x # xs) s = ebind (f x s) (efold f xs)"

lemma ebind_Inr_id [simp]: "ebind m Inr = m"
  by (simp add: ebind_def split: sum.split)

lemma call_opt_None [simp]: "call_opt None = Inr"
  by (simp add: fun_eq_iff call_opt_def)

lemma efold_one [simp]: "efold f [x] s = f x s"
  by (simp add: ebind_def split: sum.split)

lemma efold_append [simp]: "efold f (xs @ ys) s = ebind (efold f xs s) (efold f ys)"
  by (induction xs arbitrary: s) (simp_all add: ebind_def split: sum.split)

definition firsts :: "int \<Rightarrow> 'a list \<Rightarrow> 'a list" where
  "firsts topk xs = (if topk > 0 then take (nat topk) xs else xs)"

lemma collect_loop_asc:
  assumes "i + m = length xs" and "0 \<le> cnt"
  shows "collect_loop m xs (int i) (int (length xs) - 1) asc_cmp incr cnt topk visit s =
    (if topk > 0 then efold visit (take (nat (topk - cnt)) (drop i xs)) s else efold visit (drop i xs) s)"
  using assms
proof (induction m arbitrary: i cnt s)
  case 0
  then show ?case by (simp add: asc_cmp_def)
next
  case (Suc m)
  have i: "i < length xs" using Suc.prems(1) by simp
  have d: "drop i xs = xs ! i # drop (Suc i) xs" using Cons_nth_drop_Suc [OF i] by simp
  have IH: "collect_loop m xs (int i + 1) (int (length xs) - 1) asc_cmp incr (cnt + 1) topk visit s' =
      (if topk > 0 then efold visit (take (nat (topk - (cnt + 1))) (drop (Suc i) xs)) s' else efold visit (drop (Suc i) xs) s')" for s'
    using Suc.IH [of "Suc i" "cnt + 1" s'] Suc.prems by (simp add: ac_simps)
  have c: "asc_cmp (int i) (int (length xs) - 1)" using i by (simp add: asc_cmp_def)
  show ?case
  proof (cases "topk > 0 \<and> \<not> cnt < topk")
    case True
    then show ?thesis by simp
  next
    case False
    have n: "nat (topk - cnt) = Suc (nat (topk - (cnt + 1)))" if "topk > 0" using False that by simp
    from False have "collect_loop (Suc m) xs (int i) (int (length xs) - 1) asc_cmp incr cnt topk visit s =
        ebind (visit (xs ! i) s) (\<lambda>s'. collect_loop m xs (int i + 1) (int (length xs) - 1) asc_cmp incr (cnt + 1) topk visit s')"
      using i c by (auto simp: incr_def)
    also have "\<dots> = (if topk > 0 then efold visit (take (nat (topk - cnt)) (drop i xs)) s else efold visit (drop i xs) s)"
      unfolding IH by (simp add: d n)
    finally show ?thesis .
  qed
qed

lemma collect_loop_desc:
  assumes "m \<le> length xs" and "0 \<le> cnt"
  shows "collect_loop m xs (int m - 1) 0 desc_cmp decr cnt topk visit s =
    (if topk > 0 then efold visit (take (nat (topk - cnt)) (rev (take m xs))) s else efold visit (rev (take m xs)) s)"
  using assms
proof (induction m arbitrary: cnt s)
  case 0
  then show ?case by (simp add: desc_cmp_def)
next
  case (Suc m)
  have m: "m < length xs" using Suc.prems(1) by simp
  have d: "rev (take (Suc m) xs) = xs ! m # rev (take m xs)" using m by (simp add: take_Suc_conv_app_nth)
  have IH: "collect_loop m xs (int m - 1) 0 desc_cmp decr (cnt + 1) topk visit s' =
      (if topk > 0 then efold visit (take (nat (topk - (cnt + 1))) (rev (take m xs))) s' else efold visit (rev (take m xs)) s')" for s'
    using Suc.IH [of "cnt + 1" s'] Suc.prems by simp
  show ?case
  proof (cases "topk > 0 \<and> \<not> cnt < topk")
    case True
    then show ?thesis by simp
  next
    case False
    have n: "nat (topk - cnt) = Suc (nat (topk - (cnt + 1)))" if "topk > 0" using False that by simp
    from False have "collect_loop (Suc m) xs (int (Suc m) - 1) 0 desc_cmp decr cnt topk visit s =
        ebind (visit (xs ! m) s) (\<lambda>s'. collect_loop m xs (int m - 1) 0 desc_cmp decr (cnt + 1) topk visit s')"
      using m by (auto simp: decr_def desc_cmp_def)
    also have "\<dots> = (if topk > 0 then efold visit (take (nat (topk - cnt)) (rev (take (Suc m) xs))) s
        else efold visit (rev (take (Suc m) xs)) s)"
      unfolding IH by (simp add: d n)
    finally show ?thesis .
  qed
qed

lemma collect_loop_all:
  "collect_loop (length xs) xs 0 (int (length xs) - 1) asc_cmp incr 0 topk visit s = efold visit (firsts topk xs) s"
  "collect_loop (length xs) xs (int (length xs) - 1) 0 desc_cmp decr 0 topk visit s = efold visit (firsts topk (rev xs)) s"
  using collect_loop_asc [of 0 "length xs" xs 0 topk visit s] collect_loop_desc [of "length xs" xs 0 topk visit s]
  by (simp_all add: firsts_def)

definition ordered_entries :: "sorting_direction \<Rightarrow> c_int \<Rightarrow> 'a list \<Rightarrow> 'a list" where
  "ordered_entries sd topk es = firsts (sint topk) (case sd of ASC \<Rightarrow> es | DESC \<Rightarrow> rev es)"

lemma collect_dir_entries:
  assumes "ls dir = Some entries"
  shows "collect_dir (Suc fuel) ls (Some dir) sel sd topk on_file on_dir pre_op post_op s =
    efold (\<lambda>entry s.
        ebind (call_opt pre_op s) (\<lambda>s1.
        ebind (if d_is_dir entry
               then ebind (case on_dir of None \<Rightarrow> Inr s1 | Some cb \<Rightarrow> cb entry dir s1)
                      (collect_dir fuel ls (Some (entry_path dir (d_name entry))) sel sd topk on_file on_dir pre_op post_op)
               else (case on_file of None \<Rightarrow> Inr s1 | Some cb \<Rightarrow> cb entry dir s1)) (\<lambda>s2. call_opt post_op s2)))
      (ordered_entries sd topk (filter sel entries)) s"
proof (cases sd)
  case ASC
  show ?thesis unfolding ASC by (simp add: assms Let_def ordered_entries_def collect_loop_all)
next
  case DESC
  show ?thesis unfolding DESC by (simp add: assms Let_def ordered_entries_def collect_loop_all)
qed

section \<open>The files it visits\<close>

text \<open>
  The files below a directory in the order of visit, \<open>None\<close> when the directories are deeper than \<open>fuel\<close>. \<open>topk\<close> cuts the
  entries of each directory.
\<close>

fun collect_some :: "('a \<Rightarrow> 'b list option) \<Rightarrow> 'a list \<Rightarrow> 'b list option" where
  "collect_some f [] = Some []"
| "collect_some f (x # xs) =
     (case (f x, collect_some f xs) of (Some ys, Some zs) \<Rightarrow> Some (ys @ zs) | _ \<Rightarrow> None)"

fun walk :: "nat \<Rightarrow> (cstring \<Rightarrow> dirent list option) \<Rightarrow> (dirent \<Rightarrow> bool) \<Rightarrow> sorting_direction \<Rightarrow> c_int \<Rightarrow> cstring \<Rightarrow> (cstring \<times> dirent) list option" where
  "walk 0 ls sel sd topk dir = None"
| "walk (Suc fuel) ls sel sd topk dir =
     (case ls dir of
        None \<Rightarrow> Some []
      | Some entries \<Rightarrow>
          collect_some (\<lambda>e. if d_is_dir e then walk fuel ls sel sd topk (entry_path dir (d_name e)) else Some [(dir, e)])
            (ordered_entries sd topk (filter sel entries)))"

lemma efold_collect_some:
  assumes "collect_some f xs = Some ys" and "\<And>x zs s. x \<in> set xs \<Longrightarrow> f x = Some zs \<Longrightarrow> g x s = efold h zs s"
  shows "efold g xs s = efold h ys s"
  using assms
proof (induction xs arbitrary: ys s)
  case (Cons x xs)
  then obtain us vs where "f x = Some us" "collect_some f xs = Some vs" "ys = us @ vs" by (auto split: option.splits)
  with Cons show ?case by (auto intro!: arg_cong2 [where f = ebind])
qed simp

lemma collect_dir_walk:
  assumes "walk fuel ls sel sd topk dir = Some fs" and "on_dir = None \<or> on_dir = Some (\<lambda>e d s. Inr s)"
  shows "collect_dir fuel ls (Some dir) sel sd topk (Some cb) on_dir None None s = efold (\<lambda>(d, e). cb e d) fs s"
  using assms(1)
proof (induction fuel arbitrary: dir fs s)
  case (Suc fuel)
  show ?case
  proof (cases "ls dir")
    case None
    with Suc.prems show ?thesis by simp
  next
    case (Some entries)
    let ?xs = "ordered_entries sd topk (filter sel entries)"
    let ?f = "\<lambda>e. if d_is_dir e then walk fuel ls sel sd topk (entry_path dir (d_name e)) else Some [(dir, e)]"
    have "efold (\<lambda>entry s. if d_is_dir entry
        then collect_dir fuel ls (Some (entry_path dir (d_name entry))) sel sd topk (Some cb) on_dir None None s
        else cb entry dir s) ?xs s = efold (\<lambda>(d, e). cb e d) fs s"
    proof (rule efold_collect_some)
      show "collect_some ?f ?xs = Some fs" using Suc.prems Some by simp
      fix e zs s assume "?f e = Some zs"
      then show "(if d_is_dir e then collect_dir fuel ls (Some (entry_path dir (d_name e))) sel sd topk (Some cb) on_dir None None s
          else cb e dir s) = efold (\<lambda>(d, e). cb e d) zs s"
        using Suc.IH by (auto simp del: efold.simps(2) split: if_splits)
    qed
    moreover have "(case on_dir of None \<Rightarrow> Inr s | Some cb \<Rightarrow> cb e d s) = Inr s" for e d and s :: 'a using assms(2) by auto
    ultimately show ?thesis unfolding collect_dir_entries [of ls, OF Some] by (simp cong: if_cong)
  qed
qed simp

section \<open>Directory trees\<close>

text \<open>
  A directory and all below it, as a tree of names: each entry is a name with the tree of the directory it stands for, \<open>None\<close> for a file.
\<close>

datatype dir_tree = Dir_Tree "(cstring \<times> dir_tree option) list"

lemma size_subdir: "(n, Some t) \<in> set es \<Longrightarrow> size t < size (Dir_Tree es)"
  by (induction es) auto

definition as_dirent :: "cstring \<times> dir_tree option \<Rightarrow> dirent" where
  "as_dirent e = \<lparr>d_name = fst e, d_is_dir = (snd e \<noteq> None)\<rparr>"

text \<open>
  \<open>ls\<close> lists the tree at the path \<open>dir\<close>: the entries that the filter lets through are those of the tree, at every depth, and no path of a directory below is longer than
  the 1022 bytes there is room for.
\<close>

function listed :: "(cstring \<Rightarrow> dirent list option) \<Rightarrow> (dirent \<Rightarrow> bool) \<Rightarrow> cstring \<Rightarrow> dir_tree \<Rightarrow> bool" where
  "listed ls sel dir (Dir_Tree es) \<longleftrightarrow>
     map_option (filter sel) (ls dir) = Some (map as_dirent es) \<and>
     (\<forall>e \<in> set es. case e of (n, None) \<Rightarrow> True | (n, Some t) \<Rightarrow> length (dir @ 47 # n) \<le> 1022 \<and> listed ls sel (dir @ 47 # n) t)"
  by pat_completeness auto
termination
  by (relation "measure (\<lambda>(ls, sel, dir, t). size t)") (auto intro: size_subdir simp del: dir_tree.size)

text \<open>How deep the tree is.\<close>

function tree_depth :: "dir_tree \<Rightarrow> nat" where
  "tree_depth (Dir_Tree es) = Suc (fold max (map (\<lambda>e. case e of (n, None) \<Rightarrow> 0 | (n, Some t) \<Rightarrow> tree_depth t) es) 0)"
  by pat_completeness auto
termination
  by (relation "measure size") (auto intro: size_subdir simp del: dir_tree.size)

lemma fold_max: "x \<in> set xs \<or> x \<le> a \<Longrightarrow> x \<le> fold max xs (a :: nat)"
  by (induction xs arbitrary: a) (auto simp: le_max_iff_disj)

lemma depth_subdir: "(n, Some t) \<in> set es \<Longrightarrow> tree_depth t < tree_depth (Dir_Tree es)"
  by (force intro!: le_imp_less_Suc fold_max disjI1)

text \<open>The files of a tree that stands at \<open>dir\<close>, each with the path of its directory, in the order of the traversal.\<close>

lemma set_ordered: "set (ordered_entries sd topk es) \<subseteq> set es"
  by (auto simp: ordered_entries_def firsts_def dest: in_set_takeD split: sorting_direction.splits if_splits)

function tree_files :: "sorting_direction \<Rightarrow> c_int \<Rightarrow> cstring \<Rightarrow> dir_tree \<Rightarrow> (cstring \<times> dirent) list" where
  "tree_files sd topk dir (Dir_Tree es) =
     concat (map (\<lambda>e. case e of (n, None) \<Rightarrow> [(dir, \<lparr>d_name = n, d_is_dir = False\<rparr>)] | (n, Some t) \<Rightarrow> tree_files sd topk (dir @ 47 # n) t)
       (ordered_entries sd topk es))"
  by pat_completeness auto
termination
  by (relation "measure (\<lambda>(sd, topk, dir, t). size t)") (auto intro!: size_subdir dest!: subsetD [OF set_ordered] simp del: dir_tree.size)

lemma tree_induct [case_names Dir_Tree]: "(\<And>es. (\<And>n t. (n, Some t) \<in> set es \<Longrightarrow> P t) \<Longrightarrow> P (Dir_Tree es)) \<Longrightarrow> P t"
  by (induction t rule: measure_induct_rule [of size]) (metis dir_tree.exhaust size_subdir)

lemma map_ordered: "ordered_entries sd topk (map f es) = map f (ordered_entries sd topk es)"
  by (auto simp: ordered_entries_def firsts_def take_map rev_map split: sorting_direction.splits)

lemma collect_some_map:
  "(\<And>x. x \<in> set xs \<Longrightarrow> f (g x) = Some (h x)) \<Longrightarrow> collect_some f (map g xs) = Some (concat (map h xs))"
  by (induction xs) auto

lemma walk_tree:
  "listed ls sel dir t \<Longrightarrow> tree_depth t \<le> fuel \<Longrightarrow> walk fuel ls sel sd topk dir = Some (tree_files sd topk dir t)"
proof (induction t arbitrary: dir fuel rule: tree_induct)
  case (Dir_Tree es)
  obtain entries where e: "ls dir = Some entries" "filter sel entries = map as_dirent es"
    using Dir_Tree.prems(1) by (cases "ls dir") auto
  obtain fuel' where f: "fuel = Suc fuel'" using Dir_Tree.prems(2) by (cases fuel) auto
  let ?h = "\<lambda>e. case e of (n, None) \<Rightarrow> [(dir, \<lparr>d_name = n, d_is_dir = False\<rparr>)] | (n, Some t) \<Rightarrow> tree_files sd topk (dir @ 47 # n) t"
  have "(if d_is_dir (as_dirent x) then walk fuel' ls sel sd topk (entry_path dir (d_name (as_dirent x))) else Some [(dir, as_dirent x)]) = Some (?h x)"
    if "x \<in> set (ordered_entries sd topk es)" for x
  proof -
    obtain n sub where x: "x = (n, sub)" by force
    then have mem: "(n, sub) \<in> set es" using subsetD [OF set_ordered that] by simp
    show ?thesis
    proof (cases sub)
      case (Some t)
      then have t: "(n, Some t) \<in> set es" using mem by simp
      then have l: "length (dir @ 47 # n) \<le> 1022" "listed ls sel (dir @ 47 # n) t" using Dir_Tree.prems(1) by fastforce+
      have "tree_depth t \<le> fuel'" using depth_subdir [OF t] Dir_Tree.prems(2) f by simp
      then have "walk fuel' ls sel sd topk (dir @ 47 # n) = Some (tree_files sd topk (dir @ 47 # n) t)" by (rule Dir_Tree.IH [OF t l(2)])
      moreover have "entry_path dir n = dir @ 47 # n" using l(1) by (simp add: entry_path_def str_def)
      ultimately show ?thesis using x Some by (simp add: as_dirent_def)
    qed (use x in \<open>simp add: as_dirent_def\<close>)
  qed
  then show ?case using e by (simp add: f map_ordered collect_some_map)
qed

text \<open>A file \<open>n\<close> in the directory that the names \<open>ds\<close> lead to.\<close>

primrec lies_in :: "dir_tree \<Rightarrow> cstring list \<Rightarrow> cstring \<Rightarrow> bool" where
  "lies_in t [] n = (case t of Dir_Tree es \<Rightarrow> (n, None) \<in> set es)"
| "lies_in t (d # ds) n = (case t of Dir_Tree es \<Rightarrow> \<exists>t'. (d, Some t') \<in> set es \<and> lies_in t' ds n)"

text \<open>The names of a directory are different, and none has a slash in it.\<close>

function proper_names :: "dir_tree \<Rightarrow> bool" where
  "proper_names (Dir_Tree es) \<longleftrightarrow> distinct (map fst es) \<and>
     (\<forall>e \<in> set es. case e of (n, None) \<Rightarrow> 47 \<notin> set n | (n, Some t) \<Rightarrow> 47 \<notin> set n \<and> proper_names t)"
  by pat_completeness auto
termination
  by (relation "measure size") (auto intro: size_subdir simp del: dir_tree.size)

definition path_in :: "cstring \<Rightarrow> cstring list \<Rightarrow> cstring" where
  "path_in dir ds = dir @ concat (map (\<lambda>d. 47 # d) ds)"

lemma path_in_simps [simp]: "path_in dir [] = dir" "path_in dir (d # ds) = path_in (dir @ 47 # d) ds"
  by (simp_all add: path_in_def)

lemma path_in_below: "\<exists>r. path_in dir ds = dir @ r \<and> (r = [] \<or> hd r = 47)"
  by (cases ds) (auto simp: path_in_def)

lemma tree_files_below: "x \<in> set (tree_files sd topk dir t) \<Longrightarrow> \<exists>ds n. lies_in t ds n \<and> x = (path_in dir ds, \<lparr>d_name = n, d_is_dir = False\<rparr>)"
proof (induction t arbitrary: dir rule: tree_induct)
  case (Dir_Tree es)
  then obtain n sub where e: "(n, sub) \<in> set (ordered_entries sd topk es)"
      "x \<in> set (case sub of None \<Rightarrow> [(dir, \<lparr>d_name = n, d_is_dir = False\<rparr>)] | Some t \<Rightarrow> tree_files sd topk (dir @ 47 # n) t)"
    by (auto split: option.splits)
  have mem: "(n, sub) \<in> set es" using subsetD [OF set_ordered e(1)] .
  show ?case
  proof (cases sub)
    case None
    then show ?thesis using e(2) mem by (intro exI [of _ "[]"] exI [of _ n]) simp
  next
    case (Some t)
    then obtain ds m where "lies_in t ds m" "x = (path_in (dir @ 47 # n) ds, \<lparr>d_name = m, d_is_dir = False\<rparr>)"
      using Dir_Tree.IH [of n t "dir @ 47 # n"] mem e(2) by auto
    then show ?thesis using mem Some by (intro exI [of _ "n # ds"] exI [of _ m]) auto
  qed
qed

lemma tree_files_all:
  "sint topk \<le> 0 \<Longrightarrow> lies_in t ds n \<Longrightarrow> (path_in dir ds, \<lparr>d_name = n, d_is_dir = False\<rparr>) \<in> set (tree_files sd topk dir t)"
proof (induction ds arbitrary: t dir)
  case Nil
  obtain es where "t = Dir_Tree es" by (cases t)
  then show ?case using Nil by (force simp: ordered_entries_def firsts_def split: sorting_direction.splits)
next
  case (Cons d ds)
  obtain es where es: "t = Dir_Tree es" by (cases t)
  then obtain t' where t': "(d, Some t') \<in> set es" "lies_in t' ds n" using Cons.prems(2) by auto
  have "(d, Some t') \<in> set (ordered_entries sd topk es)" using t'(1) Cons.prems(1) by (auto simp: ordered_entries_def firsts_def split: sorting_direction.splits)
  then show ?case using Cons.IH [OF Cons.prems(1) t'(2), of "dir @ 47 # d"] es by force
qed

lemma distinct_parts:
  "distinct (map fst xs) \<Longrightarrow> (\<And>x. x \<in> set xs \<Longrightarrow> distinct (f x)) \<Longrightarrow>
   (\<And>x y. x \<in> set xs \<Longrightarrow> y \<in> set xs \<Longrightarrow> fst x \<noteq> fst y \<Longrightarrow> set (f x) \<inter> set (f y) = {}) \<Longrightarrow> distinct (concat (map f xs))"
proof (induction xs)
  case (Cons x xs)
  have "set (f x) \<inter> set (f y) = {}" if "y \<in> set xs" for y
    using Cons.prems(3) [of x y] Cons.prems(1) that by (metis distinct.simps(2) list.set_intros list.simps(9) imageI set_map)
  then show ?case using Cons by auto
qed simp

lemma distinct_ordered: "distinct (map f es) \<Longrightarrow> distinct (map f (ordered_entries sd topk es))"
  by (auto simp: ordered_entries_def firsts_def take_map [symmetric] rev_map [symmetric] intro: distinct_take split: sorting_direction.splits)

lemma no_slash_prefix: "47 \<notin> set n \<Longrightarrow> r = [] \<or> hd r = (47 :: byte) \<Longrightarrow> takeWhile (\<lambda>b. b \<noteq> 47) (n @ r) = n"
  by (cases r) (auto simp: takeWhile_append)

lemma tree_files_distinct: "proper_names t \<Longrightarrow> distinct (tree_files sd topk dir t)"
proof (induction t arbitrary: dir rule: tree_induct)
  case (Dir_Tree es)
  let ?h = "\<lambda>e. case e of (n, None) \<Rightarrow> [(dir, \<lparr>d_name = n, d_is_dir = False\<rparr>)] | (n, Some t) \<Rightarrow> tree_files sd topk (dir @ 47 # n) t"
  have names: "47 \<notin> set n" if "(n, sub) \<in> set es" for n sub using Dir_Tree.prems that by (cases sub) force+
  have below: "fst x = dir \<and> sub = None \<and> d_name (snd x) = n \<or> (\<exists>r. fst x = dir @ 47 # n @ r \<and> (r = [] \<or> hd r = 47))"
    if "x \<in> set (?h (n, sub))" for x n sub
    using that path_in_below [of "dir @ 47 # n"] by (cases sub) (fastforce dest: tree_files_below)+
  define which where "which x = (if fst x = dir then d_name (snd x) else takeWhile (\<lambda>b. b \<noteq> 47) (drop (Suc (length dir)) (fst x)))" for x :: "cstring \<times> dirent"
  have which: "which x = n" if "x \<in> set (?h (n, sub))" "47 \<notin> set n" for x n sub
    using below [OF that(1)] no_slash_prefix [OF that(2)] that(2) by (auto simp: which_def)
  show ?case unfolding tree_files.simps
  proof (rule distinct_parts)
    show "distinct (map fst (ordered_entries sd topk es))" using Dir_Tree.prems by (simp add: distinct_ordered)
    fix e assume "e \<in> set (ordered_entries sd topk es)"
    then have e: "e \<in> set es" by (rule subsetD [OF set_ordered])
    obtain n sub where x: "e = (n, sub)" by force
    show "distinct (?h e)"
    proof (cases sub)
      case (Some t)
      then show ?thesis using Dir_Tree.IH [of n t] Dir_Tree.prems e x by force
    qed (simp add: x)
    fix e' assume o': "e' \<in> set (ordered_entries sd topk es)" and ne: "fst e \<noteq> fst e'"
    have e': "e' \<in> set es" using subsetD [OF set_ordered o'] .
    obtain n' sub' where x': "e' = (n', sub')" by force
    show "set (?h e) \<inter> set (?h e') = {}"
    proof (rule ccontr)
      assume "set (?h e) \<inter> set (?h e') \<noteq> {}"
      then obtain y where y: "y \<in> set (?h (n, sub))" "y \<in> set (?h (n', sub'))" unfolding x x' by blast
      have "47 \<notin> set n" "47 \<notin> set n'" using names e e' x x' by auto
      then have "n = n'" using which [OF y(1)] which [OF y(2)] by simp
      then show False using ne x x' by simp
    qed
  qed
qed

section \<open>Properties\<close>

text \<open>C26: The traversal of a directory whose content, as the file system lists it through the filter, is the tree \<open>t\<close>, with no path longer than
  1022 bytes: if it may recurse as deep as the tree is, it returns, and the handler has been called for the files of the tree, each with the path of its directory, in the order of the
  entries of each directory, those of a subdirectory in the place of its name; \<open>topk\<close>, if positive, bounds the entries of each directory and not the files in all. No file is visited twice, provided that
  names in a directory differ and have no slash; and if \<open>topk\<close> is not positive, every file of the tree is visited.\<close>

theorem collect_dir_visits:
  assumes "listed ls sel dir t" and "tree_depth t \<le> fuel" and "on_dir = None \<or> on_dir = Some (\<lambda>e d s. Inr s)" and "proper_names t"
  shows "collect_dir fuel ls (Some dir) sel sd topk (Some (\<lambda>e d s. Inr (s @ [(d, e)]))) on_dir None None [] = Inr (tree_files sd topk dir t) \<and>
    distinct (tree_files sd topk dir t) \<and>
    (sint topk \<le> 0 \<longrightarrow> set (tree_files sd topk dir t) = {(path_in dir ds, \<lparr>d_name = n, d_is_dir = False\<rparr>) | ds n. lies_in t ds n})"
proof (intro conjI impI)
  have "efold (\<lambda>(d, e) s. Inr (s @ [(d, e)])) xs s = Inr (s @ xs)" for xs :: "(cstring \<times> dirent) list" and s
    by (induction xs arbitrary: s) auto
  then show "collect_dir fuel ls (Some dir) sel sd topk (Some (\<lambda>e d s. Inr (s @ [(d, e)]))) on_dir None None [] = Inr (tree_files sd topk dir t)"
    using collect_dir_walk [OF walk_tree [OF assms(1,2)] assms(3), of sd topk "\<lambda>e d s. Inr (s @ [(d, e)])" "[]"] by simp
  show "distinct (tree_files sd topk dir t)" using assms(4) by (rule tree_files_distinct)
  show "set (tree_files sd topk dir t) = {(path_in dir ds, \<lparr>d_name = n, d_is_dir = False\<rparr>) | ds n. lies_in t ds n}" if "sint topk \<le> 0"
    using tree_files_below [of _ sd topk dir t] tree_files_all [OF that, of t _ _ dir sd] by blast
qed

text \<open>A directory \<^verbatim>\<open>d\<close> with two files and a directory \<^verbatim>\<open>s\<close> of one file.\<close>

definition sample_tree :: dir_tree where
  "sample_tree = Dir_Tree [(str ''a'', None), (str ''s'', Some (Dir_Tree [(str ''b'', None)])), (str ''z'', None)]"

definition sample_ls :: "cstring \<Rightarrow> dirent list option" where
  "sample_ls p = (if p = str ''d'' then Some [\<lparr>d_name = str ''a'', d_is_dir = False\<rparr>, \<lparr>d_name = str ''s'', d_is_dir = True\<rparr>, \<lparr>d_name = str ''z'', d_is_dir = False\<rparr>]
     else if p = str ''d/s'' then Some [\<lparr>d_name = str ''b'', d_is_dir = False\<rparr>] else None)"

theorem collect_dir_visits_witness:
  "collect_dir 2 sample_ls (Some (str ''d'')) (\<lambda>e. True) DESC 0 (Some (\<lambda>e d s. Inr (s @ [(d, e)]))) None None None [] =
    Inr [(str ''d'', \<lparr>d_name = str ''z'', d_is_dir = False\<rparr>), (str ''d/s'', \<lparr>d_name = str ''b'', d_is_dir = False\<rparr>),
      (str ''d'', \<lparr>d_name = str ''a'', d_is_dir = False\<rparr>)]"
proof -
  have "listed sample_ls (\<lambda>e. True) (str ''d'') sample_tree" "tree_depth sample_tree \<le> 2" "proper_names sample_tree"
    by (simp_all add: sample_tree_def sample_ls_def as_dirent_def str_def)
  moreover have "tree_files DESC 0 (str ''d'') sample_tree = [(str ''d'', \<lparr>d_name = str ''z'', d_is_dir = False\<rparr>),
      (str ''d/s'', \<lparr>d_name = str ''b'', d_is_dir = False\<rparr>), (str ''d'', \<lparr>d_name = str ''a'', d_is_dir = False\<rparr>)]"
    by (simp add: sample_tree_def ordered_entries_def firsts_def str_def)
  ultimately show ?thesis using collect_dir_visits [of sample_ls "\<lambda>e. True" "str ''d''" sample_tree 2 None DESC 0] by simp
qed

end
