(* ===== verification/Miqs_Indexing.thy ===== *)
theory Miqs_Indexing
  imports Meta_Extractor Mdb_Roundtrip Fs_Ops "HOL-Library.Signed_Division"
begin

text \<open>
  The indexing driver: src/src/miqs_indexing.c.

  The file system and the HDF5 library are parameters, fields of the record \<open>world\<close>: directory listings in
  the order of \<^verbatim>\<open>alphasort\<close>, the result of \<^verbatim>\<open>opendir\<close> and \<^verbatim>\<open>stat\<close>, the contents of files as they are after
  the barrier, and the bytes found in memory that was never set. The MPI barrier orders the processes and
  has no other effect; timers and messages are left out. \<open>mkpath\<close> only creates directories.
\<close>

section \<open>Configuration and environment\<close>

record indexing_config =
  cfg_parallelism :: c_int
  cfg_rank :: c_int
  cfg_size :: c_int
  current_file_count :: c_int
  topk :: c_int
  is_build_from_scratch :: c_int
  is_mdb_enabled :: c_int
  is_aof_enabled :: c_int
  dataset_path :: cstring
  index_dir_path :: cstring

record world =
  scan :: "cstring \<Rightarrow> dirent list option"
  opendir_ok :: "cstring \<Rightarrow> bool"
  regular :: "cstring \<Rightarrow> bool"
  writable :: "cstring \<Rightarrow> bool"
  hdf5 :: "cstring \<Rightarrow> h5_file option"
  files :: "cstring \<Rightarrow> byte list option"
  stale_bytes :: "nat \<Rightarrow> cstring"
  stale_ptrs :: "nat \<Rightarrow> size_t"

type_synonym run_state = "indexing_config \<times> index_anchor option"

text \<open>\<open>paralleled\<close> is the build flag \<^verbatim>\<open>MIQS_PARALLELED_INDEX\<close>. The struct is zeroed first.\<close>

definition init_indexing_config ::
  "bool \<Rightarrow> c_int \<Rightarrow> c_int \<Rightarrow> c_int \<Rightarrow> c_int \<Rightarrow> c_int \<Rightarrow> c_int \<Rightarrow> cstring \<Rightarrow> cstring \<Rightarrow> indexing_config" where
  "init_indexing_config paralleled p rank n_procs k enable_mdb enable_aof data_path index_path =
     \<lparr>cfg_parallelism = (if paralleled then p else 1), cfg_rank = rank, cfg_size = n_procs, current_file_count = 0, topk = k,
      is_build_from_scratch = 0, is_mdb_enabled = enable_mdb, is_aof_enabled = enable_aof,
      dataset_path = data_path, index_dir_path = index_path\<rparr>"

section \<open>Files of a data set\<close>

definition is_hdf5 :: "dirent \<Rightarrow> bool" where
  "is_hdf5 entry =
     (if d_name entry = str ''.'' \<or> d_name entry = str ''..'' then False
      else if d_is_dir entry then True
      else if endsWith (d_name entry) (str ''.hdf5'') \<or> endsWith (d_name entry) (str ''.h5'') then True
      else False)"

definition parse_single_hdf5_file :: "world \<Rightarrow> cstring \<Rightarrow> run_state \<Rightarrow> c_error + run_state" where
  "parse_single_hdf5_file W filepath st =
     (case st of (param, A) \<Rightarrow>
        let param1 = param\<lparr>current_file_count := current_file_count param + 1\<rparr> in
        if cfg_size param1 = 0 then Inl Div_By_Zero
        else if sint (current_file_count param1) smod sint (cfg_size param1) \<noteq> sint (cfg_rank param1) then Inr (param1, A)
        else ebind (parse_hdf5_file (stale_bytes W) (hdf5 W) filepath A) (\<lambda>A'. Inr (param1, A')))"

text \<open>The path is written into 512 bytes.\<close>

definition on_file :: "world \<Rightarrow> run_state on_entry" where
  "on_file W f_entry parent_path st =
     (let filepath = parent_path @ str ''/'' @ d_name f_entry in
      if 512 < length filepath + 1 then Inl Out_Of_Bounds else parse_single_hdf5_file W filepath st)"

definition on_dir :: "run_state on_entry" where
  "on_dir d_entry parent_path st = Inr st"

definition parse_files_in_dir :: "nat \<Rightarrow> world \<Rightarrow> cstring \<Rightarrow> c_int \<Rightarrow> run_state \<Rightarrow> c_error + (int \<times> run_state)" where
  "parse_files_in_dir fuel W path k st =
     ebind (collect_dir fuel (scan W) (Some path) is_hdf5 ASC k (Some (on_file W)) (Some on_dir) None None st) (\<lambda>st'. Inr (0, st'))"

section \<open>Index files\<close>

text \<open>A formatted name, written with its terminator into a buffer of \<open>cap\<close> bytes.\<close>

definition sprintf_into :: "nat \<Rightarrow> cstring \<Rightarrow> c_error + cstring" where
  "sprintf_into cap s = (if cap < length s + 1 then Inl Out_Of_Bounds else Inr s)"

definition index_file_name :: "c_int \<Rightarrow> cstring \<Rightarrow> c_error + cstring" where
  "index_file_name rank sfx =
     sprintf_into (length (str ''index_miqs_%d.%s'') + 16) (str ''index_miqs_'' @ dec_int (sint rank) @ str ''.'' @ sfx)"

definition resolve_file_name :: "cstring \<Rightarrow> cstring \<Rightarrow> c_int \<Rightarrow> c_error + cstring" where
  "resolve_file_name dir sfx rank =
     (let cap = length dir + length (str ''index_miqs_%d.%s'') + 20;
          full = (if endsWith dir (str ''/'') then dir else dir @ str ''/'')
      in ebind (sprintf_into cap full) (\<lambda>full.
         ebind (index_file_name rank sfx) (\<lambda>file_name. sprintf_into cap (full @ file_name))))"

definition on_mdb :: "world \<Rightarrow> run_state on_entry" where
  "on_mdb W f_entry parent_path st =
     (case st of (param, A) \<Rightarrow>
        ebind (sprintf_into (length parent_path + 11) (parent_path @ str ''/'' @ d_name f_entry)) (\<lambda>filepath.
        let load = ebind (load_mdb (stale_ptrs W) (files W filepath) A) (\<lambda>(rc, A'). Inr (param, A')) in
        if is_build_from_scratch param \<noteq> 0
        then ebind (index_file_name (cfg_rank param) (str ''mdb'')) (\<lambda>own. if endsWith filepath own then Inr (param, A) else load)
        else load))"

definition on_aof :: "world \<Rightarrow> run_state on_entry" where
  "on_aof W f_entry parent_path st =
     (case st of (param, A) \<Rightarrow>
        ebind (sprintf_into (length parent_path + 11) (parent_path @ str ''/'' @ d_name f_entry)) (\<lambda>filepath.
        let load = (case (A, files W filepath) of
              (Some A1, f) \<Rightarrow> ebind (load_aof (stale_bytes W) f A1) (\<lambda>(rc, A'). Inr (param, Some A'))
            | (None, None) \<Rightarrow> Inr (param, None)
            | (None, Some bs) \<Rightarrow> if bs = [] then Inr (param, None) else Inl Null_Deref) in
        if is_build_from_scratch param \<noteq> 0
        then ebind (index_file_name (cfg_rank param) (str ''aof'')) (\<lambda>own. if endsWith filepath own then Inr (param, A) else load)
        else load))"

definition load_mdb_files :: "nat \<Rightarrow> world \<Rightarrow> cstring \<Rightarrow> run_state \<Rightarrow> c_error + (int \<times> run_state)" where
  "load_mdb_files fuel W dir st =
     (if opendir_ok W dir
      then ebind (collect_dir fuel (scan W) (Some dir) is_mdb ASC 0 (Some (on_mdb W)) None None None st) (\<lambda>st'. Inr (1, st'))
      else Inr (0, st))"

definition load_aof_files :: "nat \<Rightarrow> world \<Rightarrow> cstring \<Rightarrow> run_state \<Rightarrow> c_error + (int \<times> run_state)" where
  "load_aof_files fuel W dir st =
     (if opendir_ok W dir
      then ebind (collect_dir fuel (scan W) (Some dir) is_aof ASC 0 (Some (on_aof W)) None None None st) (\<lambda>st'. Inr (1, st'))
      else Inr (0, st))"

section \<open>Building and recovering the index\<close>

text \<open>
  \<^verbatim>\<open>strncpy(dest, src, strlen(dest))\<close> into a buffer of \<open>len\<close> zeroed bytes.
\<close>

definition copy_path :: "nat \<Rightarrow> cstring \<Rightarrow> cstring" where
  "copy_path len src =
     (let dest = replicate len 0; n = length (cstr dest) in cstr (take n (src @ replicate n 0) @ drop n dest))"

definition not_int :: "int \<Rightarrow> int" where
  "not_int r = (if r = 0 then 1 else 0)"

text \<open>Steps 1 to 4: a new index, the file names and the append-only file.\<close>

definition open_index :: "world \<Rightarrow> indexing_config \<Rightarrow> c_error + (index_anchor \<times> cstring \<times> cstring \<times> cstring \<times> cstring)" where
  "open_index W param =
     (let idx_anchor = init_in_mem_index (cfg_parallelism param);
          idp_len = length (index_dir_path param) + 1;
          dp_len = length (dataset_path param) + 1;
          index_dir = copy_path idp_len (index_dir_path param);
          data_path = copy_path dp_len (dataset_path param)
      in ebind (resolve_file_name index_dir (str ''mdb'') (cfg_rank param)) (\<lambda>mdb_file_name.
         ebind (resolve_file_name index_dir (str ''aof'') (cfg_rank param)) (\<lambda>aof_file_name.
           Inr (if is_aof_enabled param = 1
                then idx_anchor\<lparr>on_disk_file_stream := (if writable W aof_file_name then Some fopen_w else None),
                                is_readonly_index_file := 0\<rparr>
                else idx_anchor, index_dir, data_path, mdb_file_name, aof_file_name))))"

text \<open>Steps 6 and 7: the files this process writes.\<close>

definition close_index :: "world \<Rightarrow> indexing_config \<Rightarrow> cstring \<Rightarrow> cstring \<Rightarrow> index_anchor \<Rightarrow> c_error + (cstring \<times> byte list) list" where
  "close_index W param mdb_file_name aof_file_name idx_anchor =
     ebind (if is_aof_enabled param = 1
            then ebind (deref (on_disk_file_stream idx_anchor)) (\<lambda>s. Inr [(aof_file_name, fcontents s)])
            else Inr []) (\<lambda>aof.
     ebind (if is_mdb_enabled param = 1
            then if writable W mdb_file_name
                 then ebind (dump_mdb_index_to_disk idx_anchor) (\<lambda>(_, bs). Inr [(mdb_file_name, bs)])
                 else Inl Null_Deref
            else Inr []) (\<lambda>mdb. Inr (mdb @ aof)))"

text \<open>Step 8: the index files of the other processes.\<close>

definition load_others :: "nat \<Rightarrow> world \<Rightarrow> cstring \<Rightarrow> int \<Rightarrow> run_state \<Rightarrow> c_error + (int \<times> run_state)" where
  "load_others fuel W dir rst st =
     ebind (if is_mdb_enabled (fst st) = 1
            then ebind (load_mdb_files fuel W dir st) (\<lambda>(r, st'). Inr (rst OR not_int r, st'))
            else Inr (rst, st)) (\<lambda>(rst1, st1).
       if is_aof_enabled (fst st1) = 1
       then ebind (load_aof_files fuel W dir st1) (\<lambda>(r, st'). Inr (rst1 OR not_int r, st'))
       else Inr (rst1, st1))"

definition indexing_data_collection :: "nat \<Rightarrow> world \<Rightarrow> indexing_config \<Rightarrow> c_error + (int \<times> run_state \<times> world)" where
  "indexing_data_collection fuel W param0 =
     (let param = param0\<lparr>is_build_from_scratch := 1\<rparr> in
      ebind (open_index W param) (\<lambda>(idx_anchor, index_dir, data_path, mdb_file_name, aof_file_name).
      let st = (param\<lparr>current_file_count := 0\<rparr>, Some idx_anchor) in
      ebind (if regular W data_path
             then ebind (parse_single_hdf5_file W data_path st) (\<lambda>st'. Inr (0, st'))
             else parse_files_in_dir fuel W data_path (topk param) st) (\<lambda>(rst, param1, A1).
      ebind (deref A1) (\<lambda>idx_anchor1.
      ebind (close_index W param1 mdb_file_name aof_file_name idx_anchor1) (\<lambda>written.
      let W1 = W\<lparr>files := files W ++ map_of written\<rparr> in
      ebind (load_others fuel W1 index_dir rst (param1\<lparr>is_build_from_scratch := 1\<rparr>, Some idx_anchor1)) (\<lambda>(rst', st').
        Inr (rst', st', W1)))))))"

definition recovering_index :: "nat \<Rightarrow> world \<Rightarrow> run_state \<Rightarrow> c_error + (int \<times> run_state)" where
  "recovering_index fuel W st =
     (case st of (param0, A) \<Rightarrow>
        let index_dir = copy_path (length (index_dir_path param0) + 1) (index_dir_path param0);
            param = param0\<lparr>is_build_from_scratch := 0\<rparr> in
        ebind (if is_mdb_enabled param = 1
               then ebind (load_mdb_files fuel W index_dir (param, A)) (\<lambda>(r, st'). Inr (not_int r, st'))
               else Inr (0, param, A)) (\<lambda>(rst1, st1).
        ebind (if is_aof_enabled (fst st1) = 1
               then ebind (load_aof_files fuel W index_dir st1) (\<lambda>(r, st'). Inr (not_int r, st'))
               else Inr (rst1, st1)) (\<lambda>(rst2, st2).
          if rst2 = 0 then ebind (deref (snd st2)) (\<lambda>_. Inr (rst2, st2)) else Inr (rst2, st2))))"

section \<open>Which process parses which file\<close>

text \<open>The files at the positions, counted from \<open>i\<close>, that belong to rank \<open>r\<close> of \<open>n\<close>.\<close>

definition own_files :: "nat \<Rightarrow> nat \<Rightarrow> nat \<Rightarrow> 'a list \<Rightarrow> 'a list" where
  "own_files n r i fs = map snd (filter (\<lambda>(j, f). j mod n = r) (enumerate i fs))"

lemma own_files_simps [simp]:
  "own_files n r i [] = []"
  "own_files n r i (f # fs) = (if i mod n = r then [f] else []) @ own_files n r (Suc i) fs"
  by (simp_all add: own_files_def)

lemma own_files_partition:
  assumes "0 < n"
  shows "(\<Sum>r<n. mset (own_files n r i fs)) = mset fs"
proof (induction fs arbitrary: i)
  case (Cons f fs)
  have m: "mset (own_files n r i (f # fs)) = (if i mod n = r then {#f#} else {#}) + mset (own_files n r (Suc i) fs)" for r by simp
  have "(\<Sum>r<n. if i mod n = r then {#f#} else {#}) = {#f#}" using assms by (simp add: sum.delta)
  then show ?case unfolding m by (simp add: sum.distrib Cons.IH)
qed simp

lemma int_smod_nat: "(int a) smod (int b) = int (a mod b)"
  by (cases "a = 0") (simp_all add: smod_int_alt_def zmod_int)

lemma parse_single_step:
  assumes "current_file_count param = of_nat i" and "cfg_size param = of_nat n" and "cfg_rank param = of_nat r"
    and "0 < n" and "r < n" and "n < 2 ^ 31" and "Suc i < 2 ^ 31"
  shows "parse_single_hdf5_file W f (param, A) =
    (if Suc i mod n = r
     then ebind (parse_hdf5_file (stale_bytes W) (hdf5 W) f A) (\<lambda>A'. Inr (param\<lparr>current_file_count := of_nat (Suc i)\<rparr>, A'))
     else Inr (param\<lparr>current_file_count := of_nat (Suc i)\<rparr>, A))"
proof -
  have s: "sint (of_nat (Suc i) :: c_int) = int (Suc i)" "sint (of_nat n :: c_int) = int n" "sint (of_nat r :: c_int) = int r"
    using assms by (simp_all add: sint_of_nat_small del: of_nat_Suc)
  then have "(of_nat n :: c_int) \<noteq> 0" using assms(4) by auto
  moreover have c: "current_file_count param + 1 = of_nat (Suc i)" using assms(1) by simp
  ultimately show ?thesis
    unfolding parse_single_hdf5_file_def Let_def using assms(2,3)
    by (simp add: c s int_smod_nat del: of_nat_Suc)
qed

lemma parse_all:
  assumes "current_file_count param = of_nat i" and "cfg_size param = of_nat n" and "cfg_rank param = of_nat r"
    and "0 < n" and "r < n" and "n < 2 ^ 31" and "i + length fs < 2 ^ 31"
  shows "efold (parse_single_hdf5_file W) fs (param, A) =
    ebind (efold (parse_hdf5_file (stale_bytes W) (hdf5 W)) (own_files n r (Suc i) fs) A)
      (\<lambda>A'. Inr (param\<lparr>current_file_count := of_nat (i + length fs)\<rparr>, A'))"
  using assms
proof (induction fs arbitrary: i param A)
  case Nil
  then show ?case by simp
next
  case (Cons f fs)
  let ?p = "param\<lparr>current_file_count := of_nat (Suc i)\<rparr>"
  have step: "parse_single_hdf5_file W f (param, A) =
      (if Suc i mod n = r then ebind (parse_hdf5_file (stale_bytes W) (hdf5 W) f A) (\<lambda>A'. Inr (?p, A')) else Inr (?p, A))"
    using Cons.prems by (intro parse_single_step) simp_all
  have "efold (parse_single_hdf5_file W) fs (?p, B) =
      ebind (efold (parse_hdf5_file (stale_bytes W) (hdf5 W)) (own_files n r (Suc (Suc i)) fs) B)
        (\<lambda>A'. Inr (param\<lparr>current_file_count := of_nat (i + length (f # fs))\<rparr>, A'))" for B
    using Cons.IH [of ?p "Suc i" B] Cons.prems by (simp add: ac_simps)
  then show ?case by (simp add: step)
qed

section \<open>Names and paths\<close>

lemma copy_path_empty: "copy_path len src = []"
  by (simp add: copy_path_def cstr_def)

lemma length_dec_nat:
  assumes "n < 10 ^ Suc d"
  shows "length (dec_nat n) \<le> Suc d"
  using assms
proof (induction d arbitrary: n)
  case 0
  then show ?case by (simp add: dec_nat.simps)
next
  case (Suc d)
  have "n div 10 < 10 ^ Suc d" using Suc.prems by (simp add: div_less_iff_less_mult)
  from Suc.IH [OF this] show ?case by (subst dec_nat.simps) simp
qed

lemma length_dec_int: "length (dec_int (sint (w :: c_int))) \<le> 11"
proof -
  have b: "- (2 ^ 31) \<le> sint w" "sint w < 2 ^ 31" using sint_ge [of w] sint_lt [of w] by simp_all
  have "nat (sint w) < 10 ^ Suc 9" "nat (- sint w) < 10 ^ Suc 9" using b by simp_all
  from this [THEN length_dec_nat] show ?thesis by (auto simp: dec_int_def str_def)
qed

lemma index_file_name_fits:
  assumes "length sfx \<le> 3"
  shows "index_file_name rank sfx = Inr (str ''index_miqs_'' @ dec_int (sint rank) @ str ''.'' @ sfx)"
  using assms length_dec_int [of rank] by (simp add: index_file_name_def sprintf_into_def str_def)

section \<open>Empty paths\<close>

lemma dump_init: "0 < sint p \<Longrightarrow> \<exists>bs. dump_mdb_index_to_disk (init_in_mem_index p) = Inr (1, bs)"
  using dump_enc [of "init_in_mem_index p"] init_inv [of p]
  by (simp add: dumpable_def init_in_mem_index_def Let_def art_tree_init_def tree_entries_def)

text \<open>What the system calls do with the empty path.\<close>

definition no_empty_path :: "world \<Rightarrow> bool" where
  "no_empty_path W \<longleftrightarrow> scan W [] = None \<and> \<not> regular W [] \<and> \<not> opendir_ok W []"

lemma open_index_empty:
  "open_index W param = Inr
     (if is_aof_enabled param = 1
      then (init_in_mem_index (cfg_parallelism param))\<lparr>on_disk_file_stream :=
          (if writable W (str ''/index_miqs_'' @ dec_int (sint (cfg_rank param)) @ str ''.aof'') then Some fopen_w else None),
          is_readonly_index_file := 0\<rparr>
      else init_in_mem_index (cfg_parallelism param), [], [],
      str ''/index_miqs_'' @ dec_int (sint (cfg_rank param)) @ str ''.mdb'',
      str ''/index_miqs_'' @ dec_int (sint (cfg_rank param)) @ str ''.aof'')"
proof -
  have "resolve_file_name [] (str ''mdb'') r = Inr (str ''/index_miqs_'' @ dec_int (sint r) @ str ''.mdb'')"
    "resolve_file_name [] (str ''aof'') r = Inr (str ''/index_miqs_'' @ dec_int (sint r) @ str ''.aof'')" for r
    using length_dec_int [of r]
    by (simp_all add: resolve_file_name_def index_file_name_fits sprintf_into_def str_def endsWith_def)
  then show ?thesis by (simp add: open_index_def Let_def copy_path_empty)
qed

text \<open>A file system where nothing exists.\<close>

definition empty_world :: world where
  "empty_world = \<lparr>scan = \<lambda>_. None, opendir_ok = \<lambda>_. False, regular = \<lambda>_. False, writable = \<lambda>_. True,
     hdf5 = \<lambda>_. None, files = \<lambda>_. None, stale_bytes = \<lambda>_. [], stale_ptrs = \<lambda>_. 0\<rparr>"

section \<open>Properties\<close>

text \<open>C25: in whatever order the files of a data set are visited, rank \<open>r\<close> of \<open>n\<close> parses exactly the files at the
  positions that belong to it, in order, and the ranks together parse every file exactly once.\<close>

theorem each_file_one_rank:
  assumes "current_file_count param = 0" and "cfg_size param = of_nat n" and "cfg_rank param = of_nat r"
    and "0 < n" and "r < n" and "n < 2 ^ 31" and "length fs < 2 ^ 31"
  shows "efold (parse_single_hdf5_file W) fs (param, A) =
      ebind (efold (parse_hdf5_file (stale_bytes W) (hdf5 W)) (own_files n r 1 fs) A)
        (\<lambda>A'. Inr (param\<lparr>current_file_count := of_nat (length fs)\<rparr>, A')) \<and>
    (\<Sum>q<n. mset (own_files n q 1 fs)) = mset fs"
  using parse_all [of param 0 n r fs W A] own_files_partition [of n 1 fs] assms by simp

theorem each_file_one_rank_witness:
  "efold (parse_single_hdf5_file empty_world)
      [str ''a'', str ''b'', str ''c''] (init_indexing_config False 1 1 2 0 0 0 [] [], Some (init_in_mem_index 1)) =
    Inr (init_indexing_config False 1 1 2 0 0 0 [] []\<lparr>current_file_count := 3\<rparr>,
      Some ((init_in_mem_index 1)\<lparr>file_path := Some (str ''c''), total_num_files := 2\<rparr>))"
proof -
  let ?p = "init_indexing_config False 1 1 2 0 0 0 [] []"
  have p: "current_file_count ?p = 0" "cfg_size ?p = of_nat 2" "cfg_rank ?p = of_nat 1"
    by (simp_all add: init_indexing_config_def)
  show ?thesis
    using each_file_one_rank [OF p, of "[str ''a'', str ''b'', str ''c'']"]
    by (simp add: empty_world_def parse_hdf5_file_def scan_hdf5_def init_metadata_collector_def init_in_mem_index_def Let_def)
qed

text \<open>The names of the index files always fit their buffers.\<close>

theorem resolve_file_name_fits:
  assumes "length sfx \<le> 3"
  shows "resolve_file_name dir sfx rank =
    Inr ((if endsWith dir (str ''/'') then dir else dir @ str ''/'') @ str ''index_miqs_'' @ dec_int (sint rank) @ str ''.'' @ sfx)"
  using assms length_dec_int [of rank]
  by (simp add: resolve_file_name_def index_file_name_fits sprintf_into_def str_def)

theorem resolve_file_name_fits_witness:
  "resolve_file_name (str ''idx'') (str ''mdb'') 12 = Inr (str ''idx/index_miqs_12.mdb'')"
  using resolve_file_name_fits [of "str ''mdb''" "str ''idx''" 12]
  by (simp add: str_def endsWith_def dec_int_def dec_nat.simps)

text \<open>C39: loading an index file under the name the program gives it overflows the buffer for its path: the room is for nine
  characters.\<close>

theorem index_file_load_overflows:
  assumes "index_file_name r (str ''mdb'') = Inr (d_name e) \<or> index_file_name r (str ''aof'') = Inr (d_name e)"
  shows "on_mdb W e dir st = Inl Out_Of_Bounds \<and> on_aof W e dir st = Inl Out_Of_Bounds"
proof -
  have "index_file_name r (str ''mdb'') = Inr (str ''index_miqs_'' @ dec_int (sint r) @ str ''.mdb'')"
    "index_file_name r (str ''aof'') = Inr (str ''index_miqs_'' @ dec_int (sint r) @ str ''.aof'')"
    using index_file_name_fits [of "str ''mdb''" r] index_file_name_fits [of "str ''aof''" r] by (simp_all add: str_def)
  with assms obtain x where "d_name e = str ''index_miqs_'' @ x" by (metis Inr_inject)
  then have "10 \<le> length (d_name e)" by (simp add: str_def)
  then show ?thesis by (cases st) (simp add: on_mdb_def on_aof_def sprintf_into_def str_def)
qed

theorem index_file_load_overflows_witness:
  "on_mdb empty_world \<lparr>d_name = str ''index_miqs_0.mdb'', d_is_dir = False\<rparr> (str ''idx'') (init_indexing_config False 1 0 1 0 1 0 [] [], None) =
    Inl Out_Of_Bounds"
proof -
  have "index_file_name 0 (str ''mdb'') = Inr (d_name \<lparr>d_name = str ''index_miqs_0.mdb'', d_is_dir = False\<rparr>)"
    using index_file_name_fits [of "str ''mdb''" 0] by (simp add: str_def dec_int_def dec_nat.simps)
  then show ?thesis using index_file_load_overflows by blast
qed

text \<open>The paths of the configuration are copied with the length of the empty destination, so they are empty: whatever
  data set it is given, indexing without the append-only file scans nothing and ends with an empty index, and with the mdb file
  enabled it reports failure.\<close>

theorem indexing_ignores_dataset:
  assumes "no_empty_path W" and "is_aof_enabled param \<noteq> 1" and "0 < sint (cfg_parallelism param)"
    and "is_mdb_enabled param = 1 \<longrightarrow> writable W (str ''/index_miqs_'' @ dec_int (sint (cfg_rank param)) @ str ''.mdb'')"
  shows "\<exists>param' W'. indexing_data_collection (Suc fuel) W param =
    Inr (if is_mdb_enabled param = 1 then 1 else 0, (param', Some (init_in_mem_index (cfg_parallelism param))), W')"
proof -
  obtain bs where bs: "dump_mdb_index_to_disk (init_in_mem_index (cfg_parallelism param)) = Inr (1, bs)"
    using dump_init [OF assms(3)] by blast
  show ?thesis
    using assms bs
    by (simp add: indexing_data_collection_def Let_def open_index_empty parse_files_in_dir_def no_empty_path_def
        close_index_def load_others_def load_mdb_files_def not_int_def)
qed

theorem indexing_ignores_dataset_witness:
  "\<exists>param' W'. indexing_data_collection 5 empty_world (init_indexing_config False 4 0 1 0 1 0 (str ''data'') (str ''idx'')) =
    Inr (1, (param', Some (init_in_mem_index 1)), W')"
  using indexing_ignores_dataset [of empty_world "init_indexing_config False 4 0 1 0 1 0 (str ''data'') (str ''idx'')" 4]
  by (simp add: no_empty_path_def empty_world_def init_indexing_config_def)

text \<open>C38: for the same reason recovering an index never reads an index file: with the mdb or the append-only file enabled it
  reports failure and leaves the index as it was.\<close>

theorem recovering_always_fails:
  assumes "no_empty_path W" and "is_mdb_enabled param = 1 \<or> is_aof_enabled param = 1"
  shows "recovering_index fuel W (param, A) = Inr (1, param\<lparr>is_build_from_scratch := 0\<rparr>, A)"
  using assms
  by (auto simp: recovering_index_def Let_def copy_path_empty load_mdb_files_def load_aof_files_def no_empty_path_def not_int_def)

theorem recovering_always_fails_witness:
  "recovering_index 5 empty_world (init_indexing_config False 4 0 1 0 1 0 (str ''data'') (str ''idx''), None) =
    Inr (1, init_indexing_config False 4 0 1 0 1 0 (str ''data'') (str ''idx''), None)"
  using recovering_always_fails [of empty_world "init_indexing_config False 4 0 1 0 1 0 (str ''data'') (str ''idx'')" 5 None]
  by (simp add: no_empty_path_def empty_world_def init_indexing_config_def)

end
