(* ===== verification/Art_Delete.thy ===== *)
theory Art_Delete
  imports Art_Map
begin

text \<open>
  Deletion from the radix tree of src/src/index/art/art.c. Removing a child keeps a node
  well-formed through the conversions to smaller kinds, and a NODE4 that would keep one child is
  replaced by it with the two paths joined. On the map of the tree a deletion takes out one key;
  it ends with an error exactly where a search for the key does.
\<close>

section \<open>Removing a child\<close>

definition child_removed :: "'v art_node \<Rightarrow> byte \<Rightarrow> 'v art_node \<Rightarrow> bool" where
  "child_removed n c n' \<longleftrightarrow> node_wf n' \<and> find_child n' = (find_child n)(c := None) \<and> same_prefix n n'"

lemma map_of_remove_pair: "distinct (map fst ks) \<Longrightarrow> map_of (remove_pair c ks) = (map_of ks)(c := None)"
  by (induction c ks rule: remove_pair.induct) (auto simp: fun_eq_iff map_of_eq_None_iff)

lemma set_remove_pair: "set (remove_pair c ks) \<subseteq> set ks"
  by (induction c ks rule: remove_pair.induct) auto

lemma distinct_remove_pair: "distinct (map fst ks) \<Longrightarrow> distinct (map fst (remove_pair c ks))"
proof (induction c ks rule: remove_pair.induct)
  case (2 c k x ks)
  then show ?case using set_remove_pair [of c ks] by auto
qed simp

lemma length_remove_pair: "c \<in> fst ` set ks \<Longrightarrow> length (remove_pair c ks) = length ks - 1"
proof (induction c ks rule: remove_pair.induct)
  case (2 c k x ks)
  then show ?case by (cases ks) auto
qed simp

lemma unat_dec: "0 < unat (x :: byte) \<Longrightarrow> unat (x - 1) = unat x - 1"
  using unat_sub [of 1 x] by (simp add: word_le_nat_alt)

lemma small_remove:
  assumes len: "length ks = unat (num_children h)" and d: "distinct (map fst ks)"
    and c: "map_of ks c \<noteq> None"
  shows "length (remove_pair c ks) = unat (num_children h - 1)" and "0 < length ks"
    and "length (remove_pair c ks) = length ks - 1"
proof -
  have mem: "c \<in> fst ` set ks" using c by (metis map_of_eq_None_iff)
  show "0 < length ks" using mem by (cases ks) auto
  with len show "length (remove_pair c ks) = unat (num_children h - 1)"
    by (simp add: length_remove_pair [OF mem] unat_dec)
  show "length (remove_pair c ks) = length ks - 1" by (rule length_remove_pair [OF mem])
qed

lemma remove_child16_law:
  assumes wf: "node_wf (Node16 h ks)" and some: "find_child (Node16 h ks) c \<noteq> None"
  shows "child_removed (Node16 h ks) c (remove_child16 (Node16 h ks) c)"
proof -
  have len: "length ks = unat (num_children h)" "4 \<le> length ks" "length ks \<le> 16"
    and d: "distinct (map fst ks)" and part: "length (partial h) = MAX_PREFIX_LEN"
    using wf by auto
  have c: "map_of ks c \<noteq> None" using some len by (simp add: small_find_child del: find_child.simps)
  note rem = small_remove [OF len(1) d c] and dist = distinct_remove_pair [OF d, of c]
  have three: "num_children h - 1 = 3 \<longleftrightarrow> length ks = 4"
    using rem len by (auto simp: word_unat_eq_iff)
  show ?thesis
    using len rem dist part three
    by (auto simp: d child_removed_def remove_child16_def Let_def same_prefix_def length_copy_partial
        small_find_child map_of_remove_pair simp del: find_child.simps)
qed

lemma remove_child4_law:
  assumes wf: "node_wf (Node4 h ks)" and some: "find_child (Node4 h ks) c \<noteq> None"
    and more: "length ks \<noteq> 2"
  shows "child_removed (Node4 h ks) c (remove_child4 (Node4 h ks) c)"
proof -
  have len: "length ks = unat (num_children h)" "length ks \<le> 4"
    and d: "distinct (map fst ks)" and part: "length (partial h) = MAX_PREFIX_LEN"
    using wf by auto
  have c: "map_of ks c \<noteq> None" using some len by (simp add: small_find_child del: find_child.simps)
  note rem = small_remove [OF len(1) d c] and dist = distinct_remove_pair [OF d, of c]
  have one: "num_children h - 1 \<noteq> 1"
    using rem len more by (auto simp: word_unat_eq_iff)
  show ?thesis
    using len rem dist part one
    by (auto simp: d child_removed_def remove_child4_def Let_def same_prefix_def
        small_find_child map_of_remove_pair simp del: find_child.simps)
qed

text \<open>The number of children, kind by kind.\<close>

lemma card_bytes: "card {c :: byte. P (unat c)} = card {i. i < 256 \<and> P i}"
proof (rule bij_betw_same_card [of unat])
  have "unat ` {c :: byte. P (unat c)} = {i. i < 256 \<and> P i}"
  proof (intro equalityI subsetI)
    fix i assume "i \<in> {i. i < 256 \<and> P i}"
    then show "i \<in> unat ` {c :: byte. P (unat c)}" by (intro image_eqI [of _ _ "of_nat i"]) simp_all
  qed auto
  then show "bij_betw unat {c :: byte. P (unat c)} {i. i < 256 \<and> P i}"
    by (simp add: bij_betw_def inj_on_def word_unat_eq_iff)
qed

lemma dom_slots:
  assumes "node_wf (Node48 h ks cs)"
  shows "dom (find_child (Node48 h ks cs)) = {c. ks ! unat c \<noteq> 0}"
proof (intro equalityI subsetI)
  fix c :: byte assume c: "c \<in> {c. ks ! unat c \<noteq> 0}"
  then have "ks ! unat c \<le> 48" "cs ! (ks ! unat c - 1) \<noteq> None" "ks ! unat c \<noteq> 0" "length cs = 48"
    using assms unat_byte_bound [of c] unfolding node_wf.simps by blast+
  then have "slot cs (ks ! unat c - 1) \<noteq> None" by (subst slot_nth) linarith+
  with c show "c \<in> dom (find_child (Node48 h ks cs))" by (simp add: Let_def dom_def)
qed (auto simp: dom_def Let_def split: if_splits)

lemma card_children:
  "node_wf (Node4 h ks) \<Longrightarrow> card (dom (find_child (Node4 h ks))) = length ks"
  "node_wf (Node16 h ks) \<Longrightarrow> card (dom (find_child (Node16 h ks))) = length ks"
  "node_wf (Node48 h ix cs) \<Longrightarrow> card (dom (find_child (Node48 h ix cs))) = unat (num_children h)"
  "node_wf (Node256 h cs) \<Longrightarrow> card (dom (find_child (Node256 h cs))) = card {i. i < 256 \<and> cs ! i \<noteq> None}"
proof -
  have small: "card (dom (map_of ks)) = length ks" if "distinct (map fst ks)"
    using distinct_card [OF that] by (simp add: dom_map_of_conv_image_fst)
  show "node_wf (Node4 h ks) \<Longrightarrow> card (dom (find_child (Node4 h ks))) = length ks"
    "node_wf (Node16 h ks) \<Longrightarrow> card (dom (find_child (Node16 h ks))) = length ks"
    using small by (simp_all add: small_find_child del: find_child.simps)
  show "card (dom (find_child (Node48 h ix cs))) = unat (num_children h)" if "node_wf (Node48 h ix cs)"
    using that card_bytes [of "\<lambda>i. ix ! i \<noteq> 0"] unfolding dom_slots [OF that] by simp
  show "card (dom (find_child (Node256 h cs))) = card {i. i < 256 \<and> cs ! i \<noteq> None}" if "node_wf (Node256 h cs)"
  proof -
    have "dom (find_child (Node256 h cs)) = {c. cs ! unat c \<noteq> None}" using that by (auto simp: dom_def)
    then show ?thesis using card_bytes [of "\<lambda>i. cs ! i \<noteq> None"] by simp
  qed
qed

lemma length_kid_pairs: 
  assumes "map_of (kid_pairs n) = find_child n" and "distinct (map fst (kid_pairs n))"
  shows "length (kid_pairs n) = card (dom (find_child n))"
  using distinct_card [OF assms(2)] by (simp flip: assms(1) add: dom_map_of_conv_image_fst)

lemma map_filter_pairs:
  "map fst (List.map_filter (\<lambda>i. map_option (Pair (g i)) (f i)) xs) = map g (filter (\<lambda>i. f i \<noteq> None) xs)"
  "map (Some \<circ> snd) (List.map_filter (\<lambda>i. map_option (Pair (g i)) (f i)) xs) = map f (filter (\<lambda>i. f i \<noteq> None) xs)"
  by (induction xs) (auto simp: List.map_filter_simps split: option.splits)

lemma map_filter_eq: "(\<And>x. x \<in> set xs \<Longrightarrow> f x = g x) \<Longrightarrow> List.map_filter f xs = List.map_filter g xs"
  by (induction xs) (auto simp: List.map_filter_simps split: option.split)

lemma remove_child256_law:
  assumes wf: "node_wf (Node256 h cs)" and some: "find_child (Node256 h cs) c \<noteq> None"
  shows "child_removed (Node256 h cs) c (remove_child256 (Node256 h cs) c)"
proof -
  define h1 cs1 where "h1 = dec_children h" and "cs1 = cs[unat c := None]"
  let ?s = "{i. i < 256 \<and> cs ! i \<noteq> None}" and ?s1 = "{i. i < 256 \<and> cs1 ! i \<noteq> None}"
  have part: "length (partial h) = MAX_PREFIX_LEN" and len: "length cs = 256" and lo: "38 \<le> card ?s"
    and num: "num_children h = of_nat (card ?s)"
    using wf by auto
  have "?s1 = ?s - {unat c}" using len by (auto simp: cs1_def nth_list_update)
  moreover have "unat c \<in> ?s" using some len by simp
  ultimately have card: "card ?s = Suc (card ?s1)"
    using card_Suc_Diff1 [of ?s "unat c"] by (simp only:) simp
  have "card ?s \<le> card {..< 256 :: nat}" by (rule card_mono) auto
  then have hi: "card ?s1 < 256" using card by simp
  have num1: "num_children h1 = of_nat (card ?s1)" using num card by (simp add: h1_def)
  have fc: "find_child (Node256 h1 cs1) = (find_child (Node256 h cs))(c := None)"
    using len by (auto simp: fun_eq_iff cs1_def nth_list_update word_unat_eq_iff)
  show ?thesis
  proof (cases "num_children h1 = 37")
    case False
    then have "card ?s1 \<noteq> 37" using num1 by auto
    then have "node_wf (Node256 h1 cs1)"
      using part len num1 card lo by (simp add: h1_def cs1_def)
    with fc False show ?thesis
      by (simp add: child_removed_def remove_child256_def Let_def same_prefix_def
          flip: h1_def cs1_def) (simp add: h1_def)
  next
    case True
    let ?ps = "kid_pairs (Node256 h1 cs1)" and ?live = "filter (\<lambda>i. cs1 ! i \<noteq> None) [0..<256]"
    have live: "filter (\<lambda>i. slot cs1 i \<noteq> None) [0..<256] = ?live"
      by (rule filter_cong) (simp_all add: cs1_def len)
    have ps: "map fst ?ps = map of_nat ?live" "map (Some \<circ> snd) ?ps = map (\<lambda>i. cs1 ! i) ?live"
      using len unfolding kid_pairs.simps map_filter_pairs live by (auto simp: cs1_def)
    have lps: "length ?ps = length ?live" using ps(1) by (metis length_map)
    have "length ?live = card ?s1"
      by (subst distinct_length_filter) (auto intro: arg_cong [of _ _ card])
    moreover have "card ?s1 = 37"
      using True num1 hi by (simp add: of_nat_eq_byte)
    ultimately have "length ?ps = 37" using lps by simp
    then have laws: "node_wf (index48 (copy_header new_hdr h1) ?ps)"
      "find_child (index48 (copy_header new_hdr h1) ?ps) = map_of ?ps"
      using index48_laws [OF kid_pairs_slots_laws(4), of h1 cs1 "copy_header new_hdr h1"] True part
      by (simp_all add: length_copy_partial h1_def del: kid_pairs.simps)
    have "remove_child256 (Node256 h cs) c = index48 (copy_header new_hdr h1) ?ps"
      using True unfolding index48_def ps lps by (simp add: remove_child256_def Let_def flip: h1_def cs1_def)
    then show ?thesis
      using laws fc part
      by (simp add: child_removed_def kid_pairs_slots_laws same_prefix_def index48_def h1_def del: kid_pairs.simps find_child.simps)
  qed
qed

lemma remove_child48_law:
  assumes wf: "node_wf (Node48 h ks cs)" and some: "find_child (Node48 h ks cs) c \<noteq> None"
  shows "child_removed (Node48 h ks cs) c (remove_child48 (Node48 h ks cs) c)"
proof -
  define pos h1 ks1 cs1 where "pos = ks ! unat c" and "h1 = dec_children h"
    and "ks1 = ks[unat c := 0]" and "cs1 = cs[pos - 1 := None]"
  let ?k = "\<lambda>ks. {i :: nat. i < 256 \<and> ks ! i \<noteq> (0 :: nat)}" and ?j = "\<lambda>cs. {j. j < 48 \<and> cs ! j \<noteq> None}"
  have part: "length (partial h) = MAX_PREFIX_LEN" and lens: "length ks = 256" "length cs = 48"
    and refs: "\<And>i. i < 256 \<Longrightarrow> ks ! i \<noteq> 0 \<Longrightarrow> ks ! i \<le> 48 \<and> cs ! (ks ! i - 1) \<noteq> None"
    and inj: "inj_on ((!) ks) (?k ks)"
    and cards: "card (?j cs) = unat (num_children h)" "card (?k ks) = unat (num_children h)"
    and lo: "13 \<le> unat (num_children h)"
    using wf unfolding node_wf.simps by blast+
  have pos: "pos \<noteq> 0" "pos \<le> 48" "cs ! (pos - 1) \<noteq> None"
    using some refs [OF unat_byte_bound, of c] by (auto simp: pos_def Let_def split: if_splits)
  have ksn: "ks1 ! i = (if i = unat c then 0 else ks ! i)" for i
    using lens by (simp add: ks1_def nth_list_update)
  have csn: "cs1 ! j = (if j = pos - 1 then None else cs ! j)" for j
    using lens pos by (auto simp: cs1_def nth_list_update)
  have away: "ks ! i - 1 \<noteq> pos - 1" if "i < 256" "ks ! i \<noteq> 0" "i \<noteq> unat c" for i
  proof
    assume "ks ! i - 1 = pos - 1"
    with that(2) pos(1) have "ks ! i = ks ! unat c" by (simp add: pos_def)
    with inj_onD [OF inj this] that pos(1) show False by (simp add: pos_def)
  qed
  have sets: "?k ks = insert (unat c) (?k ks1)" "?j cs = insert (pos - 1) (?j cs1)"
    using pos unfolding ksn csn by (auto simp: pos_def)
  have new: "unat c \<notin> ?k ks1" "pos - 1 \<notin> ?j cs1" unfolding ksn csn by simp_all
  have fin: "finite (?k ks1)" "finite (?j cs1)" by simp_all
  have cards1: "unat (num_children h) = Suc (card (?k ks1))" "unat (num_children h) = Suc (card (?j cs1))"
    unfolding card_insert_disjoint [OF fin(1) new(1), symmetric] card_insert_disjoint [OF fin(2) new(2), symmetric]
      sets [symmetric] cards by (rule refl)+
  have num1: "unat (num_children h1) = card (?k ks1)" "card (?j cs1) = card (?k ks1)"
    using cards1 by (simp_all add: h1_def unat_dec)
  have refs1: "ks1 ! i \<le> 48 \<and> cs1 ! (ks1 ! i - 1) \<noteq> None" if "i < 256" "ks1 ! i \<noteq> 0" for i
    using refs [OF that(1)] away [OF that(1)] that(2) unfolding ksn csn by (auto split: if_splits)
  have inj1: "inj_on ((!) ks1) (?k ks1)"
    using inj by (auto simp: inj_on_def ksn)
  have fc: "find_child (Node48 h1 ks1 cs1) = (find_child (Node48 h ks cs))(c := None)"
  proof
    fix d
    have "slot cs1 (ks ! unat d - 1) = slot cs (ks ! unat d - 1)" if "d \<noteq> c" "ks ! unat d \<noteq> 0"
      using away [OF unat_byte_bound that(2)] that(1) unfolding cs1_def slot_update by (auto simp: word_unat_eq_iff)
    then show "find_child (Node48 h1 ks1 cs1) d = ((find_child (Node48 h ks cs))(c := None)) d"
      unfolding find_child.simps Let_def ksn by (auto simp: word_unat_eq_iff)
  qed
  have step: "remove_child48 (Node48 h ks cs) c = (if num_children h1 = 12
      then Node16 (copy_header new_hdr h1)
        (List.map_filter (\<lambda>i. if ks1 ! i \<noteq> 0 then map_option (Pair (of_nat i)) (cs1 ! (ks1 ! i - 1)) else None) [0..<256])
      else Node48 h1 ks1 cs1)"
    by (simp only: remove_child48_def art_node.case Let_def h1_def ks1_def cs1_def pos_def)
  show ?thesis
  proof (cases "num_children h1 = 12")
    case False
    then have "card (?k ks1) \<noteq> 12" using num1(1) by (auto simp: word_unat_eq_iff)
    then have "13 \<le> card (?k ks1)" using cards1 lo by linarith
    then have "node_wf (Node48 h1 ks1 cs1)"
      unfolding node_wf.simps using part lens num1 refs1 inj1 by (simp add: h1_def ks1_def cs1_def)
    moreover have "same_prefix (Node48 h ks cs) (Node48 h1 ks1 cs1)"
      by (simp add: same_prefix_def h1_def)
    ultimately show ?thesis
      unfolding step child_removed_def using fc False by (simp only: if_False simp_thms)
  next
    case True
    let ?ps = "kid_pairs (Node48 h1 ks1 cs1)"
    have "card (dom (find_child (Node48 h1 ks1 cs1))) = card (dom (find_child (Node48 h ks cs)) - {c})"
      unfolding fc dom_fun_upd by simp
    also have "\<dots> = unat (num_children h) - 1"
      using card_Diff_singleton [of c "dom (find_child (Node48 h ks cs))"] card_children(3) [OF wf] some
      by (simp add: domIff del: find_child.simps)
    finally have len12: "length ?ps = 12"
      using length_kid_pairs [OF kid_pairs_slots_laws(1,2), of h1 ks1 cs1] True num1(1) cards1(1)
      by (simp add: word_unat_eq_iff)
    have same: "(if ks1 ! i \<noteq> 0 then map_option (Pair (of_nat i)) (cs1 ! (ks1 ! i - 1)) else None) =
        map_option (Pair (of_nat i)) (find_child (Node48 h1 ks1 cs1) (of_nat i))" if "i < 256" for i
    proof -
      have "ks1 ! i - 1 < length cs1" if "ks1 ! i \<noteq> 0"
        using refs1 [OF \<open>i < 256\<close> that] that lens unfolding cs1_def length_list_update by linarith
      with that show ?thesis by (simp add: Let_def)
    qed
    have "remove_child48 (Node48 h ks cs) c = Node16 (copy_header new_hdr h1) ?ps"
      unfolding step kid_pairs.simps if_P [OF True] 
      by (rule arg_cong [of _ _ "Node16 _"], rule map_filter_eq, rule same, simp)
    moreover have "node_wf (Node16 (copy_header new_hdr h1) ?ps)"
      using len12 True part kid_pairs_slots_laws(2) [of h1 ks1 cs1]
      by (simp add: length_copy_partial h1_def del: kid_pairs.simps)
    moreover have "find_child (Node16 (copy_header new_hdr h1) ?ps) = (find_child (Node48 h ks cs))(c := None)"
      using len12 True fc
      by (simp add: small_find_child kid_pairs_slots_laws del: find_child.simps kid_pairs.simps)
    ultimately show ?thesis
      using part by (simp add: child_removed_def same_prefix_def h1_def del: node_wf.simps find_child.simps kid_pairs.simps)
  qed
qed

text \<open>One law for all kinds, except where a NODE4 has two children.\<close>

lemma remove_child_law:
  assumes "node_wf n" and "find_child n c \<noteq> None" and "\<not> is_leaf n"
    and "\<And>h ks. n = Node4 h ks \<Longrightarrow> length ks \<noteq> 2"
  shows "child_removed n c (remove_child n c)"
proof (cases n)
  case (Node4 h ks)
  with assms show ?thesis using remove_child4_law [of h ks c] by (simp only: remove_child_def art_node.case simp_thms)
next
  case (Node16 h ks)
  with assms show ?thesis using remove_child16_law [of h ks c] by (simp only: remove_child_def art_node.case simp_thms)
next
  case (Node48 h ks cs)
  with assms show ?thesis using remove_child48_law [of h ks cs c] by (simp only: remove_child_def art_node.case simp_thms)
next
  case (Node256 h cs)
  with assms show ?thesis using remove_child256_law [of h cs c] by (simp only: remove_child_def art_node.case simp_thms)
qed (use assms in simp)

text \<open>Three children or more, unless the node is a NODE4 with two.\<close>

lemma card_kinds:
  assumes "node_wf n" and "\<not> is_leaf n" and "2 \<le> card (dom (find_child n))"
    and "\<And>h ks. n = Node4 h ks \<Longrightarrow> length ks \<noteq> 2"
  shows "3 \<le> card (dom (find_child n))"
proof (cases n)
  case (Node4 h ks)
  with assms have "length ks \<noteq> 2" "2 \<le> length ks" using card_children(1) [of h ks] by metis+
  with Node4 assms show ?thesis using card_children(1) [of h ks] by simp
next
  case (Node16 h ks)
  with assms show ?thesis using card_children(2) [of h ks] by simp
next
  case (Node48 h ks cs)
  with assms show ?thesis using card_children(3) [of h ks cs] by simp
next
  case (Node256 h cs)
  with assms show ?thesis using card_children(4) [of h cs] by simp
qed (use assms in simp)

text \<open>The header of the child that replaces a NODE4: the two stored paths joined.\<close>

lemma join_prefix_path:
  assumes h: "length (partial h) = MAX_PREFIX_LEN" "length q = partial_len h" "stored_prefix h = take MAX_PREFIX_LEN q"
    and ch: "length (partial ch) = MAX_PREFIX_LEN" "length r = partial_len ch" "stored_prefix ch = take MAX_PREFIX_LEN r"
  shows "num_children (join_prefix h d ch) = num_children ch"
    and "length (partial (join_prefix h d ch)) = MAX_PREFIX_LEN"
    and "partial_len (join_prefix h d ch) = length (q @ d # r)"
    and "stored_prefix (join_prefix h d ch) = take MAX_PREFIX_LEN (q @ d # r)"
proof -
  let ?j = "join_prefix h d ch"
  show "num_children ?j = num_children ch" "partial_len ?j = length (q @ d # r)"
    using h ch by (simp_all add: join_prefix_def Let_def)
  show "length (partial ?j) = MAX_PREFIX_LEN"
    using h ch by (simp add: join_prefix_def Let_def memcpy_def)
  have pq: "take i (partial h) = take i q" if "i \<le> min MAX_PREFIX_LEN (length q)" for i
    using take_stored [OF h(3,2), of i] that by simp
  have pr: "take i (partial ch) = take i r" if "i \<le> min MAX_PREFIX_LEN (length r)" for i
    using take_stored [OF ch(3,2), of i] that by simp
  show "stored_prefix ?j = take MAX_PREFIX_LEN (q @ d # r)"
  proof (cases "length q < MAX_PREFIX_LEN")
    case False
    then show ?thesis
      using h ch pq [of MAX_PREFIX_LEN]
      by (simp add: join_prefix_def Let_def stored_prefix_def memcpy_def)
  next
    case True
    let ?sub = "min (length r) (MAX_PREFIX_LEN - Suc (length q))"
    have "take (Suc (length q)) ((partial h)[length q := d]) = q @ [d]"
      using True h(1) pq [of "length q"] by (simp add: take_Suc_conv_app_nth)
    moreover have "take ?sub (partial ch) = take ?sub r"
      by (rule pr) auto
    ultimately show ?thesis
      using True h ch
      by (auto simp: join_prefix_def Let_def stored_prefix_def memcpy_def take_Cons' min_def)
  qed
qed

section \<open>Deletion\<close>

lemma path_of_removed:
  assumes path: "path_of pre n q" and rem: "child_removed n c n'" and card: "3 \<le> card (dom (find_child n))"
  shows "path_of pre n' q"
proof -
  have "card (dom (find_child n)) - 1 \<le> card (dom (find_child n) - {c})"
    by (simp add: card_Diff_singleton_if)
  then have "2 \<le> card (dom ((find_child n)(c := None)))"
    using card unfolding dom_fun_upd by simp
  then show ?thesis
    using path rem unfolding path_of_def child_removed_def same_prefix_def by (auto split: if_splits)
qed

text \<open>A node whose child under the byte of the key changes, or is taken out, so that it loses the key.\<close>

lemma art_map_removed:
  assumes path: "path_of pre n q" and path': "path_of pre n' q"
    and n': "find_child n' = (find_child n)(c := x)" and m: "find_child n c = Some m"
    and x: "(case x of None \<Rightarrow> Map.empty | Some m' \<Rightarrow> art_map m') = (art_map m)(key := None)"
    and key: "(key @ [0]) ! length (pre @ q) = c"
  shows "art_map n' = (art_map n)(key := None)"
proof
  fix k
  show "art_map n' k = ((art_map n)(key := None)) k"
    unfolding art_map_step [OF path refl] art_map_step [OF path' refl] fun_upd_apply
    using key m fun_cong [OF x, of k] by (auto simp: n' split: option.splits if_splits)
qed

text \<open>The child that replaces a NODE4.\<close>

lemma collapse:
  assumes path: "path_of pre (Node4 h ks) q" and two: "length ks = 2"
    and leaf: "find_child (Node4 h ks) c = Some (Leaf key v)"
    and key: "(key @ [0]) ! length (pre @ q) = c"
  shows "art_inv pre (remove_child4 (Node4 h ks) c) \<and>
    art_map (remove_child4 (Node4 h ks) c) = (art_map (Node4 h ks))(key := None)"
proof -
  have len: "length ks = unat (num_children h)" and dist: "distinct (map fst ks)"
    and h: "length (partial h) = MAX_PREFIX_LEN" "length q = partial_len h" "stored_prefix h = take MAX_PREFIX_LEN q"
    using path by (auto simp: path_of_def)
  note fc = small_find_child(1) [OF len]
  have c: "map_of ks c = Some (Leaf key v)" using leaf fc by simp
  have "length (remove_pair c ks) = 1" using small_remove(3) [OF len dist] c two by simp
  then obtain d m where ks1: "remove_pair c ks = [(d, m)]"
    by (cases "remove_pair c ks") auto
  have upd: "(map_of ks)(c := None) = [d \<mapsto> m]"
    using map_of_remove_pair [OF dist, of c] by (simp add: ks1)
  then have dc: "d \<noteq> c" and m: "map_of ks d = Some m"
    by (metis fun_upd_same option.distinct(1), metis fun_upd_other fun_upd_same option.distinct(1))
  have inv: "art_inv ((pre @ q) @ [d]) m" using path m fc by (simp add: path_of_def del: find_child.simps)
  have map: "art_map m = (art_map (Node4 h ks))(key := None)"
  proof
    fix k :: cstring
    let ?c = "(k @ [0]) ! length (pre @ q)"
    have off: "art_map m k = None" if "?c \<noteq> d"
      using that by (intro art_map_outside [OF inv]) (simp only: prefix_snoc_nth, blast)
    have rest: "map_of ks ?c = None" if "?c \<noteq> c" "?c \<noteq> d"
      using that fun_cong [OF upd, of ?c] by simp
    consider "?c = c" | "?c = d" | "?c \<noteq> c" "?c \<noteq> d" by blast
    then show "art_map m k = ((art_map (Node4 h ks))(key := None)) k"
    proof cases
      case 1
      then show ?thesis using off dc c by (simp add: art_map_step [OF path 1] fc del: find_child.simps)
    next
      case 2
      then have "k \<noteq> key" using key dc by auto
      then show ?thesis using m by (simp add: art_map_step [OF path 2] fc del: find_child.simps)
    next
      case 3
      then show ?thesis using off rest by (simp add: art_map_step [OF path refl] fc del: find_child.simps)
    qed
  qed
  have num: "num_children h - 1 = 1" using len two by (simp add: word_unat_eq_iff unat_dec)
  have rem: "remove_child4 (Node4 h ks) c =
      (if is_leaf m then m else set_hdr (join_prefix (dec_children h) d (hdr m)) m)"
    using num len by (simp add: remove_child4_def Let_def ks1)
  show ?thesis
  proof (cases "is_leaf m")
    case True
    then obtain k' v' where "m = Leaf k' v'" by (cases m) auto
    with inv have "art_inv pre m" by (auto elim!: art_inv_leafE intro!: art_inv_leaf dest: append_prefixD)
    with True map rem show ?thesis by simp
  next
    case False
    obtain r where r: "path_of ((pre @ q) @ [d]) m r" using art_inv_path [OF inv False] by blast
    then have "length (partial (hdr m)) = MAX_PREFIX_LEN" "length r = partial_len (hdr m)"
      "stored_prefix (hdr m) = take MAX_PREFIX_LEN r"
      by (auto simp: path_of_def node_wf_partial)
    note j = join_prefix_path [of "dec_children h" q "hdr m" r d, unfolded hdr_counts, OF h this]
    note s = set_hdr_path [OF r _ j, of pre]
    show ?thesis
      unfolding rem using False s(2) path_of_inv [OF s(1)] map by simp
  qed
qed

lemma recursive_delete_leaf:
  "recursive_delete (Leaf k v) key depth = Inr (if k = key then (None, Some v) else (Some (Leaf k v), None))"
  by (subst recursive_delete.simps) (auto simp: leaf_matches_def)

lemma recursive_delete_inner:
  "\<not> is_leaf n \<Longrightarrow> recursive_delete n key depth =
     (if partial_len (hdr n) \<noteq> 0 \<and> check_prefix (hdr n) key depth \<noteq> min MAX_PREFIX_LEN (partial_len (hdr n))
      then Inr (Some n, None)
      else ebind (key_at key (depth + partial_len (hdr n))) (\<lambda>c.
             case find_child n c of
               None \<Rightarrow> Inr (Some n, None)
             | Some (Leaf k v) \<Rightarrow>
                 Inr (if leaf_matches k key then (Some (remove_child n c), Some v) else (Some n, None))
             | Some m \<Rightarrow>
                 ebind (recursive_delete m key (depth + partial_len (hdr n) + 1)) (\<lambda>(m', old).
                   Inr (case m' of None \<Rightarrow> (Some n, old) | Some m'' \<Rightarrow> (Some (set_child n c m''), old)))))"
  by (subst recursive_delete.simps) (cases n; simp only: art_node.case is_leaf.simps not_True_eq_False Let_def)

text \<open>What a deletion leaves in place of a node: nothing for a leaf with the key, else a node without the key.\<close>

definition without_key :: "byte list \<Rightarrow> 'v art_node \<Rightarrow> cstring \<Rightarrow> 'v art_node option \<Rightarrow> bool" where
  "without_key pre n k r \<longleftrightarrow>
     (case r of
        None \<Rightarrow> is_leaf n \<and> (art_map n)(k := None) = Map.empty
      | Some n' \<Rightarrow> art_inv pre n' \<and> art_map n' = (art_map n)(k := None))"

lemma without_absent: "art_inv pre n \<Longrightarrow> art_map n k = None \<Longrightarrow> without_key pre n k (Some n)"
  by (simp add: without_key_def fun_upd_idem)

lemma remove_leaf_below:
  assumes path: "path_of pre n q" and leaf: "find_child n c = Some (Leaf key v)"
    and key: "(key @ [0]) ! length (pre @ q) = c"
  shows "without_key pre n key (Some (remove_child n c))"
proof (cases "\<exists>h ks. n = Node4 h ks \<and> length ks = 2")
  case True
  then show ?thesis
    using collapse [of pre _ _ q c key v] path leaf key
    by (auto simp: without_key_def remove_child_def simp del: find_child.simps)
next
  case False
  have n: "node_wf n" "\<not> is_leaf n" "2 \<le> card (dom (find_child n))" and c: "find_child n c \<noteq> None"
    using path leaf by (auto simp: path_of_def)
  have rem: "child_removed n c (remove_child n c)"
    using False by (intro remove_child_law [OF n(1) c n(2)]) auto
  have path': "path_of pre (remove_child n c) q"
    using False by (intro path_of_removed [OF path rem] card_kinds [OF n]) auto
  have "art_map (remove_child n c) = (art_map n)(key := None)"
    using rem by (intro art_map_removed [OF path path' _ leaf _ key, of None]) (auto simp: child_removed_def)
  with path_of_inv [OF path'] show ?thesis by (simp add: without_key_def)
qed

lemma set_child_without:
  assumes path: "path_of pre n q" and m: "find_child n c = Some m" "\<not> is_leaf m"
    and r: "without_key (pre @ q @ [c]) m key r" and key: "(key @ [0]) ! length (pre @ q) = c"
  shows "\<exists>m'. r = Some m' \<and> without_key pre n key (Some (set_child n c m'))"
proof -
  obtain m' where m': "r = Some m'" "art_inv (pre @ q @ [c]) m'" "art_map m' = (art_map m)(key := None)"
    using r m(2) by (auto simp: without_key_def split: option.splits)
  have n: "\<not> is_leaf n" "node_wf n" and c: "find_child n c \<noteq> None" using path m by (auto simp: path_of_def)
  note set = set_child_laws [OF n(2) c, of m']
  have path': "path_of pre (set_child n c m') q"
    using path_of_upd [OF path set(1,2) _ m'(2)] set(3,4) n(1) by (simp add: same_prefix_def)
  have "art_map (set_child n c m') = (art_map n)(key := None)"
    by (rule art_map_removed [OF path path' set(2) m(1) _ key]) (simp add: m'(3))
  with path_of_inv [OF path'] m'(1) show ?thesis by (simp add: without_key_def)
qed

text \<open>Deletion takes the way of the search: the same value or the same error, and the key is gone.\<close>

lemma recursive_delete_spec:
  assumes "art_inv pre n"
  shows "ebind (recursive_delete n k (length pre)) (\<lambda>(r, old). Inr old) = search_node n k (length pre) \<and>
    (\<forall>r old. recursive_delete n k (length pre) = Inr (r, old) \<longrightarrow> without_key pre n k r)"
  using assms
proof (induction pre n)
  case (art_inv_leaf k' pre v)
  have "art_inv pre (Leaf k' v)" by (rule art_inv.art_inv_leaf [OF art_inv_leaf])
  then show ?case
    by (auto simp: recursive_delete_leaf leaf_matches_def without_key_def fun_upd_idem)
next
  case (art_inv_inner n q pre)
  note n = art_inv_inner.hyps(1,2)
  have path: "path_of pre n q"
    using art_inv_inner by (simp add: path_of_def)
  have absent: "without_key pre n k (Some n)" if "search_node n k (length pre) = Inr None"
    using search_node_result [OF path_of_inv [OF path], of k] that
    by (intro without_absent path_of_inv [OF path]) auto
  let ?d = "length pre + partial_len (hdr n)" and ?c = "(k @ [0]) ! length (pre @ q)"
  have d: "?d = length (pre @ q)" "?d + 1 = length (pre @ q @ [?c])"
    using art_inv_inner.hyps(3) by simp_all
  show ?case
  proof (cases "partial_len (hdr n) \<noteq> 0 \<and>
      check_prefix (hdr n) k (length pre) \<noteq> min MAX_PREFIX_LEN (partial_len (hdr n))")
    case True
    then show ?thesis
      using absent by (simp add: recursive_delete_inner [OF n(1)] search_node_inner [OF n(1)])
  next
    case False
    note del = recursive_delete_inner [OF n(1), of k "length pre", unfolded if_not_P [OF False]]
      and get = search_node_inner [OF n(1), of k "length pre", unfolded if_not_P [OF False]]
    show ?thesis
    proof (cases "?d \<le> length k")
      case False
      then have "key_at k ?d = Inl Out_Of_Bounds" by (auto simp: key_at_def)
      then show ?thesis unfolding del get by simp
    next
      case True
      have at: "key_at k ?d = Inr ?c" using True by (simp only: key_at_nth d)
      show ?thesis
      proof (cases "find_child n ?c")
        case None
        then show ?thesis using absent unfolding del get at by simp
      next
        case (Some m)
        show ?thesis
        proof (cases "is_leaf m")
          case True
          then obtain k' v' where "m = Leaf k' v'" by (cases m) auto
          then show ?thesis
            using absent remove_leaf_below [OF path] Some unfolding del get at
            by (auto simp: leaf_matches_def)
        next
          case False
          let ?r = "recursive_delete m k (length (pre @ q @ [?c]))"
          have step: "recursive_delete n k (length pre) = ebind ?r (\<lambda>(m', old).
              Inr (case m' of None \<Rightarrow> (Some n, old) | Some m'' \<Rightarrow> (Some (set_child n ?c m''), old)))"
            using Some False unfolding del at d(2) [symmetric] by (cases m) (simp_all del: length_append)
          have "search_node n k (length pre) = search_node m k (length (pre @ q @ [?c]))"
            using Some unfolding get at d(2) [symmetric] by simp
          then show ?thesis
            using art_inv_inner.IH [OF Some] set_child_without [OF path Some False _ refl] unfolding step
            by (cases ?r) fastforce+
        qed
      qed
    qed
  qed
qed

section \<open>Trees\<close>

lemma art_delete_laws:
  assumes inv: "tree_inv t"
  shows "ebind (art_delete t k) (\<lambda>(t', old). Inr old) = art_search t k"
    and "art_delete t k = Inr (t', old) \<Longrightarrow> tree_inv t' \<and> tree_map t' = (tree_map t)(k := None)"
proof -
  have spec: "ebind (recursive_delete n k 0) (\<lambda>(r, old). Inr old) = search_node n k 0"
    "recursive_delete n k 0 = Inr (r, old) \<Longrightarrow> without_key [] n k r" if "root t = Some n" for n r old
    using recursive_delete_spec [of "[]" n k] inv that by (auto simp: tree_inv_def)
  show res: "ebind (art_delete t k) (\<lambda>(t', old). Inr old) = art_search t k"
    using spec(1) by (auto simp: art_delete_def art_search_def split_def split: option.splits)
  assume del: "art_delete t k = Inr (t', old)"
  then have old: "old = tree_map t k"
    using res art.get_sound [OF inv, of k old] by simp
  show "tree_inv t' \<and> tree_map t' = (tree_map t)(k := None)"
  proof (cases "root t")
    case None
    with del inv show ?thesis by (auto simp: art_delete_def tree_map_def tree_entries_def)
  next
    case (Some n)
    with del obtain r where r: "recursive_delete n k 0 = Inr (r, old)"
      and t': "t' = t\<lparr>root := r, art_size := (if old = None then art_size t else art_size t - 1)\<rparr>"
      by (cases "recursive_delete n k 0") (auto simp: art_delete_def)
    note wo = spec(2) [OF Some r]
    have map: "tree_map t' = (tree_map t)(k := None)"
      using wo Some by (auto simp: t' tree_map_def tree_entries_def without_key_def art_map_def split: option.splits)
    have root: "case r of None \<Rightarrow> True | Some n' \<Rightarrow> art_inv [] n'"
      using wo by (simp add: without_key_def split: option.splits)
    have pos: "old \<noteq> None \<Longrightarrow> 1 \<le> length (tree_entries t)"
      unfolding old tree_map_def by (cases "tree_entries t") auto
    have "length (tree_entries t') = card (dom (tree_map t'))"
      using root length_entries [of "[]"]
      by (auto simp: t' tree_entries_def tree_map_def art_map_def split: option.splits)
    also have "\<dots> = card (dom (tree_map t) - {k})" unfolding map dom_fun_upd by simp
    also have "\<dots> = (if old = None then length (tree_entries t) else length (tree_entries t) - 1)"
      by (auto simp: old length_tree_entries [OF inv] card_Diff_singleton_if domIff)
    finally have "tree_inv t'"
      using inv root pos by (auto simp: t' tree_inv_def of_nat_diff)
    then show ?thesis using map ..
  qed
qed

text \<open>The map contract with deletion.\<close>

locale string_map_del = string_map inv content init add get
  for inv :: "'t \<Rightarrow> bool" and content :: "'t \<Rightarrow> cstring \<rightharpoonup> 'v" and init add get +
  fixes del :: "'t \<Rightarrow> cstring \<Rightarrow> c_error + ('t \<times> 'v option)"
  assumes del_result: "inv t \<Longrightarrow> ebind (del t k) (\<lambda>(t', old). Inr old) = get t k"
    and del_law: "inv t \<Longrightarrow> del t k = Inr (t', old) \<Longrightarrow> inv t' \<and> content t' = (content t)(k := None)"
begin

lemma del_total:
  assumes "inv t" and "get t k = Inr r"
  shows "\<exists>t'. del t k = Inr (t', r) \<and> inv t' \<and> content t' = (content t)(k := None)"
  using del_result [OF assms(1), of k] del_law [OF assms(1), of k] assms(2) by (cases "del t k") auto

lemma del_fails: "inv t \<Longrightarrow> get t k = Inl e \<Longrightarrow> del t k = Inl e"
  using del_result [of t k] by (cases "del t k") auto

lemma add_del:
  assumes "inv t" and "no_nul k"
  shows "\<exists>t1 t2. add t k v = Inr (t1, content t k) \<and> del t1 k = Inr (t2, Some v) \<and> inv t2 \<and>
    content t2 = (content t)(k := None)"
proof -
  obtain t1 where t1: "add t k v = Inr (t1, content t k)" "inv t1" "content t1 = (content t)(k \<mapsto> v)"
    using add_law [OF assms] by blast
  then show ?thesis using del_total [OF t1(2) get_stored [OF t1(2), of k v]] by auto
qed

end

interpretation art_del: string_map_del tree_inv tree_map art_tree_init art_insert art_search art_delete
  by unfold_locales (simp_all add: art_delete_laws)

section \<open>Properties\<close>

text \<open>C7: wherever a search for a key returns, deleting the key succeeds: it gives the value that was
  stored, keeps the invariant (paths, node kinds, child counts, size) and takes out exactly that key;
  a key whose search leaves the key fails to be deleted in the same way.\<close>

theorem art_delete_removes:
  assumes "tree_inv t"
  shows "(\<forall>r. art_search t k = Inr r \<longrightarrow>
      (\<exists>t'. art_delete t k = Inr (t', r) \<and> tree_inv t' \<and> tree_map t' = (tree_map t)(k := None))) \<and>
    (\<forall>e. art_search t k = Inl e \<longrightarrow> art_delete t k = Inl e)"
  using art_del.del_total [OF assms] art_del.del_fails [OF assms] by blast

theorem art_delete_removes_witness:
  "\<exists>t t'. art_insert art_tree_init [97] True = Inr (t, None) \<and> art_search t [97] = Inr (Some True) \<and>
    art_delete t [97] = Inr (t', Some True) \<and> tree_map t' = Map.empty"
proof -
  have nn: "no_nul [97]" by (simp add: no_nul_def)
  obtain t where t: "art_insert art_tree_init [97] True = Inr (t, None)" "tree_inv t" "tree_map t = [[97] \<mapsto> True]"
    using art.add_law [OF art.init_inv nn, of True] by (auto simp: art.init_content)
  have get: "art_search t [97] = Inr (Some True)" using art.get_stored [OF t(2)] t(3) by simp
  with art_delete_removes [OF t(2), of "[97]"] t show ?thesis by auto
qed

text \<open>Inserting a key and deleting it again gives the inserted value back and a tree that holds what it
  held before, without the key.\<close>

theorem art_insert_delete:
  assumes "tree_inv t" and "no_nul k"
  shows "\<exists>t1 t2. art_insert t k v = Inr (t1, tree_map t k) \<and> art_delete t1 k = Inr (t2, Some v) \<and>
    tree_inv t2 \<and> tree_map t2 = (tree_map t)(k := None)"
  by (rule art_del.add_del [OF assms])

theorem art_insert_delete_witness:
  "\<exists>t1 t2. art_insert art_tree_init [97, 98] True = Inr (t1, None) \<and> art_delete t1 [97, 98] = Inr (t2, Some True) \<and>
    tree_map t2 = Map.empty"
  using art_insert_delete [OF art.init_inv, of "[97, 98]" True] by (auto simp: no_nul_def art.init_content)

end
