(* ===== verification/Hashtable.thy ===== *)
theory Hashtable
  imports Linklist
begin

unbundle bit_operations_syntax

text \<open>
  The hash table of src/src/index/libhl/hashtable.c, every operation as one thread runs it; the
  protocol by which threads share a table is in the theory \<open>Hashtable_Status\<close>.

  A key is the \<^verbatim>\<open>klen\<close> bytes it is made of. The data of an item is NULL (\<open>None\<close>), a pointer of the caller
  (\<open>Ref\<close>) or a copy the table has made (\<open>Copy\<close>); \<open>heap\<close> gives the bytes a caller's pointer refers to. What is passed to
  the release callback is logged in \<open>ht_freed\<close>. A bucket list is named by its index: the array of the buckets and
  the list the iterators follow refer to the same lists. Sizes and counts are those of allocated arrays and items, and so naturals.
  Timers, memory accounting and the counting of comparisons are left out.
\<close>

section \<open>The state\<close>

datatype 'p data = Ref 'p | Copy "byte list"

record 'p ht_item =
  it_hash :: c_int
  it_key :: "byte list"
  it_data :: "'p data option"
  it_dlen :: nat

record 'p hashtable =
  ht_size :: nat
  ht_max_size :: nat
  ht_cnt :: nat
  ht_seed :: c_int
  ht_items :: "'p ht_item list option list"
  ht_free_cb :: bool
  ht_iter :: "nat list"
  ht_freed :: "'p data option list"

definition HT_SIZE_MIN :: nat where
  "HT_SIZE_MIN = 128"

text \<open>The hash: the sum with the length is converted to 32 bits.\<close>

definition mix_step :: "c_int \<Rightarrow> byte \<Rightarrow> c_int" where
  "mix_step h b =
     (let h1 = h + ucast b; h2 = h1 + push_bit 10 h1 in h2 XOR drop_bit 6 h2)"

definition ht_hash_one_at_a_time :: "c_int \<Rightarrow> byte list \<Rightarrow> c_int" where
  "ht_hash_one_at_a_time seed bs =
     (let h = foldl mix_step (seed + of_nat (length bs)) bs;
          h1 = h + push_bit 3 h;
          h2 = h1 XOR drop_bit 11 h1
      in h2 + push_bit 15 h2)"

definition ht_key_equals :: "byte list \<Rightarrow> byte list \<Rightarrow> bool" where
  "ht_key_equals k1 k2 = (take 1 k1 = take 1 k2 \<and> length k1 = length k2 \<and> k1 = k2)"

section \<open>Creation and release\<close>

text \<open>The seed is the number \<^verbatim>\<open>random()\<close> returns, reduced.\<close>

definition ht_set_free_item_callback :: "bool \<Rightarrow> 'p hashtable \<Rightarrow> 'p hashtable" where
  "ht_set_free_item_callback cb t = t\<lparr>ht_free_cb := cb\<rparr>"

definition ht_init :: "nat \<Rightarrow> nat \<Rightarrow> nat \<Rightarrow> bool \<Rightarrow> 'p hashtable" where
  "ht_init rnd initial_size max_size cb =
     (let sz = (if initial_size > HT_SIZE_MIN then initial_size else HT_SIZE_MIN)
      in ht_set_free_item_callback cb
           \<lparr>ht_size = sz, ht_max_size = max_size, ht_cnt = 0, ht_seed = of_nat (rnd mod 4294967295),
            ht_items = replicate sz None, ht_free_cb = False, ht_iter = [], ht_freed = []\<rparr>)"

definition ht_create :: "nat \<Rightarrow> nat \<Rightarrow> nat \<Rightarrow> bool \<Rightarrow> 'p hashtable" where
  "ht_create rnd initial_size max_size cb = ht_init rnd initial_size max_size cb"

definition ht_count :: "'p hashtable \<Rightarrow> nat" where
  "ht_count t = ht_cnt t"

definition release :: "'p data option \<Rightarrow> 'p hashtable \<Rightarrow> 'p hashtable" where
  "release d t = (if ht_free_cb t then t\<lparr>ht_freed := ht_freed t @ [d]\<rparr> else t)"

definition bucket :: "'p hashtable \<Rightarrow> nat \<Rightarrow> 'p ht_item list" where
  "bucket t i = (case ht_items t ! i of None \<Rightarrow> [] | Some l \<Rightarrow> l)"

definition clear_item :: "'p hashtable \<Rightarrow> 'p ht_item \<Rightarrow> 'p hashtable" where
  "clear_item t item = (release (it_data item) t)\<lparr>ht_cnt := ht_cnt t - 1\<rparr>"

definition clear_list :: "'p hashtable \<Rightarrow> nat \<Rightarrow> 'p hashtable" where
  "clear_list t i = (let t' = foldl clear_item t (bucket t i) in t'\<lparr>ht_items := (ht_items t')[i := None]\<rparr>)"

definition ht_clear :: "'p hashtable \<Rightarrow> 'p hashtable" where
  "ht_clear t = (foldl clear_list t (ht_iter t))\<lparr>ht_iter := []\<rparr>"

definition ht_destroy :: "'p hashtable \<Rightarrow> 'p data option list" where
  "ht_destroy t = ht_freed (ht_clear t)"

section \<open>Growing\<close>

text \<open>An item goes to the end of its new list, which is created, and appended to the new iterator, by the first item for it.\<close>

definition move_item ::
  "nat \<Rightarrow> 'p ht_item list option list \<times> nat list \<Rightarrow> 'p ht_item \<Rightarrow> 'p ht_item list option list \<times> nat list" where
  "move_item new_size st item =
     (let (items, it) = st; i = unat (it_hash item) mod new_size
      in case items ! i of
           None \<Rightarrow> (items[i := Some [item]], it @ [i])
         | Some l \<Rightarrow> (items[i := Some (l @ [item])], it))"

definition ht_grow_table :: "'p hashtable \<Rightarrow> 'p hashtable" where
  "ht_grow_table t =
     (if ht_max_size t \<noteq> 0 \<and> ht_max_size t \<le> ht_size t then t
      else let new_size = ht_size t * 2;
               new_size' = (if ht_max_size t \<noteq> 0 \<and> ht_max_size t < new_size then ht_max_size t else new_size);
               (items, it) = foldl (\<lambda>st i. foldl (move_item new_size') st (bucket t i))
                               (replicate new_size' None, []) (ht_iter t)
           in t\<lparr>ht_items := items, ht_size := new_size', ht_iter := it\<rparr>)"

section \<open>Finding and creating a bucket\<close>

definition list_index :: "'p hashtable \<Rightarrow> c_int \<Rightarrow> nat" where
  "list_index t h = unat h mod ht_size t"

definition ht_get_list :: "'p hashtable \<Rightarrow> c_int \<Rightarrow> nat option" where
  "ht_get_list t h =
     (let index = list_index t h in case ht_items t ! index of None \<Rightarrow> None | Some _ \<Rightarrow> Some index)"

definition ht_set_list :: "'p hashtable \<Rightarrow> c_int \<Rightarrow> nat \<times> 'p hashtable" where
  "ht_set_list t h =
     (let index = list_index t h
      in case ht_items t ! index of
           Some _ \<Rightarrow> (index, t)
         | None \<Rightarrow> (index, t\<lparr>ht_items := (ht_items t)[index := Some []], ht_iter := ht_iter t @ [index]\<rparr>))"

text \<open>The position of the first item with the key.\<close>

fun find_item :: "byte list \<Rightarrow> 'p ht_item list \<Rightarrow> nat option" where
  "find_item key [] = None"
| "find_item key (it # its) =
     (if ht_key_equals (it_key it) key then Some 0 else map_option Suc (find_item key its))"

definition put_bucket :: "nat \<Rightarrow> 'p ht_item list \<Rightarrow> 'p hashtable \<Rightarrow> 'p hashtable" where
  "put_bucket i l t = t\<lparr>ht_items := (ht_items t)[i := Some l]\<rparr>"

section \<open>Storing\<close>

text \<open>Reading \<open>n\<close> bytes through a data pointer.\<close>

definition data_bytes :: "('p \<Rightarrow> byte list) \<Rightarrow> 'p data \<Rightarrow> byte list" where
  "data_bytes heap d = (case d of Ref p \<Rightarrow> heap p | Copy b \<Rightarrow> b)"

definition read_bytes :: "('p \<Rightarrow> byte list) \<Rightarrow> 'p data option \<Rightarrow> nat \<Rightarrow> c_error + byte list" where
  "read_bytes heap d n =
     (if n = 0 then Inr []
      else ebind (deref d) (\<lambda>p. if length (data_bytes heap p) < n then Inl Out_Of_Bounds
                                else Inr (take n (data_bytes heap p))))"

definition copy_data :: "('p \<Rightarrow> byte list) \<Rightarrow> 'p data option \<Rightarrow> nat \<Rightarrow> c_error + 'p data option" where
  "copy_data heap d n = ebind (read_bytes heap d n) (\<lambda>b. Inr (Some (Copy b)))"

definition maybe_grow :: "'p hashtable \<Rightarrow> 'p hashtable" where
  "maybe_grow t =
     (let current_size = ht_size t
      in if ht_count t > current_size + current_size div 3 \<and> (ht_max_size t = 0 \<or> current_size < ht_max_size t)
         then ht_grow_table t else t)"

text \<open>
  \<open>want\<close> says whether the caller gave a place for the previous data. The result is the return code, what is written to
  the two output places (\<open>None\<close>: nothing) and the table. An item whose data is NULL counts as absent.
\<close>

definition ht_set_internal ::
  "('p \<Rightarrow> byte list) \<Rightarrow> 'p hashtable \<Rightarrow> byte list \<Rightarrow> 'p data option \<Rightarrow> nat \<Rightarrow> bool \<Rightarrow> bool \<Rightarrow> bool \<Rightarrow>
   c_error + (int \<times> ('p data option \<times> nat) option \<times> 'p hashtable)" where
  "ht_set_internal heap t key data dlen want copy inx =
     (if length key = 0 then Inr (- 1, None, t)
      else
        let hash = ht_hash_one_at_a_time (ht_seed t) key;
            (i, t1) = (case ht_get_list t hash of Some i \<Rightarrow> (i, t) | None \<Rightarrow> ht_set_list t hash);
            l = bucket t1 i;
            found = find_item key l;
            prev = (case found of None \<Rightarrow> None | Some j \<Rightarrow> it_data (l ! j));
            plen = (case found of None \<Rightarrow> 0 | Some j \<Rightarrow> it_dlen (l ! j))
        in case prev of
             None \<Rightarrow>
               ebind (if copy then (if dlen \<noteq> 0 then copy_data heap data dlen else Inr None) else Inr data) (\<lambda>d.
                 let item = \<lparr>it_hash = hash, it_key = key, it_data = d, it_dlen = dlen\<rparr>;
                     t2 = (put_bucket i (l @ [item]) t1)\<lparr>ht_cnt := ht_cnt t1 + 1\<rparr>
                 in Inr (0, Some (None, plen), maybe_grow t2))
           | Some p \<Rightarrow>
               if inx then Inr (1, Some (prev, plen), t1)
               else ebind (if copy then copy_data heap data dlen else Inr data) (\<lambda>d.
                 let t2 = put_bucket i (l[the found := (l ! the found)\<lparr>it_dlen := dlen, it_data := d\<rparr>]) t1;
                     t3 = maybe_grow t2
                 in Inr (0, Some (prev, plen), if want then t3 else release prev t3)))"

definition ht_set :: "'p hashtable \<Rightarrow> byte list \<Rightarrow> 'p data option \<Rightarrow> nat \<Rightarrow> c_error + (int \<times> 'p hashtable)" where
  "ht_set t key data dlen =
     ebind (ht_set_internal (\<lambda>_. []) t key data dlen False False False) (\<lambda>(rc, _, t'). Inr (rc, t'))"

definition ht_set_if_not_exists ::
  "'p hashtable \<Rightarrow> byte list \<Rightarrow> 'p data option \<Rightarrow> nat \<Rightarrow> c_error + (int \<times> 'p hashtable)" where
  "ht_set_if_not_exists t key data dlen =
     ebind (ht_set_internal (\<lambda>_. []) t key data dlen False False True) (\<lambda>(rc, _, t'). Inr (rc, t'))"

definition ht_get_or_set ::
  "'p hashtable \<Rightarrow> byte list \<Rightarrow> 'p data option \<Rightarrow> nat \<Rightarrow>
   c_error + (int \<times> ('p data option \<times> nat) option \<times> 'p hashtable)" where
  "ht_get_or_set t key data dlen = ht_set_internal (\<lambda>_. []) t key data dlen True False True"

definition ht_get_and_set ::
  "'p hashtable \<Rightarrow> byte list \<Rightarrow> 'p data option \<Rightarrow> nat \<Rightarrow>
   c_error + (int \<times> ('p data option \<times> nat) option \<times> 'p hashtable)" where
  "ht_get_and_set t key data dlen = ht_set_internal (\<lambda>_. []) t key data dlen True False False"

definition ht_set_copy ::
  "('p \<Rightarrow> byte list) \<Rightarrow> 'p hashtable \<Rightarrow> byte list \<Rightarrow> 'p data option \<Rightarrow> nat \<Rightarrow> bool \<Rightarrow>
   c_error + (int \<times> ('p data option \<times> nat) option \<times> 'p hashtable)" where
  "ht_set_copy heap t key data dlen want = ht_set_internal heap t key data dlen want True False"

section \<open>Calling back on an item\<close>

text \<open>
  A callback sees the table, the data and its length and the caller's state, and gives a code, the new data and length, the
  data it has released and the new state.
\<close>

record ('p, 'u) called =
  c_ret :: int
  c_data :: "'p data option"
  c_dlen :: nat
  c_released :: "'p data option list"
  c_user :: 'u

type_synonym ('p, 'u) pair_callback = "'p hashtable \<Rightarrow> 'p data option \<Rightarrow> nat \<Rightarrow> 'u \<Rightarrow> c_error + ('p, 'u) called"

definition ht_call_internal ::
  "'p hashtable \<Rightarrow> byte list \<Rightarrow> ('p, 'u) pair_callback option \<Rightarrow> 'u \<Rightarrow> c_error + (int \<times> 'u \<times> 'p hashtable)" where
  "ht_call_internal t key cb user =
     (let hash = ht_hash_one_at_a_time (ht_seed t) key
      in case ht_get_list t hash of
           None \<Rightarrow> Inr (- 1, user, t)
         | Some i \<Rightarrow>
             let l = bucket t i
             in case find_item key l of
                  None \<Rightarrow> Inr (- 1, user, t)
                | Some j \<Rightarrow>
                    case cb of
                      None \<Rightarrow> Inr (0, user, t)
                    | Some f \<Rightarrow>
                        ebind (f t (it_data (l ! j)) (it_dlen (l ! j)) user) (\<lambda>r.
                          let t1 = t\<lparr>ht_freed := ht_freed t @ c_released r\<rparr>
                          in if c_ret r = 1
                             then Inr (0, c_user r, (put_bucket i (remove_nth j l) t1)\<lparr>ht_cnt := ht_cnt t - 1\<rparr>)
                             else Inr (c_ret r, c_user r,
                                    put_bucket i (l[j := (l ! j)\<lparr>it_data := c_data r, it_dlen := c_dlen r\<rparr>]) t1)))"

definition ht_call ::
  "'p hashtable \<Rightarrow> byte list \<Rightarrow> ('p, 'u) pair_callback option \<Rightarrow> 'u \<Rightarrow> c_error + (int \<times> 'u \<times> 'p hashtable)" where
  "ht_call t key cb user = ht_call_internal t key cb user"

definition ht_exists :: "'p hashtable \<Rightarrow> byte list \<Rightarrow> c_error + bool" where
  "ht_exists t key = ebind (ht_call_internal t key None ()) (\<lambda>(ret, _, _). Inr (ret = 0))"

text \<open>What a callback passes to the release callback of the table.\<close>

definition releases :: "'p hashtable \<Rightarrow> 'p data option \<Rightarrow> 'p data option list" where
  "releases t v = (if ht_free_cb t then [v] else [])"

record 'p set_if_equals_arg =
  sa_data :: "'p data option"
  sa_dlen :: nat
  sa_match :: "'p data option"
  sa_match_size :: nat
  sa_matched :: bool
  sa_want :: bool
  sa_prev :: "('p data option \<times> nat) option"

text \<open>The first byte is compared before the rest.\<close>

definition ht_set_if_equals_helper :: "('p \<Rightarrow> byte list) \<Rightarrow> ('p, 'p set_if_equals_arg) pair_callback" where
  "ht_set_if_equals_helper heap t v vlen a0 =
     (let a = a0\<lparr>sa_prev := Some (v, vlen)\<rparr>;
          keep = \<lparr>c_ret = 0, c_data = v, c_dlen = vlen, c_released = [], c_user = a\<rparr>
      in if sa_match_size a \<noteq> vlen then Inr keep
         else ebind (read_bytes heap v 1) (\<lambda>b1.
              ebind (read_bytes heap (sa_match a) 1) (\<lambda>b2.
                if b1 \<noteq> b2 then Inr keep
                else ebind (read_bytes heap v vlen) (\<lambda>c1.
                     ebind (read_bytes heap (sa_match a) vlen) (\<lambda>c2.
                       if c1 \<noteq> c2 then Inr keep
                       else Inr \<lparr>c_ret = 0, c_data = sa_data a, c_dlen = sa_dlen a,
                                 c_released = (if sa_want a then [] else releases t v),
                                 c_user = a\<lparr>sa_matched := True\<rparr>\<rparr>)))))"

definition ht_set_if_equals ::
  "('p \<Rightarrow> byte list) \<Rightarrow> 'p hashtable \<Rightarrow> byte list \<Rightarrow> 'p data option \<Rightarrow> nat \<Rightarrow> 'p data option \<Rightarrow> nat \<Rightarrow> bool \<Rightarrow>
   c_error + (int \<times> ('p data option \<times> nat) option \<times> 'p hashtable)" where
  "ht_set_if_equals heap t key data dlen mtch match_size want =
     (if mtch = None \<and> match_size = 0
      then ebind (ht_set_if_not_exists t key data dlen) (\<lambda>(rc, t'). Inr (rc, None, t'))
      else ebind (ht_call_internal t key (Some (ht_set_if_equals_helper heap))
                    \<lparr>sa_data = data, sa_dlen = dlen, sa_match = mtch, sa_match_size = match_size, sa_matched = False,
                     sa_want = want, sa_prev = None\<rparr>) (\<lambda>(ret, a, t').
             Inr (if ret = 0 then if sa_matched a then 0 else 1 else - 1, sa_prev a, t')))"

record 'p delete_arg =
  da_unset :: bool
  da_want :: bool
  da_prev :: "('p data option \<times> nat) option"
  da_match :: "'p data option"
  da_match_size :: nat

definition ht_delete_helper :: "('p \<Rightarrow> byte list) \<Rightarrow> ('p, 'p delete_arg) pair_callback" where
  "ht_delete_helper heap t v vlen a =
     (let refuse = \<lparr>c_ret = - 1, c_data = v, c_dlen = vlen, c_released = [], c_user = a\<rparr>;
          rel = (if da_want a then [] else releases t v);
          a' = a\<lparr>da_prev := Some (v, vlen)\<rparr>;
          accept = (if da_unset a
                    then \<lparr>c_ret = 0, c_data = None, c_dlen = 0, c_released = rel, c_user = a'\<rparr>
                    else \<lparr>c_ret = 1, c_data = v, c_dlen = vlen, c_released = rel, c_user = a'\<rparr>)
      in if da_match a = None then Inr accept
         else if da_match_size a \<noteq> vlen then Inr refuse
         else ebind (read_bytes heap (da_match a) vlen) (\<lambda>b1.
              ebind (read_bytes heap v vlen) (\<lambda>b2.
                if b1 \<noteq> b2 then Inr refuse else Inr accept)))"

definition ht_unset ::
  "'p hashtable \<Rightarrow> byte list \<Rightarrow> bool \<Rightarrow> c_error + (int \<times> ('p data option \<times> nat) option \<times> 'p hashtable)" where
  "ht_unset t key want =
     ebind (ht_call_internal t key (Some (ht_delete_helper (\<lambda>_. [])))
              \<lparr>da_unset = True, da_want = want, da_prev = None, da_match = None, da_match_size = 0\<rparr>) (\<lambda>(ret, a, t').
       Inr (ret, da_prev a, t'))"

definition ht_delete_internal ::
  "('p \<Rightarrow> byte list) \<Rightarrow> 'p hashtable \<Rightarrow> byte list \<Rightarrow> bool \<Rightarrow> 'p data option \<Rightarrow> nat \<Rightarrow>
   c_error + (int \<times> ('p data option \<times> nat) option \<times> 'p hashtable)" where
  "ht_delete_internal heap t key want mtch match_size =
     ebind (ht_call_internal t key (Some (ht_delete_helper heap))
              \<lparr>da_unset = False, da_want = want, da_prev = None, da_match = mtch, da_match_size = match_size\<rparr>)
       (\<lambda>(ret, a, t'). Inr (ret, da_prev a, t'))"

definition ht_delete ::
  "'p hashtable \<Rightarrow> byte list \<Rightarrow> bool \<Rightarrow> c_error + (int \<times> ('p data option \<times> nat) option \<times> 'p hashtable)" where
  "ht_delete t key want = ht_delete_internal (\<lambda>_. []) t key want None 0"

definition ht_delete_if_equals ::
  "('p \<Rightarrow> byte list) \<Rightarrow> 'p hashtable \<Rightarrow> byte list \<Rightarrow> 'p data option \<Rightarrow> nat \<Rightarrow> c_error + (int \<times> 'p hashtable)" where
  "ht_delete_if_equals heap t key mtch match_size =
     ebind (ht_delete_internal heap t key False mtch match_size) (\<lambda>(ret, _, t'). Inr (ret, t'))"

record ('p, 'v) get_arg =
  ga_data :: "'p data option"
  ga_dlen :: "nat option"
  ga_copy :: bool
  ga_copy_cb :: "('p data option \<Rightarrow> nat \<Rightarrow> 'v \<Rightarrow> 'p data option) option"
  ga_user :: 'v

definition ht_get_helper :: "('p \<Rightarrow> byte list) \<Rightarrow> ('p, ('p, 'v) get_arg) pair_callback" where
  "ht_get_helper heap t v vlen a =
     ebind (if ga_copy a then
              (case ga_copy_cb a of
                 Some f \<Rightarrow> Inr (f v vlen (ga_user a))
               | None \<Rightarrow> copy_data heap v vlen)
            else Inr v) (\<lambda>d.
       Inr \<lparr>c_ret = 0, c_data = v, c_dlen = vlen, c_released = [], c_user = a\<lparr>ga_data := d, ga_dlen := Some vlen\<rparr>\<rparr>)"

text \<open>The result is the data and what is written to \<^verbatim>\<open>dlen\<close> (\<open>None\<close>: nothing).\<close>

definition ht_get_internal ::
  "('p \<Rightarrow> byte list) \<Rightarrow> 'p hashtable \<Rightarrow> byte list \<Rightarrow> bool \<Rightarrow> ('p data option \<Rightarrow> nat \<Rightarrow> 'v \<Rightarrow> 'p data option) option \<Rightarrow>
   'v \<Rightarrow> c_error + ('p data option \<times> nat option)" where
  "ht_get_internal heap t key copy copy_cb user =
     ebind (ht_call_internal t key (Some (ht_get_helper heap))
              \<lparr>ga_data = None, ga_dlen = None, ga_copy = copy, ga_copy_cb = copy_cb, ga_user = user\<rparr>)
       (\<lambda>(_, a, _). Inr (ga_data a, ga_dlen a))"

definition ht_get :: "'p hashtable \<Rightarrow> byte list \<Rightarrow> c_error + ('p data option \<times> nat option)" where
  "ht_get t key = ht_get_internal (\<lambda>_. []) t key False None ()"

definition ht_get_copy ::
  "('p \<Rightarrow> byte list) \<Rightarrow> 'p hashtable \<Rightarrow> byte list \<Rightarrow> c_error + ('p data option \<times> nat option)" where
  "ht_get_copy heap t key = ht_get_internal heap t key True None ()"

definition ht_get_deep_copy ::
  "'p hashtable \<Rightarrow> byte list \<Rightarrow> ('p data option \<Rightarrow> nat \<Rightarrow> 'v \<Rightarrow> 'p data option) \<Rightarrow> 'v \<Rightarrow>
   c_error + ('p data option \<times> nat option)" where
  "ht_get_deep_copy t key copy_cb user = ht_get_internal (\<lambda>_. []) t key True (Some copy_cb) user"

section \<open>Iterating\<close>

record hashtable_key =
  hk_data :: "byte list"
  hk_vlen :: nat

record 'p hashtable_value =
  hv_data :: "'p data option"
  hv_len :: nat
  hv_key :: "byte list"

definition ht_get_all_keys :: "'p hashtable \<Rightarrow> hashtable_key linked_list" where
  "ht_get_all_keys t =
     foldl (\<lambda>out i. foldl (\<lambda>out it.
       snd (list_push_value (Some \<lparr>hk_data = it_key it, hk_vlen = it_dlen it\<rparr>) out)) out (bucket t i))
       list_create (ht_iter t)"

definition ht_get_all_values :: "'p hashtable \<Rightarrow> 'p hashtable_value linked_list" where
  "ht_get_all_values t =
     foldl (\<lambda>out i. foldl (\<lambda>out it.
       snd (list_push_value (Some \<lparr>hv_data = it_data it, hv_len = it_dlen it, hv_key = it_key it\<rparr>) out)) out (bucket t i))
       list_create (ht_iter t)"

text \<open>Within a bucket: up to the first item for which the callback does not ask to continue; its position and the code.\<close>

fun foreach_items ::
  "('u \<Rightarrow> byte list \<Rightarrow> 'p data option \<Rightarrow> nat \<Rightarrow> int \<times> 'u) \<Rightarrow> 'p ht_item list \<Rightarrow> 'u \<Rightarrow> (nat \<times> int) option \<times> 'u" where
  "foreach_items cb [] u = (None, u)"
| "foreach_items cb (it # its) u =
     (let (rc, u') = cb u (it_key it) (it_data it) (it_dlen it)
      in if rc \<le> 0 then (Some (0, rc), u')
         else let (r, u'') = foreach_items cb its u' in (map_option (\<lambda>(j, rc). (Suc j, rc)) r, u''))"

text \<open>The lists in turn. A removed item is released but the count is not changed, and the rest of its list is not visited.\<close>

fun foreach_lists ::
  "('u \<Rightarrow> byte list \<Rightarrow> 'p data option \<Rightarrow> nat \<Rightarrow> int \<times> 'u) \<Rightarrow> nat list \<Rightarrow> 'p hashtable \<Rightarrow> 'u \<Rightarrow> 'p hashtable \<times> 'u" where
  "foreach_lists cb [] t u = (t, u)"
| "foreach_lists cb (i # is) t u =
     (let l = bucket t i
      in case foreach_items cb l u of
           (None, u') \<Rightarrow> foreach_lists cb is t u'
         | (Some (j, rc), u') \<Rightarrow>
             if rc = 0 then (t, u')
             else let t' = release (it_data (l ! j)) (put_bucket i (remove_nth j l) t)
                  in if rc = - 2 then (t', u') else foreach_lists cb is t' u')"

definition ht_foreach_pair ::
  "'p hashtable \<Rightarrow> ('u \<Rightarrow> byte list \<Rightarrow> 'p data option \<Rightarrow> nat \<Rightarrow> int \<times> 'u) \<Rightarrow> 'u \<Rightarrow> 'p hashtable \<times> 'u" where
  "ht_foreach_pair t cb u = foreach_lists cb (ht_iter t) t u"

definition ht_foreach_key :: "'p hashtable \<Rightarrow> ('u \<Rightarrow> byte list \<Rightarrow> int \<times> 'u) \<Rightarrow> 'u \<Rightarrow> 'p hashtable \<times> 'u" where
  "ht_foreach_key t cb u = ht_foreach_pair t (\<lambda>u key v vlen. cb u key) u"

definition ht_foreach_value ::
  "'p hashtable \<Rightarrow> ('u \<Rightarrow> 'p data option \<Rightarrow> nat \<Rightarrow> int \<times> 'u) \<Rightarrow> 'u \<Rightarrow> 'p hashtable \<times> 'u" where
  "ht_foreach_value t cb u = ht_foreach_pair t (\<lambda>u key v vlen. cb u v vlen) u"

section \<open>The invariant\<close>

abbreviation key_hash :: "'p hashtable \<Rightarrow> byte list \<Rightarrow> c_int" where
  "key_hash t k \<equiv> ht_hash_one_at_a_time (ht_seed t) k"

abbreviation key_index :: "'p hashtable \<Rightarrow> byte list \<Rightarrow> nat" where
  "key_index t k \<equiv> list_index t (key_hash t k)"

text \<open>The array and the iterator refer to the same lists.\<close>

definition shape_ok :: "'p hashtable \<Rightarrow> bool" where
  "shape_ok t \<longleftrightarrow> 0 < ht_size t \<and> length (ht_items t) = ht_size t \<and> distinct (ht_iter t) \<and>
     (\<forall>i. i \<in> set (ht_iter t) \<longleftrightarrow> i < ht_size t \<and> ht_items t ! i \<noteq> None)"

definition item_ok :: "'p hashtable \<Rightarrow> nat \<Rightarrow> 'p ht_item \<Rightarrow> bool" where
  "item_ok t i x \<longleftrightarrow> it_key x \<noteq> [] \<and> it_hash x = key_hash t (it_key x) \<and> list_index t (it_hash x) = i"

definition item_total :: "'p hashtable \<Rightarrow> nat" where
  "item_total t = (\<Sum>i<ht_size t. length (bucket t i))"

definition ht_inv :: "'p hashtable \<Rightarrow> bool" where
  "ht_inv t \<longleftrightarrow> shape_ok t \<and> (\<forall>i<ht_size t. \<forall>x\<in>set (bucket t i). item_ok t i x) \<and> ht_cnt t = item_total t"

definition all_items :: "'p hashtable \<Rightarrow> 'p ht_item list" where
  "all_items t = concat (map (bucket t) (ht_iter t))"

definition with_key :: "byte list \<Rightarrow> 'p ht_item list \<Rightarrow> 'p ht_item list" where
  "with_key k its = filter (\<lambda>x. it_key x = k) its"

definition first_pair :: "'p ht_item list \<Rightarrow> ('p data option \<times> nat) option" where
  "first_pair its = (case its of [] \<Rightarrow> None | x # _ \<Rightarrow> Some (it_data x, it_dlen x))"

text \<open>The map a table stands for: of the items with a key the first counts.\<close>

definition ht_map :: "'p hashtable \<Rightarrow> byte list \<rightharpoonup> 'p data option \<times> nat" where
  "ht_map t k = first_pair (with_key k (bucket t (key_index t k)))"

text \<open>No NULL data and no key twice: what the table has as long as no caller stores NULL.\<close>

definition ht_live :: "'p hashtable \<Rightarrow> bool" where
  "ht_live t \<longleftrightarrow> (\<forall>k. length (with_key k (bucket t (key_index t k))) \<le> 1) \<and>
     (\<forall>i<ht_size t. \<forall>x\<in>set (bucket t i). it_data x \<noteq> None)"

lemma with_key_simps [simp]:
  "with_key k [] = []"
  "with_key k (x # xs) = (if it_key x = k then x # with_key k xs else with_key k xs)"
  "with_key k (xs @ ys) = with_key k xs @ with_key k ys"
  by (simp_all add: with_key_def)

lemma first_pair_simps [simp]:
  "first_pair [] = None" "first_pair (x # xs) = Some (it_data x, it_dlen x)"
  "first_pair (xs @ ys) = (case first_pair xs of None \<Rightarrow> first_pair ys | Some p \<Rightarrow> Some p)"
  by (auto simp: first_pair_def split: list.splits)

lemma key_equals_iff [simp]: "ht_key_equals a b \<longleftrightarrow> a = b"
  by (auto simp: ht_key_equals_def)

lemma find_item_None: "find_item k its = None \<longleftrightarrow> with_key k its = []"
  by (induction its) auto

lemma find_item_Some:
  "find_item k its = Some j \<Longrightarrow> j < length its \<and> it_key (its ! j) = k \<and>
     first_pair (with_key k its) = Some (it_data (its ! j), it_dlen (its ! j)) \<and>
     (\<forall>y. it_key y = k \<longrightarrow> first_pair (with_key k (its[j := y])) = Some (it_data y, it_dlen y)) \<and>
     (\<forall>y k'. it_key y = k \<longrightarrow> k' \<noteq> k \<longrightarrow> with_key k' (its[j := y]) = with_key k' its)"
  by (induction its arbitrary: j) (auto split: if_splits)

lemma with_key_index:
  assumes "ht_inv t" and "i < ht_size t" and "i \<noteq> key_index t k"
  shows "with_key k (bucket t i) = []"
  using assms unfolding ht_inv_def item_ok_def with_key_def filter_empty_conv by metis

lemma key_index_less [simp]: "shape_ok t \<Longrightarrow> list_index t h < ht_size t"
  by (simp add: list_index_def shape_ok_def)

lemma inv_shape: "ht_inv t \<Longrightarrow> shape_ok t"
  by (simp add: ht_inv_def)

lemma with_key_all:
  assumes "ht_inv t"
  shows "with_key k (all_items t) = with_key k (bucket t (key_index t k))"
proof -
  have s: "shape_ok t" using assms by (rule inv_shape)
  have "with_key k (concat (map (bucket t) is)) =
      (if key_index t k \<in> set is then with_key k (bucket t (key_index t k)) else [])"
    if "distinct is" and "\<forall>i \<in> set is. i < ht_size t" for "is"
    using that
  proof (induction "is")
    case (Cons a "is")
    then show ?case using with_key_index [OF assms, of a k] by (cases "a = key_index t k") auto
  qed simp
  moreover have "bucket t (key_index t k) = []" if "key_index t k \<notin> set (ht_iter t)"
    using that s by (auto simp: bucket_def shape_ok_def list_index_def split: option.splits)
  ultimately show ?thesis
    using s by (auto simp: all_items_def shape_ok_def)
qed

lemma length_all_items:
  assumes "shape_ok t"
  shows "length (all_items t) = item_total t"
proof -
  have "length (all_items t) = (\<Sum>i \<in> set (ht_iter t). length (bucket t i))"
    using assms by (simp add: all_items_def length_concat comp_def shape_ok_def sum_list_distinct_conv_sum_set)
  also have "\<dots> = item_total t"
    unfolding item_total_def
    by (rule sum.mono_neutral_left)
       (use assms in \<open>auto simp: shape_ok_def bucket_def split: option.splits\<close>)
  finally show ?thesis .
qed

section \<open>Replacing a bucket\<close>

lemma bucket_put:
  "i < length (ht_items t) \<Longrightarrow> bucket (put_bucket i l t) j = (if j = i then l else bucket t j)"
  by (auto simp: bucket_def put_bucket_def nth_list_update)

lemma put_fields [simp]:
  "ht_size (put_bucket i l t) = ht_size t" "ht_seed (put_bucket i l t) = ht_seed t"
  "ht_cnt (put_bucket i l t) = ht_cnt t" "ht_freed (put_bucket i l t) = ht_freed t"
  "ht_free_cb (put_bucket i l t) = ht_free_cb t" "ht_max_size (put_bucket i l t) = ht_max_size t"
  "ht_iter (put_bucket i l t) = ht_iter t"
  by (simp_all add: put_bucket_def)

text \<open>The parts of a table its buckets depend on.\<close>

definition same_buckets :: "'p hashtable \<Rightarrow> 'p hashtable \<Rightarrow> bool" where
  "same_buckets t t' \<longleftrightarrow> ht_size t' = ht_size t \<and> ht_seed t' = ht_seed t \<and> ht_items t' = ht_items t \<and> ht_iter t' = ht_iter t"

lemma same_bucketsD:
  assumes "same_buckets t t'"
  shows "bucket t' = bucket t" "shape_ok t' = shape_ok t" "item_ok t' = item_ok t" "item_total t' = item_total t"
    "ht_live t' = ht_live t" "ht_map t' = ht_map t" "list_index t' = list_index t" "ht_seed t' = ht_seed t"
    "ht_size t' = ht_size t" "all_items t' = all_items t"
proof -
  show b: "bucket t' = bucket t" and s: "ht_size t' = ht_size t" and d: "ht_seed t' = ht_seed t"
    using assms by (auto simp: same_buckets_def bucket_def)
  then show l: "list_index t' = list_index t" by (auto simp: list_index_def)
  show "shape_ok t' = shape_ok t" "item_ok t' = item_ok t" "item_total t' = item_total t" "ht_live t' = ht_live t"
    "ht_map t' = ht_map t"
    using assms b s d l
    by (auto simp: same_buckets_def shape_ok_def item_ok_def item_total_def ht_live_def ht_map_def fun_eq_iff)
  show "all_items t' = all_items t"
    using assms by (simp add: b same_buckets_def all_items_def)
qed

lemma put_bucket_inv:
  assumes "ht_inv t" and "i < ht_size t" and "ht_items t ! i \<noteq> None"
    and "\<forall>x \<in> set l. item_ok t i x" and "c + length (bucket t i) = ht_cnt t + length l"
  shows "ht_inv ((put_bucket i l t)\<lparr>ht_cnt := c\<rparr>)"
proof -
  define t1 where "t1 = put_bucket i l t"
  have len: "i < length (ht_items t)" using assms(1,2) by (simp add: ht_inv_def shape_ok_def)
  have b: "bucket t1 j = (if j = i then l else bucket t j)" for j
    using len by (simp add: t1_def bucket_put)
  have "shape_ok t1"
    using assms(1,2,3) by (auto simp: t1_def put_bucket_def ht_inv_def shape_ok_def nth_list_update)
  moreover have "item_ok t1 = item_ok t"
    by (auto simp: fun_eq_iff item_ok_def list_index_def t1_def)
  moreover have "item_total t1 + length (bucket t i) = item_total t + length l"
  proof -
    have i: "i \<in> {..<ht_size t}" using assms(2) by simp
    have "item_total t1 = length l + (\<Sum>j \<in> {..<ht_size t} - {i}. length (bucket t j))"
      using sum.remove [OF finite_lessThan i, of "\<lambda>j. length (bucket t1 j)"]
      unfolding item_total_def b by (simp add: t1_def)
    moreover have "item_total t = length (bucket t i) + (\<Sum>j \<in> {..<ht_size t} - {i}. length (bucket t j))"
      using sum.remove [OF finite_lessThan i] by (simp add: item_total_def)
    ultimately show ?thesis by simp
  qed
  ultimately have "shape_ok t1 \<and> (\<forall>j<ht_size t1. \<forall>x\<in>set (bucket t1 j). item_ok t1 j x) \<and> c = item_total t1"
    using assms(1,4,5) by (auto simp: ht_inv_def b) (simp_all add: t1_def)
  moreover have "same_buckets t1 (t1\<lparr>ht_cnt := c\<rparr>)" by (simp add: same_buckets_def)
  ultimately show ?thesis
    using same_bucketsD [of t1 "t1\<lparr>ht_cnt := c\<rparr>"] by (simp add: ht_inv_def t1_def)
qed

section \<open>Growing keeps the map\<close>

definition slot_items :: "'p ht_item list option list \<Rightarrow> nat \<Rightarrow> 'p ht_item list" where
  "slot_items items i = (case items ! i of None \<Rightarrow> [] | Some l \<Rightarrow> l)"

definition slots_ok :: "nat \<Rightarrow> 'p ht_item list option list \<Rightarrow> nat list \<Rightarrow> bool" where
  "slots_ok n items it \<longleftrightarrow> length items = n \<and> distinct it \<and> (\<forall>i. i \<in> set it \<longleftrightarrow> i < n \<and> items ! i \<noteq> None)"

lemma move_item_spec:
  assumes "slots_ok n items it" and "0 < n" and "move_item n (items, it) x = (items', it')"
  shows "slots_ok n items' it' \<and>
    (\<forall>i<n. slot_items items' i = slot_items items i @ (if unat (it_hash x) mod n = i then [x] else []))"
proof -
  have i: "unat (it_hash x) mod n < length items"
    using assms(1,2) by (simp add: slots_ok_def)
  define j where "j = unat (it_hash x) mod n"
  have j: "j < n" "length items = n" "j \<in> set it \<longleftrightarrow> items ! j \<noteq> None"
    using i assms(1) by (auto simp: j_def slots_ok_def)
  have its: "items' = items[j := Some (slot_items items j @ [x])]" "it' = (if items ! j = None then it @ [j] else it)"
    using assms(3) by (auto simp: move_item_def j_def Let_def slot_items_def split: option.splits)
  have "slots_ok n items' it'"
    using assms(1) j unfolding slots_ok_def its by (auto simp: nth_list_update)
  moreover have "slot_items items' i = slot_items items i @ (if j = i then [x] else [])" if "i < n" for i
    using j that by (auto simp: its slot_items_def nth_list_update)
  ultimately show ?thesis by (simp add: j_def)
qed

lemma move_items_spec:
  assumes "slots_ok n items it" and "0 < n" and "foldl (move_item n) (items, it) xs = (items', it')"
  shows "slots_ok n items' it' \<and>
    (\<forall>i<n. slot_items items' i = slot_items items i @ filter (\<lambda>x. unat (it_hash x) mod n = i) xs)"
  using assms(1,3)
proof (induction xs arbitrary: items it)
  case (Cons x xs)
  obtain items1 it1 where m: "move_item n (items, it) x = (items1, it1)"
    by (cases "move_item n (items, it) x")
  from move_item_spec [OF Cons.prems(1) assms(2) m] Cons.IH [of items1 it1] Cons.prems(2) m
  show ?case by auto
qed simp

lemma foldl_foldl: "foldl (\<lambda>st i. foldl f st (g i)) st is = foldl f st (concat (map g is))"
  by (induction "is" arbitrary: st) simp_all

lemma sum_filter_lengths:
  fixes f :: "'a \<Rightarrow> nat"
  assumes "\<forall>x \<in> set xs. f x < n"
  shows "(\<Sum>i<n. length (filter (\<lambda>x. f x = i) xs)) = length xs"
  using assms
proof (induction xs)
  case (Cons x xs)
  have "(\<Sum>i<n. length (filter (\<lambda>y. f y = i) (x # xs))) =
      (\<Sum>i<n. (if i = f x then 1 else 0) + length (filter (\<lambda>y. f y = i) xs))"
    by (rule sum.cong) auto
  also have "\<dots> = 1 + length xs"
    using Cons by (simp add: sum.distrib)
  finally show ?case by simp
qed simp

lemma grow_spec:
  assumes "ht_inv t"
  shows "ht_inv (ht_grow_table t) \<and> ht_map (ht_grow_table t) = ht_map t \<and>
    (ht_live t \<longrightarrow> ht_live (ht_grow_table t)) \<and>
    ht_freed (ht_grow_table t) = ht_freed t \<and> ht_free_cb (ht_grow_table t) = ht_free_cb t \<and>
    ht_cnt (ht_grow_table t) = ht_cnt t"
proof (cases "ht_max_size t \<noteq> 0 \<and> ht_max_size t \<le> ht_size t")
  case True
  then show ?thesis using assms by (simp add: ht_grow_table_def)
next
  case False
  define n where "n = (if ht_max_size t \<noteq> 0 \<and> ht_max_size t < ht_size t * 2 then ht_max_size t else ht_size t * 2)"
  obtain items it where m: "foldl (move_item n) (replicate n None, []) (all_items t) = (items, it)"
    by (cases "foldl (move_item n) (replicate n None, []) (all_items t)")
  define t' where "t' = t\<lparr>ht_items := items, ht_size := n, ht_iter := it\<rparr>"
  have t': "ht_grow_table t = t'"
    using False m unfolding ht_grow_table_def Let_def n_def [symmetric] foldl_foldl all_items_def t'_def by auto
  have s: "shape_ok t" using assms by (rule inv_shape)
  have n: "0 < n" using s by (auto simp: n_def shape_ok_def)
  have sp: "slots_ok n items it" "\<forall>i<n. slot_items items i = filter (\<lambda>x. unat (it_hash x) mod n = i) (all_items t)"
    using move_items_spec [OF _ n m] n by (auto simp: slots_ok_def slot_items_def)
  have b: "bucket t' i = filter (\<lambda>x. list_index t' (it_hash x) = i) (all_items t)" if "i < n" for i
    using sp(2) that by (simp add: bucket_def slot_items_def t'_def list_index_def)
  have ok: "it_key x \<noteq> [] \<and> it_hash x = key_hash t (it_key x)" if "x \<in> set (all_items t)" for x
    using that assms s by (force simp: all_items_def ht_inv_def item_ok_def shape_ok_def)
  have sh: "shape_ok t'" using sp(1) n by (simp add: slots_ok_def shape_ok_def t'_def)
  have li: "list_index t' h < n" for h using n by (simp add: list_index_def t'_def)
  have "item_total t' = length (all_items t)"
    unfolding item_total_def using sum_filter_lengths [of "all_items t" "\<lambda>x. list_index t' (it_hash x)" n] li
    by (simp add: b t'_def [THEN arg_cong, of ht_size, simplified] cong: sum.cong_simp)
  then have inv: "ht_inv t'"
    using sh ok b length_all_items [OF s] assms
    by (auto simp: ht_inv_def item_ok_def t'_def)
  have wk: "with_key k (bucket t' (key_index t' k)) = with_key k (all_items t)" for k
    unfolding b [OF li] with_key_def filter_filter
    by (rule filter_cong) (use ok in \<open>auto simp: t'_def\<close>)
  have map: "ht_map t' = ht_map t"
    using wk with_key_all [OF assms] by (auto simp: ht_map_def fun_eq_iff)
  have "ht_live t'" if "ht_live t"
  proof -
    have "length (with_key k (bucket t' (key_index t' k))) \<le> 1" for k
      using that with_key_all [OF assms, of k] by (simp add: wk ht_live_def)
    moreover have "it_data x \<noteq> None" if "x \<in> set (all_items t)" for x
      using that \<open>ht_live t\<close> s by (force simp: all_items_def ht_live_def shape_ok_def)
    ultimately show ?thesis
      unfolding ht_live_def by (auto simp: b t'_def [THEN arg_cong, of ht_size, simplified])
  qed
  with inv map show ?thesis by (simp add: t' ) (simp add: t'_def)
qed

lemma maybe_grow_spec:
  assumes "ht_inv t"
  shows "ht_inv (maybe_grow t) \<and> ht_map (maybe_grow t) = ht_map t \<and> (ht_live t \<longrightarrow> ht_live (maybe_grow t)) \<and>
    ht_freed (maybe_grow t) = ht_freed t \<and> ht_free_cb (maybe_grow t) = ht_free_cb t \<and>
    ht_cnt (maybe_grow t) = ht_cnt t"
  using grow_spec [OF assms] assms by (simp add: maybe_grow_def Let_def)

section \<open>Storing an item\<close>

definition get_or_set_list :: "'p hashtable \<Rightarrow> c_int \<Rightarrow> nat \<times> 'p hashtable" where
  "get_or_set_list t h = (case ht_get_list t h of Some i \<Rightarrow> (i, t) | None \<Rightarrow> ht_set_list t h)"

lemma get_or_set_list_spec:
  assumes "ht_inv t"
  shows "\<exists>t1. get_or_set_list t h = (list_index t h, t1) \<and> ht_inv t1 \<and> bucket t1 = bucket t \<and>
    ht_items t1 ! list_index t h \<noteq> None \<and> ht_size t1 = ht_size t \<and> ht_seed t1 = ht_seed t \<and> ht_cnt t1 = ht_cnt t \<and>
    ht_freed t1 = ht_freed t \<and> ht_free_cb t1 = ht_free_cb t \<and> ht_max_size t1 = ht_max_size t"
proof -
  let ?i = "list_index t h"
  have s: "shape_ok t" and i: "?i < ht_size t"
    using assms inv_shape key_index_less by blast+
  show ?thesis
  proof (cases "ht_items t ! ?i")
    case (Some l)
    with assms show ?thesis by (simp add: get_or_set_list_def ht_get_list_def)
  next
    case None
    define t1 where "t1 = t\<lparr>ht_items := (ht_items t)[?i := Some []], ht_iter := ht_iter t @ [?i]\<rparr>"
    have b: "bucket t1 = bucket t"
      using i s None by (auto simp: t1_def bucket_def fun_eq_iff nth_list_update shape_ok_def)
    have "shape_ok t1"
      using s i None by (auto simp: shape_ok_def t1_def nth_list_update)
    moreover have "item_ok t1 = item_ok t" "item_total t1 = item_total t" "ht_size t1 = ht_size t" "ht_cnt t1 = ht_cnt t"
      by (auto simp: item_total_def b item_ok_def list_index_def fun_eq_iff) (simp_all add: t1_def)
    ultimately have "ht_inv t1"
      using assms b by (simp add: ht_inv_def)
    moreover have "get_or_set_list t h = (?i, t1)"
      using None by (simp add: get_or_set_list_def ht_get_list_def ht_set_list_def t1_def Let_def)
    moreover have "ht_items t1 ! ?i \<noteq> None"
      using i s by (simp add: t1_def shape_ok_def)
    ultimately show ?thesis using b by (auto simp: t1_def)
  qed
qed

lemma map_put:
  assumes "shape_ok t" and "ht_size t' = ht_size t" and "ht_seed t' = ht_seed t"
    and "\<And>j. bucket t' j = (if j = key_index t key then l else bucket t j)"
    and "\<And>k. k \<noteq> key \<Longrightarrow> key_index t k = key_index t key \<Longrightarrow> with_key k l = with_key k (bucket t (key_index t key))"
  shows "ht_map t' = (ht_map t)(key := first_pair (with_key key l))"
proof
  fix k
  have "list_index t' = list_index t" using assms(2) by (auto simp: list_index_def)
  then show "ht_map t' k = ((ht_map t)(key := first_pair (with_key key l))) k"
    using assms(3,4,5) by (auto simp: ht_map_def)
qed

lemma live_put:
  assumes "ht_live t" and "ht_size t' = ht_size t" and "ht_seed t' = ht_seed t"
    and "\<And>j. bucket t' j = (if j = key_index t key then l else bucket t j)"
    and "\<And>k. k \<noteq> key \<Longrightarrow> key_index t k = key_index t key \<Longrightarrow> length (with_key k l) \<le> 1"
    and "length (with_key key l) \<le> 1" and "\<forall>x\<in>set l. it_data x \<noteq> None"
  shows "ht_live t'"
proof -
  have "list_index t' = list_index t" using assms(2) by (auto simp: list_index_def)
  moreover have "length (with_key k (bucket t' (key_index t k))) \<le> 1" for k
    using assms(1,4,5,6) by (cases "k = key") (auto simp: ht_live_def)
  ultimately show ?thesis
    using assms(1,2,3,4,7) by (auto simp: ht_live_def)
qed

lemma with_key_update_length: "it_key y = it_key (l ! j) \<Longrightarrow> length (with_key k (l[j := y])) = length (with_key k l)"
proof (induction l arbitrary: j)
  case (Cons x l)
  then show ?case by (cases j) auto
qed simp

text \<open>A key with no item, or one whose data is NULL: an item is added at the end of its bucket.\<close>

lemma set_fresh:
  assumes inv: "ht_inv t" and key: "key \<noteq> []"
    and absent: "ht_map t key = None \<or> (\<exists>n. ht_map t key = Some (None, n))"
    and d: "(if copy then (if dlen \<noteq> 0 then copy_data heap data dlen else Inr None) else Inr data) = Inr d"
  shows "\<exists>n t'. ht_set_internal heap t key data dlen want copy inx = Inr (0, Some (None, n), t') \<and> ht_inv t' \<and>
    ht_cnt t' = ht_cnt t + 1 \<and> ht_freed t' = ht_freed t \<and> ht_free_cb t' = ht_free_cb t \<and>
    ht_map t' = (if ht_map t key = None then (ht_map t)(key \<mapsto> (d, dlen)) else ht_map t) \<and>
    (ht_live t \<and> ht_map t key = None \<and> d \<noteq> None \<longrightarrow> ht_live t')"
proof -
  let ?h = "key_hash t key" and ?i = "key_index t key"
  obtain t1 where t1: "get_or_set_list t ?h = (?i, t1)" "ht_inv t1" "bucket t1 = bucket t" "ht_items t1 ! ?i \<noteq> None"
      "ht_size t1 = ht_size t" "ht_seed t1 = ht_seed t" "ht_cnt t1 = ht_cnt t"
      "ht_freed t1 = ht_freed t" "ht_free_cb t1 = ht_free_cb t"
    using get_or_set_list_spec [OF inv, of ?h] by blast
  define x where "x = \<lparr>it_hash = ?h, it_key = key, it_data = d, it_dlen = dlen\<rparr>"
  define l where "l = bucket t ?i"
  define t2 where "t2 = (put_bucket ?i (l @ [x]) t1)\<lparr>ht_cnt := ht_cnt t1 + 1\<rparr>"
  have li: "list_index t1 = list_index t" using t1(5) by (auto simp: list_index_def)
  have i: "?i < ht_size t1" using inv_shape [OF inv] t1(5) by simp
  have okl: "\<forall>y \<in> set (l @ [x]). item_ok t1 ?i y"
  proof
    fix y assume "y \<in> set (l @ [x])"
    then consider "y \<in> set (bucket t1 ?i)" | "y = x" by (auto simp: l_def t1(3))
    then show "item_ok t1 ?i y"
    proof cases
      case 1 then show ?thesis using t1(2) i by (simp add: ht_inv_def)
    next
      case 2 then show ?thesis using key by (simp add: item_ok_def x_def t1(6) li)
    qed
  qed
  have inv2: "ht_inv t2"
    unfolding t2_def by (rule put_bucket_inv [OF t1(2) i t1(4) okl]) (simp add: l_def t1(3))
  have "?i < length (ht_items t1)" using i t1(2) by (simp add: ht_inv_def shape_ok_def)
  then have b2: "bucket t2 j = (if j = ?i then l @ [x] else bucket t j)" for j
    using bucket_put [of ?i t1 "l @ [x]" j] t1(3) by (simp add: t2_def bucket_def)
  have f2: "ht_size t2 = ht_size t" "ht_seed t2 = ht_seed t" "ht_cnt t2 = ht_cnt t + 1" "ht_freed t2 = ht_freed t"
      "ht_free_cb t2 = ht_free_cb t"
    by (simp_all add: t2_def t1)
  have "ht_map t2 = (ht_map t)(key := first_pair (with_key key (l @ [x])))"
    by (rule map_put [OF inv_shape [OF inv] f2(1,2) b2]) (simp add: x_def l_def)
  then have m2: "ht_map t2 = (if ht_map t key = None then (ht_map t)(key \<mapsto> (d, dlen)) else ht_map t)"
    by (auto simp: x_def ht_map_def l_def fun_eq_iff split: option.splits)
  have live2: "ht_live t2" if "ht_live t" "ht_map t key = None" "d \<noteq> None"
  proof (rule live_put [OF that(1) f2(1,2) b2])
    show "length (with_key k (l @ [x])) \<le> 1" if "k \<noteq> key" "key_index t k = ?i" for k
      using \<open>ht_live t\<close> that unfolding ht_live_def by (metis append_Nil2 l_def with_key_simps(1,2,3) x_def ht_item.select_convs(2))
    show "length (with_key key (l @ [x])) \<le> 1"
      using that(2) by (auto simp: ht_map_def l_def x_def first_pair_def split: list.splits)
    show "\<forall>y\<in>set (l @ [x]). it_data y \<noteq> None"
      using that(1,3) i t1(5) by (auto simp: ht_live_def l_def x_def)
  qed
  have prev: "(case find_item key l of None \<Rightarrow> None | Some j \<Rightarrow> it_data (l ! j)) = None"
    using absent find_item_Some [of key l] find_item_None [of key l]
    by (auto simp: ht_map_def l_def split: option.splits)
  have "ht_set_internal heap t key data dlen want copy inx =
      Inr (0, Some (None, case find_item key l of None \<Rightarrow> 0 | Some j \<Rightarrow> it_dlen (l ! j)), maybe_grow t2)"
    unfolding ht_set_internal_def Let_def get_or_set_list_def [symmetric] t1(1) prod.case t1(3) l_def [symmetric]
      prev option.case d ebind_simps
    using key by (simp add: t2_def x_def)
  then show ?thesis
    using maybe_grow_spec [OF inv2] m2 live2 f2 by auto
qed

text \<open>Where the item of a key is.\<close>

lemma found_item:
  assumes "ht_inv t" and "ht_map t key = Some (v, n)"
  shows "\<exists>j. find_item key (bucket t (key_index t key)) = Some j \<and> j < length (bucket t (key_index t key)) \<and>
    it_data (bucket t (key_index t key) ! j) = v \<and> it_dlen (bucket t (key_index t key) ! j) = n \<and>
    it_key (bucket t (key_index t key) ! j) = key \<and> ht_items t ! key_index t key \<noteq> None"
proof -
  let ?l = "bucket t (key_index t key)"
  have "with_key key ?l \<noteq> []" using assms(2) by (auto simp: ht_map_def)
  then obtain j where j: "find_item key ?l = Some j"
    using find_item_None [of key ?l] by auto
  moreover have "ht_items t ! key_index t key \<noteq> None"
    using j by (auto simp: bucket_def split: option.splits)
  ultimately show ?thesis
    using find_item_Some [OF j] assms(2) by (auto simp: ht_map_def)
qed

lemma get_list_found: "ht_items t ! list_index t h \<noteq> None \<Longrightarrow> ht_get_list t h = Some (list_index t h)"
  by (auto simp: ht_get_list_def)

text \<open>Replacing the data of the item of a key.\<close>

lemma replace_item:
  assumes "ht_inv t" and "find_item key (bucket t (key_index t key)) = Some j"
    and "it_key y = key" and "it_hash y = it_hash (bucket t (key_index t key) ! j)"
    and "ht_items t ! key_index t key \<noteq> None" and "same_buckets (put_bucket (key_index t key) ((bucket t (key_index t key))[j := y]) t) t'"
    and "ht_cnt t' = ht_cnt t"
  shows "ht_inv t'" and "ht_map t' = (ht_map t)(key \<mapsto> (it_data y, it_dlen y))"
    and "ht_live t \<Longrightarrow> it_data y \<noteq> None \<Longrightarrow> ht_live t'"
proof -
  let ?i = "key_index t key"
  define l where "l = bucket t ?i"
  define t2 where "t2 = put_bucket ?i (l[j := y]) t"
  have s: "shape_ok t" using assms(1) by (rule inv_shape)
  then have i: "?i < ht_size t" by simp
  note fj = find_item_Some [OF assms(2), folded l_def]
  have ok: "\<forall>x \<in> set l. item_ok t ?i x"
    using assms(1) i by (simp add: ht_inv_def l_def)
  have "item_ok t ?i (l ! j)" using ok fj by simp
  then have "item_ok t ?i y" using assms(3,4) fj by (simp add: item_ok_def l_def)
  then have ok': "\<forall>x \<in> set (l[j := y]). item_ok t ?i x"
    using ok set_update_subset_insert [of l j y] by blast
  have "ht_inv (t2\<lparr>ht_cnt := ht_cnt t\<rparr>)"
    unfolding t2_def by (rule put_bucket_inv [OF assms(1) i assms(5) ok']) (simp add: l_def)
  moreover have "t2\<lparr>ht_cnt := ht_cnt t\<rparr> = t2" by (cases t) (simp add: t2_def put_bucket_def)
  ultimately have inv2: "ht_inv t2" by simp
  note sb = same_bucketsD [OF assms(6) [folded l_def, folded t2_def]]
  show "ht_inv t'"
    using inv2 sb assms(7) by (simp add: ht_inv_def) (simp add: t2_def)
  have b: "bucket t2 k = (if k = ?i then l[j := y] else bucket t k)" for k
    using i s by (simp add: t2_def bucket_put shape_ok_def)
  have f: "ht_size t2 = ht_size t" "ht_seed t2 = ht_seed t" by (simp_all add: t2_def)
  have "ht_map t2 = (ht_map t)(key := first_pair (with_key key (l[j := y])))"
    by (rule map_put [OF s f b]) (use fj assms(3) in \<open>auto simp: l_def\<close>)
  then show "ht_map t' = (ht_map t)(key \<mapsto> (it_data y, it_dlen y))"
    using fj assms(3) by (simp add: sb)
  assume live: "ht_live t" and y: "it_data y \<noteq> None"
  have "ht_live t2"
  proof (rule live_put [OF live f b])
    show "length (with_key k (l[j := y])) \<le> 1" if "k \<noteq> key" "key_index t k = ?i" for k
      using live that fj assms(3) unfolding ht_live_def by (metis l_def)
    show "length (with_key key (l[j := y])) \<le> 1"
      using live fj assms(3) with_key_update_length [of y l j key] by (simp add: ht_live_def l_def)
    show "\<forall>x\<in>set (l[j := y]). it_data x \<noteq> None"
      using live i y set_update_subset_insert [of l j y] by (auto simp: ht_live_def l_def)
  qed
  then show "ht_live t'" by (simp add: sb)
qed

lemma set_replace:
  assumes inv: "ht_inv t" and key: "key \<noteq> []" and stored: "ht_map t key = Some (Some p, n)"
    and d: "(if copy then copy_data heap data dlen else Inr data) = Inr d"
  shows "\<exists>t'. ht_set_internal heap t key data dlen want copy False = Inr (0, Some (Some p, n), t') \<and> ht_inv t' \<and>
    ht_cnt t' = ht_cnt t \<and> ht_free_cb t' = ht_free_cb t \<and>
    ht_freed t' = ht_freed t @ (if \<not> want \<and> ht_free_cb t then [Some p] else []) \<and>
    ht_map t' = (ht_map t)(key \<mapsto> (d, dlen)) \<and> (ht_live t \<and> d \<noteq> None \<longrightarrow> ht_live t')"
proof -
  let ?i = "key_index t key"
  define l where "l = bucket t ?i"
  obtain j where j: "find_item key l = Some j" "j < length l" "it_data (l ! j) = Some p" "it_dlen (l ! j) = n"
      "it_key (l ! j) = key" "ht_items t ! ?i \<noteq> None"
    using found_item [OF inv stored] by (auto simp: l_def)
  define y where "y = (l ! j)\<lparr>it_dlen := dlen, it_data := d\<rparr>"
  define t2 where "t2 = put_bucket ?i (l[j := y]) t"
  have y: "it_key y = key" "it_hash y = it_hash (l ! j)" "it_data y = d" "it_dlen y = dlen"
    using j by (simp_all add: y_def)
  have t2: "ht_inv t2" "ht_map t2 = (ht_map t)(key \<mapsto> (d, dlen))" "ht_live t \<Longrightarrow> d \<noteq> None \<Longrightarrow> ht_live t2"
    using replace_item [OF inv j(1) [unfolded l_def] y(1) y(2) [unfolded l_def] j(6), of t2]
    by (auto simp: same_buckets_def t2_def l_def y(3,4))
  have "ht_set_internal heap t key data dlen want copy False =
      Inr (0, Some (Some p, n), if want then maybe_grow t2 else release (Some p) (maybe_grow t2))"
    using key j d get_list_found [OF j(6)]
    by (simp add: ht_set_internal_def Let_def l_def [symmetric] t2_def y_def)
  moreover have "same_buckets (maybe_grow t2) (release (Some p) (maybe_grow t2))"
    by (simp add: release_def same_buckets_def)
  note sb = same_bucketsD [OF this]
  ultimately show ?thesis
    using maybe_grow_spec [OF t2(1)] t2(2,3)
    by (auto simp: ht_inv_def sb release_def) (simp_all add: t2_def)
qed

section \<open>Calling back\<close>

lemma call_absent:
  assumes "ht_inv t" and "ht_map t key = None"
  shows "ht_call_internal t key cb user = Inr (- 1, user, t)"
proof -
  have "find_item key (bucket t (key_index t key)) = None"
    using assms(2) by (auto simp: ht_map_def find_item_None first_pair_def split: list.splits)
  then show ?thesis
    by (auto simp: ht_call_internal_def ht_get_list_def Let_def split: option.splits)
qed

lemma call_present:
  assumes "ht_inv t" and "ht_map t key = Some (v, n)"
  shows "ht_call_internal t key None user = Inr (0, user, t)"
  using found_item [OF assms] by (auto simp: ht_call_internal_def get_list_found Let_def)

text \<open>A callback that keeps the item: its data and length are what the callback left.\<close>

lemma call_keep:
  assumes "ht_inv t" and "ht_map t key = Some (v, n)" and "f t v n user = Inr r" and "c_ret r \<noteq> 1"
  shows "\<exists>t'. ht_call_internal t key (Some f) user = Inr (c_ret r, c_user r, t') \<and> ht_inv t' \<and>
    ht_cnt t' = ht_cnt t \<and> ht_free_cb t' = ht_free_cb t \<and> ht_freed t' = ht_freed t @ c_released r \<and>
    ht_map t' = (ht_map t)(key \<mapsto> (c_data r, c_dlen r)) \<and> (ht_live t \<and> c_data r \<noteq> None \<longrightarrow> ht_live t')"
proof -
  let ?i = "key_index t key"
  define l where "l = bucket t ?i"
  obtain j where j: "find_item key l = Some j" "j < length l" "it_data (l ! j) = v" "it_dlen (l ! j) = n"
      "it_key (l ! j) = key" "ht_items t ! ?i \<noteq> None"
    using found_item [OF assms(1,2)] by (auto simp: l_def)
  define y where "y = (l ! j)\<lparr>it_data := c_data r, it_dlen := c_dlen r\<rparr>"
  define t' where "t' = put_bucket ?i (l[j := y]) (t\<lparr>ht_freed := ht_freed t @ c_released r\<rparr>)"
  have y: "it_key y = key" "it_hash y = it_hash (l ! j)" "it_data y = c_data r" "it_dlen y = c_dlen r"
    using j by (simp_all add: y_def)
  have "same_buckets (put_bucket ?i (l[j := y]) t) t'" "ht_cnt t' = ht_cnt t"
    by (simp_all add: same_buckets_def t'_def put_bucket_def)
  note t' = replace_item [OF assms(1) j(1) [unfolded l_def] y(1) y(2) [unfolded l_def] j(6) this [unfolded l_def]]
  have "ht_call_internal t key (Some f) user = Inr (c_ret r, c_user r, t')"
    unfolding ht_call_internal_def Let_def get_list_found [OF j(6)] option.case l_def [symmetric] j(1,3,4)
    by (simp add: assms(3,4) t'_def y_def)
  with t' show ?thesis by (auto simp: y(3,4)) (simp_all add: t'_def)
qed

lemma with_key_remove:
  assumes "j < length l"
  shows "with_key k (remove_nth j l) = (if it_key (l ! j) = k then with_key k (take j l) @ with_key k (drop (Suc j) l) else with_key k l)"
proof -
  have "with_key k l = with_key k (take j l @ l ! j # drop (Suc j) l)"
    using assms by (simp add: Cons_nth_drop_Suc)
  then show ?thesis by (simp add: remove_nth_def)
qed

text \<open>A callback that asks for removal; with no key stored twice, the key is then absent.\<close>

lemma call_remove:
  assumes "ht_inv t" and "ht_map t key = Some (v, n)" and "f t v n user = Inr r" and "c_ret r = 1"
  shows "\<exists>t'. ht_call_internal t key (Some f) user = Inr (0, c_user r, t') \<and> ht_inv t' \<and>
    ht_cnt t = Suc (ht_cnt t') \<and> ht_free_cb t' = ht_free_cb t \<and> ht_freed t' = ht_freed t @ c_released r \<and>
    (ht_live t \<longrightarrow> ht_live t' \<and> ht_map t' = (ht_map t)(key := None))"
proof -
  let ?i = "key_index t key"
  define l where "l = bucket t ?i"
  obtain j where j: "find_item key l = Some j" "j < length l" "it_data (l ! j) = v" "it_dlen (l ! j) = n"
      "it_key (l ! j) = key" "ht_items t ! ?i \<noteq> None"
    using found_item [OF assms(1,2)] by (auto simp: l_def)
  have s: "shape_ok t" using assms(1) by (rule inv_shape)
  then have i: "?i < ht_size t" by simp
  define t0 where "t0 = (put_bucket ?i (remove_nth j l) t)\<lparr>ht_cnt := ht_cnt t - 1\<rparr>"
  define t' where "t' = (put_bucket ?i (remove_nth j l) (t\<lparr>ht_freed := ht_freed t @ c_released r\<rparr>))\<lparr>ht_cnt := ht_cnt t - 1\<rparr>"
  have sub: "set (remove_nth j l) \<subseteq> set l"
    by (auto simp: remove_nth_def dest: in_set_takeD in_set_dropD)
  have len: "Suc (length (remove_nth j l)) = length l"
    using j(2) by (simp add: remove_nth_def)
  have "l \<noteq> []" using j(2) by auto
  moreover have "length l \<le> item_total t"
    unfolding item_total_def l_def by (rule member_le_sum) (use i in auto)
  ultimately have cnt: "0 < ht_cnt t"
    using assms(1) j(2) by (auto simp: ht_inv_def)
  have ok: "\<forall>x \<in> set (remove_nth j l). item_ok t ?i x"
    using assms(1) i sub by (auto simp: ht_inv_def l_def)
  have inv0: "ht_inv t0"
    unfolding t0_def by (rule put_bucket_inv [OF assms(1) i j(6) ok]) (use len cnt in \<open>simp add: l_def [symmetric]\<close>)
  have "same_buckets t0 t'" "ht_cnt t' = ht_cnt t0"
    by (simp_all add: same_buckets_def t'_def t0_def put_bucket_def)
  note sb = same_bucketsD [OF this(1)] this(2)
  have inv': "ht_inv t'" using inv0 sb by (simp add: ht_inv_def)
  have b: "bucket t0 k = (if k = ?i then remove_nth j l else bucket t k)" for k
    using i s bucket_put [of ?i t "remove_nth j l" k] by (simp add: t0_def bucket_def shape_ok_def)
  have f: "ht_size t0 = ht_size t" "ht_seed t0 = ht_seed t" by (simp_all add: t0_def)
  have other: "with_key k (remove_nth j l) = with_key k l" if "k \<noteq> key" for k
    using that j by (simp add: with_key_remove)
  have "ht_live t0 \<and> ht_map t0 = (ht_map t)(key := None)" if live: "ht_live t"
  proof -
    have "length (with_key key l) = Suc (length (with_key key (remove_nth j l)))"
    proof -
      have "with_key key l = with_key key (take j l @ l ! j # drop (Suc j) l)"
        using j(2) by (simp add: Cons_nth_drop_Suc)
      then show ?thesis using j by (simp add: with_key_remove)
    qed
    moreover have "length (with_key key l) \<le> 1" using live by (simp add: ht_live_def l_def)
    ultimately have gone: "with_key key (remove_nth j l) = []" by simp
    have "ht_live t0"
    proof (rule live_put [OF live f b])
      show "length (with_key k (remove_nth j l)) \<le> 1" if "k \<noteq> key" "key_index t k = ?i" for k
        using live that other unfolding ht_live_def by (metis l_def)
      show "\<forall>x\<in>set (remove_nth j l). it_data x \<noteq> None"
        using live i sub by (auto simp: ht_live_def l_def)
    qed (simp add: gone)
    moreover have "ht_map t0 = (ht_map t)(key := first_pair (with_key key (remove_nth j l)))"
      by (rule map_put [OF s f b]) (use other in \<open>auto simp: l_def\<close>)
    ultimately show ?thesis by (simp add: gone)
  qed
  moreover have "ht_call_internal t key (Some f) user = Inr (0, c_user r, t')"
    unfolding ht_call_internal_def Let_def get_list_found [OF j(6)] option.case l_def [symmetric] j(1,3,4)
    by (simp add: assms(3,4) t'_def)
  ultimately show ?thesis
    using inv' sb cnt by auto (simp_all add: t'_def)
qed

section \<open>The operations on the map\<close>

lemma create_facts:
  assumes "t = ht_create rnd n m cb"
  shows "ht_inv t" "ht_live t" "ht_map t = Map.empty" "ht_cnt t = 0" "ht_freed t = []" "ht_free_cb t = cb"
proof -
  note d = assms ht_create_def ht_init_def ht_set_free_item_callback_def Let_def
  have b: "bucket t i = []" if "i < ht_size t" for i
    using that by (auto simp: bucket_def d)
  have s: "shape_ok t" by (auto simp: shape_ok_def d HT_SIZE_MIN_def)
  show c: "ht_cnt t = 0" and "ht_freed t = []" "ht_free_cb t = cb" by (simp_all add: d)
  have "item_total t = 0" by (simp add: item_total_def b)
  then show "ht_inv t" using s c by (auto simp: ht_inv_def b)
  show "ht_live t" "ht_map t = Map.empty"
    using b key_index_less [OF s] by (auto simp: ht_live_def ht_map_def fun_eq_iff)
qed

lemma ht_get_eq:
  assumes "ht_inv t"
  shows "ht_get t key = Inr (case ht_map t key of None \<Rightarrow> (None, None) | Some (d, n) \<Rightarrow> (d, Some n))"
proof (cases "ht_map t key")
  case None
  then show ?thesis by (simp add: ht_get_def ht_get_internal_def call_absent [OF assms None])
next
  case (Some p)
  obtain d n where p: "p = (d, n)" by (cases p)
  let ?u = "\<lparr>ga_data = None, ga_dlen = None, ga_copy = False, ga_copy_cb = None, ga_user = ()\<rparr>"
  obtain r where r: "ht_get_helper (\<lambda>_. []) t d n ?u = Inr r" "c_ret r \<noteq> 1"
      "c_user r = ?u\<lparr>ga_data := d, ga_dlen := Some n\<rparr>"
    by (simp add: ht_get_helper_def)
  show ?thesis
    using call_keep [where f = "ht_get_helper (\<lambda>_. [])", OF assms Some [unfolded p] r(1,2)] Some p r(3)
    by (auto simp: ht_get_def ht_get_internal_def)
qed

lemma ht_set_eq:
  assumes "ht_inv t" and "ht_live t" and "key \<noteq> []" and "d \<noteq> None"
  shows "\<exists>t'. ht_set t key d n = Inr (0, t') \<and> ht_inv t' \<and> ht_live t' \<and> ht_map t' = (ht_map t)(key \<mapsto> (d, n)) \<and>
    ht_free_cb t' = ht_free_cb t \<and>
    ht_count t' = ht_count t + (if ht_map t key = None then 1 else 0) \<and>
    ht_freed t' = ht_freed t @ (if ht_free_cb t then (case ht_map t key of None \<Rightarrow> [] | Some (p, _) \<Rightarrow> [p]) else [])"
proof (cases "ht_map t key")
  case None
  then show ?thesis
    using set_fresh [OF assms(1,3), of False n "\<lambda>_. []" d d False False] assms(2,4)
    by (auto simp: ht_set_def ht_count_def)
next
  case (Some pn)
  obtain j where "j < length (bucket t (key_index t key))" "it_data (bucket t (key_index t key) ! j) = fst pn"
    using found_item [OF assms(1), of key "fst pn" "snd pn"] Some by auto
  moreover have "key_index t key < ht_size t" using inv_shape [OF assms(1)] by simp
  ultimately have "fst pn \<noteq> None" using assms(2) unfolding ht_live_def by (metis nth_mem)
  then obtain p m where "pn = (Some p, m)" by (cases pn) auto
  with Some show ?thesis
    using set_replace [OF assms(1,3), of p m False "\<lambda>_. []" d n d False] assms(2,4)
    by (auto simp: ht_set_def ht_count_def)
qed

lemma ht_delete_eq:
  assumes "ht_inv t" and "ht_live t"
  shows "\<exists>t'. ht_delete t key want = Inr (if ht_map t key = None then - 1 else 0, ht_map t key, t') \<and> ht_inv t' \<and> ht_live t' \<and>
    ht_map t' = (ht_map t)(key := None) \<and> ht_count t = ht_count t' + (if ht_map t key = None then 0 else 1) \<and>
    ht_free_cb t' = ht_free_cb t \<and>
    ht_freed t' = ht_freed t @ (if \<not> want \<and> ht_free_cb t then (case ht_map t key of None \<Rightarrow> [] | Some (p, _) \<Rightarrow> [p]) else [])"
proof (cases "ht_map t key")
  case None
  then show ?thesis
    using assms by (auto simp: ht_delete_def ht_delete_internal_def call_absent [OF assms(1) None])
next
  case (Some pn)
  obtain v n where p: "pn = (v, n)" by (cases pn)
  let ?a = "\<lparr>da_unset = False, da_want = want, da_prev = None, da_match = None, da_match_size = 0\<rparr>"
  obtain r where r: "ht_delete_helper (\<lambda>_. []) t v n ?a = Inr r" "c_ret r = 1"
      "c_user r = ?a\<lparr>da_prev := Some (v, n)\<rparr>" "c_released r = (if want then [] else releases t v)"
    by (simp add: ht_delete_helper_def)
  show ?thesis
    using call_remove [where f = "ht_delete_helper (\<lambda>_. [])", OF assms(1) Some [unfolded p] r(1,2)] Some p r(3,4) assms(2)
    by (auto simp: ht_delete_def ht_delete_internal_def ht_count_def releases_def)
qed

section \<open>What a client of a map of bytes relies on\<close>

datatype 'v map_op = Put "byte list" 'v | Del "byte list"

fun run_ops :: "('t \<Rightarrow> byte list \<Rightarrow> 'v \<Rightarrow> c_error + 't) \<Rightarrow> ('t \<Rightarrow> byte list \<Rightarrow> c_error + 't) \<Rightarrow> 't \<Rightarrow> 'v map_op list \<Rightarrow> c_error + 't" where
  "run_ops put del t [] = Inr t"
| "run_ops put del t (Put k v # ops) = ebind (put t k v) (\<lambda>t'. run_ops put del t' ops)"
| "run_ops put del t (Del k # ops) = ebind (del t k) (\<lambda>t'. run_ops put del t' ops)"

fun after_ops :: "(byte list \<rightharpoonup> 'v) \<Rightarrow> 'v map_op list \<Rightarrow> (byte list \<rightharpoonup> 'v)" where
  "after_ops m [] = m"
| "after_ops m (Put k v # ops) = after_ops (m(k \<mapsto> v)) ops"
| "after_ops m (Del k # ops) = after_ops (m(k := None)) ops"

fun op_ok :: "('v \<Rightarrow> bool) \<Rightarrow> 'v map_op \<Rightarrow> bool" where
  "op_ok ok (Put k v) = (k \<noteq> [] \<and> ok v)"
| "op_ok ok (Del k) = True"

locale byte_map =
  fixes inv :: "'t \<Rightarrow> bool" and content :: "'t \<Rightarrow> byte list \<rightharpoonup> 'v" and ok :: "'v \<Rightarrow> bool"
    and put :: "'t \<Rightarrow> byte list \<Rightarrow> 'v \<Rightarrow> c_error + 't" and get :: "'t \<Rightarrow> byte list \<Rightarrow> c_error + 'v option"
    and del :: "'t \<Rightarrow> byte list \<Rightarrow> c_error + 't"
  assumes put_law: "inv t \<Longrightarrow> k \<noteq> [] \<Longrightarrow> ok v \<Longrightarrow> \<exists>t'. put t k v = Inr t' \<and> inv t' \<and> content t' = (content t)(k \<mapsto> v)"
    and get_law: "inv t \<Longrightarrow> get t k = Inr (content t k)"
    and del_law: "inv t \<Longrightarrow> \<exists>t'. del t k = Inr t' \<and> inv t' \<and> content t' = (content t)(k := None)"
begin

lemma run_content:
  assumes "inv t" and "\<forall>x \<in> set ops. op_ok ok x"
  shows "\<exists>t'. run_ops put del t ops = Inr t' \<and> inv t' \<and> content t' = after_ops (content t) ops"
  using assms
proof (induction ops arbitrary: t)
  case (Cons x ops)
  show ?case
  proof (cases x)
    case (Put k v)
    then obtain t1 where "put t k v = Inr t1" "inv t1" "content t1 = (content t)(k \<mapsto> v)"
      using put_law Cons.prems by force
    with Put Cons.IH [of t1] Cons.prems(2) show ?thesis by (simp del: fun_upd_apply)
  next
    case (Del k)
    then obtain t1 where "del t k = Inr t1" "inv t1" "content t1 = (content t)(k := None)"
      using del_law Cons.prems(1) by blast
    with Del Cons.IH [of t1] Cons.prems(2) show ?thesis by (simp del: fun_upd_apply)
  qed
qed simp

lemma run_get:
  assumes "inv t" and "\<forall>x \<in> set ops. op_ok ok x"
  shows "\<exists>t'. run_ops put del t ops = Inr t' \<and> inv t' \<and> (\<forall>k. get t' k = Inr (after_ops (content t) ops k))"
  using run_content [OF assms] get_law by auto

end

text \<open>The table as such a map: pairs of non-NULL data and its length.\<close>

definition ht_put :: "'p hashtable \<Rightarrow> byte list \<Rightarrow> 'p data option \<times> nat \<Rightarrow> c_error + 'p hashtable" where
  "ht_put t k v = ebind (ht_set t k (fst v) (snd v)) (\<lambda>(rc, t'). if rc = 0 then Inr t' else Inl Bad_Pointer)"

definition ht_look :: "'p hashtable \<Rightarrow> byte list \<Rightarrow> c_error + ('p data option \<times> nat) option" where
  "ht_look t k = ebind (ht_get t k) (\<lambda>(d, n). Inr (map_option (Pair d) n))"

definition ht_del :: "'p hashtable \<Rightarrow> byte list \<Rightarrow> c_error + 'p hashtable" where
  "ht_del t k = ebind (ht_delete t k False) (\<lambda>(_, _, t'). Inr t')"

definition ht_good :: "'p hashtable \<Rightarrow> bool" where
  "ht_good t \<longleftrightarrow> ht_inv t \<and> ht_live t \<and> finite (dom (ht_map t)) \<and> ht_count t = card (dom (ht_map t))"

lemma card_dom_put: "finite (dom m) \<Longrightarrow> card (dom (m(k \<mapsto> v))) = card (dom m) + (if m k = None then 1 else 0)"
  by (simp add: card_insert_if domIff)

lemma card_dom_del: "finite (dom m) \<Longrightarrow> card (dom m) = card (dom (m(k := None))) + (if m k = None then 0 else 1)"
  using card_Suc_Diff1 [of "dom m" k] by (cases "m k") (auto simp: domIff Diff_insert_absorb)

interpretation ht: byte_map ht_good ht_map "\<lambda>v. fst v \<noteq> None" ht_put ht_look ht_del
proof
  fix t :: "'p hashtable" and k v
  assume t: "ht_good t"
  show "\<exists>t'. ht_put t k v = Inr t' \<and> ht_good t' \<and> ht_map t' = (ht_map t)(k \<mapsto> v)" if kv: "k \<noteq> []" "fst v \<noteq> None"
  proof -
    obtain t' where "ht_set t k (fst v) (snd v) = Inr (0, t')" "ht_inv t'" "ht_live t'"
        "ht_map t' = (ht_map t)(k \<mapsto> v)" "ht_count t' = ht_count t + (if ht_map t k = None then 1 else 0)"
      using ht_set_eq [of t k "fst v" "snd v"] t kv unfolding ht_good_def prod.collapse by blast
    with t show ?thesis
      using card_dom_put [of "ht_map t" k v] by (auto simp: ht_put_def ht_good_def)
  qed
  show "ht_look t k = Inr (ht_map t k)"
    using t by (auto simp: ht_look_def ht_good_def ht_get_eq split: option.splits)
  show "\<exists>t'. ht_del t k = Inr t' \<and> ht_good t' \<and> ht_map t' = (ht_map t)(k := None)"
  proof -
    obtain t' where "ht_delete t k False = Inr (if ht_map t k = None then - 1 else 0, ht_map t k, t')" "ht_inv t'" "ht_live t'"
        "ht_map t' = (ht_map t)(k := None)" "ht_count t = ht_count t' + (if ht_map t k = None then 0 else 1)"
      using ht_delete_eq [of t k False] t unfolding ht_good_def by blast
    with t show ?thesis
      using card_dom_del [of "ht_map t" k] by (auto simp: ht_del_def ht_good_def)
  qed
qed

lemma create_good: "ht_good (ht_create rnd n m cb)"
  by (simp add: ht_good_def create_facts [OF refl] ht_count_def)

text \<open>C16: Whatever sequence of insertions, replacements and deletions of non-NULL data is run on a new table, growing as it goes,
  every lookup returns what the sequence left under the key and the count is the number of keys.
\<close>

theorem ht_refines_map:
  assumes "\<forall>x \<in> set ops. op_ok (\<lambda>v. fst v \<noteq> None) x"
  shows "\<exists>t'. run_ops ht_put ht_del (ht_create rnd sz max_size cb) ops = Inr t' \<and>
    (\<forall>k. ht_get t' k = Inr (case after_ops Map.empty ops k of None \<Rightarrow> (None, None) | Some (d, n) \<Rightarrow> (d, Some n))) \<and>
    ht_count t' = card (dom (after_ops Map.empty ops))"
  using ht.run_content [OF create_good assms, of rnd sz max_size cb]
  by (auto simp: create_facts [OF refl] ht_good_def ht_get_eq)

definition sample_ops :: "(nat data option \<times> nat) map_op list" where
  "sample_ops = [Put [97] (Some (Ref 1), 8), Put [98] (Some (Ref 2), 8), Put [97] (Some (Ref 3), 8), Del [98]]"

theorem ht_refines_map_witness:
  "\<exists>t'. run_ops ht_put ht_del (ht_create 7 0 0 True) sample_ops = Inr t' \<and>
    ht_get t' [97] = Inr (Some (Ref 3), Some 8) \<and> ht_get t' [98] = Inr (None, None) \<and> ht_count t' = 1"
proof -
  have m: "after_ops Map.empty sample_ops = [[97] \<mapsto> (Some (Ref 3), 8)]"
    by (auto simp: sample_ops_def)
  have "\<forall>x \<in> set sample_ops. op_ok (\<lambda>v. fst v \<noteq> None) x"
    by (simp add: sample_ops_def)
  from ht_refines_map [OF this, of 7 0 0 True] show ?thesis
    unfolding m by auto
qed

section \<open>Clearing\<close>

lemma clear_items:
  "ht_freed (foldl clear_item t xs) = ht_freed t @ (if ht_free_cb t then map it_data xs else [])"
  "ht_cnt (foldl clear_item t xs) = ht_cnt t - length xs"
  "same_buckets t (foldl clear_item t xs)"
  "ht_free_cb (foldl clear_item t xs) = ht_free_cb t"
  by (induction xs arbitrary: t) (simp_all add: clear_item_def release_def same_buckets_def)

lemma clear_list_eq:
  "ht_freed (clear_list t i) = ht_freed t @ (if ht_free_cb t then map it_data (bucket t i) else [])"
  "ht_cnt (clear_list t i) = ht_cnt t - length (bucket t i)"
  "ht_items (clear_list t i) = (ht_items t)[i := None]" "ht_free_cb (clear_list t i) = ht_free_cb t"
  "ht_size (clear_list t i) = ht_size t"
  using clear_items [of t "bucket t i"] by (simp_all add: clear_list_def Let_def same_buckets_def)

lemma clear_lists:
  assumes "distinct is" and "\<forall>i \<in> set is. i < length (ht_items t)"
  shows "ht_freed (foldl clear_list t is) = ht_freed t @ (if ht_free_cb t then map it_data (concat (map (bucket t) is)) else []) \<and>
    ht_cnt (foldl clear_list t is) = ht_cnt t - length (concat (map (bucket t) is)) \<and>
    ht_size (foldl clear_list t is) = ht_size t \<and> length (ht_items (foldl clear_list t is)) = length (ht_items t) \<and>
    (\<forall>i < length (ht_items t). ht_items (foldl clear_list t is) ! i = (if i \<in> set is then None else ht_items t ! i))"
  using assms
proof (induction "is" arbitrary: t)
  case (Cons a "is")
  have "(ht_items t)[a := None] ! i = ht_items t ! i" if "i \<in> set is" for i
    using that Cons.prems(1) by (intro nth_list_update_neq) auto
  then have m: "map (bucket (clear_list t a)) is = map (bucket t) is"
    by (simp add: bucket_def clear_list_eq)
  show ?case
    using Cons.IH [of "clear_list t a", unfolded m clear_list_eq] Cons.prems by (auto simp: nth_list_update)
qed simp

text \<open>Clearing releases the data of every item once and leaves an empty table of the same size.\<close>

theorem ht_clear_empties:
  assumes "ht_inv t"
  shows "ht_inv (ht_clear t) \<and> ht_map (ht_clear t) = Map.empty \<and> ht_count (ht_clear t) = 0 \<and>
    ht_destroy t = ht_freed t @ (if ht_free_cb t then map it_data (all_items t) else [])"
proof -
  have s: "shape_ok t" using assms by (rule inv_shape)
  note c = clear_lists [of "ht_iter t" t]
  have len: "length (concat (map (bucket t) (ht_iter t))) = ht_cnt t"
    using length_all_items [OF s] assms by (simp add: all_items_def ht_inv_def)
  have none: "ht_items (ht_clear t) ! i = None" if "i < ht_size t" for i
    using c that s by (auto simp: ht_clear_def shape_ok_def)
  have fields: "ht_size (ht_clear t) = ht_size t" "length (ht_items (ht_clear t)) = ht_size t" "ht_iter (ht_clear t) = []"
      "ht_cnt (ht_clear t) = 0"
    using c s len by (auto simp: ht_clear_def shape_ok_def)
  have sh: "shape_ok (ht_clear t)" using s fields none by (auto simp: shape_ok_def)
  have b: "bucket (ht_clear t) i = []" if "i < ht_size t" for i
    using none [OF that] by (simp add: bucket_def)
  have "ht_inv (ht_clear t)"
    using sh fields b by (simp add: ht_inv_def item_total_def)
  moreover have "ht_map (ht_clear t) = Map.empty"
    using b key_index_less [OF sh] fields by (auto simp: ht_map_def fun_eq_iff)
  moreover have "ht_destroy t = ht_freed t @ (if ht_free_cb t then map it_data (all_items t) else [])"
    using c s by (auto simp: ht_destroy_def ht_clear_def all_items_def shape_ok_def)
  ultimately show ?thesis using fields by (simp add: ht_count_def)
qed

section \<open>Copies\<close>

text \<open>A stored copy is what is found under the key, independent of the caller's memory.\<close>

theorem ht_set_copy_get:
  assumes "ht_inv t" and "ht_live t" and "key \<noteq> []" and "0 < n" and "n \<le> length (heap p)"
  shows "\<exists>out t'. ht_set_copy heap t key (Some (Ref p)) n want = Inr (0, out, t') \<and>
    ht_get t' key = Inr (Some (Copy (take n (heap p))), Some n) \<and>
    ht_get_copy heap' t' key = Inr (Some (Copy (take n (heap p))), Some n)"
proof -
  have d: "copy_data heap (Some (Ref p)) n = Inr (Some (Copy (take n (heap p))))"
    using assms(4,5) by (simp add: copy_data_def read_bytes_def data_bytes_def)
  have "\<exists>out t'. ht_set_copy heap t key (Some (Ref p)) n want = Inr (0, out, t') \<and> ht_inv t' \<and>
      ht_map t' key = Some (Some (Copy (take n (heap p))), n)"
  proof (cases "ht_map t key")
    case None
    then show ?thesis
      using set_fresh [OF assms(1,3), of True n heap "Some (Ref p)" "Some (Copy (take n (heap p)))" want False] d assms(4)
      by (auto simp: ht_set_copy_def)
  next
    case (Some pn)
    obtain q m where q: "pn = (q, m)" by (cases pn)
    show ?thesis
    proof (cases q)
      case (Some q')
      with \<open>ht_map t key = Some pn\<close> q show ?thesis
        using set_replace [OF assms(1,3), of q' m True heap "Some (Ref p)" n "Some (Copy (take n (heap p)))" want] d
        by (auto simp: ht_set_copy_def)
    next
      case None
      have "fst pn \<noteq> None"
        using found_item [OF assms(1), of key q m] \<open>ht_map t key = Some pn\<close> q assms(2) key_index_less [OF inv_shape [OF assms(1)]]
        unfolding ht_live_def by (metis fst_conv nth_mem)
      with None q show ?thesis by simp
    qed
  qed
  then obtain out t' where t': "ht_set_copy heap t key (Some (Ref p)) n want = Inr (0, out, t')" "ht_inv t'"
      "ht_map t' key = Some (Some (Copy (take n (heap p))), n)"
    by blast
  let ?u = "\<lparr>ga_data = None, ga_dlen = None, ga_copy = True, ga_copy_cb = None, ga_user = ()\<rparr>"
  have "copy_data heap' (Some (Copy (take n (heap p)))) n = Inr (Some (Copy (take n (heap p))))"
    using assms(4,5) by (simp add: copy_data_def read_bytes_def data_bytes_def)
  then obtain r where r: "ht_get_helper heap' t' (Some (Copy (take n (heap p)))) n ?u = Inr r" "c_ret r \<noteq> 1"
      "c_user r = ?u\<lparr>ga_data := Some (Copy (take n (heap p))), ga_dlen := Some n\<rparr>"
    by (simp add: ht_get_helper_def)
  have "ht_get_copy heap' t' key = Inr (Some (Copy (take n (heap p))), Some n)"
    using call_keep [where f = "ht_get_helper heap'", OF t'(2,3) r(1,2)] r(3)
    by (auto simp: ht_get_copy_def ht_get_internal_def)
  with t' show ?thesis by (auto simp: ht_get_eq)
qed

section \<open>Iterating\<close>

text \<open>A callback that always asks to continue sees every item once, and the table is unchanged.\<close>

theorem ht_foreach_visits_all:
  assumes "\<And>u k d n. 0 < fst (cb u k d n)"
  shows "ht_foreach_pair t cb u = (t, foldl (\<lambda>u x. snd (cb u (it_key x) (it_data x) (it_dlen x))) u (all_items t))"
proof -
  have items: "foreach_items cb xs u = (None, foldl (\<lambda>u x. snd (cb u (it_key x) (it_data x) (it_dlen x))) u xs)" for xs u
    using assms by (induction xs arbitrary: u) (auto simp: Let_def split_beta linorder_not_le)
  have "foreach_lists cb is t u = (t, foldl (\<lambda>u x. snd (cb u (it_key x) (it_data x) (it_dlen x))) u (concat (map (bucket t) is)))" for "is" u
    by (induction "is" arbitrary: u) (simp_all add: items)
  then show ?thesis by (simp add: ht_foreach_pair_def all_items_def)
qed

text \<open>The keys and values of a table, in the order of the iterator.\<close>

lemma push_fold:
  "list_inv l \<Longrightarrow> list_inv (foldl (\<lambda>l x. snd (list_push_value (Some (g x)) l)) l xs) \<and>
     list_values (foldl (\<lambda>l x. snd (list_push_value (Some (g x)) l)) l xs) = list_values l @ map (\<lambda>x. Some (g x)) xs"
  by (induction xs arbitrary: l) (auto simp: ll.push_snd)

theorem ht_get_all_lists:
  "list_values (ht_get_all_keys t) = map (\<lambda>x. Some \<lparr>hk_data = it_key x, hk_vlen = it_dlen x\<rparr>) (all_items t)"
  "list_values (ht_get_all_values t) =
     map (\<lambda>x. Some \<lparr>hv_data = it_data x, hv_len = it_dlen x, hv_key = it_key x\<rparr>) (all_items t)"
  unfolding ht_get_all_keys_def ht_get_all_values_def foldl_foldl all_items_def [symmetric]
  by (simp_all add: conjunct2 [OF push_fold [OF list_inv_create]])

text \<open>
A callback that removes every item it sees removes only the first of each bucket, and the count stays as it was.
\<close>

theorem ht_foreach_remove_one_per_bucket:
  assumes "ht_inv t"
  shows "\<exists>t'. ht_foreach_pair t (\<lambda>u k d n. (- 1, u)) u = (t', u) \<and> ht_count t' = ht_count t \<and>
    (\<forall>i < ht_size t. bucket t' i = tl (bucket t i))"
proof -
  let ?cb = "\<lambda>u k d n. (- 1, u)"
  have L: "\<exists>t'. foreach_lists ?cb is t0 u = (t', u) \<and> ht_cnt t' = ht_cnt t0 \<and>
      (\<forall>i < length (ht_items t0). bucket t' i = (if i \<in> set is then tl (bucket t0 i) else bucket t0 i))"
    if "distinct is" and "\<forall>i \<in> set is. i < length (ht_items t0)" for "is" t0
    using that
  proof (induction "is" arbitrary: t0)
    case (Cons a "is")
    show ?case
    proof (cases "bucket t0 a")
      case Nil
      with Cons.IH [of t0] Cons.prems show ?thesis by (auto simp: Let_def)
    next
      case (Cons x xs)
      define t1 where "t1 = release (it_data x) (put_bucket a xs t0)"
      have "length (ht_items t1) = length (ht_items t0)" "ht_cnt t1 = ht_cnt t0"
        by (simp_all add: t1_def release_def put_bucket_def)
      moreover have "bucket t1 j = (if j = a then xs else bucket t0 j)" if "j < length (ht_items t0)" for j
        using that Cons.prems by (auto simp: t1_def release_def put_bucket_def bucket_def nth_list_update)
      moreover have "foreach_lists ?cb (a # is) t0 u = foreach_lists ?cb is t1 u"
        using Cons by (simp add: Let_def t1_def remove_nth_def)
      ultimately show ?thesis
        using Cons.IH [of t1] Cons.prems Cons by auto
    qed
  qed simp
  have s: "distinct (ht_iter t)" "\<forall>i \<in> set (ht_iter t). i < length (ht_items t)" "length (ht_items t) = ht_size t"
    using inv_shape [OF assms] by (simp_all add: shape_ok_def)
  have "bucket t i = []" if "i < ht_size t" "i \<notin> set (ht_iter t)" for i
    using that inv_shape [OF assms] by (simp add: shape_ok_def bucket_def)
  with L [OF s(1,2)] s(3) show ?thesis
    unfolding ht_foreach_pair_def ht_count_def by (metis list.sel(2))
qed

section \<open>NULL data\<close>

text \<open>
After \<^verbatim>\<open>ht_unset\<close> the item stays with NULL data; a later \<^verbatim>\<open>ht_set\<close> of the key succeeds but adds a second item behind it, and
  \<^verbatim>\<open>ht_get\<close> keeps returning NULL.
\<close>

theorem ht_unset_hides_later_set:
  assumes "ht_inv t" and "ht_map t key = Some (v, n)" and "key \<noteq> []"
  shows "\<exists>t1 t2. ht_unset t key want = Inr (0, Some (v, n), t1) \<and> ht_set t1 key d m = Inr (0, t2) \<and>
    ht_get t2 key = Inr (None, Some 0) \<and> ht_count t2 = ht_count t + 1"
proof -
  let ?a = "\<lparr>da_unset = True, da_want = want, da_prev = None, da_match = None, da_match_size = 0\<rparr>"
  obtain r where r: "ht_delete_helper (\<lambda>_. []) t v n ?a = Inr r" "c_ret r = 0" "c_ret r \<noteq> 1"
      "c_user r = ?a\<lparr>da_prev := Some (v, n)\<rparr>" "c_data r = None" "c_dlen r = 0"
    by (simp add: ht_delete_helper_def)
  obtain t1 where t1: "ht_unset t key want = Inr (0, Some (v, n), t1)" "ht_inv t1" "ht_cnt t1 = ht_cnt t"
      "ht_map t1 = (ht_map t)(key \<mapsto> (None, 0))"
    using call_keep [where f = "ht_delete_helper (\<lambda>_. [])", OF assms(1,2) r(1,3)] r
    by (auto simp: ht_unset_def)
  then obtain t2 where "ht_set t1 key d m = Inr (0, t2)" "ht_inv t2" "ht_map t2 = ht_map t1" "ht_cnt t2 = ht_cnt t1 + 1"
    using set_fresh [OF t1(2) assms(3), of False m "\<lambda>_. []" d d False False] by (auto simp: ht_set_def)
  with t1 show ?thesis by (auto simp: ht_get_eq ht_count_def)
qed

end
