(* ===== verification/Hashtable_Status.thy ===== *)
theory Hashtable_Status
  imports Hashtable
begin

text \<open>
  How threads share a hash table (src/src/index/libhl/hashtable.c): the status word that keeps readers of the bucket array apart from
  those who change it, the locks of the bucket lists and the order of the steps of \<^verbatim>\<open>ht_get_list\<close>, \<^verbatim>\<open>ht_set_list\<close>,
  \<^verbatim>\<open>ht_grow_table\<close> and \<^verbatim>\<open>ht_clear\<close> within a lookup, an insertion and a clearing. Every atomic instruction of the code is a step
  of its own; the bodies that grow and clear the table are one step each, taken when the locks they need are free.
  A thread that cannot go on (it spins or waits for a lock) has no step. An item is its key. \<^verbatim>\<open>sched_yield\<close> is taken not to fail.
\<close>

section \<open>Shared memory and threads\<close>

definition HT_STATUS_CLEAR :: nat where "HT_STATUS_CLEAR = 0"
definition HT_STATUS_WRITE :: nat where "HT_STATUS_WRITE = 1"
definition HT_STATUS_GROW :: nat where "HT_STATUS_GROW = 2"
definition HT_STATUS_IDLE :: nat where "HT_STATUS_IDLE = 3"
definition HT_STATUS_READ :: nat where "HT_STATUS_READ = 4"

lemmas status_defs = HT_STATUS_CLEAR_def HT_STATUS_WRITE_def HT_STATUS_GROW_def HT_STATUS_IDLE_def HT_STATUS_READ_def

type_synonym lid = nat
type_synonym tid = nat
type_synonym key = "byte list"

text \<open>Lists are objects: the array and the iterator hold references to them.\<close>

record shared =
  s_status :: nat
  s_size :: nat
  s_max_size :: nat
  s_count :: nat
  s_slots :: "nat \<Rightarrow> lid option"
  s_iter :: "lid list"
  s_index :: "lid \<Rightarrow> nat"
  s_lists :: "lid \<Rightarrow> key list"
  s_next :: lid
  s_lock :: "lid \<Rightarrow> tid option"

datatype job = Get | Set

text \<open>
  Where a thread is: in \<^verbatim>\<open>ht_get_list\<close> (\<open>Gidx\<close> to \<open>Gdec2\<close>, with the index it computed first and its copy of the status), back in its
  caller (\<open>Found\<close>), in \<^verbatim>\<open>ht_set_list\<close> (\<open>Wcas\<close> to \<open>Wit\<close>), storing its item (\<open>Ins\<close>), checking for growth and in \<^verbatim>\<open>ht_grow_table\<close>
  (\<open>Tchk\<close> to \<open>Tend\<close>), in \<^verbatim>\<open>ht_clear\<close> (\<open>Ccas\<close> to \<open>Cend\<close>), or returning.
\<close>

datatype pc =
  Out
| Gidx job key
| Gcas job key nat
| Gwait job key nat nat
| Gretry job key nat
| Gread job key nat nat
| Gdec job key nat "lid option"
| Gdec2 job key "lid option"
| Found job key "lid option"
| Wcas key lid
| Win key lid
| Wend key lid bool
| Wit key lid
| Ins key lid
| Tchk
| Tcas
| Twork
| Tend
| Ccas
| Cwork
| Cend
| Ret bool

type_synonym conf = "shared \<times> (tid \<Rightarrow> pc)"

section \<open>Steps\<close>

text \<open>Compare and swap, and what the cell held before.\<close>

definition cas :: "nat \<Rightarrow> nat \<Rightarrow> shared \<Rightarrow> nat \<times> shared" where
  "cas old new m = (s_status m, if s_status m = old then m\<lparr>s_status := new\<rparr> else m)"

fun get_step :: "tid \<Rightarrow> (key \<Rightarrow> nat) \<Rightarrow> shared \<Rightarrow> pc \<Rightarrow> (shared \<times> pc) option" where
  "get_step t hash m (Gidx job k) = Some (m, Gcas job k (hash k mod s_size m))"
| "get_step t hash m (Gcas job k i) =
     (let (st, m') = cas HT_STATUS_IDLE HT_STATUS_READ m
      in if st < HT_STATUS_IDLE then None else Some (m', Gwait job k i st))"
| "get_step t hash m (Gwait job k i st) =
     (if st = HT_STATUS_IDLE then Some (m, Gread job k i (st + 1))
      else if HT_STATUS_READ \<le> st \<and> fst (cas st (st + 1) m) = st
           then Some (snd (cas st (st + 1) m), Gread job k i (st + 1))
      else Some (m, Gretry job k i))"
| "get_step t hash m (Gretry job k i) =
     (let (st, m') = cas HT_STATUS_IDLE HT_STATUS_READ m in Some (m', Gwait job k i st))"
| "get_step t hash m (Gread job k i st) =
     (case s_slots m i of
        None \<Rightarrow> Some (m, Gdec job k st None)
      | Some l \<Rightarrow> if s_lock m l \<noteq> None then None
                  else Some (m\<lparr>s_lock := (s_lock m)(l := Some t)\<rparr>, Gdec job k st (Some l)))"
| "get_step t hash m (Gdec job k st l) =
     (let (v, m') = cas st (st - 1) m in if v = st then Some (m', Found job k l) else Some (m, Gdec2 job k l))"
| "get_step t hash m (Gdec2 job k l) =
     (let (v, m') = cas HT_STATUS_READ HT_STATUS_IDLE m
      in if HT_STATUS_READ < v then Some (m', Gdec job k v l) else Some (m', Found job k l))"
| "get_step t hash m _ = None"

text \<open>A lookup ends with whether the key is in the list; an insertion without a list makes one.\<close>

fun use_step :: "tid \<Rightarrow> shared \<Rightarrow> pc \<Rightarrow> (shared \<times> pc) option" where
  "use_step t m (Found Get k None) = Some (m, Ret False)"
| "use_step t m (Found Get k (Some l)) = Some (m\<lparr>s_lock := (s_lock m)(l := None)\<rparr>, Ret (k \<in> set (s_lists m l)))"
| "use_step t m (Found Set k (Some l)) = Some (m, Ins k l)"
| "use_step t m (Found Set k None) =
     Some (m\<lparr>s_lists := (s_lists m)(s_next m := []), s_lock := (s_lock m)(s_next m := Some t), s_next := Suc (s_next m)\<rparr>,
           Wcas k (s_next m))"
| "use_step t m (Ins k l) =
     Some (if k \<in> set (s_lists m l) then m\<lparr>s_lock := (s_lock m)(l := None)\<rparr>
           else m\<lparr>s_lists := (s_lists m)(l := s_lists m l @ [k]), s_count := s_count m + 1, s_lock := (s_lock m)(l := None)\<rparr>,
           Tchk)"
| "use_step t m _ = None"

fun set_list_step :: "tid \<Rightarrow> (key \<Rightarrow> nat) \<Rightarrow> shared \<Rightarrow> pc \<Rightarrow> (shared \<times> pc) option" where
  "set_list_step t hash m (Wcas k l) =
     (let (st, m') = cas HT_STATUS_IDLE HT_STATUS_WRITE m in if st = HT_STATUS_IDLE then Some (m', Win k l) else None)"
| "set_list_step t hash m (Win k l) =
     (let i = hash k mod s_size m
      in case s_slots m i of
           Some l' \<Rightarrow> if s_lock m l' \<noteq> None then None
                      else Some (m\<lparr>s_lock := (s_lock m)(l' := Some t)\<rparr>, Wend k l' False)
         | None \<Rightarrow> Some (m\<lparr>s_slots := (s_slots m)(i := Some l), s_index := (s_index m)(l := i)\<rparr>, Wend k l True))"
| "set_list_step t hash m (Wend k l new) =
     Some (snd (cas HT_STATUS_WRITE HT_STATUS_IDLE m), if new then Wit k l else Ins k l)"
| "set_list_step t hash m (Wit k l) = Some (m\<lparr>s_iter := s_iter m @ [l]\<rparr>, Ins k l)"
| "set_list_step t hash m _ = None"

text \<open>Moving the items of the lists of the iterator to new lists.\<close>

definition move_key :: "(key \<Rightarrow> nat) \<Rightarrow> nat \<Rightarrow> shared \<Rightarrow> key \<Rightarrow> shared" where
  "move_key hash n m k =
     (let i = hash k mod n
      in case s_slots m i of
           Some l \<Rightarrow> m\<lparr>s_lists := (s_lists m)(l := s_lists m l @ [k])\<rparr>
         | None \<Rightarrow> let l = s_next m
                   in m\<lparr>s_lists := (s_lists m)(l := [k]), s_slots := (s_slots m)(i := Some l), s_index := (s_index m)(l := i),
                        s_iter := s_iter m @ [l], s_next := Suc l\<rparr>)"

definition grow_body :: "(key \<Rightarrow> nat) \<Rightarrow> shared \<Rightarrow> shared" where
  "grow_body hash m =
     (let n = s_size m * 2;
          n' = (if s_max_size m \<noteq> 0 \<and> s_max_size m < n then s_max_size m else n);
          ks = concat (map (s_lists m) (s_iter m))
      in foldl (move_key hash n') (m\<lparr>s_slots := (\<lambda>_. None), s_size := n', s_iter := []\<rparr>) ks)"

fun grow_step :: "(key \<Rightarrow> nat) \<Rightarrow> shared \<Rightarrow> pc \<Rightarrow> (shared \<times> pc) option" where
  "grow_step hash m Tchk =
     Some (m, if s_count m > s_size m + s_size m div 3 \<and> (s_max_size m = 0 \<or> s_size m < s_max_size m) then Tcas else Ret True)"
| "grow_step hash m Tcas =
     (let (st, m') = cas HT_STATUS_IDLE HT_STATUS_GROW m
      in Some (m', if st = HT_STATUS_IDLE then Twork else Ret True))"
| "grow_step hash m Twork =
     (if s_max_size m \<noteq> 0 \<and> s_max_size m \<le> s_size m then Some (m, Tend)
      else if \<exists>l \<in> set (s_iter m). s_lock m l \<noteq> None then None
      else Some (grow_body hash m, Tend))"
| "grow_step hash m Tend = Some (snd (cas HT_STATUS_GROW HT_STATUS_IDLE m), Ret True)"
| "grow_step hash m _ = None"

definition clear_one :: "shared \<Rightarrow> lid \<Rightarrow> shared" where
  "clear_one m l =
     m\<lparr>s_count := s_count m - length (s_lists m l), s_lists := (s_lists m)(l := []),
       s_slots := (s_slots m)(s_index m l := None)\<rparr>"

definition clear_body :: "shared \<Rightarrow> shared" where
  "clear_body m = foldl clear_one (m\<lparr>s_iter := []\<rparr>) (s_iter m)"

fun clear_step :: "shared \<Rightarrow> pc \<Rightarrow> (shared \<times> pc) option" where
  "clear_step m Ccas =
     (let (st, m') = cas HT_STATUS_IDLE HT_STATUS_CLEAR m in if st = HT_STATUS_IDLE then Some (m', Cwork) else None)"
| "clear_step m Cwork = (if \<exists>l \<in> set (s_iter m). s_lock m l \<noteq> None then None else Some (clear_body m, Cend))"
| "clear_step m Cend = Some (snd (cas HT_STATUS_CLEAR HT_STATUS_IDLE m), Ret True)"
| "clear_step m (Ret b) = Some (m, Out)"
| "clear_step m _ = None"

definition next_step :: "tid \<Rightarrow> (key \<Rightarrow> nat) \<Rightarrow> shared \<Rightarrow> pc \<Rightarrow> (shared \<times> pc) option" where
  "next_step t hash m p =
     (case p of
        Gidx _ _ \<Rightarrow> get_step t hash m p | Gcas _ _ _ \<Rightarrow> get_step t hash m p | Gwait _ _ _ _ \<Rightarrow> get_step t hash m p
      | Gretry _ _ _ \<Rightarrow> get_step t hash m p | Gread _ _ _ _ \<Rightarrow> get_step t hash m p | Gdec _ _ _ _ \<Rightarrow> get_step t hash m p
      | Gdec2 _ _ _ \<Rightarrow> get_step t hash m p
      | Found _ _ _ \<Rightarrow> use_step t m p | Ins _ _ \<Rightarrow> use_step t m p
      | Wcas _ _ \<Rightarrow> set_list_step t hash m p | Win _ _ \<Rightarrow> set_list_step t hash m p | Wend _ _ _ \<Rightarrow> set_list_step t hash m p
      | Wit _ _ \<Rightarrow> set_list_step t hash m p
      | Tchk \<Rightarrow> grow_step hash m p | Tcas \<Rightarrow> grow_step hash m p | Twork \<Rightarrow> grow_step hash m p | Tend \<Rightarrow> grow_step hash m p
      | _ \<Rightarrow> clear_step m p)"

inductive step :: "(key \<Rightarrow> nat) \<Rightarrow> conf \<Rightarrow> conf \<Rightarrow> bool" for hash where
  go: "next_step t hash m (ps t) = Some (m', p') \<Longrightarrow> step hash (m, ps) (m', ps(t := p'))"
| call: "ps t = Out \<Longrightarrow> k \<noteq> [] \<Longrightarrow> step hash (m, ps) (m, ps(t := Gidx job k))"
| call_clear: "ps t = Out \<Longrightarrow> step hash (m, ps) (m, ps(t := Ccas))"

inductive steps :: "(key \<Rightarrow> nat) \<Rightarrow> conf \<Rightarrow> conf \<Rightarrow> bool" for hash where
  refl: "steps hash c c"
| more: "steps hash c c' \<Longrightarrow> step hash c' c'' \<Longrightarrow> steps hash c c''"

inductive_cases stepE: "step hash (m, ps) c"

text \<open>A table no thread is using.\<close>

definition quiet :: "shared \<Rightarrow> (tid \<Rightarrow> pc) \<Rightarrow> bool" where
  "quiet m ps \<longleftrightarrow> s_status m = HT_STATUS_IDLE \<and> ps = (\<lambda>_. Out) \<and> s_lock m = (\<lambda>_. None)"

section \<open>Mutual exclusion\<close>

text \<open>A thread counted as a reader in the status, and the status a thread with exclusive access has set.\<close>

fun reads :: "pc \<Rightarrow> bool" where
  "reads (Gwait job k i st) = (st = HT_STATUS_IDLE)"
| "reads (Gread job k i st) = True"
| "reads (Gdec job k st l) = True"
| "reads (Gdec2 job k l) = True"
| "reads _ = False"

fun excl :: "pc \<Rightarrow> nat option" where
  "excl (Win k l) = Some HT_STATUS_WRITE"
| "excl (Wend k l new) = Some HT_STATUS_WRITE"
| "excl Twork = Some HT_STATUS_GROW"
| "excl Tend = Some HT_STATUS_GROW"
| "excl Cwork = Some HT_STATUS_CLEAR"
| "excl Cend = Some HT_STATUS_CLEAR"
| "excl _ = None"

fun local_ok :: "pc \<Rightarrow> bool" where
  "local_ok (Gread job k i st) = (HT_STATUS_READ \<le> st)"
| "local_ok (Gdec job k st l) = (HT_STATUS_READ \<le> st)"
| "local_ok _ = True"

definition readers :: "(tid \<Rightarrow> pc) \<Rightarrow> tid set" where
  "readers ps = {t. reads (ps t)}"

definition status_inv :: "conf \<Rightarrow> bool" where
  "status_inv c =
     (let (m, ps) = c
      in finite (readers ps) \<and> (\<forall>t. local_ok (ps t)) \<and>
         (\<forall>t x. excl (ps t) = Some x \<longrightarrow> s_status m = x \<and> readers ps = {} \<and> (\<forall>t'. t' \<noteq> t \<longrightarrow> excl (ps t') = None)) \<and>
         ((\<forall>t. excl (ps t) = None) \<longrightarrow> s_status m = HT_STATUS_IDLE + card (readers ps)))"

lemma readers_upd: "readers (ps(t := p)) = (if reads p then insert t (readers ps) else readers ps - {t})"
  by (auto simp: readers_def)

lemma excl_small: "excl p = Some x \<Longrightarrow> x < HT_STATUS_IDLE"
  by (cases p) (auto simp: status_defs)

lemma body_status [simp]:
  "s_status (grow_body hash m) = s_status m" "s_status (clear_body m) = s_status m"
proof -
  have "s_status (foldl (move_key hash n) m ks) = s_status m" for n ks m
    by (induction ks arbitrary: m) (auto simp: move_key_def Let_def split: option.splits)
  then show "s_status (grow_body hash m) = s_status m"
    by (simp add: grow_body_def Let_def)
  have "s_status (foldl clear_one m ls) = s_status m" for ls m
    by (induction ls arbitrary: m) (simp_all add: clear_one_def)
  then show "s_status (clear_body m) = s_status m"
    by (simp add: clear_body_def)
qed

text \<open>What a step does to the status, by the place of the thread before and after it.\<close>

datatype change = Neutral | Enter | Leave | Acquire nat | Release nat

definition changes :: "change \<Rightarrow> nat \<Rightarrow> pc \<Rightarrow> nat \<Rightarrow> pc \<Rightarrow> bool" where
  "changes c st p st' p' =
     (local_ok p' \<and>
      (case c of
         Neutral \<Rightarrow> st' = st \<and> reads p' = reads p \<and> excl p' = excl p
       | Enter \<Rightarrow> \<not> reads p \<and> reads p' \<and> excl p = None \<and> excl p' = None \<and> HT_STATUS_IDLE \<le> st \<and> st' = st + 1
       | Leave \<Rightarrow> reads p \<and> \<not> reads p' \<and> excl p = None \<and> excl p' = None \<and>
                  (HT_STATUS_IDLE < st \<longrightarrow> st' = st - 1)
       | Acquire x \<Rightarrow> \<not> reads p \<and> \<not> reads p' \<and> excl p = None \<and> excl p' = Some x \<and> st = HT_STATUS_IDLE \<and> st' = x
       | Release x \<Rightarrow> \<not> reads p' \<and> excl p = Some x \<and> excl p' = None \<and> (st = x \<longrightarrow> st' = HT_STATUS_IDLE)))"

lemma changesI:
  "changes Neutral st p st' p' \<or> changes Enter st p st' p' \<or> changes Leave st p st' p' \<or>
   (\<exists>x. changes (Acquire x) st p st' p') \<or> (\<exists>x. changes (Release x) st p st' p') \<Longrightarrow> \<exists>c. changes c st p st' p'"
  by blast

lemma next_step_changes:
  assumes "next_step t hash m p = Some (m', p')" and "local_ok p"
  shows "\<exists>c. changes c (s_status m) p (s_status m') p'"
proof (rule changesI, cases p)
  case (Found job k l)
  then show "changes Neutral (s_status m) p (s_status m') p' \<or> changes Enter (s_status m) p (s_status m') p' \<or>
      changes Leave (s_status m) p (s_status m') p' \<or>
      (\<exists>x. changes (Acquire x) (s_status m) p (s_status m') p') \<or> (\<exists>x. changes (Release x) (s_status m) p (s_status m') p')"
    using assms by (cases job; cases l) (auto simp: next_step_def changes_def)
qed (use assms in \<open>auto simp: next_step_def changes_def cas_def Let_def status_defs split: if_splits option.splits\<close>)

lemma changes_inv:
  assumes "status_inv (m, ps)" and "changes c (s_status m) (ps t) (s_status m') p'"
  shows "status_inv (m', ps(t := p'))"
proof -
  have fin: "finite (readers ps)" and loc: "\<forall>t. local_ok (ps t)"
    and ex: "\<And>t x. excl (ps t) = Some x \<Longrightarrow> s_status m = x \<and> readers ps = {} \<and> (\<forall>t'. t' \<noteq> t \<longrightarrow> excl (ps t') = None)"
    and free: "(\<forall>t. excl (ps t) = None) \<Longrightarrow> s_status m = HT_STATUS_IDLE + card (readers ps)"
    using assms(1) by (auto simp: status_inv_def)
  have t: "t \<in> readers ps \<longleftrightarrow> reads (ps t)" by (simp add: readers_def)
  have none: "\<forall>t. excl (ps t) = None" if "HT_STATUS_IDLE \<le> s_status m \<or> readers ps \<noteq> {}"
    using that ex excl_small by (metis option.exhaust not_le)
  show ?thesis
  proof (cases c)
    case Neutral
    then have c: "s_status m' = s_status m" "reads p' = reads (ps t)" "excl p' = excl (ps t)" "local_ok p'"
      using assms(2) by (auto simp: changes_def)
    then have "readers (ps(t := p')) = readers ps" "excl ((ps(t := p')) x) = excl (ps x)" for x
      by (auto simp: readers_def)
    then show ?thesis
      using assms(1) c loc by (simp add: status_inv_def)
  next
    case Enter
    then have c: "\<not> reads (ps t)" "reads p'" "excl p' = None" "HT_STATUS_IDLE \<le> s_status m" "s_status m' = s_status m + 1" "local_ok p'"
      using assms(2) by (auto simp: changes_def)
    then show ?thesis
      using none free fin t loc by (auto simp: status_inv_def readers_upd)
  next
    case Leave
    then have c: "reads (ps t)" "\<not> reads p'" "excl p' = None" "local_ok p'" "HT_STATUS_IDLE < s_status m \<longrightarrow> s_status m' = s_status m - 1"
      using assms(2) by (auto simp: changes_def)
    have n: "\<forall>t. excl (ps t) = None" using none t c(1) by blast
    have "0 < card (readers ps)" using fin t c(1) by (auto simp: card_gt_0_iff)
    then show ?thesis
      using n free fin t loc c by (auto simp: status_inv_def readers_upd card_Diff_singleton)
  next
    case (Acquire x)
    then have c: "\<not> reads (ps t)" "\<not> reads p'" "excl p' = Some x" "s_status m = HT_STATUS_IDLE" "s_status m' = x" "local_ok p'"
      using assms(2) by (auto simp: changes_def)
    then have n: "\<forall>t. excl (ps t) = None" using none by simp
    then have "readers ps = {}" using free fin c(4) by simp
    then show ?thesis
      using n loc c by (auto simp: status_inv_def readers_upd)
  next
    case (Release x)
    then have c: "\<not> reads p'" "excl (ps t) = Some x" "excl p' = None" "s_status m = x \<longrightarrow> s_status m' = HT_STATUS_IDLE" "local_ok p'"
      using assms(2) by (auto simp: changes_def)
    then show ?thesis
      using ex [OF c(2)] loc by (auto simp: status_inv_def readers_upd)
  qed
qed

lemma step_inv: "step hash c c' \<Longrightarrow> status_inv c \<Longrightarrow> status_inv c'"
proof (induction rule: step.induct)
  case (go t m ps m' p')
  then have "local_ok (ps t)" by (simp add: status_inv_def)
  with go next_step_changes [OF go(1)] show ?case using changes_inv by blast
next
  case (call ps t k m job)
  then have "changes Neutral (s_status m) (ps t) (s_status m) (Gidx job k)" by (simp add: changes_def)
  with call show ?case using changes_inv by blast
next
  case (call_clear ps t m)
  then have "changes Neutral (s_status m) (ps t) (s_status m) Ccas" by (simp add: changes_def)
  with call_clear show ?case using changes_inv by blast
qed

lemma steps_inv: "steps hash c c' \<Longrightarrow> status_inv c \<Longrightarrow> status_inv c'"
  by (induction rule: steps.induct) (auto intro: step_inv)

lemma quiet_inv: "quiet m ps \<Longrightarrow> status_inv (m, ps)"
  by (simp add: quiet_def status_inv_def readers_def)

text \<open>C17: While a thread is between setting and resetting the status for writing, growing or clearing, no other thread is, and none
  reads the array of buckets.
\<close>

theorem status_excludes:
  assumes "quiet m0 ps0" and "steps hash (m0, ps0) (m, ps)" and "excl (ps t) = Some x"
  shows "s_status m = x \<and> (\<forall>t'. \<not> reads (ps t')) \<and> (\<forall>t'. t' \<noteq> t \<longrightarrow> excl (ps t') = None)"
  using steps_inv [OF assms(2) quiet_inv [OF assms(1)]] assms(3)
  by (auto simp: status_inv_def readers_def)

text \<open>When no thread is inside, the status is back to idle: no reader is lost from the count.\<close>

theorem status_returns_to_idle:
  assumes "quiet m0 ps0" and "steps hash (m0, ps0) (m, ps)" and "\<forall>t. excl (ps t) = None \<and> \<not> reads (ps t)"
  shows "s_status m = HT_STATUS_IDLE"
  using steps_inv [OF assms(2) quiet_inv [OF assms(1)]] assms(3)
  by (simp add: status_inv_def readers_def)

section \<open>Schedules\<close>

fun run_schedule :: "(key \<Rightarrow> nat) \<Rightarrow> tid list \<Rightarrow> conf \<Rightarrow> conf option" where
  "run_schedule hash [] c = Some c"
| "run_schedule hash (t # ts) (m, ps) =
     (case next_step t hash m (ps t) of
        None \<Rightarrow> None
      | Some (m', p') \<Rightarrow> run_schedule hash ts (m', ps(t := p')))"

lemma steps_trans: "steps hash b c \<Longrightarrow> steps hash a b \<Longrightarrow> steps hash a c"
  by (induction rule: steps.induct) (auto intro: steps.more)

lemma steps_one: "step hash c c' \<Longrightarrow> steps hash c c'"
  by (rule steps.more [OF steps.refl])

lemma run_schedule_steps: "run_schedule hash ts c = Some c' \<Longrightarrow> steps hash c c'"
proof (induction hash ts c rule: run_schedule.induct)
  case (2 hash t ts m ps)
  then obtain m' p' where "next_step t hash m (ps t) = Some (m', p')" "steps hash (m', ps(t := p')) c'"
    by (auto split: option.splits)
  then show ?case by (blast intro: steps_trans steps_one step.go)
qed (simp add: steps.refl)

section \<open>Where the keys go when the table grows\<close>

text \<open>The lists of the new array are new, and each holds the keys of its index.\<close>

definition placed :: "(key \<Rightarrow> nat) \<Rightarrow> nat \<Rightarrow> lid \<Rightarrow> key list \<Rightarrow> shared \<Rightarrow> bool" where
  "placed hash n first ks m \<longleftrightarrow>
     (\<forall>i l. s_slots m i = Some l \<longrightarrow> first \<le> l \<and> l < s_next m \<and> (\<forall>k \<in> set (s_lists m l). k \<in> set ks \<and> hash k mod n = i)) \<and>
     (\<forall>i j l. s_slots m i = Some l \<longrightarrow> s_slots m j = Some l \<longrightarrow> i = j) \<and>
     (\<forall>k \<in> set ks. \<exists>l. s_slots m (hash k mod n) = Some l \<and> k \<in> set (s_lists m l)) \<and> first \<le> s_next m"

lemma placedD:
  assumes "placed hash n first ks m"
  shows "s_slots m i = Some l \<Longrightarrow> first \<le> l \<and> l < s_next m"
    and "s_slots m i = Some l \<Longrightarrow> k \<in> set (s_lists m l) \<Longrightarrow> k \<in> set ks \<and> hash k mod n = i"
    and "s_slots m i = Some l \<Longrightarrow> s_slots m j = Some l \<Longrightarrow> i = j"
    and "k \<in> set ks \<Longrightarrow> \<exists>l. s_slots m (hash k mod n) = Some l \<and> k \<in> set (s_lists m l)"
    and "first \<le> s_next m"
  using assms unfolding placed_def by blast+

lemma placedI:
  assumes "\<And>i l. s_slots m i = Some l \<Longrightarrow> first \<le> l \<and> l < s_next m"
    and "\<And>i l k. s_slots m i = Some l \<Longrightarrow> k \<in> set (s_lists m l) \<Longrightarrow> k \<in> set ks \<and> hash k mod n = i"
    and "\<And>i j l. s_slots m i = Some l \<Longrightarrow> s_slots m j = Some l \<Longrightarrow> i = j"
    and "\<And>k. k \<in> set ks \<Longrightarrow> \<exists>l. s_slots m (hash k mod n) = Some l \<and> k \<in> set (s_lists m l)"
    and "first \<le> s_next m"
  shows "placed hash n first ks m"
  using assms unfolding placed_def by blast

lemma move_key_placed:
  assumes p: "placed hash n first ks m"
  shows "placed hash n first (ks @ [k]) (move_key hash n m k)"
proof (cases "s_slots m (hash k mod n)")
  case None
  define m' where "m' = move_key hash n m k"
  define i0 where "i0 = hash k mod n"
  have f: "s_slots m' = (s_slots m)(i0 := Some (s_next m))" "s_lists m' = (s_lists m)(s_next m := [k])" "s_next m' = Suc (s_next m)"
    using None by (simp_all add: m'_def move_key_def Let_def i0_def)
  have old: "l \<noteq> s_next m" if "s_slots m i = Some l" for i l
    using placedD(1) [OF p that] by auto
  have "placed hash n first (ks @ [k]) m'"
  proof (rule placedI)
    show "first \<le> l \<and> l < s_next m'" if "s_slots m' i = Some l" for i l
      using that placedD(1) [OF p, of i l] placedD(5) [OF p] by (auto simp: f split: if_splits)
    show "k' \<in> set (ks @ [k]) \<and> hash k' mod n = i" if "s_slots m' i = Some l" "k' \<in> set (s_lists m' l)" for i l k'
      using that placedD(2) [OF p, of i l k'] old [of i l] by (auto simp: f i0_def split: if_splits)
    show "i = j" if "s_slots m' i = Some l" "s_slots m' j = Some l" for i j l
      using that placedD(3) [OF p, of i l j] old [of i l] old [of j l] by (auto simp: f split: if_splits)
    show "\<exists>l. s_slots m' (hash k' mod n) = Some l \<and> k' \<in> set (s_lists m' l)" if "k' \<in> set (ks @ [k])" for k'
    proof (cases "hash k' mod n = i0")
      case True
      moreover have "k' \<notin> set ks" using True None placedD(4) [OF p, of k'] by (auto simp: i0_def)
      ultimately show ?thesis using that by (simp add: f)
    next
      case False
      then have "k' \<in> set ks" using that by (auto simp: i0_def)
      with False placedD(4) [OF p this] old show ?thesis by (auto simp: f)
    qed
  qed (use placedD(5) [OF p] in \<open>simp add: f\<close>)
  then show ?thesis by (simp add: m'_def)
next
  case (Some l0)
  define m' where "m' = move_key hash n m k"
  have f: "s_slots m' = s_slots m" "s_lists m' = (s_lists m)(l0 := s_lists m l0 @ [k])" "s_next m' = s_next m"
    using Some by (simp_all add: m'_def move_key_def Let_def)
  have "placed hash n first (ks @ [k]) m'"
  proof (rule placedI)
    show "k' \<in> set (ks @ [k]) \<and> hash k' mod n = i" if "s_slots m' i = Some l" "k' \<in> set (s_lists m' l)" for i l k'
      using that placedD(2) [OF p, of i l k'] placedD(3) [OF p Some, of i] by (auto simp: f split: if_splits)
    show "\<exists>l. s_slots m' (hash k' mod n) = Some l \<and> k' \<in> set (s_lists m' l)" if "k' \<in> set (ks @ [k])" for k'
      using that placedD(4) [OF p, of k'] Some by (auto simp: f)
  qed (use placedD [OF p] in \<open>auto simp: f\<close>)
  then show ?thesis by (simp add: m'_def)
qed

lemma move_keys_placed: "placed hash n first ks m \<Longrightarrow> placed hash n first (ks @ ks') (foldl (move_key hash n) m ks')"
proof (induction ks' arbitrary: ks m)
  case (Cons k ks')
  from Cons.IH [OF move_key_placed [OF Cons.prems, of k]] show ?case by simp
qed simp

lemma move_keys_same:
  "s_size (foldl (move_key hash n) m ks) = s_size m" "s_lock (foldl (move_key hash n) m ks) = s_lock m"
  "s_max_size (foldl (move_key hash n) m ks) = s_max_size m" "s_count (foldl (move_key hash n) m ks) = s_count m"
  by (induction ks arbitrary: m) (auto simp: move_key_def Let_def split: option.splits)

lemma move_keys_status:
  "(foldl (move_key hash n) (m\<lparr>s_status := x\<rparr>) ks)\<lparr>s_status := y\<rparr> = (foldl (move_key hash n) m ks)\<lparr>s_status := y\<rparr>"
proof (induction ks arbitrary: m)
  case (Cons k ks)
  have "move_key hash n (m\<lparr>s_status := x\<rparr>) k = (move_key hash n m k)\<lparr>s_status := x\<rparr>"
    by (simp add: move_key_def Let_def split: option.splits)
  then show ?case using Cons.IH [of "move_key hash n m k"] by simp
qed simp

lemma grow_body_status:
  assumes "s_status m = y"
  shows "(grow_body hash (m\<lparr>s_status := x\<rparr>))\<lparr>s_status := y\<rparr> = grow_body hash m"
proof -
  have "(foldl (move_key hash n) (m\<lparr>s_status := x, s_slots := (\<lambda>_. None), s_size := n, s_iter := []\<rparr>) ks)\<lparr>s_status := y\<rparr> =
      (foldl (move_key hash n) (m\<lparr>s_slots := (\<lambda>_. None), s_size := n, s_iter := []\<rparr>) ks)\<lparr>s_status := y\<rparr>" for n ks
    using move_keys_status [where hash = hash and n = n and m = "m\<lparr>s_slots := (\<lambda>_. None), s_size := n, s_iter := []\<rparr>"
        and x = x and y = y and ks = ks] by (cases m) simp
  then have "(grow_body hash (m\<lparr>s_status := x\<rparr>))\<lparr>s_status := y\<rparr> = (grow_body hash m)\<lparr>s_status := y\<rparr>"
    by (simp add: grow_body_def Let_def)
  also have "\<dots> = grow_body hash m"
    using body_status(1) [of hash m] assms by (metis shared.surjective shared.update_convs(1) shared.select_convs(1))
  finally show ?thesis .
qed

lemma grow_body_placed:
  assumes "s_max_size m = 0"
  shows "placed hash (s_size m * 2) (s_next m) (concat (map (s_lists m) (s_iter m))) (grow_body hash m)"
proof -
  have "placed hash (s_size m * 2) (s_next m) [] (m\<lparr>s_slots := (\<lambda>_. None), s_size := s_size m * 2, s_iter := []\<rparr>)"
    by (simp add: placed_def)
  from move_keys_placed [OF this] show ?thesis
    using assms by (simp add: grow_body_def Let_def)
qed

lemma grow_body_same [simp]:
  "s_max_size m = 0 \<Longrightarrow> s_size (grow_body hash m) = s_size m * 2"
  "s_lock (grow_body hash m) = s_lock m" "s_max_size (grow_body hash m) = s_max_size m"
  "s_count (grow_body hash m) = s_count m"
  by (auto simp: grow_body_def Let_def move_keys_same)

section \<open>Two races\<close>

lemmas run_simps = next_step_def cas_def Let_def status_defs

text \<open>An insertion into an existing list that makes the table grow, by thread 1, after the other thread has got as far as \<open>p\<close>.\<close>

definition stored_in :: "shared \<Rightarrow> lid \<Rightarrow> key \<Rightarrow> shared" where
  "stored_in m l k = m\<lparr>s_lists := (s_lists m)(l := s_lists m l @ [k]), s_count := s_count m + 1, s_lock := (s_lock m)(l := None)\<rparr>"

lemma run_append: "run_schedule hash (ts @ ts') c = Option.bind (run_schedule hash ts c) (run_schedule hash ts')"
  by (induction hash ts c rule: run_schedule.induct) (auto split: option.splits)

lemma insert_and_grow:
  assumes "s_status m = HT_STATUS_IDLE" and "s_max_size m = 0" and "s_count m = s_size m + s_size m div 3"
    and "s_slots m (hash k mod s_size m) = Some l" and "k \<notin> set (s_lists m l)"
    and "s_lock m l = None" and "\<forall>l' \<in> set (s_iter m). s_lock m l' = None" and "ps 1 = Gidx Set k"
  shows "steps hash (m, ps) (grow_body hash (stored_in m l k), ps(1 := Out))"
proof -
  define m1 where "m1 = stored_in m l k"
  have 1: "run_schedule hash [1, 1, 1, 1, 1, 1, 1] (m, ps) = Some (m1, ps(1 := Tchk))"
    using assms by (simp add: run_simps m1_def stored_in_def)
  have "s_status m1 = HT_STATUS_IDLE" "s_max_size m1 = 0" "s_count m1 > s_size m1 + s_size m1 div 3"
      "\<forall>l' \<in> set (s_iter m1). s_lock m1 l' = None"
    using assms by (simp_all add: m1_def stored_in_def)
  moreover define m2 where "m2 = m1\<lparr>s_status := HT_STATUS_GROW\<rparr>"
  moreover have "(grow_body hash m2)\<lparr>s_status := HT_STATUS_IDLE\<rparr> = grow_body hash m1"
    using assms(1) by (simp add: m2_def m1_def stored_in_def grow_body_status)
  ultimately have 2: "run_schedule hash [1, 1, 1, 1, 1] (m1, ps(1 := Tchk)) = Some (grow_body hash m1, ps(1 := Out))"
    by (simp add: run_simps)
  have "run_schedule hash ([1, 1, 1, 1, 1, 1, 1] @ [1, 1, 1, 1, 1]) (m, ps) = Some (grow_body hash m1, ps(1 := Out))"
    unfolding run_append 1 using 2 by simp
  then show ?thesis using run_schedule_steps m1_def by blast
qed

text \<open>C18: A lookup computes its index before it enters the table. If the table grows in between, it reads the list of the old index
  and does not find a key that is stored all the time.
\<close>

theorem stale_index_misses_key:
  assumes "quiet m ps" and "s_max_size m = 0" and "s_count m = s_size m + s_size m div 3"
    and k: "k \<noteq> []" "s_slots m (hash k mod s_size m) = Some l" "k \<in> set (s_lists m l)" "l \<in> set (s_iter m)"
    and new: "k' \<noteq> []" "s_slots m (hash k' mod s_size m) = Some l'" "k' \<notin> set (s_lists m l')"
    and moved: "hash k mod (s_size m * 2) \<noteq> hash k mod s_size m"
  shows "\<exists>m' ps' r. steps hash (m, ps) (m', ps') \<and> ps' 0 = Ret False \<and> (\<forall>t. t \<noteq> 0 \<longrightarrow> ps' t = Out) \<and>
    s_slots m' (hash k mod s_size m') = Some r \<and> k \<in> set (s_lists m' r)"
proof -
  let ?i = "hash k mod s_size m"
  define ps1 where "ps1 = ps(0 := Gidx Get k, 1 := Gidx Set k')"
  have ps: "ps = (\<lambda>_. Out)" and idle: "s_status m = HT_STATUS_IDLE" and lock: "s_lock m = (\<lambda>_. None)"
    using assms(1) by (auto simp: quiet_def)
  have "step hash (m, ps) (m, ps(0 := Gidx Get k))" "step hash (m, ps(0 := Gidx Get k)) (m, ps1)"
    using k(1) new(1) by (auto simp: ps1_def ps intro!: step.call)
  then have s1: "steps hash (m, ps) (m, ps1)"
    by (blast intro: steps.intros)
  have s2: "steps hash (m, ps1) (m, ps1(0 := Gcas Get k ?i))"
    by (rule run_schedule_steps [of _ "[0]"]) (simp add: ps1_def run_simps)
  define g where "g = grow_body hash (stored_in m l' k')"
  have "steps hash (m, ps1(0 := Gcas Get k ?i)) (g, (ps1(0 := Gcas Get k ?i))(1 := Out))"
    unfolding g_def by (rule insert_and_grow) (use assms idle lock new in \<open>auto simp: ps1_def\<close>)
  moreover have "(ps1(0 := Gcas Get k ?i))(1 := Out) = (\<lambda>_. Out)(0 := Gcas Get k ?i)"
    by (auto simp: ps1_def ps)
  ultimately have s3: "steps hash (m, ps1(0 := Gcas Get k ?i)) (g, (\<lambda>_. Out)(0 := Gcas Get k ?i))"
    by simp
  have pl: "placed hash (s_size m * 2) (s_next m) (concat (map (s_lists (stored_in m l' k')) (s_iter m))) g"
    using grow_body_placed [of "stored_in m l' k'" hash] assms(2) by (simp add: g_def stored_in_def)
  have gs: "s_status g = HT_STATUS_IDLE" "s_lock g = (\<lambda>_. None)" "s_size g = s_size m * 2"
    using idle lock assms(2) by (auto simp: g_def stored_in_def)
  have "run_schedule hash [0, 0, 0, 0, 0] (g, (\<lambda>_. Out)(0 := Gcas Get k ?i)) = Some (g, (\<lambda>_. Out)(0 := Ret False))"
  proof (cases "s_slots g ?i")
    case None
    then show ?thesis using gs by (simp add: run_simps)
  next
    case (Some r)
    have "k \<notin> set (s_lists g r)" using placedD(2) [OF pl Some] moved by blast
    then show ?thesis using Some gs by (simp add: run_simps)
  qed
  then have s4: "steps hash (g, (\<lambda>_. Out)(0 := Gcas Get k ?i)) (g, (\<lambda>_. Out)(0 := Ret False))"
    by (rule run_schedule_steps)
  have "k \<in> set (concat (map (s_lists (stored_in m l' k')) (s_iter m)))"
    using k by (force simp: stored_in_def)
  then obtain r where "s_slots g (hash k mod s_size g) = Some r" "k \<in> set (s_lists g r)"
    using placedD(4) [OF pl] gs(3) by auto
  moreover have "((\<lambda>_. Out)(0 := Ret False)) 0 = Ret False" "\<forall>t. t \<noteq> 0 \<longrightarrow> ((\<lambda>_. Out)(0 := Ret False)) t = Out"
    by simp_all
  ultimately show ?thesis
    using steps_trans [OF s4 steps_trans [OF s3 steps_trans [OF s2 s1]]] by blast
qed

lemma move_keys_old:
  "placed hash n first ks m \<Longrightarrow> l < first \<Longrightarrow> s_lists (foldl (move_key hash n) m ks') l = s_lists m l"
proof (induction ks' arbitrary: ks m)
  case (Cons k ks')
  have "s_lists (move_key hash n m k) l = s_lists m l"
    using Cons.prems placedD(1) [OF Cons.prems(1), of "hash k mod n"] placedD(5) [OF Cons.prems(1)]
    by (auto simp: move_key_def Let_def split: option.splits)
  with Cons.IH [OF move_key_placed [OF Cons.prems(1), of k] Cons.prems(2)] show ?case by simp
qed simp

lemma grow_body_old: "l < s_next m \<Longrightarrow> s_lists (grow_body hash m) l = s_lists m l"
  unfolding grow_body_def Let_def by (subst move_keys_old [where first = "s_next m" and ks = "[]"]) (simp_all add: placed_def)

text \<open>C20: A new list enters the array of buckets before it enters the iterator, and growing moves the lists of the iterator only. If the
  table grows between the two, the insertion succeeds but its key is in no list of the array.
\<close>

theorem grow_loses_new_list:
  assumes "quiet m ps" and "s_max_size m = 0" and "s_count m = s_size m + s_size m div 3" and "8 \<le> s_size m"
    and k: "k \<noteq> []" "s_slots m (hash k mod s_size m) = None" "\<forall>l \<in> set (s_iter m). k \<notin> set (s_lists m l)"
    and new: "k' \<noteq> []" "k' \<noteq> k" "s_slots m (hash k' mod s_size m) = Some l'" "k' \<notin> set (s_lists m l')" "l' < s_next m"
    and ids: "\<forall>l \<in> set (s_iter m). l < s_next m"
  shows "\<exists>m' ps1 ps2. steps hash (m, ps) (m', ps1) \<and> ps1 0 = Ret True \<and> step hash (m', ps1) (m', ps2) \<and> quiet m' ps2 \<and>
    (\<forall>i l. s_slots m' i = Some l \<longrightarrow> k \<notin> set (s_lists m' l))"
proof -
  let ?i = "hash k mod s_size m" and ?L = "s_next m"
  have ps: "ps = (\<lambda>_. Out)" and idle: "s_status m = HT_STATUS_IDLE" and lock: "s_lock m = (\<lambda>_. None)"
    using assms(1) by (auto simp: quiet_def)
  define psa where "psa = ps(0 := Gidx Set k, 1 := Gidx Set k')"
  have "step hash (m, ps) (m, ps(0 := Gidx Set k))" "step hash (m, ps(0 := Gidx Set k)) (m, psa)"
    using k(1) new(1) by (auto simp: psa_def ps intro!: step.call)
  then have s1: "steps hash (m, ps) (m, psa)" by (blast intro: steps.intros)
  define m1 where "m1 = m\<lparr>s_lists := (s_lists m)(?L := []), s_lock := (s_lock m)(?L := Some 0), s_next := Suc ?L,
    s_slots := (s_slots m)(?i := Some ?L), s_index := (s_index m)(?L := ?i)\<rparr>"
  have "run_schedule hash [0, 0, 0, 0, 0, 0, 0, 0, 0] (m, psa) = Some (m1, psa(0 := Wit k ?L))"
    using idle k(2) by (simp add: run_simps psa_def m1_def)
  then have s2: "steps hash (m, psa) (m1, psa(0 := Wit k ?L))" by (rule run_schedule_steps)
  define g where "g = grow_body hash (stored_in m1 l' k')"
  have "hash k' mod s_size m \<noteq> ?i" using k(2) new(3) by auto
  then have "steps hash (m1, psa(0 := Wit k ?L)) (g, (psa(0 := Wit k ?L))(1 := Out))"
    unfolding g_def by (intro insert_and_grow) (use assms idle lock in \<open>auto simp: psa_def m1_def\<close>)
  moreover have "(psa(0 := Wit k ?L))(1 := Out) = (\<lambda>_. Out)(0 := Wit k ?L)"
    by (auto simp: psa_def ps)
  ultimately have s3: "steps hash (m1, psa(0 := Wit k ?L)) (g, (\<lambda>_. Out)(0 := Wit k ?L))" by simp
  have gs: "s_status g = HT_STATUS_IDLE" "s_lock g = (\<lambda>_. None)(?L := Some 0)" "s_size g = s_size m * 2"
      "s_count g = s_size m + s_size m div 3 + 1" "s_max_size g = 0"
    using idle lock assms(2,3) new(5) by (auto simp: g_def stored_in_def m1_def fun_eq_iff)
  have gL: "s_lists g ?L = []"
    using new(5) by (simp add: g_def grow_body_old stored_in_def m1_def)
  have pl: "placed hash (s_size m * 2) (Suc ?L) (concat (map (s_lists (stored_in m1 l' k')) (s_iter m))) g"
    using grow_body_placed [of "stored_in m1 l' k'" hash] assms(2) by (simp add: g_def stored_in_def m1_def)
  have gone: "k \<notin> set (s_lists g l)" "l \<noteq> ?L" if "s_slots g i = Some l" for i l
    using placedD(2) [OF pl that, of k] placedD(1) [OF pl that] k(3) new(2) ids
    by (auto simp: stored_in_def m1_def split: if_splits)
  define m' where "m' = g\<lparr>s_iter := s_iter g @ [?L], s_lists := (s_lists g)(?L := [k]), s_count := s_count g + 1, s_lock := (\<lambda>_. None)\<rparr>"
  have "\<not> s_count m' > s_size m' + s_size m' div 3"
    using assms(4) gs by (simp add: m'_def)
  then have "run_schedule hash [0, 0, 0] (g, (\<lambda>_. Out)(0 := Wit k ?L)) = Some (m', (\<lambda>_. Out)(0 := Ret True))"
    using gs gL by (simp add: run_simps m'_def)
  then have s4: "steps hash (g, (\<lambda>_. Out)(0 := Wit k ?L)) (m', (\<lambda>_. Out)(0 := Ret True))" by (rule run_schedule_steps)
  have "step hash (m', (\<lambda>_. Out)(0 := Ret True)) (m', ((\<lambda>_. Out)(0 := Ret True))(0 := Out))"
    by (rule step.go) (simp add: run_simps)
  moreover have "quiet m' (((\<lambda>_. Out)(0 := Ret True))(0 := Out))"
    using gs by (auto simp: quiet_def m'_def)
  moreover have "\<forall>i l. s_slots m' i = Some l \<longrightarrow> k \<notin> set (s_lists m' l)"
    using gone by (auto simp: m'_def)
  moreover have "((\<lambda>_. Out)(0 := Ret True)) 0 = Ret True" by simp
  ultimately show ?thesis
    using steps_trans [OF s4 steps_trans [OF s3 steps_trans [OF s2 s1]]] by blast
qed

section \<open>Examples\<close>

text \<open>A table of 128 buckets that is one insertion away from growing: 170 keys in the list of bucket 0.\<close>

definition sample_hash :: "key \<Rightarrow> nat" where
  "sample_hash k = (if length k = 1 then 128 * le_val k else 5)"

definition sample_table :: shared where
  "sample_table = \<lparr>s_status = 3, s_size = 128, s_max_size = 0, s_count = 170,
     s_slots = (\<lambda>i. if i = 0 then Some 0 else None), s_iter = [0], s_index = (\<lambda>_. 0),
     s_lists = (\<lambda>l. if l = 0 then map (\<lambda>i. [of_nat i]) [1..<171] else []), s_next = 1, s_lock = (\<lambda>_. None)\<rparr>"

lemma sample_quiet: "quiet sample_table (\<lambda>_. Out)"
  by (simp add: quiet_def sample_table_def status_defs)

lemma sample_keys: "[w] \<in> set (s_lists sample_table 0) \<longleftrightarrow> 1 \<le> unat w \<and> unat w < 171"
proof -
  have "[w] \<in> set (s_lists sample_table 0) \<longleftrightarrow> (\<exists>i\<ge>1. i < 171 \<and> w = of_nat i)"
    by (auto simp: sample_table_def simp del: upt_rec_numeral)
  also have "\<dots> \<longleftrightarrow> 1 \<le> unat w \<and> unat w < 171"
    by (auto simp: unat_of_nat intro!: exI [of _ "unat w"])
  finally show ?thesis .
qed

theorem status_excludes_witness:
  "\<exists>m ps. steps sample_hash (sample_table, \<lambda>_. Out) (m, ps) \<and> excl (ps 0) = Some HT_STATUS_WRITE \<and>
     s_status m = HT_STATUS_WRITE \<and> (\<forall>t. \<not> reads (ps t)) \<and> (\<forall>t. t \<noteq> 0 \<longrightarrow> excl (ps t) = None)"
proof -
  let ?c = "(sample_table, (\<lambda>_. Out)(0 := Gidx Set [1, 2]))"
  have 1: "steps sample_hash (sample_table, \<lambda>_. Out) ?c"
    by (rule steps_one, rule step.call) simp_all
  obtain m where "run_schedule sample_hash [0, 0, 0, 0, 0, 0, 0] ?c = Some (m, (\<lambda>_. Out)(0 := Win [1, 2] 1))"
    by (simp add: run_simps sample_table_def sample_hash_def)
  from steps_trans [OF run_schedule_steps [OF this] 1]
  have s: "steps sample_hash (sample_table, \<lambda>_. Out) (m, (\<lambda>_. Out)(0 := Win [1, 2] 1))" .
  have x: "excl (((\<lambda>_. Out)(0 := Win [1, 2] 1)) 0) = Some HT_STATUS_WRITE" by simp
  show ?thesis
    using s x status_excludes [OF sample_quiet s x] by blast
qed

theorem stale_index_misses_key_witness:
  "\<exists>m' ps' r. steps sample_hash (sample_table, \<lambda>_. Out) (m', ps') \<and> ps' 0 = Ret False \<and> (\<forall>t. t \<noteq> 0 \<longrightarrow> ps' t = Out) \<and>
    s_slots m' (sample_hash [1] mod s_size m') = Some r \<and> [1] \<in> set (s_lists m' r)"
  by (rule stale_index_misses_key [OF sample_quiet, where l = 0 and l' = 0 and k' = "[200]"])
     (simp_all add: sample_keys, simp_all add: sample_table_def sample_hash_def)

theorem grow_loses_new_list_witness:
  "\<exists>m' ps1 ps2. steps sample_hash (sample_table, \<lambda>_. Out) (m', ps1) \<and> ps1 0 = Ret True \<and>
    step sample_hash (m', ps1) (m', ps2) \<and> quiet m' ps2 \<and>
    (\<forall>i l. s_slots m' i = Some l \<longrightarrow> [1, 2] \<notin> set (s_lists m' l))"
proof (rule grow_loses_new_list [OF sample_quiet, where l' = 0 and k' = "[200]"])
  show "[200] \<notin> set (s_lists sample_table 0)" by (simp add: sample_keys)
  show "\<forall>l \<in> set (s_iter sample_table). [1, 2] \<notin> set (s_lists sample_table l)"
    by (auto simp: sample_table_def simp del: upt_rec_numeral)
qed (simp_all add: sample_table_def sample_hash_def)

end
