(* ===== verification/Sparse_Array.thy ===== *)
theory Sparse_Array
  imports Comparators Linklist
begin

unbundle bit_operations_syntax

text \<open>
  The sparse array of src/src/index/libhl/sparse_array.c with the casts of comparators.h that turn a key
  into a position, and the number index of src/src/index/spi/sparse_array_number_index.c over it.

  A key is its object representation; a cast that reads more bytes than the key has is an error. An element is a linked
  list of the data stored at a position, NULL (\<open>None\<close>) before the first. \<open>avail\<close> says for which numbers of bytes
  \<^verbatim>\<open>realloc\<close> succeeds. The hash table pointer \<^verbatim>\<open>core\<close> is never used. Timers and counters of comparisons are left out.
\<close>

section \<open>From keys to positions\<close>

datatype data_type =
  DT_INT | DT_LONG | DT_INT16 | DT_INT32 | DT_INT64 | DT_UINT16 | DT_UINT32 | DT_UINT64 | DT_SIZE_T
| DT_FLOAT | DT_DOUBLE | DT_STRING

text \<open>The absolute value as the macro computes it; the smallest \<^verbatim>\<open>int\<close> is its own negative.\<close>

definition abs_int :: "c_int \<Rightarrow> c_int" where
  "abs_int w = (if 0 \<le> sint w then w else - w)"

definition read_key :: "nat \<Rightarrow> byte list \<Rightarrow> (byte list \<Rightarrow> c_int) \<Rightarrow> c_error + c_int" where
  "read_key n k f = (if length k < n then Inl Out_Of_Bounds else Inr (abs_int (f (take n k))))"

definition libhl_cast_any_to_int :: "byte list \<Rightarrow> c_error + c_int" where
  "libhl_cast_any_to_int k = read_key 4 k int_of_bytes"

definition libhl_cast_int_to_int :: "byte list \<Rightarrow> c_error + c_int" where
  "libhl_cast_int_to_int k = read_key 4 k int_of_bytes"

definition libhl_cast_long_to_int :: "byte list \<Rightarrow> c_error + c_int" where
  "libhl_cast_long_to_int k = read_key 8 k (\<lambda>b. ucast (u64_of_bytes b))"

definition libhl_cast_int16_to_int :: "byte list \<Rightarrow> c_error + c_int" where
  "libhl_cast_int16_to_int k = read_key 2 k (\<lambda>b. scast (of_nat (le_val b) :: 16 word))"

definition libhl_cast_int32_to_int :: "byte list \<Rightarrow> c_error + c_int" where
  "libhl_cast_int32_to_int k = read_key 4 k int_of_bytes"

definition libhl_cast_int64_to_int :: "byte list \<Rightarrow> c_error + c_int" where
  "libhl_cast_int64_to_int k = read_key 8 k (\<lambda>b. ucast (u64_of_bytes b))"

text \<open>A \<^verbatim>\<open>float\<close> is a multiple of \<open>2 ^ -149\<close>, and so one of \<open>2 ^ -1074\<close>.\<close>

definition flt_val :: "c_int \<Rightarrow> dbl" where
  "flt_val w =
     (let neg = bit w 31;
          e = unat (drop_bit 23 w AND 255);
          f = uint (w AND 8388607);
          sgnd = (\<lambda>m. if neg then - m else m)
      in if e = 255 then (if f = 0 then Inf neg else NaN)
         else if e = 0 then Fin (sgnd (f * 2 ^ 925))
         else Fin (sgnd ((8388608 + f) * 2 ^ (e + 924))))"

definition libhl_cast_float_to_int :: "byte list \<Rightarrow> c_error + c_int" where
  "libhl_cast_float_to_int k = read_key 4 k (\<lambda>b. of_int (dbl_to_int (flt_val (int_of_bytes b))))"

definition libhl_cast_double_to_int :: "byte list \<Rightarrow> c_error + c_int" where
  "libhl_cast_double_to_int k = read_key 8 k (\<lambda>b. of_int (dbl_to_int (dbl_val (u64_of_bytes b))))"

text \<open>The cast \<^verbatim>\<open>LIBHL_CHOOSE_CMP_CB\<close> selects for a type.\<close>

definition choose_locate_cb :: "data_type \<Rightarrow> (byte list \<Rightarrow> c_error + c_int) option" where
  "choose_locate_cb dt =
     (case dt of
        DT_INT \<Rightarrow> Some libhl_cast_int_to_int
      | DT_LONG \<Rightarrow> Some libhl_cast_long_to_int
      | DT_FLOAT \<Rightarrow> Some libhl_cast_float_to_int
      | DT_DOUBLE \<Rightarrow> Some libhl_cast_double_to_int
      | DT_INT16 \<Rightarrow> Some libhl_cast_int16_to_int
      | DT_INT32 \<Rightarrow> Some libhl_cast_int32_to_int
      | DT_INT64 \<Rightarrow> Some libhl_cast_int64_to_int
      | DT_UINT16 \<Rightarrow> Some libhl_cast_any_to_int
      | DT_UINT32 \<Rightarrow> Some libhl_cast_any_to_int
      | DT_UINT64 \<Rightarrow> Some libhl_cast_any_to_int
      | _ \<Rightarrow> None)"

section \<open>The array\<close>

definition SPA_SIZE_MIN :: size_t where
  "SPA_SIZE_MIN = 1024"

text \<open>The array is \<open>None\<close> once \<^verbatim>\<open>realloc\<close> has freed it.\<close>

record 'd sparse_array =
  spa_array :: "'d linked_list option list option"
  spa_size :: size_t
  spa_max_size :: size_t
  spa_count :: size_t
  locate_cb :: "(byte list \<Rightarrow> c_error + c_int) option"

definition create_sparse_array ::
  "size_t \<Rightarrow> size_t \<Rightarrow> (byte list \<Rightarrow> c_error + c_int) option \<Rightarrow> 'd sparse_array" where
  "create_sparse_array initial_size max_size cb =
     (let sz = (if initial_size > SPA_SIZE_MIN then initial_size else SPA_SIZE_MIN)
      in \<lparr>spa_array = Some (replicate (unat sz) None), spa_size = sz, spa_max_size = max_size, spa_count = 0,
          locate_cb = cb\<rparr>)"

text \<open>The \<^verbatim>\<open>int\<close> of the cast is converted to \<^verbatim>\<open>size_t\<close>.\<close>

definition locate :: "'d sparse_array \<Rightarrow> byte list \<Rightarrow> c_error + size_t" where
  "locate spa poss =
     (case locate_cb spa of
        Some cb \<Rightarrow> ebind (cb poss) (\<lambda>w. Inr (scast w))
      | None \<Rightarrow> if length poss < 8 then Inl Out_Of_Bounds else Inr (u64_of_bytes poss))"

text \<open>
  Growing: the number of bytes is computed modulo \<open>2 ^ 64\<close>, and the loop that clears the new elements runs to the new
  size. \<^verbatim>\<open>realloc\<close> to 0 bytes frees the array and returns NULL.
\<close>

definition grow_array :: "(nat \<Rightarrow> bool) \<Rightarrow> 'd sparse_array \<Rightarrow> size_t \<Rightarrow> c_error + (bool \<times> 'd sparse_array)" where
  "grow_array avail spa new_size =
     (let bytes = unat (new_size * 8) in
      case spa_array spa of
        None \<Rightarrow> Inl Bad_Pointer
      | Some arr \<Rightarrow>
          if bytes = 0 then Inr (False, spa\<lparr>spa_array := None\<rparr>)
          else if \<not> avail bytes then Inr (False, spa)
          else if bytes div 8 < unat new_size then Inl Out_Of_Bounds
          else Inr (True, spa\<lparr>spa_array := Some (arr @ replicate (unat new_size - length arr) None), spa_size := new_size\<rparr>))"

definition push_element :: "'d sparse_array \<Rightarrow> size_t \<Rightarrow> 'd option \<Rightarrow> c_error + (int \<times> 'd sparse_array)" where
  "push_element spa pos data =
     (case spa_array spa of
        None \<Rightarrow> Inl Bad_Pointer
      | Some arr \<Rightarrow>
          ebind (nth_chk arr (unat pos)) (\<lambda>el.
            let element_list = (case el of None \<Rightarrow> list_create | Some l \<Rightarrow> l)
            in Inr (0, spa\<lparr>spa_array := Some (arr[unat pos := Some (snd (list_push_value data element_list))]),
                          spa_count := spa_count spa + 1\<rparr>)))"

definition set_element_to_sparse_array ::
  "(nat \<Rightarrow> bool) \<Rightarrow> 'd sparse_array \<Rightarrow> byte list \<Rightarrow> 'd option \<Rightarrow> c_error + (int \<times> 'd sparse_array)" where
  "set_element_to_sparse_array avail spa poss data =
     ebind (locate spa poss) (\<lambda>pos.
       if spa_size spa \<le> pos then
         if 0 < spa_max_size spa \<and> spa_max_size spa \<le> pos then Inr (- 1, spa)
         else ebind (grow_array avail spa (pos + 1)) (\<lambda>(ok, spa').
                if \<not> ok then Inr (- 1, spa') else push_element spa' pos data)
       else push_element spa pos data)"

definition get_element_in_sparse_array :: "'d sparse_array \<Rightarrow> byte list \<Rightarrow> c_error + 'd linked_list option" where
  "get_element_in_sparse_array spa poss =
     ebind (locate spa poss) (\<lambda>pos.
       if spa_size spa \<le> pos then Inr None
       else case spa_array spa of None \<Rightarrow> Inl Bad_Pointer | Some arr \<Rightarrow> nth_chk arr (unat pos))"

text \<open>The loop over positions; a callback gives whether to go on and the caller's state.\<close>

fun spa_loop :: "'e option list \<Rightarrow> ('s \<Rightarrow> int \<Rightarrow> 'e \<Rightarrow> bool \<times> 's) \<Rightarrow> int list \<Rightarrow> 's \<Rightarrow> c_error + 's" where
  "spa_loop arr cb [] s = Inr s"
| "spa_loop arr cb (i # is) s =
     (if i < 0 then Inl Out_Of_Bounds
      else ebind (nth_chk arr (nat i)) (\<lambda>el.
        case el of
          None \<Rightarrow> spa_loop arr cb is s
        | Some e \<Rightarrow> let (continue, s') = cb s i e in if continue then spa_loop arr cb is s' else Inr s'))"

definition spa_foreach_elements ::
  "'d sparse_array \<Rightarrow> byte list \<Rightarrow> byte list \<Rightarrow> ('s \<Rightarrow> int \<Rightarrow> 'd linked_list \<Rightarrow> bool \<times> 's) \<Rightarrow> 's \<Rightarrow> c_error + 's" where
  "spa_foreach_elements spa beginn endd cb s =
     ebind (locate spa beginn) (\<lambda>bg.
     ebind (locate spa endd) (\<lambda>en.
       let (bgn, en') = (if spa_size spa \<le> bg \<or> spa_size spa \<le> en \<or> en \<le> bg then (0, spa_size spa) else (bg, en))
       in case spa_array spa of
            None \<Rightarrow> Inl Bad_Pointer
          | Some arr \<Rightarrow> spa_loop arr cb [sint (ucast bgn :: c_int) .. sint (ucast en' :: c_int) - 1] s))"

section \<open>The number index\<close>

definition create_sparse_array_index :: "data_type \<Rightarrow> int \<times> 'd sparse_array option" where
  "create_sparse_array_index dt = (0, Some (create_sparse_array 0 0 (choose_locate_cb dt)))"

definition insert_number_to_sparse_array ::
  "(nat \<Rightarrow> bool) \<Rightarrow> 'd sparse_array option \<Rightarrow> byte list \<Rightarrow> 'd option \<Rightarrow> c_error + (int \<times> 'd sparse_array option)" where
  "insert_number_to_sparse_array avail idx key data =
     (case idx of
        None \<Rightarrow> Inr (- 1, None)
      | Some spa \<Rightarrow> ebind (set_element_to_sparse_array avail spa key data) (\<lambda>(rst, spa'). Inr (rst, Some spa')))"

definition search_number_from_sparse_array ::
  "'d sparse_array option \<Rightarrow> byte list \<Rightarrow> 'd linked_list option \<Rightarrow> c_error + (int \<times> 'd linked_list option)" where
  "search_number_from_sparse_array idx key out =
     (case idx of
        None \<Rightarrow> Inr (- 1, out)
      | Some spa \<Rightarrow> ebind (get_element_in_sparse_array spa key) (\<lambda>data. Inr (0, data)))"

definition range_cb :: "'d linked_list linked_list \<Rightarrow> int \<Rightarrow> 'd linked_list \<Rightarrow> bool \<times> 'd linked_list linked_list" where
  "range_cb collector i element = (True, snd (list_push_value (Some element) collector))"

definition search_numeric_range_from_sparse_array ::
  "'d sparse_array option \<Rightarrow> byte list \<Rightarrow> byte list \<Rightarrow> c_error + 'd linked_list linked_list option" where
  "search_numeric_range_from_sparse_array idx begin_key end_key =
     (case idx of
        None \<Rightarrow> Inr None
      | Some spa \<Rightarrow> ebind (spa_foreach_elements spa begin_key end_key range_cb list_create) (\<lambda>rst. Inr (Some rst)))"

section \<open>What the array holds\<close>

definition spa_inv :: "'d sparse_array \<Rightarrow> bool" where
  "spa_inv spa =
     (case spa_array spa of
        None \<Rightarrow> False
      | Some arr \<Rightarrow> length arr = unat (spa_size spa) \<and> (\<forall>l. Some l \<in> set arr \<longrightarrow> list_inv l \<and> list_values l \<noteq> []))"

definition el_values :: "'d linked_list option \<Rightarrow> 'd option list" where
  "el_values el = (case el of None \<Rightarrow> [] | Some l \<Rightarrow> list_values l)"

text \<open>The data at a position, in the order of the insertions.\<close>

definition spa_at :: "'d sparse_array \<Rightarrow> nat \<Rightarrow> 'd option list" where
  "spa_at spa p =
     (case spa_array spa of
        None \<Rightarrow> []
      | Some arr \<Rightarrow> if p < length arr then el_values (arr ! p) else [])"

lemma spa_inv_Some:
  "spa_inv spa \<Longrightarrow> \<exists>arr. spa_array spa = Some arr \<and> length arr = unat (spa_size spa) \<and>
     (\<forall>l. Some l \<in> set arr \<longrightarrow> list_inv l \<and> list_values l \<noteq> [])"
  by (simp add: spa_inv_def split: option.splits)

lemma create_inv [simp]: "spa_inv (create_sparse_array n m cb)"
  by (simp add: spa_inv_def create_sparse_array_def Let_def)

lemma create_at [simp]: "spa_at (create_sparse_array n m cb) p = []"
  by (simp add: spa_at_def create_sparse_array_def el_values_def Let_def)

lemma create_fields [simp]:
  "locate_cb (create_sparse_array n m cb) = cb" "spa_max_size (create_sparse_array n m cb) = m"
  by (simp_all add: create_sparse_array_def Let_def)

lemma push_element_spec:
  assumes "spa_inv spa" and "pos < spa_size spa"
  shows "\<exists>spa'. push_element spa pos d = Inr (0, spa') \<and> spa_inv spa' \<and> spa_size spa' = spa_size spa \<and>
    spa_count spa' = spa_count spa + 1 \<and> spa_max_size spa' = spa_max_size spa \<and> locate_cb spa' = locate_cb spa \<and>
    spa_at spa' = (spa_at spa)(unat pos := spa_at spa (unat pos) @ [d])"
proof -
  obtain arr where a: "spa_array spa = Some arr" "length arr = unat (spa_size spa)"
      "\<forall>l. Some l \<in> set arr \<longrightarrow> list_inv l \<and> list_values l \<noteq> []"
    using spa_inv_Some [OF assms(1)] by blast
  have p: "unat pos < length arr" using assms(2) a(2) by (simp add: word_less_nat_alt)
  define el where "el = (case arr ! unat pos of None \<Rightarrow> list_create | Some l \<Rightarrow> l)"
  define l' where "l' = snd (list_push_value d el)"
  have "list_inv l" if "arr ! unat pos = Some l" for l
    using a(3) nth_mem [OF p] that by metis
  then have el: "list_inv el" "list_values el = el_values (arr ! unat pos)"
    by (auto simp: el_def el_values_def split: option.splits)
  have l': "list_inv l'" "list_values l' = el_values (arr ! unat pos) @ [d]"
    using ll.push_snd [OF el(1), of d] el(2) by (simp_all add: l'_def)
  define spa' where "spa' = spa\<lparr>spa_array := Some (arr[unat pos := Some l']), spa_count := spa_count spa + 1\<rparr>"
  have "push_element spa pos d = Inr (0, spa')"
    using p by (simp add: push_element_def a(1) spa'_def l'_def el_def Let_def)
  moreover have "spa_inv spa'"
    using a l' set_update_subset_insert [of arr "unat pos" "Some l'"] by (auto simp: spa'_def spa_inv_def)
  moreover have "spa_at spa' = (spa_at spa)(unat pos := spa_at spa (unat pos) @ [d])"
    using p l' by (auto simp: spa_at_def spa'_def a(1) el_values_def nth_list_update)
  ultimately show ?thesis by (auto simp: spa'_def)
qed

text \<open>Positions that fit the address space.\<close>

abbreviation (input) addressable :: "size_t \<Rightarrow> bool" where
  "addressable pos \<equiv> unat pos < 2 ^ 60"

lemma addressable_succ:
  assumes "addressable pos"
  shows "unat (pos + 1) = Suc (unat pos)" and "unat ((pos + 1) * 8) = 8 * Suc (unat pos)"
proof -
  have "unat (pos + 1) = (unat pos + 1) mod 2 ^ 64"
    by (simp add: unat_word_ariths)
  then show 1: "unat (pos + 1) = Suc (unat pos)"
    using assms by simp
  have "unat ((pos + 1) * 8) = (unat (pos + 1) * 8) mod 2 ^ 64"
    by (simp only: unat_word_ariths(2)) simp
  then show "unat ((pos + 1) * 8) = 8 * Suc (unat pos)"
    using assms by (simp add: 1)
qed

lemma grow_array_spec:
  assumes "spa_inv spa" and "spa_size spa \<le> pos" and "addressable pos" and "avail (8 * Suc (unat pos))"
  shows "\<exists>spa'. grow_array avail spa (pos + 1) = Inr (True, spa') \<and> spa_inv spa' \<and> pos < spa_size spa' \<and>
    spa_size spa' = pos + 1 \<and> spa_count spa' = spa_count spa \<and> spa_max_size spa' = spa_max_size spa \<and>
    locate_cb spa' = locate_cb spa \<and> spa_at spa' = spa_at spa"
proof -
  obtain arr where a: "spa_array spa = Some arr" "length arr = unat (spa_size spa)"
      "\<forall>l. Some l \<in> set arr \<longrightarrow> list_inv l \<and> list_values l \<noteq> []"
    using spa_inv_Some [OF assms(1)] by blast
  note s = addressable_succ [OF assms(3)]
  have le: "length arr \<le> unat pos" using assms(2) a(2) by (simp add: word_le_nat_alt)
  define spa' where "spa' = spa\<lparr>spa_array := Some (arr @ replicate (unat (pos + 1) - length arr) None), spa_size := pos + 1\<rparr>"
  have "grow_array avail spa (pos + 1) = Inr (True, spa')"
    using assms(4) s by (simp add: grow_array_def a(1) Let_def spa'_def)
  moreover have "spa_inv spa'"
    using a le s(1) by (auto simp: spa_inv_def spa'_def)
  moreover have "pos < spa_size spa'"
    using s(1) by (simp add: spa'_def word_less_nat_alt)
  moreover have "spa_at spa' = spa_at spa"
    using a(1) by (auto simp: spa_at_def spa'_def el_values_def nth_append)
  ultimately show ?thesis by (auto simp: spa'_def)
qed

lemma set_element_spec:
  assumes "spa_inv spa" and "locate spa k = Inr pos" and "addressable pos" and "avail (8 * Suc (unat pos))"
    and "spa_max_size spa = 0 \<or> pos < spa_max_size spa"
  shows "\<exists>spa'. set_element_to_sparse_array avail spa k d = Inr (0, spa') \<and> spa_inv spa' \<and>
    spa_size spa' = max (spa_size spa) (pos + 1) \<and> spa_count spa' = spa_count spa + 1 \<and>
    spa_max_size spa' = spa_max_size spa \<and> locate_cb spa' = locate_cb spa \<and>
    spa_at spa' = (spa_at spa)(unat pos := spa_at spa (unat pos) @ [d])"
proof (cases "spa_size spa \<le> pos")
  case True
  obtain s1 where g: "grow_array avail spa (pos + 1) = Inr (True, s1)" "spa_inv s1" "pos < spa_size s1"
      "spa_size s1 = pos + 1" "spa_count s1 = spa_count spa" "spa_max_size s1 = spa_max_size spa"
      "locate_cb s1 = locate_cb spa" "spa_at s1 = spa_at spa"
    using grow_array_spec [where avail = avail, OF assms(1) True assms(3,4)] by blast
  have "max (spa_size spa) (pos + 1) = pos + 1"
    using True g(3,4) by (simp add: max_def) (metis order.strict_implies_order order_trans)
  moreover have "\<not> (0 < spa_max_size spa \<and> spa_max_size spa \<le> pos)"
    using assms(5) by auto
  ultimately show ?thesis
    using push_element_spec [OF g(2,3), of d] True assms(2) g
    by (simp add: set_element_to_sparse_array_def)
next
  case False
  then have "pos < spa_size spa" by simp
  moreover from this have "pos + 1 \<le> spa_size spa"
    using addressable_succ(1) [OF assms(3)] by (simp add: word_le_nat_alt word_less_nat_alt)
  ultimately show ?thesis
    using push_element_spec [OF assms(1), of pos d] assms(2) False
    by (simp add: set_element_to_sparse_array_def max_def)
qed

lemma get_element_spec:
  assumes "spa_inv spa" and "locate spa k = Inr pos"
  shows "\<exists>el. get_element_in_sparse_array spa k = Inr el \<and> el_values el = spa_at spa (unat pos) \<and>
    (el = None \<longleftrightarrow> spa_at spa (unat pos) = [])"
proof -
  obtain arr where a: "spa_array spa = Some arr" "length arr = unat (spa_size spa)"
      "\<forall>l. Some l \<in> set arr \<longrightarrow> list_inv l \<and> list_values l \<noteq> []"
    using spa_inv_Some [OF assms(1)] by blast
  show ?thesis
  proof (cases "spa_size spa \<le> pos")
    case True
    then show ?thesis using a(1,2) assms(2)
      by (simp add: get_element_in_sparse_array_def spa_at_def el_values_def word_le_nat_alt)
  next
    case False
    then have p: "unat pos < length arr" using a(2) by (simp add: word_le_nat_alt)
    have "arr ! unat pos = None \<longleftrightarrow> el_values (arr ! unat pos) = []"
      using a(3) nth_mem [OF p] unfolding el_values_def by (metis option.case_eq_if option.collapse)
    with False p show ?thesis using a(1) assms(2)
      by (simp add: get_element_in_sparse_array_def spa_at_def)
  qed
qed

lemma map_int_upt: "map int [a..<b] = [int a..int b - 1]"
  by (induction b) (auto simp: upto_rec2)

lemma spa_loop_range:
  assumes "\<forall>p \<in> set ps. p < length arr" and "list_inv coll"
  shows "\<exists>coll'. spa_loop arr range_cb (map int ps) coll = Inr coll' \<and> list_inv coll' \<and>
    list_values coll' = list_values coll @ filter (\<lambda>el. el \<noteq> None) (map (\<lambda>p. arr ! p) ps)"
  using assms
proof (induction ps arbitrary: coll)
  case (Cons p ps)
  show ?case
  proof (cases "arr ! p")
    case None
    with Cons show ?thesis by simp
  next
    case (Some e)
    have "list_inv (snd (list_push_value (Some e) coll)) \<and>
        list_values (snd (list_push_value (Some e) coll)) = list_values coll @ [Some e]"
      using Cons.prems(2) by (rule ll.push_snd)
    with Cons.IH [of "snd (list_push_value (Some e) coll)"] Cons.prems(1) Some show ?thesis
      by (simp add: range_cb_def)
  qed
qed simp

text \<open>The positions a range of keys stands for: half open, and all of them when it is not a proper range within the array.\<close>

definition range_positions :: "nat \<Rightarrow> nat \<Rightarrow> nat \<Rightarrow> nat list" where
  "range_positions n b e = (if b < e \<and> e < n then [b..<e] else [0..<n])"

lemma sint_of_size:
  assumes "unat (n :: size_t) < 2 ^ 31"
  shows "sint (ucast n :: c_int) = int (unat n)"
proof -
  have "int (unat n) < 2 ^ 31"
    using assms by (metis of_nat_less_iff of_nat_numeral of_nat_power)
  then have n: "uint n < 2 ^ 31" by simp
  have "uint (ucast n :: c_int) = take_bit 32 (uint n)"
    by (simp add: unsigned_ucast_eq)
  also have "\<dots> = uint n"
    using n by (simp add: take_bit_int_eq_self)
  finally have "sint (ucast n :: c_int) = signed_take_bit 31 (uint n)"
    by (subst sint_uint) simp
  also have "\<dots> = uint n"
    using n by (intro signed_take_bit_int_eq_self order_trans [OF _ uint_ge_0]) simp_all
  finally show ?thesis by simp
qed

lemma el_values_filter:
  assumes "\<forall>el \<in> set els. el = None \<longleftrightarrow> el_values el = []"
  shows "map el_values (filter (\<lambda>el. el \<noteq> None) els) = filter (\<lambda>vs. vs \<noteq> []) (map el_values els)"
  using assms by (induction els) auto

lemma foreach_range_spec:
  assumes "spa_inv spa" and "unat (spa_size spa) < 2 ^ 31"
    and "locate spa b = Inr bp" and "locate spa e = Inr ep"
  shows "\<exists>coll. spa_foreach_elements spa b e range_cb list_create = Inr coll \<and> list_inv coll \<and>
    map el_values (list_values coll) =
      filter (\<lambda>vs. vs \<noteq> []) (map (spa_at spa) (range_positions (unat (spa_size spa)) (unat bp) (unat ep)))"
proof -
  obtain arr where a: "spa_array spa = Some arr" "length arr = unat (spa_size spa)"
      "\<forall>l. Some l \<in> set arr \<longrightarrow> list_inv l \<and> list_values l \<noteq> []"
    using spa_inv_Some [OF assms(1)] by blast
  define ps where "ps = range_positions (unat (spa_size spa)) (unat bp) (unat ep)"
  have ps: "\<forall>p \<in> set ps. p < length arr"
    using a(2) by (auto simp: ps_def range_positions_def)
  define c where "c = (spa_size spa \<le> bp \<or> spa_size spa \<le> ep \<or> ep \<le> bp)"
  have c: "c \<longleftrightarrow> \<not> (unat bp < unat ep \<and> unat ep < unat (spa_size spa))"
    by (auto simp: c_def word_le_nat_alt)
  have "map int ps = (if c then [0..sint (ucast (spa_size spa) :: c_int) - 1]
      else [sint (ucast bp :: c_int)..sint (ucast ep :: c_int) - 1])"
    using c assms(2) map_int_upt [of 0 "unat (spa_size spa)"]
    by (simp add: ps_def range_positions_def map_int_upt sint_of_size)
  then have "spa_foreach_elements spa b e range_cb list_create = spa_loop arr range_cb (map int ps) list_create"
    by (simp add: spa_foreach_elements_def assms(3,4) a(1) c_def [symmetric])
  moreover obtain coll where l: "spa_loop arr range_cb (map int ps) list_create = Inr coll" "list_inv coll"
      "list_values coll = filter (\<lambda>el. el \<noteq> None) (map (\<lambda>p. arr ! p) ps)"
    using spa_loop_range [OF ps list_inv_create] by auto
  moreover have "\<forall>el \<in> set (map (\<lambda>p. arr ! p) ps). el = None \<longleftrightarrow> el_values el = []"
  proof
    fix el assume "el \<in> set (map (\<lambda>p. arr ! p) ps)"
    then have "el \<in> set arr" using ps by auto
    with a(3) show "el = None \<longleftrightarrow> el_values el = []"
      by (cases el) (auto simp: el_values_def)
  qed
  moreover have "map el_values (map (\<lambda>p. arr ! p) ps) = map (spa_at spa) ps"
    using ps a(1) by (simp add: spa_at_def)
  ultimately have "map el_values (list_values coll) = filter (\<lambda>vs. vs \<noteq> []) (map (spa_at spa) ps)"
    by (simp only: el_values_filter)
  with \<open>spa_foreach_elements spa b e range_cb list_create = _\<close> l(1,2) show ?thesis
    unfolding ps_def by auto
qed

section \<open>The index of integers\<close>

text \<open>The smallest \<^verbatim>\<open>int\<close> has no absolute value.\<close>

definition int_number :: "byte list \<Rightarrow> bool" where
  "int_number k \<longleftrightarrow> length k = 4 \<and> - (2 ^ 31) < int_key k"

definition key_pos :: "byte list \<Rightarrow> nat" where
  "key_pos k = nat \<bar>int_key k\<bar>"

lemma sint_abs_int:
  fixes w :: c_int
  assumes "- (2 ^ 31) < sint w"
  shows "sint (abs_int w) = \<bar>sint w\<bar>"
proof (cases "0 \<le> sint w")
  case False
  have "sint w < 2 ^ 31" using sint_lt [of w] by simp
  then have "sint (0 - w) = sint (0 :: c_int) - sint w"
    using assms False by (intro sint_diff) simp_all
  with False show ?thesis by (simp add: abs_int_def)
qed (simp add: abs_int_def)

lemma unat_scast_nonneg:
  fixes w :: c_int
  assumes "0 \<le> sint w"
  shows "unat (scast w :: size_t) = nat (sint w)"
proof -
  have "sint w < 2 ^ 31" using sint_lt [of w] by simp
  moreover have "(scast w :: size_t) = word_of_int (sint w)"
    by simp
  then have "uint (scast w :: size_t) = take_bit 64 (sint w)"
    by (simp only: uint_word_of_int_eq) simp
  ultimately have "uint (scast w :: size_t) = sint w"
    using assms by (simp add: take_bit_int_eq_self)
  then show ?thesis by (metis unat_eq_nat_uint)
qed

lemma locate_int:
  assumes "int_number k" and "locate_cb spa = Some libhl_cast_int_to_int"
  shows "\<exists>pos. locate spa k = Inr pos \<and> unat pos = key_pos k"
proof -
  have "sint (abs_int (int_of_bytes k)) = \<bar>int_key k\<bar>"
    using assms(1) by (simp add: int_number_def int_key_def sint_abs_int)
  then have "unat (scast (abs_int (int_of_bytes k)) :: size_t) = key_pos k"
    by (simp add: unat_scast_nonneg key_pos_def)
  with assms show ?thesis
    by (simp add: locate_def libhl_cast_int_to_int_def read_key_def int_number_def)
qed

lemma key_pos_bound: "int_number k \<Longrightarrow> key_pos k < 2 ^ 31"
  using sint_lt [of "int_of_bytes k"] by (simp add: key_pos_def int_number_def int_key_def nat_less_iff abs_less_iff)

text \<open>A sequence of insertions, each of which has to succeed.\<close>

fun insert_numbers ::
  "(nat \<Rightarrow> bool) \<Rightarrow> 'd sparse_array option \<Rightarrow> (byte list \<times> 'd option) list \<Rightarrow> c_error + 'd sparse_array option" where
  "insert_numbers avail idx [] = Inr idx"
| "insert_numbers avail idx ((k, d) # kds) =
     ebind (insert_number_to_sparse_array avail idx k d) (\<lambda>(rst, idx').
       if rst = 0 then insert_numbers avail idx' kds else Inl Out_Of_Bounds)"

definition int_index :: "'d sparse_array \<Rightarrow> bool" where
  "int_index spa \<longleftrightarrow> spa_inv spa \<and> locate_cb spa = Some libhl_cast_int_to_int \<and> spa_max_size spa = 0 \<and>
     unat (spa_size spa) \<le> 2 ^ 31"

definition posted :: "(byte list \<times> 'd option) list \<Rightarrow> nat \<Rightarrow> 'd option list" where
  "posted kds p = map snd (filter (\<lambda>(k, d). key_pos k = p) kds)"

lemma insert_number_spec:
  assumes "int_index spa" and "int_number k" and "\<forall>n \<le> 2 ^ 34. avail n"
  shows "\<exists>spa'. insert_number_to_sparse_array avail (Some spa) k d = Inr (0, Some spa') \<and> int_index spa' \<and>
    spa_at spa' = (spa_at spa)(key_pos k := spa_at spa (key_pos k) @ [d])"
proof -
  obtain pos where pos: "locate spa k = Inr pos" "unat pos = key_pos k"
    using locate_int assms(1,2) by (auto simp: int_index_def)
  note b = key_pos_bound [OF assms(2)]
  have ad: "addressable pos" using b pos(2) by simp
  obtain spa' where "set_element_to_sparse_array avail spa k d = Inr (0, spa')" "spa_inv spa'"
      "spa_size spa' = max (spa_size spa) (pos + 1)" "spa_max_size spa' = spa_max_size spa"
      "locate_cb spa' = locate_cb spa"
      "spa_at spa' = (spa_at spa)(unat pos := spa_at spa (unat pos) @ [d])"
    using set_element_spec [of spa k pos avail d] assms(1,3) ad pos b by (auto simp: int_index_def)
  moreover have "unat (max (spa_size spa) (pos + 1)) \<le> 2 ^ 31"
    using assms(1) addressable_succ(1) [OF ad] b pos(2) by (simp add: int_index_def max_def)
  ultimately show ?thesis
    using assms(1) pos(2) by (simp add: insert_number_to_sparse_array_def int_index_def)
qed

lemma insert_numbers_spec:
  assumes "int_index spa" and "\<forall>(k, d) \<in> set kds. int_number k" and "\<forall>n \<le> 2 ^ 34. avail n"
  shows "\<exists>spa'. insert_numbers avail (Some spa) kds = Inr (Some spa') \<and> int_index spa' \<and>
    (\<forall>p. spa_at spa' p = spa_at spa p @ posted kds p)"
  using assms(1,2)
proof (induction kds arbitrary: spa)
  case (Cons kd kds)
  obtain k d where kd: "kd = (k, d)" by (cases kd)
  obtain s1 where s1: "insert_number_to_sparse_array avail (Some spa) k d = Inr (0, Some s1)" "int_index s1"
      "spa_at s1 = (spa_at spa)(key_pos k := spa_at spa (key_pos k) @ [d])"
    using insert_number_spec [OF Cons.prems(1) _ assms(3), of k d] Cons.prems(2) kd by auto
  from Cons.IH [OF s1(2)] Cons.prems(2) obtain spa' where
    "insert_numbers avail (Some s1) kds = Inr (Some spa')" "int_index spa'"
    "\<forall>p. spa_at spa' p = spa_at s1 p @ posted kds p"
    by auto
  then show ?case using s1(1,3) kd by (auto simp: posted_def)
qed (simp add: posted_def)

lemma create_int_index: "\<exists>spa. snd (create_sparse_array_index DT_INT) = Some spa \<and> int_index spa \<and> (\<forall>p. spa_at spa p = [])"
  by (simp add: create_sparse_array_index_def choose_locate_cb_def int_index_def)
     (simp add: create_sparse_array_def SPA_SIZE_MIN_def)

text \<open>C19: After a sequence of insertions into an index of \<^verbatim>\<open>int\<close> numbers, an exact search returns the data of every
  insertion whose key has the same absolute value, in the order of the insertions: a number and its negative share
  their data.
\<close>

theorem number_index_inserted:
  fixes kds :: "(byte list \<times> 'a option) list"
  assumes "\<forall>n \<le> 2 ^ 34. avail n" and "\<forall>(k, d) \<in> set kds. int_number k" and "int_number key"
  shows "\<exists>idx el. insert_numbers avail (snd (create_sparse_array_index DT_INT)) kds = Inr idx \<and>
    search_number_from_sparse_array idx key out = Inr (0, el) \<and>
    el_values el = map snd (filter (\<lambda>(k, d). \<bar>int_key k\<bar> = \<bar>int_key key\<bar>) kds)"
proof -
  obtain spa :: "'a sparse_array" where spa: "snd (create_sparse_array_index DT_INT) = Some spa" "int_index spa"
      "\<forall>p. spa_at spa p = []"
    using create_int_index by blast
  obtain spa' where s: "insert_numbers avail (Some spa) kds = Inr (Some spa')" "int_index spa'"
      "\<forall>p. spa_at spa' p = posted kds p"
    using insert_numbers_spec [OF spa(2) assms(2,1)] spa(3) by auto
  obtain pos where pos: "locate spa' key = Inr pos" "unat pos = key_pos key"
    using locate_int assms(3) s(2) by (auto simp: int_index_def)
  obtain el where el: "get_element_in_sparse_array spa' key = Inr el" "el_values el = posted kds (key_pos key)"
    using get_element_spec [OF _ pos(1)] s(2,3) pos(2) by (auto simp: int_index_def)
  have "posted kds (key_pos key) = map snd (filter (\<lambda>(k, d). \<bar>int_key k\<bar> = \<bar>int_key key\<bar>) kds)"
    by (simp add: posted_def key_pos_def eq_nat_nat_iff)
  with spa(1) s(1) el show ?thesis
    by (auto simp: search_number_from_sparse_array_def)
qed

text \<open>What the searches return for \<open>5\<close> after data was inserted under \<open>5\<close>, \<open>7\<close> and \<open>-5\<close>.\<close>

definition sample_numbers :: "(byte list \<times> string option) list" where
  "sample_numbers = [(bytes4 5, Some ''a''), (bytes4 7, Some ''b''), (bytes4 (- 5), Some ''c'')]"

lemma int_key_samples: "int_key (bytes4 5) = 5" "int_key (bytes4 7) = 7" "int_key (bytes4 (- 5)) = - 5"
  by simp_all

lemma sample_number: "int_number (bytes4 5)" "int_number (bytes4 7)" "int_number (bytes4 (- 5))"
  by (simp_all add: int_number_def length_bytes4)

theorem number_index_inserted_witness:
  "\<exists>idx el. insert_numbers (\<lambda>_. True) (snd (create_sparse_array_index DT_INT)) sample_numbers = Inr idx \<and>
    search_number_from_sparse_array idx (bytes4 5) None = Inr (0, el) \<and> el_values el = [Some ''a'', Some ''c'']"
proof -
  have "\<forall>(k, d) \<in> set sample_numbers. int_number k"
    by (simp add: sample_numbers_def sample_number)
  then show ?thesis
    using number_index_inserted [of "\<lambda>_. True" sample_numbers "bytes4 5" None] sample_number(1)
    by (simp add: sample_numbers_def int_key_samples)
qed

text \<open>
  The range search visits the positions from the first key up to, but not including, the second, and every position of the array
  when the keys are not an increasing pair within it.
\<close>

theorem range_search_positions:
  assumes "spa_inv spa" and "unat (spa_size spa) < 2 ^ 31"
    and "locate spa b = Inr bp" and "locate spa e = Inr ep"
  shows "\<exists>coll. search_numeric_range_from_sparse_array (Some spa) b e = Inr (Some coll) \<and>
    map el_values (list_values coll) =
      filter (\<lambda>vs. vs \<noteq> []) (map (spa_at spa) (range_positions (unat (spa_size spa)) (unat bp) (unat ep)))"
  using foreach_range_spec [OF assms] by (auto simp: search_numeric_range_from_sparse_array_def)

text \<open>A \<^verbatim>\<open>uint16_t\<close> key is located by the cast that reads an \<^verbatim>\<open>int\<close>: it reads past the key.\<close>

theorem uint16_key_out_of_bounds:
  "length k = 2 \<Longrightarrow> choose_locate_cb DT_UINT16 = Some cb \<Longrightarrow> cb k = Inl Out_Of_Bounds"
  by (auto simp: choose_locate_cb_def libhl_cast_any_to_int_def read_key_def)

text \<open>
  A position from \<open>2 ^ 61 - 1\<close> on makes the number of bytes wrap: at \<open>2 ^ 61 - 1\<close> it is 0, \<^verbatim>\<open>realloc\<close> frees the array, and the
  element that is then read is in freed memory.
\<close>

theorem huge_position_frees_array:
  assumes "spa_array spa = Some arr" and "locate spa k = Inr (2 ^ 61 - 1)" and "spa_size spa \<le> 2 ^ 61 - 1"
    and "spa_max_size spa = 0" and "locate spa k' = Inr pos" and "pos < spa_size spa"
  shows "\<exists>spa'. set_element_to_sparse_array avail spa k d = Inr (- 1, spa') \<and>
    get_element_in_sparse_array spa' k' = Inl Bad_Pointer"
  using assms
  by (auto simp: set_element_to_sparse_array_def grow_array_def Let_def get_element_in_sparse_array_def locate_def)

end
