(* ===== verification/Skiplist.thy ===== *)
theory Skiplist
  imports Sparse_Array
begin

text \<open>
  The skip list of src/src/index/libhl/skiplist.c and the number index of
  src/src/index/spi/skiplist_number_index.c over it, with its pointers: a wrapper is the
  pair of an item and a layer, and the tail queues of the layers are the fields of bsd_queue.h. An insertion can link a wrapper of one layer behind one of
  another, so a layer is no list of its own.

  A loop that follows links and does not come to an end is \<open>None\<close>. \<open>toss i\<close> says whether the throw for layer \<open>i\<close> lets an item in
  (\<^verbatim>\<open>random()%100 > skl->probability\<close>). Timers and the counting of comparisons are left out.
\<close>

section \<open>Items, wrappers and layers\<close>

type_synonym wrapper = "nat \<times> nat"

text \<open>A pointer to a pointer of the queue: the first pointer of a layer or the next pointer of a wrapper.\<close>

datatype link = First nat | Next wrapper

record 'v skl_item =
  sk_key :: "byte list"
  sk_value :: "'v option"
  layer_check :: "bool list"

record 'v skiplist =
  num_layers :: nat
  skl_cmp :: "(byte list \<Rightarrow> byte list \<Rightarrow> int) option"
  skl_free_cb :: bool
  skl_items :: "nat \<rightharpoonup> 'v skl_item"
  q_first :: "nat \<Rightarrow> wrapper option"
  q_last :: "nat \<Rightarrow> link"
  w_next :: "wrapper \<Rightarrow> wrapper option"
  w_prev :: "wrapper \<Rightarrow> link"
  skl_next_id :: nat
  skl_cnt :: size_t
  skl_freed :: "'v option list"

definition set_link :: "link \<Rightarrow> wrapper option \<Rightarrow> 'v skiplist \<Rightarrow> 'v skiplist" where
  "set_link a w skl =
     (case a of
        First i \<Rightarrow> skl\<lparr>q_first := (q_first skl)(i := w)\<rparr>
      | Next x \<Rightarrow> skl\<lparr>w_next := (w_next skl)(x := w)\<rparr>)"

definition tailq_insert_tail :: "nat \<Rightarrow> wrapper \<Rightarrow> 'v skiplist \<Rightarrow> 'v skiplist" where
  "tailq_insert_tail i e skl =
     (let s1 = skl\<lparr>w_next := (w_next skl)(e := None), w_prev := (w_prev skl)(e := q_last skl i)\<rparr>;
          s2 = set_link (q_last skl i) (Some e) s1
      in s2\<lparr>q_last := (q_last s2)(i := Next e)\<rparr>)"

definition tailq_insert_after :: "nat \<Rightarrow> wrapper \<Rightarrow> wrapper \<Rightarrow> 'v skiplist \<Rightarrow> 'v skiplist" where
  "tailq_insert_after i x e skl =
     (let n = w_next skl x;
          s1 = skl\<lparr>w_next := (w_next skl)(e := n)\<rparr>;
          s2 = (case n of
                  Some y \<Rightarrow> s1\<lparr>w_prev := (w_prev s1)(y := Next e)\<rparr>
                | None \<Rightarrow> s1\<lparr>q_last := (q_last s1)(i := Next e)\<rparr>)
      in s2\<lparr>w_next := (w_next s2)(x := Some e), w_prev := (w_prev s2)(e := Next x)\<rparr>)"

definition tailq_remove :: "nat \<Rightarrow> wrapper \<Rightarrow> 'v skiplist \<Rightarrow> 'v skiplist" where
  "tailq_remove i e skl =
     (let n = w_next skl e;
          s1 = (case n of
                  Some y \<Rightarrow> skl\<lparr>w_prev := (w_prev skl)(y := w_prev skl e)\<rparr>
                | None \<Rightarrow> skl\<lparr>q_last := (q_last skl)(i := w_prev skl e)\<rparr>)
      in set_link (w_prev s1 e) n s1)"

section \<open>Searching\<close>

definition skiplist_create :: "nat \<Rightarrow> (byte list \<Rightarrow> byte list \<Rightarrow> int) option \<Rightarrow> bool \<Rightarrow> 'v skiplist" where
  "skiplist_create n cmp free_cb =
     \<lparr>num_layers = n, skl_cmp = cmp, skl_free_cb = free_cb, skl_items = Map.empty, q_first = (\<lambda>_. None), q_last = First,
      w_next = (\<lambda>_. None), w_prev = (\<lambda>_. First 0), skl_next_id = 0, skl_cnt = 0, skl_freed = []\<rparr>"

text \<open>Comparing the key of the item a wrapper belongs to; a released item and a missing comparator are errors.\<close>

definition skl_compare :: "'v skiplist \<Rightarrow> nat \<Rightarrow> byte list \<Rightarrow> c_error + int" where
  "skl_compare skl it key =
     (case skl_items skl it of
        None \<Rightarrow> Inl Bad_Pointer
      | Some x \<Rightarrow> ebind (deref (skl_cmp skl)) (\<lambda>cmp. Inr (cmp (sk_key x) key)))"

text \<open>Along a layer, from \<open>w\<close>, to the last wrapper whose key is not greater.\<close>

partial_function (option) along_layer ::
  "'v skiplist \<Rightarrow> byte list \<Rightarrow> wrapper option \<Rightarrow> wrapper option \<Rightarrow> (c_error + wrapper option) option" where
  "along_layer skl key prev w =
     (case w of
        None \<Rightarrow> Some (Inr prev)
      | Some x \<Rightarrow>
          (case skl_compare skl (fst x) key of
             Inl e \<Rightarrow> Some (Inl e)
           | Inr c \<Rightarrow> if c > 0 then Some (Inr prev) else along_layer skl key (Some x) (w_next skl x)))"

definition layer_start :: "'v skiplist \<Rightarrow> nat \<Rightarrow> wrapper option \<Rightarrow> wrapper option" where
  "layer_start skl i prev = (case prev of Some x \<Rightarrow> w_next skl (fst x, i) | None \<Rightarrow> q_first skl i)"

text \<open>From the highest layer down; the second component of the result is the path.\<close>

fun search_layers ::
  "'v skiplist \<Rightarrow> byte list \<Rightarrow> nat \<Rightarrow> wrapper option \<Rightarrow> (nat \<Rightarrow> wrapper option) \<Rightarrow>
   (c_error + (wrapper option \<times> (nat \<Rightarrow> wrapper option))) option" where
  "search_layers skl key 0 prev path = Some (Inr (prev, path))"
| "search_layers skl key (Suc i) prev path =
     (case along_layer skl key prev (layer_start skl i prev) of
        None \<Rightarrow> None
      | Some (Inl e) \<Rightarrow> Some (Inl e)
      | Some (Inr prev') \<Rightarrow> search_layers skl key i prev' (path(i := prev')))"

definition skiplist_search_internal ::
  "'v skiplist \<Rightarrow> byte list \<Rightarrow> (c_error + (wrapper option \<times> (nat \<Rightarrow> wrapper option))) option" where
  "skiplist_search_internal skl key = search_layers skl key (num_layers skl) None (\<lambda>_. None)"

text \<open>The item found, when its key compares equal.\<close>

definition exact_item :: "'v skiplist \<Rightarrow> byte list \<Rightarrow> wrapper option \<Rightarrow> c_error + nat option" where
  "exact_item skl key w =
     (case w of
        None \<Rightarrow> Inr None
      | Some x \<Rightarrow> ebind (skl_compare skl (fst x) key) (\<lambda>c. Inr (if c = 0 then Some (fst x) else None)))"

definition skiplist_search :: "'v skiplist \<Rightarrow> byte list \<Rightarrow> (c_error + 'v option) option" where
  "skiplist_search skl key =
     map_option (\<lambda>r. ebind r (\<lambda>(w, _). ebind (exact_item skl key w) (\<lambda>it.
       Inr (case it of None \<Rightarrow> None | Some n \<Rightarrow> (case skl_items skl n of None \<Rightarrow> None | Some x \<Rightarrow> sk_value x)))))
       (skiplist_search_internal skl key)"

text \<open>The range search: down to layer 0 before the first key, then through the rest of layer 0.\<close>

partial_function (option) range_layer ::
  "'v skiplist \<Rightarrow> byte list \<Rightarrow> byte list \<Rightarrow> ('u \<Rightarrow> byte list \<Rightarrow> 'v option \<Rightarrow> 'u) \<Rightarrow> nat \<Rightarrow> wrapper option \<Rightarrow> 'u \<Rightarrow> wrapper option \<Rightarrow>
   (c_error + (wrapper option \<times> 'u)) option" where
  "range_layer skl bg en cb i prev u w =
     (case w of
        None \<Rightarrow> Some (Inr (prev, u))
      | Some x \<Rightarrow>
          (case (skl_items skl (fst x), skl_compare skl (fst x) bg, skl_compare skl (fst x) en) of
             (Some it, Inr c1, Inr c2) \<Rightarrow>
               if i > 0 \<and> c1 \<ge> 0 then Some (Inr (prev, u))
               else range_layer skl bg en cb i (Some x)
                      (if i = 0 \<and> c1 \<ge> 0 \<and> c2 < 0 then cb u (sk_key it) (sk_value it) else u) (w_next skl x)
           | _ \<Rightarrow> Some (Inl Bad_Pointer)))"

fun range_layers ::
  "'v skiplist \<Rightarrow> byte list \<Rightarrow> byte list \<Rightarrow> ('u \<Rightarrow> byte list \<Rightarrow> 'v option \<Rightarrow> 'u) \<Rightarrow> nat \<Rightarrow> wrapper option \<Rightarrow> 'u \<Rightarrow>
   (c_error + 'u) option" where
  "range_layers skl bg en cb 0 prev u = Some (Inr u)"
| "range_layers skl bg en cb (Suc i) prev u =
     (case range_layer skl bg en cb i prev u (layer_start skl i prev) of
        None \<Rightarrow> None
      | Some (Inl e) \<Rightarrow> Some (Inl e)
      | Some (Inr (prev', u')) \<Rightarrow> range_layers skl bg en cb i prev' u')"

definition skiplist_range_search ::
  "'v skiplist \<Rightarrow> byte list \<Rightarrow> byte list \<Rightarrow> ('u \<Rightarrow> byte list \<Rightarrow> 'v option \<Rightarrow> 'u) \<Rightarrow> 'u \<Rightarrow> (c_error + 'u) option" where
  "skiplist_range_search skl bg en cb u =
     (case skl_cmp skl of
        None \<Rightarrow> Some (Inl Null_Deref)
      | Some cmp \<Rightarrow> if cmp bg en \<ge> 0 then Some (Inr u) else range_layers skl bg en cb (num_layers skl) None u)"

section \<open>Inserting and removing\<close>

text \<open>The higher layers, as long as the throws let the item in.\<close>

fun enter_layers :: "(nat \<Rightarrow> bool) \<Rightarrow> nat \<Rightarrow> (nat \<Rightarrow> wrapper option) \<Rightarrow> nat \<Rightarrow> bool list \<Rightarrow> bool \<Rightarrow> nat list \<Rightarrow> 'v skiplist \<Rightarrow>
    bool list \<times> 'v skiplist" where
  "enter_layers toss n path it check coin [] skl = (check, skl)"
| "enter_layers toss n path it check coin (i # is) skl =
     (let coin' = (coin \<and> toss i)
      in if coin' then
           let skl' = (case path i of
                         Some x \<Rightarrow> tailq_insert_after i x (it, i) skl
                       | None \<Rightarrow> tailq_insert_tail i (it, i) skl)
           in enter_layers toss n path it (check[i := True]) coin' is skl'
         else enter_layers toss n path it check coin' is skl)"

definition skiplist_insert ::
  "(nat \<Rightarrow> bool) \<Rightarrow> 'v skiplist \<Rightarrow> byte list \<Rightarrow> 'v option \<Rightarrow> (c_error + (int \<times> 'v skiplist)) option" where
  "skiplist_insert toss skl key v =
     map_option (\<lambda>r. ebind r (\<lambda>(w, path). ebind (exact_item skl key w) (\<lambda>found.
       case found of
         Some n \<Rightarrow>
           (case skl_items skl n of
              None \<Rightarrow> Inl Bad_Pointer
            | Some x \<Rightarrow>
                Inr (1, skl\<lparr>skl_freed := (if skl_free_cb skl then skl_freed skl @ [sk_value x] else skl_freed skl),
                            skl_items := (skl_items skl)(n \<mapsto> x\<lparr>sk_value := v\<rparr>)\<rparr>))
       | None \<Rightarrow>
           let it = skl_next_id skl;
               s0 = skl\<lparr>skl_next_id := Suc it\<rparr>;
               s1 = (case w of
                       Some x \<Rightarrow> tailq_insert_after 0 (fst x, 0) (it, 0) s0
                     | None \<Rightarrow> tailq_insert_tail 0 (it, 0) s0);
               (check, s2) = enter_layers toss (num_layers skl) path it ((replicate (num_layers skl) False)[0 := True]) True
                               [1..<num_layers skl] s1
           in Inr (0, s2\<lparr>skl_items := (skl_items s2)(it \<mapsto> \<lparr>sk_key = key, sk_value = v, layer_check = check\<rparr>),
                         skl_cnt := skl_cnt s2 + 1\<rparr>))))
       (skiplist_search_internal skl key)"

definition skiplist_remove_internal :: "'v skiplist \<Rightarrow> nat \<Rightarrow> bool \<Rightarrow> c_error + ('v option \<times> 'v skiplist)" where
  "skiplist_remove_internal skl n want =
     (case skl_items skl n of
        None \<Rightarrow> Inl Bad_Pointer
      | Some x \<Rightarrow>
          let s1 = (if \<not> want \<and> skl_free_cb skl then skl\<lparr>skl_freed := skl_freed skl @ [sk_value x]\<rparr> else skl);
              s2 = foldl (\<lambda>s i. if layer_check x ! i then tailq_remove i (n, i) s else s) s1 [0..<num_layers skl]
          in Inr (sk_value x, s2\<lparr>skl_items := (skl_items s2)(n := None)\<rparr>))"

definition skiplist_remove ::
  "'v skiplist \<Rightarrow> byte list \<Rightarrow> bool \<Rightarrow> (c_error + (int \<times> 'v option \<times> 'v skiplist)) option" where
  "skiplist_remove skl key want =
     map_option (\<lambda>r. ebind r (\<lambda>(w, _). ebind (exact_item skl key w) (\<lambda>found.
       case found of
         None \<Rightarrow> Inr (- 1, None, skl)
       | Some n \<Rightarrow> ebind (skiplist_remove_internal skl n want) (\<lambda>(v, s).
           Inr (0, v, s\<lparr>skl_cnt := skl_cnt s - 1\<rparr>)))))
       (skiplist_search_internal skl key)"

text \<open>Removing every item of layer 0; the next wrapper is read before the item is released.\<close>

partial_function (option) destroy_items :: "'v skiplist \<Rightarrow> wrapper option \<Rightarrow> (c_error + 'v skiplist) option" where
  "destroy_items skl w =
     (case w of
        None \<Rightarrow> Some (Inr skl)
      | Some x \<Rightarrow>
          (case skiplist_remove_internal skl (fst x) False of
             Inl e \<Rightarrow> Some (Inl e)
           | Inr (_, skl') \<Rightarrow> destroy_items skl' (w_next skl x)))"

definition skiplist_destroy :: "'v skiplist \<Rightarrow> (c_error + 'v skiplist) option" where
  "skiplist_destroy skl = destroy_items skl (q_first skl 0)"

definition skiplist_count :: "'v skiplist \<Rightarrow> size_t" where
  "skiplist_count skl = skl_cnt skl"

section \<open>The number index\<close>

text \<open>The comparator \<^verbatim>\<open>LIBHL_CHOOSE_CMP_CB\<close> selects is a parameter here; NULL is \<open>None\<close>.\<close>

definition create_skiplist_index :: "(byte list \<Rightarrow> byte list \<Rightarrow> int) option \<Rightarrow> int \<times> 'v skiplist option" where
  "create_skiplist_index cmp = (0, Some (skiplist_create 5 cmp False))"

definition insert_number_to_skiplist ::
  "(nat \<Rightarrow> bool) \<Rightarrow> 'v skiplist option \<Rightarrow> byte list \<Rightarrow> 'v option \<Rightarrow> (c_error + (int \<times> 'v skiplist option)) option" where
  "insert_number_to_skiplist toss idx key data =
     (case idx of
        None \<Rightarrow> Some (Inr (- 1, None))
      | Some skl \<Rightarrow> map_option (\<lambda>r. ebind r (\<lambda>(rc, skl'). Inr (rc, Some skl'))) (skiplist_insert toss skl key data))"

definition search_number_from_skiplist ::
  "'v skiplist option \<Rightarrow> byte list \<Rightarrow> 'v option \<Rightarrow> (c_error + (int \<times> 'v option)) option" where
  "search_number_from_skiplist idx key out =
     (case idx of
        None \<Rightarrow> Some (Inr (- 1, out))
      | Some skl \<Rightarrow> map_option (\<lambda>r. ebind r (\<lambda>data. Inr (0, data))) (skiplist_search skl key))"

definition collect_data_from_skiplist :: "'v linked_list \<Rightarrow> byte list \<Rightarrow> 'v option \<Rightarrow> 'v linked_list" where
  "collect_data_from_skiplist rst key v = snd (list_push_value v rst)"

definition search_numeric_range_from_skiplist ::
  "'v skiplist option \<Rightarrow> byte list \<Rightarrow> byte list \<Rightarrow> (c_error + 'v linked_list option) option" where
  "search_numeric_range_from_skiplist idx begin_key end_key =
     (case idx of
        None \<Rightarrow> Some (Inr None)
      | Some skl \<Rightarrow> map_option (\<lambda>r. ebind r (\<lambda>l. Inr (Some l)))
          (skiplist_range_search skl begin_key end_key collect_data_from_skiplist list_create))"

section \<open>A new smallest key\<close>

lemma along_None [simp]: "along_layer skl key prev None = Some (Inr prev)"
  by (subst along_layer.simps) simp

lemma along_Some:
  assumes "skl_cmp skl = Some cmp" and "skl_items skl (fst x) = Some it"
  shows "along_layer skl key prev (Some x) =
    (if cmp (sk_key it) key > 0 then Some (Inr prev) else along_layer skl key (Some x) (w_next skl x))"
  using assms by (subst along_layer.simps) (simp add: skl_compare_def)

definition all_above :: "(byte list \<Rightarrow> byte list \<Rightarrow> int) \<Rightarrow> 'v skiplist \<Rightarrow> byte list \<Rightarrow> bool" where
  "all_above cmp skl key \<longleftrightarrow>
     (\<forall>i < num_layers skl. \<forall>x. q_first skl i = Some x \<longrightarrow> (\<exists>it. skl_items skl (fst x) = Some it \<and> cmp (sk_key it) key > 0))"

lemma search_above:
  assumes "skl_cmp skl = Some cmp" and "all_above cmp skl key"
  shows "skiplist_search_internal skl key = Some (Inr (None, \<lambda>_. None))"
proof -
  have "search_layers skl key n None (\<lambda>_. None) = Some (Inr (None, \<lambda>_. None))" if "n \<le> num_layers skl" for n
    using that
  proof (induction n)
    case (Suc n)
    have "along_layer skl key None (q_first skl n) = Some (Inr None)"
    proof (cases "q_first skl n")
      case (Some x)
      then obtain it where "skl_items skl (fst x) = Some it" "cmp (sk_key it) key > 0"
        using Suc.prems assms(2) Some unfolding all_above_def by (metis Suc_le_lessD)
      then show ?thesis using Some along_Some [OF assms(1)] by simp
    qed simp
    moreover have "(\<lambda>_. None)(n := None) = (\<lambda>_. None)" by auto
    ultimately show ?case using Suc by (simp add: layer_start_def)
  qed simp
  then show ?thesis by (simp add: skiplist_search_internal_def)
qed

lemma enter_no_coin: "enter_layers toss n path it check False is skl = (check, skl)"
  by (induction "is" arbitrary: check skl) simp_all

lemma enter_first_toss: "\<not> toss 1 \<Longrightarrow> enter_layers toss n path it check True [1..<n] skl = (check, skl)"
  by (cases "1 < n") (simp_all add: upt_conv_Cons enter_no_coin)

text \<open>C24: A key smaller than the first key of every layer, inserted into a list with items in layer 0 so that the first throw keeps the item in layer 0, is appended at the end
  of layer 0, behind the last item. The insertion reports success and counts it, but a search stops at the first greater key and does not find it.
\<close>

theorem new_minimum_is_lost:
  assumes "skl_cmp skl = Some cmp" and "all_above cmp skl key" and "0 < num_layers skl" and "\<not> toss 1"
    and "q_first skl 0 = Some x" and "q_last skl 0 = Next y"
    and fresh: "\<forall>i x. q_first skl i = Some x \<longrightarrow> fst x \<noteq> skl_next_id skl" and "fst y \<noteq> skl_next_id skl"
  shows "\<exists>skl' it. skiplist_insert toss skl key v = Some (Inr (0, skl')) \<and> skiplist_count skl' = skiplist_count skl + 1 \<and>
    w_next skl' y = Some (skl_next_id skl, 0) \<and> w_next skl' (skl_next_id skl, 0) = None \<and> q_last skl' 0 = Next (skl_next_id skl, 0) \<and>
    skl_items skl' (skl_next_id skl) = Some it \<and> sk_key it = key \<and> sk_value it = v \<and>
    skiplist_search skl' key = Some (Inr None)"
proof -
  let ?it = "\<lparr>sk_key = key, sk_value = v, layer_check = (replicate (num_layers skl) False)[0 := True]\<rparr>"
  have y: "y \<noteq> (skl_next_id skl, 0)" using assms(8) by auto
  obtain skl' where i: "skiplist_insert toss skl key v = Some (Inr (0, skl'))"
      and f: "skl_cmp skl' = skl_cmp skl" "num_layers skl' = num_layers skl" "q_first skl' = q_first skl"
      "skl_cnt skl' = skl_cnt skl + 1" "\<And>n. n \<noteq> skl_next_id skl \<Longrightarrow> skl_items skl' n = skl_items skl n"
      and e: "w_next skl' y = Some (skl_next_id skl, 0)" "w_next skl' (skl_next_id skl, 0) = None" "q_last skl' 0 = Next (skl_next_id skl, 0)"
      "skl_items skl' (skl_next_id skl) = Some ?it"
    using assms(6) y y [symmetric]
    by (simp add: skiplist_insert_def search_above [OF assms(1,2)] exact_item_def tailq_insert_tail_def Let_def set_link_def
        enter_first_toss [of toss, OF assms(4), unfolded One_nat_def])
  have "all_above cmp skl' key"
    using assms(2) fresh f by (simp add: all_above_def)
  then have "skiplist_search skl' key = Some (Inr None)"
    using search_above [of skl' cmp key] assms(1) f(1) by (simp add: skiplist_search_def exact_item_def)
  with i f(4) e show ?thesis by (intro exI [of _ skl'] exI [of _ ?it]) (simp add: skiplist_count_def)
qed

theorem new_minimum_is_lost_witness:
  "\<exists>skl'. skiplist_insert (\<lambda>_. False)
      ((skiplist_create 5 (Some libhl_cmp_keys_int) False)
        \<lparr>skl_items := [0 \<mapsto> \<lparr>sk_key = bytes4 5, sk_value = Some True, layer_check = [True, False, False, False, False]\<rparr>],
         q_first := (\<lambda>_. None)(0 := Some (0, 0)), q_last := First(0 := Next (0, 0)), skl_next_id := 1, skl_cnt := 1\<rparr>)
      (bytes4 3) (Some False) = Some (Inr (0, skl')) \<and>
    skiplist_count skl' = 2 \<and> q_last skl' 0 = Next (1, 0) \<and> skiplist_search skl' (bytes4 3) = Some (Inr None)"
proof -
  let ?skl = "(skiplist_create 5 (Some libhl_cmp_keys_int) False)
        \<lparr>skl_items := [0 \<mapsto> \<lparr>sk_key = bytes4 5, sk_value = Some True, layer_check = [True, False, False, False, False]\<rparr>],
         q_first := (\<lambda>_. None)(0 := Some (0, 0)), q_last := First(0 := Next (0, 0)), skl_next_id := 1, skl_cnt := 1\<rparr>"
  have p: "skl_cmp ?skl = Some libhl_cmp_keys_int" "all_above libhl_cmp_keys_int ?skl (bytes4 3)" "0 < num_layers ?skl" "\<not> (\<lambda>_. False) (1 :: nat)"
      "q_first ?skl 0 = Some (0, 0)" "q_last ?skl 0 = Next (0, 0)" "\<forall>i x. q_first ?skl i = Some x \<longrightarrow> fst x \<noteq> skl_next_id ?skl"
      "fst (0 :: nat, 0 :: nat) \<noteq> skl_next_id ?skl"
    by (auto simp: skiplist_create_def all_above_def libhl_cmp_keys_int_def)
  have c: "skl_next_id ?skl = 1" "skiplist_count ?skl = 1" by (simp_all add: skiplist_count_def)
  obtain skl' where "skiplist_insert (\<lambda>_. False) ?skl (bytes4 3) (Some False) = Some (Inr (0, skl'))" "skiplist_count skl' = skiplist_count ?skl + 1"
      "q_last skl' 0 = Next (skl_next_id ?skl, 0)" "skiplist_search skl' (bytes4 3) = Some (Inr None)"
    using new_minimum_is_lost [OF p, of "Some False"] by blast
  then show ?thesis unfolding c by (intro exI [of _ skl']) simp
qed

section \<open>Items in layer 0 only\<close>

text \<open>The items of layer 0 in the order of the links.\<close>

definition start_of :: "nat list \<Rightarrow> wrapper option" where
  "start_of ns = (case ns of [] \<Rightarrow> None | n # _ \<Rightarrow> Some (n, 0))"

fun linked :: "'v skiplist \<Rightarrow> nat list \<Rightarrow> wrapper option \<Rightarrow> bool" where
  "linked skl [] e = True"
| "linked skl (n # ns) e = (w_next skl (n, 0) = (if ns = [] then e else start_of ns) \<and> linked skl ns e)"

definition key_at_id :: "'v skiplist \<Rightarrow> nat \<Rightarrow> byte list" where
  "key_at_id skl n = sk_key (the (skl_items skl n))"

definition val_at_id :: "'v skiplist \<Rightarrow> nat \<Rightarrow> 'v option" where
  "val_at_id skl n = sk_value (the (skl_items skl n))"

definition flat :: "'v skiplist \<Rightarrow> nat list \<Rightarrow> bool" where
  "flat skl ns \<longleftrightarrow> 0 < num_layers skl \<and> q_first skl 0 = start_of ns \<and> linked skl ns None \<and> distinct ns \<and>
     (\<forall>n \<in> set ns. n < skl_next_id skl \<and> n \<in> dom (skl_items skl)) \<and>
     (\<forall>i. 0 < i \<longrightarrow> q_first skl i = None) \<and> q_last skl 0 = (if ns = [] then First 0 else Next (last ns, 0))"

lemma start_of_simps [simp]: "start_of [] = None" "start_of (n # ns) = Some (n, 0)"
  by (simp_all add: start_of_def)

lemma linked_append: "linked skl (as @ bs) e \<longleftrightarrow> linked skl as (if bs = [] then e else start_of bs) \<and> linked skl bs e"
  by (induction as) (auto simp: start_of_def split: list.splits)

lemma linked_frame: "\<forall>n \<in> set ns. w_next skl' (n, 0) = w_next skl (n, 0) \<Longrightarrow> linked skl' ns e = linked skl ns e"
  by (induction ns) auto

definition last_of :: "wrapper option \<Rightarrow> nat list \<Rightarrow> wrapper option" where
  "last_of prev ns = (if ns = [] then prev else Some (last ns, 0))"

lemma along_linked:
  assumes "skl_cmp skl = Some cmp" and "linked skl ns None" and "set ns \<subseteq> dom (skl_items skl)"
  shows "along_layer skl key prev (start_of ns) =
    Some (Inr (last_of prev (takeWhile (\<lambda>n. cmp (key_at_id skl n) key \<le> 0) ns)))"
  using assms(2,3)
proof (induction ns arbitrary: prev)
  case (Cons n ns)
  obtain it where it: "skl_items skl n = Some it" using Cons.prems(2) by auto
  have nx: "w_next skl (n, 0) = start_of ns" using Cons.prems(1) by (cases ns) auto
  show ?case
    using Cons.IH [of "Some (n, 0)"] Cons.prems along_Some [OF assms(1), of "(n, 0)" it key prev] it
    by (auto simp: key_at_id_def last_of_def nx not_le)
qed (simp add: last_of_def)

lemma search_flat:
  assumes "skl_cmp skl = Some cmp" and "flat skl ns"
  shows "\<exists>path. skiplist_search_internal skl key =
    Some (Inr (last_of None (takeWhile (\<lambda>n. cmp (key_at_id skl n) key \<le> 0) ns), path)) \<and> (\<forall>i. 0 < i \<longrightarrow> path i = None)"
proof -
  have "search_layers skl key (Suc n) None (\<lambda>_. None) = search_layers skl key 1 None (\<lambda>_. None)" for n
  proof (induction n)
    case (Suc n)
    have "(\<lambda>_. None)(Suc n := None) = (\<lambda>_. None)" by auto
    then have "search_layers skl key (Suc (Suc n)) None (\<lambda>_. None) = search_layers skl key (Suc n) None (\<lambda>_. None)"
      using assms(2) by (subst search_layers.simps(2)) (simp add: layer_start_def flat_def)
    with Suc show ?case by simp
  qed simp
  moreover obtain n where "num_layers skl = Suc n" using assms(2) gr0_implies_Suc unfolding flat_def by blast
  ultimately have "skiplist_search_internal skl key = search_layers skl key 1 None (\<lambda>_. None)"
    unfolding skiplist_search_internal_def by metis
  moreover have "along_layer skl key None (start_of ns) =
      Some (Inr (last_of None (takeWhile (\<lambda>n. cmp (key_at_id skl n) key \<le> 0) ns)))"
    by (rule along_linked [OF assms(1)]) (use assms(2) in \<open>auto simp: flat_def\<close>)
  ultimately show ?thesis
    using assms(2) by (simp add: layer_start_def flat_def)
qed

lemma exact_item_eq:
  assumes "skl_cmp skl = Some cmp" and "set ns \<subseteq> dom (skl_items skl)"
  shows "exact_item skl key (last_of None ns) =
    Inr (if ns \<noteq> [] \<and> cmp (key_at_id skl (last ns)) key = 0 then Some (last ns) else None)"
proof (cases "ns = []")
  case False
  then obtain it where "skl_items skl (last ns) = Some it" using assms(2) by (metis domD last_in_set subsetD)
  then show ?thesis using False assms(1) by (simp add: exact_item_def last_of_def skl_compare_def key_at_id_def)
qed (simp add: exact_item_def last_of_def)

text \<open>Linking a new item behind one of layer 0.\<close>

lemma insert_after_flat:
  assumes "flat skl (ts @ ds)" and "ts \<noteq> []" and "it = skl_next_id skl"
    and skl': "skl' = tailq_insert_after 0 (last ts, 0) (it, 0) (skl\<lparr>skl_next_id := Suc it\<rparr>)"
    and "skl'' = skl'\<lparr>skl_items := (skl_items skl')(it \<mapsto> x), skl_cnt := c\<rparr>"
  shows "flat skl'' (ts @ it # ds)"
proof -
  obtain bs a where ts: "ts = bs @ [a]" using assms(2) by (metis append_butlast_last_id)
  have l: "linked skl (bs @ a # ds) None" and d: "distinct (bs @ a # ds)" and new: "it \<notin> set (bs @ a # ds)"
      "\<forall>n \<in> set (bs @ a # ds). n < it"
    using assms(1,3) by (auto simp: flat_def ts)
  have na: "w_next skl (a, 0) = start_of ds" using l by (cases ds) (auto simp: linked_append)
  have nx: "w_next skl'' = (w_next skl)((it, 0) := start_of ds, (a, 0) := Some (it, 0))"
    using new(1) by (auto simp: assms(5) skl' tailq_insert_after_def Let_def ts na split: option.splits)
  have "linked skl'' (bs @ a # it # ds) None"
  proof -
    have "\<forall>n \<in> set bs. w_next skl'' (n, 0) = w_next skl (n, 0)" "\<forall>n \<in> set ds. w_next skl'' (n, 0) = w_next skl (n, 0)"
      using d new(1) by (auto simp: nx)
    then have "linked skl'' bs (Some (a, 0))" "linked skl'' ds None"
      using l linked_frame [of bs skl'' skl "Some (a, 0)"] linked_frame [of ds skl'' skl None] by (auto simp: linked_append)
    then show ?thesis using new(1) by (cases ds) (auto simp: linked_append nx)
  qed
  moreover have "q_last skl'' 0 = Next (last (ts @ it # ds), 0)"
    using assms(1) by (cases ds) (auto simp: assms(5) skl' tailq_insert_after_def Let_def ts na flat_def split: option.splits)
  moreover have "q_first skl'' = q_first skl" "num_layers skl'' = num_layers skl" "skl_next_id skl'' = Suc it"
      "skl_items skl'' = (skl_items skl)(it \<mapsto> x)"
    by (auto simp: assms(5) skl' tailq_insert_after_def Let_def split: option.splits)
  moreover have "start_of (ts @ it # ds) = start_of (ts @ ds)" using assms(2) by (cases ts) auto
  ultimately show ?thesis
    using assms(1) d new by (auto simp: flat_def ts less_Suc_eq)
qed

text \<open>The first item becomes the whole of layer 0.\<close>

lemma insert_tail_flat:
  assumes "flat skl []" and "it = skl_next_id skl"
    and "skl' = tailq_insert_tail 0 (it, 0) (skl\<lparr>skl_next_id := Suc it\<rparr>)"
    and "skl'' = skl'\<lparr>skl_items := (skl_items skl')(it \<mapsto> x), skl_cnt := c\<rparr>"
  shows "flat skl'' [it]"
  using assms(1) by (auto simp: flat_def assms(2-4) tailq_insert_tail_def Let_def set_link_def)

text \<open>The keys ascend along layer 0, and the items are what a map of the keys holds.\<close>

definition ascending :: "(byte list \<Rightarrow> byte list \<Rightarrow> int) \<Rightarrow> byte list set \<Rightarrow> 'v skiplist \<Rightarrow> nat list \<Rightarrow> bool" where
  "ascending cmp K skl ns \<longleftrightarrow> flat skl ns \<and> skl_cmp skl = Some cmp \<and> key_at_id skl ` set ns \<subseteq> K \<and>
     sorted_wrt (\<lambda>m n. cmp (key_at_id skl m) (key_at_id skl n) < 0) ns"

definition skl_map :: "'v skiplist \<Rightarrow> nat list \<Rightarrow> byte list \<rightharpoonup> 'v option" where
  "skl_map skl ns = map_of (map (\<lambda>n. (key_at_id skl n, val_at_id skl n)) ns)"

lemma takeWhile_split:
  "\<lbrakk>\<forall>a \<in> set as. P a; \<forall>b \<in> set bs. \<not> P b\<rbrakk> \<Longrightarrow> takeWhile P (as @ bs) = as"
  by (cases bs) simp_all

lemma find_map:
  "(case find (\<lambda>n. key_at_id skl n = k) ns of None \<Rightarrow> None | Some n \<Rightarrow> Some (val_at_id skl n)) = skl_map skl ns k"
  by (induction ns) (auto simp: skl_map_def)

lemma map_of_mid: "k \<notin> fst ` set as \<Longrightarrow> map_of (as @ (k, v) # bs) = (map_of (as @ bs))(k \<mapsto> v)"
  by (induction as) auto

context key_order
begin

lemma ascending_split:
  assumes "sorted_wrt (\<lambda>m n. cmp (f m) (f n) < 0) ns" and "f ` set ns \<subseteq> K" and "k \<in> K"
  shows "ns = filter (\<lambda>n. cmp (f n) k \<le> 0) ns @ filter (\<lambda>n. \<not> cmp (f n) k \<le> 0) ns"
  using assms(1,2)
proof (induction ns)
  case (Cons n ns)
  have "filter (\<lambda>n. cmp (f n) k \<le> 0) ns = []" if "\<not> cmp (f n) k \<le> 0"
  proof -
    have "\<not> cmp (f m) k \<le> 0" if "m \<in> set ns" for m
    proof -
      have "f n \<in> K" "f m \<in> K" "cmp (f n) (f m) < 0" using Cons.prems that by auto
      then show ?thesis using \<open>\<not> cmp (f n) k \<le> 0\<close> assms(3) by (auto simp: cmp_less cmp_greater not_le)
    qed
    then show ?thesis by simp
  qed
  then show ?case using Cons by (cases "cmp (f n) k \<le> 0") (auto simp: filter_empty_conv)
qed simp

lemma below_is_prefix:
  assumes "sorted_wrt (\<lambda>m n. cmp (f m) (f n) < 0) ns" and "f ` set ns \<subseteq> K" and "k \<in> K"
  shows "takeWhile (\<lambda>n. cmp (f n) k \<le> 0) ns = filter (\<lambda>n. cmp (f n) k \<le> 0) ns"
proof -
  let ?P = "\<lambda>n. cmp (f n) k \<le> 0"
  have "takeWhile ?P (filter ?P ns @ filter (\<lambda>n. \<not> ?P n) ns) = filter ?P ns"
    by (rule takeWhile_split) simp_all
  then show ?thesis unfolding ascending_split [OF assms, symmetric] .
qed

lemma last_below:
  assumes "sorted_wrt (\<lambda>m n. cmp (f m) (f n) < 0) ns" and "f ` set ns \<subseteq> K" and "k \<in> K" and "n \<in> set ns" and "f n = k"
  shows "filter (\<lambda>n. cmp (f n) k \<le> 0) ns \<noteq> [] \<and> last (filter (\<lambda>n. cmp (f n) k \<le> 0) ns) = n"
proof -
  obtain as bs where ns: "ns = as @ n # bs" using assms(4) by (meson split_list)
  have "cmp (f n) (f b) < 0 \<and> f b \<in> K" if "b \<in> set bs" for b using assms(1,2) that by (auto simp: ns sorted_wrt_append)
  then have "\<not> cmp (f b) k \<le> 0" if "b \<in> set bs" for b
    using that assms(3,5) by (metis cmp_antisym not_le)
  then have "filter (\<lambda>n. cmp (f n) k \<le> 0) bs = []" by (simp add: filter_empty_conv)
  moreover have "cmp (f n) k \<le> 0" using assms(3,5) cmp_eq [of k k] by simp
  ultimately show ?thesis by (simp add: ns)
qed

end

text \<open>Byte keys of which no two have the same value.\<close>

locale exact_key_order = key_order cmp val K
  for cmp :: "byte list \<Rightarrow> byte list \<Rightarrow> int" and val :: "byte list \<Rightarrow> 'l::linorder" and K :: "byte list set" +
  assumes val_inj: "inj_on val K"
begin

lemma search_ascending:
  assumes "ascending cmp K skl ns" and "k \<in> K"
  shows "\<exists>path. skiplist_search_internal skl k = Some (Inr (last_of None (filter (\<lambda>n. cmp (key_at_id skl n) k \<le> 0) ns), path)) \<and>
      (\<forall>i. 0 < i \<longrightarrow> path i = None)"
    and "exact_item skl k (last_of None (filter (\<lambda>n. cmp (key_at_id skl n) k \<le> 0) ns)) = Inr (find (\<lambda>n. key_at_id skl n = k) ns)"
proof -
  have f: "flat skl ns" "skl_cmp skl = Some cmp" and s: "sorted_wrt (\<lambda>m n. cmp (key_at_id skl m) (key_at_id skl n) < 0) ns"
      and K: "key_at_id skl ` set ns \<subseteq> K"
    using assms(1) by (auto simp: ascending_def)
  show "\<exists>path. skiplist_search_internal skl k = Some (Inr (last_of None (filter (\<lambda>n. cmp (key_at_id skl n) k \<le> 0) ns), path)) \<and>
      (\<forall>i. 0 < i \<longrightarrow> path i = None)"
    using search_flat [OF f(2,1), of k] by (simp add: below_is_prefix [OF s K assms(2)])
  let ?ts = "filter (\<lambda>n. cmp (key_at_id skl n) k \<le> 0) ns"
  have d: "set ?ts \<subseteq> dom (skl_items skl)" using f(1) by (auto simp: flat_def)
  show "exact_item skl k (last_of None ?ts) = Inr (find (\<lambda>n. key_at_id skl n = k) ns)"
  proof (cases "find (\<lambda>n. key_at_id skl n = k) ns")
    case None
    then have no: "\<forall>n \<in> set ns. key_at_id skl n \<noteq> k" by (auto simp: find_None_iff)
    have "cmp (key_at_id skl (last ?ts)) k \<noteq> 0" if "?ts \<noteq> []"
    proof -
      have "last ?ts \<in> set ns" using last_in_set [OF that] by simp
      then show ?thesis using no K assms(2) val_inj by (metis cmp_eq image_subset_iff inj_onD)
    qed
    then show ?thesis using exact_item_eq [OF f(2) d, of k] None by auto
  next
    case (Some n)
    then have n: "n \<in> set ns" "key_at_id skl n = k" by (auto simp: find_Some_iff)
    show ?thesis
      using exact_item_eq [OF f(2) d, of k] last_below [OF s K assms(2) n] Some n(2) assms(2) cmp_eq [of k k] by simp
  qed
qed

lemma skiplist_search_map:
  assumes "ascending cmp K skl ns" and "k \<in> K"
  shows "skiplist_search skl k = Some (Inr (case skl_map skl ns k of None \<Rightarrow> None | Some v \<Rightarrow> v))"
proof -
  have "set ns \<subseteq> dom (skl_items skl)" using assms(1) by (auto simp: ascending_def flat_def)
  moreover have "\<And>n. find (\<lambda>n. key_at_id skl n = k) ns = Some n \<Longrightarrow> n \<in> set ns" by (auto simp: find_Some_iff)
  moreover obtain path where
    "skiplist_search_internal skl k = Some (Inr (last_of None (filter (\<lambda>n. cmp (key_at_id skl n) k \<le> 0) ns), path))"
    using search_ascending(1) [OF assms] by blast
  ultimately show ?thesis
    using search_ascending(2) [OF assms]
    by (auto simp: skiplist_search_def find_map [symmetric] val_at_id_def split: option.splits)
qed

text \<open>Changing the value of a stored key, and linking a new one between the smaller and the greater keys.\<close>

lemma update_ascending:
  assumes "ascending cmp K skl ns" and "n \<in> set ns" and "skl_items skl n = Some x"
    and "skl' = skl\<lparr>skl_freed := fr, skl_items := (skl_items skl)(n \<mapsto> x\<lparr>sk_value := v\<rparr>)\<rparr>"
  shows "ascending cmp K skl' ns \<and> skl_map skl' ns = (skl_map skl ns)(key_at_id skl n \<mapsto> v)"
proof -
  have key: "key_at_id skl' = key_at_id skl" and val: "val_at_id skl' = (val_at_id skl)(n := v)"
    using assms(3) by (auto simp: key_at_id_def val_at_id_def assms(4))
  have "linked skl' ns None = linked skl ns None" by (rule linked_frame) (simp add: assms(4))
  then have "flat skl' ns" "skl_cmp skl' = skl_cmp skl" using assms(1) by (auto simp: ascending_def flat_def assms(4))
  then have "ascending cmp K skl' ns" using assms(1) by (simp add: ascending_def key)
  moreover obtain as bs where ns: "ns = as @ n # bs" using assms(2) by (meson split_list)
  have "key_at_id skl m \<noteq> key_at_id skl n \<and> m \<noteq> n" if "m \<in> set as" for m
    using assms(1) that cmp_eq [of "key_at_id skl n" "key_at_id skl n"]
    by (auto simp: ascending_def ns sorted_wrt_append)
  moreover have "n \<notin> set bs" using assms(1) by (simp add: ascending_def flat_def ns)
  moreover have "skl_map skl' ns = (skl_map skl ns)(key_at_id skl n \<mapsto> v)"
  proof -
    let ?f = "\<lambda>n. (key_at_id skl n, val_at_id skl n)"
    have "map (\<lambda>n. (key_at_id skl' n, val_at_id skl' n)) ns = map ?f as @ (key_at_id skl n, v) # map ?f bs"
      using calculation by (auto simp: ns key val)
    moreover have "key_at_id skl n \<notin> fst ` set (map ?f as)" using \<open>\<And>m. m \<in> set as \<Longrightarrow> _\<close> by force
    ultimately have "skl_map skl' ns = (map_of (map ?f as @ map ?f bs))(key_at_id skl n \<mapsto> v)"
        "skl_map skl ns = (map_of (map ?f as @ map ?f bs))(key_at_id skl n \<mapsto> val_at_id skl n)"
      unfolding skl_map_def ns by (simp_all only: map_of_mid map_append list.map not_False_eq_True)
    then show ?thesis by simp
  qed
  ultimately show ?thesis by simp
qed

lemma insert_ascending:
  assumes "ascending cmp K skl ns" and "k \<in> K" and "\<forall>n \<in> set ns. key_at_id skl n \<noteq> k" and "it = skl_next_id skl"
    and "flat skl' (filter (\<lambda>n. cmp (key_at_id skl n) k \<le> 0) ns @ it # filter (\<lambda>n. \<not> cmp (key_at_id skl n) k \<le> 0) ns)"
    and items: "skl_items skl' = (skl_items skl)(it \<mapsto> \<lparr>sk_key = k, sk_value = v, layer_check = c\<rparr>)"
    and "skl_cmp skl' = skl_cmp skl"
  shows "\<exists>ns'. ascending cmp K skl' ns' \<and> skl_map skl' ns' = (skl_map skl ns)(k \<mapsto> v)"
proof -
  let ?ts = "filter (\<lambda>n. cmp (key_at_id skl n) k \<le> 0) ns" and ?ds = "filter (\<lambda>n. \<not> cmp (key_at_id skl n) k \<le> 0) ns"
  have s: "sorted_wrt (\<lambda>m n. cmp (key_at_id skl m) (key_at_id skl n) < 0) ns" and K: "key_at_id skl ` set ns \<subseteq> K"
      and new: "\<forall>n \<in> set ns. n \<noteq> it"
    using assms(1,4) by (auto simp: ascending_def flat_def)
  have old: "key_at_id skl' n = key_at_id skl n" "val_at_id skl' n = val_at_id skl n" if "n \<in> set ns" for n
    using that new by (auto simp: key_at_id_def val_at_id_def items)
  have at: "key_at_id skl' it = k" "val_at_id skl' it = v" by (simp_all add: key_at_id_def val_at_id_def items)
  have ns: "ns = ?ts @ ?ds" by (rule ascending_split [OF s K assms(2)])
  have "sorted_wrt (\<lambda>m n. cmp (key_at_id skl' m) (key_at_id skl' n) < 0) ns"
    using s by (rule sorted_wrt_mono_rel [rotated]) (simp add: old)
  then have "sorted_wrt (\<lambda>m n. cmp (key_at_id skl' m) (key_at_id skl' n) < 0) (?ts @ ?ds)" using ns by simp
  moreover have "cmp (key_at_id skl n) k < 0" if "n \<in> set ?ts" for n
  proof -
    have "key_at_id skl n \<in> K" "key_at_id skl n \<noteq> k" "cmp (key_at_id skl n) k \<le> 0" using that assms(3) K by auto
    moreover from this(1,2) have "cmp (key_at_id skl n) k \<noteq> 0" using assms(2) val_inj by (auto simp: cmp_eq inj_on_def)
    ultimately show ?thesis by simp
  qed
  moreover have "cmp k (key_at_id skl n) < 0" if "n \<in> set ?ds" for n
    using that assms(2) K cmp_antisym by (auto simp: not_le)
  ultimately have "sorted_wrt (\<lambda>m n. cmp (key_at_id skl' m) (key_at_id skl' n) < 0) (?ts @ it # ?ds)"
    by (auto simp: sorted_wrt_append at old)
  then have "ascending cmp K skl' (?ts @ it # ?ds)"
    using assms(1,2,5,7) K by (auto simp: ascending_def at old)
  moreover have "skl_map skl' (?ts @ it # ?ds) = (skl_map skl (?ts @ ?ds))(k \<mapsto> v)"
  proof -
    let ?f = "\<lambda>n. (key_at_id skl n, val_at_id skl n)"
    have "map (\<lambda>n. (key_at_id skl' n, val_at_id skl' n)) (?ts @ it # ?ds) = map ?f ?ts @ (k, v) # map ?f ?ds"
      by (simp add: at old)
    moreover have "k \<notin> fst ` set (map ?f ?ts)" using assms(3) by auto
    ultimately show ?thesis unfolding skl_map_def by (simp only: map_of_mid map_append [symmetric] not_False_eq_True)
  qed
  ultimately show ?thesis using ns by metis
qed

text \<open>A key is inserted where the search finds it if there is no key yet or one that is not greater.\<close>

lemma skiplist_insert_map:
  assumes "ascending cmp K skl ns" and "k \<in> K" and "\<not> toss 1"
    and low: "skl_map skl ns = Map.empty \<or> (\<exists>k0 \<in> dom (skl_map skl ns). cmp k0 k \<le> 0)"
  shows "\<exists>rc skl' ns'. skiplist_insert toss skl k v = Some (Inr (rc, skl')) \<and> ascending cmp K skl' ns' \<and>
    skl_map skl' ns' = (skl_map skl ns)(k \<mapsto> v)"
proof -
  let ?ts = "filter (\<lambda>n. cmp (key_at_id skl n) k \<le> 0) ns" and ?ds = "filter (\<lambda>n. \<not> cmp (key_at_id skl n) k \<le> 0) ns"
  obtain path where si: "skiplist_search_internal skl k = Some (Inr (last_of None ?ts, path))"
    using search_ascending(1) [OF assms(1,2)] by blast
  note ei = search_ascending(2) [OF assms(1,2)]
  have f: "flat skl ns" and K: "key_at_id skl ` set ns \<subseteq> K" and s: "sorted_wrt (\<lambda>m n. cmp (key_at_id skl m) (key_at_id skl n) < 0) ns"
    using assms(1) by (auto simp: ascending_def)
  show ?thesis
  proof (cases "find (\<lambda>n. key_at_id skl n = k) ns")
    case (Some n)
    then have n: "n \<in> set ns" "key_at_id skl n = k" by (auto simp: find_Some_iff)
    then obtain x where x: "skl_items skl n = Some x" using f by (auto simp: flat_def)
    let ?fr = "if skl_free_cb skl then skl_freed skl @ [sk_value x] else skl_freed skl"
    have "skiplist_insert toss skl k v =
        Some (Inr (1, skl\<lparr>skl_freed := ?fr, skl_items := (skl_items skl)(n \<mapsto> x\<lparr>sk_value := v\<rparr>)\<rparr>))"
      unfolding skiplist_insert_def by (simp add: si ei Some x)
    with update_ascending [OF assms(1) n(1) x refl] n(2) show ?thesis by blast
  next
    case None
    then have no: "\<forall>n \<in> set ns. key_at_id skl n \<noteq> k" by (auto simp: find_None_iff)
    let ?it = "skl_next_id skl"
    let ?s1 = "case last_of None ?ts of Some x \<Rightarrow> tailq_insert_after 0 (fst x, 0) (?it, 0) (skl\<lparr>skl_next_id := Suc ?it\<rparr>)
       | None \<Rightarrow> tailq_insert_tail 0 (?it, 0) (skl\<lparr>skl_next_id := Suc ?it\<rparr>)"
    let ?x = "\<lparr>sk_key = k, sk_value = v, layer_check = (replicate (num_layers skl) False)[0 := True]\<rparr>"
    let ?s2 = "?s1\<lparr>skl_items := (skl_items ?s1)(?it \<mapsto> ?x), skl_cnt := skl_cnt ?s1 + 1\<rparr>"
    have split: "ns = ?ts @ ?ds" by (rule ascending_split [OF s K assms(2)])
    have flat: "flat ?s2 (?ts @ ?it # ?ds)"
    proof (cases "?ts = []")
      case True
      have "skl_map skl ns = Map.empty"
        using low True by (auto simp: skl_map_def dom_map_of_conv_image_fst filter_empty_conv)
      then have "ns = []" by (simp add: skl_map_def)
      then show ?thesis
        using f insert_tail_flat [of skl, OF _ refl refl refl] by (simp add: last_of_def)
    next
      case False
      then show ?thesis
        using f split insert_after_flat [of skl ?ts ?ds, OF _ False refl refl refl] by (simp add: last_of_def)
    qed
    have frame: "skl_items ?s2 = (skl_items skl)(?it \<mapsto> ?x)" "skl_cmp ?s2 = skl_cmp skl"
      by (auto simp: last_of_def tailq_insert_after_def tailq_insert_tail_def set_link_def Let_def split: option.splits link.splits)
    have "skiplist_insert toss skl k v = Some (Inr (0, ?s2))"
      unfolding skiplist_insert_def
      by (simp add: si ei None Let_def enter_first_toss [of toss, OF assms(3), unfolded One_nat_def])
    with insert_ascending [OF assms(1,2) no refl flat frame] show ?thesis by blast
  qed
qed

end

interpretation int_skl: exact_key_order libhl_cmp_keys_int int_key int_keys
  by unfold_locales (simp add: inj_on_def int_key_inj)

section \<open>The index as a map\<close>

text \<open>Inserting several pairs into the number index.\<close>

fun insert_all :: "(nat \<Rightarrow> bool) \<Rightarrow> 'v skiplist option \<Rightarrow> (byte list \<times> 'v option) list \<Rightarrow> (c_error + 'v skiplist option) option" where
  "insert_all toss idx [] = Some (Inr idx)"
| "insert_all toss idx ((k, v) # kvs) =
     (case insert_number_to_skiplist toss idx k v of
        None \<Rightarrow> None
      | Some (Inl e) \<Rightarrow> Some (Inl e)
      | Some (Inr (rc, idx')) \<Rightarrow> insert_all toss idx' kvs)"

lemma insert_all_map:
  assumes "ascending libhl_cmp_keys_int int_keys skl ns" and "\<not> toss 1" and "fst ` set kvs \<subseteq> int_keys"
    and "\<forall>k \<in> fst ` set kvs. \<exists>k0 \<in> dom (skl_map skl ns). libhl_cmp_keys_int k0 k \<le> 0"
  shows "\<exists>skl' ns'. insert_all toss (Some skl) kvs = Some (Inr (Some skl')) \<and>
    ascending libhl_cmp_keys_int int_keys skl' ns' \<and> skl_map skl' ns' = skl_map skl ns ++ map_of (rev kvs)"
  using assms(1,3,4)
proof (induction kvs arbitrary: skl ns)
  case (Cons kv kvs)
  obtain k v where kv: "kv = (k, v)" by force
  obtain rc skl1 ns1 where i: "skiplist_insert toss skl k v = Some (Inr (rc, skl1))"
      and a: "ascending libhl_cmp_keys_int int_keys skl1 ns1" and m: "skl_map skl1 ns1 = (skl_map skl ns)(k \<mapsto> v)"
    using int_skl.skiplist_insert_map [of skl ns k toss v] Cons.prems assms(2) by (auto simp: kv)
  have low: "\<forall>k' \<in> fst ` set kvs. \<exists>k0 \<in> dom (skl_map skl1 ns1). libhl_cmp_keys_int k0 k' \<le> 0"
    using Cons.prems(3) unfolding m by fastforce
  obtain skl' ns' where "insert_all toss (Some skl1) kvs = Some (Inr (Some skl'))"
      and a': "ascending libhl_cmp_keys_int int_keys skl' ns'" and "skl_map skl' ns' = (skl_map skl ns)(k \<mapsto> v) ++ map_of (rev kvs)"
    using Cons.IH [OF a _ low] Cons.prems(2) unfolding m by (auto simp del: fun_upd_apply)
  then show ?case
    by (intro exI [of _ skl'] exI [of _ ns'])
      (simp add: kv insert_number_to_skiplist_def i map_add_def fun_eq_iff split: option.split)
qed auto

lemma skiplist_index_map:
  assumes "create_skiplist_index (Some libhl_cmp_keys_int) = (0, idx)" and "\<not> toss 1"
    and "fst ` set ((k0, v0) # kvs) \<subseteq> int_keys" and "\<forall>k \<in> fst ` set kvs. libhl_cmp_keys_int k0 k \<le> 0"
  shows "\<exists>idx'. insert_all toss idx ((k0, v0) # kvs) = Some (Inr idx') \<and>
    (\<forall>k \<in> int_keys. search_number_from_skiplist idx' k out =
       Some (Inr (0, case map_of (rev ((k0, v0) # kvs)) k of None \<Rightarrow> None | Some v \<Rightarrow> v)))"
proof -
  obtain skl where idx: "idx = Some skl" and skl: "skl = skiplist_create 5 (Some libhl_cmp_keys_int) False"
    using assms(1) by (simp add: create_skiplist_index_def)
  have "ascending libhl_cmp_keys_int int_keys skl []" and e: "skl_map skl [] = Map.empty"
    by (auto simp: ascending_def flat_def skiplist_create_def skl_map_def skl)
  then obtain rc skl1 ns1 where i: "skiplist_insert toss skl k0 v0 = Some (Inr (rc, skl1))"
      and a: "ascending libhl_cmp_keys_int int_keys skl1 ns1" and m: "skl_map skl1 ns1 = [k0 \<mapsto> v0]"
    using int_skl.skiplist_insert_map [of skl "[]" k0 toss v0] assms(2,3) by auto
  obtain skl' ns' where "insert_all toss (Some skl1) kvs = Some (Inr (Some skl'))"
      and a': "ascending libhl_cmp_keys_int int_keys skl' ns'" and m': "skl_map skl' ns' = [k0 \<mapsto> v0] ++ map_of (rev kvs)"
    using insert_all_map [of skl1 ns1 toss kvs] a assms(2-4) m by auto
  then have "insert_all toss idx ((k0, v0) # kvs) = Some (Inr (Some skl'))"
    by (simp add: idx insert_number_to_skiplist_def i)
  moreover have "search_number_from_skiplist (Some skl') k out =
      Some (Inr (0, case map_of (rev ((k0, v0) # kvs)) k of None \<Rightarrow> None | Some v \<Rightarrow> v))" if "k \<in> int_keys" for k
    using int_skl.skiplist_search_map [OF a' that] by (simp add: search_number_from_skiplist_def m')
  ultimately show ?thesis by blast
qed

text \<open>
  On four-byte integer keys the number index is a map from keys to data as long as the first key inserted is the smallest
  and no item enters a higher layer: after any further insertions a search returns what was last inserted for its key, and
  NULL for a key that was not inserted.
\<close>

theorem skiplist_refines_map:
  assumes "create_skiplist_index (Some libhl_cmp_keys_int) = (0, idx)" and "\<not> toss 1"
    and "fst ` set ((k0, v0) # kvs) \<subseteq> int_keys" and "\<forall>k \<in> fst ` set kvs. libhl_cmp_keys_int k0 k \<le> 0"
  shows "\<exists>idx'. insert_all toss idx ((k0, v0) # kvs) = Some (Inr idx') \<and>
    (\<forall>k \<in> int_keys. search_number_from_skiplist idx' k out =
       Some (Inr (0, case map_of (rev ((k0, v0) # kvs)) k of None \<Rightarrow> None | Some v \<Rightarrow> v)))"
  using assms by (rule skiplist_index_map)

theorem skiplist_refines_map_witness:
  "\<exists>idx'. insert_all (\<lambda>_. False) (Some (skiplist_create 5 (Some libhl_cmp_keys_int) False))
      ((bytes4 1, Some True) # [(bytes4 7, Some False), (bytes4 3, None)]) = Some (Inr idx') \<and>
    (\<forall>k \<in> int_keys. search_number_from_skiplist idx' k None =
       Some (Inr (0, case map_of (rev ((bytes4 1, Some True) # [(bytes4 7, Some False), (bytes4 3, None)])) k of
         None \<Rightarrow> None | Some v \<Rightarrow> v)))"
  by (rule skiplist_refines_map) (simp_all add: create_skiplist_index_def int_keys_def libhl_cmp_keys_int_def)

end
