(* ===== verification/Number_Index.thy ===== *)
theory Number_Index
  imports Rbtree Skiplist
begin

unbundle bit_operations_syntax

text \<open>
  The number indices of src/src/index/spi: the comparators of comparators.h for every type a key can have, the index over the
  red-black tree (rbtree_number_index.c), the one over \<^verbatim>\<open>tsearch\<close> (tsearch_number_index.c) and the functions of spi.c that choose
  between these, the sparse array and the skip list by the environment variable \<^verbatim>\<open>MIQS_NUM_IDX_IMPL\<close>, which is the argument \<open>env\<close>.

  The places for results (\<^verbatim>\<open>idx_ptr\<close>, \<^verbatim>\<open>out\<close>) are those of a caller and not NULL; what \<^verbatim>\<open>out[0]\<close> held before is an argument.
  \<^verbatim>\<open>memcmp\<close> returns the difference of the first bytes that differ, as that of glibc does. The trees of \<^verbatim>\<open>tsearch\<close> and its search
  are parameters.
\<close>

section \<open>The comparators\<close>

text \<open>The macro for a type of \<open>n\<close> bytes: keys that are too short or of different sizes are compared by their sizes.\<close>

definition cmp_keys_type :: "nat \<Rightarrow> (byte list \<Rightarrow> byte list \<Rightarrow> int) \<Rightarrow> byte list \<Rightarrow> byte list \<Rightarrow> int" where
  "cmp_keys_type n diff k1 k2 =
     (if length k1 < n \<or> length k2 < n \<or> length k1 \<noteq> length k2
      then sint (of_int (int (length k1) - int (length k2)) :: c_int)
      else diff (take n k1) (take n k2))"

definition u16_of_bytes :: "byte list \<Rightarrow> 16 word" where
  "u16_of_bytes bs = of_nat (le_val (take 2 bs))"

text \<open>A difference of 64 bits is converted to \<^verbatim>\<open>int\<close> by dropping its upper half.\<close>

definition libhl_cmp_keys_long :: "byte list \<Rightarrow> byte list \<Rightarrow> int" where
  "libhl_cmp_keys_long = cmp_keys_type 8 (\<lambda>a b. sint (ucast (u64_of_bytes a - u64_of_bytes b) :: c_int))"

definition libhl_cmp_keys_int16 :: "byte list \<Rightarrow> byte list \<Rightarrow> int" where
  "libhl_cmp_keys_int16 = cmp_keys_type 2 (\<lambda>a b. sint (u16_of_bytes a) - sint (u16_of_bytes b))"

definition libhl_cmp_keys_int32 :: "byte list \<Rightarrow> byte list \<Rightarrow> int" where
  "libhl_cmp_keys_int32 = cmp_keys_type 4 (\<lambda>a b. sint (int_of_bytes a - int_of_bytes b))"

definition libhl_cmp_keys_int64 :: "byte list \<Rightarrow> byte list \<Rightarrow> int" where
  "libhl_cmp_keys_int64 = cmp_keys_type 8 (\<lambda>a b. sint (ucast (u64_of_bytes a - u64_of_bytes b) :: c_int))"

definition libhl_cmp_keys_uint16 :: "byte list \<Rightarrow> byte list \<Rightarrow> int" where
  "libhl_cmp_keys_uint16 = cmp_keys_type 2 (\<lambda>a b. uint (u16_of_bytes a) - uint (u16_of_bytes b))"

definition libhl_cmp_keys_uint32 :: "byte list \<Rightarrow> byte list \<Rightarrow> int" where
  "libhl_cmp_keys_uint32 = cmp_keys_type 4 (\<lambda>a b. sint (int_of_bytes a - int_of_bytes b))"

definition libhl_cmp_keys_uint64 :: "byte list \<Rightarrow> byte list \<Rightarrow> int" where
  "libhl_cmp_keys_uint64 = cmp_keys_type 8 (\<lambda>a b. sint (ucast (u64_of_bytes a - u64_of_bytes b) :: c_int))"

text \<open>The difference of two floats, rounded to 24 significant bits; in the units of \<open>dbl\<close> the largest float is below \<open>2 ^ 1202\<close>.\<close>

definition round24 :: "int \<Rightarrow> int" where
  "round24 m =
     (let s = bitlen m - 24; u = 2 ^ s; q = m div u; r = m mod u
      in if 2 * r < u \<or> (2 * r = u \<and> even q) then q * u else (q + 1) * u)"

definition flt_sub :: "dbl \<Rightarrow> dbl \<Rightarrow> dbl" where
  "flt_sub a b =
     (case (a, b) of
        (Fin x, Fin y) \<Rightarrow> let m = round24 \<bar>x - y\<bar> in if 2 ^ 1202 \<le> m then Inf (x < y) else Fin (sgn (x - y) * m)
      | _ \<Rightarrow> dbl_sub a b)"

definition libhl_cmp_keys_float :: "byte list \<Rightarrow> byte list \<Rightarrow> int" where
  "libhl_cmp_keys_float = cmp_keys_type 4 (\<lambda>a b. dbl_to_int (flt_sub (flt_val (int_of_bytes a)) (flt_val (int_of_bytes b))))"

definition choose_cmp_cb :: "data_type \<Rightarrow> (byte list \<Rightarrow> byte list \<Rightarrow> int) option" where
  "choose_cmp_cb dt =
     (case dt of
        DT_INT \<Rightarrow> Some libhl_cmp_keys_int
      | DT_LONG \<Rightarrow> Some libhl_cmp_keys_long
      | DT_FLOAT \<Rightarrow> Some libhl_cmp_keys_float
      | DT_DOUBLE \<Rightarrow> Some libhl_cmp_keys_double
      | DT_INT16 \<Rightarrow> Some libhl_cmp_keys_int16
      | DT_INT32 \<Rightarrow> Some libhl_cmp_keys_int32
      | DT_INT64 \<Rightarrow> Some libhl_cmp_keys_int64
      | DT_UINT16 \<Rightarrow> Some libhl_cmp_keys_uint16
      | DT_UINT32 \<Rightarrow> Some libhl_cmp_keys_uint32
      | DT_UINT64 \<Rightarrow> Some libhl_cmp_keys_uint64
      | _ \<Rightarrow> None)"

section \<open>Over the red-black tree\<close>

fun memcmp :: "nat \<Rightarrow> byte list \<Rightarrow> byte list \<Rightarrow> int" where
  "memcmp (Suc n) (a # as) (b # bs) = (if a = b then memcmp n as bs else uint a - uint b)"
| "memcmp n as bs = 0"

text \<open>Without a comparator the tree compares bytes; the difference of the sizes is computed modulo \<open>2 ^ 64\<close> and the result converted.\<close>

definition rbt_compare_keys :: "(byte list \<Rightarrow> byte list \<Rightarrow> int) option \<Rightarrow> byte list \<Rightarrow> byte list \<Rightarrow> int" where
  "rbt_compare_keys cb k1 k2 =
     (case cb of
        Some cmp \<Rightarrow> cmp k1 k2
      | None \<Rightarrow>
          if length k1 \<noteq> length k2 then
            if length k2 > length k1
            then sint (of_int (memcmp (length k1) k1 k2 - (int (length k2) - int (length k1))) :: c_int)
            else sint (of_int (memcmp (length k2) k1 k2 + (int (length k1) - int (length k2))) :: c_int)
          else memcmp (length k1) k1 k2)"

text \<open>The tree with the comparator it was created with, which a range walk calls directly.\<close>

record 'd rbt_index =
  ri_tree :: "(byte list, 'd option) rbt"
  ri_cb :: "(byte list \<Rightarrow> byte list \<Rightarrow> int) option"

definition create_rbtree_number_index :: "data_type \<Rightarrow> int \<times> 'd rbt_index option" where
  "create_rbtree_number_index dt =
     (0, Some \<lparr>ri_tree = rbt_create (rbt_compare_keys (choose_cmp_cb dt)), ri_cb = choose_cmp_cb dt\<rparr>)"

definition insert_number_to_rbtree ::
  "'d rbt_index option \<Rightarrow> byte list \<Rightarrow> 'd option \<Rightarrow> (int \<times> 'd rbt_index option) option" where
  "insert_number_to_rbtree idx key data =
     (case idx of
        None \<Rightarrow> Some (- 1, None)
      | Some i \<Rightarrow> map_option (\<lambda>(rc, t). (rc, Some (i\<lparr>ri_tree := t\<rparr>))) (rbt_add (ri_tree i) key data))"

definition search_number_from_rbtree :: "'d rbt_index option \<Rightarrow> byte list \<Rightarrow> 'd option \<Rightarrow> int \<times> 'd option" where
  "search_number_from_rbtree idx key out =
     (case idx of
        None \<Rightarrow> (- 1, out)
      | Some i \<Rightarrow> (case rbt_find (ri_tree i) key of (rc, Some v) \<Rightarrow> (rc, v) | (rc, None) \<Rightarrow> (rc, out)))"

definition rbt_walk_cb :: "(byte list, 'd option, 'd linked_list) rbt_walk_callback" where
  "rbt_walk_cb key v l = (RBT_WALK_CONTINUE, snd (list_push_value v l))"

definition search_numeric_range_from_rbtree ::
  "'d rbt_index option \<Rightarrow> byte list \<Rightarrow> byte list \<Rightarrow> c_error + 'd linked_list option" where
  "search_numeric_range_from_rbtree idx begin_key end_key =
     (case idx of
        None \<Rightarrow> Inr None
      | Some i \<Rightarrow>
          if rbt_root (ri_tree i) \<noteq> Null \<and> ri_cb i = None then Inl Null_Deref
          else Inr (Some (snd (rbt_range_walk (ri_tree i) begin_key end_key rbt_walk_cb list_create))))"

section \<open>Over tsearch\<close>

text \<open>\<^verbatim>\<open>sizeof(a)\<close> is the size of a pointer: eight bytes are compared whatever the keys are.\<close>

definition tsearch_cmp_cb :: "byte list \<Rightarrow> byte list \<Rightarrow> c_error + int" where
  "tsearch_cmp_cb a b = (if length a < 8 \<or> length b < 8 then Inl Out_Of_Bounds else Inr (memcmp 8 a b))"

text \<open>
  \<open>tsearch\<close> gives, for a comparator, a key and a tree, whether a node was found or made and the tree behind the root pointer after the
  call; the root pointer itself is a parameter of the C function, so a new root is lost. \<open>tfind\<close> gives the node that was found.
  The creation does not set the root of the caller.
\<close>

definition create_tsearch_index :: "'t option \<Rightarrow> int \<times> 't option" where
  "create_tsearch_index root = (0, root)"

definition insert_number_to_tsearch_index ::
  "((byte list \<Rightarrow> byte list \<Rightarrow> c_error + int) \<Rightarrow> byte list \<Rightarrow> 't \<Rightarrow> c_error + (bool \<times> 't)) \<Rightarrow> 't option \<Rightarrow> byte list \<Rightarrow> 'd option \<Rightarrow>
   c_error + (int \<times> 't option)" where
  "insert_number_to_tsearch_index tsearch idx key data =
     (case idx of
        None \<Rightarrow> Inr (- 1, None)
      | Some t \<Rightarrow> ebind (tsearch tsearch_cmp_cb key t) (\<lambda>(ok, t'). Inr (if ok then 1 else 0, Some t')))"

definition search_number_from_tsearch_index ::
  "((byte list \<Rightarrow> byte list \<Rightarrow> c_error + int) \<Rightarrow> byte list \<Rightarrow> 't \<Rightarrow> c_error + 'd option) \<Rightarrow> 't option \<Rightarrow> byte list \<Rightarrow> 'd option \<Rightarrow>
   c_error + (int \<times> 'd option)" where
  "search_number_from_tsearch_index tfind idx key out =
     (case idx of
        None \<Rightarrow> Inr (- 1, out)
      | Some t \<Rightarrow> ebind (tfind tsearch_cmp_cb key t) (\<lambda>r. Inr (case r of None \<Rightarrow> (0, out) | Some n \<Rightarrow> (1, Some n))))"

text \<open>The walk calls a function that does nothing.\<close>

definition search_numeric_range_from_tsearch_index :: "'t option \<Rightarrow> byte list \<Rightarrow> byte list \<Rightarrow> 'd linked_list option" where
  "search_numeric_range_from_tsearch_index idx begin_key end_key = None"

section \<open>The choice\<close>

text \<open>What the root points to. A function that takes it for something else than it is reads memory that is not there.\<close>

datatype ('d, 't) number_index = Spa "'d sparse_array" | Sbst "'d rbt_index" | Skl "'d skiplist" | Tst 't

datatype 'd found = Found_List "'d linked_list" | Found 'd

record ('d, 't) tsearch_lib =
  lib_tsearch :: "(byte list \<Rightarrow> byte list \<Rightarrow> c_error + int) \<Rightarrow> byte list \<Rightarrow> 't \<Rightarrow> c_error + (bool \<times> 't)"
  lib_tfind :: "(byte list \<Rightarrow> byte list \<Rightarrow> c_error + int) \<Rightarrow> byte list \<Rightarrow> 't \<Rightarrow> c_error + 'd option"

datatype num_impl = SPARSEARRAY | SBST | SKIPLIST | TSEARCH

definition num_impl_of :: "string option \<Rightarrow> num_impl" where
  "num_impl_of env =
     (case env of
        Some s \<Rightarrow>
          if s = ''SPARSEARRAY'' then SPARSEARRAY else if s = ''SBST'' then SBST else if s = ''SKIPLIST'' then SKIPLIST else TSEARCH
      | None \<Rightarrow> TSEARCH)"

definition view :: "('i \<Rightarrow> 'x option) \<Rightarrow> 'i option \<Rightarrow> ('x option \<Rightarrow> (c_error + 'b) option) \<Rightarrow> (c_error + 'b) option" where
  "view sel idx f =
     (case idx of
        None \<Rightarrow> f None
      | Some i \<Rightarrow> (case sel i of None \<Rightarrow> Some (Inl Bad_Pointer) | Some x \<Rightarrow> f (Some x)))"

definition create_number_index :: "string option \<Rightarrow> ('d, 't) number_index option \<Rightarrow> data_type \<Rightarrow> int \<times> ('d, 't) number_index option" where
  "create_number_index env root dt =
     (case num_impl_of env of
        SPARSEARRAY \<Rightarrow> map_prod id (map_option Spa) (create_sparse_array_index dt)
      | SBST \<Rightarrow> map_prod id (map_option Sbst) (create_rbtree_number_index dt)
      | SKIPLIST \<Rightarrow> map_prod id (map_option Skl) (create_skiplist_index (choose_cmp_cb dt))
      | TSEARCH \<Rightarrow> create_tsearch_index root)"

definition insert_number ::
  "('d, 't) tsearch_lib \<Rightarrow> (nat \<Rightarrow> bool) \<Rightarrow> (nat \<Rightarrow> bool) \<Rightarrow> string option \<Rightarrow> ('d, 't) number_index option \<Rightarrow> byte list \<Rightarrow> 'd option \<Rightarrow>
   (c_error + (int \<times> ('d, 't) number_index option)) option" where
  "insert_number lib avail toss env idx key data =
     (case num_impl_of env of
        SPARSEARRAY \<Rightarrow> view (\<lambda>i. case i of Spa x \<Rightarrow> Some x | _ \<Rightarrow> None) idx (\<lambda>x.
          Some (ebind (insert_number_to_sparse_array avail x key data) (\<lambda>(rc, x'). Inr (rc, map_option Spa x'))))
      | SBST \<Rightarrow> view (\<lambda>i. case i of Sbst x \<Rightarrow> Some x | _ \<Rightarrow> None) idx (\<lambda>x.
          map_option (\<lambda>(rc, x'). Inr (rc, map_option Sbst x')) (insert_number_to_rbtree x key data))
      | SKIPLIST \<Rightarrow> view (\<lambda>i. case i of Skl x \<Rightarrow> Some x | _ \<Rightarrow> None) idx (\<lambda>x.
          map_option (\<lambda>r. ebind r (\<lambda>(rc, x'). Inr (rc, map_option Skl x'))) (insert_number_to_skiplist toss x key data))
      | TSEARCH \<Rightarrow> view (\<lambda>i. case i of Tst x \<Rightarrow> Some x | _ \<Rightarrow> None) idx (\<lambda>x.
          Some (ebind (insert_number_to_tsearch_index (lib_tsearch lib) x key data) (\<lambda>(rc, x'). Inr (rc, map_option Tst x')))))"

text \<open>
  The sparse array reports the list of a position, the others the data itself. \<^verbatim>\<open>out[0]\<close> stays as it was when the search returns -1, and
  for \<^verbatim>\<open>tsearch\<close> unless it returns 1.
\<close>

definition search_number ::
  "('d, 't) tsearch_lib \<Rightarrow> string option \<Rightarrow> ('d, 't) number_index option \<Rightarrow> byte list \<Rightarrow> 'd found option \<Rightarrow>
   (c_error + (int \<times> 'd found option)) option" where
  "search_number lib env idx key out =
     (let report = (\<lambda>f (rc, r). Inr (rc, if rc = - 1 then out else map_option f r))
      in case num_impl_of env of
        SPARSEARRAY \<Rightarrow> view (\<lambda>i. case i of Spa x \<Rightarrow> Some x | _ \<Rightarrow> None) idx (\<lambda>x.
          Some (ebind (search_number_from_sparse_array x key None) (\<lambda>(rc, r). Inr (rc, if rc = - 1 then out else map_option Found_List r))))
      | SBST \<Rightarrow> view (\<lambda>i. case i of Sbst x \<Rightarrow> Some x | _ \<Rightarrow> None) idx (\<lambda>x.
          Some (report Found (search_number_from_rbtree x key None)))
      | SKIPLIST \<Rightarrow> view (\<lambda>i. case i of Skl x \<Rightarrow> Some x | _ \<Rightarrow> None) idx (\<lambda>x.
          map_option (\<lambda>r. ebind r (report Found)) (search_number_from_skiplist x key None))
      | TSEARCH \<Rightarrow> view (\<lambda>i. case i of Tst x \<Rightarrow> Some x | _ \<Rightarrow> None) idx (\<lambda>x.
          Some (ebind (search_number_from_tsearch_index (lib_tfind lib) x key None) (\<lambda>(rc, r).
            Inr (rc, if rc = 1 then map_option Found r else out)))))"

datatype 'd range_result = Lists_Found "'d linked_list linked_list option" | Data_Found "'d linked_list option"

definition search_numeric_range ::
  "string option \<Rightarrow> ('d, 't) number_index option \<Rightarrow> byte list \<Rightarrow> byte list \<Rightarrow> (c_error + 'd range_result) option" where
  "search_numeric_range env idx begin_key end_key =
     (case num_impl_of env of
        SPARSEARRAY \<Rightarrow> view (\<lambda>i. case i of Spa x \<Rightarrow> Some x | _ \<Rightarrow> None) idx (\<lambda>x.
          Some (ebind (search_numeric_range_from_sparse_array x begin_key end_key) (\<lambda>l. Inr (Lists_Found l))))
      | SBST \<Rightarrow> view (\<lambda>i. case i of Sbst x \<Rightarrow> Some x | _ \<Rightarrow> None) idx (\<lambda>x.
          Some (ebind (search_numeric_range_from_rbtree x begin_key end_key) (\<lambda>l. Inr (Data_Found l))))
      | SKIPLIST \<Rightarrow> view (\<lambda>i. case i of Skl x \<Rightarrow> Some x | _ \<Rightarrow> None) idx (\<lambda>x.
          map_option (\<lambda>r. ebind r (\<lambda>l. Inr (Data_Found l))) (search_numeric_range_from_skiplist x begin_key end_key))
      | TSEARCH \<Rightarrow> view (\<lambda>i. case i of Tst x \<Rightarrow> Some x | _ \<Rightarrow> None) idx (\<lambda>x.
          Some (Inr (Data_Found (search_numeric_range_from_tsearch_index x begin_key end_key)))))"

text \<open>These do nothing yet.\<close>

definition delete_number :: "('d, 't) number_index option \<Rightarrow> byte list \<Rightarrow> int \<times> ('d, 't) number_index option" where
  "delete_number idx key = (- 1, idx)"

definition update_number :: "('d, 't) number_index option \<Rightarrow> byte list \<Rightarrow> 'd option \<Rightarrow> int \<times> ('d, 't) number_index option" where
  "update_number idx key newdata = (- 1, idx)"

definition destroy_number_index :: "('d, 't) number_index option \<Rightarrow> int \<times> ('d, 't) number_index option" where
  "destroy_number_index idx = (- 1, idx)"

section \<open>Long keys\<close>

definition long_key :: "byte list \<Rightarrow> int" where
  "long_key k = sint (u64_of_bytes k)"

definition long_keys :: "byte list set" where
  "long_keys = {k. length k = 8 \<and> - (2 ^ 30) \<le> long_key k \<and> long_key k < 2 ^ 30}"

lemma low_half_diff:
  fixes w v :: int
  shows "signed_take_bit 31 (take_bit 64 (w - v)) = signed_take_bit 31 (signed_take_bit 63 w - signed_take_bit 63 v)"
proof -
  have "take_bit 32 (signed_take_bit 63 w - signed_take_bit 63 v) =
      take_bit 32 (take_bit 32 (signed_take_bit 63 w) - take_bit 32 (signed_take_bit 63 v))"
    by (simp only: take_bit_diff)
  also have "\<dots> = take_bit 32 (take_bit 32 w - take_bit 32 v)"
    by (simp add: take_bit_signed_take_bit)
  also have "\<dots> = take_bit 32 (take_bit 64 (w - v))"
    by (simp add: take_bit_diff)
  finally show ?thesis by (simp add: signed_take_bit_eq_iff_take_bit_eq)
qed

lemma cmp_keys_long_diff:
  assumes "length x = 8" and "length y = 8"
  shows "libhl_cmp_keys_long x y = signed_take_bit 31 (long_key x - long_key y)"
proof -
  have "sint (ucast (w - v) :: c_int) = signed_take_bit 31 (sint w - sint v)" for w v :: "64 word"
    using low_half_diff by transfer simp
  then show ?thesis using assms by (simp add: libhl_cmp_keys_long_def cmp_keys_type_def long_key_def)
qed

lemma cmp_keys_long_eq: "x \<in> long_keys \<Longrightarrow> y \<in> long_keys \<Longrightarrow> libhl_cmp_keys_long x y = long_key x - long_key y"
  by (auto simp: long_keys_def cmp_keys_long_diff signed_take_bit_int_eq_self)

lemma long_key_inj: "x \<in> long_keys \<Longrightarrow> y \<in> long_keys \<Longrightarrow> long_key x = long_key y \<longleftrightarrow> x = y"
  by (metis (mono_tags, lifting) bytes8_u64_of_bytes long_key_def long_keys_def mem_Collect_eq signed_word_eqI)

interpretation long_order: exact_key_order libhl_cmp_keys_long long_key long_keys
  by unfold_locales (auto simp: cmp_keys_long_eq inj_on_def long_key_inj)

section \<open>The tree as a map\<close>

text \<open>Inserting several numbers, as a client does it.\<close>

fun put_numbers ::
  "('d, 't) tsearch_lib \<Rightarrow> (nat \<Rightarrow> bool) \<Rightarrow> (nat \<Rightarrow> bool) \<Rightarrow> string option \<Rightarrow> ('d, 't) number_index option \<Rightarrow> (byte list \<times> 'd option) list \<Rightarrow>
   (c_error + ('d, 't) number_index option) option" where
  "put_numbers lib avail toss env idx [] = Some (Inr idx)"
| "put_numbers lib avail toss env idx ((k, v) # kvs) =
     (case insert_number lib avail toss env idx k v of
        None \<Rightarrow> None
      | Some (Inl e) \<Rightarrow> Some (Inl e)
      | Some (Inr (rc, idx')) \<Rightarrow> put_numbers lib avail toss env idx' kvs)"

lemma impl_simps [simp]:
  "num_impl_of (Some ''SBST'') = SBST" "num_impl_of (Some ''SKIPLIST'') = SKIPLIST" "num_impl_of (Some ''SPARSEARRAY'') = SPARSEARRAY"
  "num_impl_of None = TSEARCH"
  by (simp_all add: num_impl_of_def)

context exact_key_order
begin

lemma rbt_add_finds:
  assumes "rbt_ok t" and "k \<in> K"
  shows "\<exists>rc t'. rbt_add t k v = Some (rc, t') \<and> rbt_ok t' \<and>
    (\<forall>k' \<in> K. rbt_find t' k' = (if k' = k then (0, Some v) else rbt_find t k'))"
proof -
  obtain rc t' where t': "rbt_add t k v = Some (rc, t')" "rbt_ok t'" "inorder (rbt_root t') = upd k v (inorder (rbt_root t))"
    using rbt_add_total [OF assms] by blast
  have "rbt_find t' k' = (if k' = k then (0, Some v) else rbt_find t k')" if "k' \<in> K" for k'
  proof -
    have "val k' = val k \<longleftrightarrow> k' = k" using val_inj that assms(2) by (auto simp: inj_on_def)
    then show ?thesis
      using rbt_find_lookup [OF t'(2) that] rbt_find_lookup [OF assms(1) that] by (simp add: t'(3) lookup_upd)
  qed
  with t' show ?thesis by blast
qed

lemma sbst_puts:
  assumes "rbt_ok (ri_tree i)" and "fst ` set kvs \<subseteq> K"
  shows "\<exists>i'. put_numbers lib avail toss (Some ''SBST'') (Some (Sbst i)) kvs = Some (Inr (Some (Sbst i'))) \<and>
    (\<forall>k \<in> K. rbt_find (ri_tree i') k = (case map_of (rev kvs) k of None \<Rightarrow> rbt_find (ri_tree i) k | Some v \<Rightarrow> (0, Some v)))"
  using assms
proof (induction kvs arbitrary: i)
  case (Cons kv kvs)
  obtain k v where kv: "kv = (k, v)" by force
  obtain rc t' where t': "rbt_add (ri_tree i) k v = Some (rc, t')" "rbt_ok t'"
      "\<forall>k' \<in> K. rbt_find t' k' = (if k' = k then (0, Some v) else rbt_find (ri_tree i) k')"
    using rbt_add_finds [of "ri_tree i" k v] Cons.prems by (auto simp: kv)
  obtain i1 where i1: "i\<lparr>ri_tree := t'\<rparr> = i1" "ri_tree i1 = t'" by force
  obtain i' where "put_numbers lib avail toss (Some ''SBST'') (Some (Sbst i1)) kvs = Some (Inr (Some (Sbst i')))"
      "\<forall>k \<in> K. rbt_find (ri_tree i') k = (case map_of (rev kvs) k of None \<Rightarrow> rbt_find t' k | Some v \<Rightarrow> (0, Some v))"
    using Cons.IH [of i1] t'(2) Cons.prems(2) unfolding i1(2) by auto
  then show ?case
    using t'(1,3) by (auto simp: kv i1(1) insert_number_def view_def insert_number_to_rbtree_def map_add_def split: option.splits)
qed auto

end

lemma sbst_index_map:
  assumes "(dt, K) \<in> {(DT_INT, int_keys), (DT_LONG, long_keys)}" and "fst ` set kvs \<subseteq> K"
    and "create_number_index (Some ''SBST'') root dt = (0, idx)"
  shows "\<exists>idx'. put_numbers lib avail toss (Some ''SBST'') idx kvs = Some (Inr idx') \<and>
    (\<forall>k \<in> K. search_number lib (Some ''SBST'') idx' k out =
       Some (Inr (case map_of (rev kvs) k of None \<Rightarrow> (- 1, out) | Some v \<Rightarrow> (0, map_option Found v))))"
proof -
  obtain cmp where cmp: "choose_cmp_cb dt = Some cmp" using assms(1) by (auto simp: choose_cmp_cb_def)
  let ?i = "\<lparr>ri_tree = rbt_create cmp, ri_cb = Some cmp\<rparr>"
  have "rbt_compare_keys (Some cmp) = cmp" by (simp add: rbt_compare_keys_def fun_eq_iff)
  then have idx: "idx = Some (Sbst ?i)"
    using assms(3) cmp by (simp add: create_number_index_def create_rbtree_number_index_def)
  have new: "rbt_find (rbt_create cmp) k = (- 1, None)" for k by (simp add: rbt_find_def rbt_create_def)
  have "\<exists>i'. put_numbers lib avail toss (Some ''SBST'') (Some (Sbst ?i)) kvs = Some (Inr (Some (Sbst i'))) \<and>
      (\<forall>k \<in> K. rbt_find (ri_tree i') k = (case map_of (rev kvs) k of None \<Rightarrow> rbt_find (ri_tree ?i) k | Some v \<Rightarrow> (0, Some v)))"
    using assms(1,2) cmp int_skl.sbst_puts [of ?i kvs] long_order.sbst_puts [of ?i kvs] int_order.rbt_ok_create long_order.rbt_ok_create
    by (auto simp: choose_cmp_cb_def)
  then show ?thesis
    unfolding idx
    by (auto simp: search_number_def view_def search_number_from_rbtree_def new split: option.splits)
qed

text \<open>C22: With \<^verbatim>\<open>SBST\<close> an index of \<^verbatim>\<open>int\<close> or \<^verbatim>\<open>long\<close> keys within half of the range of \<^verbatim>\<open>int\<close> is a map: every insertion returns, and a search
  reports the data last inserted for its key, or returns -1 and leaves the result alone when there is none.
\<close>

theorem sbst_number_index_refines_map:
  assumes "(dt, K) \<in> {(DT_INT, int_keys), (DT_LONG, long_keys)}" and "fst ` set kvs \<subseteq> K"
    and "create_number_index (Some ''SBST'') root dt = (0, idx)"
  shows "\<exists>idx'. put_numbers lib avail toss (Some ''SBST'') idx kvs = Some (Inr idx') \<and>
    (\<forall>k \<in> K. search_number lib (Some ''SBST'') idx' k out =
       Some (Inr (case map_of (rev kvs) k of None \<Rightarrow> (- 1, out) | Some v \<Rightarrow> (0, map_option Found v))))"
  using assms by (rule sbst_index_map)

abbreviation no_tsearch :: "('d, unit) tsearch_lib" where
  "no_tsearch \<equiv> \<lparr>lib_tsearch = (\<lambda>_ _ _. Inr (False, ())), lib_tfind = (\<lambda>_ _ _. Inr None)\<rparr>"

lemma long_key_bytes8 [simp]: "long_key (bytes8 w) = sint w"
  by (simp add: long_key_def)

theorem sbst_number_index_refines_map_witness:
  "\<exists>idx'. put_numbers no_tsearch (\<lambda>_. True) (\<lambda>_. False) (Some ''SBST'')
      (snd (create_number_index (Some ''SBST'') None DT_LONG)) [(bytes8 3, Some True), (bytes8 5, None), (bytes8 3, Some False)] =
      Some (Inr idx') \<and>
    search_number no_tsearch (Some ''SBST'') idx' (bytes8 3) None = Some (Inr (0, Some (Found False)))"
proof -
  let ?kvs = "[(bytes8 3, Some True), (bytes8 5, None), (bytes8 3, Some False)]"
  have K: "bytes8 3 \<in> long_keys" "bytes8 5 \<in> long_keys" by (simp_all add: long_keys_def)
  have "create_number_index (Some ''SBST'') None DT_LONG = (0, snd (create_number_index (Some ''SBST'') None DT_LONG))"
    by (simp add: create_number_index_def create_rbtree_number_index_def)
  from sbst_number_index_refines_map [OF _ _ this, of long_keys ?kvs no_tsearch "\<lambda>_. True" "\<lambda>_. False" None] K
  show ?thesis by fastforce
qed

section \<open>Keys the comparator does not tell apart\<close>

text \<open>Two long keys that differ by a multiple of \<open>2 ^ 32\<close> are one key to the tree: the second insertion replaces the data of the first.\<close>

theorem long_keys_collapse:
  assumes "length x = 8" and "length y = 8" and "(long_key x - long_key y) mod 2 ^ 32 = 0"
  shows "\<exists>idx'. put_numbers lib avail toss (Some ''SBST'') (snd (create_number_index (Some ''SBST'') root DT_LONG)) [(x, v), (y, w)] =
      Some (Inr idx') \<and> search_number lib (Some ''SBST'') idx' x out = Some (Inr (0, map_option Found w))"
proof -
  have m: "libhl_cmp_keys_long a b = 0" if "length a = 8" "length b = 8" "(long_key a - long_key b) mod 2 ^ 32 = 0" for a b
  proof -
    have "take_bit (Suc 31) (long_key a - long_key b) = take_bit (Suc 31) 0" using that(3) by (simp add: take_bit_eq_mod)
    then have "signed_take_bit 31 (long_key a - long_key b) = signed_take_bit 31 0"
      by (simp only: signed_take_bit_eq_iff_take_bit_eq)
    then show ?thesis unfolding cmp_keys_long_diff [OF that(1,2)] by (simp only: signed_take_bit_of_0)
  qed
  have c: "libhl_cmp_keys_long x y = 0" using assms by (rule m)
  have "(long_key y - long_key x) mod 2 ^ 32 = 0" using assms(3) dvd_diff_commute [of "2 ^ 32" "long_key x" "long_key y"]
    by (simp add: mod_eq_0_iff_dvd)
  then have c': "libhl_cmp_keys_long y x = 0" by (rule m [OF assms(2,1)])
  let ?cmp = "rbt_compare_keys (Some libhl_cmp_keys_long)"
  have "rbt_add \<lparr>rbt_root = Null, rbt_size = 0, cmp_keys_cb = ?cmp\<rparr> x v =
      Some (0, \<lparr>rbt_root = Node RBTREE_COLOR_BLACK Null x v Null, rbt_size = 1, cmp_keys_cb = ?cmp\<rparr>)"
    by (subst rbt_add.simps) (simp add: rbt_count_new_def)
  moreover have "rbt_add \<lparr>rbt_root = Node RBTREE_COLOR_BLACK Null x v Null, rbt_size = 1, cmp_keys_cb = ?cmp\<rparr> y w =
      Some (1, \<lparr>rbt_root = Node RBTREE_COLOR_BLACK Null y w Null, rbt_size = 1, cmp_keys_cb = ?cmp\<rparr>)"
    by (subst rbt_add.simps) (simp add: rbt_compare_keys_def c)
  ultimately show ?thesis
    by (simp add: create_number_index_def create_rbtree_number_index_def choose_cmp_cb_def rbt_create_def insert_number_def view_def
        insert_number_to_rbtree_def search_number_def search_number_from_rbtree_def rbt_find_def rbt_compare_keys_def c')
qed

theorem long_keys_collapse_witness:
  "\<exists>idx'. put_numbers no_tsearch (\<lambda>_. True) (\<lambda>_. False) (Some ''SBST'') (snd (create_number_index (Some ''SBST'') None DT_LONG))
      [(bytes8 1, Some True), (bytes8 (2 ^ 32 + 1), Some False)] = Some (Inr idx') \<and>
    search_number no_tsearch (Some ''SBST'') idx' (bytes8 1) None = Some (Inr (0, Some (Found False)))"
  using long_keys_collapse [of "bytes8 1" "bytes8 (2 ^ 32 + 1)" no_tsearch "\<lambda>_. True" "\<lambda>_. False" None "Some True" "Some False" None]
  by simp

section \<open>The indices compared\<close>

lemma skl_puts: "put_numbers lib avail toss (Some ''SKIPLIST'') (map_option Skl x) kvs =
    map_option (\<lambda>r. ebind r (\<lambda>x'. Inr (map_option Skl x'))) (insert_all toss x kvs)"
proof (induction kvs arbitrary: x)
  case (Cons kv kvs)
  obtain k v where kv: "kv = (k, v)" by force
  have "insert_number lib avail toss (Some ''SKIPLIST'') (map_option Skl x) k v =
      map_option (\<lambda>r. ebind r (\<lambda>(rc, x'). Inr (rc, map_option Skl x'))) (insert_number_to_skiplist toss x k v)"
    by (cases x) (simp_all add: insert_number_def view_def)
  then show ?case using Cons.IH by (auto simp: kv split: option.splits sum.splits)
qed simp

text \<open>C23: The index over the skip list and the one over the red-black tree hold the same, after the same insertions of \<^verbatim>\<open>int\<close> keys within half of the range of \<^verbatim>\<open>int\<close>,
  if the first key is the smallest and no item of the skip list rises above layer 0: for a stored key both searches return 0 and the data last inserted for it, and
  for one that is not stored neither finds any. Only there they differ: the tree returns -1 and leaves the result alone, the skip list returns 0 and sets it to NULL.
\<close>

theorem skiplist_agrees_with_sbst:
  fixes lib :: "('d, 't) tsearch_lib" and root :: "('d, 't) number_index option"
  assumes "fst ` set ((k0, v0) # kvs) \<subseteq> int_keys" and "\<forall>k \<in> fst ` set kvs. libhl_cmp_keys_int k0 k \<le> 0" and "\<not> toss 1"
  shows "\<exists>i1 i2. put_numbers lib avail toss (Some ''SBST'') (snd (create_number_index (Some ''SBST'') root DT_INT)) ((k0, v0) # kvs) = Some (Inr i1) \<and>
    put_numbers lib avail toss (Some ''SKIPLIST'') (snd (create_number_index (Some ''SKIPLIST'') root DT_INT)) ((k0, v0) # kvs) = Some (Inr i2) \<and>
    (\<forall>k \<in> int_keys. \<forall>out.
       case map_of (rev ((k0, v0) # kvs)) k of
         Some v \<Rightarrow> search_number lib (Some ''SBST'') i1 k out = Some (Inr (0, map_option Found v)) \<and>
                   search_number lib (Some ''SKIPLIST'') i2 k out = Some (Inr (0, map_option Found v))
       | None \<Rightarrow> search_number lib (Some ''SBST'') i1 k out = Some (Inr (- 1, out)) \<and>
                 search_number lib (Some ''SKIPLIST'') i2 k out = Some (Inr (0, None)))"
proof -
  let ?kvs = "(k0, v0) # kvs"
  let ?i1 = "snd (create_number_index (Some ''SBST'') root DT_INT)" and ?i2 = "snd (create_number_index (Some ''SKIPLIST'') root DT_INT)"
  have c1: "create_number_index (Some ''SBST'') root DT_INT = (0, ?i1)"
    by (simp add: create_number_index_def create_rbtree_number_index_def)
  have tree: "\<exists>i1. put_numbers lib avail toss (Some ''SBST'') ?i1 ?kvs = Some (Inr i1) \<and>
      (\<forall>k \<in> int_keys. search_number lib (Some ''SBST'') i1 k out =
         Some (Inr (case map_of (rev ?kvs) k of None \<Rightarrow> (- 1, out) | Some v \<Rightarrow> (0, map_option Found v))))" for out
    using sbst_index_map [OF _ assms(1) c1, of lib avail toss out] by blast
  then obtain i1 where i1: "put_numbers lib avail toss (Some ''SBST'') ?i1 ?kvs = Some (Inr i1)" by blast
  obtain x :: "'d skiplist" where x: "create_skiplist_index (Some libhl_cmp_keys_int) = (0, Some x)" by (simp add: create_skiplist_index_def)
  then have c2: "?i2 = map_option Skl (Some x)"
    by (simp add: create_number_index_def choose_cmp_cb_def)
  have list: "\<exists>x'. insert_all toss (Some x) ?kvs = Some (Inr x') \<and>
      (\<forall>k \<in> int_keys. search_number_from_skiplist x' k out =
         Some (Inr (0, case map_of (rev ?kvs) k of None \<Rightarrow> None | Some v \<Rightarrow> v)))" for out
    using skiplist_index_map [of "Some x" toss k0 v0 kvs out] x assms by blast
  then obtain x' where x': "insert_all toss (Some x) ?kvs = Some (Inr x')" by blast
  have "put_numbers lib avail toss (Some ''SKIPLIST'') ?i2 ?kvs = Some (Inr (map_option Skl x'))"
    using x' unfolding c2 skl_puts by simp
  moreover have "search_number lib (Some ''SKIPLIST'') (map_option Skl x') k out =
      Some (Inr (0, case map_of (rev ?kvs) k of None \<Rightarrow> None | Some v \<Rightarrow> map_option Found v))" if "k \<in> int_keys" for k out
  proof -
    have "search_number_from_skiplist x' k None = Some (Inr (0, case map_of (rev ?kvs) k of None \<Rightarrow> None | Some v \<Rightarrow> v))"
      using list [of None] x' that by auto
    then show ?thesis by (cases x') (auto simp: search_number_def view_def split: option.splits)
  qed
  moreover have "search_number lib (Some ''SBST'') i1 k out =
         Some (Inr (case map_of (rev ?kvs) k of None \<Rightarrow> (- 1, out) | Some v \<Rightarrow> (0, map_option Found v)))" if "k \<in> int_keys" for k out
    using tree [of out] i1 that by auto
  ultimately show ?thesis
    using i1 by - (rule exI [of _ i1], rule exI [of _ "map_option Skl x'"], auto simp del: put_numbers.simps split: option.split)
qed

theorem skiplist_agrees_with_sbst_witness:
  "\<exists>i1 i2. put_numbers no_tsearch (\<lambda>_. True) (\<lambda>_. False) (Some ''SBST'') (snd (create_number_index (Some ''SBST'') None DT_INT))
      ((bytes4 2, Some True) # [(bytes4 9, Some False)]) = Some (Inr i1) \<and>
    put_numbers no_tsearch (\<lambda>_. True) (\<lambda>_. False) (Some ''SKIPLIST'') (snd (create_number_index (Some ''SKIPLIST'') None DT_INT))
      ((bytes4 2, Some True) # [(bytes4 9, Some False)]) = Some (Inr i2) \<and>
    search_number no_tsearch (Some ''SBST'') i1 (bytes4 2) None = Some (Inr (0, Some (Found True))) \<and>
    search_number no_tsearch (Some ''SKIPLIST'') i2 (bytes4 2) None = Some (Inr (0, Some (Found True)))"
proof -
  have p: "fst ` set ((bytes4 2, Some True) # [(bytes4 9, Some False)]) \<subseteq> int_keys"
      "\<forall>k \<in> fst ` set [(bytes4 9, Some False)]. libhl_cmp_keys_int (bytes4 2) k \<le> 0" "\<not> (\<lambda>_. False) (1 :: nat)"
    by (simp_all add: int_keys_def libhl_cmp_keys_int_def)
  have m: "map_of (rev ((bytes4 2, Some True) # [(bytes4 9, Some False)])) (bytes4 2) = Some (Some True)"
  proof -
    have "int_key (bytes4 9) \<noteq> int_key (bytes4 2)" by simp
    then have "bytes4 9 \<noteq> bytes4 2" by metis
    then show ?thesis by auto
  qed
  have k: "bytes4 2 \<in> int_keys" by (simp add: int_keys_def)
  show ?thesis using skiplist_agrees_with_sbst [OF p, of no_tsearch "\<lambda>_. True" None] k m by fastforce
qed

section \<open>The default\<close>

text \<open>
  Without one of the three names in the environment variable the root a caller set to NULL stays NULL: insertions and searches return -1 and
  nothing is ever stored.
\<close>

theorem default_number_index_stores_nothing:
  fixes lib :: "('d, 't) tsearch_lib"
  assumes "env = None \<or> env = Some s \<and> s \<notin> {''SPARSEARRAY'', ''SBST'', ''SKIPLIST''}"
  shows "create_number_index env (None :: ('d, 't) number_index option) dt = (0, None) \<and>
    insert_number lib avail toss env None k v = Some (Inr (- 1, None)) \<and>
    put_numbers lib avail toss env None kvs = Some (Inr None) \<and>
    search_number lib env None k out = Some (Inr (- 1, out))"
proof -
  have t: "num_impl_of env = TSEARCH" using assms by (auto simp: num_impl_of_def)
  have i: "insert_number lib avail toss env None k v = Some (Inr (- 1, None))" for k v
    by (simp add: t insert_number_def view_def insert_number_to_tsearch_index_def)
  then have "put_numbers lib avail toss env None kvs = Some (Inr None)"
    by (induction kvs) auto
  with i show ?thesis
    by (simp add: t create_number_index_def create_tsearch_index_def search_number_def view_def search_number_from_tsearch_index_def)
qed

theorem default_number_index_stores_nothing_witness:
  "put_numbers no_tsearch (\<lambda>_. True) (\<lambda>_. False) (Some ''BTREE'') (snd (create_number_index (Some ''BTREE'') None DT_INT))
      [(bytes4 1, Some True)] = Some (Inr None) \<and>
    search_number (no_tsearch :: (bool, unit) tsearch_lib) (Some ''BTREE'') None (bytes4 1) None = Some (Inr (- 1, None))"
  using default_number_index_stores_nothing [of "Some ''BTREE''" "''BTREE''" DT_INT no_tsearch "\<lambda>_. True" "\<lambda>_. False" "bytes4 1" "Some True"
      "[(bytes4 1, Some True)]" None] by simp

end
