(* ===== verification/Trie.thy ===== *)
theory Trie
  imports Miqs_Prelude "HOL-Library.Sublist"
begin

text \<open>
  The prefix tree of src/src/index/libhl/trie.c: insertion, lookup, removal, and the iterations
  over all keys and over the keys with a prefix.

  A node's array \<^verbatim>\<open>child[256]\<close> is a function on bytes. The index is the \<^verbatim>\<open>char\<close> of the key,
  which is signed: a byte from 128 on reads before the array, an error value (\<open>child_at\<close>). Parent
  pointers are the positions on the way down. The root is \<open>None\<close> once it has been freed.
  A value leaves its node through \<^verbatim>\<open>free\<close>, when it is the trie's own copy, or through the free callback of the trie, if it has one:
  \<open>drop_value\<close>, \<open>values_released\<close>. A removal and \<open>trie_find_and_insert\<close> report what they release and whether the pointer
  they hand out is still valid (\<open>returned\<close>); an insertion releases the value it replaces, which is not part of its result. The comparison counters and timers are left out.
\<close>

section \<open>Data\<close>

datatype 'v trie_node = Trie_Node
  (node_value: "'v option") (vsize: size_t) (is_copy: bool) (num_kids: c_int)
  (child: "byte \<Rightarrow> 'v trie_node option") (pidx: byte)

record 'v trie =
  trie_count :: c_int
  node_count :: c_int
  trie_root :: "'v trie_node option"

text \<open>\<^verbatim>\<open>calloc\<close> of a node.\<close>

definition new_node :: "byte \<Rightarrow> 'v trie_node" where
  "new_node p = Trie_Node None 0 False 0 (\<lambda>_. None) p"

definition trie_create :: "'v trie" where
  "trie_create = \<lparr>trie_count = 0, node_count = 0, trie_root = Some (new_node 0)\<rparr>"

definition the_root :: "'v trie \<Rightarrow> c_error + 'v trie_node" where
  "the_root t = (case trie_root t of None \<Rightarrow> Inl Bad_Pointer | Some n \<Rightarrow> Inr n)"

definition child_at :: "'v trie_node \<Rightarrow> byte \<Rightarrow> c_error + 'v trie_node option" where
  "child_at n c = (if sint c < 0 then Inl Out_Of_Bounds else Inr (child n c))"

definition put_child :: "'v trie_node \<Rightarrow> byte \<Rightarrow> 'v trie_node option \<Rightarrow> c_int \<Rightarrow> 'v trie_node" where
  "put_child n c m k = Trie_Node (node_value n) (vsize n) (is_copy n) k ((child n)(c := m)) (pidx n)"

text \<open>What becomes of a value that leaves its node; \<open>cb\<close> says whether there is a callback that frees values.\<close>

datatype 'v release = Freed_Copy 'v | Callback_On 'v

datatype 'v returned = Live 'v | Dangling 'v

definition drop_value :: "bool \<Rightarrow> 'v option \<Rightarrow> bool \<Rightarrow> 'v release list" where
  "drop_value cb v copied =
     (case v of None \<Rightarrow> [] | Some x \<Rightarrow> if copied then [Freed_Copy x] else if cb then [Callback_On x] else [])"

text \<open>The pointer read from a node before its value is dropped: the memory of a copy is gone by the time the caller gets it.\<close>

definition handed_out :: "'v trie_node \<Rightarrow> 'v returned option" where
  "handed_out n = map_option (if is_copy n then Dangling else Live) (node_value n)"

section \<open>Insertion and lookup\<close>

text \<open>A copy of a NULL value is a \<^verbatim>\<open>memcpy\<close> from NULL.\<close>

definition trie_node_set_value ::
  "'v trie_node \<Rightarrow> 'v option \<Rightarrow> size_t \<Rightarrow> bool \<Rightarrow> c_error + 'v trie_node" where
  "trie_node_set_value n value vs copy =
     (if copy \<and> value = None \<and> vs \<noteq> 0 then Inl Null_Deref
      else Inr (Trie_Node value vs copy (num_kids n) (child n) (pidx n)))"

text \<open>The second loop: the missing nodes, with their number.\<close>

fun trie_expand ::
  "'v trie_node \<Rightarrow> cstring \<Rightarrow> ('v trie_node \<Rightarrow> c_error + 'v trie_node) \<Rightarrow> c_error + ('v trie_node \<times> c_int)" where
  "trie_expand n [] put = ebind (put n) (\<lambda>n'. Inr (n', 0))"
| "trie_expand n (c # key) put =
     ebind (child_at n c) (\<lambda>_.
     ebind (trie_expand (new_node c) key put) (\<lambda>(m, k).
       Inr (put_child n c (Some m) (num_kids n + 1), k + 1)))"

text \<open>The first loop: down the nodes that are there.\<close>

fun trie_locate ::
  "'v trie_node \<Rightarrow> cstring \<Rightarrow> ('v trie_node \<Rightarrow> c_error + 'v trie_node) \<Rightarrow> c_error + ('v trie_node \<times> c_int)" where
  "trie_locate n [] put = trie_expand n [] put"
| "trie_locate n (c # key) put =
     ebind (child_at n c) (\<lambda>tmp.
       case tmp of
         None \<Rightarrow> trie_expand n (c # key) put
       | Some m \<Rightarrow>
           ebind (trie_locate m key put) (\<lambda>(m', k).
             Inr (put_child n c (Some m') (num_kids n), k)))"

definition trie_insert ::
  "'v trie \<Rightarrow> cstring \<Rightarrow> 'v option \<Rightarrow> size_t \<Rightarrow> bool \<Rightarrow> c_error + ('v trie \<times> c_int)" where
  "trie_insert t key value vs copy =
     ebind (the_root t) (\<lambda>r.
     ebind (trie_locate r key (\<lambda>n. trie_node_set_value n value vs copy)) (\<lambda>(r', new_nodes).
       Inr (t\<lparr>trie_count := (if new_nodes \<noteq> 0 then trie_count t + 1 else trie_count t),
              node_count := node_count t + new_nodes, trie_root := Some r'\<rparr>, new_nodes)))"

fun find_node :: "'v trie_node \<Rightarrow> cstring \<Rightarrow> c_error + 'v trie_node option" where
  "find_node n [] = Inr (Some n)"
| "find_node n (c # key) =
     ebind (child_at n c) (\<lambda>m. case m of None \<Rightarrow> Inr None | Some m' \<Rightarrow> find_node m' key)"

definition trie_find_internal :: "'v trie \<Rightarrow> cstring \<Rightarrow> c_error + 'v trie_node option" where
  "trie_find_internal t key = ebind (the_root t) (\<lambda>r. find_node r key)"

text \<open>The value (\<open>None\<close> for NULL) and its size.\<close>

definition trie_find :: "'v trie \<Rightarrow> cstring \<Rightarrow> c_error + ('v option \<times> size_t option)" where
  "trie_find t key = ebind (trie_find_internal t key) (\<lambda>n.
     Inr (case n of None \<Rightarrow> (None, None) | Some m \<Rightarrow> (node_value m, Some (vsize m))))"

text \<open>
  The two combinations give the number of new nodes and, where the node was there, its old value
  and size. The assignment to a found node goes through the same path as an insertion.
\<close>

definition trie_find_or_insert ::
  "'v trie \<Rightarrow> cstring \<Rightarrow> 'v option \<Rightarrow> size_t \<Rightarrow> bool \<Rightarrow> c_error + ('v trie \<times> c_int \<times> ('v option \<times> size_t) option)" where
  "trie_find_or_insert t key value vs copy = ebind (trie_find_internal t key) (\<lambda>n.
     case n of
       None \<Rightarrow> ebind (trie_insert t key value vs copy) (\<lambda>(t', k). Inr (t', k, None))
     | Some m \<Rightarrow> Inr (t, 0, Some (node_value m, vsize m)))"

definition trie_find_and_insert ::
  "bool \<Rightarrow> 'v trie \<Rightarrow> cstring \<Rightarrow> 'v option \<Rightarrow> size_t \<Rightarrow> bool \<Rightarrow>
   c_error + ('v trie \<times> c_int \<times> ('v returned option \<times> size_t \<times> 'v release list) option)" where
  "trie_find_and_insert cb t key value vs copy = ebind (trie_find_internal t key) (\<lambda>n.
     case n of
       None \<Rightarrow> ebind (trie_insert t key value vs copy) (\<lambda>(t', k). Inr (t', k, None))
     | Some m \<Rightarrow>
         ebind (the_root t) (\<lambda>r.
         ebind (trie_locate r key (\<lambda>n. trie_node_set_value n value vs copy)) (\<lambda>(r', k).
           Inr (t\<lparr>trie_root := Some r'\<rparr>, 0, Some (handed_out m, vsize m, drop_value cb (node_value m) (is_copy m))))))"

section \<open>Removal\<close>

text \<open>Freeing a node and everything below it: the two counters.\<close>

primrec free_node :: "'v trie_node \<Rightarrow> c_int \<times> c_int \<Rightarrow> c_int \<times> c_int" where
  "free_node (Trie_Node v vs cp nk ch p) = (\<lambda>st.
     let (cnt, nodes) = fold (\<lambda>i st. case (map_option free_node (ch (of_nat i))) of None \<Rightarrow> st | Some f \<Rightarrow> f st)
                          [0..<256] st
     in (if v \<noteq> None then cnt - 1 else cnt, nodes - 1))"

text \<open>
  The way up from the node: parents below the root that hold no value and no second child are freed
  too (\<open>None\<close>, with their number); the first other one loses its child.
\<close>

fun unlink :: "bool \<Rightarrow> 'v trie_node \<Rightarrow> cstring \<Rightarrow> 'v trie_node option \<times> c_int" where
  "unlink is_root n [] = (None, 0)"
| "unlink is_root n (c # key) =
     (case child n c of
        None \<Rightarrow> (Some n, 0)
      | Some m \<Rightarrow>
          (case unlink False m key of
             (Some m', k) \<Rightarrow> (Some (put_child n c (Some m') (num_kids n)), k)
           | (None, k) \<Rightarrow>
               if \<not> is_root \<and> node_value n = None \<and> sint (num_kids n) \<le> 1 then (None, k + 1)
               else (Some (put_child n c None (num_kids n - 1)), k)))"

definition trie_node_destroy :: "'v trie \<Rightarrow> 'v trie_node \<Rightarrow> cstring \<Rightarrow> 'v trie_node \<Rightarrow> 'v trie" where
  "trie_node_destroy t r key n =
     (let (r', freed) = unlink True r key;
          (cnt, nodes) = free_node n (trie_count t, node_count t - freed)
      in \<lparr>trie_count = cnt, node_count = nodes, trie_root = r'\<rparr>)"

text \<open>The values below a node, in the order in which they are dropped.\<close>

primrec values_released :: "bool \<Rightarrow> 'v trie_node \<Rightarrow> 'v release list" where
  "values_released cb (Trie_Node v vs cp nk ch p) =
     concat (map (\<lambda>i. case map_option (values_released cb) (ch (of_nat i)) of None \<Rightarrow> [] | Some xs \<Rightarrow> xs) [0..<256]) @ drop_value cb v cp"

text \<open>
  \<open>want\<close>: the caller passes a pointer for the value, which is set before the nodes are destroyed, then without the callback. The result: the trie, the number of
  nodes removed, the values that were released, and the pointer and size of the value. The copy of a value is freed in any case.
\<close>

definition trie_remove ::
  "bool \<Rightarrow> 'v trie \<Rightarrow> cstring \<Rightarrow> bool \<Rightarrow> c_error + ('v trie \<times> c_int \<times> 'v release list \<times> 'v returned option \<times> size_t option)" where
  "trie_remove cb t key want =
     ebind (the_root t) (\<lambda>r.
     ebind (find_node r key) (\<lambda>n.
       case n of
         None \<Rightarrow> Inr (t, 0, [], None, None)
       | Some m \<Rightarrow>
           let t' = trie_node_destroy t r key m
           in Inr (t', node_count t - node_count t', values_released (cb \<and> \<not> want) m, if want then handed_out m else None, Some (vsize m))))"

section \<open>Iteration\<close>

text \<open>
  The characters on the way to the node are collected in a buffer. The callback gets the whole buffer: it is not
  terminated at the current node. \<open>junk\<close> is the content of memory \<^verbatim>\<open>realloc\<close> adds.
\<close>

record visited =
  seq :: "byte list"
  seq_len :: size_t
  vpos :: size_t

definition COMMON_STR_LEN :: nat where
  "COMMON_STR_LEN = 4096"

definition grow_seq :: "(nat \<Rightarrow> byte) \<Rightarrow> visited \<Rightarrow> visited" where
  "grow_seq junk vis =
     (if seq_len vis \<le> vpos vis then
        vis\<lparr>seq := seq vis @ map junk [length (seq vis)..<unat (seq_len vis * 2)], seq_len := seq_len vis * 2\<rparr>
      else vis)"

definition put_seq :: "visited \<Rightarrow> byte \<Rightarrow> c_error + visited" where
  "put_seq vis c =
     (if unat (vpos vis) < length (seq vis) then Inr (vis\<lparr>seq := (seq vis)[unat (vpos vis) := c]\<rparr>)
      else Inl Out_Of_Bounds)"

text \<open>The loop over the child array, which stops after as many children as the node counts.\<close>

fun visit_children ::
  "c_int \<Rightarrow> c_int \<Rightarrow> (visited \<Rightarrow> 's \<Rightarrow> c_error + (c_int \<times> visited \<times> 's)) option list \<Rightarrow> c_int \<Rightarrow> visited \<Rightarrow> 's \<Rightarrow>
   c_error + (c_int \<times> visited \<times> 's)" where
  "visit_children nk seen [] rst vis s = Inr (rst, vis, s)"
| "visit_children nk seen (None # fs) rst vis s = visit_children nk seen fs rst vis s"
| "visit_children nk seen (Some f # fs) rst vis s =
     ebind (f (vis\<lparr>vpos := vpos vis + 1\<rparr>) s) (\<lambda>(r, vis1, s1).
       let vis2 = vis1\<lparr>vpos := vpos vis1 - 1\<rparr>; seen1 = seen + 1
       in if sint nk \<le> sint seen1 then Inr (rst + r, vis2, s1)
          else visit_children nk seen1 fs (rst + r) vis2 s1)"

primrec trie_node_iterate ::
  "(nat \<Rightarrow> byte) \<Rightarrow> ('s \<Rightarrow> byte list \<Rightarrow> 'v \<Rightarrow> size_t \<Rightarrow> c_error + 's) \<Rightarrow> 'v trie_node \<Rightarrow> visited \<Rightarrow> 's \<Rightarrow>
   c_error + (c_int \<times> visited \<times> 's)" where
  "trie_node_iterate junk cb (Trie_Node v vs cp nk ch p) = (\<lambda>vis s.
     let vis1 = grow_seq junk vis in
     ebind (if 0 < sint p then put_seq vis1 p else Inr vis1) (\<lambda>vis2.
     ebind (case v of None \<Rightarrow> Inr (0, s) | Some x \<Rightarrow> ebind (cb s (seq vis2) x vs) (\<lambda>s1. Inr (1, s1))) (\<lambda>(rst, s1).
       visit_children nk 0 (map (\<lambda>i. map_option (trie_node_iterate junk cb) (ch (of_nat i))) [0..<256]) rst vis2 s1)))"

definition trie_iter_all ::
  "(nat \<Rightarrow> byte) \<Rightarrow> 'v trie \<Rightarrow> ('s \<Rightarrow> byte list \<Rightarrow> 'v \<Rightarrow> size_t \<Rightarrow> c_error + 's) \<Rightarrow> 's \<Rightarrow> c_error + (c_int \<times> 's)" where
  "trie_iter_all junk t cb s =
     ebind (the_root t) (\<lambda>r.
     ebind (trie_node_iterate junk cb r
              \<lparr>seq = replicate COMMON_STR_LEN 0, seq_len = of_nat COMMON_STR_LEN, vpos = - 1\<rparr> s) (\<lambda>(rst, _, s').
       Inr (rst, s')))"

text \<open>The descent along the prefix; \<open>None\<close> when the trie has no such node.\<close>

fun follow_prefix :: "'v trie_node \<Rightarrow> cstring \<Rightarrow> visited \<Rightarrow> c_error + ('v trie_node \<times> visited) option" where
  "follow_prefix n [] vis = Inr (Some (n, vis))"
| "follow_prefix n (c # pre) vis =
     ebind (child_at n c) (\<lambda>m.
       case m of
         None \<Rightarrow> Inr None
       | Some m' \<Rightarrow>
           ebind (put_seq vis c) (\<lambda>vis1. follow_prefix m' pre (vis1\<lparr>vpos := vpos vis1 + 1\<rparr>)))"

definition trie_iter_prefix ::
  "(nat \<Rightarrow> byte) \<Rightarrow> 'v trie \<Rightarrow> cstring \<Rightarrow> ('s \<Rightarrow> byte list \<Rightarrow> 'v \<Rightarrow> size_t \<Rightarrow> c_error + 's) \<Rightarrow> 's \<Rightarrow> c_error + (c_int \<times> 's)" where
  "trie_iter_prefix junk t pre cb s =
     ebind (the_root t) (\<lambda>r.
     ebind (follow_prefix r pre
              \<lparr>seq = replicate COMMON_STR_LEN 0, seq_len = of_nat COMMON_STR_LEN, vpos = 0\<rparr>) (\<lambda>res.
       case res of
         None \<Rightarrow> Inr (0, s)
       | Some (n, vis) \<Rightarrow>
           ebind (case node_value n of
                    None \<Rightarrow> Inr (0, s)
                  | Some x \<Rightarrow> ebind (cb s (seq vis) x (vsize n)) (\<lambda>s1. Inr (1, s1))) (\<lambda>(rst, s1).
           ebind (trie_node_iterate junk cb n vis s1) (\<lambda>(k, _, s2).
             Inr (rst + k, s2)))))"

section \<open>Content and invariant\<close>

fun node_at :: "'v trie_node \<Rightarrow> cstring \<Rightarrow> 'v trie_node option" where
  "node_at n [] = Some n"
| "node_at n (c # key) = (case child n c of None \<Rightarrow> None | Some m \<Rightarrow> node_at m key)"

definition node_map :: "'v trie_node \<Rightarrow> cstring \<rightharpoonup> 'v" where
  "node_map n key = Option.bind (node_at n key) node_value"

primrec nodes :: "'v trie_node \<Rightarrow> nat" where
  "nodes (Trie_Node v vs cp nk ch p) = Suc (\<Sum>c \<in> UNIV. case map_option nodes (ch c) of None \<Rightarrow> 0 | Some k \<Rightarrow> k)"

text \<open>The keys a signed \<^verbatim>\<open>char\<close> can index the array with.\<close>

definition ascii :: "cstring \<Rightarrow> bool" where
  "ascii key \<longleftrightarrow> (\<forall>c \<in> set key. 0 < sint c)"

text \<open>Every node counts its children, which hang under their own character.\<close>

inductive trie_wf :: "'v trie_node \<Rightarrow> bool" where
  trie_wf_node: "num_kids n = of_nat (card (dom (child n))) \<Longrightarrow>
    (\<And>c m. child n c = Some m \<Longrightarrow> pidx m = c \<and> 0 < sint c) \<Longrightarrow>
    (\<And>c m. child n c = Some m \<Longrightarrow> trie_wf m) \<Longrightarrow> trie_wf n"

definition trie_inv :: "'v trie \<Rightarrow> bool" where
  "trie_inv t \<longleftrightarrow> (case trie_root t of None \<Rightarrow> False
     | Some r \<Rightarrow> trie_wf r \<and> pidx r = 0 \<and> node_count t = of_nat (nodes r - 1))"

definition trie_map :: "'v trie \<Rightarrow> cstring \<rightharpoonup> 'v" where
  "trie_map t = (case trie_root t of None \<Rightarrow> Map.empty | Some r \<Rightarrow> node_map r)"

definition trie_nodes :: "'v trie \<Rightarrow> nat" where
  "trie_nodes t = (case trie_root t of None \<Rightarrow> 0 | Some r \<Rightarrow> nodes r)"

lemma ascii_simps [simp]: "ascii []" "ascii (c # key) \<longleftrightarrow> 0 < sint c \<and> ascii key"
  by (auto simp: ascii_def)

lemma trie_wfD:
  assumes "trie_wf n"
  shows "num_kids n = of_nat (card (dom (child n)))"
    and "child n c = Some m \<Longrightarrow> pidx m = c" and "child n c = Some m \<Longrightarrow> 0 < sint c"
    and "child n c = Some m \<Longrightarrow> trie_wf m"
  using assms by (auto elim: trie_wf.cases)

lemma node_map_simps [simp]:
  "node_map n [] = node_value n"
  "node_map n (c # key) = (case child n c of None \<Rightarrow> None | Some m \<Rightarrow> node_map m key)"
  by (auto simp: node_map_def split: option.splits)

lemma put_child_simps [simp]:
  "node_value (put_child n c m k) = node_value n" "num_kids (put_child n c m k) = k"
  "child (put_child n c m k) = (child n)(c := m)" "pidx (put_child n c m k) = pidx n"
  by (simp_all add: put_child_def)

lemma new_node_simps [simp]:
  "node_value (new_node p) = None" "num_kids (new_node p) = 0"
  "child (new_node p) = (\<lambda>_. None)" "pidx (new_node p) = p"
  by (simp_all add: new_node_def)

lemma new_node_wf [simp]: "trie_wf (new_node p)"
  by (rule trie_wf_node) simp_all

lemma new_node_map [simp]: "node_map (new_node p) = Map.empty"
  by (rule ext, case_tac x) simp_all

text \<open>The number of nodes below a child slot.\<close>

definition below :: "'v trie_node option \<Rightarrow> nat" where
  "below m = (case m of None \<Rightarrow> 0 | Some n \<Rightarrow> nodes n)"

lemma nodes_eq: "nodes n = Suc (\<Sum>c \<in> UNIV. below (child n c))"
  by (cases n) (auto simp: below_def intro!: sum.cong split: option.splits)

lemma nodes_put_child: "nodes (put_child n c m k) + below (child n c) = nodes n + below m"
proof -
  have split: "(\<Sum>d \<in> UNIV. below (f d)) = below (f c) + (\<Sum>d \<in> UNIV - {c}. below (f d))"
    for f :: "byte \<Rightarrow> 'a trie_node option"
    by (rule sum.remove) simp_all
  have "(\<Sum>d \<in> UNIV - {c}. below (((child n)(c := m)) d)) = (\<Sum>d \<in> UNIV - {c}. below (child n d))"
    by (rule sum.cong) simp_all
  then show ?thesis
    using split [of "child n"] split [of "(child n)(c := m)"] by (simp add: nodes_eq)
qed

lemma nodes_new_node [simp]: "nodes (new_node p) = 1"
  by (simp add: nodes_eq below_def)

lemma nodes_pos [simp]: "0 < nodes n"
  by (simp add: nodes_eq)

section \<open>Lookup\<close>

lemma child_at_ascii [simp]: "0 < sint c \<Longrightarrow> child_at n c = Inr (child n c)"
  by (simp add: child_at_def)

lemma find_node_ascii: "ascii key \<Longrightarrow> find_node n key = Inr (node_at n key)"
  by (induction n key rule: find_node.induct) (auto split: option.split)

lemma find_node_result:
  "trie_wf n \<Longrightarrow> find_node n key = Inr (node_at n key) \<or> find_node n key = Inl Out_Of_Bounds \<and> node_at n key = None"
proof (induction key arbitrary: n)
  case (Cons c key)
  show ?case
  proof (cases "sint c < 0")
    case True
    then have "child n c = None" using trie_wfD(3) [OF Cons.prems, of c] by (cases "child n c") auto
    with True show ?thesis by (simp add: child_at_def)
  next
    case False
    then show ?thesis
      using Cons.IH trie_wfD(4) [OF Cons.prems] by (auto simp: child_at_def split: option.split)
  qed
qed simp

section \<open>Insertion\<close>

text \<open>What \<open>put\<close> does to a node: its value changes and nothing else.\<close>

definition puts :: "('v trie_node \<Rightarrow> c_error + 'v trie_node) \<Rightarrow> 'v option \<Rightarrow> bool" where
  "puts put v \<longleftrightarrow> (\<forall>n. \<exists>n'. put n = Inr n' \<and> node_value n' = v \<and> num_kids n' = num_kids n \<and>
     child n' = child n \<and> pidx n' = pidx n)"

text \<open>What an insertion gives: the node with one binding more and \<open>k\<close> new nodes.\<close>

definition inserted :: "'v trie_node \<Rightarrow> cstring \<Rightarrow> 'v option \<Rightarrow> nat \<Rightarrow> 'v trie_node \<Rightarrow> bool" where
  "inserted n key v k n' \<longleftrightarrow> trie_wf n' \<and> pidx n' = pidx n \<and> node_map n' = (node_map n)(key := v) \<and>
     nodes n' = nodes n + k"

lemma put_inserted:
  assumes "puts put v" and wf: "trie_wf n"
  shows "\<exists>n'. put n = Inr n' \<and> inserted n [] v 0 n'"
proof -
  obtain n' where n': "put n = Inr n'" "node_value n' = v" "num_kids n' = num_kids n" "child n' = child n" "pidx n' = pidx n"
    using assms(1) by (auto simp: puts_def)
  have "trie_wf n'"
    by (rule trie_wf_node) (use n' trie_wfD [OF wf] in auto)
  moreover have "node_map n' = (node_map n)([] := v)"
  proof
    fix k show "node_map n' k = ((node_map n)([] := v)) k" using n' by (cases k) simp_all
  qed
  ultimately show ?thesis using n' by (simp add: inserted_def nodes_eq)
qed

lemma put_child_wf:
  assumes wf: "trie_wf n" and m: "trie_wf m" "pidx m = c" "0 < sint c"
    and k: "k = (if child n c = None then num_kids n + 1 else num_kids n)"
  shows "trie_wf (put_child n c (Some m) k)"
proof (rule trie_wf_node)
  have "finite (dom (child n))" by (rule finite_subset [OF subset_UNIV]) simp
  then show "num_kids (put_child n c (Some m) k) = of_nat (card (dom (child (put_child n c (Some m) k))))"
    using k trie_wfD(1) [OF wf] by (auto simp: card_insert_if domIff)
qed (use m trie_wfD [OF wf] in \<open>auto split: if_splits\<close>)

lemma node_map_put_child:
  assumes "node_map m' = (case child n c of None \<Rightarrow> Map.empty | Some m \<Rightarrow> node_map m)(key := v)"
  shows "node_map (put_child n c (Some m') k) = (node_map n)(c # key := v)"
proof
  fix k'
  show "node_map (put_child n c (Some m') k) k' = ((node_map n)(c # key := v)) k'"
    using assms by (cases k') (auto split: option.splits)
qed

lemma trie_expand_inserts:
  assumes "puts put v"
  shows "trie_wf n \<Longrightarrow> ascii key \<Longrightarrow> (\<And>c cs. key = c # cs \<Longrightarrow> child n c = None) \<Longrightarrow>
    \<exists>n'. trie_expand n key put = Inr (n', of_nat (length key)) \<and> inserted n key v (length key) n'"
proof (induction key arbitrary: n)
  case Nil
  with put_inserted [OF assms] show ?case by fastforce
next
  case (Cons c key)
  obtain m' where m': "trie_expand (new_node c) key put = Inr (m', of_nat (length key))"
    "inserted (new_node c) key v (length key) m'"
    using Cons.IH [of "new_node c"] Cons.prems by auto
  have none: "child n c = None" using Cons.prems by simp
  let ?n' = "put_child n c (Some m') (num_kids n + 1)"
  have "nodes ?n' = nodes n + length (c # key)"
    using nodes_put_child [of n c "Some m'" "num_kids n + 1"] m'(2) none by (simp add: below_def inserted_def)
  moreover have "trie_wf ?n'"
    using m'(2) none Cons.prems by (intro put_child_wf) (simp_all add: inserted_def)
  moreover have "node_map ?n' = (node_map n)(c # key := v)"
    using m'(2) none by (intro node_map_put_child) (simp add: inserted_def)
  ultimately show ?case
    using m'(1) Cons.prems by (simp add: inserted_def add.commute)
qed

lemma trie_locate_inserts:
  assumes "puts put v"
  shows "trie_wf n \<Longrightarrow> ascii key \<Longrightarrow>
    \<exists>n' k. trie_locate n key put = Inr (n', of_nat k) \<and> k \<le> length key \<and> (k = 0 \<longleftrightarrow> node_at n key \<noteq> None) \<and> inserted n key v k n'"
proof (induction key arbitrary: n)
  case Nil
  with put_inserted [OF assms, of n] show ?case by fastforce
next
  case (Cons c key)
  show ?case
  proof (cases "child n c")
    case None
    then show ?thesis
      using trie_expand_inserts [OF assms Cons.prems] Cons.prems by (force simp del: trie_expand.simps)
  next
    case (Some m)
    obtain m' k where m': "trie_locate m key put = Inr (m', of_nat k)" "k \<le> length key"
      "k = 0 \<longleftrightarrow> node_at m key \<noteq> None" "inserted m key v k m'"
      using Cons.IH [of m] Cons.prems trie_wfD(4) [OF Cons.prems(1) Some] by auto
    let ?n' = "put_child n c (Some m') (num_kids n)"
    have "nodes ?n' = nodes n + k"
      using nodes_put_child [of n c "Some m'" "num_kids n"] m'(4) Some by (simp add: below_def inserted_def)
    moreover have "trie_wf ?n'"
      using m'(4) Some Cons.prems trie_wfD(2) [OF Cons.prems(1) Some]
      by (intro put_child_wf) (simp_all add: inserted_def)
    moreover have "node_map ?n' = (node_map n)(c # key := v)"
      using m'(4) Some by (intro node_map_put_child) (simp add: inserted_def)
    ultimately have "inserted n (c # key) v k ?n'"
      by (simp add: inserted_def)
    with m' Some Cons.prems show ?thesis
      by (intro exI [of _ ?n'] exI [of _ k]) simp
  qed
qed

lemma puts_set_value:
  "copy \<longrightarrow> value \<noteq> None \<or> vs = 0 \<Longrightarrow> puts (\<lambda>n. trie_node_set_value n value vs copy) value"
  by (auto simp: puts_def trie_node_set_value_def)

lemma trie_inv_root: "trie_inv t \<Longrightarrow> \<exists>r. trie_root t = Some r \<and> trie_wf r \<and> pidx r = 0 \<and> node_count t = of_nat (nodes r - 1) \<and>
    the_root t = Inr r \<and> trie_map t = node_map r \<and> trie_nodes t = nodes r"
  by (auto simp: trie_inv_def the_root_def trie_map_def trie_nodes_def split: option.splits)

lemma of_nat_nodes: "of_nat (nodes n - Suc 0) = (of_nat (nodes n) - 1 :: c_int)"
  by (simp add: of_nat_diff Suc_leI)

lemma trie_insert_laws:
  assumes inv: "trie_inv t" and key: "ascii key" and val: "copy \<longrightarrow> value \<noteq> None \<or> vs = 0"
  shows "\<exists>t' k. trie_insert t key value vs copy = Inr (t', of_nat k) \<and> k \<le> length key \<and>
    trie_inv t' \<and> trie_map t' = (trie_map t)(key := value) \<and> trie_nodes t' = trie_nodes t + k"
proof -
  obtain r where r: "trie_root t = Some r" "trie_wf r" "node_count t = of_nat (nodes r - 1)" "the_root t = Inr r"
    "trie_map t = node_map r" "pidx r = 0"
    using trie_inv_root [OF inv] by blast
  obtain r' k where r': "trie_locate r key (\<lambda>n. trie_node_set_value n value vs copy) = Inr (r', of_nat k)"
    "k \<le> length key" "inserted r key value k r'"
    using trie_locate_inserts [OF puts_set_value [OF val] r(2) key] by blast
  have "of_nat (nodes r - Suc 0) + of_nat k = (of_nat (nodes r' - Suc 0) :: c_int)"
    using r'(3) unfolding of_nat_nodes inserted_def by simp
  with r r' show ?thesis
    by (auto simp: trie_insert_def trie_inv_def trie_map_def trie_nodes_def inserted_def intro!: exI [of _ k])
qed

lemma trie_find_laws:
  assumes inv: "trie_inv t"
  shows "(\<exists>vs. trie_find t key = Inr (trie_map t key, vs)) \<or>
    trie_find t key = Inl Out_Of_Bounds \<and> trie_map t key = None" (is "?A \<or> ?B")
    and "ascii key \<Longrightarrow> \<exists>vs. trie_find t key = Inr (trie_map t key, vs)"
proof -
  obtain r where r: "trie_wf r" "the_root t = Inr r" "trie_map t = node_map r"
    using trie_inv_root [OF inv] by blast
  then show "?A \<or> ?B"
    using find_node_result [OF r(1), of key]
    by (cases "node_at r key") (auto simp: trie_find_def trie_find_internal_def node_map_def)
  assume "ascii key"
  with r show "\<exists>vs. trie_find t key = Inr (trie_map t key, vs)"
    by (cases "node_at r key") (auto simp: trie_find_def trie_find_internal_def find_node_ascii node_map_def)
qed

section \<open>Removal\<close>

lemma sum_bytes: "(\<Sum>i < 256. f (of_nat i :: byte)) = (\<Sum>c \<in> UNIV. f c :: nat)"
proof (rule sum.reindex_bij_betw [of of_nat])
  have "inj_on (of_nat :: nat \<Rightarrow> byte) {..< 256}"
    by (auto simp: inj_on_def word_unat_eq_iff unat_of_nat)
  moreover have "c \<in> of_nat ` {..< 256}" for c :: byte
    by (rule image_eqI [of _ _ "unat c"]) (simp_all add: unat_byte_bound)
  ultimately show "bij_betw (of_nat :: nat \<Rightarrow> byte) {..< 256} UNIV"
    by (auto simp: bij_betw_def)
qed

text \<open>Freeing counts every node once.\<close>

lemma free_node_nodes: "snd (free_node n st) = snd st - of_nat (nodes n)"
proof (induction n arbitrary: st)
  case (Trie_Node v vs cp nk ch p)
  let ?f = "\<lambda>i st. case map_option free_node (ch (of_nat i)) of None \<Rightarrow> st | Some f \<Rightarrow> f st"
  have "snd (?f i st) = snd st - of_nat (below (ch (of_nat i)))" for i st
  proof (cases "ch (of_nat i)")
    case (Some m)
    then have "Some m \<in> range ch" by (metis rangeI)
    with Trie_Node.IH [of "Some m" m st] Some show ?thesis by (simp add: below_def)
  qed (simp add: below_def)
  then have "snd (fold ?f is st) = snd st - of_nat (sum_list (map (\<lambda>i. below (ch (of_nat i))) is))" for "is" st
    by (induction "is" arbitrary: st) simp_all
  moreover have "sum_list (map (\<lambda>i. below (ch (of_nat i))) [0..<256]) = (\<Sum>c \<in> UNIV. below (ch c))"
    by (simp only: sum_bytes [symmetric, of "\<lambda>c. below (ch c)"] interv_sum_list_conv_sum_set_nat atLeast0LessThan set_upt)
  ultimately have "snd (fold ?f [0..<256] st) = snd st - of_nat (\<Sum>c \<in> UNIV. below (ch c))" by metis
  then show ?case
    by (simp add: nodes_eq split_def Let_def del: nodes.simps)
qed

lemma sint_num_kids:
  assumes "trie_wf n"
  shows "sint (num_kids n) \<le> 1 \<longleftrightarrow> card (dom (child n)) \<le> 1"
proof -
  have "card (dom (child n)) \<le> card (UNIV :: byte set)" by (rule card_mono) simp_all
  then have "int (card (dom (child n))) < 2 ^ 31" by (simp add: card_word)
  then show ?thesis by (simp add: trie_wfD(1) [OF assms] sint_of_nat_small)
qed

lemma node_at_wf: "trie_wf n \<Longrightarrow> node_at n key = Some m \<Longrightarrow> trie_wf m"
proof (induction key arbitrary: n)
  case (Cons c key)
  then show ?case using trie_wfD(4) [OF Cons.prems(1)] by (auto split: option.splits)
qed simp

lemma node_at_append: "node_at n (ks @ ks') = Option.bind (node_at n ks) (\<lambda>m. node_at m ks')"
  by (induction ks arbitrary: n) (auto split: option.split)

text \<open>What is left of a node from which the subtree at a key was cut, and how many nodes went with it.\<close>

definition cut :: "'v trie_node \<Rightarrow> cstring \<Rightarrow> 'v trie_node \<Rightarrow> 'v trie_node option \<Rightarrow> nat \<Rightarrow> bool" where
  "cut n key m r k \<longleftrightarrow> nodes n = below r + nodes m + k \<and>
     (case r of
        None \<Rightarrow> \<forall>key'. \<not> prefix key key' \<longrightarrow> node_map n key' = None
      | Some n' \<Rightarrow> trie_wf n' \<and> pidx n' = pidx n \<and>
          node_map n' = (\<lambda>key'. if prefix key key' then None else node_map n key'))"

lemma put_child_none_wf:
  assumes wf: "trie_wf n" and m: "child n c = Some m"
  shows "trie_wf (put_child n c None (num_kids n - 1))"
proof (rule trie_wf_node)
  have "finite (dom (child n))" by (rule finite_subset [OF subset_UNIV]) simp
  then have "card (dom (child n)) = Suc (card (dom (child n) - {c}))"
    using card_Suc_Diff1 [of "dom (child n)" c] m by (simp add: domI)
  then show "num_kids (put_child n c None (num_kids n - 1)) = of_nat (card (dom (child (put_child n c None (num_kids n - 1)))))"
    using trie_wfD(1) [OF wf] by simp
qed (use trie_wfD [OF wf] in \<open>auto split: if_splits\<close>)

lemma unlink_cuts:
  "trie_wf n \<Longrightarrow> node_at n key = Some m \<Longrightarrow>
    \<exists>r k. unlink is_top n key = (r, of_nat k) \<and> cut n key m r k \<and> (is_top \<and> key \<noteq> [] \<longrightarrow> r \<noteq> None)"
proof (induction key arbitrary: n is_top)
  case Nil
  then show ?case by (auto simp: cut_def below_def intro!: exI [of _ 0])
next
  case (Cons c key)
  then obtain n1 where n1: "child n c = Some n1" "node_at n1 key = Some m"
    by (auto split: option.splits)
  obtain r k where r: "unlink False n1 key = (r, of_nat k)" "cut n1 key m r k"
    using Cons.IH [of n1 False] n1 trie_wfD(4) [OF Cons.prems(1) n1(1)] by auto
  have below1: "below (child n c) = nodes n1" by (simp add: n1 below_def)
  show ?case
  proof (cases r)
    case (Some n1')
    let ?n' = "put_child n c (Some n1') (num_kids n)"
    have "trie_wf ?n'"
      using r(2) Some n1 trie_wfD(2,3) [OF Cons.prems(1) n1(1)]
      by (intro put_child_wf [OF Cons.prems(1)]) (simp_all add: cut_def)
    moreover have "nodes n = nodes ?n' + nodes m + k"
      using nodes_put_child [of n c "Some n1'" "num_kids n"] r(2) Some below1 by (simp add: cut_def below_def)
    moreover have "node_map ?n' = (\<lambda>key'. if prefix (c # key) key' then None else node_map n key')"
    proof
      fix key'
      show "node_map ?n' key' = (if prefix (c # key) key' then None else node_map n key')"
        using r(2) Some n1 by (cases key') (auto simp: cut_def)
    qed
    ultimately show ?thesis
      using r(1) Some n1 by (auto simp: cut_def below_def intro!: exI [of _ k])
  next
    case None
    let ?n' = "put_child n c None (num_kids n - 1)"
    have gone: "node_map n1 key' = None" if "\<not> prefix key key'" for key'
      using r(2) None that by (simp add: cut_def)
    show ?thesis
    proof (cases "\<not> is_top \<and> node_value n = None \<and> sint (num_kids n) \<le> 1")
      case True
      have "finite (dom (child n))" by (rule finite_subset [OF subset_UNIV]) simp
      then have only: "child n d = None" if "d \<noteq> c" for d
        using True sint_num_kids [OF Cons.prems(1)] card_le_Suc0_iff_eq [of "dom (child n)"] n1(1) that
        by (metis One_nat_def domI not_Some_eq)
      have "nodes n = Suc (nodes n1)"
      proof -
        have "(\<Sum>d \<in> UNIV. below (child n d)) = (\<Sum>d \<in> {c}. below (child n d))"
          by (rule sum.mono_neutral_right) (auto simp: only below_def)
        then show ?thesis by (simp add: nodes_eq [of n] below1)
      qed
      then have count: "nodes n = nodes m + Suc k" using r(2) None by (simp add: cut_def below_def)
      have "node_map n key' = None" if "\<not> prefix (c # key) key'" for key'
      proof (cases key')
        case (Cons d ds)
        then show ?thesis using that gone only [of d] n1 by (cases "d = c") auto
      qed (use True in simp)
      with count have "cut n (c # key) m None (Suc k)" by (simp add: cut_def below_def)
      with r(1) None n1 True show ?thesis
        by (auto intro!: exI [of _ "Suc k"] simp: add.commute)
    next
      case False
      have "nodes n = nodes ?n' + nodes m + k"
        using nodes_put_child [of n c None "num_kids n - 1"] r(2) None below1 by (simp add: cut_def below_def)
      moreover have "node_map ?n' = (\<lambda>key'. if prefix (c # key) key' then None else node_map n key')"
      proof
        fix key'
        show "node_map ?n' key' = (if prefix (c # key) key' then None else node_map n key')"
          using gone n1 by (cases key') auto
      qed
      ultimately show ?thesis
        using r(1) None n1 False put_child_none_wf [OF Cons.prems(1) n1(1)]
        by (auto simp: cut_def below_def intro!: exI [of _ k])
    qed
  qed
qed

text \<open>Whether the value of a key is a copy, and what dropping all keys from a key on releases.\<close>

definition copied :: "'v trie_node \<Rightarrow> cstring \<Rightarrow> bool" where
  "copied r key \<longleftrightarrow> (case node_at r key of None \<Rightarrow> False | Some m \<Rightarrow> is_copy m)"

definition key_copied :: "'v trie \<Rightarrow> cstring \<Rightarrow> bool" where
  "key_copied t key \<longleftrightarrow> (case trie_root t of None \<Rightarrow> False | Some r \<Rightarrow> copied r key)"

lemma set_drop_value: "set (drop_value cb v cp) =
    {Freed_Copy x | x. v = Some x \<and> cp} \<union> {Callback_On x | x. v = Some x \<and> \<not> cp \<and> cb}"
  by (auto simp: drop_value_def split: option.splits)

lemma in_released:
  "y \<in> set (values_released cb n) \<longleftrightarrow> (\<exists>key x. node_map n key = Some x \<and>
     (y = Freed_Copy x \<and> copied n key \<or> y = Callback_On x \<and> \<not> copied n key \<and> cb))"
proof (induction n)
  case (Trie_Node v vs cp nk ch p)
  let ?n = "Trie_Node v vs cp nk ch p"
  let ?R = "\<lambda>n key. \<exists>x. node_map n key = Some x \<and> (y = Freed_Copy x \<and> copied n key \<or> y = Callback_On x \<and> \<not> copied n key \<and> cb)"
  have here: "y \<in> set (drop_value cb v cp) \<longleftrightarrow> ?R ?n []" by (auto simp: set_drop_value node_map_def copied_def)
  have below: "?R ?n (c # key) \<longleftrightarrow> (\<exists>m. ch c = Some m \<and> ?R m key)" for c key
    by (auto simp: node_map_def copied_def split: option.splits)
  have "y \<in> set (concat (map (\<lambda>i. case map_option (values_released cb) (ch (of_nat i)) of None \<Rightarrow> [] | Some xs \<Rightarrow> xs) [0..<256])) \<longleftrightarrow>
      (\<exists>i < 256. \<exists>m. ch (of_nat i) = Some m \<and> y \<in> set (values_released cb m))"
    by (force split: option.splits)
  also have "\<dots> \<longleftrightarrow> (\<exists>c m. ch c = Some m \<and> y \<in> set (values_released cb m))"
  proof -
    have "\<exists>i < 256. c = of_nat i" for c :: byte
      using unsigned_less [of c] by (intro exI [of _ "unat c"]) simp
    then show ?thesis by metis
  qed
  also have "\<dots> \<longleftrightarrow> (\<exists>c key. ?R ?n (c # key))"
  proof -
    have "y \<in> set (values_released cb m) \<longleftrightarrow> (\<exists>key. ?R m key)" if "ch c = Some m" for c m
      using Trie_Node.IH [of "Some m" m] that by (metis option.set_intros rangeI)
    then show ?thesis unfolding below by blast
  qed
  finally have "y \<in> set (values_released cb ?n) \<longleftrightarrow> (\<exists>c key. ?R ?n (c # key)) \<or> ?R ?n []"
    unfolding here [symmetric] by simp
  also have "\<dots> \<longleftrightarrow> (\<exists>key. ?R ?n key)"
  proof -
    have "(\<exists>c key. Q (c # key)) \<or> Q [] \<longleftrightarrow> (\<exists>key. Q key)" for Q :: "cstring \<Rightarrow> bool" by (metis list.exhaust)
    from this [of "?R ?n"] show ?thesis .
  qed
  finally show ?case .
qed

lemma trie_remove_laws:
  assumes inv: "trie_inv t" and key: "ascii key" "key \<noteq> []"
  shows "\<exists>t' k rel ptr sz. trie_remove cb t key want = Inr (t', k, rel, ptr, sz) \<and> trie_inv t' \<and>
    trie_map t' = (\<lambda>key'. if prefix key key' then None else trie_map t key') \<and> node_count t = node_count t' + k \<and>
    ptr = (if want then map_option (if key_copied t key then Dangling else Live) (trie_map t key) else None) \<and>
    (\<forall>x. Freed_Copy x \<in> set rel \<longleftrightarrow> (\<exists>key'. prefix key key' \<and> trie_map t key' = Some x \<and> key_copied t key')) \<and>
    (\<forall>x. Callback_On x \<in> set rel \<longleftrightarrow>
       cb \<and> \<not> want \<and> (\<exists>key'. prefix key key' \<and> trie_map t key' = Some x \<and> \<not> key_copied t key'))"
proof -
  obtain r where r: "trie_root t = Some r" "trie_wf r" "node_count t = of_nat (nodes r - 1)" "the_root t = Inr r"
    "trie_map t = node_map r" "pidx r = 0"
    using trie_inv_root [OF inv] by blast
  show ?thesis
  proof (cases "node_at r key")
    case None
    then have "node_map r key' = None" if "prefix key key'" for key'
      using that by (auto simp: node_map_def prefix_def node_at_append)
    with None r inv show ?thesis
      by (auto simp: trie_remove_def find_node_ascii [OF key(1)] fun_eq_iff node_map_def)
  next
    case (Some m)
    obtain r' k where un: "unlink True r key = (Some r', of_nat k)" "cut r key m (Some r') k"
      using unlink_cuts [OF r(2) Some, of True] key(2) by auto
    let ?t' = "trie_node_destroy t r key m"
    have t': "trie_root ?t' = Some r'" "node_count ?t' = node_count t - of_nat k - of_nat (nodes m)"
      using un free_node_nodes [of m "(trie_count t, node_count t - of_nat k)"]
      by (auto simp: trie_node_destroy_def Let_def split_def)
    have "node_count ?t' = of_nat (nodes r) - 1 - of_nat k - of_nat (nodes m)"
      using t'(2) r(3) by (simp add: of_nat_nodes)
    then have "node_count ?t' = of_nat (nodes r' - Suc 0)"
      using un(2) unfolding of_nat_nodes by (simp add: cut_def below_def)
    then have "trie_inv ?t'" "trie_map ?t' = (\<lambda>key'. if prefix key key' then None else trie_map t key')"
      unfolding r(5) using t' un(2) r(6) by (simp_all add: trie_inv_def trie_map_def cut_def)
    moreover have "trie_remove cb t key want = Inr (?t', node_count t - node_count ?t', values_released (cb \<and> \<not> want) m,
        if want then handed_out m else None, Some (vsize m))"
      by (simp add: trie_remove_def r find_node_ascii [OF key(1)] Some Let_def)
    moreover have "handed_out m = map_option (if key_copied t key then Dangling else Live) (trie_map t key)"
      by (simp add: r node_map_def Some handed_out_def key_copied_def copied_def)
    moreover have ext: "node_map m ks = trie_map t (key @ ks)" "copied m ks \<longleftrightarrow> key_copied t (key @ ks)" for ks
      by (simp_all add: r node_map_def copied_def key_copied_def node_at_append Some)
    have "Freed_Copy x \<in> set (values_released (cb \<and> \<not> want) m) \<longleftrightarrow> (\<exists>key'. prefix key key' \<and> trie_map t key' = Some x \<and> key_copied t key')"
        "Callback_On x \<in> set (values_released (cb \<and> \<not> want) m) \<longleftrightarrow>
         cb \<and> \<not> want \<and> (\<exists>key'. prefix key key' \<and> trie_map t key' = Some x \<and> \<not> key_copied t key')" for x
      unfolding in_released ext by (auto simp: prefix_def)
    ultimately show ?thesis by auto
  qed
qed

section \<open>Iteration visits every entry\<close>

lemma list_all2_members:
  "list_all2 R xs ys \<Longrightarrow> x \<in> set xs \<Longrightarrow> \<exists>y \<in> set ys. R x y"
  "list_all2 R xs ys \<Longrightarrow> y \<in> set ys \<Longrightarrow> \<exists>x \<in> set xs. R x y"
  by (induction rule: list_all2_induct) auto

text \<open>The entries in the order of the visit.\<close>

definition kid_entries :: "byte \<Rightarrow> (cstring \<times> 'v) list option \<Rightarrow> (cstring \<times> 'v) list" where
  "kid_entries c es = (case es of None \<Rightarrow> [] | Some xs \<Rightarrow> map (apfst (Cons c)) xs)"

primrec node_entries :: "'v trie_node \<Rightarrow> (cstring \<times> 'v) list" where
  "node_entries (Trie_Node v vs cp nk ch p) = (case v of None \<Rightarrow> [] | Some x \<Rightarrow> [([], x)]) @
     concat (map (\<lambda>i. kid_entries (of_nat i) (map_option node_entries (ch (of_nat i)))) [0..<256])"

lemma in_node_entries: "(k, v) \<in> set (node_entries n) \<longleftrightarrow> node_map n k = Some v"
proof (induction k arbitrary: n)
  case Nil
  show ?case
    by (cases n) (auto simp: kid_entries_def split: option.splits)
next
  case (Cons c k)
  have "(c # k, v) \<in> set (kid_entries d (map_option node_entries m)) \<longleftrightarrow>
      d = c \<and> (\<exists>n'. m = Some n' \<and> (k, v) \<in> set (node_entries n'))" for d m
    by (cases m) (auto simp: kid_entries_def apfst_def map_prod_def image_iff split: prod.splits) 
  moreover have "\<exists>i \<in> {..< 256}. of_nat i = c"
    using unat_byte_bound [of c] by (intro bexI [of _ "unat c"]) simp_all
  ultimately show ?case
    using Cons by (cases n) (auto split: option.splits)
qed

text \<open>A callback that always succeeds, with the effect \<open>g\<close> on the caller's state.\<close>

definition calls :: "('s \<Rightarrow> byte list \<times> 'v \<Rightarrow> 's) \<Rightarrow> 's \<Rightarrow> byte list \<Rightarrow> 'v \<Rightarrow> size_t \<Rightarrow> c_error + 's" where
  "calls g s buf v vs = Inr (g s (buf, v))"

definition entry_seen :: "byte list \<Rightarrow> byte list \<times> 'v \<Rightarrow> cstring \<times> 'v \<Rightarrow> bool" where
  "entry_seen base seen e \<longleftrightarrow> snd seen = snd e \<and> prefix (base @ fst e) (fst seen)"

text \<open>The buffer has room for the position, which is at most one past its end.\<close>

definition vis_ok :: "visited \<Rightarrow> bool" where
  "vis_ok vis \<longleftrightarrow> length (seq vis) = unat (seq_len vis) \<and> 0 < seq_len vis \<and> unat (seq_len vis) < 2 ^ 63 \<and>
     vpos vis \<le> seq_len vis"

definition back_at :: "visited \<Rightarrow> visited \<Rightarrow> bool" where
  "back_at vis vis' \<longleftrightarrow> vis_ok vis' \<and> vpos vis' = vpos vis \<and>
     take (unat (vpos vis)) (seq vis') = take (unat (vpos vis)) (seq vis)"

lemma grow_seq_ok:
  assumes ok: "vis_ok vis" and pos: "unat (vpos vis) < 2 ^ 62"
  shows "vis_ok (grow_seq junk vis)" and "vpos (grow_seq junk vis) = vpos vis"
    and "vpos vis < seq_len (grow_seq junk vis)"
    and "take (unat (vpos vis)) (seq (grow_seq junk vis)) = take (unat (vpos vis)) (seq vis)"
proof -
  show "vpos (grow_seq junk vis) = vpos vis" by (simp add: grow_seq_def)
  consider "vpos vis < seq_len vis" | "vpos vis = seq_len vis" using ok by (auto simp: vis_ok_def order_le_less)
  then have "vis_ok (grow_seq junk vis) \<and> vpos vis < seq_len (grow_seq junk vis) \<and>
    take (unat (vpos vis)) (seq (grow_seq junk vis)) = take (unat (vpos vis)) (seq vis)"
  proof cases
    case 1
    then have "\<not> seq_len vis \<le> vpos vis" by simp
    with 1 show ?thesis using ok unfolding grow_seq_def by (simp only: if_False simp_thms)
  next
    case 2
    then have lt: "unat (seq_len vis) < 2 ^ 62" "0 < unat (seq_len vis)" using pos ok by (simp_all add: vis_ok_def unat_gt_0 word_greater_zero_iff)
    then have dbl: "unat (seq_len vis * 2) = unat (seq_len vis) * 2"
      by (subst unat_mult_lem [THEN iffD1]) simp_all
    with lt 2 ok show ?thesis
      by (auto simp: grow_seq_def vis_ok_def word_less_nat_alt word_le_nat_alt)
  qed
  then show "vis_ok (grow_seq junk vis)" "vpos vis < seq_len (grow_seq junk vis)"
    "take (unat (vpos vis)) (seq (grow_seq junk vis)) = take (unat (vpos vis)) (seq vis)" by simp_all
qed

definition iterates ::
  "('s \<Rightarrow> byte list \<times> 'v \<Rightarrow> 's) \<Rightarrow> (visited \<Rightarrow> 's \<Rightarrow> c_error + (c_int \<times> visited \<times> 's)) \<Rightarrow>
   visited \<Rightarrow> byte list \<Rightarrow> (cstring \<times> 'v) list \<Rightarrow> bool" where
  "iterates g f vis base es \<longleftrightarrow> (\<forall>s. \<exists>vis' out. f vis s = Inr (of_nat (length out), vis', foldl g s out) \<and>
     back_at vis vis' \<and> list_all2 (entry_seen base) out es)"

abbreviation step_in :: "visited \<Rightarrow> visited" where
  "step_in vis \<equiv> vis\<lparr>vpos := vpos vis + 1\<rparr>"

lemma entry_seen_kid:
  "list_all2 (entry_seen (base @ [c])) out es \<longleftrightarrow> list_all2 (entry_seen base) out (map (apfst (Cons c)) es)"
  by (simp add: list_all2_map2 entry_seen_def [abs_def])

text \<open>The loop over the children, given that every child iterates.\<close>

lemma visit_children_spec:
  assumes kids: "\<And>i vis. P i \<noteq> None \<Longrightarrow> vis_ok (step_in vis) \<Longrightarrow> vpos vis = pos \<Longrightarrow>
      iterates g (the (P i)) (step_in vis) (take (unat (pos + 1)) (seq vis) @ [of_nat i]) (the (E i))"
    and same: "\<And>i. P i = None \<longleftrightarrow> E i = None"
    and nk: "int nk < 2 ^ 31"
  shows "sn + length (filter (\<lambda>i. P i \<noteq> None) is) = nk \<Longrightarrow> vis_ok (step_in vis) \<Longrightarrow> vpos vis = pos \<Longrightarrow>
    take (unat (pos + 1)) (seq vis) = base \<Longrightarrow>
    \<exists>vis' out. visit_children (of_nat nk) (of_nat sn) (map P is) rst vis s =
        Inr (rst + of_nat (length out), vis', foldl g s out) \<and>
      vis_ok (step_in vis') \<and> vpos vis' = pos \<and> take (unat (pos + 1)) (seq vis') = base \<and>
      list_all2 (entry_seen base) out (concat (map (\<lambda>i. kid_entries (of_nat i) (E i)) is))"
proof (induction "is" arbitrary: sn rst vis s)
  case Nil
  then show ?case by (auto intro!: exI [of _ vis])
next
  case (Cons i "is")
  show ?case
  proof (cases "P i")
    case None
    then show ?thesis using Cons same [of i] by (auto simp: kid_entries_def)
  next
    case (Some f)
    then obtain es where E: "E i = Some es" using same [of i] by auto
    obtain vis1 out where f: "f (step_in vis) s = Inr (of_nat (length out), vis1, foldl g s out)"
      and b: "back_at (step_in vis) vis1" and seen: "list_all2 (entry_seen base) out (kid_entries (of_nat i) (E i))"
      using kids [of i vis] Some Cons.prems E
      by (fastforce simp: iterates_def entry_seen_kid kid_entries_def)
    let ?vis2 = "vis1\<lparr>vpos := vpos vis1 - 1\<rparr>"
    have v2: "vis_ok (step_in ?vis2)" "vpos ?vis2 = pos" "take (unat (pos + 1)) (seq ?vis2) = base"
      using b Cons.prems unfolding back_at_def vis_ok_def by simp_all metis
    have cnt: "Suc sn + length (filter (\<lambda>i. P i \<noteq> None) is) = nk" using Cons.prems Some by simp
    have "int (Suc sn) < 2 ^ 31" using cnt nk by linarith
    then have stop: "sint (of_nat nk :: c_int) \<le> sint (of_nat sn + 1 :: c_int) \<longleftrightarrow> nk \<le> Suc sn"
      using nk sint_of_nat_small [of "Suc sn"] by (auto simp: sint_of_nat_small add.commute)
    show ?thesis
    proof (cases "nk \<le> Suc sn")
      case True
      then have "length (filter (\<lambda>i. P i \<noteq> None) is) = 0" using cnt by linarith
      then have "filter (\<lambda>i. P i \<noteq> None) is = []" unfolding length_0_conv .
      then have "concat (map (\<lambda>i. kid_entries (of_nat i) (E i)) is) = []"
        using same by (auto simp: filter_empty_conv kid_entries_def)
      then have rest: "concat (map (\<lambda>i. kid_entries (of_nat i) (E i)) (i # is)) = kid_entries (of_nat i) (E i)"
        by simp
      show ?thesis
        unfolding rest using f v2 seen stop True Some by (auto simp: Let_def intro!: exI [of _ ?vis2])
    next
      case False
      obtain vis' out' where IH: "visit_children (of_nat nk) (of_nat (Suc sn)) (map P is) (rst + of_nat (length out)) ?vis2 (foldl g s out) =
          Inr (rst + of_nat (length out) + of_nat (length out'), vis', foldl g (foldl g s out) out')"
        "vis_ok (step_in vis')" "vpos vis' = pos" "take (unat (pos + 1)) (seq vis') = base"
        "list_all2 (entry_seen base) out' (concat (map (\<lambda>i. kid_entries (of_nat i) (E i)) is))"
        using Cons.IH [OF cnt v2, of "rst + of_nat (length out)" "foldl g s out"] by blast
      then show ?thesis
        using f stop False Some seen
        by (auto simp: Let_def add.commute add.left_commute intro!: exI [of _ vis'] exI [of _ "out @ out'"] list_all2_appendI)
    qed
  qed
qed

lemma nodes_kid: "child n c = Some m \<Longrightarrow> nodes m < nodes n"
proof -
  assume "child n c = Some m"
  then have "nodes m \<le> (\<Sum>d \<in> UNIV. below (child n d))"
    using member_le_sum [of c UNIV "\<lambda>d. below (child n d)"] by (simp add: below_def)
  then show ?thesis by (simp add: nodes_eq [of n])
qed

lemma card_kids: "length (filter (\<lambda>i. f (of_nat i :: byte) \<noteq> None) [0..<256]) = card (dom f)"
proof -
  have "length (filter (\<lambda>i. f (of_nat i) \<noteq> None) [0..<256]) = (\<Sum>i < 256. if f (of_nat i) \<noteq> None then 1 else 0)"
    by (simp add: length_filter_conv_card sum.If_cases atLeast0LessThan) (rule arg_cong [of _ _ card], auto)
  also have "\<dots> = (\<Sum>c \<in> UNIV. if f c \<noteq> None then 1 else 0)"
    by (rule sum_bytes [of "\<lambda>c. if f c \<noteq> None then 1 else 0"])
  also have "\<dots> = card (dom f)" by (simp add: sum.If_cases dom_def)
  finally show ?thesis .
qed

text \<open>The loop of one node, given that its children iterate.\<close>

abbreviation kid_iterators where
  "kid_iterators g junk n \<equiv> map (\<lambda>i. map_option (trie_node_iterate junk (calls g)) (child n (of_nat i))) [0..<256]"

definition all_kid_entries :: "'v trie_node \<Rightarrow> (cstring \<times> 'v) list" where
  "all_kid_entries n = concat (map (\<lambda>i. kid_entries (of_nat i) (map_option node_entries (child n (of_nat i)))) [0..<256])"

lemma kids_iterate:
  assumes wf: "trie_wf n" and ok: "vis_ok (step_in vis)" and room: "unat (vpos vis + 1) + nodes n \<le> 2 ^ 62"
    and kid: "\<And>c m vis'. child n c = Some m \<Longrightarrow> vis_ok vis' \<Longrightarrow> unat (vpos vis') + nodes m < 2 ^ 62 \<Longrightarrow>
      iterates g (trie_node_iterate junk (calls g) m) vis' (take (unat (vpos vis')) (seq vis') @ [c]) (node_entries m)"
  shows "\<exists>vis' out. visit_children (num_kids n) 0 (kid_iterators g junk n) rst vis s =
      Inr (rst + of_nat (length out), vis', foldl g s out) \<and> back_at (step_in vis) (step_in vis') \<and>
      list_all2 (entry_seen (take (unat (vpos vis + 1)) (seq vis))) out (all_kid_entries n)"
proof -
  let ?P = "\<lambda>i :: nat. map_option (trie_node_iterate junk (calls g)) (child n (of_nat i))"
    and ?E = "\<lambda>i :: nat. map_option node_entries (child n (of_nat i))"
  let ?base = "take (unat (vpos vis + 1)) (seq vis)"
  have "card (dom (child n)) \<le> card (UNIV :: byte set)" by (rule card_mono) simp_all
  then have small: "int (card (dom (child n))) < 2 ^ 31" by (simp add: card_word)
  have kids: "iterates g (the (?P i)) (step_in vis') (take (unat (vpos vis + 1)) (seq vis') @ [of_nat i]) (the (?E i))"
    if "?P i \<noteq> None" "vis_ok (step_in vis')" "vpos vis' = vpos vis" for i vis'
  proof -
    have "child n (of_nat i) \<noteq> None" using that(1) by auto
    then obtain m where m: "child n (of_nat i) = Some m" by blast
    have "unat (vpos (step_in vis')) + nodes m < 2 ^ 62"
      using nodes_kid [OF m] room that(3) by simp
    from kid [OF m that(2) this] m that(3) show ?thesis by simp
  qed
  have "0 + length (filter (\<lambda>i. ?P i \<noteq> None) [0..<256]) = card (dom (child n))"
    using card_kids [of "child n"] by simp
  from visit_children_spec [of ?P "vpos vis" g ?E, OF kids _ small this ok refl refl, of rst s]
  obtain vis' out where "visit_children (num_kids n) 0 (map ?P [0..<256]) rst vis s =
      Inr (rst + of_nat (length out), vis', foldl g s out)"
    "vis_ok (step_in vis')" "vpos vis' = vpos vis" "take (unat (vpos vis + 1)) (seq vis') = ?base"
    "list_all2 (entry_seen ?base) out (all_kid_entries n)"
    by (auto simp: trie_wfD(1) [OF wf] all_kid_entries_def)
  then show ?thesis by (intro exI [of _ vis'] exI [of _ out]) (simp add: back_at_def)
qed

lemma node_entries_eq: "node_entries n = (case node_value n of None \<Rightarrow> [] | Some x \<Rightarrow> [([], x)]) @ all_kid_entries n"
  by (cases n) (simp add: all_kid_entries_def)

lemma trie_node_iterate_eq:
  "trie_node_iterate junk cb n vis s =
     (let vis1 = grow_seq junk vis in
     ebind (if 0 < sint (pidx n) then put_seq vis1 (pidx n) else Inr vis1) (\<lambda>vis2.
     ebind (case node_value n of None \<Rightarrow> Inr (0, s) | Some x \<Rightarrow> ebind (cb s (seq vis2) x (vsize n)) (\<lambda>s1. Inr (1, s1))) (\<lambda>(rst, s1).
       visit_children (num_kids n) 0 (map (\<lambda>i. map_option (trie_node_iterate junk cb) (child n (of_nat i))) [0..<256]) rst vis2 s1)))"
  by (cases n) (simp only: trie_node_iterate.simps trie_node.sel)

text \<open>What the callback of a node sees before its children.\<close>

definition own_entry :: "visited \<Rightarrow> 'v trie_node \<Rightarrow> (byte list \<times> 'v) list" where
  "own_entry vis n = (case node_value n of None \<Rightarrow> [] | Some x \<Rightarrow> [(seq vis, x)])"

lemma iterate_from:
  assumes put: "(if 0 < sint (pidx n) then put_seq (grow_seq junk vis) (pidx n) else Inr (grow_seq junk vis)) = Inr vis2"
    and kids: "\<And>rst s. \<exists>vis' out. visit_children (num_kids n) 0 (kid_iterators g junk n) rst vis2 s =
      Inr (rst + of_nat (length out), vis', foldl g s out) \<and> back_at (step_in vis2) (step_in vis') \<and>
      list_all2 (entry_seen (take (unat (vpos vis2 + 1)) (seq vis2))) out (all_kid_entries n)"
  shows "\<exists>vis' out. trie_node_iterate junk (calls g) n vis s = Inr (of_nat (length out), vis', foldl g s out) \<and>
    back_at (step_in vis2) (step_in vis') \<and>
    list_all2 (entry_seen (take (unat (vpos vis2 + 1)) (seq vis2))) out (node_entries n)"
proof -
  let ?o = "own_entry vis2 n"
  obtain vis' out where loop: "visit_children (num_kids n) 0 (kid_iterators g junk n) (of_nat (length ?o)) vis2 (foldl g s ?o) =
      Inr (of_nat (length ?o) + of_nat (length out), vis', foldl g (foldl g s ?o) out)"
    and rest: "back_at (step_in vis2) (step_in vis')"
      "list_all2 (entry_seen (take (unat (vpos vis2 + 1)) (seq vis2))) out (all_kid_entries n)"
    using kids by blast
  have "trie_node_iterate junk (calls g) n vis s =
      visit_children (num_kids n) 0 (kid_iterators g junk n) (of_nat (length ?o)) vis2 (foldl g s ?o)"
    by (subst trie_node_iterate_eq)
      (simp only: Let_def put ebind_simps, simp add: own_entry_def calls_def split: option.split)
  then have "trie_node_iterate junk (calls g) n vis s = Inr (of_nat (length (?o @ out)), vis', foldl g s (?o @ out))"
    using loop by simp
  moreover have "list_all2 (entry_seen (take (unat (vpos vis2 + 1)) (seq vis2))) (?o @ out) (node_entries n)"
    unfolding node_entries_eq using rest(2)
    by (intro list_all2_appendI) (auto simp: own_entry_def entry_seen_def take_is_prefix split: option.split)
  ultimately show ?thesis using rest(1) by blast
qed

text \<open>A node that hangs under a character.\<close>

lemma trie_node_iterate_spec:
  "trie_wf n \<Longrightarrow> 0 < sint (pidx n) \<Longrightarrow> vis_ok vis \<Longrightarrow> unat (vpos vis) + nodes n < 2 ^ 62 \<Longrightarrow>
   iterates g (trie_node_iterate junk (calls g) n) vis (take (unat (vpos vis)) (seq vis) @ [pidx n]) (node_entries n)"
proof (induction n arbitrary: vis rule: measure_induct_rule [of nodes])
  case (less n)
  have pos: "unat (vpos vis) < 2 ^ 62" using less.prems(4) by simp
  let ?base = "take (unat (vpos vis)) (seq vis) @ [pidx n]"
  note g = grow_seq_ok [OF less.prems(3) pos, of junk]
  define vis2 where "vis2 = (grow_seq junk vis)\<lparr>seq := (seq (grow_seq junk vis))[unat (vpos vis) := pidx n]\<rparr>"
  have len: "unat (vpos vis) < length (seq (grow_seq junk vis))"
    using g(1,3) by (simp add: vis_ok_def word_less_nat_alt)
  have put: "(if 0 < sint (pidx n) then put_seq (grow_seq junk vis) (pidx n) else Inr (grow_seq junk vis)) = Inr vis2"
    using len g(2) less.prems(2) by (simp add: put_seq_def vis2_def)
  have suc: "unat (vpos vis + 1) = Suc (unat (vpos vis))"
    using pos by (simp add: unat_word_ariths)
  have ok2: "vis_ok (step_in vis2)" "vpos vis2 = vpos vis"
    using g(1,2,3) suc by (auto simp: vis_ok_def vis2_def word_le_nat_alt word_less_nat_alt)
  have base: "take (unat (vpos vis2 + 1)) (seq vis2) = ?base"
    using len g(4) unfolding ok2(2) by (simp add: suc vis2_def take_Suc_conv_app_nth)
  have room: "unat (vpos vis2 + 1) + nodes n \<le> 2 ^ 62" using less.prems(4) ok2(2) suc by simp
  have kid: "iterates g (trie_node_iterate junk (calls g) m) vis' (take (unat (vpos vis')) (seq vis') @ [c]) (node_entries m)"
    if "child n c = Some m" "vis_ok vis'" "unat (vpos vis') + nodes m < 2 ^ 62" for c m vis'
    using less.IH [OF nodes_kid [OF that(1)], of vis'] trie_wfD(2-4) [OF less.prems(1) that(1)] that by auto
  show ?case
    unfolding iterates_def
  proof
    fix s
    obtain vis' out where run: "trie_node_iterate junk (calls g) n vis s = Inr (of_nat (length out), vis', foldl g s out)"
      and b: "back_at (step_in vis2) (step_in vis')" and seen: "list_all2 (entry_seen ?base) out (node_entries n)"
      using iterate_from [OF put kids_iterate [OF less.prems(1) ok2(1) room kid], of s] unfolding base by blast
    have v': "vpos vis' = vpos vis" "take (Suc (unat (vpos vis))) (seq vis') = ?base" "vis_ok (step_in vis')"
      using b base ok2(2) suc by (auto simp: back_at_def)
    have "unat (vpos vis) \<le> length (seq vis)"
      using less.prems(3) by (simp add: vis_ok_def word_le_nat_alt)
    then have "take (unat (vpos vis)) (seq vis') = take (unat (vpos vis)) (seq vis)"
      using arg_cong [OF v'(2), of "take (unat (vpos vis))"] by simp
    with v' suc have "back_at vis vis'"
      by (auto simp: back_at_def vis_ok_def word_le_nat_alt)
    with run seen show "\<exists>vis' out. trie_node_iterate junk (calls g) n vis s = Inr (of_nat (length out), vis', foldl g s out) \<and>
        back_at vis vis' \<and> list_all2 (entry_seen ?base) out (node_entries n)" by blast
  qed
qed

lemma grow_root:
  assumes "length b = unat l" and "0 < unat l" and "unat l < 2 ^ 62"
  shows "vis_ok (step_in (grow_seq junk \<lparr>seq = b, seq_len = l, vpos = - 1\<rparr>))"
    and "vpos (grow_seq junk \<lparr>seq = b, seq_len = l, vpos = - 1\<rparr>) = - 1"
proof -
  have "unat (l * 2) = unat l * 2"
    using assms(3) by (subst unat_mult_lem [THEN iffD1]) simp_all
  with assms show "vis_ok (step_in (grow_seq junk \<lparr>seq = b, seq_len = l, vpos = - 1\<rparr>))"
    by (auto simp: grow_seq_def vis_ok_def word_less_nat_alt)
  show "vpos (grow_seq junk \<lparr>seq = b, seq_len = l, vpos = - 1\<rparr>) = - 1"
    by (simp add: grow_seq_def)
qed

lemma common_len: "unat (of_nat COMMON_STR_LEN :: size_t) = COMMON_STR_LEN" "0 < COMMON_STR_LEN" "COMMON_STR_LEN < 2 ^ 62"
  by (simp_all add: COMMON_STR_LEN_def)

lemma trie_iter_all_laws:
  assumes inv: "trie_inv t" and root: "trie_root t = Some r" and nodes_t: "trie_nodes t < 2 ^ 62"
  shows "\<exists>out. trie_iter_all junk t (calls g) s = Inr (of_nat (length out), foldl g s out) \<and>
    list_all2 (entry_seen []) out (node_entries r)"
proof -
  have wf: "trie_wf r" and the_root: "the_root t = Inr r" and p0: "pidx r = 0" and sz: "nodes r < 2 ^ 62"
    using trie_inv_root [OF inv] root nodes_t by auto
  let ?vis = "\<lparr>seq = replicate COMMON_STR_LEN 0, seq_len = of_nat COMMON_STR_LEN, vpos = - 1\<rparr>"
  define vis2 where "vis2 = grow_seq junk ?vis"
  have vis2: "vis_ok (step_in vis2)" "vpos vis2 = - 1"
    using grow_root [of "replicate COMMON_STR_LEN 0" "of_nat COMMON_STR_LEN" junk] common_len
    by (simp_all add: vis2_def)
  have put: "(if 0 < sint (pidx r) then put_seq (grow_seq junk ?vis) (pidx r) else Inr (grow_seq junk ?vis)) = Inr vis2"
    using p0 by (simp add: vis2_def)
  have kid: "iterates g (trie_node_iterate junk (calls g) m) vis' (take (unat (vpos vis')) (seq vis') @ [c]) (node_entries m)"
    if "child r c = Some m" "vis_ok vis'" "unat (vpos vis') + nodes m < 2 ^ 62" for c m vis'
    using trie_node_iterate_spec [of m vis' g junk] trie_wfD(2-4) [OF wf that(1)] that by auto
  have room: "unat (vpos vis2 + 1) + nodes r \<le> 2 ^ 62" using vis2(2) sz by simp
  obtain vis' out where "trie_node_iterate junk (calls g) r ?vis s = Inr (of_nat (length out), vis', foldl g s out)"
    "list_all2 (entry_seen (take (unat (vpos vis2 + 1)) (seq vis2))) out (node_entries r)"
    using iterate_from [OF put kids_iterate [OF wf vis2(1) room kid], of s] by blast
  with vis2(2) show ?thesis by (auto simp: trie_iter_all_def the_root)
qed

lemma follow_prefix_spec:
  "trie_wf n \<Longrightarrow> ascii pre \<Longrightarrow> vis_ok vis \<Longrightarrow> unat (vpos vis) + length pre \<le> unat (seq_len vis) \<Longrightarrow>
   (case node_at n pre of
      None \<Rightarrow> follow_prefix n pre vis = Inr None
    | Some m \<Rightarrow> \<exists>vis'. follow_prefix n pre vis = Inr (Some (m, vis')) \<and> vis_ok vis' \<and>
        unat (vpos vis') = unat (vpos vis) + length pre \<and>
        take (unat (vpos vis')) (seq vis') = take (unat (vpos vis)) (seq vis) @ pre \<and>
        (pre \<noteq> [] \<longrightarrow> pidx m = last pre))"
proof (induction pre arbitrary: n vis)
  case (Cons c pre)
  show ?case
  proof (cases "child n c")
    case (Some m)
    have len: "unat (vpos vis) < length (seq vis)" using Cons.prems(3,4) by (simp add: vis_ok_def)
    have suc: "unat (vpos vis + 1) = Suc (unat (vpos vis))"
    proof -
      have "unat (vpos vis) < 2 ^ 63" using Cons.prems(3) len by (simp add: vis_ok_def)
      then show ?thesis by (simp add: unat_word_ariths)
    qed
    define vis1 where "vis1 = vis\<lparr>seq := (seq vis)[unat (vpos vis) := c], vpos := vpos vis + 1\<rparr>"
    have step: "follow_prefix n (c # pre) vis = follow_prefix m pre vis1"
      using Some len Cons.prems(2) by (simp add: put_seq_def vis1_def)
    have v1: "vis_ok vis1" "unat (vpos vis1) + length pre \<le> unat (seq_len vis1)"
      using Cons.prems(3,4) suc by (auto simp: vis1_def vis_ok_def word_le_nat_alt)
    have tk: "take (unat (vpos vis1)) (seq vis1) = take (unat (vpos vis)) (seq vis) @ [c]" "unat (vpos vis1) = Suc (unat (vpos vis))"
      using len suc by (simp_all add: vis1_def take_Suc_conv_app_nth)
    have "trie_wf m" "pidx m = c" using trie_wfD(2,4) [OF Cons.prems(1) Some] by auto
    with Cons.IH [of m vis1] v1 Cons.prems(2) show ?thesis
      unfolding step node_at.simps Some option.case
      by (cases "node_at m pre") (auto simp: tk(2) tk(1) [unfolded tk(2)])
  qed (use Cons.prems in simp)
qed simp

lemma distinct_map_Cons: "distinct (map fst xs) \<longleftrightarrow> distinct (map (\<lambda>x. c # fst x) xs)"
  by (induction xs) auto

lemma distinct_concat_kids:
  assumes "\<And>i xs. i \<in> set is \<Longrightarrow> E i = Some xs \<Longrightarrow> distinct (map fst xs)" and "distinct (map f is)"
  shows "distinct (map fst (concat (map (\<lambda>i. kid_entries (f i) (E i)) is)))"
  using assms
proof (induction "is")
  case (Cons i "is")
  have heads: "k \<in> fst ` set (kid_entries (f j) (E j)) \<Longrightarrow> \<exists>k'. k = f j # k'" for k j
    by (auto simp: kid_entries_def split: option.splits)
  have "fst ` set (kid_entries (f i) (E i)) \<inter> fst ` set (concat (map (\<lambda>i. kid_entries (f i) (E i)) is)) = {}"
  proof (rule equals0I)
    fix k assume "k \<in> fst ` set (kid_entries (f i) (E i)) \<inter> fst ` set (concat (map (\<lambda>i. kid_entries (f i) (E i)) is))"
    then obtain j where "j \<in> set is" "k \<in> fst ` set (kid_entries (f j) (E j))" "k \<in> fst ` set (kid_entries (f i) (E i))"
      by auto
    with heads [of k i] heads [of k j] Cons.prems(2) show False by force
  qed
  moreover have "distinct (map fst (kid_entries (f i) (E i)))"
    using Cons.prems(1) [of i]
    by (auto simp: kid_entries_def comp_def simp flip: distinct_map_Cons split: option.split)
  moreover have "distinct (map fst (concat (map (\<lambda>i. kid_entries (f i) (E i)) is)))"
    using Cons.prems(2) by (intro Cons.IH) (auto dest: Cons.prems(1) [rotated])
  ultimately show ?case by simp
qed simp

lemma distinct_bytes: "distinct (map (of_nat :: nat \<Rightarrow> byte) [0..<256])"
  by (auto simp: distinct_map inj_on_def word_unat_eq_iff unat_of_nat)

lemma distinct_node_entries: "distinct (map fst (node_entries n))"
proof (induction n)
  case (Trie_Node v vs cp nk ch p)
  have "distinct (map fst xs)" if "map_option node_entries (ch (of_nat i)) = Some xs" for i xs
  proof (cases "ch (of_nat i)")
    case (Some m)
    then have "Some m \<in> range ch" by (metis rangeI)
    with Trie_Node.IH [of "Some m" m] Some that show ?thesis by simp
  qed (use that in simp)
  then have "distinct (map fst (concat (map (\<lambda>i. kid_entries (of_nat i) (map_option node_entries (ch (of_nat i)))) [0..<256])))"
    by (intro distinct_concat_kids distinct_bytes) blast
  moreover have "[] \<notin> fst ` set (kid_entries c es)" for c and es :: "(cstring \<times> 'a) list option"
    by (auto simp: kid_entries_def split: option.splits)
  ultimately show ?case by (auto split: option.split)
qed

lemma length_node_entries: "length (node_entries n) = card (dom (node_map n))"
proof -
  have "dom (node_map n) = fst ` set (node_entries n)"
    using in_node_entries [of _ _ n] by (force simp: dom_def image_iff)
  then show ?thesis using distinct_card [OF distinct_node_entries [of n]] by simp
qed

lemma trie_iter_prefix_laws:
  assumes inv: "trie_inv t" and root: "trie_root t = Some r" and nodes_t: "trie_nodes t < 2 ^ 61"
    and pre: "ascii pre" "pre \<noteq> []" "length pre \<le> COMMON_STR_LEN"
  shows "case node_at r pre of
      None \<Rightarrow> trie_iter_prefix junk t pre (calls g) s = Inr (0, s)
    | Some n \<Rightarrow> \<exists>own out. trie_iter_prefix junk t pre (calls g) s = Inr (of_nat (length (own @ out)), foldl g s (own @ out)) \<and>
        list_all2 (entry_seen pre) own (case node_value n of None \<Rightarrow> [] | Some x \<Rightarrow> [([], x)]) \<and>
        list_all2 (entry_seen (pre @ [last pre])) out (node_entries n)"
proof -
  have wf: "trie_wf r" and the_root: "the_root t = Inr r" and sz: "nodes r < 2 ^ 61"
    using trie_inv_root [OF inv] root nodes_t by auto
  let ?vis = "\<lparr>seq = replicate COMMON_STR_LEN 0, seq_len = of_nat COMMON_STR_LEN, vpos = 0\<rparr>"
  have vis: "vis_ok ?vis" "unat (vpos ?vis) + length pre \<le> unat (seq_len ?vis)"
    using common_len pre(3) by (simp_all add: vis_ok_def word_less_nat_alt)
  note follow = follow_prefix_spec [OF wf pre(1) vis]
  show ?thesis
  proof (cases "node_at r pre")
    case None
    with follow show ?thesis by (simp add: trie_iter_prefix_def the_root)
  next
    case (Some n)
    obtain vis' where v: "follow_prefix r pre ?vis = Inr (Some (n, vis'))" "vis_ok vis'"
      "unat (vpos vis') = length pre" "take (length pre) (seq vis') = pre" "pidx n = last pre"
      using follow Some pre(2) by auto
    have n: "trie_wf n" "0 < sint (pidx n)" "nodes n \<le> nodes r"
    proof -
      show "trie_wf n" by (rule node_at_wf [OF wf Some])
      show "0 < sint (pidx n)" using pre v(5) by (auto simp: ascii_def)
      show "nodes n \<le> nodes r" using Some
      proof (induction pre arbitrary: r)
        case (Cons c pre)
        then show ?case using nodes_kid by (fastforce split: option.splits)
      qed simp
    qed
    have "unat (vpos vis') + nodes n < 2 ^ 62"
      using v(3) pre(3) sz n(3) by (simp add: COMMON_STR_LEN_def)
    note it = trie_node_iterate_spec [OF n(1,2) v(2) this, of g junk]
    obtain vis2 out where run: "trie_node_iterate junk (calls g) n vis' (foldl g s (own_entry vis' n)) =
        Inr (of_nat (length out), vis2, foldl g (foldl g s (own_entry vis' n)) out)"
      and seen: "list_all2 (entry_seen (pre @ [last pre])) out (node_entries n)"
      using it v(3-5) unfolding iterates_def by metis
    have "trie_iter_prefix junk t pre (calls g) s =
        Inr (of_nat (length (own_entry vis' n @ out)), foldl g s (own_entry vis' n @ out))"
      using run by (simp add: trie_iter_prefix_def the_root v(1) own_entry_def calls_def split: option.splits)
    moreover have "prefix pre (seq vis')" using v(4) take_is_prefix by metis
    then have "list_all2 (entry_seen pre) (own_entry vis' n) (case node_value n of None \<Rightarrow> [] | Some x \<Rightarrow> [([], x)])"
      by (simp add: own_entry_def entry_seen_def split: option.split)
    ultimately show ?thesis using seen Some by auto
  qed
qed

text \<open>The callback that collects what it sees.\<close>

definition collect_all :: "(byte list \<times> 'v) list \<Rightarrow> byte list \<Rightarrow> 'v \<Rightarrow> size_t \<Rightarrow> c_error + (byte list \<times> 'v) list" where
  "collect_all = calls (\<lambda>s x. s @ [x])"

lemma foldl_snoc: "foldl (\<lambda>s x. s @ [x]) s xs = s @ xs"
  by (induction xs arbitrary: s) simp_all

text \<open>What a prefix query sees, whatever the callback does with it.\<close>

lemma trie_iter_prefix_entries:
  assumes "trie_inv t" and "trie_nodes t < 2 ^ 61"
    and "ascii pre" and "pre \<noteq> []" and "length pre \<le> COMMON_STR_LEN"
  shows "\<exists>out. trie_iter_prefix junk t pre (calls g) s = Inr (of_nat (length out), foldl g s out) \<and>
    length out = card {k. trie_map t (pre @ k) \<noteq> None} + (if trie_map t pre = None then 0 else 1) \<and>
    (\<forall>v. v \<in> snd ` set out \<longleftrightarrow> (\<exists>k. trie_map t (pre @ k) = Some v))"
proof -
  obtain r where root: "trie_root t = Some r" and map: "trie_map t = node_map r"
    using trie_inv_root [OF assms(1)] by blast
  have at: "node_map r (pre @ k) = Option.bind (node_at r pre) (\<lambda>n. node_map n k)" for k
    using node_at_append [of r pre k] by (cases "node_at r pre") (simp_all add: node_map_def)
  note laws = trie_iter_prefix_laws [OF assms(1) root assms(2-5), of junk g s]
  show ?thesis
  proof (cases "node_at r pre")
    case None
    then show ?thesis using laws at [of "[]"] by (auto simp: map at)
  next
    case (Some n)
    obtain own out where run: "trie_iter_prefix junk t pre (calls g) s = Inr (of_nat (length (own @ out)), foldl g s (own @ out))"
      and own: "list_all2 (entry_seen pre) own (case node_value n of None \<Rightarrow> [] | Some x \<Rightarrow> [([], x)])"
      and out: "list_all2 (entry_seen (pre @ [last pre])) out (node_entries n)"
      using laws Some by auto
    have here: "node_map r (pre @ k) = node_map n k" for k by (simp add: at Some)
    have "map snd out = map snd (node_entries n)"
      using out by (induction rule: list_all2_induct) (auto simp: entry_seen_def)
    then have "snd ` set out = snd ` set (node_entries n)" by (metis set_map)
    also have "\<dots> = {v. \<exists>k. node_map n k = Some v}"
      using in_node_entries [of _ _ n] by (force simp: image_iff)
    finally have vals: "snd ` set out = {v. \<exists>k. node_map n k = Some v}" .
    have own': "map snd own = (case node_value n of None \<Rightarrow> [] | Some x \<Rightarrow> [x])"
      using own by (auto simp: entry_seen_def list_all2_Cons2 split: option.splits)
    have "v \<in> snd ` set own \<Longrightarrow> node_map n [] = Some v" for v
      using own' by (auto simp flip: set_map split: option.splits)
    then have "snd ` set own \<subseteq> {v. \<exists>k. node_map n k = Some v}" by blast
    moreover have "length own = (if node_value n = None then 0 else 1)"
      using arg_cong [OF own', of length] by (simp split: option.splits)
    moreover have "length out = card {k. node_map n k \<noteq> None}"
      using list_all2_lengthD [OF out] by (simp add: length_node_entries dom_def)
    ultimately show ?thesis
      using run vals here [of "[]"] by (intro exI [of _ "own @ out"]) (auto simp: map here)
  qed
qed

section \<open>Properties\<close>

lemma trie_create_laws: "trie_inv trie_create" "trie_map trie_create = Map.empty"
  by (simp_all add: trie_inv_def trie_map_def trie_create_def)

text \<open>A trie with one key, for the examples.\<close>

lemma one_key:
  "\<exists>t. trie_insert trie_create (str ''ab'') (Some True) 1 False = Inr (t, 2) \<and> trie_inv t \<and>
    trie_map t = [str ''ab'' \<mapsto> True] \<and> trie_nodes t \<le> 3"
proof -
  have key: "ascii (str ''ab'')" by (simp add: str_def)
  obtain t k where t: "trie_insert trie_create (str ''ab'') (Some True) 1 False = Inr (t, of_nat k)" "k \<le> 2" "trie_inv t"
    "trie_map t = [str ''ab'' \<mapsto> True]" "trie_nodes t = trie_nodes (trie_create :: bool trie) + k"
    using trie_insert_laws [OF trie_create_laws(1) key, of False "Some True" 1] by (auto simp: trie_create_laws str_def)
  have "map_sum id snd (trie_insert trie_create (str ''ab'') (Some True) 1 False) = Inr (2 :: c_int)"
    by (simp add: trie_insert_def the_root_def trie_create_def str_def trie_node_set_value_def)
  with t show ?thesis by (auto simp: trie_nodes_def trie_create_def)
qed

text \<open>C28: Insertion into a trie succeeds for every key of characters below 128 and changes what lookup
  returns for that key and for no other; it creates at most one node per character.\<close>

theorem trie_insert_find:
  assumes "trie_inv t" and "ascii key"
  shows "\<exists>t' k. trie_insert t key (Some v) vs copy = Inr (t', of_nat k) \<and> k \<le> length key \<and> trie_inv t' \<and>
    (\<forall>key'. ascii key' \<longrightarrow> (\<exists>sz. trie_find t' key' = Inr (((trie_map t)(key \<mapsto> v)) key', sz)))"
proof -
  obtain t' k where t': "trie_insert t key (Some v) vs copy = Inr (t', of_nat k)" "k \<le> length key" "trie_inv t'"
    "trie_map t' = (trie_map t)(key \<mapsto> v)"
    using trie_insert_laws [OF assms, of copy "Some v" vs] by auto
  have "\<exists>sz. trie_find t' key' = Inr (((trie_map t)(key \<mapsto> v)) key', sz)" if "ascii key'" for key'
    using trie_find_laws(2) [OF t'(3) that] unfolding t'(4) .
  with t' show ?thesis by blast
qed

theorem trie_insert_find_witness:
  "\<exists>t'. trie_insert trie_create (str ''ab'') (Some True) 1 False = Inr (t', 2) \<and>
     (\<exists>sz. trie_find t' (str ''ab'') = Inr (Some True, sz))"
proof -
  have key: "ascii (str ''ab'')" by (simp add: str_def)
  obtain t' k where "trie_insert trie_create (str ''ab'') (Some True) 1 False = Inr (t', of_nat k)"
    "\<exists>sz. trie_find t' (str ''ab'') = Inr (Some True, sz)"
    using trie_insert_find [OF trie_create_laws(1) key, of True 1 False] key by auto
  moreover have "map_sum id snd (trie_insert trie_create (str ''ab'') (Some True) 1 False) = Inr (2 :: c_int)"
    by (simp add: trie_insert_def the_root_def trie_create_def str_def trie_node_set_value_def)
  ultimately show ?thesis by auto
qed

text \<open>C34: A removal, for a non-empty key of characters below 128, takes out the whole subtree of the key: every key that has the removed key as a
  prefix is gone, and no other. It keeps the invariant and the count of nodes. All copied values of these keys are freed, also when the caller asks for the value: the
  pointer it gets is that of the key's value if the value was not copied, and a pointer to freed memory if it was. The values that were not copied go to the free callback
  if there is one and the caller does not ask for the value.\<close>

theorem trie_remove_removes_extensions:
  assumes "trie_inv t" and "ascii key" and "key \<noteq> []"
  shows "\<exists>t' k rel ptr sz. trie_remove cb t key want = Inr (t', k, rel, ptr, sz) \<and> trie_inv t' \<and>
    trie_map t' = (\<lambda>key'. if prefix key key' then None else trie_map t key') \<and> node_count t = node_count t' + k \<and>
    ptr = (if want then map_option (if key_copied t key then Dangling else Live) (trie_map t key) else None) \<and>
    (\<forall>x. Freed_Copy x \<in> set rel \<longleftrightarrow> (\<exists>key'. prefix key key' \<and> trie_map t key' = Some x \<and> key_copied t key')) \<and>
    (\<forall>x. Callback_On x \<in> set rel \<longleftrightarrow>
       cb \<and> \<not> want \<and> (\<exists>key'. prefix key key' \<and> trie_map t key' = Some x \<and> \<not> key_copied t key'))"
  by (rule trie_remove_laws [OF assms])

theorem trie_remove_removes_extensions_witness:
  "\<exists>t t' k rel sz. trie_insert trie_create (str ''ab'') (Some True) 1 True = Inr (t, 2) \<and> trie_map t (str ''ab'') = Some True \<and>
    trie_remove False t (str ''ab'') True = Inr (t', k, rel, Some (Dangling True), sz) \<and> Freed_Copy True \<in> set rel \<and>
    trie_map t' (str ''ab'') = None"
proof -
  have key: "ascii (str ''ab'')" "str ''ab'' \<noteq> []"
    by (simp_all add: str_def)
  obtain t k where t: "trie_insert trie_create (str ''ab'') (Some True) 1 True = Inr (t, of_nat k)" "trie_inv t"
    "trie_map t = [str ''ab'' \<mapsto> True]"
    using trie_insert_laws [OF trie_create_laws(1) key(1), of True "Some True" 1] by (auto simp: trie_create_laws)
  have n: "map_sum id (\<lambda>(t, k). (k, key_copied t (str ''ab''))) (trie_insert trie_create (str ''ab'') (Some True) 1 True) = Inr (2 :: c_int, True)"
    by (simp add: trie_insert_def the_root_def trie_create_def str_def trie_node_set_value_def key_copied_def copied_def put_child_def)
  then have c: "key_copied t (str ''ab'')" "(of_nat k :: c_int) = 2" using t(1) by auto
  obtain t' k' rel ptr sz where r: "trie_remove False t (str ''ab'') True = Inr (t', k', rel, ptr, sz)"
    "trie_map t' = (\<lambda>key'. if prefix (str ''ab'') key' then None else trie_map t key')"
    "ptr = map_option (if key_copied t (str ''ab'') then Dangling else Live) (trie_map t (str ''ab''))"
    "\<forall>x. Freed_Copy x \<in> set rel \<longleftrightarrow> (\<exists>key'. prefix (str ''ab'') key' \<and> trie_map t key' = Some x \<and> key_copied t key')"
    using trie_remove_removes_extensions [OF t(2) key, of False True] by auto
  have "Freed_Copy True \<in> set rel" using r(4) c(1) t(3) by auto
  moreover have "ptr = Some (Dangling True)" using r(3) c(1) t(3) by simp
  ultimately show ?thesis using t c r(1,2) by auto
qed

text \<open>The empty key stands for the root, which a removal frees like any other node: the next operation on the trie reads freed memory.\<close>

theorem trie_remove_empty_key_frees_root:
  assumes "trie_root t = Some r"
  shows "\<exists>t' k rel ptr sz. trie_remove cb t [] want = Inr (t', k, rel, ptr, sz) \<and> trie_find t' key = Inl Bad_Pointer"
  using assms
  by (auto simp: trie_remove_def the_root_def Let_def trie_node_destroy_def trie_find_def trie_find_internal_def split: prod.splits)

theorem trie_remove_empty_key_frees_root_witness:
  "\<exists>t' k rel ptr sz. trie_remove False (trie_create :: bool trie) [] True = Inr (t', k, rel, ptr, sz) \<and> trie_find t' [97] = Inl Bad_Pointer"
  by (rule trie_remove_empty_key_frees_root [of _ "new_node 0"]) (simp add: trie_create_def)

text \<open>An iteration over the trie calls back once for every key: as many callbacks as there are
  keys, each with the value of a key that starts the buffer handed over, and every key among them.\<close>

theorem trie_iter_all_visits:
  assumes "trie_inv t" and "trie_nodes t < 2 ^ 62"
  shows "\<exists>out. trie_iter_all junk t collect_all [] = Inr (of_nat (length out), out) \<and>
    length out = card (dom (trie_map t)) \<and>
    (\<forall>(buf, v) \<in> set out. \<exists>k. trie_map t k = Some v \<and> prefix k buf) \<and>
    (\<forall>k v. trie_map t k = Some v \<longrightarrow> (\<exists>buf. (buf, v) \<in> set out \<and> prefix k buf))"
proof -
  obtain r where root: "trie_root t = Some r" and map: "trie_map t = node_map r"
    using trie_inv_root [OF assms(1)] by blast
  obtain out where out: "trie_iter_all junk t collect_all [] = Inr (of_nat (length out), out)"
    and seen: "list_all2 (entry_seen []) out (node_entries r)"
    using trie_iter_all_laws [OF assms(1) root assms(2), of junk "\<lambda>s x. s @ [x]" "[]"] by (auto simp: collect_all_def foldl_snoc)
  have "length out = card (dom (trie_map t))"
    using list_all2_lengthD [OF seen] by (simp add: length_node_entries map)
  moreover have "\<exists>k. trie_map t k = Some v \<and> prefix k buf" if "(buf, v) \<in> set out" for buf v
  proof -
    from list_all2_members(1) [OF seen that]
    obtain e where "e \<in> set (node_entries r)" "entry_seen [] (buf, v) e" by blast
    then have "trie_map t (fst e) = Some v" "prefix (fst e) buf"
      using in_node_entries [of "fst e" "snd e" r] by (simp_all add: entry_seen_def map)
    then show ?thesis by blast
  qed
  moreover have "\<exists>buf. (buf, v) \<in> set out \<and> prefix k buf" if "trie_map t k = Some v" for k v
  proof -
    have "(k, v) \<in> set (node_entries r)" using that by (simp add: in_node_entries map)
    then obtain x where "x \<in> set out" "entry_seen [] x (k, v)" using list_all2_members(2) [OF seen] by blast
    then have "x \<in> set out" "snd x = v" "prefix k (fst x)" by (simp_all add: entry_seen_def)
    then show ?thesis by (metis prod.collapse)
  qed
  ultimately show ?thesis using out by auto
qed

theorem trie_iter_all_visits_witness:
  "\<exists>t out. trie_insert trie_create (str ''ab'') (Some True) 1 False = Inr (t, 2) \<and>
    trie_iter_all (\<lambda>_. 0) t collect_all [] = Inr (1, out) \<and> length out = 1"
proof -
  obtain t where t: "trie_insert trie_create (str ''ab'') (Some True) 1 False = Inr (t, 2)" "trie_inv t"
    "trie_map t = [str ''ab'' \<mapsto> True]" "trie_nodes t \<le> 3"
    using one_key by blast
  then have "trie_nodes t < 2 ^ 62" by simp
  from trie_iter_all_visits [OF t(2) this, of "\<lambda>_. 0"] t(1,3) show ?thesis by auto
qed

text \<open>A prefix query calls back for exactly the keys that have the prefix, and for a key equal to
  the prefix twice: the node is reported before the iteration, which reports it again.\<close>

theorem trie_iter_prefix_visits:
  assumes "trie_inv t" and "trie_nodes t < 2 ^ 61"
    and "ascii pre" and "pre \<noteq> []" and "length pre \<le> COMMON_STR_LEN"
  shows "\<exists>out. trie_iter_prefix junk t pre collect_all [] = Inr (of_nat (length out), out) \<and>
    length out = card {k. trie_map t (pre @ k) \<noteq> None} + (if trie_map t pre = None then 0 else 1) \<and>
    (\<forall>v. v \<in> snd ` set out \<longleftrightarrow> (\<exists>k. trie_map t (pre @ k) = Some v))"
  using trie_iter_prefix_entries [OF assms, of junk "\<lambda>s x. s @ [x]" "[]"] by (simp add: collect_all_def foldl_snoc)

theorem trie_iter_prefix_visits_witness:
  "\<exists>t out. trie_insert trie_create (str ''ab'') (Some True) 1 False = Inr (t, 2) \<and>
    trie_iter_prefix (\<lambda>_. 0) t (str ''ab'') collect_all [] = Inr (2, out) \<and> snd ` set out = {True}"
proof -
  obtain t where t: "trie_insert trie_create (str ''ab'') (Some True) 1 False = Inr (t, 2)" "trie_inv t"
    "trie_map t = [str ''ab'' \<mapsto> True]" "trie_nodes t \<le> 3"
    using one_key by blast
  have pre: "ascii (str ''ab'')" "str ''ab'' \<noteq> []" "length (str ''ab'') \<le> COMMON_STR_LEN"
    by (simp_all add: str_def COMMON_STR_LEN_def)
  have "trie_nodes t < 2 ^ 61" using t(4) by simp
  from trie_iter_prefix_visits [OF t(2) this pre, of "\<lambda>_. 0"]
  obtain out where out: "trie_iter_prefix (\<lambda>_. 0) t (str ''ab'') collect_all [] = Inr (of_nat (length out), out)"
    "length out = card {k. trie_map t (str ''ab'' @ k) \<noteq> None} + (if trie_map t (str ''ab'') = None then 0 else 1)"
    "\<forall>v. v \<in> snd ` set out \<longleftrightarrow> (\<exists>k. trie_map t (str ''ab'' @ k) = Some v)"
    by blast
  have "{k. trie_map t (str ''ab'' @ k) \<noteq> None} = {[]}" "snd ` set out = {True}"
    using out(3) t(3) by (auto split: if_splits)
  with out t show ?thesis by auto
qed

text \<open>The trie counts a key only when it creates a node for it: a key that is the prefix of a
  stored one is not counted.\<close>

theorem trie_count_misses_prefix:
  "\<exists>t1 t2. trie_insert trie_create (str ''ab'') (Some True) 1 False = Inr (t1, 2) \<and>
    trie_insert t1 (str ''a'') (Some True) 1 False = Inr (t2, 0) \<and> trie_count t2 = 1 \<and>
    trie_map t2 = [str ''ab'' \<mapsto> True, str ''a'' \<mapsto> True]"
proof -
  obtain t1 where t1: "trie_insert trie_create (str ''ab'') (Some True) 1 False = Inr (t1, 2)" "trie_inv t1"
    "trie_map t1 = [str ''ab'' \<mapsto> True]"
    using one_key by blast
  have key: "ascii (str ''a'')" by (simp add: str_def)
  obtain t2 k where t2: "trie_insert t1 (str ''a'') (Some True) 1 False = Inr (t2, of_nat k)"
    "trie_map t2 = [str ''ab'' \<mapsto> True, str ''a'' \<mapsto> True]"
    using trie_insert_laws [OF t1(2) key, of False "Some True" 1] t1(3) by auto
  define both where "both = ebind (trie_insert trie_create (str ''ab'') (Some True) 1 False)
    (\<lambda>(t, _). trie_insert t (str ''a'') (Some True) 1 False)"
  have "map_sum id (\<lambda>(t, k). (trie_count t, k)) both = Inr (1 :: c_int, 0 :: c_int)"
    unfolding both_def
    by (simp add: trie_insert_def the_root_def trie_create_def str_def trie_node_set_value_def)
  then have "trie_count t2 = 1" "(of_nat k :: c_int) = 0" using t1(1) t2(1) by (auto simp: both_def)
  with t1 t2 show ?thesis by auto
qed

end
