(* ===== verification/String_Index.thy ===== *)
theory String_Index
  imports Art_Map Trie Linklist String_Utils
begin

text \<open>
  Two of the string indices of src/src/index/spi, art_string_index.c over the radix tree and
  trie_string_index.c over the trie: creation, insertion, exact search and search by prefix, suffix or infix.
  An index is NULL (\<open>None\<close>) or a tree; results are linked lists of the data found.
\<close>

section \<open>Over the radix tree\<close>

record 'd infix_iter_arg =
  arg_rst :: "'d linked_list option"
  arg_infix :: "cstring option"

definition create_art :: "int \<times> 'd art_tree option" where
  "create_art = (0, Some art_tree_init)"

definition insert_string_to_art ::
  "'d art_tree option \<Rightarrow> cstring \<Rightarrow> 'd \<Rightarrow> c_error + (int \<times> 'd art_tree option)" where
  "insert_string_to_art idx key data =
     (case idx of
        None \<Rightarrow> Inr (- 1, None)
      | Some t \<Rightarrow> ebind (art_insert t key data) (\<lambda>(t', _). Inr (0, Some t')))"

text \<open>The last argument is what \<^verbatim>\<open>out[0]\<close> held before; the result is the code and what it holds after.\<close>

definition search_string_in_art ::
  "'d art_tree option \<Rightarrow> cstring \<Rightarrow> 'd option \<Rightarrow> c_error + (int \<times> 'd option)" where
  "search_string_in_art idx key out =
     (case idx of
        None \<Rightarrow> Inr (- 1, out)
      | Some t \<Rightarrow> ebind (art_search t key) (\<lambda>data. Inr (0, data)))"

text \<open>
  The callbacks. A leaf stores its key without a terminator, so looking for an infix in it would run
  past the leaf; the state of the iteration carries such an error.
\<close>

definition infix_callback :: "(c_error + 'd infix_iter_arg) \<Rightarrow> cstring \<Rightarrow> 'd \<Rightarrow> int \<times> (c_error + 'd infix_iter_arg)" where
  "infix_callback st key value =
     (case st of
        Inl e \<Rightarrow> (1, Inl e)
      | Inr args \<Rightarrow> (case arg_infix args of None \<Rightarrow> (0, Inr args) | Some i \<Rightarrow> (1, Inl Out_Of_Bounds)))"

definition prefix_callback :: "'d linked_list \<Rightarrow> cstring \<Rightarrow> 'd \<Rightarrow> int \<times> 'd linked_list" where
  "prefix_callback l key value = list_push_value (Some value) l"

definition search_affix_in_art ::
  "'d art_tree option \<Rightarrow> pattern_type \<Rightarrow> cstring \<Rightarrow> c_error + 'd linked_list option" where
  "search_affix_in_art idx afx_type affix =
     (case idx of
        None \<Rightarrow> Inr None
      | Some art \<Rightarrow>
          let rst = list_create in
          if afx_type = PATTERN_PREFIX \<or> afx_type = PATTERN_SUFFIX then
            ebind (art_iter_prefix art affix prefix_callback rst) (\<lambda>(_, rst'). Inr (Some rst'))
          else if afx_type = PATTERN_MIDDLE then
            ebind (snd (art_iter art infix_callback (Inr \<lparr>arg_rst = None, arg_infix = None\<rparr>))) (\<lambda>_. Inr (Some rst))
          else
            ebind (search_string_in_art (Some art) affix None) (\<lambda>(_, out).
              Inr (Some (snd (list_push_value out rst)))))"

section \<open>Over the trie\<close>

text \<open>What a node points to: the data, or the parameter of a call that has returned.\<close>

datatype 'd target = Data 'd | Dead_Parameter

definition create_trie :: "int \<times> 'd target trie option" where
  "create_trie = (0, Some trie_create)"

definition insert_string_to_trie ::
  "'d target trie option \<Rightarrow> cstring \<Rightarrow> 'd \<Rightarrow> c_error + (c_int \<times> 'd target trie option)" where
  "insert_string_to_trie idx key data =
     (case idx of
        None \<Rightarrow> Inr (- 1, None)
      | Some t \<Rightarrow>
          ebind (trie_insert t key (Some Dead_Parameter) 8 False) (\<lambda>(t1, _).
          ebind (read_cstr (reverse_str key)) (\<lambda>rkey.
          ebind (trie_insert t1 rkey (Some (Data data)) 8 False) (\<lambda>(t2, rst).
            Inr (rst, Some t2)))))"

definition search_string_in_trie ::
  "'d target trie option \<Rightarrow> cstring \<Rightarrow> 'd target option \<Rightarrow> c_error + (int \<times> 'd target option)" where
  "search_string_in_trie idx key out =
     (case idx of
        None \<Rightarrow> Inr (- 1, out)
      | Some t \<Rightarrow> ebind (trie_find t key) (\<lambda>(data, _). Inr (0, data)))"

text \<open>The infix callback reads the buffer as a string; the prefix callback only takes the value.\<close>

definition trie_iter_infix_cb ::
  "cstring \<Rightarrow> 'd target linked_list \<Rightarrow> byte list \<Rightarrow> 'd target \<Rightarrow> size_t \<Rightarrow> c_error + 'd target linked_list" where
  "trie_iter_infix_cb infx l key_on_node value vs =
     ebind (read_cstr key_on_node) (\<lambda>k.
       Inr (if contains k infx then snd (list_push_value (Some value) l) else l))"

definition trie_iter_prefix_cb ::
  "'d target linked_list \<Rightarrow> byte list \<Rightarrow> 'd target \<Rightarrow> size_t \<Rightarrow> c_error + 'd target linked_list" where
  "trie_iter_prefix_cb l key_on_node value vs = Inr (snd (list_push_value (Some value) l))"

definition search_affix_in_trie ::
  "(nat \<Rightarrow> byte) \<Rightarrow> 'd target trie option \<Rightarrow> pattern_type \<Rightarrow> cstring \<Rightarrow> c_error + 'd target linked_list option" where
  "search_affix_in_trie junk idx afx_type affix =
     (case idx of
        None \<Rightarrow> Inr None
      | Some t \<Rightarrow>
          let rst = list_create in
          case afx_type of
            PATTERN_MIDDLE \<Rightarrow>
              ebind (trie_iter_all junk t (trie_iter_infix_cb affix) rst) (\<lambda>(_, rst'). Inr (Some rst'))
          | PATTERN_PREFIX \<Rightarrow>
              ebind (trie_iter_prefix junk t affix trie_iter_prefix_cb rst) (\<lambda>(_, rst'). Inr (Some rst'))
          | PATTERN_SUFFIX \<Rightarrow>
              ebind (read_cstr (reverse_str affix)) (\<lambda>reverse_affix.
              ebind (trie_iter_prefix junk t reverse_affix trie_iter_prefix_cb rst) (\<lambda>(_, rst'). Inr (Some rst')))
          | PATTERN_EXACT \<Rightarrow>
              ebind (search_string_in_trie (Some t) affix None) (\<lambda>(_, data).
                Inr (Some (snd (list_push_value data rst)))))"

section \<open>Laws\<close>

lemma read_reverse: "no_nul key \<Longrightarrow> read_cstr (reverse_str key) = Inr (rev key)"
  using cstr_no_nul [of "rev key" "[]"] by (simp add: read_cstr_def reverse_str_correct no_nul_def)

lemma ascii_no_nul: "ascii key \<Longrightarrow> no_nul key"
  by (auto simp: ascii_def no_nul_def)

lemma ascii_rev [simp]: "ascii (rev key) = ascii key"
  by (simp add: ascii_def)

text \<open>The result list of a prefix query over a trie.\<close>

definition push_seen :: "'a linked_list \<Rightarrow> byte list \<times> 'a \<Rightarrow> 'a linked_list" where
  "push_seen l x = snd (list_push_value (Some (snd x)) l)"

lemma prefix_cb_calls: "trie_iter_prefix_cb = calls push_seen"
  by (simp add: fun_eq_iff trie_iter_prefix_cb_def calls_def push_seen_def)

lemma foldl_push:
  "list_inv l \<Longrightarrow> list_inv (foldl push_seen l out) \<and>
   list_values (foldl push_seen l out) = list_values l @ map (Some \<circ> snd) out"
  by (induction out arbitrary: l) (simp_all add: ll.push_snd push_seen_def)

lemma insert_string_to_trie_laws:
  assumes inv: "trie_inv t" and key: "ascii key"
  shows "\<exists>t' k. insert_string_to_trie (Some t) key d = Inr (k, Some t') \<and> trie_inv t' \<and>
    trie_map t' = (trie_map t)(key \<mapsto> Dead_Parameter, rev key \<mapsto> Data d) \<and>
    trie_nodes t' \<le> trie_nodes t + 2 * length key"
proof -
  obtain t1 k1 where t1: "trie_insert t key (Some Dead_Parameter) 8 False = Inr (t1, k1)" "trie_inv t1"
    "trie_map t1 = (trie_map t)(key \<mapsto> Dead_Parameter)" "trie_nodes t1 \<le> trie_nodes t + length key"
    using trie_insert_laws [OF inv key, of False "Some Dead_Parameter" 8] by auto
  obtain t2 k2 where "trie_insert t1 (rev key) (Some (Data d)) 8 False = Inr (t2, k2)" "trie_inv t2"
    "trie_map t2 = (trie_map t1)(rev key \<mapsto> Data d)" "trie_nodes t2 \<le> trie_nodes t1 + length key"
    using trie_insert_laws [OF t1(2), of "rev key" False "Some (Data d)" 8] key by auto
  with t1 show ?thesis
    by (simp add: insert_string_to_trie_def read_reverse [OF ascii_no_nul [OF key]])
qed

lemma prefix_query:
  assumes "trie_inv t" and "trie_nodes t < 2 ^ 61"
    and "ascii pre" and "pre \<noteq> []" and "length pre \<le> COMMON_STR_LEN"
  shows "\<exists>n l. trie_iter_prefix junk t pre trie_iter_prefix_cb list_create = Inr (n, l) \<and> list_inv l \<and>
    length (list_values l) = card {k. trie_map t (pre @ k) \<noteq> None} + (if trie_map t pre = None then 0 else 1) \<and>
    set (list_values l) = {Some v |v. \<exists>k. trie_map t (pre @ k) = Some v}"
proof -
  obtain out where out: "trie_iter_prefix junk t pre (calls push_seen) list_create = Inr (of_nat (length out), foldl push_seen list_create out)"
    "length out = card {k. trie_map t (pre @ k) \<noteq> None} + (if trie_map t pre = None then 0 else 1)"
    "\<And>v. v \<in> snd ` set out \<longleftrightarrow> (\<exists>k. trie_map t (pre @ k) = Some v)"
    using trie_iter_prefix_entries [OF assms, of junk push_seen list_create] by blast
  have l: "list_inv (foldl push_seen list_create out)" "list_values (foldl push_seen list_create out) = map (Some \<circ> snd) out"
    using foldl_push [OF ll.inv_create, of out] by (simp_all add: ll.vals_create)
  have "set (map (Some \<circ> snd) out) = Some ` (snd ` set out)" by auto
  also have "snd ` set out = {v. \<exists>k. trie_map t (pre @ k) = Some v}" using out(3) by blast
  also have "Some ` \<dots> = {Some v |v. \<exists>k. trie_map t (pre @ k) = Some v}" by blast
  finally show ?thesis using out(1,2) l by (auto simp: prefix_cb_calls)
qed

lemma suffix_query:
  assumes "trie_inv t" and "trie_nodes t < 2 ^ 61"
    and "ascii suf" and "suf \<noteq> []" and "length suf \<le> COMMON_STR_LEN"
  shows "\<exists>l. search_affix_in_trie junk (Some t) PATTERN_SUFFIX suf = Inr (Some l) \<and>
    set (list_values l) = {Some v |v. \<exists>k. suffix suf k \<and> trie_map t (rev k) = Some v} \<and>
    length (list_values l) = card {k. suffix suf k \<and> trie_map t (rev k) \<noteq> None} +
      (if trie_map t (rev suf) = None then 0 else 1)"
proof -
  have pre: "ascii (rev suf)" "rev suf \<noteq> []" "length (rev suf) \<le> COMMON_STR_LEN" using assms(3-5) by simp_all
  obtain n l where l: "trie_iter_prefix junk t (rev suf) trie_iter_prefix_cb list_create = Inr (n, l)"
    "length (list_values l) = card {k. trie_map t (rev suf @ k) \<noteq> None} + (if trie_map t (rev suf) = None then 0 else 1)"
    "set (list_values l) = {Some v |v. \<exists>k. trie_map t (rev suf @ k) = Some v}"
    using prefix_query [OF assms(1,2) pre, of junk] by blast
  have keys: "(\<exists>k. P (rev suf @ k)) \<longleftrightarrow> (\<exists>k. suffix suf k \<and> P (rev k))" for P
    by (metis rev_append rev_rev_ident suffix_def)
  have "bij_betw (\<lambda>k. rev k @ suf) {k. trie_map t (rev suf @ k) \<noteq> None} {k. suffix suf k \<and> trie_map t (rev k) \<noteq> None}"
    by (rule bij_betw_byWitness [where f' = "\<lambda>k. rev (take (length k - length suf) k)"]) (auto simp: suffix_def)
  then have "card {k. trie_map t (rev suf @ k) \<noteq> None} = card {k. suffix suf k \<and> trie_map t (rev k) \<noteq> None}"
    by (rule bij_betw_same_card)
  with l show ?thesis
    by (simp add: search_affix_in_trie_def read_reverse [OF ascii_no_nul [OF assms(3)]] keys [of "\<lambda>k. trie_map t k = Some _"])
qed

section \<open>Properties\<close>

text \<open>A suffix search in the trie index returns the data of exactly the strings that end with the
  suffix, found through the reversed keys; a string equal to the suffix counts twice.\<close>

theorem trie_suffix_search:
  assumes "trie_inv t" and "trie_nodes t < 2 ^ 61"
    and "ascii suf" and "suf \<noteq> []" and "length suf \<le> COMMON_STR_LEN"
  shows "\<exists>l. search_affix_in_trie junk (Some t) PATTERN_SUFFIX suf = Inr (Some l) \<and>
    set (list_values l) = {Some v |v. \<exists>k. suffix suf k \<and> trie_map t (rev k) = Some v} \<and>
    length (list_values l) = card {k. suffix suf k \<and> trie_map t (rev k) \<noteq> None} +
      (if trie_map t (rev suf) = None then 0 else 1)"
  by (rule suffix_query [OF assms])

theorem trie_suffix_search_witness:
  "\<exists>k t l. insert_string_to_trie (Some trie_create) (str ''ab'') True = Inr (k, Some t) \<and>
    search_affix_in_trie (\<lambda>_. 0) (Some t) PATTERN_SUFFIX (str ''b'') = Inr (Some l) \<and> Some (Data True) \<in> set (list_values l)"
proof -
  have key: "ascii (str ''ab'')" by (simp add: str_def)
  obtain t k where t: "insert_string_to_trie (Some trie_create) (str ''ab'') True = Inr (k, Some t)" "trie_inv t"
    "trie_map t (rev (str ''ab'')) = Some (Data True)" "trie_nodes t \<le> 5"
    using insert_string_to_trie_laws [OF trie_create_laws(1) key, of True]
    by (auto simp: trie_nodes_def trie_create_def str_def)
  have suf: "ascii (str ''b'')" "str ''b'' \<noteq> []" "length (str ''b'') \<le> COMMON_STR_LEN" "suffix (str ''b'') (str ''ab'')"
    by (simp_all add: str_def COMMON_STR_LEN_def suffix_def)
  have "trie_nodes t < 2 ^ 61" using t(4) by simp
  from trie_suffix_search [OF t(2) this suf(1-3), of "\<lambda>_. 0"] t(1,3) suf(4) show ?thesis by blast
qed

text \<open>A string inserted into the trie index is found by every suffix of it, with its data; an exact search
  for it finds a pointer to the parameter of the finished call instead, unless the string is a palindrome.\<close>

theorem trie_index_inserted:
  assumes "trie_inv t" and "ascii key" and "trie_nodes t + 2 * length key < 2 ^ 61"
    and "suffix suf key" and "suf \<noteq> []" and "length suf \<le> COMMON_STR_LEN"
  shows "\<exists>k t' l. insert_string_to_trie (Some t) key d = Inr (k, Some t') \<and> trie_inv t' \<and>
    search_affix_in_trie junk (Some t') PATTERN_SUFFIX suf = Inr (Some l) \<and> Some (Data d) \<in> set (list_values l) \<and>
    search_string_in_trie (Some t') key out = Inr (0, Some (if rev key = key then Data d else Dead_Parameter))"
proof -
  obtain t' k where t': "insert_string_to_trie (Some t) key d = Inr (k, Some t')" "trie_inv t'"
    "trie_map t' = (trie_map t)(key \<mapsto> Dead_Parameter, rev key \<mapsto> Data d)"
    "trie_nodes t' \<le> trie_nodes t + 2 * length key"
    using insert_string_to_trie_laws [OF assms(1,2)] by blast
  have suf: "ascii suf" using assms(2,4) by (auto simp: ascii_def suffix_def)
  have "trie_nodes t' < 2 ^ 61" using t'(4) assms(3) by linarith
  from suffix_query [OF t'(2) this suf assms(5,6), of junk]
  obtain l where "search_affix_in_trie junk (Some t') PATTERN_SUFFIX suf = Inr (Some l)"
    "set (list_values l) = {Some v |v. \<exists>k. suffix suf k \<and> trie_map t' (rev k) = Some v}" by blast
  moreover have "\<exists>k. suffix suf k \<and> trie_map t' (rev k) = Some (Data d)"
    using assms(4) t'(3) by (intro exI [of _ key]) simp
  moreover have "search_string_in_trie (Some t') key out = Inr (0, Some (if rev key = key then Data d else Dead_Parameter))"
    using trie_find_laws(2) [OF t'(2) assms(2)] t'(3) by (auto simp: search_string_in_trie_def)
  ultimately show ?thesis using t'(1,2) by blast
qed

theorem trie_index_inserted_witness:
  "\<exists>k t' l. insert_string_to_trie (Some trie_create) (str ''ab'') True = Inr (k, Some t') \<and>
    search_affix_in_trie (\<lambda>_. 0) (Some t') PATTERN_SUFFIX (str ''b'') = Inr (Some l) \<and> Some (Data True) \<in> set (list_values l) \<and>
    search_string_in_trie (Some t') (str ''ab'') None = Inr (0, Some Dead_Parameter)"
proof -
  have key: "ascii (str ''ab'')" "suffix (str ''b'') (str ''ab'')" "str ''b'' \<noteq> []" "length (str ''b'') \<le> COMMON_STR_LEN"
    "rev (str ''ab'') \<noteq> str ''ab''"
    by (simp_all add: str_def COMMON_STR_LEN_def suffix_def)
  have "trie_nodes (trie_create :: bool target trie) + 2 * length (str ''ab'') < 2 ^ 61"
    by (simp add: trie_nodes_def trie_create_def str_def)
  from trie_index_inserted [OF trie_create_laws(1) key(1) this key(2-4), of True "\<lambda>_. 0" None] key(5)
  show ?thesis by auto
qed

text \<open>An infix search in the radix tree index always returns an empty list: the callback never gets the
  infix nor the list.\<close>

theorem art_infix_search_empty:
  "search_affix_in_art (Some t) PATTERN_MIDDLE affix = Inr (Some list_create)"
proof -
  have "recursive_iter infix_callback n (Inr \<lparr>arg_rst = None, arg_infix = None\<rparr>) =
      (0, Inr \<lparr>arg_rst = None, arg_infix = None\<rparr>)" for n :: "'a art_node"
  proof (induction n rule: measure_induct_rule [of size])
    case (less n)
    show ?case
    proof (cases "is_leaf n")
      case True
      then show ?thesis by (cases n) (simp_all add: infix_callback_def)
    next
      case False
      have "until_nonzero (\<lambda>p. recursive_iter infix_callback (snd p)) ps (Inr \<lparr>arg_rst = None, arg_infix = None\<rparr>) =
          (0, Inr \<lparr>arg_rst = None, arg_infix = None\<rparr>)" if "set ps \<subseteq> set (kid_pairs n)" for ps
        using that
      proof (induction ps)
        case (Cons p ps)
        then show ?case using less.IH [of "snd p"] size_kid [of "fst p" "snd p" n] by simp
      qed simp
      then show ?thesis unfolding recursive_iter_inner [OF False] by blast
    qed
  qed
  then have "snd (art_iter t infix_callback (Inr \<lparr>arg_rst = None, arg_infix = None\<rparr>)) = Inr \<lparr>arg_rst = None, arg_infix = None\<rparr>"
    by (simp add: art_iter_def split: option.split)
  then show ?thesis by (simp add: search_affix_in_art_def)
qed

text \<open>A string inserted into the radix tree index is found by an exact search, with its data.\<close>

theorem art_index_inserted:
  assumes "tree_inv t" and "no_nul key"
  shows "\<exists>t'. insert_string_to_art (Some t) key d = Inr (0, Some t') \<and> tree_inv t' \<and>
    search_string_in_art (Some t') key out = Inr (0, Some d)"
proof -
  obtain t' where t': "art_insert t key d = Inr (t', tree_map t key)" "tree_inv t'" "tree_map t' = (tree_map t)(key \<mapsto> d)"
    using art.add_law [OF assms] by blast
  have "art_search t' key = Inr (Some d)" using art.get_stored [OF t'(2)] t'(3) by simp
  with t' show ?thesis by (simp add: insert_string_to_art_def search_string_in_art_def)
qed

theorem art_index_inserted_witness:
  "\<exists>t'. insert_string_to_art (Some art_tree_init) [97] True = Inr (0, Some t') \<and>
    search_string_in_art (Some t') [97] None = Inr (0, Some True)"
  using art_index_inserted [OF art.init_inv, of "[97]" True None] by (auto simp: no_nul_def)

end
