(* ===== verification/Spi_String.thy ===== *)
theory Spi_String
  imports String_Index Hashtable Rbtree Skiplist "HOL-Library.List_Lexorder"
begin

unbundle bit_operations_syntax

text \<open>
  The string indices of src/src/index/spi over the hash table (hast_table_string_index.c) and over the red-black tree
  (rbtree_string_index.c), and the functions of spi.c that choose between these and the ones of the theory \<open>String_Index\<close> by the
  environment variable \<^verbatim>\<open>MIQS_STR_IDX_IMPL\<close>, which is the argument \<open>env\<close>.

  A key is a C string without its terminator. Neither container stores the terminator. The hash table keeps keys of less than 32 bytes
  in a zeroed buffer; reading a longer one as a string is an error. The nodes of the tree point to memory of the size of the key, and
  the comparator reads on behind it: a key of the tree is what is found there, the key followed by the bytes \<open>past\<close> gives for it. The data is not NULL.
\<close>

section \<open>Over the hash table\<close>

definition create_hashtable :: "nat \<Rightarrow> int \<times> 'd hashtable option" where
  "create_hashtable rnd = (0, Some (ht_create rnd 256 0 False))"

definition insert_string_to_hashtable :: "'d hashtable option \<Rightarrow> cstring \<Rightarrow> 'd \<Rightarrow> c_error + (int \<times> 'd hashtable option)" where
  "insert_string_to_hashtable idx key data =
     (case idx of
        None \<Rightarrow> Inr (0, None)
      | Some t \<Rightarrow> ebind (ht_set t key (Some (Ref data)) 8) (\<lambda>(rc, t'). Inr (rc, Some t')))"

text \<open>The length is the caller's; the key can be read up to its terminator. Without a match \<^verbatim>\<open>dlen\<close> keeps -1.\<close>

definition search_string_in_hashtable ::
  "'d hashtable option \<Rightarrow> cstring \<Rightarrow> nat \<Rightarrow> 'd data option \<Rightarrow> c_error + (int \<times> 'd data option)" where
  "search_string_in_hashtable idx key len out =
     (case idx of
        None \<Rightarrow> Inr (0, out)
      | Some t \<Rightarrow>
          if len > length key + 1 then Inl Out_Of_Bounds
          else ebind (ht_get t (take len (key @ [0]))) (\<lambda>(data, dlen).
            Inr (case dlen of None \<Rightarrow> - 1 | Some n \<Rightarrow> sint (of_nat n :: c_int), data)))"

definition ht_affix_match_cb ::
  "affix \<Rightarrow> (c_error + 'd data linked_list) \<Rightarrow> byte list \<Rightarrow> 'd data option \<Rightarrow> nat \<Rightarrow> int \<times> (c_error + 'd data linked_list)" where
  "ht_affix_match_cb affix_info st key v vlen =
     (1, ebind st (\<lambda>collector.
           if 32 \<le> length key then Inl Out_Of_Bounds
           else Inr (if is_matching_given_affix (cstr key) affix_info then snd (list_push_value v collector) else collector)))"

definition search_affix_in_hashtable ::
  "'d hashtable option \<Rightarrow> pattern_type \<Rightarrow> cstring \<Rightarrow> c_error + 'd data linked_list option" where
  "search_affix_in_hashtable idx afx_type affix =
     (case idx of
        None \<Rightarrow> Inr None
      | Some t \<Rightarrow>
          ebind (snd (ht_foreach_pair t (ht_affix_match_cb (create_affix_info affix (of_nat (length affix)) afx_type)) (Inr list_create)))
            (\<lambda>l. Inr (Some l)))"

section \<open>Over the red-black tree\<close>

fun strcmp :: "cstring \<Rightarrow> cstring \<Rightarrow> int" where
  "strcmp [] [] = 0"
| "strcmp [] (b # bs) = - uint b"
| "strcmp (a # as) [] = uint a"
| "strcmp (a # as) (b # bs) = (if a = b then strcmp as bs else uint a - uint b)"

definition libhl_cmp_keys_string :: "byte list \<Rightarrow> byte list \<Rightarrow> int" where
  "libhl_cmp_keys_string k1 k2 = strcmp (cstr k1) (cstr k2)"

text \<open>
  The tree is created with \<^verbatim>\<open>free\<close> as its callback, which gets the data an insertion replaces, unless the same pointer takes its place: the second part of
  \<open>str_tree\<close> is what was freed so far.
\<close>

type_synonym 'd str_tree = "(byte list, 'd) rbt \<times> 'd list"

definition create_rbtree :: "int \<times> 'd str_tree option" where
  "create_rbtree = (0, Some (rbt_create libhl_cmp_keys_string, []))"

definition replaced_value :: "(byte list, 'd) rbt \<Rightarrow> byte list \<Rightarrow> 'd \<Rightarrow> 'd list" where
  "replaced_value t k data =
     (case snd (rbt_find t k) of None \<Rightarrow> [] | Some old \<Rightarrow> if data \<noteq> old then [old] else [])"

definition insert_string_to_rbtree ::
  "(byte list \<Rightarrow> byte list) \<Rightarrow> 'd str_tree option \<Rightarrow> cstring \<Rightarrow> 'd \<Rightarrow> (int \<times> 'd str_tree option) option" where
  "insert_string_to_rbtree past idx key data =
     (case idx of
        None \<Rightarrow> Some (- 1, None)
      | Some (t, freed) \<Rightarrow>
          map_option (\<lambda>(rc, t'). (rc, Some (t', freed @ replaced_value t (key @ past key) data))) (rbt_add t (key @ past key) data))"

definition search_string_in_rbtree :: "'d str_tree option \<Rightarrow> cstring \<Rightarrow> nat \<Rightarrow> 'd option \<Rightarrow> int \<times> 'd option" where
  "search_string_in_rbtree idx key len out =
     (case idx of
        None \<Rightarrow> (- 1, out)
      | Some (t, _) \<Rightarrow> (case rbt_find t (key @ [0]) of (rc, Some v) \<Rightarrow> (rc, Some v) | (rc, None) \<Rightarrow> (rc, out)))"

definition rbt_affix_match_cb :: "affix \<Rightarrow> (byte list, 'd, 'd linked_list) rbt_walk_callback" where
  "rbt_affix_match_cb affix_info key v collector =
     (RBT_WALK_CONTINUE,
      if is_matching_given_affix (cstr key) affix_info then snd (list_push_value (Some v) collector) else collector)"

definition search_affix_in_rbtree :: "'d str_tree option \<Rightarrow> pattern_type \<Rightarrow> cstring \<Rightarrow> 'd linked_list option" where
  "search_affix_in_rbtree idx afx_type affix =
     (case idx of
        None \<Rightarrow> None
      | Some (t, _) \<Rightarrow>
          Some (snd (rbt_walk t (rbt_affix_match_cb (create_affix_info affix (of_nat (length affix)) afx_type)) list_create)))"

section \<open>The choice\<close>

datatype 'd string_index = Hash_Idx "'d hashtable" | Tree_Idx "'d str_tree" | Trie_Idx "'d target trie" | Art_Idx "'d art_tree"

datatype str_impl = STR_HASHTABLE | STR_SBST | STR_TRIE | STR_ART

definition str_impl_of :: "string option \<Rightarrow> str_impl" where
  "str_impl_of env =
     (case env of
        Some s \<Rightarrow>
          if s = ''HASHTABLE'' then STR_HASHTABLE else if s = ''SBST'' then STR_SBST else if s = ''TRIE'' then STR_TRIE else STR_ART
      | None \<Rightarrow> STR_ART)"

definition create_string_index :: "nat \<Rightarrow> string option \<Rightarrow> int \<times> 'd string_index option" where
  "create_string_index rnd env =
     (case str_impl_of env of
        STR_HASHTABLE \<Rightarrow> map_prod id (map_option Hash_Idx) (create_hashtable rnd)
      | STR_SBST \<Rightarrow> map_prod id (map_option Tree_Idx) create_rbtree
      | STR_TRIE \<Rightarrow> map_prod id (map_option Trie_Idx) create_trie
      | STR_ART \<Rightarrow> map_prod id (map_option Art_Idx) create_art)"

text \<open>A root of another kind than the environment variable says is read as what it is not.\<close>

definition with_root :: "('i \<Rightarrow> 'x option) \<Rightarrow> 'i option \<Rightarrow> ('x option \<Rightarrow> (c_error + 'b) option) \<Rightarrow> (c_error + 'b) option" where
  "with_root sel idx f =
     (case idx of
        None \<Rightarrow> f None
      | Some i \<Rightarrow> (case sel i of None \<Rightarrow> Some (Inl Bad_Pointer) | Some x \<Rightarrow> f (Some x)))"

text \<open>The trie and the radix tree get the key and its reverse.\<close>

definition insert_string ::
  "(byte list \<Rightarrow> byte list) \<Rightarrow> string option \<Rightarrow> 'd string_index option \<Rightarrow> cstring \<Rightarrow> 'd \<Rightarrow> (c_error + (int \<times> 'd string_index option)) option" where
  "insert_string past env idx key data =
     (case str_impl_of env of
        STR_HASHTABLE \<Rightarrow> with_root (\<lambda>i. case i of Hash_Idx x \<Rightarrow> Some x | _ \<Rightarrow> None) idx (\<lambda>x.
          Some (ebind (insert_string_to_hashtable x key data) (\<lambda>(rc, x'). Inr (rc, map_option Hash_Idx x'))))
      | STR_SBST \<Rightarrow> with_root (\<lambda>i. case i of Tree_Idx x \<Rightarrow> Some x | _ \<Rightarrow> None) idx (\<lambda>x.
          map_option (\<lambda>(rc, x'). Inr (rc, map_option Tree_Idx x')) (insert_string_to_rbtree past x key data))
      | STR_TRIE \<Rightarrow> with_root (\<lambda>i. case i of Trie_Idx x \<Rightarrow> Some x | _ \<Rightarrow> None) idx (\<lambda>x.
          Some (ebind (insert_string_to_trie x key data) (\<lambda>(rc1, x1).
                ebind (read_cstr (reverse_str key)) (\<lambda>rev_str.
                ebind (insert_string_to_trie x1 rev_str data) (\<lambda>(rc2, x2).
                  Inr (sint (rc1 OR rc2), map_option Trie_Idx x2))))))
      | STR_ART \<Rightarrow> with_root (\<lambda>i. case i of Art_Idx x \<Rightarrow> Some x | _ \<Rightarrow> None) idx (\<lambda>x.
          Some (ebind (insert_string_to_art x key data) (\<lambda>(rc1, x1).
                ebind (read_cstr (reverse_str key)) (\<lambda>rev_str.
                ebind (insert_string_to_art x1 rev_str data) (\<lambda>(rc2, x2).
                  Inr (rc1 OR rc2, map_option Art_Idx x2)))))))"

datatype 'd str_out = From_Hash "'d data" | From_Tree 'd | From_Trie "'d target"

text \<open>The code of the search is dropped: the function always returns -1. A missing root leaves \<^verbatim>\<open>out[0]\<close> alone, and so does a tree without the key.\<close>

definition search_string ::
  "string option \<Rightarrow> 'd string_index option \<Rightarrow> cstring \<Rightarrow> int \<Rightarrow> 'd str_out option \<Rightarrow> (c_error + (int \<times> 'd str_out option)) option" where
  "search_string env idx key len out =
     (case str_impl_of env of
        STR_HASHTABLE \<Rightarrow> with_root (\<lambda>i. case i of Hash_Idx x \<Rightarrow> Some x | _ \<Rightarrow> None) idx (\<lambda>x.
          Some (ebind (search_string_in_hashtable x key (nat (len mod 2 ^ 64)) None) (\<lambda>(_, d). Inr (- 1, if Option.is_none x then out else map_option From_Hash d))))
      | STR_SBST \<Rightarrow> with_root (\<lambda>i. case i of Tree_Idx x \<Rightarrow> Some x | _ \<Rightarrow> None) idx (\<lambda>x.
          let (rc, d) = search_string_in_rbtree x key (nat (len mod 2 ^ 64)) None in Some (Inr (- 1, if rc = - 1 then out else map_option From_Tree d)))
      | STR_TRIE \<Rightarrow> with_root (\<lambda>i. case i of Trie_Idx x \<Rightarrow> Some x | _ \<Rightarrow> None) idx (\<lambda>x.
          Some (ebind (search_string_in_trie x key None) (\<lambda>(rc, d). Inr (- 1, if rc = - 1 then out else map_option From_Trie d))))
      | STR_ART \<Rightarrow> with_root (\<lambda>i. case i of Art_Idx x \<Rightarrow> Some x | _ \<Rightarrow> None) idx (\<lambda>x.
          Some (ebind (search_string_in_art x key None) (\<lambda>(rc, d). Inr (- 1, if rc = - 1 then out else map_option From_Tree d)))))"

datatype 'd affix_result =
  Hash_List "'d data linked_list option" | Tree_List "'d linked_list option" | Trie_List "'d target linked_list option"

definition search_affix ::
  "(nat \<Rightarrow> byte) \<Rightarrow> string option \<Rightarrow> 'd string_index option \<Rightarrow> pattern_type \<Rightarrow> cstring \<Rightarrow> (c_error + 'd affix_result) option" where
  "search_affix junk env idx afx_type affix =
     (case str_impl_of env of
        STR_HASHTABLE \<Rightarrow> with_root (\<lambda>i. case i of Hash_Idx x \<Rightarrow> Some x | _ \<Rightarrow> None) idx (\<lambda>x.
          Some (ebind (search_affix_in_hashtable x afx_type affix) (\<lambda>l. Inr (Hash_List l))))
      | STR_SBST \<Rightarrow> with_root (\<lambda>i. case i of Tree_Idx x \<Rightarrow> Some x | _ \<Rightarrow> None) idx (\<lambda>x.
          Some (Inr (Tree_List (search_affix_in_rbtree x afx_type affix))))
      | STR_TRIE \<Rightarrow> with_root (\<lambda>i. case i of Trie_Idx x \<Rightarrow> Some x | _ \<Rightarrow> None) idx (\<lambda>x.
          Some (ebind (search_affix_in_trie junk x afx_type affix) (\<lambda>l. Inr (Trie_List l))))
      | STR_ART \<Rightarrow> with_root (\<lambda>i. case i of Art_Idx x \<Rightarrow> Some x | _ \<Rightarrow> None) idx (\<lambda>x.
          Some (ebind (search_affix_in_art x afx_type affix) (\<lambda>l. Inr (Tree_List l)))))"

text \<open>These do nothing yet.\<close>

definition delete_string :: "'d string_index option \<Rightarrow> cstring \<Rightarrow> 'd \<Rightarrow> int \<times> 'd string_index option" where
  "delete_string idx key data = (- 1, idx)"

definition update_string :: "'d string_index option \<Rightarrow> cstring \<Rightarrow> 'd \<Rightarrow> int \<times> 'd string_index option" where
  "update_string idx key newdata = (- 1, idx)"

definition destroy_string_index :: "'d string_index option \<Rightarrow> int \<times> 'd string_index option" where
  "destroy_string_index idx = (- 1, idx)"

section \<open>The order of the tree\<close>

lemma uint_pos: "b \<noteq> 0 \<Longrightarrow> 0 < uint b"
  using uint_ge_0 [of b] by (simp add: order_less_le uint_0_iff)

lemma strcmp_sign:
  "no_nul xs \<Longrightarrow> no_nul ys \<Longrightarrow> (strcmp xs ys < 0 \<longleftrightarrow> xs < ys) \<and> (strcmp xs ys = 0 \<longleftrightarrow> xs = ys)"
proof (induction xs ys rule: strcmp.induct)
  case (2 b bs)
  then have "0 < uint b" by (simp add: uint_pos)
  then show ?case by simp
next
  case (3 a as)
  then have "0 < uint a" by (simp add: uint_pos)
  then show ?case by simp
next
  case (4 a as b bs)
  show ?case
  proof (cases "a = b")
    case False
    then have "uint a \<noteq> uint b" by (simp add: word_uint_eq_iff)
    then show ?thesis using False by (simp add: word_less_def)
  qed (use 4 in auto)
qed simp

interpretation string_order: key_order libhl_cmp_keys_string cstr UNIV
  by unfold_locales (simp_all add: libhl_cmp_keys_string_def strcmp_sign)

section \<open>What a client relies on\<close>

text \<open>A store of strings: every insertion of an admissible key returns, keeps the store good and changes what is found for this key only.\<close>

locale string_store =
  fixes good :: "'s \<Rightarrow> bool" and key_ok :: "cstring \<Rightarrow> bool"
    and put :: "'s \<Rightarrow> cstring \<Rightarrow> 'd \<Rightarrow> (c_error + 's) option" and found :: "'s \<Rightarrow> cstring \<Rightarrow> 'd option"
  assumes put_law: "good s \<Longrightarrow> key_ok k \<Longrightarrow> \<exists>s'. put s k d = Some (Inr s') \<and> good s' \<and>
      (\<forall>k'. key_ok k' \<longrightarrow> found s' k' = (if k' = k then Some d else found s k'))"
begin

primrec put_all :: "'s \<Rightarrow> (cstring \<times> 'd) list \<Rightarrow> (c_error + 's) option" where
  "put_all s [] = Some (Inr s)"
| "put_all s (kd # kds) =
     (case put s (fst kd) (snd kd) of
        None \<Rightarrow> None
      | Some (Inl e) \<Rightarrow> Some (Inl e)
      | Some (Inr s') \<Rightarrow> put_all s' kds)"

lemma put_all_found:
  assumes "good s" and "\<forall>k \<in> fst ` set kds. key_ok k"
  shows "\<exists>s'. put_all s kds = Some (Inr s') \<and> good s' \<and>
    (\<forall>k. key_ok k \<longrightarrow> found s' k = (case map_of (rev kds) k of None \<Rightarrow> found s k | Some d \<Rightarrow> Some d))"
  using assms
proof (induction kds arbitrary: s)
  case (Cons kd kds)
  obtain s1 where s1: "put s (fst kd) (snd kd) = Some (Inr s1)" "good s1"
      "\<forall>k'. key_ok k' \<longrightarrow> found s1 k' = (if k' = fst kd then Some (snd kd) else found s k')"
    using put_law [OF Cons.prems(1), of "fst kd" "snd kd"] Cons.prems(2) by auto
  obtain s' where "put_all s1 kds = Some (Inr s')" "good s'"
      "\<forall>k. key_ok k \<longrightarrow> found s' k = (case map_of (rev kds) k of None \<Rightarrow> found s1 k | Some d \<Rightarrow> Some d)"
    using Cons.IH [OF s1(2)] Cons.prems(2) by auto
  with s1(1,3) show ?case by (auto simp: map_add_def split: option.splits)
qed simp

end

text \<open>The insertions and searches of a client of spi.c, as a store; what a search reports in a result that was NULL before.\<close>

definition spi_put :: "(byte list \<Rightarrow> byte list) \<Rightarrow> string option \<Rightarrow> 'd string_index option \<Rightarrow> cstring \<Rightarrow> 'd \<Rightarrow>
    (c_error + 'd string_index option) option" where
  "spi_put past env idx key data = map_option (\<lambda>r. ebind r (\<lambda>(rc, idx'). Inr idx')) (insert_string past env idx key data)"

definition spi_found :: "string option \<Rightarrow> 'd string_index option \<Rightarrow> cstring \<Rightarrow> 'd option" where
  "spi_found env idx key =
     (case search_string env idx key (int (length key)) None of
        Some (Inr (_, Some (From_Hash (Ref d)))) \<Rightarrow> Some d
      | Some (Inr (_, Some (From_Tree d))) \<Rightarrow> Some d
      | _ \<Rightarrow> None)"

definition str_key :: "cstring \<Rightarrow> bool" where
  "str_key k \<longleftrightarrow> k \<noteq> [] \<and> no_nul k \<and> length k < 2 ^ 31"

lemma str_impl_simps [simp]:
  "str_impl_of (Some ''HASHTABLE'') = STR_HASHTABLE" "str_impl_of (Some ''SBST'') = STR_SBST" "str_impl_of (Some ''TRIE'') = STR_TRIE"
  "str_impl_of None = STR_ART"
  by (simp_all add: str_impl_of_def)

subsection \<open>The hash table\<close>

text \<open>All data of the index are pointers of the caller.\<close>

definition hash_good :: "'d string_index option \<Rightarrow> bool" where
  "hash_good idx \<longleftrightarrow> (\<exists>t. idx = Some (Hash_Idx t) \<and> ht_inv t \<and> ht_live t \<and> (\<forall>v \<in> ran (ht_map t). \<exists>d. v = (Some (Ref d), 8)))"

lemma hash_search:
  assumes "ht_inv t" and "length k < 2 ^ 31"
  shows "search_string (Some ''HASHTABLE'') (Some (Hash_Idx t)) k (int (length k)) out =
    Some (Inr (- 1, case ht_map t k of None \<Rightarrow> None | Some (d, n) \<Rightarrow> map_option From_Hash d))"
  using assms(2)
  by (simp add: search_string_def with_root_def search_string_in_hashtable_def ht_get_eq [OF assms(1)] split: option.splits)

lemma map_no_empty_key: "ht_inv t \<Longrightarrow> ht_map t [] = None"
proof -
  assume t: "ht_inv t"
  have "it_key x \<noteq> []" if "x \<in> set (bucket t (key_index t []))" for x
    using t that key_index_less by (fastforce simp: ht_inv_def item_ok_def)
  then have "with_key [] (bucket t (key_index t [])) = []" by (simp add: with_key_def filter_empty_conv)
  then show ?thesis by (simp add: ht_map_def)
qed

interpretation hash_store: string_store hash_good str_key "spi_put past (Some ''HASHTABLE'')" "spi_found (Some ''HASHTABLE'')"
proof
  fix s :: "'d string_index option" and k d
  assume "hash_good s" and k: "str_key k"
  then obtain t where s: "s = Some (Hash_Idx t)" and t: "ht_inv t" "ht_live t" "\<forall>v \<in> ran (ht_map t). \<exists>d. v = (Some (Ref d), 8)"
    by (auto simp: hash_good_def)
  obtain t' where t': "ht_set t k (Some (Ref d)) 8 = Inr (0, t')" "ht_inv t'" "ht_live t'" "ht_map t' = (ht_map t)(k \<mapsto> (Some (Ref d), 8))"
    using ht_set_eq [OF t(1,2), of k "Some (Ref d)" 8] k by (auto simp: str_key_def)
  have "\<forall>v \<in> ran (ht_map t'). \<exists>d. v = (Some (Ref d), 8)"
    using t(3) unfolding t'(4) by (auto simp: ran_def)
  then have "hash_good (Some (Hash_Idx t'))" using t' by (auto simp: hash_good_def)
  moreover have "spi_put past (Some ''HASHTABLE'') s k d = Some (Inr (Some (Hash_Idx t')))"
    by (simp add: spi_put_def s insert_string_def with_root_def insert_string_to_hashtable_def t'(1))
  moreover have "spi_found (Some ''HASHTABLE'') (Some (Hash_Idx t')) k' =
      (if k' = k then Some d else spi_found (Some ''HASHTABLE'') s k')" if "str_key k'" for k'
    using that by (simp add: spi_found_def s str_key_def hash_search [OF t(1)] hash_search [OF t'(2)] t'(4))
  ultimately show "\<exists>s'. spi_put past (Some ''HASHTABLE'') s k d = Some (Inr s') \<and> hash_good s' \<and>
      (\<forall>k'. str_key k' \<longrightarrow> spi_found (Some ''HASHTABLE'') s' k' = (if k' = k then Some d else spi_found (Some ''HASHTABLE'') s k'))"
    by blast
qed

subsection \<open>The red-black tree\<close>

definition tree_good :: "'d string_index option \<Rightarrow> bool" where
  "tree_good idx \<longleftrightarrow> (\<exists>t freed. idx = Some (Tree_Idx (t, freed)) \<and> string_order.rbt_ok t)"

definition freed_data :: "'d string_index option \<Rightarrow> 'd list" where
  "freed_data idx = (case idx of Some (Tree_Idx (t, freed)) \<Rightarrow> freed | _ \<Rightarrow> [])"

lemma tree_search:
  assumes "string_order.rbt_ok t" and "no_nul k"
  shows "search_string (Some ''SBST'') (Some (Tree_Idx (t, freed))) k len out =
    Some (Inr (- 1, case string_order.lookup (inorder (rbt_root t)) (k @ [0]) of None \<Rightarrow> out | Some d \<Rightarrow> Some (From_Tree d)))"
  using string_order.rbt_find_lookup [OF assms(1), of "k @ [0]"]
  by (simp add: search_string_def with_root_def search_string_in_rbtree_def split: option.splits)

lemma tree_found:
  assumes "string_order.rbt_ok t" and "no_nul k"
  shows "spi_found (Some ''SBST'') (Some (Tree_Idx (t, freed))) k = string_order.lookup (inorder (rbt_root t)) (k @ [0])"
  by (simp add: spi_found_def tree_search [OF assms] split: option.split)

text \<open>Where every stored key happens to be followed by a zero byte, the tree is a store, and an insertion frees the data it replaces.\<close>

lemma tree_put:
  assumes "tree_good s" and k: "str_key k"
  shows "\<exists>s'. spi_put (\<lambda>k. 0 # rest k) (Some ''SBST'') s k d = Some (Inr s') \<and> tree_good s' \<and>
    (\<forall>k'. str_key k' \<longrightarrow> spi_found (Some ''SBST'') s' k' = (if k' = k then Some d else spi_found (Some ''SBST'') s k')) \<and>
    freed_data s' = freed_data s @
      (case spi_found (Some ''SBST'') s k of None \<Rightarrow> [] | Some old \<Rightarrow> if d \<noteq> old then [old] else [])"
proof -
  obtain t freed where s: "s = Some (Tree_Idx (t, freed))" and t: "string_order.rbt_ok t" using assms(1) by (auto simp: tree_good_def)
  let ?img = "k @ 0 # rest k"
  have c: "cstr ?img = k" "cstr (k @ [0]) = k" using k by (simp_all add: cstr_no_nul str_key_def)
  have same: "string_order.lookup xs ?img = string_order.lookup xs (k @ [0])" for xs :: "(byte list \<times> 'a) list"
    by (simp only: string_order.lookup_def c)
  obtain rc t' where t': "rbt_add t ?img d = Some (rc, t')" "string_order.rbt_ok t'"
      "inorder (rbt_root t') = string_order.upd ?img d (inorder (rbt_root t))"
    using string_order.rbt_add_total [OF t, of ?img d] by blast
  let ?s' = "Some (Tree_Idx (t', freed @ replaced_value t ?img d))"
  have "spi_put (\<lambda>k. 0 # rest k) (Some ''SBST'') s k d = Some (Inr ?s')"
    by (simp add: spi_put_def s insert_string_def with_root_def insert_string_to_rbtree_def t'(1))
  moreover have "spi_found (Some ''SBST'') ?s' k' = (if k' = k then Some d else spi_found (Some ''SBST'') s k')" if "str_key k'" for k'
  proof -
    have "cstr (k' @ [0]) = k'" using that by (simp add: cstr_no_nul str_key_def)
    then show ?thesis
      using tree_found [OF t'(2), of k'] tree_found [OF t, of k'] that c by (simp add: s t'(3) string_order.lookup_upd str_key_def)
  qed
  moreover have "snd (rbt_find t ?img) = spi_found (Some ''SBST'') s k"
    using string_order.rbt_find_lookup [OF t, of ?img] tree_found [OF t, of k freed] k
    by (simp add: s same str_key_def split: option.splits)
  moreover have "tree_good ?s'" using t'(2) by (auto simp: tree_good_def)
  ultimately show ?thesis by (intro exI [of _ ?s']) (simp add: freed_data_def s replaced_value_def)
qed

interpretation tree_store: string_store tree_good str_key "spi_put (\<lambda>k. 0 # rest k) (Some ''SBST'')" "spi_found (Some ''SBST'')"
proof
  fix s :: "'d string_index option" and k d
  assume "tree_good s" "str_key k"
  from tree_put [OF this, of rest d] show "\<exists>s'. spi_put (\<lambda>k. 0 # rest k) (Some ''SBST'') s k d = Some (Inr s') \<and> tree_good s' \<and>
      (\<forall>k'. str_key k' \<longrightarrow> spi_found (Some ''SBST'') s' k' = (if k' = k then Some d else spi_found (Some ''SBST'') s k'))"
    by blast
qed

section \<open>The indices as maps\<close>

text \<open>Inserting several strings through spi.c.\<close>

fun put_strings :: "(byte list \<Rightarrow> byte list) \<Rightarrow> string option \<Rightarrow> 'd string_index option \<Rightarrow> (cstring \<times> 'd) list \<Rightarrow>
    (c_error + 'd string_index option) option" where
  "put_strings past env idx [] = Some (Inr idx)"
| "put_strings past env idx ((k, d) # kds) =
     (case insert_string past env idx k d of
        None \<Rightarrow> None
      | Some (Inl e) \<Rightarrow> Some (Inl e)
      | Some (Inr (rc, idx')) \<Rightarrow> put_strings past env idx' kds)"

lemma hash_put_all: "hash_store.put_all past idx kds = put_strings past (Some ''HASHTABLE'') idx kds"
  by (induction kds arbitrary: idx) (auto simp: spi_put_def split: option.splits sum.splits)

lemma tree_put_all: "tree_store.put_all rest idx kds = put_strings (\<lambda>k. 0 # rest k) (Some ''SBST'') idx kds"
  by (induction kds arbitrary: idx) (auto simp: spi_put_def split: option.splits sum.splits)

lemma hash_created: "hash_good (snd (create_string_index rnd (Some ''HASHTABLE'')))"
  by (simp add: create_string_index_def create_hashtable_def hash_good_def create_facts [OF refl])

lemma hash_created_empty: "length k < 2 ^ 31 \<Longrightarrow> spi_found (Some ''HASHTABLE'') (snd (create_string_index rnd (Some ''HASHTABLE''))) k = None"
  by (simp add: create_string_index_def create_hashtable_def spi_found_def hash_search [OF create_facts(1) [OF refl]] create_facts(3) [OF refl])

lemma tree_created: "tree_good (snd (create_string_index rnd (Some ''SBST'')))"
  by (simp add: create_string_index_def create_rbtree_def tree_good_def string_order.rbt_ok_create)

lemma tree_created_empty: "no_nul k \<Longrightarrow> spi_found (Some ''SBST'') (snd (create_string_index rnd (Some ''SBST''))) k = None"
  by (simp add: create_string_index_def create_rbtree_def tree_found [OF string_order.rbt_ok_create]) (simp add: rbt_create_def)

text \<open>The data that insertions replace by other data, in this order.\<close>

fun replaced :: "(cstring \<rightharpoonup> 'd) \<Rightarrow> (cstring \<times> 'd) list \<Rightarrow> 'd list" where
  "replaced m [] = []"
| "replaced m ((k, d) # kds) =
     (case m k of None \<Rightarrow> [] | Some old \<Rightarrow> if d \<noteq> old then [old] else []) @ replaced (m(k \<mapsto> d)) kds"

lemma tree_frees_replaced:
  assumes "tree_good s" and "\<forall>k. str_key k \<longrightarrow> spi_found (Some ''SBST'') s k = m k" and "\<forall>k \<in> fst ` set kds. str_key k"
    and "put_strings (\<lambda>k. 0 # rest k) (Some ''SBST'') s kds = Some (Inr s')"
  shows "freed_data s' = freed_data s @ replaced m kds"
  using assms
proof (induction kds arbitrary: s m)
  case (Cons kd kds)
  obtain k d where kd: "kd = (k, d)" by force
  have k: "str_key k" using Cons.prems(3) kd by simp
  obtain s1 where s1: "spi_put (\<lambda>k. 0 # rest k) (Some ''SBST'') s k d = Some (Inr s1)" "tree_good s1"
    "\<forall>k'. str_key k' \<longrightarrow> spi_found (Some ''SBST'') s1 k' = (if k' = k then Some d else spi_found (Some ''SBST'') s k')"
    "freed_data s1 = freed_data s @ (case spi_found (Some ''SBST'') s k of None \<Rightarrow> [] | Some old \<Rightarrow> if d \<noteq> old then [old] else [])"
    using tree_put [OF Cons.prems(1) k, of rest d] by blast
  have "put_strings (\<lambda>k. 0 # rest k) (Some ''SBST'') s1 kds = Some (Inr s')"
    using Cons.prems(4) s1(1) by (auto simp: kd spi_put_def split: option.splits sum.splits prod.splits)
  then have "freed_data s' = freed_data s1 @ replaced (m(k \<mapsto> d)) kds"
    by (intro Cons.IH [OF s1(2)]) (use s1(3) Cons.prems(2,3) in simp_all)
  with s1(4) Cons.prems(2) k show ?case by (simp add: kd)
qed simp

lemma hash_search_found:
  assumes "hash_good idx" and "str_key k"
  shows "search_string (Some ''HASHTABLE'') idx k (int (length k)) out =
      Some (Inr (- 1, map_option (\<lambda>d. From_Hash (Ref d)) (spi_found (Some ''HASHTABLE'') idx k)))"
    and "freed_data idx = []"
proof -
  obtain t where t: "idx = Some (Hash_Idx t)" "ht_inv t" "\<forall>v \<in> ran (ht_map t). \<exists>d. v = (Some (Ref d), 8)"
    using assms(1) by (auto simp: hash_good_def)
  have l: "length k < 2 ^ 31" using assms(2) by (simp add: str_key_def)
  show "search_string (Some ''HASHTABLE'') idx k (int (length k)) out =
      Some (Inr (- 1, map_option (\<lambda>d. From_Hash (Ref d)) (spi_found (Some ''HASHTABLE'') idx k)))"
  proof (cases "ht_map t k")
    case (Some v)
    then obtain d where "v = (Some (Ref d), 8)" using t(3) ranI [of "ht_map t" k v] by blast
    with Some show ?thesis by (simp add: t(1) spi_found_def hash_search [OF t(2) l])
  qed (simp add: t(1) spi_found_def hash_search [OF t(2) l])
  show "freed_data idx = []" by (simp add: t(1) freed_data_def)
qed

lemma tree_search_found:
  assumes "tree_good idx" and "str_key k"
  shows "search_string (Some ''SBST'') idx k len out =
      Some (Inr (- 1, case spi_found (Some ''SBST'') idx k of None \<Rightarrow> out | Some d \<Rightarrow> Some (From_Tree d)))"
  using assms by (auto simp: tree_good_def str_key_def tree_search tree_found)

lemma hash_puts_map:
  assumes "\<forall>k \<in> fst ` set kds. str_key k"
  shows "\<exists>idx'. put_strings past (Some ''HASHTABLE'') (snd (create_string_index rnd (Some ''HASHTABLE''))) kds = Some (Inr idx') \<and> hash_good idx' \<and>
    (\<forall>k. str_key k \<longrightarrow> spi_found (Some ''HASHTABLE'') idx' k = map_of (rev kds) k)"
proof -
  obtain idx' where i: "put_strings past (Some ''HASHTABLE'') (snd (create_string_index rnd (Some ''HASHTABLE''))) kds = Some (Inr idx')" "hash_good idx'"
    "\<forall>k. str_key k \<longrightarrow> spi_found (Some ''HASHTABLE'') idx' k = (case map_of (rev kds) k of
       None \<Rightarrow> spi_found (Some ''HASHTABLE'') (snd (create_string_index rnd (Some ''HASHTABLE''))) k | Some d \<Rightarrow> Some d)"
    using hash_store.put_all_found [OF hash_created assms, of past rnd] unfolding hash_put_all by blast
  have "spi_found (Some ''HASHTABLE'') idx' k = map_of (rev kds) k" if "str_key k" for k
    using i(3) [rule_format, OF that] hash_created_empty [of k rnd] that by (simp add: str_key_def split: option.splits)
  with i show ?thesis by blast
qed

lemma tree_puts_map:
  assumes "\<forall>k \<in> fst ` set kds. str_key k"
  shows "\<exists>idx'. put_strings (\<lambda>k. 0 # rest k) (Some ''SBST'') (snd (create_string_index rnd (Some ''SBST''))) kds = Some (Inr idx') \<and> tree_good idx' \<and>
    (\<forall>k. str_key k \<longrightarrow> spi_found (Some ''SBST'') idx' k = map_of (rev kds) k)"
proof -
  obtain idx' where i: "put_strings (\<lambda>k. 0 # rest k) (Some ''SBST'') (snd (create_string_index rnd (Some ''SBST''))) kds = Some (Inr idx')" "tree_good idx'"
    "\<forall>k. str_key k \<longrightarrow> spi_found (Some ''SBST'') idx' k = (case map_of (rev kds) k of
       None \<Rightarrow> spi_found (Some ''SBST'') (snd (create_string_index rnd (Some ''SBST''))) k | Some d \<Rightarrow> Some d)"
    using tree_store.put_all_found [OF tree_created assms, of rest rnd] unfolding tree_put_all by blast
  have "spi_found (Some ''SBST'') idx' k = map_of (rev kds) k" if "str_key k" for k
    using i(3) [rule_format, OF that] tree_created_empty [of k rnd] that by (simp add: str_key_def split: option.splits)
  with i show ?thesis by blast
qed

text \<open>C21: With \<^verbatim>\<open>HASHTABLE\<close>, and with \<^verbatim>\<open>SBST\<close> where a zero byte happens to follow every stored key, the index is a map: all insertions of non-empty keys
  without NUL bytes and shorter than \<open>2 ^ 31\<close> return, and a search for such a key with the length of the key stores the data last inserted for it in the result; \<^verbatim>\<open>search_string\<close>
  returns -1 in any case. For a key that was not inserted the hash table sets the result to NULL, the tree leaves it as it was. The tree frees
  the data that insertions replace by other data, and nothing else; the hash table frees no data. (The comment of \<^verbatim>\<open>search_string\<close> calls a search with a length other than 0 an affix search;
  the code of both indices compares whole keys.)
\<close>

theorem string_index_refines_map:
  assumes "env \<in> {Some ''HASHTABLE'', Some ''SBST''}" and "\<forall>k \<in> fst ` set kds. str_key k" and "\<forall>k. \<exists>r. past k = 0 # r"
  shows "\<exists>idx'. put_strings past env (snd (create_string_index rnd env)) kds = Some (Inr idx') \<and>
    (\<forall>k out. str_key k \<longrightarrow> search_string env idx' k (int (length k)) out =
       Some (Inr (- 1, case map_of (rev kds) k of
           Some d \<Rightarrow> Some (if env = Some ''SBST'' then From_Tree d else From_Hash (Ref d))
         | None \<Rightarrow> if env = Some ''SBST'' then out else None))) \<and>
    freed_data idx' = (if env = Some ''SBST'' then replaced Map.empty kds else [])"
proof -
  obtain rest where past: "past = (\<lambda>k. 0 # rest k)" using assms(3) by metis
  consider "env = Some ''HASHTABLE''" | "env = Some ''SBST''" using assms(1) by blast
  then show ?thesis
  proof cases
    case 1
    obtain idx' where i: "put_strings past env (snd (create_string_index rnd env)) kds = Some (Inr idx')" "hash_good idx'"
      "\<forall>k. str_key k \<longrightarrow> spi_found env idx' k = map_of (rev kds) k"
      using hash_puts_map [OF assms(2), of past rnd] unfolding 1 by blast
    then show ?thesis
      using hash_search_found(1) [OF i(2)] hash_search_found(2) [OF i(2), of "[97]"] unfolding 1
      by (intro exI [of _ idx']) (auto simp: str_key_def split: option.split)
  next
    case 2
    obtain idx' where i: "put_strings past env (snd (create_string_index rnd env)) kds = Some (Inr idx')" "tree_good idx'"
      "\<forall>k. str_key k \<longrightarrow> spi_found env idx' k = map_of (rev kds) k"
      using tree_puts_map [OF assms(2), of rest rnd] unfolding 2 past by blast
    let ?new = "snd (create_string_index rnd (Some ''SBST'')) :: 'a string_index option"
    have "freed_data ?new = []" by (simp add: create_string_index_def create_rbtree_def freed_data_def)
    moreover have "\<forall>k. str_key k \<longrightarrow> spi_found (Some ''SBST'') ?new k = Map.empty k" using tree_created_empty by (auto simp: str_key_def)
    ultimately have "freed_data idx' = replaced Map.empty kds"
      using tree_frees_replaced [OF tree_created _ assms(2) i(1) [unfolded 2 past]] by simp
    with i show ?thesis
      using tree_search_found [OF i(2)] unfolding 2 by (intro exI [of _ idx']) (simp split: option.split)
  qed
qed

theorem string_index_refines_map_witness:
  "\<exists>idx'. put_strings (\<lambda>_. [0]) (Some ''SBST'') (snd (create_string_index 1 (Some ''SBST''))) [([97], True), ([97, 98], True), ([97], False)] =
      Some (Inr idx') \<and>
    search_string (Some ''SBST'') idx' [97] 1 None = Some (Inr (- 1, Some (From_Tree False))) \<and>
    search_string (Some ''SBST'') idx' [98] 1 (Some (From_Tree True)) = Some (Inr (- 1, Some (From_Tree True))) \<and> freed_data idx' = [True]"
proof -
  let ?kds = "[([97], True), ([97, 98], True), ([97], False)] :: (cstring \<times> bool) list"
  have k: "\<forall>k \<in> fst ` set ?kds. str_key k" "str_key [97]" "str_key [98]" by (simp_all add: str_key_def)
  obtain idx' where "put_strings (\<lambda>_. [0]) (Some ''SBST'') (snd (create_string_index 1 (Some ''SBST''))) ?kds = Some (Inr idx')"
    and s: "\<forall>k out. str_key k \<longrightarrow> search_string (Some ''SBST'') idx' k (int (length k)) out =
       Some (Inr (- 1, case map_of (rev ?kds) k of Some d \<Rightarrow> Some (From_Tree d) | None \<Rightarrow> out))"
    and "freed_data idx' = replaced Map.empty ?kds"
    using string_index_refines_map [OF _ k(1), of "Some ''SBST''" "\<lambda>_. [0]" 1] by auto
  then show ?thesis
    using s [rule_format, OF k(2), of None] s [rule_format, OF k(3), of "Some (From_Tree True)"] by simp
qed

section \<open>Where a search misses\<close>

text \<open>
  If the byte behind a stored key is not zero, the tree takes the key for a longer one: right after the insertion an exact search for the key
  does not find it.
\<close>

theorem sbst_misses_unterminated_key:
  assumes "no_nul k" and "past k = b # r" and "b \<noteq> 0"
  shows "\<exists>idx'. insert_string past (Some ''SBST'') (snd (create_string_index rnd (Some ''SBST''))) k d = Some (Inr (0, idx')) \<and>
    search_string (Some ''SBST'') idx' k len out = Some (Inr (- 1, out))"
proof -
  let ?t = "\<lparr>rbt_root = Node RBTREE_COLOR_BLACK Null (k @ b # r) d Null, rbt_size = 1, cmp_keys_cb = libhl_cmp_keys_string\<rparr>"
  have "rbt_add (rbt_create libhl_cmp_keys_string) (k @ past k) d = Some (0, ?t)"
    by (subst rbt_add.simps) (simp add: rbt_create_def rbt_count_new_def assms(2))
  then have i: "insert_string past (Some ''SBST'') (snd (create_string_index rnd (Some ''SBST''))) k d = Some (Inr (0, Some (Tree_Idx (?t, []))))"
    by (simp add: insert_string_def create_string_index_def create_rbtree_def with_root_def insert_string_to_rbtree_def replaced_value_def rbt_find_def rbt_create_def)
  have "cstr (k @ b # r) = k @ b # cstr r" using assms(1,3) by (auto simp: cstr_def no_nul_def takeWhile_append)
  moreover have "cstr (k @ [0]) = k" using cstr_no_nul [OF assms(1)] .
  ultimately have "libhl_cmp_keys_string (k @ b # r) (k @ [0]) \<noteq> 0"
    using strcmp_sign [of "k @ b # cstr r" k] assms(1,3) by (simp add: libhl_cmp_keys_string_def)
  then have "rbt_find ?t (k @ [0]) = (- 1, None)" by (simp add: rbt_find_def Let_def)
  with i show ?thesis
    by (simp add: search_string_def with_root_def search_string_in_rbtree_def)
qed

theorem sbst_misses_unterminated_key_witness:
  "\<exists>idx'. insert_string (\<lambda>_. [7, 0]) (Some ''SBST'') (snd (create_string_index 1 (Some ''SBST''))) [97] True = Some (Inr (0, idx')) \<and>
    search_string (Some ''SBST'') idx' [97] 1 None = Some (Inr (- 1, None))"
  using sbst_misses_unterminated_key [of "[97]" "\<lambda>_. [7, 0]" 7 "[0]" 1 True 1 None] by simp

text \<open>
  spi.c documents a length of 0 as an exact search. Over the hash table such a search looks for the empty key, which no table holds: whatever
  was inserted, it reports NULL.
\<close>

theorem hash_search_length_zero_finds_nothing:
  assumes "\<forall>k \<in> fst ` set kds. str_key k"
  shows "\<exists>idx'. put_strings past (Some ''HASHTABLE'') (snd (create_string_index rnd (Some ''HASHTABLE''))) kds = Some (Inr idx') \<and>
    search_string (Some ''HASHTABLE'') idx' k 0 out = Some (Inr (- 1, None))"
proof -
  obtain idx' where "put_strings past (Some ''HASHTABLE'') (snd (create_string_index rnd (Some ''HASHTABLE''))) kds = Some (Inr idx')"
      and "hash_good idx'"
    using hash_store.put_all_found [OF hash_created assms, of past rnd] by (auto simp: hash_put_all)
  moreover from this(2) obtain t where "idx' = Some (Hash_Idx t)" "ht_inv t" by (auto simp: hash_good_def)
  moreover have "ht_map t [] = None" using \<open>ht_inv t\<close> by (rule map_no_empty_key)
  ultimately show ?thesis
    by (simp add: search_string_def with_root_def search_string_in_hashtable_def ht_get_eq)
qed

theorem hash_search_length_zero_finds_nothing_witness:
  "\<exists>idx'. put_strings (\<lambda>_. [0]) (Some ''HASHTABLE'') (snd (create_string_index 1 (Some ''HASHTABLE''))) [([97], True)] = Some (Inr idx') \<and>
    search_string (Some ''HASHTABLE'') idx' [97] 0 None = Some (Inr (- 1, None))"
  using hash_search_length_zero_finds_nothing [of "[([97], True)]" "\<lambda>_. [0]" 1 "[97]" None] by (simp add: str_key_def)

section \<open>Searching an affix in the hash table\<close>

definition refs :: "(cstring \<times> 'd) list \<Rightarrow> byte list \<rightharpoonup> 'd data option \<times> nat" where
  "refs kds k = map_option (\<lambda>d. (Some (Ref d), 8)) (map_of (rev kds) k)"

lemma hash_puts:
  assumes "ht_inv t" and "ht_live t" and "\<forall>k \<in> fst ` set kds. k \<noteq> []"
  shows "\<exists>t'. put_strings past (Some ''HASHTABLE'') (Some (Hash_Idx t)) kds = Some (Inr (Some (Hash_Idx t'))) \<and> ht_inv t' \<and> ht_live t' \<and>
    ht_map t' = ht_map t ++ refs kds"
  using assms
proof (induction kds arbitrary: t)
  case (Cons kd kds)
  obtain k d where kd: "kd = (k, d)" by force
  obtain t1 where t1: "ht_set t k (Some (Ref d)) 8 = Inr (0, t1)" "ht_inv t1" "ht_live t1" "ht_map t1 = (ht_map t)(k \<mapsto> (Some (Ref d), 8))"
    using ht_set_eq [OF Cons.prems(1,2), of k "Some (Ref d)" 8] Cons.prems(3) by (auto simp: kd)
  obtain t' where "put_strings past (Some ''HASHTABLE'') (Some (Hash_Idx t1)) kds = Some (Inr (Some (Hash_Idx t')))" "ht_inv t'" "ht_live t'"
      "ht_map t' = ht_map t1 ++ refs kds"
    using Cons.IH [OF t1(2,3)] Cons.prems(3) by auto
  then show ?case
    by (intro exI [of _ t'])
      (simp add: kd insert_string_def with_root_def insert_string_to_hashtable_def t1 fun_eq_iff map_add_def refs_def split: option.split)
qed (auto simp: refs_def map_add_def)

lemma item_entry:
  assumes "ht_inv t" and "ht_live t"
  shows "x \<in> set (all_items t) \<Longrightarrow> ht_map t (it_key x) = Some (it_data x, it_dlen x)"
    and "ht_map t k = Some (d, n) \<Longrightarrow> \<exists>x \<in> set (all_items t). it_key x = k \<and> it_data x = d \<and> it_dlen x = n"
proof -
  have wk: "with_key k (all_items t) = with_key k (bucket t (key_index t k))" for k
    using with_key_all [OF assms(1)] .
  show "ht_map t (it_key x) = Some (it_data x, it_dlen x)" if x: "x \<in> set (all_items t)"
  proof -
    have "x \<in> set (with_key (it_key x) (all_items t))" using x by (simp add: with_key_def)
    moreover have "length (with_key (it_key x) (all_items t)) \<le> 1" using assms(2) unfolding wk by (simp add: ht_live_def)
    ultimately have "with_key (it_key x) (all_items t) = [x]" by (cases "with_key (it_key x) (all_items t)") auto
    then show ?thesis by (simp add: ht_map_def wk [symmetric])
  qed
  show "\<exists>x \<in> set (all_items t). it_key x = k \<and> it_data x = d \<and> it_dlen x = n" if h: "ht_map t k = Some (d, n)"
  proof -
    obtain x xs where "with_key k (all_items t) = x # xs" "(it_data x, it_dlen x) = (d, n)"
      using h by (cases "with_key k (all_items t)") (auto simp: ht_map_def wk [symmetric])
    moreover from this(1) have "x \<in> set (with_key k (all_items t))" by simp
    then have "x \<in> set (all_items t) \<and> it_key x = k" by (simp add: with_key_def)
    ultimately show ?thesis by auto
  qed
qed

lemma affix_fold:
  assumes "\<forall>x \<in> set xs. length (it_key x) < 32" and "list_inv l"
  shows "\<exists>l'. foldl (\<lambda>u x. snd (ht_affix_match_cb info u (it_key x) (it_data x) (it_dlen x))) (Inr l) xs = Inr l' \<and> list_inv l' \<and>
    list_values l' = list_values l @ map it_data (filter (\<lambda>x. is_matching_given_affix (cstr (it_key x)) info) xs)"
  using assms
proof (induction xs arbitrary: l)
  case (Cons x xs)
  let ?l = "if is_matching_given_affix (cstr (it_key x)) info then snd (list_push_value (it_data x) l) else l"
  have "list_inv ?l" "list_values ?l = list_values l @ (if is_matching_given_affix (cstr (it_key x)) info then [it_data x] else [])"
    using Cons.prems(2) by (auto simp: ll.push_snd)
  then show ?case using Cons.IH [of ?l] Cons.prems(1) by (auto simp: ht_affix_match_cb_def)
qed simp

text \<open>A search for a prefix, a suffix or an infix in the hash table reports the data of exactly the keys that have it, provided all keys are
  shorter than 32 bytes.
\<close>

theorem hash_affix_search_exact:
  assumes "\<forall>k \<in> fst ` set kds. str_key k \<and> length k < 32"
  shows "\<exists>idx' l. put_strings past (Some ''HASHTABLE'') (snd (create_string_index rnd (Some ''HASHTABLE''))) kds = Some (Inr idx') \<and>
    search_affix junk (Some ''HASHTABLE'') idx' t affix = Some (Inr (Hash_List (Some l))) \<and>
    set (list_values l) = {Some (Ref d) | k d. map_of (rev kds) k = Some d \<and>
      (case t of PATTERN_PREFIX \<Rightarrow> prefix affix k | PATTERN_SUFFIX \<Rightarrow> suffix affix k | PATTERN_MIDDLE \<Rightarrow> sublist affix k
       | PATTERN_EXACT \<Rightarrow> False)}"
proof -
  let ?t0 = "ht_create rnd 256 0 False" and ?info = "create_affix_info affix (of_nat (length affix)) t"
  obtain h where h: "put_strings past (Some ''HASHTABLE'') (Some (Hash_Idx ?t0)) kds = Some (Inr (Some (Hash_Idx h)))" "ht_inv h" "ht_live h"
      "ht_map h = ht_map ?t0 ++ refs kds"
    using hash_puts [OF create_facts(1,2) [OF refl], of kds past rnd 256 0 False] assms by (auto simp: str_key_def)
  have m: "ht_map h = refs kds" unfolding h(4) create_facts(3) [OF refl] by simp
  have key: "str_key k \<and> length k < 32" if "map_of (rev kds) k = Some d" for k d
    using assms map_of_SomeD [OF that] by force
  have items: "length (it_key x) < 32" if "x \<in> set (all_items h)" for x
    using item_entry(1) [OF h(2,3) that] key unfolding m by (auto simp: refs_def)
  obtain l where l: "foldl (\<lambda>u x. snd (ht_affix_match_cb ?info u (it_key x) (it_data x) (it_dlen x))) (Inr list_create) (all_items h) = Inr l"
      "list_values l = map it_data (filter (\<lambda>x. is_matching_given_affix (cstr (it_key x)) ?info) (all_items h))"
    using affix_fold [of "all_items h" list_create ?info] items by (auto simp: ll.inv_create)
  have "ht_foreach_pair h (ht_affix_match_cb ?info) (Inr list_create) = (h, Inr l)"
    using ht_foreach_visits_all [of "ht_affix_match_cb ?info" h "Inr list_create"] l(1) by (simp add: ht_affix_match_cb_def)
  then have s: "search_affix junk (Some ''HASHTABLE'') (Some (Hash_Idx h)) t affix = Some (Inr (Hash_List (Some l)))"
    by (simp add: search_affix_def with_root_def search_affix_in_hashtable_def)
  let ?fits = "\<lambda>k. case t of PATTERN_PREFIX \<Rightarrow> prefix affix k | PATTERN_SUFFIX \<Rightarrow> suffix affix k | PATTERN_MIDDLE \<Rightarrow> sublist affix k
       | PATTERN_EXACT \<Rightarrow> False"
  have "v \<in> set (list_values l) \<longleftrightarrow> (\<exists>k d. v = Some (Ref d) \<and> map_of (rev kds) k = Some d \<and> ?fits k)" for v
  proof
    assume "v \<in> set (list_values l)"
    then obtain x where x: "x \<in> set (all_items h)" "v = it_data x" "is_matching_given_affix (cstr (it_key x)) ?info" by (auto simp: l(2))
    then obtain d where d: "map_of (rev kds) (it_key x) = Some d" "it_data x = Some (Ref d)"
      using item_entry(1) [OF h(2,3) x(1)] unfolding m by (auto simp: refs_def)
    have c: "cstr (it_key x) = it_key x" using key [OF d(1)] by (simp add: cstr_id str_key_def)
    have "?fits (it_key x)" using x(3) unfolding affix_match_correct c .
    with d x(2) show "\<exists>k d. v = Some (Ref d) \<and> map_of (rev kds) k = Some d \<and> ?fits k" by blast
  next
    assume "\<exists>k d. v = Some (Ref d) \<and> map_of (rev kds) k = Some d \<and> ?fits k"
    then obtain k d where k: "v = Some (Ref d)" "map_of (rev kds) k = Some d" "?fits k" by blast
    then obtain x where x: "x \<in> set (all_items h)" "it_key x = k" "it_data x = Some (Ref d)"
      using item_entry(2) [OF h(2,3), of k "Some (Ref d)" 8] unfolding m by (auto simp: refs_def)
    have c: "cstr k = k" using key [OF k(2)] by (simp add: cstr_id str_key_def)
    have "is_matching_given_affix (cstr k) ?info" using k(3) unfolding affix_match_correct c .
    then show "v \<in> set (list_values l)" using k(1) x by (auto simp: l(2) intro!: image_eqI [of _ _ x])
  qed
  then have "set (list_values l) = {Some (Ref d) | k d. map_of (rev kds) k = Some d \<and> ?fits k}" by blast
  with h(1) s show ?thesis by (auto simp: create_string_index_def create_hashtable_def)
qed

theorem hash_affix_search_exact_witness:
  "\<exists>idx' l. put_strings (\<lambda>_. [0]) (Some ''HASHTABLE'') (snd (create_string_index 1 (Some ''HASHTABLE''))) [([97, 98], True), ([99], False)] =
      Some (Inr idx') \<and>
    search_affix (\<lambda>_. 0) (Some ''HASHTABLE'') idx' PATTERN_PREFIX [97] = Some (Inr (Hash_List (Some l))) \<and>
    set (list_values l) = {Some (Ref True)}"
proof -
  have "\<forall>k \<in> fst ` set [([97, 98], True), ([99], False)]. str_key k \<and> length k < 32" by (simp add: str_key_def)
  from hash_affix_search_exact [OF this, of "\<lambda>_. [0]" 1 "\<lambda>_. 0" PATTERN_PREFIX "[97]"] show ?thesis
    by (auto simp: map_of_Cons_code split: if_splits)
qed

text \<open>A key of 32 bytes or more makes every affix search over the hash table read past a buffer.\<close>

theorem hash_affix_search_long_key:
  assumes "ht_inv t" and "ht_map t k = Some (d, n)" and "ht_live t" and "32 \<le> length k"
  shows "search_affix junk (Some ''HASHTABLE'') (Some (Hash_Idx t)) afx_type affix = Some (Inl Out_Of_Bounds)"
proof -
  let ?info = "create_affix_info affix (of_nat (length affix)) afx_type"
  obtain x where "x \<in> set (all_items t)" "it_key x = k" using item_entry(2) [OF assms(1,3,2)] by blast
  then obtain xs ys where items: "all_items t = xs @ x # ys" by (meson split_list)
  define f where "f u x = snd (ht_affix_match_cb ?info u (it_key x) (it_data x) (it_dlen x))" for u and x :: "'a ht_item"
  have f: "f (Inl e) x = Inl e" "f (Inr l) x = (if 32 \<le> length (it_key x) then Inl Out_Of_Bounds else f (Inr l) x)"
      "\<not> 32 \<le> length (it_key x) \<Longrightarrow> \<exists>l'. f (Inr l) x = Inr l'" for e l x
    by (simp_all add: f_def ht_affix_match_cb_def)
  have err: "foldl f (Inl e) zs = Inl e" for e zs by (induction zs) (simp_all add: f(1))
  have oob: "foldl f (Inr l) zs = Inl Out_Of_Bounds \<or> (\<exists>l'. foldl f (Inr l) zs = Inr l')" for l zs
  proof (induction zs arbitrary: l)
    case (Cons z zs)
    show ?case
    proof (cases "32 \<le> length (it_key z)")
      case True
      then show ?thesis using f(2) [of l z] by (simp add: err)
    next
      case False
      then obtain l' where "f (Inr l) z = Inr l'" using f(3) by blast
      then show ?thesis using Cons.IH [of l'] by simp
    qed
  qed simp
  have "f (Inr l) x = Inl Out_Of_Bounds" for l using f(2) [of l x] assms(4) \<open>it_key x = k\<close> by simp
  then have "foldl f (Inr list_create) (all_items t) = Inl Out_Of_Bounds"
    using oob [of list_create xs] by (auto simp: items f(1) err)
  then show ?thesis
    using ht_foreach_visits_all [of "ht_affix_match_cb ?info" t "Inr list_create"]
    unfolding f_def by (simp add: ht_affix_match_cb_def search_affix_def with_root_def search_affix_in_hashtable_def)
qed

section \<open>The reversed keys\<close>

text \<open>With \<^verbatim>\<open>TRIE\<close> both spi.c and the index under it insert the key and its reverse. An exact search then finds the data, but a search for a
  suffix finds a pointer to the parameter of a finished call.
\<close>

theorem spi_trie_insert:
  assumes "trie_inv t" and "ascii key" and "rev key \<noteq> key" and "trie_nodes t + 4 * length key < 2 ^ 61"
    and "suffix suf key" and "suf \<noteq> []" and "length suf \<le> COMMON_STR_LEN"
  shows "\<exists>rc t' l. insert_string past (Some ''TRIE'') (Some (Trie_Idx t)) key d = Some (Inr (rc, Some (Trie_Idx t'))) \<and>
    search_string (Some ''TRIE'') (Some (Trie_Idx t')) key len out = Some (Inr (- 1, Some (From_Trie (Data d)))) \<and>
    search_affix junk (Some ''TRIE'') (Some (Trie_Idx t')) PATTERN_SUFFIX suf = Some (Inr (Trie_List (Some l))) \<and>
    Some Dead_Parameter \<in> set (list_values l)"
proof -
  have rkey: "ascii (rev key)" using assms(2) by simp
  obtain t1 k1 where t1: "insert_string_to_trie (Some t) key d = Inr (k1, Some t1)" "trie_inv t1" "trie_nodes t1 \<le> trie_nodes t + 2 * length key"
    using insert_string_to_trie_laws [OF assms(1,2), of d] by blast
  obtain t2 k2 where t2: "insert_string_to_trie (Some t1) (rev key) d = Inr (k2, Some t2)" "trie_inv t2"
      "trie_map t2 = (trie_map t1)(rev key \<mapsto> Dead_Parameter, key \<mapsto> Data d)" "trie_nodes t2 \<le> trie_nodes t1 + 2 * length key"
    using insert_string_to_trie_laws [OF t1(2) rkey, of d] by auto
  have "insert_string past (Some ''TRIE'') (Some (Trie_Idx t)) key d = Some (Inr (sint (k1 OR k2), Some (Trie_Idx t2)))"
    by (simp add: insert_string_def with_root_def t1(1) t2(1) read_reverse [OF ascii_no_nul [OF assms(2)]])
  moreover have "search_string (Some ''TRIE'') (Some (Trie_Idx t2)) key len out = Some (Inr (- 1, Some (From_Trie (Data d))))"
    using trie_find_laws(2) [OF t2(2) assms(2)] t2(3) by (auto simp: search_string_def with_root_def search_string_in_trie_def)
  moreover have "\<exists>l. search_affix junk (Some ''TRIE'') (Some (Trie_Idx t2)) PATTERN_SUFFIX suf = Some (Inr (Trie_List (Some l))) \<and>
      Some Dead_Parameter \<in> set (list_values l)"
  proof -
    have suf: "ascii suf" using assms(2,5) by (auto simp: ascii_def suffix_def)
    have "trie_nodes t2 < 2 ^ 61" using t1(3) t2(4) assms(4) by linarith
    from suffix_query [OF t2(2) this suf assms(6,7), of junk]
    obtain l where "search_affix_in_trie junk (Some t2) PATTERN_SUFFIX suf = Inr (Some l)"
      "set (list_values l) = {Some v |v. \<exists>k. suffix suf k \<and> trie_map t2 (rev k) = Some v}" by blast
    moreover have "trie_map t2 (rev key) = Some Dead_Parameter" using assms(3) by (simp add: t2(3))
    ultimately show ?thesis using assms(5) by (auto simp: search_affix_def with_root_def)
  qed
  ultimately show ?thesis by blast
qed

theorem spi_trie_insert_witness:
  "\<exists>rc t' l. insert_string (\<lambda>_. []) (Some ''TRIE'') (Some (Trie_Idx trie_create)) (str ''ab'') True = Some (Inr (rc, Some (Trie_Idx t'))) \<and>
    search_string (Some ''TRIE'') (Some (Trie_Idx t')) (str ''ab'') 2 None = Some (Inr (- 1, Some (From_Trie (Data True)))) \<and>
    search_affix (\<lambda>_. 0) (Some ''TRIE'') (Some (Trie_Idx t')) PATTERN_SUFFIX (str ''b'') = Some (Inr (Trie_List (Some l))) \<and>
    Some Dead_Parameter \<in> set (list_values l)"
proof -
  have key: "ascii (str ''ab'')" "rev (str ''ab'') \<noteq> str ''ab''" "suffix (str ''b'') (str ''ab'')" "str ''b'' \<noteq> []"
      "length (str ''b'') \<le> COMMON_STR_LEN"
    by (simp_all add: str_def COMMON_STR_LEN_def suffix_def)
  have "trie_nodes (trie_create :: bool target trie) + 4 * length (str ''ab'') < 2 ^ 61"
    by (simp add: trie_nodes_def trie_create_def str_def)
  from spi_trie_insert [OF trie_create_laws(1) key(1,2) this key(3-5)] show ?thesis by blast
qed

text \<open>With the radix tree, the default, an exact search finds an inserted string, and it finds its reverse, which was not inserted, as well.\<close>

theorem spi_art_insert:
  assumes "tree_inv t" and "no_nul key"
  shows "\<exists>t'. insert_string past None (Some (Art_Idx t)) key d = Some (Inr (0, Some (Art_Idx t'))) \<and> tree_inv t' \<and>
    search_string None (Some (Art_Idx t')) key len out = Some (Inr (- 1, Some (From_Tree d))) \<and>
    search_string None (Some (Art_Idx t')) (rev key) len out = Some (Inr (- 1, Some (From_Tree d)))"
proof -
  have rkey: "no_nul (rev key)" using assms(2) by (simp add: no_nul_def)
  obtain t1 where t1: "art_insert t key d = Inr (t1, tree_map t key)" "tree_inv t1" "tree_map t1 = (tree_map t)(key \<mapsto> d)"
    using art.add_law [OF assms] by blast
  obtain t2 where t2: "art_insert t1 (rev key) d = Inr (t2, tree_map t1 (rev key))" "tree_inv t2" "tree_map t2 = (tree_map t1)(rev key \<mapsto> d)"
    using art.add_law [OF t1(2) rkey] by blast
  have "tree_map t2 key = Some d" "tree_map t2 (rev key) = Some d" by (simp_all add: t1(3) t2(3))
  then have "art_search t2 key = Inr (Some d)" "art_search t2 (rev key) = Inr (Some d)"
    using art.get_stored [OF t2(2)] by auto
  then show ?thesis
    using t2(2) by (simp add: insert_string_def search_string_def with_root_def insert_string_to_art_def search_string_in_art_def t1(1) t2(1)
        read_reverse [OF assms(2)])
qed

theorem spi_art_insert_witness:
  "\<exists>t'. insert_string (\<lambda>_. []) None (Some (Art_Idx art_tree_init)) [97, 98] True = Some (Inr (0, Some (Art_Idx t'))) \<and>
    search_string None (Some (Art_Idx t')) [98, 97] 2 None = Some (Inr (- 1, Some (From_Tree True)))"
  using spi_art_insert [OF art.init_inv, of "[97, 98]" "\<lambda>_. []" True 2 None] by (auto simp: no_nul_def)

end
