(* ===== verification/Thpool.thy ===== *)
theory Thpool
  imports Miqs_Prelude "HOL-Library.Multiset"
begin

text \<open>
  The thread pool of src/src/utils/thread/thpool.c as a transition system: the threads that run \<open>thread_do\<close> and the main thread,
  which runs a program of calls of \<^verbatim>\<open>thpool_add_work\<close>, \<^verbatim>\<open>thpool_wait\<close> and \<^verbatim>\<open>thpool_destroy\<close> after \<^verbatim>\<open>thpool_init\<close>.

  A step of a thread is what it does while it holds one mutex; the queue's mutex is kept from the change of the queue to the
  post on the semaphore, and \<open>q_lock\<close> says so. A thread that waits for a condition cannot step until it holds. Waking up
  without a signal, which the loops around the waits undo, is left out, and so are the signals of \<^verbatim>\<open>thpool_pause\<close>,
  failing allocations and the names of threads. A job runs in one step. The lists \<open>started\<close> and \<open>finished\<close> are no variables of the
  program: they log the jobs in the order in which they are taken from the queue and in which they are done.
\<close>

section \<open>The job queue and the semaphore\<close>

text \<open>The queue from \<^verbatim>\<open>front\<close> to \<^verbatim>\<open>rear\<close> along the \<^verbatim>\<open>prev\<close> pointers, and its length.\<close>

record 'j jobqueue =
  q_jobs :: "'j list"
  q_len :: nat

definition jobqueue_init :: "'j jobqueue" where
  "jobqueue_init = \<lparr>q_jobs = [], q_len = 0\<rparr>"

text \<open>With a length of 0 the new job becomes the whole queue.\<close>

definition jobqueue_push :: "'j jobqueue \<Rightarrow> 'j \<Rightarrow> 'j jobqueue" where
  "jobqueue_push q newjob =
     \<lparr>q_jobs = (if q_len q = 0 then [newjob] else q_jobs q @ [newjob]), q_len = q_len q + 1\<rparr>"

text \<open>The job at the front, the queue without it and whether the semaphore is to be posted because jobs are left.\<close>

definition jobqueue_pull :: "'j jobqueue \<Rightarrow> 'j option \<times> 'j jobqueue \<times> bool" where
  "jobqueue_pull q =
     (let job_p = (case q_jobs q of [] \<Rightarrow> None | j # _ \<Rightarrow> Some j)
      in if q_len q = 0 then (job_p, q, False)
         else if q_len q = 1 then (job_p, \<lparr>q_jobs = [], q_len = 0\<rparr>, False)
         else (job_p, \<lparr>q_jobs = tl (q_jobs q), q_len = q_len q - 1\<rparr>, True))"

text \<open>Clearing: pulling until the length is 0.\<close>

function jobqueue_clear :: "'j jobqueue \<Rightarrow> 'j jobqueue" where
  "jobqueue_clear q = (if q_len q = 0 then jobqueue_init else jobqueue_clear (fst (snd (jobqueue_pull q))))"
  by pat_completeness auto
termination
  by (relation "measure q_len") (auto simp: jobqueue_pull_def Let_def)

declare jobqueue_clear.simps [simp del]

section \<open>States\<close>

text \<open>Where a thread is in \<open>thread_do\<close>, with the job it has taken (NULL: \<open>None\<close>).\<close>

datatype 'j tpc =
  Born
| Loop_Test
| Sem_Wait
| Recheck
| Count_Up
| Pull
| Posting "'j option"
| Got "'j option"
| Count_Down
| Leave
| Unlock_Last
| Dead

datatype 'j cmd = Add_Work 'j | Wait_All | Destroy_Pool

datatype mpc = Starting | Ready | Pushing | Blocked | Killing | Freed

record 'j pool =
  queue :: "'j jobqueue"
  q_lock :: bool
  has_jobs :: bool
  num_threads_alive :: nat
  num_threads_working :: nat
  cnt_lock :: bool
  threads_keepalive :: bool
  t_pc :: "nat \<Rightarrow> 'j tpc"
  m_pc :: mpc
  prog :: "'j cmd list"
  started :: "'j list"
  finished :: "'j list"

definition num_threads_of :: "int \<Rightarrow> nat" where
  "num_threads_of n = (if n < 1 then 1 else nat n)"

definition thpool_init :: "'j cmd list \<Rightarrow> 'j pool" where
  "thpool_init p =
     \<lparr>queue = jobqueue_init, q_lock = False, has_jobs = False, num_threads_alive = 0, num_threads_working = 0, cnt_lock = False,
      threads_keepalive = True, t_pc = (\<lambda>_. Born), m_pc = Starting, prog = p, started = [], finished = []\<rparr>"

section \<open>Steps\<close>

definition goto :: "nat \<Rightarrow> 'j tpc \<Rightarrow> 'j pool \<Rightarrow> 'j pool" where
  "goto t c s = s\<lparr>t_pc := (t_pc s)(t := c)\<rparr>"

definition bsem_post :: "'j pool \<Rightarrow> 'j pool" where
  "bsem_post s = s\<lparr>has_jobs := True\<rparr>"

text \<open>Posting to all wakes every thread that sleeps; the first to get the mutex takes the value and the others sleep again.\<close>

definition bsem_post_all :: "'j pool \<Rightarrow> 'j pool" where
  "bsem_post_all s = s\<lparr>has_jobs := True\<rparr>"

definition bsem_reset :: "'j pool \<Rightarrow> 'j pool" where
  "bsem_reset s = s\<lparr>has_jobs := False\<rparr>"

definition jobqueue_destroy :: "'j pool \<Rightarrow> 'j pool" where
  "jobqueue_destroy s = bsem_reset (s\<lparr>queue := jobqueue_clear (queue s)\<rparr>)"

text \<open>Waiting: with the value 1 it is set to 0, otherwise the thread sleeps.\<close>

definition bsem_wait :: "'j pool \<Rightarrow> 'j pool option" where
  "bsem_wait s = (if has_jobs s then Some (s\<lparr>has_jobs := False\<rparr>) else None)"

definition guarded :: "bool \<Rightarrow> 'a \<Rightarrow> 'a option" where
  "guarded b x = (if b then Some x else None)"

definition some_list :: "'a option \<Rightarrow> 'a list" where
  "some_list x = (case x of None \<Rightarrow> [] | Some y \<Rightarrow> [y])"

text \<open>The signal of a thread that has set the number of working threads to 0 wakes a main thread that waits in \<^verbatim>\<open>thpool_wait\<close>.\<close>

definition thread_do :: "nat \<Rightarrow> 'j pool \<Rightarrow> 'j pool option" where
  "thread_do t s =
     (case t_pc s t of
        Born \<Rightarrow> guarded (\<not> cnt_lock s) (goto t Loop_Test (s\<lparr>num_threads_alive := num_threads_alive s + 1\<rparr>))
      | Loop_Test \<Rightarrow> Some (goto t (if threads_keepalive s then Sem_Wait else Leave) s)
      | Sem_Wait \<Rightarrow> map_option (goto t Recheck) (bsem_wait s)
      | Recheck \<Rightarrow> Some (goto t (if threads_keepalive s then Count_Up else Loop_Test) s)
      | Count_Up \<Rightarrow> guarded (\<not> cnt_lock s) (goto t Pull (s\<lparr>num_threads_working := num_threads_working s + 1\<rparr>))
      | Pull \<Rightarrow> guarded (\<not> q_lock s)
          (let (j, q, post) = jobqueue_pull (queue s); s' = s\<lparr>queue := q, started := started s @ some_list j\<rparr>
           in if post then goto t (Posting j) (s'\<lparr>q_lock := True\<rparr>) else goto t (Got j) s')
      | Posting j \<Rightarrow> Some (goto t (Got j) ((bsem_post s)\<lparr>q_lock := False\<rparr>))
      | Got j \<Rightarrow> Some (goto t Count_Down (s\<lparr>finished := finished s @ some_list j\<rparr>))
      | Count_Down \<Rightarrow> guarded (\<not> cnt_lock s)
          (let w = num_threads_working s - 1
           in goto t Loop_Test (s\<lparr>num_threads_working := w, m_pc := (if w = 0 \<and> m_pc s = Blocked then Ready else m_pc s)\<rparr>))
      | Leave \<Rightarrow> guarded (\<not> cnt_lock s)
          (goto t Unlock_Last (s\<lparr>num_threads_alive := num_threads_alive s - 1, cnt_lock := True\<rparr>))
      | Unlock_Last \<Rightarrow> Some (goto t Dead (s\<lparr>cnt_lock := False\<rparr>))
      | Dead \<Rightarrow> None)"

text \<open>The calls of the main thread. \<^verbatim>\<open>thpool_init\<close> ends when all threads are alive.\<close>

definition thpool_add_work :: "'j \<Rightarrow> 'j pool \<Rightarrow> 'j pool option" where
  "thpool_add_work j s = guarded (\<not> q_lock s) (s\<lparr>queue := jobqueue_push (queue s) j, q_lock := True, m_pc := Pushing\<rparr>)"

definition thpool_wait :: "'j pool \<Rightarrow> 'j pool option" where
  "thpool_wait s =
     guarded (\<not> cnt_lock s)
       (if q_len (queue s) \<noteq> 0 \<or> num_threads_working s \<noteq> 0 then s\<lparr>m_pc := Blocked\<rparr> else s\<lparr>prog := tl (prog s)\<rparr>)"

definition thpool_destroy :: "'j pool \<Rightarrow> 'j pool" where
  "thpool_destroy s = s\<lparr>threads_keepalive := False, m_pc := Killing\<rparr>"

text \<open>The loops of \<^verbatim>\<open>thpool_destroy\<close> that post to all threads until none is alive; the number is read without the lock, and then
  everything is released. Posting again to a semaphore that is posted changes nothing and is no step.\<close>

definition thpool_destroy_loop :: "'j pool \<Rightarrow> 'j pool option" where
  "thpool_destroy_loop s =
     (if num_threads_alive s = 0 then Some ((jobqueue_destroy s)\<lparr>m_pc := Freed\<rparr>)
      else if has_jobs s then None else Some (bsem_post_all s))"

definition main_do :: "nat \<Rightarrow> 'j pool \<Rightarrow> 'j pool option" where
  "main_do n s =
     (case m_pc s of
        Starting \<Rightarrow> guarded (num_threads_alive s = n) (s\<lparr>m_pc := Ready\<rparr>)
      | Ready \<Rightarrow>
          (case prog s of
             [] \<Rightarrow> None
           | Add_Work j # p \<Rightarrow> map_option (\<lambda>s'. s'\<lparr>prog := p\<rparr>) (thpool_add_work j s)
           | Wait_All # p \<Rightarrow> thpool_wait s
           | Destroy_Pool # p \<Rightarrow> Some ((thpool_destroy s)\<lparr>prog := p\<rparr>))
      | Pushing \<Rightarrow> Some ((bsem_post s)\<lparr>q_lock := False, m_pc := Ready\<rparr>)
      | Blocked \<Rightarrow> None
      | Killing \<Rightarrow> thpool_destroy_loop s
      | Freed \<Rightarrow> None)"

inductive pool_step :: "nat \<Rightarrow> 'j pool \<Rightarrow> 'j pool \<Rightarrow> bool" for n where
  by_thread: "t < n \<Longrightarrow> thread_do t s = Some s' \<Longrightarrow> pool_step n s s'"
| by_main: "main_do n s = Some s' \<Longrightarrow> pool_step n s s'"

inductive pool_reached :: "nat \<Rightarrow> 'j cmd list \<Rightarrow> 'j pool \<Rightarrow> bool" for n p where
  start: "pool_reached n p (thpool_init p)"
| more: "pool_reached n p s \<Longrightarrow> pool_step n s s' \<Longrightarrow> pool_reached n p s'"

section \<open>What holds while the pool runs\<close>

text \<open>The weights of the places of a thread: busy threads, threads that are alive, that hold the queue, that are on their way to a job, and the job in hand.\<close>

fun busy :: "'j tpc \<Rightarrow> nat" where
  "busy Pull = 1" | "busy (Posting j) = 1" | "busy (Got j) = 1" | "busy Count_Down = 1" | "busy _ = 0"

definition living :: "'j tpc \<Rightarrow> nat" where
  "living c = (if c = Born then 0 else 1)"

fun holds_queue :: "'j tpc \<Rightarrow> nat" where
  "holds_queue (Posting j) = 1" | "holds_queue _ = 0"

fun coming :: "'j tpc \<Rightarrow> nat" where
  "coming Recheck = 1" | "coming Count_Up = 1" | "coming Pull = 1" | "coming (Posting j) = 1" | "coming _ = 0"

fun in_hand :: "'j tpc \<Rightarrow> 'j multiset" where
  "in_hand (Posting j) = mset (some_list j)" | "in_hand (Got j) = mset (some_list j)" | "in_hand _ = {#}"

fun leaving :: "'j tpc \<Rightarrow> bool" where
  "leaving Leave = True" | "leaving Unlock_Last = True" | "leaving Dead = True" | "leaving _ = False"

text \<open>The sum of a weight over the threads.\<close>

definition total_of :: "('j tpc \<Rightarrow> 'a::comm_monoid_add) \<Rightarrow> nat \<Rightarrow> 'j pool \<Rightarrow> 'a" where
  "total_of w n s = (\<Sum>t<n. w (t_pc s t))"

fun adds :: "'j cmd list \<Rightarrow> 'j list" where
  "adds [] = []"
| "adds (Add_Work j # p) = j # adds p"
| "adds (_ # p) = adds p"

definition pool_inv :: "nat \<Rightarrow> 'j list \<Rightarrow> 'j pool \<Rightarrow> bool" where
  "pool_inv n js s \<longleftrightarrow>
     threads_keepalive s \<and> \<not> cnt_lock s \<and> Destroy_Pool \<notin> set (prog s) \<and> m_pc s \<in> {Starting, Ready, Pushing, Blocked} \<and>
     (\<forall>t<n. \<not> leaving (t_pc s t)) \<and>
     q_len (queue s) = length (q_jobs (queue s)) \<and>
     num_threads_working s = total_of busy n s \<and>
     num_threads_alive s = total_of living n s \<and>
     (if q_lock s then 1 else 0) = total_of holds_queue n s + (if m_pc s = Pushing then 1 else 0) \<and>
     (q_jobs (queue s) \<noteq> [] \<longrightarrow> has_jobs s \<or> m_pc s = Pushing \<or> 0 < total_of coming n s) \<and>
     (m_pc s = Blocked \<longrightarrow> (q_jobs (queue s) \<noteq> [] \<or> 0 < num_threads_working s) \<and> (\<exists>p. prog s = Wait_All # p)) \<and>
     started s @ q_jobs (queue s) @ adds (prog s) = js \<and>
     mset (finished s) + total_of in_hand n s = mset (started s)"

lemma sum_upd:
  fixes w :: "'c \<Rightarrow> 'a::comm_monoid_add" and t n :: nat
  assumes "t < n"
  shows "(\<Sum>i<n. w ((f(t := c)) i)) + w (f t) = (\<Sum>i<n. w (f i)) + w c"
proof -
  have r: "(\<Sum>i<n. g i) = g t + (\<Sum>i \<in> {..<n} - {t}. g i)" for g :: "nat \<Rightarrow> 'a"
    using assms by (intro sum.remove) auto
  have "(\<Sum>i \<in> {..<n} - {t}. w ((f(t := c)) i)) = (\<Sum>i \<in> {..<n} - {t}. w (f i))"
    by (rule sum.cong) auto
  with r [of "\<lambda>i. w ((f(t := c)) i)"] r [of "\<lambda>i. w (f i)"] show ?thesis by (simp add: ac_simps)
qed

lemma total_of_goto:
  fixes w :: "'j tpc \<Rightarrow> 'a::cancel_comm_monoid_add"
  assumes "t < n" and "t_pc s t = c0" and "t_pc s' = t_pc s"
  shows "total_of w n (goto t c s') + w c0 = total_of w n s + w c"
  using sum_upd [OF assms(1), of w "t_pc s" c] assms(2,3) by (simp add: total_of_def goto_def)

lemma total_of_same: "t_pc s' = t_pc s \<Longrightarrow> total_of w n s' = total_of w n s"
  by (simp add: total_of_def)

lemma goto_simps [simp]:
  "queue (goto t c s) = queue s" "q_lock (goto t c s) = q_lock s" "has_jobs (goto t c s) = has_jobs s"
  "num_threads_alive (goto t c s) = num_threads_alive s" "num_threads_working (goto t c s) = num_threads_working s"
  "cnt_lock (goto t c s) = cnt_lock s" "threads_keepalive (goto t c s) = threads_keepalive s" "m_pc (goto t c s) = m_pc s"
  "prog (goto t c s) = prog s" "started (goto t c s) = started s" "finished (goto t c s) = finished s"
  "t_pc (goto t c s) = (t_pc s)(t := c)"
  by (simp_all add: goto_def)

lemma total_le: "t < n \<Longrightarrow> w (t_pc s t) \<le> total_of w n s" for w :: "'j tpc \<Rightarrow> nat"
  unfolding total_of_def by (rule member_le_sum) auto

lemma guarded_Some [simp]: "guarded b x = Some y \<longleftrightarrow> b \<and> x = y"
  by (simp add: guarded_def)

lemma goto_totals:
  fixes w :: "'j tpc \<Rightarrow> nat"
  assumes "t < n" and "t_pc s t = c0" and "t_pc s1 = t_pc s"
  shows "total_of w n (goto t c s1) = total_of w n s + w c - w c0" and "w c0 \<le> total_of w n s"
  using total_of_goto [OF assms, of w c] total_le [OF assms(1), of w s] assms(2) by auto

lemma goto_hands:
  assumes "t < n" and "t_pc s t = c0" and "t_pc s1 = t_pc s"
  shows "total_of in_hand n (goto t c s1) = total_of in_hand n s + in_hand c - in_hand c0"
  using total_of_goto [OF assms, of in_hand c] by (metis add_diff_cancel_right')

lemma pool_invI:
  assumes "threads_keepalive s" "\<not> cnt_lock s" "Destroy_Pool \<notin> set (prog s)" "m_pc s \<in> {Starting, Ready, Pushing, Blocked}"
    and "\<forall>t<n. \<not> leaving (t_pc s t)" and "q_len (queue s) = length (q_jobs (queue s))"
    and "num_threads_working s = total_of busy n s" and "num_threads_alive s = total_of living n s"
    and "(if q_lock s then 1 else 0) = total_of holds_queue n s + (if m_pc s = Pushing then 1 else 0)"
    and "q_jobs (queue s) \<noteq> [] \<Longrightarrow> has_jobs s \<or> m_pc s = Pushing \<or> 0 < total_of coming n s"
    and "m_pc s = Blocked \<Longrightarrow> q_jobs (queue s) \<noteq> [] \<or> 0 < num_threads_working s"
    and "m_pc s = Blocked \<Longrightarrow> \<exists>p. prog s = Wait_All # p"
    and "started s @ q_jobs (queue s) @ adds (prog s) = js"
    and "mset (finished s) + total_of in_hand n s = mset (started s)"
  shows "pool_inv n js s"
  using assms by (simp add: pool_inv_def)

lemma pool_invD:
  assumes "pool_inv n js s"
  shows "threads_keepalive s" "\<not> cnt_lock s" "Destroy_Pool \<notin> set (prog s)" "m_pc s \<in> {Starting, Ready, Pushing, Blocked}"
    and "\<And>t. t < n \<Longrightarrow> \<not> leaving (t_pc s t)" and "q_len (queue s) = length (q_jobs (queue s))"
    and "num_threads_working s = total_of busy n s" and "num_threads_alive s = total_of living n s"
    and "(if q_lock s then 1 else 0) = total_of holds_queue n s + (if m_pc s = Pushing then 1 else 0)"
    and "q_jobs (queue s) \<noteq> [] \<Longrightarrow> has_jobs s \<or> m_pc s = Pushing \<or> 0 < total_of coming n s"
    and "m_pc s = Blocked \<Longrightarrow> q_jobs (queue s) \<noteq> [] \<or> 0 < num_threads_working s"
    and "m_pc s = Blocked \<Longrightarrow> \<exists>p. prog s = Wait_All # p"
    and "started s @ q_jobs (queue s) @ adds (prog s) = js"
    and "mset (finished s) + total_of in_hand n s = mset (started s)"
  using assms unfolding pool_inv_def by metis+

text \<open>A step of a thread that leaves the queue and the job in hand alone.\<close>

lemma inv_goto:
  assumes inv: "pool_inv n js s" and t: "t < n" "t_pc s t = c0"
    and same: "t_pc s1 = t_pc s" "queue s1 = queue s" "q_lock s1 = q_lock s" "m_pc s1 = m_pc s" "prog s1 = prog s" "started s1 = started s"
      "finished s1 = finished s" "threads_keepalive s1 = threads_keepalive s" "cnt_lock s1 = cnt_lock s"
    and wk: "num_threads_working s1 = num_threads_working s + busy c - busy c0"
    and al: "num_threads_alive s1 = num_threads_alive s + living c - living c0"
    and hq: "holds_queue c = holds_queue c0" and ih: "in_hand c = in_hand c0" and lv: "\<not> leaving c"
    and sem: "has_jobs s1 \<or> coming c = 1 \<or> (has_jobs s1 = has_jobs s \<and> coming c0 = 0)"
    and bl: "m_pc s \<noteq> Blocked \<or> busy c0 \<le> busy c"
  shows "pool_inv n js (goto t c s1)"
proof (rule pool_invI)
  note d = pool_invD [OF inv] and g = goto_totals [OF t same(1)]
  show "q_jobs (queue (goto t c s1)) \<noteq> [] \<Longrightarrow>
      has_jobs (goto t c s1) \<or> m_pc (goto t c s1) = Pushing \<or> 0 < total_of coming n (goto t c s1)"
    using d(10) sem g(2) [of coming] by (auto simp: same g(1))
  show "m_pc (goto t c s1) = Blocked \<Longrightarrow> q_jobs (queue (goto t c s1)) \<noteq> [] \<or> 0 < num_threads_working (goto t c s1)"
    using d(11) wk bl by (auto simp: same)
  show "(if q_lock (goto t c s1) then 1 else 0) = total_of holds_queue n (goto t c s1) + (if m_pc (goto t c s1) = Pushing then 1 else 0)"
    using d(9) hq by (simp add: same g(1))
  show "mset (finished (goto t c s1)) + total_of in_hand n (goto t c s1) = mset (started (goto t c s1))"
    using d(14) ih by (simp add: same goto_hands [OF t same(1)])
qed (use pool_invD [OF inv] wk al lv in \<open>simp_all add: same goto_totals(1) [OF t same(1)]\<close>)

text \<open>Posting after a job was taken, the end of a job, and the count of busy threads going down.\<close>

lemma inv_posting:
  assumes inv: "pool_inv n js s" and t: "t < n" "t_pc s t = Posting j" and s1: "s1 = (bsem_post s)\<lparr>q_lock := False\<rparr>"
  shows "pool_inv n js (goto t (Got j) s1)"
proof (rule pool_invI)
  note d = pool_invD [OF inv]
  have l: "q_lock s" "total_of holds_queue n s = 1" "m_pc s \<noteq> Pushing"
    using d(9) goto_totals(2) [OF t refl, of holds_queue] by (auto split: if_splits)
  have pc: "t_pc s1 = t_pc s" by (simp add: s1 bsem_post_def)
  note g = goto_totals(1) [OF t pc, of _ "Got j"]
  show "num_threads_working (goto t (Got j) s1) = total_of busy n (goto t (Got j) s1)"
    unfolding g using d(7) by (simp add: s1 bsem_post_def)
  show "num_threads_alive (goto t (Got j) s1) = total_of living n (goto t (Got j) s1)"
    unfolding g using d(8) by (simp add: s1 bsem_post_def living_def)
  show "(if q_lock (goto t (Got j) s1) then 1 else 0) =
      total_of holds_queue n (goto t (Got j) s1) + (if m_pc (goto t (Got j) s1) = Pushing then 1 else 0)"
    unfolding g using l by (simp add: s1 bsem_post_def)
  show "mset (finished (goto t (Got j) s1)) + total_of in_hand n (goto t (Got j) s1) = mset (started (goto t (Got j) s1))"
    unfolding goto_hands [OF t pc] using d(14) by (simp add: s1 bsem_post_def)
qed (use pool_invD [OF inv] in \<open>auto simp: s1 bsem_post_def\<close>)

lemma inv_got:
  assumes inv: "pool_inv n js s" and t: "t < n" "t_pc s t = Got j"
  shows "pool_inv n js (goto t Count_Down (s\<lparr>finished := finished s @ some_list j\<rparr>))" (is "pool_inv n js (goto t ?c ?s1)")
proof (rule pool_invI)
  note d = pool_invD [OF inv]
  have s1: "t_pc ?s1 = t_pc s" by simp
  note g = goto_totals(1) [OF t s1, of _ ?c]
  show "num_threads_working (goto t ?c ?s1) = total_of busy n (goto t ?c ?s1)" using d(7) by (simp add: g)
  show "num_threads_alive (goto t ?c ?s1) = total_of living n (goto t ?c ?s1)" using d(8) by (simp add: g living_def)
  show "(if q_lock (goto t ?c ?s1) then 1 else 0) = total_of holds_queue n (goto t ?c ?s1) + (if m_pc (goto t ?c ?s1) = Pushing then 1 else 0)"
    using d(9) by (simp add: g)
  show "q_jobs (queue (goto t ?c ?s1)) \<noteq> [] \<Longrightarrow> has_jobs (goto t ?c ?s1) \<or> m_pc (goto t ?c ?s1) = Pushing \<or> 0 < total_of coming n (goto t ?c ?s1)"
    using d(10) by (simp add: g)
  show "mset (finished (goto t ?c ?s1)) + total_of in_hand n (goto t ?c ?s1) = mset (started (goto t ?c ?s1))"
    using d(14) total_of_goto [OF t s1, of in_hand ?c] by (simp add: ac_simps)
qed (use pool_invD [OF inv] in auto)

lemma inv_count_down:
  assumes inv: "pool_inv n js s" and t: "t < n" "t_pc s t = Count_Down" and w: "w = num_threads_working s - 1"
    and s1: "s1 = s\<lparr>num_threads_working := w, m_pc := (if w = 0 \<and> m_pc s = Blocked then Ready else m_pc s)\<rparr>"
  shows "pool_inv n js (goto t Loop_Test s1)"
proof (rule pool_invI)
  note d = pool_invD [OF inv]
  have pc: "t_pc s1 = t_pc s" by (simp add: s1)
  note g = goto_totals(1) [OF t pc, of _ Loop_Test]
  show "num_threads_working (goto t Loop_Test s1) = total_of busy n (goto t Loop_Test s1)"
    unfolding g using d(7) w by (simp add: s1)
  show "num_threads_alive (goto t Loop_Test s1) = total_of living n (goto t Loop_Test s1)"
    unfolding g using d(8) by (simp add: living_def s1)
  show "(if q_lock (goto t Loop_Test s1) then 1 else 0) =
      total_of holds_queue n (goto t Loop_Test s1) + (if m_pc (goto t Loop_Test s1) = Pushing then 1 else 0)"
    unfolding g using d(9) by (simp add: s1)
  show "q_jobs (queue (goto t Loop_Test s1)) \<noteq> [] \<Longrightarrow>
      has_jobs (goto t Loop_Test s1) \<or> m_pc (goto t Loop_Test s1) = Pushing \<or> 0 < total_of coming n (goto t Loop_Test s1)"
    unfolding g using d(10) by (auto simp: s1)
  show "mset (finished (goto t Loop_Test s1)) + total_of in_hand n (goto t Loop_Test s1) = mset (started (goto t Loop_Test s1))"
    unfolding goto_hands [OF t pc] using d(14) by (simp add: s1)
qed (use pool_invD [OF inv] in \<open>auto simp: s1 split: if_splits\<close>)

lemma inv_pull:
  assumes inv: "pool_inv n js s" and t: "t < n" "t_pc s t = Pull" and "\<not> q_lock s" and pull: "jobqueue_pull (queue s) = (j, q, post)"
    and s1: "s1 = s\<lparr>queue := q, started := started s @ some_list j, q_lock := post\<rparr>"
    and c: "c = (if post then Posting j else Got j)"
  shows "pool_inv n js (goto t c s1)"
proof (rule pool_invI)
  note d = pool_invD [OF inv]
  have pc: "t_pc s1 = t_pc s" by (simp add: s1)
  note g = goto_totals(1) [OF t pc, of _ c]
  have q: "some_list j @ q_jobs q = q_jobs (queue s)" "q_len q = length (q_jobs q)" "q_jobs q \<noteq> [] \<Longrightarrow> post"
    using pull d(6) by (auto simp: jobqueue_pull_def Let_def some_list_def neq_Nil_conv split: if_splits list.splits)
  have m: "m_pc s \<noteq> Pushing" "total_of holds_queue n s = 0" using d(9) assms(4) by (auto split: if_splits)
  show "num_threads_working (goto t c s1) = total_of busy n (goto t c s1)"
    unfolding g using d(7) by (simp add: s1 c)
  show "num_threads_alive (goto t c s1) = total_of living n (goto t c s1)"
    unfolding g using d(8) by (simp add: living_def s1 c)
  show "(if q_lock (goto t c s1) then 1 else 0) = total_of holds_queue n (goto t c s1) + (if m_pc (goto t c s1) = Pushing then 1 else 0)"
    unfolding g using m by (simp add: s1 c)
  show "q_jobs (queue (goto t c s1)) \<noteq> [] \<Longrightarrow> has_jobs (goto t c s1) \<or> m_pc (goto t c s1) = Pushing \<or> 0 < total_of coming n (goto t c s1)"
    unfolding g using q(3) goto_totals(2) [OF t pc, of coming] by (auto simp: s1 c)
  show "m_pc (goto t c s1) = Blocked \<Longrightarrow> q_jobs (queue (goto t c s1)) \<noteq> [] \<or> 0 < num_threads_working (goto t c s1)"
    using d(7) goto_totals(2) [OF t pc, of busy] by (simp add: s1)
  show "started (goto t c s1) @ q_jobs (queue (goto t c s1)) @ adds (prog (goto t c s1)) = js"
    using d(13) q(1) [symmetric] by (simp add: s1)
  show "mset (finished (goto t c s1)) + total_of in_hand n (goto t c s1) = mset (started (goto t c s1))"
    unfolding goto_hands [OF t pc] using d(14) by (simp add: s1 c flip: add.assoc)
  show "\<forall>u<n. \<not> leaving (t_pc (goto t c s1) u)" using d(5) by (simp add: pc c)
  show "q_len (queue (goto t c s1)) = length (q_jobs (queue (goto t c s1)))" using q(2) by (simp add: s1)
  show "m_pc (goto t c s1) = Blocked \<Longrightarrow> \<exists>p. prog (goto t c s1) = Wait_All # p" using d(12) by (simp add: s1)
qed (use pool_invD(1-4) [OF inv] in \<open>simp_all add: s1\<close>)

lemma thread_step_inv:
  assumes inv: "pool_inv n js s" and t: "t < n" and st: "thread_do t s = Some s'"
  shows "pool_inv n js s'"
proof (cases "t_pc s t")
  case Sem_Wait
  then show ?thesis
    using st by (auto simp: thread_do_def bsem_wait_def living_def split: if_splits intro!: inv_goto [OF inv t Sem_Wait])
next
  case Pull
  obtain j q post where p: "jobqueue_pull (queue s) = (j, q, post)" by (cases "jobqueue_pull (queue s)")
  have "s' = goto t (if post then Posting j else Got j) (s\<lparr>queue := q, started := started s @ some_list j, q_lock := post\<rparr>)" "\<not> q_lock s"
    using st Pull p by (auto simp: thread_do_def Let_def split: if_splits)
  then show ?thesis using inv_pull [OF inv t Pull _ p refl refl] by simp
next
  case (Posting j)
  then show ?thesis using st inv_posting [OF inv t Posting refl] by (auto simp: thread_do_def)
next
  case (Got j)
  then show ?thesis using st inv_got [OF inv t Got] by (auto simp: thread_do_def)
next
  case Count_Down
  then show ?thesis using st inv_count_down [OF inv t Count_Down refl refl] by (auto simp: thread_do_def Let_def)
next
  case Leave
  then show ?thesis using pool_invD(5) [OF inv t] by simp
next
  case Unlock_Last
  then show ?thesis using pool_invD(5) [OF inv t] by simp
next
  case Dead
  then show ?thesis using pool_invD(5) [OF inv t] by simp
qed (use pool_invD(1,5) [OF inv] t st in \<open>auto simp: thread_do_def living_def intro!: inv_goto [OF inv t]\<close>)

lemmas main_do_defs = main_do_def thpool_add_work_def thpool_wait_def thpool_destroy_loop_def bsem_post_def
  bsem_post_all_def bsem_reset_def jobqueue_destroy_def thpool_destroy_def

lemma main_do_same:
  assumes "main_do n s = Some s'"
  shows "t_pc s' = t_pc s" and "num_threads_alive s' = num_threads_alive s" and "cnt_lock s' = cnt_lock s"
  subgoal using assms by (auto simp: main_do_defs split: mpc.splits list.splits cmd.splits if_splits)
  subgoal using assms by (cases "m_pc s") (auto simp: main_do_defs split: list.splits cmd.splits if_splits)
  subgoal using assms by (cases "m_pc s") (auto simp: main_do_defs split: list.splits cmd.splits if_splits)
  done

lemma main_step_inv:
  assumes inv: "pool_inv n js s" and st: "main_do n s = Some s'"
  shows "pool_inv n js s'"
proof -
  note d = pool_invD [OF inv]
  note same = main_do_same(1) [OF st]
  note tot = total_of_same [OF same]
  consider (start) "m_pc s = Starting" | (add) j p where "m_pc s = Ready" "prog s = Add_Work j # p"
    | (wait) p where "m_pc s = Ready" "prog s = Wait_All # p" | (push) "m_pc s = Pushing"
    using d(3,4) st by (auto simp: main_do_def split: list.splits cmd.splits)
  then show ?thesis
  proof cases
    case start
    then have s': "s' = s\<lparr>m_pc := Ready\<rparr>" using st by (auto simp: main_do_def)
    show ?thesis by (rule pool_invI) (use d start in \<open>auto simp: tot, auto simp: s'\<close>)
  next
    case add
    then have s': "s' = s\<lparr>queue := jobqueue_push (queue s) j, q_lock := True, m_pc := Pushing, prog := p\<rparr>" "\<not> q_lock s"
      using st by (auto simp: main_do_def thpool_add_work_def)
    show ?thesis by (rule pool_invI) (use d add s'(2) in \<open>auto simp: tot, auto simp: s' jobqueue_push_def\<close>)
  next
    case wait
    show ?thesis
    proof (cases "q_len (queue s) \<noteq> 0 \<or> num_threads_working s \<noteq> 0")
      case True
      then have s': "s' = s\<lparr>m_pc := Blocked\<rparr>" using st wait by (auto simp: main_do_def thpool_wait_def)
      show ?thesis by (rule pool_invI) (use d wait True in \<open>auto simp: tot, auto simp: s'\<close>)
    next
      case False
      then have s': "s' = s\<lparr>prog := p\<rparr>" using st wait by (auto simp: main_do_def thpool_wait_def)
      show ?thesis by (rule pool_invI) (use d wait in \<open>auto simp: tot, auto simp: s'\<close>)
    qed
  next
    case push
    then have s': "s' = (bsem_post s)\<lparr>q_lock := False, m_pc := Ready\<rparr>" using st by (auto simp: main_do_def)
    show ?thesis by (rule pool_invI) (use d push in \<open>auto simp: tot split: if_splits, auto simp: s' bsem_post_def split: if_splits\<close>)
  qed
qed

lemma pool_step_inv: "pool_step n s s' \<Longrightarrow> pool_inv n js s \<Longrightarrow> pool_inv n js s'"
  by (erule pool_step.cases) (auto intro: thread_step_inv main_step_inv)

lemma thpool_init_inv: "Destroy_Pool \<notin> set p \<Longrightarrow> pool_inv n (adds p) (thpool_init p)"
  by (rule pool_invI) (auto simp: thpool_init_def jobqueue_init_def total_of_def living_def)

lemma pool_reached_inv: "pool_reached n p s \<Longrightarrow> Destroy_Pool \<notin> set p \<Longrightarrow> pool_inv n (adds p) s"
  by (induction rule: pool_reached.induct) (auto intro: thpool_init_inv pool_step_inv)

section \<open>Every run ends\<close>

text \<open>A measure that every step makes smaller: what is left to do for each thread, for each job in the queue and for each call of the program.\<close>

fun pc_work :: "'j tpc \<Rightarrow> nat" where
  "pc_work Born = 2" | "pc_work Loop_Test = 1" | "pc_work Recheck = 7" | "pc_work Count_Up = 6" | "pc_work Pull = 5"
| "pc_work (Posting j) = 14" | "pc_work (Got j) = 4" | "pc_work Count_Down = 3" | "pc_work _ = 0"

fun cmd_work :: "'j cmd \<Rightarrow> nat" where
  "cmd_work (Add_Work j) = 60" | "cmd_work _ = 3"

fun main_work :: "mpc \<Rightarrow> nat" where
  "main_work Starting = 2" | "main_work Ready = 1" | "main_work Pushing = 10" | "main_work _ = 0"

definition pool_work :: "nat \<Rightarrow> 'j pool \<Rightarrow> nat" where
  "pool_work n s =
     total_of pc_work n s + 40 * length (q_jobs (queue s)) + (if has_jobs s then 8 else 0) + sum_list (map cmd_work (prog s)) + main_work (m_pc s)"

lemma pool_work_goto:
  assumes "t < n" and "t_pc s t = c0" and "t_pc s1 = t_pc s"
    and "40 * length (q_jobs (queue s1)) + (if has_jobs s1 then 8 else 0) + main_work (m_pc s1) + pc_work c <
         40 * length (q_jobs (queue s)) + (if has_jobs s then 8 else 0) + main_work (m_pc s) + pc_work c0"
    and "prog s1 = prog s"
  shows "pool_work n (goto t c s1) < pool_work n s"
  using total_of_goto [OF assms(1-3), of pc_work c] assms(4,5) by (simp add: pool_work_def)

lemma thread_step_work:
  assumes inv: "pool_inv n js s" and t: "t < n" and st: "thread_do t s = Some s'"
  shows "pool_work n s' < pool_work n s"
proof (cases "t_pc s t")
  case Pull
  obtain j q post where p: "jobqueue_pull (queue s) = (j, q, post)" by (cases "jobqueue_pull (queue s)")
  have s': "s' = goto t (if post then Posting j else Got j) (s\<lparr>queue := q, started := started s @ some_list j, q_lock := post\<rparr>)"
    using st Pull p by (auto simp: thread_do_def Let_def split: if_splits)
  have "length (q_jobs q) \<le> length (q_jobs (queue s))" "post \<Longrightarrow> length (q_jobs (queue s)) = Suc (length (q_jobs q))"
    using p pool_invD(6) [OF inv] by (auto simp: jobqueue_pull_def Let_def split: if_splits)
  then show ?thesis unfolding s' by (intro pool_work_goto [OF t Pull]) auto
next
  case Sem_Wait
  then show ?thesis
    using st by (auto simp: thread_do_def bsem_wait_def split: if_splits intro!: pool_work_goto [OF t Sem_Wait])
next
  case (Posting j)
  then show ?thesis using st by (auto simp: thread_do_def bsem_post_def intro!: pool_work_goto [OF t Posting])
next
  case Count_Down
  then show ?thesis using st by (auto simp: thread_do_def Let_def intro!: pool_work_goto [OF t Count_Down])
next
  case Leave
  then show ?thesis using pool_invD(5) [OF inv t] by simp
next
  case Unlock_Last
  then show ?thesis using pool_invD(5) [OF inv t] by simp
next
  case Dead
  then show ?thesis using pool_invD(5) [OF inv t] by simp
qed (use pool_invD(1) [OF inv] st in \<open>auto simp: thread_do_def intro!: pool_work_goto [OF t]\<close>)

lemma main_step_work:
  assumes inv: "pool_inv n js s" and st: "main_do n s = Some s'"
  shows "pool_work n s' < pool_work n s"
proof -
  note d = pool_invD [OF inv]
  note same = main_do_same(1) [OF st]
  show ?thesis unfolding pool_work_def total_of_same [OF same]
    using d(3,4,6) st by (auto simp: main_do_def thpool_add_work_def thpool_wait_def bsem_post_def jobqueue_push_def
        split: list.splits cmd.splits if_splits)
qed

lemma pool_step_work: "pool_step n s s' \<Longrightarrow> pool_inv n js s \<Longrightarrow> pool_work n s' < pool_work n s"
  by (erule pool_step.cases) (auto intro: thread_step_work main_step_work)

section \<open>A pool that cannot step has done everything\<close>

text \<open>The state in which all calls have returned, all jobs are done and every thread waits for a job.\<close>

definition pool_idle :: "nat \<Rightarrow> 'j pool \<Rightarrow> bool" where
  "pool_idle n s \<longleftrightarrow>
     m_pc s = Ready \<and> prog s = [] \<and> q_jobs (queue s) = [] \<and> q_len (queue s) = 0 \<and> num_threads_working s = 0 \<and>
     num_threads_alive s = n \<and> (\<forall>t<n. t_pc s t = Sem_Wait)"

lemma total_zero: "(\<And>t. t < n \<Longrightarrow> w (t_pc s t) = 0) \<Longrightarrow> total_of w n s = 0"
  by (simp add: total_of_def)

lemma stuck_threads:
  assumes inv: "pool_inv n js s" and stuck: "\<nexists>s'. pool_step n s s'" and t: "t < n"
  shows "t_pc s t = Sem_Wait \<and> \<not> has_jobs s"
proof -
  note d = pool_invD [OF inv]
  have none: "thread_do u s = None" if "u < n" for u
    using stuck that by (metis by_thread option.exhaust)
  have main: "main_do n s = None" using stuck by (metis by_main option.exhaust)
  have hold: "holds_queue (t_pc s u) = 0" if "u < n" for u
    using none [OF that] by (cases "t_pc s u") (auto simp: thread_do_def)
  have "m_pc s \<noteq> Pushing" using main by (auto simp: main_do_def)
  with d(9) total_zero [of n holds_queue s] hold have "\<not> q_lock s" by (auto split: if_splits)
  then show ?thesis using none [OF t] d(2) d(5) [OF t]
    by (cases "t_pc s t") (auto simp: thread_do_def guarded_def bsem_wait_def Let_def split: if_splits prod.splits)
qed

lemma stuck_idle:
  assumes inv: "pool_inv n js s" and stuck: "\<nexists>s'. pool_step n s s'" and n: "0 < n"
  shows "pool_idle n s \<and> started s = js \<and> mset (finished s) = mset js"
proof -
  note d = pool_invD [OF inv] and th = stuck_threads [OF inv stuck]
  have main: "main_do n s = None" using stuck by (metis by_main option.exhaust)
  have push: "m_pc s \<noteq> Pushing" using main by (auto simp: main_do_def)
  have z: "total_of busy n s = 0" "total_of coming n s = 0" "total_of holds_queue n s = 0" "total_of in_hand n s = {#}"
    using th by (auto intro!: total_zero simp: total_of_def)
  have "total_of living n s = (\<Sum>t<n. 1)" unfolding total_of_def by (rule sum.cong) (use th in \<open>auto simp: living_def\<close>)
  with d(8) have alive: "num_threads_alive s = n" by simp
  from d(10) push z(2) th [OF n] have q: "q_jobs (queue s) = []" by auto
  from d(9) z(3) push have lock: "\<not> q_lock s" by (auto split: if_splits)
  from d(4,11) q d(7) z(1) push main alive have ready: "m_pc s = Ready" by (auto simp: main_do_def guarded_def)
  have "prog s = []"
    using main ready d(2,3) lock
    by (auto simp: main_do_def thpool_add_work_def thpool_wait_def guarded_def split: list.splits cmd.splits if_splits)
  with d(6,7,13,14) q z alive ready th show ?thesis by (auto simp: pool_idle_def)
qed

section \<open>Runs\<close>

text \<open>A maximal run: a step as long as there is one.\<close>

definition maximal_run :: "nat \<Rightarrow> 'j cmd list \<Rightarrow> (nat \<Rightarrow> 'j pool) \<Rightarrow> bool" where
  "maximal_run n p r \<longleftrightarrow>
     r 0 = thpool_init p \<and>
     (\<forall>i. pool_step n (r i) (r (Suc i)) \<or> ((\<nexists>s. pool_step n (r i) s) \<and> r (Suc i) = r i))"

lemma maximal_run_reached: "maximal_run n p r \<Longrightarrow> pool_reached n p (r i)"
proof (induction i)
  case 0
  then show ?case by (simp add: maximal_run_def start)
next
  case (Suc i)
  then have "pool_step n (r i) (r (Suc i)) \<or> r (Suc i) = r i" by (auto simp: maximal_run_def)
  with Suc show ?case by (auto intro: more)
qed

lemma maximal_run_ends:
  assumes run: "maximal_run n p r" and "Destroy_Pool \<notin> set p"
  shows "\<exists>k. \<nexists>s. pool_step n (r k) s"
proof (rule ccontr)
  assume "\<nexists>k. \<nexists>s. pool_step n (r k) s"
  then have "pool_step n (r i) (r (Suc i))" for i using run by (auto simp: maximal_run_def)
  then have "pool_work n (r (Suc i)) < pool_work n (r i)" for i
    using pool_step_work pool_reached_inv [OF maximal_run_reached [OF run] assms(2)] by blast
  then show False using wf_less_than by (auto simp: wf_iff_no_infinite_down_chain dest!: spec [of _ "\<lambda>i. pool_work n (r i)"])
qed

lemma maximal_run_stays: "maximal_run n p r \<Longrightarrow> \<nexists>s. pool_step n (r k) s \<Longrightarrow> r (k + i) = r k"
proof (induction i)
  case (Suc i)
  then have "r (k + i) = r k" by simp
  with Suc.prems show ?case by (auto simp: maximal_run_def dest!: spec [of _ "k + i"])
qed simp

text \<open>The schedule that prefers the thread with the smallest number and lets the main thread step when no thread can.\<close>

definition first_step :: "nat \<Rightarrow> 'j pool \<Rightarrow> 'j pool option" where
  "first_step n s = (case List.map_filter (\<lambda>t. thread_do t s) [0..<n] of [] \<Rightarrow> main_do n s | s' # _ \<Rightarrow> Some s')"

definition first_run :: "nat \<Rightarrow> 'j cmd list \<Rightarrow> nat \<Rightarrow> 'j pool" where
  "first_run n p i = ((\<lambda>s. case first_step n s of None \<Rightarrow> s | Some s' \<Rightarrow> s') ^^ i) (thpool_init p)"

lemma first_step_Some:
  assumes "first_step n s = Some s'"
  shows "pool_step n s s'"
proof (cases "List.map_filter (\<lambda>t. thread_do t s) [0..<n]")
  case Nil
  with assms show ?thesis by (simp add: first_step_def by_main)
next
  case (Cons s1 ss)
  with assms have "s' \<in> set (List.map_filter (\<lambda>t. thread_do t s) [0..<n])" by (simp add: first_step_def)
  then show ?thesis by (auto simp: List.map_filter_def intro: by_thread)
qed

lemma first_step_None: "first_step n s = None \<Longrightarrow> \<not> pool_step n s s'"
  by (auto simp: first_step_def List.map_filter_def filter_empty_conv pool_step.simps split: list.splits)

lemma first_run_maximal: "maximal_run n p (first_run n p)"
  unfolding maximal_run_def by (auto simp: first_run_def first_step_Some first_step_None split: option.splits)

section \<open>The properties of the pool\<close>

text \<open>C9: Every job is run: whatever the interleaving of the threads, a program of calls of \<^verbatim>\<open>thpool_add_work\<close> and \<^verbatim>\<open>thpool_wait\<close> on a pool made by
  \<^verbatim>\<open>thpool_init(num_threads)\<close> comes, after finitely many steps, to a state in which all its calls have returned, no thread is working, all threads wait for the
  semaphore, the jobs were taken in the order in which they were added and each was run once. No call of \<^verbatim>\<open>thpool_wait\<close> hangs and no post
  of the binary semaphore is lost.\<close>

theorem pool_runs_all_jobs:
  assumes "maximal_run (num_threads_of num_threads) p r" and "Destroy_Pool \<notin> set p"
  shows "\<exists>k. \<forall>i\<ge>k. pool_idle (num_threads_of num_threads) (r i) \<and> started (r i) = adds p \<and> mset (finished (r i)) = mset (adds p)"
proof -
  let ?n = "num_threads_of num_threads"
  obtain k where k: "\<nexists>s. pool_step ?n (r k) s" using maximal_run_ends [OF assms] by auto
  have n: "0 < ?n" by (auto simp: num_threads_of_def)
  have "pool_idle ?n (r (k + i)) \<and> started (r (k + i)) = adds p \<and> mset (finished (r (k + i))) = mset (adds p)" for i
    using stuck_idle [OF pool_reached_inv [OF maximal_run_reached [OF assms(1)] assms(2)] k n] maximal_run_stays [OF assms(1) k] by simp
  then show ?thesis by (metis le_add_diff_inverse)
qed

theorem pool_runs_all_jobs_witness:
  "\<exists>k. \<forall>i\<ge>k. pool_idle (num_threads_of 2) (first_run (num_threads_of 2) [Add_Work 1, Wait_All, Add_Work (2::nat), Add_Work 3] i) \<and>
     started (first_run (num_threads_of 2) [Add_Work 1, Wait_All, Add_Work (2::nat), Add_Work 3] i) = [1, 2, 3] \<and>
     mset (finished (first_run (num_threads_of 2) [Add_Work 1, Wait_All, Add_Work (2::nat), Add_Work 3] i)) = {#1, 2, 3#}"
  using pool_runs_all_jobs [of 2 "[Add_Work 1, Wait_All, Add_Work (2::nat), Add_Work 3]", OF first_run_maximal] by simp

lemma total_of_zero_D: "total_of w n s = 0 \<Longrightarrow> t < n \<Longrightarrow> w (t_pc s t) = 0" for w :: "'j tpc \<Rightarrow> nat"
  by (metis le_zero_eq total_le)

lemma busy_in_hand: "busy c = 0 \<Longrightarrow> in_hand c = {#}"
  by (cases c) auto

text \<open>C11: When \<^verbatim>\<open>thpool_wait\<close> returns, every job that was added before the call has been run to its end and no thread has one in hand.\<close>

theorem wait_returns_after_all_jobs:
  assumes "pool_reached n p s" and "Destroy_Pool \<notin> set p" and "prog s = Wait_All # p'" and "m_pc s = Ready"
    and "main_do n s = Some s'" and "prog s' = p'" and "p = p0 @ Wait_All # p'"
  shows "mset (finished s) = mset (adds p0) \<and> started s = adds p0 \<and> num_threads_working s = 0 \<and>
    (\<forall>t<n. in_hand (t_pc s t) = {#})"
proof -
  note d = pool_invD [OF pool_reached_inv [OF assms(1,2)]]
  have z: "q_len (queue s) = 0" "num_threads_working s = 0"
    using assms(3-6) by (auto simp: main_do_def thpool_wait_def split: if_splits)
  have a: "adds (xs @ ys) = adds xs @ adds ys" for xs ys :: "'a cmd list" by (induction xs rule: adds.induct) auto
  have "busy (t_pc s t) = 0" if "t < n" for t using d(7) z(2) total_of_zero_D [of busy n s] that by simp
  then have h: "\<forall>t<n. in_hand (t_pc s t) = {#}" by (simp add: busy_in_hand)
  then have "total_of in_hand n s = {#}" by (simp add: total_of_def)
  with d(6,13,14) z h assms(3,7) show ?thesis by (simp add: a)
qed

text \<open>Runs by a schedule: \<open>Some t\<close> lets thread \<open>t\<close> step, \<open>None\<close> the main thread.\<close>

fun run_schedule :: "nat \<Rightarrow> nat option list \<Rightarrow> 'j pool \<Rightarrow> 'j pool option" where
  "run_schedule n [] s = Some s"
| "run_schedule n (None # us) s = Option.bind (main_do n s) (run_schedule n us)"
| "run_schedule n (Some t # us) s = (if t < n then Option.bind (thread_do t s) (run_schedule n us) else None)"

lemma run_schedule_reached: "run_schedule n us s = Some s' \<Longrightarrow> pool_reached n p s \<Longrightarrow> pool_reached n p s'"
proof (induction n us s rule: run_schedule.induct)
  case (2 n us s)
  then show ?case by (auto simp: Option.bind_eq_Some_conv intro: more by_main)
next
  case (3 n t us s)
  then show ?case by (auto simp: Option.bind_eq_Some_conv split: if_splits dest: more [OF _ by_thread])
qed simp

theorem wait_returns_after_all_jobs_witness:
  "\<exists>s s'. run_schedule 1 [Some 0, Some 0, None, None, None, Some 0, Some 0, Some 0, Some 0, Some 0, Some 0]
       (thpool_init [Add_Work (7::nat), Wait_All, Add_Work 8]) = Some s \<and> main_do 1 s = Some s' \<and> prog s' = [Add_Work 8] \<and>
     mset (finished s) = {#7#} \<and> started s = [7] \<and> num_threads_working s = 0 \<and> (\<forall>t<1. in_hand (t_pc s t) = {#})"
proof -
  let ?p = "[Add_Work (7::nat), Wait_All, Add_Work 8]"
  let ?us = "[Some 0, Some 0, None, None, None, Some 0, Some 0, Some 0, Some 0, Some 0, Some 0]"
  have "map_option (\<lambda>s. (prog s, m_pc s, q_len (queue s), num_threads_working s, cnt_lock s)) (run_schedule 1 ?us (thpool_init ?p)) =
      Some ([Wait_All, Add_Work 8], Ready, 0, 0, False)"
    by code_simp
  then obtain s where s: "run_schedule 1 ?us (thpool_init ?p) = Some s"
    and p: "prog s = [Wait_All, Add_Work 8]" "m_pc s = Ready" "q_len (queue s) = 0" "num_threads_working s = 0" "\<not> cnt_lock s"
    unfolding map_option_eq_Some by blast
  let ?s' = "s\<lparr>prog := [Add_Work 8]\<rparr>"
  have m: "main_do 1 s = Some ?s'" using p by (simp add: main_do_def thpool_wait_def guarded_def)
  have r: "pool_reached 1 ?p s" by (rule run_schedule_reached [OF s start])
  have h: "Destroy_Pool \<notin> set ?p" "prog ?s' = [Add_Work 8]" "?p = [Add_Work 7] @ Wait_All # [Add_Work 8]" by simp_all
  have "mset (finished s) = {#7#} \<and> started s = [7] \<and> num_threads_working s = 0 \<and> (\<forall>t<1. in_hand (t_pc s t) = {#})"
    using wait_returns_after_all_jobs [OF r h(1) p(1,2) m h(2,3)] by simp
  then show ?thesis by (intro exI [of _ s] exI [of _ ?s'] conjI, intro s, intro m) simp_all
qed

section \<open>The end of the pool\<close>

text \<open>Threads that are counted as alive, and threads that are about to unlock the counters as their last act.\<close>

fun counted :: "'j tpc \<Rightarrow> nat" where
  "counted Born = 0" | "counted Unlock_Last = 0" | "counted Dead = 0" | "counted _ = 1"

fun unlocking :: "'j tpc \<Rightarrow> nat" where
  "unlocking Unlock_Last = 1" | "unlocking _ = 0"

definition alive_inv :: "nat \<Rightarrow> 'j pool \<Rightarrow> bool" where
  "alive_inv n s \<longleftrightarrow>
     num_threads_alive s = total_of counted n s \<and> (if cnt_lock s then 1 else 0) = total_of unlocking n s \<and>
     (m_pc s = Starting \<or> (\<forall>t<n. t_pc s t \<noteq> Born)) \<and> (m_pc s \<in> {Killing, Freed} \<or> threads_keepalive s) \<and>
     (m_pc s = Freed \<longrightarrow> num_threads_alive s = 0)"

lemma alive_goto:
  assumes inv: "alive_inv n s" and t: "t < n" "t_pc s t = c0" and same: "t_pc s1 = t_pc s" "threads_keepalive s1 = threads_keepalive s"
    and m: "m_pc s1 = m_pc s \<or> m_pc s = Blocked \<and> m_pc s1 = Ready"
    and al: "num_threads_alive s1 + counted c0 = num_threads_alive s + counted c"
    and ul: "(if cnt_lock s1 then 1 else 0) + unlocking c0 = (if cnt_lock s then 1 else 0) + unlocking c"
    and c: "c \<noteq> Born" and up: "counted c \<le> counted c0 \<or> c0 = Born"
  shows "alive_inv n (goto t c s1)"
proof -
  have "num_threads_alive s1 = total_of counted n (goto t c s1)"
    using total_of_goto [OF t same(1), of counted c] al inv by (simp add: alive_inv_def)
  moreover have "(if cnt_lock s1 then 1 else 0) = total_of unlocking n (goto t c s1)"
    using total_of_goto [OF t same(1), of unlocking c] ul inv by (simp add: alive_inv_def)
  ultimately show ?thesis
    using inv c m al up t by (auto simp: alive_inv_def same)
qed

lemma alive_thread:
  assumes inv: "alive_inv n s" and t: "t < n" and st: "thread_do t s = Some s'"
  shows "alive_inv n s'"
proof (cases "t_pc s t")
  case Pull
  then show ?thesis
    using st by (auto simp: thread_do_def Let_def split: if_splits prod.splits intro!: alive_goto [OF inv t Pull])
next
  case Leave
  then have "0 < num_threads_alive s" using inv total_le [OF t, of counted s] by (simp add: alive_inv_def)
  then show ?thesis using st Leave by (auto simp: thread_do_def intro!: alive_goto [OF inv t Leave])
next
  case Unlock_Last
  then have "cnt_lock s" using inv total_le [OF t, of unlocking s] by (auto simp: alive_inv_def split: if_splits)
  then show ?thesis using st Unlock_Last by (auto simp: thread_do_def intro!: alive_goto [OF inv t Unlock_Last])
qed (use st in \<open>auto simp: thread_do_def Let_def bsem_wait_def bsem_post_def split: if_splits intro!: alive_goto [OF inv t]\<close>)

lemma counted_le: "counted c \<le> 1"
  by (cases c) auto

lemma counted_all: "total_of counted n s = n \<Longrightarrow> t < n \<Longrightarrow> t_pc s t \<noteq> Born"
proof
  assume a: "total_of counted n s = n" "t < n" "t_pc s t = Born"
  have "(\<Sum>u<n. counted (t_pc s u)) < (\<Sum>u<n. 1)"
  proof (rule sum_strict_mono_ex1)
    show "\<forall>u\<in>{..<n}. counted (t_pc s u) \<le> 1" using counted_le by blast
    show "\<exists>u\<in>{..<n}. counted (t_pc s u) < 1" using a(2,3) by (intro bexI [of _ t]) auto
  qed simp
  with a show False by (simp add: total_of_def)
qed

lemma alive_main:
  assumes inv: "alive_inv n s" and st: "main_do n s = Some s'"
  shows "alive_inv n s'"
proof -
  note same = main_do_same [OF st]
  have st2: "m_pc s = Starting \<Longrightarrow> num_threads_alive s = n"
    using st by (auto simp: main_do_def)
  have "m_pc s' = Starting \<or> (\<forall>t<n. t_pc s t \<noteq> Born)"
    using inv counted_all [of n s] st2 by (auto simp: alive_inv_def)
  moreover have "m_pc s \<in> {Killing, Freed} \<or> threads_keepalive s" using inv by (simp add: alive_inv_def)
  then have "m_pc s' \<in> {Killing, Freed} \<or> threads_keepalive s'"
    using st by (cases "m_pc s") (auto simp: main_do_defs split: list.splits cmd.splits if_splits)
  moreover have "m_pc s' = Freed \<longrightarrow> num_threads_alive s = 0"
    using st by (cases "m_pc s") (auto simp: main_do_defs split: list.splits cmd.splits if_splits)
  ultimately show ?thesis
    using inv unfolding alive_inv_def total_of_same [OF same(1)] same by simp
qed

lemma pool_reached_alive: "pool_reached n p s \<Longrightarrow> alive_inv n s"
proof (induction rule: pool_reached.induct)
  case start
  show ?case by (simp add: alive_inv_def thpool_init_def total_of_def)
next
  case (more s s')
  then show ?case by (auto elim: pool_step.cases intro: alive_thread alive_main)
qed

lemma counted_zero: "counted c = 0 \<Longrightarrow> c \<noteq> Born \<Longrightarrow> c = Dead \<or> c = Unlock_Last"
  by (cases c) auto

text \<open>C12: The memory of the pool is released by \<^verbatim>\<open>thpool_destroy\<close> only when every thread has left its loop, with no job in hand; at most one of
  them is not over, and all that it has left to do is to unlock the mutex of the counters.\<close>

theorem freed_pool_threads:
  assumes "pool_reached n p s" and "m_pc s = Freed"
  shows "(\<forall>t<n. t_pc s t = Dead \<or> t_pc s t = Unlock_Last) \<and> card {t. t < n \<and> t_pc s t = Unlock_Last} \<le> 1"
proof
  have inv: "alive_inv n s" by (rule pool_reached_alive [OF assms(1)])
  then have z: "total_of counted n s = 0" and nb: "\<forall>t<n. t_pc s t \<noteq> Born" and u: "total_of unlocking n s \<le> 1"
    using assms(2) by (auto simp: alive_inv_def split: if_splits)
  show "\<forall>t<n. t_pc s t = Dead \<or> t_pc s t = Unlock_Last"
    using counted_zero total_of_zero_D [OF z] nb by blast
  have "card {t. t < n \<and> t_pc s t = Unlock_Last} = (\<Sum>t\<in>{t. t < n \<and> t_pc s t = Unlock_Last}. unlocking (t_pc s t))" by simp
  also have "\<dots> \<le> total_of unlocking n s" unfolding total_of_def by (rule sum_mono2) auto
  finally show "card {t. t < n \<and> t_pc s t = Unlock_Last} \<le> 1" using u by simp
qed

theorem freed_pool_threads_witness:
  "\<exists>s. run_schedule 1 [Some 0, None, None, Some 0, Some 0, None] (thpool_init [Destroy_Pool :: nat cmd]) = Some s \<and>
     (\<forall>t<1. t_pc s t = Dead \<or> t_pc s t = Unlock_Last) \<and> card {t. t < 1 \<and> t_pc s t = Unlock_Last} \<le> 1"
proof -
  have "map_option m_pc (run_schedule 1 [Some 0, None, None, Some 0, Some 0, None] (thpool_init [Destroy_Pool :: nat cmd])) = Some Freed"
    by code_simp
  then obtain s where s: "run_schedule 1 [Some 0, None, None, Some 0, Some 0, None] (thpool_init [Destroy_Pool :: nat cmd]) = Some s"
    and m: "m_pc s = Freed"
    unfolding map_option_eq_Some by blast
  from freed_pool_threads [OF run_schedule_reached [OF s start] m] show ?thesis using s by blast
qed

text \<open>That one thread is enough for an error: \<^verbatim>\<open>num_threads_alive\<close> is read by \<^verbatim>\<open>thpool_destroy\<close> without the lock, so with a pool of one thread there is a run
  in which the pool is released while the thread holds its mutex, which it then unlocks in released memory.\<close>

theorem destroy_frees_locked_pool:
  "\<exists>s s'. pool_reached (num_threads_of 1) [Destroy_Pool :: nat cmd] s \<and> m_pc s = Freed \<and> cnt_lock s \<and> thread_do 0 s = Some s' \<and> \<not> cnt_lock s'"
proof -
  have "map_option (\<lambda>s. (m_pc s, cnt_lock s, map_option (\<lambda>s'. cnt_lock s') (thread_do 0 s)))
      (run_schedule (num_threads_of 1) [Some 0, None, None, Some 0, Some 0, None] (thpool_init [Destroy_Pool :: nat cmd])) =
      Some (Freed, True, Some False)"
    by code_simp
  then obtain s where s: "run_schedule (num_threads_of 1) [Some 0, None, None, Some 0, Some 0, None] (thpool_init [Destroy_Pool :: nat cmd]) = Some s"
    and m: "m_pc s = Freed" "cnt_lock s" "map_option (\<lambda>s'. cnt_lock s') (thread_do 0 s) = Some False"
    unfolding map_option_eq_Some by blast
  from run_schedule_reached [OF s start] m show ?thesis by auto
qed

end
