(* ===== verification/Thpool_Destroy.thy ===== *)
theory Thpool_Destroy
  imports Thpool
begin

text \<open>
  The end of a thread pool (src/src/utils/thread/thpool.c): runs of programs that end with \<^verbatim>\<open>thpool_destroy\<close>. Before the call the pool is one of \<open>Thpool\<close> whose
  program does not have the call yet; after it, \<open>kill_inv\<close> holds, and every step brings a thread nearer to its end.
\<close>

section \<open>Steps do not depend on the rest of the program\<close>

lemma thread_do_prog: "thread_do t (s\<lparr>prog := q\<rparr>) = map_option (\<lambda>s'. s'\<lparr>prog := q\<rparr>) (thread_do t s)"
  by (cases "t_pc s t") (auto simp: thread_do_def goto_def guarded_def bsem_wait_def bsem_post_def Let_def split: prod.splits)

lemma thread_do_keeps: "thread_do t s = Some s' \<Longrightarrow> prog s' = prog s"
  by (cases "t_pc s t") (auto simp: thread_do_def bsem_wait_def bsem_post_def Let_def split: prod.splits if_splits)

text \<open>A call that is not the last one does the same whether or not \<open>Destroy_Pool\<close> comes after it.\<close>

lemma main_do_prog:
  assumes "prog s = q @ [Destroy_Pool]" and "m_pc s \<noteq> Ready \<or> q \<noteq> []" and "m_pc s \<notin> {Killing, Freed}"
  shows "main_do n s = map_option (\<lambda>s'. s'\<lparr>prog := prog s' @ [Destroy_Pool]\<rparr>) (main_do n (s\<lparr>prog := q\<rparr>))"
proof (cases "m_pc s")
  case Ready
  then obtain c q' where q: "q = c # q'" using assms(2) by (cases q) auto
  show ?thesis
    using Ready q assms(1) by (cases c) (auto simp: main_do_def thpool_add_work_def thpool_wait_def thpool_destroy_def guarded_def intro: pool.equality)
qed (use assms in \<open>auto simp: main_do_def guarded_def bsem_post_def intro: pool.equality\<close>)

section \<open>After the call\<close>

text \<open>Jobs are taken in order, none is in two hands, and the queue is locked only by a thread that is about to post.\<close>

definition kill_inv :: "nat \<Rightarrow> 'j list \<Rightarrow> 'j pool \<Rightarrow> bool" where
  "kill_inv n js s \<longleftrightarrow>
     m_pc s \<in> {Killing, Freed} \<and> \<not> threads_keepalive s \<and> (if q_lock s then 1 else 0) = total_of holds_queue n s \<and>
     q_len (queue s) = length (q_jobs (queue s)) \<and> (\<exists>rest. started s @ rest = js) \<and> (m_pc s = Killing \<longrightarrow> started s @ q_jobs (queue s) = js) \<and>
     mset (finished s) + total_of in_hand n s = mset (started s)"

lemma kill_goto:
  assumes inv: "kill_inv n js s" and t: "t < n" "t_pc s t = c0"
    and same: "t_pc s1 = t_pc s" "threads_keepalive s1 = threads_keepalive s" "m_pc s1 = m_pc s"
    and hq: "(if q_lock s1 then 1 else 0) + holds_queue c0 = (if q_lock s then 1 else 0) + holds_queue c"
    and q: "queue s1 = queue s \<and> started s1 = started s \<or>
      m_pc s = Killing \<and> q_len (queue s1) = length (q_jobs (queue s1)) \<and> started s1 @ q_jobs (queue s1) = started s @ q_jobs (queue s)"
    and jobs: "mset (finished s1) + in_hand c + mset (started s) = mset (finished s) + in_hand c0 + mset (started s1)"
  shows "kill_inv n js (goto t c s1)"
proof -
  have "(if q_lock s1 then 1 else 0) = total_of holds_queue n (goto t c s1)"
    using total_of_goto [OF t same(1), of holds_queue c] hq inv by (simp add: kill_inv_def)
  moreover have "mset (finished s1) + total_of in_hand n (goto t c s1) = mset (started s1)"
  proof -
    have "mset (finished s1) + (total_of in_hand n (goto t c s1) + in_hand c0) + mset (started s) =
        (mset (finished s1) + in_hand c + mset (started s)) + total_of in_hand n s"
      using total_of_goto [OF t same(1), of in_hand c] by (simp add: ac_simps)
    also have "\<dots> = in_hand c0 + mset (started s1) + (mset (finished s) + total_of in_hand n s)" unfolding jobs by (simp add: ac_simps)
    also have "mset (finished s) + total_of in_hand n s = mset (started s)" using inv by (simp add: kill_inv_def)
    finally show ?thesis by (simp add: ac_simps)
  qed
  ultimately show ?thesis using inv q by (auto simp: kill_inv_def same)
qed

lemma jobqueue_pull_parts:
  assumes "jobqueue_pull q = (j, q', post)" and "q_len q = length (q_jobs q)"
  shows "some_list j @ q_jobs q' = q_jobs q" and "q_len q' = length (q_jobs q')"
  using assms by (auto simp: jobqueue_pull_def Let_def some_list_def neq_Nil_conv split: if_splits list.splits)

lemma kill_thread:
  assumes inv: "kill_inv n js s" and al: "alive_inv n s" and t: "t < n" and st: "thread_do t s = Some s'"
  shows "kill_inv n js s'"
proof (cases "t_pc s t")
  case Pull
  have "m_pc s \<noteq> Freed"
    using al Pull total_le [OF t, of counted s] by (auto simp: alive_inv_def)
  then have m: "m_pc s = Killing" using inv by (simp add: kill_inv_def)
  obtain j q post where p: "jobqueue_pull (queue s) = (j, q, post)" by (cases "jobqueue_pull (queue s)")
  have s': "s' = goto t (if post then Posting j else Got j) (s\<lparr>queue := q, started := started s @ some_list j, q_lock := post\<rparr>)" "\<not> q_lock s"
    using st Pull p by (auto simp: thread_do_def Let_def split: if_splits)
  have "q_len (queue s) = length (q_jobs (queue s))" using inv by (simp add: kill_inv_def)
  from jobqueue_pull_parts [OF p this] m s'(2) show ?thesis
    unfolding s'(1) by (intro kill_goto [OF inv t Pull]) auto
next
  case (Posting j)
  have "q_lock s"
    using inv Posting total_le [OF t, of holds_queue s] by (auto simp: kill_inv_def split: if_splits)
  then show ?thesis using st Posting by (auto simp: thread_do_def bsem_post_def intro!: kill_goto [OF inv t Posting])
next
  case (Got j)
  then show ?thesis using st by (auto simp: thread_do_def intro!: kill_goto [OF inv t Got])
next
  case Count_Down
  have "m_pc s \<noteq> Blocked" using inv by (auto simp: kill_inv_def)
  then show ?thesis using st Count_Down by (auto simp: thread_do_def Let_def intro!: kill_goto [OF inv t Count_Down])
next
  case Sem_Wait
  then show ?thesis using st by (auto simp: thread_do_def bsem_wait_def split: if_splits intro!: kill_goto [OF inv t Sem_Wait])
qed (use st in \<open>auto simp: thread_do_def intro!: kill_goto [OF inv t]\<close>)

lemma kill_main:
  assumes inv: "kill_inv n js s" and st: "main_do n s = Some s'"
  shows "kill_inv n js s'"
proof -
  have m: "m_pc s = Killing" using inv st by (auto simp: kill_inv_def main_do_def)
  then have "s' = (jobqueue_destroy s)\<lparr>m_pc := Freed\<rparr> \<or> s' = bsem_post_all s"
    using st by (auto simp: main_do_def thpool_destroy_loop_def split: if_splits)
  moreover have "q_len (jobqueue_clear q) = length (q_jobs (jobqueue_clear q))" for q :: "'a jobqueue"
    by (induction q rule: jobqueue_clear.induct) (subst (1 2) jobqueue_clear.simps, simp add: jobqueue_init_def)
  ultimately show ?thesis
    using inv m by (auto simp: kill_inv_def jobqueue_destroy_def bsem_reset_def bsem_post_all_def total_of_def)
qed

text \<open>What a thread has left to do when the pool is to end.\<close>

fun kill_pc :: "'j tpc \<Rightarrow> nat" where
  "kill_pc Born = 10" | "kill_pc Count_Up = 9" | "kill_pc Pull = 8" | "kill_pc (Posting j) = 7" | "kill_pc (Got j) = 5" | "kill_pc Count_Down = 4"
| "kill_pc Loop_Test = 3" | "kill_pc Sem_Wait = 6" | "kill_pc Recheck = 4" | "kill_pc Leave = 2" | "kill_pc Unlock_Last = 1" | "kill_pc Dead = 0"

definition kill_work :: "nat \<Rightarrow> 'j pool \<Rightarrow> nat" where
  "kill_work n s = total_of kill_pc n s + (if has_jobs s then 0 else 1) + (if m_pc s = Freed then 0 else 2)"

lemma kill_work_goto:
  assumes "t < n" and "t_pc s t = c0" and "t_pc s1 = t_pc s" and "m_pc s1 = m_pc s"
    and "kill_pc c + (if has_jobs s1 then 0 else 1) < kill_pc c0 + (if has_jobs s then 0 else 1)"
  shows "kill_work n (goto t c s1) < kill_work n s"
  using total_of_goto [OF assms(1-3), of kill_pc c] assms(4,5) by (simp add: kill_work_def)

lemma kill_thread_work:
  assumes inv: "kill_inv n js s" and t: "t < n" and st: "thread_do t s = Some s'"
  shows "kill_work n s' < kill_work n s"
proof (cases "t_pc s t")
  case Pull
  then show ?thesis using st by (auto simp: thread_do_def Let_def split: prod.splits if_splits intro!: kill_work_goto [OF t Pull])
next
  case (Posting j)
  then show ?thesis using st by (auto simp: thread_do_def bsem_post_def intro!: kill_work_goto [OF t Posting])
next
  case Count_Down
  have "m_pc s \<noteq> Blocked" using inv by (auto simp: kill_inv_def)
  then show ?thesis using st Count_Down by (auto simp: thread_do_def Let_def intro!: kill_work_goto [OF t Count_Down])
next
  case Sem_Wait
  then show ?thesis using st by (auto simp: thread_do_def bsem_wait_def split: if_splits intro!: kill_work_goto [OF t Sem_Wait])
qed (use st inv in \<open>auto simp: kill_inv_def thread_do_def intro!: kill_work_goto [OF t]\<close>)

lemma kill_main_work:
  assumes "kill_inv n js s" and "main_do n s = Some s'"
  shows "kill_work n s' < kill_work n s"
proof -
  have m: "m_pc s = Killing" using assms by (auto simp: kill_inv_def main_do_def)
  then have "s' = (jobqueue_destroy s)\<lparr>m_pc := Freed\<rparr> \<or> s' = bsem_post_all s \<and> \<not> has_jobs s"
    using assms(2) by (auto simp: main_do_def thpool_destroy_loop_def split: if_splits)
  then show ?thesis using m by (auto simp: kill_work_def jobqueue_destroy_def bsem_reset_def bsem_post_all_def total_of_def)
qed

text \<open>A pool that is to end and cannot step has ended.\<close>

lemma kill_stuck:
  assumes inv: "kill_inv n js s" and al: "alive_inv n s" and stuck: "\<nexists>s'. pool_step n s s'"
  shows "m_pc s = Freed \<and> (\<forall>t<n. t_pc s t = Dead)"
proof -
  have none: "thread_do u s = None" if "u < n" for u using stuck that by (metis by_thread option.exhaust)
  have main: "main_do n s = None" using stuck by (metis by_main option.exhaust)
  have "unlocking (t_pc s u) = 0" "holds_queue (t_pc s u) = 0" if "u < n" for u
    using none [OF that] by (cases "t_pc s u"; auto simp: thread_do_def)+
  then have "total_of unlocking n s = 0" "total_of holds_queue n s = 0" by (simp_all add: total_zero)
  with inv al have free: "\<not> cnt_lock s" "\<not> q_lock s" by (auto simp: kill_inv_def alive_inv_def split: if_splits)
  have pc: "t_pc s u = Dead \<or> t_pc s u = Sem_Wait \<and> \<not> has_jobs s" if "u < n" for u
    using none [OF that] free
    by (cases "t_pc s u") (auto simp: thread_do_def guarded_def bsem_wait_def Let_def split: if_splits prod.splits)
  have "m_pc s = Freed"
  proof (rule ccontr)
    assume "m_pc s \<noteq> Freed"
    then have "m_pc s = Killing" using inv by (simp add: kill_inv_def)
    with main have "num_threads_alive s \<noteq> 0" "has_jobs s" by (auto simp: main_do_def thpool_destroy_loop_def split: if_splits)
    moreover from this pc have "counted (t_pc s u) = 0" if "u < n" for u using that by fastforce
    then have "total_of counted n s = 0" by (simp add: total_zero)
    ultimately show False using al by (simp add: alive_inv_def)
  qed
  moreover from this al have "total_of counted n s = 0" by (simp add: alive_inv_def)
  then have "counted (t_pc s u) = 0" if "u < n" for u using that total_of_zero_D by blast
  with pc have "\<forall>t<n. t_pc s t = Dead" by fastforce
  ultimately show ?thesis by simp
qed

section \<open>The whole run\<close>

definition destroy_inv :: "nat \<Rightarrow> 'j list \<Rightarrow> 'j pool \<Rightarrow> bool" where
  "destroy_inv n js s \<longleftrightarrow> (\<exists>q. prog s = q @ [Destroy_Pool] \<and> pool_inv n js (s\<lparr>prog := q\<rparr>)) \<or> kill_inv n js s"

definition destroy_work :: "nat \<Rightarrow> 'j pool \<Rightarrow> nat" where
  "destroy_work n s = (if m_pc s \<in> {Killing, Freed} then kill_work n s else pool_work n s + 10 * n + 10)"

lemma pool_work_prog: "prog s = q @ [Destroy_Pool] \<Longrightarrow> pool_work n s = pool_work n (s\<lparr>prog := q\<rparr>) + 3"
  by (simp add: pool_work_def total_of_def)

lemma kill_work_bound: "kill_work n s \<le> 10 * n + 3"
proof -
  have "kill_pc c \<le> 10" for c :: "'a tpc" by (cases c) auto
  then have "total_of kill_pc n s \<le> (\<Sum>t<n. 10)" unfolding total_of_def by (intro sum_mono) simp
  then show ?thesis by (simp add: kill_work_def)
qed

text \<open>A step before the call, as a step of the pool without it.\<close>

lemma step_before:
  assumes q: "prog s = q @ [Destroy_Pool]" and inv: "pool_inv n js (s\<lparr>prog := q\<rparr>)" and st: "pool_step n s s'"
  shows "(\<exists>q'. prog s' = q' @ [Destroy_Pool] \<and> pool_step n (s\<lparr>prog := q\<rparr>) (s'\<lparr>prog := q'\<rparr>)) \<or>
    q = [] \<and> m_pc s = Ready \<and> s' = (thpool_destroy s)\<lparr>prog := []\<rparr>"
  using st
proof cases
  case (by_thread t)
  then have "thread_do t (s\<lparr>prog := q\<rparr>) = Some (s'\<lparr>prog := q\<rparr>)" "prog s' = prog s" by (simp_all add: thread_do_prog thread_do_keeps)
  then show ?thesis using q by_thread(1) by (auto intro: pool_step.by_thread)
next
  case by_main
  show ?thesis
  proof (cases "m_pc s = Ready \<and> q = []")
    case True
    then show ?thesis using by_main q by (auto simp: main_do_def)
  next
    case False
    have "m_pc s \<notin> {Killing, Freed}" using pool_invD(4) [OF inv] by auto
    with main_do_prog [OF q] False by_main obtain s'' where s'': "main_do n (s\<lparr>prog := q\<rparr>) = Some s''" "s' = s''\<lparr>prog := prog s'' @ [Destroy_Pool]\<rparr>"
      by auto
    then have "prog s' = prog s'' @ [Destroy_Pool]" "s'\<lparr>prog := prog s''\<rparr> = s''" by simp_all
    with s''(1) show ?thesis by (metis pool_step.by_main)
  qed
qed

lemma kill_start:
  assumes "prog s = [Destroy_Pool]" and inv: "pool_inv n js (s\<lparr>prog := []\<rparr>)" and "m_pc s = Ready"
  shows "kill_inv n js ((thpool_destroy s)\<lparr>prog := []\<rparr>)"
  using pool_invD(6,9,13,14) [OF inv] assms(3) by (auto simp: kill_inv_def thpool_destroy_def total_of_def)

lemma destroy_step:
  assumes inv: "destroy_inv n js s" and al: "alive_inv n s" and st: "pool_step n s s'"
  shows "destroy_inv n js s'" and "destroy_work n s' < destroy_work n s"
proof -
  have "destroy_inv n js s' \<and> destroy_work n s' < destroy_work n s"
  proof (cases "kill_inv n js s")
    case True
    then have k: "kill_inv n js s'" "kill_work n s' < kill_work n s"
      using st al by (auto elim!: pool_step.cases intro: kill_thread kill_main kill_thread_work kill_main_work)
    then have "m_pc s \<in> {Killing, Freed}" "m_pc s' \<in> {Killing, Freed}" using True by (simp_all add: kill_inv_def)
    with k show ?thesis by (simp add: destroy_inv_def destroy_work_def)
  next
    case False
    then obtain q where q: "prog s = q @ [Destroy_Pool]" and p: "pool_inv n js (s\<lparr>prog := q\<rparr>)" using inv by (auto simp: destroy_inv_def)
    have m: "m_pc s \<notin> {Killing, Freed}" using pool_invD(4) [OF p] by auto
    from step_before [OF q p st] show ?thesis
    proof (elim disjE exE conjE)
      fix q'
      assume q': "prog s' = q' @ [Destroy_Pool]" and st': "pool_step n (s\<lparr>prog := q\<rparr>) (s'\<lparr>prog := q'\<rparr>)"
      have p': "pool_inv n js (s'\<lparr>prog := q'\<rparr>)" using pool_step_inv [OF st' p] .
      then have "m_pc s' \<notin> {Killing, Freed}" using pool_invD(4) [OF p'] by auto
      then show ?thesis
        using q' p' m pool_step_work [OF st' p] pool_work_prog [OF q, of n] pool_work_prog [OF q', of n] by (auto simp: destroy_inv_def destroy_work_def)
    next
      assume k: "q = []" "m_pc s = Ready" "s' = (thpool_destroy s)\<lparr>prog := []\<rparr>"
      then have "kill_inv n js s'" using kill_start [of s n js] q p by simp
      moreover have "m_pc s' = Killing" using k(3) by (simp add: thpool_destroy_def)
      ultimately show ?thesis using m kill_work_bound [of n s'] by (auto simp: destroy_inv_def destroy_work_def)
    qed
  qed
  then show "destroy_inv n js s'" and "destroy_work n s' < destroy_work n s" by simp_all
qed

lemma destroy_reached:
  assumes "pool_reached n (p @ [Destroy_Pool]) s" and "Destroy_Pool \<notin> set p"
  shows "destroy_inv n (adds p) s"
  using assms(1)
proof (induction rule: pool_reached.induct)
  case start
  have "(thpool_init (p @ [Destroy_Pool]))\<lparr>prog := p\<rparr> = thpool_init p" "prog (thpool_init (p @ [Destroy_Pool])) = p @ [Destroy_Pool]"
    by (simp_all add: thpool_init_def)
  then show ?case using thpool_init_inv [OF assms(2), of n] by (auto simp: destroy_inv_def)
next
  case (more s s')
  then show ?case using destroy_step(1) pool_reached_alive by blast
qed

lemma destroy_stuck:
  assumes inv: "destroy_inv n js s" and al: "alive_inv n s" and n: "0 < n" and stuck: "\<nexists>s'. pool_step n s s'"
  shows "kill_inv n js s"
proof (rule ccontr)
  assume "\<not> kill_inv n js s"
  then obtain q where q: "prog s = q @ [Destroy_Pool]" and p: "pool_inv n js (s\<lparr>prog := q\<rparr>)" using inv by (auto simp: destroy_inv_def)
  have main: "main_do n s = None" using stuck by (metis by_main option.exhaust)
  have "m_pc s \<notin> {Killing, Freed}" using pool_invD(4) [OF p] by auto
  moreover have "m_pc s \<noteq> Ready \<or> q \<noteq> []" using q main by (auto simp: main_do_def)
  ultimately have "main_do n (s\<lparr>prog := q\<rparr>) = None" using main_do_prog [OF q] main by simp
  moreover have "thread_do u (s\<lparr>prog := q\<rparr>) = None" if "u < n" for u
    using stuck that by (auto simp: thread_do_prog) (metis by_thread option.exhaust)
  ultimately have "\<nexists>s'. pool_step n (s\<lparr>prog := q\<rparr>) s'" using main by (auto elim!: pool_step.cases)
  from stuck_idle [OF p this n] have "m_pc s = Ready" "q = []" by (simp_all add: pool_idle_def)
  with main q show False by (simp add: main_do_def)
qed

section \<open>Properties\<close>

text \<open>C10: Destroying a pool ends, whatever the interleaving: every run of a program of \<^verbatim>\<open>thpool_add_work\<close> and \<^verbatim>\<open>thpool_wait\<close> calls with \<^verbatim>\<open>thpool_destroy\<close> at its end comes to a
  state in which the call has returned and all threads are over. The jobs that were started are the first ones that were added, in their order, and each of
  them has been run to its end, once.\<close>

theorem destroy_ends_all_threads:
  assumes "maximal_run (num_threads_of num_threads) (p @ [Destroy_Pool]) r" and "Destroy_Pool \<notin> set p"
  shows "\<exists>k. \<forall>i\<ge>k. m_pc (r i) = Freed \<and> (\<forall>t<num_threads_of num_threads. t_pc (r i) t = Dead) \<and>
    (\<exists>rest. started (r i) @ rest = adds p) \<and> mset (finished (r i)) = mset (started (r i))"
proof -
  let ?n = "num_threads_of num_threads"
  have inv: "destroy_inv ?n (adds p) (r i)" "alive_inv ?n (r i)" for i
    using destroy_reached [OF maximal_run_reached [OF assms(1)] assms(2)] pool_reached_alive [OF maximal_run_reached [OF assms(1)]] by auto
  have "\<exists>k. \<nexists>s. pool_step ?n (r k) s"
  proof (rule ccontr)
    assume "\<nexists>k. \<nexists>s. pool_step ?n (r k) s"
    then have "pool_step ?n (r i) (r (Suc i))" for i using assms(1) by (auto simp: maximal_run_def)
    then have "destroy_work ?n (r (Suc i)) < destroy_work ?n (r i)" for i using destroy_step(2) inv by blast
    then show False using wf_less_than by (auto simp: wf_iff_no_infinite_down_chain dest!: spec [of _ "\<lambda>i. destroy_work ?n (r i)"])
  qed
  then obtain k where k: "\<nexists>s. pool_step ?n (r k) s" by auto
  have kill: "kill_inv ?n (adds p) (r k)" by (rule destroy_stuck [OF inv _ k]) (auto simp: num_threads_of_def)
  have dead: "m_pc (r k) = Freed" "\<forall>t<?n. t_pc (r k) t = Dead" using kill_stuck [OF kill inv(2) k] by auto
  then have "total_of in_hand ?n (r k) = {#}" by (simp add: total_of_def)
  then have "mset (finished (r k)) = mset (started (r k))" "\<exists>rest. started (r k) @ rest = adds p" using kill by (auto simp: kill_inv_def)
  with dead have "m_pc (r (k + i)) = Freed \<and> (\<forall>t<?n. t_pc (r (k + i)) t = Dead) \<and> (\<exists>rest. started (r (k + i)) @ rest = adds p) \<and>
      mset (finished (r (k + i))) = mset (started (r (k + i)))" for i
    using maximal_run_stays [OF assms(1) k] by simp
  then show ?thesis by (metis le_add_diff_inverse)
qed

theorem destroy_ends_all_threads_witness:
  "\<exists>k. \<forall>i\<ge>k. m_pc (first_run (num_threads_of 3) ([Add_Work 5, Add_Work 6] @ [Destroy_Pool :: nat cmd]) i) = Freed \<and>
     (\<forall>t<num_threads_of 3. t_pc (first_run (num_threads_of 3) ([Add_Work 5, Add_Work 6] @ [Destroy_Pool :: nat cmd]) i) t = Dead) \<and>
     (\<exists>rest. started (first_run (num_threads_of 3) ([Add_Work 5, Add_Work 6] @ [Destroy_Pool :: nat cmd]) i) @ rest = [5, 6]) \<and>
     mset (finished (first_run (num_threads_of 3) ([Add_Work 5, Add_Work 6] @ [Destroy_Pool :: nat cmd]) i)) =
       mset (started (first_run (num_threads_of 3) ([Add_Work 5, Add_Work 6] @ [Destroy_Pool :: nat cmd]) i))"
  using destroy_ends_all_threads [of 3 "[Add_Work 5, Add_Work (6::nat)]", OF first_run_maximal] by simp

end
