(* ===== verification/Linklist_Sort.thy ===== *)
theory Linklist_Sort
  imports Linklist "HOL-Library.Multiset"
begin

text \<open>
  Sorting linked lists, \<^verbatim>\<open>list_quick_sort\<close> and \<^verbatim>\<open>list_sort\<close> of src/src/index/libhl/linklist.c, and what is left of the list's interface: slices,
  setting a tagged value and the position of an entry.

  A pointer to an entry is the position of the entry in the chain. Partitioning swaps the values of two entries, or takes an entry
  out and links it next to the pivot; as it stays in the part of the chain that is sorted, \<^verbatim>\<open>head\<close> and \<^verbatim>\<open>tail\<close>, which the code sets to the
  entries that come to stand at the ends of the part, remain the same positions. \<open>kept\<close> says that nothing outside of the part moves.
\<close>

section \<open>Quicksort\<close>

type_synonym 'a list_comparator = "'a option \<Rightarrow> 'a option \<Rightarrow> int"

definition val_at :: "'a list_entry list \<Rightarrow> nat \<Rightarrow> 'a option" where
  "val_at es i = e_value (es ! i)"

definition swap_entry_node_val :: "nat \<Rightarrow> nat \<Rightarrow> 'a list_entry list \<Rightarrow> 'a list_entry list" where
  "swap_entry_node_val i j es = es[i := (es ! i)\<lparr>e_value := val_at es j\<rparr>, j := (es ! j)\<lparr>e_value := val_at es i\<rparr>]"

text \<open>The entry at \<open>j\<close> is linked before the pivot at \<open>v\<close>, which stands left of it; the one at \<open>i\<close> behind the pivot, which stands right of it.\<close>

definition link_before :: "nat \<Rightarrow> nat \<Rightarrow> 'a list_entry list \<Rightarrow> 'a list_entry list" where
  "link_before v j es = insert_nth v (es ! j) (remove_nth j es)"

definition link_behind :: "nat \<Rightarrow> nat \<Rightarrow> 'a list_entry list \<Rightarrow> 'a list_entry list" where
  "link_behind v i es = insert_nth v (es ! i) (remove_nth i es)"

text \<open>The inner loops: to the right over values before the pivot's, to the left over values behind it; \<open>None\<close> is the end of the chain.\<close>

function scan_right :: "'a list_comparator \<Rightarrow> 'a list_entry list \<Rightarrow> nat \<Rightarrow> 'a option \<Rightarrow> nat \<Rightarrow> nat option" where
  "scan_right cmp es v pvalue i =
     (if i \<noteq> v \<and> 0 < cmp (val_at es i) pvalue
      then if Suc i < length es then scan_right cmp es v pvalue (Suc i) else None
      else Some i)"
  by pat_completeness auto
termination
  by (relation "measure (\<lambda>(cmp, es, v, pvalue, i). length es - i)") auto

fun scan_left :: "'a list_comparator \<Rightarrow> 'a list_entry list \<Rightarrow> nat \<Rightarrow> 'a option \<Rightarrow> nat \<Rightarrow> nat option" where
  "scan_left cmp es v pvalue 0 = (if 0 \<noteq> v \<and> cmp (val_at es 0) pvalue < 0 then None else Some 0)"
| "scan_left cmp es v pvalue (Suc j) =
     (if Suc j \<noteq> v \<and> cmp (val_at es (Suc j)) pvalue < 0 then scan_left cmp es v pvalue j else Some (Suc j))"

declare scan_right.simps [simp del] scan_left.simps [simp del]

text \<open>Linking reads \<^verbatim>\<open>pivot->list\<close>, which is NULL for an entry that was linked into the middle of the list.\<close>

definition in_list :: "'a list_entry list \<Rightarrow> nat \<Rightarrow> c_error + unit" where
  "in_list es v = (if e_list (es ! v) then Inr () else Inl Null_Deref)"

text \<open>The partition loop, with the number of its rounds bounded; it returns the chain and the position of the pivot.\<close>

primrec partition_loop ::
  "nat \<Rightarrow> 'a list_comparator \<Rightarrow> 'a option \<Rightarrow> 'a list_entry list \<Rightarrow> nat \<Rightarrow> nat option \<Rightarrow> nat option \<Rightarrow> c_error + ('a list_entry list \<times> nat)"
where
  "partition_loop 0 cmp pvalue es v p1 p2 = Inl No_Return"
| "partition_loop (Suc k) cmp pvalue es v p1 p2 =
     (case (Option.bind p1 (scan_right cmp es v pvalue), Option.bind p2 (scan_left cmp es v pvalue)) of
        (Some i, Some j) \<Rightarrow>
          if i = j then Inr (es, v)
          else if i = v then
            ebind (in_list es v) (\<lambda>_. partition_loop k cmp pvalue (link_before v j es) (Suc v) (Some (Suc v)) (Some j))
          else if j = v then
            ebind (in_list es v) (\<lambda>_. partition_loop k cmp pvalue (link_behind v i es) (v - 1) (Some i) (Some (v - 1)))
          else partition_loop k cmp pvalue (swap_entry_node_val i j es) v
                 (if Suc i < length es then Some (Suc i) else None) (if j = 0 then None else Some (j - 1))
      | _ \<Rightarrow> Inr (es, v))"

text \<open>The walk from \<^verbatim>\<open>head\<close> to the pivot, which counts the entries; a pivot that is not there would be missed and a NULL pointer followed.\<close>

definition count_to :: "nat \<Rightarrow> nat \<Rightarrow> c_error + nat" where
  "count_to h v = (if h \<le> v then Inr (v - h) else Inl Null_Deref)"

primrec list_quick_sort ::
  "nat \<Rightarrow> 'a list_comparator \<Rightarrow> 'a list_entry list \<Rightarrow> nat \<Rightarrow> nat \<Rightarrow> nat \<Rightarrow> int \<Rightarrow> c_error + 'a list_entry list"
where
  "list_quick_sort 0 cmp es h t v len = Inl No_Return"
| "list_quick_sort (Suc k) cmp es h t v len =
     (if len < 2 then Inr es
      else if len = 2 then Inr (if cmp (val_at es h) (val_at es t) < 0 then swap_entry_node_val h t es else es)
      else ebind (partition_loop (length es) cmp (val_at es v) es v (Some h) (Some t)) (\<lambda>(es1, v1).
           ebind (count_to h v1) (\<lambda>l1.
             let l2 = len - (int l1 + 1);
                 pv1 = min (h + l1 div 2) (length es1 - 1);
                 pv2 = t - nat (l2 div 2)
             in ebind (if 1 < l1 \<and> 0 < v1 \<and> h \<noteq> v1 - 1 then list_quick_sort k cmp es1 h (v1 - 1) pv1 (int l1) else Inr es1) (\<lambda>es2.
                if 1 < l2 \<and> Suc v1 < length es2 \<and> t \<noteq> Suc v1 then list_quick_sort k cmp es2 (Suc v1) t pv2 l2 else Inr es2))))"

text \<open>\<^verbatim>\<open>(list->length/2) - 1\<close> wraps around for lists of fewer than two entries, and then there is no pivot. The recursion is not deeper than the list is long.\<close>

definition list_sort :: "'a list_comparator \<Rightarrow> 'a linked_list \<Rightarrow> c_error + 'a linked_list" where
  "list_sort cmp l =
     (let (pivot, l1) = (if l_length l div 2 = 0 then (None, l) else pick_entry (l_length l div 2 - 1) l)
      in ebind (case pivot of
                  None \<Rightarrow> Inr (l_entries l1)
                | Some v \<Rightarrow> list_quick_sort (length (l_entries l1)) cmp (l_entries l1) 0 (length (l_entries l1) - 1) v (int_count l1))
               (\<lambda>es. Inr (l1\<lparr>l_entries := es, l_cur := None, l_pos := 0\<rparr>)))"

section \<open>Slices\<close>

text \<open>The slices of a list, in the order of \<^verbatim>\<open>list->slices\<close>, each with its address.\<close>

record slice =
  s_ptr :: nat
  s_offset :: nat
  s_length :: nat

definition slice_create :: "nat \<Rightarrow> nat \<Rightarrow> nat \<Rightarrow> slice list \<Rightarrow> slice \<times> slice list" where
  "slice_create ptr offset len slices =
     (let sl = \<lparr>s_ptr = ptr, s_offset = offset, s_length = len\<rparr> in (sl, slices @ [sl]))"

text \<open>With a slice before it, the entry of the slice is unlinked through \<^verbatim>\<open>cur->next->prev\<close>, and \<^verbatim>\<open>cur->next\<close> is NULL for the last one.\<close>

fun unlink_slice :: "bool \<Rightarrow> nat \<Rightarrow> slice list \<Rightarrow> c_error + slice list" where
  "unlink_slice prev p [] = Inr []"
| "unlink_slice prev p (c # cs) =
     (if s_ptr c = p then if prev \<and> cs = [] then Inl Null_Deref else Inr cs
      else ebind (unlink_slice True p cs) (\<lambda>cs'. Inr (c # cs')))"

definition slice_destroy :: "slice \<Rightarrow> slice list \<Rightarrow> c_error + slice list" where
  "slice_destroy sl slices = unlink_slice False (s_ptr sl) slices"

fun destroy_slices :: "nat \<Rightarrow> slice list \<Rightarrow> c_error + slice list" where
  "destroy_slices k [] = Inr []"
| "destroy_slices 0 (c # cs) = Inl No_Return"
| "destroy_slices (Suc k) (c # cs) = ebind (slice_destroy c (c # cs)) (destroy_slices k)"

definition list_destroy :: "slice list \<Rightarrow> 'a linked_list \<Rightarrow> c_error + (slice list \<times> 'a linked_list)" where
  "list_destroy slices l = ebind (destroy_slices (length slices) slices) (\<lambda>slices'. Inr (slices', list_clear l))"

section \<open>Entries and tags\<close>

text \<open>The position of the entry that stands at \<open>i\<close>, as the code finds it, and releasing this entry.\<close>

definition get_entry_position :: "nat \<Rightarrow> 'a linked_list \<Rightarrow> int" where
  "get_entry_position i l = (if e_list (l_entries l ! i) then sint (of_nat i :: c_int) else -1)"

definition destroy_entry :: "nat \<Rightarrow> 'a linked_list \<Rightarrow> 'a linked_list" where
  "destroy_entry i l =
     (if e_list (l_entries l ! i)
      then let pos = get_entry_position i l in if 0 \<le> pos then snd (remove_entry (nat pos) l) else l
      else l)"

text \<open>The loop of \<^verbatim>\<open>list_set_tagged_value\<close>: the first value with the tag, and its position.\<close>

function set_tagged_loop ::
  "nat \<Rightarrow> cstring option \<Rightarrow> tagged_value linked_list \<Rightarrow> c_error + ((nat \<times> tagged_value) option \<times> tagged_value linked_list)"
where
  "set_tagged_loop i tag l =
     (if int i < int_count l then
        (case list_pick_tagged_value i l of
           (None, l1) \<Rightarrow> set_tagged_loop (Suc i) tag l1
         | (Some tv, l1) \<Rightarrow>
             (case tv_tag tv of
                None \<Rightarrow> set_tagged_loop (Suc i) tag l1
              | Some t \<Rightarrow> ebind (deref tag) (\<lambda>g. if t = g then Inr (Some (i, tv), l1) else set_tagged_loop (Suc i) tag l1)))
      else Inr (None, l))"
  by pat_completeness auto
termination
  by (relation "measure (\<lambda>(i, tag, l). nat (int_count l) - i)") (auto dest!: int_count_pick [OF sym])

declare set_tagged_loop.simps [simp del]

text \<open>What is returned, the list, and whether the new value was released. It is released when \<^verbatim>\<open>list_push_tagged_value\<close> returns 0, which is its success.\<close>

definition list_set_tagged_value ::
  "cstring option \<Rightarrow> byte list option \<Rightarrow> nat \<Rightarrow> bool \<Rightarrow> tagged_value linked_list \<Rightarrow>
   c_error + (tagged_value option \<times> tagged_value linked_list \<times> bool)"
where
  "list_set_tagged_value tag value len copy l =
     (let tval = (if copy then list_create_tagged_value tag value len else list_create_tagged_value_nocopy tag value)
      in ebind (set_tagged_loop 0 tag l) (\<lambda>(found, l1).
           case found of
             Some (i, tv) \<Rightarrow>
               ebind (list_set_value i (Some tval) l1) (\<lambda>(old, l2).
                 case old of None \<Rightarrow> Inr (None, l2, True) | Some _ \<Rightarrow> Inr (Some tv, l2, False))
           | None \<Rightarrow> let (rc, l2) = list_push_tagged_value (Some tval) l1 in Inr (None, l2, rc = 0)))"

section \<open>What partitioning and sorting leave alone\<close>

text \<open>Nothing outside of the positions from \<open>h\<close> to \<open>t\<close> changes, no value is lost, and every entry still knows its list.\<close>

definition kept :: "nat \<Rightarrow> nat \<Rightarrow> 'a list_entry list \<Rightarrow> 'a list_entry list \<Rightarrow> bool" where
  "kept h t es es' \<longleftrightarrow>
     length es' = length es \<and> (\<forall>k<length es. k < h \<or> t < k \<longrightarrow> es' ! k = es ! k) \<and>
     mset (map e_value es') = mset (map e_value es) \<and> ((\<forall>e\<in>set es. e_list e) \<longrightarrow> (\<forall>e\<in>set es'. e_list e))"

lemma kept_refl [simp]: "kept h t es es"
  by (simp add: kept_def)

lemma kept_trans: "kept h t a b \<Longrightarrow> kept h t b c \<Longrightarrow> kept h t a c"
  by (simp add: kept_def)

lemma kept_mono: "kept h' t' a b \<Longrightarrow> h \<le> h' \<Longrightarrow> t' \<le> t \<Longrightarrow> kept h t a b"
  by (auto simp: kept_def)

lemma kept_length: "kept h t a b \<Longrightarrow> length b = length a"
  by (simp add: kept_def)

lemma kept_outside: "kept h t a b \<Longrightarrow> k < length a \<Longrightarrow> k < h \<or> t < k \<Longrightarrow> val_at b k = val_at a k"
  by (auto simp: kept_def val_at_def)

text \<open>A value inside of the part comes from inside of the part.\<close>

lemma kept_inside:
  assumes k: "kept h t a b" and b: "h \<le> i" "i \<le> t" "t < length a"
  shows "\<exists>m. h \<le> m \<and> m \<le> t \<and> val_at b i = val_at a m"
proof -
  let ?seg = "\<lambda>xs. take (Suc t - h) (drop h xs)"
  have len: "length b = length a" using k by (rule kept_length)
  have split: "xs = take h xs @ ?seg xs @ drop (Suc t) xs" for xs :: "'a list_entry list"
    using b by (metis append_take_drop_id drop_drop le_add_diff_inverse2 le_SucI order_trans)
  have "take h b = take h a" "drop (Suc t) b = drop (Suc t) a"
    using k len b by (auto intro!: nth_equalityI simp: kept_def)
  moreover have "mset (map e_value (take h b @ ?seg b @ drop (Suc t) b)) = mset (map e_value (take h a @ ?seg a @ drop (Suc t) a))"
    using k split [of a] split [of b] by (simp add: kept_def)
  ultimately have "mset (map e_value (?seg b)) = mset (map e_value (?seg a))" by simp
  then have "set (map e_value (?seg b)) = set (map e_value (?seg a))" by (metis mset_eq_setD)
  moreover have "val_at b i \<in> set (map e_value (?seg b))"
    using b len by (auto simp: val_at_def in_set_conv_nth intro!: image_eqI [of _ _ "b ! i"] exI [of _ "i - h"])
  ultimately have "val_at b i \<in> set (map e_value (?seg a))" by simp
  then obtain m where "m < length (?seg a)" "val_at b i = e_value (?seg a ! m)" by (metis in_set_conv_nth length_map nth_map)
  then show ?thesis using b by (intro exI [of _ "h + m"]) (simp add: val_at_def less_Suc_eq_le)
qed

lemma mset_remove_nth: "j < length xs \<Longrightarrow> add_mset (xs ! j) (mset (remove_nth j xs)) = mset xs"
  by (metis id_take_nth_drop mset.simps(2) mset_append remove_nth_def union_mset_add_mset_right)

lemma mset_insert_nth: "mset (insert_nth i x xs) = add_mset x (mset xs)"
  by (metis append_take_drop_id insert_nth_def mset.simps(2) mset_append union_mset_add_mset_right)

lemma nth_remove: "k < length xs - 1 \<Longrightarrow> j < length xs \<Longrightarrow> remove_nth j xs ! k = (if k < j then xs ! k else xs ! Suc k)"
  by (auto simp: remove_nth_def nth_append)

lemma nth_insert: "i \<le> length xs \<Longrightarrow> k \<le> length xs \<Longrightarrow> insert_nth i x xs ! k = (if k < i then xs ! k else if k = i then x else xs ! (k - 1))"
  by (auto simp: insert_nth_def nth_append nth_Cons')

lemma length_remove: "j < length xs \<Longrightarrow> length (remove_nth j xs) = length xs - 1"
  by (auto simp: remove_nth_def)

lemma length_insert: "length (insert_nth i x xs) = Suc (length xs)"
  by (simp add: insert_nth_def)

text \<open>The three changes of a round of partitioning.\<close>

lemma nth_link_before:
  assumes "v < j" "j < length es" "k < length es"
  shows "link_before v j es ! k = (if k < v \<or> j < k then es ! k else if k = v then es ! j else es ! (k - 1))"
  using assms by (auto simp: link_before_def nth_insert nth_remove length_remove)

lemma nth_link_behind:
  assumes "i < v" "v < length es" "k < length es"
  shows "link_behind v i es ! k = (if k < i \<or> v < k then es ! k else if k = v then es ! i else es ! Suc k)"
  using assms by (auto simp: link_behind_def nth_insert nth_remove length_remove)

lemma mset_link:
  "j < length es \<Longrightarrow> mset (link_before v j es) = mset es" "i < length es \<Longrightarrow> mset (link_behind v i es) = mset es"
  by (simp_all add: link_before_def link_behind_def mset_insert_nth mset_remove_nth)

lemma kept_mset:
  assumes "mset es' = mset es" and "\<And>k. k < length es \<Longrightarrow> k < h \<or> t < k \<Longrightarrow> es' ! k = es ! k"
  shows "kept h t es es'"
  using assms mset_eq_setD [OF assms(1)] mset_eq_length [OF assms(1)] by (auto simp: kept_def)

lemma kept_link_before: "h \<le> v \<Longrightarrow> v < j \<Longrightarrow> j \<le> t \<Longrightarrow> t < length es \<Longrightarrow> kept h t es (link_before v j es)"
  by (rule kept_mset) (auto simp: mset_link nth_link_before)

lemma kept_link_behind: "h \<le> i \<Longrightarrow> i < v \<Longrightarrow> v \<le> t \<Longrightarrow> t < length es \<Longrightarrow> kept h t es (link_behind v i es)"
  by (rule kept_mset) (auto simp: mset_link nth_link_behind)

lemma val_at_swap:
  assumes "i < length es" "j < length es" "k < length es"
  shows "val_at (swap_entry_node_val i j es) k = (if k = i then val_at es j else if k = j then val_at es i else val_at es k)"
  using assms by (auto simp: swap_entry_node_val_def val_at_def nth_list_update)

lemma kept_swap:
  assumes "h \<le> i" "i < j" "j \<le> t" "t < length es"
  shows "kept h t es (swap_entry_node_val i j es)"
proof -
  have "map e_value (swap_entry_node_val i j es) = (map e_value es)[i := map e_value es ! j, j := map e_value es ! i]"
    using assms by (simp add: swap_entry_node_val_def val_at_def map_update)
  then have "mset (map e_value (swap_entry_node_val i j es)) = mset (map e_value es)"
    using assms by (simp only: mset_swap length_map)
  moreover have "e_list e" if "\<forall>e\<in>set es. e_list e" "e \<in> set (swap_entry_node_val i j es)" for e
    using that(2) that(1) [unfolded all_set_conv_all_nth] assms
    by (auto simp: swap_entry_node_val_def in_set_conv_nth nth_list_update split: if_splits)
  ultimately show ?thesis using assms by (auto simp: kept_def swap_entry_node_val_def)
qed

section \<open>Partitioning\<close>

lemma scan_right_spec:
  "i \<le> v \<Longrightarrow> v < length es \<Longrightarrow>
   \<exists>i'. scan_right cmp es v pvalue i = Some i' \<and> i \<le> i' \<and> i' \<le> v \<and> (\<forall>k. i \<le> k \<and> k < i' \<longrightarrow> 0 < cmp (val_at es k) pvalue) \<and>
     (i' = v \<or> cmp (val_at es i') pvalue \<le> 0)"
proof (induction "v - i" arbitrary: i)
  case 0
  then show ?case by (subst scan_right.simps) auto
next
  case (Suc d)
  show ?case
  proof (cases "0 < cmp (val_at es i) pvalue")
    case True
    from Suc have "d = v - Suc i" "Suc i \<le> v" by auto
    from Suc(1) [OF this Suc.prems(2)] obtain i' where
      "scan_right cmp es v pvalue (Suc i) = Some i'" "Suc i \<le> i'" "i' \<le> v" "\<forall>k. Suc i \<le> k \<and> k < i' \<longrightarrow> 0 < cmp (val_at es k) pvalue"
      "i' = v \<or> cmp (val_at es i') pvalue \<le> 0"
      by auto
    moreover have "scan_right cmp es v pvalue i = scan_right cmp es v pvalue (Suc i)"
      using True Suc by (subst scan_right.simps) auto
    ultimately show ?thesis using True by (metis Suc_leD Suc_leI le_neq_implies_less)
  next
    case False
    then show ?thesis using Suc.prems by (subst scan_right.simps) auto
  qed
qed

lemma scan_left_spec:
  "v \<le> j \<Longrightarrow>
   \<exists>j'. scan_left cmp es v pvalue j = Some j' \<and> v \<le> j' \<and> j' \<le> j \<and> (\<forall>k. j' < k \<and> k \<le> j \<longrightarrow> cmp (val_at es k) pvalue < 0) \<and>
     (j' = v \<or> 0 \<le> cmp (val_at es j') pvalue)"
proof (induction j)
  case 0
  then show ?case by (simp add: scan_left.simps)
next
  case (Suc j)
  show ?case
  proof (cases "Suc j \<noteq> v \<and> cmp (val_at es (Suc j)) pvalue < 0")
    case True
    with Suc obtain j' where "scan_left cmp es v pvalue j = Some j'" "v \<le> j'" "j' \<le> j"
      "\<forall>k. j' < k \<and> k \<le> j \<longrightarrow> cmp (val_at es k) pvalue < 0" "j' = v \<or> 0 \<le> cmp (val_at es j') pvalue"
      by auto
    with True show ?thesis by (auto simp: scan_left.simps le_Suc_eq)
  next
    case False
    then show ?thesis using Suc.prems by (auto simp: scan_left.simps)
  qed
qed

text \<open>Left of \<open>i\<close> no value belongs behind the pivot's, right of \<open>j\<close> none before it.\<close>

definition parted :: "'a list_comparator \<Rightarrow> 'a option \<Rightarrow> nat \<Rightarrow> nat \<Rightarrow> 'a list_entry list \<Rightarrow> nat \<Rightarrow> nat \<Rightarrow> bool" where
  "parted cmp pvalue h t es i j \<longleftrightarrow>
     (\<forall>m. h \<le> m \<and> m < i \<longrightarrow> 0 \<le> cmp (val_at es m) pvalue) \<and> (\<forall>m. j < m \<and> m \<le> t \<longrightarrow> cmp (val_at es m) pvalue \<le> 0)"

lemma partedI:
  assumes "\<And>m. h \<le> m \<Longrightarrow> m < i \<Longrightarrow> 0 \<le> cmp (val_at es m) pvalue" and "\<And>m. j < m \<Longrightarrow> m \<le> t \<Longrightarrow> cmp (val_at es m) pvalue \<le> 0"
  shows "parted cmp pvalue h t es i j"
  using assms by (simp add: parted_def)

lemma partedD:
  assumes "parted cmp pvalue h t es i j"
  shows "h \<le> m \<Longrightarrow> m < i \<Longrightarrow> 0 \<le> cmp (val_at es m) pvalue" and "j < m \<Longrightarrow> m \<le> t \<Longrightarrow> cmp (val_at es m) pvalue \<le> 0"
  using assms by (simp_all add: parted_def)

lemma parted_link_before:
  assumes "parted cmp pvalue h t es v j" and "h \<le> v" "v < j" "j \<le> t" "t < length es" and "0 \<le> cmp (val_at es j) pvalue"
  shows "parted cmp pvalue h t (link_before v j es) (Suc v) j"
  using assms by (intro partedI) (auto simp: val_at_def nth_link_before less_Suc_eq dest: partedD [OF assms(1), unfolded val_at_def])

lemma parted_link_behind:
  assumes "parted cmp pvalue h t es i v" and "h \<le> i" "i < v" "v \<le> t" "t < length es" and "cmp (val_at es i) pvalue \<le> 0"
  shows "parted cmp pvalue h t (link_behind v i es) i (v - 1)"
proof (rule partedI)
  fix m
  assume "v - 1 < m" "m \<le> t"
  then have "m = v \<or> v < m" by auto
  then show "cmp (val_at (link_behind v i es) m) pvalue \<le> 0"
    using assms \<open>m \<le> t\<close> by (auto simp: val_at_def nth_link_behind dest: partedD [OF assms(1), unfolded val_at_def])
qed (use assms in \<open>auto simp: val_at_def nth_link_behind dest: partedD [OF assms(1), unfolded val_at_def]\<close>)

lemma parted_swap:
  assumes "parted cmp pvalue h t es i j" and "h \<le> i" "i < j" "j \<le> t" "t < length es"
    and "cmp (val_at es i) pvalue \<le> 0" "0 \<le> cmp (val_at es j) pvalue"
  shows "parted cmp pvalue h t (swap_entry_node_val i j es) (Suc i) (j - 1)"
proof (rule partedI)
  fix m
  assume "j - 1 < m" "m \<le> t"
  then have "m = j \<or> j < m" by auto
  then show "cmp (val_at (swap_entry_node_val i j es) m) pvalue \<le> 0"
    using assms \<open>m \<le> t\<close> by (auto simp: val_at_swap dest: partedD [OF assms(1)])
qed (use assms in \<open>auto simp: val_at_swap less_Suc_eq dest: partedD [OF assms(1)]\<close>)

lemma kept_list: "kept h t es es' \<Longrightarrow> \<forall>e\<in>set es. e_list e \<Longrightarrow> \<forall>e\<in>set es'. e_list e"
  by (simp add: kept_def)

lemma partition_spec:
  assumes "h \<le> i" "i \<le> v" "v \<le> j" "j \<le> t" "t < length es" and "j - i < k" and "\<forall>e\<in>set es. e_list e" and "val_at es v = pvalue"
    and "parted cmp pvalue h t es i j"
  shows "\<exists>es' v'. partition_loop k cmp pvalue es v (Some i) (Some j) = Inr (es', v') \<and> kept h t es es' \<and> h \<le> v' \<and> v' \<le> t \<and>
    val_at es' v' = pvalue \<and> parted cmp pvalue h t es' v' v'"
  using assms
proof (induction k arbitrary: es v i j)
  case (Suc k)
  note a = Suc.prems
  obtain i' where i': "scan_right cmp es v pvalue i = Some i'" "i \<le> i'" "i' \<le> v" "\<forall>m. i \<le> m \<and> m < i' \<longrightarrow> 0 < cmp (val_at es m) pvalue"
    "i' = v \<or> cmp (val_at es i') pvalue \<le> 0"
    using scan_right_spec [of i v es cmp pvalue] a by auto
  obtain j' where j': "scan_left cmp es v pvalue j = Some j'" "v \<le> j'" "j' \<le> j" "\<forall>m. j' < m \<and> m \<le> j \<longrightarrow> cmp (val_at es m) pvalue < 0"
    "j' = v \<or> 0 \<le> cmp (val_at es j') pvalue"
    using scan_left_spec [of v j cmp es pvalue] a by auto
  have pt: "parted cmp pvalue h t es i' j'"
    using partedD [OF a(9)] i'(4) j'(4) by (intro partedI) (meson less_imp_le not_le)+
  have lst: "in_list es v = Inr ()" using a by (simp add: in_list_def)
  let ?goal = "\<lambda>es0 r. \<exists>es' v'. r = Inr (es', v') \<and> kept h t es0 es' \<and> h \<le> v' \<and> v' \<le> t \<and> val_at es' v' = pvalue \<and> parted cmp pvalue h t es' v' v'"
  have trans: "?goal es r" if "kept h t es es1" "?goal es1 r" for es1 r using that kept_trans by blast
  consider (stop) "i' = j'" | (before) "i' = v" "v < j'" | (behind) "i' < v" "j' = v" | (swap) "i' < v" "v < j'"
    using i'(3) j'(2) by linarith
  then show ?case
  proof cases
    case stop
    then have "i' = v" "j' = v" using i'(3) j'(2) by auto
    then show ?thesis using pt a i'(1) j'(1) by auto
  next
    case before
    let ?es = "link_before v j' es"
    have k: "kept h t es ?es" using before a i' j' by (intro kept_link_before) auto
    have "?goal ?es (partition_loop k cmp pvalue ?es (Suc v) (Some (Suc v)) (Some j'))"
      using before a i' j' pt kept_length [OF k] kept_list [OF k a(7)]
      by (intro Suc.IH parted_link_before) (auto simp: val_at_def nth_link_before)
    with trans [OF k] show ?thesis using before i'(1) j'(1) lst by simp
  next
    case behind
    let ?es = "link_behind v i' es"
    have k: "kept h t es ?es" using behind a i' j' by (intro kept_link_behind) auto
    have "?goal ?es (partition_loop k cmp pvalue ?es (v - 1) (Some i') (Some (v - 1)))"
      using behind a i' j' pt kept_length [OF k] kept_list [OF k a(7)]
      by (intro Suc.IH parted_link_behind) (auto simp: val_at_def nth_link_behind)
    with trans [OF k] show ?thesis using behind i'(1) j'(1) lst by simp
  next
    case swap
    let ?es = "swap_entry_node_val i' j' es"
    have k: "kept h t es ?es" using swap a i' j' by (intro kept_swap) auto
    have "?goal ?es (partition_loop k cmp pvalue ?es v (Some (Suc i')) (Some (j' - 1)))"
      using swap a i' j' pt kept_length [OF k] kept_list [OF k a(7)]
      by (intro Suc.IH parted_swap) (auto simp: val_at_swap)
    with trans [OF k] show ?thesis using swap i'(1) j'(1) a by simp
  qed
qed simp

section \<open>Sorting\<close>

text \<open>A comparator that orders values: \<open>0 \<le> cmp a b\<close> means that \<open>a\<close> may come before \<open>b\<close>.\<close>

definition orders_on :: "'a list_comparator \<Rightarrow> 'a option set \<Rightarrow> bool" where
  "orders_on cmp V \<longleftrightarrow>
     (\<forall>a\<in>V. \<forall>b\<in>V. cmp a b \<le> 0 \<longrightarrow> 0 \<le> cmp b a) \<and> (\<forall>a\<in>V. \<forall>b\<in>V. \<forall>c\<in>V. 0 \<le> cmp a b \<longrightarrow> 0 \<le> cmp b c \<longrightarrow> 0 \<le> cmp a c)"

definition sorted_part :: "'a list_comparator \<Rightarrow> nat \<Rightarrow> nat \<Rightarrow> 'a list_entry list \<Rightarrow> bool" where
  "sorted_part cmp h t es \<longleftrightarrow> (\<forall>a b. h \<le> a \<and> a < b \<and> b < t \<longrightarrow> 0 \<le> cmp (val_at es a) (val_at es b))"

lemma kept_values: "kept h t es es' \<Longrightarrow> set (map e_value es') = set (map e_value es)"
  by (metis kept_def mset_eq_setD)

lemma val_at_in: "i < length es \<Longrightarrow> val_at es i \<in> set (map e_value es)"
  by (simp add: val_at_def)

text \<open>Two sorted parts around a pivot.\<close>

lemma sorted_around:
  assumes ord: "orders_on cmp V" "set (map e_value es) \<subseteq> V" and v: "h \<le> v" "v \<le> t" "t < length es"
    and left: "sorted_part cmp h v es" and right: "sorted_part cmp (Suc v) (Suc t) es" and pt: "parted cmp (val_at es v) h t es v v"
  shows "sorted_part cmp h (Suc t) es"
  unfolding sorted_part_def
proof (intro allI impI, elim conjE)
  fix a b
  assume ab: "h \<le> a" "a < b" "b < Suc t"
  have in_V: "val_at es k \<in> V" if "k \<le> t" for k using that v ord(2) val_at_in [of k es] by auto
  have up: "0 \<le> cmp (val_at es k) (val_at es v)" if "h \<le> k" "k < v" for k using partedD(1) [OF pt that] .
  have down: "0 \<le> cmp (val_at es v) (val_at es k)" if "v < k" "k \<le> t" for k
    using partedD(2) [OF pt that] ord(1) in_V [of k] in_V [of v] that v by (auto simp: orders_on_def)
  consider "b < v" | "b = v" | "a < v" "v < b" | "a = v" | "v < a" using ab by linarith
  then show "0 \<le> cmp (val_at es a) (val_at es b)"
  proof cases
    case 1
    then show ?thesis using left ab by (simp add: sorted_part_def)
  next
    case 3
    have "val_at es a \<in> V" "val_at es v \<in> V" "val_at es b \<in> V" "0 \<le> cmp (val_at es a) (val_at es v)" "0 \<le> cmp (val_at es v) (val_at es b)"
      using up [of a] down [of b] in_V [of a] in_V [of b] in_V [of v] 3 ab v by auto
    then show ?thesis using ord(1) unfolding orders_on_def by blast
  next
    case 5
    then show ?thesis using right ab by (simp add: sorted_part_def)
  qed (use up down ab in auto)
qed

text \<open>Sorting a part on one side of the pivot keeps the partition.\<close>

lemma parted_kept:
  assumes "parted cmp pvalue h t es v v" and "kept a b es es'" and "h \<le> a \<and> b < v \<or> v < a \<and> b \<le> t" and "t < length es" "v \<le> t" "a \<le> b"
  shows "parted cmp pvalue h t es' v v"
proof -
  have src: "\<exists>k. (m = k \<or> a \<le> k \<and> k \<le> b \<and> a \<le> m \<and> m \<le> b) \<and> val_at es' m = val_at es k" if "m \<le> t" for m
    using kept_inside [OF assms(2), of m] kept_outside [OF assms(2), of m] that assms(3-6) by fastforce
  show ?thesis
  proof (rule partedI)
    fix m
    assume m: "h \<le> m" "m < v"
    then obtain k where "m = k \<or> a \<le> k \<and> k \<le> b \<and> a \<le> m \<and> m \<le> b" and k: "val_at es' m = val_at es k" using src [of m] assms(5) by auto
    then have "h \<le> k" "k < v" using m assms(3,6) by auto
    then show "0 \<le> cmp (val_at es' m) pvalue" using partedD(1) [OF assms(1)] k by simp
  next
    fix m
    assume m: "v < m" "m \<le> t"
    then obtain k where "m = k \<or> a \<le> k \<and> k \<le> b \<and> a \<le> m \<and> m \<le> b" and k: "val_at es' m = val_at es k" using src [of m] by auto
    then have "v < k" "k \<le> t" using m assms(3,6) by auto
    then show "cmp (val_at es' m) pvalue \<le> 0" using partedD(2) [OF assms(1)] k by simp
  qed
qed

lemma sorted_part_kept:
  assumes "sorted_part cmp h t es" and "kept a b es es'" and "t \<le> a \<or> b < h" and "t \<le> length es"
  shows "sorted_part cmp h t es'"
  using assms kept_outside [OF assms(2)] by (auto simp: sorted_part_def)

text \<open>One of the two recursive calls, or none where the part has fewer than two entries.\<close>

definition sorts :: "'a list_comparator \<Rightarrow> nat \<Rightarrow> nat \<Rightarrow> 'a list_entry list \<Rightarrow> c_error + 'a list_entry list \<Rightarrow> bool" where
  "sorts cmp h t es r \<longleftrightarrow> (\<exists>es'. r = Inr es' \<and> (h < t \<and> kept h (t - 1) es es' \<or> es' = es) \<and> sorted_part cmp h t es')"

lemma sortsE:
  assumes "sorts cmp h t es r"
  obtains es' where "r = Inr es'" "h < t \<and> kept h (t - 1) es es' \<or> es' = es" "sorted_part cmp h t es'"
  using assms by (auto simp: sorts_def)

lemma sorted_two: "sorted_part cmp h (Suc (Suc h)) es \<longleftrightarrow> 0 \<le> cmp (val_at es h) (val_at es (Suc h))"
proof -
  have "h \<le> a \<and> a < b \<and> b < Suc (Suc h) \<longleftrightarrow> a = h \<and> b = Suc h" for a b by auto
  then show ?thesis by (simp add: sorted_part_def)
qed

lemma sort_sides:
  assumes ord: "orders_on cmp V" "set (map e_value es1) \<subseteq> V" and v: "h \<le> v" "v \<le> t" "t < length es1"
    and pt1: "parted cmp (val_at es1 v) h t es1 v v"
    and k2: "h < v \<and> kept h (v - 1) es1 es2 \<or> es2 = es1" and s2: "sorted_part cmp h v es2"
    and k3: "v < t \<and> kept (Suc v) t es2 es3 \<or> es3 = es2" and s3: "sorted_part cmp (Suc v) (Suc t) es3"
  shows "kept h t es1 es3" and "sorted_part cmp h (Suc t) es3"
proof -
  have k12: "kept h t es1 es2" using k2 v by (auto intro: kept_mono)
  have k23: "kept h t es2 es3" using k3 v by (auto intro: kept_mono)
  have len2: "length es2 = length es1" using kept_length [OF k12] .
  have pt2: "parted cmp (val_at es1 v) h t es2 v v" and val2: "val_at es2 v = val_at es1 v"
    using k2 pt1 parted_kept [OF pt1, of h "v - 1" es2] kept_outside [of h "v - 1" es1 es2 v] v by auto
  have s3': "sorted_part cmp h v es3" using k3 s2 sorted_part_kept [OF s2, of "Suc v" t es3] v len2 by auto
  have pt3: "parted cmp (val_at es1 v) h t es3 v v" and val3: "val_at es3 v = val_at es1 v"
    using k3 pt2 parted_kept [OF pt2, of "Suc v" t es3] kept_outside [of "Suc v" t es2 es3 v] v len2 val2 by auto
  have "set (map e_value es3) \<subseteq> V" using kept_values [OF k12] kept_values [OF k23] ord(2) by simp
  then show "sorted_part cmp h (Suc t) es3"
    using sorted_around [OF ord(1) _ v(1,2) _ s3' s3] pt3 val3 kept_length [OF k23] len2 v(3) by simp
  show "kept h t es1 es3" using k12 k23 by (rule kept_trans)
qed

lemma quick_sort_spec:
  assumes "orders_on cmp V" "set (map e_value es) \<subseteq> V" and "h \<le> v" "v \<le> t" "t < length es" and "len = int (t - h) + 1" and "t - h < k"
    and "\<forall>e\<in>set es. e_list e"
  shows "sorts cmp h (Suc t) es (list_quick_sort k cmp es h t v len)"
  using assms
proof (induction k arbitrary: es h t v len)
  case (Suc k)
  note a = Suc.prems
  consider (one) "t = h" | (two) "t = Suc h" | (many) "2 < len" using a by linarith
  then show ?case
  proof cases
    case one
    then show ?thesis using a by (simp add: sorts_def sorted_part_def)
  next
    case two
    have "val_at es h \<in> V" "val_at es t \<in> V" using a val_at_in [of h es] val_at_in [of t es] by auto
    then have "cmp (val_at es h) (val_at es t) < 0 \<longrightarrow> 0 \<le> cmp (val_at es t) (val_at es h)" using a(1) by (auto simp: orders_on_def)
    moreover have "kept h t es (swap_entry_node_val h t es)" using two a by (intro kept_swap) auto
    ultimately show ?thesis using two a by (auto simp: sorts_def sorted_two val_at_swap)
  next
    case many
    have "t - h < length es" "parted cmp (val_at es v) h t es h t" using a by (auto simp: parted_def)
    then obtain es1 v1 where p: "partition_loop (length es) cmp (val_at es v) es v (Some h) (Some t) = Inr (es1, v1)" and k1: "kept h t es es1"
      and v1: "h \<le> v1" "v1 \<le> t" and val: "val_at es1 v1 = val_at es v" and pt1: "parted cmp (val_at es v) h t es1 v1 v1"
      using partition_spec [OF order_refl a(3,4) order_refl a(5) _ a(8) refl] by blast
    have 1: "length es1 = length es" "set (map e_value es1) \<subseteq> V" "\<forall>e\<in>set es1. e_list e"
      using kept_length [OF k1] kept_values [OF k1] kept_list [OF k1] a by auto
    define left where "left = (if 1 < v1 - h \<and> 0 < v1 \<and> h \<noteq> v1 - 1
      then list_quick_sort k cmp es1 h (v1 - 1) (min (h + (v1 - h) div 2) (length es1 - 1)) (int (v1 - h)) else Inr es1)"
    have "sorts cmp h v1 es1 left"
    proof (cases "1 < v1 - h")
      case True
      then have e: "left = list_quick_sort k cmp es1 h (v1 - 1) (min (h + (v1 - h) div 2) (length es1 - 1)) (int (v1 - h))"
        by (auto simp: left_def)
      have "sorts cmp h (Suc (v1 - 1)) es1 left" unfolding e by (rule Suc.IH [OF a(1) 1(2)]) (use True a v1 1 in auto)
      then show ?thesis using True by simp
    qed (auto simp: left_def sorts_def sorted_part_def)
    then obtain es2 where l: "left = Inr es2" "h < v1 \<and> kept h (v1 - 1) es1 es2 \<or> es2 = es1" "sorted_part cmp h v1 es2" by (rule sortsE)
    have k12: "kept h t es1 es2" using l(2) v1 by (auto intro: kept_mono)
    then have 2: "length es2 = length es" "set (map e_value es2) \<subseteq> V" "\<forall>e\<in>set es2. e_list e"
      using kept_length [OF k12] kept_values [OF k12] kept_list [OF k12] 1 by auto
    define right where "right = (if 1 < len - (int (v1 - h) + 1) \<and> Suc v1 < length es2 \<and> t \<noteq> Suc v1
      then list_quick_sort k cmp es2 (Suc v1) t (t - nat ((len - (int (v1 - h) + 1)) div 2)) (len - (int (v1 - h) + 1)) else Inr es2)"
    have l2: "len - (int (v1 - h) + 1) = int (t - v1)" "nat (int (t - v1) div 2) = (t - v1) div 2" using a v1 by (auto simp: nat_div_distrib)
    have "sorts cmp (Suc v1) (Suc t) es2 right"
    proof (cases "1 < t - v1")
      case True
      then have "1 < int (t - v1) \<and> Suc v1 < length es2 \<and> t \<noteq> Suc v1" using a 2 by auto
      then have e: "right = list_quick_sort k cmp es2 (Suc v1) t (t - (t - v1) div 2) (int (t - v1))"
        unfolding right_def l2 by (rule if_P)
      show ?thesis unfolding e by (rule Suc.IH [OF a(1) 2(2)]) (use True a v1 2 in auto)
    qed (auto simp: right_def l2 sorts_def sorted_part_def)
    then obtain es3 where r: "right = Inr es3" "Suc v1 < Suc t \<and> kept (Suc v1) (Suc t - 1) es2 es3 \<or> es3 = es2" "sorted_part cmp (Suc v1) (Suc t) es3"
      by (rule sortsE)
    have c: "count_to h v1 = Inr (v1 - h)" and n: "(len < 2) = False" "(len = 2) = False" using many v1 by (auto simp: count_to_def)
    have "list_quick_sort (Suc k) cmp es h t v len = ebind left (\<lambda>es2. if 1 < len - (int (v1 - h) + 1) \<and> Suc v1 < length es2 \<and> t \<noteq> Suc v1
        then list_quick_sort k cmp es2 (Suc v1) t (t - nat ((len - (int (v1 - h) + 1)) div 2)) (len - (int (v1 - h) + 1)) else Inr es2)"
      unfolding list_quick_sort.simps(2) n if_False p ebind_simps prod.case c Let_def left_def ..
    then have "list_quick_sort (Suc k) cmp es h t v len = right" unfolding l(1) ebind_simps right_def .
    moreover have "kept h t es1 es3" "sorted_part cmp h (Suc t) es3"
      using sort_sides [OF a(1) 1(2) v1 _ _ l(2,3)] r(2,3) 1(1) a(5) pt1 val by auto
    ultimately show ?thesis using r(1) k1 a kept_trans by (fastforce simp: sorts_def)
  qed
qed simp

lemma push_all_linked:
  "list_inv l \<Longrightarrow> \<forall>e\<in>set (l_entries l). e_list e \<Longrightarrow> \<forall>e\<in>set (l_entries (ll.push_all vs l)). e_list e"
proof (induction vs arbitrary: l)
  case (Cons v vs)
  have "\<forall>e\<in>set (l_entries (snd (list_push_value v l))). e_list e"
    using Cons.prems(2) by (auto simp: list_push_value_def push_entry_def)
  then show ?case using Cons.IH [of "snd (list_push_value v l)"] ll.push_snd [OF Cons.prems(1), of v] by (simp add: ll.push_all_def)
qed (simp add: ll.push_all_def)

lemma list_sort_spec:
  assumes inv: "list_inv l" and linked: "\<forall>e\<in>set (l_entries l). e_list e" and n: "length (l_entries l) < 2 ^ 31"
    and ord: "orders_on cmp (set (list_values l))"
  shows "\<exists>l'. list_sort cmp l = Inr l' \<and> list_inv l' \<and> mset (list_values l') = mset (list_values l) \<and>
    sorted_wrt (\<lambda>a b. 0 \<le> cmp a b) (list_values l')"
proof -
  let ?es = "l_entries l"
  let ?n = "length ?es"
  have len: "l_length l = ?n" using inv by (simp add: list_inv_def)
  show ?thesis
  proof (cases "?n div 2 = 0")
    case True
    then have "?n \<le> 1" by auto
    then have "sorted_wrt (\<lambda>a b. 0 \<le> cmp a b) (list_values l)" by (cases ?es) (auto simp: list_values_def)
    then show ?thesis using True len by (auto simp: list_sort_def Let_def list_values_def intro: list_invI)
  next
    case False
    define v where "v = ?n div 2 - 1"
    then have v: "v < ?n" using False by simp
    have "int ?n < 2 ^ 31" using n by simp
    then have cnt: "int_count (l\<lparr>l_pos := v, l_cur := Some v\<rparr>) = int ?n" by (simp add: int_count_def list_count_def len sint_of_nat_small)
    have 1: "set (map e_value ?es) \<subseteq> set (list_values l)" "v \<le> ?n - 1" "?n - 1 < ?n" "int ?n = int (?n - 1 - 0) + 1" "?n - 1 - 0 < ?n"
      using v by (auto simp: list_values_def)
    have "sorts cmp 0 (Suc (?n - 1)) ?es (list_quick_sort ?n cmp ?es 0 (?n - 1) v (int ?n))"
      by (rule quick_sort_spec [OF ord 1(1) _ 1(2-5) linked]) simp
    moreover have "Suc (?n - 1) = ?n" using v by simp
    ultimately obtain es' where es': "list_quick_sort ?n cmp ?es 0 (?n - 1) v (int ?n) = Inr es'" "kept 0 (?n - 1) ?es es'" "sorted_part cmp 0 ?n es'"
      using v by (auto elim!: sortsE)
    then have "list_sort cmp l = Inr (l\<lparr>l_pos := 0, l_cur := None, l_entries := es'\<rparr>)"
      using False v inv cnt v_def [symmetric, simplified] by (simp add: list_sort_def len pick_entry_eq)
    moreover have "sorted_wrt (\<lambda>a b. 0 \<le> cmp a b) (map e_value es')"
      using es'(3) kept_length [OF es'(2)] by (simp add: sorted_wrt_iff_nth_less sorted_part_def val_at_def)
    ultimately show ?thesis using es'(2) len by (auto simp: kept_def list_values_def intro: list_invI)
  qed
qed

section \<open>Properties\<close>

text \<open>C13: Sorting a list whose entries were pushed always ends without an error, and leaves the same values in the order of the comparator: a value comes
  before another only if the comparator does not put it behind, that is, from the greatest to the smallest.\<close>

theorem list_sort_sorts:
  assumes "list_inv l" and "\<forall>e\<in>set (l_entries l). e_list e" and "length (l_entries l) < 2 ^ 31" and "orders_on cmp (set (list_values l))"
  shows "\<exists>l'. list_sort cmp l = Inr l' \<and> list_inv l' \<and> mset (list_values l') = mset (list_values l) \<and>
    sorted_wrt (\<lambda>a b. 0 \<le> cmp a b) (list_values l')"
  using list_sort_spec [OF assms] .

definition cmp_numbers :: "int list_comparator" where
  "cmp_numbers a b = the a - the b"

lemma cmp_numbers_orders: "orders_on cmp_numbers V"
  by (auto simp: orders_on_def cmp_numbers_def)

theorem list_sort_sorts_witness:
  "\<exists>l'. list_sort cmp_numbers (ll.push_all [Some 4, Some 9, Some 2, Some 4, Some 7] list_create) = Inr l' \<and> list_inv l' \<and>
     mset (list_values l') = {#Some 4, Some 9, Some 2, Some 4, Some 7#} \<and> sorted_wrt (\<lambda>a b. 0 \<le> cmp_numbers a b) (list_values l')"
proof -
  let ?vs = "[Some 4, Some 9, Some 2, Some 4, Some (7::int)]"
  have l: "list_inv (ll.push_all ?vs list_create)" "list_values (ll.push_all ?vs list_create) = ?vs"
    using ll.push_all_ok [of list_create ?vs] by simp_all
  have e: "\<forall>e\<in>set (l_entries (ll.push_all ?vs list_create)). e_list e" by (rule push_all_linked) (simp_all add: list_create_def list_inv_def)
  have "length (l_entries (ll.push_all ?vs list_create)) = 5" using arg_cong [OF l(2), of length] by (simp add: list_values_def)
  then show ?thesis using list_sort_sorts [OF l(1) e _ cmp_numbers_orders] l(2) by simp
qed

text \<open>An entry that was inserted in the middle of a list does not know its list, and sorting follows its null pointer when it is the pivot.\<close>

theorem list_sort_after_insert_crashes:
  "\<exists>l. list_insert_value (Some 2) 1 (ll.push_all [Some 1, Some 3, Some 4] list_create) = Inr (0, l) \<and>
     list_values l = [Some 1, Some 2, Some 3, Some 4] \<and> list_sort cmp_numbers l = Inl Null_Deref"
proof -
  define e :: "int \<Rightarrow> bool \<Rightarrow> int list_entry" where "e = (\<lambda>v b. \<lparr>e_value = Some v, e_tagged = False, e_list = b\<rparr>)"
  let ?l = "\<lparr>l_entries = [e 1 True, e 2 False, e 3 True, e 4 True], l_cur = Some 0, l_pos = 0, l_length = 4\<rparr>"
  have "list_insert_value (Some 2) 1 (ll.push_all [Some 1, Some 3, Some 4] list_create) = Inr (0, ?l)"
    unfolding ll.push_all_def e_def by code_simp
  moreover have "list_values ?l = [Some 1, Some 2, Some 3, Some 4]" by (simp add: list_values_def e_def)
  moreover have "list_sort cmp_numbers ?l = Inl Null_Deref" unfolding e_def by code_simp
  ultimately show ?thesis by blast
qed

text \<open>Releasing the last of several slices follows a null pointer; releasing the whole list takes its slices from the front and does not.\<close>

lemma unlink_last: "s_ptr sl \<notin> s_ptr ` set xs \<Longrightarrow> prev \<or> xs \<noteq> [] \<Longrightarrow> unlink_slice prev (s_ptr sl) (xs @ [sl]) = Inl Null_Deref"
  by (induction prev "s_ptr sl" xs rule: unlink_slice.induct) (auto simp: image_iff)

lemma destroy_slices_all: "destroy_slices (length cs) cs = Inr []"
  by (induction cs) (auto simp: slice_destroy_def)

lemma list_clear_empty: "l_entries (list_clear l) = []"
proof (induction l rule: list_clear.induct)
  case (1 l)
  then show ?case
    by (cases "l_entries l") (simp_all add: shift_entry_def list_clear.simps [of l] del: list_clear.simps)
qed

theorem slices_destroyed:
  assumes "s_ptr sl \<notin> s_ptr ` set slices" and "slices \<noteq> []"
  shows "slice_destroy sl (slices @ [sl]) = Inl Null_Deref \<and>
    (\<exists>l'. list_destroy (slices @ [sl]) l = Inr ([], l') \<and> list_values l' = [])"
  using unlink_last [OF assms(1), of False] assms(2) destroy_slices_all [of "slices @ [sl]"] list_clear_empty [of l]
  by (auto simp: slice_destroy_def list_destroy_def list_values_def)

text \<open>Releasing an entry unlinks it only if it knows its list.\<close>

theorem destroy_entry_unlinks:
  assumes "list_inv l" and "i < length (l_entries l)" and "length (l_entries l) < 2 ^ 31"
  shows "list_values (destroy_entry i l) = (if e_list (l_entries l ! i) then remove_nth i (list_values l) else list_values l)"
proof -
  have "int i < 2 ^ 31" using less_trans [OF assms(2,3)] by simp
  then have "get_entry_position i l = (if e_list (l_entries l ! i) then int i else -1)" by (simp add: get_entry_position_def sint_of_nat_small)
  then show ?thesis
    using assms(1,2)
    by (auto simp: destroy_entry_def remove_entry_def pick_entry_eq list_values_def remove_nth_def take_map drop_map split: prod.splits)
qed

lemma set_tagged_loop_eq:
  assumes "tag_list l tvs" and "n = length tvs - i" and "i \<le> length tvs"
  shows "\<exists>l'. set_tagged_loop i (Some tag) l =
      Inr (map_option (\<lambda>k. (k, tvs ! k)) (List.find (\<lambda>k. tv_tag (tvs ! k) = Some tag) [i..<length tvs]), l') \<and> tag_list l' tvs"
  using assms
proof (induction n arbitrary: i l)
  case 0
  then show ?case by (subst set_tagged_loop.simps) (simp add: tag_list_count)
next
  case (Suc n)
  then have i: "i < length tvs" by simp
  obtain v l1 where p: "list_pick_value i l = (v, l1)" by (cases "list_pick_value i l")
  have inv: "list_inv l" and vals: "list_values l = map Some tvs" using Suc.prems(1) by (simp_all add: tag_list_def)
  from pick_value_eq [OF inv p] i vals have v: "v = Some (tvs ! i)" and l1: "tag_list l1 tvs"
    using tag_list_same [OF Suc.prems(1)] by simp_all
  obtain t where t: "tv_tag (tvs ! i) = Some t" using Suc.prems(1) nth_mem [OF i] by (auto simp: tag_list_def)
  have "n = length tvs - Suc i" "Suc i \<le> length tvs" using Suc.prems(2) i by auto
  then obtain l' where l': "set_tagged_loop (Suc i) (Some tag) l1 =
      Inr (map_option (\<lambda>k. (k, tvs ! k)) (List.find (\<lambda>k. tv_tag (tvs ! k) = Some tag) [Suc i..<length tvs]), l')" "tag_list l' tvs"
    using Suc.IH [OF l1] by blast
  with i v t l1 p show ?case
    by (subst set_tagged_loop.simps) (auto simp: tag_list_count [OF Suc.prems(1)] list_pick_tagged_value_def upt_conv_Cons)
qed

text \<open>Setting the value of a tag that the list has replaces the first value with the tag, and the old one is returned. A new tag is appended, but its value
  has been released while the list points to it, and NULL is returned.\<close>

theorem set_tagged_value_outcome:
  assumes "tag_list l tvs"
  shows "\<exists>l'. list_set_tagged_value (Some tag) value len copy l =
    (case List.find (\<lambda>k. tv_tag (tvs ! k) = Some tag) [0..<length tvs] of None \<Rightarrow> Inr (None, l', True) | Some k \<Rightarrow> Inr (Some (tvs ! k), l', False)) \<and>
    list_values l' = map Some
      (let tval = (if copy then list_create_tagged_value (Some tag) value len else list_create_tagged_value_nocopy (Some tag) value)
       in case List.find (\<lambda>k. tv_tag (tvs ! k) = Some tag) [0..<length tvs] of None \<Rightarrow> tvs @ [tval] | Some k \<Rightarrow> tvs[k := tval])"
proof -
  obtain l1 where l1: "set_tagged_loop 0 (Some tag) l =
      Inr (map_option (\<lambda>k. (k, tvs ! k)) (List.find (\<lambda>k. tv_tag (tvs ! k) = Some tag) [0..<length tvs]), l1)" "tag_list l1 tvs"
    using set_tagged_loop_eq [OF assms refl, of 0 tag] by auto
  then have inv: "list_inv l1" and vals: "map e_value (l_entries l1) = map Some tvs" by (simp_all add: tag_list_def list_values_def)
  show ?thesis
  proof (cases "List.find (\<lambda>k. tv_tag (tvs ! k) = Some tag) [0..<length tvs]")
    case None
    then show ?thesis
      using l1 vals inv by (auto simp: list_set_tagged_value_def list_push_tagged_value_def push_entry_def list_values_def Let_def list_inv_def)
  next
    case (Some k)
    then have k: "k < length tvs" by (auto simp: find_Some_iff)
    have len: "length (l_entries l1) = length tvs" using vals by (metis length_map)
    have "e_value (l_entries l1 ! k) = Some (tvs ! k)" using vals k len by (metis nth_map)
    then show ?thesis
      using Some l1 inv k len vals
      by (auto simp: list_set_tagged_value_def list_set_value_def pick_entry_eq set_entry_value_def list_values_def Let_def map_update)
  qed
qed

end
