(* ===== verification/Rbtree_Remove.thy ===== *)
theory Rbtree_Remove
  imports Rbtree
begin

text \<open>
  Removal from the red-black tree, \<^verbatim>\<open>rbt_remove\<close> of src/src/index/libhl/rbtree.c, on nodes in a store: it frees nodes, and what it does to parent
  pointers, to the root pointer and to the length of keys decides whether the tree can be used afterwards.

  \<open>pt_nodes\<close> maps the address of a node to the node, \<open>None\<close> when there is none or it was freed; using such an address is \<open>Bad_Pointer\<close>. Keys are
  compared with their lengths, as the callback gets them. \<open>pt_prevnext\<close> is the static counter that alternates between the nodes before and
  after the removed one. Walks along pointers take \<open>fuel\<close>, as the pointers may form a cycle; running out is \<open>No_Return\<close>.
\<close>

section \<open>Nodes in a store\<close>

record 'v pnode =
  n_color :: rbt_color
  n_key :: "byte list"
  n_klen :: nat
  n_value :: 'v
  n_left :: "nat option"
  n_right :: "nat option"
  n_parent :: "nat option"

type_synonym key_cmp = "byte list \<Rightarrow> nat \<Rightarrow> byte list \<Rightarrow> nat \<Rightarrow> int"

record 'v ptree =
  pt_nodes :: "nat \<Rightarrow> 'v pnode option"
  pt_root :: "nat option"
  pt_size :: uint64
  pt_prevnext :: nat

definition node_at :: "'v ptree \<Rightarrow> nat \<Rightarrow> c_error + 'v pnode" where
  "node_at t p = (case pt_nodes t p of None \<Rightarrow> Inl Bad_Pointer | Some n \<Rightarrow> Inr n)"

definition upd_node :: "nat \<Rightarrow> ('v pnode \<Rightarrow> 'v pnode) \<Rightarrow> 'v ptree \<Rightarrow> c_error + 'v ptree" where
  "upd_node p f t = ebind (node_at t p) (\<lambda>n. Inr (t\<lparr>pt_nodes := (pt_nodes t)(p \<mapsto> f n)\<rparr>))"

definition upd_opt :: "nat option \<Rightarrow> ('v pnode \<Rightarrow> 'v pnode) \<Rightarrow> 'v ptree \<Rightarrow> c_error + 'v ptree" where
  "upd_opt p f t = (case p of None \<Rightarrow> Inr t | Some q \<Rightarrow> upd_node q f t)"

definition release_node :: "nat \<Rightarrow> 'v ptree \<Rightarrow> 'v ptree" where
  "release_node p t = t\<lparr>pt_nodes := (pt_nodes t)(p := None)\<rparr>"

text \<open>\<^verbatim>\<open>IS_RED\<close> and \<^verbatim>\<open>IS_BLACK\<close>: NULL is black.\<close>

definition red_at :: "'v ptree \<Rightarrow> nat option \<Rightarrow> c_error + bool" where
  "red_at t p = (case p of None \<Rightarrow> Inr False | Some q \<Rightarrow> ebind (node_at t q) (\<lambda>n. Inr (n_color n = RBTREE_COLOR_RED)))"

text \<open>The new child takes the place of the old one: the left one if that was it, else the right one.\<close>

definition replace_child :: "nat \<Rightarrow> nat \<Rightarrow> nat option \<Rightarrow> 'v ptree \<Rightarrow> c_error + 'v ptree" where
  "replace_child parent old new t =
     ebind (node_at t parent) (\<lambda>n.
       if n_left n = Some old then upd_node parent (n_left_update (\<lambda>_. new)) t else upd_node parent (n_right_update (\<lambda>_. new)) t)"

primrec find_at :: "nat \<Rightarrow> key_cmp \<Rightarrow> 'v ptree \<Rightarrow> nat option \<Rightarrow> byte list \<Rightarrow> nat \<Rightarrow> c_error + nat option" where
  "find_at 0 cmp t p k klen = Inl No_Return"
| "find_at (Suc fuel) cmp t p k klen =
     (case p of
        None \<Rightarrow> Inr None
      | Some q \<Rightarrow> ebind (node_at t q) (\<lambda>n.
          let rc = cmp (n_key n) (n_klen n) k klen
          in if rc = 0 then Inr (Some q) else find_at fuel cmp t (if 0 < rc then n_left n else n_right n) k klen))"

section \<open>Rotations\<close>

text \<open>\<^verbatim>\<open>rbt_rotate_right\<close> and \<^verbatim>\<open>rbt_rotate_left\<close>, pointer by pointer: \<open>p\<close> is the child that comes up and \<open>inner\<close> its subtree that changes sides.\<close>

definition hang_up :: "nat \<Rightarrow> nat option \<Rightarrow> nat option \<Rightarrow> 'v ptree \<Rightarrow> c_error + 'v ptree" where
  "hang_up node p inner t =
     ebind (upd_opt inner (n_parent_update (\<lambda>_. Some node)) t) (\<lambda>t1.
     ebind (node_at t1 node) (\<lambda>n. let parent = n_parent n in
     ebind (upd_node node (n_parent_update (\<lambda>_. p)) t1) (\<lambda>t2.
       case p of
         None \<Rightarrow> Inr (t2\<lparr>pt_root := Some node\<rparr>)
       | Some q \<Rightarrow>
           ebind (upd_node q (n_parent_update (\<lambda>_. parent)) t2) (\<lambda>t3.
             case parent of None \<Rightarrow> Inr (t3\<lparr>pt_root := Some q\<rparr>) | Some r \<Rightarrow> replace_child r node (Some q) t3))))"

definition inner_of :: "('v pnode \<Rightarrow> nat option) \<Rightarrow> nat option \<Rightarrow> 'v ptree \<Rightarrow> c_error + nat option" where
  "inner_of side p t = (case p of None \<Rightarrow> Inr None | Some q \<Rightarrow> ebind (node_at t q) (\<lambda>m. Inr (side m)))"

definition rotate_right :: "nat \<Rightarrow> 'v ptree \<Rightarrow> c_error + 'v ptree" where
  "rotate_right node t =
     ebind (node_at t node) (\<lambda>n. let p = n_left n in
     ebind (inner_of n_right p t) (\<lambda>inner.
     ebind (upd_node node (n_left_update (\<lambda>_. inner)) t) (\<lambda>t1.
     ebind (upd_opt p (n_right_update (\<lambda>_. Some node)) t1) (hang_up node p inner))))"

definition rotate_left :: "nat \<Rightarrow> 'v ptree \<Rightarrow> c_error + 'v ptree" where
  "rotate_left node t =
     ebind (node_at t node) (\<lambda>n. let p = n_right n in
     ebind (inner_of n_left p t) (\<lambda>inner.
     ebind (upd_node node (n_right_update (\<lambda>_. inner)) t) (\<lambda>t1.
     ebind (upd_opt p (n_left_update (\<lambda>_. Some node)) t1) (hang_up node p inner))))"

section \<open>Removal\<close>

definition rbt_sibling :: "'v ptree \<Rightarrow> nat \<Rightarrow> c_error + nat option" where
  "rbt_sibling t node =
     ebind (node_at t node) (\<lambda>n. ebind (deref (n_parent n)) (\<lambda>p. ebind (node_at t p) (\<lambda>m.
       Inr (if n_left m = Some node then n_right m else n_left m))))"

primrec far_end :: "nat \<Rightarrow> ('v pnode \<Rightarrow> nat option) \<Rightarrow> 'v ptree \<Rightarrow> nat \<Rightarrow> c_error + nat" where
  "far_end 0 side t p = Inl No_Return"
| "far_end (Suc fuel) side t p = ebind (node_at t p) (\<lambda>n. case side n of None \<Rightarrow> Inr p | Some q \<Rightarrow> far_end fuel side t q)"

definition rbt_find_next :: "nat \<Rightarrow> 'v ptree \<Rightarrow> nat \<Rightarrow> c_error + nat option" where
  "rbt_find_next fuel t node =
     ebind (node_at t node) (\<lambda>n. case n_right n of None \<Rightarrow> Inr None | Some q \<Rightarrow> ebind (far_end fuel n_left t q) (\<lambda>e. Inr (Some e)))"

definition rbt_find_prev :: "nat \<Rightarrow> 'v ptree \<Rightarrow> nat \<Rightarrow> c_error + nat option" where
  "rbt_find_prev fuel t node =
     ebind (node_at t node) (\<lambda>n. case n_left n of None \<Rightarrow> Inr None | Some q \<Rightarrow> ebind (far_end fuel n_right t q) (\<lambda>e. Inr (Some e)))"

text \<open>A black sibling, not NULL, with black children: the condition of cases 3 and 4.\<close>

definition all_black :: "'v ptree \<Rightarrow> nat option \<Rightarrow> c_error + bool" where
  "all_black t sibling =
     (case sibling of
        None \<Rightarrow> Inr False
      | Some s \<Rightarrow> ebind (node_at t s) (\<lambda>n. ebind (red_at t (n_left n)) (\<lambda>lr. ebind (red_at t (n_right n)) (\<lambda>rr.
          Inr (n_color n = RBTREE_COLOR_BLACK \<and> \<not> lr \<and> \<not> rr)))))"

text \<open>Cases 5 and 6. \<open>sibling\<close> is the one found at the start: it is not looked up again after a rotation.\<close>

definition case5 :: "nat \<Rightarrow> nat \<Rightarrow> nat option \<Rightarrow> 'v ptree \<Rightarrow> c_error + 'v ptree" where
  "case5 node parent sibling t =
     (case sibling of
        None \<Rightarrow> Inr t
      | Some s \<Rightarrow>
          ebind (node_at t s) (\<lambda>n. ebind (node_at t parent) (\<lambda>m. ebind (red_at t (n_left n)) (\<lambda>lr. ebind (red_at t (n_right n)) (\<lambda>rr.
            if n_color n = RBTREE_COLOR_RED then Inr t
            else if n_left m = Some node \<and> \<not> rr \<and> lr then
              ebind (upd_node s (n_color_update (\<lambda>_. RBTREE_COLOR_RED)) t) (\<lambda>t1.
              ebind (upd_opt (n_left n) (n_color_update (\<lambda>_. RBTREE_COLOR_BLACK)) t1) (rotate_right s))
            else if n_right m = Some node \<and> \<not> lr \<and> rr then
              ebind (upd_node s (n_color_update (\<lambda>_. RBTREE_COLOR_RED)) t) (\<lambda>t1.
              ebind (upd_opt (n_right n) (n_color_update (\<lambda>_. RBTREE_COLOR_BLACK)) t1) (rotate_left s))
            else Inr t)))))"

definition parent_of :: "'v ptree \<Rightarrow> nat \<Rightarrow> c_error + nat" where
  "parent_of t node = ebind (node_at t node) (\<lambda>n. deref (n_parent n))"

definition case6 :: "nat \<Rightarrow> nat option \<Rightarrow> 'v ptree \<Rightarrow> c_error + 'v ptree" where
  "case6 node sibling t =
     ebind (parent_of t node) (\<lambda>parent. ebind (node_at t parent) (\<lambda>m.
     ebind (upd_opt sibling (n_color_update (\<lambda>_. n_color m)) t) (\<lambda>t1.
     ebind (upd_node parent (n_color_update (\<lambda>_. RBTREE_COLOR_BLACK)) t1) (\<lambda>t2.
     ebind (inner_of (if n_left m = Some node then n_right else n_left) sibling t2) (\<lambda>outer.
     ebind (upd_opt outer (n_color_update (\<lambda>_. RBTREE_COLOR_BLACK)) t2)
       (if n_left m = Some node then rotate_left parent else rotate_right parent))))))"

primrec rbt_paint_onremove :: "nat \<Rightarrow> nat \<Rightarrow> 'v ptree \<Rightarrow> c_error + 'v ptree" where
  "rbt_paint_onremove 0 node t = Inl No_Return"
| "rbt_paint_onremove (Suc fuel) node t =
     ebind (node_at t node) (\<lambda>n.
       if n_parent n = None then Inr t
       else ebind (rbt_sibling t node) (\<lambda>sibling. ebind (red_at t sibling) (\<lambda>sr. ebind (parent_of t node) (\<lambda>parent.
         ebind (if sr
                then ebind (upd_node parent (n_color_update (\<lambda>_. RBTREE_COLOR_RED)) t) (\<lambda>t1.
                     ebind (upd_opt sibling (n_color_update (\<lambda>_. RBTREE_COLOR_BLACK)) t1) (\<lambda>t2.
                     ebind (node_at t2 parent) (\<lambda>m. if n_left m = Some node then rotate_left parent t2 else rotate_right parent t2)))
                else Inr t) (\<lambda>t3.
         ebind (parent_of t3 node) (\<lambda>parent. ebind (red_at t3 (Some parent)) (\<lambda>pr. ebind (all_black t3 sibling) (\<lambda>ab.
           if \<not> pr \<and> ab then ebind (upd_opt sibling (n_color_update (\<lambda>_. RBTREE_COLOR_RED)) t3) (rbt_paint_onremove fuel parent)
           else if pr \<and> ab then
             ebind (upd_opt sibling (n_color_update (\<lambda>_. RBTREE_COLOR_RED)) t3) (upd_node parent (n_color_update (\<lambda>_. RBTREE_COLOR_BLACK)))
           else ebind (case5 node parent sibling t3) (case6 node sibling)))))))))"

text \<open>
  Two children: key and value of the node \<open>m\<close> before or after come to the node, whose \<^verbatim>\<open>klen\<close> stays, and \<open>m\<close> is taken out; its subtree
  gets the node as its parent, wherever it was hung.
\<close>

definition remove_two :: "nat \<Rightarrow> nat \<Rightarrow> 'v ptree \<Rightarrow> c_error + ('v \<times> 'v ptree)" where
  "remove_two fuel node t =
     (let isprev = (pt_prevnext t mod 2 = 0); t0 = t\<lparr>pt_prevnext := pt_prevnext t + 1\<rparr>
      in ebind (if isprev then rbt_find_prev fuel t0 node else rbt_find_next fuel t0 node) (\<lambda>mo. ebind (deref mo) (\<lambda>m.
         ebind (node_at t0 m) (\<lambda>mn. ebind (node_at t0 node) (\<lambda>n.
         ebind (upd_node node (\<lambda>x. x\<lparr>n_key := take (n_klen mn) (n_key mn), n_value := n_value mn\<rparr>) t0) (\<lambda>t1.
         ebind (if isprev
                then if n_left n = Some m then upd_node node (n_left_update (\<lambda>_. n_left mn)) t1
                     else ebind (deref (n_parent mn)) (\<lambda>p. upd_node p (n_right_update (\<lambda>_. n_left mn)) t1)
                else if n_right n = Some m then upd_node node (n_right_update (\<lambda>_. n_right mn)) t1
                     else ebind (deref (n_parent mn)) (\<lambda>p. upd_node p (n_left_update (\<lambda>_. n_right mn)) t1)) (\<lambda>t2.
         ebind (upd_opt (if isprev then n_left mn else n_right mn) (n_parent_update (\<lambda>_. Some node)) t2) (\<lambda>t3.
           Inr (n_value n, (release_node m t3)\<lparr>pt_size := pt_size t3 - 1\<rparr>)))))))))"

text \<open>One child: it takes the place of the node below the node's parent; the root pointer is not changed when there is none.\<close>

definition remove_one :: "nat \<Rightarrow> nat \<Rightarrow> nat \<Rightarrow> 'v pnode \<Rightarrow> 'v ptree \<Rightarrow> c_error + ('v \<times> 'v ptree)" where
  "remove_one fuel node child n t =
     ebind (upd_node child (n_parent_update (\<lambda>_. n_parent n)) t) (\<lambda>t1.
     ebind (case n_parent n of None \<Rightarrow> Inr t1 | Some p \<Rightarrow> replace_child p node (Some child) t1) (\<lambda>t2.
     ebind (red_at t2 (Some child)) (\<lambda>cr.
     ebind (if n_color n = RBTREE_COLOR_BLACK
            then if cr then upd_node child (n_color_update (\<lambda>_. RBTREE_COLOR_BLACK)) t2 else rbt_paint_onremove fuel child t2
            else Inr t2) (\<lambda>t3.
       Inr (n_value n, (release_node node t3)\<lparr>pt_size := pt_size t3 - 1\<rparr>)))))"

definition remove_leaf :: "nat \<Rightarrow> 'v pnode \<Rightarrow> 'v ptree \<Rightarrow> c_error + ('v \<times> 'v ptree)" where
  "remove_leaf node n t =
     ebind (case n_parent n of None \<Rightarrow> Inr t | Some p \<Rightarrow> replace_child p node None t) (\<lambda>t1.
       Inr (n_value n, (release_node node t1)\<lparr>pt_size := pt_size t1 - 1\<rparr>))"

text \<open>\<open>None\<close> stands for the result -1, otherwise the removed value is handed out.\<close>

definition rbt_remove :: "nat \<Rightarrow> key_cmp \<Rightarrow> byte list \<Rightarrow> nat \<Rightarrow> 'v ptree \<Rightarrow> c_error + ('v option \<times> 'v ptree)" where
  "rbt_remove fuel cmp k klen t =
     ebind (find_at fuel cmp t (pt_root t) k klen) (\<lambda>found.
       case found of
         None \<Rightarrow> Inr (None, t)
       | Some node \<Rightarrow>
           ebind (node_at t node) (\<lambda>n.
           ebind (case (n_left n, n_right n) of
                    (Some _, Some _) \<Rightarrow> remove_two fuel node t
                  | (_, Some child) \<Rightarrow> remove_one fuel node child n t
                  | (Some child, None) \<Rightarrow> remove_one fuel node child n t
                  | (None, None) \<Rightarrow> remove_leaf node n t) (\<lambda>(v, t'). Inr (Some v, t'))))"

section \<open>Shapes\<close>

text \<open>The addresses of a tree, and that the store holds it: child and parent pointers agree.\<close>

datatype shape = Lf | Nd shape nat shape

fun addrs :: "shape \<Rightarrow> nat list" where
  "addrs Lf = []"
| "addrs (Nd l a r) = addrs l @ a # addrs r"

fun holds :: "'v ptree \<Rightarrow> nat option \<Rightarrow> nat option \<Rightarrow> shape \<Rightarrow> bool" where
  "holds t p par Lf = (p = None)"
| "holds t p par (Nd l a r) =
     (p = Some a \<and> (case pt_nodes t a of
        None \<Rightarrow> False
      | Some n \<Rightarrow> n_parent n = par \<and> holds t (n_left n) (Some a) l \<and> holds t (n_right n) (Some a) r))"

fun prune :: "nat \<Rightarrow> shape \<Rightarrow> shape" where
  "prune a Lf = Lf"
| "prune a (Nd l b r) = (if a = b then Lf else Nd (prune a l) b (prune a r))"

lemma holds_frame: "(\<And>x. x \<in> set (addrs s) \<Longrightarrow> pt_nodes t' x = pt_nodes t x) \<Longrightarrow> holds t' p par s = holds t p par s"
proof (induction s arbitrary: p par)
  case (Nd l a r)
  then show ?case by (auto split: option.splits)
qed simp

lemma prune_absent: "a \<notin> set (addrs s) \<Longrightarrow> prune a s = s"
  by (induction s) auto

lemma holds_nodeE:
  assumes "holds t p par (Nd l c r)"
  obtains n where "p = Some c" "pt_nodes t c = Some n" "n_parent n = par" "holds t (n_left n) (Some c) l" "holds t (n_right n) (Some c) r"
  using assms by (auto split: option.splits)

lemma holds_root: "holds t (Some a) par s \<Longrightarrow> \<exists>l r. s = Nd l a r"
  by (cases s) auto

lemma holds_leaf:
  assumes "holds t p par s" "a \<in> set (addrs s)" "distinct (addrs s)" "pt_nodes t a = Some n" "n_left n = None" "n_right n = None"
  shows "addrs (prune a s) = filter (\<lambda>x. x \<noteq> a) (addrs s)"
  using assms(1-3)
proof (induction s arbitrary: p par)
  case (Nd l c r)
  from Nd.prems(1) obtain m where m: "pt_nodes t c = Some m" "holds t (n_left m) (Some c) l" "holds t (n_right m) (Some c) r" by (rule holds_nodeE)
  have other: "filter (\<lambda>x. x \<noteq> a) xs = xs" if "a \<notin> set xs" for xs :: "nat list" using that by (auto simp: filter_id_conv)
  show ?case
  proof (cases "a = c")
    case True
    then have "l = Lf" "r = Lf" using m assms(4-6) by (auto elim: holds.elims)
    then show ?thesis using True by simp
  next
    case False
    have "set (addrs l) \<inter> set (addrs r) = {}" using Nd.prems(3) by simp
    then have "a \<in> set (addrs l) \<Longrightarrow> a \<notin> set (addrs r)" by blast
    with False show ?thesis using Nd m by (cases "a \<in> set (addrs l)") (auto simp: prune_absent other)
  qed
qed simp

text \<open>Unlinking a leaf from its parent, in the store and in the shape.\<close>

lemma unlink_leaf:
  assumes a: "pt_nodes t a = Some n" "n_parent n = Some b" and bn: "pt_nodes t b = Some bn"
    and t': "pt_nodes t' = (pt_nodes t)(b \<mapsto> (if n_left bn = Some a then bn\<lparr>n_left := None\<rparr> else bn\<lparr>n_right := None\<rparr>), a := None)"
    and s: "holds t p par s" "distinct (addrs s)" "a \<in> set (addrs s)" "p \<noteq> Some a"
  shows "b \<in> set (addrs s) \<and> holds t' p par (prune a s)"
  using s
proof (induction s arbitrary: p par)
  case (Nd l c r)
  from Nd.prems(1) obtain m where m: "p = Some c" "pt_nodes t c = Some m" "n_parent m = par" "holds t (n_left m) (Some c) l" "holds t (n_right m) (Some c) r"
    by (rule holds_nodeE)
  have ac: "a \<noteq> c" using Nd.prems(4) m(1) by simp
  have frame: "holds t' q par' u \<longleftrightarrow> holds t q par' u" if "a \<notin> set (addrs u)" "b \<notin> set (addrs u)" for q par' u
    by (rule holds_frame) (use that t' in auto)
  have top: "holds t' (Some a) (Some c) u \<Longrightarrow> False" for u by (cases u) (auto simp: t')
  consider (left) "a \<in> set (addrs l)" "a \<notin> set (addrs r)" | (right) "a \<in> set (addrs r)" "a \<notin> set (addrs l)"
    using Nd.prems(2,3) ac by auto
  then show ?case
  proof cases
    case left
    show ?thesis
    proof (cases "n_left m = Some a")
      case True
      with m(4) obtain l1 l2 where l: "l = Nd l1 a l2" using holds_root [of t a "Some c" l] by auto
      with m(4) a have "b = c" by (auto split: option.splits)
      with True l left m bn a ac Nd.prems(2) show ?thesis by (auto simp: frame prune_absent t')
    next
      case False
      have "b \<in> set (addrs l) \<and> holds t' (n_left m) (Some c) (prune a l)"
        using Nd.IH(1) [OF m(4)] Nd.prems(2) left False by simp
      moreover from this have "b \<noteq> c" "b \<notin> set (addrs r)" using Nd.prems(2) by auto
      ultimately show ?thesis using left m ac frame [of r] by (auto simp: prune_absent t')
    qed
  next
    case right
    show ?thesis
    proof (cases "n_right m = Some a")
      case True
      with m(5) obtain r1 r2 where r: "r = Nd r1 a r2" using holds_root [of t a "Some c" r] by auto
      with m(5) a have "b = c" by (auto split: option.splits)
      moreover have "n_left m \<noteq> Some a" using m(4) right holds_root by fastforce
      ultimately show ?thesis using True r right m bn a ac Nd.prems(2) by (auto simp: frame prune_absent t')
    next
      case False
      have "b \<in> set (addrs r) \<and> holds t' (n_right m) (Some c) (prune a r)"
        using Nd.IH(2) [OF m(5)] Nd.prems(2) right False by simp
      moreover from this have "b \<noteq> c" "b \<notin> set (addrs l)" using Nd.prems(2) by auto
      ultimately show ?thesis using right m ac frame [of l] by (auto simp: prune_absent t')
    qed
  qed
qed simp

lemma find_at_in:
  assumes "holds t p par s" and "find_at fuel cmp t p k klen = Inr (Some a)"
  shows "a \<in> set (addrs s) \<and> (\<exists>n. pt_nodes t a = Some n \<and> cmp (n_key n) (n_klen n) k klen = 0)"
  using assms
proof (induction fuel arbitrary: p par s)
  case (Suc fuel)
  then obtain c where p: "p = Some c" by (cases p) auto
  with Suc.prems(1) holds_root obtain l r where s: "s = Nd l c r" by blast
  with Suc.prems(1) obtain n where n: "pt_nodes t c = Some n" "holds t (n_left n) (Some c) l" "holds t (n_right n) (Some c) r"
    by (auto split: option.splits)
  show ?case
    using Suc.prems(2) p n(1) s Suc.IH [OF n(2)] Suc.IH [OF n(3)] by (auto simp: node_at_def Let_def split: if_splits)
qed simp

lemma holds_parent: "holds t p par s \<Longrightarrow> a \<in> set (addrs s) \<Longrightarrow> pt_nodes t a = Some n \<Longrightarrow> p = Some a \<and> n_parent n = par \<or> (\<exists>b\<in>set (addrs s). n_parent n = Some b)"
proof (induction s arbitrary: p par)
  case (Nd l c r)
  from Nd.prems(1) obtain m where m: "p = Some c" "pt_nodes t c = Some m" "n_parent m = par" "holds t (n_left m) (Some c) l" "holds t (n_right m) (Some c) r"
    by (rule holds_nodeE)
  then show ?case using Nd.IH(1) [OF m(4)] Nd.IH(2) [OF m(5)] Nd.prems(2,3) by auto
qed simp

lemma holds_alive: "holds t p par s \<Longrightarrow> a \<in> set (addrs s) \<Longrightarrow> \<exists>n. pt_nodes t a = Some n"
proof (induction s arbitrary: p par)
  case (Nd l c r)
  from Nd.prems(1) show ?case by (rule holds_nodeE) (use Nd in auto)
qed simp

section \<open>Properties\<close>

text \<open>C15: Removing the key of a leaf below the root takes exactly this node out: its value is handed out, the store holds the tree without it, every other node keeps
  its key, value and colour, and the count goes down.\<close>

theorem remove_leaf_exact:
  assumes "holds t (pt_root t) None s" and "distinct (addrs s)" and "find_at fuel cmp t (pt_root t) k klen = Inr (Some a)"
    and "pt_nodes t a = Some n" "n_left n = None" "n_right n = None" "pt_root t \<noteq> Some a"
  shows "\<exists>t'. rbt_remove fuel cmp k klen t = Inr (Some (n_value n), t') \<and> holds t' (pt_root t') None (prune a s) \<and>
    addrs (prune a s) = filter (\<lambda>x. x \<noteq> a) (addrs s) \<and> pt_size t' = pt_size t - 1 \<and>
    (\<forall>x. x \<noteq> a \<longrightarrow> map_option (\<lambda>n. (n_key n, n_klen n, n_value n, n_color n)) (pt_nodes t' x) =
       map_option (\<lambda>n. (n_key n, n_klen n, n_value n, n_color n)) (pt_nodes t x))"
proof -
  have a: "a \<in> set (addrs s)" using find_at_in [OF assms(1,3)] by simp
  with holds_parent [OF assms(1) a assms(4)] assms(7) obtain b where b: "n_parent n = Some b" "b \<in> set (addrs s)" by auto
  obtain bn where bn: "pt_nodes t b = Some bn" using holds_alive [OF assms(1) b(2)] by auto
  define t' where "t' = t\<lparr>pt_nodes := (pt_nodes t)(b \<mapsto> (if n_left bn = Some a then bn\<lparr>n_left := None\<rparr> else bn\<lparr>n_right := None\<rparr>), a := None),
    pt_size := pt_size t - 1\<rparr>"
  have "rbt_remove fuel cmp k klen t = Inr (Some (n_value n), t')"
    using assms(3-6) b(1) bn
    by (auto simp: rbt_remove_def node_at_def remove_leaf_def replace_child_def upd_node_def release_node_def t'_def)
  moreover have "holds t' (pt_root t') None (prune a s)"
    using unlink_leaf [OF assms(4) b(1) bn _ assms(1,2) a assms(7), of t'] by (simp add: t'_def)
  ultimately show ?thesis
    using holds_leaf [OF assms(1) a assms(2,4-6)] bn by (auto simp: t'_def)
qed

text \<open>Removing the key of the root, when the root has at most one child, frees the root but leaves the root pointer: every later use of the tree follows a pointer
  to released memory.\<close>

theorem remove_root_dangles:
  assumes "pt_root t = Some r" and "pt_nodes t r = Some n" and "cmp (n_key n) (n_klen n) k klen = 0" and "n_parent n = None"
    and "n_left n = None \<or> n_right n = None"
    and "\<forall>c\<in>set_option (n_left n) \<union> set_option (n_right n). c \<noteq> r \<and> pt_nodes t c \<noteq> None"
  shows "\<exists>t'. rbt_remove (Suc fuel) cmp k klen t = Inr (Some (n_value n), t') \<and> pt_root t' = Some r \<and>
    find_at (Suc fuel) cmp t' (pt_root t') k' klen' = Inl Bad_Pointer"
proof -
  have f: "find_at (Suc fuel) cmp t (pt_root t) k klen = Inr (Some r)" using assms(1-3) by (simp add: node_at_def)
  have one: "\<exists>t'. remove_one (Suc fuel) r c n t = Inr (n_value n, t') \<and> pt_root t' = Some r \<and> pt_nodes t' r = None"
    if "c \<noteq> r" "pt_nodes t c = Some m" for c m
    using that assms(1,2,4) by (auto simp: remove_one_def upd_node_def node_at_def red_at_def release_node_def)
  have "\<exists>t'. rbt_remove (Suc fuel) cmp k klen t = Inr (Some (n_value n), t') \<and> pt_root t' = Some r \<and> pt_nodes t' r = None"
  proof (cases "n_left n")
    case None
    show ?thesis
    proof (cases "n_right n")
      case None
      with \<open>n_left n = None\<close> assms f show ?thesis by (simp add: rbt_remove_def node_at_def remove_leaf_def release_node_def del: find_at.simps)
    next
      case (Some c)
      with assms(6) obtain m where "c \<noteq> r" "pt_nodes t c = Some m" by auto
      from one [OF this] Some \<open>n_left n = None\<close> f assms(2) show ?thesis by (auto simp: rbt_remove_def node_at_def simp del: find_at.simps)
    qed
  next
    case (Some c)
    with assms(5,6) obtain m where "c \<noteq> r" "pt_nodes t c = Some m" "n_right n = None" by auto
    with one [of c m] Some f assms(2) show ?thesis by (auto simp: rbt_remove_def node_at_def simp del: find_at.simps)
  qed
  then show ?thesis by (auto simp: node_at_def)
qed

text \<open>A sample tree: one-byte keys, each the address of its node. Node 5 is the left child of node 6, which stands right of 4.\<close>

definition sample_cmp :: key_cmp where
  "sample_cmp k1 l1 k2 l2 = uint (hd k1) - uint (hd k2)"

definition sample_node :: "nat \<Rightarrow> rbt_color \<Rightarrow> nat option \<Rightarrow> nat option \<Rightarrow> nat option \<Rightarrow> nat pnode" where
  "sample_node a c l r p = \<lparr>n_color = c, n_key = [of_nat a], n_klen = 1, n_value = a, n_left = l, n_right = r, n_parent = p\<rparr>"

definition sample_tree :: "nat ptree" where
  "sample_tree = \<lparr>pt_nodes = (\<lambda>_. None)
     (8 \<mapsto> sample_node 8 RBTREE_COLOR_BLACK (Some 4) (Some 12) None,
      4 \<mapsto> sample_node 4 RBTREE_COLOR_RED (Some 2) (Some 6) (Some 8),
      12 \<mapsto> sample_node 12 RBTREE_COLOR_BLACK None None (Some 8),
      2 \<mapsto> sample_node 2 RBTREE_COLOR_BLACK None None (Some 4),
      6 \<mapsto> sample_node 6 RBTREE_COLOR_BLACK (Some 5) None (Some 4),
      5 \<mapsto> sample_node 5 RBTREE_COLOR_RED None None (Some 6)), pt_root = Some 8, pt_size = 6, pt_prevnext = 0\<rparr>"

definition sample_shape :: shape where
  "sample_shape = Nd (Nd (Nd Lf 2 Lf) 4 (Nd (Nd Lf 5 Lf) 6 Lf)) 8 (Nd Lf 12 Lf)"

lemma sample_holds: "holds sample_tree (pt_root sample_tree) None sample_shape" "distinct (addrs sample_shape)"
  by (simp_all add: sample_tree_def sample_shape_def sample_node_def)

theorem remove_leaf_exact_witness:
  "\<exists>t'. rbt_remove 9 sample_cmp [12] 1 sample_tree = Inr (Some 12, t') \<and> holds t' (pt_root t') None (prune 12 sample_shape) \<and>
    addrs (prune 12 sample_shape) = [2, 4, 5, 6, 8] \<and> pt_size t' = 5"
proof -
  have f: "find_at 9 sample_cmp sample_tree (pt_root sample_tree) [12] 1 = Inr (Some 12)" by code_simp
  have n: "pt_nodes sample_tree 12 = Some (sample_node 12 RBTREE_COLOR_BLACK None None (Some 8))" by (simp add: sample_tree_def)
  have "n_left (sample_node 12 RBTREE_COLOR_BLACK None None (Some 8)) = None" "n_right (sample_node 12 RBTREE_COLOR_BLACK None None (Some 8)) = None"
    "pt_root sample_tree \<noteq> Some 12" "pt_size sample_tree = 6" "n_value (sample_node 12 RBTREE_COLOR_BLACK None None (Some 8)) = 12"
    by (simp_all add: sample_node_def sample_tree_def)
  with remove_leaf_exact [OF sample_holds f n] show ?thesis by (auto simp: sample_shape_def)
qed

definition single_tree :: "nat ptree" where
  "single_tree = \<lparr>pt_nodes = (\<lambda>_. None)(3 \<mapsto> sample_node 3 RBTREE_COLOR_BLACK None None None), pt_root = Some 3, pt_size = 1, pt_prevnext = 0\<rparr>"

theorem remove_root_dangles_witness:
  "\<exists>t'. rbt_remove (Suc 4) sample_cmp [3] 1 single_tree = Inr (Some 3, t') \<and> pt_root t' = Some 3 \<and>
    find_at (Suc 4) sample_cmp t' (pt_root t') [7] 1 = Inl Bad_Pointer"
  using remove_root_dangles [of single_tree 3 "sample_node 3 RBTREE_COLOR_BLACK None None None" sample_cmp "[3]" 1 4 "[7]" 1]
  by (simp add: single_tree_def sample_node_def sample_cmp_def)

text \<open>Removing a node with two children hangs the subtree of its neighbour below the right node but tells it a wrong parent. In the sample tree, removing 8 and
  then 5 loses 12, and the search for 5 uses a released node.\<close>

theorem remove_two_wrong_parent:
  "\<exists>t1 t2. rbt_remove 9 sample_cmp [8] 1 sample_tree = Inr (Some 8, t1) \<and> rbt_remove 9 sample_cmp [5] 1 t1 = Inr (Some 5, t2) \<and>
    find_at 9 sample_cmp t1 (pt_root t1) [12] 1 = Inr (Some 12) \<and>
    find_at 9 sample_cmp t2 (pt_root t2) [12] 1 = Inr None \<and> find_at 9 sample_cmp t2 (pt_root t2) [5] 1 = Inl Bad_Pointer"
proof -
  let ?look = "\<lambda>t. (find_at 9 sample_cmp t (pt_root t) [12] 1, find_at 9 sample_cmp t (pt_root t) [5] 1)"
  have "ebind (rbt_remove 9 sample_cmp [8] 1 sample_tree) (\<lambda>(v1, t1). ebind (rbt_remove 9 sample_cmp [5] 1 t1) (\<lambda>(v2, t2).
      Inr (v1, v2, ?look t1, ?look t2))) =
      Inr (Some 8, Some 5, (Inr (Some 12), Inr (Some 5)), (Inr None, Inl Bad_Pointer))"
    by code_simp
  then show ?thesis by (auto simp: ebind_eq_Inr split: prod.splits)
qed

end
