(* ===== verification/Query_Utils.thy ===== *)
theory Query_Utils
  imports String_Utils "HOL-Library.Signed_Division"
begin

text \<open>
  Lists of tags, src/src/utils/query_utils.c: a list \<^verbatim>\<open>k1=v1,k2=v2\<close> is split by \<^verbatim>\<open>strtok\<close>, and keys and values are matched against patterns.

  \<^verbatim>\<open>get_key\<close> and \<^verbatim>\<open>get_value\<close> return what \<open>substring\<close> does: a buffer as long as the part, with no room for a terminator. Reading such a buffer
  as a C string leaves it when its end is reached; \<open>strcmp_buf\<close> follows \<^verbatim>\<open>strcmp\<close> byte by byte, since it stops at the first difference.
\<close>

section \<open>Keys and values\<close>

definition get_key :: "cstring option \<Rightarrow> byte \<Rightarrow> c_error + byte list option" where
  "get_key kv_pair delim =
     ebind (deref kv_pair) (\<lambda>kv. let idx = indexOf kv delim in if idx < 0 then Inr None else subrstr kv idx)"

definition get_value :: "cstring option \<Rightarrow> byte \<Rightarrow> c_error + byte list option" where
  "get_value kv_pair delim =
     ebind (deref kv_pair) (\<lambda>kv. let idx = indexOf kv delim in if idx < 0 then Inr None else substr kv (idx + 1))"

text \<open>\<^verbatim>\<open>gen_tags\<close> starts from \<^verbatim>\<open>ret = NULL\<close>; each round copies the tags so far and appends one.\<close>

primrec gen_tags_loop :: "nat \<Rightarrow> nat \<Rightarrow> int \<Rightarrow> cstring option \<Rightarrow> c_error + cstring option" where
  "gen_tags_loop 0 j obj_id ret = Inr ret"
| "gen_tags_loop (Suc n) j obj_id ret =
     ebind (deref ret) (\<lambda>fspace.
       gen_tags_loop n (Suc j) obj_id
         (Some (fspace @ str ''tag'' @ dec_int (int j) @ str ''='' @ dec_int obj_id @ dec_int (int j) @ str '','')))"

definition gen_tags :: "c_int \<Rightarrow> c_error + cstring" where
  "gen_tags obj_id =
     ebind (gen_tags_loop (nat (sint obj_id smod 20 + 1)) 0 (sint obj_id) None) (\<lambda>ret. ebind (deref ret) (\<lambda>s. Inr (butlast s)))"

primrec gen_tags_rounds :: "nat \<Rightarrow> nat \<Rightarrow> c_error + unit" where
  "gen_tags_rounds 0 i = Inr ()"
| "gen_tags_rounds (Suc n) i = ebind (gen_tags (of_nat (i mod 20))) (\<lambda>_. gen_tags_rounds n (Suc i))"

definition gen_tags_in_loop :: "c_error + unit" where
  "gen_tags_in_loop = gen_tags_rounds 1000 0"

section \<open>Matching\<close>

text \<open>\<^verbatim>\<open>strtok\<close>: the next part between delimiters, and what is left of the string.\<close>

definition strtok :: "byte \<Rightarrow> cstring \<Rightarrow> (cstring \<times> cstring) option" where
  "strtok d s =
     (let s1 = dropWhile (\<lambda>b. b = d) s
      in if s1 = [] then None else Some (takeWhile (\<lambda>b. b \<noteq> d) s1, drop 1 (dropWhile (\<lambda>b. b \<noteq> d) s1)))"

lemma strtok_shorter [termination_simp]: "strtok d s = Some (tok, rest) \<Longrightarrow> length rest < length s"
proof -
  assume t: "strtok d s = Some (tok, rest)"
  let ?s1 = "dropWhile (\<lambda>b. b = d) s"
  define n where "n = length (dropWhile (\<lambda>b. b \<noteq> d) ?s1)"
  have s1: "?s1 \<noteq> []" and r: "length rest = n - 1" using t by (auto simp: strtok_def Let_def n_def split: if_splits)
  have "n \<le> length ?s1" "length ?s1 \<le> length s" unfolding n_def by (rule length_dropWhile_le)+
  moreover have "0 < length s" using s1 by (cases s) auto
  ultimately show ?thesis unfolding r by arith
qed

fun strcmp_buf :: "byte list \<Rightarrow> byte list \<Rightarrow> c_error + bool" where
  "strcmp_buf [] bs = Inr True"
| "strcmp_buf (x # p) [] = Inl Out_Of_Bounds"
| "strcmp_buf (x # p) (b # bs) = (if x = b then strcmp_buf p bs else Inr False)"

text \<open>\<^verbatim>\<open>simple_matches\<close> with a subject that is a buffer.\<close>

definition buf_matches :: "byte list option \<Rightarrow> cstring \<Rightarrow> c_error + bool" where
  "buf_matches subject pattern =
     (case subject of
        None \<Rightarrow> Inr False
      | Some buf \<Rightarrow>
          (case determine_pattern_type pattern of
             PATTERN_EXACT \<Rightarrow> strcmp_buf (pattern @ [0]) buf
           | _ \<Rightarrow> ebind (read_cstr buf) (\<lambda>s. simple_matches (Some s) (Some pattern))))"

function k_v_loop :: "cstring \<Rightarrow> cstring \<Rightarrow> cstring option \<Rightarrow> c_error + cstring option" where
  "k_v_loop rest key_pattern value_pattern =
     (case strtok 44 rest of
        None \<Rightarrow> Inr None
      | Some (tag_kv, rest') \<Rightarrow>
          if strchr_from 0 tag_kv 61 = None then k_v_loop rest' key_pattern value_pattern
          else ebind (get_key (Some tag_kv) 61) (\<lambda>key. ebind (get_value (Some tag_kv) 61) (\<lambda>value.
               ebind (buf_matches key key_pattern) (\<lambda>is_key_matched.
               ebind (case value_pattern of None \<Rightarrow> Inr False | Some p \<Rightarrow> buf_matches value p) (\<lambda>is_value_matched.
                 if (case value_pattern of None \<Rightarrow> is_key_matched | Some _ \<Rightarrow> is_key_matched \<and> is_value_matched)
                 then Inr (Some tag_kv) else k_v_loop rest' key_pattern value_pattern)))))"
  by pat_completeness auto
termination
  by (relation "measure (\<lambda>(rest, _, _). length rest)") (auto dest: strtok_shorter)

declare k_v_loop.simps [simp del]

definition k_v_matches_p :: "cstring option \<Rightarrow> cstring option \<Rightarrow> cstring option \<Rightarrow> c_error + cstring option" where
  "k_v_matches_p tagslist key_pattern value_pattern =
     (case (tagslist, key_pattern) of
        (Some tags, Some key) \<Rightarrow> k_v_loop tags key value_pattern
      | _ \<Rightarrow> Inr None)"

definition has_tag_p :: "cstring option \<Rightarrow> cstring option \<Rightarrow> c_error + bool" where
  "has_tag_p tagslist pattern = ebind (k_v_matches_p tagslist pattern None) (\<lambda>kv. Inr (kv \<noteq> None))"

definition has_tag :: "cstring option \<Rightarrow> cstring option \<Rightarrow> c_error + bool" where
  "has_tag tagslist tagname = has_tag_p tagslist tagname"

definition is_value_match_p :: "cstring option \<Rightarrow> cstring option \<Rightarrow> cstring option \<Rightarrow> c_error + bool" where
  "is_value_match_p tagslist tagname pattern = ebind (k_v_matches_p tagslist tagname pattern) (\<lambda>kv. Inr (kv \<noteq> None))"

definition is_value_match :: "cstring option \<Rightarrow> cstring option \<Rightarrow> cstring option \<Rightarrow> c_error + bool" where
  "is_value_match tagslist tagname val = is_value_match_p tagslist tagname val"

text \<open>\<^verbatim>\<open>atoi\<close> on a buffer: white space, a sign, digits up to the first other byte.\<close>

fun digits_buf :: "int \<Rightarrow> byte list \<Rightarrow> c_error + int" where
  "digits_buf n [] = Inl Out_Of_Bounds"
| "digits_buf n (b # bs) = (if 48 \<le> b \<and> b \<le> 57 then digits_buf (10 * n + (uint b - 48)) bs else Inr n)"

definition atoi_buf :: "byte list \<Rightarrow> c_error + int" where
  "atoi_buf buf =
     (case dropWhile (\<lambda>b. b = 32 \<or> 9 \<le> b \<and> b \<le> 13) buf of
        b # bs \<Rightarrow> if b = 45 then ebind (digits_buf 0 bs) (\<lambda>n. Inr (- n)) else if b = 43 then digits_buf 0 bs else digits_buf 0 (b # bs)
      | [] \<Rightarrow> Inl Out_Of_Bounds)"

definition is_value_in_range :: "cstring option \<Rightarrow> cstring option \<Rightarrow> int \<Rightarrow> int \<Rightarrow> c_error + bool" where
  "is_value_in_range tagslist tagname from to =
     ebind (k_v_matches_p tagslist tagname None) (\<lambda>matched_kv.
     ebind (get_value matched_kv 61) (\<lambda>value.
     ebind (deref value) (\<lambda>buf.
     ebind (atoi_buf buf) (\<lambda>v. Inr (from \<le> v \<and> v \<le> to)))))"

section \<open>Laws\<close>

lemma strchr_from_at: "c \<notin> set k \<Longrightarrow> strchr_from i (k @ c # v) c = Some (i + length k)"
  by (induction k arbitrary: i) auto

lemma get_key_pair: "61 \<notin> set k \<Longrightarrow> get_key (Some (k @ 61 # v)) 61 = Inr (Some k)"
  by (simp add: get_key_def indexOf_def strchr_from_at subrstr_def substring_def Let_def)

lemma get_value_pair: "61 \<notin> set k \<Longrightarrow> get_value (Some (k @ 61 # v)) 61 = Inr (Some v)"
  by (simp add: get_value_def indexOf_def strchr_from_at substr_def substring_def Let_def nat_add_distrib)

lemma strtok_first: "t \<noteq> [] \<Longrightarrow> d \<notin> set t \<Longrightarrow> strtok d (t @ d # r) = Some (t, r)"
  by (cases t) (auto simp: strtok_def takeWhile_append dropWhile_append)

lemma strtok_last: "t \<noteq> [] \<Longrightarrow> d \<notin> set t \<Longrightarrow> strtok d t = Some (t, [])"
proof -
  assume t: "t \<noteq> []" "d \<notin> set t"
  have e: "dropWhile (\<lambda>b. b = d) t = t" using t by (cases t) auto
  have n: "dropWhile (\<lambda>b. b \<noteq> d) t = []" using t by (auto simp: dropWhile_eq_Nil_conv)
  have a: "takeWhile (\<lambda>b. b \<noteq> d) t = t" using t by (auto simp: takeWhile_eq_all_conv)
  show ?thesis unfolding strtok_def Let_def e n a using t(1) by simp
qed

text \<open>Comparing a name with a key that has no terminator either finds a difference or leaves the key.\<close>

lemma strcmp_buf_key: "0 \<notin> set k \<Longrightarrow> strcmp_buf (p @ [0]) k = (if prefix k p then Inl Out_Of_Bounds else Inr False)"
proof (induction p arbitrary: k)
  case Nil
  then show ?case by (cases k) auto
next
  case (Cons x p)
  then show ?case by (cases k) auto
qed

text \<open>A list of tags, written out.\<close>

fun tag_string :: "(cstring \<times> cstring) list \<Rightarrow> cstring" where
  "tag_string [] = []"
| "tag_string [(k, v)] = k @ 61 # v"
| "tag_string ((k, v) # kvs) = k @ 61 # v @ 44 # tag_string kvs"

definition clean_tag :: "cstring \<times> cstring \<Rightarrow> bool" where
  "clean_tag kv \<longleftrightarrow> 0 \<notin> set (fst kv) \<and> 61 \<notin> set (fst kv) \<and> 44 \<notin> set (fst kv) \<and> 44 \<notin> set (snd kv)"

lemma strtok_tags:
  assumes "clean_tag (k, v)"
  shows "strtok 44 (tag_string ((k, v) # kvs)) = Some (k @ 61 # v, tag_string kvs)"
proof (cases kvs)
  case Nil
  then show ?thesis using assms strtok_last [of "k @ 61 # v" 44] by (simp add: clean_tag_def)
next
  case (Cons kv r)
  then show ?thesis
    using assms strtok_first [of "k @ 61 # v" 44 "tag_string kvs"] by (cases kv) (simp add: clean_tag_def)
qed

lemma key_match:
  assumes "clean_tag (k, v)" and "determine_pattern_type p = PATTERN_EXACT"
  shows "buf_matches (Some k) p = (if prefix k p then Inl Out_Of_Bounds else Inr False)"
  using assms by (simp add: buf_matches_def strcmp_buf_key clean_tag_def)

lemma k_v_loop_tags:
  assumes "\<forall>kv\<in>set kvs. clean_tag kv" and "determine_pattern_type p = PATTERN_EXACT"
  shows "k_v_loop (tag_string kvs) p None = (if \<exists>(k, v)\<in>set kvs. prefix k p then Inl Out_Of_Bounds else Inr None)"
  using assms(1)
proof (induction kvs)
  case Nil
  show ?case by (subst k_v_loop.simps) (simp add: strtok_def)
next
  case (Cons kv kvs)
  obtain k v where kv: "kv = (k, v)" by force
  have c: "clean_tag (k, v)" and "61 \<notin> set k" using Cons.prems kv by (auto simp: clean_tag_def)
  then show ?case
    using Cons kv
    by (subst k_v_loop.simps) (auto simp: strtok_tags [OF c] strchr_from_at get_key_pair get_value_pair key_match [OF c assms(2)])
qed

section \<open>Properties\<close>

text \<open>No tag is ever found by its name: on a list of tags the search leaves the buffer of the first key that is the name or the beginning of it, and
  without such a key the answer is that there is none. The value of a tag is never in any range.\<close>

theorem tags_never_found:
  assumes "\<forall>kv\<in>set kvs. clean_tag kv" and "determine_pattern_type p = PATTERN_EXACT"
  shows "has_tag (Some (tag_string kvs)) (Some p) = (if \<exists>(k, v)\<in>set kvs. prefix k p then Inl Out_Of_Bounds else Inr False) \<and>
    (\<exists>e. is_value_in_range (Some (tag_string kvs)) (Some p) from to = Inl e)"
  using k_v_loop_tags [OF assms]
  by (auto simp: has_tag_def has_tag_p_def k_v_matches_p_def is_value_in_range_def get_value_def)

theorem tags_never_found_witness:
  "has_tag (Some (tag_string [(str ''a'', str ''1''), (str ''b'', str ''2'')])) (Some (str ''b'')) = Inl Out_Of_Bounds \<and>
   (\<exists>e. is_value_in_range (Some (tag_string [(str ''a'', str ''1''), (str ''b'', str ''2'')])) (Some (str ''b'')) 0 9 = Inl e)"
proof -
  let ?kvs = "[(str ''a'', str ''1''), (str ''b'', str ''2'')]"
  have "\<forall>kv\<in>set ?kvs. clean_tag kv" "determine_pattern_type (str ''b'') = PATTERN_EXACT" "\<exists>(k, v)\<in>set ?kvs. prefix k (str ''b'')"
    by code_simp+
  then show ?thesis using tags_never_found [of ?kvs "str ''b''" 0 9] by simp
qed

text \<open>The generator of sample tags always starts by copying from a null pointer.\<close>

theorem gen_tags_crashes: "gen_tags obj_id = Inl Null_Deref \<and> gen_tags_in_loop = Inl Null_Deref"
proof -
  have g: "gen_tags i = Inl Null_Deref" for i by (cases "nat (sint i smod 20 + 1)") (simp_all add: gen_tags_def)
  moreover have "gen_tags_rounds (Suc 999) 0 = Inl Null_Deref" unfolding gen_tags_rounds.simps(2) g by simp
  then have "gen_tags_in_loop = Inl Null_Deref" by (simp add: gen_tags_in_loop_def del: gen_tags_rounds.simps)
  ultimately show ?thesis by simp
qed

end
