(* ===== verification/Make_Path.thy ===== *)
theory Make_Path
  imports Miqs_Prelude
begin

unbundle bit_operations_syntax

text \<open>
  The file helpers of src/src/utils/fs/fs_ops.c beside the traversal: \<^verbatim>\<open>mkpath\<close>, which makes a directory with everything above it, and the
  tests of files.

  The file system is a parameter: \<open>mkd\<close> is \<^verbatim>\<open>mkdir\<close> with the error it sets, \<open>stat_of\<close> is what \<^verbatim>\<open>stat\<close> fills in, mode and size, or \<open>None\<close> when it fails.
  \<^verbatim>\<open>dirname\<close> is that of the GNU C library. \<^verbatim>\<open>errno\<close> is a part of the state, and \<^verbatim>\<open>free\<close> keeps it.
\<close>

section \<open>Tests of files\<close>

text \<open>\<^verbatim>\<open>is_regular_file\<close> does not look at the result of \<^verbatim>\<open>stat\<close>: when it fails, the mode is what the stack holds.\<close>

definition is_regular_file :: "(cstring \<Rightarrow> (32 word \<times> size_t) option) \<Rightarrow> 32 word \<Rightarrow> cstring \<Rightarrow> bool" where
  "is_regular_file stat_of stack path = ((case stat_of path of None \<Rightarrow> stack | Some (mode, _) \<Rightarrow> mode) AND 0xF000 = 0x8000)"

definition get_file_size :: "(cstring \<Rightarrow> (32 word \<times> size_t) option) \<Rightarrow> cstring \<Rightarrow> size_t" where
  "get_file_size stat_of filename = (case stat_of filename of None \<Rightarrow> 0 | Some (_, n) \<Rightarrow> n)"

definition dir_exists :: "(cstring \<Rightarrow> bool) \<Rightarrow> cstring \<Rightarrow> int" where
  "dir_exists can_open dirname = (if can_open dirname then 1 else 0)"

section \<open>Paths\<close>

definition strip_slashes :: "cstring \<Rightarrow> cstring" where
  "strip_slashes s = rev (dropWhile (\<lambda>b. b = 47) (rev s))"

text \<open>
  \<^verbatim>\<open>dirname\<close> of the GNU C library. Slashes at the end are left out unless there is nothing else; then everything from the last slash on goes,
  with the slashes before it. Where nothing but slashes is left, the result is \<^verbatim>\<open>/\<close>, but \<^verbatim>\<open>//\<close> where there are exactly two of them, a case
  that POSIX leaves to the implementation.
\<close>

definition dirname :: "cstring \<Rightarrow> cstring" where
  "dirname s =
     (let s1 = (if strip_slashes s = [] then s else strip_slashes s);
          upto = rev (dropWhile (\<lambda>b. b \<noteq> 47) (rev s1));
          up = strip_slashes upto
      in if 47 \<notin> set s1 then [46]
         else if up \<noteq> [] then up
         else if length upto = 2 then [47, 47] else [47])"

datatype errno = EEXIST | Other_Error

text \<open>The result, the error number and the file system. Allocation succeeds and \<^verbatim>\<open>dirname\<close> does not return NULL; \<open>None\<close> is a call that does not return.\<close>

partial_function (option) mkpath ::
  "(cstring \<Rightarrow> 'f \<Rightarrow> errno option \<times> 'f) \<Rightarrow> cstring \<Rightarrow> errno \<Rightarrow> 'f \<Rightarrow> (int \<times> errno \<times> 'f) option" where
  "mkpath mkd s err f =
     (if s = [46] \<or> s = [47] then Some (0, err, f)
      else Option.bind (mkpath mkd (dirname s) err f) (\<lambda>(rc, err1, f1).
           if rc = - 1 \<and> err1 \<noteq> EEXIST then Some (- 1, err1, f1)
           else case mkd s f1 of
                  (None, f2) \<Rightarrow> Some (0, err1, f2)
                | (Some e, f2) \<Rightarrow> Some (if e \<noteq> EEXIST then - 1 else 0, e, f2)))"

section \<open>The paths above a path\<close>

text \<open>
  From left to right: \<open>seen\<close> is what was read of the path. Before a slash that follows something else, and has something else behind it, a directory ends.
\<close>

fun above :: "cstring \<Rightarrow> cstring \<Rightarrow> cstring list" where
  "above seen [] = []"
| "above seen (b # rest) =
     (if b = 47 \<and> seen \<noteq> [] \<and> last seen \<noteq> 47 \<and> (\<exists>c \<in> set rest. c \<noteq> 47) then [seen] else []) @ above (seen @ [b]) rest"

text \<open>The directories that lead to a path, from the top, and the path itself; \<^verbatim>\<open>.\<close> and \<^verbatim>\<open>/\<close> are there.\<close>

definition lead_to :: "cstring \<Rightarrow> cstring list" where
  "lead_to s = filter (\<lambda>p. p \<noteq> [46] \<and> p \<noteq> [47]) (above [] s @ [s])"

text \<open>Paths that begin with exactly two slashes.\<close>

definition two_slashes :: "cstring \<Rightarrow> bool" where
  "two_slashes s \<longleftrightarrow> (\<exists>r. s = 47 # 47 # r \<and> (r = [] \<or> hd r \<noteq> 47))"

text \<open>A path that does not consist of slashes only: what leads up to its last name, slashes, the name, slashes.\<close>

lemma path_parts:
  fixes s :: cstring
  assumes "\<exists>c \<in> set s. c \<noteq> 47"
  obtains q n name m where "s = q @ replicate n 47 @ name @ replicate m 47" and "name \<noteq> []" and "47 \<notin> set name"
    and "q = [] \<or> last q \<noteq> 47" and "q \<noteq> [] \<longrightarrow> 0 < n"
proof -
  have slashes: "\<exists>n. takeWhile (\<lambda>b. b = 47) xs = replicate n (47 :: byte)" for xs
    by (metis (full_types) replicate_length_same set_takeWhileD)
  define t1 where "t1 = dropWhile (\<lambda>b. b = 47) (rev s)"
  define t2 where "t2 = dropWhile (\<lambda>b. b \<noteq> 47) t1"
  define t3 where "t3 = dropWhile (\<lambda>b. b = 47) t2"
  obtain m where m: "takeWhile (\<lambda>b. b = 47) (rev s) = replicate m 47" using slashes by blast
  obtain n where n: "takeWhile (\<lambda>b. b = 47) t2 = replicate n 47" using slashes by blast
  have "rev s = replicate m 47 @ takeWhile (\<lambda>b. b \<noteq> 47) t1 @ replicate n 47 @ t3"
    unfolding m [symmetric] n [symmetric] t1_def t2_def t3_def by simp
  then have s: "s = rev t3 @ replicate n 47 @ rev (takeWhile (\<lambda>b. b \<noteq> 47) t1) @ replicate m 47"
    by (metis rev_append rev_replicate rev_rev_ident append.assoc)
  have t1: "t1 \<noteq> []" "hd t1 \<noteq> 47" using assms hd_dropWhile [of "\<lambda>b. b = 47" "rev s"] by (auto simp: t1_def dropWhile_eq_Nil_conv)
  have "takeWhile (\<lambda>b. b \<noteq> 47) t1 \<noteq> []" using t1 by (cases t1) auto
  moreover have "47 \<notin> set (takeWhile (\<lambda>b. b \<noteq> 47) t1)" by (auto dest: set_takeWhileD)
  moreover have "rev t3 = [] \<or> last (rev t3) \<noteq> 47" using hd_dropWhile [of "\<lambda>b. b = 47" t2] by (auto simp: t3_def last_rev)
  moreover have "0 < n" if "rev t3 \<noteq> []"
  proof (rule ccontr)
    assume "\<not> 0 < n"
    then have "takeWhile (\<lambda>b. b = 47) t2 = []" using n by simp
    moreover have "t2 \<noteq> []" using that by (auto simp: t3_def)
    ultimately have "hd t2 \<noteq> 47" by (cases t2) (auto split: if_splits)
    moreover have "hd t2 = 47" using hd_dropWhile [of "\<lambda>b. b \<noteq> 47" t1] \<open>t2 \<noteq> []\<close> by (simp add: t2_def)
    ultimately show False by simp
  qed
  ultimately show ?thesis using that [OF s] by simp
qed

lemma strip_replicate: "q = [] \<or> last q \<noteq> 47 \<Longrightarrow> strip_slashes (q @ replicate n 47) = q"
  by (cases q rule: rev_cases) (auto simp: strip_slashes_def dropWhile_append)

lemma dirname_parts:
  assumes "name \<noteq> []" and "47 \<notin> set name" and "q = [] \<or> last q \<noteq> 47" and "q \<noteq> [] \<longrightarrow> 0 < n"
  shows "dirname (q @ replicate n 47 @ name @ replicate m 47) =
    (if n = 0 then [46] else if q \<noteq> [] then q else if n = 2 then [47, 47] else [47])"
proof -
  let ?s1 = "q @ replicate n 47 @ name"
  have "last ?s1 \<noteq> 47" using assms(1,2) by (metis append_is_Nil_conv last_appendR last_in_set)
  then have s1: "strip_slashes (q @ replicate n 47 @ name @ replicate m 47) = ?s1"
    using strip_replicate [of ?s1 m] by simp
  have "dropWhile (\<lambda>b. b \<noteq> 47) (rev name @ replicate n 47 @ rev q) = (if n = 0 then dropWhile (\<lambda>b. b \<noteq> 47) (rev q) else replicate n 47 @ rev q)"
    using assms(2) by (cases n) (auto simp: dropWhile_append3 dropWhile_append)
  then have up: "rev (dropWhile (\<lambda>b. b \<noteq> 47) (rev ?s1)) = (if n = 0 then rev (dropWhile (\<lambda>b. b \<noteq> 47) (rev q)) else q @ replicate n 47)"
    by simp
  show ?thesis
  proof (cases "n = 0")
    case True
    then have "q = []" using assms(4) by auto
    then show ?thesis using assms(1,2) s1 True by (simp add: dirname_def Let_def)
  next
    case False
    then have u: "rev (dropWhile (\<lambda>b. b \<noteq> 47) (rev ?s1)) = q @ replicate n 47" using up by simp
    have ne: "?s1 \<noteq> []" and mem: "47 \<in> set ?s1" using assms(1) False by auto
    show ?thesis
      unfolding dirname_def Let_def s1 if_not_P [OF ne] u strip_replicate [OF assms(3), of n] using False mem by simp
  qed
qed

lemma dirname_slashes: "dirname (replicate n 47) = (if n = 0 then [46] else if n = 2 then [47, 47] else [47])"
proof -
  have "strip_slashes (replicate k 47) = []" for k using strip_replicate [of "[]" k] by simp
  moreover have "dropWhile (\<lambda>b. b \<noteq> 47) (replicate n (47 :: byte)) = replicate n 47" by (cases n) auto
  ultimately show ?thesis by (auto simp: dirname_def Let_def)
qed

lemma above_append:
  "q = [] \<or> last q \<noteq> 47 \<Longrightarrow> \<exists>c \<in> set rest. c \<noteq> 47 \<Longrightarrow> above seen (q @ rest) = above seen q @ above (seen @ q) rest"
proof (induction q arbitrary: seen)
  case (Cons b q)
  show ?case
  proof (cases "q = []")
    case False
    then have "last q \<noteq> 47" "\<exists>c \<in> set q. c \<noteq> 47" using Cons.prems(1) last_in_set by auto
    then show ?thesis using Cons.IH [of "seen @ [b]"] Cons.prems(2) by auto
  qed (use Cons.prems in simp)
qed simp

lemma above_slashes: "seen = [] \<or> last seen = 47 \<Longrightarrow> above seen (replicate n 47 @ rest) = above (seen @ replicate n 47) rest"
  by (induction n arbitrary: seen) auto

lemma above_name: "47 \<notin> set name \<Longrightarrow> above seen (name @ rest) = above (seen @ name) rest"
  by (induction name arbitrary: seen) auto

lemma above_end: "above seen (replicate m 47) = []"
  by (induction m arbitrary: seen) auto

lemma above_parts:
  assumes "name \<noteq> []" and "47 \<notin> set name" and "q = [] \<or> last q \<noteq> 47" and "q \<noteq> [] \<longrightarrow> 0 < n"
  shows "above [] (q @ replicate n 47 @ name @ replicate m 47) = above [] q @ (if q = [] then [] else [q])"
proof -
  let ?rest = "replicate n 47 @ name @ replicate m 47"
  have some: "\<exists>c \<in> set name. c \<noteq> 47" using assms(1,2) by (metis hd_in_set)
  then have "above [] (q @ ?rest) = above [] q @ above q ?rest" using above_append [OF assms(3), of ?rest "[]"] by auto
  moreover have name: "above seen (name @ replicate m 47) = []" for seen using above_name [OF assms(2)] above_end by simp
  moreover have "above q ?rest = (if q = [] then [] else [q])"
  proof (cases "q = []")
    case True
    then show ?thesis using above_slashes [of "[]" n] name by simp
  next
    case False
    then obtain n' where "n = Suc n'" using assms(4) gr0_implies_Suc by blast
    then show ?thesis using False assms(3) some above_slashes [of "q @ [47]" n' "name @ replicate m 47"] name by auto
  qed
  ultimately show ?thesis by simp
qed

lemma lead_to_parts:
  assumes "name \<noteq> []" and "47 \<notin> set name" and "q = [] \<or> last q \<noteq> 47" and "q \<noteq> [] \<longrightarrow> 0 < n"
    and "s = q @ replicate n 47 @ name @ replicate m 47" and "s \<noteq> [46]"
  shows "lead_to s = (if q = [] then [] else lead_to q) @ [s]"
proof -
  have "s \<noteq> [47]" using assms(1,2,5) by (auto simp: append_eq_Cons_conv)
  then show ?thesis using above_parts [OF assms(1-4), of m] assms(5,6) by (simp add: lead_to_def)
qed

lemma lead_to_stop: "lead_to [46] = []" "lead_to [47] = []"
  by (simp_all add: lead_to_def)

section \<open>What it makes\<close>

text \<open>Making directories one after the other, up to the first error; that one is already there is none.\<close>

fun make_all :: "(cstring \<Rightarrow> 'f \<Rightarrow> errno option \<times> 'f) \<Rightarrow> cstring list \<Rightarrow> 'f \<Rightarrow> bool \<times> 'f" where
  "make_all mkd [] f = (True, f)"
| "make_all mkd (p # ps) f = (case mkd p f of (e, f1) \<Rightarrow> if e = None \<or> e = Some EEXIST then make_all mkd ps f1 else (False, f1))"

lemma make_all_append: "make_all mkd (ps @ qs) f = (case make_all mkd ps f of (ok, f1) \<Rightarrow> if ok then make_all mkd qs f1 else (False, f1))"
  by (induction ps arbitrary: f) (auto split: prod.splits)

definition made :: "(cstring \<Rightarrow> 'f \<Rightarrow> errno option \<times> 'f) \<Rightarrow> cstring list \<Rightarrow> 'f \<Rightarrow> (int \<times> errno \<times> 'f) option \<Rightarrow> bool" where
  "made mkd ps f r \<longleftrightarrow> (\<exists>rc err f'. r = Some (rc, err, f') \<and> make_all mkd ps f = (rc = 0, f') \<and> (rc = 0 \<or> rc = - 1 \<and> err \<noteq> EEXIST))"

lemma mkpath_step:
  assumes "s \<noteq> [46]" and "s \<noteq> [47]" and "made mkd ps f (mkpath mkd (dirname s) err f)"
  shows "made mkd (ps @ [s]) f (mkpath mkd s err f)"
proof -
  obtain rc1 err1 f1 where r: "mkpath mkd (dirname s) err f = Some (rc1, err1, f1)" "make_all mkd ps f = (rc1 = 0, f1)"
      "rc1 = 0 \<or> rc1 = - 1 \<and> err1 \<noteq> EEXIST"
    using assms(3) by (auto simp: made_def)
  obtain e f2 where m: "mkd s f1 = (e, f2)" by (cases "mkd s f1")
  show ?thesis
    using assms(1,2) r m by (cases e) (auto simp: mkpath.simps [of mkd s] made_def make_all_append)
qed

lemma mkpath_stop: "made mkd [] f (mkpath mkd [46] err f)" "made mkd [] f (mkpath mkd [47] err f)"
  by (simp_all add: mkpath.simps made_def)

lemma two_slashes_prefix: "two_slashes q \<Longrightarrow> last q \<noteq> 47 \<Longrightarrow> two_slashes (q @ r)"
  by (auto simp: two_slashes_def neq_Nil_conv split: if_splits)

lemma mkpath_made: "\<not> two_slashes s \<Longrightarrow> made mkd (lead_to s) f (mkpath mkd s err f)"
proof (induction s arbitrary: f rule: length_induct)
  case (1 s)
  show ?case
  proof (cases "s = [46] \<or> s = [47]")
    case True
    then show ?thesis using mkpath_stop [of mkd f err] lead_to_stop by auto
  next
    case ne: False
    show ?thesis
    proof (cases "\<exists>c \<in> set s. c \<noteq> 47")
      case True
      then obtain q n name m where s: "s = q @ replicate n 47 @ name @ replicate m 47" and p: "name \<noteq> []" "47 \<notin> set name"
          "q = [] \<or> last q \<noteq> 47" "q \<noteq> [] \<longrightarrow> 0 < n"
        by (rule path_parts)
      have "made mkd (if q = [] then [] else lead_to q) f (mkpath mkd (dirname s) err f)"
      proof (cases "q = []")
        case q: True
        have h: "hd name \<noteq> 47" using p(1,2) hd_in_set by metis
        have "n \<noteq> 2"
        proof
          assume "n = 2"
          then have "two_slashes s" using s q p(1) h by (auto simp: two_slashes_def numeral_2_eq_2)
          then show False using 1(2) by simp
        qed
        then show ?thesis using q s dirname_parts [OF p, of m] mkpath_stop [of mkd f err] by simp
      next
        case False
        have "\<not> two_slashes q" using 1(2) p(3) False two_slashes_prefix s by blast
        moreover have "length q < length s" using s p(1) by simp
        ultimately show ?thesis using 1(1) False p(4) s dirname_parts [OF p, of m] by auto
      qed
      then show ?thesis using mkpath_step [of s mkd _ f err] ne lead_to_parts [OF p s] by simp
    next
      case False
      then obtain k where k: "s = replicate k 47" by (metis replicate_length_same)
      have "k \<noteq> 2" using 1(2) k by (auto simp: two_slashes_def numeral_2_eq_2)
      then have "made mkd [] f (mkpath mkd (dirname s) err f)" using k dirname_slashes [of k] mkpath_stop [of mkd f err] by simp
      then show ?thesis using mkpath_step [of s mkd "[]" f err] ne above_end [of "[]" k] k by (simp add: lead_to_def)
    qed
  qed
qed

lemma dirname_two_slashes: "two_slashes s \<Longrightarrow> two_slashes (dirname s)"
proof -
  assume "two_slashes s"
  then obtain r where r: "s = 47 # 47 # r" "r = [] \<or> hd r \<noteq> 47" by (auto simp: two_slashes_def)
  have d: "two_slashes [47, 47]" by (simp add: two_slashes_def)
  show ?thesis
  proof (cases "r = []")
    case True
    then show ?thesis using r dirname_slashes [of 2] d by (simp add: numeral_2_eq_2)
  next
    case False
    then have "\<exists>c \<in> set s. c \<noteq> 47" using r by (metis hd_in_set list.set_intros(2))
    then obtain q n name m where s: "s = q @ replicate n 47 @ name @ replicate m 47" and p: "name \<noteq> []" "47 \<notin> set name"
        "q = [] \<or> last q \<noteq> 47" "q \<noteq> [] \<longrightarrow> 0 < n"
      by (rule path_parts)
    show ?thesis
    proof (cases "q = []")
      case True
      have "n = 2"
      proof -
        have "takeWhile (\<lambda>b. b = 47) s = replicate n 47" using s p(1,2) True by (cases name) (auto simp: takeWhile_append)
        moreover have "takeWhile (\<lambda>b. b = 47) s = [47, 47]" using r False by (cases r) auto
        ultimately show ?thesis by (metis length_replicate length_Cons list.size(3) numeral_2_eq_2)
      qed
      then show ?thesis using True s dirname_parts [OF p, of m] d by simp
    next
      case q: False
      obtain q' where "q = 47 # 47 # q'" "q' \<noteq> []" "hd q' = hd r"
      proof (cases q)
        case (Cons a q1)
        then show ?thesis
        proof (cases q1)
          case Nil
          then show ?thesis using Cons p(3) r(1) s by simp
        next
          case (Cons b q2)
          then show ?thesis using that [of q2] \<open>q = a # q1\<close> p(3) r(1) s by (cases q2) auto
        qed
      qed (use q in simp)
      then have "two_slashes q" using r(2) False by (simp add: two_slashes_def)
      then show ?thesis using q p(4) s dirname_parts [OF p, of m] by simp
    qed
  qed
qed

lemma mkpath_two_slashes: "mkpath mkd s err f = Some y \<Longrightarrow> \<not> two_slashes s"
proof (rule mkpath.raw_induct [where P = "\<lambda>mkd s err f y. \<not> two_slashes s"])
  fix mkp mkd s err f y
  assume ih: "\<And>mkd s err f y. mkp mkd s err f = Some y \<Longrightarrow> \<not> two_slashes s"
    and r: "(if s = [46] \<or> s = [47] then Some (0, err, f)
      else Option.bind (mkp mkd (dirname s) err f) (\<lambda>(rc, err1, f1).
           if rc = - 1 \<and> err1 \<noteq> EEXIST then Some (- 1, err1, f1)
           else case mkd s f1 of
                  (None, f2) \<Rightarrow> Some (0, err1, f2)
                | (Some e, f2) \<Rightarrow> Some (if e \<noteq> EEXIST then - 1 else 0, e, f2))) = Some y"
  show "\<not> two_slashes s"
  proof (cases "s = [46] \<or> s = [47]")
    case True
    then show ?thesis by (auto simp: two_slashes_def)
  next
    case False
    then obtain z where "mkp mkd (dirname s) err f = Some z" using r by (auto simp: bind_eq_Some_conv)
    then show ?thesis using ih dirname_two_slashes by blast
  qed
qed

section \<open>Properties\<close>

lemma make_all_there:
  assumes "\<And>p f e f'. mkd p f = (e, f') \<Longrightarrow> e \<noteq> Some Other_Error \<Longrightarrow> there f' p"
    and "\<And>p q f e f'. mkd p f = (e, f') \<Longrightarrow> there f q \<Longrightarrow> there f' q"
    and "make_all mkd ps f = (True, f')"
  shows "(\<forall>p\<in>set ps. there f' p) \<and> (\<forall>q. there f q \<longrightarrow> there f' q)"
  using assms(3)
proof (induction ps arbitrary: f)
  case (Cons p ps)
  obtain e f1 where m: "mkd p f = (e, f1)" by (cases "mkd p f")
  with Cons.prems have ok: "e \<noteq> Some Other_Error" "make_all mkd ps f1 = (True, f')" by (auto split: if_splits)
  from Cons.IH [OF ok(2)] show ?case using assms(1) [OF m ok(1)] assms(2) [OF m] by auto
qed simp

text \<open>C35: With the \<^verbatim>\<open>dirname\<close> of the GNU C library, \<^verbatim>\<open>mkpath\<close> returns exactly for the paths that do not begin with exactly two slashes: for \<^verbatim>\<open>//a\<close> it calls itself with \<^verbatim>\<open>//\<close>
  for ever. Where it returns, it has made the path and the directories that lead to it, each one being what stands before a slash of the path, from the top and up to
  the first error other than that one is there. It returns 0 if there was none, and then, whenever \<^verbatim>\<open>mkdir\<close> makes or finds what it is asked for
  and removes nothing, all of them are there.\<close>

theorem mkpath_makes_all:
  assumes "\<And>p f e f'. mkd p f = (e, f') \<Longrightarrow> e \<noteq> Some Other_Error \<Longrightarrow> there f' p"
    and "\<And>p q f e f'. mkd p f = (e, f') \<Longrightarrow> there f q \<Longrightarrow> there f' q"
  shows "if two_slashes s then mkpath mkd s err f = None
    else \<exists>rc err' f'. mkpath mkd s err f = Some (rc, err', f') \<and> make_all mkd (lead_to s) f = (rc = 0, f') \<and>
      (rc = 0 \<longrightarrow> (\<forall>p\<in>set (lead_to s). there f' p))"
proof (cases "two_slashes s")
  case True
  then show ?thesis using mkpath_two_slashes [of mkd s err f] by (cases "mkpath mkd s err f") auto
next
  case False
  then obtain rc err' f' where r: "mkpath mkd s err f = Some (rc, err', f')" "make_all mkd (lead_to s) f = (rc = 0, f')"
    using mkpath_made [of s mkd f err] by (auto simp: made_def)
  moreover have "\<forall>p\<in>set (lead_to s). there f' p" if "rc = 0"
  proof -
    have m: "make_all mkd (lead_to s) f = (True, f')" using r(2) that by simp
    show ?thesis
      by (rule make_all_there [where mkd = mkd and there = there and f = f, THEN conjunct1]) (fact assms(1), fact assms(2), fact m)
  qed
  ultimately show ?thesis using False by simp
qed

text \<open>A file system that is a set of directories.\<close>

definition mkdir_in :: "cstring \<Rightarrow> cstring set \<Rightarrow> errno option \<times> cstring set" where
  "mkdir_in p f = (if p \<in> f then (Some EEXIST, f) else if dirname p \<in> f then (None, insert p f) else (Some Other_Error, f))"

theorem mkpath_makes_all_witness:
  "mkpath mkdir_in (str ''//a'') EEXIST {} = None \<and>
   lead_to (str ''/a/b//c/'') = [str ''/a'', str ''/a/b'', str ''/a/b//c/''] \<and>
   (\<exists>err' f'. mkpath mkdir_in (str ''/a/b//c/'') EEXIST {str ''/'', str ''/a''} = Some (0, err', f') \<and> str ''/a/b'' \<in> f' \<and> str ''/a/b//c/'' \<in> f')"
proof (intro conjI)
  have res: "if two_slashes s then mkpath mkdir_in s err f = None
      else \<exists>rc err' f'. mkpath mkdir_in s err f = Some (rc, err', f') \<and> make_all mkdir_in (lead_to s) f = (rc = 0, f') \<and>
        (rc = 0 \<longrightarrow> (\<forall>p\<in>set (lead_to s). p \<in> f'))" for s err f
    by (rule mkpath_makes_all [of mkdir_in "\<lambda>f p. p \<in> f"]) (auto simp: mkdir_in_def split: if_splits)
  have "two_slashes (str ''//a'')" by (simp add: two_slashes_def str_def)
  then show "mkpath mkdir_in (str ''//a'') EEXIST {} = None" using res [of "str ''//a''" EEXIST "{}"] by simp
  show l: "lead_to (str ''/a/b//c/'') = [str ''/a'', str ''/a/b'', str ''/a/b//c/'']" by code_simp
  have "\<not> two_slashes (str ''/a/b//c/'')" by (simp add: two_slashes_def str_def)
  moreover have "fst (make_all mkdir_in (lead_to (str ''/a/b//c/'')) {str ''/'', str ''/a''})" by code_simp
  ultimately show "\<exists>err' f'. mkpath mkdir_in (str ''/a/b//c/'') EEXIST {str ''/'', str ''/a''} = Some (0, err', f') \<and> str ''/a/b'' \<in> f' \<and> str ''/a/b//c/'' \<in> f'"
    using res [of "str ''/a/b//c/''" EEXIST "{str ''/'', str ''/a''}"] unfolding l by auto
qed

text \<open>For a file that is not there, the answer of \<^verbatim>\<open>is_regular_file\<close> is that of the stack.\<close>

theorem is_regular_file_missing:
  "stat_of path = None \<Longrightarrow> is_regular_file stat_of 0x8000 path \<and> \<not> is_regular_file stat_of 0 path"
  by (simp add: is_regular_file_def)

end
