(* ===== verification/Rbuf.thy ===== *)
theory Rbuf
  imports Miqs_Prelude
begin

text \<open>
  The ring buffer of src/src/index/libhl/rbuf.c, every operation. The buffer is a list of bytes, the sizes and offsets are the ints of the struct, with the wrap-around (\<open>int32\<close>) written out where a
  sum can leave the range of \<^verbatim>\<open>int\<close>: the size of a new buffer, the read offset an overwriting write moves on, the write offset after a copy. All other sums and differences of a buffer that is
  well-formed (\<open>rbuf_inv\<close>) lie between minus and plus its size (\<open>rbuf_in_range\<close>). Copies out of the buffer or of the caller's bytes are \<open>Out_Of_Bounds\<close>. What the caller gets in its output buffer, which is large enough,
  is returned. \<open>contents\<close> are the stored bytes, and the operations are those of a queue on them.
\<close>

section \<open>The buffer\<close>

datatype rbuf_mode = RBUF_MODE_BLOCKING | RBUF_MODE_OVERWRITE

record rbuf =
  rb_buf :: "byte list"
  rb_size :: int
  rb_available :: int
  rb_used :: int
  rb_rfx :: int
  rb_wfx :: int
  rb_mode :: rbuf_mode

text \<open>\<^verbatim>\<open>memcpy\<close> from and to a buffer at an offset.\<close>

definition mem_from :: "byte list \<Rightarrow> int \<Rightarrow> int \<Rightarrow> c_error + byte list" where
  "mem_from buf off n = (if 0 \<le> off \<and> 0 \<le> n \<and> off + n \<le> int (length buf) then Inr (take (nat n) (drop (nat off) buf)) else Inl Out_Of_Bounds)"

definition mem_to :: "byte list \<Rightarrow> int \<Rightarrow> byte list \<Rightarrow> c_error + byte list" where
  "mem_to buf off bs =
     (if 0 \<le> off \<and> off + int (length bs) \<le> int (length buf)
      then Inr (take (nat off) buf @ bs @ drop (nat off + length bs) buf) else Inl Out_Of_Bounds)"

text \<open>The value of a sum of ints.\<close>

definition int32 :: "int \<Rightarrow> int" where
  "int32 x = (x + 2 ^ 31) mod 2 ^ 32 - 2 ^ 31"

lemma int32_id: "- (2 ^ 31) \<le> x \<Longrightarrow> x < 2 ^ 31 \<Longrightarrow> int32 x = x"
  by (simp add: int32_def)

text \<open>
  What \<^verbatim>\<open>malloc\<close> returns is \<open>fresh\<close>, bytes that nobody has set. It fails for a negative size, which is more than half of the address space as a \<^verbatim>\<open>size_t\<close>; this is also
  what happens when \<^verbatim>\<open>size + 1\<close> overflows.
\<close>

definition rbuf_create :: "(nat \<Rightarrow> byte list) \<Rightarrow> int \<Rightarrow> rbuf option" where
  "rbuf_create fresh sz =
     (let s = (if sz = 0 then 4096 + 1 else int32 (sz + 1))
      in if s < 0 then None
         else Some \<lparr>rb_buf = fresh (nat s), rb_size = s, rb_available = s - 1, rb_used = 0, rb_rfx = 0, rb_wfx = 0, rb_mode = RBUF_MODE_BLOCKING\<rparr>)"

definition rbuf_update_size :: "rbuf \<Rightarrow> rbuf" where
  "rbuf_update_size rb =
     (let u = (if rb_wfx rb = rb_rfx rb then 0
               else if rb_wfx rb < rb_rfx rb then rb_wfx rb + (rb_size rb - rb_rfx rb)
               else rb_wfx rb - rb_rfx rb)
      in rb\<lparr>rb_used := u, rb_available := rb_size rb - u - 1\<rparr>)"

definition rbuf_set_mode :: "rbuf_mode \<Rightarrow> rbuf \<Rightarrow> rbuf" where
  "rbuf_set_mode m rb = rb\<lparr>rb_mode := m\<rparr>"

definition rbuf_skip :: "int \<Rightarrow> rbuf \<Rightarrow> rbuf" where
  "rbuf_skip sz rb =
     rbuf_update_size
       (if rb_size rb \<le> sz then rb\<lparr>rb_rfx := rb_wfx rb\<rparr>
        else if rb_size rb - rb_rfx rb < sz then rb\<lparr>rb_rfx := sz - (rb_size rb - rb_rfx rb)\<rparr>
        else rb\<lparr>rb_rfx := rb_rfx rb + sz\<rparr>)"

definition rbuf_read :: "int \<Rightarrow> rbuf \<Rightarrow> c_error + (int \<times> byte list \<times> rbuf)" where
  "rbuf_read sz rb =
     (let read_size = (if rb_used rb > sz then sz else rb_used rb); to_end = rb_size rb - rb_rfx rb
      in ebind (if 0 < read_size
                then if rb_rfx rb < rb_wfx rb \<or> read_size \<le> to_end
                     then ebind (mem_from (rb_buf rb) (rb_rfx rb) read_size) (\<lambda>out. Inr (out, rb\<lparr>rb_rfx := rb_rfx rb + read_size\<rparr>))
                     else ebind (mem_from (rb_buf rb) (rb_rfx rb) to_end) (\<lambda>a. ebind (mem_from (rb_buf rb) 0 (read_size - to_end)) (\<lambda>b.
                          Inr (a @ b, rb\<lparr>rb_rfx := read_size - to_end\<rparr>)))
                else Inr ([], rb)) (\<lambda>(out, rb'). Inr (read_size, out, rbuf_update_size rb')))"

text \<open>Storing \<open>write_size\<close> bytes of \<open>bs\<close> at the write offset.\<close>

definition write_at :: "int \<Rightarrow> byte list \<Rightarrow> rbuf \<Rightarrow> c_error + rbuf" where
  "write_at write_size bs rb =
     (if rb_rfx rb \<le> rb_wfx rb \<and> rb_size rb - rb_wfx rb < write_size
      then let to_end = rb_size rb - rb_wfx rb
           in ebind (mem_from bs 0 to_end) (\<lambda>a. ebind (mem_to (rb_buf rb) (rb_wfx rb) a) (\<lambda>buf1.
              ebind (mem_from bs to_end (write_size - to_end)) (\<lambda>b. ebind (mem_to buf1 0 b) (\<lambda>buf2.
                Inr (rb\<lparr>rb_buf := buf2, rb_wfx := write_size - to_end\<rparr>)))))
      else ebind (mem_from bs 0 write_size) (\<lambda>a. ebind (mem_to (rb_buf rb) (rb_wfx rb) a) (\<lambda>buf1.
             Inr (rb\<lparr>rb_buf := buf1, rb_wfx := rb_wfx rb + write_size\<rparr>))))"

definition rbuf_write :: "byte list option \<Rightarrow> int \<Rightarrow> rbuf \<Rightarrow> c_error + (int \<times> rbuf)" where
  "rbuf_write inp sz rb =
     (case inp of
        None \<Rightarrow> Inr (0, rb)
      | Some bs \<Rightarrow>
          if sz = 0 then Inr (0, rb)
          else if sz < rb_available rb then ebind (write_at sz bs rb) (\<lambda>rb'. Inr (sz, rbuf_update_size rb'))
          else if rb_mode rb = RBUF_MODE_OVERWRITE then
            if rb_size rb - 1 < sz then
              let write_size = rb_size rb - 1
              in ebind (mem_from bs (sz - write_size) write_size) (\<lambda>a. ebind (mem_to (rb_buf rb) 0 a) (\<lambda>buf1.
                   Inr (sz, rbuf_update_size (rb\<lparr>rb_buf := buf1, rb_rfx := 0, rb_wfx := write_size\<rparr>))))
            else let rfx = int32 (rb_rfx rb + (sz - rb_available rb))
                 in ebind (write_at sz bs (rb\<lparr>rb_rfx := (if rb_size rb \<le> rfx then rfx - rb_size rb else rfx)\<rparr>))
                      (\<lambda>rb'. Inr (sz, rbuf_update_size rb'))
          else ebind (write_at (rb_available rb) bs rb) (\<lambda>rb'. Inr (rb_available rb, rbuf_update_size rb')))"

definition rbuf_size :: "rbuf \<Rightarrow> int" where
  "rbuf_size rb = rb_size rb - 1"

definition rbuf_clear :: "rbuf \<Rightarrow> rbuf" where
  "rbuf_clear rb = rbuf_update_size (rb\<lparr>rb_rfx := 0, rb_wfx := 0\<rparr>)"

text \<open>The scan of \<^verbatim>\<open>rbuf_find\<close> over the positions from \<open>i\<close> up to \<open>e\<close>.\<close>

function scan_for :: "byte list \<Rightarrow> byte \<Rightarrow> int \<Rightarrow> int \<Rightarrow> c_error + int option" where
  "scan_for buf octet i e =
     (if i < e
      then if i < 0 \<or> int (length buf) \<le> i then Inl Out_Of_Bounds
           else if buf ! nat i = octet then Inr (Some i) else scan_for buf octet (i + 1) e
      else Inr None)"
  by pat_completeness auto
termination
  by (relation "measure (\<lambda>(buf, octet, i, e). nat (e - i))") auto

declare scan_for.simps [simp del]

definition rbuf_find :: "byte \<Rightarrow> rbuf \<Rightarrow> c_error + int" where
  "rbuf_find octet rb =
     (if rb_used rb = 0 then Inr (- 1)
      else if rb_rfx rb < rb_wfx rb then
        ebind (scan_for (rb_buf rb) octet (rb_rfx rb) (rb_wfx rb)) (\<lambda>r. Inr (case r of Some i \<Rightarrow> i - rb_rfx rb | None \<Rightarrow> - 1))
      else ebind (scan_for (rb_buf rb) octet (rb_rfx rb) (rb_size rb)) (\<lambda>r.
             case r of
               Some i \<Rightarrow> Inr (i - rb_rfx rb)
             | None \<Rightarrow> ebind (scan_for (rb_buf rb) octet 0 (rb_wfx rb)) (\<lambda>r'.
                         Inr (case r' of Some i \<Rightarrow> rb_size rb - rb_rfx rb + i | None \<Rightarrow> - 1))))"

text \<open>The two loops of \<^verbatim>\<open>rbuf_read_until\<close>. The first goes up to the end of the buffer, however much is stored; \<open>taken\<close> is \<^verbatim>\<open>size - to_read\<close>.\<close>

function until_end :: "byte list \<Rightarrow> byte \<Rightarrow> int \<Rightarrow> int \<Rightarrow> int \<Rightarrow> int \<Rightarrow> byte list \<Rightarrow> c_error + (bool \<times> int \<times> byte list)" where
  "until_end buf octet i e maxsize taken out =
     (if i < e \<and> taken < maxsize
      then if i < 0 \<or> int (length buf) \<le> i then Inl Out_Of_Bounds
           else if buf ! nat i = octet then Inr (True, taken + 1, out @ [buf ! nat i])
           else until_end buf octet (i + 1) e maxsize (taken + 1) (out @ [buf ! nat i])
      else Inr (False, taken, out))"
  by pat_completeness auto
termination
  by (relation "measure (\<lambda>(buf, octet, i, e, maxsize, taken, out). nat (e - i))") auto

function until_rest :: "byte list \<Rightarrow> byte \<Rightarrow> int \<Rightarrow> int \<Rightarrow> int \<Rightarrow> int \<Rightarrow> byte list \<Rightarrow> c_error + (int \<times> byte list)" where
  "until_rest buf octet i sz maxsize taken out =
     (if 0 < sz - taken \<and> taken < maxsize
      then if i < 0 \<or> int (length buf) \<le> i then Inl Out_Of_Bounds
           else if buf ! nat i = octet then Inr (taken + 1, out @ [buf ! nat i])
           else until_rest buf octet (i + 1) sz maxsize (taken + 1) (out @ [buf ! nat i])
      else Inr (taken, out))"
  by pat_completeness auto
termination
  by (relation "measure (\<lambda>(buf, octet, i, sz, maxsize, taken, out). nat (sz - taken))") auto

declare until_end.simps [simp del] until_rest.simps [simp del]

definition rbuf_read_until :: "byte \<Rightarrow> int \<Rightarrow> rbuf \<Rightarrow> c_error + (byte list \<times> rbuf)" where
  "rbuf_read_until octet maxsize rb =
     ebind (until_end (rb_buf rb) octet (rb_rfx rb) (rb_size rb) maxsize 0 []) (\<lambda>(found, taken, out).
     ebind (if found then Inr (taken, out) else until_rest (rb_buf rb) octet 0 (rb_used rb) maxsize taken out) (\<lambda>(taken', out').
       Inr (out', rbuf_skip taken' rb)))"

text \<open>
  Copying or moving between two buffers. The branches for a source that wraps around read from \<^verbatim>\<open>dst->rfx\<close> or add \<^verbatim>\<open>to_end\<close> to the write offset twice, as the code does.
\<close>

definition copy_within :: "byte list \<Rightarrow> int \<Rightarrow> byte list \<Rightarrow> int \<Rightarrow> int \<Rightarrow> c_error + byte list" where
  "copy_within dst off src from n = ebind (mem_from src from n) (mem_to dst off)"

definition rbuf_copy_internal :: "int \<Rightarrow> bool \<Rightarrow> rbuf \<Rightarrow> rbuf \<Rightarrow> c_error + (int \<times> rbuf \<times> rbuf)" where
  "rbuf_copy_internal len move src dst =
     (if len = 0 then Inr (0, src, dst)
      else let to_copy1 = (if len < rb_available dst then len else rb_available dst);
               to_copy = (if rb_used src < to_copy1 then rb_used src else to_copy1);
               contiguous = (if rb_rfx dst < rb_wfx dst then rb_size dst - rb_wfx dst else rb_rfx dst - rb_wfx dst);
               w = rb_wfx dst; to_end = rb_size src - rb_rfx src; remainder = to_copy - contiguous
           in ebind
             (if to_copy \<le> contiguous then
                if move then
                  ebind (rbuf_read to_copy src) (\<lambda>(_, out, src'). ebind (mem_to (rb_buf dst) w out) (\<lambda>buf. Inr (src', buf, w + to_copy)))
                else if rb_rfx src < rb_wfx src then
                  ebind (copy_within (rb_buf dst) w (rb_buf src) (rb_rfx src) to_copy) (\<lambda>buf. Inr (src, buf, w + to_copy))
                else ebind (copy_within (rb_buf dst) w (rb_buf src) (rb_rfx src) to_end) (\<lambda>buf1.
                     ebind (copy_within buf1 (w + to_end) (rb_buf src) 0 (to_copy - to_end)) (\<lambda>buf. Inr (src, buf, int32 (w + to_end + to_copy))))
              else ebind
                (if move then
                   ebind (rbuf_read contiguous src) (\<lambda>(_, out1, src1). ebind (mem_to (rb_buf dst) w out1) (\<lambda>buf1.
                   ebind (rbuf_read remainder src1) (\<lambda>(_, out2, src2). ebind (mem_to buf1 0 out2) (\<lambda>buf. Inr (src2, buf)))))
                 else if rb_rfx src < rb_wfx src then
                   ebind (copy_within (rb_buf dst) w (rb_buf src) (rb_rfx src) contiguous) (\<lambda>buf1.
                   ebind (copy_within buf1 0 (rb_buf src) (rb_rfx src + contiguous) remainder) (\<lambda>buf. Inr (src, buf)))
                 else if contiguous < to_end then
                   ebind (copy_within (rb_buf dst) w (rb_buf src) (rb_rfx dst) contiguous) (\<lambda>buf1.
                   let diff = to_end - contiguous
                   in if remainder < diff then
                        ebind (copy_within buf1 0 (rb_buf src) (rb_rfx dst + contiguous) remainder) (\<lambda>buf. Inr (src, buf))
                      else ebind (copy_within buf1 0 (rb_buf src) (rb_rfx dst + contiguous) diff) (\<lambda>buf2.
                           ebind (copy_within buf2 diff (rb_buf src) 0 (remainder - diff)) (\<lambda>buf. Inr (src, buf))))
                 else ebind (copy_within (rb_buf dst) w (rb_buf src) (rb_rfx dst) to_end) (\<lambda>buf1.
                      let diff = contiguous - to_end
                      in if diff \<noteq> 0 then
                           ebind (copy_within buf1 (w + to_end) (rb_buf src) 0 diff) (\<lambda>buf2.
                           ebind (copy_within buf2 0 (rb_buf src) diff remainder) (\<lambda>buf. Inr (src, buf)))
                         else Inr (src, buf1)))
                (\<lambda>(src', buf). Inr (src', buf, remainder)))
             (\<lambda>(src', buf, wfx). Inr (to_copy, src', rbuf_update_size (dst\<lparr>rb_buf := buf, rb_wfx := wfx\<rparr>))))"

definition rbuf_move :: "int \<Rightarrow> rbuf \<Rightarrow> rbuf \<Rightarrow> c_error + (int \<times> rbuf \<times> rbuf)" where
  "rbuf_move len src dst = rbuf_copy_internal len True src dst"

definition rbuf_copy :: "int \<Rightarrow> rbuf \<Rightarrow> rbuf \<Rightarrow> c_error + (int \<times> rbuf \<times> rbuf)" where
  "rbuf_copy len src dst = rbuf_copy_internal len False src dst"

section \<open>The stored bytes\<close>

text \<open>The byte \<open>k\<close> places after the position \<open>p\<close>, around the end, and the bytes that are stored.\<close>

definition ring_at :: "byte list \<Rightarrow> nat \<Rightarrow> nat \<Rightarrow> byte" where
  "ring_at buf p k = buf ! ((p + k) mod length buf)"

definition contents :: "rbuf \<Rightarrow> byte list" where
  "contents rb = map (ring_at (rb_buf rb) (nat (rb_rfx rb))) [0..<nat (rb_used rb)]"

definition rbuf_inv :: "rbuf \<Rightarrow> bool" where
  "rbuf_inv rb \<longleftrightarrow>
     rb_size rb = int (length (rb_buf rb)) \<and> 0 \<le> rb_rfx rb \<and> rb_rfx rb \<le> rb_size rb \<and> 0 \<le> rb_wfx rb \<and> rb_wfx rb \<le> rb_size rb \<and>
     rb_used rb = (if rb_rfx rb \<le> rb_wfx rb then rb_wfx rb - rb_rfx rb else rb_wfx rb + (rb_size rb - rb_rfx rb)) \<and>
     rb_used rb < rb_size rb \<and> rb_available rb = rb_size rb - rb_used rb - 1"

text \<open>The sums and differences that the operations form, in a well-formed buffer.\<close>

lemma rbuf_in_range:
  assumes "rbuf_inv rb" and "x \<in> {rb_used rb, rb_available rb, rb_size rb - rb_rfx rb, rb_size rb - rb_wfx rb, rb_wfx rb - rb_rfx rb}"
  shows "\<bar>x\<bar> \<le> rb_size rb"
  using assms by (auto simp: rbuf_inv_def abs_le_iff split: if_splits)

section \<open>Reading\<close>

text \<open>How far the write offset is ahead of the read offset.\<close>

definition ahead :: "nat \<Rightarrow> nat \<Rightarrow> nat \<Rightarrow> nat" where
  "ahead n r w = (if r \<le> w then w - r else w + n - r)"

text \<open>A buffer in terms of numbers that are not negative.\<close>

lemma rbuf_inv_nat:
  "rbuf_inv rb \<longleftrightarrow> (\<exists>r w. rb_size rb = int (length (rb_buf rb)) \<and> rb_rfx rb = int r \<and> rb_wfx rb = int w \<and> r \<le> length (rb_buf rb) \<and> w \<le> length (rb_buf rb) \<and>
     ahead (length (rb_buf rb)) r w < length (rb_buf rb) \<and> rb_used rb = int (ahead (length (rb_buf rb)) r w) \<and>
     rb_available rb = int (length (rb_buf rb) - ahead (length (rb_buf rb)) r w - 1))" (is "_ = ?rhs")
proof
  assume inv: "rbuf_inv rb"
  have "rb_rfx rb = int (nat (rb_rfx rb))" "rb_wfx rb = int (nat (rb_wfx rb))" using inv by (auto simp: rbuf_inv_def)
  then show ?rhs using inv by (intro exI [of _ "nat (rb_rfx rb)"] exI [of _ "nat (rb_wfx rb)"]) (auto simp: rbuf_inv_def ahead_def)
next
  assume ?rhs
  then show "rbuf_inv rb" by (auto simp: rbuf_inv_def ahead_def)
qed

lemma update_size_inv:
  assumes "rb_size rb = int (length (rb_buf rb))" "rb_rfx rb = int r" "rb_wfx rb = int w" "r \<le> length (rb_buf rb)" "w \<le> length (rb_buf rb)"
    "ahead (length (rb_buf rb)) r w < length (rb_buf rb)"
  shows "rbuf_inv (rbuf_update_size rb)"
    and "contents (rbuf_update_size rb) = map (ring_at (rb_buf rb) r) [0..<ahead (length (rb_buf rb)) r w]"
proof -
  have u: "rbuf_update_size rb = rb\<lparr>rb_used := int (ahead (length (rb_buf rb)) r w), rb_available := int (length (rb_buf rb) - ahead (length (rb_buf rb)) r w - 1)\<rparr>"
    using assms by (auto simp: rbuf_update_size_def ahead_def Let_def)
  show "rbuf_inv (rbuf_update_size rb)" unfolding u rbuf_inv_nat using assms by (intro exI [of _ r] exI [of _ w]) simp
  show "contents (rbuf_update_size rb) = map (ring_at (rb_buf rb) r) [0..<ahead (length (rb_buf rb)) r w]"
    unfolding u contents_def using assms(2) by simp
qed

lemma length_contents: "rbuf_inv rb \<Longrightarrow> int (length (contents rb)) = rb_used rb"
  by (auto simp: contents_def rbuf_inv_def)

lemma ring_part: "r + n \<le> length buf \<Longrightarrow> take n (drop r buf) = map (ring_at buf r) [0..<n]"
  by (rule nth_equalityI) (auto simp: ring_at_def)

lemma ring_wrap:
  assumes "r \<le> length buf" and "length buf - r \<le> n" and "n \<le> length buf"
  shows "drop r buf @ take (n - (length buf - r)) buf = map (ring_at buf r) [0..<n]"
proof (rule nth_equalityI)
  fix i
  assume "i < length (drop r buf @ take (n - (length buf - r)) buf)"
  then have i: "i < n" using assms by auto
  have "(r + i) mod length buf = (if r + i < length buf then r + i else r + i - length buf)"
    using assms i by (auto simp: mod_if)
  then show "(drop r buf @ take (n - (length buf - r)) buf) ! i = map (ring_at buf r) [0..<n] ! i"
    using assms i by (auto simp: nth_append ring_at_def add.commute)
qed (use assms in auto)

lemma ring_shift: "(p + n) mod length buf = p' mod length buf \<Longrightarrow> ring_at buf p' k = ring_at buf p (n + k)"
  unfolding ring_at_def by (metis add.assoc mod_add_left_eq)

lemma drop_ring: "(p + n) mod length buf = p' mod length buf \<Longrightarrow> map (ring_at buf p') [0..<m - n] = drop n (map (ring_at buf p) [0..<m])"
  by (rule nth_equalityI) (auto simp: ring_shift)

lemma read_spec:
  assumes "rbuf_inv rb"
  shows "\<exists>rb'. rbuf_read (int n) rb = Inr (int (min n (length (contents rb))), take n (contents rb), rb') \<and> rbuf_inv rb' \<and> contents rb' = drop n (contents rb) \<and>
    rb_size rb' = rb_size rb \<and> rb_mode rb' = rb_mode rb"
proof -
  obtain r w where rb: "rb_size rb = int (length (rb_buf rb))" "rb_rfx rb = int r" "rb_wfx rb = int w" "r \<le> length (rb_buf rb)" "w \<le> length (rb_buf rb)"
    "ahead (length (rb_buf rb)) r w < length (rb_buf rb)" "rb_used rb = int (ahead (length (rb_buf rb)) r w)"
    using assms unfolding rbuf_inv_nat by auto
  define N u m where "N = length (rb_buf rb)" and "u = ahead N r w" and "m = min n u"
  have c: "contents rb = map (ring_at (rb_buf rb) r) [0..<u]" using rb by (simp add: contents_def u_def N_def)
  have lenc: "min n (length (contents rb)) = m" by (simp add: c m_def)
  have m: "(if rb_used rb > int n then int n else rb_used rb) = int m" using rb by (auto simp: m_def u_def N_def)
  have fin: "rbuf_inv (rbuf_update_size (rb\<lparr>rb_rfx := int r'\<rparr>)) \<and> contents (rbuf_update_size (rb\<lparr>rb_rfx := int r'\<rparr>)) = drop n (contents rb) \<and>
      rb_size (rbuf_update_size (rb\<lparr>rb_rfx := int r'\<rparr>)) = rb_size rb \<and> rb_mode (rbuf_update_size (rb\<lparr>rb_rfx := int r'\<rparr>)) = rb_mode rb"
    if "r' \<le> N" "ahead N r' w = u - m" "(r + m) mod N = r' mod N" for r'
  proof -
    have "drop n (map (ring_at (rb_buf rb) r) [0..<u]) = drop m (map (ring_at (rb_buf rb) r) [0..<u])" by (simp add: m_def min_def)
    moreover have "u - m < N" using rb(6) by (simp add: u_def N_def)
    ultimately show ?thesis
      using update_size_inv [of "rb\<lparr>rb_rfx := int r'\<rparr>" r' w] rb that drop_ring [of r m "rb_buf rb" r' u] c
      by (simp add: N_def rbuf_update_size_def Let_def)
  qed
  have out: "take n (contents rb) = map (ring_at (rb_buf rb) r) [0..<m]" unfolding c m_def by (rule nth_equalityI) auto
  consider (zero) "m = 0" | (part) "0 < m" "r < w \<or> m \<le> N - r" | (wrap) "0 < m" "\<not> r < w" "N - r < m" by linarith
  then show ?thesis
  proof cases
    case zero
    then have "n = 0 \<or> contents rb = []" using c by (auto simp: m_def min_def split: if_splits)
    then have "take n (contents rb) = []" by auto
    moreover have "rbuf_read (int n) rb = Inr (int m, [], rbuf_update_size rb)" using zero m by (simp add: rbuf_read_def)
    moreover have same: "rb\<lparr>rb_rfx := int r\<rparr> = rb" using rb(2) by simp
    ultimately show ?thesis
      using zero fin [of r, unfolded same] rb(4) lenc by (simp add: u_def N_def)
  next
    case part
    have le: "r + m \<le> N" using part rb by (auto simp: m_def u_def ahead_def N_def split: if_splits)
    have "ahead N (r + m) w = u - m" using part le rb(4,5) by (auto simp: m_def u_def ahead_def N_def split: if_splits)
    then have "rbuf_read (int n) rb = Inr (int m, take n (contents rb), rbuf_update_size (rb\<lparr>rb_rfx := int (r + m)\<rparr>))"
      using part le rb m out ring_part [of r m "rb_buf rb"] by (auto simp: rbuf_read_def Let_def mem_from_def N_def)
    with fin [of "r + m"] le \<open>ahead N (r + m) w = u - m\<close> show ?thesis unfolding lenc by auto
  next
    case wrap
    have w: "w < r" "m \<le> N" using wrap rb by (auto simp: m_def u_def ahead_def N_def split: if_splits)
    have e: "int m - (int N - int r) = int (m - (N - r))" "nat (int m - (int N - int r)) = m - (N - r)" using rb(4) wrap(3) by (auto simp: N_def)
    have "rbuf_read (int n) rb = Inr (int m, take n (contents rb), rbuf_update_size (rb\<lparr>rb_rfx := int (m - (N - r))\<rparr>))"
      using wrap w rb(1-4) m out e ring_wrap [of r "rb_buf rb" m, folded N_def] unfolding rbuf_read_def Let_def m mem_from_def
      by (simp add: N_def [symmetric] del: of_nat_diff)
    moreover have "ahead N (m - (N - r)) w = u - m" using wrap w rb(4,5) by (auto simp: m_def u_def ahead_def N_def min_def split: if_splits)
    moreover have "(r + m) mod N = (m - (N - r)) mod N" using wrap rb(4) by (simp add: N_def le_mod_geq add.commute)
    ultimately show ?thesis using fin [of "m - (N - r)"] w unfolding lenc by auto
  qed
qed

section \<open>Writing\<close>

text \<open>
  The write offset as seen from the read offset. The third case arises when an overwriting write moves the read offset up to a write offset at the very end.
\<close>

definition write_pos :: "nat \<Rightarrow> nat \<Rightarrow> nat \<Rightarrow> nat \<Rightarrow> bool" where
  "write_pos n r w d \<longleftrightarrow> r \<le> n \<and> w \<le> n \<and> (r \<le> w \<and> d = w - r \<and> d < n \<or> w < r \<and> d = w + n - r \<or> r = 0 \<and> w = n \<and> d = 0)"

lemma ring_index: "r \<le> length buf \<Longrightarrow> k < length buf \<Longrightarrow> ring_at buf r k = buf ! (if r + k < length buf then r + k else r + k - length buf)"
  by (simp add: ring_at_def mod_if)

lemma nth_store:
  "w + length a \<le> length buf \<Longrightarrow> p < length buf \<Longrightarrow>
   (take w buf @ a @ drop (w + length a) buf) ! p = (if w \<le> p \<and> p < w + length a then a ! (p - w) else buf ! p)"
  by (auto simp: nth_append min_def)

lemma store_one_part:
  assumes "write_pos (length buf) r w d" and "w + length a \<le> length buf" and "d + length a < length buf"
  shows "map (ring_at (take w buf @ a @ drop (w + length a) buf) r) [0..<d + length a] = map (ring_at buf r) [0..<d] @ a"
proof (rule nth_equalityI)
  define b where "b = take w buf @ a @ drop (w + length a) buf"
  have len: "length b = length buf" using assms(2) by (simp add: b_def)
  fix k
  assume "k < length (map (ring_at (take w buf @ a @ drop (w + length a) buf) r) [0..<d + length a])"
  then have k: "k < d + length a" by simp
  define p where "p = (if r + k < length buf then r + k else r + k - length buf)"
  have p: "p < length buf" "ring_at b r k = b ! p" "k < d \<Longrightarrow> ring_at buf r k = buf ! p"
    using assms k len ring_index [of r b k] ring_index [of r buf k] by (auto simp: p_def write_pos_def)
  have "w \<le> p \<and> p < w + length a \<longleftrightarrow> d \<le> k" "d \<le> k \<Longrightarrow> p - w = k - d"
    using assms k by (auto simp: p_def write_pos_def)
  then show "map (ring_at (take w buf @ a @ drop (w + length a) buf) r) [0..<d + length a] ! k = (map (ring_at buf r) [0..<d] @ a) ! k"
    using p k nth_store [of w a buf p] assms(2) unfolding b_def [symmetric] by (auto simp: nth_append)
qed simp

lemma mem_from_int: "mem_from buf (int p) (int n) = (if p + n \<le> length buf then Inr (take n (drop p buf)) else Inl Out_Of_Bounds)"
  by (auto simp: mem_from_def)

lemma mem_to_int: "mem_to buf (int p) bs = (if p + length bs \<le> length buf then Inr (take p buf @ bs @ drop (p + length bs) buf) else Inl Out_Of_Bounds)"
  by (auto simp: mem_to_def)

lemmas mem_zero = mem_from_int [of _ 0, simplified] mem_to_int [of _ 0, simplified]

lemma write_at_spec:
  assumes rb: "rb_size rb = int (length (rb_buf rb))" "rb_rfx rb = int r" "rb_wfx rb = int w"
    and pos: "write_pos (length (rb_buf rb)) r w d" and fits: "d + n < length (rb_buf rb)" "n \<le> length bs"
    and some: "n = 0 \<Longrightarrow> d = ahead (length (rb_buf rb)) r w"
  shows "\<exists>w' buf'. write_at (int n) bs rb = Inr (rb\<lparr>rb_buf := buf', rb_wfx := int w'\<rparr>) \<and> length buf' = length (rb_buf rb) \<and> w' \<le> length (rb_buf rb) \<and>
    ahead (length (rb_buf rb)) r w' = d + n \<and> map (ring_at buf' r) [0..<d + n] = map (ring_at (rb_buf rb) r) [0..<d] @ take n bs"
proof (cases "r \<le> w \<and> length (rb_buf rb) - w < n")
  case False
  define buf' where "buf' = take w (rb_buf rb) @ take n bs @ drop (w + length (take n bs)) (rb_buf rb)"
  have le: "w + n \<le> length (rb_buf rb)" using False pos fits by (auto simp: write_pos_def)
  moreover have "ahead (length (rb_buf rb)) r (w + n) = d + n" using le False pos fits some by (cases "n = 0") (auto simp: write_pos_def ahead_def)
  moreover have "write_at (int n) bs rb = Inr (rb\<lparr>rb_buf := buf', rb_wfx := int (w + n)\<rparr>)"
    using rb False le fits(2) by (auto simp: write_at_def mem_from_def mem_to_def buf'_def min_def)
  moreover have "map (ring_at buf' r) [0..<d + n] = map (ring_at (rb_buf rb) r) [0..<d] @ take n bs"
    using store_one_part [OF pos, of "take n bs"] le fits by (simp add: buf'_def min_absorb2)
  moreover have "length buf' = length (rb_buf rb)" using le fits(2) by (auto simp: buf'_def)
  ultimately show ?thesis by (intro exI [of _ "w + n"] exI [of _ buf']) simp
next
  case True
  define N e where "N = length (rb_buf rb)" and "e = N - w"
  define buf1 where "buf1 = take w (rb_buf rb) @ take e bs @ drop (w + length (take e bs)) (rb_buf rb)"
  define b where "b = take (n - e) (drop e bs)"
  have w: "w \<le> N" "e < n" "w + e = N" using True pos by (auto simp: write_pos_def N_def e_def)
  have la: "length (take e bs) = e" "length b = n - e" using w fits(2) by (auto simp: b_def)
  have pos2: "write_pos N r 0 (d + e)" "d + e < N" using True pos w fits by (auto simp: write_pos_def N_def)
  have len1: "length buf1 = N" using w la by (simp add: buf1_def N_def)
  have "map (ring_at buf1 r) [0..<d + e] = map (ring_at (rb_buf rb) r) [0..<d] @ take e bs"
    using store_one_part [OF pos, of "take e bs"] w la pos2 by (simp add: buf1_def N_def)
  moreover have "map (ring_at (b @ drop (length b) buf1) r) [0..<d + e + length b] = map (ring_at buf1 r) [0..<d + e] @ b"
    using store_one_part [of buf1 r 0 "d + e" b] pos2 len1 la fits w by (simp add: N_def)
  moreover have "take e bs @ b = take n bs" using w by (simp add: b_def take_add [symmetric])
  ultimately have "map (ring_at (b @ drop (length b) buf1) r) [0..<d + n] = map (ring_at (rb_buf rb) r) [0..<d] @ take n bs"
    using la w by simp
  moreover have "rb_size rb - rb_wfx rb = int e" "int n - int e = int (n - e)" using rb w by (auto simp: N_def)
  then have "write_at (int n) bs rb = Inr (rb\<lparr>rb_buf := b @ drop (length b) buf1, rb_wfx := int (n - e)\<rparr>)"
    using rb(2,3) True w la len1 fits unfolding write_at_def Let_def
    by (simp add: mem_from_int mem_to_int mem_zero b_def [symmetric] buf1_def [symmetric] N_def del: of_nat_diff) (simp add: buf1_def)
  moreover have "ahead N r (n - e) = d + n" using True pos w fits by (auto simp: write_pos_def ahead_def N_def)
  ultimately show ?thesis using la len1 w fits by (intro exI [of _ "n - e"] exI [of _ "b @ drop (length b) buf1"]) (simp add: N_def)
qed

text \<open>What a write leaves, from a buffer whose read offset has been moved.\<close>

lemma write_at_done:
  assumes "rb_size rb = int (length (rb_buf rb))" "rb_rfx rb = int r" "rb_wfx rb = int w"
    and "write_pos (length (rb_buf rb)) r w d" and "d + n < length (rb_buf rb)" "n \<le> length bs"
    and "n = 0 \<Longrightarrow> d = ahead (length (rb_buf rb)) r w"
  shows "\<exists>rb'. write_at (int n) bs rb = Inr rb' \<and> rbuf_inv (rbuf_update_size rb') \<and>
    contents (rbuf_update_size rb') = map (ring_at (rb_buf rb) r) [0..<d] @ take n bs \<and>
    rb_size (rbuf_update_size rb') = rb_size rb \<and> rb_mode (rbuf_update_size rb') = rb_mode rb"
proof -
  obtain w' buf' where w: "write_at (int n) bs rb = Inr (rb\<lparr>rb_buf := buf', rb_wfx := int w'\<rparr>)" "length buf' = length (rb_buf rb)" "w' \<le> length (rb_buf rb)"
    "ahead (length (rb_buf rb)) r w' = d + n" "map (ring_at buf' r) [0..<d + n] = map (ring_at (rb_buf rb) r) [0..<d] @ take n bs"
    using write_at_spec [OF assms] by blast
  have "r \<le> length (rb_buf rb)" using assms(4) by (simp add: write_pos_def)
  then show ?thesis
    using update_size_inv [of "rb\<lparr>rb_buf := buf', rb_wfx := int w'\<rparr>" r w'] assms(1,2,5) w
    by (auto simp: rbuf_update_size_def Let_def)
qed

text \<open>The bytes that are kept of a queue of at most \<open>cap\<close> bytes that drops from its front.\<close>

definition keep_last :: "nat \<Rightarrow> 'a list \<Rightarrow> 'a list" where
  "keep_last cap xs = drop (length xs - cap) xs"

lemma write_fits:
  assumes "rbuf_inv rb" and "int n \<le> rb_available rb" and "n \<le> length bs"
  shows "\<exists>rb'. write_at (int n) bs rb = Inr rb' \<and> rbuf_inv (rbuf_update_size rb') \<and> contents (rbuf_update_size rb') = contents rb @ take n bs \<and>
    rb_size (rbuf_update_size rb') = rb_size rb \<and> rb_mode (rbuf_update_size rb') = rb_mode rb"
proof -
  obtain r w where rb: "rb_size rb = int (length (rb_buf rb))" "rb_rfx rb = int r" "rb_wfx rb = int w" "r \<le> length (rb_buf rb)" "w \<le> length (rb_buf rb)"
    "ahead (length (rb_buf rb)) r w < length (rb_buf rb)" "rb_used rb = int (ahead (length (rb_buf rb)) r w)"
    "rb_available rb = int (length (rb_buf rb) - ahead (length (rb_buf rb)) r w - 1)"
    using assms(1) unfolding rbuf_inv_nat by auto
  have "write_pos (length (rb_buf rb)) r w (ahead (length (rb_buf rb)) r w)" using rb by (auto simp: write_pos_def ahead_def)
  moreover have "ahead (length (rb_buf rb)) r w + n < length (rb_buf rb)" using rb assms(2) by auto
  moreover have "contents rb = map (ring_at (rb_buf rb) r) [0..<ahead (length (rb_buf rb)) r w]" using rb by (simp add: contents_def)
  ultimately show ?thesis using write_at_done [of rb r w] rb assms(3) by simp
qed

lemma write_blocking:
  assumes "rbuf_inv rb" and "n \<le> length bs" and "rb_mode rb = RBUF_MODE_BLOCKING" and "int k = rb_available rb"
  shows "\<exists>rb'. rbuf_write (Some bs) (int n) rb = Inr (int (min n k), rb') \<and> rbuf_inv rb' \<and>
    contents rb' = contents rb @ take (min n k) bs \<and> rb_size rb' = rb_size rb \<and> rb_mode rb' = rb_mode rb"
proof (cases "n = 0")
  case True
  then show ?thesis using assms(1) by (simp add: rbuf_write_def)
next
  case False
  have "rbuf_write (Some bs) (int n) rb = ebind (write_at (int (min n k)) bs rb) (\<lambda>rb'. Inr (int (min n k), rbuf_update_size rb'))"
    using False assms(3) assms(4) [symmetric] by (auto simp: rbuf_write_def min_def le_less)
  then show ?thesis
    using write_fits [of rb "min n k" bs] assms by fastforce
qed

text \<open>An overwriting write of at most the size of the buffer moves the read offset over what has to go.\<close>

lemma write_over:
  assumes "rbuf_inv rb" and "n \<le> length bs" and "rb_available rb \<le> int n" and "int n < rb_size rb" and "0 < n"
  defines "f \<equiv> rb_rfx rb + (int n - rb_available rb)"
  shows "\<exists>rb'. write_at (int n) bs (rb\<lparr>rb_rfx := (if rb_size rb \<le> f then f - rb_size rb else f)\<rparr>) = Inr rb' \<and> rbuf_inv (rbuf_update_size rb') \<and>
    contents (rbuf_update_size rb') = keep_last (nat (rb_size rb) - 1) (contents rb @ take n bs) \<and>
    rb_size (rbuf_update_size rb') = rb_size rb \<and> rb_mode (rbuf_update_size rb') = rb_mode rb"
proof -
  define N where "N = length (rb_buf rb)"
  obtain r w where rb: "rb_size rb = int N" "rb_rfx rb = int r" "rb_wfx rb = int w" "r \<le> N" "w \<le> N"
    "ahead N r w < N" "rb_used rb = int (ahead N r w)" "rb_available rb = int (N - ahead N r w - 1)"
    using assms(1) unfolding rbuf_inv_nat N_def by auto
  define u g where "u = ahead N r w" and "g = n - (N - u - 1)"
  define r' where "r' = (if N \<le> r + g then r + g - N else r + g)"
  have n: "n < N" "N - u - 1 \<le> n" "u < N" "g \<le> u" using rb assms(3,4) by (auto simp: u_def g_def)
  have "f = int (r + g)" using rb n by (auto simp: f_def g_def u_def)
  then have r': "(if rb_size rb \<le> f then f - rb_size rb else f) = int r'" using rb by (auto simp: r'_def)
  have pos: "write_pos N r' w (u - g)" using rb(4,5) n by (auto simp: write_pos_def r'_def u_def ahead_def split: if_splits)
  have "(r + g) mod N = r' mod N" by (auto simp: r'_def le_mod_geq)
  then have "map (ring_at (rb_buf rb) r') [0..<u - g] = drop g (contents rb)"
    using drop_ring [of r g "rb_buf rb" r' u] rb by (simp add: contents_def N_def u_def)
  moreover have "length (contents rb) = u" using rb by (simp add: contents_def u_def)
  moreover have "keep_last (N - 1) (contents rb @ take n bs) = drop g (contents rb) @ take n bs" if "length (contents rb) = u"
  proof -
    have "length (contents rb @ take n bs) - (N - 1) = g" using that assms(2) n by (simp add: g_def)
    then show ?thesis using that n by (simp add: keep_last_def)
  qed
  moreover have "u - g + n < N" using n by (simp add: g_def)
  ultimately show ?thesis
    using write_at_done [of "rb\<lparr>rb_rfx := int r'\<rparr>" r' w "u - g" n bs] pos rb assms(2,5) unfolding r' by (simp add: N_def)
qed

lemma write_overwrite:
  assumes inv: "rbuf_inv rb" and len: "n \<le> length bs" and mode: "rb_mode rb = RBUF_MODE_OVERWRITE" and small: "rb_size rb \<le> 2 ^ 30"
  shows "\<exists>rb'. rbuf_write (Some bs) (int n) rb = Inr (int n, rb') \<and> rbuf_inv rb' \<and>
    contents rb' = keep_last (nat (rb_size rb) - 1) (contents rb @ take n bs) \<and> rb_size rb' = rb_size rb \<and> rb_mode rb' = rb_mode rb"
proof -
  define N where "N = length (rb_buf rb)"
  have sz: "rb_size rb = int N" and used: "int (length (contents rb)) = rb_used rb" and avail: "rb_available rb = int N - rb_used rb - 1" "rb_used rb < int N"
    using inv length_contents [OF inv] by (auto simp: rbuf_inv_def N_def)
  consider "n = 0" | "0 < n" "int n < rb_available rb" | "0 < n" "rb_available rb \<le> int n" "int n < rb_size rb" | "0 < n" "rb_size rb \<le> int n"
    by linarith
  then show ?thesis
  proof cases
    case 1
    then show ?thesis using inv sz used avail by (simp add: rbuf_write_def keep_last_def)
  next
    case 2
    then have "length (contents rb @ take n bs) - (N - 1) = 0" using sz used avail len by simp
    then have "keep_last (nat (rb_size rb) - 1) (contents rb @ take n bs) = contents rb @ take n bs" using sz by (simp add: keep_last_def)
    then show ?thesis using write_fits [OF inv _ len] 2 by (fastforce simp: rbuf_write_def)
  next
    case 3
    have "0 \<le> rb_rfx rb" "rb_rfx rb \<le> rb_size rb" using inv by (auto simp: rbuf_inv_def)
    then have "int32 (rb_rfx rb + (int n - rb_available rb)) = rb_rfx rb + (int n - rb_available rb)"
      using 3 small sz used avail by (intro int32_id) auto
    with 3 show ?thesis using write_over [OF inv len 3(2,3,1)] mode by (auto simp: rbuf_write_def Let_def)
  next
    case 4
    define buf1 where "buf1 = take (N - 1) (drop (n - (N - 1)) bs) @ drop (N - 1) (rb_buf rb)"
    define rb1 where "rb1 = rb\<lparr>rb_buf := buf1, rb_rfx := int 0, rb_wfx := int (N - 1)\<rparr>"
    have N: "0 < N" "N \<le> n" using avail used 4 sz by auto
    then have a: "length (take (N - 1) (drop (n - (N - 1)) bs)) = N - 1" using len by simp
    have len1: "length buf1 = N" using N a by (simp add: buf1_def N_def)
    have "map (ring_at buf1 0) [0..<N - 1] = take (N - 1) buf1" using ring_part [of 0 "N - 1" buf1] len1 by simp
    also have "\<dots> = take (N - 1) (drop (n - (N - 1)) bs)" using a by (simp add: buf1_def)
    also have "\<dots> = drop (n - (N - 1)) (take n bs)" using N by (simp add: drop_take)
    also have "\<dots> = keep_last (N - 1) (contents rb @ take n bs)" using N len by (simp add: keep_last_def)
    finally have c: "map (ring_at buf1 0) [0..<N - 1] = keep_last (N - 1) (contents rb @ take n bs)" .
    have i: "rb_size rb - 1 = int (N - 1)" "int n - int (N - 1) = int (n - (N - 1))" using sz N by auto
    have "rbuf_write (Some bs) (int n) rb = Inr (int n, rbuf_update_size rb1)"
      using 4 mode sz avail used N len a i unfolding rbuf_write_def Let_def
      by (simp add: mem_from_int mem_zero rb1_def buf1_def N_def del: of_nat_diff)
    then show ?thesis
      using update_size_inv [of rb1 0 "N - 1"] len1 sz N c by (simp add: rb1_def ahead_def) (simp add: rbuf_update_size_def Let_def)
  qed
qed

section \<open>The other operations\<close>

lemma create_spec:
  assumes "\<And>k. length (fresh k) = k" and "0 \<le> sz" and "sz < 2 ^ 30"
  shows "\<exists>rb. rbuf_create fresh sz = Some rb \<and> rbuf_inv rb \<and> contents rb = [] \<and> rb_mode rb = RBUF_MODE_BLOCKING \<and>
    rb_size rb = (if sz = 0 then 4097 else sz + 1)"
proof -
  have "int32 (sz + 1) = sz + 1" using assms by (intro int32_id) auto
  then show ?thesis using assms by (auto simp: rbuf_create_def rbuf_inv_def contents_def Let_def)
qed

lemma clear_spec:
  assumes "rbuf_inv rb"
  shows "rbuf_inv (rbuf_clear rb)" and "contents (rbuf_clear rb) = []" and "rb_size (rbuf_clear rb) = rb_size rb" and "rb_mode (rbuf_clear rb) = rb_mode rb"
  using assms by (auto simp: rbuf_clear_def rbuf_update_size_def rbuf_inv_def contents_def)

lemma set_mode_spec:
  assumes "rbuf_inv rb"
  shows "rbuf_inv (rbuf_set_mode m rb)" and "contents (rbuf_set_mode m rb) = contents rb" and "rb_size (rbuf_set_mode m rb) = rb_size rb"
  using assms by (auto simp: rbuf_set_mode_def rbuf_inv_def contents_def)

text \<open>Skipping what is stored is reading without the bytes.\<close>

lemma skip_spec:
  assumes inv: "rbuf_inv rb" and n: "n \<le> length (contents rb)"
  shows "rbuf_inv (rbuf_skip (int n) rb) \<and> contents (rbuf_skip (int n) rb) = drop n (contents rb) \<and>
    rb_size (rbuf_skip (int n) rb) = rb_size rb \<and> rb_mode (rbuf_skip (int n) rb) = rb_mode rb"
proof -
  define N where "N = length (rb_buf rb)"
  obtain r w where rb: "rb_size rb = int N" "rb_rfx rb = int r" "rb_wfx rb = int w" "r \<le> N" "w \<le> N"
    "ahead N r w < N" "rb_used rb = int (ahead N r w)"
    using inv unfolding rbuf_inv_nat N_def by auto
  define r' where "r' = (if N - r < n then n - (N - r) else r + n)"
  have n: "n \<le> ahead N r w" using n rb by (simp add: contents_def)
  have "rbuf_skip (int n) rb = rbuf_update_size (rb\<lparr>rb_rfx := int r'\<rparr>)"
    using rb n by (auto simp: rbuf_skip_def r'_def algebra_simps)
  moreover have "ahead N r' w = ahead N r w - n" "r' \<le> N" using rb(4-6) n by (auto simp: r'_def ahead_def split: if_splits)
  moreover have "(r + n) mod N = r' mod N" using rb(4) by (auto simp: r'_def le_mod_geq add.commute)
  then have "map (ring_at (rb_buf rb) r') [0..<ahead N r w - n] = drop n (contents rb)"
    using drop_ring [of r n "rb_buf rb" r' "ahead N r w"] rb by (simp add: contents_def N_def)
  ultimately show ?thesis
    using update_size_inv [of "rb\<lparr>rb_rfx := int r'\<rparr>" r' w] rb
    by (simp add: N_def) (simp add: rbuf_update_size_def Let_def)
qed

text \<open>The first place of an octet in a list, \<open>- 1\<close> without one, and the scans of \<^verbatim>\<open>rbuf_find\<close>.\<close>

fun find_octet :: "byte \<Rightarrow> byte list \<Rightarrow> int option" where
  "find_octet c [] = None"
| "find_octet c (x # xs) = (if x = c then Some 0 else map_option (\<lambda>i. i + 1) (find_octet c xs))"

lemma find_octet_append:
  "find_octet c (xs @ ys) = (case find_octet c xs of Some i \<Rightarrow> Some i | None \<Rightarrow> map_option (\<lambda>i. int (length xs) + i) (find_octet c ys))"
  by (cases "find_octet c ys"; induction xs) (auto split: option.splits)

lemma scan_for_spec:
  "i + n \<le> length buf \<Longrightarrow> scan_for buf c (int i) (int (i + n)) = Inr (map_option (\<lambda>k. int i + k) (find_octet c (take n (drop i buf))))"
proof (induction n arbitrary: i)
  case 0
  then show ?case by (simp add: scan_for.simps)
next
  case (Suc n)
  have "take (Suc n) (drop i buf) = buf ! i # take n (drop (Suc i) buf)" using Suc.prems by (simp add: Cons_nth_drop_Suc [symmetric])
  then show ?case using Suc.IH [of "Suc i"] Suc.prems
    by (subst scan_for.simps) (cases "find_octet c (take n (drop (Suc i) buf))"; auto simp: add.commute)
qed

lemma find_spec:
  assumes inv: "rbuf_inv rb"
  shows "rbuf_find c rb = Inr (case find_octet c (contents rb) of Some i \<Rightarrow> i | None \<Rightarrow> - 1)"
proof -
  define N where "N = length (rb_buf rb)"
  obtain r w where rb: "rb_size rb = int N" "rb_rfx rb = int r" "rb_wfx rb = int w" "r \<le> N" "w \<le> N"
    "ahead N r w < N" "rb_used rb = int (ahead N r w)"
    using inv unfolding rbuf_inv_nat N_def by auto
  have c0: "contents rb = map (ring_at (rb_buf rb) r) [0..<ahead N r w]" using rb by (simp add: contents_def)
  have "ahead N r w = 0 \<or> r < w \<or> w < r \<and> 0 < ahead N r w" by (auto simp: ahead_def)
  then consider "ahead N r w = 0" | "r < w" | "w < r" "0 < ahead N r w" by metis
  then show ?thesis
  proof cases
    case 1
    then show ?thesis using rb c0 by (simp add: rbuf_find_def)
  next
    case 2
    then have "contents rb = take (w - r) (drop r (rb_buf rb))" using rb c0 ring_part [of r "w - r" "rb_buf rb"] by (simp add: ahead_def N_def)
    then show ?thesis using 2 rb scan_for_spec [of r "w - r" "rb_buf rb" c]
      by (auto simp: rbuf_find_def ahead_def N_def split: option.splits)
  next
    case 3
    then have c: "contents rb = drop r (rb_buf rb) @ take w (rb_buf rb)"
      using rb c0 ring_wrap [of r "rb_buf rb" "w + N - r"] by (simp add: ahead_def N_def)
    show ?thesis using 3 rb scan_for_spec [of r "N - r" "rb_buf rb" c] scan_for_spec [of 0 w "rb_buf rb" c] unfolding c
      by (auto simp: rbuf_find_def ahead_def N_def find_octet_append split: option.splits)
  qed
qed

text \<open>
  Moving bytes is reading them and writing what was read, when the target holds something or starts at the beginning of its buffer.
\<close>

lemma move_is_write:
  assumes src: "rbuf_inv src" and dst: "rbuf_inv dst" and start: "rb_rfx dst \<noteq> rb_wfx dst \<or> rb_rfx dst = 0" and n: "0 < n"
    and k: "int k = min (int n) (min (rb_available dst) (rb_used src))"
  shows "\<exists>src' dst'. rbuf_move (int n) src dst = Inr (int k, src', rbuf_update_size dst') \<and> write_at (int k) (take k (contents src)) dst = Inr dst' \<and>
    rbuf_inv src' \<and> contents src' = drop k (contents src) \<and> rb_size src' = rb_size src \<and> rb_mode src' = rb_mode src"
proof -
  define N where "N = length (rb_buf dst)"
  obtain r w where rb: "rb_size dst = int N" "rb_rfx dst = int r" "rb_wfx dst = int w" "r \<le> N" "w \<le> N"
    "ahead N r w < N" "rb_used dst = int (ahead N r w)" "rb_available dst = int (N - ahead N r w - 1)"
    using dst unfolding rbuf_inv_nat N_def by auto
  define contig where "contig = (if r < w then N - w else r - w)"
  have k_le: "k \<le> length (contents src)" "k + ahead N r w < N" using k rb length_contents [OF src] by auto
  have to_copy: "(if rb_used src < (if int n < rb_available dst then int n else rb_available dst) then rb_used src
      else (if int n < rb_available dst then int n else rb_available dst)) = int k"
    using k by auto
  have cont: "(if rb_rfx dst < rb_wfx dst then rb_size dst - rb_wfx dst else rb_rfx dst - rb_wfx dst) = int contig"
    using rb start by (auto simp: contig_def ahead_def)
  show ?thesis
  proof (cases "k \<le> contig")
    case True
    obtain src' where r1: "rbuf_read (int k) src = Inr (int (min k (length (contents src))), take k (contents src), src')" "rbuf_inv src'"
      "contents src' = drop k (contents src)" "rb_size src' = rb_size src" "rb_mode src' = rb_mode src"
      using read_spec [OF src] by blast
    have "\<not> (rb_rfx dst \<le> rb_wfx dst \<and> rb_size dst - rb_wfx dst < int k)" using True rb start by (auto simp: contig_def split: if_splits)
    moreover have "w + k \<le> N" using True rb k_le by (auto simp: contig_def split: if_splits)
    ultimately show ?thesis
      using True r1 n k_le rb(3) unfolding rbuf_move_def rbuf_copy_internal_def Let_def to_copy cont
      by (auto simp: write_at_def mem_zero mem_to_int N_def)
  next
    case False
    then have rw: "r < w \<or> r = 0 \<and> w = 0" using rb start k_le by (auto simp: contig_def ahead_def split: if_splits)
    obtain src1 where r1: "rbuf_read (int contig) src = Inr (int (min contig (length (contents src))), take contig (contents src), src1)" "rbuf_inv src1"
      "contents src1 = drop contig (contents src)" "rb_size src1 = rb_size src" "rb_mode src1 = rb_mode src"
      using read_spec [OF src] by blast
    obtain src2 where r2: "rbuf_read (int (k - contig)) src1 = Inr (int (min (k - contig) (length (contents src1))), take (k - contig) (contents src1), src2)" "rbuf_inv src2"
      "contents src2 = drop (k - contig) (contents src1)" "rb_size src2 = rb_size src1" "rb_mode src2 = rb_mode src1"
      using read_spec [OF r1(2)] by blast
    have d: "int k - int contig = int (k - contig)" using False by simp
    have "contig \<le> length (contents src)" "k - contig \<le> length (contents src1)" "w + contig \<le> N" "k \<le> N"
      using False k_le r1 rb rw by (auto simp: contig_def split: if_splits)
    note le = this
    have sp: "take (k - contig) (drop contig (contents src)) = take (k - contig) (drop contig (take k (contents src)))"
      "take contig (contents src) = take contig (take k (contents src))" using False by (auto simp: drop_take)
    have mv: "rbuf_move (int n) src dst = ebind (mem_to (rb_buf dst) (int w) (take contig (take k (contents src)))) (\<lambda>buf1.
        ebind (mem_to buf1 0 (take (k - contig) (drop contig (take k (contents src))))) (\<lambda>buf.
        Inr (int k, src2, rbuf_update_size (dst\<lparr>rb_buf := buf, rb_wfx := int (k - contig)\<rparr>))))"
      using False r1 r2 n rb(3) unfolding rbuf_move_def rbuf_copy_internal_def Let_def to_copy cont d sp [symmetric] by simp
    show ?thesis
    proof (cases "r < w")
      case True
      then have "rb_size dst - rb_wfx dst = int contig" using rb by (simp add: contig_def)
      then show ?thesis using True False le k_le r1 r2 rb unfolding mv
        by (simp add: write_at_def Let_def d mem_zero mem_to_int mem_from_int N_def del: of_nat_diff)
    next
      case False
      then have "r = 0" "w = 0" "contig = 0" using rw by (auto simp: contig_def)
      then show ?thesis using le k_le r1 r2 rb unfolding mv
        by (simp add: write_at_def mem_zero N_def)
    qed
  qed
qed

lemma move_spec:
  assumes src: "rbuf_inv src" and dst: "rbuf_inv dst" and start: "rb_rfx dst \<noteq> rb_wfx dst \<or> rb_rfx dst = 0"
    and k: "int k = min (int n) (min (rb_available dst) (rb_used src))"
  shows "\<exists>src' dst'. rbuf_move (int n) src dst = Inr (int k, src', dst') \<and> rbuf_inv src' \<and> rbuf_inv dst' \<and>
    contents src' = drop k (contents src) \<and> contents dst' = contents dst @ take k (contents src)"
proof (cases "n = 0")
  case True
  then show ?thesis using src dst k rbuf_inv_def [of src] rbuf_inv_def [of dst] by (auto simp: rbuf_move_def rbuf_copy_internal_def)
next
  case False
  then show ?thesis
    using move_is_write [OF src dst start _ k] write_fits [OF dst, of k "take k (contents src)"] k length_contents [OF src] by fastforce
qed

section \<open>The queue of bytes\<close>

text \<open>The calls of a client with their results, as the buffer answers them.\<close>

datatype rbuf_call = Call_read nat | Call_write "byte list" | Call_skip nat | Call_find byte | Call_clear | Call_set_mode rbuf_mode

datatype rbuf_answer = Got int "byte list" | Number int | Done

primrec rbuf_step :: "rbuf_call \<Rightarrow> rbuf \<Rightarrow> c_error + (rbuf_answer \<times> rbuf)" where
  "rbuf_step (Call_read n) rb = ebind (rbuf_read (int n) rb) (\<lambda>(k, out, rb'). Inr (Got k out, rb'))"
| "rbuf_step (Call_write bs) rb = ebind (rbuf_write (Some bs) (int (length bs)) rb) (\<lambda>(k, rb'). Inr (Number k, rb'))"
| "rbuf_step (Call_skip n) rb = Inr (Done, rbuf_skip (int n) rb)"
| "rbuf_step (Call_find c) rb = ebind (rbuf_find c rb) (\<lambda>k. Inr (Number k, rb))"
| "rbuf_step Call_clear rb = Inr (Done, rbuf_clear rb)"
| "rbuf_step (Call_set_mode m) rb = Inr (Done, rbuf_set_mode m rb)"

primrec rbuf_run :: "rbuf_call list \<Rightarrow> rbuf \<Rightarrow> c_error + (rbuf_answer list \<times> rbuf)" where
  "rbuf_run [] rb = Inr ([], rb)"
| "rbuf_run (c # cs) rb = ebind (rbuf_step c rb) (\<lambda>(a, rb'). ebind (rbuf_run cs rb') (\<lambda>(as, rb''). Inr (a # as, rb'')))"

text \<open>What a bounded queue of bytes answers: it has a capacity, a mode and its bytes.\<close>

record byte_queue =
  bq_cap :: nat
  bq_mode :: rbuf_mode
  bq_bytes :: "byte list"

primrec queue_step :: "rbuf_call \<Rightarrow> byte_queue \<Rightarrow> rbuf_answer \<times> byte_queue" where
  "queue_step (Call_read n) q = (Got (int (min n (length (bq_bytes q)))) (take n (bq_bytes q)), q\<lparr>bq_bytes := drop n (bq_bytes q)\<rparr>)"
| "queue_step (Call_write bs) q =
     (case bq_mode q of
        RBUF_MODE_BLOCKING \<Rightarrow> let k = min (length bs) (bq_cap q - length (bq_bytes q)) in (Number (int k), q\<lparr>bq_bytes := bq_bytes q @ take k bs\<rparr>)
      | RBUF_MODE_OVERWRITE \<Rightarrow> (Number (int (length bs)), q\<lparr>bq_bytes := keep_last (bq_cap q) (bq_bytes q @ bs)\<rparr>))"
| "queue_step (Call_skip n) q = (Done, q\<lparr>bq_bytes := drop n (bq_bytes q)\<rparr>)"
| "queue_step (Call_find c) q = (Number (case find_octet c (bq_bytes q) of Some i \<Rightarrow> i | None \<Rightarrow> - 1), q)"
| "queue_step Call_clear q = (Done, q\<lparr>bq_bytes := []\<rparr>)"
| "queue_step (Call_set_mode m) q = (Done, q\<lparr>bq_mode := m\<rparr>)"

primrec queue_run :: "rbuf_call list \<Rightarrow> byte_queue \<Rightarrow> rbuf_answer list \<times> byte_queue" where
  "queue_run [] q = ([], q)"
| "queue_run (c # cs) q = (case queue_step c q of (a, q') \<Rightarrow> case queue_run cs q' of (as, q'') \<Rightarrow> (a # as, q''))"

text \<open>A client that skips no more than is stored.\<close>

definition skip_ok :: "rbuf_call \<Rightarrow> byte_queue \<Rightarrow> bool" where
  "skip_ok c q = (case c of Call_skip n \<Rightarrow> n \<le> length (bq_bytes q) | _ \<Rightarrow> True)"

primrec skips_ok :: "rbuf_call list \<Rightarrow> byte_queue \<Rightarrow> bool" where
  "skips_ok [] q = True"
| "skips_ok (c # cs) q = (skip_ok c q \<and> skips_ok cs (snd (queue_step c q)))"

text \<open>The sizes a caller can pass as an \<^verbatim>\<open>int\<close>.\<close>

definition call_fits :: "rbuf_call \<Rightarrow> bool" where
  "call_fits c = (case c of Call_read n \<Rightarrow> n < 2 ^ 31 | Call_write bs \<Rightarrow> length bs < 2 ^ 31 | Call_skip n \<Rightarrow> n < 2 ^ 31 | _ \<Rightarrow> True)"

text \<open>The relation of the simulation.\<close>

definition queue_of :: "rbuf \<Rightarrow> byte_queue" where
  "queue_of rb = \<lparr>bq_cap = nat (rb_size rb) - 1, bq_mode = rb_mode rb, bq_bytes = contents rb\<rparr>"

lemma queue_of_sel [simp]: "bq_cap (queue_of rb) = nat (rb_size rb) - 1" "bq_mode (queue_of rb) = rb_mode rb" "bq_bytes (queue_of rb) = contents rb"
  by (simp_all add: queue_of_def)

lemma queue_ofI: "bq_cap q = nat (rb_size rb) - 1 \<Longrightarrow> bq_mode q = rb_mode rb \<Longrightarrow> bq_bytes q = contents rb \<Longrightarrow> q = queue_of rb"
  by (simp add: queue_of_def)

lemma free_places: "rbuf_inv rb \<Longrightarrow> int (nat (rb_size rb) - 1 - length (contents rb)) = rb_available rb"
  using length_contents [of rb] by (auto simp: rbuf_inv_def)

lemma step_simulates:
  assumes inv: "rbuf_inv rb" and small: "rb_size rb \<le> 2 ^ 30" and ok: "skip_ok c (queue_of rb)"
  shows "\<exists>rb'. rbuf_step c rb = Inr (fst (queue_step c (queue_of rb)), rb') \<and> rbuf_inv rb' \<and> rb_size rb' = rb_size rb \<and>
    queue_of rb' = snd (queue_step c (queue_of rb))"
proof (cases c)
  case (Call_read n)
  then show ?thesis using read_spec [OF inv, of n] by (auto intro!: queue_ofI [symmetric])
next
  case (Call_write bs)
  then show ?thesis
    using write_blocking [OF inv _ _ free_places [OF inv], of "length bs" bs] write_overwrite [OF inv _ _ small, of "length bs" bs]
    by (cases "rb_mode rb") (auto simp: Let_def intro!: queue_ofI [symmetric])
next
  case (Call_skip n)
  then show ?thesis using skip_spec [OF inv, of n] ok by (auto simp: skip_ok_def intro!: queue_ofI [symmetric])
next
  case (Call_find o)
  then show ?thesis using find_spec [OF inv] inv by simp
next
  case Call_clear
  then show ?thesis using clear_spec [OF inv] by (auto intro!: queue_ofI [symmetric])
next
  case (Call_set_mode m)
  then show ?thesis using set_mode_spec [OF inv] by (auto simp: rbuf_set_mode_def intro!: queue_ofI [symmetric])
qed

lemma run_simulates:
  "rbuf_inv rb \<Longrightarrow> rb_size rb \<le> 2 ^ 30 \<Longrightarrow> skips_ok cs (queue_of rb) \<Longrightarrow>
   \<exists>rb'. rbuf_run cs rb = Inr (fst (queue_run cs (queue_of rb)), rb') \<and> rbuf_inv rb' \<and> queue_of rb' = snd (queue_run cs (queue_of rb))"
proof (induction cs arbitrary: rb)
  case (Cons c cs)
  then obtain rb' where s: "rbuf_step c rb = Inr (fst (queue_step c (queue_of rb)), rb')" "rbuf_inv rb'" "rb_size rb' = rb_size rb"
    "queue_of rb' = snd (queue_step c (queue_of rb))"
    using step_simulates [of rb c] by auto
  then show ?case using Cons.IH [of rb'] Cons.prems(2,3) by (auto split: prod.splits)
qed simp

text \<open>C14: Every sequence of calls of \<^verbatim>\<open>rbuf_read\<close>, \<^verbatim>\<open>rbuf_write\<close>, \<^verbatim>\<open>rbuf_skip\<close>, \<^verbatim>\<open>rbuf_find\<close>, \<^verbatim>\<open>rbuf_clear\<close> and \<^verbatim>\<open>rbuf_set_mode\<close> that skips no more than is stored, with
  sizes that are not negative and fit an \<^verbatim>\<open>int\<close>, on a new ring buffer of a size below \<open>2 ^ 30\<close>, is answered as a queue of bytes answers it: nothing is read or written outside
  the buffer, bytes come out in the order they went in, a blocking write stores what fits and an overwriting one drops the oldest bytes, also where the
  stored bytes go around the end of the buffer. The calls of \<^verbatim>\<open>rbuf_read_until\<close>, \<^verbatim>\<open>rbuf_move\<close> and \<^verbatim>\<open>rbuf_copy\<close> are not among them: they can break the queue, as the theorems below show.
\<close>

theorem rbuf_refines_queue:
  assumes "\<And>k. length (fresh k) = k" and "0 \<le> sz" and "sz < 2 ^ 30" and "\<forall>c \<in> set cs. call_fits c"
    and "skips_ok cs \<lparr>bq_cap = (if sz = 0 then 4096 else nat sz), bq_mode = RBUF_MODE_BLOCKING, bq_bytes = []\<rparr>"
  shows "\<exists>rb0 rb. rbuf_create fresh sz = Some rb0 \<and> rbuf_run cs rb0 =
      Inr (fst (queue_run cs \<lparr>bq_cap = (if sz = 0 then 4096 else nat sz), bq_mode = RBUF_MODE_BLOCKING, bq_bytes = []\<rparr>), rb) \<and>
    contents rb = bq_bytes (snd (queue_run cs \<lparr>bq_cap = (if sz = 0 then 4096 else nat sz), bq_mode = RBUF_MODE_BLOCKING, bq_bytes = []\<rparr>))"
proof -
  obtain rb0 where rb0: "rbuf_create fresh sz = Some rb0" "rbuf_inv rb0" "contents rb0 = []" "rb_mode rb0 = RBUF_MODE_BLOCKING"
    "rb_size rb0 = (if sz = 0 then 4097 else sz + 1)"
    using create_spec [OF assms(1-3)] by blast
  then have q: "\<lparr>bq_cap = (if sz = 0 then 4096 else nat sz), bq_mode = RBUF_MODE_BLOCKING, bq_bytes = []\<rparr> = queue_of rb0"
    using assms(2) by (intro queue_ofI) auto
  have "rb_size rb0 \<le> 2 ^ 30" using rb0(5) assms(3) by simp
  from run_simulates [OF rb0(2) this, of cs] assms(5) rb0(1) show ?thesis unfolding q by (metis queue_of_sel(3))
qed

theorem rbuf_refines_queue_witness:
  "\<exists>rb0 rb. rbuf_create (\<lambda>k. replicate k 0) 2 = Some rb0 \<and>
    rbuf_run [Call_write [1, 2], Call_read 1, Call_set_mode RBUF_MODE_OVERWRITE, Call_write [3, 4], Call_skip 1, Call_find 4, Call_read 9] rb0 =
      Inr ([Number 2, Got 1 [1], Done, Number 2, Done, Number 0, Got 1 [4]], rb) \<and> contents rb = []"
  using rbuf_refines_queue [of "\<lambda>k. replicate k 0" 2
      "[Call_write [1, 2], Call_read 1, Call_set_mode RBUF_MODE_OVERWRITE, Call_write [3, 4], Call_skip 1, Call_find 4, Call_read 9]"]
  by (simp add: skip_ok_def call_fits_def keep_last_def Let_def)

section \<open>Calls that go wrong\<close>

text \<open>
  Skipping more than is stored, yet less than the size of the buffer, moves the read offset past the write offset: the buffer then holds bytes nobody wrote.
\<close>

theorem skip_invents_bytes:
  "map_option (\<lambda>rb. contents (rbuf_skip 2 rb)) (rbuf_create (\<lambda>k. replicate k 7) 4) = Some [7, 7, 7]"
  by (simp add: rbuf_create_def int32_def rbuf_skip_def rbuf_update_size_def contents_def ring_at_def Let_def upt_rec)

text \<open>Reading up to an octet reads past the stored bytes: from an empty buffer it returns as many bytes as were asked for.\<close>

theorem read_until_invents_bytes:
  "map_option (\<lambda>rb. map_sum id fst (rbuf_read_until 1 3 rb)) (rbuf_create (\<lambda>k. replicate k 7) 4) = Some (Inr [7, 7, 7])"
  by (simp add: rbuf_read_until_def rbuf_create_def int32_def until_end.simps until_rest.simps Let_def)

text \<open>A size of the largest \<^verbatim>\<open>int\<close> overflows: no buffer is created.\<close>

theorem create_largest_fails: "rbuf_create fresh (2 ^ 31 - 1) = None"
  by (simp add: rbuf_create_def int32_def)

text \<open>
  Moving into a buffer that is empty but not at its beginning stores the bytes at the beginning, while the read offset stays: the target loses what was
  moved.
\<close>

theorem move_into_drained_loses_bytes:
  "(case rbuf_run [Call_write [1, 2], Call_read 2] (the (rbuf_create (\<lambda>k. replicate k 7) 4)) of
      Inr (_, dst) \<Rightarrow> (case rbuf_run [Call_write [5, 6]] (the (rbuf_create (\<lambda>k. replicate k 7) 4)) of
         Inr (_, src) \<Rightarrow> (case rbuf_move 2 src dst of Inr (k, src', dst') \<Rightarrow> (k, contents src', contents dst') = (2, [], []) | _ \<Rightarrow> False) | _ \<Rightarrow> False) | _ \<Rightarrow> False)"
  by code_simp

text \<open>
  Copying from a buffer whose bytes go around the end adds the length of the first part to the write offset twice: the target holds bytes nobody wrote.
\<close>

theorem copy_around_end_adds_bytes:
  "(case rbuf_run [Call_write [1, 2, 3], Call_read 2, Call_write [4, 5]] (the (rbuf_create (\<lambda>k. replicate k 7) 3)) of
      Inr (_, src) \<Rightarrow> (case rbuf_run [Call_write [9]] (the (rbuf_create (\<lambda>k. replicate k 7) 20)) of
         Inr (_, dst) \<Rightarrow> (case rbuf_copy 3 src dst of
            Inr (k, src', dst') \<Rightarrow> (contents src, k, contents dst') = ([3, 4, 5], 3, [9, 3, 4, 5, 7, 7]) | _ \<Rightarrow> False) | _ \<Rightarrow> False) | _ \<Rightarrow> False)"
  by code_simp

end
