(* ===== verification/Text_Utils.thy ===== *)
theory Text_Utils
  imports String_Utils
begin

text \<open>
  The rest of src/src/utils/string_utils.c: appending, random strings and the words of a file; the collection of a command's output in
  src/src/utils/cmd_utils.c; the stopwatch of src/src/utils/timer_utils.c; the counters of src/src/utils/profile/mem_perf.c. What a file holds, what a command prints and returns, the numbers of \<^verbatim>\<open>rand\<close> and the
  readings of the clock are arguments. Lengths fit an \<^verbatim>\<open>int\<close>.
\<close>

section \<open>Reading lines\<close>

text \<open>
  \<^verbatim>\<open>fgets(buf, n, file)\<close> with the bytes that are left in the file: at most \<open>n - 1\<close> of them, up to the end of the line. The caller sees a C string.
\<close>

primrec take_line :: "nat \<Rightarrow> byte list \<Rightarrow> byte list \<times> byte list" where
  "take_line 0 s = ([], s)"
| "take_line (Suc k) s =
     (case s of [] \<Rightarrow> ([], []) | b # r \<Rightarrow> if b = 10 then ([b], r) else case take_line k r of (l, r') \<Rightarrow> (b # l, r'))"

definition fgets :: "nat \<Rightarrow> byte list \<Rightarrow> (cstring \<times> byte list) option" where
  "fgets n s = (if s = [] then None else case take_line (n - 1) s of (l, r) \<Rightarrow> Some (cstr l, r))"

lemma take_line_append: "take_line k s = (l, r) \<Longrightarrow> s = l @ r"
  by (induction k arbitrary: s l r) (auto split: list.splits if_splits prod.splits)

lemma take_line_less: "s \<noteq> [] \<Longrightarrow> take_line (Suc k) s = (l, r) \<Longrightarrow> length r < length s"
  using take_line_append [of "Suc k" s l r] by (cases l) (auto split: list.splits if_splits prod.splits)

lemma fgets_less: "fgets (Suc (Suc k)) s = Some (w, r) \<Longrightarrow> length r < length s"
  by (auto simp: fgets_def take_line_less simp del: take_line.simps split: if_splits prod.splits)

text \<open>\<open>j + 1\<close> after the loop that goes back over the ends of lines.\<close>

primrec strip_eol :: "nat \<Rightarrow> cstring \<Rightarrow> nat" where
  "strip_eol 0 w = 0"
| "strip_eol (Suc j) w = (if w ! j = 10 \<or> w ! j = 13 then strip_eol j w else Suc j)"

function words_loop :: "nat \<Rightarrow> nat \<Rightarrow> byte list \<Rightarrow> cstring list \<Rightarrow> c_error + cstring list" where
  "words_loop i lines_allocated file words =
     (let allocated = (if lines_allocated \<le> i then lines_allocated * 2 else lines_allocated)
      in if allocated \<le> length words then Inl Out_Of_Bounds
         else case fgets 511 file of
                None \<Rightarrow> Inr words
              | Some (w, rest) \<Rightarrow> words_loop (i + 1) allocated rest (words @ [take (strip_eol (length w) w) w]))"
  by pat_completeness auto
termination
proof (relation "measure (\<lambda>(i, a, file, words). length file)")
qed (use fgets_less [of 509] in auto)

declare words_loop.simps [simp del]

text \<open>Without the file the program ends.\<close>

definition read_words_from_text :: "(cstring \<Rightarrow> byte list option) \<Rightarrow> cstring \<Rightarrow> c_error + (cstring list \<times> nat)" where
  "read_words_from_text files fileName =
     (case files fileName of
        None \<Rightarrow> Inl No_Return
      | Some content \<Rightarrow> ebind (words_loop 0 128 content []) (\<lambda>words. Inr (words, length words)))"

section \<open>Appending, and the output of a command\<close>

text \<open>\<open>s\<close> is what \<^verbatim>\<open>vasprintf\<close> makes of the format and its arguments.\<close>

definition str_append :: "cstring option \<Rightarrow> cstring \<Rightarrow> cstring option" where
  "str_append result s = Some ((case result of None \<Rightarrow> [] | Some r \<Rightarrow> r) @ s)"

function output_loop :: "byte list \<Rightarrow> cstring option \<Rightarrow> cstring option" where
  "output_loop out rst = (case fgets 128 out of None \<Rightarrow> rst | Some (buf, rest) \<Rightarrow> output_loop rest (str_append rst buf))"
  by pat_completeness auto
termination
proof (relation "measure (\<lambda>(out, rst). length out)")
qed (use fgets_less [of 126] in auto)

declare output_loop.simps [simp del]

text \<open>\<open>popen\<close> fails, or gives the output of the command and the status \<^verbatim>\<open>pclose\<close> returns.\<close>

definition execute_cmd :: "(cstring \<Rightarrow> (byte list \<times> int) option) \<Rightarrow> cstring \<Rightarrow> cstring option" where
  "execute_cmd popen cmd =
     (case popen cmd of
        None \<Rightarrow> None
      | Some (out, status) \<Rightarrow> (let rst = output_loop out (Some []) in if status \<noteq> 0 then None else rst))"

section \<open>Random strings\<close>

definition charset :: "byte list" where
  "charset = str ''.-_0123456789abcdefghijklmnopqrstuvwxyzABCDEFGHIJKLMNOPQRSTUVWXYZ''"

definition RAND_MAX :: nat where
  "RAND_MAX = 2147483647"

text \<open>
  \<^verbatim>\<open>(double) rand() / RAND_MAX * (sizeof charset - 1)\<close>, truncated: the quotient is at least \<open>1 / RAND_MAX\<close> away from the integers it does not meet, far more than the
  doubles round, so that the truncation is exact. The place behind the last character holds the NUL of the literal.
\<close>

definition random_char :: "nat \<Rightarrow> c_error + byte" where
  "random_char r = (let i = r * length charset div RAND_MAX in if i \<le> length charset then Inr ((charset @ [0]) ! i) else Inl Out_Of_Bounds)"

text \<open>The calls of \<^verbatim>\<open>rand\<close> are numbered; \<open>k\<close> is the number of the next one.\<close>

primrec random_chars :: "(nat \<Rightarrow> nat) \<Rightarrow> nat \<Rightarrow> nat \<Rightarrow> c_error + byte list" where
  "random_chars rand k 0 = Inr []"
| "random_chars rand k (Suc n) = ebind (random_char (rand k)) (\<lambda>c. ebind (random_chars rand (Suc k) n) (\<lambda>cs. Inr (c # cs)))"

definition random_length :: "(nat \<Rightarrow> nat) \<Rightarrow> nat \<Rightarrow> int \<Rightarrow> int \<Rightarrow> c_error + (int \<times> nat)" where
  "random_length rand k maxlen use_dynamic_length =
     (if use_dynamic_length = 1
      then if maxlen = 0 then Inl Div_By_Zero else Inr (int (rand k) mod \<bar>maxlen\<bar> + 1, Suc k)
      else Inr (maxlen, k))"

primrec random_loop :: "(nat \<Rightarrow> nat) \<Rightarrow> nat \<Rightarrow> nat \<Rightarrow> int \<Rightarrow> int \<Rightarrow> c_error + byte list list" where
  "random_loop rand k 0 maxlen use_dynamic_length = Inr []"
| "random_loop rand k (Suc c) maxlen use_dynamic_length =
     ebind (random_length rand k maxlen use_dynamic_length) (\<lambda>(len, k1).
     if len < 0 then Inl Out_Of_Bounds
     else ebind (random_chars rand k1 (nat len)) (\<lambda>cs.
          ebind (random_loop rand (k1 + nat len) c maxlen use_dynamic_length) (\<lambda>rest. Inr ((cs @ [0]) # rest))))"

definition gen_random_strings :: "(nat \<Rightarrow> nat) \<Rightarrow> int \<Rightarrow> int \<Rightarrow> int \<Rightarrow> c_error + byte list list" where
  "gen_random_strings rand count maxlen use_dynamic_length = random_loop rand 0 (nat count) maxlen use_dynamic_length"

definition gen_rand_strings :: "(nat \<Rightarrow> nat) \<Rightarrow> int \<Rightarrow> int \<Rightarrow> c_error + byte list list" where
  "gen_rand_strings rand count maxlen = gen_random_strings rand count maxlen 1"

section \<open>The stopwatch\<close>

record stopwatch =
  start_mark :: uint64
  pause_mark :: uint64
  running :: bool
  paused :: bool

text \<open>\<open>now\<close> is the reading of the clock at the call, in nanoseconds.\<close>

definition get_ticks :: "uint64 \<Rightarrow> uint64 \<Rightarrow> uint64" where
  "get_ticks tv_sec tv_nsec = tv_nsec + tv_sec * 1000000000"

definition timer_start :: "uint64 \<Rightarrow> stopwatch \<Rightarrow> stopwatch" where
  "timer_start now t = t\<lparr>start_mark := now, pause_mark := 0, running := True, paused := False\<rparr>"

definition timer_pause :: "uint64 \<Rightarrow> stopwatch \<Rightarrow> stopwatch" where
  "timer_pause now t =
     (if \<not> running t \<or> paused t then t else t\<lparr>pause_mark := now - start_mark t, running := False, paused := True\<rparr>)"

definition timer_unpause :: "uint64 \<Rightarrow> stopwatch \<Rightarrow> stopwatch" where
  "timer_unpause now t =
     (if running t \<or> \<not> paused t then t else t\<lparr>start_mark := now - pause_mark t, running := True, paused := False\<rparr>)"

definition timer_delta_ns :: "uint64 \<Rightarrow> stopwatch \<Rightarrow> uint64" where
  "timer_delta_ns now t =
     (if running t then now - start_mark t else if paused t then pause_mark t else pause_mark t - start_mark t)"

definition timer_delta_us :: "uint64 \<Rightarrow> stopwatch \<Rightarrow> uint64" where
  "timer_delta_us now t = timer_delta_ns now t div 1000"

definition timer_delta_ms :: "uint64 \<Rightarrow> stopwatch \<Rightarrow> uint64" where
  "timer_delta_ms now t = timer_delta_ns now t div 1000000"

definition timer_delta_s :: "uint64 \<Rightarrow> stopwatch \<Rightarrow> uint64" where
  "timer_delta_s now t = timer_delta_ns now t div 1000000000"

definition timer_delta_m :: "uint64 \<Rightarrow> stopwatch \<Rightarrow> uint64" where
  "timer_delta_m now t = timer_delta_s now t div 60"

definition timer_delta_h :: "uint64 \<Rightarrow> stopwatch \<Rightarrow> uint64" where
  "timer_delta_h now t = timer_delta_m now t div 60"

section \<open>Counting allocations\<close>

text \<open>The counters of src/src/utils/profile/mem_perf.c: the register after the call. The block itself is what the C library returns.\<close>

definition ctr_malloc :: "size_t \<Rightarrow> size_t \<Rightarrow> size_t" where
  "ctr_malloc sz reg = reg + sz"

definition ctr_calloc :: "size_t \<Rightarrow> size_t \<Rightarrow> size_t \<Rightarrow> size_t" where
  "ctr_calloc nitems sz reg = (let t = nitems * sz in reg + t)"

definition ctr_realloc :: "size_t \<Rightarrow> size_t \<Rightarrow> size_t" where
  "ctr_realloc new_size reg = new_size"

text \<open>A reallocation forgets all other blocks: afterwards the register holds the size of one block only.\<close>

theorem realloc_forgets_blocks: "ctr_realloc 200 (ctr_calloc 25 4 (ctr_malloc 1000 0)) = 200"
  by (simp add: ctr_malloc_def ctr_calloc_def ctr_realloc_def)

section \<open>Words of a file\<close>

lemma take_line_line: "10 \<notin> set l \<Longrightarrow> length l < k \<Longrightarrow> take_line k (l @ 10 # r) = (l @ [10], r)"
proof (induction l arbitrary: k)
  case Nil
  then show ?case by (cases k) auto
next
  case (Cons b l)
  then show ?case by (cases k) auto
qed

lemma strip_eol_word: "10 \<notin> set w \<Longrightarrow> 13 \<notin> set w \<Longrightarrow> strip_eol (length w) (w @ s) = length w"
  by (cases w rule: rev_cases) (auto simp: nth_append)

definition word_line :: "cstring \<Rightarrow> bool" where
  "word_line w \<longleftrightarrow> no_nul w \<and> 10 \<notin> set w \<and> 13 \<notin> set w \<and> length w < 510"

lemma fgets_word: "word_line w \<Longrightarrow> fgets 511 (w @ 10 # r) = Some (w @ [10], r)"
  by (auto simp: fgets_def take_line_line word_line_def cstr_def no_nul_def takeWhile_eq_all_conv split: prod.splits)

lemma words_loop_lines:
  "\<forall>w \<in> set ws. word_line w \<Longrightarrow> i = length acc \<Longrightarrow> length acc \<le> a \<Longrightarrow> 0 < a \<Longrightarrow>
   words_loop i a (concat (map (\<lambda>w. w @ [10]) ws)) acc = Inr (acc @ ws)"
proof (induction ws arbitrary: i a acc)
  case Nil
  then show ?case by (subst words_loop.simps) (auto simp: fgets_def Let_def)
next
  case (Cons w ws)
  have "strip_eol (length (w @ [10])) (w @ [10]) = length w"
    using Cons.prems(1) strip_eol_word [of w "[10]"] by (auto simp: word_line_def nth_append)
  then show ?case using Cons.prems fgets_word [of w "concat (map (\<lambda>w. w @ [10]) ws)"]
      Cons.IH [of "Suc i" "acc @ [w]" "if a \<le> i then a * 2 else a"]
    by (subst words_loop.simps) (auto simp: Let_def)
qed

text \<open>
  A file of lines, each shorter than 510 bytes and without a CR or a NUL, gives exactly its lines, as many as there are: the array of words grows before it is too
  short.
\<close>

theorem read_words_roundtrip:
  assumes "\<forall>w \<in> set ws. word_line w" and "files name = Some (concat (map (\<lambda>w. w @ [10]) ws))"
  shows "read_words_from_text files name = Inr (ws, length ws)"
  using words_loop_lines [OF assms(1), of 0 "[]" 128] assms(2) by (simp add: read_words_from_text_def)

theorem read_words_roundtrip_witness:
  "read_words_from_text (\<lambda>_. Some (str ''ab'' @ [10] @ [10] @ str ''c'' @ [10])) [] = Inr ([str ''ab'', [], str ''c''], 3)"
  using read_words_roundtrip [of "[str ''ab'', [], str ''c'']" "\<lambda>_. Some (str ''ab'' @ [10] @ [10] @ str ''c'' @ [10])" "[]"]
  by (simp add: word_line_def no_nul_def str_def)

lemma take_line_long: "10 \<notin> set l \<Longrightarrow> length l = k \<Longrightarrow> take_line k (l @ r) = (l, r)"
proof (induction l arbitrary: k)
  case Nil
  then show ?case by (cases k) (auto split: list.splits)
next
  case (Cons b l)
  then show ?case by (cases k) auto
qed

text \<open>A line of 510 bytes becomes two words, the second one empty.\<close>

theorem long_line_two_words:
  "read_words_from_text (\<lambda>_. Some (replicate 510 97 @ [10])) [] = Inr ([replicate 510 97, []], 2)"
proof -
  have f1: "fgets 511 (replicate 510 97 @ [10]) = Some (replicate 510 97, [10])"
    using take_line_long [of "replicate 510 97" 510 "[10]"] by (simp add: fgets_def cstr_def)
  have f2: "fgets 511 [10] = Some ([10], [])" using fgets_word [of "[]" "[]"] by (simp add: word_line_def no_nul_def)
  have f3: "fgets 511 [] = None" by (simp add: fgets_def)
  have "strip_eol (length (replicate 510 97)) (replicate 510 (97 :: byte)) = 510"
    using strip_eol_word [of "replicate 510 97" "[]"] by simp
  then show ?thesis
    using f1 f2 f3 by (simp add: read_words_from_text_def words_loop.simps Let_def)
qed

section \<open>The output of a command, whole\<close>

lemma output_loop_all: "no_nul out \<Longrightarrow> output_loop out (Some r) = Some (r @ out)"
proof (induction out "Some r" arbitrary: r rule: output_loop.induct)
  case (1 out)
  show ?case
  proof (cases "out = []")
    case True
    then show ?thesis by (simp add: output_loop.simps fgets_def)
  next
    case False
    obtain l rest where l: "take_line 127 out = (l, rest)" by fastforce
    then have out: "out = l @ rest" by (rule take_line_append)
    then have "cstr l = l" using "1.prems" by (auto simp: cstr_def no_nul_def takeWhile_eq_all_conv)
    then have f: "fgets 128 out = Some (l, rest)" using l False by (simp add: fgets_def del: take_line.simps)
    have "no_nul rest" using "1.prems" out by (auto simp: no_nul_def)
    then have "output_loop rest (str_append (Some r) l) = Some ((r @ l) @ rest)"
      using "1.hyps" [OF f refl, of "r @ l"] by (simp add: str_append_def)
    then show ?thesis using f by (subst output_loop.simps) (simp add: out [symmetric])
  qed
qed

text \<open>A command that ends well gives all it printed, however long, when it prints no NUL; one that fails gives nothing.\<close>

theorem execute_cmd_output:
  assumes "popen cmd = Some (out, status)" and "no_nul out"
  shows "execute_cmd popen cmd = (if status = 0 then Some out else None)"
  using assms output_loop_all [of out "[]"] by (simp add: execute_cmd_def Let_def)

theorem execute_cmd_output_witness:
  "execute_cmd (\<lambda>_. Some (str ''ok'', 0)) (str ''ls'') = Some (str ''ok'')"
  using execute_cmd_output [of "\<lambda>_. Some (str ''ok'', 0)" "str ''ls''" "str ''ok''" 0] by (simp add: no_nul_def str_def)

section \<open>What random strings look like\<close>

lemma charset_length: "length charset = 65"
  by (simp add: charset_def str_def)

lemma random_char_ok: "r \<le> RAND_MAX \<Longrightarrow> \<exists>c. random_char r = Inr c"
proof -
  assume "r \<le> RAND_MAX"
  then have "r * 65 div RAND_MAX \<le> RAND_MAX * 65 div RAND_MAX" by (intro div_le_mono mult_le_mono1)
  then show ?thesis by (simp add: random_char_def charset_length RAND_MAX_def)
qed

lemma random_char_in: "r < RAND_MAX \<Longrightarrow> random_char r = Inr c \<Longrightarrow> c \<in> set charset"
proof -
  assume r: "r < RAND_MAX" "random_char r = Inr c"
  then have "r * 65 < 65 * RAND_MAX" by simp
  then have "r * 65 div RAND_MAX < 65" by (simp add: RAND_MAX_def less_mult_imp_div_less)
  then show ?thesis using r(2) by (auto simp: random_char_def charset_length nth_append Let_def split: if_splits)
qed

lemma random_chars_ok:
  "\<forall>j. rand j \<le> RAND_MAX \<Longrightarrow> \<exists>cs. random_chars rand k n = Inr cs \<and> length cs = n \<and> ((\<forall>j. rand j < RAND_MAX) \<longrightarrow> set cs \<subseteq> set charset)"
proof (induction n arbitrary: k)
  case (Suc n)
  obtain c where c: "random_char (rand k) = Inr c" using Suc.prems random_char_ok by blast
  then show ?case using Suc.IH [OF Suc.prems, of "Suc k"] random_char_in [of "rand k" c] by fastforce
qed simp

definition random_string :: "nat \<Rightarrow> byte list \<Rightarrow> bool" where
  "random_string maxlen buf \<longleftrightarrow> (\<exists>s. buf = s @ [0] \<and> s \<noteq> [] \<and> length s \<le> maxlen \<and> set s \<subseteq> set charset)"

lemma random_loop_ok:
  assumes "\<forall>j. rand j < RAND_MAX" and "0 < m"
  shows "\<exists>bufs. random_loop rand k c (int m) 1 = Inr bufs \<and> length bufs = c \<and> (\<forall>b \<in> set bufs. random_string m b)"
proof (induction c arbitrary: k)
  case (Suc c)
  define n where "n = rand k mod m + 1"
  have n: "int (rand k) mod \<bar>int m\<bar> + 1 = int n" "0 < n" "n \<le> m"
    using assms(2) mod_less_divisor [of m "rand k"] by (auto simp: n_def zmod_int intro: Suc_leI)
  obtain cs where cs: "random_chars rand (Suc k) n = Inr cs" "length cs = n" "set cs \<subseteq> set charset"
    using random_chars_ok [of rand "Suc k" n] assms(1) by (auto simp: less_imp_le)
  have "random_string m (cs @ [0])" using cs n by (auto simp: random_string_def)
  then show ?case using Suc.IH [of "Suc k + n"] n(1) cs(1) assms(2) by (auto simp: random_length_def)
qed simp

text \<open>
  As long as \<^verbatim>\<open>rand\<close> does not return its largest number, every string has between one and \<open>maxlen\<close> characters, all of the set, and is terminated.
\<close>

theorem gen_rand_strings_ok:
  assumes "\<forall>j. rand j < RAND_MAX" and "0 < m" and "0 \<le> count"
  shows "\<exists>bufs. gen_rand_strings rand count (int m) = Inr bufs \<and> int (length bufs) = count \<and> (\<forall>b \<in> set bufs. random_string m b)"
  using random_loop_ok [OF assms(1,2), of 0 "nat count"] assms(3) by (auto simp: gen_rand_strings_def gen_random_strings_def)

theorem gen_rand_strings_ok_witness:
  "\<exists>bufs. gen_rand_strings (\<lambda>j. j mod 7) 3 (int 4) = Inr bufs \<and> int (length bufs) = 3 \<and> (\<forall>b \<in> set bufs. random_string 4 b)"
proof (rule gen_rand_strings_ok)
  show "\<forall>j. j mod 7 < RAND_MAX" by (simp add: RAND_MAX_def less_trans [of _ 7])
qed simp_all

text \<open>The largest number of \<^verbatim>\<open>rand\<close> gives the NUL behind the characters: a string of one character is empty.\<close>

theorem random_string_cut:
  "ebind (gen_random_strings (\<lambda>_. RAND_MAX) 1 1 0) (\<lambda>bufs. Inr (map cstr bufs)) = Inr [[]]"
  by (simp add: gen_random_strings_def random_length_def random_char_def charset_length RAND_MAX_def cstr_def nth_append)

section \<open>The time a stopwatch shows\<close>

datatype press = Pause | Unpause

primrec press_at :: "press \<Rightarrow> uint64 \<Rightarrow> stopwatch \<Rightarrow> stopwatch" where
  "press_at Pause now t = timer_pause now t"
| "press_at Unpause now t = timer_unpause now t"

text \<open>The sum of the intervals in which the watch runs; a press that changes nothing counts for nothing.\<close>

fun run_time :: "uint64 option \<Rightarrow> (press \<times> uint64) list \<Rightarrow> uint64 \<Rightarrow> uint64" where
  "run_time since [] now = (case since of Some t \<Rightarrow> now - t | None \<Rightarrow> 0)"
| "run_time (Some t) ((Pause, p) # ps) now = (p - t) + run_time None ps now"
| "run_time (Some t) ((Unpause, p) # ps) now = run_time (Some t) ps now"
| "run_time None ((Pause, p) # ps) now = run_time None ps now"
| "run_time None ((Unpause, p) # ps) now = run_time (Some p) ps now"

definition shows_time :: "stopwatch \<Rightarrow> uint64 option \<Rightarrow> uint64 \<Rightarrow> bool" where
  "shows_time t since acc \<longleftrightarrow>
     (case since of Some s \<Rightarrow> running t \<and> \<not> paused t \<and> start_mark t = s - acc | None \<Rightarrow> \<not> running t \<and> paused t \<and> pause_mark t = acc)"

lemma presses_show:
  "shows_time t since acc \<Longrightarrow> timer_delta_ns now (fold (\<lambda>(p, at) t. press_at p at t) ps t) = acc + run_time since ps now"
proof (induction since ps now arbitrary: t acc rule: run_time.induct)
  case (1 since now)
  then show ?case by (auto simp: shows_time_def timer_delta_ns_def split: option.splits)
next
  case (2 s p ps now)
  then show ?case using "2.IH" [of "timer_pause p t" "acc + (p - s)"] by (simp add: shows_time_def timer_pause_def algebra_simps)
next
  case (3 s p ps now)
  then show ?case using "3.IH" [of t acc] by (simp add: shows_time_def timer_unpause_def)
next
  case (4 p ps now)
  then show ?case using "4.IH" [of t acc] by (simp add: shows_time_def timer_pause_def)
next
  case (5 p ps now)
  then show ?case using "5.IH" [of "timer_unpause p t" acc] by (simp add: shows_time_def timer_unpause_def)
qed

text \<open>
  A stopwatch shows the time since its start, less the time it was paused, whatever the order of pauses and continuations, modulo the width of its marks.
\<close>

theorem stopwatch_shows_run_time:
  "timer_delta_ns now (fold (\<lambda>(p, at) t. press_at p at t) ps (timer_start t0 t)) = run_time (Some t0) ps now"
  using presses_show [of "timer_start t0 t" "Some t0" 0] by (simp add: shows_time_def timer_start_def)

end
