(* ===== verification/Meta_Release.thy ===== *)
theory Meta_Release
  imports Meta_Extractor
begin

text \<open>
  Setting up an object and releasing what a collector holds, src/src/metadata/miqs_meta_collector.c. Releasing is the sequence of the blocks handed to \<^verbatim>\<open>free\<close>; to read
  a node that was released is \<open>Bad_Pointer\<close>. The loops run on fuel, one more than there are nodes, which is enough because a node met twice is an error.
\<close>

section \<open>The operations\<close>

text \<open>The fields of the object that the model has; \<open>nodes\<close> is the memory the list of attributes lies in.\<close>

definition init_data_object :: "cstring \<Rightarrow> c_int \<Rightarrow> attr_node list \<Rightarrow> nat option \<Rightarrow> miqs_data_object" where
  "init_data_object name n nodes attr_list_head =
     \<lparr>obj_name = name, obj_type = MIQS_OT_UNKNOWN, num_attrs = n, attr_nodes = nodes, attr_linked_list = attr_list_head,
      do_next = None, do_head = None, do_tail = None\<rparr>"

datatype released = Obj_Name nat | Obj_Info nat | Attr_Value nat nat | Attr_Node nat nat | Data_Object nat

primrec free_attrs :: "nat \<Rightarrow> nat \<Rightarrow> attr_node list \<Rightarrow> nat option \<Rightarrow> released list \<Rightarrow> c_error + released list" where
  "free_attrs 0 ob nodes curr_attr freed = Inl No_Return"
| "free_attrs (Suc k) ob nodes curr_attr freed =
     (case curr_attr of
        None \<Rightarrow> Inr freed
      | Some a \<Rightarrow> if length nodes \<le> a \<or> Attr_Node ob a \<in> set freed then Inl Bad_Pointer
                  else free_attrs k ob nodes (an_next (nodes ! a)) (freed @ [Attr_Value ob a, Attr_Node ob a]))"

primrec free_objects :: "nat \<Rightarrow> miqs_data_object list \<Rightarrow> nat option \<Rightarrow> released list \<Rightarrow> c_error + released list" where
  "free_objects 0 objs curr_obj freed = Inl No_Return"
| "free_objects (Suc k) objs curr_obj freed =
     (case curr_obj of
        None \<Rightarrow> Inr freed
      | Some i \<Rightarrow>
          if length objs \<le> i \<or> Data_Object i \<in> set freed then Inl Bad_Pointer
          else let nodes = attr_nodes (objs ! i)
               in ebind (free_attrs (Suc (length nodes)) i nodes (attr_linked_list (objs ! i)) (freed @ [Obj_Name i, Obj_Info i])) (\<lambda>freed'.
                  free_objects k objs (do_next (objs ! i)) (freed' @ [Data_Object i])))"

definition de_init_metadata_collector :: "'o miqs_metadata_collector \<Rightarrow> c_error + released list" where
  "de_init_metadata_collector meta_coll =
     free_objects (Suc (length (mc_objects meta_coll))) (mc_objects meta_coll) (object_linked_list meta_coll) []"

section \<open>What is released\<close>

definition released_attrs :: "nat \<Rightarrow> nat \<Rightarrow> released list" where
  "released_attrs i n =
     (if n = 0 then [] else [Attr_Value i 0, Attr_Node i 0] @ (if n = 1 then [] else [Attr_Value i (n - 1), Attr_Node i (n - 1)]))"

definition released_object :: "miqs_data_object list \<Rightarrow> nat \<Rightarrow> released list" where
  "released_object objs i = [Obj_Name i, Obj_Info i] @ released_attrs i (length (attr_nodes (objs ! i))) @ [Data_Object i]"

lemma free_attrs_linked:
  assumes "attrs_linked mdo" and "\<forall>a. Attr_Node i a \<notin> set freed"
  shows "free_attrs (Suc (length (attr_nodes mdo))) i (attr_nodes mdo) (attr_linked_list mdo) freed = Inr (freed @ released_attrs i (length (attr_nodes mdo)))"
proof -
  define n where "n = length (attr_nodes mdo)"
  have l: "attr_linked_list mdo = (if n = 0 then None else Some 0)" "\<And>k. k < n \<Longrightarrow> an_next (attr_nodes mdo ! k) = (if k = 0 \<and> 1 < n then Some (n - 1) else None)"
    using assms(1) by (auto simp: attrs_linked_def n_def Let_def)
  have len: "length (attr_nodes mdo) = n" by (simp add: n_def)
  consider "n = 0" | "n = 1" | m where "n = Suc (Suc m)" by (metis One_nat_def not0_implies_Suc)
  then show ?thesis using l assms(2) unfolding len by cases (auto simp: released_attrs_def len)
qed

lemma free_objects_linked:
  assumes "\<forall>mdo \<in> set objs. attrs_linked mdo" and "\<forall>j < length objs. do_next (objs ! j) = (if Suc j < length objs then Some (Suc j) else None)"
    and "i \<le> length objs" and "\<forall>j \<ge> i. Data_Object j \<notin> set freed \<and> (\<forall>a. Attr_Node j a \<notin> set freed)"
  shows "free_objects (Suc (length objs - i)) objs (if i < length objs then Some i else None) freed =
    Inr (freed @ concat (map (released_object objs) [i..<length objs]))"
  using assms(3,4)
proof (induction "length objs - i" arbitrary: i freed)
  case (Suc n)
  then have i: "i < length objs" "n = length objs - Suc i" by auto
  define freed' where "freed' = freed @ released_object objs i"
  have "attrs_linked (objs ! i)" using assms(1) i(1) by simp
  then have "free_attrs (Suc (length (attr_nodes (objs ! i)))) i (attr_nodes (objs ! i)) (attr_linked_list (objs ! i)) (freed @ [Obj_Name i, Obj_Info i]) =
      Inr ((freed @ [Obj_Name i, Obj_Info i]) @ released_attrs i (length (attr_nodes (objs ! i))))"
    using Suc.prems(2) by (intro free_attrs_linked) auto
  then have step: "free_objects (Suc k) objs (Some i) freed = free_objects k objs (do_next (objs ! i)) freed'" for k
    using i(1) Suc.prems(2) by (simp add: freed'_def released_object_def Let_def del: free_attrs.simps)
  have "\<forall>j \<ge> Suc i. Data_Object j \<notin> set freed' \<and> (\<forall>a. Attr_Node j a \<notin> set freed')"
    using Suc.prems(2) by (auto simp: freed'_def released_object_def released_attrs_def)
  moreover have "length objs - i = Suc (length objs - Suc i)" "[i..<length objs] = i # [Suc i..<length objs]" using i(1) by (auto simp: upt_conv_Cons)
  ultimately show ?case
    using Suc.hyps(1) [OF i(2), of freed'] i(1) assms(2) step by (simp add: freed'_def del: free_objects.simps)
qed simp

section \<open>After a scan\<close>

lemma attrs_linked_next [simp]:
  "attrs_linked (mdo\<lparr>do_next := x\<rparr>) = attrs_linked mdo" "attrs_linked (mdo\<lparr>do_tail := x\<rparr>) = attrs_linked mdo" "attrs_linked (mdo\<lparr>do_head := x\<rparr>) = attrs_linked mdo"
  by (simp_all add: attrs_linked_def)

definition all_attrs_linked :: "miqs_data_object list \<Rightarrow> bool" where
  "all_attrs_linked objs \<longleftrightarrow> (\<forall>mdo \<in> set objs. attrs_linked mdo)"

lemma all_attrs_update: "all_attrs_linked objs \<Longrightarrow> (i < length objs \<Longrightarrow> attrs_linked mdo) \<Longrightarrow> all_attrs_linked (objs[i := mdo])"
  by (cases "i < length objs") (auto simp: all_attrs_linked_def list_update_beyond dest!: subsetD [OF set_update_subset_insert])

lemma all_attrs_nth: "all_attrs_linked objs \<Longrightarrow> i < length objs \<Longrightarrow> attrs_linked (objs ! i)"
  by (simp add: all_attrs_linked_def)

lemma append_object_attrs:
  assumes "all_attrs_linked (mc_objects coll)" and "attrs_linked mdo"
  shows "all_attrs_linked (mc_objects (append_object mdo coll))"
proof -
  have app: "all_attrs_linked (xs @ [x]) \<longleftrightarrow> all_attrs_linked xs \<and> attrs_linked x" for xs x by (auto simp: all_attrs_linked_def)
  show ?thesis
    using assms by (auto simp: append_object_def Let_def app intro!: all_attrs_update all_attrs_nth split: option.split)
qed

lemma op_func_attrs:
  fixes coll :: "'o miqs_metadata_collector"
  assumes "op_func h coll = Inr coll'" and "all_attrs_linked (mc_objects coll)"
  shows "all_attrs_linked (mc_objects coll')"
proof -
  have empty: "attrs_linked (new_object h)" by (simp add: attrs_linked_def new_object_def)
  obtain mdo1 and coll1 :: "'o miqs_metadata_collector" where "attrs_linked mdo1" "mc_objects coll1 = mc_objects coll" "mc_objects coll' = mc_objects (append_object mdo1 coll1)"
  proof (cases "0 < sint (num_attrs (new_object h))")
    case True
    then obtain mdo1 op1 where it: "h5_iterate (attr_info (mc_on_attr coll)) (h5o_attrs h) (new_object h, opdata coll) = Inr (mdo1, op1)"
      using assms(1) by (auto simp: op_func_def Let_def)
    show thesis
      using True it assms(1) iterate_attrs_object [OF it empty]
      by (intro that [of mdo1 "coll\<lparr>opdata := op1, mc_total_num_attrs := mc_total_num_attrs coll + num_attrs (new_object h)\<rparr>"])
        (auto simp: op_func_def Let_def split: option.splits)
  next
    case False
    then show thesis
      using assms(1) empty by (intro that [of "new_object h" coll]) (auto simp: op_func_def Let_def split: option.splits)
  qed
  then show ?thesis using append_object_attrs [of coll1 mdo1] assms(2) by simp
qed

lemma iterate_attrs_linked: "h5_iterate op_func hs coll = Inr coll' \<Longrightarrow> all_attrs_linked (mc_objects coll) \<Longrightarrow> all_attrs_linked (mc_objects coll')"
  by (induction hs arbitrary: coll) (auto intro: op_func_attrs simp: ebind_def split: sum.splits)

text \<open>
  Releasing the collector of a scan ends without touching a released block and releases every object of the file once, in order, with its name and the information
  that the HDF5 library passed in; of the attributes of an object only the first and the last are released, and no name of an attribute is.
\<close>

theorem de_init_releases:
  assumes "scan_hdf5 (Some hf) False (Some (init_metadata_collector n op cb1 cb2)) = Inr (rc, Some coll)"
  shows "de_init_metadata_collector coll = Inr (concat (map (released_object (mc_objects coll)) [0..<length (h5_objects hf)]))"
proof -
  let ?c0 = "init_metadata_collector n op cb1 cb2"
  have it: "h5_iterate op_func (h5_objects hf) ?c0 = Inr coll" using assms by (auto simp: scan_hdf5_def)
  have "objects_linked ?c0" "mc_objects ?c0 = []" by (simp_all add: objects_linked_def init_metadata_collector_def)
  then have l: "objects_linked coll" "length (mc_objects coll) = length (h5_objects hf)" "all_attrs_linked (mc_objects coll)"
    using iterate_objects [OF it] iterate_attrs_linked [OF it] by (auto simp: all_attrs_linked_def dest: map_eq_imp_length_eq)
  then show ?thesis
    using free_objects_linked [of "mc_objects coll" 0 "[]"]
    by (auto simp: de_init_metadata_collector_def objects_linked_def all_attrs_linked_def Let_def)
qed

theorem de_init_releases_witness:
  "\<exists>coll :: unit miqs_metadata_collector.
    scan_hdf5 (Some \<lparr>h5_objects = [sample_h5_object [46] 3], h5_links = []\<rparr>) False (Some (init_metadata_collector 0 () None None)) = Inr (1, Some coll) \<and>
    de_init_metadata_collector coll = Inr (concat (map (released_object (mc_objects coll)) [0..<1]))"
proof -
  let ?hf = "\<lparr>h5_objects = [sample_h5_object [46] 3], h5_links = []\<rparr>"
  have "\<exists>coll :: unit miqs_metadata_collector.
      scan_hdf5 (Some ?hf) False (Some (init_metadata_collector 0 () None None)) = Inr (1, Some coll)"
    by (simp add: scan_hdf5_def op_func_def Let_def sample_h5_object_def sample_h5_attr_def new_object_def
        init_metadata_collector_def attr_info_def read_attribute_def read_int_attr_def read_numbers_def append_attr_def
        append_object_def upt_conv_Cons split: option.split)
  then obtain coll :: "unit miqs_metadata_collector" where
    c: "scan_hdf5 (Some ?hf) False (Some (init_metadata_collector 0 () None None)) = Inr (1, Some coll)" by blast
  from de_init_releases [OF c] c show ?thesis by (intro exI [of _ coll]) simp
qed

text \<open>Of an object with three attributes the middle one is left.\<close>

theorem middle_attribute_leaks:
  "Attr_Node i 1 \<notin> set (released_attrs i 3) \<and> Attr_Value i 1 \<notin> set (released_attrs i 3)"
  by (simp add: released_attrs_def)

end
