(* ===== verification/Tree_Destroy.thy ===== *)
theory Tree_Destroy
  imports Art_Map Rbtree "HOL-Library.Multiset"
begin

text \<open>
  Releasing a radix tree (src/src/index/art/art.c) and a red-black tree (src/src/index/libhl/rbtree.c): the blocks handed to \<^verbatim>\<open>free\<close>, in order. A block is
  named by what it holds.
\<close>

section \<open>Radix tree\<close>

datatype 'v art_block = Leaf_Block cstring 'v | Inner_Block "'v art_node"

text \<open>The loops over the children of the four kinds of node visit what \<open>kid_pairs\<close> lists; the node itself comes last.\<close>

function destroy_node :: "'v art_node \<Rightarrow> 'v art_block list" where
  "destroy_node n =
     (case n of
        Leaf k v \<Rightarrow> [Leaf_Block k v]
      | _ \<Rightarrow> concat (map (\<lambda>p. destroy_node (snd p)) (kid_pairs n)) @ [Inner_Block n])"
  by pat_completeness auto
termination
  by (relation "measure size") (auto simp only: in_measure wf_measure prod.sel dest: size_kid)

declare destroy_node.simps [simp del]

definition art_tree_destroy :: "'v art_tree \<Rightarrow> 'v art_block list" where
  "art_tree_destroy t = (case root t of None \<Rightarrow> [] | Some n \<Rightarrow> destroy_node n)"

definition leaf_blocks :: "'v art_block list \<Rightarrow> (cstring \<times> 'v) list" where
  "leaf_blocks bs = List.map_filter (\<lambda>b. case b of Leaf_Block k v \<Rightarrow> Some (k, v) | Inner_Block n \<Rightarrow> None) bs"

lemma leaf_blocks_simps [simp]:
  "leaf_blocks [] = []" "leaf_blocks (Leaf_Block k v # bs) = (k, v) # leaf_blocks bs" "leaf_blocks (Inner_Block n # bs) = leaf_blocks bs"
  by (simp_all add: leaf_blocks_def List.map_filter_simps)

lemma leaf_blocks_append [simp]: "leaf_blocks (xs @ ys) = leaf_blocks xs @ leaf_blocks ys"
  by (simp add: leaf_blocks_def map_filter_def)

lemma leaf_blocks_concat: "leaf_blocks (concat xss) = concat (map leaf_blocks xss)"
  by (induction xss) simp_all

lemma destroy_node_leaves: "leaf_blocks (destroy_node n) = art_entries n"
proof (induction n rule: measure_induct_rule [of size])
  case (less n)
  show ?case
  proof (cases "is_leaf n")
    case True
    then show ?thesis by (cases n) (simp_all add: destroy_node.simps)
  next
    case False
    then have "destroy_node n = concat (map (\<lambda>p. destroy_node (snd p)) (kid_pairs n)) @ [Inner_Block n]"
      by (subst destroy_node.simps) (cases n, simp_all)
    then have "leaf_blocks (destroy_node n) = concat (map (\<lambda>p. leaf_blocks (destroy_node (snd p))) (kid_pairs n))"
      by (simp add: leaf_blocks_concat comp_def)
    moreover have "map (\<lambda>p. leaf_blocks (destroy_node (snd p))) (kid_pairs n) = map (\<lambda>p. art_entries (snd p)) (kid_pairs n)"
      using less size_kid by (metis (no_types, lifting) map_eq_conv prod.collapse)
    ultimately show ?thesis by (simp only: art_entries_inner [OF False])
  qed
qed

text \<open>Destroying a radix tree releases the leaf of every entry, exactly once.\<close>

theorem art_destroy_releases_leaves:
  assumes "tree_inv t"
  shows "leaf_blocks (art_tree_destroy t) = tree_entries t \<and> distinct (map fst (leaf_blocks (art_tree_destroy t)))"
proof -
  have "leaf_blocks (art_tree_destroy t) = tree_entries t"
    by (simp add: art_tree_destroy_def tree_entries_def destroy_node_leaves split: option.split)
  then show ?thesis using tree_distinct [OF assms] by simp
qed

theorem art_destroy_releases_leaves_witness:
  "leaf_blocks (art_tree_destroy \<lparr>root = Some (Leaf (str ''k'') (5 :: nat)), art_size = 1\<rparr>) = [(str ''k'', 5)]"
  using art_destroy_releases_leaves [of "\<lparr>root = Some (Leaf (str ''k'') (5 :: nat)), art_size = 1\<rparr>"]
  by (simp add: tree_inv_def tree_entries_def art_inv_leaf no_nul_def str_def)

section \<open>Red-black tree\<close>

text \<open>The keys that are freed with the values the callback gets, children first.\<close>

primrec rbt_destroy_internal :: "('k, 'v) rbt_node \<Rightarrow> ('k \<times> 'v) list" where
  "rbt_destroy_internal Null = []"
| "rbt_destroy_internal (Node c l k v r) = rbt_destroy_internal l @ rbt_destroy_internal r @ [(k, v)]"

definition rbt_destroy :: "('k, 'v) rbt \<Rightarrow> ('k \<times> 'v) list" where
  "rbt_destroy t = rbt_destroy_internal (rbt_root t)"

text \<open>Destroying a red-black tree releases the key and the value of every node, exactly once.\<close>

theorem rbt_destroy_releases: "mset (rbt_destroy t) = mset (inorder (rbt_root t))"
proof -
  have "mset (rbt_destroy_internal n) = mset (inorder n)" for n :: "('k, 'v) rbt_node" by (induction n) auto
  then show ?thesis by (simp add: rbt_destroy_def)
qed

end
