(* ===== verification/Spec2Isabelle.thy ===== *)
theory Spec2Isabelle
  imports Miqs_Indexing Art_Delete Hashtable_Status Number_Index Spi_String Thpool_Destroy Linklist_Sort Rbtree_Remove Query_Utils Make_Path Rbuf Text_Utils Meta_Release Tree_Destroy
begin

text \<open>
  MIQS, a metadata index and querying service for HDF5 files (the C code under src/src).

  \<^bold>\<open>The program.\<close> A run scans HDF5 files (\<^verbatim>\<open>miqs_indexing.c\<close> walks the data set, \<^verbatim>\<open>utils/fs/fs_ops.c\<close> the directories,
  \<^verbatim>\<open>metadata/hdf5_meta_extractor.c\<close> the objects and attributes of a file) and hands every attribute through the callbacks of
  \<^verbatim>\<open>h52index/hdf52index.c\<close> to the in-memory index (\<^verbatim>\<open>index/in_mem_index.c\<close>). The index maps an attribute name to a leaf, through
  one adaptive radix tree (\<^verbatim>\<open>index/art/art.c\<close>) per hash slot, and the leaf maps a value to a list of file and object positions,
  through a red-black tree (\<^verbatim>\<open>index/libhl/rbtree.c\<close>) for numbers and a radix tree for strings; positions point into tables of paths
  kept in linked lists of tagged values (\<^verbatim>\<open>index/libhl/linklist.c\<close>). The index is appended to an \<^verbatim>\<open>aof\<close> file record by record
  or dumped to an \<^verbatim>\<open>mdb\<close> file and loaded again (\<^verbatim>\<open>index/on_disk_index.c\<close> over the typed fields of
  \<^verbatim>\<open>index/storage/bin_file_ops.c\<close>). Queries (\<^verbatim>\<open>miqs_querying.c\<close>) look a name and a value up and return the paths.

  \<^bold>\<open>Common ground.\<close> Words of the C widths (\<open>c_int\<close>, \<open>size_t\<close>, bytes); C strings as byte lists without their terminator;
  doubles as bit patterns. Everything that can go wrong returns \<open>c_error + 'a\<close>: the null dereferences, accesses out of bounds,
  divisions by zero and uses of unset pointers of the source are values, and \<open>No_Return\<close> stands for a loop that does not end.
  Malloc succeeds, except for the negative size of a ring buffer. Timers, memory counters and messages are left out; runs are sequential except for the threads of \<open>Hashtable_Status\<close> and \<open>Thpool\<close>.

  \<^bold>\<open>The theories.\<close>
  \<^item> \<open>Miqs_Prelude\<close>: types, the error monad, little-endian representation, shared lemmas and collections.
  \<^item> \<open>Bin_File_Ops\<close>: streams and typed fields. The locale \<open>field_codec\<close> is the contract between this layer and the files above
    it (what a writer appends the reader returns and the skipper steps over); it is interpreted for the five field types.
  \<^item> \<open>Linklist\<close>: the doubly linked list with its cursor, over the list of its entries; picking, inserting, fetching, iteration with
    removal, tagged values. The locale it exports is what the path tables and posting lists use. \<open>Linklist_Sort\<close>: its quicksort,
    slices and the rest of its interface.
  \<^item> \<open>Comparators\<close>, \<open>Rbtree\<close>: the key comparators with the overflow of the int one and the truncation of the double one; the
    tree with parents as zippers, insertion with rebalancing, find, walks and range walks. The locale \<open>key_order\<close> holds the
    tree's laws for a comparator that orders a key set; it is interpreted for ints and doubles on the keys their comparator orders.
    \<open>Rbtree_Remove\<close>: removal, on nodes in a store with their parent pointers.
  \<^item> \<open>Art_Node\<close>, \<open>Art\<close>, \<open>Art_Map\<close>, \<open>Art_Delete\<close>: the four node sizes with growing and shrinking, then search, insertion with path
    compression, deletion, iteration; and their meaning as a finite map from strings. The locale \<open>string_map\<close> is the contract
    the index relies on, \<open>string_map_del\<close> adds deletion.
  \<^item> \<open>Hash_Utils\<close>, \<open>String_Utils\<close>, \<open>Query_Utils\<close>: the string hashes, affixes and patterns, lists of tags.
  \<^item> \<open>Trie\<close>, \<open>String_Index\<close>: the prefix tree of libhl as a map, with its iterations, and the string indices of \<^verbatim>\<open>index/spi\<close> built on
    it and on the radix tree, with exact, prefix, suffix and infix search.
  \<^item> \<open>Hashtable\<close>, \<open>Hashtable_Status\<close>: the hash table of libhl, every operation, as a map (the locale \<open>byte_map\<close> is what a client of such
    a map relies on); and its threads as a step relation, with the status word, the locks of the buckets and the order of the steps.
  \<^item> \<open>Sparse_Array\<close>: the sparse array, the casts from keys to positions and the number index over it.
  \<^item> \<open>Skiplist\<close>: the skip list with its pointers and the number index over it. The locale \<open>exact_key_order\<close> adds to \<open>key_order\<close> that no
    two keys have the same value.
  \<^item> \<open>Number_Index\<close>, \<open>Spi_String\<close>: \<^verbatim>\<open>index/spi/spi.c\<close>, which chooses an index by environment variable, and the indices over the
    red-black tree, tsearch and the hash table. The locale \<open>string_store\<close> is what a client of a string index relies on; it is
    interpreted for the hash table and the tree.
  \<^item> \<open>Index_Types\<close>, \<open>On_Disk_Index\<close>, \<open>In_Mem_Index\<close>, \<open>Miqs_Querying\<close>: the index proper. Attribute and value leaves are shared
    between trees by pointer and live in a heap (\<open>index_heap\<close>), which the anchor extends; every operation passes the anchor on.
  \<^item> \<open>Index_Correct\<close>: the invariant \<open>index_inv\<close> of the anchor, the abstract index \<open>index_lookup\<close> and what indexing and searching
    do to it. \<open>Mdb_Roundtrip\<close>: the mdb file as the encoding of an abstract dump, and its loader.
  \<^item> \<open>Meta_Extractor\<close>, \<open>Fs_Ops\<close>, \<open>Miqs_Indexing\<close>: from directories and HDF5 files to the index. \<open>Make_Path\<close>: the other file helpers.
  \<^item> \<open>Meta_Release\<close>: releasing the objects and attributes of a collector. \<open>Tree_Destroy\<close>: releasing radix and red-black trees. \<open>Text_Utils\<close>: words of a file, random strings, output of a command, the stopwatch.
  \<^item> \<open>Rbuf\<close>: the ring buffer of rbuf.c, every operation, and its refinement of a bounded queue of bytes.
  \<^item> \<open>Thpool\<close>: the thread pool of \<^verbatim>\<open>utils/thread/thpool.c\<close>, its threads and the calls of the main thread as a step relation.
    \<open>Thpool_Destroy\<close>: runs that end with its destruction.
  \<^item> This theory: histories of indexing and querying (\<open>reach\<close>) and the log they refine, and properties of several components.

  \<^bold>\<open>What is shown.\<close> The containers are proved correct for all states that satisfy their invariants: the radix tree and the red-black
  tree as maps (with the height bound), the linked list as a list, which its quicksort sorts, the file formats as round trips. On top of them, indexing a
  numeric attribute whose values its comparator orders (see below) and whose name is new or has the same type posts its file and object under each of its values and nothing else, whatever was indexed before; an exact
  search for such a value returns exactly what was posted, in order; the index is a refinement of the log of what was indexed; dumping and loading
  an index with one slot (the default build) gives the same index. The directory walk visits every matching file of a tree of directories once and under its own path, and
  the processes divide them without gaps or overlap. Where the code does not do what it means to, the theorem states what it does:
  string attributes of new names never enter the index, attributes are posted under the object visited before, a search for something absent
  dereferences a null pointer, records of the append-only file cannot be indexed again, a dump with several slots cannot be loaded,
  the paths of a configuration are never used, index files overflow their path buffer, making a path that starts with two slashes never ends. For the hash table, sequences of operations of one
  thread refine a map and the status word excludes readers from writers, but two interleavings lose a key. The experimental string and
  number indices are maps under conditions on their keys, and agree where they are; outside them a key is missed, merged or lost.
  Every run of the thread pool ends with all its jobs done, in any interleaving, and waiting returns only then;
  destroying it ends all threads, but can release the pool while the last one holds its lock.

  \<^bold>\<open>Bounds.\<close> Key sets: the int comparator subtracts and orders only keys whose difference fits, so the tree laws hold for values
  in \<open>- (2 ^ 30) ..< 2 ^ 30\<close>; the double one truncates the difference, so they hold for doubles that are integers below
  \<open>2 ^ 30\<close>. Path tables hold less than \<open>2 ^ 31\<close> paths, lists and strings less than \<open>2 ^ 64\<close> elements. Recursion over trees is
  structural or by a measure; \<open>find_loop\<close> and \<open>load_loop\<close> recurse on the bytes left in the file. \<open>collect_dir\<close> takes fuel for the depth
  of the directories, and the \<open>tree_depth\<close> of the directory is enough; \<open>mkpath\<close> is a partial function, and when it returns is proved. The sizes of ring buffers are below \<open>2 ^ 30\<close>, linked lists
  have less than \<open>2 ^ 32\<close> entries, and a search in the append-only file has at most \<open>2 ^ 30\<close> matches. In the thread pool the unlock of the pool after its release is a step like any other
  (a theorem exhibits it), and threads do not wake up without a signal.

  \<^bold>\<open>Parameters.\<close> The HDF5 library (a file is what its iterators visit), the file system (listings, existence, contents), memory that was
  never set, the bytes behind a stored string, the throws of the skip list, tsearch, and the addresses the loader confuses with counts.

  \<^bold>\<open>Not modelled.\<close> The libhl containers that nothing else calls, except for the ring buffer; walks of the red-black tree that remove nodes; locks and free
  callbacks of linked lists; pausing the thread pool by signals; libuuid, printing, profiling and reporting of memory; the programs
  under apps.
\<close>

section \<open>Histories of an index\<close>

text \<open>
  The anchors a program reaches with \<open>indexing_attr\<close> and \<open>exact_metadata_search\<close>, each with the log of
  the attributes indexed so far.
\<close>

type_synonym log_entry = "cstring \<times> miqs_attr_type \<times> byte list list \<times> cstring \<times> cstring"

inductive reach :: "c_int \<Rightarrow> index_anchor \<Rightarrow> log_entry list \<Rightarrow> bool" for p where
  start: "0 < sint p \<Longrightarrow> reach p (init_in_mem_index p) []"
| index: "reach p A log \<Longrightarrow> can_index A attr ks f ob \<Longrightarrow> selected (attr_name attr) A \<Longrightarrow>
    on_disk_file_stream A = None \<or> is_readonly_index_file A \<noteq> 0 \<Longrightarrow> indexing_attr sb A attr = Inr (rc, A') \<Longrightarrow>
    reach p A' (log @ [(attr_name attr, attr_type attr, ks, f, ob)])"
| query: "reach p A log \<Longrightarrow> attr_of A name = Some a \<Longrightarrow> fits t (attr_leaves A ! a) \<Longrightarrow> numeric_type t \<Longrightarrow>
    k \<in> type_keys t \<Longrightarrow> leaf_get (attr_leaves A ! a) k \<noteq> None \<Longrightarrow>
    exact_metadata_search A name (Q_Num k) (query_type t) = Inr (rs, A') \<Longrightarrow> reach p A' log"

text \<open>What the log says is posted under a name and a value.\<close>

definition log_lookup :: "log_entry list \<Rightarrow> cstring \<Rightarrow> byte list \<Rightarrow> (cstring \<times> cstring) list" where
  "log_lookup log n k = concat (map (\<lambda>(n', t, ks, f, ob). if n' = n then replicate (occurrences t k ks) (f, ob) else []) log)"

lemma log_lookup_snoc [simp]:
  "log_lookup (log @ [(n', t, ks, f, ob)]) n k = log_lookup log n k @ (if n' = n then replicate (occurrences t k ks) (f, ob) else [])"
  "log_lookup [] n k = []"
  by (simp_all add: log_lookup_def)

lemma reach_index:
  assumes "reach p A log"
  shows "index_inv A \<and> (\<forall>n k. key_of A n k \<longrightarrow> index_lookup A n k = log_lookup log n k)"
  using assms
proof (induction rule: reach.induct)
  case start
  then show ?case using init_inv attr_of_init by (simp add: index_lookup_def)
next
  case (index A log attr ks f ob sb rc A')
  then show ?case using indexing_attr_spec [of A attr ks f ob sb] by auto
next
  case (query A log name a t k rs A')
  then obtain v where "leaf_get (attr_leaves A ! a) k = Some v" by blast
  with query exact_search_spec [of A name a t k v] browsed_key_of [of A A'] show ?case by auto
qed

section \<open>Properties\<close>

text \<open>C1: refinement, for numeric attributes of one type per name. Whatever numeric attributes that can be indexed were indexed and whatever exact searches that find
  something were run, in whatever order, starting from an empty index, the index
  keeps its invariant and holds, under every name and every key of the name's type, exactly what the log of indexed attributes
  says, in the order of indexing. An attribute can be indexed (\<open>can_index\<close>) if its values are integers in \<open>- (2 ^ 30) ..< 2 ^ 30\<close> or integral doubles of magnitude
  below \<open>2 ^ 30\<close>, its name is new or was first indexed with the same type, and the tables have room; its name is selected for indexing
  and no append-only file is written. Histories with strings, with two types under one name or with other doubles are outside of it; \<open>string_attr_art\<close>,
  \<open>int_attr_on_float_leaf\<close> and \<open>cmp_keys_double_collapses\<close> say what the code does there.\<close>

theorem reach_refines_log:
  assumes "reach p A log"
  shows "index_inv A \<and> (\<forall>n k. key_of A n k \<longrightarrow> index_lookup A n k = log_lookup log n k)"
  using reach_index [OF assms] .

theorem reach_refines_log_witness:
  "\<exists>A. reach 2 A [([120], MIQS_AT_INTEGER, [bytes4 5], [97], [47, 103])] \<and> index_inv A"
proof -
  let ?A = "init_in_mem_index 2"
  have p: "0 < sint (2 :: c_int)" by simp
  have sel: "selected (attr_name sample_attr) ?A" "on_disk_file_stream ?A = None \<or> is_readonly_index_file ?A \<noteq> 0"
    by (simp_all add: selected_def init_in_mem_index_def Let_def)
  obtain A' where A': "indexing_attr (\<lambda>_. []) ?A sample_attr = Inr (1, A')"
    using indexing_attr_spec [OF init_inv [OF p] sample_can_index sel] by blast
  have "reach 2 A' [([120], MIQS_AT_INTEGER, [bytes4 5], [97], [47, 103])]"
    using reach.index [OF reach.start [OF p] sample_can_index sel A'] by (simp add: sample_attr_def)
  with reach_refines_log [OF this] show ?thesis by blast
qed

text \<open>On every reachable index, an exact search for a name and a value the log knows returns the
  file and object paths of the log, in order.\<close>

theorem reach_search:
  assumes "reach p A log" and "numeric_type t" and "k \<in> type_keys t"
    and "attr_of A name = Some a" and "fits t (attr_leaves A ! a)" and "log_lookup log name k \<noteq> []"
  shows "\<exists>A'. exact_metadata_search A name (Q_Num k) (query_type t) = Inr (map rst_entry (log_lookup log name k), A') \<and>
    reach p A' log"
proof -
  have inv: "index_inv A" using reach_index [OF assms(1)] by blast
  have "key_of A name k" using assms(3,4) fits_simps(1) [OF assms(5)] by (simp add: key_of_def)
  then have l: "index_lookup A name k = log_lookup log name k" using reach_index [OF assms(1)] by blast
  then obtain v where v: "leaf_get (attr_leaves A ! a) k = Some v" "log_lookup log name k = postings A v"
    using lookup_nonempty [of A name k] assms(4,6) by auto
  obtain A' where A': "exact_metadata_search A name (Q_Num k) (query_type t) = Inr (map rst_entry (log_lookup log name k), A')"
    using exact_search_spec [OF inv assms(4,5,2,3) v(1)] v(2) by auto
  have "reach p A' log" using reach.query [OF assms(1,4,5,2,3) _ A'] v(1) by simp
  with A' show ?thesis by blast
qed

theorem reach_search_witness:
  "\<exists>A A'. exact_metadata_search A [120] (Q_Num (bytes4 5)) MIQS_ATV_INTEGER =
    Inr ([\<lparr>rst_file_path = Some [97], rst_obj_path = Some [47, 103]\<rparr>], A')"
proof -
  let ?A = "init_in_mem_index 2"
  have p: "0 < sint (2 :: c_int)" by simp
  have sel: "selected (attr_name sample_attr) ?A" "on_disk_file_stream ?A = None \<or> is_readonly_index_file ?A \<noteq> 0"
    by (simp_all add: selected_def init_in_mem_index_def Let_def)
  obtain A a where A: "indexing_attr (\<lambda>_. []) ?A sample_attr = Inr (1, A)" "attr_of A [120] = Some a"
    "fits MIQS_AT_INTEGER (attr_leaves A ! a)"
    using indexing_attr_spec [OF init_inv [OF p] sample_can_index sel, of "\<lambda>_. []"] by (auto simp: sample_attr_def)
  have r: "reach 2 A [([120], MIQS_AT_INTEGER, [bytes4 5], [97], [47, 103])]"
    using reach.index [OF reach.start [OF p] sample_can_index sel A(1)] by (simp add: sample_attr_def)
  show ?thesis
    using reach_search [OF r _ _ A(2,3), of "bytes4 5"]
    by (auto simp: numeric_type_def type_keys_def log_lookup_def occurrences_def query_type_def rst_entry_def)
qed

text \<open>C8: a well-formed index with one slot (parallelism 1, the default build) whose counts fit the dump's fields (\<open>sizes_ok\<close>) is dumped and loaded again,
  and the loaded index answers an exact search with the files and objects that were posted
  before, for every name and every numeric key of the name's type in the range of the comparator (integers in \<open>- (2 ^ 30) ..< 2 ^ 30\<close>, integral
  doubles of magnitude below \<open>2 ^ 30\<close>) under which something was posted. With two or more slots loading the dump crashes.\<close>

theorem recovered_search:
  assumes "index_inv A" and "parallelism A = 1" and "sizes_ok A" and "numeric_type t" and "k \<in> type_keys t"
    and "attr_of A name = Some a" and "fits t (attr_leaves A ! a)" and "index_lookup A name k \<noteq> []"
  shows "\<exists>bs A1 A2. dump_mdb_index_to_disk A = Inr (1, bs) \<and> load_mdb ptrs (Some bs) None = Inr (0, Some A1) \<and>
    exact_metadata_search A1 name (Q_Num k) (query_type t) = Inr (map rst_entry (index_lookup A name k), A2)"
proof -
  obtain bs A1 where A1: "dump_mdb_index_to_disk A = Inr (1, bs)" "load_mdb ptrs (Some bs) None = Inr (0, Some A1)"
    "index_inv A1" "attr_float A1 name = attr_float A name" "key_of A name k \<longrightarrow> index_lookup A1 name k = index_lookup A name k"
    using mdb_reload [OF assms(1-3), of ptrs] by blast
  have "key_of A name k" using assms(5,6) fits_simps(1) [OF assms(7)] by (simp add: key_of_def)
  with A1(5) have l: "index_lookup A1 name k = index_lookup A name k" by blast
  then obtain b v where v: "attr_of A1 name = Some b" "leaf_get (attr_leaves A1 ! b) k = Some v" "index_lookup A name k = postings A1 v"
    using lookup_nonempty [of A1 name k] assms(8) by auto
  have "fits t (attr_leaves A1 ! b)" using assms(6,7) A1(4) v(1) by (simp add: attr_float_def fits_def)
  from exact_search_spec [OF A1(3) v(1) this assms(4,5) v(2)] v(3) A1(1,2) show ?thesis by auto
qed

theorem recovered_search_witness:
  "\<exists>A bs A1 A2. dump_mdb_index_to_disk A = Inr (1, bs) \<and> load_mdb (\<lambda>_. 0) (Some bs) None = Inr (0, Some A1) \<and>
    exact_metadata_search A1 [120] (Q_Num (bytes4 5)) MIQS_ATV_INTEGER =
      Inr ([\<lparr>rst_file_path = Some [97], rst_obj_path = Some [47, 103]\<rparr>], A2)"
proof -
  obtain A a where A: "index_inv A" "parallelism A = 1" "sizes_ok A" "attr_of A [120] = Some a"
    "fits MIQS_AT_INTEGER (attr_leaves A ! a)" "index_lookup A [120] (bytes4 5) = [([97], [47, 103])]"
    using sample_index by (auto simp: fits_def)
  show ?thesis
    using recovered_search [OF A(1-3) _ _ A(4,5), of "bytes4 5" "\<lambda>_. 0"] A(6)
    by (auto simp: numeric_type_def type_keys_def query_type_def rst_entry_def)
qed

end
